(* ===== verification/CBase.thy ===== *)
theory CBase
  imports Main "HOL-Library.Multiset" "HOL-Library.Monad_Syntax"
begin

text \<open>
  Prelude of the development: what the modelled C code takes from the language and from
  \<^verbatim>\<open>stdlib.h\<close>, and the generic lemmas the component theories share.

  \<^item> \<open>c_error\<close> lists the ways an operation does not return: the macros
    \<open>Error\<close> and \<open>FatalError\<close> of \<^verbatim>\<open>src/DSAAC/fatal.h\<close> (print and
    \<open>exit(1)\<close>), and the undefined behaviours the code has to avoid.
  \<^item> Arrays are lists read and written through an \<open>int\<close> index. \<open>aget\<close> and
    \<open>aput\<close> give \<open>None\<close> out of range, so a theorem that an array routine
    returns \<open>Some\<close> is a proof that all its accesses are in bounds.
  \<^item> \<open>ck\<close> checks that the mathematical result of an \<open>int\<close> operation is
    representable (signed overflow is undefined behaviour in C).
\<close>

section \<open>Outcomes\<close>

datatype c_error =
    FatalError string   \<comment> \<open>message printed by \<open>Error\<close> / \<open>FatalError\<close>, then \<open>exit(1)\<close>\<close>
  | NullDeref           \<comment> \<open>a \<open>->\<close> on \<open>NULL\<close>\<close>
  | BadAccess           \<comment> \<open>a read or write of memory the program does not own\<close>
  | SignedOverflow
  | Uninitialised       \<comment> \<open>a read of a variable never written\<close>

type_synonym 'a res = "c_error + 'a"

named_theorems array_simps "reading and writing arrays through an int index"

text \<open>Sequencing of outcomes: the first failure ends the program.\<close>

fun bindr :: "'a res \<Rightarrow> ('a \<Rightarrow> 'b res) \<Rightarrow> 'b res" where
  "bindr (Inl e) f = Inl e"
| "bindr (Inr x) f = f x"

lemma bindr_cong [fundef_cong]:
  "m = m' \<Longrightarrow> (\<And>x. m' = Inr x \<Longrightarrow> f x = f' x) \<Longrightarrow> bindr m f = bindr m' f'"
  by (cases m') auto

lemma bindr_eq_Inr: "bindr m f = Inr y \<longleftrightarrow> (\<exists>x. m = Inr x \<and> f x = Inr y)"
  by (cases m) auto

fun insert_all :: "('a \<Rightarrow> 't \<Rightarrow> 't res) \<Rightarrow> 'a list \<Rightarrow> 't \<Rightarrow> 't res" where
  \<comment> \<open>the loop \<open>for( ... ) T = Insert( j, T );\<close> of the test programs\<close>
  "insert_all ins [] t = Inr t"
| "insert_all ins (x # xs) t = bindr (ins x t) (insert_all ins xs)"

text \<open>Operations that may not end: \<open>None\<close> is not ending.\<close>

definition andthen :: "'a res option \<Rightarrow> ('a \<Rightarrow> 'b res option) \<Rightarrow> 'b res option" where
  "andthen m f = (case m of None \<Rightarrow> None | Some (Inl e) \<Rightarrow> Some (Inl e) | Some (Inr x) \<Rightarrow> f x)"

lemma andthen_ok [simp]: "andthen (Some (Inr x)) f = f x" "andthen (Some (Inl e)) f = Some (Inl e)"
  by (simp_all add: andthen_def)

definition after :: "'a res \<Rightarrow> ('a \<Rightarrow> 'b res option) \<Rightarrow> 'b res option" where
  "after m f = (case m of Inl e \<Rightarrow> Some (Inl e) | Inr x \<Rightarrow> f x)"

lemma after_ok [simp]: "after (Inr x) f = f x" "after (Inl e) f = Some (Inl e)"
  by (simp_all add: after_def)

text \<open>The same for \<open>option\<close>, with the \<open>do\<close> notation of \<open>Monad_Syntax\<close>.\<close>

declare Option.bind_cong [fundef_cong]

section \<open>Machine integers\<close>

abbreviation INT_MIN :: int where "INT_MIN \<equiv> -2147483648"
abbreviation INT_MAX :: int where "INT_MAX \<equiv> 2147483647"

definition ck :: "int \<Rightarrow> int option" where
  "ck x = (if INT_MIN \<le> x \<and> x \<le> INT_MAX then Some x else None)"

lemma ck_ok [simp]: "INT_MIN \<le> x \<Longrightarrow> x \<le> INT_MAX \<Longrightarrow> ck x = Some x"
  by (simp add: ck_def)

lemma ck_Some_iff: "ck x = Some y \<longleftrightarrow> y = x \<and> INT_MIN \<le> x \<and> x \<le> INT_MAX"
  by (auto simp: ck_def)

section \<open>Arrays\<close>

abbreviation len :: "'a list \<Rightarrow> int" where "len A \<equiv> int (length A)"

definition inb :: "'a list \<Rightarrow> int \<Rightarrow> bool" where
  "inb A i \<longleftrightarrow> 0 \<le> i \<and> i < len A"

definition elt :: "'a list \<Rightarrow> int \<Rightarrow> 'a" where
  "elt A i = A ! nat i"

definition upd :: "'a list \<Rightarrow> int \<Rightarrow> 'a \<Rightarrow> 'a list" where
  "upd A i v = A[nat i := v]"

definition aget :: "'a list \<Rightarrow> int \<Rightarrow> 'a option" where
  "aget A i = (if inb A i then Some (elt A i) else None)"

definition aput :: "'a list \<Rightarrow> int \<Rightarrow> 'a \<Rightarrow> 'a list option" where
  "aput A i v = (if inb A i then Some (upd A i v) else None)"

lemma inbI [intro]: "0 \<le> i \<Longrightarrow> i < len A \<Longrightarrow> inb A i"
  by (simp add: inb_def)

lemma inb_upd [simp]: "inb (upd A i v) j = inb A j"
  by (simp add: inb_def upd_def)

lemma length_upd [simp]: "length (upd A i v) = length A"
  by (simp add: upd_def)

lemma elt_upd: "inb A i \<Longrightarrow> 0 \<le> j \<Longrightarrow> elt (upd A i v) j = (if j = i then v else elt A j)"
  by (auto simp: elt_def upd_def inb_def nth_list_update nat_eq_iff)

lemma elt_upd_same [simp]: "inb A i \<Longrightarrow> elt (upd A i v) i = v"
  by (simp add: elt_upd inb_def)

lemma elt_upd_other [simp]: "0 \<le> i \<Longrightarrow> 0 \<le> j \<Longrightarrow> i \<noteq> j \<Longrightarrow> elt (upd A i v) j = elt A j"
  by (auto simp: elt_def upd_def)

lemma upd_upd [simp]: "upd (upd A i v) i w = upd A i w"
  by (simp add: upd_def)

lemma upd_elt [simp]: "upd A i (elt A i) = A"
  by (simp add: upd_def elt_def)

lemma upd_commute: "0 \<le> i \<Longrightarrow> 0 \<le> j \<Longrightarrow> i \<noteq> j \<Longrightarrow> upd (upd A i v) j w = upd (upd A j w) i v"
  by (simp add: upd_def list_update_swap)

lemma aget_ok [simp]: "inb A i \<Longrightarrow> aget A i = Some (elt A i)"
  by (simp add: aget_def)

lemma aput_ok [simp]: "inb A i \<Longrightarrow> aput A i v = Some (upd A i v)"
  by (simp add: aput_def)

lemma aget_Some_iff: "aget A i = Some x \<longleftrightarrow> inb A i \<and> x = elt A i"
  by (auto simp: aget_def)

lemma aput_Some_iff: "aput A i v = Some B \<longleftrightarrow> inb A i \<and> B = upd A i v"
  by (auto simp: aput_def)

lemma elt_in_set: "inb A i \<Longrightarrow> elt A i \<in> set A"
  by (auto simp: elt_def inb_def)

lemma set_elt: "x \<in> set A \<longleftrightarrow> (\<exists>i. inb A i \<and> elt A i = x)"
proof
  assume "x \<in> set A"
  then obtain k where "k < length A" "A ! k = x" by (auto simp: in_set_conv_nth)
  then have "inb A (int k) \<and> elt A (int k) = x" by (simp add: inb_def elt_def)
  then show "\<exists>i. inb A i \<and> elt A i = x" ..
qed (auto dest: elt_in_set)

lemma list_eq_elt: "length A = length B \<Longrightarrow> (\<And>i. inb A i \<Longrightarrow> elt A i = elt B i) \<Longrightarrow> A = B"
proof (rule nth_equalityI)
  fix k assume "length A = length B" "\<And>i. inb A i \<Longrightarrow> elt A i = elt B i" "k < length A"
  then show "A ! k = B ! k" by (metis elt_def inbI nat_int of_nat_0_le_iff of_nat_less_iff)
qed

text \<open>A block of \<open>n\<close> cells from \<open>malloc\<close> holds whatever the memory held:
  \<open>g\<close>.\<close>

definition malloc_cells :: "(int \<Rightarrow> 'a) \<Rightarrow> int \<Rightarrow> 'a list" where
  "malloc_cells g n = map g [0..n - 1]"

lemma length_malloc_cells [simp]: "length (malloc_cells g n) = nat n"
  by (simp add: malloc_cells_def)

section \<open>Permutations and ordered ranges of arrays\<close>

lemma mset_upd_upd:
  assumes "inb A i" "inb A j"
  shows "mset (upd (upd A i (elt A j)) j (elt A i)) = mset A"
  using assms mset_swap [of "nat j" A "nat i"]
  by (auto simp: upd_def elt_def inb_def)

text \<open>Moving a hole: the multiset with \<open>T\<close> stored in the hole is unchanged.\<close>

lemma mset_move_hole:
  assumes "inb A i" "inb A j"
  shows "mset (upd (upd A j (elt A i)) i T) = mset (upd A j T)"
proof (cases "i = j")
  case False
  let ?B = "upd A j T"
  have B: "inb ?B i" "inb ?B j" using assms by simp_all
  have "elt ?B i = elt A i" "elt ?B j = T"
    using assms False by (simp_all add: inb_def)
  then have "upd (upd ?B j (elt ?B i)) i (elt ?B j) = upd (upd A j (elt A i)) i T"
    by simp
  then show ?thesis using mset_upd_upd [OF B(2) B(1)] by simp
qed simp

definition ordered :: "int list \<Rightarrow> int \<Rightarrow> int \<Rightarrow> bool" where
  \<comment> \<open>the cells \<open>l..h\<close> (both included) are in ascending order\<close>
  "ordered A l h \<longleftrightarrow> (\<forall>i j. l \<le> i \<and> i \<le> j \<and> j \<le> h \<longrightarrow> elt A i \<le> elt A j)"

definition same_outside :: "int list \<Rightarrow> int list \<Rightarrow> int \<Rightarrow> int \<Rightarrow> bool" where
  "same_outside A B l h \<longleftrightarrow>
     length B = length A \<and> (\<forall>i. inb A i \<and> \<not> (l \<le> i \<and> i \<le> h) \<longrightarrow> elt B i = elt A i)"

definition rearranged :: "int list \<Rightarrow> int list \<Rightarrow> int \<Rightarrow> int \<Rightarrow> bool" where
  \<comment> \<open>\<open>B\<close> is \<open>A\<close> with the cells \<open>l..h\<close> permuted among themselves\<close>
  "rearranged A B l h \<longleftrightarrow> mset B = mset A \<and> same_outside A B l h"

lemma orderedI: "(\<And>i j. l \<le> i \<Longrightarrow> i \<le> j \<Longrightarrow> j \<le> h \<Longrightarrow> elt A i \<le> elt A j) \<Longrightarrow> ordered A l h"
  by (simp add: ordered_def)

lemma orderedD: "ordered A l h \<Longrightarrow> l \<le> i \<Longrightarrow> i \<le> j \<Longrightarrow> j \<le> h \<Longrightarrow> elt A i \<le> elt A j"
  by (simp add: ordered_def)

lemma ordered_single: "h \<le> l \<Longrightarrow> ordered A l h"
proof (rule orderedI)
  fix i j assume "h \<le> l" "l \<le> i" "i \<le> j" "j \<le> h"
  then have "i = j" by simp
  then show "elt A i \<le> elt A j" by simp
qed

lemma ordered_sorted: "ordered A 0 (len A - 1) \<longleftrightarrow> sorted A"
proof
  assume o: "ordered A 0 (len A - 1)"
  show "sorted A"
  proof (rule sorted_iff_nth_mono [THEN iffD2], intro allI impI)
    fix i j assume "i \<le> j" "j < length A"
    then show "A ! i \<le> A ! j" using orderedD [OF o, of "int i" "int j"] by (simp add: elt_def)
  qed
next
  assume "sorted A"
  then show "ordered A 0 (len A - 1)"
    by (intro orderedI) (auto simp: elt_def intro!: sorted_nth_mono)
qed

lemma same_outside_refl [simp]: "same_outside A A l h"
  by (simp add: same_outside_def)

lemma same_outside_trans:
  "same_outside A B l h \<Longrightarrow> same_outside B C l h \<Longrightarrow> same_outside A C l h"
  by (auto simp: same_outside_def inb_def)

lemma same_outside_mono:
  "same_outside A B l h \<Longrightarrow> l' \<le> l \<Longrightarrow> h \<le> h' \<Longrightarrow> same_outside A B l' h'"
  by (auto simp: same_outside_def)

lemma same_outside_trans2:
  "same_outside A B l h \<Longrightarrow> same_outside B C l' h' \<Longrightarrow> m \<le> l \<Longrightarrow> m \<le> l' \<Longrightarrow> h \<le> n \<Longrightarrow> h' \<le> n \<Longrightarrow>
     same_outside A C m n"
  by (rule same_outside_trans [OF same_outside_mono same_outside_mono])

lemma same_outside_upd: "inb A i \<Longrightarrow> l \<le> i \<Longrightarrow> i \<le> h \<Longrightarrow> same_outside A (upd A i v) l h"
  by (auto simp: same_outside_def inb_def elt_upd)

lemma rearranged_refl [simp]: "rearranged A A l h"
  by (simp add: rearranged_def)

lemma rearranged_length: "rearranged A B l h \<Longrightarrow> length B = length A"
  by (simp add: rearranged_def same_outside_def)

lemma rearranged_inb: "rearranged A B l h \<Longrightarrow> inb B i = inb A i"
  by (simp add: inb_def rearranged_length)

lemma rearranged_outside:
  "rearranged A B l h \<Longrightarrow> inb A i \<Longrightarrow> i < l \<or> h < i \<Longrightarrow> elt B i = elt A i"
  unfolding rearranged_def same_outside_def by (metis linorder_not_le)

lemma rearranged_trans:
  "rearranged A B l h \<Longrightarrow> rearranged B C l h \<Longrightarrow> rearranged A C l h"
  by (auto simp: rearranged_def intro: same_outside_trans)

lemma rearranged_mono:
  "rearranged A B l h \<Longrightarrow> l' \<le> l \<Longrightarrow> h \<le> h' \<Longrightarrow> rearranged A B l' h'"
  by (auto simp: rearranged_def intro: same_outside_mono)

lemma rearranged_trans2:
  "rearranged A B l h \<Longrightarrow> rearranged B C l' h' \<Longrightarrow> m \<le> l \<Longrightarrow> m \<le> l' \<Longrightarrow> h \<le> n \<Longrightarrow> h' \<le> n \<Longrightarrow>
     rearranged A C m n"
  by (rule rearranged_trans [OF rearranged_mono rearranged_mono])

text \<open>A property of all cells of the range survives the rearrangement.\<close>

lemma count_mset_card: "count (mset A) v = card {i. inb A i \<and> elt A i = v}"
proof -
  have "count (mset A) v = card {k. k < length A \<and> A ! k = v}"
    by (simp only: count_mset count_list_eq_length_filter length_filter_conv_card eq_commute [of v])
  also have "\<dots> = card (int ` {k. k < length A \<and> A ! k = v})"
    by (simp add: card_image)
  also have "int ` {k. k < length A \<and> A ! k = v} = {i. inb A i \<and> elt A i = v}"
  proof (intro equalityI subsetI)
    fix i assume "i \<in> {i. inb A i \<and> elt A i = v}"
    then have "nat i < length A" "A ! nat i = v" "i = int (nat i)" by (auto simp: inb_def elt_def)
    then show "i \<in> int ` {k. k < length A \<and> A ! k = v}" by blast
  qed (auto simp: inb_def elt_def)
  finally show ?thesis .
qed

lemma finite_inb [simp]: "finite {i. inb A i \<and> P i}"
  by (rule finite_subset [of _ "{0..<len A}"]) (auto simp: inb_def)

lemma rearranged_all:
  assumes r: "rearranged A B l h" and P: "\<And>i. inb A i \<Longrightarrow> l \<le> i \<Longrightarrow> i \<le> h \<Longrightarrow> P (elt A i)"
    and x: "inb A x" "l \<le> x" "x \<le> h"
  shows "P (elt B x)"
proof (rule ccontr)
  assume n: "\<not> P (elt B x)"
  let ?S = "{i. inb A i \<and> elt A i = elt B x}" and ?T = "{i. inb B i \<and> elt B i = elt B x}"
  have S: "\<And>i. i \<in> ?S \<Longrightarrow> i < l \<or> h < i" using P n by fastforce
  have "?S \<subseteq> ?T" using S rearranged_outside [OF r] rearranged_inb [OF r] by fastforce
  moreover have "x \<in> ?T" "x \<notin> ?S" using x S [of x] rearranged_inb [OF r] by auto
  ultimately have "card ?S < card ?T" by (intro psubset_card_mono) auto
  moreover have "card ?S = card ?T"
    using r count_mset_card [of A "elt B x"] count_mset_card [of B "elt B x"]
    by (simp add: rearranged_def)
  ultimately show False by simp
qed

lemma rearranged_swap:
  "inb A i \<Longrightarrow> inb A j \<Longrightarrow> l \<le> i \<Longrightarrow> i \<le> h \<Longrightarrow> l \<le> j \<Longrightarrow> j \<le> h \<Longrightarrow>
     rearranged A (upd (upd A i (elt A j)) j (elt A i)) l h"
  unfolding rearranged_def
  by (auto simp: mset_upd_upd same_outside_def inb_def)

end
