(* ===== verification/SortInsertion.thy ===== *)
theory SortInsertion
  imports CBase
begin

text \<open>
  \<^verbatim>\<open>src/DSAAC/sort.c\<close>, lines 8-52: \<open>Swap\<close>, \<open>InsertionSort\<close> and
  \<open>Shellsort\<close>. An array argument is a list; the pointer arithmetic
  \<open>A + Left\<close> of the callers is the extra argument \<open>b\<close>, the base the
  indices are counted from. \<open>None\<close> is an access outside the array.
\<close>

section \<open>Operations\<close>

definition Swap :: "int list \<Rightarrow> int \<Rightarrow> int \<Rightarrow> int list option" where
  "Swap A i j = do {
     Tmp \<leftarrow> aget A i;
     y \<leftarrow> aget A j;
     A \<leftarrow> aput A i y;
     aput A j Tmp
   }"

text \<open>The inner loop \<open>for( j = P; j > 0 && A[ j - 1 ] > Tmp; j-- )\<close>.\<close>

function InsertionSort_shift :: "int list \<Rightarrow> int \<Rightarrow> int \<Rightarrow> int \<Rightarrow> (int list \<times> int) option" where
  "InsertionSort_shift A b Tmp j =
     (if j > 0 then do {
        x \<leftarrow> aget A (b + (j - 1));
        if x > Tmp then do {
          A \<leftarrow> aput A (b + j) x;
          InsertionSort_shift A b Tmp (j - 1)
        } else Some (A, j)
      } else Some (A, j))"
  by pat_completeness auto
termination
  by (relation "measure (\<lambda>(A, b, Tmp, j). nat j)") auto

function InsertionSort_loop :: "int list \<Rightarrow> int \<Rightarrow> int \<Rightarrow> int \<Rightarrow> int list option" where
  "InsertionSort_loop A b N P =
     (if P < N then do {
        Tmp \<leftarrow> aget A (b + P);
        (A, j) \<leftarrow> InsertionSort_shift A b Tmp P;
        A \<leftarrow> aput A (b + j) Tmp;
        InsertionSort_loop A b N (P + 1)
      } else Some A)"
  by pat_completeness auto
termination
  by (relation "measure (\<lambda>(A, b, N, P). nat (N - P))") auto

definition InsertionSort :: "int list \<Rightarrow> int \<Rightarrow> int \<Rightarrow> int list option" where
  "InsertionSort A b N = InsertionSort_loop A b N 1"

text \<open>The inner loop of \<open>Shellsort\<close>: \<open>for( j = i; j >= Increment; j -= Increment )\<close>.\<close>

function Shellsort_shift :: "int list \<Rightarrow> int \<Rightarrow> int \<Rightarrow> int \<Rightarrow> (int list \<times> int) option" where
  "Shellsort_shift A Tmp Increment j =
     (if Increment > 0 \<and> j \<ge> Increment then do {
        x \<leftarrow> aget A (j - Increment);
        if Tmp < x then do {
          A \<leftarrow> aput A j x;
          Shellsort_shift A Tmp Increment (j - Increment)
        } else Some (A, j)
      } else Some (A, j))"
  by pat_completeness auto
termination
  by (relation "measure (\<lambda>(A, Tmp, Inc, j). nat j)") auto

function Shellsort_pass :: "int list \<Rightarrow> int \<Rightarrow> int \<Rightarrow> int \<Rightarrow> int list option" where
  "Shellsort_pass A N Increment i =
     (if i < N then do {
        Tmp \<leftarrow> aget A i;
        (A, j) \<leftarrow> Shellsort_shift A Tmp Increment i;
        A \<leftarrow> aput A j Tmp;
        Shellsort_pass A N Increment (i + 1)
      } else Some A)"
  by pat_completeness auto
termination
  by (relation "measure (\<lambda>(A, N, Inc, i). nat (N - i))") auto

function Shellsort_loop :: "int list \<Rightarrow> int \<Rightarrow> int \<Rightarrow> int list option" where
  "Shellsort_loop A N Increment =
     (if Increment > 0 then do {
        A \<leftarrow> Shellsort_pass A N Increment Increment;
        Shellsort_loop A N (Increment div 2)
      } else Some A)"
  by pat_completeness auto
termination
  by (relation "measure (\<lambda>(A, N, Inc). nat Inc)") auto

definition Shellsort :: "int list \<Rightarrow> int \<Rightarrow> int list option" where
  "Shellsort A N = Shellsort_loop A N (N div 2)"

declare InsertionSort_shift.simps [simp del] InsertionSort_loop.simps [simp del]
  Shellsort_shift.simps [simp del] Shellsort_pass.simps [simp del] Shellsort_loop.simps [simp del]

section \<open>Swap\<close>

lemma Swap_ok:
  "inb A i \<Longrightarrow> inb A j \<Longrightarrow> Swap A i j = Some (upd (upd A i (elt A j)) j (elt A i))"
  by (simp add: Swap_def)

section \<open>InsertionSort\<close>

text \<open>
  What the inner loop does: the cells \<open>j'..j-1\<close> move one place to the right, all of
  them greater than \<open>Tmp\<close>, and the hole ends at \<open>j'\<close>.
\<close>

definition shifted :: "int list \<Rightarrow> int list \<Rightarrow> int \<Rightarrow> int \<Rightarrow> int \<Rightarrow> int \<Rightarrow> bool" where
  "shifted A B b Tmp j j' \<longleftrightarrow> 0 \<le> j' \<and> j' \<le> j \<and> length B = length A \<and>
     (\<forall>k. j' < k \<and> k \<le> j \<longrightarrow> elt B (b + k) = elt A (b + k - 1) \<and> elt A (b + k - 1) > Tmp) \<and>
     (\<forall>k. inb A k \<and> (k \<le> b + j' \<or> b + j < k) \<longrightarrow> elt B k = elt A k) \<and>
     (j' = 0 \<or> elt A (b + j' - 1) \<le> Tmp) \<and>
     mset (upd B (b + j') Tmp) = mset (upd A (b + j) Tmp)"

lemma shiftedD:
  assumes "shifted A B b Tmp j j'"
  shows "0 \<le> j'" "j' \<le> j" "length B = length A"
    and "mset (upd B (b + j') Tmp) = mset (upd A (b + j) Tmp)"
    and "j' = 0 \<or> elt A (b + j' - 1) \<le> Tmp"
    and "\<And>k. j' < k \<Longrightarrow> k \<le> j \<Longrightarrow> elt B (b + k) = elt A (b + k - 1)"
    and "\<And>k. j' < k \<Longrightarrow> k \<le> j \<Longrightarrow> elt A (b + k - 1) > Tmp"
    and "\<And>k. inb A k \<Longrightarrow> k \<le> b + j' \<Longrightarrow> elt B k = elt A k"
    and "\<And>k. inb A k \<Longrightarrow> b + j < k \<Longrightarrow> elt B k = elt A k"
  using assms unfolding shifted_def by blast+

lemma InsertionSort_shift_ok:
  assumes "0 \<le> b" "0 \<le> j" "inb A (b + j)"
  shows "\<exists>B j'. InsertionSort_shift A b Tmp j = Some (B, j') \<and> shifted A B b Tmp j j'"
  using assms
proof (induction A b Tmp j rule: InsertionSort_shift.induct)
  case (1 A b Tmp j)
  show ?case
  proof (cases "j > 0 \<and> elt A (b + (j - 1)) > Tmp")
    case False
    have "InsertionSort_shift A b Tmp j = Some (A, j)"
      using False "1.prems" by (subst InsertionSort_shift.simps) (auto simp: inb_def aget_def)
    moreover have "shifted A A b Tmp j j"
      using False "1.prems" by (auto simp: shifted_def algebra_simps)
    ultimately show ?thesis by blast
  next
    case True
    let ?x = "elt A (b + (j - 1))" and ?A = "upd A (b + j) (elt A (b + (j - 1)))"
    have i: "inb A (b + (j - 1))" using True "1.prems" by (simp add: inb_def)
    have "\<exists>B j'. InsertionSort_shift ?A b Tmp (j - 1) = Some (B, j') \<and> shifted ?A B b Tmp (j - 1) j'"
      using "1.IH" [of ?x ?A] True "1.prems" i by simp
    then obtain B j' where r: "InsertionSort_shift ?A b Tmp (j - 1) = Some (B, j')"
      and s: "shifted ?A B b Tmp (j - 1) j'" by blast
    have "InsertionSort_shift A b Tmp j = Some (B, j')"
      using True "1.prems" i r by (subst InsertionSort_shift.simps) simp
    moreover have "shifted A B b Tmp j j'"
    proof -
      have m: "mset (upd ?A (b + (j - 1)) Tmp) = mset (upd A (b + j) Tmp)"
        using mset_move_hole [of A "b + (j - 1)" "b + j" Tmp] i "1.prems" by simp
      have e: "\<And>k. 0 \<le> k \<Longrightarrow> k \<noteq> b + j \<Longrightarrow> elt ?A k = elt A k" "elt ?A (b + j) = ?x"
        using "1.prems" by (simp_all add: inb_def)
      note d = shiftedD [OF s]
      have s1: "elt B (b + k) = elt A (b + k - 1) \<and> elt A (b + k - 1) > Tmp" if "j' < k" "k \<le> j" for k
      proof (cases "k = j")
        case kj: True
        have "elt B (b + j) = elt ?A (b + j)" using d(9) [of "b + j"] "1.prems" by simp
        with kj e(2) True show ?thesis by (simp add: algebra_simps)
      next
        case False
        with that have "k \<le> j - 1" by simp
        with d(6) [of k] d(7) [of k] that e(1) [of "b + k - 1"] d(1) "1.prems"(1)
        show ?thesis by simp
      qed
      have s2: "elt B k = elt A k" if "inb A k" "k \<le> b + j' \<or> b + j < k" for k
        using that d(2) d(8) [of k] d(9) [of k] e(1) [of k] by (cases "k \<le> b + j'") (auto simp: inb_def)
      have s3: "j' = 0 \<or> elt A (b + j' - 1) \<le> Tmp"
        using d(1,2,5) e(1) [of "b + j' - 1"] "1.prems"(1) by (cases "j' = 0") auto
      have s4: "j' \<le> j" using d(2) by simp
      have s5: "mset (upd B (b + j') Tmp) = mset (upd A (b + j) Tmp)" using d(4) m by simp
      show ?thesis unfolding shifted_def using s1 s2 s3 s4 s5 d(1,3) by auto
    qed
    ultimately show ?thesis by blast
  qed
qed

text \<open>Storing \<open>Tmp\<close> in the hole extends the ordered prefix by one cell.\<close>

lemma shifted_ordered:
  assumes s: "shifted A B b Tmp j j'" and b: "0 \<le> b" "inb A (b + j)"
    and o: "ordered A b (b + (j - 1))"
  shows "ordered (upd B (b + j') Tmp) b (b + j)"
proof (rule orderedI)
  let ?C = "upd B (b + j') Tmp"
  note d = shiftedD [OF s]
  have iB: "inb B (b + j')" using d(1-3) b by (simp add: inb_def)
  have cell: "elt ?C x = (if x < b + j' then elt A x else if x = b + j' then Tmp else elt A (x - 1))"
    if "b \<le> x" "x \<le> b + j" for x
  proof -
    have i: "inb A x" using that b by (simp add: inb_def)
    consider "x < b + j'" | "x = b + j'" | "b + j' < x" by linarith
    then show ?thesis
      by cases (use i d(6) [of "x - b"] d(8) [of x] that iB b in \<open>simp_all add: elt_upd\<close>)
  qed
  have low: "elt A x \<le> Tmp" if "b \<le> x" "x < b + j'" for x
  proof -
    have "elt A x \<le> elt A (b + j' - 1)" using that d(1,2) by (intro orderedD [OF o]) auto
    also have "\<dots> \<le> Tmp" using d(5) that by auto
    finally show ?thesis .
  qed
  have high: "Tmp \<le> elt A (x - 1)" if "b + j' < x" "x \<le> b + j" for x
    using d(7) [of "x - b"] that by simp
  fix x y assume xy: "b \<le> x" "x \<le> y" "y \<le> b + j"
  consider "y < b + j'" | "x < b + j'" "y = b + j'" | "x < b + j'" "b + j' < y"
    | "x = b + j'" "y = b + j'" | "x = b + j'" "b + j' < y" | "b + j' < x"
    using xy by linarith
  then show "elt ?C x \<le> elt ?C y"
  proof cases
    case 3
    with low [of x] high [of y] cell [of x] cell [of y] xy show ?thesis by simp
  qed (use cell [of x] cell [of y] low [of x] high [of y] xy d(1,2) in \<open>auto intro: orderedD [OF o]\<close>)
qed

lemma shifted_rearranged:
  assumes "shifted A B b (elt A (b + j)) j j'" "0 \<le> b" "inb A (b + j)"
  shows "rearranged A (upd B (b + j') (elt A (b + j))) b (b + j)"
proof -
  note d = shiftedD [OF assms(1)]
  have "elt (upd B (b + j') (elt A (b + j))) i = elt A i"
    if "inb A i" "\<not> (b \<le> i \<and> i \<le> b + j)" for i
  proof -
    have "elt B i = elt A i" using d(8,9) [of i] d(1) that by (cases "i < b") auto
    moreover have "i \<noteq> b + j'" using d(1,2) that by auto
    ultimately show ?thesis using that d(1) assms(2) by (simp add: inb_def)
  qed
  with d(3,4) show ?thesis by (simp add: rearranged_def same_outside_def)
qed

lemma InsertionSort_loop_ok:
  assumes "0 \<le> b" "1 \<le> P" "P \<le> N" "b + N \<le> len A" "ordered A b (b + (P - 1))"
  shows "\<exists>B. InsertionSort_loop A b N P = Some B \<and> rearranged A B b (b + (N - 1)) \<and>
             ordered B b (b + (N - 1))"
  using assms
proof (induction A b N P rule: InsertionSort_loop.induct)
  case (1 A b N P)
  show ?case
  proof (cases "P < N")
    case False
    with "1.prems" show ?thesis by (subst InsertionSort_loop.simps) auto
  next
    case True
    let ?T = "elt A (b + P)"
    have i: "inb A (b + P)" using True "1.prems" by (simp add: inb_def)
    obtain B j' where r: "InsertionSort_shift A b ?T P = Some (B, j')" and s: "shifted A B b ?T P j'"
      using InsertionSort_shift_ok [of b P A ?T] i "1.prems" by auto
    let ?C = "upd B (b + j') ?T"
    have iB: "inb B (b + j')" using shiftedD(1-3) [OF s] i "1.prems"(1) by (simp add: inb_def)
    have lC: "length ?C = length A" using shiftedD(3) [OF s] by simp
    have o: "ordered ?C b (b + P)" using shifted_ordered [OF s _ i] "1.prems" by simp
    have p: "rearranged A ?C b (b + P)" using shifted_rearranged [OF s _ i] "1.prems" by simp
    obtain D where D: "InsertionSort_loop ?C b N (P + 1) = Some D"
      "rearranged ?C D b (b + (N - 1))" "ordered D b (b + (N - 1))"
      using "1.IH" [of ?T "(B, j')" B j' ?C] True i r iB o lC "1.prems" by auto
    have "InsertionSort_loop A b N P = Some D"
      using True i r iB D(1) by (subst InsertionSort_loop.simps) simp
    moreover have "rearranged A D b (b + (N - 1))"
      using rearranged_mono [OF p, of b "b + (N - 1)"] D(2) True
      by (auto intro: rearranged_trans)
    ultimately show ?thesis using D(3) by blast
  qed
qed

lemma InsertionSort_ok:
  assumes "0 \<le> b" "b + N \<le> len A"
  shows "\<exists>B. InsertionSort A b N = Some B \<and> rearranged A B b (b + (N - 1)) \<and>
             ordered B b (b + (N - 1))"
proof (cases "N \<ge> 1")
  case True
  moreover have "ordered A b (b + (1 - 1))" by (rule ordered_single) simp
  ultimately show ?thesis using InsertionSort_loop_ok [of b 1 N A] assms
    by (simp add: InsertionSort_def)
next
  case False
  then have "InsertionSort A b N = Some A"
    by (simp add: InsertionSort_def InsertionSort_loop.simps)
  then show ?thesis using False by (simp add: ordered_single)
qed

section \<open>Shellsort\<close>

text \<open>
  A pass with any increment only permutes the array; the last pass has increment 1 and
  is the loop of \<open>InsertionSort\<close>.
\<close>

lemma Shellsort_shift_perm:
  assumes "0 < Increment" "0 \<le> j" "inb A j"
  shows "\<exists>B j'. Shellsort_shift A Tmp Increment j = Some (B, j') \<and> inb B j' \<and>
            length B = length A \<and> mset (upd B j' Tmp) = mset (upd A j Tmp)"
  using assms
proof (induction A Tmp Increment j rule: Shellsort_shift.induct)
  case (1 A Tmp Increment j)
  show ?case
  proof (cases "j \<ge> Increment \<and> elt A (j - Increment) > Tmp")
    case False
    then have "Shellsort_shift A Tmp Increment j = Some (A, j)"
      using "1.prems" by (subst Shellsort_shift.simps) (auto simp: inb_def aget_def)
    with "1.prems" show ?thesis by simp
  next
    case True
    let ?A = "upd A j (elt A (j - Increment))"
    have i: "inb A (j - Increment)" using True "1.prems" by (simp add: inb_def)
    have e: "Shellsort_shift A Tmp Increment j = Shellsort_shift ?A Tmp Increment (j - Increment)"
      using True "1.prems" i by (subst Shellsort_shift.simps) simp
    have "\<exists>B j'. Shellsort_shift ?A Tmp Increment (j - Increment) = Some (B, j') \<and> inb B j' \<and>
            length B = length ?A \<and> mset (upd B j' Tmp) = mset (upd ?A (j - Increment) Tmp)"
      using "1.IH" [of "elt A (j - Increment)" ?A] True "1.prems" i by simp
    then show ?thesis
      using e mset_move_hole [OF i \<open>inb A j\<close>, of Tmp] by simp
  qed
qed

lemma Shellsort_pass_perm:
  assumes "0 < Increment" "0 \<le> i" "N \<le> len A"
  shows "\<exists>B. Shellsort_pass A N Increment i = Some B \<and> length B = length A \<and> mset B = mset A"
  using assms
proof (induction A N Increment i rule: Shellsort_pass.induct)
  case (1 A N Increment i)
  show ?case
  proof (cases "i < N")
    case False
    then show ?thesis by (subst Shellsort_pass.simps) simp
  next
    case True
    have i: "inb A i" using True "1.prems" by (simp add: inb_def)
    obtain B j' where r: "Shellsort_shift A (elt A i) Increment i = Some (B, j')" "inb B j'"
      and l: "length B = length A" and m: "mset (upd B j' (elt A i)) = mset A"
      using Shellsort_shift_perm [of Increment i A "elt A i"] "1.prems" i by auto
    let ?C = "upd B j' (elt A i)"
    obtain D where "Shellsort_pass ?C N Increment (i + 1) = Some D" "length D = length ?C"
      "mset D = mset ?C"
      using "1.IH" [of "elt A i" "(B, j')" B j' ?C] True i r l "1.prems" by auto
    then show ?thesis using True i r l m by (subst Shellsort_pass.simps) simp
  qed
qed

lemma Shellsort_shift_1: "b = 0 \<Longrightarrow> Shellsort_shift A Tmp 1 j = InsertionSort_shift A b Tmp j"
proof (induction A b Tmp j rule: InsertionSort_shift.induct)
  case (1 A b Tmp j)
  then show ?case
    by (subst Shellsort_shift.simps, subst InsertionSort_shift.simps)
      (auto simp: aget_Some_iff aput_Some_iff intro!: Option.bind_cong)
qed

lemma Shellsort_pass_1: "b = 0 \<Longrightarrow> Shellsort_pass A N 1 i = InsertionSort_loop A b N i"
proof (induction A b N i rule: InsertionSort_loop.induct)
  case (1 A b N i)
  then show ?case
    by (subst Shellsort_pass.simps, subst InsertionSort_loop.simps)
      (auto simp: Shellsort_shift_1 split: prod.splits intro!: Option.bind_cong)
qed

lemma Shellsort_loop_ok:
  assumes "0 < Increment" "N \<le> len A"
  shows "\<exists>B. Shellsort_loop A N Increment = Some B \<and> length B = length A \<and> mset B = mset A \<and>
            ordered B 0 (N - 1)"
  using assms
proof (induction A N Increment rule: Shellsort_loop.induct)
  case (1 A N Increment)
  show ?case
  proof (cases "Increment = 1")
    case True
    obtain B where B: "Shellsort_pass A N 1 1 = Some B" "rearranged A B 0 (0 + (N - 1))"
      "ordered B 0 (0 + (N - 1))"
      using InsertionSort_ok [of 0 N A] "1.prems" by (auto simp: Shellsort_pass_1 [of 0] InsertionSort_def)
    have "Shellsort_loop A N Increment = Some B"
      using True B(1) by (simp add: Shellsort_loop.simps [of A] Shellsort_loop.simps [of B])
    then show ?thesis using B by (auto simp: rearranged_def same_outside_def)
  next
    case False
    obtain B where B: "Shellsort_pass A N Increment Increment = Some B"
      "length B = length A" "mset B = mset A"
      using Shellsort_pass_perm [of Increment Increment N A] "1.prems" by auto
    then show ?thesis using "1.IH" [of B] "1.prems" False
      by (subst Shellsort_loop.simps) auto
  qed
qed

lemma Shellsort_ok:
  assumes "N \<le> len A"
  shows "\<exists>B. Shellsort A N = Some B \<and> length B = length A \<and> mset B = mset A \<and> ordered B 0 (N - 1)"
proof (cases "N div 2 > 0")
  case True
  then show ?thesis using Shellsort_loop_ok [of "N div 2" N A] assms by (simp add: Shellsort_def)
next
  case False
  then have "N \<le> 1" by simp
  with False show ?thesis
    by (simp add: Shellsort_def Shellsort_loop.simps [of A N "N div 2"] ordered_single)
qed

end
