(* ===== verification/SortHeap.thy ===== *)
theory SortHeap
  imports SortInsertion
begin

text \<open>
  \<^verbatim>\<open>src/DSAAC/sort.c\<close>, lines 54-90: \<open>PercDown\<close> and \<open>Heapsort\<close>.
  \<open>LeftChild( i )\<close> is computed with the overflow check, so the theorems hold for
  arrays of at most \<open>2^30\<close> elements.
\<close>

definition LeftChild :: "int \<Rightarrow> int option" where
  "LeftChild i = ck (2 * i + 1)"

text \<open>The loop \<open>for( Tmp = A[ i ]; LeftChild( i ) < N; i = Child )\<close>; it returns the
  array and the final \<open>i\<close>.\<close>

function PercDown_loop :: "int list \<Rightarrow> int \<Rightarrow> int \<Rightarrow> int \<Rightarrow> (int list \<times> int) option" where
  "PercDown_loop A Tmp i N = do {
     Child \<leftarrow> LeftChild i;
     if Child < N then do {
       Child \<leftarrow> (if Child \<noteq> N - 1 then do {
                   r \<leftarrow> aget A (Child + 1);
                   l \<leftarrow> aget A Child;
                   Some (if r > l then Child + 1 else Child)
                 } else Some Child);
       y \<leftarrow> aget A Child;
       if Tmp < y then do {
         A \<leftarrow> aput A i y;
         PercDown_loop A Tmp Child N
       } else Some (A, i)
     } else Some (A, i)
   }"
  by pat_completeness auto
termination
  by (relation "measure (\<lambda>(A, Tmp, i, N). nat (N - i))")
    (auto simp: LeftChild_def ck_Some_iff aget_Some_iff aput_Some_iff inb_def bind_eq_Some_conv
          split: if_splits)

definition PercDown :: "int list \<Rightarrow> int \<Rightarrow> int \<Rightarrow> int list option" where
  "PercDown A i N = do {
     Tmp \<leftarrow> aget A i;
     (A, i) \<leftarrow> PercDown_loop A Tmp i N;
     aput A i Tmp
   }"

function Heapsort_build :: "int list \<Rightarrow> int \<Rightarrow> int \<Rightarrow> int list option" where
  "Heapsort_build A N i =
     (if i \<ge> 0 then do { A \<leftarrow> PercDown A i N; Heapsort_build A N (i - 1) } else Some A)"
  by pat_completeness auto
termination
  by (relation "measure (\<lambda>(A, N, i). nat (i + 1))") auto

function Heapsort_drain :: "int list \<Rightarrow> int \<Rightarrow> int list option" where
  "Heapsort_drain A i =
     (if i > 0 then do {
        A \<leftarrow> Swap A 0 i;
        A \<leftarrow> PercDown A 0 i;
        Heapsort_drain A (i - 1)
      } else Some A)"
  by pat_completeness auto
termination
  by (relation "measure (\<lambda>(A, i). nat i)") auto

definition Heapsort :: "int list \<Rightarrow> int \<Rightarrow> int list option" where
  "Heapsort A N = do {
     A \<leftarrow> Heapsort_build A N (N div 2);
     Heapsort_drain A (N - 1)
   }"

declare PercDown_loop.simps [simp del] Heapsort_build.simps [simp del] Heapsort_drain.simps [simp del]

section \<open>The heap order\<close>

abbreviation par :: "int \<Rightarrow> int" where "par c \<equiv> (c - 1) div 2"

lemma par_eq_iff: "1 \<le> c \<Longrightarrow> par c = i \<longleftrightarrow> c = 2 * i + 1 \<or> c = 2 * i + 2"
  by presburger

definition heap_from :: "int list \<Rightarrow> int \<Rightarrow> int \<Rightarrow> bool" where
  \<comment> \<open>no cell of \<open>A[0..N-1]\<close> exceeds its parent, for parents at \<open>l\<close> or beyond\<close>
  "heap_from A l N \<longleftrightarrow> (\<forall>c. 1 \<le> c \<and> c < N \<and> l \<le> par c \<longrightarrow> elt A c \<le> elt A (par c))"

definition heap_hole :: "int list \<Rightarrow> int \<Rightarrow> int \<Rightarrow> int \<Rightarrow> int \<Rightarrow> bool" where
  \<comment> \<open>the loop invariant: a heap but for the hole at \<open>i\<close>, where \<open>Tmp\<close> is to go\<close>
  "heap_hole A Tmp l i N \<longleftrightarrow>
     (\<forall>c. 1 \<le> c \<and> c < N \<and> l \<le> par c \<and> c \<noteq> i \<and> par c \<noteq> i \<longrightarrow> elt A c \<le> elt A (par c)) \<and>
     (1 \<le> i \<and> l \<le> par i \<longrightarrow> Tmp \<le> elt A (par i) \<and>
        (\<forall>c. 1 \<le> c \<and> c < N \<and> par c = i \<longrightarrow> elt A c \<le> elt A (par i)))"

lemma heap_hole_fill:
  assumes h: "heap_hole A Tmp l i N" and i: "inb A i"
    and top: "\<And>c. 1 \<le> c \<Longrightarrow> c < N \<Longrightarrow> par c = i \<Longrightarrow> elt A c \<le> Tmp"
  shows "heap_from (upd A i Tmp) l N"
  unfolding heap_from_def
proof (intro allI impI)
  fix c assume c: "1 \<le> c \<and> c < N \<and> l \<le> par c"
  then have "0 \<le> par c" "par c \<noteq> c" by presburger+
  with h i top [of c] c show "elt (upd A i Tmp) c \<le> elt (upd A i Tmp) (par c)"
    by (auto simp: elt_upd heap_hole_def)
qed

lemma heap_hole_step:
  assumes h: "heap_hole A Tmp l i N" and i: "inb A i" "l \<le> i"
    and c: "1 \<le> c" "par c = i" "Tmp < elt A c"
    and mx: "\<And>d. 1 \<le> d \<Longrightarrow> d < N \<Longrightarrow> par d = i \<Longrightarrow> elt A d \<le> elt A c"
    and cN: "c < N"
  shows "heap_hole (upd A i (elt A c)) Tmp l c N"
proof -
  let ?B = "upd A i (elt A c)"
  have B: "\<And>d. 0 \<le> d \<Longrightarrow> elt ?B d = (if d = i then elt A c else elt A d)"
    using i by (simp add: elt_upd)
  have ci: "c \<noteq> i" "i < c" using c i(1) by (auto simp: inb_def)
  have "elt ?B d \<le> elt ?B (par d)" if "1 \<le> d" "d < N" "l \<le> par d" "d \<noteq> c" "par d \<noteq> c" for d
  proof -
    have d: "0 \<le> par d" "par d \<noteq> d" using that by presburger+
    show ?thesis
      using h mx [of d] that d c(1,2) cN unfolding heap_hole_def by (auto simp: B)
  qed
  moreover have "Tmp \<le> elt ?B (par c)" using c i by simp
  moreover have "elt ?B d \<le> elt ?B (par c)" if "1 \<le> d" "d < N" "par d = c" for d
  proof -
    have "d \<noteq> i" "par d \<noteq> i" using that ci by presburger+
    then have "elt A d \<le> elt A c"
      using h that ci i(2) unfolding heap_hole_def by (metis dual_order.trans order_less_imp_le)
    then show ?thesis using \<open>d \<noteq> i\<close> that c i by (simp add: B)
  qed
  ultimately show ?thesis unfolding heap_hole_def by blast
qed

section \<open>PercDown\<close>

text \<open>The larger child, as the loop body selects it.\<close>

lemma PercDown_child:
  fixes A :: "int list"
  assumes "0 \<le> i" "2 * i + 1 < N" "N \<le> len A"
  obtains c where
    "(if 2 * i + 1 \<noteq> N - 1 then do {
        r \<leftarrow> aget A (2 * i + 1 + 1); l \<leftarrow> aget A (2 * i + 1);
        Some (if r > l then 2 * i + 1 + 1 else 2 * i + 1) } else Some (2 * i + 1)) = Some c"
    "1 \<le> c" "c < N" "par c = i" "inb A c" "i < c"
    "\<And>d. 1 \<le> d \<Longrightarrow> d < N \<Longrightarrow> par d = i \<Longrightarrow> elt A d \<le> elt A c"
proof -
  have in1: "inb A (2 * i + 1)" using assms by (simp add: inb_def)
  have in2: "inb A (2 * i + 2)" if "2 * i + 1 \<noteq> N - 1" using assms that by (simp add: inb_def)
  let ?c = "if 2 * i + 1 \<noteq> N - 1 \<and> elt A (2 * i + 2) > elt A (2 * i + 1) then 2 * i + 2 else 2 * i + 1"
  have "par ?c = i" by auto
  moreover have "elt A d \<le> elt A ?c" if d: "1 \<le> d" "d < N" "par d = i" for d
  proof -
    have "d = 2 * i + 1 \<or> d = 2 * i + 2" using par_eq_iff [of d i] d(1,3) by simp
    then show ?thesis using d(2) by (elim disjE) auto
  qed
  ultimately show thesis using assms in1 in2 by (intro that [of ?c]) (auto simp: add.commute)
qed

lemma PercDown_loop_ok:
  assumes "0 \<le> l" "l \<le> i" "inb A i" "N \<le> len A" "len A \<le> 2 ^ 30" "heap_hole A Tmp l i N"
  shows "\<exists>B j. PercDown_loop A Tmp i N = Some (B, j) \<and> inb A j \<and> i \<le> j \<and> (j = i \<or> j < N) \<and>
          same_outside A B i (max i (N - 1)) \<and> mset (upd B j Tmp) = mset (upd A i Tmp) \<and>
          heap_from (upd B j Tmp) l N"
  using assms
proof (induction A Tmp i N rule: PercDown_loop.induct)
  case (1 A Tmp i N)
  have i0: "0 \<le> i" "i < len A" using "1.prems" by (auto simp: inb_def)
  have lc: "LeftChild i = Some (2 * i + 1)" using i0 "1.prems"(5) by (simp add: LeftChild_def)
  show ?case
  proof (cases "2 * i + 1 < N")
    case False
    then have "PercDown_loop A Tmp i N = Some (A, i)"
      using lc by (subst PercDown_loop.simps) simp
    moreover have "heap_from (upd A i Tmp) l N"
      using "1.prems" False by (intro heap_hole_fill) (auto simp: par_eq_iff)
    ultimately show ?thesis using "1.prems" by simp
  next
    case True
    note tN = True
    obtain c where sel: "(if 2 * i + 1 \<noteq> N - 1 then do {
        r \<leftarrow> aget A (2 * i + 1 + 1); l \<leftarrow> aget A (2 * i + 1);
        Some (if r > l then 2 * i + 1 + 1 else 2 * i + 1) } else Some (2 * i + 1)) = Some c"
      and c: "1 \<le> c" "c < N" "par c = i" "inb A c" "i < c"
      and mx: "\<And>d. 1 \<le> d \<Longrightarrow> d < N \<Longrightarrow> par d = i \<Longrightarrow> elt A d \<le> elt A c"
      by (rule PercDown_child [OF i0(1) True "1.prems"(4)]) blast
    show ?thesis
    proof (cases "Tmp < elt A c")
      case False
      have "PercDown_loop A Tmp i N = Some (A, i)"
        by (subst PercDown_loop.simps) (simp only: lc sel bind.bind_lunit tN if_True aget_ok [OF c(4)] False if_False)
      moreover have "heap_from (upd A i Tmp) l N"
      proof (rule heap_hole_fill [OF "1.prems"(6,3)])
        fix d assume "1 \<le> d" "d < N" "par d = i"
        from mx [OF this] False show "elt A d \<le> Tmp" by simp
      qed
      ultimately show ?thesis using "1.prems" by simp
    next
      case True
      let ?A = "upd A i (elt A c)"
      have e: "PercDown_loop A Tmp i N = PercDown_loop ?A Tmp c N"
        by (subst PercDown_loop.simps)
          (simp only: lc sel bind.bind_lunit tN if_True aget_ok [OF c(4)] True aput_ok [OF "1.prems"(3)])
      have h: "heap_hole ?A Tmp l c N"
        using heap_hole_step [OF "1.prems"(6,3,2) c(1,3) True mx c(2)] by blast
      have "\<exists>B j. PercDown_loop ?A Tmp c N = Some (B, j) \<and> inb ?A j \<and> c \<le> j \<and> (j = c \<or> j < N) \<and>
          same_outside ?A B c (max c (N - 1)) \<and> mset (upd B j Tmp) = mset (upd ?A c Tmp) \<and>
          heap_from (upd B j Tmp) l N"
        using "1.IH" [OF lc tN sel aget_ok [OF c(4)] True aput_ok [OF "1.prems"(3)]] "1.prems" c h by simp
      then obtain B j where B: "PercDown_loop ?A Tmp c N = Some (B, j)" "inb ?A j" "c \<le> j"
          "j = c \<or> j < N" "same_outside ?A B c (max c (N - 1))"
          "mset (upd B j Tmp) = mset (upd ?A c Tmp)" "heap_from (upd B j Tmp) l N" by blast
      have "same_outside A B i (max i (N - 1))"
        using same_outside_trans [OF same_outside_upd same_outside_mono [OF B(5)]] "1.prems"(3) c by simp
      moreover have "mset (upd B j Tmp) = mset (upd A i Tmp)"
        using B(6) mset_move_hole [OF c(4) "1.prems"(3), of Tmp] by simp
      ultimately show ?thesis using e B c by auto
    qed
  qed
qed

lemma PercDown_ok:
  assumes "0 \<le> i" "inb A i" "N \<le> len A" "len A \<le> 2 ^ 30" "heap_from A (i + 1) N"
  shows "\<exists>B. PercDown A i N = Some B \<and> rearranged A B i (max i (N - 1)) \<and> heap_from B i N"
proof -
  have "heap_hole A (elt A i) i i N"
    unfolding heap_hole_def
  proof (intro conjI allI impI)
    fix c assume "1 \<le> c \<and> c < N \<and> i \<le> par c \<and> c \<noteq> i \<and> par c \<noteq> i"
    then show "elt A c \<le> elt A (par c)" using assms(5) by (auto simp: heap_from_def)
  qed (use assms(1) in presburger)+
  from PercDown_loop_ok [OF assms(1) order_refl assms(2-4) this]
  obtain B j where B: "PercDown_loop A (elt A i) i N = Some (B, j)" "inb A j" "i \<le> j"
    "j = i \<or> j < N" "same_outside A B i (max i (N - 1))"
    "mset (upd B j (elt A i)) = mset A" "heap_from (upd B j (elt A i)) i N" by auto
  let ?C = "upd B j (elt A i)"
  have l: "length B = length A" using B(5) by (simp add: same_outside_def)
  then have j: "inb B j" using B(2) by (simp add: inb_def)
  have "PercDown A i N = Some ?C" using assms(2) B(1) j by (simp add: PercDown_def)
  moreover have "same_outside A ?C i (max i (N - 1))"
    using B(3,4) j by (intro same_outside_trans [OF B(5) same_outside_upd]) auto
  ultimately show ?thesis using B(6,7) by (auto simp: rearranged_def)
qed

section \<open>Heapsort\<close>

lemma Heapsort_build_ok:
  assumes "0 < N" "N \<le> len A" "len A \<le> 2 ^ 30" "i < N" "heap_from A (i + 1) N"
  shows "\<exists>B. Heapsort_build A N i = Some B \<and> rearranged A B 0 (N - 1) \<and> heap_from B 0 N"
  using assms
proof (induction A N i rule: Heapsort_build.induct)
  case (1 A N i)
  show ?case
  proof (cases "0 \<le> i")
    case False
    then have "heap_from A 0 N" using "1.prems"(5) by (auto simp: heap_from_def)
    with False show ?thesis by (subst Heapsort_build.simps) simp
  next
    case True
    have "inb A i" using True "1.prems" by (simp add: inb_def)
    then obtain B where B: "PercDown A i N = Some B" "rearranged A B i (max i (N - 1))" "heap_from B i N"
      using PercDown_ok [of i A N] "1.prems" True by auto
    have r: "rearranged A B 0 (N - 1)" using B(2) True "1.prems" by (auto intro: rearranged_mono)
    have l: "length B = length A" using B(2) by (simp add: rearranged_length)
    obtain C where C: "Heapsort_build B N (i - 1) = Some C" "rearranged B C 0 (N - 1)" "heap_from C 0 N"
      using "1.IH" [OF True B(1)] "1.prems" B(3) l by auto
    have "Heapsort_build A N i = Some C" using True B(1) C(1) by (subst Heapsort_build.simps) simp
    then show ?thesis using C r by (blast intro: rearranged_trans)
  qed
qed

lemma heap_from_top:
  assumes "heap_from A 0 N"
  shows "0 \<le> x \<Longrightarrow> x < N \<Longrightarrow> elt A x \<le> elt A 0"
proof (induction "nat x" arbitrary: x rule: less_induct)
  case less
  show ?case
  proof (cases "x = 0")
    case False
    have p: "0 \<le> par x" "par x < x" using False less.prems by presburger+
    then have "elt A x \<le> elt A (par x)" using assms False less.prems by (simp add: heap_from_def)
    also have "\<dots> \<le> elt A 0" using p less.prems by (intro less.hyps) auto
    finally show ?thesis .
  qed simp
qed

lemma Heapsort_drain_ok:
  assumes "0 \<le> i" "i < N" "N \<le> len A" "len A \<le> 2 ^ 30" "heap_from A 0 (i + 1)"
    and "ordered A (i + 1) (N - 1)"
    and "\<And>x y. 0 \<le> x \<Longrightarrow> x \<le> i \<Longrightarrow> i < y \<Longrightarrow> y < N \<Longrightarrow> elt A x \<le> elt A y"
  shows "\<exists>B. Heapsort_drain A i = Some B \<and> rearranged A B 0 (N - 1) \<and> ordered B 0 (N - 1)"
  using assms
proof (induction A i rule: Heapsort_drain.induct)
  case (1 A i)
  show ?case
  proof (cases "0 < i")
    case False
    then have "i = 0" using "1.prems" by simp
    have "ordered A 0 (N - 1)"
    proof (rule orderedI)
      fix x y assume xy: "0 \<le> x" "x \<le> y" "y \<le> N - 1"
      then show "elt A x \<le> elt A y"
        using orderedD [OF "1.prems"(6), of x y] "1.prems"(7) [of x y] \<open>i = 0\<close>
        by (cases "x = y"; cases "x = 0") auto
    qed
    then show ?thesis using False by (subst Heapsort_drain.simps) simp
  next
    case True
    let ?A = "upd (upd A 0 (elt A i)) i (elt A 0)"
    have i: "inb A i" "inb A 0" using True "1.prems" by (auto simp: inb_def)
    have Ai: "\<And>x. 0 \<le> x \<Longrightarrow> elt ?A x = (if x = i then elt A 0 else if x = 0 then elt A i else elt A x)"
      using i by (simp add: elt_upd)
    have h: "heap_from ?A (0 + 1) i"
      unfolding heap_from_def
    proof (intro allI impI)
      fix c assume c: "1 \<le> c \<and> c < i \<and> 0 + 1 \<le> par c"
      then have "par c \<noteq> i" "par c \<noteq> 0" "0 \<le> par c" by presburger+
      then show "elt ?A c \<le> elt ?A (par c)" using "1.prems"(5) c by (simp add: Ai heap_from_def)
    qed
    obtain B where B: "PercDown ?A 0 i = Some B" "rearranged ?A B 0 (max 0 (i - 1))" "heap_from B 0 i"
      using PercDown_ok [of 0 ?A i] h i "1.prems" by auto
    have B': "rearranged ?A B 0 (i - 1)" using B(2) True by simp
    have l: "length B = length A" using B(2) by (simp add: rearranged_length)
    have out: "elt B x = elt ?A x" if "i \<le> x" "x < N" for x
      using rearranged_outside [OF B', of x] that "1.prems" by (simp add: inb_def)
    have rAB: "rearranged A B 0 (N - 1)"
      using rearranged_swap [OF i(2,1), of 0 "N - 1"] rearranged_mono [OF B', of 0 "N - 1"] "1.prems"
      by (auto intro: rearranged_trans)
    have top: "elt B x \<le> elt A 0" if "0 \<le> x" "x \<le> i" for x
    proof (cases "x = i")
      case False
      have "elt ?A y \<le> elt A 0" if "inb ?A y" "0 \<le> y" "y \<le> i - 1" for y
        using heap_from_top [OF "1.prems"(5), of y] heap_from_top [OF "1.prems"(5), of i] that True Ai [of y]
        by (simp split: if_splits)
      then show ?thesis
        by (rule rearranged_all [OF B', where P = "\<lambda>v. v \<le> elt A 0"])
          (use that False i(1) in \<open>auto simp: inb_def\<close>)
    qed (use out [of i] Ai "1.prems" in simp)
    have top': "elt A 0 \<le> elt B y" if "i \<le> y" "y < N" for y
      using out [of y] "1.prems"(7) [of 0 y] that "1.prems"(1) by (simp add: Ai)
    have o: "ordered B (i - 1 + 1) (N - 1)"
    proof (rule orderedI)
      fix x y assume xy: "i - 1 + 1 \<le> x" "x \<le> y" "y \<le> N - 1"
      show "elt B x \<le> elt B y"
      proof (cases "x = i")
        case True
        then show ?thesis using top [of i] top' [of y] xy "1.prems"(1) by simp
      next
        case False
        then show ?thesis
          using orderedD [OF "1.prems"(6), of x y] out [of x] out [of y] xy True by (simp add: Ai)
      qed
    qed
    obtain C where C: "Heapsort_drain B (i - 1) = Some C" "rearranged B C 0 (N - 1)" "ordered C 0 (N - 1)"
    proof -
      have "\<exists>C. Heapsort_drain B (i - 1) = Some C \<and> rearranged B C 0 (N - 1) \<and> ordered C 0 (N - 1)"
      proof (rule "1.IH" [OF True Swap_ok [OF i(2,1)] B(1)])
        fix x y assume "0 \<le> x" "x \<le> i - 1" "i - 1 < y" "y < N"
        then show "elt B x \<le> elt B y" using top [of x] top' [of y] by simp
      qed (use True "1.prems" l B(3) o in simp_all)
      then show thesis using that by blast
    qed
    have "Heapsort_drain A i = Some C"
      using True Swap_ok [OF i(2,1)] B(1) C(1) by (subst Heapsort_drain.simps) simp
    then show ?thesis using C rAB by (blast intro: rearranged_trans)
  qed
qed

lemma Heapsort_ok:
  assumes "0 < N" "N \<le> len A" "len A \<le> 2 ^ 30"
  shows "\<exists>B. Heapsort A N = Some B \<and> rearranged A B 0 (N - 1) \<and> ordered B 0 (N - 1)"
proof -
  have "N div 2 < N" using assms by presburger
  have "heap_from A (N div 2 + 1) N" unfolding heap_from_def by presburger
  then obtain B where B: "Heapsort_build A N (N div 2) = Some B" "rearranged A B 0 (N - 1)" "heap_from B 0 N"
    using Heapsort_build_ok [of N A "N div 2"] assms \<open>N div 2 < N\<close> by auto
  have l: "length B = length A" using B(2) by (simp add: rearranged_length)
  have "\<exists>C. Heapsort_drain B (N - 1) = Some C \<and> rearranged B C 0 (N - 1) \<and> ordered C 0 (N - 1)"
    using B(3) l assms by (intro Heapsort_drain_ok) (auto simp: ordered_single)
  then show ?thesis using B by (auto simp: Heapsort_def intro: rearranged_trans)
qed

end
