(* ===== verification/SortMerge.thy ===== *)
theory SortMerge
  imports CBase
begin

text \<open>
  \<^verbatim>\<open>src/DSAAC/sort.c\<close>, lines 92-153: \<open>Merge\<close>, \<open>MSort\<close> and
  \<open>Mergesort\<close>. \<open>TmpArray\<close> is an array of its own; \<open>Mergesort\<close>
  takes the block \<open>malloc\<close> returned (its contents are arbitrary), \<open>None\<close>
  standing for \<open>NULL\<close>. The midpoint is computed with the overflow check. The loops
  are compared with a functional merge of the two halves.
\<close>

section \<open>Operations\<close>

function Merge_main :: "int list \<Rightarrow> int list \<Rightarrow> int \<Rightarrow> int \<Rightarrow> int \<Rightarrow> int \<Rightarrow> int \<Rightarrow>
    (int list \<times> int \<times> int \<times> int) option" where
  "Merge_main A TmpArray Lpos LeftEnd Rpos RightEnd TmpPos =
     (if Lpos \<le> LeftEnd \<and> Rpos \<le> RightEnd then do {
        x \<leftarrow> aget A Lpos;
        y \<leftarrow> aget A Rpos;
        if x \<le> y then do {
          TmpArray \<leftarrow> aput TmpArray TmpPos x;
          Merge_main A TmpArray (Lpos + 1) LeftEnd Rpos RightEnd (TmpPos + 1)
        } else do {
          TmpArray \<leftarrow> aput TmpArray TmpPos y;
          Merge_main A TmpArray Lpos LeftEnd (Rpos + 1) RightEnd (TmpPos + 1)
        }
      } else Some (TmpArray, Lpos, Rpos, TmpPos))"
  by pat_completeness auto
termination
  by (relation "measure (\<lambda>(A, T, Lp, Le, Rp, Re, Tp). nat (Le + 1 - Lp) + nat (Re + 1 - Rp))") auto

text \<open>Both loops that copy the rest of a half.\<close>

function Merge_rest :: "int list \<Rightarrow> int list \<Rightarrow> int \<Rightarrow> int \<Rightarrow> int \<Rightarrow> (int list \<times> int) option" where
  "Merge_rest A TmpArray Pos End TmpPos =
     (if Pos \<le> End then do {
        x \<leftarrow> aget A Pos;
        TmpArray \<leftarrow> aput TmpArray TmpPos x;
        Merge_rest A TmpArray (Pos + 1) End (TmpPos + 1)
      } else Some (TmpArray, TmpPos))"
  by pat_completeness auto
termination
  by (relation "measure (\<lambda>(A, T, p, e, t). nat (e + 1 - p))") auto

function Merge_back :: "int list \<Rightarrow> int list \<Rightarrow> int \<Rightarrow> int \<Rightarrow> int \<Rightarrow> int list option" where
  "Merge_back A TmpArray NumElements i RightEnd =
     (if i < NumElements then do {
        v \<leftarrow> aget TmpArray RightEnd;
        A \<leftarrow> aput A RightEnd v;
        Merge_back A TmpArray NumElements (i + 1) (RightEnd - 1)
      } else Some A)"
  by pat_completeness auto
termination
  by (relation "measure (\<lambda>(A, T, n, i, r). nat (n - i))") auto

definition Merge_fill :: "int list \<Rightarrow> int list \<Rightarrow> int \<Rightarrow> int \<Rightarrow> int \<Rightarrow> int \<Rightarrow> int \<Rightarrow> int list option" where
  \<comment> \<open>the three loops that fill \<open>TmpArray\<close>\<close>
  "Merge_fill A TmpArray Lpos LeftEnd Rpos RightEnd TmpPos = do {
     (TmpArray, Lpos, Rpos, TmpPos) \<leftarrow> Merge_main A TmpArray Lpos LeftEnd Rpos RightEnd TmpPos;
     (TmpArray, TmpPos) \<leftarrow> Merge_rest A TmpArray Lpos LeftEnd TmpPos;
     (TmpArray, TmpPos) \<leftarrow> Merge_rest A TmpArray Rpos RightEnd TmpPos;
     Some TmpArray
   }"

definition Merge :: "int list \<Rightarrow> int list \<Rightarrow> int \<Rightarrow> int \<Rightarrow> int \<Rightarrow> (int list \<times> int list) option" where
  "Merge A TmpArray Lpos Rpos RightEnd = do {
     let LeftEnd = Rpos - 1;
     let TmpPos = Lpos;
     let NumElements = RightEnd - Lpos + 1;
     TmpArray \<leftarrow> Merge_fill A TmpArray Lpos LeftEnd Rpos RightEnd TmpPos;
     A \<leftarrow> Merge_back A TmpArray NumElements 0 RightEnd;
     Some (A, TmpArray)
   }"

function MSort :: "int list \<Rightarrow> int list \<Rightarrow> int \<Rightarrow> int \<Rightarrow> (int list \<times> int list) option" where
  "MSort A TmpArray Lft Rgt =
     (if Lft < Rgt then do {
        s \<leftarrow> ck (Lft + Rgt);
        let Center = s div 2;
        (A, TmpArray) \<leftarrow> MSort A TmpArray Lft Center;
        (A, TmpArray) \<leftarrow> MSort A TmpArray (Center + 1) Rgt;
        Merge A TmpArray Lft (Center + 1) Rgt
      } else Some (A, TmpArray))"
  by pat_completeness auto
termination
  by (relation "measure (\<lambda>(A, T, l, r). nat (r - l))") (auto simp: ck_Some_iff)

definition Mergesort :: "int list option \<Rightarrow> int list \<Rightarrow> int \<Rightarrow> int list res" where
  "Mergesort TmpArray A N =
     (case TmpArray of
        None \<Rightarrow> Inl (FatalError ''No space for tmp array!!!'')
      | Some T \<Rightarrow>
          (case MSort A T 0 (N - 1) of
             None \<Rightarrow> Inl BadAccess
           | Some (A, T) \<Rightarrow> Inr A))"

declare Merge_main.simps [simp del] Merge_rest.simps [simp del] Merge_back.simps [simp del]
  MSort.simps [simp del]

section \<open>Slices and the functional merge\<close>

definition slice :: "int list \<Rightarrow> int \<Rightarrow> int \<Rightarrow> int list" where
  "slice A l h = map (elt A) [l..h]"

fun mergel :: "int list \<Rightarrow> int list \<Rightarrow> int list" where
  "mergel [] ys = ys"
| "mergel xs [] = xs"
| "mergel (x # xs) (y # ys) = (if x \<le> y then x # mergel xs (y # ys) else y # mergel (x # xs) ys)"

lemma mset_mergel: "mset (mergel xs ys) = mset xs + mset ys"
  by (induction xs ys rule: mergel.induct) auto

lemma set_mergel: "set (mergel xs ys) = set xs \<union> set ys"
  using mset_mergel by (metis set_mset_mset set_mset_union)

lemma sorted_mergel: "sorted xs \<Longrightarrow> sorted ys \<Longrightarrow> sorted (mergel xs ys)"
  by (induction xs ys rule: mergel.induct) (auto simp: set_mergel)

lemma mergel_Nil2 [simp]: "mergel xs [] = xs"
  by (cases xs) auto

lemma slice_Cons: "l \<le> h \<Longrightarrow> slice A l h = elt A l # slice A (l + 1) h"
  by (simp add: slice_def upto_rec1)

lemma slice_empty: "h < l \<Longrightarrow> slice A l h = []"
  by (simp add: slice_def)

lemma slice_append: "l \<le> m + 1 \<Longrightarrow> m \<le> h \<Longrightarrow> slice A l h = slice A l m @ slice A (m + 1) h"
proof (cases "m = h")
  case False
  moreover assume "l \<le> m + 1" "m \<le> h"
  ultimately show ?thesis
    using upto_split1 [of l "m + 1" h] by (auto simp: slice_def simp flip: map_append)
qed (simp add: slice_def)

lemma slice_cong: "(\<And>i. l \<le> i \<Longrightarrow> i \<le> h \<Longrightarrow> elt A i = elt B i) \<Longrightarrow> slice A l h = slice B l h"
  by (simp add: slice_def)

lemma slice_whole: "slice A 0 (len A - 1) = A"
  by (rule nth_equalityI) (simp_all add: slice_def elt_def)

lemma ordered_slice: "ordered A l h \<longleftrightarrow> sorted (slice A l h)"
proof
  assume o: "ordered A l h"
  show "sorted (slice A l h)"
    by (auto simp: slice_def sorted_wrt_map intro!: sorted_wrt_mono_rel [OF _ sorted_wrt_upto] orderedD [OF o])
next
  assume s: "sorted (slice A l h)"
  show "ordered A l h"
  proof (rule orderedI)
    fix i j assume ij: "l \<le> i" "i \<le> j" "j \<le> h"
    have "slice A l h ! nat (i - l) \<le> slice A l h ! nat (j - l)"
      using ij by (intro sorted_nth_mono [OF s]) (auto simp: slice_def)
    then show "elt A i \<le> elt A j" using ij by (simp add: slice_def)
  qed
qed

lemma rearrangedI_slice:
  assumes s: "same_outside A B l h" and m: "mset (slice B l h) = mset (slice A l h)"
    and b: "0 \<le> l" "l \<le> h + 1" "h < len A"
  shows "rearranged A B l h"
proof -
  have split: "C = slice C 0 (l - 1) @ slice C l h @ slice C (h + 1) (len C - 1)"
    if "length C = length A" for C
    using slice_append [of 0 "l - 1" "len C - 1" C] slice_append [of l h "len C - 1" C] b that
      slice_whole [of C] by simp
  have l: "length B = length A" using s by (simp add: same_outside_def)
  have "slice B 0 (l - 1) = slice A 0 (l - 1)"
    using s b by (intro slice_cong) (auto simp: same_outside_def inb_def)
  moreover have "slice B (h + 1) (len A - 1) = slice A (h + 1) (len A - 1)"
    using s b by (intro slice_cong) (auto simp: same_outside_def inb_def)
  ultimately have "mset B = mset A"
    using split [of A] split [of B] m l by (metis mset_append)
  then show ?thesis using s by (simp add: rearranged_def)
qed

section \<open>The loops of Merge\<close>

lemma Merge_rest_ok:
  assumes "0 \<le> Pos" "End < len A" "Pos \<le> End + 1" "0 \<le> t" "t + (End - Pos) < len T"
  shows "\<exists>T'. Merge_rest A T Pos End t = Some (T', t + (End - Pos + 1)) \<and>
     same_outside T T' t (t + (End - Pos)) \<and> slice T' t (t + (End - Pos)) = slice A Pos End"
  using assms
proof (induction A T Pos End t rule: Merge_rest.induct)
  case (1 A T Pos End t)
  show ?case
  proof (cases "Pos \<le> End")
    case False
    then show ?thesis using "1.prems" by (subst Merge_rest.simps) (simp add: slice_empty)
  next
    case True
    let ?T = "upd T t (elt A Pos)"
    have i: "inb A Pos" "inb T t" using True "1.prems" by (auto simp: inb_def)
    obtain T' where T': "Merge_rest A ?T (Pos + 1) End (t + 1) = Some (T', t + 1 + (End - (Pos + 1) + 1))"
      "same_outside ?T T' (t + 1) (t + 1 + (End - (Pos + 1)))"
      "slice T' (t + 1) (t + 1 + (End - (Pos + 1))) = slice A (Pos + 1) End"
      using "1.IH" [OF True, of "elt A Pos" ?T] True i "1.prems" by auto
    have so: "same_outside T T' t (t + (End - Pos))"
      using same_outside_upd [OF i(2), of t "t + (End - Pos)" "elt A Pos"] True
      by (intro same_outside_trans2 [OF _ T'(2)]) auto
    have "elt T' t = elt ?T t" using T'(2) i(2) by (simp add: same_outside_def)
    then have "slice T' t (t + (End - Pos)) = slice A Pos End"
      using T'(3) True i by (simp add: slice_Cons [of t] slice_Cons [of Pos])
    with so show ?thesis using T'(1) True i by (subst Merge_rest.simps) simp
  qed
qed

lemma Merge_fill_stop:
  assumes "\<not> (L \<le> LE \<and> R \<le> RE)"
    and "0 \<le> L" "LE < len A" "L \<le> LE + 1" "0 \<le> R" "RE < len A" "R \<le> RE + 1"
    and "0 \<le> t" "n = LE - L + 1 + (RE - R + 1)" "t + n \<le> len T"
  shows "\<exists>T'. Merge_fill A T L LE R RE t = Some T' \<and> same_outside T T' t (t + n - 1) \<and>
           slice T' t (t + n - 1) = mergel (slice A L LE) (slice A R RE)"
proof -
  have m: "Merge_main A T L LE R RE t = Some (T, L, R, t)"
    using assms(1) by (subst Merge_main.simps) auto
  obtain T1 where T1: "Merge_rest A T L LE t = Some (T1, t + (LE - L + 1))"
     "same_outside T T1 t (t + (LE - L))" "slice T1 t (t + (LE - L)) = slice A L LE"
    using Merge_rest_ok [of L LE A t T] assms by auto
  let ?t = "t + (LE - L + 1)"
  have l: "length T1 = length T" using T1(2) by (simp add: same_outside_def)
  obtain T2 where T2: "Merge_rest A T1 R RE ?t = Some (T2, ?t + (RE - R + 1))"
     "same_outside T1 T2 ?t (?t + (RE - R))" "slice T2 ?t (?t + (RE - R)) = slice A R RE"
    using Merge_rest_ok [of R RE A ?t T1] assms l by auto
  have "Merge_fill A T L LE R RE t = Some T2" using m T1(1) T2(1) by (simp add: Merge_fill_def)
  moreover have "same_outside T T2 t (t + n - 1)"
    using assms by (intro same_outside_trans2 [OF T1(2) T2(2)]) auto
  moreover have "slice T2 t (t + n - 1) = mergel (slice A L LE) (slice A R RE)"
  proof (cases "L \<le> LE")
    case True
    then have "RE = R - 1" using assms by simp
    moreover have "slice T2 t (t + (LE - L)) = slice T1 t (t + (LE - L))"
      using T2(2) assms l True by (intro slice_cong) (auto simp: same_outside_def inb_def)
    ultimately show ?thesis using T1(3) assms(9) by (simp add: slice_empty)
  next
    case False
    then have "LE = L - 1" using assms by simp
    then have e: "?t = t" "t + n - 1 = t + (RE - R)" using assms(9) by simp_all
    show ?thesis using T2(3) False unfolding e by (simp add: slice_empty)
  qed
  ultimately show ?thesis by blast
qed

lemma same_outside_first:
  assumes "same_outside (upd T t x) T' (t + 1) h" "inb T t" "t \<le> h"
  shows "same_outside T T' t h" "elt T' t = x"
proof -
  have "same_outside T (upd T t x) t h" using assms by (intro same_outside_upd) auto
  moreover have "same_outside (upd T t x) T' t h" using assms(1) by (rule same_outside_mono) auto
  ultimately show "same_outside T T' t h" by (rule same_outside_trans)
  show "elt T' t = x" using assms by (simp add: same_outside_def)
qed

lemma Merge_fill_ok:
  assumes "0 \<le> L" "LE < len A" "L \<le> LE + 1" "0 \<le> R" "RE < len A" "R \<le> RE + 1"
    and "0 \<le> t" "n = LE - L + 1 + (RE - R + 1)" "t + n \<le> len T"
  shows "\<exists>T'. Merge_fill A T L LE R RE t = Some T' \<and> same_outside T T' t (t + n - 1) \<and>
           slice T' t (t + n - 1) = mergel (slice A L LE) (slice A R RE)"
  using assms
proof (induction A T L LE R RE t arbitrary: n rule: Merge_main.induct)
  case (1 A T L LE R RE t)
  show ?case
  proof (cases "L \<le> LE \<and> R \<le> RE")
    case False
    then show ?thesis using Merge_fill_stop "1.prems" by blast
  next
    case True
    have i: "inb A L" "inb A R" "inb T t" using True "1.prems" by (auto simp: inb_def)
    have h: "t \<le> t + n - 1" using True "1.prems"(8) by simp
    show ?thesis
    proof (cases "elt A L \<le> elt A R")
      case le: True
      let ?T = "upd T t (elt A L)"
      have e: "Merge_fill A T L LE R RE t = Merge_fill A ?T (L + 1) LE R RE (t + 1)"
        using True le i by (simp add: Merge_fill_def Merge_main.simps [of A T L])
      obtain T' where T': "Merge_fill A ?T (L + 1) LE R RE (t + 1) = Some T'"
        "same_outside ?T T' (t + 1) (t + n - 1)"
        "slice T' (t + 1) (t + n - 1) = mergel (slice A (L + 1) LE) (slice A R RE)"
        using "1.IH"(1) [OF True aget_ok [OF i(1)] aget_ok [OF i(2)] le aput_ok [OF i(3)], of "n - 1"]
          "1.prems" True by auto
      have "slice T' t (t + n - 1) = mergel (slice A L LE) (slice A R RE)"
        using T'(3) True le same_outside_first(2) [OF T'(2) i(3) h] h
        by (simp add: slice_Cons [of t] slice_Cons [of L] slice_Cons [of R])
      then show ?thesis using e T'(1) same_outside_first(1) [OF T'(2) i(3) h] by simp
    next
      case gt: False
      let ?T = "upd T t (elt A R)"
      have e: "Merge_fill A T L LE R RE t = Merge_fill A ?T L LE (R + 1) RE (t + 1)"
        using True gt i by (simp add: Merge_fill_def Merge_main.simps [of A T L])
      obtain T' where T': "Merge_fill A ?T L LE (R + 1) RE (t + 1) = Some T'"
        "same_outside ?T T' (t + 1) (t + n - 1)"
        "slice T' (t + 1) (t + n - 1) = mergel (slice A L LE) (slice A (R + 1) RE)"
        using "1.IH"(2) [OF True aget_ok [OF i(1)] aget_ok [OF i(2)] gt aput_ok [OF i(3)], of "n - 1"]
          "1.prems" True by auto
      have "slice T' t (t + n - 1) = mergel (slice A L LE) (slice A R RE)"
        using T'(3) True gt same_outside_first(2) [OF T'(2) i(3) h] h
        by (simp add: slice_Cons [of t] slice_Cons [of L] slice_Cons [of R])
      then show ?thesis using e T'(1) same_outside_first(1) [OF T'(2) i(3) h] by simp
    qed
  qed
qed

lemma Merge_back_ok:
  assumes "i \<le> n" "0 \<le> r - (n - i) + 1" "r < len A" "r < len T"
  shows "\<exists>B. Merge_back A T n i r = Some B \<and> length B = length A \<and>
     (\<forall>k. inb A k \<longrightarrow> elt B k = (if r - (n - i) < k \<and> k \<le> r then elt T k else elt A k))"
  using assms
proof (induction A T n i r rule: Merge_back.induct)
  case (1 A T n i r)
  show ?case
  proof (cases "i < n")
    case False
    then show ?thesis using "1.prems" by (subst Merge_back.simps) auto
  next
    case True
    let ?A = "upd A r (elt T r)"
    have b: "inb T r" "inb A r" using True "1.prems" by (auto simp: inb_def)
    obtain B where B: "Merge_back ?A T n (i + 1) (r - 1) = Some B" "length B = length A"
      "\<And>k. inb A k \<Longrightarrow> elt B k = (if r - 1 - (n - (i + 1)) < k \<and> k \<le> r - 1 then elt T k else elt ?A k)"
      using "1.IH" [OF True aget_ok [OF b(1)] aput_ok [OF b(2)]] "1.prems" True by auto
    have "elt B k = (if r - (n - i) < k \<and> k \<le> r then elt T k else elt A k)" if "inb A k" for k
      using B(3) [OF that] that b True by (auto simp: elt_upd inb_def)
    then show ?thesis using True b B(1,2) by (subst Merge_back.simps) simp
  qed
qed

section \<open>Mergesort\<close>

lemma Merge_ok:
  assumes "0 \<le> L" "L < R" "R \<le> RE" "RE < len A" "len T = len A"
    and "ordered A L (R - 1)" "ordered A R RE"
  shows "\<exists>B T'. Merge A T L R RE = Some (B, T') \<and> len T' = len B \<and> rearranged A B L RE \<and> ordered B L RE"
proof -
  let ?n = "R - 1 - L + 1 + (RE - R + 1)"
  have n: "?n = RE - L + 1" "L + ?n - 1 = RE" by simp_all
  obtain T' where T': "Merge_fill A T L (R - 1) R RE L = Some T'" "same_outside T T' L RE"
    "slice T' L RE = mergel (slice A L (R - 1)) (slice A R RE)"
    using Merge_fill_ok [of L "R - 1" A R RE L ?n T] assms(1-5) n by auto
  have l: "length T' = length T" using T'(2) by (simp add: same_outside_def)
  obtain B where B: "Merge_back A T' (RE - L + 1) 0 RE = Some B" "length B = length A"
    "\<And>k. inb A k \<Longrightarrow> elt B k = (if L - 1 < k \<and> k \<le> RE then elt T' k else elt A k)"
    using Merge_back_ok [of 0 "RE - L + 1" RE A T'] assms(1-5) l by auto
  have BT: "slice B L RE = slice T' L RE"
    using B(3) assms(1,4) by (intro slice_cong) (auto simp: inb_def)
  have "slice A L RE = slice A L (R - 1) @ slice A R RE"
    using slice_append [of L "R - 1" RE A] assms by simp
  then have "mset (slice B L RE) = mset (slice A L RE)" by (simp add: BT T'(3) mset_mergel)
  moreover have "same_outside A B L RE" using B by (auto simp: same_outside_def)
  ultimately have "rearranged A B L RE" using assms by (intro rearrangedI_slice) auto
  moreover have "ordered B L RE"
    using assms(6,7) by (simp add: ordered_slice BT T'(3) sorted_mergel)
  moreover have "Merge A T L R RE = Some (B, T')" using T'(1) B(1) by (simp add: Merge_def)
  ultimately show ?thesis using l B(2) assms(5) by auto
qed

lemma MSort_ok:
  assumes "0 \<le> l" "r < len A" "len A \<le> 2 ^ 30" "len T = len A"
  shows "\<exists>B T'. MSort A T l r = Some (B, T') \<and> len T' = len B \<and> rearranged A B l r \<and> ordered B l r"
  using assms
proof (induction A T l r rule: MSort.induct)
  case (1 A T l r)
  show ?case
  proof (cases "l < r")
    case False
    then show ?thesis using "1.prems" by (subst MSort.simps) (simp add: ordered_single)
  next
    case True
    let ?c = "(l + r) div 2"
    have ck: "ck (l + r) = Some (l + r)" using True "1.prems" by simp
    have c: "l \<le> ?c" "?c < r" using True by auto
    obtain B T1 where B: "MSort A T l ?c = Some (B, T1)" "len T1 = len B" "rearranged A B l ?c" "ordered B l ?c"
      using "1.IH"(1) [OF True ck refl] "1.prems" c by auto
    have lB: "length B = length A" using B(3) by (rule rearranged_length)
    obtain C T2 where C: "MSort B T1 (?c + 1) r = Some (C, T2)" "len T2 = len C"
      "rearranged B C (?c + 1) r" "ordered C (?c + 1) r"
      using "1.IH"(2) [OF True ck refl B(1) refl] "1.prems" c B(2) lB by auto
    have lC: "length C = length A" using C(3) lB by (simp add: rearranged_length)
    have "ordered C l ?c"
    proof (rule orderedI)
      fix i j assume ij: "l \<le> i" "i \<le> j" "j \<le> ?c"
      then show "elt C i \<le> elt C j"
        using orderedD [OF B(4), of i j] rearranged_outside [OF C(3), of i]
          rearranged_outside [OF C(3), of j] "1.prems" c lB by (simp add: inb_def)
    qed
    then obtain D T3 where D: "Merge C T2 l (?c + 1) r = Some (D, T3)" "len T3 = len D"
      "rearranged C D l r" "ordered D l r"
      using Merge_ok [of l "?c + 1" r C T2] C(2,4) "1.prems" c lC by auto
    have "MSort A T l r = Some (D, T3)"
      using True ck B(1) C(1) D(1) by (subst MSort.simps) simp
    moreover have "rearranged A D l r"
      using c by (intro rearranged_trans2 [OF rearranged_trans2 [OF B(3) C(3), of l r] D(3)]) auto
    ultimately show ?thesis using D by blast
  qed
qed

lemma Mergesort_ok:
  assumes "len A \<le> 2 ^ 30" "length T = length A"
  shows "\<exists>B. Mergesort (Some T) A (len A) = Inr B \<and> mset B = mset A \<and> sorted B"
proof -
  obtain B T' where B: "MSort A T 0 (len A - 1) = Some (B, T')" "rearranged A B 0 (len A - 1)"
    "ordered B 0 (len A - 1)"
    using MSort_ok [of 0 "len A - 1" A T] assms by auto
  have "length B = length A" using B(2) by (rule rearranged_length)
  then have "sorted B" using B(3) by (simp flip: ordered_sorted)
  then show ?thesis using B by (simp add: Mergesort_def rearranged_def)
qed

end
