(* ===== verification/SortQuick.thy ===== *)
theory SortQuick
  imports SortInsertion
begin

text \<open>
  \<^verbatim>\<open>src/DSAAC/sort.c\<close>, lines 155-266: \<open>Median3\<close>, \<open>Qsort\<close>,
  \<open>Quicksort\<close> and \<open>Qselect\<close>. The two inner scans have no bounds test of
  their own: that they stop inside the array is part of what is proved (the model gives
  \<open>None\<close> otherwise).
\<close>

section \<open>Operations\<close>

definition order2 :: "int list \<Rightarrow> int \<Rightarrow> int \<Rightarrow> int list option" where
  \<comment> \<open>\<open>if( A[ i ] > A[ j ] ) Swap( &A[ i ], &A[ j ] );\<close>\<close>
  "order2 A i j = do { x \<leftarrow> aget A i; y \<leftarrow> aget A j; if x > y then Swap A i j else Some A }"

definition Median3 :: "int list \<Rightarrow> int \<Rightarrow> int \<Rightarrow> (int list \<times> int) option" where
  "Median3 A Lft Rgt = do {
     s \<leftarrow> ck (Lft + Rgt);
     let Center = s div 2;
     A \<leftarrow> order2 A Lft Center;
     A \<leftarrow> order2 A Lft Rgt;
     A \<leftarrow> order2 A Center Rgt;
     A \<leftarrow> Swap A Center (Rgt - 1);
     p \<leftarrow> aget A (Rgt - 1);
     Some (A, p)
   }"

abbreviation Cutoff :: int where "Cutoff \<equiv> 3"

text \<open>\<open>while( A[ ++i ] < Pivot ){ }\<close> and \<open>while( A[ --j ] > Pivot ){ }\<close>\<close>

function scan_up :: "int list \<Rightarrow> int \<Rightarrow> int \<Rightarrow> int option" where
  "scan_up A Pivot i = do {
     x \<leftarrow> aget A (i + 1);
     if x < Pivot then scan_up A Pivot (i + 1) else Some (i + 1)
   }"
  by pat_completeness auto
termination
  by (relation "measure (\<lambda>(A, p, i). nat (len A - i))") (auto simp: aget_Some_iff inb_def)

function scan_down :: "int list \<Rightarrow> int \<Rightarrow> int \<Rightarrow> int option" where
  "scan_down A Pivot j = do {
     x \<leftarrow> aget A (j - 1);
     if x > Pivot then scan_down A Pivot (j - 1) else Some (j - 1)
   }"
  by pat_completeness auto
termination
  by (relation "measure (\<lambda>(A, p, j). nat (j + 1))") (auto simp: aget_Some_iff inb_def)

declare scan_up.simps [simp del] scan_down.simps [simp del]

lemma scan_downD:
  "scan_down A p j = Some j' \<Longrightarrow> inb A j' \<and> j' < j \<and> elt A j' \<le> p \<and> (\<forall>k. j' < k \<and> k < j \<longrightarrow> p < elt A k)"
proof (induction A p j rule: scan_down.induct)
  case (1 A p j)
  show ?case
  proof (cases "elt A (j - 1) > p")
    case True
    with "1.prems" have r: "inb A (j - 1)" "scan_down A p (j - 1) = Some j'"
      by (subst (asm) scan_down.simps, auto simp: bind_eq_Some_conv aget_Some_iff)+
    have "p < elt A k" if "j' < k" "k < j" for k
      using "1.IH" [OF aget_ok [OF r(1)] True r(2)] True that by (cases "k = j - 1") auto
    with "1.IH" [OF aget_ok [OF r(1)] True r(2)] show ?thesis by auto
  next
    case False
    with 1 show ?thesis
      by (subst (asm) (2) scan_down.simps) (auto simp: bind_eq_Some_conv aget_Some_iff)
  qed
qed

lemma scan_upD:
  "scan_up A p i = Some i' \<Longrightarrow> inb A i' \<and> i < i' \<and> p \<le> elt A i' \<and> (\<forall>k. i < k \<and> k < i' \<longrightarrow> elt A k < p)"
proof (induction A p i rule: scan_up.induct)
  case (1 A p i)
  show ?case
  proof (cases "elt A (i + 1) < p")
    case True
    with "1.prems" have r: "inb A (i + 1)" "scan_up A p (i + 1) = Some i'"
      by (subst (asm) scan_up.simps, auto simp: bind_eq_Some_conv aget_Some_iff)+
    have "elt A k < p" if "i < k" "k < i'" for k
      using "1.IH" [OF aget_ok [OF r(1)] True r(2)] True that by (cases "k = i + 1") auto
    with "1.IH" [OF aget_ok [OF r(1)] True r(2)] show ?thesis by auto
  next
    case False
    with 1 show ?thesis
      by (subst (asm) (2) scan_up.simps) (auto simp: bind_eq_Some_conv aget_Some_iff)
  qed
qed

text \<open>The loop \<open>for( ; ; )\<close> of \<open>Qsort\<close> and of \<open>Qselect\<close>; it returns the
  array and the final \<open>i\<close>.\<close>

function partition_loop :: "int list \<Rightarrow> int \<Rightarrow> int \<Rightarrow> int \<Rightarrow> (int list \<times> int) option" where
  "partition_loop A Pivot i j = do {
     i \<leftarrow> scan_up A Pivot i;
     j \<leftarrow> scan_down A Pivot j;
     if i < j then do {
       A \<leftarrow> Swap A i j;
       partition_loop A Pivot i j
     } else Some (A, i)
   }"
  by pat_completeness auto
termination
  by (relation "measure (\<lambda>(A, p, i, j). nat (j + 1))") (auto dest!: scan_downD simp: inb_def)

declare partition_loop.simps [simp del]

text \<open>For the termination of the recursion: \<open>i\<close> stays between the ends.\<close>

lemma partition_loop_range:
  "partition_loop A p i j = Some (B, i') \<Longrightarrow> inb A m \<Longrightarrow> p \<le> elt A m \<Longrightarrow> i < m \<Longrightarrow> j \<le> m \<Longrightarrow>
     i < i' \<and> i' \<le> m"
proof (induction A p i j arbitrary: B i' rule: partition_loop.induct)
  case (1 A p i j)
  from "1.prems"(1) obtain i1 j1 where s: "scan_up A p i = Some i1" "scan_down A p j = Some j1"
    by (subst (asm) partition_loop.simps) (auto simp: bind_eq_Some_conv)
  note u = scan_upD [OF s(1)] and d = scan_downD [OF s(2)]
  have i1: "i < i1" "i1 \<le> m" using u "1.prems"(3,4) by (auto simp: not_less [symmetric])
  show ?case
  proof (cases "i1 < j1")
    case False
    with "1.prems"(1) s have "i' = i1" by (subst (asm) partition_loop.simps) simp
    with i1 show ?thesis by simp
  next
    case True
    let ?A = "upd (upd A i1 (elt A j1)) j1 (elt A i1)"
    have sw: "Swap A i1 j1 = Some ?A" using u d by (simp add: Swap_ok)
    have "partition_loop ?A p i1 j1 = Some (B, i')"
      using "1.prems"(1) s True sw by (subst (asm) partition_loop.simps) simp
    moreover have "elt ?A m = elt A m"
      using u d "1.prems" True by (simp add: inb_def)
    ultimately have "i1 < i' \<and> i' \<le> m"
      using "1.IH" [OF s True sw] "1.prems" True d by simp
    with i1 show ?thesis by simp
  qed
qed

lemma Swap_SomeD: "Swap A i j = Some B \<Longrightarrow> inb A i \<and> inb A j \<and> B = upd (upd A i (elt A j)) j (elt A i)"
  by (auto simp: Swap_def bind_eq_Some_conv aget_Some_iff aput_Some_iff)

lemma Median3_pivot: "Median3 A l r = Some (B, p) \<Longrightarrow> inb B (r - 1) \<and> elt B (r - 1) = p"
  by (auto simp: Median3_def bind_eq_Some_conv aget_Some_iff Let_def)

function Qsort :: "int list \<Rightarrow> int \<Rightarrow> int \<Rightarrow> int list option" where
  "Qsort A Lft Rgt = do {
     t \<leftarrow> ck (Lft + Cutoff);
     if t \<le> Rgt then do {
       (A, Pivot) \<leftarrow> Median3 A Lft Rgt;
       (A, i) \<leftarrow> partition_loop A Pivot Lft (Rgt - 1);
       A \<leftarrow> Swap A i (Rgt - 1);
       A \<leftarrow> Qsort A Lft (i - 1);
       Qsort A (i + 1) Rgt
     } else InsertionSort A Lft (Rgt - Lft + 1)
   }"
  by pat_completeness auto
termination
  by (relation "measure (\<lambda>(A, l, r). nat (r - l))")
    (auto simp: ck_Some_iff dest!: Median3_pivot dest: partition_loop_range)

definition Quicksort :: "int list \<Rightarrow> int \<Rightarrow> int list option" where
  "Quicksort A N = Qsort A 0 (N - 1)"

function Qselect :: "int list \<Rightarrow> int \<Rightarrow> int \<Rightarrow> int \<Rightarrow> int list option" where
  "Qselect A k Lft Rgt = do {
     t \<leftarrow> ck (Lft + Cutoff);
     if t \<le> Rgt then do {
       (A, Pivot) \<leftarrow> Median3 A Lft Rgt;
       (A, i) \<leftarrow> partition_loop A Pivot Lft (Rgt - 1);
       A \<leftarrow> Swap A i (Rgt - 1);
       if k \<le> i then Qselect A k Lft (i - 1)
       else if k > i + 1 then Qselect A k (i + 1) Rgt
       else Some A
     } else InsertionSort A Lft (Rgt - Lft + 1)
   }"
  by pat_completeness auto
termination
  by (relation "measure (\<lambda>(A, k, l, r). nat (r - l))")
    (auto simp: ck_Some_iff dest!: Median3_pivot dest: partition_loop_range)

declare Qsort.simps [simp del] Qselect.simps [simp del]

section \<open>The pivot\<close>

lemma order2_ok:
  assumes "inb A i" "inb A j" "l \<le> i" "i \<le> h" "l \<le> j" "j \<le> h"
  shows "\<exists>B. order2 A i j = Some B \<and> rearranged A B l h \<and> elt B i = min (elt A i) (elt A j) \<and>
     elt B j = (if i = j then elt A i else max (elt A i) (elt A j)) \<and>
     (\<forall>k. inb A k \<and> k \<noteq> i \<and> k \<noteq> j \<longrightarrow> elt B k = elt A k)"
proof (cases "elt A i > elt A j")
  case True
  then have "order2 A i j = Some (upd (upd A i (elt A j)) j (elt A i))"
    using assms by (simp add: order2_def Swap_ok)
  moreover have "i \<noteq> j" using True by auto
  ultimately show ?thesis
    using True assms rearranged_swap [OF assms] by (auto simp: inb_def)
next
  case False
  then show ?thesis using assms by (auto simp: order2_def)
qed

lemma Median3_ok:
  assumes "0 \<le> l" "l + 3 \<le> r" "r < len A" "len A \<le> 2 ^ 30"
  shows "\<exists>B p. Median3 A l r = Some (B, p) \<and> rearranged A B l r \<and>
     elt B (r - 1) = p \<and> elt B l \<le> p \<and> p \<le> elt B r"
proof -
  let ?c = "(l + r) div 2"
  have c: "l < ?c" "?c < r" "?c \<le> r - 1" using assms by auto
  have ck: "ck (l + r) = Some (l + r)" using assms by simp
  obtain B1 where B1: "order2 A l ?c = Some B1" "rearranged A B1 l r"
      "elt B1 l = min (elt A l) (elt A ?c)" "elt B1 ?c = max (elt A l) (elt A ?c)"
      "\<And>k. inb A k \<Longrightarrow> k \<noteq> l \<Longrightarrow> k \<noteq> ?c \<Longrightarrow> elt B1 k = elt A k"
    using order2_ok [of A l ?c l r] c assms by (auto simp: inb_def)
  have l1: "length B1 = length A" by (rule rearranged_length [OF B1(2)])
  obtain B2 where B2: "order2 B1 l r = Some B2" "rearranged B1 B2 l r"
      "elt B2 l = min (elt B1 l) (elt B1 r)" "elt B2 r = max (elt B1 l) (elt B1 r)"
      "\<And>k. inb B1 k \<Longrightarrow> k \<noteq> l \<Longrightarrow> k \<noteq> r \<Longrightarrow> elt B2 k = elt B1 k"
    using order2_ok [of B1 l r l r] c assms l1 by (auto simp: inb_def)
  have l2: "length B2 = length A" using rearranged_length [OF B2(2)] l1 by simp
  obtain B3 where B3: "order2 B2 ?c r = Some B3" "rearranged B2 B3 l r"
      "elt B3 ?c = min (elt B2 ?c) (elt B2 r)" "elt B3 r = max (elt B2 ?c) (elt B2 r)"
      "\<And>k. inb B2 k \<Longrightarrow> k \<noteq> ?c \<Longrightarrow> k \<noteq> r \<Longrightarrow> elt B3 k = elt B2 k"
    using order2_ok [of B2 ?c r l r] c assms l2 by (auto simp: inb_def)
  have l3: "length B3 = length A" using rearranged_length [OF B3(2)] l2 by simp
  let ?B = "upd (upd B3 ?c (elt B3 (r - 1))) (r - 1) (elt B3 ?c)"
  have ib: "inb B3 ?c" "inb B3 (r - 1)" using c assms l3 by (auto simp: inb_def)
  have "Median3 A l r = Some (?B, elt B3 ?c)"
    using ck B1(1) B2(1) B3(1) ib by (simp add: Median3_def Swap_ok Let_def)
  moreover have "rearranged A ?B l r"
  proof -
    have "rearranged B3 ?B l r" using rearranged_swap [OF ib, of l r] c assms by simp
    then show ?thesis using B1(2) B2(2) B3(2) by (blast intro: rearranged_trans)
  qed
  moreover have "elt ?B l \<le> elt B3 ?c"
  proof -
    have "elt B2 ?c = elt B1 ?c" using B2(5) [of ?c] c assms l1 by (simp add: inb_def)
    moreover have "elt B3 l = elt B2 l" using B3(5) [of l] c assms l2 by (simp add: inb_def)
    moreover have "elt ?B l = elt B3 l" using c assms by simp
    ultimately show ?thesis using B1(3,4) B2(3,4) B3(3) by (auto simp: min_def max_def split: if_splits)
  qed
  moreover have "elt B3 ?c \<le> elt ?B r"
    using B3(3,4) c assms by (simp add: min_def max_def)
  ultimately show ?thesis using ib by auto
qed

section \<open>The partition\<close>

lemma scan_up_total:
  "inb A m \<Longrightarrow> p \<le> elt A m \<Longrightarrow> 0 \<le> i + 1 \<Longrightarrow> i < m \<Longrightarrow> \<exists>i'. scan_up A p i = Some i' \<and> i' \<le> m"
proof (induction A p i rule: scan_up.induct)
  case (1 A p i)
  have b: "inb A (i + 1)" using "1.prems" by (simp add: inb_def)
  show ?case
  proof (cases "elt A (i + 1) < p")
    case True
    then have "i + 1 \<noteq> m" using "1.prems" by auto
    then show ?thesis using "1.IH" [OF aget_ok [OF b] True] "1.prems" b True
      by (subst scan_up.simps) auto
  next
    case False
    then show ?thesis using "1.prems" b by (subst scan_up.simps) auto
  qed
qed

lemma scan_down_total:
  "inb A m \<Longrightarrow> elt A m \<le> p \<Longrightarrow> j \<le> len A \<Longrightarrow> m < j \<Longrightarrow> \<exists>j'. scan_down A p j = Some j' \<and> m \<le> j'"
proof (induction A p j rule: scan_down.induct)
  case (1 A p j)
  have b: "inb A (j - 1)" using "1.prems" by (simp add: inb_def)
  show ?case
  proof (cases "elt A (j - 1) > p")
    case True
    then have "j - 1 \<noteq> m" using "1.prems" by auto
    then show ?thesis using "1.IH" [OF aget_ok [OF b] True] "1.prems" b True
      by (subst scan_down.simps) auto
  next
    case False
    then show ?thesis using "1.prems" b by (subst scan_down.simps) auto
  qed
qed

lemma partition_loop_ok:
  assumes "0 \<le> l" "r < len A" "l \<le> i" "i < j" "j \<le> r"
    and "\<And>k. l \<le> k \<Longrightarrow> k \<le> i \<Longrightarrow> elt A k \<le> p"
    and "\<And>k. j \<le> k \<Longrightarrow> k \<le> r \<Longrightarrow> p \<le> elt A k"
  shows "\<exists>B i'. partition_loop A p i j = Some (B, i') \<and> rearranged A B l (j - 1) \<and> i < i' \<and> i' \<le> j \<and>
     (\<forall>k. l \<le> k \<and> k < i' \<longrightarrow> elt B k \<le> p) \<and> (\<forall>k. i' \<le> k \<and> k \<le> r \<longrightarrow> p \<le> elt B k)"
  using assms
proof (induction A p i j rule: partition_loop.induct)
  case (1 A p i j)
  have b: "inb A j" "inb A i" using "1.prems" by (auto simp: inb_def)
  obtain i1 where i1: "scan_up A p i = Some i1" "i1 \<le> j"
    using scan_up_total [OF b(1), of p i] "1.prems" by force
  obtain j1 where j1: "scan_down A p j = Some j1" "i \<le> j1"
    using scan_down_total [OF b(2), of p j] "1.prems" by force
  note u = scan_upD [OF i1(1)] and d = scan_downD [OF j1(1)]
  show ?case
  proof (cases "i1 < j1")
    case False
    then have e: "partition_loop A p i j = Some (A, i1)"
      using i1 j1 by (subst partition_loop.simps) simp
    have "elt A k \<le> p" if "l \<le> k" "k < i1" for k
      using u "1.prems"(6) [of k] that by (cases "k \<le> i") (auto intro: less_imp_le)
    moreover have "p \<le> elt A k" if ki: "i1 \<le> k" "k \<le> r" for k
    proof -
      consider "k = i1" | "j \<le> k" | "j1 < k" "k < j" using ki False by linarith
      then show ?thesis using u d "1.prems"(7) [of k] ki by cases (auto intro: less_imp_le)
    qed
    ultimately show ?thesis using e u i1 by auto
  next
    case True
    let ?A = "upd (upd A i1 (elt A j1)) j1 (elt A i1)"
    have ib: "inb A i1" "inb A j1" using u d by auto
    have sw: "Swap A i1 j1 = Some ?A" using ib by (rule Swap_ok)
    have el: "\<And>k. 0 \<le> k \<Longrightarrow> elt ?A k = (if k = j1 then elt A i1 else if k = i1 then elt A j1 else elt A k)"
      using ib by (simp add: elt_upd)
    have lo: "elt ?A k \<le> p" if "l \<le> k" "k \<le> i1" for k
      using that u d "1.prems"(1) "1.prems"(6) [of k] True el [of k] by (cases "k \<le> i") (auto intro: less_imp_le)
    have hi: "p \<le> elt ?A k" if "j1 \<le> k" "k \<le> r" for k
      using that u d "1.prems"(1,3) "1.prems"(7) [of k] True el [of k] by (cases "j \<le> k") (auto intro: less_imp_le)
    obtain B i' where B: "partition_loop ?A p i1 j1 = Some (B, i')" "rearranged ?A B l (j1 - 1)"
       "i1 < i'" "i' \<le> j1" "\<And>k. l \<le> k \<Longrightarrow> k < i' \<Longrightarrow> elt B k \<le> p"
       "\<And>k. i' \<le> k \<Longrightarrow> k \<le> r \<Longrightarrow> p \<le> elt B k"
      using "1.IH" [OF i1(1) j1(1) True sw] "1.prems" u d True lo hi by auto
    have "rearranged A ?A l (j - 1)"
      using rearranged_swap [OF ib, of l "j - 1"] u d True "1.prems" by simp
    then have "rearranged A B l (j - 1)" using B(2) d by (auto intro: rearranged_trans2)
    moreover have "partition_loop A p i j = Some (B, i')"
      using i1 j1 True sw B(1) by (subst partition_loop.simps) simp
    ultimately show ?thesis using B u d by auto
  qed
qed

text \<open>One round of \<open>Qsort\<close> and \<open>Qselect\<close>: the pivot is at \<open>i\<close>, nothing
  greater before it and nothing smaller after it.\<close>

definition split_at :: "int list \<Rightarrow> int \<Rightarrow> int \<Rightarrow> int \<Rightarrow> bool" where
  "split_at A l i r \<longleftrightarrow> (\<forall>k. l \<le> k \<and> k < i \<longrightarrow> elt A k \<le> elt A i) \<and>
     (\<forall>k. i < k \<and> k \<le> r \<longrightarrow> elt A i \<le> elt A k)"

lemma split_round:
  assumes "0 \<le> l" "l + 3 \<le> r" "r < len A" "len A \<le> 2 ^ 30"
  obtains B p C i D where "Median3 A l r = Some (B, p)" "partition_loop B p l (r - 1) = Some (C, i)"
    "Swap C i (r - 1) = Some D" "rearranged A D l r" "split_at D l i r" "l < i" "i < r"
proof -
  obtain B p where B: "Median3 A l r = Some (B, p)" "rearranged A B l r" "elt B (r - 1) = p"
     "elt B l \<le> p" "p \<le> elt B r"
    using Median3_ok [OF assms] by blast
  have lB: "length B = length A" by (rule rearranged_length [OF B(2)])
  have lo: "elt B k \<le> p" if "l \<le> k" "k \<le> l" for k using B(4) that by auto
  have hi: "p \<le> elt B k" if "r - 1 \<le> k" "k \<le> r" for k
    using B(3,5) that by (cases "k = r") (auto dest: antisym)
  obtain C i where C: "partition_loop B p l (r - 1) = Some (C, i)" "rearranged B C l (r - 1 - 1)"
     "l < i" "i \<le> r - 1" "\<And>k. l \<le> k \<Longrightarrow> k < i \<Longrightarrow> elt C k \<le> p" "\<And>k. i \<le> k \<Longrightarrow> k \<le> r \<Longrightarrow> p \<le> elt C k"
    using partition_loop_ok [of l r B l "r - 1" p] lo hi assms lB by auto
  have lC: "length C = length A" using rearranged_length [OF C(2)] lB by simp
  have ib: "inb C i" "inb C (r - 1)" using C assms lC by (auto simp: inb_def)
  let ?D = "upd (upd C i (elt C (r - 1))) (r - 1) (elt C i)"
  have p: "elt C (r - 1) = p"
    using rearranged_outside [OF C(2), of "r - 1"] B(3) assms lB by (simp add: inb_def)
  have D: "elt ?D k = (if k = r - 1 then elt C i else if k = i then p else elt C k)" if "0 \<le> k" for k
    using that ib p by (simp add: elt_upd)
  have Di: "elt ?D i = p" using D [of i] p C(3) assms(1) by (cases "i = r - 1") auto
  have "split_at ?D l i r"
    unfolding split_at_def Di
  proof (intro conjI allI impI)
    fix k assume "l \<le> k \<and> k < i" then show "elt ?D k \<le> p" using D [of k] C(4,5) assms(1) by simp
  next
    fix k assume "i < k \<and> k \<le> r" then show "p \<le> elt ?D k"
      using D [of k] C(3,6) assms(1) by simp
  qed
  moreover have "rearranged A ?D l r"
    using rearranged_trans2 [OF B(2) C(2), of l r] rearranged_swap [OF ib, of l r] C assms
    by (auto intro: rearranged_trans)
  ultimately show thesis using that [OF B(1) C(1) Swap_ok [OF ib]] C by simp
qed

lemma split_at_rearranged:
  assumes s: "split_at A l i r" and c: "rearranged A B a b" "b < i \<and> l \<le> a \<or> i < a \<and> b \<le> r"
    and i: "inb A i" and lr: "0 \<le> l" "r < len A"
  shows "split_at B l i r"
proof -
  have Bi: "elt B i = elt A i" using rearranged_outside [OF c(1) i] c(2) by auto
  have "elt B k \<le> elt A i" if k: "l \<le> k" "k < i" for k
  proof (cases "a \<le> k \<and> k \<le> b")
    case True
    then show ?thesis
      using s k c(2) i lr
      by (intro rearranged_all [OF c(1), where P = "\<lambda>v. v \<le> elt A i"]) (auto simp: split_at_def inb_def)
  next
    case False
    then show ?thesis
      using s k i lr rearranged_outside [OF c(1), of k] by (auto simp: split_at_def inb_def)
  qed
  moreover have "elt A i \<le> elt B k" if k: "i < k" "k \<le> r" for k
  proof (cases "a \<le> k \<and> k \<le> b")
    case True
    then show ?thesis
      using s k c(2) i lr
      by (intro rearranged_all [OF c(1), where P = "\<lambda>v. elt A i \<le> v"]) (auto simp: split_at_def inb_def)
  next
    case False
    then show ?thesis
      using s k i lr rearranged_outside [OF c(1), of k] by (auto simp: split_at_def inb_def)
  qed
  ultimately show ?thesis by (simp add: split_at_def Bi)
qed

section \<open>Quicksort\<close>

lemma ordered_join:
  assumes "ordered A l (i - 1)" "ordered A (i + 1) r" "split_at A l i r" "l \<le> i" "i \<le> r"
  shows "ordered A l r"
proof (rule orderedI)
  fix x y assume xy: "l \<le> x" "x \<le> y" "y \<le> r"
  have lo: "elt A k \<le> elt A i" if "l \<le> k" "k \<le> i" for k
    using assms(3) that by (cases "k = i") (auto simp: split_at_def)
  have hi: "elt A i \<le> elt A k" if "i \<le> k" "k \<le> r" for k
    using assms(3) that by (cases "k = i") (auto simp: split_at_def)
  consider "y \<le> i - 1" | "x \<le> i" "i \<le> y" | "i + 1 \<le> x" by linarith
  then show "elt A x \<le> elt A y"
  proof cases
    case 1 then show ?thesis using orderedD [OF assms(1)] xy by simp
  next
    case 2 then show ?thesis using lo [of x] hi [of y] xy by simp
  next
    case 3 then show ?thesis using orderedD [OF assms(2)] xy by simp
  qed
qed

lemma ordered_rearranged_other:
  assumes "ordered A l h" "rearranged A B a b" "h < a \<or> b < l" "0 \<le> l" "h < len A"
  shows "ordered B l h"
proof (rule orderedI)
  fix x y assume xy: "l \<le> x" "x \<le> y" "y \<le> h"
  then show "elt B x \<le> elt B y"
    using orderedD [OF assms(1), of x y] rearranged_outside [OF assms(2), of x]
      rearranged_outside [OF assms(2), of y] assms(3-5) by (auto simp: inb_def)
qed

lemma Qsort_ok:
  assumes "0 \<le> l" "r < len A" "len A \<le> 2 ^ 30" "l \<le> len A"
  shows "\<exists>B. Qsort A l r = Some B \<and> rearranged A B l r \<and> ordered B l r"
  using assms
proof (induction A l r rule: Qsort.induct)
  case (1 A l r)
  have ck: "ck (l + 3) = Some (l + 3)" using "1.prems" by simp
  show ?case
  proof (cases "l + 3 \<le> r")
    case False
    have "\<exists>B. InsertionSort A l (r - l + 1) = Some B \<and> rearranged A B l (l + (r - l + 1 - 1)) \<and>
            ordered B l (l + (r - l + 1 - 1))"
      using "1.prems" by (intro InsertionSort_ok) auto
    then show ?thesis using ck False by (subst Qsort.simps) simp
  next
    case True
    obtain B p C i D where s: "Median3 A l r = Some (B, p)" "partition_loop B p l (r - 1) = Some (C, i)"
      "Swap C i (r - 1) = Some D" "rearranged A D l r" "split_at D l i r" "l < i" "i < r"
      using split_round [OF "1.prems"(1) True "1.prems"(2,3)] by blast
    have lD: "length D = length A" by (rule rearranged_length [OF s(4)])
    obtain E where E: "Qsort D l (i - 1) = Some E" "rearranged D E l (i - 1)" "ordered E l (i - 1)"
      using "1.IH"(1) [OF ck True s(1) refl s(2) refl s(3)] "1.prems" s lD by auto
    have lE: "length E = length A" using rearranged_length [OF E(2)] lD by simp
    obtain F where F: "Qsort E (i + 1) r = Some F" "rearranged E F (i + 1) r" "ordered F (i + 1) r"
      using "1.IH"(2) [OF ck True s(1) refl s(2) refl s(3) E(1)] "1.prems" s lE by auto
    have "split_at E l i r"
      using s "1.prems" lD by (intro split_at_rearranged [OF s(5) E(2)]) (auto simp: inb_def)
    then have "split_at F l i r"
      using s "1.prems" lE by (intro split_at_rearranged [OF _ F(2)]) (auto simp: inb_def)
    moreover have "ordered F l (i - 1)"
      using s "1.prems" lE by (intro ordered_rearranged_other [OF E(3) F(2)]) auto
    ultimately have "ordered F l r" using ordered_join [OF _ F(3)] s by simp
    moreover have "rearranged A F l r"
      using s by (intro rearranged_trans [OF s(4) rearranged_trans2 [OF E(2) F(2)]]) auto
    moreover have "Qsort A l r = Some F"
      using ck True s E(1) F(1) by (subst Qsort.simps) simp
    ultimately show ?thesis by blast
  qed
qed

section \<open>Qselect\<close>

lemma split_at_sub:
  assumes "split_at B l' m r'" "split_at A l i r" "rearranged A B l' r'"
    and "(l' = l \<and> r' = i - 1) \<or> (l' = i + 1 \<and> r' = r)" "l' \<le> m" "m \<le> r'"
    and i: "l \<le> i" "i \<le> r" and lr: "0 \<le> l" "r < len A"
  shows "split_at B l m r"
proof -
  have ib: "inb A i" using i lr by (simp add: inb_def)
  have B: "split_at B l i r"
    using assms(4) ib lr i by (intro split_at_rearranged [OF assms(2,3)]) auto
  then have lo: "\<And>k. l \<le> k \<Longrightarrow> k \<le> i \<Longrightarrow> elt B k \<le> elt B i"
    and hi: "\<And>k. i \<le> k \<Longrightarrow> k \<le> r \<Longrightarrow> elt B i \<le> elt B k"
    unfolding split_at_def by (metis order.order_iff_strict)+
  have "elt B k \<le> elt B m" if "l \<le> k" "k < m" for k
    using assms(1,4,5,6) that lo [of k] hi [of m] i unfolding split_at_def
    by (cases "l' \<le> k") (auto intro: order_trans)
  moreover have "elt B m \<le> elt B k" if "m < k" "k \<le> r" for k
    using assms(1,4,5,6) that lo [of m] hi [of k] i unfolding split_at_def
    by (cases "k \<le> r'") (auto intro: order_trans)
  ultimately show ?thesis by (simp add: split_at_def)
qed

lemma Qselect_ok:
  assumes "0 \<le> l" "r < len A" "len A \<le> 2 ^ 30" "l \<le> k - 1" "k - 1 \<le> r"
  shows "\<exists>B. Qselect A k l r = Some B \<and> rearranged A B l r \<and> split_at B l (k - 1) r"
  using assms
proof (induction A k l r rule: Qselect.induct)
  case (1 A k l r)
  have ck: "ck (l + 3) = Some (l + 3)" using "1.prems" by simp
  show ?case
  proof (cases "l + 3 \<le> r")
    case False
    obtain B where B: "InsertionSort A l (r - l + 1) = Some B" "rearranged A B l r" "ordered B l r"
      using InsertionSort_ok [of l "r - l + 1" A] "1.prems" by auto
    have "split_at B l (k - 1) r"
      unfolding split_at_def using "1.prems"(4,5) by (auto intro: orderedD [OF B(3)])
    then show ?thesis using ck False B by (subst Qselect.simps) simp
  next
    case True
    obtain B p C i D where s: "Median3 A l r = Some (B, p)" "partition_loop B p l (r - 1) = Some (C, i)"
      "Swap C i (r - 1) = Some D" "rearranged A D l r" "split_at D l i r" "l < i" "i < r"
      using split_round [OF "1.prems"(1) True "1.prems"(2,3)] by blast
    have lD: "length D = length A" by (rule rearranged_length [OF s(4)])
    consider "k \<le> i" | "k > i + 1" | "k = i + 1" by linarith
    then show ?thesis
    proof cases
      case le: 1
      obtain E where E: "Qselect D k l (i - 1) = Some E" "rearranged D E l (i - 1)"
          "split_at E l (k - 1) (i - 1)"
        using "1.IH"(1) [OF ck True s(1) refl s(2) refl s(3) le] "1.prems" s lD le by auto
      have "split_at E l (k - 1) r"
        using split_at_sub [OF E(3) s(5) E(2)] s "1.prems" lD le by auto
      moreover have "rearranged A E l r"
        using rearranged_trans2 [OF s(4) E(2), of l r] s by simp
      ultimately show ?thesis using ck True s(1-3) le E(1) by (subst Qselect.simps) simp
    next
      case gt: 2
      then have n: "\<not> k \<le> i" by simp
      obtain E where E: "Qselect D k (i + 1) r = Some E" "rearranged D E (i + 1) r"
          "split_at E (i + 1) (k - 1) r"
        using "1.IH"(2) [OF ck True s(1) refl s(2) refl s(3) n gt] "1.prems" s lD gt by auto
      have "split_at E l (k - 1) r"
        using split_at_sub [OF E(3) s(5) E(2)] s "1.prems" lD gt by auto
      moreover have "rearranged A E l r"
        using rearranged_trans2 [OF s(4) E(2), of l r] s by simp
      ultimately show ?thesis using ck True s(1-3) gt E(1) by (subst Qselect.simps) simp
    next
      case 3
      then show ?thesis using ck True s by (subst Qselect.simps) simp
    qed
  qed
qed

text \<open>The cell at which an array is split holds the value the sorted array has there.\<close>

lemma split_at_sort:
  assumes s: "split_at A 0 m (len A - 1)" and m: "0 \<le> m" "m < len A"
  shows "elt A m = sort A ! nat m"
proof -
  let ?n = "nat m"
  have n: "?n < length A" using m by simp
  have A: "A = take ?n A @ A ! ?n # drop (Suc ?n) A" using n by (rule id_take_nth_drop)
  have lo: "x \<le> A ! ?n" if "x \<in> set (take ?n A)" for x
  proof -
    from that obtain k where "k < ?n" "x = A ! k" using n by (auto simp: in_set_conv_nth)
    then show ?thesis using s by (auto simp: split_at_def elt_def dest!: spec [of _ "int k"])
  qed
  have hi: "A ! ?n \<le> x" if "x \<in> set (drop (Suc ?n) A)" for x
  proof -
    from that obtain k where "k < length A - Suc ?n" "x = A ! (Suc ?n + k)" by (auto simp: in_set_conv_nth)
    then show ?thesis using s m by (auto simp: split_at_def elt_def nat_add_distrib dest!: spec [of _ "m + 1 + int k"])
  qed
  let ?S = "sort (take ?n A) @ A ! ?n # sort (drop (Suc ?n) A)"
  have "mset ?S = mset A" using arg_cong [OF A, of mset] by simp
  moreover have "sorted ?S" using lo hi by (auto simp: sorted_append intro: order_trans)
  ultimately have "sort A = ?S" by (metis properties_for_sort)
  moreover have "?S ! ?n = A ! ?n" using n by (simp add: nth_append)
  ultimately show ?thesis by (simp add: elt_def)
qed

end
