(* ===== verification/Sorting.thy ===== *)
theory Sorting
  imports SortHeap SortMerge SortQuick
begin

text \<open>
  The five sorting routines of \<^verbatim>\<open>src/DSAAC/sort.c\<close> behind one interface, the
  selection routine, and the test routines of lines 268-340 (\<open>Permute\<close>,
  \<open>Checksort\<close>, \<open>Copy\<close>) as its client. The results of \<open>rand()\<close> are a
  parameter \<open>rnd\<close>: \<open>rnd k\<close> is the value of the \<open>k\<close>-th call, never negative.
\<close>

section \<open>The test routines\<close>

text \<open>First loop of \<open>Permute\<close>: \<open>A[ i ] = i\<close>.\<close>

function Permute_fill :: "int list \<Rightarrow> int \<Rightarrow> int \<Rightarrow> int list option" where
  "Permute_fill A N i =
     (if i < N then do { A \<leftarrow> aput A i i; Permute_fill A N (i + 1) } else Some A)"
  by pat_completeness auto
termination
  by (relation "measure (\<lambda>(A, N, i). nat (N - i))") auto

text \<open>Second loop: \<open>Swap( &A[ i ], &A[ rand( ) % ( i + 1 ) ] )\<close>. The operand of
  \<open>%\<close> is not negative, so \<open>%\<close> is \<open>mod\<close>.\<close>

function Permute_shuffle :: "(int \<Rightarrow> nat) \<Rightarrow> int list \<Rightarrow> int \<Rightarrow> int \<Rightarrow> int list option" where
  "Permute_shuffle rnd A N i =
     (if i < N then do {
        A \<leftarrow> Swap A i (int (rnd i) mod (i + 1));
        Permute_shuffle rnd A N (i + 1)
      } else Some A)"
  by pat_completeness auto
termination
  by (relation "measure (\<lambda>(rnd, A, N, i). nat (N - i))") auto

definition Permute :: "(int \<Rightarrow> nat) \<Rightarrow> int list \<Rightarrow> int \<Rightarrow> int list option" where
  "Permute rnd A N = do { A \<leftarrow> Permute_fill A N 0; Permute_shuffle rnd A N 1 }"

text \<open>\<open>Checksort\<close> prints one line per cell with \<open>A[ i ] != i\<close>; the model returns
  the pairs it prints.\<close>

function Checksort_loop :: "int list \<Rightarrow> int \<Rightarrow> int \<Rightarrow> (int \<times> int) list option" where
  "Checksort_loop A N i =
     (if i < N then do {
        x \<leftarrow> aget A i;
        rest \<leftarrow> Checksort_loop A N (i + 1);
        Some (if x \<noteq> i then (i, x) # rest else rest)
      } else Some [])"
  by pat_completeness auto
termination
  by (relation "measure (\<lambda>(A, N, i). nat (N - i))") auto

definition Checksort :: "int list \<Rightarrow> int \<Rightarrow> (int \<times> int) list option" where
  "Checksort A N = Checksort_loop A N 0"

function Copy_loop :: "int list \<Rightarrow> int list \<Rightarrow> int \<Rightarrow> int \<Rightarrow> int list option" where
  "Copy_loop Lhs Rhs N i =
     (if i < N then do {
        x \<leftarrow> aget Rhs i;
        Lhs \<leftarrow> aput Lhs i x;
        Copy_loop Lhs Rhs N (i + 1)
      } else Some Lhs)"
  by pat_completeness auto
termination
  by (relation "measure (\<lambda>(L, R, N, i). nat (N - i))") auto

definition Copy :: "int list \<Rightarrow> int list \<Rightarrow> int \<Rightarrow> int list option" where
  "Copy Lhs Rhs N = Copy_loop Lhs Rhs N 0"

declare Permute_fill.simps [simp del] Permute_shuffle.simps [simp del]
  Checksort_loop.simps [simp del] Copy_loop.simps [simp del]

text \<open>One test of \<open>main\<close>: copy \<open>Arr2\<close>, sort the copy, check it.\<close>

definition sort_test :: "(int list \<Rightarrow> int list option) \<Rightarrow> int list \<Rightarrow> int list \<Rightarrow> int \<Rightarrow>
    (int \<times> int) list option" where
  "sort_test srt Arr1 Arr2 N = do {
     Arr1 \<leftarrow> Copy Arr1 Arr2 N;
     Arr1 \<leftarrow> srt Arr1;
     Checksort Arr1 N
   }"

section \<open>What the test routines do\<close>

lemma Permute_fill_ok:
  "0 \<le> i \<Longrightarrow> N = len A \<Longrightarrow> (\<And>k. 0 \<le> k \<Longrightarrow> k < i \<Longrightarrow> elt A k = k) \<Longrightarrow>
     Permute_fill A N i = Some [0..N - 1]"
proof (induction A N i rule: Permute_fill.induct)
  case (1 A N i)
  show ?case
  proof (cases "i < N")
    case True
    have i: "inb A i" using True "1.prems" by (simp add: inb_def)
    have "Permute_fill (upd A i i) N (i + 1) = Some [0..N - 1]"
      using "1.prems" i by (intro "1.IH" [OF True aput_ok [OF i]]) (auto simp: elt_upd)
    then show ?thesis using True i by (subst Permute_fill.simps) simp
  next
    case False
    have "A = [0..N - 1]"
      using "1.prems" False by (intro list_eq_elt) (auto simp: inb_def elt_def)
    then show ?thesis using False by (subst Permute_fill.simps) simp
  qed
qed

lemma Permute_shuffle_perm:
  assumes "0 \<le> i" "N = len A"
  shows "\<exists>B. Permute_shuffle rnd A N i = Some B \<and> mset B = mset A"
  using assms
proof (induction rnd A N i rule: Permute_shuffle.induct)
  case (1 rnd A N i)
  show ?case
  proof (cases "i < N")
    case True
    let ?j = "int (rnd i) mod (i + 1)"
    have "0 \<le> ?j" "?j < i + 1"
      using "1.prems"(1) pos_mod_bound [of "i + 1" "int (rnd i)"] by simp_all
    then have i: "inb A i" "inb A ?j" using True "1.prems" by (auto simp: inb_def)
    then show ?thesis
      using "1.IH" [OF True Swap_ok [OF i]] "1.prems" True Swap_ok [OF i] mset_upd_upd [OF i]
      by (subst Permute_shuffle.simps) simp
  next
    case False
    then show ?thesis by (subst Permute_shuffle.simps) simp
  qed
qed

lemma Permute_perm: "\<exists>B. Permute rnd A (len A) = Some B \<and> mset B = mset [0..len A - 1]"
  using Permute_fill_ok [of 0 "len A" A] Permute_shuffle_perm [of 1 "len A" "[0..len A - 1]" rnd]
  by (auto simp: Permute_def)

lemma Copy_loop_ok:
  "0 \<le> i \<Longrightarrow> N = len L \<Longrightarrow> len R = N \<Longrightarrow> (\<And>k. 0 \<le> k \<Longrightarrow> k < i \<Longrightarrow> elt L k = elt R k) \<Longrightarrow>
     Copy_loop L R N i = Some R"
proof (induction L R N i rule: Copy_loop.induct)
  case (1 L R N i)
  show ?case
  proof (cases "i < N")
    case True
    have i: "inb L i" "inb R i" using True "1.prems" by (auto simp: inb_def)
    have "Copy_loop (upd L i (elt R i)) R N (i + 1) = Some R"
      using "1.prems" i by (intro "1.IH" [OF True aget_ok [OF i(2)] aput_ok [OF i(1)]]) (auto simp: elt_upd)
    then show ?thesis using True i by (subst Copy_loop.simps) simp
  next
    case False
    have "L = R" using "1.prems" False by (intro list_eq_elt) (auto simp: inb_def)
    then show ?thesis using False by (subst Copy_loop.simps) simp
  qed
qed

lemma Checksort_loop_ok:
  "0 \<le> i \<Longrightarrow> N = len A \<Longrightarrow> Checksort_loop A N i = Some [(k, elt A k). k \<leftarrow> [i..N - 1], elt A k \<noteq> k]"
proof (induction A N i rule: Checksort_loop.induct)
  case (1 A N i)
  show ?case
  proof (cases "i < N")
    case True
    have i: "inb A i" using True "1.prems" by (simp add: inb_def)
    show ?thesis
      using "1.IH" [OF True aget_ok [OF i]] "1.prems" True i
      by (subst Checksort_loop.simps) (simp add: upto_rec1 [of i])
  next
    case False
    then show ?thesis by (subst Checksort_loop.simps) simp
  qed
qed

section \<open>The interface of the sorting routines\<close>

locale sorting_routine =
  fixes srt :: "int list \<Rightarrow> int list option" and admissible :: "int list \<Rightarrow> bool"
  assumes srt_ok: "admissible A \<Longrightarrow> \<exists>B. srt A = Some B \<and> mset B = mset A \<and> sorted B"
begin

lemma srt_sort: "admissible A \<Longrightarrow> srt A = Some (sort A)"
  using srt_ok [of A] by (metis properties_for_sort)

lemma srt_permutation: "admissible A \<Longrightarrow> mset A = mset [0..N - 1] \<Longrightarrow> srt A = Some [0..N - 1]"
  using srt_sort [of A] by (metis properties_for_sort sorted_upto)

lemma srt_test_clean:
  assumes "admissible A" "mset A = mset [0..N - 1]" "len A = N" "length A' = length A"
  shows "sort_test srt A' A N = Some []"
proof -
  have "Copy A' A N = Some A" using assms Copy_loop_ok [of 0 N A' A] by (simp add: Copy_def)
  moreover have "Checksort [0..N - 1] N = Some []"
    using Checksort_loop_ok [of 0 N "[0..N - 1]"] assms(3)
    by (auto simp: Checksort_def elt_def concat_eq_Nil_conv)
  ultimately show ?thesis using srt_permutation [OF assms(1,2)] by (simp add: sort_test_def)
qed

end

lemma rearranged_sorted:
  "rearranged A B 0 (len A - 1) \<Longrightarrow> ordered B 0 (len A - 1) \<Longrightarrow> mset B = mset A \<and> sorted B"
  using rearranged_length [of A B] by (auto simp: rearranged_def simp flip: ordered_sorted)

interpretation insertion: sorting_routine "\<lambda>A. InsertionSort A 0 (len A)" "\<lambda>_. True"
proof
  fix A :: "int list"
  obtain B where "InsertionSort A 0 (len A) = Some B" "rearranged A B 0 (len A - 1)" "ordered B 0 (len A - 1)"
    using InsertionSort_ok [of 0 "len A" A] by auto
  then show "\<exists>B. InsertionSort A 0 (len A) = Some B \<and> mset B = mset A \<and> sorted B"
    using rearranged_sorted by blast
qed

interpretation shell: sorting_routine "\<lambda>A. Shellsort A (len A)" "\<lambda>_. True"
proof
  fix A :: "int list"
  obtain B where "Shellsort A (len A) = Some B" "length B = length A" "mset B = mset A" "ordered B 0 (len A - 1)"
    using Shellsort_ok [of "len A" A] by auto
  then show "\<exists>B. Shellsort A (len A) = Some B \<and> mset B = mset A \<and> sorted B"
    by (metis ordered_sorted)
qed

interpretation heap: sorting_routine "\<lambda>A. Heapsort A (len A)" "\<lambda>A. A \<noteq> [] \<and> len A \<le> 2 ^ 30"
proof
  fix A :: "int list" assume "A \<noteq> [] \<and> len A \<le> 2 ^ 30"
  then obtain B where "Heapsort A (len A) = Some B" "rearranged A B 0 (len A - 1)" "ordered B 0 (len A - 1)"
    using Heapsort_ok [of "len A" A] by auto
  then show "\<exists>B. Heapsort A (len A) = Some B \<and> mset B = mset A \<and> sorted B"
    using rearranged_sorted by blast
qed

definition Mergesort_o :: "int \<Rightarrow> int list \<Rightarrow> int list option" where
  \<comment> \<open>\<open>Mergesort\<close> with an allocated temporary array whose cells all hold \<open>g\<close>\<close>
  "Mergesort_o g A = (case Mergesort (Some (replicate (length A) g)) A (len A) of
     Inl _ \<Rightarrow> None | Inr B \<Rightarrow> Some B)"

interpretation mergesort: sorting_routine "Mergesort_o g" "\<lambda>A. len A \<le> 2 ^ 30" for g
proof
  fix A :: "int list" assume "len A \<le> 2 ^ 30"
  then show "\<exists>B. Mergesort_o g A = Some B \<and> mset B = mset A \<and> sorted B"
    using Mergesort_ok [of A "replicate (length A) g"] by (auto simp: Mergesort_o_def)
qed

interpretation quick: sorting_routine "\<lambda>A. Quicksort A (len A)" "\<lambda>A. len A \<le> 2 ^ 30"
proof
  fix A :: "int list" assume "len A \<le> 2 ^ 30"
  then obtain B where "Quicksort A (len A) = Some B" "rearranged A B 0 (len A - 1)" "ordered B 0 (len A - 1)"
    using Qsort_ok [of 0 "len A - 1" A] by (auto simp: Quicksort_def)
  then show "\<exists>B. Quicksort A (len A) = Some B \<and> mset B = mset A \<and> sorted B"
    using rearranged_sorted by blast
qed

section \<open>Properties\<close>

text \<open>C11. \<open>Quicksort\<close> on an array of at most \<open>2^30\<close> ints stays inside the array,
  terminates and returns the array sorted.\<close>

theorem Quicksort_sorts: "len A \<le> 2 ^ 30 \<Longrightarrow> Quicksort A (len A) = Some (sort A)"
  by (rule quick.srt_sort)

theorem Quicksort_sorts_witness:
  "Quicksort [5, 3, 9, 1, 4, 1, 8] 7 = Some [1, 1, 3, 4, 5, 8, 9]"
  using Quicksort_sorts [of "[5, 3, 9, 1, 4, 1, 8]"] by simp

text \<open>\<open>Qselect( A, k, 0, N - 1 )\<close> permutes the array and leaves in cell
  \<open>k - 1\<close> the \<open>k\<close>-th smallest element.\<close>

theorem Qselect_selects:
  assumes "len A \<le> 2 ^ 30" "1 \<le> k" "k \<le> len A"
  shows "\<exists>B. Qselect A k 0 (len A - 1) = Some B \<and> mset B = mset A \<and> elt B (k - 1) = sort A ! nat (k - 1)"
proof -
  obtain B where B: "Qselect A k 0 (len A - 1) = Some B" "rearranged A B 0 (len A - 1)"
     "split_at B 0 (k - 1) (len A - 1)"
    using Qselect_ok [of 0 "len A - 1" A k] assms by auto
  have l: "length B = length A" by (rule rearranged_length [OF B(2)])
  have m: "mset B = mset A" using B(2) by (simp add: rearranged_def)
  have "elt B (k - 1) = sort B ! nat (k - 1)"
    using split_at_sort [of B "k - 1"] B(3) l assms by simp
  moreover have "sort B = sort A" using m by (metis properties_for_sort sorted_sort mset_sort)
  ultimately show ?thesis using B(1) m by auto
qed

theorem Qselect_selects_witness:
  "\<exists>B. Qselect [5, 3, 9, 1, 4, 7] 3 0 5 = Some B \<and> mset B = mset [5, 3, 9, 1, 4, 7] \<and> elt B 2 = 4"
  using Qselect_selects [of "[5, 3, 9, 1, 4, 7]" 3] by simp

text \<open>C12. \<open>Heapsort\<close> on a non-empty array of at most \<open>2^30\<close> ints stays inside
  the array, terminates and returns the array sorted.\<close>

theorem Heapsort_sorts: "A \<noteq> [] \<Longrightarrow> len A \<le> 2 ^ 30 \<Longrightarrow> Heapsort A (len A) = Some (sort A)"
  by (rule heap.srt_sort) simp

theorem Heapsort_sorts_witness: "Heapsort [5, 3, 9, 1, 4, 1, 8] 7 = Some [1, 1, 3, 4, 5, 8, 9]"
  using Heapsort_sorts [of "[5, 3, 9, 1, 4, 1, 8]"] by simp

text \<open>\<open>Mergesort\<close> sorts whatever the allocated temporary block holds, and reports
  the failed allocation.\<close>

theorem Mergesort_sorts:
  assumes "len A \<le> 2 ^ 30" "length T = length A"
  shows "Mergesort (Some T) A (len A) = Inr (sort A) \<and>
    Mergesort None A (len A) = Inl (FatalError ''No space for tmp array!!!'')"
  using Mergesort_ok [OF assms] by (auto simp: Mergesort_def intro: properties_for_sort [symmetric])

theorem Mergesort_sorts_witness:
  "Mergesort (Some [0, 0, 0, 7]) [5, 3, 9, 1] 4 = Inr [1, 3, 5, 9]"
  using Mergesort_sorts [of "[5, 3, 9, 1]" "[0, 0, 0, 7]"] by simp

text \<open>\<open>InsertionSort\<close> and \<open>Shellsort\<close> return every array sorted, without an
  access outside it.\<close>

theorem InsertionSort_Shellsort_sort:
  "InsertionSort A 0 (len A) = Some (sort A) \<and> Shellsort A (len A) = Some (sort A)"
  by (simp add: insertion.srt_sort shell.srt_sort)

text \<open>The test of \<open>main\<close> is silent for the five sorts: after \<open>Permute\<close> (whatever
  \<open>rand()\<close> returns) and \<open>Copy\<close>, \<open>Checksort\<close> finds nothing to report.\<close>

theorem sort_main_clean:
  assumes "1 \<le> N" "N \<le> 2 ^ 30" "len Arr1 = N" "len Arr2 = N"
  shows "\<exists>P. Permute rnd Arr2 N = Some P \<and>
    sort_test (\<lambda>A. InsertionSort A 0 N) Arr1 P N = Some [] \<and>
    sort_test (\<lambda>A. Shellsort A N) Arr1 P N = Some [] \<and>
    sort_test (\<lambda>A. Heapsort A N) Arr1 P N = Some [] \<and>
    sort_test (Mergesort_o g) Arr1 P N = Some [] \<and>
    sort_test (\<lambda>A. Quicksort A N) Arr1 P N = Some []"
proof -
  obtain P where P: "Permute rnd Arr2 N = Some P" "mset P = mset [0..N - 1]"
    using Permute_perm [of rnd Arr2] assms(4) by auto
  have "length P = nat N" using arg_cong [OF P(2), of size] by simp
  then have l: "len P = N" "length Arr1 = length P" "P \<noteq> []" using assms by auto
  have cp: "Copy Arr1 P N = Some P" using Copy_loop_ok [of 0 N Arr1 P] l by (simp add: Copy_def)
  show ?thesis
    using P(1) cp insertion.srt_test_clean [of P N Arr1] shell.srt_test_clean [of P N Arr1]
      heap.srt_test_clean [of P N Arr1] mergesort.srt_test_clean [of P N Arr1 g]
      quick.srt_test_clean [of P N Arr1] P(2) l assms(2)
    by (simp add: sort_test_def)
qed

theorem sort_main_clean_witness:
  "\<exists>P. Permute (\<lambda>k. nat (3 * k + 1)) [9, 9, 9, 9] 4 = Some P \<and>
     sort_test (\<lambda>A. Quicksort A 4) [0, 0, 0, 0] P 4 = Some []"
  using sort_main_clean [of 4 "[0, 0, 0, 0]" "[9, 9, 9, 9]" "\<lambda>k. nat (3 * k + 1)"] by auto

text \<open>\<open>Heapsort( A, 0 )\<close> reads and writes \<open>A[ 0 ]\<close> before it finds that there is
  nothing to do.\<close>

lemma Heapsort_empty: "Heapsort [] 0 = None"
  by (simp add: Heapsort_def Heapsort_build.simps PercDown_def aget_def inb_def)

end
