(* ===== verification/BinTree.thy ===== *)
theory BinTree
  imports CBase
begin

text \<open>
  The binary tree nodes of \<^verbatim>\<open>src/DSAAC\<close>. The structs of
  \<^verbatim>\<open>tree.c\<close>, \<^verbatim>\<open>avltree.c\<close>, \<^verbatim>\<open>treap.c\<close>,
  \<^verbatim>\<open>aatree.c\<close>, \<^verbatim>\<open>splay.c\<close> and \<^verbatim>\<open>leftheap.c\<close> all have
  \<open>Element\<close>, \<open>Left\<close> and \<open>Right\<close> and at most one more \<open>int\<close>
  field (\<open>Height\<close>, \<open>Priority\<close>, \<open>Level\<close>, \<open>Npl\<close>); the type
  parameter \<open>'i\<close> is that field. A pointer into a tree is the subtree it points to:
  every node has one owner, so an assignment \<open>T->Left = e\<close> is a functional update.
  \<open>Null\<close> is \<open>NULL\<close>, or the sentinel \<open>NullNode\<close> of the files that have one.

  The theory also has the interface of the ordered sets (\<open>ordered_set\<close>) that the
  search trees are shown to implement, with the clients of that interface.
\<close>

section \<open>Nodes\<close>

datatype 'i bt = Null | Node "'i bt" int 'i "'i bt"

fun elems :: "'i bt \<Rightarrow> int set" where
  "elems Null = {}"
| "elems (Node l x i r) = insert x (elems l \<union> elems r)"

fun bst :: "'i bt \<Rightarrow> bool" where
  "bst Null = True"
| "bst (Node l x i r) = (bst l \<and> bst r \<and> (\<forall>y \<in> elems l. y < x) \<and> (\<forall>y \<in> elems r. x < y))"

fun nodes :: "'i bt \<Rightarrow> nat" where
  "nodes Null = 0"
| "nodes (Node l x i r) = nodes l + nodes r + 1"

fun inorder :: "'i bt \<Rightarrow> int list" where
  "inorder Null = []"
| "inorder (Node l x i r) = inorder l @ x # inorder r"

fun subtree :: "'i bt \<Rightarrow> 'i bt \<Rightarrow> bool" where
  \<comment> \<open>the first tree is reachable from the second through the child pointers\<close>
  "subtree s Null = (s = Null)"
| "subtree s (Node l x i r) = (s = Node l x i r \<or> subtree s l \<or> subtree s r)"

lemma set_inorder: "set (inorder t) = elems t"
  by (induction t) auto

lemma finite_elems [simp]: "finite (elems t)"
  by (induction t) auto

lemma sorted_inorder: "bst t \<Longrightarrow> sorted_wrt (<) (inorder t)"
  by (induction t) (auto simp: sorted_wrt_append set_inorder intro: less_trans)

text \<open>Search trees are the trees whose in-order traversal is sorted, so an operation that keeps
  the traversal (a rotation) keeps the search order.\<close>

lemma bst_iff_inorder: "bst t \<longleftrightarrow> sorted_wrt (<) (inorder t)"
proof
  show "sorted_wrt (<) (inorder t) \<Longrightarrow> bst t"
    by (induction t) (auto simp: sorted_wrt_append set_inorder)
qed (rule sorted_inorder)

lemma inorder_eqD: "inorder t' = inorder t \<Longrightarrow> bst t' = bst t \<and> elems t' = elems t"
  by (metis bst_iff_inorder set_inorder)

lemma elems_empty_iff: "elems t = {} \<longleftrightarrow> t = Null"
  by (cases t) auto

lemma subtree_refl [simp]: "subtree t t"
  by (cases t) auto

lemma subtree_elems: "subtree s t \<Longrightarrow> elems s \<subseteq> elems t"
  by (induction t) auto

lemma inorder_unique:
  "bst t \<Longrightarrow> bst t' \<Longrightarrow> elems t = elems t' \<Longrightarrow> inorder t = inorder t'"
  using sorted_inorder [of t] sorted_inorder [of t']
  by (intro sorted_distinct_set_unique) (auto simp: set_inorder strict_sorted_iff)

lemma bst_notin_left: "bst (Node l y i r) \<Longrightarrow> y \<le> x \<Longrightarrow> x \<notin> elems l"
  by auto

lemma bst_notin_right: "bst (Node l y i r) \<Longrightarrow> x \<le> y \<Longrightarrow> x \<notin> elems r"
  by auto

lemma inorder_sorted_list: "bst t \<Longrightarrow> inorder t = sorted_list_of_set (elems t)"
  using sorted_inorder [of t]
  by (intro sorted_distinct_set_unique) (auto simp: set_inorder strict_sorted_iff)

section \<open>Searching\<close>

text \<open>What \<open>Find\<close> promises: a node of the tree that holds the element, or \<open>Null\<close>
  if there is none; and \<open>FindMin\<close>, \<open>FindMax\<close>.\<close>

definition found :: "int \<Rightarrow> 'i bt \<Rightarrow> 'i bt \<Rightarrow> bool" where
  "found x t s \<longleftrightarrow> subtree s t \<and>
     (case s of Null \<Rightarrow> x \<notin> elems t | Node l y i r \<Rightarrow> y = x)"

definition least_node :: "'i bt \<Rightarrow> 'i bt \<Rightarrow> bool" where
  "least_node t s \<longleftrightarrow> subtree s t \<and>
     (case s of Null \<Rightarrow> t = Null | Node l y i r \<Rightarrow> y = Min (elems t))"

definition greatest_node :: "'i bt \<Rightarrow> 'i bt \<Rightarrow> bool" where
  "greatest_node t s \<longleftrightarrow> subtree s t \<and>
     (case s of Null \<Rightarrow> t = Null | Node l y i r \<Rightarrow> y = Max (elems t))"

lemma found_mem: "found x t s \<Longrightarrow> s \<noteq> Null \<longleftrightarrow> x \<in> elems t"
  by (auto simp: found_def split: bt.splits dest: subtree_elems)

lemma foundI_left: "found x l s \<Longrightarrow> bst (Node l y i r) \<Longrightarrow> x < y \<Longrightarrow> found x (Node l y i r) s"
  by (auto simp: found_def split: bt.splits)

lemma foundI_right: "found x r s \<Longrightarrow> bst (Node l y i r) \<Longrightarrow> y < x \<Longrightarrow> found x (Node l y i r) s"
  by (auto simp: found_def split: bt.splits)

lemma found_root: "found x (Node l x i r) (Node l x i r)"
  by (simp add: found_def)

lemma Min_elems_left:
  assumes "bst (Node l y i r)" "l \<noteq> Null"
  shows "Min (elems (Node l y i r)) = Min (elems l)"
proof (rule Min_eqI)
  have "elems l \<noteq> {}" using assms(2) by (simp add: elems_empty_iff)
  then show "Min (elems l) \<in> elems (Node l y i r)" using Min_in [of "elems l"] by simp
  fix z assume "z \<in> elems (Node l y i r)"
  moreover have "Min (elems l) < y" using assms(1) \<open>elems l \<noteq> {}\<close> by simp
  ultimately show "Min (elems l) \<le> z"
    using assms(1) Min_le [of "elems l" z] by (fastforce dest: bspec)
qed simp

lemma Max_elems_right:
  assumes "bst (Node l y i r)" "r \<noteq> Null"
  shows "Max (elems (Node l y i r)) = Max (elems r)"
proof (rule Max_eqI)
  have "elems r \<noteq> {}" using assms(2) by (simp add: elems_empty_iff)
  then show "Max (elems r) \<in> elems (Node l y i r)" using Max_in [of "elems r"] by simp
  fix z assume "z \<in> elems (Node l y i r)"
  moreover have "y < Max (elems r)" using assms(1) \<open>elems r \<noteq> {}\<close> by simp
  ultimately show "z \<le> Max (elems r)"
    using assms(1) Max_ge [of "elems r" z] by (fastforce dest: bspec)
qed simp

lemma Min_elems_root: "bst (Node Null y i r) \<Longrightarrow> Min (elems (Node Null y i r)) = y"
  by (intro Min_eqI) (auto intro: less_imp_le)

lemma Max_elems_root: "bst (Node l y i Null) \<Longrightarrow> Max (elems (Node l y i Null)) = y"
  by (intro Max_eqI) (auto intro: less_imp_le)

lemma nodes_card: "bst t \<Longrightarrow> nodes t = card (elems t)"
proof -
  have "nodes t = length (inorder t)" by (induction t) auto
  then show "bst t \<Longrightarrow> nodes t = card (elems t)"
    using sorted_inorder [of t] by (auto simp: strict_sorted_iff distinct_card simp flip: set_inorder)
qed

section \<open>The interface of ordered sets\<close>

text \<open>A client of a set runs a sequence of operations; \<open>spec_exec\<close> is the same on
  mathematical sets, undefined when an absent element is deleted.\<close>

datatype set_op = OpInsert int | OpDelete int

fun set_exec :: "(int \<Rightarrow> 't \<Rightarrow> 't res) \<Rightarrow> (int \<Rightarrow> 't \<Rightarrow> 't res) \<Rightarrow> set_op list \<Rightarrow> 't \<Rightarrow> 't res" where
  "set_exec ins del [] t = Inr t"
| "set_exec ins del (OpInsert x # ops) t = bindr (ins x t) (set_exec ins del ops)"
| "set_exec ins del (OpDelete x # ops) t = bindr (del x t) (set_exec ins del ops)"

fun spec_exec :: "set_op list \<Rightarrow> int set \<Rightarrow> int set option" where
  "spec_exec [] S = Some S"
| "spec_exec (OpInsert x # ops) S = spec_exec ops (insert x S)"
| "spec_exec (OpDelete x # ops) S = (if x \<in> S then spec_exec ops (S - {x}) else None)"

locale ordered_set =
  fixes emp :: "'t" and ins :: "int \<Rightarrow> 't \<Rightarrow> 't res" and mem :: "int \<Rightarrow> 't \<Rightarrow> bool"
    and elts :: "'t \<Rightarrow> int set" and inv :: "'t \<Rightarrow> bool"
  assumes inv_emp: "inv emp" and elts_emp: "elts emp = {}"
    and ins_ok: "inv t \<Longrightarrow> \<exists>t'. ins x t = Inr t' \<and> inv t' \<and> elts t' = insert x (elts t)"
    and mem_ok: "inv t \<Longrightarrow> mem x t \<longleftrightarrow> x \<in> elts t"
begin

lemma insert_all_ok:
  "inv t \<Longrightarrow> \<exists>t'. insert_all ins xs t = Inr t' \<and> inv t' \<and> elts t' = set xs \<union> elts t"
proof (induction xs arbitrary: t)
  case (Cons x xs)
  then obtain t1 where "ins x t = Inr t1" "inv t1" "elts t1 = insert x (elts t)"
    using ins_ok by blast
  with Cons.IH [of t1] show ?case by auto
qed simp

lemma insert_all_mem:
  "\<exists>t. insert_all ins xs emp = Inr t \<and> inv t \<and> elts t = set xs \<and> (\<forall>x. mem x t \<longleftrightarrow> x \<in> set xs)"
  using insert_all_ok [OF inv_emp, of xs] by (auto simp: elts_emp mem_ok)

end

text \<open>A set from which elements can also be removed.\<close>

locale ordered_set_del = ordered_set +
  fixes del :: "int \<Rightarrow> 'a \<Rightarrow> 'a res"
  assumes del_ok: "inv t \<Longrightarrow> x \<in> elts t \<Longrightarrow> \<exists>t'. del x t = Inr t' \<and> inv t' \<and> elts t' = elts t - {x}"
begin

lemma exec_refines:
  "inv t \<Longrightarrow> spec_exec ops (elts t) = Some S \<Longrightarrow>
     \<exists>t'. set_exec ins del ops t = Inr t' \<and> inv t' \<and> elts t' = S"
proof (induction ops arbitrary: t)
  case (Cons a ops)
  show ?case
  proof (cases a)
    case (OpInsert x)
    then show ?thesis using Cons ins_ok [of t x] by fastforce
  next
    case (OpDelete x)
    then show ?thesis using Cons del_ok [of t x] by (fastforce split: if_splits)
  qed
qed simp

lemma exec_refines_emp:
  "spec_exec ops {} = Some S \<Longrightarrow>
     \<exists>t. set_exec ins del ops emp = Inr t \<and> inv t \<and> elts t = S \<and> (\<forall>x. mem x t \<longleftrightarrow> x \<in> S)"
  using exec_refines [OF inv_emp, of ops] by (auto simp: elts_emp mem_ok)

end

end
