(* ===== verification/SearchTree.thy ===== *)
theory SearchTree
  imports BinTree
begin

text \<open>
  \<^verbatim>\<open>src/DSAAC/tree.c\<close>: the unbalanced binary search tree, with every operation of
  the file. A node has no field besides its
  element, so the tree is a \<open>unit bt\<close>; the searching operations, whose code is shared
  with other files, are stated for any \<open>'i bt\<close>.

  \<open>malloc\<close> is the parameter \<open>ok\<close> of \<open>st_Insert\<close>: whether the call
  (there is at most one in an insertion) returns a cell.
\<close>

section \<open>Operations\<close>

text \<open>\<open>MakeEmpty\<close> returns \<open>NULL\<close>; the second component lists the nodes it
  passes to \<open>free\<close>, in order.\<close>

fun st_MakeEmpty :: "'i bt \<Rightarrow> 'i bt \<times> int list" where
  "st_MakeEmpty Null = (Null, [])"
| "st_MakeEmpty (Node l x i r) =
    (let (_, fl) = st_MakeEmpty l; (_, fr) = st_MakeEmpty r in (Null, fl @ fr @ [x]))"

fun st_Find :: "int \<Rightarrow> 'i bt \<Rightarrow> 'i bt" where
  "st_Find X Null = Null"
| "st_Find X (Node l y i r) =
    (if X < y then st_Find X l else if X > y then st_Find X r else Node l y i r)"

fun st_FindMin :: "'i bt \<Rightarrow> 'i bt" where
  "st_FindMin Null = Null"
| "st_FindMin (Node l y i r) = (if l = Null then Node l y i r else st_FindMin l)"

text \<open>The loop \<open>while( T->Right != NULL ) T = T->Right\<close>.\<close>

fun st_FindMax :: "'i bt \<Rightarrow> 'i bt" where
  "st_FindMax Null = Null"
| "st_FindMax (Node l y i r) = (if r \<noteq> Null then st_FindMax r else Node l y i r)"

fun st_Retrieve :: "'i bt \<Rightarrow> int res" where
  "st_Retrieve Null = Inl NullDeref"
| "st_Retrieve (Node l y i r) = Inr y"

fun st_Insert :: "bool \<Rightarrow> int \<Rightarrow> unit bt \<Rightarrow> unit bt res" where
  "st_Insert ok X Null = (if ok then Inr (Node Null X () Null) else Inl (FatalError ''Out of space!!!''))"
| "st_Insert ok X (Node l y i r) =
    (if X < y then bindr (st_Insert ok X l) (\<lambda>l'. Inr (Node l' y i r))
     else if X > y then bindr (st_Insert ok X r) (\<lambda>r'. Inr (Node l y i r'))
     else Inr (Node l y i r))"

fun st_Delete :: "int \<Rightarrow> unit bt \<Rightarrow> unit bt res" where
  "st_Delete X Null = Inl (FatalError ''Element not found'')"
| "st_Delete X (Node l y i r) =
    (if X < y then bindr (st_Delete X l) (\<lambda>l'. Inr (Node l' y i r))
     else if X > y then bindr (st_Delete X r) (\<lambda>r'. Inr (Node l y i r'))
     else if l \<noteq> Null \<and> r \<noteq> Null then
       bindr (st_Retrieve (st_FindMin r)) (\<lambda>m. bindr (st_Delete m r) (\<lambda>r'. Inr (Node l m i r')))
     else if l = Null then Inr r
     else Inr l)"

section \<open>Searching\<close>

lemma st_Find_found: "bst t \<Longrightarrow> found x t (st_Find x t)"
proof (induction t)
  case (Node l y i r)
  then show ?case
    by (cases x y rule: linorder_cases) (simp_all add: foundI_left foundI_right found_root)
qed (simp add: found_def)

lemma st_Find_mem: "bst t \<Longrightarrow> st_Find x t \<noteq> Null \<longleftrightarrow> x \<in> elems t"
  by (rule found_mem [OF st_Find_found])

lemma st_FindMin_node: "t \<noteq> Null \<Longrightarrow> \<exists>l y i r. st_FindMin t = Node l y i r \<and> subtree (Node l y i r) t"
  by (induction t) auto

lemma st_FindMin_least: "bst t \<Longrightarrow> least_node t (st_FindMin t)"
proof (induction t)
  case (Node l y i r)
  show ?case
  proof (cases "l = Null")
    case True
    then show ?thesis using Node.prems Min_elems_root [of y i r] by (simp add: least_node_def)
  next
    case False
    with Node show ?thesis
      using Min_elems_left [OF Node.prems] by (auto simp: least_node_def split: bt.splits)
  qed
qed (simp add: least_node_def)

lemma st_FindMax_greatest: "bst t \<Longrightarrow> greatest_node t (st_FindMax t)"
proof (induction t)
  case (Node l y i r)
  show ?case
  proof (cases "r = Null")
    case True
    then show ?thesis using Node.prems Max_elems_root [of l y i] by (simp add: greatest_node_def)
  next
    case False
    with Node show ?thesis
      using Max_elems_right [OF Node.prems] by (auto simp: greatest_node_def split: bt.splits)
  qed
qed (simp add: greatest_node_def)

lemma Retrieve_FindMin: "bst t \<Longrightarrow> t \<noteq> Null \<Longrightarrow> st_Retrieve (st_FindMin t) = Inr (Min (elems t))"
  using st_FindMin_least [of t] by (auto simp: least_node_def split: bt.splits)

lemma Retrieve_FindMax: "bst t \<Longrightarrow> t \<noteq> Null \<Longrightarrow> st_Retrieve (st_FindMax t) = Inr (Max (elems t))"
  using st_FindMax_greatest [of t] by (auto simp: greatest_node_def split: bt.splits)

lemma Retrieve_Find: "bst t \<Longrightarrow> x \<in> elems t \<Longrightarrow> st_Retrieve (st_Find x t) = Inr x"
  using st_Find_found [of t x] by (auto simp: found_def split: bt.splits)

section \<open>Updates\<close>

lemma st_Insert_ok:
  "bst t \<Longrightarrow> \<exists>t'. st_Insert True x t = Inr t' \<and> bst t' \<and> elems t' = insert x (elems t)"
proof (induction t)
  case (Node l y i r)
  show ?case
  proof (cases x y rule: linorder_cases)
    case less
    with Node.IH(1) Node.prems obtain l' where
      "st_Insert True x l = Inr l'" "bst l'" "elems l' = insert x (elems l)" by auto
    with less Node.prems show ?thesis by auto
  next
    case greater
    with Node.IH(2) Node.prems obtain r' where
      "st_Insert True x r = Inr r'" "bst r'" "elems r' = insert x (elems r)" by auto
    with greater Node.prems show ?thesis by auto
  qed (use Node.prems in auto)
qed simp

lemma st_Insert_no_space:
  "bst t \<Longrightarrow> st_Insert False x t = (if x \<in> elems t then Inr t else Inl (FatalError ''Out of space!!!''))"
  by (induction t) auto

lemma st_Delete_ok:
  "bst t \<Longrightarrow> x \<in> elems t \<Longrightarrow> \<exists>t'. st_Delete x t = Inr t' \<and> bst t' \<and> elems t' = elems t - {x}"
proof (induction t arbitrary: x)
  case (Node l y i r)
  show ?case
  proof (cases x y rule: linorder_cases)
    case less
    with Node.IH(1) [of x] Node.prems obtain l' where
      "st_Delete x l = Inr l'" "bst l'" "elems l' = elems l - {x}" by auto
    with less Node.prems show ?thesis using bst_notin_right [OF Node.prems(1), of x] by auto
  next
    case greater
    with Node.IH(2) [of x] Node.prems obtain r' where
      "st_Delete x r = Inr r'" "bst r'" "elems r' = elems r - {x}" by auto
    with greater Node.prems show ?thesis using bst_notin_left [OF Node.prems(1), of x] by auto
  next
    case equal
    show ?thesis
    proof (cases "l \<noteq> Null \<and> r \<noteq> Null")
      case True
      let ?m = "Min (elems r)"
      have m: "?m \<in> elems r" using True by (simp add: elems_empty_iff)
      with Node.IH(2) [of ?m] Node.prems obtain r' where
        r': "st_Delete ?m r = Inr r'" "bst r'" "elems r' = elems r - {?m}" by auto
      have "\<forall>z \<in> elems r'. ?m < z"
        using r'(3) Min_le [of "elems r"] by (auto simp: order_less_le)
      moreover have "y < ?m" "\<forall>z \<in> elems l. z < ?m"
        using Node.prems(1) m by (auto intro: less_trans)
      moreover have "elems l - {y} = elems l" "elems r - {y} = elems r"
        using Node.prems(1) by auto
      ultimately show ?thesis using True equal r' m Node.prems(1) Retrieve_FindMin [of r]
        by (auto simp: insert_Diff_if)
    next
      case False
      moreover have "elems l - {y} = elems l" "elems r - {y} = elems r"
        using Node.prems(1) by auto
      ultimately show ?thesis using equal Node.prems by auto
    qed
  qed
qed simp

lemma st_Delete_absent:
  "bst t \<Longrightarrow> x \<notin> elems t \<Longrightarrow> st_Delete x t = Inl (FatalError ''Element not found'')"
  by (induction t) auto

lemma st_MakeEmpty_frees:
  "fst (st_MakeEmpty t) = Null \<and> mset (snd (st_MakeEmpty t)) = mset (inorder t)"
  by (induction t) (auto simp: case_prod_beta)

interpretation tree: ordered_set_del Null "st_Insert True" "\<lambda>x t. st_Find x t \<noteq> Null" elems bst st_Delete
  by unfold_locales (auto simp: st_Insert_ok st_Delete_ok st_Find_mem)

section \<open>Properties\<close>

text \<open>C14: a sequence of insertions and deletions on the tree of
  \<^verbatim>\<open>tree.c\<close> that only deletes elements that are present ends without an error in a search
  tree whose in-order traversal is the sorted list of the elements the same operations leave in a
  set; \<open>Find\<close> decides membership, and \<open>FindMin\<close>, \<open>FindMax\<close> return
  the extreme elements.\<close>

theorem SearchTree_refines_set:
  assumes "spec_exec ops {} = Some S"
  shows "\<exists>t. set_exec (st_Insert True) st_Delete ops Null = Inr t \<and> bst t \<and>
    inorder t = sorted_list_of_set S \<and> (\<forall>x. st_Find x t \<noteq> Null \<longleftrightarrow> x \<in> S) \<and>
    (S \<noteq> {} \<longrightarrow> st_Retrieve (st_FindMin t) = Inr (Min S) \<and> st_Retrieve (st_FindMax t) = Inr (Max S))"
proof -
  obtain t where t: "set_exec (st_Insert True) st_Delete ops Null = Inr t" "bst t" "elems t = S"
      "\<forall>x. st_Find x t \<noteq> Null \<longleftrightarrow> x \<in> S"
    using tree.exec_refines_emp [OF assms] by auto
  then show ?thesis
    using inorder_sorted_list [OF t(2)] Retrieve_FindMin [OF t(2)] Retrieve_FindMax [OF t(2)]
    by (simp add: elems_empty_iff flip: t(3))
qed

theorem SearchTree_refines_set_witness:
  "\<exists>t. set_exec (st_Insert True) st_Delete
      [OpInsert 5, OpInsert 2, OpInsert 8, OpInsert 6, OpDelete 5, OpInsert 2] Null = Inr t \<and>
    inorder t = [2, 6, 8] \<and> st_Retrieve (st_FindMax t) = Inr 8"
proof -
  have "spec_exec [OpInsert 5, OpInsert 2, OpInsert 8, OpInsert 6, OpDelete 5, OpInsert 2] {}
      = Some {2, 6, 8}"
    by (simp add: insert_commute insert_Diff_if)
  from SearchTree_refines_set [OF this] show ?thesis by auto
qed

text \<open>The error paths of \<^verbatim>\<open>tree.c\<close>. On a search tree,
  \<open>Delete\<close> of an element that is not there ends the program with its message;
  \<open>Insert\<close> when \<open>malloc\<close> fails does so exactly if a node is needed;
  \<open>MakeEmpty\<close> passes every node of any tree to \<open>free\<close> exactly once.\<close>

theorem SearchTree_errors:
  "(bst t \<longrightarrow> (st_Delete x t = Inl (FatalError ''Element not found'') \<longleftrightarrow> x \<notin> elems t) \<and>
     (st_Insert False x t = Inl (FatalError ''Out of space!!!'') \<longleftrightarrow> x \<notin> elems t)) \<and>
   fst (st_MakeEmpty t) = Null \<and> mset (snd (st_MakeEmpty t)) = mset (inorder t)"
proof (intro conjI impI)
  assume b: "bst t"
  show "st_Delete x t = Inl (FatalError ''Element not found'') \<longleftrightarrow> x \<notin> elems t"
    using st_Delete_absent [OF b, of x] st_Delete_ok [OF b, of x] by (cases "x \<in> elems t") force+
  show "st_Insert False x t = Inl (FatalError ''Out of space!!!'') \<longleftrightarrow> x \<notin> elems t"
    by (simp add: st_Insert_no_space [OF b])
qed (simp_all add: st_MakeEmpty_frees)

theorem SearchTree_errors_witness:
  "st_Delete 3 (Node Null 4 () Null) = Inl (FatalError ''Element not found'')"
  using SearchTree_errors [of "Node Null 4 () Null" 3] by simp

end
