(* ===== verification/AvlTree.thy ===== *)
theory AvlTree
  imports SearchTree
begin

text \<open>
  \<^verbatim>\<open>src/DSAAC/avltree.c\<close>: the AVL tree, with the field \<open>Height\<close> as the
  extra field of a node. The rotations dereference the child they lift, so each of them is an
  operation that may fail with \<open>NullDeref\<close>; the invariant \<open>avl\<close> is what makes
  \<open>Insert\<close> call them safely.
\<close>

section \<open>Operations\<close>

fun avl_MakeEmpty :: "int bt \<Rightarrow> int bt \<times> int list" where
  "avl_MakeEmpty Null = (Null, [])"
| "avl_MakeEmpty (Node l x h r) =
    (let (_, fl) = avl_MakeEmpty l; (_, fr) = avl_MakeEmpty r in (Null, fl @ fr @ [x]))"

fun avl_Find :: "int \<Rightarrow> int bt \<Rightarrow> int bt" where
  "avl_Find X Null = Null"
| "avl_Find X (Node l y h r) =
    (if X < y then avl_Find X l else if X > y then avl_Find X r else Node l y h r)"

fun avl_FindMin :: "int bt \<Rightarrow> int bt" where
  "avl_FindMin Null = Null"
| "avl_FindMin (Node l y h r) = (if l = Null then Node l y h r else avl_FindMin l)"

fun avl_FindMax :: "int bt \<Rightarrow> int bt" where
  "avl_FindMax Null = Null"
| "avl_FindMax (Node l y h r) = (if r \<noteq> Null then avl_FindMax r else Node l y h r)"

fun Height :: "int bt \<Rightarrow> int" where
  "Height Null = - 1"
| "Height (Node l x h r) = h"

definition Max2 :: "int \<Rightarrow> int \<Rightarrow> int" where
  \<comment> \<open>\<open>Max\<close> of the source\<close>
  "Max2 Lhs Rhs = (if Lhs > Rhs then Lhs else Rhs)"

fun avl_SingleRotateWithLeft :: "int bt \<Rightarrow> int bt res" where
  "avl_SingleRotateWithLeft (Node (Node a k1 h1 b) k2 h2 c) =
    (let h2' = Max2 (Height b) (Height c) + 1;
         h1' = Max2 (Height a) h2' + 1
     in Inr (Node a k1 h1' (Node b k2 h2' c)))"
| "avl_SingleRotateWithLeft _ = Inl NullDeref"

fun avl_SingleRotateWithRight :: "int bt \<Rightarrow> int bt res" where
  "avl_SingleRotateWithRight (Node a k1 h1 (Node b k2 h2 c)) =
    (let h1' = Max2 (Height a) (Height b) + 1;
         h2' = Max2 (Height c) h1' + 1
     in Inr (Node (Node a k1 h1' b) k2 h2' c))"
| "avl_SingleRotateWithRight _ = Inl NullDeref"

fun avl_DoubleRotateWithLeft :: "int bt \<Rightarrow> int bt res" where
  "avl_DoubleRotateWithLeft Null = Inl NullDeref"
| "avl_DoubleRotateWithLeft (Node l k3 h r) =
    bindr (avl_SingleRotateWithRight l) (\<lambda>l'. avl_SingleRotateWithLeft (Node l' k3 h r))"

fun avl_DoubleRotateWithRight :: "int bt \<Rightarrow> int bt res" where
  "avl_DoubleRotateWithRight Null = Inl NullDeref"
| "avl_DoubleRotateWithRight (Node l k1 h r) =
    bindr (avl_SingleRotateWithLeft r) (\<lambda>r'. avl_SingleRotateWithRight (Node l k1 h r'))"

text \<open>The last statement of \<open>Insert\<close>:
  \<open>T->Height = Max( Height( T->Left ), Height( T->Right ) ) + 1\<close>.\<close>

fun set_Height :: "int bt \<Rightarrow> int bt res" where
  "set_Height Null = Inl NullDeref"
| "set_Height (Node l x h r) = Inr (Node l x (Max2 (Height l) (Height r) + 1) r)"

fun avl_Insert :: "bool \<Rightarrow> int \<Rightarrow> int bt \<Rightarrow> int bt res" where
  "avl_Insert ok X Null =
    (if ok then set_Height (Node Null X 0 Null) else Inl (FatalError ''Out of space!!!''))"
| "avl_Insert ok X (Node l y h r) =
    bindr
     (if X < y then
        bindr (avl_Insert ok X l) (\<lambda>l'.
          if Height l' - Height r = 2 then
            bindr (st_Retrieve l') (\<lambda>e.
              if X < e then avl_SingleRotateWithLeft (Node l' y h r)
              else avl_DoubleRotateWithLeft (Node l' y h r))
          else Inr (Node l' y h r))
      else if X > y then
        bindr (avl_Insert ok X r) (\<lambda>r'.
          if Height r' - Height l = 2 then
            bindr (st_Retrieve r') (\<lambda>e.
              if X > e then avl_SingleRotateWithRight (Node l y h r')
              else avl_DoubleRotateWithRight (Node l y h r'))
          else Inr (Node l y h r'))
      else Inr (Node l y h r))
     set_Height"

text \<open>\<open>Delete\<close> prints that it is unimplemented and returns the tree.\<close>

definition avl_Delete :: "int \<Rightarrow> int bt \<Rightarrow> int bt \<times> int list" where
  "avl_Delete X T = (T, [X])"

fun avl_Retrieve :: "int bt \<Rightarrow> int res" where
  "avl_Retrieve Null = Inl NullDeref"
| "avl_Retrieve (Node l y h r) = Inr y"

section \<open>The searching operations are those of tree.c\<close>

lemma avl_Find_eq: "avl_Find x t = st_Find x t"
  by (induction t) auto

lemma avl_FindMin_eq: "avl_FindMin t = st_FindMin t"
  by (induction t) auto

lemma avl_FindMax_eq: "avl_FindMax t = st_FindMax t"
  by (induction t) auto

lemma avl_Retrieve_eq: "avl_Retrieve t = st_Retrieve t"
  by (cases t) auto

lemma avl_MakeEmpty_eq: "avl_MakeEmpty t = st_MakeEmpty t"
  by (induction t) auto

lemmas avl_search_eq = avl_Find_eq avl_FindMin_eq avl_FindMax_eq avl_Retrieve_eq avl_MakeEmpty_eq

section \<open>Balance\<close>

fun avl :: "int bt \<Rightarrow> bool" where
  "avl Null = True"
| "avl (Node l x h r) = (avl l \<and> avl r \<and> h = Max2 (Height l) (Height r) + 1 \<and>
    Height l \<le> Height r + 1 \<and> Height r \<le> Height l + 1)"

lemma avl_Height_ge: "avl t \<Longrightarrow> - 1 \<le> Height t"
  by (induction t) (auto simp: Max2_def)

lemma avl_Height_node: "avl (Node l x h r) \<Longrightarrow> 0 \<le> h"
  using avl_Height_ge [of l] avl_Height_ge [of r] by (auto simp: Max2_def)

lemma Height_neg_iff: "avl t \<Longrightarrow> Height t = - 1 \<longleftrightarrow> t = Null"
  using avl_Height_node by (cases t) force+

text \<open>The sparsest trees: as many nodes as the Fibonacci numbers say.\<close>

fun fib_nr :: "nat \<Rightarrow> nat" where
  "fib_nr 0 = 0"
| "fib_nr (Suc 0) = 1"
| "fib_nr (Suc (Suc n)) = fib_nr (Suc n) + fib_nr n"

lemma fib_nr_Suc: "fib_nr n \<le> fib_nr (Suc n)"
  by (cases n) auto

lemma fib_nr_mono: "m \<le> n \<Longrightarrow> fib_nr m \<le> fib_nr n"
  by (rule lift_Suc_mono_le [of fib_nr]) (rule fib_nr_Suc)

fun fib_from :: "nat \<Rightarrow> int \<Rightarrow> int \<Rightarrow> int" where
  "fib_from 0 a b = a"
| "fib_from (Suc n) a b = fib_from n b (a + b)"

lemma fib_from_nr: "fib_from n (int (fib_nr k)) (int (fib_nr (Suc k))) = int (fib_nr (k + n))"
proof (induction n arbitrary: k)
  case (Suc n)
  from Suc [of "Suc k"] show ?case by (simp add: add.commute)
qed simp

lemma fib_nr_48: "fib_nr 48 = 4807526976"
proof -
  have "fib_from 48 0 1 = 4807526976" by code_simp
  then have "int (fib_nr 48) = 4807526976" using fib_from_nr [of 48 0] by simp
  then show ?thesis by simp
qed

lemma avl_fib: "avl t \<Longrightarrow> fib_nr (nat (Height t + 3)) \<le> nodes t + 1"
proof (induction t)
  case (Node l x h r)
  have hl: "- 1 \<le> Height l" "- 1 \<le> Height r" using Node.prems avl_Height_ge by auto
  have h: "h = max (Height l) (Height r) + 1" "h \<le> min (Height l) (Height r) + 2"
    using Node.prems by (auto simp: Max2_def)
  have IH: "fib_nr (nat (Height l + 3)) \<le> nodes l + 1" "fib_nr (nat (Height r + 3)) \<le> nodes r + 1"
    using Node by auto
  have "nat (h + 3) = Suc (Suc (nat (h + 1)))" "Suc (nat (h + 1)) = nat (h + 2)" using hl h(1) by auto
  then have "fib_nr (nat (h + 3)) = fib_nr (nat (h + 2)) + fib_nr (nat (h + 1))" by (metis fib_nr.simps(3))
  also have "\<dots> \<le> fib_nr (nat (Height l + 3)) + fib_nr (nat (Height r + 3))"
  proof (cases "Height l \<le> Height r")
    case True
    then have "fib_nr (nat (h + 2)) \<le> fib_nr (nat (Height r + 3))" "fib_nr (nat (h + 1)) \<le> fib_nr (nat (Height l + 3))"
      using h by (intro fib_nr_mono nat_mono; simp)+
    then show ?thesis by simp
  next
    case False
    then have "fib_nr (nat (h + 2)) \<le> fib_nr (nat (Height l + 3))" "fib_nr (nat (h + 1)) \<le> fib_nr (nat (Height r + 3))"
      using h by (intro fib_nr_mono nat_mono; simp)+
    then show ?thesis by simp
  qed
  also have "\<dots> \<le> (nodes l + 1) + (nodes r + 1)" using IH by simp
  finally show ?case by simp
qed (simp add: numeral_eq_Suc)

fun longest :: "int bt \<Rightarrow> nat" where
  \<comment> \<open>the number of nodes on the longest path\<close>
  "longest Null = 0"
| "longest (Node l x h r) = Suc (max (longest l) (longest r))"

lemma avl_longest: "avl t \<Longrightarrow> int (longest t) = Height t + 1"
  by (induction t) (auto simp: Max2_def max_def)

lemma set_Height_avl: "avl t \<Longrightarrow> t \<noteq> Null \<Longrightarrow> set_Height t = Inr t"
  by (cases t) auto

section \<open>Rotations\<close>

text \<open>What a rotation owes to \<open>Insert\<close>: an AVL tree with the same traversal, of
  height \<open>n\<close>.\<close>

definition rebalanced :: "int bt res \<Rightarrow> int bt \<Rightarrow> int \<Rightarrow> bool" where
  "rebalanced R t n \<longleftrightarrow>
    (\<exists>t'. R = Inr t' \<and> avl t' \<and> inorder t' = inorder t \<and> Height t' = n \<and> t' \<noteq> Null)"

lemma single_left_rebalanced:
  assumes "avl (Node a k1 h1 b)" "avl r" "h1 = Height r + 2" "Height a = Height b + 1"
  shows "rebalanced (avl_SingleRotateWithLeft (Node (Node a k1 h1 b) y h r))
           (Node (Node a k1 h1 b) y h r) h1"
proof -
  have "Height a = Height r + 1" "Height b = Height r" using assms by (simp_all add: Max2_def)
  then show ?thesis using assms by (simp add: rebalanced_def Max2_def)
qed

lemma single_right_rebalanced:
  assumes "avl (Node b k2 h2 c)" "avl l" "h2 = Height l + 2" "Height c = Height b + 1"
  shows "rebalanced (avl_SingleRotateWithRight (Node l y h (Node b k2 h2 c)))
           (Node l y h (Node b k2 h2 c)) h2"
proof -
  have "Height c = Height l + 1" "Height b = Height l" using assms by (simp_all add: Max2_def)
  then show ?thesis using assms by (simp add: rebalanced_def Max2_def)
qed

text \<open>The grandchild that a double rotation lifts: it exists, and its children fit.\<close>

lemma tall_child:
  assumes "avl b" "Height b = n + 1" "- 1 \<le> n"
  obtains b1 k b2 where "b = Node b1 k (n + 1) b2" "avl b1" "avl b2"
    "Height b1 = n \<and> Height b2 = n \<or> Height b1 = n \<and> Height b2 = n - 1 \<or> Height b1 = n - 1 \<and> Height b2 = n"
proof (cases b)
  case (Node b1 k hb b2)
  then have "Height b1 = n \<and> Height b2 = n \<or> Height b1 = n \<and> Height b2 = n - 1 \<or>
      Height b1 = n - 1 \<and> Height b2 = n"
    using assms by (cases "Height b1 > Height b2") (auto simp: Max2_def)
  with Node assms show thesis by (intro that) auto
qed (use assms in simp)

lemma double_left_rebalanced:
  assumes "avl (Node a k1 h1 b)" "avl r" "h1 = Height r + 2" "Height b = Height a + 1"
  shows "rebalanced (avl_DoubleRotateWithLeft (Node (Node a k1 h1 b) y h r))
           (Node (Node a k1 h1 b) y h r) h1"
proof -
  have a: "Height a = Height r" "avl a" "avl b" "Height b = Height r + 1" "- 1 \<le> Height r"
    using assms avl_Height_ge [of r] by (simp_all add: Max2_def)
  from tall_child [OF a(3-5)] show ?thesis
  proof cases
    case (1 b1 k2 b2)
    from 1(4) show ?thesis
      by (elim disjE conjE) (use 1 a assms(2,3) in \<open>simp_all add: rebalanced_def Max2_def Let_def\<close>)
  qed
qed

lemma double_right_rebalanced:
  assumes "avl (Node b k2 h2 c)" "avl l" "h2 = Height l + 2" "Height b = Height c + 1"
  shows "rebalanced (avl_DoubleRotateWithRight (Node l y h (Node b k2 h2 c)))
           (Node l y h (Node b k2 h2 c)) h2"
proof -
  have a: "Height c = Height l" "avl c" "avl b" "Height b = Height l + 1" "- 1 \<le> Height l"
    using assms avl_Height_ge [of l] by (simp_all add: Max2_def)
  from tall_child [OF a(3-5)] show ?thesis
  proof cases
    case (1 b1 k3 b2)
    from 1(4) show ?thesis
      by (elim disjE conjE) (use 1 a assms(2,3) in \<open>simp_all add: rebalanced_def Max2_def Let_def\<close>)
  qed
qed

section \<open>Insertion\<close>

text \<open>How an insertion of \<open>x\<close> changes the height: not at all, or by one, and then on the
  side of \<open>x\<close>. This is why comparing \<open>X\<close> with the element of the child picks the
  right rotation.\<close>

fun grown :: "int \<Rightarrow> int bt \<Rightarrow> int bt \<Rightarrow> bool" where
  "grown x t Null = False"
| "grown x t (Node l e h r) = (h = Height t \<or> h = Height t + 1 \<and>
    (t = Null \<or> x < e \<and> Height l = Height r + 1 \<or> x > e \<and> Height r = Height l + 1))"

lemma avl_Insert_ok:
  "bst t \<Longrightarrow> avl t \<Longrightarrow> \<exists>t'. avl_Insert True x t = Inr t' \<and> avl t' \<and> bst t' \<and>
     elems t' = insert x (elems t) \<and> grown x t t'"
proof (induction t)
  case Null
  then show ?case by (simp add: Max2_def)
next
  case (Node l y h r)
  have hl: "- 1 \<le> Height l" "- 1 \<le> Height r" using Node.prems avl_Height_ge by auto
  show ?case
  proof (cases x y rule: linorder_cases)
    case less
    obtain l' where l': "avl_Insert True x l = Inr l'" "avl l'" "bst l'"
        "elems l' = insert x (elems l)" "grown x l l'"
      using Node.IH(1) Node.prems by auto
    then obtain a e he b where n: "l' = Node a e he b" by (cases l') auto
    have bs: "bst (Node l' y h r)" using l' less Node.prems by auto
    show ?thesis
    proof (cases "he = Height r + 2")
      case True
      then have g: "Height l = Height r + 1" "h = he" "l \<noteq> Null"
        "x < e \<and> Height a = Height b + 1 \<or> e < x \<and> Height b = Height a + 1"
        using l'(5) n Node.prems(2) hl by (auto simp: Max2_def split: if_splits)
      then have "rebalanced (if x < e then avl_SingleRotateWithLeft (Node l' y h r)
            else avl_DoubleRotateWithLeft (Node l' y h r)) (Node l' y h r) h"
        using True l'(2) n Node.prems(2)
          single_left_rebalanced [of a e he b r y h] double_left_rebalanced [of a e he b r y h]
        by (auto simp del: avl_SingleRotateWithLeft.simps avl_DoubleRotateWithLeft.simps)
      then obtain t' where t': "(if x < e then avl_SingleRotateWithLeft (Node l' y h r)
            else avl_DoubleRotateWithLeft (Node l' y h r)) = Inr t'" "avl t'"
          "inorder t' = inorder (Node l' y h r)" "Height t' = h" "t' \<noteq> Null"
        unfolding rebalanced_def by blast
      have "avl_Insert True x (Node l y h r) = Inr t'"
        using l'(1) t'(1) less True n set_Height_avl [OF t'(2,5)]
        by (auto simp del: avl_SingleRotateWithLeft.simps avl_DoubleRotateWithLeft.simps split: if_splits)
      then show ?thesis
        using inorder_eqD [OF t'(3)] t' bs l'(4) by (cases t') auto
    next
      case False
      then show ?thesis using l' n bs less Node.prems hl
        by (auto simp: Max2_def split: if_splits)
    qed
  next
    case greater
    obtain r' where r': "avl_Insert True x r = Inr r'" "avl r'" "bst r'"
        "elems r' = insert x (elems r)" "grown x r r'"
      using Node.IH(2) Node.prems by auto
    then obtain a e he b where n: "r' = Node a e he b" by (cases r') auto
    have bs: "bst (Node l y h r')" using r' greater Node.prems by auto
    show ?thesis
    proof (cases "he = Height l + 2")
      case True
      then have g: "Height r = Height l + 1" "h = he" "r \<noteq> Null"
        "x < e \<and> Height a = Height b + 1 \<or> e < x \<and> Height b = Height a + 1"
        using r'(5) n Node.prems(2) hl by (auto simp: Max2_def split: if_splits)
      then have "rebalanced (if x > e then avl_SingleRotateWithRight (Node l y h r')
            else avl_DoubleRotateWithRight (Node l y h r')) (Node l y h r') h"
        using True r'(2) n Node.prems(2)
          single_right_rebalanced [of a e he b l y h] double_right_rebalanced [of a e he b l y h]
        by (auto simp del: avl_SingleRotateWithRight.simps avl_DoubleRotateWithRight.simps)
      then obtain t' where t': "(if x > e then avl_SingleRotateWithRight (Node l y h r')
            else avl_DoubleRotateWithRight (Node l y h r')) = Inr t'" "avl t'"
          "inorder t' = inorder (Node l y h r')" "Height t' = h" "t' \<noteq> Null"
        unfolding rebalanced_def by blast
      have "avl_Insert True x (Node l y h r) = Inr t'"
        using r'(1) t'(1) greater True n set_Height_avl [OF t'(2,5)]
        by (auto simp del: avl_SingleRotateWithRight.simps avl_DoubleRotateWithRight.simps split: if_splits)
      then show ?thesis
        using inorder_eqD [OF t'(3)] t' bs r'(4) by (cases t') auto
    next
      case False
      then show ?thesis using r' n bs greater Node.prems hl
        by (auto simp: Max2_def split: if_splits)
    qed
  next
    case equal
    then show ?thesis using Node.prems by auto
  qed
qed

lemma avl_Insert_no_space:
  "bst t \<Longrightarrow> avl t \<Longrightarrow>
     avl_Insert False x t = (if x \<in> elems t then Inr t else Inl (FatalError ''Out of space!!!''))"
  by (induction t) (auto simp: Max2_def)

interpretation avltree: ordered_set Null "avl_Insert True" "\<lambda>x t. avl_Find x t \<noteq> Null" elems
    "\<lambda>t. bst t \<and> avl t"
  by unfold_locales (simp_all add: avl_search_eq st_Find_mem, use avl_Insert_ok in blast)

section \<open>Properties\<close>

text \<open>C15: inserting any list of keys into the empty AVL tree never dereferences
  \<open>NULL\<close>; the result is a balanced search tree with correct \<open>Height\<close> fields that
  holds exactly the keys, and \<open>Find\<close>, \<open>FindMin\<close>, \<open>FindMax\<close> answer for
  them.\<close>

theorem AvlTree_insert_all:
  "\<exists>t. insert_all (avl_Insert True) xs Null = Inr t \<and> avl t \<and> bst t \<and>
    inorder t = sorted_list_of_set (set xs) \<and> (\<forall>x. avl_Find x t \<noteq> Null \<longleftrightarrow> x \<in> set xs) \<and>
    (xs = [] \<or> avl_Retrieve (avl_FindMin t) = Inr (Min (set xs)) \<and>
       avl_Retrieve (avl_FindMax t) = Inr (Max (set xs)))"
proof -
  obtain t where t: "insert_all (avl_Insert True) xs Null = Inr t" "bst t" "avl t" "elems t = set xs"
      "\<forall>x. avl_Find x t \<noteq> Null \<longleftrightarrow> x \<in> set xs"
    using avltree.insert_all_mem [of xs] by auto
  then have "xs = [] \<or> t \<noteq> Null" by (metis elems.simps(1) set_empty)
  then show ?thesis
    using t inorder_sorted_list [OF t(2)] Retrieve_FindMin [OF t(2)] Retrieve_FindMax [OF t(2)]
    by (auto simp: avl_search_eq)
qed

text \<open>\<open>Insert\<close> on an AVL tree keeps the balance and the search order, adds
  the key, and changes the height by at most one; when \<open>malloc\<close> fails it ends the program
  if and only if a node is needed.\<close>

theorem AvlTree_Insert:
  assumes "bst t" "avl t"
  shows "(\<exists>t'. avl_Insert True x t = Inr t' \<and> avl t' \<and> bst t' \<and> elems t' = insert x (elems t) \<and>
            Height t \<le> Height t' \<and> Height t' \<le> Height t + 1) \<and>
    avl_Insert False x t = (if x \<in> elems t then Inr t else Inl (FatalError ''Out of space!!!''))"
proof -
  obtain t' where "avl_Insert True x t = Inr t'" "avl t'" "bst t'" "elems t' = insert x (elems t)"
      "grown x t t'"
    using avl_Insert_ok [OF assms] by auto
  then show ?thesis using avl_Insert_no_space [OF assms] by (cases t') auto
qed

theorem AvlTree_Insert_witness:
  "\<exists>t'. avl_Insert True 3 (Node Null 1 1 (Node Null 2 0 Null)) = Inr t' \<and> avl t' \<and> elems t' = {1, 2, 3}"
  using AvlTree_Insert [of "Node Null 1 1 (Node Null 2 0 Null)" 3] by (auto simp: Max2_def)

text \<open>C16: an AVL tree made by insertions, of height \<open>h\<close>, has at least
  \<open>F (h + 3) - 1\<close> keys, where \<open>F\<close> are the Fibonacci numbers and a single node has height
  0; its field \<open>Height\<close> is the number of nodes on the longest path less one. So with fewer than
  \<open>2 ^ 32\<close> different keys no path has more than 45 nodes.\<close>

theorem AvlTree_height:
  "\<exists>t. insert_all (avl_Insert True) xs Null = Inr t \<and> int (longest t) = Height t + 1 \<and>
    fib_nr (nat (Height t + 3)) \<le> card (set xs) + 1 \<and> (card (set xs) < 2 ^ 32 \<longrightarrow> longest t \<le> 45)"
proof -
  obtain t where t: "insert_all (avl_Insert True) xs Null = Inr t" "bst t" "avl t" "elems t = set xs"
    using avltree.insert_all_mem [of xs] by auto
  have n: "fib_nr (nat (Height t + 3)) \<le> card (set xs) + 1"
    using avl_fib [OF t(3)] nodes_card [OF t(2)] t(4) by simp
  have l: "int (longest t) = Height t + 1" by (rule avl_longest [OF t(3)])
  have "longest t \<le> 45" if "card (set xs) < 2 ^ 32"
  proof (rule ccontr)
    assume "\<not> longest t \<le> 45"
    then have "48 \<le> nat (Height t + 3)" using l by linarith
    then have "fib_nr 48 \<le> fib_nr (nat (Height t + 3))" by (rule fib_nr_mono)
    then show False using n that fib_nr_48 by simp
  qed
  then show ?thesis using t(1) n l by blast
qed

theorem AvlTree_height_witness:
  "\<exists>t. insert_all (avl_Insert True) [1, 2, 3] Null = Inr t \<and> longest t \<le> 45"
  using AvlTree_height [of "[1, 2, 3]"] by auto

end
