(* ===== verification/TreapTree.thy ===== *)
theory TreapTree
  imports SearchTree
begin

text \<open>
  \<^verbatim>\<open>src/DSAAC/treap.c\<close>: the randomised search tree, with \<open>Priority\<close> as
  the extra field of a node. \<open>NullNode\<close> is the sentinel, with priority
  \<open>Infinity\<close> (32767, \<^verbatim>\<open>treap.h\<close>); the result of \<open>rand()\<close> is a
  parameter of \<open>Insert\<close>.

  \<open>Remove\<close> relies on the sentinel in an unusual way: at a leaf it rotates with
  \<open>NullNode\<close>, which hangs the leaf under \<open>NullNode->Left\<close>, from where it is
  freed. The rotations of the model therefore say when they link a node below the sentinel
  (\<open>NullLeft\<close>, \<open>NullRight\<close>).
\<close>

section \<open>Operations\<close>

definition Infinity :: int where "Infinity = 32767"

fun prio :: "int bt \<Rightarrow> int" where
  \<comment> \<open>\<open>T->Priority\<close>, also of the sentinel\<close>
  "prio Null = Infinity"
| "prio (Node l x p r) = p"

definition tp_Initialize :: "bool \<Rightarrow> int bt res" where
  "tp_Initialize ok = (if ok then Inr Null else Inl (FatalError ''Out of space!!!''))"

definition tp_Random :: "int \<Rightarrow> int" where
  "tp_Random rand = rand - 1"

fun tp_MakeEmpty :: "int bt \<Rightarrow> int bt \<times> int list" where
  "tp_MakeEmpty Null = (Null, [])"
| "tp_MakeEmpty (Node l x p r) =
    (let (_, fl) = tp_MakeEmpty l; (_, fr) = tp_MakeEmpty r in (Null, fl @ fr @ [x]))"

fun tp_PrintTree :: "int bt \<Rightarrow> int list" where
  \<comment> \<open>the numbers printed\<close>
  "tp_PrintTree Null = []"
| "tp_PrintTree (Node l x p r) = tp_PrintTree l @ [x] @ tp_PrintTree r"

fun tp_Find :: "int \<Rightarrow> int bt \<Rightarrow> int bt" where
  "tp_Find X Null = Null"
| "tp_Find X (Node l y p r) =
    (if X < y then tp_Find X l else if X > y then tp_Find X r else Node l y p r)"

fun tp_FindMin :: "int bt \<Rightarrow> int bt" where
  "tp_FindMin Null = Null"
| "tp_FindMin (Node l y p r) = (if l = Null then Node l y p r else tp_FindMin l)"

fun tp_FindMax :: "int bt \<Rightarrow> int bt" where
  "tp_FindMax Null = Null"
| "tp_FindMax (Node l y p r) = (if r \<noteq> Null then tp_FindMax r else Node l y p r)"

datatype rotation =
    Rotated "int bt"
  | NullLeft "int bt"   \<comment> \<open>\<open>NullNode\<close> is returned and \<open>NullNode->Left\<close> is this node\<close>
  | NullRight "int bt"  \<comment> \<open>\<open>NullNode\<close> is returned and \<open>NullNode->Right\<close> is this node\<close>

fun tp_SingleRotateWithLeft :: "int bt \<Rightarrow> rotation" where
  "tp_SingleRotateWithLeft Null = Rotated Null"
| "tp_SingleRotateWithLeft (Node Null k2 p2 c) = NullRight (Node Null k2 p2 c)"
| "tp_SingleRotateWithLeft (Node (Node a k1 p1 b) k2 p2 c) = Rotated (Node a k1 p1 (Node b k2 p2 c))"

fun tp_SingleRotateWithRight :: "int bt \<Rightarrow> rotation" where
  "tp_SingleRotateWithRight Null = Rotated Null"
| "tp_SingleRotateWithRight (Node a k1 p1 Null) = NullLeft (Node a k1 p1 Null)"
| "tp_SingleRotateWithRight (Node a k1 p1 (Node b k2 p2 c)) = Rotated (Node (Node a k1 p1 b) k2 p2 c)"

fun rotated :: "rotation \<Rightarrow> int bt res" where
  \<comment> \<open>a rotation after which the sentinel must not have been changed\<close>
  "rotated (Rotated t) = Inr t"
| "rotated _ = Inl BadAccess"

fun tp_Insert :: "bool \<Rightarrow> int \<Rightarrow> int \<Rightarrow> int bt \<Rightarrow> int bt res" where
  "tp_Insert ok rand Item Null =
    (if ok then Inr (Node Null Item (tp_Random rand) Null) else Inl (FatalError ''Out of space!!!''))"
| "tp_Insert ok rand Item (Node l y p r) =
    (if Item < y then
       bindr (tp_Insert ok rand Item l) (\<lambda>l'.
         if prio l' < p then rotated (tp_SingleRotateWithLeft (Node l' y p r)) else Inr (Node l' y p r))
     else if Item > y then
       bindr (tp_Insert ok rand Item r) (\<lambda>r'.
         if prio r' < p then rotated (tp_SingleRotateWithRight (Node l y p r')) else Inr (Node l y p r'))
     else Inr (Node l y p r))"

text \<open>\<open>Remove\<close> recurses on the rotated tree, which need not end on a tree with
  duplicates: not returning is \<open>None\<close>. In the case \<open>NullRight\<close> the statement
  \<open>free( T->Left )\<close> frees the sentinel itself.\<close>

partial_function (option) tp_Remove :: "int \<Rightarrow> int bt \<Rightarrow> int bt res option" where
  "tp_Remove Item T = (case T of Null \<Rightarrow> Some (Inr Null)
   | Node l y p r \<Rightarrow>
      if Item < y then
        Option.bind (tp_Remove Item l) (\<lambda>R. Some (bindr R (\<lambda>l'. Inr (Node l' y p r))))
      else if Item > y then
        Option.bind (tp_Remove Item r) (\<lambda>R. Some (bindr R (\<lambda>r'. Inr (Node l y p r'))))
      else
        (case (if prio l < prio r then tp_SingleRotateWithLeft T else tp_SingleRotateWithRight T) of
           Rotated T' \<Rightarrow> tp_Remove Item T'
         | NullLeft K \<Rightarrow> Some (Inr Null)
         | NullRight K \<Rightarrow> Some (Inl BadAccess)))"

fun tp_Retrieve :: "int bt \<Rightarrow> int res" where
  \<comment> \<open>the sentinel's element is never written\<close>
  "tp_Retrieve Null = Inl Uninitialised"
| "tp_Retrieve (Node l y p r) = Inr y"

section \<open>The searching operations are those of tree.c\<close>

lemma tp_Find_eq: "tp_Find x t = st_Find x t"
  by (induction t) auto

lemma tp_FindMin_eq: "tp_FindMin t = st_FindMin t"
  by (induction t) auto

lemma tp_FindMax_eq: "tp_FindMax t = st_FindMax t"
  by (induction t) auto

lemma tp_PrintTree_eq: "tp_PrintTree t = inorder t"
  by (induction t) auto

lemma tp_MakeEmpty_eq: "tp_MakeEmpty t = st_MakeEmpty t"
  by (induction t) auto

lemmas tp_search_eq = tp_Find_eq tp_FindMin_eq tp_FindMax_eq tp_PrintTree_eq tp_MakeEmpty_eq

section \<open>Heap order\<close>

fun pge :: "int \<Rightarrow> int bt \<Rightarrow> bool" where
  \<comment> \<open>the root, if any, has priority at least \<open>q\<close>\<close>
  "pge q Null = True"
| "pge q (Node l x p r) = (q \<le> p)"

fun treap :: "int bt \<Rightarrow> bool" where
  "treap Null = True"
| "treap (Node l x p r) = (treap l \<and> treap r \<and> pge p l \<and> pge p r)"

fun below :: "int bt \<Rightarrow> bool" where
  \<comment> \<open>all priorities are below that of the sentinel\<close>
  "below Null = True"
| "below (Node l x p r) = (below l \<and> below r \<and> p < Infinity)"

fun kids_ge :: "int \<Rightarrow> int bt \<Rightarrow> bool" where
  "kids_ge q Null = False"
| "kids_ge q (Node l x p r) = (pge q l \<and> pge q r)"

lemma pge_trans: "pge q t \<Longrightarrow> q' \<le> q \<Longrightarrow> pge q' t"
  by (cases t) auto

lemma pge_prio: "below t \<Longrightarrow> q < Infinity \<Longrightarrow> pge q t \<longleftrightarrow> q \<le> prio t"
  by (cases t) auto

lemma tp_Insert_ok:
  "bst t \<Longrightarrow> treap t \<Longrightarrow> \<exists>t'. tp_Insert True rand x t = Inr t' \<and> bst t' \<and> treap t' \<and>
     elems t' = insert x (elems t) \<and> (\<forall>q. pge q t \<longrightarrow> kids_ge q t') \<and>
     (below t \<longrightarrow> rand \<le> Infinity \<longrightarrow> below t')"
proof (induction t)
  case Null
  then show ?case by (simp add: tp_Random_def)
next
  case (Node l y p r)
  show ?case
  proof (cases x y rule: linorder_cases)
    case less
    obtain l' where l': "tp_Insert True rand x l = Inr l'" "bst l'" "treap l'"
        "elems l' = insert x (elems l)" "kids_ge p l'" "below l \<longrightarrow> rand \<le> Infinity \<longrightarrow> below l'"
      using Node.IH(1) Node.prems by auto
    then obtain a e pe b where n: "l' = Node a e pe b" by (cases l') auto
    have "bst (Node l' y p r)" using l' less Node.prems by auto
    then show ?thesis using l' n less Node.prems
      by (auto simp: pge_trans dest: less_imp_le intro: less_trans)
  next
    case greater
    obtain r' where r': "tp_Insert True rand x r = Inr r'" "bst r'" "treap r'"
        "elems r' = insert x (elems r)" "kids_ge p r'" "below r \<longrightarrow> rand \<le> Infinity \<longrightarrow> below r'"
      using Node.IH(2) Node.prems by auto
    then obtain a e pe b where n: "r' = Node a e pe b" by (cases r') auto
    have "bst (Node l y p r')" using r' greater Node.prems by auto
    then show ?thesis using r' n greater Node.prems
      by (auto simp: pge_trans dest: less_imp_le intro: less_trans)
  next
    case equal
    then show ?thesis using Node.prems by (auto intro: pge_trans)
  qed
qed

section \<open>Removal\<close>

lemma remove_less: "x < y \<Longrightarrow> tp_Remove x l = Some (Inr l') \<Longrightarrow>
    tp_Remove x (Node l y p r) = Some (Inr (Node l' y p r))"
  by (subst tp_Remove.simps) simp

lemma remove_greater: "x > y \<Longrightarrow> tp_Remove x r = Some (Inr r') \<Longrightarrow>
    tp_Remove x (Node l y p r) = Some (Inr (Node l y p r'))"
  by (subst tp_Remove.simps) simp

lemma remove_rotate_left: "prio (Node a k q b) < prio r \<Longrightarrow>
    tp_Remove x (Node (Node a k q b) x p r) = tp_Remove x (Node a k q (Node b x p r))"
  by (subst tp_Remove.simps) simp

lemma remove_rotate_right: "\<not> prio l < prio (Node b k q c) \<Longrightarrow>
    tp_Remove x (Node l x p (Node b k q c)) = tp_Remove x (Node (Node l x p b) k q c)"
  by (subst tp_Remove.simps) simp

lemma remove_leaf: "tp_Remove x (Node Null x p Null) = Some (Inr Null)"
  by (subst tp_Remove.simps) simp

text \<open>A removal that starts at the node itself: the node sinks, at each step below the child of
  smaller priority, until it is a leaf.\<close>

definition removed :: "int bt res option \<Rightarrow> int bt \<Rightarrow> int bt \<Rightarrow> bool" where
  "removed R l r \<longleftrightarrow> (\<exists>t'. R = Some (Inr t') \<and> inorder t' = inorder l @ inorder r \<and> treap t' \<and>
     below t' \<and> (\<forall>q. pge q l \<and> pge q r \<longrightarrow> pge q t'))"

lemma remove_root:
  "bst (Node l x p r) \<Longrightarrow> treap l \<Longrightarrow> treap r \<Longrightarrow> below l \<Longrightarrow> below r \<Longrightarrow>
     removed (tp_Remove x (Node l x p r)) l r"
proof (induction "nodes l + nodes r" arbitrary: l r rule: less_induct)
  case less
  show ?case
  proof (cases "prio l < prio r")
    case True
    then obtain a k q b where l: "l = Node a k q b"
      using less.prems by (cases l; cases r) auto
    have "removed (tp_Remove x (Node b x p r)) b r"
      using less.prems l by (intro less.hyps) auto
    moreover have "pge q b" "pge q r" "k < x"
      using less.prems l True by (auto simp: pge_prio)
    ultimately show ?thesis using True l less.prems
      by (auto simp: removed_def remove_rotate_left dest: remove_greater)
  next
    case False
    show ?thesis
    proof (cases r)
      case Null
      then have "l = Null" using False less.prems by (cases l) auto
      with Null show ?thesis by (simp add: remove_leaf removed_def)
    next
      case (Node b k q c)
      have "removed (tp_Remove x (Node l x p b)) l b"
        using less.prems Node by (intro less.hyps) auto
      moreover have "pge q l" "pge q b" "x < k"
        using less.prems Node False by (auto simp: pge_prio)
      ultimately show ?thesis using False Node less.prems
        by (auto simp: removed_def remove_rotate_right dest: remove_less)
    qed
  qed
qed

lemma tp_Remove_ok:
  "bst t \<Longrightarrow> treap t \<Longrightarrow> below t \<Longrightarrow>
     \<exists>t'. tp_Remove x t = Some (Inr t') \<and> bst t' \<and> elems t' = elems t - {x} \<and> treap t' \<and> below t' \<and>
       (\<forall>q. pge q t \<longrightarrow> pge q t')"
proof (induction t)
  case Null
  then show ?case by (subst tp_Remove.simps) simp
next
  case (Node l y p r)
  show ?case
  proof (cases x y rule: linorder_cases)
    case less
    obtain l' where l': "tp_Remove x l = Some (Inr l')" "bst l'" "elems l' = elems l - {x}"
        "treap l'" "below l'" "pge p l'"
      using Node.IH(1) Node.prems by auto
    then show ?thesis using remove_less [OF less l'(1)] less Node.prems
        bst_notin_right [OF Node.prems(1), of x] by auto
  next
    case greater
    obtain r' where r': "tp_Remove x r = Some (Inr r')" "bst r'" "elems r' = elems r - {x}"
        "treap r'" "below r'" "pge p r'"
      using Node.IH(2) Node.prems by auto
    then show ?thesis using remove_greater [OF greater r'(1)] greater Node.prems
        bst_notin_left [OF Node.prems(1), of x] by auto
  next
    case equal
    then obtain t' where t': "tp_Remove x (Node l y p r) = Some (Inr t')"
        "inorder t' = inorder l @ inorder r" "treap t'" "below t'" "pge p t'"
      using remove_root [of l x p r] Node.prems by (auto simp: removed_def)
    have "elems t' = elems l \<union> elems r" using arg_cong [OF t'(2), of set] by (simp add: set_inorder)
    moreover have "y \<notin> elems l" "y \<notin> elems r" using Node.prems by auto
    moreover have "bst t'" using t'(2) Node.prems sorted_inorder [OF Node.prems(1)]
      by (simp add: bst_iff_inorder sorted_wrt_append)
    ultimately show ?thesis using t' equal by (auto intro: pge_trans)
  qed
qed

section \<open>Treaps as sets\<close>

text \<open>The state of a program that uses a treap: the values \<open>rand()\<close> will return, and
  the tree. \<open>rand()\<close> is called when a node is made.\<close>

type_synonym tp_state = "(nat \<Rightarrow> int) \<times> int bt"

definition tp_ins :: "int \<Rightarrow> tp_state \<Rightarrow> tp_state res" where
  "tp_ins x = (\<lambda>(rnd, t). bindr (tp_Insert True (rnd 0) x t) (\<lambda>t'.
     Inr (if tp_Find x t = Null then (\<lambda>n. rnd (Suc n)) else rnd, t')))"

definition tp_del :: "int \<Rightarrow> tp_state \<Rightarrow> tp_state res" where
  \<comment> \<open>\<open>Remove\<close>, with \<open>BadAccess\<close> also for a call that does not return\<close>
  "tp_del x = (\<lambda>(rnd, t). case tp_Remove x t of None \<Rightarrow> Inl BadAccess
     | Some R \<Rightarrow> bindr R (\<lambda>t'. Inr (rnd, t')))"

definition tp_inv :: "tp_state \<Rightarrow> bool" where
  "tp_inv = (\<lambda>(rnd, t). bst t \<and> treap t \<and> below t \<and> (\<forall>n. rnd n \<le> Infinity))"

lemma tp_ins_ok:
  "tp_inv s \<Longrightarrow> \<exists>s'. tp_ins x s = Inr s' \<and> tp_inv s' \<and> elems (snd s') = insert x (elems (snd s))"
  using tp_Insert_ok [of "snd s" "fst s 0" x] by (cases s) (fastforce simp: tp_ins_def tp_inv_def)

lemma tp_del_ok:
  "tp_inv s \<Longrightarrow> \<exists>s'. tp_del x s = Inr s' \<and> tp_inv s' \<and> elems (snd s') = elems (snd s) - {x}"
  using tp_Remove_ok [of "snd s" x] by (cases s) (fastforce simp: tp_del_def tp_inv_def)

interpretation treap_set: ordered_set_del "(\<lambda>_. 0, Null)" tp_ins "\<lambda>x s. tp_Find x (snd s) \<noteq> Null"
    "\<lambda>s. elems (snd s)" tp_inv tp_del
proof unfold_locales
  show "tp_inv (\<lambda>_. 0, Null)" by (simp add: tp_inv_def Infinity_def)
  show "tp_inv s \<Longrightarrow> tp_Find x (snd s) \<noteq> Null \<longleftrightarrow> x \<in> elems (snd s)" for s x
    using st_Find_mem [of "snd s" x] by (auto simp: tp_inv_def tp_search_eq)
qed (simp_all add: tp_ins_ok tp_del_ok del: split_paired_Ex)

section \<open>Properties\<close>

text \<open>C17: if \<open>rand()\<close> returns at most \<open>Infinity\<close>, a sequence of insertions
  and removals of present elements runs without touching the sentinel, every \<open>Remove\<close>
  returns, and the tree is a search tree in heap order whose printed traversal is the sorted
  content of the set.\<close>

theorem Treap_refines_set:
  assumes "\<forall>n. rnd n \<le> Infinity" "spec_exec ops {} = Some S"
  shows "\<exists>rnd' t. set_exec tp_ins tp_del ops (rnd, Null) = Inr (rnd', t) \<and> treap t \<and>
    tp_PrintTree t = sorted_list_of_set S \<and> (\<forall>x. tp_Find x t \<noteq> Null \<longleftrightarrow> x \<in> S)"
proof -
  have "tp_inv (rnd, Null)" using assms(1) by (simp add: tp_inv_def)
  then obtain s where s: "set_exec tp_ins tp_del ops (rnd, Null) = Inr s" "tp_inv s" "elems (snd s) = S"
    using treap_set.exec_refines [of "(rnd, Null)" ops S] assms(2) by auto
  moreover obtain rnd' t where "s = (rnd', t)" by (cases s)
  ultimately show ?thesis using st_Find_mem [of t] inorder_sorted_list [of t]
    by (auto simp: tp_inv_def tp_search_eq)
qed

theorem Treap_refines_set_witness:
  "\<exists>rnd' t. set_exec tp_ins tp_del [OpInsert 5, OpInsert 2, OpInsert 8, OpDelete 5] (\<lambda>n. int n mod 7, Null)
      = Inr (rnd', t) \<and> tp_PrintTree t = [2, 8]"
proof -
  have a: "spec_exec [OpInsert 5, OpInsert 2, OpInsert 8, OpDelete 5] {} = Some {2, 8}"
    by (simp add: insert_commute insert_Diff_if)
  have "int n mod 7 < 7" for n by simp
  then have b: "\<forall>n. int n mod 7 \<le> Infinity" unfolding Infinity_def by presburger
  show ?thesis using Treap_refines_set [OF b a] by (auto simp del: set_exec.simps)
qed

text \<open>A priority above \<open>Infinity\<close>, which \<open>rand()\<close> may return where
  \<open>RAND_MAX\<close> is larger, makes \<open>Remove\<close> drop a whole subtree, or free the
  sentinel.\<close>

lemma tp_Remove_loses_subtree:
  "tp_Remove 5 (Node (Node Null 3 40000 Null) 5 1 Null) = Some (Inr Null)"
  "tp_Remove 5 (Node Null 5 1 (Node Null 7 40000 Null)) = Some (Inl BadAccess)"
  by (subst tp_Remove.simps, simp add: Infinity_def)+

end
