(* ===== verification/PriorityQueue.thy ===== *)
theory PriorityQueue
  imports BinTree
begin

text \<open>
  The interface of the priority queues of \<^verbatim>\<open>src/DSAAC\<close>
  (\<^verbatim>\<open>leftheap.c\<close>, \<^verbatim>\<open>binheap.c\<close>, \<^verbatim>\<open>binomial.c\<close>,
  \<^verbatim>\<open>pairheap.c\<close>) over multisets of elements, and its client: the test programs fill a
  queue and then take the minimum until the queue is empty.
\<close>

fun drain :: "('q \<Rightarrow> bool) \<Rightarrow> ('q \<Rightarrow> int res) \<Rightarrow> ('q \<Rightarrow> 'q res) \<Rightarrow> nat \<Rightarrow> 'q \<Rightarrow> (int list \<times> 'q) res" where
  \<comment> \<open>at most \<open>n\<close> rounds of \<open>while( !IsEmpty( H ) )\<close>; the elements seen, and the
    final queue\<close>
  "drain isemp fmin dmin 0 q = Inr ([], q)"
| "drain isemp fmin dmin (Suc n) q =
    (if isemp q then Inr ([], q)
     else bindr (fmin q) (\<lambda>x. bindr (dmin q) (\<lambda>q'. bindr (drain isemp fmin dmin n q') (\<lambda>(xs, q'').
       Inr (x # xs, q'')))))"

lemma sorted_list_of_multiset_Min:
  assumes "M \<noteq> {#}"
  shows "sorted_list_of_multiset M = Min_mset M # sorted_list_of_multiset (M - {#Min_mset M#})"
proof -
  have m: "Min_mset M \<in># M" using assms by (simp add: Min_in)
  have s: "sorted (Min_mset M # sorted_list_of_multiset (M - {#Min_mset M#}))"
    by (auto dest: in_diffD)
  have e: "mset (Min_mset M # sorted_list_of_multiset (M - {#Min_mset M#})) = M" using m by simp
  from sorted_sort_id [OF s] show ?thesis
    by (metis e sorted_list_of_multiset_mset)
qed

fun fits :: "nat \<Rightarrow> nat option \<Rightarrow> bool" where
  \<comment> \<open>\<open>n\<close> elements fit in a queue with this bound, \<open>None\<close> being no bound\<close>
  "fits n None = True"
| "fits n (Some c) = (n \<le> c)"

locale pqueue =
  fixes isemp :: "'q \<Rightarrow> bool" and ins :: "int \<Rightarrow> 'q \<Rightarrow> 'q res"
    and fmin :: "'q \<Rightarrow> int res" and dmin :: "'q \<Rightarrow> 'q res"
    and bag :: "'q \<Rightarrow> int multiset" and inv :: "'q \<Rightarrow> bool"
    and cap :: "'q \<Rightarrow> nat option" and elem_ok :: "int \<Rightarrow> bool"
    \<comment> \<open>\<open>cap\<close> bounds the number of elements, \<open>elem_ok\<close> the elements themselves\<close>
  assumes isemp_ok: "inv q \<Longrightarrow> isemp q \<longleftrightarrow> bag q = {#}"
    and ins_ok: "inv q \<Longrightarrow> elem_ok x \<Longrightarrow> fits (size (bag q) + 1) (cap q) \<Longrightarrow>
       \<exists>q'. ins x q = Inr q' \<and> inv q' \<and> cap q' = cap q \<and> bag q' = add_mset x (bag q)"
    and fmin_ok: "inv q \<Longrightarrow> bag q \<noteq> {#} \<Longrightarrow> fmin q = Inr (Min_mset (bag q))"
    and dmin_ok: "inv q \<Longrightarrow> bag q \<noteq> {#} \<Longrightarrow>
       \<exists>q'. dmin q = Inr q' \<and> inv q' \<and> bag q' = bag q - {#Min_mset (bag q)#}"
begin

lemma insert_all_ok:
  "inv q \<Longrightarrow> list_all elem_ok xs \<Longrightarrow> fits (size (bag q) + length xs) (cap q) \<Longrightarrow>
     \<exists>q'. insert_all ins xs q = Inr q' \<and> inv q' \<and> bag q' = mset xs + bag q"
proof (induction xs arbitrary: q)
  case (Cons x xs)
  then have "fits (size (bag q) + 1) (cap q)" by (cases "cap q") auto
  then obtain q1 where q1: "ins x q = Inr q1" "inv q1" "cap q1 = cap q" "bag q1 = add_mset x (bag q)"
    using ins_ok [of q x] Cons.prems by auto
  then show ?case using Cons.IH [of q1] Cons.prems by auto
qed simp

lemma drain_sorted:
  "inv q \<Longrightarrow> size (bag q) \<le> n \<Longrightarrow>
     \<exists>q'. drain isemp fmin dmin n q = Inr (sorted_list_of_multiset (bag q), q') \<and> inv q' \<and> bag q' = {#}"
proof (induction n arbitrary: q)
  case (Suc n)
  show ?case
  proof (cases "bag q = {#}")
    case False
    then obtain q1 where q1: "dmin q = Inr q1" "inv q1" "bag q1 = bag q - {#Min_mset (bag q)#}"
      using dmin_ok [of q] Suc.prems by auto
    have "size (bag q1) \<le> n"
      using Suc.prems(2) q1(3) False by (simp add: size_Diff_singleton)
    then show ?thesis
      using Suc.IH [of q1] q1 False Suc.prems isemp_ok [of q] fmin_ok [of q]
        sorted_list_of_multiset_Min [OF False] by auto
  qed (use Suc.prems isemp_ok in auto)
qed auto

text \<open>Filling an empty queue and draining it sorts.\<close>

lemma fill_drain:
  assumes "inv q" "bag q = {#}" "list_all elem_ok xs" "fits (length xs) (cap q)"
  shows "\<exists>q1 q2. insert_all ins xs q = Inr q1 \<and> inv q1 \<and>
    drain isemp fmin dmin (length xs) q1 = Inr (sort xs, q2) \<and> isemp q2"
proof -
  obtain q1 where "insert_all ins xs q = Inr q1" "inv q1" "bag q1 = mset xs"
    using insert_all_ok [of q xs] assms by auto
  with drain_sorted [of q1 "length xs"] show ?thesis
    by (auto simp: isemp_ok)
qed

end

text \<open>Queues that can also be merged.\<close>

locale pqueue_merge = pqueue +
  fixes meld :: "'a \<Rightarrow> 'a \<Rightarrow> 'a res"
  assumes meld_ok: "inv q \<Longrightarrow> inv q2 \<Longrightarrow> fits (size (bag q) + size (bag q2)) (cap q) \<Longrightarrow>
     \<exists>q'. meld q q2 = Inr q' \<and> inv q' \<and> bag q' = bag q + bag q2"
begin

lemma meld_drain:
  assumes "inv q" "inv q2" "fits (size (bag q) + size (bag q2)) (cap q)"
  shows "\<exists>q1 q'. meld q q2 = Inr q1 \<and>
    drain isemp fmin dmin (size (bag q) + size (bag q2)) q1 =
      Inr (sorted_list_of_multiset (bag q + bag q2), q')"
proof -
  obtain q1 where "meld q q2 = Inr q1" "inv q1" "bag q1 = bag q + bag q2"
    using meld_ok [OF assms] by auto
  with drain_sorted [of q1] show ?thesis by fastforce
qed

end

end
