(* ===== verification/LeftHeap.thy ===== *)
theory LeftHeap
  imports PriorityQueue
begin

text \<open>
  \<^verbatim>\<open>src/DSAAC/leftheap.c\<close>: leftist heaps, with the null path length \<open>Npl\<close> as
  the extra field of a node. \<open>Merge1\<close> dereferences \<open>H1->Left\<close> and
  \<open>H1->Right\<close> to compare their \<open>Npl\<close>; the model fails with
  \<open>NullDeref\<close> where the code would.
\<close>

section \<open>Operations\<close>

definition lh_Initialize :: "int bt" where "lh_Initialize = Null"

definition lh_IsEmpty :: "int bt \<Rightarrow> bool" where "lh_IsEmpty H \<longleftrightarrow> H = Null"

fun Npl :: "int bt \<Rightarrow> int res" where
  "Npl Null = Inl NullDeref"
| "Npl (Node l x n r) = Inr n"

fun SwapChildren :: "int bt \<Rightarrow> int bt res" where
  "SwapChildren Null = Inl NullDeref"
| "SwapChildren (Node l x n r) = Inr (Node r x n l)"

fun set_Npl :: "int bt \<Rightarrow> int bt res" where
  \<comment> \<open>line 6 of \<open>Merge1\<close>: \<open>H1->Npl = H1->Right->Npl + 1\<close>\<close>
  "set_Npl Null = Inl NullDeref"
| "set_Npl (Node l x n r) = bindr (Npl r) (\<lambda>nr. Inr (Node l x (nr + 1) r))"

function (sequential) lh_Merge :: "int bt \<Rightarrow> int bt \<Rightarrow> int bt res"
    and lh_Merge1 :: "int bt \<Rightarrow> int bt \<Rightarrow> int bt res" where
  "lh_Merge Null H2 = Inr H2"
| "lh_Merge H1 Null = Inr H1"
| "lh_Merge (Node l1 x1 n1 r1) (Node l2 x2 n2 r2) =
    (if x1 < x2 then lh_Merge1 (Node l1 x1 n1 r1) (Node l2 x2 n2 r2)
     else lh_Merge1 (Node l2 x2 n2 r2) (Node l1 x1 n1 r1))"
| "lh_Merge1 Null H2 = Inl NullDeref"
| "lh_Merge1 (Node l x n r) H2 =
    (if l = Null then Inr (Node H2 x n r)
     else
       bindr (lh_Merge r H2) (\<lambda>r'. bindr (Npl l) (\<lambda>nl. bindr (Npl r') (\<lambda>nr.
         bindr (if nl < nr then SwapChildren (Node l x n r') else Inr (Node l x n r')) set_Npl))))"
  by pat_completeness auto
termination
  by (relation "measure (\<lambda>x. case x of Inl (h1, h2) \<Rightarrow> 2 * (nodes h1 + nodes h2) + 1
        | Inr (h1, h2) \<Rightarrow> 2 * (nodes h1 + nodes h2))") auto

definition Insert1 :: "bool \<Rightarrow> int \<Rightarrow> int bt \<Rightarrow> int bt res" where
  "Insert1 ok X H = (if ok then lh_Merge (Node Null X 0 Null) H else Inl (FatalError ''Out of space!!!''))"

fun DeleteMin1 :: "int bt \<Rightarrow> int bt res" where
  "DeleteMin1 Null = Inl (FatalError ''Priority queue is empty'')"
| "DeleteMin1 (Node l x n r) = lh_Merge l r"

fun lh_FindMin :: "int bt \<Rightarrow> int res" where
  "lh_FindMin Null = Inl (FatalError ''Priority Queue is Empty'')"
| "lh_FindMin (Node l x n r) = Inr x"

section \<open>Invariant\<close>

fun bag_of :: "'i bt \<Rightarrow> int multiset" where
  "bag_of Null = {#}"
| "bag_of (Node l x i r) = add_mset x (bag_of l + bag_of r)"

fun heap_ordered :: "'i bt \<Rightarrow> bool" where
  "heap_ordered Null = True"
| "heap_ordered (Node l x i r) =
    (heap_ordered l \<and> heap_ordered r \<and> (\<forall>y \<in># bag_of l + bag_of r. x \<le> y))"

fun npl :: "int bt \<Rightarrow> int" where
  \<comment> \<open>the null path length the field should have\<close>
  "npl Null = - 1"
| "npl (Node l x n r) = min (npl l) (npl r) + 1"

fun leftist :: "int bt \<Rightarrow> bool" where
  "leftist Null = True"
| "leftist (Node l x n r) = (leftist l \<and> leftist r \<and> npl r \<le> npl l \<and> n = npl r + 1)"

lemma npl_ge: "- 1 \<le> npl t"
  by (induction t) auto

lemma leftist_Npl: "leftist t \<Longrightarrow> t \<noteq> Null \<Longrightarrow> Npl t = Inr (npl t)"
  by (cases t) auto

lemma bag_of_empty_iff: "bag_of t = {#} \<longleftrightarrow> t = Null"
  by (cases t) auto

lemma heap_above:
  "heap_ordered (Node l x i r) \<Longrightarrow> z \<le> x \<Longrightarrow> \<forall>y \<in># bag_of (Node l x i r). z \<le> y"
  by (auto intro: order_trans)

definition merged :: "int bt res \<Rightarrow> int bt \<Rightarrow> int bt \<Rightarrow> bool" where
  "merged R h1 h2 \<longleftrightarrow> (\<exists>h. R = Inr h \<and> leftist h \<and> heap_ordered h \<and> bag_of h = bag_of h1 + bag_of h2)"

text \<open>\<open>H1->Left\<close> is empty only if \<open>H1\<close> is a single node: then its
  \<open>Npl\<close> is 0 and stays right.\<close>

lemma leftist_left_Null: "leftist (Node Null x n r) \<Longrightarrow> r = Null \<and> n = 0"
proof -
  assume a: "leftist (Node Null x n r)"
  have "r = Null"
  proof (cases r)
    case (Node l2 y m r2)
    then show ?thesis using a npl_ge [of l2] npl_ge [of r2] by (auto simp: min_def split: if_splits)
  qed
  with a show ?thesis by simp
qed

lemma merge_ok:
  "leftist h1 \<Longrightarrow> leftist h2 \<Longrightarrow> heap_ordered h1 \<Longrightarrow> heap_ordered h2 \<Longrightarrow> merged (lh_Merge h1 h2) h1 h2"
  "leftist h1 \<Longrightarrow> leftist h2 \<Longrightarrow> heap_ordered h1 \<Longrightarrow> heap_ordered h2 \<Longrightarrow> h1 \<noteq> Null \<Longrightarrow> h2 \<noteq> Null \<Longrightarrow>
     (\<forall>l x n r. h1 = Node l x n r \<longrightarrow> (\<forall>y \<in># bag_of h2. x \<le> y)) \<Longrightarrow> merged (lh_Merge1 h1 h2) h1 h2"
proof (induction h1 h2 and h1 h2 rule: lh_Merge_lh_Merge1.induct)
  case (3 l1 x1 n1 r1 l2 x2 n2 r2)
  show ?case
  proof (cases "x1 < x2")
    case True
    then have "merged (lh_Merge1 (Node l1 x1 n1 r1) (Node l2 x2 n2 r2)) (Node l1 x1 n1 r1) (Node l2 x2 n2 r2)"
      using "3.prems" heap_above [of l2 x2 n2 r2 x1] by (intro "3.IH"(1)) simp_all
    with True show ?thesis by simp
  next
    case False
    then have "merged (lh_Merge1 (Node l2 x2 n2 r2) (Node l1 x1 n1 r1)) (Node l2 x2 n2 r2) (Node l1 x1 n1 r1)"
      using "3.prems" heap_above [of l1 x1 n1 r1 x2] by (intro "3.IH"(2)) simp_all
    with False show ?thesis by (simp add: merged_def ac_simps)
  qed
next
  case (5 l x n r H2)
  show ?case
  proof (cases "l = Null")
    case True
    then show ?thesis using "5.prems" leftist_left_Null [of x n r] npl_ge [of H2]
      by (auto simp: merged_def)
  next
    case False
    then obtain r' where r': "lh_Merge r H2 = Inr r'" "leftist r'" "heap_ordered r'"
        "bag_of r' = bag_of r + bag_of H2"
      using 5 by (auto simp: merged_def)
    then have "r' \<noteq> Null" using "5.prems" by (auto simp: bag_of_empty_iff)
    then show ?thesis using False r' "5.prems" leftist_Npl [of l] leftist_Npl [of r']
      by (auto simp: merged_def)
  qed
qed (auto simp: merged_def)

lemma Insert1_ok:
  "leftist h \<Longrightarrow> heap_ordered h \<Longrightarrow> merged (Insert1 True x h) (Node Null x 0 Null) h"
  using merge_ok(1) [of "Node Null x 0 Null" h] by (simp add: Insert1_def)

lemma heap_Min: "heap_ordered (Node l x i r) \<Longrightarrow> Min_mset (bag_of (Node l x i r)) = x"
  by (intro Min_eqI) auto

interpretation leftheap: pqueue_merge lh_IsEmpty "Insert1 True" lh_FindMin DeleteMin1 bag_of
    "\<lambda>h. leftist h \<and> heap_ordered h" "\<lambda>_. None" "\<lambda>_. True" lh_Merge
proof unfold_locales
  fix q :: "int bt" and q2 x
  assume q: "leftist q \<and> heap_ordered q"
  show "\<exists>q'. Insert1 True x q = Inr q' \<and> (leftist q' \<and> heap_ordered q') \<and> None = None \<and>
      bag_of q' = add_mset x (bag_of q)"
    using Insert1_ok [of q x] q by (auto simp: merged_def)
  show "\<exists>q'. lh_Merge q q2 = Inr q' \<and> (leftist q' \<and> heap_ordered q') \<and> bag_of q' = bag_of q + bag_of q2"
    if "leftist q2 \<and> heap_ordered q2"
    using merge_ok(1) [of q q2] q that by (auto simp: merged_def)
  assume "bag_of q \<noteq> {#}"
  then obtain l y n r where n: "q = Node l y n r" by (cases q) auto
  then show "lh_FindMin q = Inr (Min_mset (bag_of q))" using heap_Min [of l y n r] q by simp
  show "\<exists>q'. DeleteMin1 q = Inr q' \<and> (leftist q' \<and> heap_ordered q') \<and>
      bag_of q' = bag_of q - {#Min_mset (bag_of q)#}"
    using merge_ok(1) [of l r] q n heap_Min [of l y n r] by (auto simp: merged_def)
qed (auto simp: lh_Initialize_def lh_IsEmpty_def bag_of_empty_iff)

text \<open>Null path lengths are logarithmic, so the recursion of \<open>Merge\<close> is.\<close>

lemma npl_nodes: "2 ^ nat (npl t + 1) \<le> nodes t + 1"
proof (induction t)
  case (Node l x n r)
  let ?m = "min (npl l) (npl r)"
  have "(2::nat) ^ nat (?m + 1) \<le> nodes l + 1" "(2::nat) ^ nat (?m + 1) \<le> nodes r + 1"
    by (rule order_trans [OF power_increasing Node.IH(1)] order_trans [OF power_increasing Node.IH(2)];
        simp add: nat_mono)+
  moreover have "nat (npl (Node l x n r) + 1) = Suc (nat (?m + 1))"
    using npl_ge [of l] npl_ge [of r] by simp
  ultimately show ?case by simp
qed simp

section \<open>Properties\<close>

text \<open>\<open>Merge\<close> of two leftist heaps never dereferences \<open>NULL\<close> and returns
  a leftist heap (heap order, \<open>Npl\<close> fields right, left paths no shorter than right ones) with
  the elements of both; the right path it walks is logarithmic in the number of nodes.\<close>

theorem LeftHeap_Merge:
  assumes "leftist h1" "heap_ordered h1" "leftist h2" "heap_ordered h2"
  shows "\<exists>h. lh_Merge h1 h2 = Inr h \<and> leftist h \<and> heap_ordered h \<and>
    bag_of h = bag_of h1 + bag_of h2 \<and> 2 ^ nat (npl h + 1) \<le> nodes h + 1"
  using merge_ok(1) [OF assms(1,3,2,4)] npl_nodes by (auto simp: merged_def)

theorem LeftHeap_Merge_witness:
  "\<exists>h. lh_Merge (Node Null 3 0 Null) (Node (Node Null 7 0 Null) 2 0 Null) = Inr h \<and>
     bag_of h = {#2, 3, 7#}"
  using LeftHeap_Merge [of "Node Null 3 0 Null" "Node (Node Null 7 0 Null) 2 0 Null"]
  by (auto simp: add_mset_commute)

text \<open>C18: inserting any list into an empty leftist heap and deleting minima until it is
  empty yields the list sorted, as \<^verbatim>\<open>testleft.c\<close> checks; the empty heap makes
  \<open>FindMin\<close> and \<open>DeleteMin1\<close> report their errors.\<close>

theorem LeftHeap_sorts:
  "(\<exists>h h'. insert_all (Insert1 True) xs lh_Initialize = Inr h \<and>
     drain lh_IsEmpty lh_FindMin DeleteMin1 (length xs) h = Inr (sort xs, h') \<and> lh_IsEmpty h') \<and>
   lh_FindMin lh_Initialize = Inl (FatalError ''Priority Queue is Empty'') \<and>
   DeleteMin1 lh_Initialize = Inl (FatalError ''Priority queue is empty'')"
  using leftheap.fill_drain [of Null xs] by (auto simp: lh_Initialize_def list.pred_True)

end
