(* ===== verification/BinHeap.thy ===== *)
theory BinHeap
  imports PriorityQueue
begin

text \<open>
  \<^verbatim>\<open>src/DSAAC/binheap.c\<close>: the binary heap in an array, cell 0 holding the sentinel
  \<open>MinData\<close>. \<open>Insert\<close> stops percolating up because of the sentinel, so its loop
  is a partial function: \<open>None\<close> means that it does not end, which happens for an element
  below \<open>MinData\<close>.
\<close>

section \<open>State and operations\<close>

record binheap =
  bCapacity :: int
  bSize :: int
  bElements :: "int list"

definition MinPQSize :: int where "MinPQSize = 10"
definition MinData :: int where "MinData = - 32767"

definition bh_Initialize :: "bool \<Rightarrow> bool \<Rightarrow> (int \<Rightarrow> int) \<Rightarrow> int \<Rightarrow> binheap res" where
  \<comment> \<open>\<open>ok1\<close>, \<open>ok2\<close>: the two \<open>malloc\<close> calls return a block\<close>
  "bh_Initialize ok1 ok2 g MaxElements =
    (if MaxElements < MinPQSize then Inl (FatalError ''Priority queue size is too small'')
     else if \<not> ok1 then Inl (FatalError ''Out of space!!!'')
     else case ck (MaxElements + 1) of
       None \<Rightarrow> Inl SignedOverflow
     | Some n \<Rightarrow>
        if \<not> ok2 then Inl (FatalError ''Out of space!!!'')
        else (case aput (malloc_cells g n) 0 MinData of
            None \<Rightarrow> Inl BadAccess
          | Some E \<Rightarrow> Inr \<lparr>bCapacity = MaxElements, bSize = 0, bElements = E\<rparr>))"

definition bh_MakeEmpty :: "binheap \<Rightarrow> binheap" where
  "bh_MakeEmpty H = H\<lparr>bSize := 0\<rparr>"

definition bh_IsEmpty :: "binheap \<Rightarrow> bool" where
  "bh_IsEmpty H \<longleftrightarrow> bSize H = 0"

definition bh_IsFull :: "binheap \<Rightarrow> bool" where
  "bh_IsFull H \<longleftrightarrow> bSize H = bCapacity H"

partial_function (option) bh_up :: "int \<Rightarrow> int list \<Rightarrow> int \<Rightarrow> (int list \<times> int) res option" where
  \<comment> \<open>the loop of \<open>Insert\<close>\<close>
  "bh_up X E i = (case aget E (i div 2) of None \<Rightarrow> Some (Inl BadAccess)
     | Some v \<Rightarrow>
        if v > X then
          (case aput E i v of None \<Rightarrow> Some (Inl BadAccess) | Some E' \<Rightarrow> bh_up X E' (i div 2))
        else Some (Inr (E, i)))"

definition bh_Insert :: "int \<Rightarrow> binheap \<Rightarrow> binheap res option" where
  "bh_Insert X H =
    (if bh_IsFull H then Some (Inl (FatalError ''Priority queue is full''))
     else
       let H = H\<lparr>bSize := bSize H + 1\<rparr> in
       Option.bind (bh_up X (bElements H) (bSize H)) (\<lambda>R.
         Some (bindr R (\<lambda>(E, i). case aput E i X of None \<Rightarrow> Inl BadAccess
           | Some E' \<Rightarrow> Inr (H\<lparr>bElements := E'\<rparr>)))))"

function bh_down :: "int \<Rightarrow> int \<Rightarrow> int list \<Rightarrow> int \<Rightarrow> (int list \<times> int) option" where
  \<comment> \<open>the loop of \<open>DeleteMin\<close>; \<open>n\<close> is \<open>H->Size\<close>. It starts at 1, so
    \<open>1 \<le> i\<close> always holds and only serves the termination proof.\<close>
  "bh_down Last n E i =
    do {
      c \<leftarrow> ck (i * 2);
      if 1 \<le> i \<and> c \<le> n then
        do {
          l \<leftarrow> aget E c;
          c \<leftarrow> (if c \<noteq> n then do { r \<leftarrow> aget E (c + 1); Some (if r < l then c + 1 else c) } else Some c);
          v \<leftarrow> aget E c;
          if Last > v then do { E' \<leftarrow> aput E i v; bh_down Last n E' c } else Some (E, i)
        }
      else Some (E, i)
    }"
  by auto
termination
  by (relation "measure (\<lambda>(x, n, E, i). nat (n - i + 1))")
    (auto simp: ck_Some_iff split: if_splits Option.bind_splits)

declare bh_down.simps [simp del]

definition bh_DeleteMin :: "binheap \<Rightarrow> (int \<times> binheap) res" where
  "bh_DeleteMin H =
    (if bh_IsEmpty H then Inl (FatalError ''Priority queue is empty'')
     else
       (case do {
          MinElement \<leftarrow> aget (bElements H) 1;
          LastElement \<leftarrow> aget (bElements H) (bSize H);
          (E, i) \<leftarrow> bh_down LastElement (bSize H - 1) (bElements H) 1;
          E' \<leftarrow> aput E i LastElement;
          Some (MinElement, H\<lparr>bSize := bSize H - 1, bElements := E'\<rparr>)
        } of None \<Rightarrow> Inl BadAccess | Some R \<Rightarrow> Inr R))"

definition bh_FindMin :: "binheap \<Rightarrow> int res" where
  "bh_FindMin H = (if \<not> bh_IsEmpty H
     then (case aget (bElements H) 1 of None \<Rightarrow> Inl BadAccess | Some x \<Rightarrow> Inr x)
     else Inl (FatalError ''Priority Queue is Empty''))"

definition bh_Destroy :: "binheap \<Rightarrow> binheap option" where
  \<comment> \<open>both blocks are freed; no heap is left\<close>
  "bh_Destroy H = None"

section \<open>Invariant\<close>

definition hp :: "int list \<Rightarrow> int \<Rightarrow> bool" where
  \<comment> \<open>every cell \<open>1..n\<close> is at least its parent; the parent of the root is the sentinel\<close>
  "hp E n \<longleftrightarrow> (\<forall>k. 1 \<le> k \<and> k \<le> n \<longrightarrow> elt E (k div 2) \<le> elt E k)"

definition bh_inv :: "binheap \<Rightarrow> bool" where
  \<comment> \<open>the bound on the capacity keeps the index \<open>i * 2\<close> of \<open>DeleteMin\<close> in range\<close>
  "bh_inv H \<longleftrightarrow> bCapacity H \<le> 2 ^ 30 \<and> 0 \<le> bSize H \<and> bSize H \<le> bCapacity H \<and> len (bElements H) = bCapacity H + 1 \<and>
     elt (bElements H) 0 = MinData \<and> hp (bElements H) (bSize H)"

definition bh_bag :: "binheap \<Rightarrow> int multiset" where
  "bh_bag H = mset (take (nat (bSize H)) (tl (bElements H)))"

text \<open>The first \<open>n + 1\<close> cells, sentinel included.\<close>

definition cells :: "int list \<Rightarrow> int \<Rightarrow> int multiset" where
  "cells E n = mset (take (nat (n + 1)) E)"

lemma cells_bag:
  assumes "0 \<le> n" "E \<noteq> []"
  shows "cells E n = add_mset (elt E 0) (mset (take (nat n) (tl E)))"
  using assms by (cases E) (auto simp: cells_def elt_def nat_add_distrib)

lemma cells_upd: "cells (upd E i v) n = mset (upd (take (nat (n + 1)) E) i v)"
  by (simp add: cells_def upd_def take_update_swap)

lemma elt_take: "0 \<le> j \<Longrightarrow> j \<le> n \<Longrightarrow> elt (take (nat (n + 1)) E) j = elt E j"
  by (auto simp: elt_def)

lemma inb_take: "0 \<le> j \<Longrightarrow> j \<le> n \<Longrightarrow> n < len E \<Longrightarrow> inb (take (nat (n + 1)) E) j"
  by (auto simp: inb_def)

text \<open>Moving the hole from \<open>j\<close> to \<open>i\<close> inside the first \<open>n + 1\<close> cells.\<close>

lemma cells_move_hole:
  assumes "0 \<le> i" "i \<le> n" "0 \<le> j" "j \<le> n" "n < len E"
  shows "cells (upd (upd E j (elt E i)) i X) n = cells (upd E j X) n"
  using mset_move_hole [of "take (nat (n + 1)) E" i j X] assms
  by (simp add: cells_upd inb_take elt_take) (simp add: cells_def upd_def take_update_swap)

section \<open>Insertion\<close>

text \<open>The invariant of the loop: a heap with a hole at \<open>i\<close> in which \<open>X\<close> fits from
  below.\<close>

definition up_hole :: "int list \<Rightarrow> int \<Rightarrow> int \<Rightarrow> int \<Rightarrow> bool" where
  "up_hole E n i X \<longleftrightarrow> 1 \<le> i \<and> i \<le> n \<and> n < len E \<and> elt E 0 \<le> X \<and>
    (\<forall>k. 1 \<le> k \<and> k \<le> n \<and> k \<noteq> i \<and> k div 2 \<noteq> i \<longrightarrow> elt E (k div 2) \<le> elt E k) \<and>
    (\<forall>k. 1 \<le> k \<and> k \<le> n \<and> k div 2 = i \<longrightarrow> X \<le> elt E k \<and> elt E (i div 2) \<le> elt E k)"

lemma up_hole_fill:
  assumes "up_hole E n i X" "elt E (i div 2) \<le> X"
  shows "hp (upd E i X) n"
  unfolding hp_def
proof (intro allI impI, elim conjE)
  fix k assume k: "1 \<le> k" "k \<le> n"
  have "i div 2 \<noteq> i" "0 \<le> i div 2" "0 \<le> k div 2" "k div 2 = k \<longrightarrow> False" "inb E i"
    using assms(1) k by (auto simp: up_hole_def)
  then show "elt (upd E i X) (k div 2) \<le> elt (upd E i X) k"
    using assms k by (auto simp: up_hole_def elt_upd)
qed

lemma up_hole_step:
  assumes u: "up_hole E n i X" and X: "elt E (i div 2) > X"
  shows "up_hole (upd E i (elt E (i div 2))) n (i div 2) X"
proof -
  let ?p = "i div 2" and ?E = "upd E i (elt E (i div 2))"
  have i: "1 \<le> i" "i \<le> n" "n < len E" "elt E 0 \<le> X" "inb E i" using u by (auto simp: up_hole_def)
  have "?p \<noteq> 0" using i(4) X by auto
  then have p: "1 \<le> ?p" "?p < i" using i(1) by auto
  have a: "elt E (k div 2) \<le> elt E k" if "1 \<le> k" "k \<le> n" "k \<noteq> i" "k div 2 \<noteq> i" for k
    using u that by (auto simp: up_hole_def)
  have b: "X \<le> elt E k" "elt E ?p \<le> elt E k" if "1 \<le> k" "k \<le> n" "k div 2 = i" for k
    using u that by (auto simp: up_hole_def)
  have pp: "?p div 2 \<noteq> i" "elt E (?p div 2) \<le> elt E ?p" using a [of ?p] p i by auto
  have e: "elt ?E k = (if k = i then elt E ?p else elt E k)" if "0 \<le> k" for k
    using elt_upd [OF i(5) that] by simp
  show ?thesis unfolding up_hole_def
  proof (intro conjI allI impI)
    fix k assume k: "1 \<le> k \<and> k \<le> n \<and> k \<noteq> ?p \<and> k div 2 \<noteq> ?p"
    then have "k \<noteq> i" by auto
    then show "elt ?E (k div 2) \<le> elt ?E k" using a [of k] b [of k] k by (auto simp: e)
  next
    fix k assume k: "1 \<le> k \<and> k \<le> n \<and> k div 2 = ?p"
    then have "k div 2 \<noteq> i" using p by auto
    then show "X \<le> elt ?E k" using a [of k] k X by (auto simp: e)
    show "elt ?E (?p div 2) \<le> elt ?E k" using a [of k] k X pp p \<open>k div 2 \<noteq> i\<close> by (auto simp: e)
  qed (use i p in \<open>auto simp: e\<close>)
qed

lemma bh_up_ok:
  "up_hole E n i X \<Longrightarrow> \<exists>E' j. bh_up X E i = Some (Inr (E', j)) \<and> up_hole E' n j X \<and>
     elt E' (j div 2) \<le> X \<and> length E' = length E \<and> elt E' 0 = elt E 0 \<and>
     cells (upd E' j X) n = cells (upd E i X) n"
proof (induction "nat i" arbitrary: E i rule: less_induct)
  case less
  have i: "1 \<le> i" "i \<le> n" "n < len E" "inb E i" "inb E (i div 2)"
    using less.prems by (auto simp: up_hole_def)
  show ?case
  proof (cases "elt E (i div 2) > X")
    case False
    then show ?thesis using less.prems i by (subst bh_up.simps) auto
  next
    case True
    let ?E = "upd E i (elt E (i div 2))"
    have "nat (i div 2) < nat i" using i by auto
    from less.hyps [OF this up_hole_step [OF less.prems True]]
    obtain E' j where *: "bh_up X ?E (i div 2) = Some (Inr (E', j))" "up_hole E' n j X"
        "elt E' (j div 2) \<le> X" "length E' = length ?E" "elt E' 0 = elt ?E 0"
        "cells (upd E' j X) n = cells (upd ?E (i div 2) X) n" by blast
    moreover have "cells (upd ?E (i div 2) X) n = cells (upd E i X) n"
      using i by (intro cells_move_hole) auto
    moreover have "bh_up X E i = bh_up X ?E (i div 2)"
      using True i by (subst bh_up.simps) simp
    ultimately show ?thesis using i by auto
  qed
qed

lemma hp_up_hole: "hp E n \<Longrightarrow> 0 \<le> n \<Longrightarrow> n + 1 < len E \<Longrightarrow> elt E 0 \<le> X \<Longrightarrow> up_hole E (n + 1) (n + 1) X"
  by (auto simp: hp_def up_hole_def)

lemma cells_new:
  assumes "0 \<le> n" "n + 1 < len E"
  shows "cells (upd E (n + 1) X) (n + 1) = add_mset X (cells E n)"
proof -
  have "nat (n + 1 + 1) = Suc (nat (n + 1))" "nat (n + 1) < length E" using assms by auto
  then show ?thesis by (simp add: cells_def upd_def take_Suc_conv_app_nth)
qed

lemma bh_Insert_ok:
  assumes "bh_inv H" "bSize H < bCapacity H" "MinData \<le> X"
  shows "\<exists>H'. bh_Insert X H = Some (Inr H') \<and> bh_inv H' \<and> bCapacity H' = bCapacity H \<and>
    bh_bag H' = add_mset X (bh_bag H)"
proof -
  let ?E = "bElements H" and ?n = "bSize H"
  have h: "0 \<le> ?n" "?n + 1 < len ?E" "elt ?E 0 = MinData" "hp ?E ?n" "?E \<noteq> []"
    using assms by (auto simp: bh_inv_def)
  obtain E' j where E': "bh_up X ?E (?n + 1) = Some (Inr (E', j))" "up_hole E' (?n + 1) j X"
      "elt E' (j div 2) \<le> X" "length E' = length ?E" "elt E' 0 = MinData"
      "cells (upd E' j X) (?n + 1) = cells (upd ?E (?n + 1) X) (?n + 1)"
    using bh_up_ok [OF hp_up_hole [OF h(4,1,2), of X]] assms(3) h(3) by auto
  have j: "1 \<le> j" "inb E' j" using E'(2) by (auto simp: up_hole_def)
  have "E' \<noteq> []" "upd E' j X \<noteq> []" using E'(4) h(5) by (auto simp: upd_def)
  moreover have "elt (upd E' j X) 0 = MinData" using E'(5) j by (auto simp: elt_upd)
  ultimately have "mset (take (nat (?n + 1)) (tl (upd E' j X))) = add_mset X (bh_bag H)"
    using E'(6) cells_new [OF h(1,2), of X] cells_bag [of ?n ?E] cells_bag [of "?n + 1" "upd E' j X"] h
    by (simp add: bh_bag_def)
  moreover have "hp (upd E' j X) (?n + 1)" by (rule up_hole_fill [OF E'(2,3)])
  ultimately show ?thesis using assms j E' \<open>elt (upd E' j X) 0 = MinData\<close>
    by (auto simp: bh_Insert_def bh_IsFull_def Let_def bh_inv_def bh_bag_def)
qed

section \<open>Deletion\<close>

text \<open>The invariant of the loop: a heap with a hole at \<open>i\<close> in which \<open>L\<close> fits from
  above.\<close>

definition down_hole :: "int list \<Rightarrow> int \<Rightarrow> int \<Rightarrow> int \<Rightarrow> bool" where
  "down_hole E n i L \<longleftrightarrow> 1 \<le> i \<and> (i \<le> n \<or> n = 0 \<and> i = 1) \<and> n + 1 < len E \<and> n < 2 ^ 30 \<and>
    elt E (i div 2) \<le> L \<and>
    (\<forall>k. 1 \<le> k \<and> k \<le> n \<and> k \<noteq> i \<and> k div 2 \<noteq> i \<longrightarrow> elt E (k div 2) \<le> elt E k) \<and>
    (\<forall>k. 1 \<le> k \<and> k \<le> n \<and> k div 2 = i \<longrightarrow> elt E (i div 2) \<le> elt E k)"

lemma down_hole_fill:
  assumes "down_hole E n i L" "\<And>k. 1 \<le> k \<Longrightarrow> k \<le> n \<Longrightarrow> k div 2 = i \<Longrightarrow> L \<le> elt E k"
  shows "hp (upd E i L) n"
  unfolding hp_def
proof (intro allI impI, elim conjE)
  fix k assume k: "1 \<le> k" "k \<le> n"
  have "i div 2 \<noteq> i" "0 \<le> i div 2" "0 \<le> k div 2" "k div 2 = k \<longrightarrow> False" "inb E i"
    using assms(1) k by (auto simp: down_hole_def)
  then show "elt (upd E i L) (k div 2) \<le> elt (upd E i L) k"
    using assms k by (auto simp: down_hole_def elt_upd)
qed

lemma down_hole_step:
  assumes u: "down_hole E n i L" and c: "c div 2 = i" "c \<le> n" "elt E c < L"
    and m: "\<And>k. k \<le> n \<Longrightarrow> k div 2 = i \<Longrightarrow> elt E c \<le> elt E k"
  shows "down_hole (upd E i (elt E c)) n c L"
proof -
  let ?E = "upd E i (elt E c)"
  have i: "1 \<le> i" "n + 1 < len E" "n < 2 ^ 30" "elt E (i div 2) \<le> L"
    using u by (auto simp: down_hole_def)
  have ci: "1 \<le> c" "i < c" "i div 2 \<noteq> i" "inb E i" using i c by auto
  have a: "elt E (k div 2) \<le> elt E k" if "1 \<le> k" "k \<le> n" "k \<noteq> i" "k div 2 \<noteq> i" for k
    using u that by (auto simp: down_hole_def)
  have b: "elt E (i div 2) \<le> elt E k" if "1 \<le> k" "k \<le> n" "k div 2 = i" for k
    using u that by (auto simp: down_hole_def)
  have e: "elt ?E k = (if k = i then elt E c else elt E k)" if "0 \<le> k" for k
    using elt_upd [OF ci(4) that] by simp
  show ?thesis unfolding down_hole_def
  proof (intro conjI allI impI)
    fix k assume k: "1 \<le> k \<and> k \<le> n \<and> k \<noteq> c \<and> k div 2 \<noteq> c"
    then show "elt ?E (k div 2) \<le> elt ?E k"
      using a [of k] b [of c] m [of k] c ci by (auto simp: e)
  next
    fix k assume k: "1 \<le> k \<and> k \<le> n \<and> k div 2 = c"
    then have "k \<noteq> i" using ci(2) by auto
    then show "elt ?E (c div 2) \<le> elt ?E k" using a [of k] k c ci by (auto simp: e)
  qed (use i c ci in \<open>auto simp: e\<close>)
qed

lemma half_cases: "(k::int) div 2 = i \<longleftrightarrow> k = i * 2 \<or> k = i * 2 + 1"
  by auto

lemma bh_down_ok:
  "down_hole E n i L \<Longrightarrow> \<exists>E' j. bh_down L n E i = Some (E', j) \<and> inb E' j \<and> 1 \<le> j \<and>
     hp (upd E' j L) n \<and> length E' = length E \<and> elt E' 0 = elt E 0 \<and>
     (n = 0 \<or> cells (upd E' j L) n = cells (upd E i L) n)"
proof (induction L n E i rule: bh_down.induct)
  case (1 L n E i)
  have i: "1 \<le> i" "i \<le> n \<or> n = 0 \<and> i = 1" "n + 1 < len E" "n < 2 ^ 30"
    using "1.prems" by (auto simp: down_hole_def)
  then have ck: "ck (i * 2) = Some (i * 2)" and ib: "inb E i" by auto
  show ?case
  proof (cases "i * 2 \<le> n")
    case False
    then have "hp (upd E i L) n" by (intro down_hole_fill [OF "1.prems"]) (auto simp: half_cases)
    with False show ?thesis using ck ib i(1) by (subst bh_down.simps) auto
  next
    case True
    define c where "c = (if i * 2 \<noteq> n \<and> elt E (i * 2 + 1) < elt E (i * 2) then i * 2 + 1 else i * 2)"
    have c: "c div 2 = i" "c \<le> n" "inb E c" "inb E (i * 2)" "i * 2 \<noteq> n \<longrightarrow> inb E (i * 2 + 1)"
      using True i by (auto simp: c_def)
    have n: "inb E n" using True i by auto
    have m: "elt E c \<le> elt E k" if "k \<le> n" "k div 2 = i" for k
      using that by (auto simp: half_cases c_def)
    have bd: "bh_down L n E i = (if elt E c < L then bh_down L n (upd E i (elt E c)) c else Some (E, i))"
      using True ck c(3-5) ib i(1) n by (subst bh_down.simps) (simp add: c_def)
    show ?thesis
    proof (cases "elt E c < L")
      case False
      then have "hp (upd E i L) n"
        using m by (intro down_hole_fill [OF "1.prems"]) force
      with False show ?thesis using bd ib i(1) by auto
    next
      case L: True
      have "\<exists>E' j. bh_down L n (upd E i (elt E c)) c = Some (E', j) \<and> inb E' j \<and> 1 \<le> j \<and>
        hp (upd E' j L) n \<and> length E' = length (upd E i (elt E c)) \<and>
        elt E' 0 = elt (upd E i (elt E c)) 0 \<and>
        (n = 0 \<or> cells (upd E' j L) n = cells (upd (upd E i (elt E c)) c L) n)"
        by (rule "1.IH" [OF ck _ _ _ _ L _ down_hole_step [OF "1.prems" c(1,2) L m]])
          (use True i(1) c(3-5) ib in \<open>auto simp: c_def\<close>)
      moreover have "cells (upd (upd E i (elt E c)) c L) n = cells (upd E i L) n"
        using i c(2,3) True by (intro cells_move_hole) (auto simp: inb_def)
      moreover have "elt (upd E i (elt E c)) 0 = elt E 0" using i(1) ib by (auto simp: elt_upd)
      ultimately show ?thesis using bd L by auto
    qed
  qed
qed

lemma hp_down_hole:
  assumes "hp E (n + 1)" "0 \<le> n" "n + 1 < len E" "n < 2 ^ 30" "\<And>k. 1 \<le> k \<Longrightarrow> k \<le> n + 1 \<Longrightarrow> elt E 0 \<le> elt E k"
  shows "down_hole E n 1 (elt E (n + 1))"
  using assms by (auto simp: hp_def down_hole_def)

lemma hp_sentinel_least: "hp E n \<Longrightarrow> 1 \<le> k \<Longrightarrow> k \<le> n \<Longrightarrow> elt E 0 \<le> elt E k"
proof (induction "nat k" arbitrary: k rule: less_induct)
  case less
  show ?case
  proof (cases "k = 1")
    case True
    then show ?thesis using less.prems by (force simp: hp_def)
  next
    case False
    then have "nat (k div 2) < nat k" "1 \<le> k div 2" "k div 2 \<le> n" using less.prems by auto
    from less.hyps [OF this(1) less.prems(1) this(2,3)] show ?thesis
      using less.prems by (force simp: hp_def)
  qed
qed

lemma hp_root_least: "hp E n \<Longrightarrow> 1 \<le> k \<Longrightarrow> k \<le> n \<Longrightarrow> elt E 1 \<le> elt E k"
proof (induction "nat k" arbitrary: k rule: less_induct)
  case less
  show ?case
  proof (cases "k = 1")
    case False
    then have "nat (k div 2) < nat k" "1 \<le> k div 2" "k div 2 \<le> n" using less.prems by auto
    from less.hyps [OF this(1) less.prems(1) this(2,3)] show ?thesis
      using less.prems by (force simp: hp_def)
  qed simp
qed

lemma in_bh_bag:
  assumes "bh_inv H"
  shows "x \<in># bh_bag H \<longleftrightarrow> (\<exists>k. 1 \<le> k \<and> k \<le> bSize H \<and> elt (bElements H) k = x)"
proof -
  let ?n = "nat (bSize H)" and ?E = "bElements H"
  have l: "length ?E = nat (bCapacity H) + 1" "?n \<le> nat (bCapacity H)" using assms by (auto simp: bh_inv_def)
  then have "?E \<noteq> []" by auto
  then have t: "tl ?E ! i = ?E ! Suc i" for i by (cases ?E) auto
  have "x \<in># bh_bag H \<longleftrightarrow> (\<exists>i < ?n. ?E ! Suc i = x)"
    using l by (auto simp: bh_bag_def in_set_conv_nth t)
  also have "\<dots> \<longleftrightarrow> (\<exists>k. 1 \<le> k \<and> k \<le> bSize H \<and> elt ?E k = x)"
  proof
    assume "\<exists>i < ?n. ?E ! Suc i = x"
    then obtain i where "i < ?n" "?E ! Suc i = x" by blast
    then show "\<exists>k. 1 \<le> k \<and> k \<le> bSize H \<and> elt ?E k = x"
      by (intro exI [of _ "int (Suc i)"]) (auto simp: elt_def nat_add_distrib)
  next
    assume "\<exists>k. 1 \<le> k \<and> k \<le> bSize H \<and> elt ?E k = x"
    then obtain k where "1 \<le> k" "k \<le> bSize H" "elt ?E k = x" by blast
    then show "\<exists>i < ?n. ?E ! Suc i = x"
      by (intro exI [of _ "nat (k - 1)"]) (auto simp: elt_def nat_diff_distrib Suc_diff_Suc)
  qed
  finally show ?thesis .
qed

lemma bh_bag_Min:
  assumes "bh_inv H" "bSize H \<noteq> 0"
  shows "Min_mset (bh_bag H) = elt (bElements H) 1"
proof (rule Min_eqI)
  have s: "1 \<le> bSize H" using assms by (auto simp: bh_inv_def)
  then show "elt (bElements H) 1 \<in># bh_bag H" using in_bh_bag [OF assms(1)] by auto
  fix y assume "y \<in># bh_bag H"
  then show "elt (bElements H) 1 \<le> y"
    using in_bh_bag [OF assms(1)] hp_root_least assms(1) by (auto simp: bh_inv_def)
qed simp

lemma size_bh_bag: "bh_inv H \<Longrightarrow> size (bh_bag H) = nat (bSize H)"
  by (auto simp: bh_inv_def bh_bag_def)

text \<open>Removing the last cell and putting its element in place of the root.\<close>

lemma cells_shrink:
  assumes "1 \<le> n" "n + 1 < len E"
  shows "add_mset (elt E 1) (cells (upd E 1 (elt E (n + 1))) n) = cells E (n + 1)"
proof -
  let ?A = "take (nat (n + 1 + 1)) E"
  have e: "nat (n + 1 + 1) = Suc (nat (n + 1))" "nat (n + 1) < length E" using assms by auto
  have "mset (upd (upd ?A 1 (elt ?A (n + 1))) (n + 1) (elt ?A 1)) = mset ?A"
    using assms by (intro mset_upd_upd) (auto simp: inb_def)
  moreover have "elt ?A (n + 1) = elt E (n + 1)" "elt ?A 1 = elt E 1"
    using elt_take [of "n + 1" "n + 1" E] elt_take [of 1 "n + 1" E] assms by auto
  ultimately have "cells (upd (upd E 1 (elt E (n + 1))) (n + 1) (elt E 1)) (n + 1) = cells E (n + 1)"
    by (simp add: cells_upd) (simp add: cells_def upd_def take_update_swap)
  then show ?thesis using cells_new [of n "upd E 1 (elt E (n + 1))" "elt E 1"] assms by simp
qed

lemma bh_DeleteMin_ok:
  assumes "bh_inv H" "bSize H \<noteq> 0"
  shows "\<exists>H'. bh_DeleteMin H = Inr (Min_mset (bh_bag H), H') \<and> bh_inv H' \<and>
    bCapacity H' = bCapacity H \<and> bh_bag H' = bh_bag H - {#Min_mset (bh_bag H)#}"
proof -
  let ?E = "bElements H"
  define n where "n = bSize H - 1"
  have h: "0 \<le> n" "n + 1 < len ?E" "elt ?E 0 = MinData" "hp ?E (n + 1)" "?E \<noteq> []" "n < 2 ^ 30"
    using assms by (auto simp: bh_inv_def n_def)
  have dh: "down_hole ?E n 1 (elt ?E (n + 1))"
    by (rule hp_down_hole [OF h(4,1,2,6)]) (rule hp_sentinel_least [OF h(4)])
  obtain E' j where E': "bh_down (elt ?E (n + 1)) n ?E 1 = Some (E', j)" "inb E' j" "1 \<le> j"
      "hp (upd E' j (elt ?E (n + 1))) n" "length E' = length ?E" "elt E' 0 = elt ?E 0"
      "n = 0 \<or> cells (upd E' j (elt ?E (n + 1))) n = cells (upd ?E 1 (elt ?E (n + 1))) n"
    using bh_down_ok [OF dh] by auto
  let ?B = "upd E' j (elt ?E (n + 1))"
  have B0: "elt ?B 0 = MinData" using E'(2,3,6) h(3) by (simp add: elt_upd)
  have B1: "?B \<noteq> []" using E'(5) h(5) by (auto simp: upd_def)
  have "add_mset (elt ?E 1) (mset (take (nat n) (tl ?B))) = bh_bag H"
  proof (cases "n = 0")
    case True
    then have "bSize H = 1" by (simp add: n_def)
    with True h show ?thesis
      by (cases ?E; cases "tl ?E") (auto simp: bh_bag_def elt_def)
  next
    case False
    then show ?thesis
      using E'(7) cells_shrink [of n ?E] h B0 B1 cells_bag [of n ?B] cells_bag [of "n + 1" ?E]
      by (auto simp: bh_bag_def n_def)
  qed
  then have "mset (take (nat n) (tl ?B)) = bh_bag H - {#elt ?E 1#}" by (metis add_mset_remove_trivial)
  moreover have "inb ?E 1" "inb ?E (n + 1)" "bSize H = n + 1" using h by (auto simp: n_def)
  ultimately show ?thesis using assms E' B0 bh_bag_Min [OF assms] h
    by (auto simp: bh_DeleteMin_def bh_IsEmpty_def bh_inv_def bh_bag_def)
qed

section \<open>The heap as a priority queue\<close>

definition bh_ins :: "int \<Rightarrow> binheap \<Rightarrow> binheap res" where
  \<comment> \<open>\<open>Insert\<close>, with \<open>BadAccess\<close> also for a call that does not return\<close>
  "bh_ins X H = (case bh_Insert X H of None \<Rightarrow> Inl BadAccess | Some R \<Rightarrow> R)"

definition bh_del :: "binheap \<Rightarrow> binheap res" where
  "bh_del H = bindr (bh_DeleteMin H) (\<lambda>(_, H'). Inr H')"

lemma bh_bag_empty_iff: "bh_inv H \<Longrightarrow> bh_bag H = {#} \<longleftrightarrow> bSize H = 0"
  using size_bh_bag [of H] size_eq_0_iff_empty [of "bh_bag H"] by (auto simp: bh_inv_def)

interpretation binheap: pqueue bh_IsEmpty bh_ins bh_FindMin bh_del bh_bag bh_inv
    "\<lambda>H. Some (nat (bCapacity H))" "\<lambda>x. MinData \<le> x"
proof unfold_locales
  fix q x assume q: "bh_inv q"
  show "bh_IsEmpty q \<longleftrightarrow> bh_bag q = {#}" using bh_bag_empty_iff [OF q] by (simp add: bh_IsEmpty_def)
  show "\<exists>q'. bh_ins x q = Inr q' \<and> bh_inv q' \<and>
      Some (nat (bCapacity q')) = Some (nat (bCapacity q)) \<and> bh_bag q' = add_mset x (bh_bag q)"
    if "MinData \<le> x" "fits (size (bh_bag q) + 1) (Some (nat (bCapacity q)))"
  proof -
    have "bSize q < bCapacity q" using q that(2) size_bh_bag [OF q] by (auto simp: bh_inv_def)
    then show ?thesis using bh_Insert_ok [OF q _ that(1)] by (auto simp: bh_ins_def)
  qed
  assume "bh_bag q \<noteq> {#}"
  then have n: "bSize q \<noteq> 0" using bh_bag_empty_iff [OF q] by simp
  then have "inb (bElements q) 1" using q by (auto simp: bh_inv_def)
  then show "bh_FindMin q = Inr (Min_mset (bh_bag q))"
    using n bh_bag_Min [OF q] by (simp add: bh_FindMin_def bh_IsEmpty_def)
  show "\<exists>q'. bh_del q = Inr q' \<and> bh_inv q' \<and> bh_bag q' = bh_bag q - {#Min_mset (bh_bag q)#}"
    using bh_DeleteMin_ok [OF q n] by (auto simp: bh_del_def)
qed

lemma bh_Initialize_ok:
  assumes "MinPQSize \<le> N" "N \<le> 2 ^ 30"
  shows "\<exists>H. bh_Initialize True True g N = Inr H \<and> bh_inv H \<and> bh_bag H = {#} \<and> bCapacity H = N"
proof -
  have "inb (malloc_cells g (N + 1)) 0" using assms by (auto simp: inb_def MinPQSize_def)
  then show ?thesis using assms
    by (auto simp: bh_Initialize_def bh_inv_def bh_bag_def hp_def MinPQSize_def)
qed

section \<open>Properties\<close>



text \<open>\<open>Insert\<close> and \<open>DeleteMin\<close> on every heap: a full or empty queue is
  reported; otherwise the heap order is kept, the element is added, and the minimum is returned
  and removed.\<close>

theorem BinHeap_Insert_DeleteMin:
  assumes "bh_inv H" "MinData \<le> X"
  shows "(if bSize H = bCapacity H then bh_Insert X H = Some (Inl (FatalError ''Priority queue is full''))
      else \<exists>H'. bh_Insert X H = Some (Inr H') \<and> bh_inv H' \<and> bh_bag H' = add_mset X (bh_bag H)) \<and>
    (if bSize H = 0 then bh_DeleteMin H = Inl (FatalError ''Priority queue is empty'')
      else \<exists>H'. bh_DeleteMin H = Inr (Min_mset (bh_bag H), H') \<and> bh_inv H' \<and>
        bh_bag H = add_mset (Min_mset (bh_bag H)) (bh_bag H'))"
proof -
  have "\<exists>H'. bh_Insert X H = Some (Inr H') \<and> bh_inv H' \<and> bh_bag H' = add_mset X (bh_bag H)"
    if "bSize H \<noteq> bCapacity H"
    using bh_Insert_ok [OF assms(1) _ assms(2)] that assms(1) by (force simp: bh_inv_def)
  moreover have "\<exists>H'. bh_DeleteMin H = Inr (Min_mset (bh_bag H), H') \<and> bh_inv H' \<and>
        bh_bag H = add_mset (Min_mset (bh_bag H)) (bh_bag H')" if "bSize H \<noteq> 0"
    using bh_DeleteMin_ok [OF assms(1) that] bh_bag_empty_iff [OF assms(1)] that
    by (auto simp: insert_DiffM)
  moreover have "bSize H = bCapacity H \<Longrightarrow> bh_Insert X H = Some (Inl (FatalError ''Priority queue is full''))"
    "bSize H = 0 \<Longrightarrow> bh_DeleteMin H = Inl (FatalError ''Priority queue is empty'')"
    by (simp_all add: bh_Insert_def bh_IsFull_def bh_DeleteMin_def bh_IsEmpty_def)
  ultimately show ?thesis by presburger
qed

theorem BinHeap_Insert_DeleteMin_witness:
  "bh_DeleteMin \<lparr>bCapacity = 2, bSize = 0, bElements = [- 32767, 0, 0]\<rparr> =
     Inl (FatalError ''Priority queue is empty'')"
  using BinHeap_Insert_DeleteMin [of "\<lparr>bCapacity = 2, bSize = 0, bElements = [- 32767, 0, 0]\<rparr>" 0]
  by (simp add: bh_inv_def hp_def elt_def MinData_def)

text \<open>An element below the sentinel makes \<open>Insert\<close> loop forever at cell 0.\<close>

lemma bh_up_Some: "bh_up X E i = Some R \<Longrightarrow> \<not> (i = 0 \<and> elt E 0 = MinData \<and> E \<noteq> [] \<and> X < MinData)"
proof (erule bh_up.raw_induct [rotated], rule notI)
  fix f :: "int \<Rightarrow> int list \<Rightarrow> int \<Rightarrow> (int list \<times> int) res option" and X E i y
  assume IH: "\<And>X E i y. f X E i = Some y \<Longrightarrow> \<not> (i = 0 \<and> elt E 0 = MinData \<and> E \<noteq> [] \<and> X < MinData)"
    and y: "(case aget E (i div 2) of None \<Rightarrow> Some (Inl BadAccess)
       | Some v \<Rightarrow> if X < v then (case aput E i v of None \<Rightarrow> Some (Inl BadAccess)
           | Some E' \<Rightarrow> f X E' (i div 2)) else Some (Inr (E, i))) = Some y"
    and z: "i = 0 \<and> elt E 0 = MinData \<and> E \<noteq> [] \<and> X < MinData"
  have "inb E 0" using z by (auto simp: inb_def)
  then have "f X (upd E 0 MinData) 0 = Some y" using y z by simp
  moreover have "elt (upd E 0 MinData) 0 = MinData" "upd E 0 MinData \<noteq> []"
    using \<open>inb E 0\<close> z by (auto simp: upd_def elt_def inb_def)
  ultimately show False using IH z by blast
qed

lemma bh_up_diverges: "X < MinData \<Longrightarrow> E \<noteq> [] \<Longrightarrow> elt E 0 = MinData \<Longrightarrow> bh_up X E 0 = None"
  using bh_up_Some [of X E 0] by (cases "bh_up X E 0") auto

end
