(* ===== verification/BinomialQueue.thy ===== *)
theory BinomialQueue
  imports PriorityQueue
begin

text \<open>
  \<^verbatim>\<open>src/DSAAC/binomial.c\<close>: binomial queues. A \<open>BinNode\<close> has a first child
  and a next sibling; a queue is the counter \<open>CurrentSize\<close> and the array
  \<open>TheTrees\<close> of \<open>MaxTrees\<close> slots, slot \<open>i\<close> being empty or a binomial
  tree of \<open>2^i\<close> nodes. \<open>Capacity\<close> is \<open>2^MaxTrees - 1\<close>, so the counters
  and the loop variable \<open>j\<close> stay below \<open>2^15\<close>.
\<close>

section \<open>State and operations\<close>

datatype bnode = BNil | BNode int bnode bnode
  \<comment> \<open>\<open>Element\<close>, \<open>LeftChild\<close>, \<open>NextSibling\<close>\<close>

record binqueue =
  CurrentSize :: int
  TheTrees :: "bnode list"

definition MaxTrees :: nat where "MaxTrees = 14"
definition Capacity :: int where "Capacity = 16383"
definition bq_Infinity :: int where "bq_Infinity = 30000"

definition bq_Initialize :: "bool \<Rightarrow> binqueue res" where
  "bq_Initialize ok = (if ok then Inr \<lparr>CurrentSize = 0, TheTrees = replicate MaxTrees BNil\<rparr>
     else Inl (FatalError ''Out of space!!!''))"

fun DestroyTree :: "bnode \<Rightarrow> int list" where
  \<comment> \<open>the nodes freed, in order\<close>
  "DestroyTree BNil = []"
| "DestroyTree (BNode x c s) = DestroyTree c @ DestroyTree s @ [x]"

definition bq_Destroy :: "binqueue \<Rightarrow> int list" where
  "bq_Destroy H = concat (map DestroyTree (TheTrees H))"

definition bq_MakeEmpty :: "binqueue \<Rightarrow> binqueue \<times> int list" where
  "bq_MakeEmpty H = (H\<lparr>TheTrees := replicate MaxTrees BNil, CurrentSize := 0\<rparr>, bq_Destroy H)"

definition bq_IsEmpty :: "binqueue \<Rightarrow> bool" where
  "bq_IsEmpty H \<longleftrightarrow> CurrentSize H = 0"

definition bq_IsFull :: "binqueue \<Rightarrow> bool" where
  "bq_IsFull H \<longleftrightarrow> CurrentSize H = Capacity"

function (sequential) CombineTrees :: "bnode \<Rightarrow> bnode \<Rightarrow> bnode res" where
  "CombineTrees (BNode x1 c1 s1) (BNode x2 c2 s2) =
    (if x1 > x2 then CombineTrees (BNode x2 c2 s2) (BNode x1 c1 s1)
     else Inr (BNode x1 (BNode x2 c2 c1) s1))"
| "CombineTrees _ _ = Inl NullDeref"
  by pat_completeness auto
termination
  by (relation "measure (\<lambda>(t1, t2). case (t1, t2) of
      (BNode x1 _ _, BNode x2 _ _) \<Rightarrow> if x1 > x2 then 1 else 0 | _ \<Rightarrow> 0)") auto

text \<open>The \<open>switch\<close> of \<open>Merge\<close> on which of \<open>T1\<close>, \<open>T2\<close>,
  \<open>Carry\<close> are there: the new \<open>H1->TheTrees[ i ]\<close>, \<open>H2->TheTrees[ i ]\<close>
  and \<open>Carry\<close>.\<close>

definition merge_switch :: "bnode \<Rightarrow> bnode \<Rightarrow> bnode \<Rightarrow> (bnode \<times> bnode \<times> bnode) res" where
  "merge_switch T1 T2 Carry =
    (case (T1 \<noteq> BNil, T2 \<noteq> BNil, Carry \<noteq> BNil) of
       (False, False, False) \<Rightarrow> Inr (T1, T2, Carry)
     | (True, False, False) \<Rightarrow> Inr (T1, T2, Carry)
     | (False, True, False) \<Rightarrow> Inr (T2, BNil, Carry)
     | (False, False, True) \<Rightarrow> Inr (Carry, T2, BNil)
     | (True, True, False) \<Rightarrow> bindr (CombineTrees T1 T2) (\<lambda>c. Inr (BNil, BNil, c))
     | (True, False, True) \<Rightarrow> bindr (CombineTrees T1 Carry) (\<lambda>c. Inr (BNil, T2, c))
     | (False, True, True) \<Rightarrow> bindr (CombineTrees T2 Carry) (\<lambda>c. Inr (T1, BNil, c))
     | (True, True, True) \<Rightarrow> bindr (CombineTrees T1 T2) (\<lambda>c. Inr (Carry, BNil, c)))"

function merge_loop :: "int \<Rightarrow> nat \<Rightarrow> int \<Rightarrow> bnode list \<Rightarrow> bnode list \<Rightarrow> bnode \<Rightarrow> bnode list res" where
  \<comment> \<open>\<open>N\<close> is \<open>H1->CurrentSize\<close>; \<open>j\<close> starts at 1\<close>
  "merge_loop N i j Ts1 Ts2 Carry =
    (if 1 \<le> j \<and> j \<le> N then
       if i < length Ts1 \<and> i < length Ts2 then
         bindr (merge_switch (Ts1 ! i) (Ts2 ! i) Carry) (\<lambda>(t1, t2, c).
           merge_loop N (i + 1) (j * 2) (Ts1[i := t1]) (Ts2[i := t2]) c)
       else Inl BadAccess
     else Inr Ts1)"
  by auto
termination
  by (relation "measure (\<lambda>(N, i, j, _). nat (N - j + 1))") auto

declare merge_loop.simps [simp del]

definition bq_Merge :: "binqueue \<Rightarrow> binqueue \<Rightarrow> binqueue res" where
  "bq_Merge H1 H2 =
    (if CurrentSize H1 + CurrentSize H2 > Capacity then Inl (FatalError ''Merge would exceed capacity'')
     else
       let N = CurrentSize H1 + CurrentSize H2 in
       bindr (merge_loop N 0 1 (TheTrees H1) (TheTrees H2) BNil) (\<lambda>Ts.
         Inr (H1\<lparr>CurrentSize := N, TheTrees := Ts\<rparr>)))"

definition bq_Insert :: "bool \<Rightarrow> bool \<Rightarrow> int \<Rightarrow> binqueue \<Rightarrow> binqueue res" where
  "bq_Insert ok1 ok2 Item H =
    (if \<not> ok1 then Inl (FatalError ''Out of space!!!'')
     else bindr (bq_Initialize ok2) (\<lambda>OneItem.
       bq_Merge H (OneItem\<lparr>CurrentSize := 1, TheTrees := (TheTrees OneItem)[0 := BNode Item BNil BNil]\<rparr>)))"

fun find_min :: "bnode list \<Rightarrow> nat \<Rightarrow> int \<Rightarrow> nat option \<Rightarrow> int \<times> nat option" where
  \<comment> \<open>the loop over the slots from \<open>i\<close> on: \<open>MinItem\<close> and \<open>MinTree\<close>, the
    latter \<open>None\<close> while it is uninitialised\<close>
  "find_min [] i MinItem MinTree = (MinItem, MinTree)"
| "find_min (BNil # ts) i MinItem MinTree = find_min ts (i + 1) MinItem MinTree"
| "find_min (BNode x c s # ts) i MinItem MinTree =
    (if x < MinItem then find_min ts (i + 1) x (Some i) else find_min ts (i + 1) MinItem MinTree)"

fun split_children :: "nat \<Rightarrow> bnode \<Rightarrow> bnode list \<Rightarrow> bnode list res" where
  \<comment> \<open>the loop of \<open>DeleteMin\<close> over \<open>j = n - 1, ..., 0\<close>\<close>
  "split_children 0 T Ts = Inr Ts"
| "split_children (Suc j) T Ts =
    (if j < length Ts
     then (case T of BNil \<Rightarrow> Inl NullDeref
       | BNode x c s \<Rightarrow> split_children j s (Ts[j := BNode x c BNil]))
     else Inl BadAccess)"

definition bq_DeleteMin :: "bool \<Rightarrow> binqueue \<Rightarrow> (int \<times> binqueue) res" where
  "bq_DeleteMin ok H =
    (if bq_IsEmpty H then Inl (FatalError ''Empty binomial queue'')
     else
       (case find_min (TheTrees H) 0 bq_Infinity None of
          (_, None) \<Rightarrow> Inl Uninitialised
        | (MinItem, Some MinTree) \<Rightarrow>
           (case TheTrees H ! MinTree of
              BNil \<Rightarrow> Inl NullDeref
            | BNode _ c _ \<Rightarrow>
               bindr (bq_Initialize ok) (\<lambda>Q.
                 bindr (split_children MinTree c (TheTrees Q)) (\<lambda>Ts.
                   let Q = Q\<lparr>CurrentSize := 2 ^ MinTree - 1, TheTrees := Ts\<rparr>;
                       H = H\<lparr>TheTrees := (TheTrees H)[MinTree := BNil],
                             CurrentSize := CurrentSize H - (CurrentSize Q + 1)\<rparr>
                   in bindr (bq_Merge H Q) (\<lambda>H. Inr (MinItem, H)))))))"

definition bq_FindMin :: "binqueue \<Rightarrow> int res" where
  "bq_FindMin H = (if bq_IsEmpty H then Inl (FatalError ''Empty binomial queue'')
     else Inr (fst (find_min (TheTrees H) 0 bq_Infinity None)))"

section \<open>Invariant\<close>

fun kids :: "nat \<Rightarrow> bnode \<Rightarrow> bool" where
  \<comment> \<open>a chain of siblings of ranks \<open>k - 1, ..., 0\<close>: the children of a tree of rank \<open>k\<close>\<close>
  "kids 0 t = (t = BNil)"
| "kids (Suc k) BNil = False"
| "kids (Suc k) (BNode x c s) = (kids k c \<and> kids k s)"

fun bagn :: "bnode \<Rightarrow> int multiset" where
  "bagn BNil = {#}"
| "bagn (BNode x c s) = add_mset x (bagn c + bagn s)"

fun hord :: "bnode \<Rightarrow> bool" where
  "hord BNil = True"
| "hord (BNode x c s) = ((\<forall>y \<in># bagn c. x \<le> y) \<and> hord c \<and> hord s)"

fun btree :: "nat \<Rightarrow> bnode \<Rightarrow> bool" where
  "btree k (BNode x c BNil) = (kids k c \<and> hord (BNode x c BNil))"
| "btree k _ = False"

definition slots :: "bnode list \<Rightarrow> bool" where
  "slots Ts \<longleftrightarrow> length Ts = MaxTrees \<and> (\<forall>i < MaxTrees. Ts ! i = BNil \<or> btree i (Ts ! i))"

definition qbag :: "bnode list \<Rightarrow> int multiset" where
  "qbag Ts = sum_list (map bagn Ts)"

definition bq_inv :: "binqueue \<Rightarrow> bool" where
  "bq_inv H \<longleftrightarrow> slots (TheTrees H) \<and> CurrentSize H = int (size (qbag (TheTrees H))) \<and>
     (\<forall>x \<in># qbag (TheTrees H). x < bq_Infinity)"

abbreviation bq_bag :: "binqueue \<Rightarrow> int multiset" where
  "bq_bag H \<equiv> qbag (TheTrees H)"

lemma kids_size: "kids k t \<Longrightarrow> size (bagn t) + 1 = 2 ^ k"
proof (induction k t rule: kids.induct)
  case (3 k x c s)
  then have "size (bagn c) + 1 = 2 ^ k" "size (bagn s) + 1 = 2 ^ k" by auto
  then show ?case by simp
qed auto

lemma btree_size: "btree k t \<Longrightarrow> size (bagn t) = 2 ^ k"
proof (induction k t rule: btree.induct)
  case (1 k x c)
  then show ?case using kids_size [of k c] by simp
qed auto

lemma btreeE: "btree k t \<Longrightarrow> (\<And>x c. t = BNode x c BNil \<Longrightarrow> kids k c \<Longrightarrow> hord t \<Longrightarrow> P) \<Longrightarrow> P"
  by (induction k t rule: btree.induct) auto

lemma combine_ok:
  assumes "btree k t1" "btree k t2"
  shows "\<exists>t. CombineTrees t1 t2 = Inr t \<and> btree (Suc k) t \<and> bagn t = bagn t1 + bagn t2"
proof -
  obtain x1 c1 x2 c2 where t: "t1 = BNode x1 c1 BNil" "kids k c1" "hord t1"
      "t2 = BNode x2 c2 BNil" "kids k c2" "hord t2"
    using assms by (auto elim!: btreeE)
  then show ?thesis by (cases "x1 > x2") (auto intro: order_trans less_imp_le)
qed

lemma qbag_update:
  "i < length Ts \<Longrightarrow> qbag (Ts[i := t]) + bagn (Ts ! i) = qbag Ts + bagn t"
  unfolding qbag_def by (induction Ts arbitrary: i) (auto split: nat.splits simp: ac_simps)

lemma qbag_slot: "i < length Ts \<Longrightarrow> bagn (Ts ! i) \<subseteq># qbag Ts"
  unfolding qbag_def
  by (induction Ts arbitrary: i) (auto simp: nth_Cons subset_mset.add_increasing split: nat.splits)

lemma qbag_empty: "(\<And>k. k < length Ts \<Longrightarrow> Ts ! k = BNil) \<Longrightarrow> qbag Ts = {#}"
proof -
  assume "\<And>k. k < length Ts \<Longrightarrow> Ts ! k = BNil"
  then have "\<forall>t \<in> set Ts. bagn t = {#}" by (auto simp: in_set_conv_nth)
  then show ?thesis unfolding qbag_def by (induction Ts) auto
qed

lemma in_qbag: "x \<in># qbag Ts \<longleftrightarrow> (\<exists>i < length Ts. x \<in># bagn (Ts ! i))"
proof -
  have "x \<in># qbag Ts \<longleftrightarrow> (\<exists>t \<in> set Ts. x \<in># bagn t)"
    unfolding qbag_def by (induction Ts) auto
  then show ?thesis by (metis in_set_conv_nth)
qed

section \<open>Merging\<close>

lemma switch_ok:
  assumes "T1 = BNil \<or> btree k T1" "T2 = BNil \<or> btree k T2" "C = BNil \<or> btree k C"
  shows "\<exists>t1 c. merge_switch T1 T2 C = Inr (t1, BNil, c) \<and> (t1 = BNil \<or> btree k t1) \<and>
    (c = BNil \<or> btree (Suc k) c) \<and> bagn t1 + bagn c = bagn T1 + bagn T2 + bagn C"
proof (cases "T1 = BNil"; cases "T2 = BNil"; cases "C = BNil")
  assume "T1 = BNil" "T2 \<noteq> BNil" "C \<noteq> BNil"
  then show ?thesis using combine_ok [of k T2 C] assms by (auto simp: merge_switch_def)
next
  assume "T1 \<noteq> BNil" "T2 = BNil" "C \<noteq> BNil"
  then show ?thesis using combine_ok [of k T1 C] assms by (auto simp: merge_switch_def)
next
  assume "T1 \<noteq> BNil" "T2 \<noteq> BNil" "C = BNil"
  then show ?thesis using combine_ok [of k T1 T2] assms by (auto simp: merge_switch_def)
next
  assume "T1 \<noteq> BNil" "T2 \<noteq> BNil" "C \<noteq> BNil"
  then show ?thesis using combine_ok [of k T1 T2] assms by (auto simp: merge_switch_def ac_simps)
qed (use assms in \<open>auto simp: merge_switch_def\<close>)

lemma slots_update: "slots Ts \<Longrightarrow> t = BNil \<or> btree i t \<Longrightarrow> slots (Ts[i := t])"
  by (cases "i < length Ts") (auto simp: slots_def nth_list_update)

lemma merge_loop_ok:
  assumes "slots Ts1" "slots Ts2" "C = BNil \<or> btree i C" "\<And>k. k < i \<Longrightarrow> Ts2 ! k = BNil" "i \<le> MaxTrees"
    and "N = int (size (qbag Ts1 + qbag Ts2 + bagn C))" "N \<le> Capacity"
  shows "\<exists>Ts. merge_loop N i (2 ^ i) Ts1 Ts2 C = Inr Ts \<and> slots Ts \<and>
    qbag Ts = qbag Ts1 + qbag Ts2 + bagn C"
  using assms
proof (induction "MaxTrees - i" arbitrary: i Ts1 Ts2 C rule: less_induct)
  case less
  show ?case
  proof (cases "2 ^ i \<le> N")
    case True
    have "(2::int) ^ i < 2 ^ MaxTrees" using True less.prems(7) by (simp add: MaxTrees_def Capacity_def)
    then have i: "i < MaxTrees" by simp
    then have s: "Ts1 ! i = BNil \<or> btree i (Ts1 ! i)" "Ts2 ! i = BNil \<or> btree i (Ts2 ! i)"
        "i < length Ts1" "i < length Ts2"
      using less.prems(1,2) by (auto simp: slots_def)
    obtain t1 c where t: "merge_switch (Ts1 ! i) (Ts2 ! i) C = Inr (t1, BNil, c)"
        "t1 = BNil \<or> btree i t1" "c = BNil \<or> btree (Suc i) c"
        "bagn t1 + bagn c = bagn (Ts1 ! i) + bagn (Ts2 ! i) + bagn C"
      using switch_ok [OF s(1,2) less.prems(3)] by blast
    let ?A = "Ts1[i := t1]" and ?B = "Ts2[i := BNil]"
    have b: "qbag ?A + qbag ?B + bagn c = qbag Ts1 + qbag Ts2 + bagn C"
    proof -
      have "qbag ?A + bagn (Ts1 ! i) + (qbag ?B + bagn (Ts2 ! i)) + bagn c =
          qbag Ts1 + qbag Ts2 + (bagn t1 + bagn c)"
        using qbag_update [OF s(3), of t1] qbag_update [OF s(4), of BNil] by simp
      then show ?thesis unfolding t(4) by (simp add: ac_simps)
    qed
    have "\<exists>Ts. merge_loop N (Suc i) (2 ^ Suc i) ?A ?B c = Inr Ts \<and> slots Ts \<and>
        qbag Ts = qbag ?A + qbag ?B + bagn c"
    proof (rule less.hyps)
      show "?B ! k = BNil" if "k < Suc i" for k
        using less.prems(4) that s(4) by (cases "k = i") auto
    qed (use i b t less.prems slots_update in auto)
    then show ?thesis using True s t(1) b by (subst merge_loop.simps) (simp add: mult.commute)
  next
    case False
    then have small: "size (qbag Ts1 + qbag Ts2 + bagn C) < 2 ^ i"
      using less.prems(6) by (metis of_nat_less_iff of_nat_numeral of_nat_power not_le)
    have "C = BNil" using less.prems(3) small btree_size [of i C] by auto
    moreover have "qbag Ts2 = {#}"
    proof (rule qbag_empty, rule ccontr)
      fix k assume k: "k < length Ts2" "Ts2 ! k \<noteq> BNil"
      then have "i \<le> k" "btree k (Ts2 ! k)" using less.prems(2,4) by (fastforce simp: slots_def not_less [symmetric])+
      then have "2 ^ i \<le> size (bagn (Ts2 ! k))" by (simp add: btree_size)
      also have "\<dots> \<le> size (qbag Ts2)" using qbag_slot [OF k(1)] by (rule size_mset_mono)
      finally show False using small by simp
    qed
    ultimately show ?thesis using False less.prems(1) by (subst merge_loop.simps) simp
  qed
qed

lemma bq_Merge_ok:
  assumes "bq_inv H1" "bq_inv H2" "CurrentSize H1 + CurrentSize H2 \<le> Capacity"
  shows "\<exists>H. bq_Merge H1 H2 = Inr H \<and> bq_inv H \<and> bq_bag H = bq_bag H1 + bq_bag H2"
proof -
  let ?N = "CurrentSize H1 + CurrentSize H2"
  have "\<exists>Ts. merge_loop ?N 0 (2 ^ 0) (TheTrees H1) (TheTrees H2) BNil = Inr Ts \<and> slots Ts \<and>
      qbag Ts = bq_bag H1 + bq_bag H2 + bagn BNil"
    by (rule merge_loop_ok) (use assms in \<open>auto simp: bq_inv_def\<close>)
  then show ?thesis using assms by (auto simp: bq_Merge_def bq_inv_def)
qed

section \<open>Insertion\<close>

lemma slots_empty: "slots (replicate MaxTrees BNil)" "qbag (replicate MaxTrees BNil) = {#}"
  by (auto simp: slots_def intro!: qbag_empty)

lemma bq_Initialize_ok: "bq_Initialize True = Inr \<lparr>CurrentSize = 0, TheTrees = replicate MaxTrees BNil\<rparr>"
  "bq_inv \<lparr>CurrentSize = 0, TheTrees = replicate MaxTrees BNil\<rparr>"
  by (auto simp: bq_Initialize_def bq_inv_def slots_empty)

lemma bq_Insert_ok:
  assumes "bq_inv H" "CurrentSize H < Capacity" "x < bq_Infinity"
  shows "\<exists>H'. bq_Insert True True x H = Inr H' \<and> bq_inv H' \<and> bq_bag H' = add_mset x (bq_bag H)"
proof -
  let ?Ts = "(replicate MaxTrees BNil)[0 := BNode x BNil BNil]"
  have "qbag ?Ts = {#x#}"
    using qbag_update [of 0 "replicate MaxTrees BNil" "BNode x BNil BNil"]
    by (simp add: slots_empty) (simp add: MaxTrees_def)
  then have "bq_inv \<lparr>CurrentSize = 1, TheTrees = ?Ts\<rparr>"
    using slots_update [OF slots_empty(1), of "BNode x BNil BNil" 0] assms(3)
    by (auto simp: bq_inv_def)
  from bq_Merge_ok [OF assms(1) this] show ?thesis
    using assms(2) \<open>qbag ?Ts = {#x#}\<close> by (auto simp: bq_Insert_def bq_Initialize_ok(1))
qed

section \<open>Minimum\<close>

definition hit :: "bnode list \<Rightarrow> nat \<Rightarrow> int \<Rightarrow> nat option \<Rightarrow> bool" where
  "hit Ts i m mt \<longleftrightarrow> (\<exists>k c s. mt = Some (i + k) \<and> k < length Ts \<and> Ts ! k = BNode m c s)"

lemma hit_Cons: "hit Ts (i + 1) m mt \<Longrightarrow> hit (t # Ts) i m mt"
  unfolding hit_def by (metis Suc_eq_plus1 add.assoc add.commute length_Cons not_less_eq nth_Cons_Suc)

lemma hit_here: "hit (BNode m c s # Ts) i m (Some i)"
  unfolding hit_def by (intro exI [of _ 0]) simp

lemma find_min_least:
  "find_min Ts i m mt = (m', mt') \<Longrightarrow> m' \<le> m \<and> (\<forall>x c s. BNode x c s \<in> set Ts \<longrightarrow> m' \<le> x)"
  by (induction Ts i m mt rule: find_min.induct) (fastforce split: if_splits)+

lemma find_min_hit:
  "find_min Ts i m mt = (m', mt') \<Longrightarrow> m' = m \<and> mt' = mt \<or> m' < m \<and> hit Ts i m' mt'"
proof (induction Ts i m mt rule: find_min.induct)
  case (3 x c s Ts i m mt)
  then show ?case by (cases "x < m") (auto intro: hit_Cons hit_here)
qed (auto intro: hit_Cons)

lemma btree_root_le: "btree k (BNode x c s) \<Longrightarrow> y \<in># bagn (BNode x c s) \<Longrightarrow> x \<le> y"
  by (erule btreeE) auto

lemma bq_find_min:
  assumes "bq_inv H" "bq_bag H \<noteq> {#}"
  obtains k c where "find_min (TheTrees H) 0 bq_Infinity None = (Min_mset (bq_bag H), Some k)"
    "k < MaxTrees" "TheTrees H ! k = BNode (Min_mset (bq_bag H)) c BNil"
    "btree k (BNode (Min_mset (bq_bag H)) c BNil)"
proof -
  let ?Ts = "TheTrees H"
  have s: "slots ?Ts" and l: "length ?Ts = MaxTrees" and inf: "\<forall>x \<in># bq_bag H. x < bq_Infinity"
    using assms(1) by (auto simp: bq_inv_def slots_def)
  obtain m mt where f: "find_min ?Ts 0 bq_Infinity None = (m, mt)" by fastforce
  note fm = find_min_least [OF f] find_min_hit [OF f]
  have least: "m \<le> y" if y: "y \<in># bq_bag H" for y
  proof -
    obtain i where i: "i < MaxTrees" "y \<in># bagn (?Ts ! i)" using y l by (auto simp: in_qbag)
    then obtain x c' s' where n: "?Ts ! i = BNode x c' s'" by (cases "?Ts ! i") auto
    then have "x \<le> y" using s i btree_root_le [of i x c' s' y] by (auto simp: slots_def)
    moreover have "BNode x c' s' \<in> set ?Ts" using n i l by (metis nth_mem)
    ultimately show ?thesis using fm by (meson order_trans)
  qed
  obtain y where "y \<in># bq_bag H" using assms(2) by (meson multiset_nonemptyE)
  then have "m \<noteq> bq_Infinity" using least inf by fastforce
  then obtain k c s' where k: "mt = Some k" "k < MaxTrees" "?Ts ! k = BNode m c s'"
    using fm l by (auto simp: hit_def)
  then have bt: "btree k (BNode m c s')" using s by (auto simp: slots_def)
  then have "s' = BNil" by (auto elim: btreeE)
  moreover have "m \<in># bq_bag H" using k l by (auto simp: in_qbag intro!: exI [of _ k])
  then have "Min_mset (bq_bag H) = m" using least by (intro Min_eqI) auto
  ultimately show thesis using that f k bt by simp
qed

lemma split_children_ok:
  "kids k c \<Longrightarrow> hord c \<Longrightarrow> k \<le> length Ts \<Longrightarrow> (\<And>i. i < k \<Longrightarrow> Ts ! i = BNil) \<Longrightarrow>
     \<exists>Ts'. split_children k c Ts = Inr Ts' \<and> length Ts' = length Ts \<and> (\<forall>i < k. btree i (Ts' ! i)) \<and>
       (\<forall>i. k \<le> i \<longrightarrow> Ts' ! i = Ts ! i) \<and> qbag Ts' = qbag Ts + bagn c"
proof (induction k arbitrary: c Ts)
  case (Suc k)
  then obtain x d s where c: "c = BNode x d s" "kids k d" "kids k s" by (cases c) auto
  let ?Ts = "Ts[k := BNode x d BNil]"
  have q: "qbag ?Ts = qbag Ts + bagn (BNode x d BNil)"
    using qbag_update [of k Ts "BNode x d BNil"] Suc.prems(3,4) by simp
  have "\<exists>Ts'. split_children k s ?Ts = Inr Ts' \<and> length Ts' = length ?Ts \<and> (\<forall>i < k. btree i (Ts' ! i)) \<and>
       (\<forall>i. k \<le> i \<longrightarrow> Ts' ! i = ?Ts ! i) \<and> qbag Ts' = qbag ?Ts + bagn s"
    by (rule Suc.IH) (use c Suc.prems in auto)
  then obtain Ts' where "split_children k s ?Ts = Inr Ts'" "length Ts' = length Ts"
      "\<forall>i < k. btree i (Ts' ! i)" "\<forall>i. k \<le> i \<longrightarrow> Ts' ! i = ?Ts ! i" "qbag Ts' = qbag ?Ts + bagn s" by auto
  then show ?case using c q Suc.prems(2,3)
    by (auto simp: less_Suc_eq ac_simps nth_list_update)
qed simp

lemma bq_DeleteMin_ok:
  assumes "bq_inv H" "bq_bag H \<noteq> {#}" "CurrentSize H \<le> Capacity"
  shows "\<exists>H'. bq_DeleteMin True H = Inr (Min_mset (bq_bag H), H') \<and> bq_inv H' \<and>
    bq_bag H = add_mset (Min_mset (bq_bag H)) (bq_bag H')"
proof -
  let ?m = "Min_mset (bq_bag H)" and ?Ts = "TheTrees H" and ?E = "replicate MaxTrees BNil"
  obtain k c where k: "find_min ?Ts 0 bq_Infinity None = (?m, Some k)" "k < MaxTrees"
      "?Ts ! k = BNode ?m c BNil" "btree k (BNode ?m c BNil)"
    using bq_find_min [OF assms(1,2)] by blast
  then have c: "kids k c" "hord c" by auto
  obtain Ds where D: "split_children k c ?E = Inr Ds" "length Ds = MaxTrees"
      "\<forall>i < k. btree i (Ds ! i)" "\<forall>i. k \<le> i \<longrightarrow> Ds ! i = ?E ! i" "qbag Ds = bagn c"
    using split_children_ok [OF c, of ?E] k(2) by (auto simp: slots_empty)
  have sz: "size (bagn c) + 1 = 2 ^ k" by (rule kids_size [OF c(1)])
  let ?Q = "\<lparr>CurrentSize = 2 ^ k - 1, TheTrees = Ds\<rparr>"
  let ?H = "H\<lparr>TheTrees := ?Ts[k := BNil], CurrentSize := CurrentSize H - 2 ^ k\<rparr>"
  have l: "length ?Ts = MaxTrees" using assms(1) by (auto simp: bq_inv_def slots_def)
  have bag: "bq_bag H = qbag (?Ts[k := BNil]) + add_mset ?m (bagn c)"
    using qbag_update [of k ?Ts BNil] k l by simp
  have S: "set_mset (bq_bag H) = insert ?m (set_mset (qbag (?Ts[k := BNil])) \<union> set_mset (bagn c))"
    by (subst bag) simp
  have "\<forall>x \<in># bq_bag H. x < bq_Infinity" using assms(1) by (simp add: bq_inv_def)
  then have inf: "\<forall>x \<in># bagn c. x < bq_Infinity" "\<forall>x \<in># qbag (?Ts[k := BNil]). x < bq_Infinity"
    using S by blast+
  have szH: "size (bq_bag H) = size (qbag (?Ts[k := BNil])) + 2 ^ k"
    by (subst bag) (simp flip: sz)
  have "int (size (bagn c)) = 2 ^ k - 1" using sz by (metis add_diff_cancel_right' of_nat_1 of_nat_add of_nat_numeral of_nat_power)
  moreover have "slots Ds" using D k(2) by (auto simp: slots_def) (metis linorder_not_le nth_replicate)
  ultimately have Q: "bq_inv ?Q" using D(5) inf(1) by (simp add: bq_inv_def)
  have H: "bq_inv ?H"
    using assms(1) slots_update [of ?Ts BNil k] szH inf(2) by (simp add: bq_inv_def)
  have "CurrentSize ?H + CurrentSize ?Q \<le> Capacity" using assms(3) by simp
  from bq_Merge_ok [OF H Q this] obtain H' where H':
    "bq_Merge ?H ?Q = Inr H'" "bq_inv H'" "bq_bag H' = qbag (?Ts[k := BNil]) + qbag Ds" by auto
  moreover have "CurrentSize H \<noteq> 0" using assms(1,2) by (simp add: bq_inv_def)
  moreover have "bq_bag H = add_mset ?m (bq_bag H')" by (subst bag) (simp add: D(5) H'(3))
  ultimately show ?thesis using k D
    by (simp add: bq_DeleteMin_def bq_IsEmpty_def bq_Initialize_ok(1) Let_def)
qed

section \<open>The binomial queue as a priority queue\<close>

definition bq_del :: "binqueue \<Rightarrow> binqueue res" where
  "bq_del H = bindr (bq_DeleteMin True H) (\<lambda>(_, H'). Inr H')"

definition bq_ok :: "binqueue \<Rightarrow> bool" where
  "bq_ok H \<longleftrightarrow> bq_inv H \<and> CurrentSize H \<le> Capacity"

lemma bq_size: "bq_inv H \<Longrightarrow> CurrentSize H = int (size (bq_bag H))"
  by (simp add: bq_inv_def)

interpretation binqueue: pqueue_merge bq_IsEmpty "bq_Insert True True" bq_FindMin bq_del bq_bag bq_ok
    "\<lambda>_. Some (nat Capacity)" "\<lambda>x. x < bq_Infinity" bq_Merge
proof unfold_locales
  fix q q2 x assume q: "bq_ok q"
  show "bq_IsEmpty q \<longleftrightarrow> bq_bag q = {#}" using q by (simp add: bq_IsEmpty_def bq_ok_def bq_size)
  show "\<exists>q'. bq_Insert True True x q = Inr q' \<and> bq_ok q' \<and>
      Some (nat Capacity) = Some (nat Capacity) \<and> bq_bag q' = add_mset x (bq_bag q)"
    if "x < bq_Infinity" "fits (size (bq_bag q) + 1) (Some (nat Capacity))"
    using q that bq_Insert_ok [of q x] by (auto simp: bq_ok_def bq_size Capacity_def)
  show "\<exists>q'. bq_Merge q q2 = Inr q' \<and> bq_ok q' \<and> bq_bag q' = bq_bag q + bq_bag q2"
    if "bq_ok q2" "fits (size (bq_bag q) + size (bq_bag q2)) (Some (nat Capacity))"
    using q that bq_Merge_ok [of q q2] by (auto simp: bq_ok_def bq_size Capacity_def)
  assume ne: "bq_bag q \<noteq> {#}"
  have qi: "bq_inv q" "CurrentSize q \<noteq> 0" using q ne by (simp_all add: bq_ok_def bq_size)
  obtain k c where "find_min (TheTrees q) 0 bq_Infinity None = (Min_mset (bq_bag q), Some k)"
    using bq_find_min [OF qi(1) ne] by blast
  then show "bq_FindMin q = Inr (Min_mset (bq_bag q))"
    using qi(2) by (simp add: bq_FindMin_def bq_IsEmpty_def)
  obtain H' where H': "bq_DeleteMin True q = Inr (Min_mset (bq_bag q), H')" "bq_inv H'"
      "bq_bag q = add_mset (Min_mset (bq_bag q)) (bq_bag H')"
    using bq_DeleteMin_ok [of q] q ne by (auto simp: bq_ok_def)
  have "size (bq_bag q) = size (bq_bag H') + 1" by (subst H'(3)) simp
  then have "bq_ok H'" using q H'(2) bq_size [OF qi(1)] bq_size [OF H'(2)] by (simp add: bq_ok_def)
  moreover have "bq_bag H' = bq_bag q - {#Min_mset (bq_bag q)#}"
    by (subst H'(3)) simp
  ultimately show "\<exists>q'. bq_del q = Inr q' \<and> bq_ok q' \<and> bq_bag q' = bq_bag q - {#Min_mset (bq_bag q)#}"
    using H'(1) by (auto simp: bq_del_def)
qed

section \<open>Properties\<close>

text \<open>C20: \<open>Merge\<close> of two binomial queues of together at most \<open>Capacity\<close>
  elements stays within the slots, never combines missing trees, and returns a queue whose slots are
  again heap-ordered binomial trees of the right ranks and hold the elements of both; beyond the
  capacity it reports the error.\<close>

theorem Binomial_Merge:
  assumes "bq_inv H1" "bq_inv H2"
  shows "if CurrentSize H1 + CurrentSize H2 \<le> Capacity
    then \<exists>H. bq_Merge H1 H2 = Inr H \<and> bq_inv H \<and> bq_bag H = bq_bag H1 + bq_bag H2
    else bq_Merge H1 H2 = Inl (FatalError ''Merge would exceed capacity'')"
  using bq_Merge_ok [OF assms] by (auto simp: bq_Merge_def)

theorem Binomial_Merge_witness:
  "\<exists>H. bq_Merge \<lparr>CurrentSize = 1, TheTrees = BNode 4 BNil BNil # replicate 13 BNil\<rparr>
      \<lparr>CurrentSize = 1, TheTrees = BNode 2 BNil BNil # replicate 13 BNil\<rparr> = Inr H \<and> bq_bag H = {#2, 4#}"
proof -
  have "bq_inv \<lparr>CurrentSize = 1, TheTrees = BNode x BNil BNil # replicate 13 BNil\<rparr>" if "x < 100" for x
    using that by (auto simp: bq_inv_def slots_def qbag_def MaxTrees_def bq_Infinity_def nth_Cons eval_nat_numeral
        split: nat.splits)
  from Binomial_Merge [OF this [of 4] this [of 2]] show ?thesis
    by (auto simp: Capacity_def qbag_def eval_nat_numeral add_mset_commute)
qed



text \<open>If every element is at least \<open>Infinity\<close>, \<open>DeleteMin\<close> uses
  \<open>MinTree\<close> uninitialised and \<open>FindMin\<close> returns a value that is not in the queue.\<close>

lemma bq_DeleteMin_uninitialised:
  "bq_DeleteMin True \<lparr>CurrentSize = 1, TheTrees = BNode 30000 BNil BNil # replicate 13 BNil\<rparr> = Inl Uninitialised"
  "bq_FindMin \<lparr>CurrentSize = 1, TheTrees = BNode 30007 BNil BNil # replicate 13 BNil\<rparr> = Inr 30000"
  by (auto simp: bq_DeleteMin_def bq_FindMin_def bq_IsEmpty_def bq_Infinity_def eval_nat_numeral)

end
