(* ===== verification/StackArray.thy ===== *)
theory StackArray
  imports CBase
begin

text \<open>
  The interface of stacks, and its implementation in an array, \<^verbatim>\<open>src/DSAAC/stackar.c\<close>.
  The implementation by a linked list, \<^verbatim>\<open>stackli.c\<close>, is in the theory
  \<open>StackList\<close>.
\<close>

section \<open>Stacks\<close>

text \<open>The clients of the test programs: push a list, then take the top until the stack is empty.\<close>

fun pop_all :: "('s \<Rightarrow> bool res) \<Rightarrow> ('s \<Rightarrow> int res) \<Rightarrow> ('s \<Rightarrow> 's res) \<Rightarrow> nat \<Rightarrow> 's \<Rightarrow> (int list \<times> 's) res" where
  "pop_all isemp tp pp 0 s = Inr ([], s)"
| "pop_all isemp tp pp (Suc n) s =
    bindr (isemp s) (\<lambda>b. if b then Inr ([], s)
      else bindr (tp s) (\<lambda>x. bindr (pp s) (\<lambda>s. bindr (pop_all isemp tp pp n s) (\<lambda>(xs, s).
        Inr (x # xs, s)))))"

locale stack_adt =
  fixes isemp :: "'s \<Rightarrow> bool res" and push :: "int \<Rightarrow> 's \<Rightarrow> 's res" and tp :: "'s \<Rightarrow> int res"
    and pp :: "'s \<Rightarrow> 's res" and rep :: "'s \<Rightarrow> int list \<Rightarrow> bool" and room :: "'s \<Rightarrow> nat \<Rightarrow> bool"
    \<comment> \<open>\<open>rep s xs\<close>: the stack holds \<open>xs\<close>, top first; \<open>room s n\<close>: \<open>n\<close> more
      elements fit\<close>
  assumes isemp_ok: "rep s xs \<Longrightarrow> isemp s = Inr (xs = [])"
    and push_ok: "rep s xs \<Longrightarrow> room s (Suc n) \<Longrightarrow> \<exists>s'. push x s = Inr s' \<and> rep s' (x # xs) \<and> room s' n"
    and tp_ok: "rep s (x # xs) \<Longrightarrow> tp s = Inr x"
    and pp_ok: "rep s (x # xs) \<Longrightarrow> \<exists>s'. pp s = Inr s' \<and> rep s' xs"
    and tp_empty: "rep s [] \<Longrightarrow> tp s = Inl (FatalError ''Empty stack'')"
    and pp_empty: "rep s [] \<Longrightarrow> pp s = Inl (FatalError ''Empty stack'')"
begin

lemma push_all:
  "rep s ys \<Longrightarrow> room s (length xs) \<Longrightarrow> \<exists>s'. insert_all push xs s = Inr s' \<and> rep s' (rev xs @ ys)"
proof (induction xs arbitrary: s ys)
  case (Cons x xs)
  then obtain s1 where "push x s = Inr s1" "rep s1 (x # ys)" "room s1 (length xs)"
    using push_ok [of s ys "length xs" x] by auto
  with Cons.IH [of s1 "x # ys"] show ?case by auto
qed simp

lemma pop_all_ok: "rep s xs \<Longrightarrow> length xs \<le> n \<Longrightarrow> \<exists>s'. pop_all isemp tp pp n s = Inr (xs, s') \<and> rep s' []"
proof (induction n arbitrary: s xs)
  case (Suc n)
  show ?case
  proof (cases xs)
    case (Cons x ys)
    then obtain s1 where "pp s = Inr s1" "rep s1 ys" using pp_ok Suc.prems by blast
    with Suc.IH [of s1 ys] Suc.prems Cons show ?thesis
      using isemp_ok [of s xs] tp_ok [of s x ys] by auto
  qed (use Suc.prems isemp_ok [of s xs] in auto)
qed auto

text \<open>Pushing and popping reverses.\<close>

lemma push_pop_all:
  assumes "rep s []" "room s (length xs)"
  shows "\<exists>s1 s2. insert_all push xs s = Inr s1 \<and> rep s1 (rev xs) \<and>
    pop_all isemp tp pp (length xs) s1 = Inr (rev xs, s2) \<and> rep s2 []"
  using push_all [OF assms] pop_all_ok [of _ "rev xs" "length xs"] by auto

end

section \<open>The stack in an array\<close>

record stack =
  sCapacity :: int
  TopOfStack :: int
  sArray :: "int list"

definition EmptyTOS :: int where "EmptyTOS = - 1"
definition MinStackSize :: int where "MinStackSize = 5"

definition sa_IsEmpty :: "stack \<Rightarrow> bool" where
  "sa_IsEmpty S \<longleftrightarrow> TopOfStack S = EmptyTOS"

definition sa_IsFull :: "stack \<Rightarrow> bool" where
  "sa_IsFull S \<longleftrightarrow> TopOfStack S = sCapacity S - 1"

definition sa_MakeEmpty :: "stack \<Rightarrow> stack" where
  "sa_MakeEmpty S = S\<lparr>TopOfStack := EmptyTOS\<rparr>"

definition sa_CreateStack :: "bool \<Rightarrow> bool \<Rightarrow> (int \<Rightarrow> int) \<Rightarrow> int \<Rightarrow> int \<Rightarrow> stack res" where
  \<comment> \<open>\<open>g\<close>, \<open>t\<close>: what the allocated array and the field \<open>TopOfStack\<close> hold\<close>
  "sa_CreateStack ok1 ok2 g t MaxElements =
    (if MaxElements < MinStackSize then Inl (FatalError ''Stack size is too small'')
     else if \<not> ok1 then Inl (FatalError ''Out of space!!!'')
     else if \<not> ok2 then Inl (FatalError ''Out of space!!!'')
     else Inr (sa_MakeEmpty \<lparr>sCapacity = MaxElements, TopOfStack = t, sArray = malloc_cells g MaxElements\<rparr>))"

definition sa_DisposeStack :: "stack option \<Rightarrow> stack option" where
  \<comment> \<open>the stack, if any, is freed\<close>
  "sa_DisposeStack S = (if S \<noteq> None then None else S)"

definition sa_Push :: "int \<Rightarrow> stack \<Rightarrow> stack res" where
  "sa_Push X S =
    (if sa_IsFull S then Inl (FatalError ''Full stack'')
     else let S = S\<lparr>TopOfStack := TopOfStack S + 1\<rparr> in
       case aput (sArray S) (TopOfStack S) X of None \<Rightarrow> Inl BadAccess | Some A \<Rightarrow> Inr (S\<lparr>sArray := A\<rparr>))"

definition sa_Top :: "stack \<Rightarrow> int res" where
  "sa_Top S =
    (if \<not> sa_IsEmpty S
     then (case aget (sArray S) (TopOfStack S) of None \<Rightarrow> Inl BadAccess | Some x \<Rightarrow> Inr x)
     else Inl (FatalError ''Empty stack''))"

definition sa_Pop :: "stack \<Rightarrow> stack res" where
  "sa_Pop S =
    (if sa_IsEmpty S then Inl (FatalError ''Empty stack'')
     else Inr (S\<lparr>TopOfStack := TopOfStack S - 1\<rparr>))"

definition sa_TopAndPop :: "stack \<Rightarrow> (int \<times> stack) res" where
  "sa_TopAndPop S =
    (if \<not> sa_IsEmpty S
     then (case aget (sArray S) (TopOfStack S) of None \<Rightarrow> Inl BadAccess
       | Some x \<Rightarrow> Inr (x, S\<lparr>TopOfStack := TopOfStack S - 1\<rparr>))
     else Inl (FatalError ''Empty stack''))"

definition sa_rep :: "stack \<Rightarrow> int list \<Rightarrow> bool" where
  "sa_rep S xs \<longleftrightarrow> len (sArray S) = sCapacity S \<and> EmptyTOS \<le> TopOfStack S \<and> TopOfStack S < sCapacity S \<and>
     rev xs = take (nat (TopOfStack S + 1)) (sArray S)"

definition sa_room :: "stack \<Rightarrow> nat \<Rightarrow> bool" where
  "sa_room S n \<longleftrightarrow> TopOfStack S + int n < sCapacity S"

lemma sa_rep_length: "sa_rep S xs \<Longrightarrow> TopOfStack S = int (length xs) - 1"
proof -
  assume a: "sa_rep S xs"
  then have "length (rev xs) = nat (TopOfStack S + 1)" by (auto simp: sa_rep_def)
  then have "length xs = nat (TopOfStack S + 1)" by simp
  moreover have "- 1 \<le> TopOfStack S" using a by (simp add: sa_rep_def EmptyTOS_def)
  ultimately show ?thesis by simp
qed

lemma sa_top:
  assumes "sa_rep S (x # xs)"
  shows "aget (sArray S) (TopOfStack S) = Some x" "sa_rep (S\<lparr>TopOfStack := TopOfStack S - 1\<rparr>) xs"
proof -
  let ?n = "length xs" and ?A = "sArray S"
  have t: "TopOfStack S = int ?n" using sa_rep_length [OF assms] by simp
  have A: "rev xs @ [x] = take (Suc ?n) ?A" "?n < length ?A"
    using assms t by (auto simp: sa_rep_def nat_add_distrib)
  then have B: "rev xs = take ?n ?A" "x = ?A ! ?n" by (auto simp: take_Suc_conv_app_nth)
  then show "aget ?A (TopOfStack S) = Some x" using A(2) t by (auto simp: aget_def inb_def elt_def)
  show "sa_rep (S\<lparr>TopOfStack := TopOfStack S - 1\<rparr>) xs" using assms t B by (auto simp: sa_rep_def EmptyTOS_def)
qed

lemma sa_Push_ok:
  assumes "sa_rep S xs" "sa_room S (Suc n)"
  shows "\<exists>S'. sa_Push x S = Inr S' \<and> sa_rep S' (x # xs) \<and> sa_room S' n"
proof -
  let ?n = "length xs" and ?A = "sArray S"
  have t: "TopOfStack S = int ?n - 1" by (rule sa_rep_length [OF assms(1)])
  have l: "?n < length ?A" "rev xs = take ?n ?A" "len ?A = sCapacity S"
    using assms t by (auto simp: sa_rep_def sa_room_def)
  have "take (Suc ?n) (?A[?n := x]) = rev xs @ [x]" using l by (simp add: take_Suc_conv_app_nth)
  then show ?thesis using assms(2) t l
    by (auto simp: sa_Push_def sa_IsFull_def sa_rep_def sa_room_def Let_def aput_def inb_def upd_def
        EmptyTOS_def nat_add_distrib)
qed

interpretation stackar: stack_adt "\<lambda>S. Inr (sa_IsEmpty S)" sa_Push sa_Top sa_Pop sa_rep sa_room
proof unfold_locales
  fix S xs assume r: "sa_rep S xs"
  show "Inr (sa_IsEmpty S) = Inr (xs = [])"
    using sa_rep_length [OF r] by (auto simp: sa_IsEmpty_def EmptyTOS_def)
next
  fix S x xs assume r: "sa_rep S (x # xs)"
  have "\<not> sa_IsEmpty S" using sa_rep_length [OF r] by (simp add: sa_IsEmpty_def EmptyTOS_def)
  then show "sa_Top S = Inr x" "\<exists>S'. sa_Pop S = Inr S' \<and> sa_rep S' xs"
    using sa_top [OF r] by (auto simp: sa_Top_def sa_Pop_def)
next
  fix S assume r: "sa_rep S []"
  have "sa_IsEmpty S" using sa_rep_length [OF r] by (simp add: sa_IsEmpty_def EmptyTOS_def)
  then show "sa_Top S = Inl (FatalError ''Empty stack'')" "sa_Pop S = Inl (FatalError ''Empty stack'')"
    by (auto simp: sa_Top_def sa_Pop_def)
qed (rule sa_Push_ok)

lemma sa_CreateStack_ok:
  assumes "MinStackSize \<le> N"
  shows "\<exists>S. sa_CreateStack True True g t N = Inr S \<and> sa_rep S [] \<and> sCapacity S = N \<and> sa_room S (nat N)"
  using assms by (auto simp: sa_CreateStack_def sa_rep_def sa_room_def sa_MakeEmpty_def EmptyTOS_def MinStackSize_def)

section \<open>Properties\<close>

text \<open>C22: a stack made by \<open>CreateStack( N )\<close> takes any \<open>N\<close> or fewer pushes
  without leaving its array and gives the elements back in reverse order; one push more is
  reported as a full stack, and \<open>Top\<close>, \<open>Pop\<close> and \<open>TopAndPop\<close> of the empty
  stack as an empty one.\<close>

theorem StackArray_lifo:
  assumes "MinStackSize \<le> N" "len xs \<le> N"
  shows "\<exists>S S1 S2. sa_CreateStack True True g t N = Inr S \<and> insert_all sa_Push xs S = Inr S1 \<and>
    (len xs = N \<longrightarrow> sa_Push x S1 = Inl (FatalError ''Full stack'')) \<and>
    pop_all (\<lambda>S. Inr (sa_IsEmpty S)) sa_Top sa_Pop (length xs) S1 = Inr (rev xs, S2) \<and>
    sa_Top S2 = Inl (FatalError ''Empty stack'') \<and> sa_Pop S2 = Inl (FatalError ''Empty stack'') \<and>
    sa_TopAndPop S2 = Inl (FatalError ''Empty stack'')"
proof -
  obtain S where S: "sa_CreateStack True True g t N = Inr S" "sa_rep S []" "sCapacity S = N" "sa_room S (nat N)"
    using sa_CreateStack_ok [OF assms(1)] by blast
  have "sa_room S (length xs)" using S(4) assms(2) by (auto simp: sa_room_def)
  then obtain S1 S2 where S1: "insert_all sa_Push xs S = Inr S1" "sa_rep S1 (rev xs)"
      "pop_all (\<lambda>S. Inr (sa_IsEmpty S)) sa_Top sa_Pop (length xs) S1 = Inr (rev xs, S2)" "sa_rep S2 []"
    using stackar.push_pop_all [OF S(2)] by blast
  have "sCapacity S1 = N" using S1(1) S(3)
  proof (induction xs arbitrary: S)
    case (Cons a xs)
    from Cons.prems obtain T where T: "sa_Push a S = Inr T" "insert_all sa_Push xs T = Inr S1"
      by (auto simp: bindr_eq_Inr)
    then have "sCapacity T = N" using Cons.prems(2)
      by (auto simp: sa_Push_def Let_def split: if_splits option.splits)
    with Cons.IH T(2) show ?case by blast
  qed simp
  moreover have "TopOfStack S1 = len xs - 1" using sa_rep_length [OF S1(2)] by simp
  ultimately have "len xs = N \<longrightarrow> sa_Push x S1 = Inl (FatalError ''Full stack'')"
    by (simp add: sa_Push_def sa_IsFull_def)
  moreover have "sa_TopAndPop S2 = Inl (FatalError ''Empty stack'')"
    using stackar.tp_empty [OF S1(4)] sa_rep_length [OF S1(4)]
    by (auto simp: sa_TopAndPop_def sa_IsEmpty_def EmptyTOS_def)
  ultimately show ?thesis using S S1 stackar.tp_empty [OF S1(4)] stackar.pp_empty [OF S1(4)] by blast
qed

theorem StackArray_lifo_witness:
  "\<exists>S S1 S2. sa_CreateStack True True (\<lambda>_. 9) 7 5 = Inr S \<and> insert_all sa_Push [1, 2, 3] S = Inr S1 \<and>
    pop_all (\<lambda>S. Inr (sa_IsEmpty S)) sa_Top sa_Pop 3 S1 = Inr ([3, 2, 1], S2)"
  using StackArray_lifo [of 5 "[1, 2, 3]" "\<lambda>_. 9" 7 0]
  by (auto simp: MinStackSize_def eval_nat_numeral simp del: insert_all.simps pop_all.simps)

end
