(* ===== verification/QueueArray.thy ===== *)
theory QueueArray
  imports CBase
begin

text \<open>
  \<^verbatim>\<open>src/DSAAC/queue.c\<close>: the queue in a circular array, with the interface of queues it
  implements.
\<close>

section \<open>Queues\<close>

datatype queue_op = OpEnqueue int | OpDequeue

fun queue_exec :: "(int \<Rightarrow> 'q \<Rightarrow> 'q res) \<Rightarrow> ('q \<Rightarrow> (int \<times> 'q) res) \<Rightarrow> queue_op list \<Rightarrow> 'q \<Rightarrow>
    (int list \<times> 'q) res" where
  \<comment> \<open>run the operations; the elements dequeued, in order, and the final queue\<close>
  "queue_exec enq deq [] q = Inr ([], q)"
| "queue_exec enq deq (OpEnqueue x # ops) q = bindr (enq x q) (queue_exec enq deq ops)"
| "queue_exec enq deq (OpDequeue # ops) q =
    bindr (deq q) (\<lambda>(x, q). bindr (queue_exec enq deq ops q) (\<lambda>(xs, q). Inr (x # xs, q)))"

fun queue_spec :: "nat \<Rightarrow> queue_op list \<Rightarrow> int list \<Rightarrow> (int list \<times> int list) option" where
  \<comment> \<open>the same on lists, for a queue of capacity \<open>c\<close>; undefined on overflow and underflow\<close>
  "queue_spec c [] xs = Some ([], xs)"
| "queue_spec c (OpEnqueue x # ops) xs = (if length xs < c then queue_spec c ops (xs @ [x]) else None)"
| "queue_spec c (OpDequeue # ops) xs =
    (case xs of [] \<Rightarrow> None
     | x # ys \<Rightarrow> map_option (\<lambda>(zs, r). (x # zs, r)) (queue_spec c ops ys))"

locale queue_adt =
  fixes enq :: "int \<Rightarrow> 'q \<Rightarrow> 'q res" and deq :: "'q \<Rightarrow> (int \<times> 'q) res"
    and rep :: "'q \<Rightarrow> int list \<Rightarrow> bool" and cap :: "'q \<Rightarrow> nat"
  assumes enq_ok: "rep q xs \<Longrightarrow> length xs < cap q \<Longrightarrow> \<exists>q'. enq x q = Inr q' \<and> rep q' (xs @ [x]) \<and> cap q' = cap q"
    and enq_full: "rep q xs \<Longrightarrow> length xs = cap q \<Longrightarrow> enq x q = Inl (FatalError ''Full queue'')"
    and deq_ok: "rep q (x # xs) \<Longrightarrow> \<exists>q'. deq q = Inr (x, q') \<and> rep q' xs \<and> cap q' = cap q"
    and deq_empty: "rep q [] \<Longrightarrow> deq q = Inl (FatalError ''Empty queue'')"
begin

lemma exec_fifo:
  "rep q xs \<Longrightarrow> queue_spec (cap q) ops xs = Some (zs, ys) \<Longrightarrow>
     \<exists>q'. queue_exec enq deq ops q = Inr (zs, q') \<and> rep q' ys"
proof (induction ops arbitrary: q xs zs)
  case (Cons a ops)
  show ?case
  proof (cases a)
    case (OpEnqueue x)
    then have l: "length xs < cap q" using Cons.prems by (auto split: if_splits)
    obtain q1 where "enq x q = Inr q1" "rep q1 (xs @ [x])" "cap q1 = cap q"
      using enq_ok [OF Cons.prems(1) l] by blast
    then show ?thesis using Cons OpEnqueue l by auto
  next
    case OpDequeue
    then obtain x xs' where x: "xs = x # xs'" using Cons.prems by (cases xs) auto
    obtain q1 where "deq q = Inr (x, q1)" "rep q1 xs'" "cap q1 = cap q"
      using deq_ok [of q x xs'] Cons.prems(1) x by auto
    moreover obtain zs' where "queue_spec (cap q) ops xs' = Some (zs', ys)" "zs = x # zs'"
      using Cons.prems(2) OpDequeue x by (auto split: option.splits)
    ultimately show ?thesis using Cons.IH [of q1 xs' zs'] OpDequeue by auto
  qed
qed auto

end

section \<open>The queue in a circular array\<close>

record queue =
  qCapacity :: int
  qFront :: int
  qRear :: int
  qSize :: int
  qArray :: "int list"

definition MinQueueSize :: int where "MinQueueSize = 5"

definition qa_IsEmpty :: "queue \<Rightarrow> bool" where
  "qa_IsEmpty Q \<longleftrightarrow> qSize Q = 0"

definition qa_IsFull :: "queue \<Rightarrow> bool" where
  "qa_IsFull Q \<longleftrightarrow> qSize Q = qCapacity Q"

definition qa_MakeEmpty :: "queue \<Rightarrow> queue" where
  "qa_MakeEmpty Q = Q\<lparr>qSize := 0, qFront := 1, qRear := 0\<rparr>"

definition qa_CreateQueue :: "bool \<Rightarrow> bool \<Rightarrow> queue \<Rightarrow> (int \<Rightarrow> int) \<Rightarrow> int \<Rightarrow> queue res" where
  \<comment> \<open>\<open>Q0\<close>, \<open>g\<close>: what the allocated record and array hold\<close>
  "qa_CreateQueue ok1 ok2 Q0 g MaxElements =
    (if MaxElements < MinQueueSize then Inl (FatalError ''Queue size is too small'')
     else if \<not> ok1 then Inl (FatalError ''Out of space!!!'')
     else if \<not> ok2 then Inl (FatalError ''Out of space!!!'')
     else Inr (qa_MakeEmpty (Q0\<lparr>qArray := malloc_cells g MaxElements, qCapacity := MaxElements\<rparr>)))"

definition qa_DisposeQueue :: "queue option \<Rightarrow> queue option" where
  "qa_DisposeQueue Q = (if Q \<noteq> None then None else Q)"

definition qa_Succ :: "int \<Rightarrow> queue \<Rightarrow> int" where
  "qa_Succ Value Q = (if Value + 1 = qCapacity Q then 0 else Value + 1)"

definition qa_Enqueue :: "int \<Rightarrow> queue \<Rightarrow> queue res" where
  "qa_Enqueue X Q =
    (if qa_IsFull Q then Inl (FatalError ''Full queue'')
     else
       let Q = Q\<lparr>qSize := qSize Q + 1\<rparr>;
           Q = Q\<lparr>qRear := qa_Succ (qRear Q) Q\<rparr>
       in case aput (qArray Q) (qRear Q) X of None \<Rightarrow> Inl BadAccess | Some A \<Rightarrow> Inr (Q\<lparr>qArray := A\<rparr>))"

definition qa_Front :: "queue \<Rightarrow> int res" where
  "qa_Front Q =
    (if \<not> qa_IsEmpty Q then (case aget (qArray Q) (qFront Q) of None \<Rightarrow> Inl BadAccess | Some x \<Rightarrow> Inr x)
     else Inl (FatalError ''Empty queue''))"

definition qa_Dequeue :: "queue \<Rightarrow> queue res" where
  "qa_Dequeue Q =
    (if qa_IsEmpty Q then Inl (FatalError ''Empty queue'')
     else let Q = Q\<lparr>qSize := qSize Q - 1\<rparr> in Inr (Q\<lparr>qFront := qa_Succ (qFront Q) Q\<rparr>))"

definition qa_FrontAndDequeue :: "queue \<Rightarrow> (int \<times> queue) res" where
  "qa_FrontAndDequeue Q =
    (if qa_IsEmpty Q then Inl (FatalError ''Empty queue'')
     else let Q = Q\<lparr>qSize := qSize Q - 1\<rparr> in
       case aget (qArray Q) (qFront Q) of None \<Rightarrow> Inl BadAccess
       | Some X \<Rightarrow> Inr (X, Q\<lparr>qFront := qa_Succ (qFront Q) Q\<rparr>))"

definition qa_rep :: "queue \<Rightarrow> int list \<Rightarrow> bool" where
  \<comment> \<open>\<open>xs\<close> is read from \<open>Front\<close> on, around the array\<close>
  "qa_rep Q xs \<longleftrightarrow> len (qArray Q) = qCapacity Q \<and> 0 \<le> qFront Q \<and> qFront Q < qCapacity Q \<and>
     len xs = qSize Q \<and> qSize Q \<le> qCapacity Q \<and>
     qRear Q = (qFront Q + qSize Q - 1) mod qCapacity Q \<and>
     (\<forall>k. 0 \<le> k \<and> k < len xs \<longrightarrow> elt xs k = elt (qArray Q) ((qFront Q + k) mod qCapacity Q))"

lemma qa_Succ_mod: "0 \<le> v \<Longrightarrow> v < qCapacity Q \<Longrightarrow> qa_Succ v Q = (v + 1) mod qCapacity Q"
  by (auto simp: qa_Succ_def)

lemma elt_append1: "0 \<le> k \<Longrightarrow> k \<le> len xs \<Longrightarrow> elt (xs @ [x]) k = (if k = len xs then x else elt xs k)"
  by (auto simp: elt_def nth_append nat_less_iff)

lemma elt_Cons: "0 \<le> k \<Longrightarrow> elt (x # xs) k = (if k = 0 then x else elt xs (k - 1))"
  by (auto simp: elt_def nth_Cons' nat_diff_distrib)

text \<open>Distinct offsets below the capacity are distinct cells.\<close>

lemma mod_inj: "0 \<le> j \<Longrightarrow> j < c \<Longrightarrow> 0 \<le> k \<Longrightarrow> k < c \<Longrightarrow> (f + j) mod c = (f + k) mod c \<Longrightarrow> (j::int) = k"
  by (metis add.commute add_diff_cancel_left' mod_diff_left_eq mod_pos_pos_trivial)

lemma qa_Enqueue_ok:
  assumes "qa_rep Q xs" "len xs < qCapacity Q"
  shows "\<exists>Q'. qa_Enqueue x Q = Inr Q' \<and> qa_rep Q' (xs @ [x]) \<and> qCapacity Q' = qCapacity Q"
proof -
  let ?c = "qCapacity Q" and ?f = "qFront Q" and ?s = "qSize Q" and ?A = "qArray Q"
  have r: "len ?A = ?c" "0 \<le> ?f" "?f < ?c" "len xs = ?s" "?s < ?c" "qRear Q = (?f + ?s - 1) mod ?c"
    "\<And>k. 0 \<le> k \<Longrightarrow> k < ?s \<Longrightarrow> elt xs k = elt ?A ((?f + k) mod ?c)"
    using assms by (auto simp: qa_rep_def)
  have c: "0 < ?c" using r by linarith
  have rear: "qa_Succ (qRear Q) (Q\<lparr>qSize := ?s + 1\<rparr>) = (?f + ?s) mod ?c"
    using qa_Succ_mod [of "qRear Q" "Q\<lparr>qSize := ?s + 1\<rparr>"] r c by (simp add: mod_add_left_eq)
  have ib: "inb ?A ((?f + ?s) mod ?c)" using c r(1) by (auto simp: inb_def)
  let ?Q = "Q\<lparr>qSize := ?s + 1, qRear := (?f + ?s) mod ?c, qArray := upd ?A ((?f + ?s) mod ?c) x\<rparr>"
  have "elt (xs @ [x]) k = elt (upd ?A ((?f + ?s) mod ?c) x) ((?f + k) mod ?c)" if k: "0 \<le> k" "k \<le> ?s" for k
    using k r c ib mod_inj [of k ?c ?s ?f] by (auto simp: elt_append1 elt_upd)
  then have "qa_rep ?Q (xs @ [x])" using r c by (auto simp: qa_rep_def)
  then show ?thesis using r ib rear by (auto simp: qa_Enqueue_def qa_IsFull_def Let_def)
qed

lemma qa_FrontAndDequeue_ok:
  assumes "qa_rep Q (x # xs)"
  shows "\<exists>Q'. qa_FrontAndDequeue Q = Inr (x, Q') \<and> qa_Front Q = Inr x \<and> qa_Dequeue Q = Inr Q' \<and>
    qa_rep Q' xs \<and> qCapacity Q' = qCapacity Q"
proof -
  let ?c = "qCapacity Q" and ?f = "qFront Q" and ?s = "qSize Q" and ?A = "qArray Q"
  have r: "len ?A = ?c" "0 \<le> ?f" "?f < ?c" "len xs = ?s - 1" "?s \<le> ?c" "qRear Q = (?f + ?s - 1) mod ?c"
    "\<And>k. 0 \<le> k \<Longrightarrow> k < ?s \<Longrightarrow> elt (x # xs) k = elt ?A ((?f + k) mod ?c)"
    using assms by (auto simp: qa_rep_def)
  have s: "1 \<le> ?s" using r(4) by linarith
  have x: "elt ?A ?f = x" using r(7) [of 0] r s by (simp add: elt_Cons)
  have ib: "inb ?A ?f" using r by (auto simp: inb_def)
  let ?Q = "Q\<lparr>qSize := ?s - 1, qFront := (?f + 1) mod ?c\<rparr>"
  have "elt xs k = elt ?A (((?f + 1) mod ?c + k) mod ?c)" if k: "0 \<le> k" "k < ?s - 1" for k
    using r(7) [of "k + 1"] k by (simp add: elt_Cons mod_simps ac_simps)
  moreover have "(?f + 1 + (?s - 1) - 1) mod ?c = ((?f + 1) mod ?c + (?s - 1) - 1) mod ?c"
    by (metis add_diff_eq mod_add_left_eq)
  ultimately have "qa_rep ?Q xs" using r s by (auto simp: qa_rep_def ac_simps)
  moreover have "qa_Succ ?f (Q\<lparr>qSize := ?s - 1\<rparr>) = (?f + 1) mod ?c"
    using qa_Succ_mod [of ?f "Q\<lparr>qSize := ?s - 1\<rparr>"] r by simp
  ultimately show ?thesis using s x ib
    by (auto simp: qa_FrontAndDequeue_def qa_Front_def qa_Dequeue_def qa_IsEmpty_def Let_def)
qed

lemma qa_empty_ok:
  assumes "qa_rep Q []"
  shows "qa_Front Q = Inl (FatalError ''Empty queue'')" "qa_Dequeue Q = Inl (FatalError ''Empty queue'')"
    "qa_FrontAndDequeue Q = Inl (FatalError ''Empty queue'')"
  using assms by (simp_all add: qa_rep_def qa_Front_def qa_Dequeue_def qa_FrontAndDequeue_def qa_IsEmpty_def)

interpretation queue: queue_adt qa_Enqueue qa_FrontAndDequeue qa_rep "\<lambda>Q. nat (qCapacity Q)"
proof unfold_locales
  fix q :: queue and xs x assume r: "qa_rep q xs"
  show "\<exists>q'. qa_Enqueue x q = Inr q' \<and> qa_rep q' (xs @ [x]) \<and> nat (qCapacity q') = nat (qCapacity q)"
    if "length xs < nat (qCapacity q)"
  proof -
    have "len xs < qCapacity q" using that by linarith
    from qa_Enqueue_ok [OF r this] show ?thesis by metis
  qed
  show "qa_Enqueue x q = Inl (FatalError ''Full queue'')" if "length xs = nat (qCapacity q)"
    using r that by (auto simp: qa_Enqueue_def qa_IsFull_def qa_rep_def)
next
  fix q :: queue and xs x assume "qa_rep q (x # xs)"
  from qa_FrontAndDequeue_ok [OF this]
  show "\<exists>q'. qa_FrontAndDequeue q = Inr (x, q') \<and> qa_rep q' xs \<and> nat (qCapacity q') = nat (qCapacity q)"
    by auto
next
  fix q assume "qa_rep q []"
  then show "qa_FrontAndDequeue q = Inl (FatalError ''Empty queue'')"
    by (auto simp: qa_FrontAndDequeue_def qa_IsEmpty_def qa_rep_def)
qed

lemma qa_CreateQueue_ok:
  "MinQueueSize \<le> N \<Longrightarrow> \<exists>Q. qa_CreateQueue True True Q0 g N = Inr Q \<and> qa_rep Q [] \<and> qCapacity Q = N"
  by (auto simp: qa_CreateQueue_def qa_MakeEmpty_def qa_rep_def MinQueueSize_def)

section \<open>Sequences of calls\<close>

datatype queue_call = CallEnqueue int | CallFront | CallDequeue | CallFrontAndDequeue | CallIsEmpty | CallIsFull | CallMakeEmpty

text \<open>The values a call returns, a truth value as 0 or 1, and the queue after it.\<close>

fun qa_call :: "queue_call \<Rightarrow> queue \<Rightarrow> (int list \<times> queue) res" where
  "qa_call (CallEnqueue x) Q = bindr (qa_Enqueue x Q) (\<lambda>Q. Inr ([], Q))"
| "qa_call CallFront Q = bindr (qa_Front Q) (\<lambda>x. Inr ([x], Q))"
| "qa_call CallDequeue Q = bindr (qa_Dequeue Q) (\<lambda>Q. Inr ([], Q))"
| "qa_call CallFrontAndDequeue Q = bindr (qa_FrontAndDequeue Q) (\<lambda>(x, Q). Inr ([x], Q))"
| "qa_call CallIsEmpty Q = Inr ([of_bool (qa_IsEmpty Q)], Q)"
| "qa_call CallIsFull Q = Inr ([of_bool (qa_IsFull Q)], Q)"
| "qa_call CallMakeEmpty Q = Inr ([], qa_MakeEmpty Q)"

text \<open>The same on a list with room for \<open>c\<close> elements.\<close>

fun list_call :: "nat \<Rightarrow> queue_call \<Rightarrow> int list \<Rightarrow> (int list \<times> int list) res" where
  "list_call c (CallEnqueue x) xs = (if length xs = c then Inl (FatalError ''Full queue'') else Inr ([], xs @ [x]))"
| "list_call c CallFront xs = (case xs of [] \<Rightarrow> Inl (FatalError ''Empty queue'') | x # ys \<Rightarrow> Inr ([x], xs))"
| "list_call c CallDequeue xs = (case xs of [] \<Rightarrow> Inl (FatalError ''Empty queue'') | x # ys \<Rightarrow> Inr ([], ys))"
| "list_call c CallFrontAndDequeue xs = (case xs of [] \<Rightarrow> Inl (FatalError ''Empty queue'') | x # ys \<Rightarrow> Inr ([x], ys))"
| "list_call c CallIsEmpty xs = Inr ([of_bool (xs = [])], xs)"
| "list_call c CallIsFull xs = Inr ([of_bool (length xs = c)], xs)"
| "list_call c CallMakeEmpty xs = Inr ([], [])"

fun run_calls :: "('c \<Rightarrow> 's \<Rightarrow> (int list \<times> 's) res) \<Rightarrow> 'c list \<Rightarrow> 's \<Rightarrow> (int list \<times> 's) res" where
  "run_calls call [] s = Inr ([], s)"
| "run_calls call (c # cs) s = bindr (call c s) (\<lambda>(zs, s). bindr (run_calls call cs s) (\<lambda>(zs', s). Inr (zs @ zs', s)))"

abbreviation qa_calls :: "queue_call list \<Rightarrow> queue \<Rightarrow> (int list \<times> queue) res" where "qa_calls \<equiv> run_calls qa_call"
abbreviation list_calls :: "nat \<Rightarrow> queue_call list \<Rightarrow> int list \<Rightarrow> (int list \<times> int list) res" where
  "list_calls c \<equiv> run_calls (list_call c)"

lemma qa_call_refines:
  assumes "qa_rep Q xs" "qCapacity Q = N" "1 < N"
  shows "case list_call (nat N) c xs of
      Inl e \<Rightarrow> qa_call c Q = Inl e
    | Inr (zs, ys) \<Rightarrow> \<exists>Q'. qa_call c Q = Inr (zs, Q') \<and> qa_rep Q' ys \<and> qCapacity Q' = N"
proof -
  obtain Q1 where front: "xs = y # ys \<Longrightarrow> qa_FrontAndDequeue Q = Inr (y, Q1) \<and> qa_Front Q = Inr y \<and> qa_Dequeue Q = Inr Q1 \<and>
      qa_rep Q1 ys \<and> qCapacity Q1 = N" for y ys
  proof (cases xs)
    case (Cons y ys)
    then show ?thesis using that qa_FrontAndDequeue_ok [of Q y ys] assms(1,2) by auto
  qed (use that in simp)
  show ?thesis
  proof (cases c)
    case (CallEnqueue x)
    have l: "len xs \<le> N" using assms by (simp add: qa_rep_def)
    show ?thesis
    proof (cases "length xs = nat N")
      case True
      then show ?thesis using CallEnqueue queue.enq_full [OF assms(1), of x] assms(2) by simp
    next
      case False
      then have "len xs < qCapacity Q" using l assms(2) by linarith
      from qa_Enqueue_ok [OF assms(1) this, of x] show ?thesis using CallEnqueue False assms(2) by auto
    qed
  next
    case CallIsFull
    have "qa_IsFull Q \<longleftrightarrow> length xs = nat N" using assms by (auto simp: qa_rep_def qa_IsFull_def)
    then show ?thesis using CallIsFull assms by simp
  next
    case CallIsEmpty
    have "qa_IsEmpty Q \<longleftrightarrow> xs = []" using assms by (auto simp: qa_rep_def qa_IsEmpty_def)
    then show ?thesis using CallIsEmpty assms by simp
  next
    case CallMakeEmpty
    have "qa_rep (qa_MakeEmpty Q) []" using assms by (auto simp: qa_rep_def qa_MakeEmpty_def)
    then show ?thesis using CallMakeEmpty assms(2) by (simp add: qa_MakeEmpty_def)
  next
    case CallFront
    then show ?thesis using assms front qa_empty_ok [of Q] by (cases xs) auto
  next
    case CallDequeue
    then show ?thesis using assms front qa_empty_ok [of Q] by (cases xs) auto
  next
    case CallFrontAndDequeue
    then show ?thesis using assms front qa_empty_ok [of Q] by (cases xs) auto
  qed
qed

lemma qa_calls_refine:
  assumes "qa_rep Q xs" "qCapacity Q = N" "1 < N"
  shows "case list_calls (nat N) cs xs of
      Inl e \<Rightarrow> qa_calls cs Q = Inl e
    | Inr (zs, ys) \<Rightarrow> \<exists>Q'. qa_calls cs Q = Inr (zs, Q') \<and> qa_rep Q' ys"
  using assms
proof (induction cs arbitrary: Q xs)
  case (Cons c cs)
  note q = qa_call_refines [OF Cons.prems, of c]
  show ?case
  proof (cases "list_call (nat N) c xs")
    case (Inl e)
    then show ?thesis using q by simp
  next
    case (Inr r)
    obtain zs ys Q' where s: "list_call (nat N) c xs = Inr (zs, ys)" "qa_call c Q = Inr (zs, Q')" "qa_rep Q' ys" "qCapacity Q' = N"
      using q Inr by (cases r) auto
    from Cons.IH [OF s(3,4) Cons.prems(3)] s(1,2) show ?thesis
      by (cases "list_calls (nat N) cs ys") auto
  qed
qed auto

section \<open>Properties\<close>

text \<open>C23: every sequence of \<open>Enqueue\<close>, \<open>Front\<close>, \<open>Dequeue\<close>,
  \<open>FrontAndDequeue\<close>, \<open>IsEmpty\<close>, \<open>IsFull\<close> and \<open>MakeEmpty\<close> on a queue made by
  \<open>CreateQueue( N )\<close> returns what the same sequence returns on a list with room for \<open>N\<close> elements, first
  in, first out, however often the queue wraps around; it ends with the error \<open>Full queue\<close> or
  \<open>Empty queue\<close> exactly where the list is full or empty, and never leaves the array.\<close>

theorem Queue_fifo:
  assumes "MinQueueSize \<le> N"
  shows "\<exists>Q. qa_CreateQueue True True Q0 g N = Inr Q \<and>
    (case list_calls (nat N) cs [] of
       Inl e \<Rightarrow> qa_calls cs Q = Inl e
     | Inr (zs, ys) \<Rightarrow> \<exists>Q'. qa_calls cs Q = Inr (zs, Q') \<and> qa_rep Q' ys)"
proof -
  obtain Q where Q: "qa_CreateQueue True True Q0 g N = Inr Q" "qa_rep Q []" "qCapacity Q = N"
    using qa_CreateQueue_ok [OF assms] by blast
  then show ?thesis
    using qa_calls_refine [OF Q(2), of N cs] assms by (simp add: MinQueueSize_def)
qed

theorem Queue_fifo_witness:
  "\<exists>Q. qa_CreateQueue True True \<lparr>qCapacity = 0, qFront = 3, qRear = 9, qSize = 1, qArray = []\<rparr> (\<lambda>_. 4) 5 = Inr Q \<and>
    (\<exists>Q'. qa_calls [CallEnqueue 1, CallEnqueue 2, CallFront, CallDequeue, CallEnqueue 3, CallIsEmpty, CallFrontAndDequeue] Q
      = Inr ([1, 0, 2], Q') \<and> qa_rep Q' [3]) \<and>
    qa_calls [CallEnqueue 1, CallDequeue, CallDequeue] Q = Inl (FatalError ''Empty queue'')"
proof -
  have N: "MinQueueSize \<le> 5" by (simp add: MinQueueSize_def)
  let ?Q0 = "\<lparr>qCapacity = 0, qFront = 3, qRear = 9, qSize = 1, qArray = []\<rparr>" and ?g = "\<lambda>_. 4"
  show ?thesis
    using Queue_fifo [OF N, of ?Q0 ?g "[CallEnqueue 1, CallEnqueue 2, CallFront, CallDequeue, CallEnqueue 3, CallIsEmpty, CallFrontAndDequeue]"]
      Queue_fifo [OF N, of ?Q0 ?g "[CallEnqueue 1, CallDequeue, CallDequeue]"]
    by auto
qed

text \<open>The single operations of the queue: \<open>Enqueue\<close> reports a full queue and
  otherwise appends; \<open>Front\<close>, \<open>Dequeue\<close> and \<open>FrontAndDequeue\<close> report an
  empty one and otherwise agree on the first element and on the rest.\<close>

theorem Queue_operations:
  assumes "qa_rep Q xs"
  shows "(if len xs = qCapacity Q then qa_Enqueue x Q = Inl (FatalError ''Full queue'')
      else \<exists>Q'. qa_Enqueue x Q = Inr Q' \<and> qa_rep Q' (xs @ [x])) \<and>
    (case xs of
       [] \<Rightarrow> qa_Front Q = Inl (FatalError ''Empty queue'') \<and> qa_Dequeue Q = Inl (FatalError ''Empty queue'') \<and>
         qa_FrontAndDequeue Q = Inl (FatalError ''Empty queue'')
     | y # ys \<Rightarrow> \<exists>Q'. qa_Front Q = Inr y \<and> qa_Dequeue Q = Inr Q' \<and> qa_FrontAndDequeue Q = Inr (y, Q') \<and>
         qa_rep Q' ys)"
proof
  have "len xs \<le> qCapacity Q" using assms by (simp add: qa_rep_def)
  then show "if len xs = qCapacity Q then qa_Enqueue x Q = Inl (FatalError ''Full queue'')
      else \<exists>Q'. qa_Enqueue x Q = Inr Q' \<and> qa_rep Q' (xs @ [x])"
    using qa_Enqueue_ok [OF assms, of x] queue.enq_full [OF assms, of x] by force
next
  show "case xs of
       [] \<Rightarrow> qa_Front Q = Inl (FatalError ''Empty queue'') \<and> qa_Dequeue Q = Inl (FatalError ''Empty queue'') \<and>
         qa_FrontAndDequeue Q = Inl (FatalError ''Empty queue'')
     | y # ys \<Rightarrow> \<exists>Q'. qa_Front Q = Inr y \<and> qa_Dequeue Q = Inr Q' \<and> qa_FrontAndDequeue Q = Inr (y, Q') \<and>
         qa_rep Q' ys"
  proof (cases xs)
    case Nil
    then have "qSize Q = 0" using assms by (simp add: qa_rep_def)
    with Nil show ?thesis
      by (simp add: qa_Front_def qa_Dequeue_def qa_FrontAndDequeue_def qa_IsEmpty_def)
  next
    case (Cons y ys)
    then show ?thesis using qa_FrontAndDequeue_ok [of Q y ys] assms by auto
  qed
qed

theorem Queue_operations_witness:
  "qa_Front \<lparr>qCapacity = 2, qFront = 1, qRear = 0, qSize = 0, qArray = [7, 7]\<rparr> = Inl (FatalError ''Empty queue'')"
  using Queue_operations [of "\<lparr>qCapacity = 2, qFront = 1, qRear = 0, qSize = 0, qArray = [7, 7]\<rparr>" "[]" 0]
  by (simp add: qa_rep_def)

end
