(* ===== verification/LinkedCells.thy ===== *)
theory LinkedCells
  imports CBase
begin

text \<open>
  Linked cells, the representation shared by \<^verbatim>\<open>list.c\<close>, \<^verbatim>\<open>stackli.c\<close>,
  \<^verbatim>\<open>hashsep.c\<close> and \<^verbatim>\<open>cursor.c\<close> of \<^verbatim>\<open>src/DSAAC\<close>.

  A heap maps addresses to cells; \<open>NULL\<close> is the address 0. \<open>malloc\<close> is a parameter
  of the operations: the address \<open>t\<close> it returns, 0 on failure, and the cell
  \<open>g\<close> the memory held. The theorems assume of it only that a returned block is not in use.

  \<open>seg h p ps q\<close> says that following \<open>Next\<close> from \<open>p\<close> visits the cells
  \<open>ps\<close> and arrives at \<open>q\<close>.
\<close>

section \<open>The heap\<close>

record cell =
  Element :: int
  Next :: int

type_synonym heap = "int \<rightharpoonup> cell"

definition deref :: "heap \<Rightarrow> int \<Rightarrow> cell res" where
  "deref h p = (if p = 0 then Inl NullDeref else case h p of None \<Rightarrow> Inl BadAccess | Some c \<Rightarrow> Inr c)"

definition set_Next :: "heap \<Rightarrow> int \<Rightarrow> int \<Rightarrow> heap res" where
  "set_Next h p q = bindr (deref h p) (\<lambda>c. Inr (h(p \<mapsto> c\<lparr>Next := q\<rparr>)))"

definition set_Element :: "heap \<Rightarrow> int \<Rightarrow> int \<Rightarrow> heap res" where
  "set_Element h p x = bindr (deref h p) (\<lambda>c. Inr (h(p \<mapsto> c\<lparr>Element := x\<rparr>)))"

definition free_cell :: "heap \<Rightarrow> int \<Rightarrow> heap res" where
  "free_cell h p = (if h p = None then Inl BadAccess else Inr (h(p := None)))"

definition elem :: "heap \<Rightarrow> int \<Rightarrow> int" where
  "elem h p = Element (the (h p))"

definition fresh :: "heap \<Rightarrow> int \<Rightarrow> bool" where
  \<comment> \<open>a successful \<open>malloc\<close>\<close>
  "fresh h t \<longleftrightarrow> t \<noteq> 0 \<and> h t = None"

definition malloc_ok :: "(heap \<Rightarrow> int) \<Rightarrow> bool" where
  \<comment> \<open>an allocator that never fails and never returns a block in use\<close>
  "malloc_ok al \<longleftrightarrow> (\<forall>h. finite (dom h) \<longrightarrow> fresh h (al h))"

lemma malloc_ok_above: "malloc_ok (\<lambda>h. Max (insert 0 (dom h)) + 1)"
  unfolding malloc_ok_def fresh_def
proof (intro allI impI conjI)
  fix h :: heap assume f: "finite (dom h)"
  have "0 \<le> Max (insert 0 (dom h))" using f by simp
  then show "Max (insert 0 (dom h)) + 1 \<noteq> 0" by simp
  show "h (Max (insert 0 (dom h)) + 1) = None"
  proof (rule ccontr)
    assume "h (Max (insert 0 (dom h)) + 1) \<noteq> None"
    then have "Max (insert 0 (dom h)) + 1 \<le> Max (insert 0 (dom h))" using f by (intro Max_ge) auto
    then show False by simp
  qed
qed

lemma deref_ok: "p \<noteq> 0 \<Longrightarrow> h p = Some c \<Longrightarrow> deref h p = Inr c"
  by (simp add: deref_def)

lemma set_Next_ok: "p \<noteq> 0 \<Longrightarrow> h p = Some c \<Longrightarrow> set_Next h p q = Inr (h(p \<mapsto> c\<lparr>Next := q\<rparr>))"
  by (simp add: set_Next_def deref_ok)

lemma set_Element_ok: "p \<noteq> 0 \<Longrightarrow> h p = Some c \<Longrightarrow> set_Element h p x = Inr (h(p \<mapsto> c\<lparr>Element := x\<rparr>))"
  by (simp add: set_Element_def deref_ok)

lemma free_cell_ok: "h p = Some c \<Longrightarrow> free_cell h p = Inr (h(p := None))"
  by (simp add: free_cell_def)

lemmas heap_ok = deref_ok set_Next_ok set_Element_ok free_cell_ok

section \<open>Paths\<close>

fun seg :: "heap \<Rightarrow> int \<Rightarrow> int list \<Rightarrow> int \<Rightarrow> bool" where
  "seg h p [] q = (p = q)"
| "seg h p (a # as) q = (p = a \<and> a \<noteq> 0 \<and> (case h a of None \<Rightarrow> False | Some c \<Rightarrow> seg h (Next c) as q))"

lemma seg_append: "seg h p (as @ bs) q \<longleftrightarrow> (\<exists>m. seg h p as m \<and> seg h m bs q)"
  by (induction as arbitrary: p) (auto split: option.splits)

lemma seg_cong: "seg h p ps q \<Longrightarrow> (\<And>a. a \<in> set ps \<Longrightarrow> h' a = h a) \<Longrightarrow> seg h' p ps q"
  by (induction ps arbitrary: p) (auto split: option.splits)

lemma seg_in_dom: "seg h p ps q \<Longrightarrow> a \<in> set ps \<Longrightarrow> a \<noteq> 0 \<and> (\<exists>c. h a = Some c)"
  by (induction ps arbitrary: p) (auto split: option.splits)

lemma seg_fresh: "seg h p ps q \<Longrightarrow> fresh h t \<Longrightarrow> t \<notin> set ps"
  by (auto simp: fresh_def dest: seg_in_dom)

lemma seg_unique: "seg h p ps 0 \<Longrightarrow> seg h p qs 0 \<Longrightarrow> ps = qs"
proof (induction ps arbitrary: p qs)
  case Nil
  then show ?case by (cases qs) auto
next
  case (Cons a ps)
  then show ?case by (cases qs) (auto split: option.splits)
qed

lemma seg_head: "seg h p (a # as) q \<Longrightarrow> p = a"
  by simp

lemma seg_next: "seg h p (as @ a # b # bs) q \<Longrightarrow> \<exists>c. h a = Some c \<and> Next c = b"
  by (auto simp: seg_append split: option.splits)

lemma seg_last: "seg h p (as @ [a]) q \<Longrightarrow> \<exists>c. h a = Some c \<and> Next c = q"
  by (auto simp: seg_append split: option.splits)

text \<open>The address after the cells of a path.\<close>

fun first_or :: "int list \<Rightarrow> int \<Rightarrow> int" where
  "first_or [] q = q"
| "first_or (a # as) q = a"

lemma seg_first_or: "seg h p ps q \<Longrightarrow> p = first_or ps q"
  by (cases ps) auto

lemma seg_split:
  "seg h p (as @ a # bs) q \<longleftrightarrow>
     seg h p as a \<and> a \<noteq> 0 \<and> (\<exists>c. h a = Some c \<and> seg h (Next c) bs q)"
  by (auto simp: seg_append split: option.splits)

text \<open>Linking a new cell \<open>t\<close> after \<open>a\<close>.\<close>

lemma seg_insert:
  assumes "seg h p (as @ a # bs) q" "distinct (as @ a # bs)" "h a = Some c" "t \<noteq> 0" "t \<notin> set (as @ a # bs)"
    and "h' a = Some (c\<lparr>Next := t\<rparr>)" "h' t = Some d" "Next d = Next c" "\<And>b. b \<noteq> a \<Longrightarrow> b \<noteq> t \<Longrightarrow> h' b = h b"
  shows "seg h' p (as @ a # t # bs) q"
proof -
  have f: "h' b = h b" if "b \<in> set as \<or> b \<in> set bs" for b
    using that assms(2,5) by (intro assms(9)) auto
  have "seg h p as a" "seg h (Next c) bs q" using assms(1,3) by (auto simp: seg_split)
  then have "seg h' p as a" "seg h' (Next c) bs q" by (auto intro!: seg_cong [of h] f)
  then show ?thesis using assms by (auto simp: seg_split)
qed

text \<open>Bypassing the cell \<open>t\<close> after \<open>a\<close>, whatever becomes of it.\<close>

lemma seg_delete:
  assumes "seg h p (as @ a # t # bs) q" "distinct (as @ a # t # bs)" "h a = Some c" "h t = Some d"
    and "h' a = Some (c\<lparr>Next := Next d\<rparr>)" "\<And>b. b \<noteq> a \<Longrightarrow> b \<noteq> t \<Longrightarrow> h' b = h b"
  shows "seg h' p (as @ a # bs) q"
proof -
  have f: "h' b = h b" if "b \<in> set as \<or> b \<in> set bs" for b
    using that assms(2) by (intro assms(6)) auto
  have "seg h p as a" "seg h (Next d) bs q" using assms(1,3,4) by (auto simp: seg_split split: option.splits)
  then have "seg h' p as a" "seg h' (Next d) bs q" by (auto intro!: seg_cong [of h] f)
  then show ?thesis using assms by (auto simp: seg_split)
qed

section \<open>Lists with a header\<close>

definition list_at :: "heap \<Rightarrow> int \<Rightarrow> int list \<Rightarrow> int list \<Rightarrow> bool" where
  "list_at h L ps xs \<longleftrightarrow> seg h L (L # ps) 0 \<and> distinct (L # ps) \<and> xs = map (elem h) ps"

lemma list_at_header:
  "list_at h L ps xs \<Longrightarrow> \<exists>c. L \<noteq> 0 \<and> h L = Some c \<and> seg h (Next c) ps 0 \<and> L \<notin> set ps \<and> distinct ps"
  by (auto simp: list_at_def split: option.splits)

lemma list_at_unique: "list_at h L ps xs \<Longrightarrow> list_at h L qs ys \<Longrightarrow> ps = qs \<and> xs = ys"
  using seg_unique [of h L "L # ps" "L # qs"] by (auto simp: list_at_def)

text \<open>Another list is not affected by what happens outside its cells.\<close>

lemma list_at_frame:
  "list_at h L ps xs \<Longrightarrow> (\<And>a. a \<in> set (L # ps) \<Longrightarrow> h' a = h a) \<Longrightarrow> list_at h' L ps xs"
  using seg_cong [of h L "L # ps" 0 h'] by (auto simp: list_at_def elem_def)

lemma list_at_cells: "list_at h L ps xs \<Longrightarrow> a \<in> set (L # ps) \<Longrightarrow> a \<noteq> 0 \<and> (\<exists>c. h a = Some c)"
  unfolding list_at_def using seg_in_dom by blast

lemma list_at_insert:
  assumes l: "list_at h L ps xs" and k: "k \<le> length ps" "a = (L # ps) ! k" "h a = Some c"
    and t: "t \<noteq> 0" "t \<notin> set (L # ps)"
    and h': "h' a = Some (c\<lparr>Next := t\<rparr>)" "h' t = Some \<lparr>Element = X, Next = Next c\<rparr>"
      "\<And>b. b \<noteq> a \<Longrightarrow> b \<noteq> t \<Longrightarrow> h' b = h b"
  shows "list_at h' L (take k ps @ t # drop k ps) (take k xs @ X # drop k xs)"
proof -
  define as where "as = take k (L # ps)"
  define bs where "bs = drop k ps"
  have sp: "L # ps = as @ a # bs"
    using k id_take_nth_drop [of k "L # ps"] by (simp add: as_def bs_def)
  have s: "seg h L (as @ a # bs) 0" "distinct (as @ a # bs)" using l sp by (auto simp: list_at_def)
  have tn: "t \<notin> set (as @ a # bs)" using t(2) sp by metis
  have "seg h' L (as @ a # t # bs) 0" by (rule seg_insert [OF s k(3) t(1) tn h'(1,2) _ h'(3)]) simp_all
  moreover have "as @ a # t # bs = L # (take k ps @ t # drop k ps)"
    using k(1,2) by (cases k) (auto simp: as_def bs_def take_Suc_conv_app_nth)
  moreover have "elem h' p = elem h p" if "p \<in> set ps" for p
  proof -
    have "p \<noteq> t" using that t(2) by auto
    then show ?thesis using h'(1) h'(3) [of p] k(3) by (cases "p = a") (auto simp: elem_def)
  qed
  then have "map (elem h') (take k ps) = take k xs" "map (elem h') (drop k ps) = drop k xs"
    using l by (auto simp: list_at_def take_map drop_map dest!: in_set_takeD in_set_dropD)
  moreover have "distinct (as @ a # t # bs)" using s(2) tn by auto
  ultimately show ?thesis using h'(2) by (auto simp: list_at_def elem_def)
qed

lemma map_remove1_dropWhile:
  "map f (takeWhile (\<lambda>a. f a \<noteq> X) ps @ tl (dropWhile (\<lambda>a. f a \<noteq> X) ps)) = remove1 X (map f ps)"
  by (induction ps) auto

text \<open>The list around the first cell that holds \<open>X\<close>.\<close>

lemma list_at_split:
  assumes l: "list_at h L ps xs" and D: "dropWhile (\<lambda>a. elem h a \<noteq> X) ps = t # bs"
    and a: "a = last (L # takeWhile (\<lambda>a. elem h a \<noteq> X) ps)"
  shows "\<exists>c d. a \<noteq> 0 \<and> t \<noteq> 0 \<and> a \<noteq> t \<and> h a = Some c \<and> Next c = t \<and> h t = Some d \<and> Element d = X"
    and "h a = Some c \<Longrightarrow> h t = Some d \<Longrightarrow> h' a = Some (c\<lparr>Next := Next d\<rparr>) \<Longrightarrow>
      (\<And>b. b \<noteq> a \<Longrightarrow> b \<noteq> t \<Longrightarrow> h' b = h b) \<Longrightarrow>
      list_at h' L (takeWhile (\<lambda>a. elem h a \<noteq> X) ps @ bs) (remove1 X xs)"
proof -
  let ?T = "takeWhile (\<lambda>a. elem h a \<noteq> X) ps"
  define as where "as = butlast (L # ?T)"
  have aT: "as @ [a] = L # ?T" unfolding as_def a by (rule append_butlast_last_id) simp
  then have "L # ps = as @ a # t # bs"
    using D by (metis append.assoc append_Cons append_Nil takeWhile_dropWhile_id)
  then have s: "seg h L (as @ a # t # bs) 0" "distinct (as @ a # t # bs)" using l by (auto simp: list_at_def)
  have "elem h t = X" using D hd_dropWhile [of "\<lambda>a. elem h a \<noteq> X" ps] by simp
  then show "\<exists>c d. a \<noteq> 0 \<and> t \<noteq> 0 \<and> a \<noteq> t \<and> h a = Some c \<and> Next c = t \<and> h t = Some d \<and> Element d = X"
    using s by (auto simp: seg_split elem_def split: option.splits)
  assume c: "h a = Some c" "h t = Some d" "h' a = Some (c\<lparr>Next := Next d\<rparr>)"
    "\<And>b. b \<noteq> a \<Longrightarrow> b \<noteq> t \<Longrightarrow> h' b = h b"
  have S': "seg h' L (as @ a # bs) 0" by (rule seg_delete [OF s c])
  have eq: "as @ a # bs = L # (?T @ bs)" using aT by (metis append.assoc append_Cons append_Nil)
  have D': "distinct (as @ a # bs)" using s(2) by auto
  have "map (elem h') (?T @ bs) = map (elem h) (?T @ bs)"
  proof (rule map_cong [OF refl])
    fix p assume "p \<in> set (?T @ bs)"
    then have "p \<in> set (as @ a # bs)" unfolding eq by simp
    then have "p \<noteq> t" using s(2) by auto
    then show "elem h' p = elem h p" using c by (cases "p = a") (auto simp: elem_def)
  qed
  moreover have "map (elem h) (?T @ bs) = remove1 X xs"
    using l D map_remove1_dropWhile [of "elem h" X ps] by (simp add: list_at_def)
  ultimately show "list_at h' L (?T @ bs) (remove1 X xs)"
    using S' D' unfolding eq list_at_def by metis
qed

text \<open>The position of that cell.\<close>

lemma dropWhile_index:
  "dropWhile (\<lambda>a. f a \<noteq> X) ps = q # qs \<Longrightarrow>
     \<exists>k < length ps. q = ps ! k \<and> f q = X \<and> (\<forall>j < k. f (ps ! j) \<noteq> X) \<and> takeWhile (\<lambda>a. f a \<noteq> X) ps = take k ps"
proof (induction ps)
  case (Cons p ps)
  show ?case
  proof (cases "f p = X")
    case True
    then show ?thesis using Cons.prems by (intro exI [of _ 0]) simp
  next
    case False
    then obtain k where k: "k < length ps" "q = ps ! k" "f q = X" "\<forall>j < k. f (ps ! j) \<noteq> X"
        "takeWhile (\<lambda>a. f a \<noteq> X) ps = take k ps" using Cons by auto
    then show ?thesis using False by (intro exI [of _ "Suc k"]) (auto simp: less_Suc_eq_0_disj)
  qed
qed simp

lemma last_take_nth: "k < length ps \<Longrightarrow> last (L # take k ps) = (L # ps) ! k"
  by (cases k) (auto simp: take_Suc_conv_app_nth)

section \<open>Searching\<close>

text \<open>\<open>while( P != NULL && P->Element != X ) P = P->Next\<close>\<close>

partial_function (option) find_loop :: "heap \<Rightarrow> int \<Rightarrow> int \<Rightarrow> int res option" where
  "find_loop h X P =
    (if P = 0 then Some (Inr P)
     else case deref h P of Inl e \<Rightarrow> Some (Inl e)
       | Inr c \<Rightarrow> if Element c \<noteq> X then find_loop h X (Next c) else Some (Inr P))"

text \<open>\<open>while( P->Next != NULL && P->Next->Element != X ) P = P->Next\<close>\<close>

partial_function (option) prev_loop :: "heap \<Rightarrow> int \<Rightarrow> int \<Rightarrow> int res option" where
  "prev_loop h X P =
    (case deref h P of Inl e \<Rightarrow> Some (Inl e)
     | Inr c \<Rightarrow>
        if Next c = 0 then Some (Inr P)
        else case deref h (Next c) of Inl e \<Rightarrow> Some (Inl e)
          | Inr d \<Rightarrow> if Element d \<noteq> X then prev_loop h X (Next c) else Some (Inr P))"

text \<open>\<open>while( P != NULL ) { Tmp = P->Next; free( P ); P = Tmp; }\<close>\<close>

partial_function (option) free_loop :: "heap \<Rightarrow> int \<Rightarrow> heap res option" where
  "free_loop h P =
    (if P = 0 then Some (Inr h)
     else case deref h P of Inl e \<Rightarrow> Some (Inl e)
       | Inr c \<Rightarrow> (case free_cell h P of Inl e \<Rightarrow> Some (Inl e) | Inr h' \<Rightarrow> free_loop h' (Next c)))"

lemma find_loop_ok:
  "seg h p ps 0 \<Longrightarrow> find_loop h X p = Some (Inr (first_or (dropWhile (\<lambda>a. elem h a \<noteq> X) ps) 0))"
proof (induction ps arbitrary: p)
  case Nil
  then show ?case by (subst find_loop.simps) simp
next
  case (Cons a ps)
  then show ?case by (subst find_loop.simps) (auto simp: heap_ok elem_def split: option.splits)
qed

lemma prev_loop_ok:
  "seg h p (p # ps) 0 \<Longrightarrow> prev_loop h X p = Some (Inr (last (p # takeWhile (\<lambda>a. elem h a \<noteq> X) ps)))"
proof (induction ps arbitrary: p)
  case Nil
  then show ?case by (subst prev_loop.simps) (auto simp: heap_ok split: option.splits)
next
  case (Cons a ps)
  then obtain c d where c: "p \<noteq> 0" "h p = Some c" "Next c = a" "a \<noteq> 0" "h a = Some d" "seg h a (a # ps) 0"
    by (auto split: option.splits)
  then show ?case using Cons.IH [of a] by (subst prev_loop.simps) (auto simp: heap_ok elem_def)
qed

lemma free_loop_ok:
  "seg h p ps 0 \<Longrightarrow> distinct ps \<Longrightarrow> free_loop h p = Some (Inr (h |` (- set ps)))"
proof (induction ps arbitrary: h p)
  case Nil
  then show ?case by (subst free_loop.simps) (simp add: restrict_map_def)
next
  case (Cons a ps)
  then obtain c where c: "p = a" "a \<noteq> 0" "h a = Some c" "seg h (Next c) ps 0"
    by (auto split: option.splits)
  have "seg (h(a := None)) (Next c) ps 0" using c(4) Cons.prems(2) by (auto intro: seg_cong)
  moreover have "distinct ps" using Cons.prems(2) by simp
  ultimately have "free_loop (h(a := None)) (Next c) = Some (Inr (h(a := None) |` (- set ps)))"
    by (rule Cons.IH)
  moreover have "h(a := None) |` (- set ps) = h |` (- set (a # ps))"
    by (auto simp: restrict_map_def)
  ultimately show ?case using c by (subst free_loop.simps) (simp add: heap_ok)
qed

end
