(* ===== verification/ListAdt.thy ===== *)
theory ListAdt
  imports LinkedCells
begin

text \<open>
  \<^verbatim>\<open>src/DSAAC/list.c\<close>: the singly linked list with a header node, in an explicit heap.
  A list is the address of its header, a position the address of a cell. \<open>list_at h L ps xs\<close>
  says that the list at \<open>L\<close> consists of the cells \<open>ps\<close> and holds \<open>xs\<close>.
\<close>

section \<open>Operations\<close>

definition ll_DeleteList :: "int \<Rightarrow> heap \<Rightarrow> heap res option" where
  "ll_DeleteList L h =
    andthen (Some (deref h L)) (\<lambda>c.
      andthen (Some (set_Next h L 0)) (\<lambda>h. free_loop h (Next c)))"

definition ll_MakeEmpty :: "int \<Rightarrow> cell \<Rightarrow> int \<Rightarrow> heap \<Rightarrow> (int \<times> heap) res option" where
  \<comment> \<open>\<open>malloc\<close> is called after \<open>DeleteList\<close> and returns \<open>t\<close>\<close>
  "ll_MakeEmpty t g L h =
    andthen (if L \<noteq> 0 then ll_DeleteList L h else Some (Inr h)) (\<lambda>h.
      if t = 0 then Some (Inl (FatalError ''Out of memory!''))
      else Some (bindr (set_Next (h(t \<mapsto> g)) t 0) (\<lambda>h. Inr (t, h))))"

definition ll_IsEmpty :: "int \<Rightarrow> heap \<Rightarrow> bool res" where
  "ll_IsEmpty L h = bindr (deref h L) (\<lambda>c. Inr (Next c = 0))"

definition ll_IsLast :: "int \<Rightarrow> int \<Rightarrow> heap \<Rightarrow> bool res" where
  "ll_IsLast P L h = bindr (deref h P) (\<lambda>c. Inr (Next c = 0))"

definition ll_Find :: "int \<Rightarrow> int \<Rightarrow> heap \<Rightarrow> int res option" where
  "ll_Find X L h = andthen (Some (deref h L)) (\<lambda>c. find_loop h X (Next c))"

definition ll_FindPrevious :: "int \<Rightarrow> int \<Rightarrow> heap \<Rightarrow> int res option" where
  "ll_FindPrevious X L h = prev_loop h X L"

definition ll_Delete :: "int \<Rightarrow> int \<Rightarrow> heap \<Rightarrow> heap res option" where
  "ll_Delete X L h =
    andthen (ll_FindPrevious X L h) (\<lambda>P. Some (
      bindr (ll_IsLast P L h) (\<lambda>b.
        if \<not> b then
          bindr (deref h P) (\<lambda>c. let TmpCell = Next c in
            bindr (deref h TmpCell) (\<lambda>d.
              bindr (set_Next h P (Next d)) (\<lambda>h. free_cell h TmpCell)))
        else Inr h)))"

definition ll_Insert :: "int \<Rightarrow> cell \<Rightarrow> int \<Rightarrow> int \<Rightarrow> int \<Rightarrow> heap \<Rightarrow> heap res" where
  "ll_Insert t g X L P h =
    (if t = 0 then Inl (FatalError ''Out of space!!!'')
     else
       bindr (set_Element (h(t \<mapsto> g)) t X) (\<lambda>h.
         bindr (deref h P) (\<lambda>c.
           bindr (set_Next h t (Next c)) (\<lambda>h. set_Next h P t))))"

definition ll_Header :: "int \<Rightarrow> int" where "ll_Header L = L"

definition ll_First :: "int \<Rightarrow> heap \<Rightarrow> int res" where
  "ll_First L h = bindr (deref h L) (\<lambda>c. Inr (Next c))"

definition ll_Advance :: "int \<Rightarrow> heap \<Rightarrow> int res" where
  "ll_Advance P h = bindr (deref h P) (\<lambda>c. Inr (Next c))"

definition ll_Retrieve :: "int \<Rightarrow> heap \<Rightarrow> int res" where
  "ll_Retrieve P h = bindr (deref h P) (\<lambda>c. Inr (Element c))"

section \<open>Correctness\<close>

lemma ll_Find_ok:
  assumes "list_at h L ps xs"
  shows "ll_Find X L h = Some (Inr (first_or (dropWhile (\<lambda>a. elem h a \<noteq> X) ps) 0))"
  using list_at_header [OF assms] find_loop_ok [of h _ ps X] by (auto simp: ll_Find_def heap_ok)

lemma ll_FindPrevious_ok:
  "list_at h L ps xs \<Longrightarrow> ll_FindPrevious X L h = Some (Inr (last (L # takeWhile (\<lambda>a. elem h a \<noteq> X) ps)))"
  using prev_loop_ok [of h L ps X] by (simp add: ll_FindPrevious_def list_at_def)

lemma ll_Insert_ok:
  assumes l: "list_at h L ps xs" and k: "k \<le> length ps" and t: "fresh h t"
  shows "\<exists>h'. ll_Insert t g X L ((L # ps) ! k) h = Inr h' \<and>
    list_at h' L (take k ps @ t # drop k ps) (take k xs @ X # drop k xs) \<and>
    (\<forall>a. a \<noteq> (L # ps) ! k \<and> a \<noteq> t \<longrightarrow> h' a = h a)"
proof -
  let ?a = "(L # ps) ! k"
  have "?a \<in> set (L # ps)" using k by (intro nth_mem) simp
  then obtain c where c: "?a \<noteq> 0" "h ?a = Some c" using list_at_cells [OF l] by blast
  have tn: "t \<notin> set (L # ps)" using list_at_cells [OF l] t unfolding fresh_def by fastforce
  let ?h = "h(t \<mapsto> \<lparr>Element = X, Next = Next c\<rparr>, ?a \<mapsto> c\<lparr>Next := t\<rparr>)"
  have ta: "t \<noteq> ?a" using tn \<open>?a \<in> set (L # ps)\<close> by auto
  then have "ll_Insert t g X L ?a h = Inr ?h"
    using c t by (auto simp: ll_Insert_def heap_ok fresh_def fun_upd_def fun_eq_iff)
  moreover have "list_at ?h L (take k ps @ t # drop k ps) (take k xs @ X # drop k xs)"
    by (rule list_at_insert [OF l k refl c(2) _ tn]) (use t ta in \<open>auto simp: fresh_def\<close>)
  ultimately show ?thesis by auto
qed

lemma ll_Delete_ok:
  assumes l: "list_at h L ps xs"
  shows "\<exists>h'. ll_Delete X L h = Some (Inr h') \<and>
    (case dropWhile (\<lambda>a. elem h a \<noteq> X) ps of
       [] \<Rightarrow> h' = h
     | t # bs \<Rightarrow> list_at h' L (takeWhile (\<lambda>a. elem h a \<noteq> X) ps @ bs) (remove1 X xs) \<and> h' t = None \<and>
         (\<forall>a. a \<noteq> t \<and> a \<noteq> last (L # takeWhile (\<lambda>a. elem h a \<noteq> X) ps) \<longrightarrow> h' a = h a))"
proof -
  let ?T = "takeWhile (\<lambda>a. elem h a \<noteq> X) ps" and ?D = "dropWhile (\<lambda>a. elem h a \<noteq> X) ps"
  define a where "a = last (L # ?T)"
  have prev: "ll_FindPrevious X L h = Some (Inr a)" using ll_FindPrevious_ok [OF l] by (simp add: a_def)
  show ?thesis
  proof (cases ?D)
    case Nil
    then have T: "?T = ps" by (metis append_Nil2 takeWhile_dropWhile_id)
    have "L # ps = butlast (L # ps) @ [a]"
      unfolding a_def T by (rule append_butlast_last_id [symmetric]) simp
    then have "seg h L (butlast (L # ps) @ [a]) 0" using l unfolding list_at_def by metis
    then obtain c where "a \<noteq> 0" "h a = Some c" "Next c = 0" by (auto simp: seg_split)
    then have "ll_Delete X L h = Some (Inr h)" using prev by (simp add: ll_Delete_def ll_IsLast_def heap_ok)
    then show ?thesis unfolding Nil by simp
  next
    case (Cons t bs)
    note sp = list_at_split [OF l Cons a_def]
    obtain c d where c: "a \<noteq> 0" "t \<noteq> 0" "a \<noteq> t" "h a = Some c" "Next c = t" "h t = Some d"
      using sp(1) by blast
    let ?h = "h(a \<mapsto> c\<lparr>Next := Next d\<rparr>, t := None)"
    have "ll_Delete X L h = Some (Inr ?h)"
      using prev c by (simp add: ll_Delete_def ll_IsLast_def heap_ok Let_def fun_upd_twist)
    moreover have "list_at ?h L (?T @ bs) (remove1 X xs)" using c by (intro sp(2)) auto
    ultimately show ?thesis using Cons unfolding a_def [symmetric] by auto
  qed
qed

lemma ll_DeleteList_ok:
  assumes "list_at h L ps xs"
  shows "\<exists>h'. ll_DeleteList L h = Some (Inr h') \<and> list_at h' L [] [] \<and>
    (\<forall>a. h' a = (if a \<in> set ps then None else if a = L then h' L else h a))"
proof -
  obtain c where c: "L \<noteq> 0" "h L = Some c" "seg h (Next c) ps 0" "L \<notin> set ps" "distinct ps"
    using list_at_header [OF assms] by blast
  let ?h = "h(L \<mapsto> c\<lparr>Next := 0\<rparr>)"
  have "seg ?h (Next c) ps 0" using c(3,4) by (auto intro: seg_cong)
  then have "ll_DeleteList L h = Some (Inr (?h |` (- set ps)))"
    using c free_loop_ok by (simp add: ll_DeleteList_def heap_ok)
  then show ?thesis using c by (auto simp: list_at_def restrict_map_def)
qed

section \<open>Properties\<close>

text \<open>\<open>Insert( X, L, P )\<close> after any position \<open>P\<close> of a list (the header
  or its \<open>k\<close>-th cell) puts \<open>X\<close> at index \<open>k\<close> and changes no cell but
  \<open>P\<close> and the new one; a failed \<open>malloc\<close> ends the program.\<close>

theorem List_Insert:
  assumes "list_at h L ps xs" "k \<le> length ps" "fresh h t"
  shows "(\<exists>h'. ll_Insert t g X L ((L # ps) ! k) h = Inr h' \<and>
      list_at h' L (take k ps @ t # drop k ps) (take k xs @ X # drop k xs) \<and>
      (\<forall>a. a \<noteq> (L # ps) ! k \<and> a \<noteq> t \<longrightarrow> h' a = h a)) \<and>
    ll_Insert 0 g X L ((L # ps) ! k) h = Inl (FatalError ''Out of space!!!'')"
  using ll_Insert_ok [OF assms] by (auto simp: ll_Insert_def)

theorem List_Insert_witness:
  "\<exists>h'. ll_Insert 7 \<lparr>Element = 0, Next = 3\<rparr> 42 4 4 [4 \<mapsto> \<lparr>Element = 9, Next = 0\<rparr>] = Inr h' \<and> list_at h' 4 [7] [42]"
  using List_Insert [of "[4 \<mapsto> \<lparr>Element = 9, Next = 0\<rparr>]" 4 "[]" "[]" 0 7 "\<lparr>Element = 0, Next = 3\<rparr>" 42]
  by (auto simp: list_at_def fresh_def)

text \<open>C24: on every list the searches and \<open>Delete\<close> return. \<open>Find\<close> returns
  the first cell that holds \<open>X\<close> and \<open>NULL\<close> if there is none; \<open>Delete\<close>
  removes the first occurrence of \<open>X\<close>, if any, frees exactly its cell and leaves the rest of
  the memory unchanged but for the link to it.\<close>

theorem List_Find_Delete:
  assumes "list_at h L ps xs"
  shows "(\<exists>P. ll_Find X L h = Some (Inr P) \<and>
      (if X \<in> set xs then \<exists>k < length ps. P = ps ! k \<and> xs ! k = X \<and> (\<forall>j < k. xs ! j \<noteq> X) else P = 0)) \<and>
    (\<exists>h' ps'. ll_Delete X L h = Some (Inr h') \<and> list_at h' L ps' (remove1 X xs) \<and>
      (X \<notin> set xs \<longrightarrow> h' = h) \<and>
      (X \<in> set xs \<longrightarrow> (\<exists>k < length ps. xs ! k = X \<and> h' (ps ! k) = None \<and>
         (\<forall>a. a \<noteq> ps ! k \<and> a \<noteq> (L # ps) ! k \<longrightarrow> h' a = h a))))"
proof -
  let ?D = "dropWhile (\<lambda>a. elem h a \<noteq> X) ps"
  have xs: "xs = map (elem h) ps" using assms by (simp add: list_at_def)
  note D = ll_Delete_ok [OF assms, of X]
  show ?thesis
  proof (cases ?D)
    case Nil
    then have "X \<notin> set xs" using xs by auto
    then show ?thesis using D ll_Find_ok [OF assms, of X] assms unfolding Nil
      by (auto simp: remove1_idem)
  next
    case (Cons q qs)
    then obtain k where k: "k < length ps" "q = ps ! k" "elem h q = X" "\<forall>j < k. elem h (ps ! j) \<noteq> X"
        "takeWhile (\<lambda>a. elem h a \<noteq> X) ps = take k ps"
      using dropWhile_index [of "elem h" X ps q qs] by blast
    then have X: "X \<in> set xs" "xs ! k = X" "\<forall>j < k. xs ! j \<noteq> X" using xs by auto
    show ?thesis using Cons D ll_Find_ok [OF assms, of X] k X last_take_nth [OF k(1), of L]
      by (auto intro: exI [of _ k])
  qed
qed

theorem List_Find_Delete_witness:
  "\<exists>h' ps'. ll_Delete 5 4 [4 \<mapsto> \<lparr>Element = 9, Next = 6\<rparr>, 6 \<mapsto> \<lparr>Element = 5, Next = 0\<rparr>] = Some (Inr h') \<and>
     list_at h' 4 ps' []"
  using List_Find_Delete [of "[4 \<mapsto> \<lparr>Element = 9, Next = 6\<rparr>, 6 \<mapsto> \<lparr>Element = 5, Next = 0\<rparr>]" 4 "[6]" "[5]" 5]
  by (auto simp: list_at_def elem_def)

text \<open>\<open>DeleteList\<close> frees every cell of the list once and keeps the header as
  an empty list; \<open>MakeEmpty( NULL )\<close> makes a new empty list; \<open>MakeEmpty( L )\<close> of an
  existing list makes a new one too, and the old header stays allocated.\<close>

theorem List_MakeEmpty:
  assumes "list_at h L ps xs" "fresh h t" "fresh h' t" "t \<noteq> L"
  shows "(\<exists>h1. ll_DeleteList L h = Some (Inr h1) \<and> list_at h1 L [] [] \<and> dom h1 = dom h - set ps) \<and>
    (\<exists>h1. ll_MakeEmpty t g 0 h' = Some (Inr (t, h1)) \<and> list_at h1 t [] [] \<and> (\<forall>a. a \<noteq> t \<longrightarrow> h1 a = h' a)) \<and>
    (\<exists>h1. ll_MakeEmpty t g L h = Some (Inr (t, h1)) \<and> list_at h1 t [] [] \<and> list_at h1 L [] [] \<and>
      dom h1 = insert t (dom h - set ps))"
proof -
  obtain h1 where h1: "ll_DeleteList L h = Some (Inr h1)" "list_at h1 L [] []"
      "\<forall>a. h1 a = (if a \<in> set ps then None else if a = L then h1 L else h a)"
    using ll_DeleteList_ok [OF assms(1)] by blast
  have L: "L \<noteq> 0" "h L \<noteq> None" "L \<notin> set ps" "h1 L \<noteq> None"
    using list_at_header [OF assms(1)] list_at_header [OF h1(2)] by auto
  have dom: "dom h1 = dom h - set ps"
  proof (intro set_eqI)
    fix a show "a \<in> dom h1 \<longleftrightarrow> a \<in> dom h - set ps"
      using h1(3) [rule_format, of a] L by (auto simp: dom_def split: if_splits)
  qed
  have t: "t \<noteq> 0" using assms(2) by (simp add: fresh_def)
  let ?new = "\<lambda>h. h(t \<mapsto> g\<lparr>Next := 0\<rparr>)"
  have "ll_MakeEmpty t g L h = Some (Inr (t, ?new h1))" "ll_MakeEmpty t g 0 h' = Some (Inr (t, ?new h'))"
    using h1(1) L t by (auto simp: ll_MakeEmpty_def heap_ok)
  moreover have "list_at (?new f) t [] []" for f using t by (simp add: list_at_def)
  moreover have "list_at (?new h1) L [] []" using h1(2) assms(4) by (auto intro: list_at_frame)
  ultimately show ?thesis using h1 dom by (auto simp: dom_fun_upd)
qed

theorem List_MakeEmpty_witness:
  "\<exists>h1. ll_MakeEmpty 8 \<lparr>Element = 0, Next = 3\<rparr> 4 [4 \<mapsto> \<lparr>Element = 9, Next = 0\<rparr>] = Some (Inr (8, h1)) \<and>
     list_at h1 8 [] []"
  using List_MakeEmpty [of "[4 \<mapsto> \<lparr>Element = 9, Next = 0\<rparr>]" 4 "[]" "[]" 8 Map.empty "\<lparr>Element = 0, Next = 3\<rparr>"]
  by (auto simp: list_at_def fresh_def)

end
