(* ===== verification/StackList.thy ===== *)
theory StackList
  imports ListAdt StackArray
begin

text \<open>
  \<^verbatim>\<open>src/DSAAC/stackli.c\<close>: the stack as a linked list with a header, in the explicit heap of
  \<open>LinkedCells\<close>. The state of the interface \<open>stack_adt\<close> is the allocator, the heap
  and the header; the allocator maps the heap to the address its next \<open>malloc\<close> returns, and
  the theorems assume of it that the address is not in use.
\<close>

section \<open>Operations\<close>

definition sl_IsEmpty :: "int \<Rightarrow> heap \<Rightarrow> bool res" where
  "sl_IsEmpty S h = bindr (deref h S) (\<lambda>c. Inr (Next c = 0))"

definition sl_Push :: "int \<Rightarrow> cell \<Rightarrow> int \<Rightarrow> int \<Rightarrow> heap \<Rightarrow> heap res" where
  "sl_Push t g X S h =
    (if t = 0 then Inl (FatalError ''Out of space!!!'')
     else
       bindr (set_Element (h(t \<mapsto> g)) t X) (\<lambda>h.
         bindr (deref h S) (\<lambda>c.
           bindr (set_Next h t (Next c)) (\<lambda>h. set_Next h S t))))"

definition sl_Top :: "int \<Rightarrow> heap \<Rightarrow> int res" where
  "sl_Top S h =
    bindr (sl_IsEmpty S h) (\<lambda>b.
      if \<not> b then bindr (deref h S) (\<lambda>c. bindr (deref h (Next c)) (\<lambda>d. Inr (Element d)))
      else Inl (FatalError ''Empty stack''))"

definition sl_Pop :: "int \<Rightarrow> heap \<Rightarrow> heap res" where
  "sl_Pop S h =
    bindr (sl_IsEmpty S h) (\<lambda>b.
      if b then Inl (FatalError ''Empty stack'')
      else bindr (deref h S) (\<lambda>c. let FirstCell = Next c in
        bindr (deref h FirstCell) (\<lambda>d.
          bindr (set_Next h S (Next d)) (\<lambda>h. free_cell h FirstCell))))"

partial_function (option) sl_pop_loop :: "int \<Rightarrow> heap \<Rightarrow> heap res option" where
  \<comment> \<open>\<open>while( !IsEmpty( S ) ) Pop( S );\<close>\<close>
  "sl_pop_loop S h =
    (case sl_IsEmpty S h of Inl e \<Rightarrow> Some (Inl e)
     | Inr b \<Rightarrow> if b then Some (Inr h)
       else (case sl_Pop S h of Inl e \<Rightarrow> Some (Inl e) | Inr h' \<Rightarrow> sl_pop_loop S h'))"

definition sl_MakeEmpty :: "int \<Rightarrow> heap \<Rightarrow> heap res option" where
  "sl_MakeEmpty S h =
    (if S = 0 then Some (Inl (FatalError ''Must use CreateStack first'')) else sl_pop_loop S h)"

definition sl_CreateStack :: "int \<Rightarrow> cell \<Rightarrow> heap \<Rightarrow> (int \<times> heap) res option" where
  "sl_CreateStack t g h =
    (if t = 0 then Some (Inl (FatalError ''Out of space!!!''))
     else andthen (Some (set_Next (h(t \<mapsto> g)) t 0)) (\<lambda>h.
       andthen (sl_MakeEmpty t h) (\<lambda>h. Some (Inr (t, h)))))"

definition sl_DisposeStack :: "int \<Rightarrow> heap \<Rightarrow> heap res option" where
  "sl_DisposeStack S h = andthen (sl_MakeEmpty S h) (\<lambda>h. Some (free_cell h S))"

section \<open>Correctness\<close>

lemma sl_Push_Insert: "sl_Push t g X S h = ll_Insert t g X S S h"
  by (simp add: sl_Push_def ll_Insert_def)

lemma sl_IsEmpty_ok: "list_at h S ps xs \<Longrightarrow> sl_IsEmpty S h = Inr (xs = [])"
  by (cases ps) (auto simp: list_at_def sl_IsEmpty_def heap_ok split: option.splits)

lemma sl_Pop_ok:
  assumes "list_at h S (p # ps) (x # xs)"
  shows "\<exists>h'. sl_Pop S h = Inr h' \<and> list_at h' S ps xs \<and> sl_Top S h = Inr x \<and> dom h' = dom h - {p}"
proof -
  have s: "seg h S ([] @ S # p # ps) 0" "distinct ([] @ S # p # ps)" "x = elem h p" "xs = map (elem h) ps"
    using assms by (auto simp: list_at_def)
  obtain c d where c: "S \<noteq> 0" "h S = Some c" "Next c = p" "p \<noteq> 0" "h p = Some d" "p \<noteq> S"
    using s by (auto split: option.splits)
  let ?h = "h(S \<mapsto> c\<lparr>Next := Next d\<rparr>, p := None)"
  have "seg ?h S (S # ps) 0" using seg_delete [OF s(1,2) c(2,5), of ?h] c(6) by simp
  moreover have "map (elem ?h) ps = xs" using s c by (auto simp: elem_def)
  ultimately have "list_at ?h S ps xs" using s(2) by (simp add: list_at_def)
  moreover have "sl_Pop S h = Inr ?h" "sl_Top S h = Inr x"
    using c s(3) sl_IsEmpty_ok [OF assms]
    by (auto simp: sl_Pop_def sl_Top_def heap_ok Let_def elem_def fun_upd_twist)
  moreover have "dom ?h = dom h - {p}" using c by auto
  ultimately show ?thesis by blast
qed

lemma sl_pop_loop_ok:
  "list_at h S ps xs \<Longrightarrow> \<exists>h'. sl_pop_loop S h = Some (Inr h') \<and> list_at h' S [] [] \<and> dom h' = dom h - set ps"
proof (induction ps arbitrary: h xs)
  case Nil
  then have "xs = []" by (simp add: list_at_def)
  then have "sl_pop_loop S h = Some (Inr h)"
    using sl_IsEmpty_ok [OF Nil] by (subst sl_pop_loop.simps) simp
  then show ?case using Nil \<open>xs = []\<close> by simp
next
  case (Cons p ps)
  then obtain x ys where xs: "xs = x # ys" by (auto simp: list_at_def)
  obtain h1 where h1: "sl_Pop S h = Inr h1" "list_at h1 S ps ys" "dom h1 = dom h - {p}"
    using sl_Pop_ok [of h S p ps x ys] Cons.prems xs by blast
  obtain h' where "sl_pop_loop S h1 = Some (Inr h')" "list_at h' S [] []" "dom h' = dom h1 - set ps"
    using Cons.IH [OF h1(2)] by auto
  moreover have "sl_pop_loop S h = sl_pop_loop S h1"
    using h1(1) xs sl_IsEmpty_ok [OF Cons.prems] by (subst sl_pop_loop.simps) simp
  moreover have "dom h - {p} - set ps = dom h - set (p # ps)" by auto
  ultimately show ?case using h1(3) by simp
qed

section \<open>The list as a stack\<close>

type_synonym sl_state = "(heap \<Rightarrow> int) \<times> heap \<times> int"

definition slp_push :: "cell \<Rightarrow> int \<Rightarrow> sl_state \<Rightarrow> sl_state res" where
  "slp_push g x = (\<lambda>(al, h, S). bindr (sl_Push (al h) g x S h) (\<lambda>h. Inr (al, h, S)))"

definition slp_pop :: "sl_state \<Rightarrow> sl_state res" where
  "slp_pop = (\<lambda>(al, h, S). bindr (sl_Pop S h) (\<lambda>h. Inr (al, h, S)))"

definition slp_top :: "sl_state \<Rightarrow> int res" where
  "slp_top = (\<lambda>(al, h, S). sl_Top S h)"

definition slp_isemp :: "sl_state \<Rightarrow> bool res" where
  "slp_isemp = (\<lambda>(al, h, S). sl_IsEmpty S h)"

definition slp_rep :: "sl_state \<Rightarrow> int list \<Rightarrow> bool" where
  "slp_rep = (\<lambda>(al, h, S) xs. malloc_ok al \<and> finite (dom h) \<and> (\<exists>ps. list_at h S ps xs))"

lemma slp_push_ok: "slp_rep s xs \<Longrightarrow> \<exists>s'. slp_push g x s = Inr s' \<and> slp_rep s' (x # xs)"
proof -
  assume r: "slp_rep s xs"
  obtain al h S where s: "s = (al, h, S)" by (cases s)
  obtain ps where ps: "list_at h S ps xs" "fresh h (al h)" "finite (dom h)"
    using r s by (auto simp: slp_rep_def malloc_ok_def)
  from ll_Insert_ok [OF ps(1) _ ps(2), of 0 g x] obtain h' where h':
    "sl_Push (al h) g x S h = Inr h'" "list_at h' S (al h # ps) (x # xs)"
    "\<forall>a. a \<noteq> S \<and> a \<noteq> al h \<longrightarrow> h' a = h a"
    by (auto simp: sl_Push_Insert)
  have "dom h' \<subseteq> insert S (insert (al h) (dom h))" using h'(3) by fastforce
  then have "finite (dom h')" using ps(3) by (meson finite.insertI finite_subset)
  then show ?thesis using r s h' by (auto simp: slp_push_def slp_rep_def)
qed

lemma slp_top_pop_ok: "slp_rep s (x # xs) \<Longrightarrow> slp_top s = Inr x \<and> (\<exists>s'. slp_pop s = Inr s' \<and> slp_rep s' xs)"
proof -
  assume r: "slp_rep s (x # xs)"
  obtain al h S where s: "s = (al, h, S)" by (cases s)
  obtain ps where "list_at h S ps (x # xs)" using r s by (auto simp: slp_rep_def)
  moreover from this obtain p qs where "ps = p # qs" by (auto simp: list_at_def)
  ultimately show ?thesis using sl_Pop_ok [of h S p qs x xs] r s
    by (auto simp: slp_top_def slp_pop_def slp_rep_def)
qed

lemma slp_empty: "slp_rep s xs \<Longrightarrow> slp_isemp s = Inr (xs = []) \<and>
   (xs = [] \<longrightarrow> slp_top s = Inl (FatalError ''Empty stack'') \<and> slp_pop s = Inl (FatalError ''Empty stack''))"
  using sl_IsEmpty_ok
  by (cases s) (auto simp: slp_rep_def slp_isemp_def slp_top_def slp_pop_def sl_Top_def sl_Pop_def)

interpretation stackli: stack_adt slp_isemp "slp_push g" slp_top slp_pop slp_rep "\<lambda>_ _. True" for g
  by unfold_locales (simp_all add: slp_push_ok slp_top_pop_ok slp_empty del: split_paired_Ex)

section \<open>Properties\<close>

text \<open>With an allocator that returns unused blocks, a stack made by
  \<open>CreateStack\<close> takes any pushes and gives the elements back in reverse order, then reports
  an empty stack; \<open>MakeEmpty\<close> of a stack returns and frees every cell but the header.\<close>

theorem StackList_lifo:
  assumes "malloc_ok al" "finite (dom h0)"
  shows "(\<exists>S h s1 s2. sl_CreateStack (al h0) g h0 = Some (Inr (S, h)) \<and>
      insert_all (slp_push g) xs (al, h, S) = Inr s1 \<and>
      pop_all slp_isemp slp_top slp_pop (length xs) s1 = Inr (rev xs, s2) \<and>
      slp_top s2 = Inl (FatalError ''Empty stack'') \<and> slp_pop s2 = Inl (FatalError ''Empty stack'')) \<and>
    (list_at h1 S1 ps ys \<longrightarrow>
      (\<exists>h'. sl_MakeEmpty S1 h1 = Some (Inr h') \<and> list_at h' S1 [] [] \<and> dom h' = dom h1 - set ps))"
proof
  let ?t = "al h0"
  let ?h = "h0(?t \<mapsto> g\<lparr>Next := 0\<rparr>)"
  have t: "?t \<noteq> 0" using assms by (auto simp: fresh_def malloc_ok_def)
  have l: "list_at ?h ?t [] []" using t by (simp add: list_at_def)
  have "sl_MakeEmpty ?t ?h = Some (Inr ?h)"
    using t sl_IsEmpty_ok [OF l] by (subst sl_MakeEmpty_def, subst sl_pop_loop.simps) simp
  then have c: "sl_CreateStack ?t g h0 = Some (Inr (?t, ?h))" using t by (simp add: sl_CreateStack_def heap_ok)
  have "slp_rep (al, ?h, ?t) []" using assms l by (auto simp: slp_rep_def)
  from stackli.push_pop_all [OF this, of g xs] obtain s1 s2 where
    "insert_all (slp_push g) xs (al, ?h, ?t) = Inr s1"
    "pop_all slp_isemp slp_top slp_pop (length xs) s1 = Inr (rev xs, s2)" "slp_rep s2 []" by auto
  then show "\<exists>S h s1 s2. sl_CreateStack (al h0) g h0 = Some (Inr (S, h)) \<and>
      insert_all (slp_push g) xs (al, h, S) = Inr s1 \<and>
      pop_all slp_isemp slp_top slp_pop (length xs) s1 = Inr (rev xs, s2) \<and>
      slp_top s2 = Inl (FatalError ''Empty stack'') \<and> slp_pop s2 = Inl (FatalError ''Empty stack'')"
    using c stackli.tp_empty stackli.pp_empty by blast
next
  show "list_at h1 S1 ps ys \<longrightarrow>
      (\<exists>h'. sl_MakeEmpty S1 h1 = Some (Inr h') \<and> list_at h' S1 [] [] \<and> dom h' = dom h1 - set ps)"
    using sl_pop_loop_ok [of h1 S1 ps ys] by (auto simp: sl_MakeEmpty_def list_at_def)
qed

theorem StackList_lifo_witness:
  "\<exists>S h s1 s2. sl_CreateStack 1 \<lparr>Element = 5, Next = 6\<rparr> Map.empty = Some (Inr (S, h)) \<and>
      insert_all (slp_push \<lparr>Element = 5, Next = 6\<rparr>) [1, 2] (\<lambda>h. Max (insert 0 (dom h)) + 1, h, S) = Inr s1 \<and>
      pop_all slp_isemp slp_top slp_pop 2 s1 = Inr ([2, 1], s2)"
  using StackList_lifo [OF malloc_ok_above, of Map.empty "\<lparr>Element = 5, Next = 6\<rparr>" "[1, 2]"
      Map.empty 0 "[]" "[]"]
  by (auto simp: eval_nat_numeral simp del: insert_all.simps pop_all.simps)

end
