(* ===== verification/Cursor.thy ===== *)
theory Cursor
  imports LinkedCells
begin

text \<open>
  \<^verbatim>\<open>src/DSAAC/cursor.c\<close>: lists whose cells are elements of the array
  \<open>CursorSpace\<close>, with cell 0 heading a free list. A position is an index, 0 plays the part of
  \<open>NULL\<close>. The functions are translated statement by statement on the array, every access
  checked; \<open>vw\<close> views the cells \<open>1, 2, ...\<close> as a heap, so that the lemmas on
  linked cells apply.
\<close>

section \<open>Operations\<close>

definition SpaceSize :: int where "SpaceSize = 100"

type_synonym space = "cell list"

definition sp_Next :: "space \<Rightarrow> int \<Rightarrow> int option" where
  "sp_Next sp P = map_option Next (aget sp P)"

definition sp_Element :: "space \<Rightarrow> int \<Rightarrow> int option" where
  "sp_Element sp P = map_option Element (aget sp P)"

definition put_Next :: "space \<Rightarrow> int \<Rightarrow> int \<Rightarrow> space option" where
  "put_Next sp P q = do { c \<leftarrow> aget sp P; aput sp P (c\<lparr>Next := q\<rparr>) }"

definition put_Element :: "space \<Rightarrow> int \<Rightarrow> int \<Rightarrow> space option" where
  "put_Element sp P x = do { c \<leftarrow> aget sp P; aput sp P (c\<lparr>Element := x\<rparr>) }"

definition CursorAlloc :: "space \<Rightarrow> (int \<times> space) option" where
  "CursorAlloc sp = do {
     P \<leftarrow> sp_Next sp 0;
     n \<leftarrow> sp_Next sp P;
     sp \<leftarrow> put_Next sp 0 n;
     Some (P, sp) }"

definition CursorFree :: "int \<Rightarrow> space \<Rightarrow> space option" where
  "CursorFree P sp = do {
     n \<leftarrow> sp_Next sp 0;
     sp \<leftarrow> put_Next sp P n;
     put_Next sp 0 P }"

function init_loop :: "int \<Rightarrow> space \<Rightarrow> space option" where
  "init_loop i sp = (if i < SpaceSize then do { sp \<leftarrow> put_Next sp i (i + 1); init_loop (i + 1) sp } else Some sp)"
  by auto
termination
  by (relation "measure (\<lambda>(i, sp). nat (SpaceSize - i))") auto

declare init_loop.simps [simp del]

definition InitializeCursorSpace :: "space \<Rightarrow> space option" where
  "InitializeCursorSpace sp = do { sp \<leftarrow> init_loop 0 sp; put_Next sp (SpaceSize - 1) 0 }"

partial_function (option) cur_free_loop :: "int \<Rightarrow> space \<Rightarrow> space option" where
  "cur_free_loop P sp =
    (if P \<noteq> 0 then
       Option.bind (sp_Next sp P) (\<lambda>Tmp. Option.bind (CursorFree P sp) (\<lambda>sp. cur_free_loop Tmp sp))
     else Some sp)"

definition cur_DeleteList :: "int \<Rightarrow> space \<Rightarrow> space option" where
  "cur_DeleteList L sp = do {
     P \<leftarrow> sp_Next sp L;
     sp \<leftarrow> put_Next sp L 0;
     cur_free_loop P sp }"

text \<open>The operations that allocate: \<open>None\<close> is an access outside the array, \<open>Inl\<close>
  the error exit.\<close>

definition cur_MakeEmpty :: "int \<Rightarrow> space \<Rightarrow> (int \<times> space) res option" where
  "cur_MakeEmpty L sp = do {
     sp \<leftarrow> (if L \<noteq> 0 then cur_DeleteList L sp else Some sp);
     (L, sp) \<leftarrow> CursorAlloc sp;
     if L = 0 then Some (Inl (FatalError ''Out of memory!''))
     else do { sp \<leftarrow> put_Next sp L 0; Some (Inr (L, sp)) } }"

definition cur_IsEmpty :: "int \<Rightarrow> space \<Rightarrow> bool option" where
  "cur_IsEmpty L sp = do { n \<leftarrow> sp_Next sp L; Some (n = 0) }"

definition cur_IsLast :: "int \<Rightarrow> int \<Rightarrow> space \<Rightarrow> bool option" where
  "cur_IsLast P L sp = do { n \<leftarrow> sp_Next sp P; Some (n = 0) }"

partial_function (option) cur_find_loop :: "int \<Rightarrow> int \<Rightarrow> space \<Rightarrow> int option" where
  "cur_find_loop X P sp =
    (if P = 0 then Some P
     else Option.bind (sp_Element sp P) (\<lambda>e.
       if e \<noteq> X then Option.bind (sp_Next sp P) (\<lambda>n. cur_find_loop X n sp) else Some P))"

definition cur_Find :: "int \<Rightarrow> int \<Rightarrow> space \<Rightarrow> int option" where
  "cur_Find X L sp = do { P \<leftarrow> sp_Next sp L; cur_find_loop X P sp }"

partial_function (option) cur_prev_loop :: "int \<Rightarrow> int \<Rightarrow> space \<Rightarrow> int option" where
  "cur_prev_loop X P sp =
    Option.bind (sp_Next sp P) (\<lambda>n.
      if n = 0 then Some P
      else Option.bind (sp_Element sp n) (\<lambda>e. if e \<noteq> X then cur_prev_loop X n sp else Some P))"

definition cur_FindPrevious :: "int \<Rightarrow> int \<Rightarrow> space \<Rightarrow> int option" where
  "cur_FindPrevious X L sp = cur_prev_loop X L sp"

definition cur_Delete :: "int \<Rightarrow> int \<Rightarrow> space \<Rightarrow> space option" where
  "cur_Delete X L sp = do {
     P \<leftarrow> cur_FindPrevious X L sp;
     b \<leftarrow> cur_IsLast P L sp;
     if \<not> b then do {
       TmpCell \<leftarrow> sp_Next sp P;
       n \<leftarrow> sp_Next sp TmpCell;
       sp \<leftarrow> put_Next sp P n;
       CursorFree TmpCell sp }
     else Some sp }"

definition cur_Insert :: "int \<Rightarrow> int \<Rightarrow> int \<Rightarrow> space \<Rightarrow> space res option" where
  "cur_Insert X L P sp = do {
     (TmpCell, sp) \<leftarrow> CursorAlloc sp;
     if TmpCell = 0 then Some (Inl (FatalError ''Out of space!!!''))
     else do {
       sp \<leftarrow> put_Element sp TmpCell X;
       n \<leftarrow> sp_Next sp P;
       sp \<leftarrow> put_Next sp TmpCell n;
       sp \<leftarrow> put_Next sp P TmpCell;
       Some (Inr sp) } }"

definition cur_Header :: "int \<Rightarrow> int" where "cur_Header L = L"

definition cur_First :: "int \<Rightarrow> space \<Rightarrow> int option" where
  "cur_First L sp = sp_Next sp L"

definition cur_Advance :: "int \<Rightarrow> space \<Rightarrow> int option" where
  "cur_Advance P sp = sp_Next sp P"

definition cur_Retrieve :: "int \<Rightarrow> space \<Rightarrow> int option" where
  "cur_Retrieve P sp = sp_Element sp P"

section \<open>The array as a heap\<close>

definition vw :: "space \<Rightarrow> heap" where
  "vw sp p = (if p \<noteq> 0 then aget sp p else None)"

definition free_list :: "space \<Rightarrow> int list \<Rightarrow> bool" where
  \<comment> \<open>the unused cells, in the order in which they will be allocated\<close>
  "free_list sp fs \<longleftrightarrow> inb sp 0 \<and> seg (vw sp) (Next (elt sp 0)) fs 0 \<and> distinct fs"

lemma vw_Some: "vw sp p = Some c \<longleftrightarrow> p \<noteq> 0 \<and> inb sp p \<and> c = elt sp p"
  by (auto simp: vw_def aget_Some_iff)

lemma elem_vw: "a \<noteq> 0 \<Longrightarrow> inb sp a \<Longrightarrow> elem (vw sp) a = Element (elt sp a)"
  by (simp add: elem_def vw_def)

lemma Next_same: "Next c = q \<Longrightarrow> c\<lparr>Next := q\<rparr> = c"
  by auto

lemma sp_ok [simp]:
  "inb sp P \<Longrightarrow> sp_Next sp P = Some (Next (elt sp P))"
  "inb sp P \<Longrightarrow> sp_Element sp P = Some (Element (elt sp P))"
  "inb sp P \<Longrightarrow> put_Next sp P q = Some (upd sp P ((elt sp P)\<lparr>Next := q\<rparr>))"
  "inb sp P \<Longrightarrow> put_Element sp P x = Some (upd sp P ((elt sp P)\<lparr>Element := x\<rparr>))"
  by (simp_all add: sp_Next_def sp_Element_def put_Next_def put_Element_def)

lemma vw_upd: "inb sp P \<Longrightarrow> P \<noteq> 0 \<Longrightarrow> vw (upd sp P c) = (vw sp)(P \<mapsto> c)"
  by (auto simp: vw_def aget_def elt_upd inb_def fun_eq_iff)

lemma vw_upd_0: "inb sp 0 \<Longrightarrow> vw (upd sp 0 c) = vw sp"
  by (auto simp: vw_def aget_def elt_upd inb_def fun_eq_iff)

lemma seg_vw_inb: "seg (vw sp) p ps q \<Longrightarrow> a \<in> set ps \<Longrightarrow> a \<noteq> 0 \<and> inb sp a"
  using seg_in_dom [of "vw sp" p ps q a] by (auto simp: vw_Some)

lemma cur_find_loop_eq:
  "seg (vw sp) p ps 0 \<Longrightarrow> cur_find_loop X p sp = Some (first_or (dropWhile (\<lambda>a. elem (vw sp) a \<noteq> X) ps) 0)"
proof (induction ps arbitrary: p)
  case Nil
  then show ?case by (subst cur_find_loop.simps) simp
next
  case (Cons a ps)
  then show ?case by (subst cur_find_loop.simps) (auto simp: vw_Some elem_vw split: option.splits)
qed

lemma cur_prev_loop_eq:
  "seg (vw sp) p (p # ps) 0 \<Longrightarrow> cur_prev_loop X p sp = Some (last (p # takeWhile (\<lambda>a. elem (vw sp) a \<noteq> X) ps))"
proof (induction ps arbitrary: p)
  case Nil
  then show ?case by (subst cur_prev_loop.simps) (auto simp: vw_Some split: option.splits)
next
  case (Cons a ps)
  then obtain c d where c: "p \<noteq> 0" "vw sp p = Some c" "Next c = a" "a \<noteq> 0" "vw sp a = Some d" "seg (vw sp) a (a # ps) 0"
    by (auto split: option.splits)
  then show ?case using Cons.IH [of a] by (subst cur_prev_loop.simps) (auto simp: vw_Some elem_vw)
qed

lemma CursorAlloc_ok:
  assumes "free_list sp (t # fs)"
  shows "\<exists>sp'. CursorAlloc sp = Some (t, sp') \<and> vw sp' = vw sp \<and> free_list sp' fs \<and> length sp' = length sp"
proof -
  have f: "inb sp 0" "Next (elt sp 0) = t" "t \<noteq> 0" "inb sp t" "seg (vw sp) (Next (elt sp t)) fs 0" "distinct (t # fs)"
    using assms by (auto simp: free_list_def vw_Some split: option.splits)
  let ?sp = "upd sp 0 ((elt sp 0)\<lparr>Next := Next (elt sp t)\<rparr>)"
  have "CursorAlloc sp = Some (t, ?sp)" using f by (simp add: CursorAlloc_def)
  moreover have "free_list ?sp fs" using f vw_upd_0 [OF f(1)] by (auto simp: free_list_def)
  ultimately show ?thesis using vw_upd_0 [OF f(1)] by auto
qed

lemma CursorAlloc_none: "free_list sp [] \<Longrightarrow> CursorAlloc sp = Some (0, sp)"
  by (auto simp: free_list_def CursorAlloc_def Next_same)

lemma CursorFree_ok:
  assumes "free_list sp fs" "inb sp t" "t \<noteq> 0" "t \<notin> set fs"
  shows "\<exists>sp'. CursorFree t sp = Some sp' \<and> vw sp' = (vw sp)(t \<mapsto> (elt sp t)\<lparr>Next := first_or fs 0\<rparr>) \<and>
    free_list sp' (t # fs) \<and> length sp' = length sp"
proof -
  have f: "inb sp 0" "seg (vw sp) (Next (elt sp 0)) fs 0" "distinct fs" using assms by (auto simp: free_list_def)
  have n: "Next (elt sp 0) = first_or fs 0" by (rule seg_first_or [OF f(2)])
  let ?s1 = "upd sp t ((elt sp t)\<lparr>Next := Next (elt sp 0)\<rparr>)"
  let ?sp = "upd ?s1 0 ((elt ?s1 0)\<lparr>Next := t\<rparr>)"
  have v: "vw ?sp = (vw sp)(t \<mapsto> (elt sp t)\<lparr>Next := first_or fs 0\<rparr>)"
    using vw_upd_0 [of ?s1] vw_upd [OF assms(2,3)] f(1) n by simp
  have "CursorFree t sp = Some ?sp" using f assms(2) by (simp add: CursorFree_def)
  moreover have "seg (vw ?sp) (first_or fs 0) fs 0"
    unfolding v using f(2) n assms(4) by (auto intro!: seg_cong [of "vw sp"])
  then have "free_list ?sp (t # fs)"
    using f assms v by (auto simp: free_list_def)
  ultimately show ?thesis using v by auto
qed

section \<open>Correctness\<close>

text \<open>A list and the free list share no cell.\<close>

definition cursor_list :: "space \<Rightarrow> int list \<Rightarrow> int \<Rightarrow> int list \<Rightarrow> int list \<Rightarrow> bool" where
  "cursor_list sp fs L ps xs \<longleftrightarrow> free_list sp fs \<and> list_at (vw sp) L ps xs \<and> set (L # ps) \<inter> set fs = {}"

lemma free_list_frame:
  "free_list sp fs \<Longrightarrow> (\<And>a. a \<in> set fs \<Longrightarrow> vw sp' a = vw sp a) \<Longrightarrow> inb sp' 0 \<Longrightarrow>
     Next (elt sp' 0) = Next (elt sp 0) \<Longrightarrow> free_list sp' fs"
  by (auto simp: free_list_def intro: seg_cong)

lemma cur_Insert_ok:
  assumes c: "cursor_list sp (t # fs) L ps xs" and k: "k \<le> length ps"
  shows "\<exists>sp'. cur_Insert X L ((L # ps) ! k) sp = Some (Inr sp') \<and>
    cursor_list sp' fs L (take k ps @ t # drop k ps) (take k xs @ X # drop k xs) \<and>
    (\<forall>b. b \<noteq> (L # ps) ! k \<and> b \<noteq> t \<longrightarrow> vw sp' b = vw sp b)"
proof -
  let ?a = "(L # ps) ! k"
  have l: "list_at (vw sp) L ps xs" and tL: "t \<notin> set (L # ps)" using c by (auto simp: cursor_list_def)
  obtain s1 where s1: "CursorAlloc sp = Some (t, s1)" "vw s1 = vw sp" "free_list s1 fs" "length s1 = length sp"
    using CursorAlloc_ok [of sp t fs] c by (auto simp: cursor_list_def)
  have inb1: "inb s1 p = inb sp p" for p using s1(4) by (simp add: inb_def)
  have t: "t \<noteq> 0" "inb s1 t" "t \<notin> set fs" "inb s1 0"
    using c by (auto simp: cursor_list_def free_list_def vw_Some inb1 split: option.splits)
  have am: "?a \<in> set (L # ps)" using k by (intro nth_mem) simp
  then obtain d where d: "?a \<noteq> 0" "vw sp ?a = Some d" using list_at_cells [OF l am] by blast
  then have "vw s1 ?a = Some d" by (simp only: s1(2))
  then have a: "?a \<noteq> 0" "vw sp ?a = Some (elt s1 ?a)" "inb s1 ?a" using d by (auto simp: vw_Some)
  have ta: "t \<noteq> ?a" using tL am by auto
  define s2 where "s2 = upd s1 t \<lparr>Element = X, Next = Next (elt s1 ?a)\<rparr>"
  define s3 where "s3 = upd s2 ?a ((elt s1 ?a)\<lparr>Next := t\<rparr>)"
  have nn: "0 \<le> t" "0 \<le> ?a" using t(2) a(3) by (auto simp: inb_def)
  have e: "(elt s1 t)\<lparr>Element := X, Next := n\<rparr> = \<lparr>Element = X, Next = n\<rparr>" for n by (cases "elt s1 t") simp
  have "cur_Insert X L ?a sp = Some (Inr s3)"
    using s1(1) t(1,2) a(3) ta nn by (simp add: cur_Insert_def elt_upd e s2_def s3_def)
  moreover have v: "vw s3 = (vw sp)(t \<mapsto> \<lparr>Element = X, Next = Next (elt s1 ?a)\<rparr>, ?a \<mapsto> (elt s1 ?a)\<lparr>Next := t\<rparr>)"
    using t a by (simp add: s2_def s3_def vw_upd s1(2))
  moreover have "list_at (vw s3) L (take k ps @ t # drop k ps) (take k xs @ X # drop k xs)"
    by (rule list_at_insert [OF l k refl a(2) t(1) tL]) (use v ta in auto)
  moreover have "?a \<notin> set fs" using c am by (auto simp: cursor_list_def)
  then have "free_list s3 fs"
    by (intro free_list_frame [OF s1(3)]) (use v t a s1(2) in \<open>auto simp: s2_def s3_def elt_upd\<close>)
  moreover have "set (L # take k ps @ t # drop k ps) \<inter> set fs = {}"
    using c t(3) set_take_subset [of k ps] set_drop_subset [of k ps] by (auto simp: cursor_list_def)
  ultimately show ?thesis unfolding cursor_list_def by (auto simp: v)
qed

lemma cur_Insert_full:
  "free_list sp [] \<Longrightarrow> cur_Insert X L P sp = Some (Inl (FatalError ''Out of space!!!''))"
  by (simp add: cur_Insert_def CursorAlloc_none)

lemma cur_Find_ok:
  assumes "cursor_list sp fs L ps xs"
  shows "cur_Find X L sp = Some (first_or (dropWhile (\<lambda>a. elem (vw sp) a \<noteq> X) ps) 0)"
proof -
  have "list_at (vw sp) L ps xs" using assms by (simp add: cursor_list_def)
  from list_at_header [OF this] obtain c where "L \<noteq> 0" "vw sp L = Some c" "seg (vw sp) (Next c) ps 0" by blast
  then show ?thesis using cur_find_loop_eq by (simp add: cur_Find_def vw_Some)
qed

lemma cur_Delete_ok:
  assumes c: "cursor_list sp fs L ps xs"
  shows "\<exists>sp' ps' fs'. cur_Delete X L sp = Some sp' \<and> cursor_list sp' fs' L ps' (remove1 X xs) \<and>
    mset ps' + mset fs' = mset ps + mset fs \<and> (X \<notin> set xs \<longrightarrow> sp' = sp)"
proof -
  let ?T = "takeWhile (\<lambda>a. elem (vw sp) a \<noteq> X) ps" and ?D = "dropWhile (\<lambda>a. elem (vw sp) a \<noteq> X) ps"
  have l: "list_at (vw sp) L ps xs" and f: "free_list sp fs" and dj: "set (L # ps) \<inter> set fs = {}"
    using c by (auto simp: cursor_list_def)
  define a where "a = last (L # ?T)"
  have prev: "cur_FindPrevious X L sp = Some a"
    using cur_prev_loop_eq [of sp L ps X] l by (simp add: cur_FindPrevious_def a_def list_at_def)
  have xs: "xs = map (elem (vw sp)) ps" using l by (simp add: list_at_def)
  show ?thesis
  proof (cases ?D)
    case Nil
    then have T: "?T = ps" by (metis append_Nil2 takeWhile_dropWhile_id)
    have "L # ps = butlast (L # ps) @ [a]"
      unfolding a_def T by (rule append_butlast_last_id [symmetric]) simp
    then have "seg (vw sp) L (butlast (L # ps) @ [a]) 0" using l unfolding list_at_def by metis
    then obtain n where "a \<noteq> 0" "vw sp a = Some n" "Next n = 0" by (auto simp: seg_split)
    then have "cur_Delete X L sp = Some sp" using prev by (simp add: cur_Delete_def cur_IsLast_def vw_Some)
    moreover have "X \<notin> set xs" using Nil xs by auto
    ultimately show ?thesis using c by (auto simp: remove1_idem)
  next
    case (Cons t bs)
    note sp = list_at_split [OF l Cons a_def]
    have a: "a \<noteq> 0" "t \<noteq> 0" "a \<noteq> t" "inb sp a" "inb sp t" "Next (elt sp a) = t" "vw sp a = Some (elt sp a)"
        "vw sp t = Some (elt sp t)" "Element (elt sp t) = X"
      using sp(1) by (auto simp: vw_Some)
    have aL: "a \<in> set (L # ps)" unfolding a_def
      by (metis last_in_set list.distinct(1) list.set_intros(1) set_ConsD list.set_intros(2) set_takeWhileD)
    have tp: "t \<in> set ps" using Cons by (metis list.set_intros(1) set_dropWhileD)
    define s1 where "s1 = upd sp a ((elt sp a)\<lparr>Next := Next (elt sp t)\<rparr>)"
    have i1: "inb s1 p = inb sp p" for p by (simp add: s1_def)
    have v1: "vw s1 = (vw sp)(a \<mapsto> (elt sp a)\<lparr>Next := Next (elt sp t)\<rparr>)"
      using a by (simp add: s1_def vw_upd)
    have f1: "free_list s1 fs"
      by (intro free_list_frame [OF f])
        (use v1 a aL dj f in \<open>auto simp: s1_def elt_upd free_list_def\<close>)
    have tf: "t \<notin> set fs" using tp dj by auto
    obtain s2 where s2: "CursorFree t s1 = Some s2" "vw s2 = (vw s1)(t \<mapsto> (elt s1 t)\<lparr>Next := first_or fs 0\<rparr>)"
        "free_list s2 (t # fs)"
      using CursorFree_ok [OF f1 _ a(2) tf] a(5) i1 by auto
    have "cur_Delete X L sp = Some s2"
      using prev a s2(1) by (simp add: cur_Delete_def cur_IsLast_def s1_def)
    moreover have "list_at (vw s2) L (?T @ bs) (remove1 X xs)"
      by (rule sp(2) [OF a(7,8)]) (use s2(2) v1 a in auto)
    moreover have ps: "ps = ?T @ t # bs" using Cons by (metis takeWhile_dropWhile_id)
    have "set (L # ?T @ bs) \<inter> set (t # fs) = {}" "mset (?T @ bs) + mset (t # fs) = mset ps + mset fs"
    proof -
      have "distinct (L # ?T @ t # bs)" using l ps unfolding list_at_def by metis
      moreover have "set (L # ?T @ t # bs) \<inter> set fs = {}" using dj ps by metis
      ultimately show "set (L # ?T @ bs) \<inter> set (t # fs) = {}" by auto
      have "mset ps = mset ?T + mset (t # bs)" by (metis mset_append ps)
      then show "mset (?T @ bs) + mset (t # fs) = mset ps + mset fs" by simp
    qed
    moreover have "X \<in> set xs" using tp xs a by (auto simp: elem_vw intro!: image_eqI [of _ _ t])
    ultimately show ?thesis using s2(3) unfolding cursor_list_def by blast
  qed
qed

lemma cur_free_loop_ok:
  "seg (vw sp) p ps 0 \<Longrightarrow> distinct ps \<Longrightarrow> free_list sp fs \<Longrightarrow> set ps \<inter> set fs = {} \<Longrightarrow>
     \<exists>sp'. cur_free_loop p sp = Some sp' \<and> free_list sp' (rev ps @ fs) \<and> length sp' = length sp \<and>
       (\<forall>a. a \<notin> set ps \<longrightarrow> vw sp' a = vw sp a)"
proof (induction ps arbitrary: sp p fs)
  case Nil
  then show ?case by (subst cur_free_loop.simps) simp
next
  case (Cons t ps)
  have t: "p = t" "t \<noteq> 0" "inb sp t" "seg (vw sp) (Next (elt sp t)) ps 0" "t \<notin> set ps" "t \<notin> set fs"
    using Cons.prems by (auto simp: vw_Some split: option.splits)
  obtain s1 where s1: "CursorFree t sp = Some s1" "vw s1 = (vw sp)(t \<mapsto> (elt sp t)\<lparr>Next := first_or fs 0\<rparr>)"
      "free_list s1 (t # fs)" "length s1 = length sp"
    using CursorFree_ok [OF Cons.prems(3) t(3,2,6)] by blast
  have g: "seg (vw s1) (Next (elt sp t)) ps 0" using t(4,5) s1(2) by (auto intro: seg_cong)
  have "distinct ps" "set ps \<inter> set (t # fs) = {}" using Cons.prems(2,4) t(5) by auto
  from Cons.IH [OF g this(1) s1(3) this(2)] obtain sp' where "cur_free_loop (Next (elt sp t)) s1 = Some sp'" "free_list sp' (rev ps @ t # fs)"
      "length sp' = length s1" "\<forall>a. a \<notin> set ps \<longrightarrow> vw sp' a = vw s1 a" by auto
  moreover have "cur_free_loop p sp = cur_free_loop (Next (elt sp t)) s1"
    using t s1(1) by (subst cur_free_loop.simps) simp
  ultimately show ?case using s1(2,4) by auto
qed

lemma cur_DeleteList_ok:
  assumes "cursor_list sp fs L ps xs"
  shows "\<exists>sp'. cur_DeleteList L sp = Some sp' \<and> cursor_list sp' (rev ps @ fs) L [] [] \<and> length sp' = length sp"
proof -
  have l: "list_at (vw sp) L ps xs" and f: "free_list sp fs" and dj: "set (L # ps) \<inter> set fs = {}"
    using assms by (auto simp: cursor_list_def)
  have c: "L \<noteq> 0" "inb sp L" "seg (vw sp) (Next (elt sp L)) ps 0" "L \<notin> set ps" "distinct ps"
    using list_at_header [OF l] by (auto simp: vw_Some)
  define s1 where "s1 = upd sp L ((elt sp L)\<lparr>Next := 0\<rparr>)"
  have v1: "vw s1 = (vw sp)(L \<mapsto> (elt sp L)\<lparr>Next := 0\<rparr>)" using c by (simp add: s1_def vw_upd)
  have f1: "free_list s1 fs"
    by (intro free_list_frame [OF f]) (use v1 c dj f in \<open>auto simp: s1_def elt_upd free_list_def\<close>)
  have "seg (vw s1) (Next (elt sp L)) ps 0" using c v1 by (auto intro: seg_cong)
  from cur_free_loop_ok [OF this c(5) f1] dj obtain sp' where sp':
    "cur_free_loop (Next (elt sp L)) s1 = Some sp'" "free_list sp' (rev ps @ fs)" "length sp' = length s1"
    "\<forall>a. a \<notin> set ps \<longrightarrow> vw sp' a = vw s1 a" by auto
  have "vw sp' L = Some ((elt sp L)\<lparr>Next := 0\<rparr>)" using sp'(4) c(4) v1 by simp
  then have "list_at (vw sp') L [] []" using c by (simp add: list_at_def)
  then show ?thesis using sp' c dj by (auto simp: cur_DeleteList_def cursor_list_def s1_def)
qed

lemma init_loop_ok:
  "0 \<le> i \<Longrightarrow> i \<le> SpaceSize \<Longrightarrow> len sp = SpaceSize \<Longrightarrow>
     \<exists>sp'. init_loop i sp = Some sp' \<and> length sp' = length sp \<and>
       (\<forall>j. i \<le> j \<and> j < SpaceSize \<longrightarrow> Next (elt sp' j) = j + 1) \<and> (\<forall>j. 0 \<le> j \<and> j < i \<longrightarrow> elt sp' j = elt sp j)"
proof (induction i sp rule: init_loop.induct)
  case (1 i sp)
  show ?case
  proof (cases "i < SpaceSize")
    case True
    let ?s = "upd sp i ((elt sp i)\<lparr>Next := i + 1\<rparr>)"
    have i: "inb sp i" using True 1 by (auto simp: inb_def)
    then have "put_Next sp i (i + 1) = Some ?s" by simp
    from "1.IH" [OF True this] obtain sp' where sp': "init_loop (i + 1) ?s = Some sp'" "length sp' = length sp"
        "\<forall>j. i + 1 \<le> j \<and> j < SpaceSize \<longrightarrow> Next (elt sp' j) = j + 1" "\<forall>j. 0 \<le> j \<and> j < i + 1 \<longrightarrow> elt sp' j = elt ?s j"
      using True 1 by auto
    have "init_loop i sp = Some sp'" using sp'(1) True i by (subst init_loop.simps) simp
    moreover have "Next (elt sp' j) = j + 1" if "i \<le> j" "j < SpaceSize" for j
      using sp'(3,4) that i "1.prems"(1) by (cases "j = i") auto
    moreover have "elt sp' j = elt sp j" if "0 \<le> j" "j < i" for j
      using sp'(4) that "1.prems"(1) by simp
    ultimately show ?thesis using sp'(2) by blast
  next
    case False
    then show ?thesis by (subst init_loop.simps) auto
  qed
qed

lemma InitializeCursorSpace_ok:
  assumes "len sp = SpaceSize"
  shows "\<exists>sp'. InitializeCursorSpace sp = Some sp' \<and> free_list sp' [1..SpaceSize - 1] \<and> length sp' = length sp"
proof -
  obtain s1 where s1: "init_loop 0 sp = Some s1" "length s1 = length sp"
      "\<forall>j. 0 \<le> j \<and> j < SpaceSize \<longrightarrow> Next (elt s1 j) = j + 1"
    using init_loop_ok [of 0 sp] assms by (auto simp: SpaceSize_def)
  define s2 where "s2 = upd s1 (SpaceSize - 1) ((elt s1 (SpaceSize - 1))\<lparr>Next := 0\<rparr>)"
  have i: "inb s1 (SpaceSize - 1)" "inb s1 0" using s1(2) assms by (auto simp: inb_def SpaceSize_def)
  have inb2: "inb s2 j \<longleftrightarrow> 0 \<le> j \<and> j < SpaceSize" for j using s1(2) assms by (auto simp: inb_def s2_def)
  have nx: "Next (elt s2 j) = (if j = SpaceSize - 1 then 0 else j + 1)" if "0 \<le> j" "j < SpaceSize" for j
    using s1(3) that i by (auto simp: s2_def elt_upd)
  have seg: "seg (vw s2) (if k < SpaceSize then k else 0) [k..SpaceSize - 1] 0" if "1 \<le> k" "k \<le> SpaceSize" for k
    using that
  proof (induction "nat (SpaceSize - k)" arbitrary: k)
    case (Suc n)
    then have "seg (vw s2) (if k + 1 < SpaceSize then k + 1 else 0) [k + 1..SpaceSize - 1] 0"
      by (intro Suc.hyps(1)) auto
    moreover have "vw s2 k = Some (elt s2 k)" using Suc inb2 by (auto simp: vw_Some)
    moreover have "[k..SpaceSize - 1] = k # [k + 1..SpaceSize - 1]" using Suc by (intro upto_rec1) auto
    moreover have "k < SpaceSize" "k \<noteq> 0" using Suc.hyps(2) Suc.prems by auto
    moreover have "Next (elt s2 k) = (if k + 1 < SpaceSize then k + 1 else 0)"
      using nx [of k] Suc.hyps(2) Suc.prems by auto
    ultimately show ?case by simp
  qed simp
  have "InitializeCursorSpace sp = Some s2" using s1 i by (simp add: InitializeCursorSpace_def s2_def)
  moreover have "free_list s2 [1..SpaceSize - 1]"
    using seg [of 1] nx [of 0] inb2 [of 0] by (simp add: free_list_def SpaceSize_def)
  ultimately show ?thesis using s1(2) by (auto simp: s2_def)
qed

lemma cur_MakeEmpty_new:
  assumes "free_list sp (t # fs)"
  shows "\<exists>sp'. cur_MakeEmpty 0 sp = Some (Inr (t, sp')) \<and> cursor_list sp' fs t [] [] \<and>
    (\<forall>a. a \<noteq> t \<longrightarrow> vw sp' a = vw sp a)"
proof -
  obtain s1 where s1: "CursorAlloc sp = Some (t, s1)" "vw s1 = vw sp" "free_list s1 fs" "length s1 = length sp"
    using CursorAlloc_ok [OF assms] by blast
  have t: "t \<noteq> 0" "inb s1 t" "t \<notin> set fs" "inb s1 0"
    using assms s1(4) by (auto simp: free_list_def vw_Some inb_def split: option.splits)
  define s2 where "s2 = upd s1 t ((elt s1 t)\<lparr>Next := 0\<rparr>)"
  have v: "vw s2 = (vw sp)(t \<mapsto> (elt s1 t)\<lparr>Next := 0\<rparr>)" using t s1(2) by (simp add: s2_def vw_upd)
  have "free_list s2 fs"
    by (intro free_list_frame [OF s1(3)]) (use v t s1(2) in \<open>auto simp: s2_def elt_upd\<close>)
  moreover have "list_at (vw s2) t [] []" using v t by (simp add: list_at_def)
  moreover have "cur_MakeEmpty 0 sp = Some (Inr (t, s2))"
    using s1(1) t by (simp add: cur_MakeEmpty_def s2_def)
  ultimately show ?thesis using t v by (auto simp: cursor_list_def)
qed

section \<open>Properties\<close>

text \<open>C25: with a cursor list and its free list, \<open>Insert\<close> after the \<open>k\<close>-th
  position puts \<open>X\<close> at index \<open>k\<close> using the first free cell, or reports that there
  is none; \<open>Find\<close> returns the first cell that holds \<open>X\<close>, or 0; \<open>Delete\<close>
  removes the first \<open>X\<close> and gives its cell back. All accesses stay in
  \<open>CursorSpace\<close>, the loops end, and no cell is lost.\<close>

theorem Cursor_operations:
  assumes "cursor_list sp fs L ps xs" "k \<le> length ps"
  shows "(case fs of
       [] \<Rightarrow> cur_Insert X L ((L # ps) ! k) sp = Some (Inl (FatalError ''Out of space!!!''))
     | t # fs' \<Rightarrow> \<exists>sp'. cur_Insert X L ((L # ps) ! k) sp = Some (Inr sp') \<and>
         cursor_list sp' fs' L (take k ps @ t # drop k ps) (take k xs @ X # drop k xs)) \<and>
    (\<exists>P. cur_Find X L sp = Some P \<and>
      (if X \<in> set xs then \<exists>k < length ps. P = ps ! k \<and> xs ! k = X \<and> (\<forall>j < k. xs ! j \<noteq> X) else P = 0)) \<and>
    (\<exists>sp' ps' fs'. cur_Delete X L sp = Some sp' \<and> cursor_list sp' fs' L ps' (remove1 X xs) \<and>
      mset ps' + mset fs' = mset ps + mset fs)"
proof (intro conjI)
  show "case fs of
       [] \<Rightarrow> cur_Insert X L ((L # ps) ! k) sp = Some (Inl (FatalError ''Out of space!!!''))
     | t # fs' \<Rightarrow> \<exists>sp'. cur_Insert X L ((L # ps) ! k) sp = Some (Inr sp') \<and>
         cursor_list sp' fs' L (take k ps @ t # drop k ps) (take k xs @ X # drop k xs)"
  proof (cases fs)
    case Nil
    then show ?thesis using assms(1) cur_Insert_full [of sp X L] by (simp add: cursor_list_def)
  next
    case (Cons t fs')
    then show ?thesis using cur_Insert_ok [of sp t fs' L ps xs k X] assms by auto
  qed
  have xs: "xs = map (elem (vw sp)) ps" using assms(1) by (simp add: cursor_list_def list_at_def)
  show "\<exists>P. cur_Find X L sp = Some P \<and>
      (if X \<in> set xs then \<exists>k < length ps. P = ps ! k \<and> xs ! k = X \<and> (\<forall>j < k. xs ! j \<noteq> X) else P = 0)"
  proof (cases "dropWhile (\<lambda>a. elem (vw sp) a \<noteq> X) ps")
    case Nil
    then have "X \<notin> set xs" using xs by auto
    then show ?thesis using cur_Find_ok [OF assms(1), of X] unfolding Nil by simp
  next
    case (Cons q qs)
    then show ?thesis using cur_Find_ok [OF assms(1), of X] dropWhile_index [OF Cons] xs by auto
  qed
  show "\<exists>sp' ps' fs'. cur_Delete X L sp = Some sp' \<and> cursor_list sp' fs' L ps' (remove1 X xs) \<and>
      mset ps' + mset fs' = mset ps + mset fs"
    using cur_Delete_ok [OF assms(1), of X] by blast
qed

theorem Cursor_operations_witness:
  "\<exists>sp'. cur_Insert 7 1 1 [\<lparr>Element = 0, Next = 2\<rparr>, \<lparr>Element = 0, Next = 0\<rparr>, \<lparr>Element = 0, Next = 0\<rparr>] = Some (Inr sp') \<and>
     cursor_list sp' [] 1 [2] [7]"
  using Cursor_operations [of "[\<lparr>Element = 0, Next = 2\<rparr>, \<lparr>Element = 0, Next = 0\<rparr>, \<lparr>Element = 0, Next = 0\<rparr>]" "[2]" 1 "[]" "[]" 0 7]
  by (auto simp: cursor_list_def free_list_def list_at_def vw_def aget_def inb_def elt_def)

text \<open>\<open>InitializeCursorSpace\<close> links all cells but cell 0 into the free list;
  \<open>MakeEmpty( 0 )\<close> takes one of them as the header of a new list;
  \<open>DeleteList\<close> gives every cell of a list back and keeps the header.\<close>

theorem Cursor_space:
  assumes "len sp = SpaceSize" "cursor_list sp1 fs L ps xs"
  shows "(\<exists>sp' sp''. InitializeCursorSpace sp = Some sp' \<and> free_list sp' [1..SpaceSize - 1] \<and>
      cur_MakeEmpty 0 sp' = Some (Inr (1, sp'')) \<and> cursor_list sp'' [2..SpaceSize - 1] 1 [] []) \<and>
    (\<exists>sp'. cur_DeleteList L sp1 = Some sp' \<and> cursor_list sp' (rev ps @ fs) L [] [])"
proof -
  obtain sp' where sp': "InitializeCursorSpace sp = Some sp'" "free_list sp' [1..SpaceSize - 1]"
    using InitializeCursorSpace_ok [OF assms(1)] by blast
  moreover have "[1..SpaceSize - 1] = 1 # [2..SpaceSize - 1]" by (simp add: SpaceSize_def upto_rec1)
  ultimately show ?thesis using cur_MakeEmpty_new [of sp' 1 "[2..SpaceSize - 1]"] cur_DeleteList_ok [OF assms(2)]
    by auto
qed

theorem Cursor_space_witness:
  "\<exists>sp'. InitializeCursorSpace (replicate 100 \<lparr>Element = 4, Next = 9\<rparr>) = Some sp' \<and> free_list sp' [1..99]"
  using Cursor_space [of "replicate 100 \<lparr>Element = 4, Next = 9\<rparr>"
      "[\<lparr>Element = 0, Next = 2\<rparr>, \<lparr>Element = 0, Next = 0\<rparr>, \<lparr>Element = 0, Next = 0\<rparr>]" "[2]" 1 "[]" "[]"]
  by (auto simp: SpaceSize_def cursor_list_def free_list_def list_at_def vw_def aget_def inb_def elt_def)

end
