(* ===== verification/NextPrime.thy ===== *)
theory NextPrime
  imports LinkedCells
begin

text \<open>
  What \<^verbatim>\<open>hashsep.c\<close> and \<^verbatim>\<open>hashquad.c\<close> share: the functions
  \<open>NextPrime\<close> and \<open>Hash\<close>, whose text is the same in both files, and the facts on
  primes that quadratic probing needs. Signed arithmetic is checked: \<open>None\<close> in the inner
  functions is an overflow.
\<close>

section \<open>Primes\<close>

definition prm :: "int \<Rightarrow> bool" where
  "prm p \<longleftrightarrow> 1 < p \<and> (\<forall>d. 0 < d \<and> d dvd p \<longrightarrow> d = 1 \<or> d = p)"

lemma prmD: "prm p \<Longrightarrow> 0 < d \<Longrightarrow> d dvd p \<Longrightarrow> d = 1 \<or> d = p"
  by (simp add: prm_def)

lemma prm_odd: "prm r \<Longrightarrow> 3 \<le> r \<Longrightarrow> odd r"
  using prmD [of r 2] by auto

lemma prm_dvd_mult:
  assumes "prm p" "p dvd a * b"
  shows "p dvd a \<or> p dvd b"
proof (rule disjCI)
  assume n: "\<not> p dvd b"
  have "gcd p b dvd p" "0 < gcd p b" using assms(1) by (auto simp: prm_def)
  then have "gcd p b = 1 \<or> gcd p b = p" using assms(1) by (auto simp: prm_def)
  moreover have "gcd p b \<noteq> p" using n by (metis gcd_dvd2)
  ultimately have "coprime p b" by (simp add: coprime_iff_gcd_eq_1)
  with assms(2) show "p dvd a" by (simp add: coprime_dvd_mult_left_iff)
qed

text \<open>A number that is not prime has a divisor between 2 and its square root.\<close>

lemma not_prm_small_divisor:
  assumes "1 < n" "\<not> prm n"
  obtains d where "1 < d" "d * d \<le> n" "d dvd n"
proof -
  obtain d where d: "0 < d" "d dvd n" "d \<noteq> 1" "d \<noteq> n" using assms by (auto simp: prm_def)
  then obtain e where e: "n = d * e" by (auto elim: dvdE)
  have "0 < e" using assms(1) d(1) e by (metis less_trans zero_less_mult_pos zero_less_one)
  moreover have "e \<noteq> 1" using d(4) e by auto
  ultimately have e1: "1 < e" by simp
  show thesis
  proof (cases "d \<le> e")
    case True
    then have "d * d \<le> n" using d(1) e by (simp add: mult_left_mono)
    then show ?thesis using that [of d] d by auto
  next
    case False
    then have "e * e \<le> n" using e1 e by (simp add: mult_right_mono)
    then show ?thesis using that [of e] e e1 by auto
  qed
qed

section \<open>NextPrime and Hash\<close>

function no_divisor :: "int \<Rightarrow> int \<Rightarrow> bool option" where
  \<comment> \<open>the inner loop from \<open>i\<close> on; \<open>Some False\<close> is the jump to \<open>ContOuter\<close>. It
    starts at 3; \<open>0 < i\<close> serves the termination proof.\<close>
  "no_divisor N i =
    do {
      s \<leftarrow> ck (i * i);
      if 0 < i \<and> s \<le> N then (if N mod i = 0 then Some False else no_divisor N (i + 2))
      else Some True
    }"
  by auto
termination
proof (relation "measure (\<lambda>(N, i). nat (N - i + 1))")
  fix N i s :: int assume "ck (i * i) = Some s" "0 < i \<and> s \<le> N"
  then have "i * i \<le> N" "i * 1 \<le> i * i" by (auto simp: ck_Some_iff intro: mult_left_mono)
  then have "i \<le> N" by simp
  then show "((N, i + 2), N, i) \<in> measure (\<lambda>(N, i). nat (N - i + 1))" by auto
qed simp

declare no_divisor.simps [simp del]

partial_function (option) next_prime_loop :: "int \<Rightarrow> int option option" where
  \<comment> \<open>the outer loop; the inner \<open>None\<close> is an overflow, the outer one a loop that does not end\<close>
  "next_prime_loop N =
    (case no_divisor N 3 of
       None \<Rightarrow> Some None
     | Some b \<Rightarrow>
        if b then Some (Some N)
        else (case ck (N + 2) of None \<Rightarrow> Some None | Some M \<Rightarrow> next_prime_loop M))"

definition NextPrime :: "int \<Rightarrow> int option option" where
  "NextPrime N = next_prime_loop (if N mod 2 = 0 then N + 1 else N)"

text \<open>\<open>Key % TableSize\<close> truncates towards zero, and the result is converted to
  \<open>unsigned int\<close>.\<close>

definition crem :: "int \<Rightarrow> int \<Rightarrow> int" where
  "crem a b = (if 0 \<le> a then a mod \<bar>b\<bar> else - ((- a) mod \<bar>b\<bar>))"

definition u32 :: "int \<Rightarrow> int" where
  "u32 x = x mod 4294967296"

definition Hash :: "int \<Rightarrow> int \<Rightarrow> int" where
  "Hash Key TableSize = u32 (crem Key TableSize)"

lemma Hash_nonneg:
  assumes "0 \<le> Key" "0 < T" "T \<le> INT_MAX"
  shows "Hash Key T = Key mod T" "0 \<le> Hash Key T" "Hash Key T < T"
proof -
  have "Key mod T < T" "0 \<le> Key mod T" using assms by auto
  moreover from this have "Key mod T mod 4294967296 = Key mod T" using assms(3) by (intro mod_pos_pos_trivial) auto
  ultimately show "Hash Key T = Key mod T" using assms by (simp add: Hash_def crem_def u32_def)
  then show "0 \<le> Hash Key T" "Hash Key T < T" using assms by auto
qed

text \<open>A negative key hashes to an index far outside the table.\<close>

lemma Hash_negative:
  assumes "INT_MIN \<le> Key" "Key < 0" "10 \<le> T" "T \<le> INT_MAX" "\<not> T dvd Key"
  shows "T < Hash Key T"
proof -
  have "\<not> T dvd - Key" using assms(5) by simp
  then have "(- Key) mod T \<noteq> 0" by (simp only: dvd_eq_mod_eq_0 not_False_eq_True)
  moreover have "0 \<le> (- Key) mod T" "(- Key) mod T < T" using assms(3) by auto
  ultimately have m: "1 \<le> (- Key) mod T" "(- Key) mod T < T" by auto
  have "Hash Key T = (- ((- Key) mod T)) mod 4294967296" using assms by (simp add: Hash_def crem_def u32_def)
  also have "\<dots> = 4294967296 - (- Key) mod T"
    using m assms(4) by (simp add: zmod_zminus1_eq_if)
  finally show ?thesis using m assms(4) by simp
qed

section \<open>Correctness\<close>

text \<open>Below this bound the products \<open>i * i\<close> of the inner loop are representable.\<close>

abbreviation prime_bound :: int where "prime_bound \<equiv> 2147221504"

lemma square_ck:
  assumes "3 \<le> i" "(i - 2) * (i - 2) \<le> N" "N \<le> prime_bound"
  shows "ck (i * i) = Some (i * i)"
proof -
  have "i - 2 < 46341"
  proof (rule ccontr)
    assume "\<not> i - 2 < 46341"
    then have "46341 * 46341 \<le> (i - 2) * (i - 2)" by (intro mult_mono) auto
    then show False using assms by simp
  qed
  moreover have "i * i = (i - 2) * (i - 2) + 4 * i - 4" by (simp add: algebra_simps)
  ultimately have "i * i \<le> INT_MAX" using assms by linarith
  moreover have "0 \<le> i * i" by simp
  ultimately have "i * i \<le> INT_MAX" "INT_MIN \<le> i * i" by linarith+
  then show ?thesis by simp
qed

lemma no_divisor_ok:
  "3 \<le> i \<Longrightarrow> (i - 2) * (i - 2) \<le> N \<Longrightarrow> N \<le> prime_bound \<Longrightarrow>
     no_divisor N i = Some (\<forall>k. 0 \<le> k \<and> (i + 2 * k) * (i + 2 * k) \<le> N \<longrightarrow> \<not> (i + 2 * k) dvd N)"
proof (induction N i rule: no_divisor.induct)
  case (1 N i)
  let ?P = "\<lambda>i k. 0 \<le> k \<and> (i + 2 * k) * (i + 2 * k) \<le> N \<longrightarrow> \<not> (i + 2 * k) dvd N"
  have c: "ck (i * i) = Some (i * i)" by (rule square_ck [OF "1.prems"])
  show ?case
  proof (cases "i * i \<le> N")
    case False
    have "?P i k" for k
    proof
      assume "0 \<le> k \<and> (i + 2 * k) * (i + 2 * k) \<le> N"
      moreover have "i * i \<le> (i + 2 * k) * (i + 2 * k)" if "0 \<le> k" using that "1.prems"(1) by (intro mult_mono) auto
      ultimately show "\<not> (i + 2 * k) dvd N" using False by linarith
    qed
    then show ?thesis using False c by (subst no_divisor.simps) simp
  next
    case True
    show ?thesis
    proof (cases "N mod i = 0")
      case dv: True
      then have "\<not> ?P i 0" using True by auto
      then have "\<not> (\<forall>k. ?P i k)" by blast
      moreover have "no_divisor N i = Some False" using True dv c "1.prems"(1) by (subst no_divisor.simps) simp
      ultimately show ?thesis by simp
    next
      case False
      have "no_divisor N (i + 2) = Some (\<forall>k. ?P (i + 2) k)"
        using "1.IH" [OF c _ False] True "1.prems" by auto
      moreover have "(\<forall>k. ?P (i + 2) k) \<longleftrightarrow> (\<forall>k. ?P i k)"
      proof
        assume a: "\<forall>k. ?P (i + 2) k"
        show "\<forall>k. ?P i k"
        proof
          fix k show "?P i k"
            using a [rule_format, of "k - 1"] False by (cases "k = 0") (auto simp: algebra_simps dvd_eq_mod_eq_0)
        qed
      next
        assume a: "\<forall>k. ?P i k"
        show "\<forall>k. ?P (i + 2) k"
        proof
          fix k show "?P (i + 2) k" using a [rule_format, of "k + 1"] by (auto simp: algebra_simps)
        qed
      qed
      ultimately show ?thesis using True False c "1.prems"(1) by (subst no_divisor.simps) simp
    qed
  qed
qed

lemma no_divisor_prm:
  assumes "3 \<le> N" "odd N" "N \<le> prime_bound"
  shows "no_divisor N 3 = Some (prm N)"
proof -
  have "(\<forall>k. 0 \<le> k \<and> (3 + 2 * k) * (3 + 2 * k) \<le> N \<longrightarrow> \<not> (3 + 2 * k) dvd N) \<longleftrightarrow> prm N" (is "?A \<longleftrightarrow> _")
  proof
    assume a: ?A
    show "prm N"
    proof (rule ccontr)
      assume "\<not> prm N"
      then obtain d where d: "1 < d" "d * d \<le> N" "d dvd N" using not_prm_small_divisor [of N] assms(1) by auto
      have "odd d" using d(3) assms(2) by (meson dvd_trans)
      then obtain m where "d = 2 * m + 1" by (elim oddE)
      then have "d = 3 + 2 * (m - 1)" "0 \<le> m - 1" using d(1) by auto
      then show False using a d by metis
    qed
  next
    assume p: "prm N"
    show ?A
    proof (intro allI impI notI)
      fix k assume k: "0 \<le> k \<and> (3 + 2 * k) * (3 + 2 * k) \<le> N" "(3 + 2 * k) dvd N"
      then have "3 + 2 * k = N" using prmD [OF p, of "3 + 2 * k"] by auto
      then have "N * N \<le> N" using k by simp
      then show False using assms(1) by (simp add: mult_le_cancel_left2)
    qed
  qed
  then show ?thesis using no_divisor_ok [of 3 N] assms by simp
qed

lemma next_prime_loop_ok:
  "3 \<le> N \<Longrightarrow> odd N \<Longrightarrow> prm p \<Longrightarrow> N \<le> p \<Longrightarrow> p \<le> prime_bound \<Longrightarrow>
     \<exists>q. next_prime_loop N = Some (Some q) \<and> prm q \<and> N \<le> q \<and> q \<le> p \<and> (\<forall>r. N \<le> r \<and> r < q \<longrightarrow> \<not> prm r)"
proof (induction "nat (p - N)" arbitrary: N rule: less_induct)
  case less
  have nd: "no_divisor N 3 = Some (prm N)" using less.prems by (intro no_divisor_prm) auto
  show ?case
  proof (cases "prm N")
    case True
    then show ?thesis using nd less.prems by (subst next_prime_loop.simps) auto
  next
    case False
    have "N \<noteq> p" "N + 1 \<noteq> p" using False less.prems(2,3) prm_odd [of p] less.prems(1) by auto
    then have "N + 2 \<le> p" using less.prems(4) by linarith
    then obtain q where q: "next_prime_loop (N + 2) = Some (Some q)" "prm q" "N + 2 \<le> q" "q \<le> p"
        "\<forall>r. N + 2 \<le> r \<and> r < q \<longrightarrow> \<not> prm r"
      using less.hyps [of "N + 2"] less.prems by auto
    have "\<not> prm r" if "N \<le> r" "r < q" for r
    proof -
      have "r = N \<or> r = N + 1 \<or> N + 2 \<le> r" using that(1) by arith
      then show ?thesis using False q(5) that prm_odd [of r] less.prems(1,2) by (elim disjE) auto
    qed
    moreover have "next_prime_loop N = next_prime_loop (N + 2)"
      using nd False \<open>N + 2 \<le> p\<close> less.prems(1,5) by (subst next_prime_loop.simps) simp
    ultimately show ?thesis using q by auto
  qed
qed

lemma NextPrime_ok:
  assumes "10 \<le> N" "prm p" "N \<le> p" "p \<le> prime_bound"
  shows "\<exists>q. NextPrime N = Some (Some q) \<and> prm q \<and> N \<le> q \<and> q \<le> p \<and> (\<forall>r. N \<le> r \<and> r < q \<longrightarrow> \<not> prm r)"
proof (cases "N mod 2 = 0")
  case False
  moreover from this have "odd N" by (simp add: even_iff_mod_2_eq_zero)
  ultimately show ?thesis using next_prime_loop_ok [of N p] assms by (simp add: NextPrime_def)
next
  case True
  then have ev: "even N" by (simp add: even_iff_mod_2_eq_zero)
  then have e: "\<not> prm N" using assms(1) prm_odd [of N] by auto
  then have "N + 1 \<le> p" using assms(2,3) by (cases "N = p") auto
  then obtain q where q: "next_prime_loop (N + 1) = Some (Some q)" "prm q" "N + 1 \<le> q" "q \<le> p"
      "\<forall>r. N + 1 \<le> r \<and> r < q \<longrightarrow> \<not> prm r"
    using next_prime_loop_ok [of "N + 1" p] ev assms by auto
  have "\<not> prm r" if "N \<le> r" "r < q" for r using q(5) e that by (cases "r = N") auto
  then show ?thesis using q True by (auto simp: NextPrime_def)
qed

section \<open>Small primes\<close>

lemma prm_upto:
  assumes "1 < n" "list_all (\<lambda>d. n mod d \<noteq> 0) [2..n - 1]"
  shows "prm n"
proof -
  have "d = 1 \<or> d = n" if "0 < d" "d dvd n" for d
  proof (rule ccontr)
    assume "\<not> (d = 1 \<or> d = n)"
    moreover have "d \<le> n" using that assms(1) by (intro zdvd_imp_le) auto
    ultimately have "d \<in> set [2..n - 1]" using that(1) by auto
    then have "n mod d \<noteq> 0" using assms(2) by (simp add: list_all_iff)
    then show False using that(2) by (simp add: dvd_eq_mod_eq_0)
  qed
  then show ?thesis using assms(1) by (simp add: prm_def)
qed

lemma prm_11: "prm 11"
  by (rule prm_upto) (simp_all add: upto_rec1)

lemma prm_23: "prm 23"
  by (rule prm_upto) (simp_all add: upto_rec1)

end
