(* ===== verification/HashQuad.thy ===== *)
theory HashQuad
  imports NextPrime
begin

text \<open>
  \<^verbatim>\<open>src/DSAAC/hashquad.c\<close>: the hash table with quadratic probing. A position is an
  \<open>unsigned int\<close>: its arithmetic is that of \<open>u32\<close>. \<open>Find\<close> loops until it meets
  the key or an empty cell, which need not happen in a table that is too full: its loop is a partial
  function, \<open>None\<close> being a loop that does not end, and a probe outside the array is
  \<open>BadAccess\<close>.
\<close>

section \<open>State and operations\<close>

datatype kind = Legitimate | Empty | Deleted

record hentry =
  hElement :: int
  hInfo :: kind

record hashquad =
  hqTableSize :: int
  TheCells :: "hentry list"

definition MinTableSize :: int where "MinTableSize = 10"

definition hq_InitializeTable :: "bool \<Rightarrow> bool \<Rightarrow> (int \<Rightarrow> hentry) \<Rightarrow> int \<Rightarrow> hashquad res option" where
  \<comment> \<open>\<open>None\<close> if \<open>NextPrime\<close> does not return; \<open>g\<close>: what the allocated cells hold\<close>
  "hq_InitializeTable ok1 ok2 g TableSize =
    (if TableSize < MinTableSize then Some (Inl (FatalError ''Table size too small''))
     else if \<not> ok1 then Some (Inl (FatalError ''Out of space!!!''))
     else (case NextPrime TableSize of
         None \<Rightarrow> None
       | Some None \<Rightarrow> Some (Inl SignedOverflow)
       | Some (Some T) \<Rightarrow>
          if \<not> ok2 then Some (Inl (FatalError ''Out of space!!!''))
          else Some (Inr \<lparr>hqTableSize = T, TheCells = map (\<lambda>c. c\<lparr>hInfo := Empty\<rparr>) (malloc_cells g T)\<rparr>)))"

partial_function (option) hq_find_loop :: "int \<Rightarrow> hentry list \<Rightarrow> int \<Rightarrow> int \<Rightarrow> int \<Rightarrow> int res option" where
  "hq_find_loop Key C T pos cn =
    (case aget C pos of
       None \<Rightarrow> Some (Inl BadAccess)
     | Some e \<Rightarrow>
        if hInfo e \<noteq> Empty \<and> hElement e \<noteq> Key then
          (let cn = cn + 1;
               pos = u32 (pos + (2 * cn - 1));
               pos = (if pos \<ge> T then u32 (pos - T) else pos)
           in hq_find_loop Key C T pos cn)
        else Some (Inr pos))"

definition hq_Find :: "int \<Rightarrow> hashquad \<Rightarrow> int res option" where
  "hq_Find Key H = hq_find_loop Key (TheCells H) (hqTableSize H) (Hash Key (hqTableSize H)) 0"

definition hq_Insert :: "int \<Rightarrow> hashquad \<Rightarrow> hashquad res option" where
  "hq_Insert Key H =
    andthen (hq_Find Key H) (\<lambda>Pos. Some (
      case aget (TheCells H) Pos of
        None \<Rightarrow> Inl BadAccess
      | Some e \<Rightarrow>
         if hInfo e \<noteq> Legitimate
         then Inr (H\<lparr>TheCells := upd (TheCells H) Pos (e\<lparr>hInfo := Legitimate, hElement := Key\<rparr>)\<rparr>)
         else Inr H))"

fun reinsert :: "hentry list \<Rightarrow> hashquad \<Rightarrow> hashquad res option" where
  \<comment> \<open>the loop of \<open>Rehash\<close> over the old cells\<close>
  "reinsert [] H = Some (Inr H)"
| "reinsert (e # es) H =
    andthen (if hInfo e = Legitimate then hq_Insert (hElement e) H else Some (Inr H)) (reinsert es)"

definition hq_Rehash :: "bool \<Rightarrow> bool \<Rightarrow> (int \<Rightarrow> hentry) \<Rightarrow> hashquad \<Rightarrow> hashquad res option" where
  "hq_Rehash ok1 ok2 g H =
    (case ck (2 * hqTableSize H) of
       None \<Rightarrow> Some (Inl SignedOverflow)
     | Some n \<Rightarrow> andthen (hq_InitializeTable ok1 ok2 g n) (reinsert (take (nat (hqTableSize H)) (TheCells H))))"

definition hq_Retrieve :: "int \<Rightarrow> hashquad \<Rightarrow> int res" where
  "hq_Retrieve P H = (case aget (TheCells H) P of None \<Rightarrow> Inl BadAccess | Some e \<Rightarrow> Inr (hElement e))"

definition hq_DestroyTable :: "hashquad \<Rightarrow> hashquad option" where
  \<comment> \<open>both blocks are freed\<close>
  "hq_DestroyTable H = None"

section \<open>Probes\<close>

definition probe :: "int \<Rightarrow> int \<Rightarrow> int \<Rightarrow> int" where
  \<comment> \<open>the cell looked at after \<open>i\<close> collisions\<close>
  "probe T k i = (k + i * i) mod T"

text \<open>In a table of prime size the first half of the probes are different cells.\<close>

lemma probe_inj:
  assumes "prm T" "0 \<le> i" "i \<le> T div 2" "0 \<le> j" "j \<le> T div 2" "probe T k i = probe T k j"
  shows "i = j"
proof (rule ccontr)
  assume ne: "i \<noteq> j"
  have T: "1 < T" using assms(1) by (simp add: prm_def)
  have "T dvd (k + i * i) - (k + j * j)" using assms(6) by (simp add: probe_def mod_eq_dvd_iff)
  then have "T dvd (i - j) * (i + j)" by (simp add: algebra_simps)
  then consider "T dvd i - j" | "T dvd i + j" using prm_dvd_mult [OF assms(1)] by blast
  then show False
  proof cases
    case 1
    then have "T \<le> \<bar>i - j\<bar>" using ne by (metis dvd_abs_iff eq_iff_diff_eq_0 zdvd_imp_le zero_less_abs_iff)
    then show False using assms(2-5) T by linarith
  next
    case 2
    have "0 < i + j" using ne assms(2,4) by linarith
    then have le: "T \<le> i + j" using 2 by (rule zdvd_imp_le [rotated])
    show False
    proof (cases "even T")
      case True
      then have "T = 2" using prmD [OF assms(1), of 2] by auto
      then show False using le assms ne by auto
    next
      case False
      then have "2 * (T div 2) = T - 1" by (metis add_diff_cancel_right' odd_two_times_div_two_succ)
      then show False using le assms(3,5) by linarith
    qed
  qed
qed

lemma probe_step:
  assumes "0 \<le> i" "i + 1 \<le> T div 2" "T \<le> INT_MAX" "pos = probe T k i"
  shows "(let p = u32 (pos + (2 * (i + 1) - 1)) in if p \<ge> T then u32 (p - T) else p) = probe T k (i + 1)"
proof -
  have T: "2 \<le> T" using assms(1,2) by linarith
  have pos: "0 \<le> pos" "pos < T" using assms(4) T by (auto simp: probe_def)
  let ?p = "pos + (2 * (i + 1) - 1)"
  have "2 * (T div 2) \<le> T" by simp
  moreover have "2 * (i + 1) \<le> 2 * (T div 2)" using assms(2) by (intro mult_left_mono) auto
  ultimately have "2 * (i + 1) - 1 < T" by (simp only: algebra_simps)
  then have p: "0 \<le> ?p" "?p < 2 * T" using pos assms(1) by auto
  have e: "probe T k (i + 1) = ?p mod T"
  proof -
    have "k + (i + 1) * (i + 1) = (k + i * i) + (2 * (i + 1) - 1)" by (simp add: algebra_simps)
    then show ?thesis unfolding probe_def assms(4) by (simp add: mod_add_left_eq add.assoc)
  qed
  have u: "u32 ?p = ?p" using p assms(3) by (auto simp: u32_def)
  show ?thesis
  proof (cases "?p \<ge> T")
    case True
    then have "?p mod T = ?p - T" using p by (metis add_diff_cancel_left' diff_ge_0_iff_ge diff_less_eq minus_mod_self2 mod_pos_pos_trivial mult_2)
    moreover have "u32 (?p - T) = ?p - T" using True p assms(3) by (auto simp: u32_def)
    ultimately show ?thesis using True e u by (simp add: Let_def)
  next
    case False
    then show ?thesis using e u p by (simp add: Let_def)
  qed
qed

section \<open>Invariant\<close>

definition used :: "hashquad \<Rightarrow> int set" where
  "used H = {q. inb (TheCells H) q \<and> hInfo (elt (TheCells H) q) \<noteq> Empty}"

definition stops :: "hashquad \<Rightarrow> int \<Rightarrow> int \<Rightarrow> bool" where
  \<comment> \<open>the search for \<open>k\<close> ends after \<open>i\<close> collisions\<close>
  "stops H k i \<longleftrightarrow> probe (hqTableSize H) k i \<notin> used H \<or>
     hElement (elt (TheCells H) (probe (hqTableSize H) k i)) = k"

definition hq_inv :: "hashquad \<Rightarrow> bool" where
  \<comment> \<open>every used cell is where the search for its element ends\<close>
  "hq_inv H \<longleftrightarrow> prm (hqTableSize H) \<and> hqTableSize H \<le> INT_MAX \<and> len (TheCells H) = hqTableSize H \<and>
     (\<forall>q \<in> used H. let k = hElement (elt (TheCells H) q) in 0 \<le> k \<and>
       (\<exists>i. 0 \<le> i \<and> i \<le> hqTableSize H div 2 \<and> q = probe (hqTableSize H) k i \<and> (\<forall>j. 0 \<le> j \<and> j < i \<longrightarrow> \<not> stops H k j)))"

definition hq_keys :: "hashquad \<Rightarrow> int set" where
  "hq_keys H = {k. \<exists>q \<in> used H. hInfo (elt (TheCells H) q) = Legitimate \<and> hElement (elt (TheCells H) q) = k}"

lemma finite_used [simp]: "finite (used H)"
  by (rule finite_subset [of _ "{0..<len (TheCells H)}"]) (auto simp: used_def inb_def)

lemma hq_inv_size: "hq_inv H \<Longrightarrow> prm (hqTableSize H) \<and> 1 < hqTableSize H \<and> hqTableSize H \<le> INT_MAX \<and>
    len (TheCells H) = hqTableSize H"
  by (simp add: hq_inv_def prm_def)

lemma probe_inb: "len (TheCells H) = hqTableSize H \<Longrightarrow> 0 < hqTableSize H \<Longrightarrow> inb (TheCells H) (probe (hqTableSize H) k i)"
  by (auto simp: inb_def probe_def)

text \<open>If at most half of the cells are used, the search ends within the first half of the probes.\<close>

lemma search_ends:
  assumes "hq_inv H" "int (card (used H)) \<le> hqTableSize H div 2"
  obtains i where "0 \<le> i" "i \<le> hqTableSize H div 2" "stops H k i" "\<And>j. 0 \<le> j \<Longrightarrow> j < i \<Longrightarrow> \<not> stops H k j"
proof -
  let ?T = "hqTableSize H"
  have T: "prm ?T" "1 < ?T" using hq_inv_size [OF assms(1)] by auto
  have inj: "inj_on (probe ?T k) {0..?T div 2}" using probe_inj [OF T(1)] by (auto simp: inj_on_def)
  have "\<not> probe ?T k ` {0..?T div 2} \<subseteq> used H"
  proof
    assume "probe ?T k ` {0..?T div 2} \<subseteq> used H"
    then have "card (probe ?T k ` {0..?T div 2}) \<le> card (used H)" by (intro card_mono) auto
    then have "card {0..?T div 2} \<le> card (used H)" using inj by (simp add: card_image)
    then show False using assms(2) T(2) by simp
  qed
  then obtain i where "i \<in> {0..?T div 2}" "probe ?T k i \<notin> used H" by blast
  then have i: "0 \<le> i" "i \<le> ?T div 2" "stops H k i" by (auto simp: stops_def)
  define n where "n = (LEAST n. stops H k (int n))"
  have s: "stops H k (int (nat i))" using i by simp
  have n: "stops H k (int n)" "n \<le> nat i"
    unfolding n_def by (rule LeastI [of "\<lambda>n. stops H k (int n)", OF s], rule Least_le [of "\<lambda>n. stops H k (int n)", OF s])
  have l: "\<not> stops H k (int m)" if "m < n" for m using not_less_Least that unfolding n_def by blast
  show thesis
  proof (rule that [of "int n"])
    show "\<not> stops H k j" if "0 \<le> j" "j < int n" for j using l [of "nat j"] that by (simp add: nat_less_iff)
  qed (use n i in auto)
qed

lemma hq_find_loop_ok:
  assumes "len (TheCells H) = hqTableSize H" "1 < hqTableSize H" "hqTableSize H \<le> INT_MAX"
    and "m \<le> hqTableSize H div 2" "stops H k m" "\<And>j. 0 \<le> j \<Longrightarrow> j < m \<Longrightarrow> \<not> stops H k j"
  shows "0 \<le> i \<Longrightarrow> i \<le> m \<Longrightarrow>
    hq_find_loop k (TheCells H) (hqTableSize H) (probe (hqTableSize H) k i) i = Some (Inr (probe (hqTableSize H) k m))"
proof (induction "nat (m - i)" arbitrary: i)
  case 0
  then have "i = m" by simp
  then show ?case using assms(5) probe_inb [OF assms(1), of k m] assms(2)
    by (subst hq_find_loop.simps) (auto simp: stops_def used_def)
next
  case (Suc n)
  let ?T = "hqTableSize H"
  have i: "0 \<le> i" "i < m" "i + 1 \<le> ?T div 2" using Suc.hyps(2) Suc.prems assms(4) by auto
  have ib: "inb (TheCells H) (probe ?T k i)" using probe_inb [OF assms(1), of k i] assms(2) by simp
  have ns: "hInfo (elt (TheCells H) (probe ?T k i)) \<noteq> Empty \<and> hElement (elt (TheCells H) (probe ?T k i)) \<noteq> k"
    using assms(6) [OF i(1,2)] ib by (simp add: stops_def used_def)
  have "hq_find_loop k (TheCells H) ?T (probe ?T k i) i = hq_find_loop k (TheCells H) ?T (probe ?T k (i + 1)) (i + 1)"
    using ib ns probe_step [OF i(1,3) assms(3) refl, of k] by (subst hq_find_loop.simps) (auto simp: Let_def split: if_splits)
  then show ?case using Suc.hyps(1) [of "i + 1"] Suc.hyps(2) i by simp
qed

lemma hq_Find_ok:
  assumes "hq_inv H" "int (card (used H)) \<le> hqTableSize H div 2" "0 \<le> k"
  obtains i where "hq_Find k H = Some (Inr (probe (hqTableSize H) k i))" "0 \<le> i" "i \<le> hqTableSize H div 2"
    "stops H k i" "\<And>j. 0 \<le> j \<Longrightarrow> j < i \<Longrightarrow> \<not> stops H k j"
proof -
  let ?T = "hqTableSize H"
  have T: "1 < ?T" "?T \<le> INT_MAX" "len (TheCells H) = ?T" using hq_inv_size [OF assms(1)] by auto
  obtain i where i: "0 \<le> i" "i \<le> ?T div 2" "stops H k i" "\<And>j. 0 \<le> j \<Longrightarrow> j < i \<Longrightarrow> \<not> stops H k j"
    using search_ends [OF assms(1,2), of k] by blast
  have "Hash k ?T = probe ?T k 0" using Hash_nonneg [of k ?T] assms(3) T by (simp add: probe_def)
  then have "hq_Find k H = Some (Inr (probe ?T k i))"
    using hq_find_loop_ok [OF T(3,1,2) i(2,3,4), of 0] i(1) by (simp add: hq_Find_def)
  then show thesis using that i by blast
qed

text \<open>The search finds a used cell that holds the key, if there is one.\<close>

lemma found_used:
  assumes "hq_inv H" "q \<in> used H" "hElement (elt (TheCells H) q) = k"
    and "0 \<le> i" "stops H k i" "\<And>j. 0 \<le> j \<Longrightarrow> j < i \<Longrightarrow> \<not> stops H k j"
  shows "probe (hqTableSize H) k i = q"
proof -
  obtain m where m: "0 \<le> m" "q = probe (hqTableSize H) k m" "\<forall>j. 0 \<le> j \<and> j < m \<longrightarrow> \<not> stops H k j"
    using assms(1-3) by (auto simp: hq_inv_def Let_def)
  have "stops H k m" using m(2) assms(3) by (simp add: stops_def)
  then have "m = i" using m(1,3) assms(4-6) by (metis linorder_neqE_linordered_idom)
  then show ?thesis using m(2) by simp
qed

section \<open>Insertion\<close>

lemma hq_Insert_ok:
  assumes inv: "hq_inv H" and half: "int (card (used H)) \<le> hqTableSize H div 2" and k: "0 \<le> k"
  shows "\<exists>H'. hq_Insert k H = Some (Inr H') \<and> hq_inv H' \<and> hq_keys H' = insert k (hq_keys H) \<and>
    hqTableSize H' = hqTableSize H \<and> card (used H') \<le> card (used H) + 1"
proof -
  let ?T = "hqTableSize H" and ?C = "TheCells H"
  obtain i where i: "hq_Find k H = Some (Inr (probe ?T k i))" "0 \<le> i" "i \<le> ?T div 2" "stops H k i"
      "\<And>j. 0 \<le> j \<Longrightarrow> j < i \<Longrightarrow> \<not> stops H k j"
    using hq_Find_ok [OF inv half k] by blast
  define p where "p = probe ?T k i"
  have T: "1 < ?T" "len ?C = ?T" using hq_inv_size [OF inv] by auto
  have ip: "inb ?C p" unfolding p_def using probe_inb [OF T(2), of k i] T(1) by simp
  show ?thesis
  proof (cases "hInfo (elt ?C p) = Legitimate")
    case True
    then have "p \<in> used H" using ip by (simp add: used_def)
    then have "hElement (elt ?C p) = k" using i(4) by (simp add: stops_def p_def)
    then have "k \<in> hq_keys H" using True \<open>p \<in> used H\<close> by (auto simp: hq_keys_def)
    moreover have "hq_Insert k H = Some (Inr H)" using i(1) True ip by (simp add: hq_Insert_def p_def)
    ultimately show ?thesis using inv by (auto simp: insert_absorb)
  next
    case False
    define e where "e = \<lparr>hElement = k, hInfo = Legitimate\<rparr>"
    define H' where "H' = H\<lparr>TheCells := upd ?C p e\<rparr>"
    have ee: "(elt ?C p)\<lparr>hInfo := Legitimate, hElement := k\<rparr> = e" by (cases "elt ?C p") (simp add: e_def)
    have ins: "hq_Insert k H = Some (Inr H')" using i(1) False ip ee by (simp add: hq_Insert_def p_def H'_def)
    have sz: "hqTableSize H' = ?T" "len (TheCells H') = ?T" using T by (auto simp: H'_def)
    have c: "elt (TheCells H') q = (if q = p then e else elt ?C q)" if "0 \<le> q" for q
      using that ip by (simp add: H'_def elt_upd)
    have nn: "0 \<le> q" if "q \<in> used H" for q using that by (simp add: used_def inb_def)
    have p0: "0 \<le> p" using ip by (simp add: inb_def)
    have u: "used H' = insert p (used H)"
    proof (rule set_eqI)
      fix q
      show "q \<in> used H' \<longleftrightarrow> q \<in> insert p (used H)"
        using ip c [of q] by (cases "q = p") (auto simp: used_def H'_def e_def inb_def)
    qed
    have pk: "hElement (elt ?C p) = k" if "p \<in> used H" using i(4) that by (simp add: stops_def p_def)
    have pr: "0 \<le> probe ?T x j" for x j using T by (simp add: probe_def)
    have st: "\<not> stops H' x j" if "\<not> stops H x j" for x j
      using that u c [OF pr, of x j] sz pk
      by (cases "probe ?T x j = p") (auto simp: stops_def e_def)
    have "hq_inv H'" unfolding hq_inv_def Let_def
    proof (intro conjI ballI)
      fix q assume q: "q \<in> used H'"
      show "0 \<le> hElement (elt (TheCells H') q)" "\<exists>i. 0 \<le> i \<and> i \<le> hqTableSize H' div 2 \<and>
          q = probe (hqTableSize H') (hElement (elt (TheCells H') q)) i \<and>
          (\<forall>j. 0 \<le> j \<and> j < i \<longrightarrow> \<not> stops H' (hElement (elt (TheCells H') q)) j)"
      proof -
        consider "q = p" | "q \<noteq> p" "q \<in> used H" using q u by blast
        then have "0 \<le> hElement (elt (TheCells H') q) \<and> (\<exists>i. 0 \<le> i \<and> i \<le> ?T div 2 \<and>
          q = probe ?T (hElement (elt (TheCells H') q)) i \<and>
          (\<forall>j. 0 \<le> j \<and> j < i \<longrightarrow> \<not> stops H' (hElement (elt (TheCells H') q)) j))"
        proof cases
          case 1
          then have "hElement (elt (TheCells H') q) = k" using c [OF p0] by (simp add: e_def)
          then show ?thesis using 1 i st k by (auto simp: p_def intro!: exI [of _ i])
        next
          case 2
          then have e: "elt (TheCells H') q = elt ?C q" using c [OF nn [OF 2(2)]] by simp
          obtain m where "0 \<le> hElement (elt ?C q)" "0 \<le> m" "m \<le> ?T div 2" "q = probe ?T (hElement (elt ?C q)) m"
              "\<forall>j. 0 \<le> j \<and> j < m \<longrightarrow> \<not> stops H (hElement (elt ?C q)) j"
            using inv 2(2) by (auto simp: hq_inv_def Let_def)
          then show ?thesis unfolding e using st by blast
        qed
        then show "0 \<le> hElement (elt (TheCells H') q)" "\<exists>i. 0 \<le> i \<and> i \<le> hqTableSize H' div 2 \<and>
          q = probe (hqTableSize H') (hElement (elt (TheCells H') q)) i \<and>
          (\<forall>j. 0 \<le> j \<and> j < i \<longrightarrow> \<not> stops H' (hElement (elt (TheCells H') q)) j)" using sz by auto
      qed
    qed (use sz hq_inv_size [OF inv] in auto)
    moreover have "hq_keys H' = insert k (hq_keys H)"
    proof (rule set_eqI)
      fix x
      have "x \<in> hq_keys H' \<longleftrightarrow> x = k \<or> (\<exists>q \<in> used H. q \<noteq> p \<and> hInfo (elt ?C q) = Legitimate \<and> hElement (elt ?C q) = x)"
        using c [OF p0] c nn by (auto simp: hq_keys_def u e_def)
      then show "x \<in> hq_keys H' \<longleftrightarrow> x \<in> insert k (hq_keys H)" using False by (auto simp: hq_keys_def)
    qed
    moreover have "card (used H') \<le> card (used H) + 1" using u by (simp add: card_insert_if)
    ultimately show ?thesis using ins sz by auto
  qed
qed

section \<open>New tables and rehashing\<close>

lemma hq_InitializeTable_ok:
  assumes "MinTableSize \<le> N" "prm p" "N \<le> p" "p \<le> prime_bound"
  shows "\<exists>H. hq_InitializeTable True True g N = Some (Inr H) \<and> hq_inv H \<and> used H = {} \<and> N \<le> hqTableSize H \<and>
    hqTableSize H \<le> p"
proof -
  obtain q where q: "NextPrime N = Some (Some q)" "prm q" "N \<le> q" "q \<le> p"
    using NextPrime_ok [of N p] assms by (auto simp: MinTableSize_def)
  let ?H = "\<lparr>hqTableSize = q, TheCells = map (\<lambda>c. c\<lparr>hInfo := Empty\<rparr>) (malloc_cells g q)\<rparr>"
  have "used ?H = {}" by (auto simp: used_def inb_def elt_def nat_less_iff)
  then have "hq_inv ?H" using q assms by (auto simp: hq_inv_def prm_def)
  then show ?thesis using q assms(1) \<open>used ?H = {}\<close> by (auto simp: hq_InitializeTable_def)
qed

lemma reinsert_ok:
  "hq_inv H \<Longrightarrow> int (card (used H) + length es) \<le> hqTableSize H div 2 \<Longrightarrow>
   (\<And>e. e \<in> set es \<Longrightarrow> hInfo e = Legitimate \<Longrightarrow> 0 \<le> hElement e) \<Longrightarrow>
     \<exists>H'. reinsert es H = Some (Inr H') \<and> hq_inv H' \<and> hqTableSize H' = hqTableSize H \<and>
       hq_keys H' = hq_keys H \<union> hElement ` {e \<in> set es. hInfo e = Legitimate} \<and>
       card (used H') \<le> card (used H) + length (filter (\<lambda>e. hInfo e = Legitimate) es)"
proof (induction es arbitrary: H)
  case (Cons e es)
  show ?case
  proof (cases "hInfo e = Legitimate")
    case True
    obtain H1 where H1: "hq_Insert (hElement e) H = Some (Inr H1)" "hq_inv H1"
        "hq_keys H1 = insert (hElement e) (hq_keys H)" "hqTableSize H1 = hqTableSize H" "card (used H1) \<le> card (used H) + 1"
      using hq_Insert_ok [OF Cons.prems(1), of "hElement e"] Cons.prems(2,3) True by auto
    have "int (card (used H1) + length es) \<le> hqTableSize H1 div 2" using H1(4,5) Cons.prems(2) by simp
    from Cons.IH [OF H1(2) this] Cons.prems(3) obtain H' where "reinsert es H1 = Some (Inr H')" "hq_inv H'"
        "hqTableSize H' = hqTableSize H1" "hq_keys H' = hq_keys H1 \<union> hElement ` {e \<in> set es. hInfo e = Legitimate}"
        "card (used H') \<le> card (used H1) + length (filter (\<lambda>e. hInfo e = Legitimate) es)"
      by auto
    then show ?thesis using True H1 by auto
  next
    case False
    have "int (card (used H) + length es) \<le> hqTableSize H div 2" using Cons.prems(2) by simp
    from Cons.IH [OF Cons.prems(1) this] Cons.prems(3) False show ?thesis by auto
  qed
qed auto

lemma hq_keys_cells: "len (TheCells H) = hqTableSize H \<Longrightarrow>
    hq_keys H = hElement ` {e \<in> set (TheCells H). hInfo e = Legitimate}"
  by (auto simp: hq_keys_def used_def set_elt)

lemma legitimate_used: "length (filter (\<lambda>e. hInfo e = Legitimate) (TheCells H)) \<le> card (used H)"
proof -
  let ?I = "{i. i < length (TheCells H) \<and> hInfo (TheCells H ! i) = Legitimate}"
  have "int ` ?I \<subseteq> used H" by (auto simp: used_def inb_def elt_def)
  then have "card (int ` ?I) \<le> card (used H)" by (intro card_mono finite_used)
  moreover have "card (int ` ?I) = card ?I" by (intro card_image) (simp add: inj_on_def)
  ultimately show ?thesis by (simp add: length_filter_conv_card)
qed

lemma hq_Rehash_ok:
  assumes "hq_inv H" "5 \<le> hqTableSize H" "prm p" "2 * hqTableSize H \<le> p" "p \<le> prime_bound"
  shows "\<exists>H'. hq_Rehash True True g H = Some (Inr H') \<and> hq_inv H' \<and> hq_keys H' = hq_keys H \<and>
    2 * hqTableSize H \<le> hqTableSize H' \<and> hqTableSize H' \<le> p \<and> card (used H') \<le> card (used H)"
proof -
  let ?T = "hqTableSize H" and ?C = "TheCells H"
  have T: "len ?C = ?T" using hq_inv_size [OF assms(1)] by simp
  obtain N where N: "hq_InitializeTable True True g (2 * ?T) = Some (Inr N)" "hq_inv N" "used N = {}"
      "2 * ?T \<le> hqTableSize N" "hqTableSize N \<le> p"
    using hq_InitializeTable_ok [of "2 * ?T" p g] assms by (auto simp: MinTableSize_def)
  have "0 \<le> hElement e" if "e \<in> set ?C" "hInfo e = Legitimate" for e
  proof -
    obtain q where "inb ?C q" "elt ?C q = e" using \<open>e \<in> set ?C\<close> by (auto simp: set_elt)
    then have "q \<in> used H" using that(2) by (simp add: used_def)
    then show ?thesis using assms(1) \<open>elt ?C q = e\<close> by (auto simp: hq_inv_def Let_def)
  qed
  moreover have "int (card (used N) + length ?C) \<le> hqTableSize N div 2" using N(3,4) T by simp
  ultimately obtain H' where H': "reinsert ?C N = Some (Inr H')" "hq_inv H'" "hqTableSize H' = hqTableSize N"
      "hq_keys H' = hq_keys N \<union> hElement ` {e \<in> set ?C. hInfo e = Legitimate}"
      "card (used H') \<le> card (used N) + length (filter (\<lambda>e. hInfo e = Legitimate) ?C)"
    using reinsert_ok [OF N(2)] by blast
  have "hq_keys N = {}" using N(3) by (simp add: hq_keys_def)
  moreover have "take (nat ?T) ?C = ?C" using T by simp
  moreover have "card (used H') \<le> card (used H)" using H'(5) N(3) legitimate_used [of H] by simp
  ultimately show ?thesis using N H' assms(2,4,5) hq_keys_cells [OF T]
    by (auto simp: hq_Rehash_def)
qed

section \<open>Properties\<close>

text \<open>C26: the table of quadratic probing. \<open>NextPrime\<close> returns the least prime not
  below its argument. In a table whose prime size is at least twice the number of its used cells, the
  search for a non-negative key ends, without leaving the array, at a legitimate cell that holds the
  key or at a cell where the key may be inserted; \<open>Insert\<close> adds the key and keeps the
  invariant.\<close>

theorem HashQuad_Find_Insert:
  assumes "hq_inv H" "int (card (used H)) \<le> hqTableSize H div 2" "0 \<le> k"
  shows "(\<exists>q. hq_Find k H = Some (Inr q) \<and> inb (TheCells H) q \<and>
      (hInfo (elt (TheCells H) q) = Legitimate \<longleftrightarrow> k \<in> hq_keys H) \<and>
      (k \<in> hq_keys H \<longrightarrow> hq_Retrieve q H = Inr k)) \<and>
    (\<exists>H'. hq_Insert k H = Some (Inr H') \<and> hq_inv H' \<and> hq_keys H' = insert k (hq_keys H) \<and>
      card (used H') \<le> card (used H) + 1)"
proof
  show "\<exists>H'. hq_Insert k H = Some (Inr H') \<and> hq_inv H' \<and> hq_keys H' = insert k (hq_keys H) \<and>
      card (used H') \<le> card (used H) + 1"
    using hq_Insert_ok [OF assms] by blast
  let ?T = "hqTableSize H" and ?C = "TheCells H"
  obtain i where i: "hq_Find k H = Some (Inr (probe ?T k i))" "0 \<le> i" "i \<le> ?T div 2" "stops H k i"
      "\<And>j. 0 \<le> j \<Longrightarrow> j < i \<Longrightarrow> \<not> stops H k j"
    using hq_Find_ok [OF assms] by blast
  let ?q = "probe ?T k i"
  have ib: "inb ?C ?q" using probe_inb [of H k i] hq_inv_size [OF assms(1)] by simp
  have "hInfo (elt ?C ?q) = Legitimate \<and> hElement (elt ?C ?q) = k" if "k \<in> hq_keys H"
  proof -
    obtain q where q: "q \<in> used H" "hInfo (elt ?C q) = Legitimate" "hElement (elt ?C q) = k"
      using \<open>k \<in> hq_keys H\<close> by (auto simp: hq_keys_def)
    then show ?thesis using found_used [OF assms(1) q(1,3) i(2,4,5)] by simp
  qed
  moreover have "k \<in> hq_keys H" if l: "hInfo (elt ?C ?q) = Legitimate"
  proof -
    have "?q \<in> used H" using ib l by (simp add: used_def)
    then show ?thesis using i(4) l by (auto simp: stops_def hq_keys_def)
  qed
  ultimately show "\<exists>q. hq_Find k H = Some (Inr q) \<and> inb ?C q \<and>
      (hInfo (elt ?C q) = Legitimate \<longleftrightarrow> k \<in> hq_keys H) \<and> (k \<in> hq_keys H \<longrightarrow> hq_Retrieve q H = Inr k)"
    using i(1) ib by (auto simp: hq_Retrieve_def)
qed

theorem HashQuad_Find_Insert_witness:
  "\<exists>H'. hq_Insert 5 \<lparr>hqTableSize = 11, TheCells = replicate 11 \<lparr>hElement = 3, hInfo = Empty\<rparr>\<rparr> = Some (Inr H') \<and>
     hq_keys H' = {5}"
proof -
  let ?H = "\<lparr>hqTableSize = 11, TheCells = replicate 11 \<lparr>hElement = 3, hInfo = Empty\<rparr>\<rparr>"
  have "used ?H = {}" by (auto simp: used_def inb_def elt_def nat_less_iff)
  moreover from this have "hq_inv ?H" "hq_keys ?H = {}" using prm_11 by (auto simp: hq_inv_def hq_keys_def)
  ultimately show ?thesis using HashQuad_Find_Insert [of ?H 5] by auto
qed

text \<open>\<open>InitializeTable( N )\<close> makes an empty table whose size is a prime not
  below \<open>N\<close>, and \<open>Rehash\<close> of any table, even a full one, makes a table at least twice
  as large with the same keys; both if there is a prime in range for \<open>NextPrime\<close> to
  find.\<close>

theorem HashQuad_Rehash:
  assumes "MinTableSize \<le> N" "prm p" "N \<le> p" "p \<le> prime_bound"
    and "hq_inv H" "5 \<le> hqTableSize H" "prm p'" "2 * hqTableSize H \<le> p'" "p' \<le> prime_bound"
  shows "(\<exists>H'. hq_InitializeTable True True g N = Some (Inr H') \<and> hq_inv H' \<and> hq_keys H' = {} \<and>
      prm (hqTableSize H') \<and> N \<le> hqTableSize H' \<and> hqTableSize H' \<le> p) \<and>
    (\<exists>H'. hq_Rehash True True g H = Some (Inr H') \<and> hq_inv H' \<and> hq_keys H' = hq_keys H \<and>
      2 * hqTableSize H \<le> hqTableSize H')"
  using hq_InitializeTable_ok [OF assms(1-4), of g] hq_Rehash_ok [OF assms(5-9), of g]
  by (auto simp: hq_keys_def hq_inv_def)

theorem HashQuad_Rehash_witness:
  "\<exists>H'. hq_Rehash True True (\<lambda>_. \<lparr>hElement = 0, hInfo = Empty\<rparr>)
       \<lparr>hqTableSize = 11, TheCells = replicate 11 \<lparr>hElement = 3, hInfo = Empty\<rparr>\<rparr> = Some (Inr H') \<and>
     hq_keys H' = {} \<and> 22 \<le> hqTableSize H'"
proof -
  let ?H = "\<lparr>hqTableSize = 11, TheCells = replicate 11 \<lparr>hElement = 3, hInfo = Empty\<rparr>\<rparr>"
  have "used ?H = {}" by (auto simp: used_def inb_def elt_def nat_less_iff)
  moreover from this have "hq_inv ?H" "hq_keys ?H = {}" using prm_11 by (auto simp: hq_inv_def hq_keys_def)
  ultimately show ?thesis
    using HashQuad_Rehash [of 10 11 ?H 23 "\<lambda>_. \<lparr>hElement = 0, hInfo = Empty\<rparr>"] prm_11 prm_23
    by (auto simp: MinTableSize_def)
qed

end
