(* ===== verification/HashSep.thy ===== *)
theory HashSep
  imports NextPrime LinkedCells
begin

text \<open>
  \<^verbatim>\<open>src/DSAAC/hashsep.c\<close>: the hash table with separate chaining, an array of linked lists
  with headers. The lists live in the explicit heap of \<open>LinkedCells\<close>; the struct and its
  array are the record \<open>hashsep\<close>. \<open>al\<close> is the allocator (the address
  \<open>malloc\<close> returns in a heap, 0 on failure) and \<open>g\<close> what the blocks hold.
\<close>

section \<open>State and operations\<close>

record hashsep =
  hsTableSize :: int
  TheLists :: "int list"

definition hs_MinTableSize :: int where "hs_MinTableSize = 10"

function hs_headers :: "(heap \<Rightarrow> int) \<Rightarrow> cell \<Rightarrow> int \<Rightarrow> int \<Rightarrow> int list \<Rightarrow> heap \<Rightarrow> (int list \<times> heap) res" where
  \<comment> \<open>the loop that allocates the list headers\<close>
  "hs_headers al g T i ls h =
    (if i < T then
       (let t = al h in
        case aput ls i t of None \<Rightarrow> Inl BadAccess
        | Some ls \<Rightarrow>
           if t = 0 then Inl (FatalError ''Out of space!!!'')
           else bindr (set_Next (h(t \<mapsto> g)) t 0) (hs_headers al g T (i + 1) ls))
     else Inr (ls, h))"
  by pat_completeness auto
termination by (relation "measure (\<lambda>(al, g, T, i, ls, h). nat (T - i))") auto

declare hs_headers.simps [simp del]

definition hs_InitializeTable ::
  "bool \<Rightarrow> bool \<Rightarrow> (int \<Rightarrow> int) \<Rightarrow> (heap \<Rightarrow> int) \<Rightarrow> cell \<Rightarrow> int \<Rightarrow> heap \<Rightarrow> (hashsep \<times> heap) res option" where
  "hs_InitializeTable ok1 ok2 gl al g TableSize h =
    (if TableSize < hs_MinTableSize then Some (Inl (FatalError ''Table size too small''))
     else if \<not> ok1 then Some (Inl (FatalError ''Out of space!!!''))
     else (case NextPrime TableSize of
         None \<Rightarrow> None
       | Some None \<Rightarrow> Some (Inl SignedOverflow)
       | Some (Some T) \<Rightarrow>
          if \<not> ok2 then Some (Inl (FatalError ''Out of space!!!''))
          else Some (bindr (hs_headers al g T 0 (malloc_cells gl T) h)
            (\<lambda>(ls, h). Inr (\<lparr>hsTableSize = T, TheLists = ls\<rparr>, h)))))"

definition hs_Find :: "int \<Rightarrow> hashsep \<Rightarrow> heap \<Rightarrow> int res option" where
  "hs_Find Key H h =
    (case aget (TheLists H) (Hash Key (hsTableSize H)) of
       None \<Rightarrow> Some (Inl BadAccess)
     | Some L \<Rightarrow> andthen (Some (deref h L)) (\<lambda>c. find_loop h Key (Next c)))"

definition hs_Insert :: "int \<Rightarrow> cell \<Rightarrow> int \<Rightarrow> hashsep \<Rightarrow> heap \<Rightarrow> heap res option" where
  "hs_Insert t g Key H h =
    andthen (hs_Find Key H h) (\<lambda>Pos. Some (
      if Pos = 0 then
        if t = 0 then Inl (FatalError ''Out of space!!!'')
        else (case aget (TheLists H) (Hash Key (hsTableSize H)) of
            None \<Rightarrow> Inl BadAccess
          | Some L \<Rightarrow>
             bindr (deref (h(t \<mapsto> g)) L) (\<lambda>c.
               bindr (set_Next (h(t \<mapsto> g)) t (Next c)) (\<lambda>h.
                 bindr (set_Element h t Key) (\<lambda>h. set_Next h L t))))
      else Inr h))"

definition hs_Retrieve :: "int \<Rightarrow> heap \<Rightarrow> int res" where
  "hs_Retrieve P h = bindr (deref h P) (\<lambda>c. Inr (Element c))"

function hs_free_lists :: "hashsep \<Rightarrow> int \<Rightarrow> heap \<Rightarrow> heap res option" where
  "hs_free_lists H i h =
    (if i < hsTableSize H then
       (case aget (TheLists H) i of None \<Rightarrow> Some (Inl BadAccess)
        | Some P \<Rightarrow> (case free_loop h P of
             None \<Rightarrow> None
           | Some (Inl e) \<Rightarrow> Some (Inl e)
           | Some (Inr h') \<Rightarrow> hs_free_lists H (i + 1) h'))
     else Some (Inr h))"
  by pat_completeness auto
termination by (relation "measure (\<lambda>(H, i, h). nat (hsTableSize H - i))") auto

declare hs_free_lists.simps [simp del]

definition hs_DestroyTable :: "hashsep \<Rightarrow> heap \<Rightarrow> heap res option" where
  \<comment> \<open>the array and the struct are freed too, and no longer a value\<close>
  "hs_DestroyTable H h = hs_free_lists H 0 h"

section \<open>Representation\<close>

definition hs_slots :: "hashsep \<Rightarrow> int set" where
  "hs_slots H = {0..<hsTableSize H}"

definition chain :: "hashsep \<Rightarrow> (int \<Rightarrow> int list) \<Rightarrow> int \<Rightarrow> int set" where
  \<comment> \<open>the cells of the list of slot \<open>i\<close>, its header included\<close>
  "chain H pss i = insert (elt (TheLists H) i) (set (pss i))"

definition hs_rep :: "hashsep \<Rightarrow> heap \<Rightarrow> (int \<Rightarrow> int list) \<Rightarrow> (int \<Rightarrow> int list) \<Rightarrow> bool" where
  \<comment> \<open>slot \<open>i\<close> is a list of the cells \<open>pss i\<close> with the keys \<open>xss i\<close>, which hash to \<open>i\<close>\<close>
  "hs_rep H h pss xss \<longleftrightarrow> 0 < hsTableSize H \<and> hsTableSize H \<le> INT_MAX \<and> len (TheLists H) = hsTableSize H \<and>
     (\<forall>i \<in> hs_slots H. list_at h (elt (TheLists H) i) (pss i) (xss i) \<and> distinct (xss i) \<and>
        (\<forall>x \<in> set (xss i). 0 \<le> x \<and> Hash x (hsTableSize H) = i) \<and>
        (\<forall>j \<in> hs_slots H. j \<noteq> i \<longrightarrow> chain H pss i \<inter> chain H pss j = {}))"

definition hs_keys :: "hashsep \<Rightarrow> (int \<Rightarrow> int list) \<Rightarrow> int set" where
  "hs_keys H xss = (\<Union>i \<in> hs_slots H. set (xss i))"

lemma hs_rep_size: "hs_rep H h pss xss \<Longrightarrow> 0 < hsTableSize H \<and> hsTableSize H \<le> INT_MAX \<and> len (TheLists H) = hsTableSize H"
  by (simp add: hs_rep_def)

lemma hs_rep_slot:
  "hs_rep H h pss xss \<Longrightarrow> i \<in> hs_slots H \<Longrightarrow> list_at h (elt (TheLists H) i) (pss i) (xss i) \<and> distinct (xss i) \<and>
     (\<forall>x \<in> set (xss i). 0 \<le> x \<and> Hash x (hsTableSize H) = i)"
  by (simp add: hs_rep_def)

lemma hs_rep_disjoint:
  "hs_rep H h pss xss \<Longrightarrow> i \<in> hs_slots H \<Longrightarrow> j \<in> hs_slots H \<Longrightarrow> j \<noteq> i \<Longrightarrow> chain H pss i \<inter> chain H pss j = {}"
  by (simp add: hs_rep_def)

lemma hs_rep_inb: "hs_rep H h pss xss \<Longrightarrow> i \<in> hs_slots H \<Longrightarrow> inb (TheLists H) i"
  by (auto simp: hs_rep_def hs_slots_def inb_def)

lemma Hash_slot: "hs_rep H h pss xss \<Longrightarrow> 0 \<le> k \<Longrightarrow> Hash k (hsTableSize H) \<in> hs_slots H"
  using Hash_nonneg [of k "hsTableSize H"] hs_rep_size [of H h pss xss] by (simp add: hs_slots_def)

text \<open>A key of the table is in the list of its own slot.\<close>

lemma hs_keys_slot:
  assumes "hs_rep H h pss xss" "0 \<le> k"
  shows "k \<in> hs_keys H xss \<longleftrightarrow> k \<in> set (xss (Hash k (hsTableSize H)))"
  using hs_rep_slot [OF assms(1)] Hash_slot [OF assms] by (auto simp: hs_keys_def)

section \<open>Searching and inserting\<close>

lemma hs_Find_ok:
  assumes r: "hs_rep H h pss xss" and k: "0 \<le> k"
  shows "hs_Find k H h = Some (Inr (first_or (dropWhile (\<lambda>a. elem h a \<noteq> k) (pss (Hash k (hsTableSize H)))) 0))"
proof -
  let ?i = "Hash k (hsTableSize H)"
  have i: "?i \<in> hs_slots H" by (rule Hash_slot [OF r k])
  obtain c where c: "elt (TheLists H) ?i \<noteq> 0" "h (elt (TheLists H) ?i) = Some c" "seg h (Next c) (pss ?i) 0"
    using hs_rep_slot [OF r i] list_at_header by blast
  then show ?thesis using hs_rep_inb [OF r i] find_loop_ok [OF c(3)] by (simp add: hs_Find_def deref_ok)
qed

lemma hs_Find_finds:
  assumes r: "hs_rep H h pss xss" and k: "0 \<le> k"
  shows "\<exists>P. hs_Find k H h = Some (Inr P) \<and> (P = 0 \<longleftrightarrow> k \<notin> hs_keys H xss) \<and>
    (P \<noteq> 0 \<longrightarrow> P \<in> set (pss (Hash k (hsTableSize H))) \<and> hs_Retrieve P h = Inr k)"
proof -
  let ?i = "Hash k (hsTableSize H)"
  have l: "list_at h (elt (TheLists H) ?i) (pss ?i) (xss ?i)" using hs_rep_slot [OF r] Hash_slot [OF r k] by blast
  have x: "xss ?i = map (elem h) (pss ?i)" using l by (simp add: list_at_def)
  show ?thesis
  proof (cases "dropWhile (\<lambda>a. elem h a \<noteq> k) (pss ?i)")
    case Nil
    then have "k \<notin> set (xss ?i)" using x by (auto simp: dropWhile_eq_Nil_conv)
    then show ?thesis using hs_Find_ok [OF r k] Nil hs_keys_slot [OF r k] by simp
  next
    case (Cons q qs)
    then have q: "q \<in> set (pss ?i)" by (metis list.set_intros(1) set_dropWhileD)
    moreover have e: "elem h q = k" using hd_dropWhile [of "\<lambda>a. elem h a \<noteq> k" "pss ?i"] Cons by simp
    ultimately have "k \<in> set (xss ?i)" using x by auto
    moreover obtain c where "q \<noteq> 0" "h q = Some c" using list_at_cells [OF l, of q] q by auto
    ultimately show ?thesis using hs_Find_ok [OF r k] Cons hs_keys_slot [OF r k] e q
      by (simp add: hs_Retrieve_def deref_ok elem_def)
  qed
qed

lemma hs_rep_update:
  assumes r: "hs_rep H h pss xss" and i: "i \<in> hs_slots H" and t: "fresh h t"
    and l: "list_at h' (elt (TheLists H) i) (t # pss i) (k # xss i)"
    and k: "0 \<le> k" "Hash k (hsTableSize H) = i" "k \<notin> set (xss i)"
    and f: "\<And>a. a \<noteq> elt (TheLists H) i \<Longrightarrow> a \<noteq> t \<Longrightarrow> h' a = h a"
  shows "hs_rep H h' (pss(i := t # pss i)) (xss(i := k # xss i))"
proof -
  let ?P = "pss(i := t # pss i)"
  have tn: "t \<notin> chain H pss j" if "j \<in> hs_slots H" for j
    using list_at_cells [of h "elt (TheLists H) j" "pss j"] hs_rep_slot [OF r that] t
    by (fastforce simp: chain_def fresh_def)
  have ch: "chain H ?P j = (if j = i then insert t (chain H pss i) else chain H pss j)" for j
    by (auto simp: chain_def)
  have o: "list_at h' (elt (TheLists H) j) (pss j) (xss j)" if "j \<in> hs_slots H" "j \<noteq> i" for j
  proof (rule list_at_frame [of h])
    show "list_at h (elt (TheLists H) j) (pss j) (xss j)" using hs_rep_slot [OF r that(1)] by simp
    show "h' a = h a" if "a \<in> set (elt (TheLists H) j # pss j)" for a
    proof (rule f)
      have a: "a \<in> chain H pss j" using that by (simp add: chain_def)
      then show "a \<noteq> t" using tn \<open>j \<in> hs_slots H\<close> by auto
      show "a \<noteq> elt (TheLists H) i"
        using a hs_rep_disjoint [OF r i \<open>j \<in> hs_slots H\<close> \<open>j \<noteq> i\<close>] by (auto simp: chain_def)
    qed
  qed
  have d: "chain H ?P m \<inter> chain H ?P j = {}" if "m \<in> hs_slots H" "j \<in> hs_slots H" "j \<noteq> m" for m j
    using tn [OF that(1)] tn [OF that(2)] hs_rep_disjoint [OF r that] that(3) unfolding ch by auto
  show ?thesis unfolding hs_rep_def using hs_rep_size [OF r] l o d k hs_rep_slot [OF r] by auto
qed

lemma hs_Insert_ok:
  assumes r: "hs_rep H h pss xss" and k: "0 \<le> k" and t: "fresh h t"
  shows "\<exists>h' pss' xss'. hs_Insert t g k H h = Some (Inr h') \<and> hs_rep H h' pss' xss' \<and>
    hs_keys H xss' = insert k (hs_keys H xss)"
proof (cases "k \<in> hs_keys H xss")
  case True
  then obtain P where "hs_Find k H h = Some (Inr P)" "P \<noteq> 0" using hs_Find_finds [OF r k] by auto
  then have "hs_Insert t g k H h = Some (Inr h)" by (simp add: hs_Insert_def)
  then show ?thesis using r True by (metis insert_absorb)
next
  case False
  define i where "i = Hash k (hsTableSize H)"
  define L where "L = elt (TheLists H) i"
  have i: "i \<in> hs_slots H" unfolding i_def by (rule Hash_slot [OF r k])
  have l: "list_at h L (pss i) (xss i)" using hs_rep_slot [OF r i] by (simp add: L_def)
  have nk: "k \<notin> set (xss i)" using False hs_keys_slot [OF r k] by (simp add: i_def)
  have f: "hs_Find k H h = Some (Inr 0)" using False hs_Find_finds [OF r k] by auto
  obtain c where c: "L \<noteq> 0" "h L = Some c" using list_at_cells [OF l, of L] by auto
  have tn: "t \<notin> set (L # pss i)" using list_at_cells [OF l] t unfolding fresh_def by fastforce
  let ?h = "h(t \<mapsto> \<lparr>Element = k, Next = Next c\<rparr>, L \<mapsto> c\<lparr>Next := t\<rparr>)"
  have tL: "t \<noteq> L" using tn by auto
  have "aget (TheLists H) (Hash k (hsTableSize H)) = Some L"
    using hs_rep_inb [OF r i] by (simp add: i_def L_def)
  then have "hs_Insert t g k H h = Some (Inr ?h)"
    using f c t tL by (auto simp: hs_Insert_def heap_ok fresh_def fun_upd_def fun_eq_iff)
  moreover have "list_at ?h L (take 0 (pss i) @ t # drop 0 (pss i)) (take 0 (xss i) @ k # drop 0 (xss i))"
    by (rule list_at_insert [OF l, of 0 L c t]) (use t tL tn c in \<open>auto simp: fresh_def\<close>)
  then have "list_at ?h (elt (TheLists H) i) (t # pss i) (k # xss i)" by (simp add: L_def)
  then have "hs_rep H ?h (pss(i := t # pss i)) (xss(i := k # xss i))"
    by (rule hs_rep_update [OF r i t]) (use k nk in \<open>auto simp: i_def L_def\<close>)
  moreover have "hs_keys H (xss(i := k # xss i)) = insert k (hs_keys H xss)"
    using i by (auto simp: hs_keys_def split: if_splits)
  ultimately show ?thesis by blast
qed

lemma hs_Insert_finite:
  assumes "hs_Insert t g k H h = Some (Inr h')" "finite (dom h)"
  shows "finite (dom h')"
proof -
  have n: "finite (dom h2) = finite (dom h1)" if "set_Next h1 p q = Inr h2" for h1 h2 p q
    using that by (auto simp: set_Next_def deref_def split: if_splits option.splits)
  have e: "finite (dom h2) = finite (dom h1)" if "set_Element h1 p q = Inr h2" for h1 h2 p q
    using that by (auto simp: set_Element_def deref_def split: if_splits option.splits)
  show ?thesis using assms
    by (auto simp: hs_Insert_def andthen_def bindr_eq_Inr split: option.splits sum.splits if_splits dest!: n e)
qed

section \<open>Creating and destroying\<close>

lemma hs_headers_ok:
  assumes al: "malloc_ok al"
  shows "finite (dom h) \<Longrightarrow> 0 \<le> i \<Longrightarrow> i \<le> T \<Longrightarrow> len ls = T \<Longrightarrow>
    (\<And>j. 0 \<le> j \<Longrightarrow> j < i \<Longrightarrow> list_at h (elt ls j) [] []) \<Longrightarrow> inj_on (elt ls) {0..<i} \<Longrightarrow>
    \<exists>ls' h'. hs_headers al g T i ls h = Inr (ls', h') \<and> len ls' = T \<and> finite (dom h') \<and>
      (\<forall>j. 0 \<le> j \<and> j < T \<longrightarrow> list_at h' (elt ls' j) [] []) \<and> inj_on (elt ls') {0..<T} \<and>
      (\<forall>a \<in> dom h. h' a = h a)"
proof (induction "nat (T - i)" arbitrary: i ls h)
  case 0
  then have "i = T" by simp
  then show ?case using 0 by (subst hs_headers.simps) simp
next
  case (Suc n)
  have iT: "i < T" using Suc.hyps(2) by linarith
  define t where "t = al h"
  have t: "t \<noteq> 0" "h t = None" using al Suc.prems(1) by (auto simp: malloc_ok_def fresh_def t_def)
  have ib: "inb ls i" using iT Suc.prems by (simp add: inb_def)
  let ?h = "h(t \<mapsto> g\<lparr>Next := 0\<rparr>)" and ?l = "upd ls i t"
  have step: "hs_headers al g T i ls h = hs_headers al g T (i + 1) ?l ?h"
    using iT ib t by (subst hs_headers.simps) (simp add: Let_def set_Next_def deref_def flip: t_def)
  have ne: "elt ls j \<noteq> t" if "0 \<le> j" "j < i" for j
    using list_at_cells [OF Suc.prems(5) [OF that], of "elt ls j"] t by auto
  have l: "list_at ?h (elt ?l j) [] []" if "0 \<le> j" "j < i + 1" for j
  proof (cases "j = i")
    case True
    then show ?thesis using ib t by (simp add: list_at_def)
  next
    case False
    then show ?thesis using that Suc.prems(2) ne [of j] list_at_frame [OF Suc.prems(5) [of j], of ?h] by simp
  qed
  have inj: "inj_on (elt ?l) {0..<i + 1}"
  proof (rule inj_onI)
    fix j k assume a: "j \<in> {0..<i + 1}" "k \<in> {0..<i + 1}" "elt ?l j = elt ?l k"
    have e: "elt ?l j = (if j = i then t else elt ls j)" "elt ?l k = (if k = i then t else elt ls k)"
      using ib a(1,2) by (simp_all add: elt_upd)
    show "j = k"
    proof (cases "j = i \<or> k = i")
      case True
      then show ?thesis using a e ne [of j] ne [of k] by (auto split: if_splits)
    next
      case False
      then show ?thesis using a e inj_onD [OF Suc.prems(6), of j k] by simp
    qed
  qed
  have "\<exists>ls' h'. hs_headers al g T (i + 1) ?l ?h = Inr (ls', h') \<and> len ls' = T \<and> finite (dom h') \<and>
      (\<forall>j. 0 \<le> j \<and> j < T \<longrightarrow> list_at h' (elt ls' j) [] []) \<and> inj_on (elt ls') {0..<T} \<and>
      (\<forall>a \<in> dom ?h. h' a = ?h a)"
  proof (rule Suc.hyps(1))
    show "n = nat (T - (i + 1))" using Suc.hyps(2) by linarith
    show "finite (dom ?h)" using Suc.prems(1) by simp
    show "0 \<le> i + 1" using Suc.prems(2) by simp
    show "i + 1 \<le> T" using iT by simp
    show "len ?l = T" using Suc.prems(4) by simp
  qed (fact l inj)+
  then obtain ls' h' where r: "hs_headers al g T (i + 1) ?l ?h = Inr (ls', h') \<and> len ls' = T \<and> finite (dom h') \<and>
      (\<forall>j. 0 \<le> j \<and> j < T \<longrightarrow> list_at h' (elt ls' j) [] []) \<and> inj_on (elt ls') {0..<T} \<and>
      (\<forall>a \<in> dom ?h. h' a = ?h a)" by blast
  moreover have "\<forall>a \<in> dom h. h' a = h a"
  proof
    fix a assume "a \<in> dom h"
    moreover from this have "a \<noteq> t" using t(2) by auto
    ultimately show "h' a = h a" using r by auto
  qed
  ultimately show ?case using step by (intro exI [of _ ls'] exI [of _ h']) simp
qed

lemma hs_InitializeTable_ok:
  assumes al: "malloc_ok al" and N: "hs_MinTableSize \<le> N" "prm p" "N \<le> p" "p \<le> prime_bound"
    and f: "finite (dom h)"
  shows "\<exists>H h'. hs_InitializeTable True True gl al g N h = Some (Inr (H, h')) \<and>
    hs_rep H h' (\<lambda>_. []) (\<lambda>_. []) \<and> prm (hsTableSize H) \<and> N \<le> hsTableSize H \<and> (\<forall>a \<in> dom h. h' a = h a) \<and> finite (dom h')"
proof -
  obtain T where T: "NextPrime N = Some (Some T)" "prm T" "N \<le> T" "T \<le> p"
    using NextPrime_ok [of N p] N by (auto simp: hs_MinTableSize_def)
  have T0: "0 \<le> T" "0 < T" using T(3) N(1) by (auto simp: hs_MinTableSize_def)
  obtain ls h' where r: "hs_headers al g T 0 (malloc_cells gl T) h = Inr (ls, h')" "len ls = T"
      "\<forall>j. 0 \<le> j \<and> j < T \<longrightarrow> list_at h' (elt ls j) [] []" "inj_on (elt ls) {0..<T}" "\<forall>a \<in> dom h. h' a = h a"
      "finite (dom h')"
    using hs_headers_ok [OF al f order_refl T0(1), of "malloc_cells gl T" g] T0 by auto
  let ?H = "\<lparr>hsTableSize = T, TheLists = ls\<rparr>"
  have "chain ?H (\<lambda>_. []) i \<inter> chain ?H (\<lambda>_. []) j = {}" if "i \<in> hs_slots ?H" "j \<in> hs_slots ?H" "j \<noteq> i" for i j
    using that r(4) by (auto simp: chain_def hs_slots_def inj_on_def)
  then have "hs_rep ?H h' (\<lambda>_. []) (\<lambda>_. [])"
    using r(2,3) T N T0 unfolding hs_rep_def by (auto simp: hs_slots_def)
  then show ?thesis using T r N(1) by (intro exI [of _ ?H] exI [of _ h']) (simp add: hs_InitializeTable_def)
qed

lemma hs_free_lists_ok:
  assumes r: "hs_rep H h pss xss"
  shows "0 \<le> i \<Longrightarrow> i \<le> hsTableSize H \<Longrightarrow> k = h |` (- (\<Union>j \<in> {0..<i}. chain H pss j)) \<Longrightarrow>
    hs_free_lists H i k = Some (Inr (h |` (- (\<Union>j \<in> hs_slots H. chain H pss j))))"
proof (induction "nat (hsTableSize H - i)" arbitrary: i k)
  case 0
  then have "i = hsTableSize H" by simp
  then show ?case using 0 by (subst hs_free_lists.simps) (simp add: hs_slots_def)
next
  case (Suc n)
  have i: "i \<in> hs_slots H" "i < hsTableSize H" using Suc.hyps(2) Suc.prems(1) by (auto simp: hs_slots_def)
  let ?L = "elt (TheLists H) i"
  have l: "list_at h ?L (pss i) (xss i)" using hs_rep_slot [OF r i(1)] by simp
  have k: "k a = h a" if "a \<in> set (?L # pss i)" for a
  proof -
    have "a \<notin> chain H pss j" if "j \<in> {0..<i}" for j
      using hs_rep_disjoint [OF r i(1), of j] that i \<open>a \<in> set (?L # pss i)\<close> by (auto simp: hs_slots_def chain_def)
    then show ?thesis using Suc.prems(3) by (auto simp: restrict_map_def)
  qed
  have "list_at k ?L (pss i) (xss i)" by (rule list_at_frame [OF l k])
  then have "free_loop k ?L = Some (Inr (k |` (- set (?L # pss i))))"
    using free_loop_ok [of k ?L "?L # pss i"] by (simp add: list_at_def)
  moreover have "k |` (- set (?L # pss i)) = h |` (- (\<Union>j \<in> {0..<i + 1}. chain H pss j))"
  proof -
    have "{0..<i + 1} = insert i {0..<i}" using Suc.prems(1) by auto
    then show ?thesis unfolding Suc.prems(3) by (auto simp: restrict_map_def chain_def fun_eq_iff)
  qed
  ultimately show ?case using Suc.hyps(1) [of "i + 1"] Suc.hyps(2) i hs_rep_inb [OF r i(1)] Suc.prems(1)
    by (subst hs_free_lists.simps) simp
qed

section \<open>Theorems\<close>

text \<open>Separate chaining implements a set of non-negative keys: \<open>Find\<close> returns a cell
  that holds the key if it is in the table and \<open>NULL\<close> if it is not, and \<open>Insert\<close>
  with memory available keeps the representation, adds the key, and a following \<open>Find\<close>
  returns a cell with it. Every heap access is to an allocated cell and both loops end.\<close>

theorem HashSep_Find_Insert:
  assumes "hs_rep H h pss xss" "0 \<le> k" "fresh h t"
  shows "(\<exists>P. hs_Find k H h = Some (Inr P) \<and> (P = 0 \<longleftrightarrow> k \<notin> hs_keys H xss) \<and>
      (P \<noteq> 0 \<longrightarrow> hs_Retrieve P h = Inr k)) \<and>
    (\<exists>h' pss' xss' P. hs_Insert t g k H h = Some (Inr h') \<and> hs_rep H h' pss' xss' \<and>
      hs_keys H xss' = insert k (hs_keys H xss) \<and>
      hs_Find k H h' = Some (Inr P) \<and> P \<noteq> 0 \<and> hs_Retrieve P h' = Inr k)"
proof -
  obtain h' pss' xss' where i: "hs_Insert t g k H h = Some (Inr h')" "hs_rep H h' pss' xss'"
      "hs_keys H xss' = insert k (hs_keys H xss)"
    using hs_Insert_ok [OF assms, of g] by blast
  then obtain P where "hs_Find k H h' = Some (Inr P)" "P \<noteq> 0" "hs_Retrieve P h' = Inr k"
    using hs_Find_finds [OF i(2) assms(2)] by auto
  then show ?thesis using i hs_Find_finds [OF assms(1,2)] by blast
qed

theorem HashSep_Find_Insert_witness:
  "\<exists>h'. hs_Insert 2 \<lparr>Element = 0, Next = 0\<rparr> 5 \<lparr>hsTableSize = 1, TheLists = [1]\<rparr>
      [1 \<mapsto> \<lparr>Element = 0, Next = 0\<rparr>] = Some (Inr h') \<and>
    hs_Find 5 \<lparr>hsTableSize = 1, TheLists = [1]\<rparr> h' \<noteq> Some (Inr 0)"
proof -
  let ?H = "\<lparr>hsTableSize = 1, TheLists = [1]\<rparr>" and ?h = "[1 \<mapsto> \<lparr>Element = 0, Next = 0\<rparr>] :: heap"
  have "hs_slots ?H = {0}" by (auto simp: hs_slots_def)
  then have "hs_rep ?H ?h (\<lambda>_. []) (\<lambda>_. [])" by (simp add: hs_rep_def elt_def list_at_def)
  moreover have "fresh ?h 2" by (simp add: fresh_def)
  ultimately show ?thesis using HashSep_Find_Insert [of ?H ?h _ _ 5 2 "\<lparr>Element = 0, Next = 0\<rparr>"] by fastforce
qed

text \<open>\<open>InitializeTable\<close> with memory available builds an empty table of prime size
  in cells that were free before, and \<open>DestroyTable\<close> of any table frees exactly its
  headers and chains, each cell once: a table made, filled and destroyed leaves the rest of the
  heap as it was.\<close>

theorem HashSep_lifetime:
  assumes "malloc_ok al" "hs_MinTableSize \<le> N" "prm p" "N \<le> p" "p \<le> prime_bound" "finite (dom h)"
    and "hs_rep H k pss xss"
  shows "(\<exists>H' h'. hs_InitializeTable True True gl al g N h = Some (Inr (H', h')) \<and>
      hs_rep H' h' (\<lambda>_. []) (\<lambda>_. []) \<and> prm (hsTableSize H') \<and> N \<le> hsTableSize H' \<and> (\<forall>a \<in> dom h. h' a = h a)) \<and>
    (\<exists>k'. hs_DestroyTable H k = Some (Inr k') \<and>
      (\<forall>a. k' a = (if \<exists>j \<in> hs_slots H. a \<in> chain H pss j then None else k a)))"
proof
  show "\<exists>H' h'. hs_InitializeTable True True gl al g N h = Some (Inr (H', h')) \<and>
      hs_rep H' h' (\<lambda>_. []) (\<lambda>_. []) \<and> prm (hsTableSize H') \<and> N \<le> hsTableSize H' \<and> (\<forall>a \<in> dom h. h' a = h a)"
    using hs_InitializeTable_ok [OF assms(1-6), of gl g] by blast
  have "hs_DestroyTable H k = Some (Inr (k |` (- (\<Union>j \<in> hs_slots H. chain H pss j))))"
    using hs_free_lists_ok [OF assms(7), of 0 k] hs_rep_size [OF assms(7)]
    by (simp add: hs_DestroyTable_def restrict_map_def)
  then show "\<exists>k'. hs_DestroyTable H k = Some (Inr k') \<and>
      (\<forall>a. k' a = (if \<exists>j \<in> hs_slots H. a \<in> chain H pss j then None else k a))"
    by (auto simp: restrict_map_def)
qed

theorem HashSep_lifetime_witness:
  "\<exists>k'. hs_DestroyTable \<lparr>hsTableSize = 1, TheLists = [1]\<rparr> [1 \<mapsto> \<lparr>Element = 0, Next = 0\<rparr>] = Some (Inr k') \<and> k' 1 = None"
proof -
  let ?H = "\<lparr>hsTableSize = 1, TheLists = [1]\<rparr>" and ?h = "[1 \<mapsto> \<lparr>Element = 0, Next = 0\<rparr>] :: heap"
  have s: "hs_slots ?H = {0}" by (auto simp: hs_slots_def)
  then have "hs_rep ?H ?h (\<lambda>_. []) (\<lambda>_. [])" by (simp add: hs_rep_def elt_def list_at_def)
  then show ?thesis
    using HashSep_lifetime [OF malloc_ok_above, of 10 11 Map.empty ?H ?h "\<lambda>_. []" "\<lambda>_. []" "\<lambda>_. 0" "\<lparr>Element = 0, Next = 0\<rparr>"] prm_11 s
    by (auto simp: hs_MinTableSize_def chain_def elt_def)
qed

end
