(* ===== verification/DisjSets.thy ===== *)
theory DisjSets
  imports LinkedCells
begin

text \<open>
  \<^verbatim>\<open>src/DSAAC/disjsets.c\<close>: disjoint sets in an array. A positive entry is the parent of the
  element, another one makes it a root, with minus its rank in the fast version. Both versions of
  the file are modelled: \<open>fast_\<close> (union by height, path compression; the one that is
  compiled) and \<open>slow_\<close> (under \<open>SlowAlg\<close>). The recursion of \<open>Find\<close>
  does not end on a cyclic array: the models are partial functions, \<open>None\<close> meaning that.
\<close>

section \<open>State and operations\<close>

definition NumSets :: int where "NumSets = 128"

function ds_init_loop :: "int \<Rightarrow> int list \<Rightarrow> int list res" where
  "ds_init_loop i S =
    (if i > 0 then (case aput S i 0 of None \<Rightarrow> Inl BadAccess | Some S' \<Rightarrow> ds_init_loop (i - 1) S')
     else Inr S)"
  by pat_completeness auto
termination by (relation "measure (\<lambda>(i, S). nat i)") auto

declare ds_init_loop.simps [simp del]

definition ds_Initialize :: "int list \<Rightarrow> int list res" where
  "ds_Initialize S = ds_init_loop NumSets S"

definition slow_SetUnion :: "int list \<Rightarrow> int \<Rightarrow> int \<Rightarrow> int list res" where
  "slow_SetUnion S Root1 Root2 = (case aput S Root2 Root1 of None \<Rightarrow> Inl BadAccess | Some S \<Rightarrow> Inr S)"

partial_function (option) slow_Find :: "int \<Rightarrow> int list \<Rightarrow> int res option" where
  "slow_Find X S =
    (case aget S X of None \<Rightarrow> Some (Inl BadAccess)
     | Some v \<Rightarrow> if v \<le> 0 then Some (Inr X) else slow_Find v S)"

definition fast_SetUnion :: "int list \<Rightarrow> int \<Rightarrow> int \<Rightarrow> int list res" where
  "fast_SetUnion S Root1 Root2 =
    (case aget S Root1 of None \<Rightarrow> Inl BadAccess
     | Some v1 \<Rightarrow> (case aget S Root2 of None \<Rightarrow> Inl BadAccess
       | Some v2 \<Rightarrow>
          if v2 < v1 then Inr (upd S Root1 Root2)
          else if v1 = v2 then
            (case ck (v1 - 1) of None \<Rightarrow> Inl SignedOverflow
             | Some v \<Rightarrow> Inr (upd (upd S Root1 v) Root2 Root1))
          else Inr (upd S Root2 Root1)))"

partial_function (option) fast_Find :: "int \<Rightarrow> int list \<Rightarrow> (int \<times> int list) res option" where
  "fast_Find X S =
    (case aget S X of None \<Rightarrow> Some (Inl BadAccess)
     | Some v \<Rightarrow>
        if v \<le> 0 then Some (Inr (X, S))
        else Option.bind (fast_Find v S) (\<lambda>x. case x of
            Inl e \<Rightarrow> Some (Inl e)
          | Inr (r, S') \<Rightarrow>
             (case aput S' X r of None \<Rightarrow> Some (Inl BadAccess) | Some S'' \<Rightarrow> Some (Inr (r, S'')))))"

definition join :: "(int \<Rightarrow> int list \<Rightarrow> (int \<times> int list) res option) \<Rightarrow> (int list \<Rightarrow> int \<Rightarrow> int \<Rightarrow> int list res) \<Rightarrow>
    int \<Rightarrow> int \<Rightarrow> int list \<Rightarrow> int list res option" where
  \<comment> \<open>the body of the inner loop of \<open>main\<close>\<close>
  "join fnd un a b S =
    andthen (fnd a S) (\<lambda>(Set1, S). andthen (fnd b S) (\<lambda>(Set2, S). Some (un S Set1 Set2)))"

fun joins :: "(int \<Rightarrow> int list \<Rightarrow> (int \<times> int list) res option) \<Rightarrow> (int list \<Rightarrow> int \<Rightarrow> int \<Rightarrow> int list res) \<Rightarrow>
    (int \<times> int) list \<Rightarrow> int list \<Rightarrow> int list res option" where
  "joins fnd un [] S = Some (Inr S)"
| "joins fnd un ((a, b) # ps) S = andthen (join fnd un a b S) (joins fnd un ps)"

section \<open>Roots\<close>

abbreviation ids :: "int set" where "ids \<equiv> {1..NumSets}"

inductive root_of :: "int list \<Rightarrow> int \<Rightarrow> int \<Rightarrow> bool" for S where
  root: "elt S x \<le> 0 \<Longrightarrow> root_of S x x"
| step: "0 < elt S x \<Longrightarrow> root_of S (elt S x) r \<Longrightarrow> root_of S x r"

inductive_cases root_ofE: "root_of S x r"

definition same :: "int list \<Rightarrow> int \<Rightarrow> int \<Rightarrow> bool" where
  "same S x y \<longleftrightarrow> (\<exists>r. root_of S x r \<and> root_of S y r)"

definition forest :: "int list \<Rightarrow> (int \<Rightarrow> nat) \<Rightarrow> bool" where
  \<comment> \<open>the parents are elements and \<open>rk\<close> grows along every path\<close>
  "forest S rk \<longleftrightarrow> len S = NumSets + 1 \<and> (\<forall>x \<in> ids. 0 < elt S x \<longrightarrow> elt S x \<in> ids \<and> rk x < rk (elt S x))"

lemma root_of_elt: "root_of S x r \<Longrightarrow> elt S r \<le> 0"
  by (induction rule: root_of.induct) auto

lemma root_of_unique: "root_of S x r \<Longrightarrow> root_of S x q \<Longrightarrow> r = q"
proof (induction rule: root_of.induct)
  case (root x)
  then show ?case by (auto elim: root_ofE)
next
  case (step x r)
  then show ?case by (auto elim: root_ofE)
qed

lemma root_of_self [simp]: "elt S x \<le> 0 \<Longrightarrow> root_of S x r \<longleftrightarrow> r = x"
  by (auto intro: root_of.root elim: root_ofE)

lemma forest_inb: "forest S rk \<Longrightarrow> x \<in> ids \<Longrightarrow> inb S x"
  by (auto simp: forest_def inb_def)

lemma forest_root: "forest S rk \<Longrightarrow> x \<in> ids \<Longrightarrow> \<exists>r \<in> ids. root_of S x r \<and> rk x \<le> rk r"
proof (induction "Max (rk ` ids) - rk x" arbitrary: x rule: less_induct)
  case less
  show ?case
  proof (cases "elt S x \<le> 0")
    case True
    then show ?thesis using less.prems by auto
  next
    case False
    then have p: "elt S x \<in> ids" "rk x < rk (elt S x)" using less.prems by (auto simp: forest_def)
    have "rk (elt S x) \<le> Max (rk ` ids)" using p(1) by (intro Max_ge) auto
    then obtain r where "r \<in> ids" "root_of S (elt S x) r" "rk (elt S x) \<le> rk r"
      using less.hyps [of "elt S x"] p less.prems(1) by fastforce
    then show ?thesis using False p(2) by (intro bexI [of _ r]) (auto intro: root_of.step)
  qed
qed

lemma root_of_in_ids: "forest S rk \<Longrightarrow> x \<in> ids \<Longrightarrow> root_of S x r \<Longrightarrow> r \<in> ids \<and> rk x \<le> rk r \<and> elt S r \<le> 0"
  using forest_root root_of_unique root_of_elt by metis

lemma same_refl: "forest S rk \<Longrightarrow> x \<in> ids \<Longrightarrow> same S x x"
  using forest_root by (fastforce simp: same_def)

lemma same_root: "root_of S r r \<Longrightarrow> same S x r \<longleftrightarrow> root_of S x r"
  by (auto simp: same_def dest: root_of_unique)

text \<open>Path compression: pointing a non-root to its root changes no root.\<close>

lemma compress:
  assumes f: "forest S rk" and x: "x \<in> ids" "root_of S x r" "0 < elt S x"
  shows "forest (upd S x r) rk" "\<And>y q. y \<in> ids \<Longrightarrow> root_of (upd S x r) y q \<longleftrightarrow> root_of S y q"
proof -
  have ib: "inb S x" "0 \<le> x" using forest_inb [OF f x(1)] x(1) by auto
  have r: "r \<in> ids" "elt S r \<le> 0" using root_of_in_ids [OF f x(1,2)] by auto
  have rx: "r \<noteq> x" using r(2) x(3) by auto
  have e: "elt (upd S x r) y = (if y = x then r else elt S y)" if "y \<in> ids" for y
    using ib that by (simp add: elt_upd)
  have xr: "rk x < rk r"
  proof -
    have "root_of S (elt S x) r" using x(2,3) by (auto elim: root_ofE)
    then show ?thesis using root_of_in_ids [OF f, of "elt S x" r] f x by (fastforce simp: forest_def)
  qed
  show "forest (upd S x r) rk" using f e r xr by (auto simp: forest_def)
  have fwd: "root_of S y q \<Longrightarrow> y \<in> ids \<Longrightarrow> root_of (upd S x r) y q" for y q
  proof (induction rule: root_of.induct)
    case (root y)
    then have "y \<noteq> x" using x(3) by auto
    then show ?case using e [OF root.prems] root.hyps by (intro root_of.root) simp
  next
    case (step y q)
    show ?case
    proof (cases "y = x")
      case True
      then have "root_of S x q" using step.hyps by (auto intro: root_of.step)
      then have "q = r" using x(2) root_of_unique by blast
      moreover have "root_of (upd S x r) r r" using e [OF r(1)] rx r(2) by simp
      moreover have "elt (upd S x r) x = r" using e [OF x(1)] by simp
      ultimately show ?thesis using True r(1) root_of.step [of "upd S x r" x r] by simp
    next
      case False
      have "elt S y \<in> ids" using f step by (auto simp: forest_def)
      moreover have "elt (upd S x r) y = elt S y" using False e [OF step.prems] by simp
      ultimately show ?thesis using step root_of.step [of "upd S x r" y q] by simp
    qed
  qed
  fix y q assume y: "y \<in> ids"
  show "root_of (upd S x r) y q \<longleftrightarrow> root_of S y q"
    using fwd [OF _ y] forest_root [OF f y] root_of_unique by metis
qed

text \<open>Linking: the root \<open>l\<close> gets the root \<open>w\<close> as its parent.\<close>

lemma link:
  assumes f: "forest S rk" and l: "l \<in> ids" "elt S l \<le> 0" and w: "w \<in> ids" "elt S w \<le> 0" "w \<noteq> l"
    and n: "elt S' l = w" "elt S' w \<le> 0" "\<And>y. y \<in> ids \<Longrightarrow> y \<noteq> l \<Longrightarrow> y \<noteq> w \<Longrightarrow> elt S' y = elt S y"
    and y: "y \<in> ids"
  shows "root_of S' y q \<longleftrightarrow> (if q = l then False else root_of S y q \<or> q = w \<and> root_of S y l)"
proof -
  have fwd: "root_of S y q \<Longrightarrow> y \<in> ids \<Longrightarrow> root_of S' y (if q = l then w else q)" for y q
  proof (induction rule: root_of.induct)
    case (root y)
    then show ?case using n w by (cases "y = l"; cases "y = w") (auto intro: root_of.intros)
  next
    case (step y q)
    then have "elt S y \<in> ids" using f by (auto simp: forest_def)
    moreover have "elt S' y = elt S y" using step l w by (intro n(3)) auto
    ultimately show ?case using step by (auto intro: root_of.step)
  qed
  obtain p where p: "root_of S y p" using forest_root [OF f y] by blast
  have "root_of S' y q \<longleftrightarrow> q = (if p = l then w else p)" for q using fwd [OF p y] root_of_unique by metis
  moreover have "root_of S y q \<longleftrightarrow> q = p" for q using p root_of_unique by metis
  ultimately show ?thesis using w(3) by auto
qed

lemma link_same:
  assumes "forest S rk" "l \<in> ids" "elt S l \<le> 0" "w \<in> ids" "elt S w \<le> 0" "w \<noteq> l"
    and "elt S' l = w" "elt S' w \<le> 0" "\<And>y. y \<in> ids \<Longrightarrow> y \<noteq> l \<Longrightarrow> y \<noteq> w \<Longrightarrow> elt S' y = elt S y"
    and "x \<in> ids" "y \<in> ids"
  shows "same S' x y \<longleftrightarrow> same S x y \<or> (same S x w \<and> same S y l) \<or> (same S x l \<and> same S y w)"
proof -
  have L: "root_of S' z q \<longleftrightarrow> (if q = l then False else root_of S z q \<or> q = w \<and> root_of S z l)" if "z \<in> ids" for z q
    by (rule link [OF assms(1-9) that])
  obtain p q where "root_of S x p" "root_of S y q" using forest_root assms(1,10,11) by metis
  then have R: "root_of S x r \<longleftrightarrow> r = p" "root_of S y r \<longleftrightarrow> r = q" for r using root_of_unique by metis+
  have "root_of S' x r \<longleftrightarrow> r = (if p = l then w else p)" "root_of S' y r \<longleftrightarrow> r = (if q = l then w else q)" for r
    using L [OF assms(10), of r] L [OF assms(11), of r] R assms(6) by auto
  then have "same S' x y \<longleftrightarrow> (if p = l then w else p) = (if q = l then w else q)" by (simp add: same_def)
  moreover have "same S x y \<longleftrightarrow> p = q" using R by (simp add: same_def)
  moreover have "same S x w \<longleftrightarrow> p = w" "same S y w \<longleftrightarrow> q = w" "same S x l \<longleftrightarrow> p = l" "same S y l \<longleftrightarrow> q = l"
    using R assms(3,5) by (auto simp: same_root)
  ultimately show ?thesis by auto
qed

section \<open>The contract\<close>

definition conn :: "(int \<times> int) set \<Rightarrow> int \<Rightarrow> int \<Rightarrow> bool" where
  \<comment> \<open>connected by a chain of the pairs of \<open>E\<close>\<close>
  "conn E x y \<longleftrightarrow> (x, y) \<in> (E \<union> E\<inverse>)\<^sup>*"

lemma conn_refl [simp]: "conn E x x"
  by (simp add: conn_def)

lemma conn_trans: "conn E x y \<Longrightarrow> conn E y z \<Longrightarrow> conn E x z"
  unfolding conn_def by (rule rtrancl_trans)

lemma conn_sym: "conn E x y \<Longrightarrow> conn E y x"
proof -
  assume "conn E x y"
  then have "(y, x) \<in> ((E \<union> E\<inverse>)\<inverse>)\<^sup>*" unfolding conn_def by (rule rtrancl_converseI)
  moreover have "(E \<union> E\<inverse>)\<inverse> = E \<union> E\<inverse>" by auto
  ultimately show ?thesis by (simp add: conn_def)
qed

lemma conn_empty: "conn {} x y \<longleftrightarrow> x = y"
  by (auto simp: conn_def)

lemma conn_insert:
  "conn (insert (a, b) E) x y \<longleftrightarrow> conn E x y \<or> (conn E x a \<and> conn E y b) \<or> (conn E x b \<and> conn E y a)" (is "?l = ?r x y")
proof
  assume ?l
  then have "(x, y) \<in> (insert (a, b) E \<union> (insert (a, b) E)\<inverse>)\<^sup>*" by (simp add: conn_def)
  then show "?r x y"
  proof (induction rule: rtrancl_induct)
    case (step y z)
    then consider "y = a \<and> z = b \<or> y = b \<and> z = a" | "conn E y z" by (auto simp: conn_def)
    then show ?case
    proof cases
      case 1
      then show ?thesis using step.IH by auto
    next
      case 2
      then have "conn E z y" by (rule conn_sym)
      with 2 show ?thesis using step.IH conn_trans by metis
    qed
  qed simp
next
  have mono: "conn E u v \<Longrightarrow> conn (insert (a, b) E) u v" for u v
    unfolding conn_def by (rule subsetD [OF rtrancl_mono]) auto
  have ab: "conn (insert (a, b) E) a b" by (auto simp: conn_def)
  assume "?r x y"
  then show ?l using mono ab conn_sym conn_trans by metis
qed

text \<open>The pairs are joined in turn; each pair is to join two different sets, as in \<open>main\<close>.\<close>

fun separate :: "(int \<times> int) set \<Rightarrow> (int \<times> int) list \<Rightarrow> bool" where
  "separate E [] = True"
| "separate E ((a, b) # ps) = (a \<in> ids \<and> b \<in> ids \<and> \<not> conn E a b \<and> separate (insert (a, b) E) ps)"

locale disjoint_sets =
  fixes fnd :: "int \<Rightarrow> int list \<Rightarrow> (int \<times> int list) res option"
    and un :: "int list \<Rightarrow> int \<Rightarrow> int \<Rightarrow> int list res"
    and inv :: "int list \<Rightarrow> bool"
  assumes fnd_ok: "inv S \<Longrightarrow> x \<in> ids \<Longrightarrow> \<exists>r S'. fnd x S = Some (Inr (r, S')) \<and> root_of S x r \<and> r \<in> ids \<and>
      inv S' \<and> (\<forall>y \<in> ids. \<forall>q. root_of S' y q \<longleftrightarrow> root_of S y q)"
    and un_ok: "inv S \<Longrightarrow> r1 \<in> ids \<Longrightarrow> r2 \<in> ids \<Longrightarrow> root_of S r1 r1 \<Longrightarrow> root_of S r2 r2 \<Longrightarrow> r1 \<noteq> r2 \<Longrightarrow>
      \<exists>S'. un S r1 r2 = Inr S' \<and> inv S' \<and>
        (\<forall>x \<in> ids. \<forall>y \<in> ids. same S' x y \<longleftrightarrow> same S x y \<or> (same S x r1 \<and> same S y r2) \<or> (same S x r2 \<and> same S y r1))"
begin

lemma same_fnd:
  "inv S \<Longrightarrow> x \<in> ids \<Longrightarrow> fnd x S = Some (Inr (r, S')) \<Longrightarrow> y \<in> ids \<Longrightarrow> z \<in> ids \<Longrightarrow> same S' y z \<longleftrightarrow> same S y z"
  using fnd_ok [of S x] by (auto simp: same_def)

lemma join_ok:
  assumes "inv S" "a \<in> ids" "b \<in> ids" "\<not> same S a b"
  shows "\<exists>S'. join fnd un a b S = Some (Inr S') \<and> inv S' \<and>
    (\<forall>x \<in> ids. \<forall>y \<in> ids. same S' x y \<longleftrightarrow> same S x y \<or> (same S x a \<and> same S y b) \<or> (same S x b \<and> same S y a))"
proof -
  obtain p S1 where 1: "fnd a S = Some (Inr (p, S1))" "root_of S a p" "p \<in> ids" "inv S1"
      "\<forall>y \<in> ids. \<forall>q. root_of S1 y q \<longleftrightarrow> root_of S y q" using fnd_ok [OF assms(1,2)] by blast
  obtain q S2 where 2: "fnd b S1 = Some (Inr (q, S2))" "root_of S1 b q" "q \<in> ids" "inv S2"
      "\<forall>y \<in> ids. \<forall>q. root_of S2 y q \<longleftrightarrow> root_of S1 y q" using fnd_ok [OF 1(4) assms(3)] by blast
  have eq: "root_of S2 y r \<longleftrightarrow> root_of S y r" if "y \<in> ids" for y r using 1(5) 2(5) that by blast
  have q: "root_of S b q" using 2(2) 1(5) assms(3) by blast
  have ne: "p \<noteq> q" using assms(4) 1(2) q by (auto simp: same_def)
  have "root_of S p p" "root_of S q q" using 1(2) q by (auto dest!: root_of_elt)
  then obtain S3 where 3: "un S2 p q = Inr S3" "inv S3"
      "\<forall>x \<in> ids. \<forall>y \<in> ids. same S3 x y \<longleftrightarrow> same S2 x y \<or> (same S2 x p \<and> same S2 y q) \<or> (same S2 x q \<and> same S2 y p)"
    using un_ok [OF 2(4) 1(3) 2(3)] eq 1(3) 2(3) ne by blast
  have s2: "same S2 x y \<longleftrightarrow> same S x y" if "x \<in> ids" "y \<in> ids" for x y using that eq by (simp add: same_def)
  have rep: "same S x p \<longleftrightarrow> same S x a" "same S x q \<longleftrightarrow> same S x b" for x
    using 1(2) q \<open>root_of S p p\<close> \<open>root_of S q q\<close> root_of_unique by (metis same_def)+
  have "same S3 x y \<longleftrightarrow> same S x y \<or> (same S x a \<and> same S y b) \<or> (same S x b \<and> same S y a)"
    if "x \<in> ids" "y \<in> ids" for x y using 3(3) s2 1(3) 2(3) that rep by simp
  then show ?thesis using 1(1) 2(1) 3(1,2) by (simp add: join_def)
qed

lemma joins_ok:
  "inv S \<Longrightarrow> (\<forall>x \<in> ids. \<forall>y \<in> ids. same S x y \<longleftrightarrow> conn E x y) \<Longrightarrow> separate E ps \<Longrightarrow>
     \<exists>S'. joins fnd un ps S = Some (Inr S') \<and> inv S' \<and> (\<forall>x \<in> ids. \<forall>y \<in> ids. same S' x y \<longleftrightarrow> conn (set ps \<union> E) x y)"
proof (induction ps arbitrary: S E)
  case (Cons p ps)
  obtain a b where p: "p = (a, b)" by (cases p)
  then have ab: "a \<in> ids" "b \<in> ids" "\<not> same S a b" using Cons.prems by auto
  obtain S' where S': "join fnd un a b S = Some (Inr S')" "inv S'"
      "\<forall>x \<in> ids. \<forall>y \<in> ids. same S' x y \<longleftrightarrow> same S x y \<or> (same S x a \<and> same S y b) \<or> (same S x b \<and> same S y a)"
    using join_ok [OF Cons.prems(1) ab] by blast
  have "\<forall>x \<in> ids. \<forall>y \<in> ids. same S' x y \<longleftrightarrow> conn (insert (a, b) E) x y"
    using S'(3) Cons.prems(2) ab(1,2) by (simp add: conn_insert)
  then show ?case using Cons.IH [OF S'(2), of "insert (a, b) E"] Cons.prems(3) S'(1) p by simp
qed simp

text \<open>Two calls of \<open>Find\<close> tell whether the elements are in one set.\<close>

lemma fnd_decides:
  assumes "inv S" "x \<in> ids" "y \<in> ids"
  shows "\<exists>r q S1 S2. fnd x S = Some (Inr (r, S1)) \<and> fnd y S1 = Some (Inr (q, S2)) \<and> (r = q \<longleftrightarrow> same S x y)"
proof -
  obtain r S1 where 1: "fnd x S = Some (Inr (r, S1))" "root_of S x r" "inv S1"
      "\<forall>y \<in> ids. \<forall>q. root_of S1 y q \<longleftrightarrow> root_of S y q" using fnd_ok [OF assms(1,2)] by blast
  obtain q S2 where 2: "fnd y S1 = Some (Inr (q, S2))" "root_of S1 y q" using fnd_ok [OF 1(3) assms(3)] by blast
  have "r = q \<longleftrightarrow> same S x y" using 1(2,4) 2(2) assms(3) root_of_unique by (metis same_def)
  then show ?thesis using 1(1) 2(1) by blast
qed

end

section \<open>The slow version\<close>

definition slow_inv :: "int list \<Rightarrow> bool" where
  "slow_inv S \<longleftrightarrow> (\<exists>rk. forest S rk)"

definition slow_fnd :: "int \<Rightarrow> int list \<Rightarrow> (int \<times> int list) res option" where
  \<comment> \<open>this \<open>Find\<close> leaves the array as it is\<close>
  "slow_fnd X S = andthen (slow_Find X S) (\<lambda>r. Some (Inr (r, S)))"

lemma slow_Find_ok: "root_of S x r \<Longrightarrow> forest S rk \<Longrightarrow> x \<in> ids \<Longrightarrow> slow_Find x S = Some (Inr r)"
proof (induction rule: root_of.induct)
  case (root x)
  then show ?case using forest_inb [OF root.prems] by (subst slow_Find.simps) simp
next
  case (step x r)
  then have "elt S x \<in> ids" by (simp add: forest_def)
  then show ?case using step forest_inb [OF step.prems] by (subst slow_Find.simps) simp
qed

lemma slow_SetUnion_ok:
  assumes "forest S rk" "r1 \<in> ids" "r2 \<in> ids" "elt S r1 \<le> 0" "elt S r2 \<le> 0" "r1 \<noteq> r2"
  shows "slow_SetUnion S r1 r2 = Inr (upd S r2 r1)" "\<exists>rk. forest (upd S r2 r1) rk"
    "x \<in> ids \<Longrightarrow> y \<in> ids \<Longrightarrow> same (upd S r2 r1) x y \<longleftrightarrow> same S x y \<or> (same S x r1 \<and> same S y r2) \<or> (same S x r2 \<and> same S y r1)"
proof -
  have ib: "inb S r2" using forest_inb [OF assms(1,3)] .
  have e: "elt (upd S r2 r1) y = (if y = r2 then r1 else elt S y)" if "y \<in> ids" for y
    using ib that by (simp add: elt_upd)
  show "slow_SetUnion S r1 r2 = Inr (upd S r2 r1)" using ib by (simp add: slow_SetUnion_def)
  have "forest (upd S r2 r1) (rk(r1 := Suc (Max (rk ` ids))))"
  proof -
    have "rk y < Suc (Max (rk ` ids))" if "y \<in> ids" for y using that by (simp add: less_Suc_eq_le)
    then show ?thesis using assms e by (auto simp: forest_def)
  qed
  then show "\<exists>rk. forest (upd S r2 r1) rk" by blast
  show "same (upd S r2 r1) x y \<longleftrightarrow> same S x y \<or> (same S x r1 \<and> same S y r2) \<or> (same S x r2 \<and> same S y r1)"
    if "x \<in> ids" "y \<in> ids"
    by (rule link_same [OF assms(1,3,5,2,4,6)]) (use e assms that in auto)
qed

interpretation slow: disjoint_sets slow_fnd slow_SetUnion slow_inv
proof
  fix S x assume "slow_inv S" "x \<in> ids"
  then obtain rk r where r: "forest S rk" "root_of S x r" "r \<in> ids" using forest_root unfolding slow_inv_def by metis
  then show "\<exists>r S'. slow_fnd x S = Some (Inr (r, S')) \<and> root_of S x r \<and> r \<in> ids \<and> slow_inv S' \<and>
      (\<forall>y \<in> ids. \<forall>q. root_of S' y q \<longleftrightarrow> root_of S y q)"
    using slow_Find_ok [OF r(2,1)] \<open>x \<in> ids\<close> \<open>slow_inv S\<close> by (auto simp: slow_fnd_def)
next
  fix S r1 r2 assume a: "slow_inv S" "r1 \<in> ids" "r2 \<in> ids" "root_of S r1 r1" "root_of S r2 r2" "r1 \<noteq> r2"
  then obtain rk where f: "forest S rk" by (auto simp: slow_inv_def)
  show "\<exists>S'. slow_SetUnion S r1 r2 = Inr S' \<and> slow_inv S' \<and>
        (\<forall>x \<in> ids. \<forall>y \<in> ids. same S' x y \<longleftrightarrow> same S x y \<or> (same S x r1 \<and> same S y r2) \<or> (same S x r2 \<and> same S y r1))"
    using slow_SetUnion_ok [OF f a(2,3) root_of_elt [OF a(4)] root_of_elt [OF a(5)] a(6)]
    by (auto simp: slow_inv_def)
qed

section \<open>The fast version\<close>

definition members :: "int list \<Rightarrow> int \<Rightarrow> int set" where
  "members S r = {x \<in> ids. root_of S x r}"

definition fast_inv_rk :: "int list \<Rightarrow> (int \<Rightarrow> nat) \<Rightarrow> bool" where
  \<comment> \<open>a root holds minus its rank, and its set has at least \<open>2 ^ rank\<close> elements\<close>
  "fast_inv_rk S rk \<longleftrightarrow> forest S rk \<and> (\<forall>r \<in> ids. elt S r \<le> 0 \<longrightarrow> elt S r = - int (rk r) \<and> 2 ^ rk r \<le> card (members S r))"

definition fast_inv :: "int list \<Rightarrow> bool" where
  "fast_inv S \<longleftrightarrow> (\<exists>rk. fast_inv_rk S rk)"

lemma finite_members [simp]: "finite (members S r)"
  by (rule finite_subset [of _ ids]) (auto simp: members_def)

lemma card_members: "card (members S r) \<le> 128"
proof -
  have "members S r \<subseteq> ids" by (auto simp: members_def)
  then have "card (members S r) \<le> card ids" by (intro card_mono) auto
  then show ?thesis by (simp add: NumSets_def)
qed

text \<open>The trees are at most 7 deep.\<close>

lemma rank_bound:
  assumes "fast_inv_rk S rk" "x \<in> ids"
  shows "rk x \<le> 7"
proof -
  have f: "forest S rk" using assms(1) by (simp add: fast_inv_rk_def)
  obtain r where r: "r \<in> ids" "root_of S x r" "rk x \<le> rk r" using forest_root [OF f assms(2)] by blast
  have "2 ^ rk r \<le> card (members S r)" using assms(1) r root_of_elt by (auto simp: fast_inv_rk_def)
  also have "\<dots> \<le> 2 ^ 7" using card_members [of S r] by simp
  finally have "rk r \<le> 7" by (simp only: power_increasing_iff one_less_numeral_iff semiring_norm)
  then show ?thesis using r(3) by simp
qed

lemma fast_Find_ok:
  assumes "fast_inv_rk S rk"
  shows "root_of S x r \<Longrightarrow> x \<in> ids \<Longrightarrow>
    \<exists>S'. fast_Find x S = Some (Inr (r, S')) \<and> fast_inv_rk S' rk \<and> (\<forall>y \<in> ids. \<forall>q. root_of S' y q \<longleftrightarrow> root_of S y q) \<and>
      (\<forall>y \<in> ids. elt S' y = elt S y \<or> (root_of S y (elt S' y) \<and> 0 < elt S y)) \<and> (x = r \<or> elt S' x = r)"
proof (induction rule: root_of.induct)
  case (root x)
  moreover have "inb S x" using forest_inb root.prems assms by (auto simp: fast_inv_rk_def)
  ultimately show ?case using assms by (subst fast_Find.simps) auto
next
  case (step x r)
  have f: "forest S rk" using assms by (simp add: fast_inv_rk_def)
  then have "elt S x \<in> ids" using step by (simp add: forest_def)
  then obtain S' where S': "fast_Find (elt S x) S = Some (Inr (r, S'))" "fast_inv_rk S' rk"
      "\<forall>y \<in> ids. \<forall>q. root_of S' y q \<longleftrightarrow> root_of S y q"
      "\<forall>y \<in> ids. elt S' y = elt S y \<or> (root_of S y (elt S' y) \<and> 0 < elt S y)"
    using step.IH by blast
  have xr: "root_of S x r" using step.hyps by (rule root_of.step)
  then have r: "r \<in> ids" "elt S r \<le> 0" using root_of_in_ids [OF f step.prems] by auto
  have f': "forest S' rk" using S'(2) by (simp add: fast_inv_rk_def)
  have "root_of S' x r" using xr S'(3) step.prems by blast
  moreover have "0 < elt S' x"
  proof (rule ccontr)
    assume "\<not> 0 < elt S' x"
    then have "root_of S' x x" by simp
    then have "root_of S x x" using S'(3) step.prems by blast
    then show False using root_of_elt step.hyps(1) by fastforce
  qed
  ultimately have c: "forest (upd S' x r) rk" "\<And>y q. y \<in> ids \<Longrightarrow> root_of (upd S' x r) y q \<longleftrightarrow> root_of S' y q"
    using compress [OF f' step.prems] by auto
  have ib: "inb S' x" "inb S x" using forest_inb [OF f' step.prems] forest_inb [OF f step.prems] .
  have e: "elt (upd S' x r) y = (if y = x then r else elt S' y)" if "y \<in> ids" for y
    using ib step.prems that by (simp add: elt_upd)
  have "members (upd S' x r) q = members S' q" for q using c(2) by (auto simp: members_def)
  then have "fast_inv_rk (upd S' x r) rk"
    using c(1) S'(2) e r by (auto simp: fast_inv_rk_def)
  moreover have "fast_Find x S = Some (Inr (r, upd S' x r))"
    using S'(1) ib step.hyps(1) by (subst fast_Find.simps) simp
  ultimately show ?case using c(2) S'(3,4) e xr step by auto
qed

lemma fast_SetUnion_ok:
  assumes i: "fast_inv_rk S rk" and r: "r1 \<in> ids" "r2 \<in> ids" "elt S r1 \<le> 0" "elt S r2 \<le> 0" "r1 \<noteq> r2"
  obtains l w S' rk' where "fast_SetUnion S r1 r2 = Inr S'" "fast_inv_rk S' rk'" "{l, w} = {r1, r2}" "l \<noteq> w"
    "elt S' l = w" "elt S' w \<le> 0" "\<And>y. y \<in> ids \<Longrightarrow> y \<noteq> l \<Longrightarrow> y \<noteq> w \<Longrightarrow> elt S' y = elt S y"
proof -
  have f: "forest S rk" using i by (simp add: fast_inv_rk_def)
  have ib: "inb S r1" "inb S r2" using forest_inb [OF f] r by auto
  have e1: "elt S r1 = - int (rk r1)" "elt S r2 = - int (rk r2)" using i r by (auto simp: fast_inv_rk_def)
  note done_if = that
  have main: thesis
    if lw: "{l, w} = {r1, r2}" "l \<noteq> w" and S': "fast_SetUnion S r1 r2 = Inr S'" "len S' = len S"
      and rk': "elt S' w = - int k" "rk w \<le> k" "rk l < k" "2 ^ k \<le> (2::nat) ^ rk w + 2 ^ rk l"
      and n: "elt S' l = w" "\<And>y. y \<in> ids \<Longrightarrow> y \<noteq> l \<Longrightarrow> y \<noteq> w \<Longrightarrow> elt S' y = elt S y" for l w S' k
  proof (rule done_if [OF S'(1) _ lw n(1) _ n(2)])
    have m: "l \<in> ids" "w \<in> ids" "elt S l \<le> 0" "elt S w \<le> 0" using lw r by (auto simp: doubleton_eq_iff)
    have L: "root_of S' y q \<longleftrightarrow> (if q = l then False else root_of S y q \<or> q = w \<and> root_of S y l)" if "y \<in> ids" for y q
      by (rule link [OF f m(1,3,2,4) _ n(1) _ n(2) that]) (use lw(2) rk'(1) in auto)
    have "forest S' (rk(w := k))"
    proof -
      have "elt S' y \<in> ids \<and> (rk(w := k)) y < (rk(w := k)) (elt S' y)" if y: "y \<in> ids" "0 < elt S' y" for y
      proof (cases "y = l")
        case True
        then show ?thesis using n(1) m(2) lw(2) rk'(3) by simp
      next
        case False
        moreover have yw: "y \<noteq> w" using y(2) rk'(1) by auto
        ultimately have "elt S' y = elt S y" using n(2) y(1) by simp
        then show ?thesis using f y yw rk'(2) by (fastforce simp: forest_def)
      qed
      then show ?thesis using f S'(2) by (simp add: forest_def)
    qed
    moreover have "elt S' q = - int ((rk(w := k)) q) \<and> 2 ^ (rk(w := k)) q \<le> card (members S' q)"
      if q: "q \<in> ids" "elt S' q \<le> 0" for q
    proof (cases "q = w")
      case True
      have "members S' w = members S w \<union> members S l" using L lw(2) by (auto simp: members_def)
      moreover have "members S w \<inter> members S l = {}" using lw(2) root_of_unique by (auto simp: members_def)
      ultimately have "card (members S' w) = card (members S w) + card (members S l)" by (simp add: card_Un_disjoint)
      moreover have "2 ^ rk w \<le> card (members S w)" "2 ^ rk l \<le> card (members S l)" using i m by (auto simp: fast_inv_rk_def)
      ultimately show ?thesis using True rk'(1,4) by simp
    next
      case False
      have ql: "q \<noteq> l" using q(2) n(1) m(2) by auto
      then have "members S' q = members S q" using L False by (auto simp: members_def)
      moreover have "elt S' q = elt S q" using n(2) q(1) ql False by simp
      ultimately show ?thesis using i q False by (auto simp: fast_inv_rk_def)
    qed
    ultimately show "fast_inv_rk S' (rk(w := k))" by (simp add: fast_inv_rk_def)
    show "elt S' w \<le> 0" using rk'(1) by simp
  qed
  have g: "aget S r1 = Some (- int (rk r1))" "aget S r2 = Some (- int (rk r2))" using ib e1 by auto
  consider "rk r1 < rk r2" | "rk r1 = rk r2" | "rk r2 < rk r1" by linarith
  then show thesis
  proof cases
    case 1
    show thesis
      by (rule main [of r1 r2 "upd S r1 r2" "rk r2"]) (use 1 g ib e1 r in \<open>auto simp: fast_SetUnion_def elt_upd\<close>)
  next
    case 2
    have "rk r1 \<le> 7" by (rule rank_bound [OF i r(1)])
    then have "ck (- int (rk r1) - 1) = Some (- int (rk r1) - 1)" by simp
    then have u: "fast_SetUnion S r1 r2 = Inr (upd (upd S r1 (- int (rk r1) - 1)) r2 r1)"
      using 2 g by (simp add: fast_SetUnion_def)
    show thesis
      by (rule main [OF _ _ u, of r2 r1 "Suc (rk r1)"]) (use 2 ib e1 r in \<open>auto simp: elt_upd\<close>)
  next
    case 3
    show thesis
      by (rule main [of r2 r1 "upd S r2 r1" "rk r1"]) (use 3 g ib e1 r in \<open>auto simp: fast_SetUnion_def elt_upd\<close>)
  qed
qed

interpretation fast: disjoint_sets fast_Find fast_SetUnion fast_inv
proof
  fix S x assume a: "fast_inv S" "x \<in> ids"
  then obtain rk where i: "fast_inv_rk S rk" by (auto simp: fast_inv_def)
  then obtain r where r: "root_of S x r" "r \<in> ids" using forest_root a(2) unfolding fast_inv_rk_def by metis
  then show "\<exists>r S'. fast_Find x S = Some (Inr (r, S')) \<and> root_of S x r \<and> r \<in> ids \<and> fast_inv S' \<and>
      (\<forall>y \<in> ids. \<forall>q. root_of S' y q \<longleftrightarrow> root_of S y q)"
    using fast_Find_ok [OF i r(1) a(2)] by (auto simp: fast_inv_def)
next
  fix S r1 r2 assume a: "fast_inv S" "r1 \<in> ids" "r2 \<in> ids" "root_of S r1 r1" "root_of S r2 r2" "r1 \<noteq> r2"
  then obtain rk where i: "fast_inv_rk S rk" by (auto simp: fast_inv_def)
  have f: "forest S rk" using i by (simp add: fast_inv_rk_def)
  have e: "elt S r1 \<le> 0" "elt S r2 \<le> 0" using root_of_elt a(4,5) by blast+
  obtain l w S' rk' where u: "fast_SetUnion S r1 r2 = Inr S'" "fast_inv_rk S' rk'" "{l, w} = {r1, r2}" "l \<noteq> w"
    "elt S' l = w" "elt S' w \<le> 0" "\<And>y. y \<in> ids \<Longrightarrow> y \<noteq> l \<Longrightarrow> y \<noteq> w \<Longrightarrow> elt S' y = elt S y"
    by (rule fast_SetUnion_ok [OF i a(2,3) e a(6)]) blast
  have lw: "l \<in> ids" "elt S l \<le> 0" "w \<in> ids" "elt S w \<le> 0" using u(3) a(2,3) e by (auto simp: doubleton_eq_iff)
  have "same S' x y \<longleftrightarrow> same S x y \<or> (same S x r1 \<and> same S y r2) \<or> (same S x r2 \<and> same S y r1)"
    if "x \<in> ids" "y \<in> ids" for x y
    using link_same [OF f lw u(4)[symmetric] u(5-7) that] u(3) by (auto simp: doubleton_eq_iff)
  then show "\<exists>S'. fast_SetUnion S r1 r2 = Inr S' \<and> fast_inv S' \<and>
        (\<forall>x \<in> ids. \<forall>y \<in> ids. same S' x y \<longleftrightarrow> same S x y \<or> (same S x r1 \<and> same S y r2) \<or> (same S x r2 \<and> same S y r1))"
    using u(1,2) by (auto simp: fast_inv_def)
qed

section \<open>Initialisation\<close>

lemma ds_init_loop_ok:
  "i \<le> NumSets \<Longrightarrow> len S = NumSets + 1 \<Longrightarrow> (\<And>j. i < j \<Longrightarrow> j \<le> NumSets \<Longrightarrow> 0 \<le> j \<Longrightarrow> elt S j = 0) \<Longrightarrow>
     \<exists>S'. ds_init_loop i S = Inr S' \<and> len S' = NumSets + 1 \<and> (\<forall>j \<in> ids. elt S' j = 0)"
proof (induction i S rule: ds_init_loop.induct)
  case (1 i S)
  show ?case
  proof (cases "i > 0")
    case False
    then show ?thesis using "1.prems" by (subst ds_init_loop.simps) auto
  next
    case True
    then have ib: "inb S i" using "1.prems" by (auto simp: inb_def)
    have "elt (upd S i 0) j = 0" if "i - 1 < j" "j \<le> NumSets" "0 \<le> j" for j
      using that "1.prems"(3) [of j] ib by (auto simp: elt_upd)
    then show ?thesis using "1.IH" [of "upd S i 0"] True ib "1.prems"(1,2) by (subst ds_init_loop.simps) simp
  qed
qed

lemma ds_Initialize_ok:
  assumes "len S = NumSets + 1"
  shows "\<exists>S'. ds_Initialize S = Inr S' \<and> fast_inv S' \<and> slow_inv S' \<and> (\<forall>x \<in> ids. \<forall>y \<in> ids. same S' x y \<longleftrightarrow> conn {} x y)"
proof -
  obtain S' where S': "ds_init_loop NumSets S = Inr S'" "len S' = NumSets + 1" "\<forall>j \<in> ids. elt S' j = 0"
    using ds_init_loop_ok [of NumSets S] assms by auto
  have ro: "root_of S' x r \<longleftrightarrow> r = x" if "x \<in> ids" for x r using S'(3) that by simp
  have f: "forest S' (\<lambda>_. 0)" using S' by (simp add: forest_def)
  have "members S' r = {r}" if "r \<in> ids" for r using that ro by (auto simp: members_def)
  then have "fast_inv_rk S' (\<lambda>_. 0)" using f S'(3) by (simp add: fast_inv_rk_def)
  moreover have "same S' x y \<longleftrightarrow> conn {} x y" if "x \<in> ids" "y \<in> ids" for x y
    using that ro by (auto simp: same_def conn_empty)
  ultimately show ?thesis using S'(1) f by (auto simp: ds_Initialize_def fast_inv_def slow_inv_def)
qed

text \<open>\<open>SetUnion\<close> of a root with itself makes a cycle: \<open>Find\<close> then never returns.\<close>

lemma fast_SetUnion_self:
  assumes "fast_inv S" "x \<in> ids" "elt S x \<le> 0"
  shows "\<exists>S'. fast_SetUnion S x x = Inr S' \<and> elt S' x = x"
proof -
  obtain rk where i: "fast_inv_rk S rk" using assms(1) by (auto simp: fast_inv_def)
  have "rk x \<le> 7" "elt S x = - int (rk x)" using rank_bound [OF i assms(2)] i assms by (auto simp: fast_inv_rk_def)
  moreover have "inb S x" using i forest_inb assms(2) unfolding fast_inv_rk_def by blast
  ultimately show ?thesis by (simp add: fast_SetUnion_def)
qed

section \<open>Theorems\<close>

text \<open>C27: starting from \<open>Initialize\<close>, joining the sets of a sequence of pairs (each of
  two different sets, as \<open>main\<close> does) with \<open>Find\<close> and \<open>SetUnion\<close> leaves an array in
  which two calls of \<open>Find\<close> give the same root exactly if the elements are connected by
  the pairs: union by height with path compression, and also the version under
  \<open>SlowAlg\<close>. All calls return, all accesses are in bounds and nothing overflows.\<close>

theorem DisjSets_partition:
  assumes "len S = NumSets + 1" "separate {} ps" "x \<in> {1..NumSets}" "y \<in> {1..NumSets}"
  shows "\<exists>S0 S1 S2. ds_Initialize S = Inr S0 \<and>
    joins fast_Find fast_SetUnion ps S0 = Some (Inr S1) \<and> joins slow_fnd slow_SetUnion ps S0 = Some (Inr S2) \<and>
    (\<exists>r q S3 S4. fast_Find x S1 = Some (Inr (r, S3)) \<and> fast_Find y S3 = Some (Inr (q, S4)) \<and> (r = q \<longleftrightarrow> conn (set ps) x y)) \<and>
    (\<exists>r q. slow_Find x S2 = Some (Inr r) \<and> slow_Find y S2 = Some (Inr q) \<and> (r = q \<longleftrightarrow> conn (set ps) x y))"
proof -
  obtain S0 where 0: "ds_Initialize S = Inr S0" "fast_inv S0" "slow_inv S0"
      "\<forall>x \<in> ids. \<forall>y \<in> ids. same S0 x y \<longleftrightarrow> conn {} x y" using ds_Initialize_ok [OF assms(1)] by blast
  obtain S1 where 1: "joins fast_Find fast_SetUnion ps S0 = Some (Inr S1)" "fast_inv S1"
      "\<forall>x \<in> ids. \<forall>y \<in> ids. same S1 x y \<longleftrightarrow> conn (set ps) x y" using fast.joins_ok [OF 0(2,4) assms(2)] by auto
  obtain S2 where 2: "joins slow_fnd slow_SetUnion ps S0 = Some (Inr S2)" "slow_inv S2"
      "\<forall>x \<in> ids. \<forall>y \<in> ids. same S2 x y \<longleftrightarrow> conn (set ps) x y" using slow.joins_ok [OF 0(3,4) assms(2)] by auto
  obtain r q S3 S4 where 3: "fast_Find x S1 = Some (Inr (r, S3))" "fast_Find y S3 = Some (Inr (q, S4))" "r = q \<longleftrightarrow> same S1 x y"
    using fast.fnd_decides [OF 1(2) assms(3,4)] by auto
  obtain rk where rk: "forest S2 rk" using 2(2) by (auto simp: slow_inv_def)
  obtain u v where uv: "root_of S2 x u" "root_of S2 y v" using forest_root [OF rk] assms(3,4) by metis
  then have "u = v \<longleftrightarrow> conn (set ps) x y" using 2(3) assms(3,4) root_of_unique by (metis same_def)
  moreover have "slow_Find x S2 = Some (Inr u)" "slow_Find y S2 = Some (Inr v)"
    using slow_Find_ok [OF uv(1) rk assms(3)] slow_Find_ok [OF uv(2) rk assms(4)] by auto
  ultimately show ?thesis using 0(1) 1(1,3) 2(1) 3 assms(3,4) by blast
qed

theorem DisjSets_partition_witness:
  "\<exists>S0 S1 r q S3 S4. ds_Initialize (replicate 129 7) = Inr S0 \<and>
    joins fast_Find fast_SetUnion [(1, 2), (3, 4), (1, 3)] S0 = Some (Inr S1) \<and>
    fast_Find 2 S1 = Some (Inr (r, S3)) \<and> fast_Find 4 S3 = Some (Inr (q, S4)) \<and> r = q"
proof -
  have "separate {} [(1, 2), (3, 4), (1, 3)]" by (simp add: NumSets_def conn_insert conn_empty)
  moreover have "conn (set [(1, 2), (3, 4), (1, 3)]) 2 4" by (simp add: conn_insert conn_empty)
  ultimately show ?thesis
    using DisjSets_partition [of "replicate 129 7" "[(1, 2), (3, 4), (1, 3)]" 2 4] by (fastforce simp: NumSets_def)
qed

text \<open>The two optimisations do what they are for. Ranks never exceed 7 = log 128, so no path
  of \<open>Find\<close> is longer; a call of \<open>Find\<close> makes its element a child of the
  root, re-points no element except to its own root, and leaves all sets as they were.\<close>

theorem DisjSets_compression:
  assumes "fast_inv_rk S rk" "x \<in> {1..NumSets}"
  shows "rk x \<le> 7 \<and> (\<exists>r S'. fast_Find x S = Some (Inr (r, S')) \<and> fast_inv_rk S' rk \<and> (x = r \<or> elt S' x = r) \<and>
    (\<forall>y \<in> {1..NumSets}. (\<forall>q. root_of S' y q \<longleftrightarrow> root_of S y q) \<and> (elt S' y = elt S y \<or> root_of S y (elt S' y))))"
proof -
  obtain r where "root_of S x r" using forest_root assms unfolding fast_inv_rk_def by metis
  then show ?thesis using fast_Find_ok [OF assms(1) _ assms(2)] rank_bound [OF assms] by blast
qed

theorem DisjSets_compression_witness:
  "\<exists>r S'. fast_Find 5 (replicate 129 0) = Some (Inr (r, S')) \<and> fast_inv_rk S' (\<lambda>_. 0)"
proof -
  have e: "elt (replicate 129 (0::int)) j = 0" if "j \<in> ids" for j :: int
    using that by (auto simp: elt_def NumSets_def nat_less_iff)
  have "root_of (replicate 129 0) x r \<longleftrightarrow> r = x" if "x \<in> ids" for x r using e [OF that] by simp
  then have "members (replicate 129 0) r = {r}" if "r \<in> ids" for r using that by (auto simp: members_def)
  then have "fast_inv_rk (replicate 129 0) (\<lambda>_. 0)" using e by (simp add: fast_inv_rk_def forest_def NumSets_def)
  then show ?thesis using DisjSets_compression [of "replicate 129 0" "\<lambda>_. 0" 5] by (auto simp: NumSets_def)
qed

end
