(* ===== verification/MaxSum.thy ===== *)
theory MaxSum
  imports CBase
begin

text \<open>
  \<^verbatim>\<open>src/DSAAC/max_sum.c\<close>: the four algorithms for the maximum subsequence sum. Reads are
  checked for bounds and every \<open>+\<close> for overflow: \<open>None\<close> if one of these fails. The
  divide and conquer version does not return for every argument, so its model has a second, outer
  \<open>option\<close>.
\<close>

section \<open>The algorithms\<close>

function cubic_k :: "int list \<Rightarrow> int \<Rightarrow> int \<Rightarrow> int \<Rightarrow> int option" where
  "cubic_k A k j ThisSum =
    (if k \<le> j then do { a \<leftarrow> aget A k; s \<leftarrow> ck (ThisSum + a); cubic_k A (k + 1) j s } else Some ThisSum)"
  by pat_completeness auto
termination by (relation "measure (\<lambda>(A, k, j, s). nat (j + 1 - k))") auto

function cubic_j :: "int list \<Rightarrow> int \<Rightarrow> int \<Rightarrow> int \<Rightarrow> int \<Rightarrow> int option" where
  "cubic_j A N i j MaxSum =
    (if j < N then do {
       ThisSum \<leftarrow> cubic_k A i j 0;
       cubic_j A N i (j + 1) (if ThisSum > MaxSum then ThisSum else MaxSum)
     } else Some MaxSum)"
  by pat_completeness auto
termination by (relation "measure (\<lambda>(A, N, i, j, s). nat (N - j))") auto

function cubic_i :: "int list \<Rightarrow> int \<Rightarrow> int \<Rightarrow> int \<Rightarrow> int option" where
  "cubic_i A N i MaxSum =
    (if i < N then do { m \<leftarrow> cubic_j A N i i MaxSum; cubic_i A N (i + 1) m } else Some MaxSum)"
  by pat_completeness auto
termination by (relation "measure (\<lambda>(A, N, i, s). nat (N - i))") auto

definition cubic_MaxSubsequenceSum :: "int list \<Rightarrow> int \<Rightarrow> int option" where
  "cubic_MaxSubsequenceSum A N = cubic_i A N 0 0"

function quad_j :: "int list \<Rightarrow> int \<Rightarrow> int \<Rightarrow> int \<Rightarrow> int \<Rightarrow> int option" where
  "quad_j A N j ThisSum MaxSum =
    (if j < N then do {
       a \<leftarrow> aget A j; s \<leftarrow> ck (ThisSum + a);
       quad_j A N (j + 1) s (if s > MaxSum then s else MaxSum)
     } else Some MaxSum)"
  by pat_completeness auto
termination by (relation "measure (\<lambda>(A, N, j, s, m). nat (N - j))") auto

function quad_i :: "int list \<Rightarrow> int \<Rightarrow> int \<Rightarrow> int \<Rightarrow> int option" where
  "quad_i A N i MaxSum =
    (if i < N then do { m \<leftarrow> quad_j A N i 0 MaxSum; quad_i A N (i + 1) m } else Some MaxSum)"
  by pat_completeness auto
termination by (relation "measure (\<lambda>(A, N, i, s). nat (N - i))") auto

definition quad_MaxSubsequenceSum :: "int list \<Rightarrow> int \<Rightarrow> int option" where
  "quad_MaxSubsequenceSum A N = quad_i A N 0 0"

definition Max3 :: "int \<Rightarrow> int \<Rightarrow> int \<Rightarrow> int" where
  "Max3 A B C = (if A > B then if A > C then A else C else if B > C then B else C)"

function left_border :: "int list \<Rightarrow> int \<Rightarrow> int \<Rightarrow> int \<Rightarrow> int \<Rightarrow> int option" where
  "left_border A i Lo LeftBorderSum MaxLeftBorderSum =
    (if i \<ge> Lo then do {
       a \<leftarrow> aget A i; s \<leftarrow> ck (LeftBorderSum + a);
       left_border A (i - 1) Lo s (if s > MaxLeftBorderSum then s else MaxLeftBorderSum)
     } else Some MaxLeftBorderSum)"
  by pat_completeness auto
termination by (relation "measure (\<lambda>(A, i, l, s, m). nat (i + 1 - l))") auto

function right_border :: "int list \<Rightarrow> int \<Rightarrow> int \<Rightarrow> int \<Rightarrow> int \<Rightarrow> int option" where
  "right_border A i Hi RightBorderSum MaxRightBorderSum =
    (if i \<le> Hi then do {
       a \<leftarrow> aget A i; s \<leftarrow> ck (RightBorderSum + a);
       right_border A (i + 1) Hi s (if s > MaxRightBorderSum then s else MaxRightBorderSum)
     } else Some MaxRightBorderSum)"
  by pat_completeness auto
termination by (relation "measure (\<lambda>(A, i, r, s, m). nat (r + 1 - i))") auto

declare cubic_k.simps [simp del] cubic_j.simps [simp del] cubic_i.simps [simp del]
  quad_j.simps [simp del] quad_i.simps [simp del] left_border.simps [simp del] right_border.simps [simp del]

definition half :: "int \<Rightarrow> int" where
  \<comment> \<open>C's \<open>/ 2\<close>, which truncates towards zero\<close>
  "half x = (if 0 \<le> x then x div 2 else - ((- x) div 2))"

definition combine :: "int list \<Rightarrow> int \<Rightarrow> int \<Rightarrow> int \<Rightarrow> int \<Rightarrow> int \<Rightarrow> int option" where
  \<comment> \<open>lines 8 to 19 of \<open>MaxSubSum\<close>\<close>
  "combine A Lo Center Hi MaxLeftSum MaxRightSum =
    do {
      l \<leftarrow> left_border A Center Lo 0 0;
      r \<leftarrow> right_border A (Center + 1) Hi 0 0;
      b \<leftarrow> ck (l + r);
      Some (Max3 MaxLeftSum MaxRightSum b)
    }"

partial_function (option) MaxSubSum :: "int list \<Rightarrow> int \<Rightarrow> int \<Rightarrow> int option option" where
  "MaxSubSum A Lo Hi =
    (if Lo = Hi then
       Some (do { a \<leftarrow> aget A Lo; Some (if a > 0 then a else 0) })
     else (case ck (Lo + Hi) of
         None \<Rightarrow> Some None
       | Some s \<Rightarrow>
          Option.bind (MaxSubSum A Lo (half s)) (\<lambda>x. case x of None \<Rightarrow> Some None
          | Some MaxLeftSum \<Rightarrow>
             Option.bind (MaxSubSum A (half s + 1) Hi) (\<lambda>y. case y of None \<Rightarrow> Some None
             | Some MaxRightSum \<Rightarrow> Some (combine A Lo (half s) Hi MaxLeftSum MaxRightSum)))))"

definition nlogn_MaxSubsequenceSum :: "int list \<Rightarrow> int \<Rightarrow> int option option" where
  "nlogn_MaxSubsequenceSum A N = MaxSubSum A 0 (N - 1)"

function linear_j :: "int list \<Rightarrow> int \<Rightarrow> int \<Rightarrow> int \<Rightarrow> int \<Rightarrow> int option" where
  "linear_j A N j ThisSum MaxSum =
    (if j < N then do {
       a \<leftarrow> aget A j; s \<leftarrow> ck (ThisSum + a);
       (if s > MaxSum then linear_j A N (j + 1) s s
        else if s < 0 then linear_j A N (j + 1) 0 MaxSum
        else linear_j A N (j + 1) s MaxSum)
     } else Some MaxSum)"
  by pat_completeness auto
termination by (relation "measure (\<lambda>(A, N, j, s, m). nat (N - j))") auto

declare linear_j.simps [simp del]

definition linear_MaxSubsequenceSum :: "int list \<Rightarrow> int \<Rightarrow> int option" where
  "linear_MaxSubsequenceSum A N = linear_j A N 0 0 0"

section \<open>Specification\<close>

definition ssum :: "int list \<Rightarrow> int \<Rightarrow> int \<Rightarrow> int" where
  "ssum A i j = (\<Sum>k \<in> {i..j}. elt A k)"

definition best :: "int list \<Rightarrow> (int \<times> int) set \<Rightarrow> int \<Rightarrow> bool" where
  \<comment> \<open>\<open>m\<close> is the largest sum of a subsequence \<open>i..j\<close> with \<open>(i, j)\<close> in \<open>I\<close>, the empty one included\<close>
  "best A I m \<longleftrightarrow> (m = 0 \<or> (\<exists>(i, j) \<in> I. m = ssum A i j)) \<and> 0 \<le> m \<and> (\<forall>(i, j) \<in> I. ssum A i j \<le> m)"

definition segs :: "int \<Rightarrow> int \<Rightarrow> (int \<times> int) set" where
  "segs l h = {(i, j). l \<le> i \<and> i \<le> j \<and> j \<le> h}"

definition small_sums :: "int list \<Rightarrow> bool" where
  \<comment> \<open>no subsequence sum can overflow\<close>
  "small_sums A \<longleftrightarrow> (\<Sum>a \<leftarrow> A. \<bar>a\<bar>) \<le> INT_MAX"

lemma best_unique: "best A I m \<Longrightarrow> best A I n \<Longrightarrow> m = n"
  unfolding best_def by fastforce

lemma best_empty [simp]: "best A {} 0"
  by (simp add: best_def)

lemma best_insert: "best A I m \<Longrightarrow> best A (insert (i, j) I) (if ssum A i j > m then ssum A i j else m)"
  by (auto simp: best_def)

lemma best_Un: "best A I m \<Longrightarrow> best A J n \<Longrightarrow> best A (I \<union> J) (max m n)"
  by (fastforce simp: best_def max_def)

lemma ssum_step: "i \<le> j + 1 \<Longrightarrow> ssum A i (j + 1) = ssum A i j + elt A (j + 1)"
proof -
  assume "i \<le> j + 1"
  then have "{i..j + 1} = insert (j + 1) {i..j}" by auto
  then show ?thesis by (simp add: ssum_def)
qed

lemma ssum_first: "i \<le> j \<Longrightarrow> ssum A i j = elt A i + ssum A (i + 1) j"
proof -
  assume "i \<le> j"
  then have "{i..j} = insert i {i + 1..j}" by auto
  then show ?thesis by (simp add: ssum_def)
qed

lemma ssum_empty [simp]: "j < i \<Longrightarrow> ssum A i j = 0"
  by (simp add: ssum_def)

lemma ssum_split: "i \<le> c + 1 \<Longrightarrow> c \<le> j \<Longrightarrow> ssum A i j = ssum A i c + ssum A (c + 1) j"
proof -
  assume "i \<le> c + 1" "c \<le> j"
  then have "{i..j} = {i..c} \<union> {c + 1..j}" by auto
  then show ?thesis by (simp add: ssum_def sum.union_disjoint)
qed

lemma ssum_ck:
  assumes "small_sums A" "0 \<le> i" "j < len A"
  shows "ck (ssum A i j) = Some (ssum A i j)"
proof -
  have "\<bar>ssum A i j\<bar> \<le> (\<Sum>k \<in> {i..j}. \<bar>elt A k\<bar>)" by (simp add: ssum_def sum_abs)
  also have "\<dots> \<le> (\<Sum>k \<in> {0..<len A}. \<bar>elt A k\<bar>)" by (rule sum_mono2) (use assms in auto)
  also have "\<dots> = (\<Sum>k \<in> {0..<length A}. \<bar>A ! k\<bar>)"
    by (rule sum.reindex_bij_witness [of _ int nat]) (auto simp: elt_def)
  also have "\<dots> = (\<Sum>a \<leftarrow> A. \<bar>a\<bar>)" by (simp add: sum_list_sum_nth)
  finally have "\<bar>ssum A i j\<bar> \<le> INT_MAX" using assms(1) by (simp add: small_sums_def)
  then show ?thesis by simp
qed

section \<open>Cubic and quadratic\<close>

lemma cubic_k_ok:
  "small_sums A \<Longrightarrow> 0 \<le> i \<Longrightarrow> i \<le> k \<Longrightarrow> k \<le> j + 1 \<Longrightarrow> j < len A \<Longrightarrow>
     cubic_k A k j (ssum A i (k - 1)) = Some (ssum A i j)"
proof (induction "nat (j + 1 - k)" arbitrary: k)
  case 0
  then have "k = j + 1" by simp
  then show ?case by (subst cubic_k.simps) simp
next
  case (Suc n)
  then have k: "k \<le> j" "inb A k" by (auto simp: inb_def)
  have "ssum A i (k - 1) + elt A k = ssum A i k" using ssum_step [of i "k - 1" A] Suc.prems by simp
  moreover have "ck (ssum A i k) = Some (ssum A i k)" using ssum_ck Suc.prems k by simp
  ultimately show ?case using Suc.hyps(1) [of "k + 1"] Suc.hyps(2) Suc.prems k by (subst cubic_k.simps) simp
qed

text \<open>Both inner loops run through the subsequences that start at \<open>i\<close>.\<close>

lemma cubic_j_ok:
  "small_sums A \<Longrightarrow> 0 \<le> i \<Longrightarrow> i \<le> j \<Longrightarrow> N \<le> len A \<Longrightarrow> best A I m \<Longrightarrow>
     \<exists>m'. cubic_j A N i j m = Some m' \<and> best A (I \<union> {(i, h) | h. j \<le> h \<and> h < N}) m'"
proof (induction "nat (N - j)" arbitrary: j m I)
  case 0
  then have e: "I \<union> {(i, h) | h. j \<le> h \<and> h < N} = I" by auto
  show ?case unfolding e using 0 by (subst cubic_j.simps) simp
next
  case (Suc n)
  have j: "j < N" using Suc.hyps(2) by linarith
  let ?m = "if ssum A i j > m then ssum A i j else m"
  obtain m' where m': "cubic_j A N i (j + 1) ?m = Some m'" "best A (insert (i, j) I \<union> {(i, h) | h. j + 1 \<le> h \<and> h < N}) m'"
    using Suc.hyps(1) [of "j + 1" "insert (i, j) I" ?m] Suc.hyps(2) Suc.prems best_insert by fastforce
  have "cubic_k A i j 0 = Some (ssum A i j)" using cubic_k_ok [of A i i j] Suc.prems j by simp
  moreover have "insert (i, j) I \<union> {(i, h) | h. j + 1 \<le> h \<and> h < N} = I \<union> {(i, h) | h. j \<le> h \<and> h < N}"
    using j by force
  ultimately show ?case using m' j by (subst cubic_j.simps) simp
qed

lemma quad_j_ok:
  "small_sums A \<Longrightarrow> 0 \<le> i \<Longrightarrow> i \<le> j \<Longrightarrow> N \<le> len A \<Longrightarrow> best A I m \<Longrightarrow>
     \<exists>m'. quad_j A N j (ssum A i (j - 1)) m = Some m' \<and> best A (I \<union> {(i, h) | h. j \<le> h \<and> h < N}) m'"
proof (induction "nat (N - j)" arbitrary: j m I)
  case 0
  then have e: "I \<union> {(i, h) | h. j \<le> h \<and> h < N} = I" by auto
  show ?case unfolding e using 0 by (subst quad_j.simps) simp
next
  case (Suc n)
  have j: "j < N" "inb A j" using Suc.hyps(2) Suc.prems by (auto simp: inb_def)
  let ?m = "if ssum A i j > m then ssum A i j else m"
  obtain m' where m': "quad_j A N (j + 1) (ssum A i j) ?m = Some m'" "best A (insert (i, j) I \<union> {(i, h) | h. j + 1 \<le> h \<and> h < N}) m'"
    using Suc.hyps(1) [of "j + 1" "insert (i, j) I" ?m] Suc.hyps(2) Suc.prems best_insert by fastforce
  have "ssum A i (j - 1) + elt A j = ssum A i j" using ssum_step [of i "j - 1" A] Suc.prems by simp
  moreover have "ck (ssum A i j) = Some (ssum A i j)" using ssum_ck Suc.prems j by simp
  moreover have "insert (i, j) I \<union> {(i, h) | h. j + 1 \<le> h \<and> h < N} = I \<union> {(i, h) | h. j \<le> h \<and> h < N}"
    using j by force
  ultimately show ?case using m' j by (subst quad_j.simps) simp
qed

lemma segs_from:
  "i < N \<Longrightarrow> {(i', h). i' < i \<and> 0 \<le> i' \<and> i' \<le> h \<and> h < N} \<union> {(i, h) | h. i \<le> h \<and> h < N} =
     {(i', h). i' < i + 1 \<and> 0 \<le> i' \<and> i' \<le> h \<and> h < N}" if "0 \<le> i" for i N :: int
  using that by auto

lemma segs_all: "{(i', h). i' < i \<and> 0 \<le> i' \<and> i' \<le> h \<and> h < N} = segs 0 (N - 1)" if "N \<le> i" for i N :: int
  using that by (auto simp: segs_def)

lemma cubic_i_ok:
  "small_sums A \<Longrightarrow> 0 \<le> i \<Longrightarrow> N \<le> len A \<Longrightarrow> best A {(i', h). i' < i \<and> 0 \<le> i' \<and> i' \<le> h \<and> h < N} m \<Longrightarrow>
     \<exists>m'. cubic_i A N i m = Some m' \<and> best A (segs 0 (N - 1)) m'"
proof (induction "nat (N - i)" arbitrary: i m)
  case 0
  then show ?case by (subst cubic_i.simps) (simp add: segs_all)
next
  case (Suc n)
  have i: "i < N" using Suc.hyps(2) by linarith
  obtain m' where "cubic_j A N i i m = Some m'" "best A {(i', h). i' < i + 1 \<and> 0 \<le> i' \<and> i' \<le> h \<and> h < N} m'"
    using cubic_j_ok [OF Suc.prems(1,2) order_refl Suc.prems(3,4)] segs_from [OF Suc.prems(2) i] by auto
  then show ?case using Suc.hyps(1) [of "i + 1" m'] Suc.hyps(2) Suc.prems i by (subst cubic_i.simps) simp
qed

lemma quad_i_ok:
  "small_sums A \<Longrightarrow> 0 \<le> i \<Longrightarrow> N \<le> len A \<Longrightarrow> best A {(i', h). i' < i \<and> 0 \<le> i' \<and> i' \<le> h \<and> h < N} m \<Longrightarrow>
     \<exists>m'. quad_i A N i m = Some m' \<and> best A (segs 0 (N - 1)) m'"
proof (induction "nat (N - i)" arbitrary: i m)
  case 0
  then show ?case by (subst quad_i.simps) (simp add: segs_all)
next
  case (Suc n)
  have i: "i < N" using Suc.hyps(2) by linarith
  obtain m' where "quad_j A N i 0 m = Some m'" "best A {(i', h). i' < i + 1 \<and> 0 \<le> i' \<and> i' \<le> h \<and> h < N} m'"
    using quad_j_ok [OF Suc.prems(1,2) order_refl Suc.prems(3,4)] segs_from [OF Suc.prems(2) i] by auto
  then show ?case using Suc.hyps(1) [of "i + 1" m'] Suc.hyps(2) Suc.prems i by (subst quad_i.simps) simp
qed

section \<open>Linear\<close>

text \<open>\<open>ThisSum\<close> is the best sum of a subsequence that ends before \<open>j\<close>.\<close>

definition best_end :: "int list \<Rightarrow> int \<Rightarrow> int \<Rightarrow> bool" where
  "best_end A j s \<longleftrightarrow> (\<exists>i. 0 \<le> i \<and> i \<le> j \<and> s = ssum A i (j - 1)) \<and> (\<forall>i. 0 \<le> i \<and> i \<le> j \<longrightarrow> ssum A i (j - 1) \<le> s)"

lemma best_end_step:
  assumes "best_end A j s" "0 \<le> j"
  shows "\<exists>i. 0 \<le> i \<and> i \<le> j \<and> s + elt A j = ssum A i j" "0 \<le> i \<Longrightarrow> i \<le> j \<Longrightarrow> ssum A i j \<le> s + elt A j"
    "best_end A (j + 1) (max 0 (s + elt A j))"
proof -
  have e: "ssum A i j = ssum A i (j - 1) + elt A j" if "i \<le> j" for i using ssum_step [of i "j - 1" A] that by simp
  show ex: "\<exists>i. 0 \<le> i \<and> i \<le> j \<and> s + elt A j = ssum A i j" using assms(1) e by (force simp: best_end_def)
  show up: "ssum A i j \<le> s + elt A j" if "0 \<le> i" "i \<le> j" for i using assms(1) e [of i] that by (simp add: best_end_def)
  have "\<exists>i. 0 \<le> i \<and> i \<le> j + 1 \<and> max 0 (s + elt A j) = ssum A i j"
  proof (cases "0 \<le> s + elt A j")
    case True
    obtain i where "0 \<le> i" "i \<le> j" "s + elt A j = ssum A i j" using ex by blast
    then show ?thesis using True by (intro exI [of _ i]) simp
  next
    case False
    then show ?thesis using assms(2) by (intro exI [of _ "j + 1"]) simp
  qed
  moreover have "ssum A i j \<le> max 0 (s + elt A j)" if "0 \<le> i" "i \<le> j + 1" for i
    using up [of i] that by (cases "i \<le> j") auto
  ultimately show "best_end A (j + 1) (max 0 (s + elt A j))" by (simp add: best_end_def)
qed

lemma best_segs_step:
  assumes "best A (segs 0 (j - 1)) m" "\<exists>i. 0 \<le> i \<and> i \<le> j \<and> s = ssum A i j" "\<And>i. 0 \<le> i \<Longrightarrow> i \<le> j \<Longrightarrow> ssum A i j \<le> s"
  shows "best A (segs 0 j) (max m s)"
proof -
  have e: "segs 0 j = segs 0 (j - 1) \<union> {(i, j) | i. 0 \<le> i \<and> i \<le> j}" by (auto simp: segs_def)
  have "best A {(i, j) | i. 0 \<le> i \<and> i \<le> j} (max 0 s)"
    by (cases "0 \<le> s") (use assms(2,3) in \<open>force simp: best_def\<close>)+
  then have "best A (segs 0 j) (max m (max 0 s))" unfolding e by (rule best_Un [OF assms(1)])
  moreover have "0 \<le> m" using assms(1) by (simp add: best_def)
  ultimately show ?thesis by (simp add: max.left_commute max.absorb2)
qed

lemma linear_j_ok:
  "small_sums A \<Longrightarrow> 0 \<le> j \<Longrightarrow> j \<le> N \<Longrightarrow> N \<le> len A \<Longrightarrow> best_end A j s \<Longrightarrow> best A (segs 0 (j - 1)) m \<Longrightarrow>
     \<exists>m'. linear_j A N j s m = Some m' \<and> best A (segs 0 (N - 1)) m'"
proof (induction "nat (N - j)" arbitrary: j s m)
  case 0
  then have "j = N" by simp
  then show ?case using 0 by (subst linear_j.simps) simp
next
  case (Suc n)
  have j: "j < N" "inb A j" using Suc.hyps(2) Suc.prems by (auto simp: inb_def)
  note st = best_end_step [OF Suc.prems(5,2)]
  have "ck (s + elt A j) = Some (s + elt A j)" using st(1) ssum_ck [OF Suc.prems(1)] j Suc.prems(4) by auto
  moreover have m0: "0 \<le> m" using Suc.prems(6) by (simp add: best_def)
  ultimately have "linear_j A N j s m = linear_j A N (j + 1) (max 0 (s + elt A j)) (max m (s + elt A j))"
    using j by (subst linear_j.simps) (auto simp: max_def)
  moreover have "best A (segs 0 j) (max m (s + elt A j))" by (rule best_segs_step [OF Suc.prems(6) st(1,2)])
  ultimately show ?case using Suc.hyps(1) [of "j + 1"] Suc.hyps(2) Suc.prems j st(3) by simp
qed

section \<open>Divide and conquer\<close>

lemma left_border_ok:
  "small_sums A \<Longrightarrow> 0 \<le> l \<Longrightarrow> l - 1 \<le> i \<Longrightarrow> i \<le> c \<Longrightarrow> c < len A \<Longrightarrow>
     best A {(h, c) | h. i < h \<and> h \<le> c} m \<Longrightarrow>
     \<exists>m'. left_border A i l (ssum A (i + 1) c) m = Some m' \<and> best A {(h, c) | h. l \<le> h \<and> h \<le> c} m'"
proof (induction "nat (i + 1 - l)" arbitrary: i m)
  case 0
  then have "i = l - 1" by simp
  then have "{(h, c) | h. i < h \<and> h \<le> c} = {(h, c) | h. l \<le> h \<and> h \<le> c}" by auto
  then show ?case using 0 \<open>i = l - 1\<close> by (subst left_border.simps) simp
next
  case (Suc n)
  have i: "l \<le> i" "inb A i" using Suc.hyps(2) Suc.prems by (auto simp: inb_def)
  let ?m = "if ssum A i c > m then ssum A i c else m"
  have e: "insert (i, c) {(h, c) | h. i < h \<and> h \<le> c} = {(h, c) | h. i - 1 < h \<and> h \<le> c}" using Suc.prems(4) by force
  have "best A {(h, c) | h. i - 1 < h \<and> h \<le> c} ?m" using best_insert [OF Suc.prems(6), of i c] unfolding e .
  moreover have "ssum A (i + 1) c + elt A i = ssum A i c" using ssum_first [of i c A] Suc.prems by simp
  moreover have "ck (ssum A i c) = Some (ssum A i c)" using ssum_ck Suc.prems i by simp
  ultimately show ?case using Suc.hyps(1) [of "i - 1" ?m] Suc.hyps(2) Suc.prems i by (subst left_border.simps) simp
qed

lemma right_border_ok:
  "small_sums A \<Longrightarrow> 0 \<le> c \<Longrightarrow> c \<le> i \<Longrightarrow> i \<le> r + 1 \<Longrightarrow> r < len A \<Longrightarrow>
     best A {(c, h) | h. c \<le> h \<and> h < i} m \<Longrightarrow>
     \<exists>m'. right_border A i r (ssum A c (i - 1)) m = Some m' \<and> best A {(c, h) | h. c \<le> h \<and> h \<le> r} m'"
proof (induction "nat (r + 1 - i)" arbitrary: i m)
  case 0
  then have "i = r + 1" by simp
  then have "{(c, h) | h. c \<le> h \<and> h < i} = {(c, h) | h. c \<le> h \<and> h \<le> r}" by auto
  then show ?case using 0 \<open>i = r + 1\<close> by (subst right_border.simps) simp
next
  case (Suc n)
  have i: "i \<le> r" "inb A i" using Suc.hyps(2) Suc.prems by (auto simp: inb_def)
  let ?m = "if ssum A c i > m then ssum A c i else m"
  have e: "insert (c, i) {(c, h) | h. c \<le> h \<and> h < i} = {(c, h) | h. c \<le> h \<and> h < i + 1}" using Suc.prems(3) by force
  have "best A {(c, h) | h. c \<le> h \<and> h < i + 1} ?m" using best_insert [OF Suc.prems(6), of c i] unfolding e .
  moreover have "ssum A c (i - 1) + elt A i = ssum A c i" using ssum_step [of c "i - 1" A] Suc.prems by simp
  moreover have "ck (ssum A c i) = Some (ssum A c i)" using ssum_ck Suc.prems i by simp
  ultimately show ?case using Suc.hyps(1) [of "i + 1" ?m] Suc.hyps(2) Suc.prems i by (subst right_border.simps) simp
qed

text \<open>The best subsequence across the border is made of the best ones on its two sides.\<close>

lemma best_border:
  assumes "best A {(h, c) | h. l \<le> h \<and> h \<le> c} a" "best A {(c + 1, h) | h. c + 1 \<le> h \<and> h \<le> r} b"
    and "best A (segs l c) m" "best A (segs (c + 1) r) n" "l \<le> c" "c + 1 \<le> r"
  shows "best A (segs l r) (max (max m n) (a + b))" "\<exists>i j. l \<le> i \<and> j \<le> r \<and> a + b = ssum A i j"
proof -
  have sp: "ssum A i j = ssum A i c + ssum A (c + 1) j" if "i \<le> c + 1" "c \<le> j" for i j using ssum_split that .
  have "\<exists>i. l \<le> i \<and> i \<le> c + 1 \<and> a = ssum A i c"
  proof (cases "a = 0")
    case True
    then show ?thesis using assms(5) by (intro exI [of _ "c + 1"]) simp
  next
    case False
    then obtain i where "l \<le> i" "i \<le> c" "a = ssum A i c" using assms(1) by (auto simp: best_def)
    then show ?thesis by (intro exI [of _ i]) simp
  qed
  then obtain i where i: "l \<le> i" "i \<le> c + 1" "a = ssum A i c" by blast
  have "\<exists>j. c \<le> j \<and> j \<le> r \<and> b = ssum A (c + 1) j"
  proof (cases "b = 0")
    case True
    then show ?thesis using assms(6) by (intro exI [of _ c]) simp
  next
    case False
    then obtain j where "c + 1 \<le> j" "j \<le> r" "b = ssum A (c + 1) j" using assms(2) by (auto simp: best_def)
    then show ?thesis by (intro exI [of _ j]) simp
  qed
  then obtain j where j: "c \<le> j" "j \<le> r" "b = ssum A (c + 1) j" by blast
  have ab: "a + b = ssum A i j" using sp [of i j] i j by simp
  then show "\<exists>i j. l \<le> i \<and> j \<le> r \<and> a + b = ssum A i j" using i(1) j(2) by blast
  define J where "J = {(x, y). l \<le> x \<and> x \<le> c \<and> c + 1 \<le> y \<and> y \<le> r} \<union> (if i \<le> j then {(i, j)} else {})"
  have pos: "0 \<le> a" "0 \<le> b" using assms(1,2) by (auto simp: best_def)
  have up: "ssum A x y \<le> a + b" if "l \<le> x" "x \<le> c" "c + 1 \<le> y" "y \<le> r" for x y
  proof -
    have "ssum A x c \<le> a" using assms(1) that(1,2) by (auto simp: best_def)
    moreover have "ssum A (c + 1) y \<le> b" using assms(2) that(3,4) by (auto simp: best_def)
    ultimately show ?thesis using sp [of x y] that by simp
  qed
  have "\<forall>(x, y) \<in> J. ssum A x y \<le> a + b" using up ab by (auto simp: J_def)
  moreover have "a + b = 0 \<or> (\<exists>(x, y) \<in> J. a + b = ssum A x y)"
  proof (cases "i \<le> j")
    case True
    then have "(i, j) \<in> J" by (simp add: J_def)
    then show ?thesis using ab by blast
  next
    case False
    then show ?thesis using ab by simp
  qed
  ultimately have "best A J (a + b)" using pos by (simp add: best_def)
  then have "best A ((segs l c \<union> segs (c + 1) r) \<union> J) (max (max m n) (a + b))"
    by (rule best_Un [OF best_Un [OF assms(3,4)]])
  moreover have "(segs l c \<union> segs (c + 1) r) \<union> J = segs l r"
    using assms(5,6) i j unfolding J_def segs_def by auto
  ultimately show "best A (segs l r) (max (max m n) (a + b))" by simp
qed

lemma MaxSubSum_ok:
  "small_sums A \<Longrightarrow> len A \<le> 1073741824 \<Longrightarrow> 0 \<le> l \<Longrightarrow> l \<le> r \<Longrightarrow> r < len A \<Longrightarrow>
     \<exists>m. MaxSubSum A l r = Some (Some m) \<and> best A (segs l r) m"
proof (induction "nat (r - l)" arbitrary: l r rule: less_induct)
  case less
  show ?case
  proof (cases "l = r")
    case True
    then have "segs l r = {(r, r)}" "ssum A r r = elt A r" by (auto simp: segs_def ssum_def)
    then have "best A (segs l r) (if elt A r > 0 then elt A r else 0)" by (simp add: best_def)
    moreover have "inb A r" using less.prems by (simp add: inb_def)
    ultimately show ?thesis using True by (subst MaxSubSum.simps) simp
  next
    case False
    define c where "c = half (l + r)"
    have lr: "l < r" using False less.prems by simp
    have c: "l \<le> c" "c < r" "c = (l + r) div 2" using less.prems lr by (auto simp: c_def half_def)
    have k: "ck (l + r) = Some (l + r)" using less.prems by simp
    obtain m where m: "MaxSubSum A l c = Some (Some m)" "best A (segs l c) m" using less.hyps [of c l] less.prems c by auto
    obtain n where n: "MaxSubSum A (c + 1) r = Some (Some n)" "best A (segs (c + 1) r) n"
      using less.hyps [of r "c + 1"] less.prems c by auto
    obtain a where a: "left_border A c l 0 0 = Some a" "best A {(h, c) | h. l \<le> h \<and> h \<le> c} a"
      using left_border_ok [of A l c c 0] less.prems c by (auto simp: best_def)
    obtain b where b: "right_border A (c + 1) r 0 0 = Some b" "best A {(c + 1, h) | h. c + 1 \<le> h \<and> h \<le> r} b"
      using right_border_ok [of A "c + 1" "c + 1" r 0] less.prems c by (auto simp: best_def)
    note bb = best_border [OF a(2) b(2) m(2) n(2)]
    have "ck (a + b) = Some (a + b)" using bb(2) c less.prems ssum_ck [OF less.prems(1)] by fastforce
    then have "combine A l c r m n = Some (max (max m n) (a + b))"
      using a(1) b(1) by (simp add: combine_def Max3_def max_def)
    then show ?thesis using m(1) n(1) k bb(1) c False by (subst MaxSubSum.simps) (simp add: c_def)
  qed
qed

text \<open>For an empty array this version does not return: after reading \<open>A[0]\<close> it calls itself with
  \<open>(1, -1)\<close>, then with \<open>(1, 0)\<close> for ever.\<close>

lemma MaxSubSum_Some: "MaxSubSum A l r = Some y \<Longrightarrow> \<not> (l = 1 \<and> r = 0)"
proof (erule MaxSubSum.raw_induct [rotated], rule notI)
  fix f :: "int list \<Rightarrow> int \<Rightarrow> int \<Rightarrow> int option option" and A l r y
  assume IH: "\<And>A l r y. f A l r = Some y \<Longrightarrow> \<not> (l = 1 \<and> r = 0)"
    and y: "(if l = r then Some (do { a \<leftarrow> aget A l; Some (if a > 0 then a else 0) })
     else (case ck (l + r) of
         None \<Rightarrow> Some None
       | Some s \<Rightarrow>
          Option.bind (f A l (half s)) (\<lambda>x. case x of None \<Rightarrow> Some None
          | Some ml \<Rightarrow>
             Option.bind (f A (half s + 1) r) (\<lambda>y. case y of None \<Rightarrow> Some None
             | Some mr \<Rightarrow> Some (combine A l (half s) r ml mr))))) = Some y"
    and z: "l = 1 \<and> r = 0"
  have "f A 1 0 = None" using IH [of A 1 0] by (cases "f A 1 0") auto
  then show False using y z by (simp add: half_def)
qed

lemma MaxSubSum_1_0: "MaxSubSum A 1 0 = None"
  using MaxSubSum_Some [of A 1 0] by (cases "MaxSubSum A 1 0") auto

lemma nlogn_empty_diverges:
  assumes "A \<noteq> []"
  shows "nlogn_MaxSubsequenceSum A 0 = None"
proof -
  have "inb A 0" using assms by (simp add: inb_def)
  then have "MaxSubSum A 0 0 = Some (Some (if elt A 0 > 0 then elt A 0 else 0))" by (subst MaxSubSum.simps) simp
  moreover have "MaxSubSum A 1 (-1) = None" by (subst MaxSubSum.simps) (simp add: half_def MaxSubSum_1_0)
  ultimately show ?thesis unfolding nlogn_MaxSubsequenceSum_def by (subst MaxSubSum.simps) (simp add: half_def)
qed

section \<open>Theorem\<close>

text \<open>C28: the cubic, quadratic, divide-and-conquer and linear algorithms of \<open>max_sum.c\<close> all
  return the maximum subsequence sum (0 for the empty subsequence), for a non-empty array that is not too
  long for \<open>( Left + Right )\<close> and whose sums do not overflow.\<close>

theorem MaxSum_algorithms:
  assumes "small_sums A" "1 \<le> N" "N \<le> len A" "len A \<le> 1073741824"
  shows "\<exists>m. best A (segs 0 (N - 1)) m \<and> cubic_MaxSubsequenceSum A N = Some m \<and> quad_MaxSubsequenceSum A N = Some m \<and>
    nlogn_MaxSubsequenceSum A N = Some (Some m) \<and> linear_MaxSubsequenceSum A N = Some m"
proof -
  have e: "best A {(i', h). i' < 0 \<and> 0 \<le> i' \<and> i' \<le> h \<and> h < N} 0" by (auto simp: best_def)
  obtain m where m: "MaxSubSum A 0 (N - 1) = Some (Some m)" "best A (segs 0 (N - 1)) m"
    using MaxSubSum_ok [of A 0 "N - 1"] assms by auto
  have "cubic_i A N 0 0 = Some m" using cubic_i_ok [OF assms(1) order_refl assms(3) e] best_unique [OF m(2)] by auto
  moreover have "quad_i A N 0 0 = Some m" using quad_i_ok [OF assms(1) order_refl assms(3) e] best_unique [OF m(2)] by auto
  moreover have "best_end A 0 0" "best A (segs 0 (0 - 1)) 0" by (auto simp: best_end_def best_def segs_def)
  then have "linear_j A N 0 0 0 = Some m"
    using linear_j_ok [OF assms(1) order_refl _ assms(3), of 0 0] assms(2) best_unique [OF m(2)] by auto
  ultimately show ?thesis using m
    by (simp add: cubic_MaxSubsequenceSum_def quad_MaxSubsequenceSum_def nlogn_MaxSubsequenceSum_def linear_MaxSubsequenceSum_def)
qed

theorem MaxSum_algorithms_witness:
  "\<exists>m. linear_MaxSubsequenceSum [4, -3, 5, -2, -1, 2, 6, -2] 8 = Some m \<and>
     nlogn_MaxSubsequenceSum [4, -3, 5, -2, -1, 2, 6, -2] 8 = Some (Some m) \<and> 11 \<le> m"
proof -
  let ?A = "[4, -3, 5, -2, -1, 2, 6, -2] :: int list"
  obtain m where m: "best ?A (segs 0 7) m" "linear_MaxSubsequenceSum ?A 8 = Some m" "nlogn_MaxSubsequenceSum ?A 8 = Some (Some m)"
    using MaxSum_algorithms [of ?A 8] by (auto simp: small_sums_def)
  have "{0..6} = {0, 1, 2, 3, 4, 5, 6::int}" by auto
  then have "ssum ?A 0 6 = 11" by (simp add: ssum_def elt_def)
  moreover have "(0, 6) \<in> segs 0 7" by (simp add: segs_def)
  ultimately have "11 \<le> m" using m(1) by (force simp: best_def)
  then show ?thesis using m by blast
qed

end
