(* ===== verification/Poly.thy ===== *)
theory Poly
  imports CBase
begin

text \<open>
  \<^verbatim>\<open>src/DSAAC/poly.c\<close>: polynomials as coefficient arrays. The routines take pointers and
  write their result through the third one, so the model has a store of polynomials: what they do
  when two of the pointers are equal is part of it. The products and sums of coefficients are
  checked for overflow, the indices for bounds.
\<close>

section \<open>State and operations\<close>

definition MaxDegree :: int where "MaxDegree = 100"

record poly =
  CoeffArray :: "int list"
  HighPower :: int

type_synonym store = "int \<rightharpoonup> poly"

definition pderef :: "store \<Rightarrow> int \<Rightarrow> poly res" where
  "pderef st p = (if p = 0 then Inl NullDeref else case st p of None \<Rightarrow> Inl BadAccess | Some q \<Rightarrow> Inr q)"

definition coeff :: "store \<Rightarrow> int \<Rightarrow> int \<Rightarrow> int res" where
  "coeff st p i = bindr (pderef st p) (\<lambda>q. case aget (CoeffArray q) i of None \<Rightarrow> Inl BadAccess | Some v \<Rightarrow> Inr v)"

definition set_coeff :: "store \<Rightarrow> int \<Rightarrow> int \<Rightarrow> int \<Rightarrow> store res" where
  "set_coeff st p i v = bindr (pderef st p) (\<lambda>q.
     case aput (CoeffArray q) i v of None \<Rightarrow> Inl BadAccess | Some C \<Rightarrow> Inr (st(p \<mapsto> q\<lparr>CoeffArray := C\<rparr>)))"

definition set_high :: "store \<Rightarrow> int \<Rightarrow> int \<Rightarrow> store res" where
  "set_high st p v = bindr (pderef st p) (\<lambda>q. Inr (st(p \<mapsto> q\<lparr>HighPower := v\<rparr>)))"

definition arith :: "int \<Rightarrow> int res" where
  "arith x = (case ck x of None \<Rightarrow> Inl SignedOverflow | Some y \<Rightarrow> Inr y)"

definition poly_Max :: "int \<Rightarrow> int \<Rightarrow> int" where
  "poly_Max A B = (if A > B then A else B)"

function zero_loop :: "int \<Rightarrow> int \<Rightarrow> store \<Rightarrow> store res" where
  "zero_loop p i st = (if i \<le> MaxDegree then bindr (set_coeff st p i 0) (zero_loop p (i + 1)) else Inr st)"
  by pat_completeness auto
termination by (relation "measure (\<lambda>(p, i, st). nat (MaxDegree + 1 - i))") auto

definition ZeroPolynomial :: "int \<Rightarrow> store \<Rightarrow> store res" where
  "ZeroPolynomial p st = bindr (zero_loop p 0 st) (\<lambda>st. set_high st p 0)"

function add_loop :: "int \<Rightarrow> int \<Rightarrow> int \<Rightarrow> int \<Rightarrow> store \<Rightarrow> store res" where
  "add_loop p1 p2 ps i st =
    (if i \<ge> 0 then
       bindr (coeff st p1 i) (\<lambda>a. bindr (coeff st p2 i) (\<lambda>b. bindr (arith (a + b)) (\<lambda>s.
         bindr (set_coeff st ps i s) (add_loop p1 p2 ps (i - 1)))))
     else Inr st)"
  by pat_completeness auto
termination by (relation "measure (\<lambda>(p1, p2, ps, i, st). nat (i + 1))") auto

definition AddPolynomial :: "int \<Rightarrow> int \<Rightarrow> int \<Rightarrow> store \<Rightarrow> store res" where
  "AddPolynomial p1 p2 ps st =
    bindr (ZeroPolynomial ps st) (\<lambda>st.
      bindr (pderef st p1) (\<lambda>q1. bindr (pderef st p2) (\<lambda>q2.
        let h = poly_Max (HighPower q1) (HighPower q2) in
        bindr (set_high st ps h) (add_loop p1 p2 ps h))))"

text \<open>The bounds of the two loops are read again before every iteration in the code; nothing in the
  loops writes a \<open>HighPower\<close>, so the model reads them once.\<close>

function mult_j :: "int \<Rightarrow> int \<Rightarrow> int \<Rightarrow> int \<Rightarrow> int \<Rightarrow> int \<Rightarrow> store \<Rightarrow> store res" where
  "mult_j p1 p2 pp h2 i j st =
    (if j \<le> h2 then
       bindr (coeff st p1 i) (\<lambda>a. bindr (coeff st p2 j) (\<lambda>b. bindr (arith (a * b)) (\<lambda>m.
         bindr (coeff st pp (i + j)) (\<lambda>c. bindr (arith (c + m)) (\<lambda>s.
           bindr (set_coeff st pp (i + j) s) (mult_j p1 p2 pp h2 i (j + 1)))))))
     else Inr st)"
  by pat_completeness auto
termination by (relation "measure (\<lambda>(p1, p2, pp, h2, i, j, st). nat (h2 + 1 - j))") auto

function mult_i :: "int \<Rightarrow> int \<Rightarrow> int \<Rightarrow> int \<Rightarrow> int \<Rightarrow> int \<Rightarrow> store \<Rightarrow> store res" where
  "mult_i p1 p2 pp h1 h2 i st =
    (if i \<le> h1 then bindr (mult_j p1 p2 pp h2 i 0 st) (mult_i p1 p2 pp h1 h2 (i + 1)) else Inr st)"
  by pat_completeness auto
termination by (relation "measure (\<lambda>(p1, p2, pp, h1, h2, i, st). nat (h1 + 1 - i))") auto

definition MultPolynomial :: "int \<Rightarrow> int \<Rightarrow> int \<Rightarrow> store \<Rightarrow> store res" where
  "MultPolynomial p1 p2 pp st =
    bindr (ZeroPolynomial pp st) (\<lambda>st.
      bindr (pderef st p1) (\<lambda>q1. bindr (pderef st p2) (\<lambda>q2.
        bindr (arith (HighPower q1 + HighPower q2)) (\<lambda>h.
          bindr (set_high st pp h) (\<lambda>st.
            if h > MaxDegree then Inl (FatalError ''Exceeded array size'')
            else bindr (pderef st p1) (\<lambda>q1. bindr (pderef st p2) (\<lambda>q2.
              mult_i p1 p2 pp (HighPower q1) (HighPower q2) 0 st)))))))"

function print_loop :: "int \<Rightarrow> int \<Rightarrow> store \<Rightarrow> (int \<times> int) list res" where
  "print_loop p i st =
    (if i > 0 then bindr (coeff st p i) (\<lambda>c. bindr (print_loop p (i - 1) st) (\<lambda>out. Inr ((c, i) # out)))
     else Inr [])"
  by pat_completeness auto
termination by (relation "measure (\<lambda>(p, i, st). nat i)") auto

definition PrintPoly :: "int \<Rightarrow> store \<Rightarrow> (int \<times> int) list res" where
  \<comment> \<open>the printed terms: coefficient and power\<close>
  "PrintPoly p st =
    bindr (pderef st p) (\<lambda>q. bindr (print_loop p (HighPower q) st) (\<lambda>out.
      bindr (coeff st p 0) (\<lambda>c. Inr (out @ [(c, 0)]))))"

declare zero_loop.simps [simp del] add_loop.simps [simp del] mult_j.simps [simp del] mult_i.simps [simp del]
  print_loop.simps [simp del]

section \<open>Values\<close>

definition poly_at :: "store \<Rightarrow> int \<Rightarrow> (int \<Rightarrow> int) \<Rightarrow> int \<Rightarrow> bool" where
  \<comment> \<open>\<open>p\<close> points to a polynomial with the coefficients \<open>a\<close> up to the power \<open>h\<close>\<close>
  "poly_at st p a h \<longleftrightarrow> p \<noteq> 0 \<and> (\<exists>q. st p = Some q \<and> len (CoeffArray q) = MaxDegree + 1 \<and> HighPower q = h \<and>
     0 \<le> h \<and> h \<le> MaxDegree \<and> (\<forall>i. 0 \<le> i \<and> i \<le> MaxDegree \<longrightarrow> elt (CoeffArray q) i = a i))"

definition peval :: "(int \<Rightarrow> int) \<Rightarrow> int \<Rightarrow> int \<Rightarrow> int" where
  "peval a h x = (\<Sum>i \<in> {0..h}. a i * x ^ nat i)"

definition conv :: "(int \<Rightarrow> int) \<Rightarrow> (int \<Rightarrow> int) \<Rightarrow> (int \<times> int) set \<Rightarrow> int \<Rightarrow> int" where
  \<comment> \<open>the coefficient of power \<open>k\<close> when the pairs in \<open>X\<close> have been multiplied\<close>
  "conv a b X k = (\<Sum>(i, j) \<in> {(i, j) \<in> X. i + j = k}. a i * b j)"

lemma poly_atD:
  assumes "poly_at st p a h"
  obtains q where "p \<noteq> 0" "st p = Some q" "len (CoeffArray q) = MaxDegree + 1" "HighPower q = h" "0 \<le> h" "h \<le> MaxDegree"
    "\<And>i. 0 \<le> i \<Longrightarrow> i \<le> MaxDegree \<Longrightarrow> elt (CoeffArray q) i = a i" "pderef st p = Inr q"
  using assms by (auto simp: poly_at_def pderef_def)

lemma coeff_ok: "poly_at st p a h \<Longrightarrow> 0 \<le> i \<Longrightarrow> i \<le> MaxDegree \<Longrightarrow> coeff st p i = Inr (a i)"
  by (auto simp: poly_at_def coeff_def pderef_def inb_def)

lemma set_coeff_ok:
  assumes "poly_at st p a h" "0 \<le> i" "i \<le> MaxDegree"
  obtains q where "set_coeff st p i v = Inr (st(p \<mapsto> q))" "poly_at (st(p \<mapsto> q)) p (a(i := v)) h"
proof -
  obtain q where q: "p \<noteq> 0" "st p = Some q" "len (CoeffArray q) = MaxDegree + 1" "HighPower q = h" "0 \<le> h" "h \<le> MaxDegree"
    "\<And>i. 0 \<le> i \<Longrightarrow> i \<le> MaxDegree \<Longrightarrow> elt (CoeffArray q) i = a i" "pderef st p = Inr q" by (rule poly_atD [OF assms(1)]) blast
  have "inb (CoeffArray q) i" using q(3) assms by (simp add: inb_def)
  then show thesis
    using q assms by (intro that [of "q\<lparr>CoeffArray := upd (CoeffArray q) i v\<rparr>"])
      (auto simp: set_coeff_def poly_at_def elt_upd)
qed

lemma poly_at_other: "poly_at st p a h \<Longrightarrow> p \<noteq> t \<Longrightarrow> poly_at (st(t \<mapsto> q)) p a h"
  by (simp add: poly_at_def)

lemma poly_at_cong:
  "poly_at st p a h \<Longrightarrow> (\<And>i. 0 \<le> i \<Longrightarrow> i \<le> MaxDegree \<Longrightarrow> a i = b i) \<Longrightarrow> poly_at st p b h"
  by (auto simp: poly_at_def)

lemma set_high_ok:
  assumes "poly_at st p a h" "0 \<le> v" "v \<le> MaxDegree"
  obtains q where "set_high st p v = Inr (st(p \<mapsto> q))" "poly_at (st(p \<mapsto> q)) p a v"
  using assms by (auto simp: poly_at_def set_high_def pderef_def)

section \<open>Zero and sum\<close>

lemma zero_loop_ok:
  "poly_at st p a h \<Longrightarrow> 0 \<le> i \<Longrightarrow> i \<le> MaxDegree + 1 \<Longrightarrow>
     \<exists>q. zero_loop p i st = Inr (st(p \<mapsto> q)) \<and> poly_at (st(p \<mapsto> q)) p (\<lambda>k. if i \<le> k then 0 else a k) h"
proof (induction "nat (MaxDegree + 1 - i)" arbitrary: i st a)
  case 0
  then have i: "i = MaxDegree + 1" by simp
  obtain q where q: "st p = Some q" using 0 by (auto simp: poly_at_def)
  then have "st(p \<mapsto> q) = st" by auto
  moreover have "poly_at st p (\<lambda>k. if i \<le> k then 0 else a k) h" by (rule poly_at_cong [OF 0(2)]) (use i in auto)
  ultimately show ?case using i by (subst zero_loop.simps) (auto intro!: exI [of _ q])
next
  case (Suc n)
  have i: "i \<le> MaxDegree" using Suc.hyps(2) by linarith
  obtain q where q: "set_coeff st p i 0 = Inr (st(p \<mapsto> q))" "poly_at (st(p \<mapsto> q)) p (a(i := 0)) h"
    using set_coeff_ok [OF Suc.prems(1,2) i] .
  have n: "n = nat (MaxDegree + 1 - (i + 1))" using Suc.hyps(2) by linarith
  obtain q' where q': "zero_loop p (i + 1) (st(p \<mapsto> q)) = Inr (st(p \<mapsto> q, p \<mapsto> q'))"
      "poly_at (st(p \<mapsto> q, p \<mapsto> q')) p (\<lambda>k. if i + 1 \<le> k then 0 else (a(i := 0)) k) h"
    using Suc.hyps(1) [OF n q(2)] Suc.prems(2) i by auto
  have "poly_at (st(p \<mapsto> q')) p (\<lambda>k. if i \<le> k then 0 else a k) h"
    by (rule poly_at_cong [OF q'(2) [simplified fun_upd_upd]]) auto
  then show ?case using q' q(1) i by (subst zero_loop.simps) auto
qed

lemma ZeroPolynomial_ok:
  assumes "poly_at st p a h"
  obtains q where "ZeroPolynomial p st = Inr (st(p \<mapsto> q))" "poly_at (st(p \<mapsto> q)) p (\<lambda>_. 0) 0"
proof -
  obtain q where q: "zero_loop p 0 st = Inr (st(p \<mapsto> q))" "poly_at (st(p \<mapsto> q)) p (\<lambda>k. if 0 \<le> k then 0 else a k) h"
    using zero_loop_ok [OF assms, of 0] by (auto simp: MaxDegree_def)
  have z: "poly_at (st(p \<mapsto> q)) p (\<lambda>_. 0) h" by (rule poly_at_cong [OF q(2)]) auto
  obtain q' where "set_high (st(p \<mapsto> q)) p 0 = Inr (st(p \<mapsto> q, p \<mapsto> q'))" "poly_at (st(p \<mapsto> q, p \<mapsto> q')) p (\<lambda>_. 0) 0"
    using set_high_ok [OF z, of 0] by (auto simp: MaxDegree_def)
  then show thesis using q(1) by (intro that [of q']) (auto simp: ZeroPolynomial_def)
qed

lemma arith_ok: "\<bar>x\<bar> \<le> INT_MAX \<Longrightarrow> arith x = Inr x"
  by (simp add: arith_def abs_le_iff)

lemma add_loop_ok:
  "poly_at st p1 a h1 \<Longrightarrow> poly_at st p2 b h2 \<Longrightarrow> poly_at st ps c h \<Longrightarrow> ps \<noteq> p1 \<Longrightarrow> ps \<noteq> p2 \<Longrightarrow>
   (\<And>k. \<bar>a k + b k\<bar> \<le> INT_MAX) \<Longrightarrow> - 1 \<le> i \<Longrightarrow> i \<le> MaxDegree \<Longrightarrow>
     \<exists>q. add_loop p1 p2 ps i st = Inr (st(ps \<mapsto> q)) \<and> poly_at (st(ps \<mapsto> q)) ps (\<lambda>k. if k \<le> i then a k + b k else c k) h"
proof (induction "nat (i + 1)" arbitrary: i st c)
  case 0
  then have i: "i = - 1" by simp
  obtain q where q: "st ps = Some q" using 0 by (auto simp: poly_at_def)
  then have "st(ps \<mapsto> q) = st" by auto
  moreover have "poly_at st ps (\<lambda>k. if k \<le> i then a k + b k else c k) h"
    by (rule poly_at_cong [OF 0(4)]) (use i in auto)
  ultimately show ?case using i by (subst add_loop.simps) (auto intro!: exI [of _ q])
next
  case (Suc n)
  have i: "0 \<le> i" using Suc.hyps(2) by linarith
  obtain q where q: "set_coeff st ps i (a i + b i) = Inr (st(ps \<mapsto> q))" "poly_at (st(ps \<mapsto> q)) ps (c(i := a i + b i)) h"
    using set_coeff_ok [OF Suc.prems(3) i Suc.prems(8)] .
  obtain q' where q': "add_loop p1 p2 ps (i - 1) (st(ps \<mapsto> q)) = Inr (st(ps \<mapsto> q, ps \<mapsto> q'))"
      "poly_at (st(ps \<mapsto> q, ps \<mapsto> q')) ps (\<lambda>k. if k \<le> i - 1 then a k + b k else (c(i := a i + b i)) k) h"
    using Suc.hyps(1) [of "i - 1", OF _ poly_at_other [OF Suc.prems(1)] poly_at_other [OF Suc.prems(2)] q(2)]
      Suc.hyps(2) Suc.prems i by fastforce
  have "poly_at (st(ps \<mapsto> q')) ps (\<lambda>k. if k \<le> i then a k + b k else c k) h"
    by (rule poly_at_cong [OF q'(2) [simplified fun_upd_upd]]) auto
  moreover have "coeff st p1 i = Inr (a i)" "coeff st p2 i = Inr (b i)"
    using coeff_ok [OF Suc.prems(1) i Suc.prems(8)] coeff_ok [OF Suc.prems(2) i Suc.prems(8)] by auto
  moreover have "arith (a i + b i) = Inr (a i + b i)" by (rule arith_ok [OF Suc.prems(6)])
  ultimately show ?case using q' q(1) i by (subst add_loop.simps) auto
qed

lemma AddPolynomial_ok:
  assumes "poly_at st p1 a h1" "poly_at st p2 b h2" "poly_at st ps c h" "ps \<noteq> p1" "ps \<noteq> p2"
    and "\<And>k. \<bar>a k + b k\<bar> \<le> INT_MAX" "\<And>k. h1 < k \<Longrightarrow> a k = 0" "\<And>k. h2 < k \<Longrightarrow> b k = 0"
  shows "\<exists>q. AddPolynomial p1 p2 ps st = Inr (st(ps \<mapsto> q)) \<and> poly_at (st(ps \<mapsto> q)) ps (\<lambda>k. a k + b k) (max h1 h2)"
proof -
  obtain z where z: "ZeroPolynomial ps st = Inr (st(ps \<mapsto> z))" "poly_at (st(ps \<mapsto> z)) ps (\<lambda>_. 0) 0"
    using ZeroPolynomial_ok [OF assms(3)] .
  have p: "poly_at (st(ps \<mapsto> x)) p1 a h1" "poly_at (st(ps \<mapsto> x)) p2 b h2" for x
    using assms(1,2,4,5) by (auto intro: poly_at_other)
  have h: "0 \<le> max h1 h2" "max h1 h2 \<le> MaxDegree" using assms(1,2) by (auto simp: poly_at_def)
  obtain q where q: "set_high (st(ps \<mapsto> z)) ps (max h1 h2) = Inr (st(ps \<mapsto> q))" "poly_at (st(ps \<mapsto> q)) ps (\<lambda>_. 0) (max h1 h2)"
    using set_high_ok [OF z(2) h] by auto
  obtain r where r: "add_loop p1 p2 ps (max h1 h2) (st(ps \<mapsto> q)) = Inr (st(ps \<mapsto> r))"
      "poly_at (st(ps \<mapsto> r)) ps (\<lambda>k. if k \<le> max h1 h2 then a k + b k else 0) (max h1 h2)"
    using add_loop_ok [OF p q(2) assms(4-6), of "max h1 h2"] h by auto
  have "poly_at (st(ps \<mapsto> r)) ps (\<lambda>k. a k + b k) (max h1 h2)"
    by (rule poly_at_cong [OF r(2)]) (use assms(7,8) in auto)
  moreover obtain q1 q2 where "pderef (st(ps \<mapsto> z)) p1 = Inr q1" "HighPower q1 = h1" "pderef (st(ps \<mapsto> z)) p2 = Inr q2" "HighPower q2 = h2"
    using poly_atD [OF p(1) [of z]] poly_atD [OF p(2) [of z]] by metis
  moreover have "poly_Max h1 h2 = max h1 h2" by (simp add: poly_Max_def max_def)
  ultimately show ?thesis using z(1) q(1) r(1) by (auto simp: AddPolynomial_def)
qed

section \<open>Product\<close>

abbreviation (input) box :: "int \<Rightarrow> int \<Rightarrow> (int \<times> int) set" where "box h1 h2 \<equiv> {0..h1} \<times> {0..h2}"

lemma conv_empty [simp]: "conv a b {} k = 0"
  by (simp add: conv_def)

lemma conv_insert:
  assumes "finite X" "(i, j) \<notin> X"
  shows "conv a b (insert (i, j) X) k = (if k = i + j then conv a b X k + a i * b j else conv a b X k)"
proof -
  have "finite {(i, j) \<in> X. i + j = k}" by (rule finite_subset [OF _ assms(1)]) auto
  moreover have "{(i', j') \<in> insert (i, j) X. i' + j' = k} =
      (if k = i + j then insert (i, j) {(i', j') \<in> X. i' + j' = k} else {(i', j') \<in> X. i' + j' = k})" by auto
  ultimately show ?thesis using assms(2) by (cases "k = i + j") (simp_all add: conv_def)
qed

lemma abs_conv:
  assumes "X \<subseteq> box h1 h2"
  shows "\<bar>conv a b X k\<bar> \<le> (\<Sum>i \<in> {0..h1}. \<bar>a i\<bar>) * (\<Sum>j \<in> {0..h2}. \<bar>b j\<bar>)"
proof -
  have "\<bar>conv a b X k\<bar> \<le> (\<Sum>p \<in> {(i, j) \<in> X. i + j = k}. \<bar>case p of (i, j) \<Rightarrow> a i * b j\<bar>)"
    unfolding conv_def by (rule sum_abs)
  also have "\<dots> \<le> (\<Sum>p \<in> box h1 h2. \<bar>case p of (i, j) \<Rightarrow> a i * b j\<bar>)"
    using assms by (intro sum_mono2) auto
  also have "\<dots> = (\<Sum>(i, j) \<in> box h1 h2. \<bar>a i\<bar> * \<bar>b j\<bar>)" by (rule sum.cong) (auto simp: abs_mult)
  also have "\<dots> = (\<Sum>i \<in> {0..h1}. \<bar>a i\<bar>) * (\<Sum>j \<in> {0..h2}. \<bar>b j\<bar>)"
    by (simp add: sum_product sum.cartesian_product)
  finally show ?thesis .
qed

lemma mult_j_ok:
  assumes "ps \<noteq> p1" "ps \<noteq> p2" "0 \<le> i" "i \<le> h1" "h1 + h2 \<le> MaxDegree" "0 \<le> h1" "0 \<le> h2"
    and bnd: "(\<Sum>i \<in> {0..h1}. \<bar>a i\<bar>) * (\<Sum>j \<in> {0..h2}. \<bar>b j\<bar>) \<le> INT_MAX"
  shows "poly_at st p1 a g1 \<Longrightarrow> poly_at st p2 b g2 \<Longrightarrow> poly_at st ps (conv a b X) h \<Longrightarrow>
    0 \<le> j \<Longrightarrow> j \<le> h2 + 1 \<Longrightarrow> X \<subseteq> box h1 h2 \<Longrightarrow> X \<inter> {i} \<times> {j..h2} = {} \<Longrightarrow>
    \<exists>q. mult_j p1 p2 ps h2 i j st = Inr (st(ps \<mapsto> q)) \<and> poly_at (st(ps \<mapsto> q)) ps (conv a b (X \<union> {i} \<times> {j..h2})) h"
proof (induction "nat (h2 + 1 - j)" arbitrary: j st X)
  case 0
  then have j: "{j..h2} = {}" "\<not> j \<le> h2" by auto
  obtain q where q: "st ps = Some q" using 0 by (auto simp: poly_at_def)
  then have "st(ps \<mapsto> q) = st" by auto
  then show ?case using j 0 by (subst mult_j.simps) (auto intro!: exI [of _ q])
next
  case (Suc n)
  have j: "j \<le> h2" using Suc.hyps(2) by linarith
  have k: "0 \<le> i + j" "i + j \<le> MaxDegree" "i \<le> MaxDegree" "j \<le> MaxDegree" using assms(3-7) Suc.prems(4) j by auto
  let ?X = "insert (i, j) X"
  have f: "finite X" by (rule finite_subset [OF Suc.prems(6)]) simp
  have ij: "(i, j) \<notin> X" using Suc.prems(7) j by auto
  have sub: "?X \<subseteq> box h1 h2" using Suc.prems(4,6) j assms(3,4) by auto
  have c: "conv a b ?X m = (if m = i + j then conv a b X m + a i * b j else conv a b X m)" for m
    by (rule conv_insert [OF f ij])
  have one: "a i * b j = conv a b {(i, j)} (i + j)" using conv_insert [of "{}" i j a b "i + j"] by simp
  have "\<bar>a i * b j\<bar> \<le> INT_MAX" unfolding one using abs_conv [of "{(i, j)}" h1 h2 a b "i + j"] sub bnd by simp
  moreover have "\<bar>conv a b X (i + j) + a i * b j\<bar> \<le> INT_MAX" using abs_conv [OF sub, of a b "i + j"] c bnd by simp
  ultimately have ar: "arith (a i * b j) = Inr (a i * b j)" "arith (conv a b X (i + j) + a i * b j) = Inr (conv a b X (i + j) + a i * b j)"
    by (auto intro: arith_ok)
  obtain q where q: "set_coeff st ps (i + j) (conv a b X (i + j) + a i * b j) = Inr (st(ps \<mapsto> q))"
      "poly_at (st(ps \<mapsto> q)) ps ((conv a b X)(i + j := conv a b X (i + j) + a i * b j)) h"
    using set_coeff_ok [OF Suc.prems(3) k(1,2)] .
  have q2: "poly_at (st(ps \<mapsto> q)) ps (conv a b ?X) h" by (rule poly_at_cong [OF q(2)]) (simp add: c)
  have "\<exists>q'. mult_j p1 p2 ps h2 i (j + 1) (st(ps \<mapsto> q)) = Inr (st(ps \<mapsto> q, ps \<mapsto> q')) \<and>
      poly_at (st(ps \<mapsto> q, ps \<mapsto> q')) ps (conv a b (?X \<union> {i} \<times> {j + 1..h2})) h"
    by (rule Suc.hyps(1) [OF _ poly_at_other [OF Suc.prems(1)] poly_at_other [OF Suc.prems(2)] q2 _ _ sub])
      (use Suc.hyps(2) Suc.prems(4,7) j assms(1,2) in auto)
  moreover have "?X \<union> {i} \<times> {j + 1..h2} = X \<union> {i} \<times> {j..h2}" using j by force
  ultimately obtain q' where "mult_j p1 p2 ps h2 i (j + 1) (st(ps \<mapsto> q)) = Inr (st(ps \<mapsto> q'))"
      "poly_at (st(ps \<mapsto> q')) ps (conv a b (X \<union> {i} \<times> {j..h2})) h" by auto
  moreover have "coeff st p1 i = Inr (a i)" "coeff st p2 j = Inr (b j)" "coeff st ps (i + j) = Inr (conv a b X (i + j))"
    using coeff_ok [OF Suc.prems(1) assms(3) k(3)] coeff_ok [OF Suc.prems(2,4) k(4)] coeff_ok [OF Suc.prems(3) k(1,2)] by auto
  ultimately show ?case using ar q(1) j by (subst mult_j.simps) auto
qed

lemma mult_i_ok:
  assumes "ps \<noteq> p1" "ps \<noteq> p2" "h1 + h2 \<le> MaxDegree" "0 \<le> h1" "0 \<le> h2"
    and bnd: "(\<Sum>i \<in> {0..h1}. \<bar>a i\<bar>) * (\<Sum>j \<in> {0..h2}. \<bar>b j\<bar>) \<le> INT_MAX"
  shows "poly_at st p1 a g1 \<Longrightarrow> poly_at st p2 b g2 \<Longrightarrow> poly_at st ps (conv a b ({0..<i} \<times> {0..h2})) h \<Longrightarrow>
    0 \<le> i \<Longrightarrow> i \<le> h1 + 1 \<Longrightarrow>
    \<exists>q. mult_i p1 p2 ps h1 h2 i st = Inr (st(ps \<mapsto> q)) \<and> poly_at (st(ps \<mapsto> q)) ps (conv a b (box h1 h2)) h"
proof (induction "nat (h1 + 1 - i)" arbitrary: i st)
  case 0
  then have i: "{0..<i} = {0..h1}" "\<not> i \<le> h1" by auto
  obtain q where q: "st ps = Some q" using 0 by (auto simp: poly_at_def)
  then have "st(ps \<mapsto> q) = st" by auto
  then show ?case using i 0 by (subst mult_i.simps) (auto intro!: exI [of _ q])
next
  case (Suc n)
  have i: "i \<le> h1" using Suc.hyps(2) by linarith
  have "{0..<i} \<times> {0..h2} \<union> {i} \<times> {0..h2} = {0..<i + 1} \<times> {0..h2}" using Suc.prems(4) by auto
  moreover have "\<exists>q. mult_j p1 p2 ps h2 i 0 st = Inr (st(ps \<mapsto> q)) \<and>
      poly_at (st(ps \<mapsto> q)) ps (conv a b ({0..<i} \<times> {0..h2} \<union> {i} \<times> {0..h2})) h"
    by (rule mult_j_ok [OF assms(1,2) Suc.prems(4) i assms(3-5) bnd Suc.prems(1-3)]) (use i assms(5) in auto)
  ultimately obtain q where q: "mult_j p1 p2 ps h2 i 0 st = Inr (st(ps \<mapsto> q))"
      "poly_at (st(ps \<mapsto> q)) ps (conv a b ({0..<i + 1} \<times> {0..h2})) h" by auto
  have "\<exists>q'. mult_i p1 p2 ps h1 h2 (i + 1) (st(ps \<mapsto> q)) = Inr (st(ps \<mapsto> q, ps \<mapsto> q')) \<and>
      poly_at (st(ps \<mapsto> q, ps \<mapsto> q')) ps (conv a b (box h1 h2)) h"
    by (rule Suc.hyps(1) [OF _ poly_at_other [OF Suc.prems(1)] poly_at_other [OF Suc.prems(2)] q(2)])
      (use Suc.hyps(2) Suc.prems(4) i assms(1,2) in auto)
  then show ?case using q(1) i by (subst mult_i.simps) auto
qed

lemma MultPolynomial_ok:
  assumes "poly_at st p1 a h1" "poly_at st p2 b h2" "poly_at st ps c h" "ps \<noteq> p1" "ps \<noteq> p2" "h1 + h2 \<le> MaxDegree"
    and bnd: "(\<Sum>i \<in> {0..h1}. \<bar>a i\<bar>) * (\<Sum>j \<in> {0..h2}. \<bar>b j\<bar>) \<le> INT_MAX"
  shows "\<exists>q. MultPolynomial p1 p2 ps st = Inr (st(ps \<mapsto> q)) \<and>
    poly_at (st(ps \<mapsto> q)) ps (conv a b (box h1 h2)) (h1 + h2)"
proof -
  obtain z where z: "ZeroPolynomial ps st = Inr (st(ps \<mapsto> z))" "poly_at (st(ps \<mapsto> z)) ps (\<lambda>_. 0) 0"
    using ZeroPolynomial_ok [OF assms(3)] .
  have p: "poly_at (st(ps \<mapsto> x)) p1 a h1" "poly_at (st(ps \<mapsto> x)) p2 b h2" for x
    using assms(1,2,4,5) by (auto intro: poly_at_other)
  have hs: "0 \<le> h1" "0 \<le> h2" "0 \<le> h1 + h2" using assms(1,2) by (auto simp: poly_at_def)
  obtain q where q: "set_high (st(ps \<mapsto> z)) ps (h1 + h2) = Inr (st(ps \<mapsto> q))" "poly_at (st(ps \<mapsto> q)) ps (\<lambda>_. 0) (h1 + h2)"
    using set_high_ok [OF z(2) hs(3) assms(6)] by auto
  have "poly_at (st(ps \<mapsto> q)) ps (conv a b ({0..<0} \<times> {0..h2})) (h1 + h2)" by (rule poly_at_cong [OF q(2)]) simp
  then obtain r where r: "mult_i p1 p2 ps h1 h2 0 (st(ps \<mapsto> q)) = Inr (st(ps \<mapsto> r))"
      "poly_at (st(ps \<mapsto> r)) ps (conv a b (box h1 h2)) (h1 + h2)"
    using mult_i_ok [OF assms(4-6) hs(1,2) bnd p] hs by fastforce
  have d: "\<exists>q. pderef (st(ps \<mapsto> x)) p1 = Inr q \<and> HighPower q = h1" "\<exists>q. pderef (st(ps \<mapsto> x)) p2 = Inr q \<and> HighPower q = h2" for x
    using poly_atD [OF p(1) [of x]] poly_atD [OF p(2) [of x]] by metis+
  have "arith (h1 + h2) = Inr (h1 + h2)" using hs assms(6) by (intro arith_ok) (auto simp: MaxDegree_def)
  then show ?thesis using z(1) q(1) r assms(6) d [of z] d [of q] by (auto simp: MultPolynomial_def)
qed

lemma peval_conv: "0 \<le> h1 \<Longrightarrow> 0 \<le> h2 \<Longrightarrow> peval (conv a b (box h1 h2)) (h1 + h2) x = peval a h1 x * peval b h2 x"
proof -
  assume h: "0 \<le> h1" "0 \<le> h2"
  have "peval (conv a b (box h1 h2)) (h1 + h2) x =
      (\<Sum>k \<in> {0..h1 + h2}. \<Sum>p \<in> {p \<in> box h1 h2. fst p + snd p = k}. a (fst p) * b (snd p) * x ^ nat (fst p + snd p))"
    unfolding peval_def conv_def sum_distrib_right by (intro sum.cong) (auto simp: case_prod_unfold)
  also have "\<dots> = (\<Sum>p \<in> box h1 h2. a (fst p) * b (snd p) * x ^ nat (fst p + snd p))"
    by (rule sum.group) auto
  also have "\<dots> = (\<Sum>(i, j) \<in> box h1 h2. (a i * x ^ nat i) * (b j * x ^ nat j))"
    by (rule sum.cong) (auto simp: nat_add_distrib power_add)
  also have "\<dots> = peval a h1 x * peval b h2 x" by (simp add: peval_def sum_product sum.cartesian_product)
  finally show ?thesis .
qed

lemma MultPolynomial_too_big:
  assumes "poly_at st p1 a h1" "poly_at st p2 b h2" "poly_at st ps c h" "ps \<noteq> p1" "ps \<noteq> p2" "MaxDegree < h1 + h2"
  shows "MultPolynomial p1 p2 ps st = Inl (FatalError ''Exceeded array size'')"
proof -
  obtain z where z: "ZeroPolynomial ps st = Inr (st(ps \<mapsto> z))" "poly_at (st(ps \<mapsto> z)) ps (\<lambda>_. 0) 0"
    using ZeroPolynomial_ok [OF assms(3)] .
  have p: "poly_at (st(ps \<mapsto> z)) p1 a h1" "poly_at (st(ps \<mapsto> z)) p2 b h2"
    using assms(1,2,4,5) by (auto intro: poly_at_other)
  obtain q1 q2 where "pderef (st(ps \<mapsto> z)) p1 = Inr q1" "HighPower q1 = h1" "pderef (st(ps \<mapsto> z)) p2 = Inr q2" "HighPower q2 = h2"
    using poly_atD [OF p(1)] poly_atD [OF p(2)] by metis
  moreover have "arith (h1 + h2) = Inr (h1 + h2)"
    using assms(1,2) by (intro arith_ok) (auto simp: poly_at_def MaxDegree_def)
  moreover obtain q3 where "pderef (st(ps \<mapsto> z)) ps = Inr q3" using poly_atD [OF z(2)] by metis
  ultimately show ?thesis using z(1) assms(6) by (simp add: MultPolynomial_def set_high_def)
qed

lemma peval_add:
  assumes "\<And>k. h1 < k \<Longrightarrow> a k = 0" "\<And>k. h2 < k \<Longrightarrow> b k = 0"
  shows "peval (\<lambda>k. a k + b k) (max h1 h2) x = peval a h1 x + peval b h2 x"
proof -
  have "peval a h1 x = peval a (max h1 h2) x" unfolding peval_def
    by (rule sum.mono_neutral_left) (use assms(1) in auto)
  moreover have "peval b h2 x = peval b (max h1 h2) x" unfolding peval_def
    by (rule sum.mono_neutral_left) (use assms(2) in auto)
  ultimately show ?thesis by (simp add: peval_def sum.distrib distrib_right)
qed

section \<open>Theorems\<close>

text \<open>C29: \<open>AddPolynomial\<close> and \<open>MultPolynomial\<close> store the sum and the product of the two
  polynomials at the third pointer, if it is none of the other two, the product's degree is at most
  \<open>MaxDegree\<close>, the coefficients above \<open>HighPower\<close> are zero (for the sum) and the
  arithmetic does not overflow: the stored polynomial evaluates at every point to the sum and to the
  product of the values, and nothing else in the store changes. A product of too high a degree ends
  with the error.\<close>

theorem Poly_Add_Mult:
  assumes "poly_at st p1 a h1" "poly_at st p2 b h2" "poly_at st p3 c h" "p3 \<noteq> p1" "p3 \<noteq> p2"
    and "\<And>k. \<bar>a k + b k\<bar> \<le> INT_MAX" "\<And>k. h1 < k \<Longrightarrow> a k = 0" "\<And>k. h2 < k \<Longrightarrow> b k = 0"
    and "(\<Sum>i \<in> {0..h1}. \<bar>a i\<bar>) * (\<Sum>j \<in> {0..h2}. \<bar>b j\<bar>) \<le> INT_MAX"
  shows "(\<exists>q s. AddPolynomial p1 p2 p3 st = Inr (st(p3 \<mapsto> q)) \<and> poly_at (st(p3 \<mapsto> q)) p3 s (max h1 h2) \<and>
      (\<forall>x. peval s (max h1 h2) x = peval a h1 x + peval b h2 x)) \<and>
    (if h1 + h2 \<le> MaxDegree
     then \<exists>q m. MultPolynomial p1 p2 p3 st = Inr (st(p3 \<mapsto> q)) \<and> poly_at (st(p3 \<mapsto> q)) p3 m (h1 + h2) \<and>
       (\<forall>x. peval m (h1 + h2) x = peval a h1 x * peval b h2 x)
     else MultPolynomial p1 p2 p3 st = Inl (FatalError ''Exceeded array size''))"
proof
  have h: "0 \<le> h1" "0 \<le> h2" using assms(1,2) by (auto simp: poly_at_def)
  show "\<exists>q s. AddPolynomial p1 p2 p3 st = Inr (st(p3 \<mapsto> q)) \<and> poly_at (st(p3 \<mapsto> q)) p3 s (max h1 h2) \<and>
      (\<forall>x. peval s (max h1 h2) x = peval a h1 x + peval b h2 x)"
    using AddPolynomial_ok [OF assms(1-8)] peval_add [of h1 a h2 b, OF assms(7,8)] by blast
  show "if h1 + h2 \<le> MaxDegree
     then \<exists>q m. MultPolynomial p1 p2 p3 st = Inr (st(p3 \<mapsto> q)) \<and> poly_at (st(p3 \<mapsto> q)) p3 m (h1 + h2) \<and>
       (\<forall>x. peval m (h1 + h2) x = peval a h1 x * peval b h2 x)
     else MultPolynomial p1 p2 p3 st = Inl (FatalError ''Exceeded array size'')"
  proof (cases "h1 + h2 \<le> MaxDegree")
    case True
    have "\<exists>q m. MultPolynomial p1 p2 p3 st = Inr (st(p3 \<mapsto> q)) \<and> poly_at (st(p3 \<mapsto> q)) p3 m (h1 + h2) \<and>
       (\<forall>x. peval m (h1 + h2) x = peval a h1 x * peval b h2 x)"
      using MultPolynomial_ok [OF assms(1-5) True assms(9)] peval_conv [OF h, of a b] by blast
    then show ?thesis using True by simp
  next
    case False
    then show ?thesis using MultPolynomial_too_big [OF assms(1-5)] by simp
  qed
qed

theorem Poly_Add_Mult_witness:
  "\<exists>q m. MultPolynomial 1 1 2 [1 \<mapsto> \<lparr>CoeffArray = 1 # 1 # replicate 99 0, HighPower = 1\<rparr>,
       2 \<mapsto> \<lparr>CoeffArray = replicate 101 7, HighPower = 0\<rparr>] =
     Inr ([1 \<mapsto> \<lparr>CoeffArray = 1 # 1 # replicate 99 0, HighPower = 1\<rparr>, 2 \<mapsto> \<lparr>CoeffArray = replicate 101 7, HighPower = 0\<rparr>](2 \<mapsto> q)) \<and>
     peval m 2 1 = 4"
proof -
  let ?st = "[1 \<mapsto> \<lparr>CoeffArray = 1 # 1 # replicate 99 0, HighPower = 1\<rparr>,
       2 \<mapsto> \<lparr>CoeffArray = replicate 101 7, HighPower = 0\<rparr>] :: store"
  let ?a = "\<lambda>k::int. if k = 0 \<or> k = 1 then 1 else 0 :: int"
  have e: "elt (1 # 1 # replicate 99 0) i = ?a i" if "0 \<le> i" "i \<le> 100" for i
  proof -
    have "i = 0 \<or> i = 1 \<or> (\<exists>n. nat i = Suc (Suc n) \<and> n < 99)" using that by presburger
    then show ?thesis by (auto simp: elt_def)
  qed
  have a: "poly_at ?st 1 ?a 1" using e by (simp add: poly_at_def MaxDegree_def)
  have c: "poly_at ?st 2 (\<lambda>_. 7) 0" by (auto simp: poly_at_def MaxDegree_def elt_def nat_less_iff)
  have s: "{0..1} = {0, 1::int}" by auto
  have b: "\<bar>?a k + ?a k\<bar> \<le> INT_MAX" for k by simp
  have z: "?a k = 0" if "1 < k" for k using that by simp
  have t: "(\<Sum>i \<in> {0..1}. \<bar>?a i\<bar>) * (\<Sum>j \<in> {0..1}. \<bar>?a j\<bar>) \<le> INT_MAX" unfolding s by simp
  have "\<exists>q m. MultPolynomial 1 1 2 ?st = Inr (?st(2 \<mapsto> q)) \<and> (\<forall>x. peval m (1 + 1) x = peval ?a 1 x * peval ?a 1 x)"
    using Poly_Add_Mult [OF a a c _ _ b z z t] by (auto simp: MaxDegree_def)
  then obtain q m where "MultPolynomial 1 1 2 ?st = Inr (?st(2 \<mapsto> q))" "peval m (1 + 1) 1 = peval ?a 1 1 * peval ?a 1 1" by blast
  then show ?thesis using s by (intro exI [of _ q] exI [of _ m]) (simp add: peval_def)
qed

end
