(* ===== verification/IntroAlgos.thy ===== *)
theory IntroAlgos
  imports MaxSum "HOL-Library.Word"
begin

text \<open>
  The small programs of the first chapters under \<^verbatim>\<open>src/DSAAC\<close>: \<^verbatim>\<open>fig1_2.c\<close> (recursion),
  \<^verbatim>\<open>fig1_3.c\<close> (recursion that does not end), \<^verbatim>\<open>fig1_4.c\<close> (printing digits),
  \<^verbatim>\<open>fig2_9.c\<close> (binary search), \<^verbatim>\<open>fig2_10.c\<close> (Euclid's algorithm),
  \<^verbatim>\<open>fig2_11.c\<close> (fast exponentiation), and the string hash functions of
  \<^verbatim>\<open>hashfunc.c\<close>. \<open>unsigned int\<close> is \<open>32 word\<close> where its arithmetic matters.
\<close>

unbundle bit_operations_syntax

section \<open>fig1_2.c and fig1_3.c\<close>

function F :: "int \<Rightarrow> int option" where
  "F X =
    (if X = 0 then Some 0
     else do {
       x \<leftarrow> ck (X - 1);
       r \<leftarrow> F x;
       d \<leftarrow> ck (2 * r);
       s \<leftarrow> ck (X * X);
       ck (d + s)
     })"
  by pat_completeness auto
termination by (relation "measure (\<lambda>X. nat (X + 2147483649))") (auto simp: ck_Some_iff)

declare F.simps [simp del]

lemma F_closed_form: "n \<le> 28 \<Longrightarrow> F (int n) = Some (6 * 2 ^ n - int n * int n - 4 * int n - 6)"
proof (induction n)
  case 0
  show ?case by (subst F.simps) simp
next
  case (Suc n)
  have "(2::int) ^ n \<le> 2 ^ 27" using Suc.prems by (intro power_increasing) auto
  then have p: "(2::int) ^ n \<le> 134217728" "(1::int) \<le> 2 ^ n" by auto
  have "int n * int n \<le> 27 * 27" using Suc.prems by (intro mult_mono) auto
  then have sq: "int n * int n \<le> 729" "0 \<le> int n * int n" by auto
  have n: "int n \<le> 27" using Suc.prems by simp
  have c1: "ck (12 * 2 ^ n - 2 * (int n * int n) - 8 * int n - 12) = Some (12 * 2 ^ n - 2 * (int n * int n) - 8 * int n - 12)"
    by (rule ck_ok) (use p sq n in linarith)+
  have c2: "ck (12 * 2 ^ n - int n * int n - 6 * int n - 11) = Some (12 * 2 ^ n - int n * int n - 6 * int n - 11)"
    by (rule ck_ok) (use p sq n in linarith)+
  have IH: "F (int n) = Some (6 * 2 ^ n - int n * int n - 4 * int n - 6)" using Suc by simp
  have s: "(1 + int n) * (1 + int n) = int n * int n + 2 * int n + 1" by (simp add: algebra_simps)
  have "F (1 + int n) = ck (12 * 2 ^ n - int n * int n - 6 * int n - 11)"
    using IH c1 sq n by (subst F.simps) (simp add: s algebra_simps)
  then show ?case using c2 by (simp add: s)
qed

lemma F_negative: "X < 0 \<Longrightarrow> F X = None"
proof (induction X rule: F.induct)
  case (1 X)
  show ?case
  proof (cases "ck (X - 1)")
    case (Some x)
    then have "F x = None" using "1.IH" [OF _ Some] "1.prems" by (auto simp: ck_Some_iff)
    then show ?thesis using Some "1.prems" by (subst F.simps) simp
  qed (use "1.prems" in \<open>subst F.simps; simp\<close>)
qed

partial_function (option) Bad :: "32 word \<Rightarrow> 32 word option" where
  \<comment> \<open>the result, an \<open>int\<close>, by its bits\<close>
  "Bad N = (if N = 0 then Some 0 else Option.bind (Bad (N div 3 + 1)) (\<lambda>r. Some (r + N - 1)))"

text \<open>\<open>N / 3 + 1\<close> is never 0, so no call with \<open>N > 0\<close> returns.\<close>

lemma div3_nonzero: "(N::32 word) div 3 + 1 \<noteq> 0"
proof -
  have "unat N < 4294967296" using unsigned_less [of N] by simp
  then have "unat (N div 3) < 2 ^ 32 - 1" by (simp add: unat_div)
  then have "unat (N div 3 + 1) = unat (N div 3) + 1" by (simp add: unat_word_ariths)
  then show ?thesis by (metis Suc_eq_plus1 nat.distinct(1) unat_0)
qed

lemma Bad_Some: "Bad N = Some r \<Longrightarrow> N = 0"
proof (erule Bad.raw_induct [rotated])
  fix f :: "32 word \<Rightarrow> 32 word option" and N r
  assume IH: "\<And>N r. f N = Some r \<Longrightarrow> N = 0"
    and e: "(if N = 0 then Some 0 else Option.bind (f (N div 3 + 1)) (\<lambda>r. Some (r + N - 1))) = Some r"
  have "f (N div 3 + 1) = None" using IH [of "N div 3 + 1"] div3_nonzero [of N] by (cases "f (N div 3 + 1)") auto
  then show "N = 0" using e by (auto split: if_splits)
qed

section \<open>fig1_4.c\<close>

function PrintOut :: "32 word \<Rightarrow> string" where
  \<comment> \<open>the characters written\<close>
  "PrintOut N = (if N \<ge> 10 then PrintOut (N div 10) else []) @ [char_of (unat (N mod 10) + 48)]"
  by pat_completeness auto
termination
proof (relation "measure unat")
  fix N :: "32 word" assume "10 \<le> N"
  then have "10 \<le> unat N" by (simp add: word_le_nat_alt)
  then show "(N div 10, N) \<in> measure unat" by (simp add: unat_div)
qed simp

declare PrintOut.simps [simp del]

definition digit_value :: "char \<Rightarrow> nat" where
  "digit_value c = of_char c - 48"

definition read_decimal :: "string \<Rightarrow> nat" where
  "read_decimal s = foldl (\<lambda>a c. 10 * a + digit_value c) 0 s"

lemma digit_char: "d < 10 \<Longrightarrow> digit_value (char_of (d + 48)) = d" for d :: nat
  by (simp add: digit_value_def)

lemma read_PrintOut: "read_decimal (PrintOut N) = unat N"
proof (induction N rule: PrintOut.induct)
  case (1 N)
  have m: "digit_value (char_of (unat (N mod 10) + 48)) = unat N mod 10"
    using digit_char [of "unat N mod 10"] by (simp add: unat_mod)
  show ?case
  proof (cases "N \<ge> 10")
    case True
    then show ?thesis using "1.IH" m by (subst PrintOut.simps) (simp add: read_decimal_def unat_div)
  next
    case False
    then have "unat N < 10" by (simp add: word_le_nat_alt)
    then show ?thesis using m False by (subst PrintOut.simps) (simp add: read_decimal_def)
  qed
qed

section \<open>fig2_9.c\<close>

definition NotFound :: int where "NotFound = - 1"

function search_loop :: "int list \<Rightarrow> int \<Rightarrow> int \<Rightarrow> int \<Rightarrow> int option" where
  "search_loop A X Low High =
    (if Low \<le> High then do {
       s \<leftarrow> ck (Low + High);
       a \<leftarrow> aget A (half s);
       (if a < X then search_loop A X (half s + 1) High
        else if a > X then search_loop A X Low (half s - 1)
        else Some (half s))
     } else Some NotFound)"
  by pat_completeness auto
termination
  by (relation "measure (\<lambda>(A, X, l, h). nat (h - l + 1))") (auto simp: ck_Some_iff aget_Some_iff inb_def half_def split: if_splits)

declare search_loop.simps [simp del]

definition BinarySearch :: "int list \<Rightarrow> int \<Rightarrow> int \<Rightarrow> int option" where
  "BinarySearch A X N = search_loop A X 0 (N - 1)"

lemma search_loop_ok:
  "ordered A 0 (N - 1) \<Longrightarrow> N \<le> len A \<Longrightarrow> N \<le> 1073741824 \<Longrightarrow> 0 \<le> l \<Longrightarrow> h < N \<Longrightarrow>
   (\<And>i. 0 \<le> i \<Longrightarrow> i < N \<Longrightarrow> elt A i = X \<Longrightarrow> l \<le> i \<and> i \<le> h) \<Longrightarrow>
     \<exists>r. search_loop A X l h = Some r \<and>
       (if r = NotFound then \<forall>i. 0 \<le> i \<and> i < N \<longrightarrow> elt A i \<noteq> X else 0 \<le> r \<and> r < N \<and> elt A r = X)"
proof (induction A X l h rule: search_loop.induct)
  case (1 A X l h)
  show ?case
  proof (cases "l \<le> h")
    case False
    then show ?thesis using "1.prems"(6) by (subst search_loop.simps) (force simp: NotFound_def)
  next
    case True
    define m where "m = half (l + h)"
    have m: "l \<le> m" "m \<le> h" "inb A m" "0 \<le> m" "m < N" using "1.prems" True by (auto simp: m_def half_def inb_def)
    have k: "ck (l + h) = Some (l + h)" using "1.prems" True by simp
    have g: "aget A m = Some (elt A m)" using m by simp
    consider "elt A m < X" | "X < elt A m" | "elt A m = X" by linarith
    then show ?thesis
    proof cases
      case 1
      have "m + 1 \<le> i" if "0 \<le> i" "i < N" "elt A i = X" for i
        using orderedD [OF "1.prems"(1), of i m] that m 1 by force
      then have "\<exists>r. search_loop A X (m + 1) h = Some r \<and>
          (if r = NotFound then \<forall>i. 0 \<le> i \<and> i < N \<longrightarrow> elt A i \<noteq> X else 0 \<le> r \<and> r < N \<and> elt A r = X)"
        using "1.IH"(1) [OF True k g [unfolded m_def]] "1.prems" m 1 by (auto simp: m_def)
      then show ?thesis using True k g 1 by (subst search_loop.simps) (simp add: m_def)
    next
      case 2
      have "i \<le> m - 1" if "0 \<le> i" "i < N" "elt A i = X" for i
        using orderedD [OF "1.prems"(1), of m i] that m 2 by force
      then have "\<exists>r. search_loop A X l (m - 1) = Some r \<and>
          (if r = NotFound then \<forall>i. 0 \<le> i \<and> i < N \<longrightarrow> elt A i \<noteq> X else 0 \<le> r \<and> r < N \<and> elt A r = X)"
        using "1.IH"(2) [OF True k g [unfolded m_def]] "1.prems" m 2 by (auto simp: m_def)
      then show ?thesis using True k g 2 by (subst search_loop.simps) (simp add: m_def)
    next
      case 3
      then show ?thesis using True k g m by (subst search_loop.simps) (simp add: m_def NotFound_def)
    qed
  qed
qed

section \<open>fig2_10.c and fig2_11.c\<close>

function Gcd_c :: "32 word \<Rightarrow> 32 word \<Rightarrow> 32 word" where
  "Gcd_c M N = (if N > 0 then Gcd_c N (M mod N) else M)"
  by pat_completeness auto
termination
proof (relation "measure (\<lambda>(M, N). unat N)")
  fix M N :: "32 word" assume "0 < N"
  then have "0 < unat N" by (simp add: word_less_nat_alt)
  then show "((N, M mod N), M, N) \<in> measure (\<lambda>(M, N). unat N)" by (simp add: unat_mod)
qed simp

declare Gcd_c.simps [simp del]

lemma Gcd_gcd: "unat (Gcd_c M N) = gcd (unat M) (unat N)"
proof (induction M N rule: Gcd_c.induct)
  case (1 M N)
  show ?case
  proof (cases "N > 0")
    case True
    then show ?thesis using "1.IH" by (subst Gcd_c.simps) (simp add: unat_mod gcd_red_nat flip: gcd_red_nat)
  next
    case False
    then have "N = 0" by (simp add: word_gt_0)
    then show ?thesis by (subst Gcd_c.simps) simp
  qed
qed

definition ck64 :: "int \<Rightarrow> int option" where
  "ck64 x = (if - (2 ^ 63) \<le> x \<and> x < 2 ^ 63 then Some x else None)"

function Pow_c :: "int \<Rightarrow> nat \<Rightarrow> int option" where
  \<comment> \<open>\<open>N\<close> is an \<open>unsigned int\<close>, only compared and halved\<close>
  "Pow_c X N =
    (if N = 0 then Some 1
     else if N = 1 then Some X
     else if N mod 2 = 0 then do { s \<leftarrow> ck64 (X * X); Pow_c s (N div 2) }
     else do { s \<leftarrow> ck64 (X * X); r \<leftarrow> Pow_c s (N div 2); ck64 (r * X) })"
  by pat_completeness auto
termination by (relation "measure (\<lambda>(X, N). N)") auto

declare Pow_c.simps [simp del]

lemma ck64_ok: "\<bar>x\<bar> < 2 ^ 63 \<Longrightarrow> ck64 x = Some x"
  by (auto simp: ck64_def)

lemma Pow_power: "\<bar>X\<bar> ^ N < 2 ^ 63 \<Longrightarrow> Pow_c X N = Some (X ^ N)"
proof (induction X N rule: Pow_c.induct)
  case (1 X N)
  show ?case
  proof (cases "N = 0 \<or> N = 1 \<or> X = 0")
    case True
    have "Pow_c 0 (N div 2) = Some 0" if "X = 0" "2 \<le> N" "N mod 2 = 0"
      using "1.IH"(1) [of 0] that by (simp add: ck64_def power_0_left)
    moreover have "Pow_c 0 (N div 2) = Some 0" if "X = 0" "2 \<le> N" "N mod 2 \<noteq> 0"
      using "1.IH"(2) [of 0] that by (simp add: ck64_def power_0_left)
    ultimately show ?thesis using True by (subst Pow_c.simps) (auto simp: ck64_def power_0_left)
  next
    case False
    then have a: "1 \<le> \<bar>X\<bar>" "2 \<le> N" by auto
    have "\<bar>X\<bar> ^ 2 \<le> \<bar>X\<bar> ^ N" using a by (intro power_increasing) auto
    then have sq: "ck64 (X * X) = Some (X * X)" using "1.prems" by (intro ck64_ok) (simp add: power2_eq_square abs_mult)
    have e: "\<bar>X * X\<bar> ^ (N div 2) = \<bar>X\<bar> ^ (2 * (N div 2))" by (simp add: power_mult abs_mult power2_eq_square)
    also have "\<dots> \<le> \<bar>X\<bar> ^ N" using a by (intro power_increasing) auto
    finally have b: "\<bar>X * X\<bar> ^ (N div 2) < 2 ^ 63" using "1.prems" by simp
    have h: "(X * X) ^ (N div 2) = X ^ (2 * (N div 2))" by (simp add: power_mult power2_eq_square)
    show ?thesis
    proof (cases "N mod 2 = 0")
      case True
      then have "2 * (N div 2) = N" by auto
      then show ?thesis using "1.IH"(1) [OF _ _ True sq b] False sq h True by (subst Pow_c.simps) auto
    next
      case odd: False
      then have n: "N = Suc (2 * (N div 2))" by presburger
      have "X ^ N = (X * X) ^ (N div 2) * X" by (subst n) (simp add: h mult.commute)
      moreover have "ck64 (X ^ N) = Some (X ^ N)" using "1.prems" by (intro ck64_ok) (simp add: power_abs)
      ultimately show ?thesis using "1.IH"(2) [OF _ _ odd sq b] False sq odd by (subst Pow_c.simps) auto
    qed
  qed
qed

section \<open>hashfunc.c\<close>

text \<open>A key is its bytes up to and including the terminating 0, possibly followed by others; reading
  beyond them gives \<open>None\<close>. A \<open>char\<close> is signed.\<close>

fun Hash1_loop :: "8 word list \<Rightarrow> 32 word \<Rightarrow> 32 word option" where
  "Hash1_loop [] HashVal = None"
| "Hash1_loop (c # cs) HashVal = (if c \<noteq> 0 then Hash1_loop cs (HashVal + scast c) else Some HashVal)"

definition Hash1 :: "8 word list \<Rightarrow> 32 word \<Rightarrow> 32 word option" where
  "Hash1 Key TableSize =
    do { HashVal \<leftarrow> Hash1_loop Key 0; if TableSize = 0 then None else Some (HashVal mod TableSize) }"

definition Hash2 :: "8 word list \<Rightarrow> int \<Rightarrow> 32 word option" where
  \<comment> \<open>computed in \<open>int\<close>; the remainder has the sign of the dividend\<close>
  "Hash2 Key TableSize =
    do {
      a \<leftarrow> aget Key 0; b \<leftarrow> aget Key 1; c \<leftarrow> aget Key 2;
      let s = sint a + 27 * sint b + 729 * sint c;
      if TableSize = 0 then None
      else Some (word_of_int (if 0 \<le> s then s mod \<bar>TableSize\<bar> else - ((- s) mod \<bar>TableSize\<bar>)))
    }"

fun Hash3_loop :: "8 word list \<Rightarrow> 32 word \<Rightarrow> 32 word option" where
  "Hash3_loop [] HashVal = None"
| "Hash3_loop (c # cs) HashVal = (if c \<noteq> 0 then Hash3_loop cs (push_bit 5 HashVal + scast c) else Some HashVal)"

definition Hash3 :: "8 word list \<Rightarrow> 32 word \<Rightarrow> 32 word option" where
  "Hash3 Key TableSize =
    do { HashVal \<leftarrow> Hash3_loop Key 0; if TableSize = 0 then None else Some (HashVal mod TableSize) }"

lemma Hash1_loop_ok: "0 \<notin> set cs \<Longrightarrow> Hash1_loop (cs @ 0 # rest) v = Some (v + (\<Sum>c \<leftarrow> cs. scast c))"
  by (induction cs arbitrary: v) (auto simp: add.assoc)

lemma Hash3_loop_append:
  "0 \<notin> set cs \<Longrightarrow> Hash3_loop (cs @ rest) v = Hash3_loop rest (foldl (\<lambda>h c. push_bit 5 h + scast c) v cs)"
  by (induction cs arbitrary: v) auto

lemma Hash3_fold_shift:
  "foldl (\<lambda>h c. push_bit 5 h + scast c) v cs = push_bit (5 * length cs) v + foldl (\<lambda>h c. push_bit 5 h + scast c) 0 cs"
  for v :: "32 word" and cs :: "8 word list"
proof (induction cs arbitrary: v)
  case (Cons c cs)
  have "foldl (\<lambda>h c. push_bit 5 h + scast c) v (c # cs) =
      push_bit (5 * length cs) (push_bit 5 v + scast c) + foldl (\<lambda>h c. push_bit 5 h + scast c) 0 cs"
    using Cons.IH [of "push_bit 5 v + scast c"] by simp
  also have "\<dots> = push_bit (5 * length (c # cs)) v + (push_bit (5 * length cs) (scast c) + foldl (\<lambda>h c. push_bit 5 h + scast c) 0 cs)"
    by (simp add: push_bit_add push_bit_push_bit add.commute add.left_commute)
  also have "push_bit (5 * length cs) (scast c) + foldl (\<lambda>h c. push_bit 5 h + scast c) 0 cs =
      foldl (\<lambda>h c. push_bit 5 h + scast c) (0::32 word) (c # cs)"
    using Cons.IH [of "scast c"] by simp
  finally show ?case .
qed simp

lemma push_bit_out: "32 \<le> n \<Longrightarrow> push_bit n v = 0" for v :: "32 word"
  by (rule bit_word_eqI) (simp add: bit_push_bit_iff)

text \<open>Shifting by 5 for every character leaves nothing of the characters before the last seven.\<close>

lemma Hash3_last_seven:
  assumes "0 \<notin> set pre" "0 \<notin> set post" "7 \<le> length post"
  shows "Hash3_loop (pre @ post @ 0 # rest) 0 = Hash3_loop (post @ 0 # rest) 0"
proof -
  let ?f = "foldl (\<lambda>h c. push_bit 5 h + scast c) :: 32 word \<Rightarrow> 8 word list \<Rightarrow> 32 word"
  have "?f v post = ?f 0 post" for v using Hash3_fold_shift [of v post] push_bit_out [of "5 * length post" v] assms(3) by simp
  then show ?thesis using assms(1,2) by (simp add: Hash3_loop_append)
qed

section \<open>Theorems\<close>

text \<open>\<open>BinarySearch\<close> in a sorted array of at most \<open>2^30\<close> elements returns a
  position of the element, or \<open>NotFound\<close> if it does not occur; it always returns and stays in
  bounds.\<close>

theorem BinarySearch_correct:
  assumes "ordered A 0 (N - 1)" "N \<le> len A" "N \<le> 1073741824"
  shows "\<exists>r. BinarySearch A X N = Some r \<and>
    (if r = NotFound then \<forall>i. 0 \<le> i \<and> i < N \<longrightarrow> elt A i \<noteq> X else 0 \<le> r \<and> r < N \<and> elt A r = X)"
  using search_loop_ok [OF assms, of 0 "N - 1" X] by (simp add: BinarySearch_def)

theorem BinarySearch_correct_witness:
  "\<exists>r. BinarySearch [1, 3, 5, 7, 9, 13, 15] 9 7 = Some r \<and> r \<noteq> NotFound"
proof -
  let ?A = "[1, 3, 5, 7, 9, 13, 15] :: int list"
  have "sorted ?A" by simp
  then have "ordered ?A 0 (7 - 1)" using ordered_sorted [of ?A] by simp
  then obtain r where r: "BinarySearch ?A 9 7 = Some r"
      "if r = NotFound then \<forall>i. 0 \<le> i \<and> i < 7 \<longrightarrow> elt ?A i \<noteq> 9 else 0 \<le> r \<and> r < 7 \<and> elt ?A r = 9"
    using BinarySearch_correct [of ?A 7 9] by auto
  moreover have "elt ?A 4 = 9" by (simp add: elt_def)
  ultimately have "r \<noteq> NotFound" by (auto split: if_splits)
  then show ?thesis using r(1) by blast
qed

text \<open>The numeric routines of the first chapters compute what they are for: \<open>Gcd\<close> the
  greatest common divisor, \<open>Pow\<close> the power when it fits a \<open>long\<close>,
  \<open>PrintOut\<close> writes decimal digits that read back as the number, \<open>F\<close> has its closed
  form as long as it fits an \<open>int\<close>, and \<open>Bad\<close> returns for no positive argument.\<close>

theorem intro_numeric:
  "unat (Gcd_c M N) = gcd (unat M) (unat N) \<and> read_decimal (PrintOut N) = unat N \<and>
   (\<bar>X\<bar> ^ n < 2 ^ 63 \<longrightarrow> Pow_c X n = Some (X ^ n)) \<and>
   (k \<le> 28 \<longrightarrow> F (int k) = Some (6 * 2 ^ k - int k * int k - 4 * int k - 6)) \<and>
   (N \<noteq> 0 \<longrightarrow> Bad N = None)"
  using Gcd_gcd Pow_power read_PrintOut F_closed_form Bad_Some [of N] by (cases "Bad N") auto

theorem intro_numeric_witness:
  "unat (Gcd_c 1989 1590) = 3 \<and> Pow_c 2 21 = Some 2097152 \<and> F 5 = Some 141 \<and> Bad 1590 = None"
proof -
  have "gcd (1989::nat) 1590 = 3" by (simp add: gcd_non_0_nat)
  then show ?thesis using intro_numeric [of 1989 1590 2 21 5] by simp
qed

text \<open>For a terminated key and a positive table size the string hash functions return an index
  below the table size, and stay inside the string; \<open>Hash3\<close> ignores all but the last seven
  characters of the key.\<close>

theorem hash_functions:
  assumes "0 \<notin> set pre" "0 \<notin> set post" "7 \<le> length post" "0 < TableSize"
  shows "\<exists>i j. Hash1 (pre @ post @ 0 # rest) TableSize = Some i \<and> i < TableSize \<and>
    i = (\<Sum>c \<leftarrow> pre @ post. scast c) mod TableSize \<and>
    Hash3 (pre @ post @ 0 # rest) TableSize = Some j \<and> j < TableSize \<and> Hash3 (post @ 0 # rest) TableSize = Some j"
proof -
  have T: "TableSize \<noteq> 0" "x mod TableSize < TableSize" for x
    using assms(4) by (auto simp: word_less_nat_alt unat_mod)
  have 1: "Hash1_loop (pre @ post @ 0 # rest) 0 = Some (\<Sum>c \<leftarrow> pre @ post. scast c)"
    using Hash1_loop_ok [of "pre @ post" rest 0] assms(1,2) by simp
  obtain h where h: "Hash3_loop (post @ 0 # rest) 0 = Some h"
    using Hash3_loop_append [OF assms(2), of "0 # rest" 0] by auto
  then have "Hash3_loop (pre @ post @ 0 # rest) 0 = Some h" using Hash3_last_seven [OF assms(1-3)] by simp
  then show ?thesis using 1 h T by (simp add: Hash1_def Hash3_def)
qed

theorem hash_functions_witness:
  "\<exists>j. Hash3 ([1, 2] @ [3, 4, 5, 6, 7, 8, 9] @ 0 # []) 101 = Some j \<and> j < 101"
  using hash_functions [of "[1, 2]" "[3, 4, 5, 6, 7, 8, 9]" 101 "[]"] by (auto simp: word_less_nat_alt)

end
