(* ===== verification/NumberAlgos.thy ===== *)
theory NumberAlgos
  imports NextPrime IntroAlgos
begin

text \<open>
  The randomised algorithms of chapter 10 under \<^verbatim>\<open>src/DSAAC\<close>: the random number
  generators of \<^verbatim>\<open>fig10_54.c\<close> and \<^verbatim>\<open>fig10_55.c\<close>, whose state \<open>Seed\<close> is an
  \<open>unsigned long\<close> (\<open>64 word\<close>), and the primality test of \<^verbatim>\<open>fig10_62.c\<close> on
  \<open>long\<close>, with \<open>rand()\<close> a parameter. The generators return \<open>Seed / M\<close> as a
  \<open>double\<close>; the model has the new \<open>Seed\<close>, which determines it.
\<close>

section \<open>Random number generators\<close>

abbreviation (input) rnd_A :: "'a::numeral" where "rnd_A \<equiv> 48271"
abbreviation (input) rnd_M :: "'a::numeral" where "rnd_M \<equiv> 2147483647"

definition direct_Random :: "64 word \<Rightarrow> 64 word" where
  \<comment> \<open>\<^verbatim>\<open>fig10_54.c\<close>\<close>
  "direct_Random Seed = (rnd_A * Seed) mod rnd_M"

definition schrage_Random :: "64 word \<Rightarrow> 64 word" where
  \<comment> \<open>\<^verbatim>\<open>fig10_55.c\<close>; \<open>Q = M / A = 44488\<close> and \<open>R = M % A = 3399\<close>. The
    unsigned difference is converted to the \<open>long\<close> \<open>TmpSeed\<close>.\<close>
  "schrage_Random Seed =
    (let TmpSeed = rnd_A * (Seed mod 44488) - 3399 * (Seed div 44488)
     in if sint TmpSeed \<ge> 0 then TmpSeed else TmpSeed + rnd_M)"

definition rnd_Initialize :: "64 word \<Rightarrow> 64 word" where
  "rnd_Initialize InitVal = InitVal"

text \<open>Schrage's decomposition, on integers.\<close>

lemma schrage_int:
  fixes s :: int
  assumes "0 < s" "s < 2147483647"
  defines "t \<equiv> 48271 * (s mod 44488) - 3399 * (s div 44488)"
  shows "- 2147483647 < t" "t < 2147483647" "(48271 * s) mod 2147483647 = (if 0 \<le> t then t else t + 2147483647)"
    "(48271 * s) mod 2147483647 \<noteq> 0"
proof -
  have q: "0 \<le> s div 44488" "s div 44488 \<le> 48271" using assms(1,2) by auto
  have r: "0 \<le> s mod 44488" "s mod 44488 < 44488" by auto
  show b: "- 2147483647 < t" "t < 2147483647" unfolding t_def using q r by linarith+
  have "s = 44488 * (s div 44488) + s mod 44488" by simp
  then have e: "48271 * s = 2147483647 * (s div 44488) + t" unfolding t_def by linarith
  then have m: "(48271 * s) mod 2147483647 = t mod 2147483647" by simp
  have "t mod 2147483647 = (if 0 \<le> t then t else t + 2147483647)"
  proof (cases "0 \<le> t")
    case False
    then have "(t + 2147483647) mod 2147483647 = t + 2147483647" using b by (intro mod_pos_pos_trivial) auto
    then show ?thesis using False by simp
  qed (use b in simp)
  then show "(48271 * s) mod 2147483647 = (if 0 \<le> t then t else t + 2147483647)" using m by simp
  have "t \<noteq> 0"
  proof
    assume "t = 0"
    then have d: "48271 * (s mod 44488) = 3399 * (s div 44488)" by (simp add: t_def)
    have "coprime (48271::int) 3399" by (simp add: coprime_iff_gcd_eq_1 gcd_non_0_int)
    then have "48271 dvd s div 44488" using d by (metis coprime_dvd_mult_right_iff dvd_triv_left)
    then have "s div 44488 = 0 \<or> s div 44488 = 48271" using q by (auto elim!: dvdE)
    then show False using d assms(1,2) div_mult_mod_eq [of s 44488] by auto
  qed
  then show "(48271 * s) mod 2147483647 \<noteq> 0" using m b \<open>t mod 2147483647 = _\<close> by (auto split: if_splits)
qed

lemma schrage_word:
  assumes "0 < Seed" "Seed < 2147483647"
  shows "schrage_Random Seed = direct_Random Seed" "uint (direct_Random Seed) = (48271 * uint Seed) mod 2147483647"
proof -
  define s where "s = uint Seed"
  have s: "0 < s" "s < 2147483647" using assms by (auto simp: s_def word_less_def)
  define t where "t = 48271 * (s mod 44488) - 3399 * (s div 44488)"
  note i = schrage_int [OF s, folded t_def]
  have W: "Seed = word_of_int s" by (simp add: s_def)
  have md: "Seed mod 44488 = word_of_int (s mod 44488)" "Seed div 44488 = word_of_int (s div 44488)"
  proof -
    have "uint (Seed mod 44488) = s mod 44488" "uint (Seed div 44488) = s div 44488" by (simp_all add: s_def uint_mod uint_div)
    then show "Seed mod 44488 = word_of_int (s mod 44488)" "Seed div 44488 = word_of_int (s div 44488)" by (metis word_of_int_uint)+
  qed
  have T: "48271 * (Seed mod 44488) - 3399 * (Seed div 44488) = (word_of_int t :: 64 word)"
    unfolding md t_def by simp
  have st: "sint (word_of_int t :: 64 word) = t" using i(1,2) by (simp add: signed_of_int signed_take_bit_int_eq_self)
  have p: "uint (48271 * Seed) = 48271 * s" using s by (simp add: s_def uint_word_ariths)
  show u: "uint (direct_Random Seed) = (48271 * uint Seed) mod 2147483647"
    using p by (simp add: direct_Random_def uint_mod s_def)
  have "direct_Random Seed = word_of_int ((48271 * s) mod 2147483647)" using u by (metis s_def word_of_int_uint)
  then show "schrage_Random Seed = direct_Random Seed" using i(3) st by (simp add: schrage_Random_def T)
qed

section \<open>Witness and IsPrime\<close>

function Witness :: "int \<Rightarrow> int \<Rightarrow> int \<Rightarrow> int option" where
  "Witness A i N =
    (if i = 0 then Some 1
     else do {
       X \<leftarrow> Witness A (half i) N;
       if X = 0 then Some 0
       else do {
         s \<leftarrow> ck64 (X * X);
         Y \<leftarrow> (if N = 0 then None else Some (crem s N));
         if Y = 1 \<and> X \<noteq> 1 \<and> X \<noteq> N - 1 then Some 0
         else if crem i 2 \<noteq> 0 then do { p \<leftarrow> ck64 (A * Y); Some (crem p N) }
         else Some Y
       }
     })"
  by pat_completeness auto
termination by (relation "measure (\<lambda>(A, i, N). nat \<bar>i\<bar>)") (auto simp: half_def)

declare Witness.simps [simp del]

definition RandInt :: "int \<Rightarrow> int \<Rightarrow> int \<Rightarrow> int option" where
  \<comment> \<open>\<open>r\<close>: the value of \<open>rand()\<close>\<close>
  "RandInt r Low High = (if High - Low + 1 = 0 then None else Some (crem r (High - Low + 1) + Low))"

definition IsPrime :: "int \<Rightarrow> int \<Rightarrow> bool option" where
  "IsPrime r N = do { a \<leftarrow> RandInt r 2 (N - 2); w \<leftarrow> Witness a (N - 1) N; Some (w = 1) }"

text \<open>Fermat's little theorem.\<close>

lemma prm_not_dvd_small: "prm p \<Longrightarrow> 0 < k \<Longrightarrow> k < p \<Longrightarrow> \<not> p dvd k"
  using zdvd_not_zless by blast

lemma prm_dvd_choose:
  assumes p: "prm (int p)" and k: "0 < k" "k < p"
  shows "int p dvd int (p choose k)"
proof -
  have "k * (p choose k) = p * ((p - 1) choose (k - 1))" using times_binomial_minus1_eq [OF k(1)] .
  then have "int k * int (p choose k) = int p * int ((p - 1) choose (k - 1))" by (metis of_nat_mult)
  then have "int p dvd int k * int (p choose k)" by (metis dvd_triv_left)
  then have "int p dvd int k \<or> int p dvd int (p choose k)" by (rule prm_dvd_mult [OF p])
  moreover have "\<not> int p dvd int k" using k by (intro prm_not_dvd_small [OF p]) auto
  ultimately show ?thesis by blast
qed

lemma prm_dvd_power_succ:
  assumes p: "prm (int p)"
  shows "int p dvd (a + 1) ^ p - a ^ p - (1::int)"
proof -
  have p1: "1 < p" using p by (simp add: prm_def)
  have "{..p} = insert 0 (insert p {1..<p})" using p1 by auto
  then have "(\<Sum>k\<le>p. int (p choose k) * a ^ k) = 1 + a ^ p + (\<Sum>k\<in>{1..<p}. int (p choose k) * a ^ k)"
    using p1 by simp
  moreover have "(a + 1) ^ p = (\<Sum>k\<le>p. int (p choose k) * a ^ k)" using binomial_ring [of a 1 p] by simp
  moreover have "int p dvd (\<Sum>k\<in>{1..<p}. int (p choose k) * a ^ k)"
    by (rule dvd_sum) (use prm_dvd_choose [OF p] in auto)
  ultimately show ?thesis by simp
qed

lemma prm_dvd_power_diff:
  assumes p: "prm (int p)"
  shows "int p dvd int n ^ p - int n"
proof (induction n)
  case 0
  have "0 < p" using p by (simp add: prm_def)
  then show ?case by (simp add: zero_power)
next
  case (Suc n)
  have "int (Suc n) ^ p - int (Suc n) = ((int n + 1) ^ p - int n ^ p - 1) + (int n ^ p - int n)" by (simp add: add.commute)
  then show ?case using Suc prm_dvd_power_succ [OF p, of "int n"] by (simp only: dvd_add)
qed

lemma fermat:
  assumes N: "prm N" and a: "0 < a" "a < N"
  shows "a ^ nat (N - 1) mod N = 1"
proof -
  have N1: "1 < N" using N by (simp add: prm_def)
  have "N dvd a ^ nat N - a" using prm_dvd_power_diff [of "nat N" "nat a"] N N1 a by simp
  moreover have "a ^ nat N = a * a ^ nat (N - 1)"
    using N1 by (metis Suc_nat_eq_nat_zadd1 diff_add_cancel diff_ge_0_iff_ge less_le_not_le power_Suc add.commute)
  ultimately have "N dvd a * (a ^ nat (N - 1) - 1)" by (simp add: algebra_simps)
  then have "N dvd a ^ nat (N - 1) - 1" using prm_dvd_mult [OF N] prm_not_dvd_small [OF N a] by blast
  then have "a ^ nat (N - 1) mod N = 1 mod N" by (simp add: mod_eq_dvd_iff)
  then show ?thesis using N1 by simp
qed

lemma prm_root_of_one:
  assumes N: "prm N" and X: "0 < X" "X < N" "(X * X) mod N = 1"
  shows "X = 1 \<or> X = N - 1"
proof -
  have "N dvd X * X - 1" using X(3) by (metis mod_eq_dvd_iff mod_mod_trivial)
  then have "N dvd (X - 1) * (X + 1)" by (simp add: algebra_simps)
  then consider "N dvd X - 1" | "N dvd X + 1" using prm_dvd_mult [OF N] by blast
  then show ?thesis
  proof cases
    case 1
    then show ?thesis using X zdvd_not_zless [of "X - 1" N] by force
  next
    case 2
    then show ?thesis using X zdvd_imp_le [of N "X + 1"] by force
  qed
qed

lemma prm_power_mod_pos: "prm N \<Longrightarrow> 0 < a \<Longrightarrow> a < N \<Longrightarrow> 0 < a ^ n mod N"
proof (induction n)
  case 0
  then show ?case by (simp add: prm_def)
next
  case (Suc n)
  have "\<not> N dvd a ^ n" using Suc by (auto simp: dvd_eq_mod_eq_0)
  then have "\<not> N dvd a * a ^ n" using prm_dvd_mult prm_not_dvd_small Suc.prems by blast
  then have "a * a ^ n mod N \<noteq> 0" by (simp add: dvd_eq_mod_eq_0)
  moreover have "0 \<le> a * a ^ n mod N" using Suc.prems by simp
  ultimately show ?case by simp
qed

lemma ck64_prod: "0 \<le> x \<Longrightarrow> x < 2147483648 \<Longrightarrow> 0 \<le> y \<Longrightarrow> y < 2147483648 \<Longrightarrow> ck64 (x * y) = Some (x * y)"
proof -
  assume a: "0 \<le> x" "x < 2147483648" "0 \<le> y" "y < 2147483648"
  then have "x * y \<le> 2147483648 * 2147483648" by (intro mult_mono) auto
  moreover have "0 \<le> x * y" using a by simp
  ultimately show ?thesis by (simp add: ck64_def)
qed

lemma Witness_prime:
  assumes N: "prm N" "N < 2147483648" and a: "0 < a" "a < N"
  shows "0 \<le> i \<Longrightarrow> Witness a i N = Some (a ^ nat i mod N)"
proof (induction "nat i" arbitrary: i rule: less_induct)
  case less
  have N1: "1 < N" using N by (simp add: prm_def)
  show ?case
  proof (cases "i = 0")
    case True
    then show ?thesis using N1 by (subst Witness.simps) simp
  next
    case False
    define X where "X = a ^ nat (i div 2) mod N"
    have h: "half i = i div 2" using less.prems by (simp add: half_def)
    have W: "Witness a (half i) N = Some X" unfolding h X_def using less.hyps [of "i div 2"] less.prems False by simp
    have X: "0 < X" "X < N" using prm_power_mod_pos [OF N(1) a] N1 by (auto simp: X_def)
    define Y where "Y = X * X mod N"
    have Y: "0 \<le> Y" "Y < N" using N1 by (auto simp: Y_def)
    have s: "ck64 (X * X) = Some (X * X)" "ck64 (a * Y) = Some (a * Y)" using ck64_prod X Y a N(2) by auto
    have c: "crem (X * X) N = Y" "crem (a * Y) N = a * Y mod N" using X Y a N1 by (auto simp: crem_def Y_def)
    have no: "\<not> (Y = 1 \<and> X \<noteq> 1 \<and> X \<noteq> N - 1)" using prm_root_of_one [OF N(1) X] by (auto simp: Y_def)
    have "Y = (a ^ nat (i div 2) * a ^ nat (i div 2)) mod N" by (simp add: Y_def X_def mod_mult_eq)
    then have YY: "Y = a ^ (2 * nat (i div 2)) mod N" by (simp add: power_mult power2_eq_square power_mult_distrib)
    have "Witness a i N = Some (if i mod 2 \<noteq> 0 then a * Y mod N else Y)"
      using False W X s c no N1 less.prems by (subst Witness.simps) (auto simp: crem_def)
    moreover have "a ^ nat i mod N = (if i mod 2 \<noteq> 0 then a * Y mod N else Y)"
    proof (cases "i mod 2 = 0")
      case True
      then have "i = 2 * (i div 2)" by auto
      then have "nat i = nat 2 * nat (i div 2)" using less.prems nat_mult_distrib [of 2 "i div 2"] by simp
      then have "nat i = 2 * nat (i div 2)" by simp
      then show ?thesis using YY True by simp
    next
      case odd: False
      then have "i = 2 * (i div 2) + 1" by presburger
      then have "nat i = Suc (2 * nat (i div 2))" using less.prems by linarith
      then show ?thesis using YY odd by (simp add: mod_mult_right_eq)
    qed
    ultimately show ?thesis by simp
  qed
qed

lemma IsPrime_prime:
  assumes "prm N" "5 \<le> N" "N < 2147483648" "0 \<le> r"
  shows "IsPrime r N = Some True"
proof -
  define a where "a = r mod (N - 3) + 2"
  have "0 \<le> r mod (N - 3)" "r mod (N - 3) < N - 3" using assms by auto
  then have a: "0 < a" "a < N" by (auto simp: a_def)
  have "RandInt r 2 (N - 2) = Some a" using assms by (simp add: RandInt_def crem_def a_def)
  moreover have "Witness a (N - 1) N = Some 1" using Witness_prime [OF assms(1,3) a, of "N - 1"] fermat [OF assms(1) a] assms(2) by simp
  ultimately show ?thesis by (simp add: IsPrime_def)
qed

lemma Witness_total:
  assumes N: "1 < N" "N < 2147483648" and a: "0 \<le> a" "a < N"
  shows "0 \<le> i \<Longrightarrow> \<exists>w. Witness a i N = Some w \<and> 0 \<le> w \<and> w < N"
proof (induction "nat i" arbitrary: i rule: less_induct)
  case less
  show ?case
  proof (cases "i = 0")
    case True
    then show ?thesis using N by (subst Witness.simps) simp
  next
    case False
    have h: "half i = i div 2" "0 \<le> i div 2" "nat (i div 2) < nat i" using less.prems False by (auto simp: half_def)
    obtain X where X: "Witness a (half i) N = Some X" "0 \<le> X" "X < N"
      using less.hyps [OF h(3,2)] h(1) by auto
    define Y where "Y = X * X mod N"
    have Y: "0 \<le> Y" "Y < N" using N by (auto simp: Y_def)
    have s: "ck64 (X * X) = Some (X * X)" "ck64 (a * Y) = Some (a * Y)" using ck64_prod X Y a N(2) by auto
    have c: "crem (X * X) N = Y" "crem (a * Y) N = a * Y mod N" using X Y a N by (auto simp: crem_def Y_def)
    have "0 \<le> a * Y mod N" "a * Y mod N < N" using N by auto
    then show ?thesis using False X Y s c N by (subst Witness.simps) auto
  qed
qed

lemma IsPrime_total:
  assumes "5 \<le> N" "N < 2147483648" "0 \<le> r"
  shows "\<exists>b. IsPrime r N = Some b"
proof -
  have "0 \<le> r mod (N - 3)" "r mod (N - 3) < N - 3" using assms by auto
  then have "0 \<le> r mod (N - 3) + 2" "r mod (N - 3) + 2 < N" "1 < N" "0 \<le> N - 1" using assms(1) by linarith+
  then have "\<exists>w. Witness (r mod (N - 3) + 2) (N - 1) N = Some w" using Witness_total [of N "r mod (N - 3) + 2" "N - 1"] assms(2) by blast
  then show ?thesis using assms by (auto simp: IsPrime_def RandInt_def crem_def)
qed

section \<open>Theorems\<close>

text \<open>For every seed between 1 and \<open>M - 1\<close> the generator with Schrage's method and the
  direct one step to the same next seed, \<open>A * Seed mod M\<close>, which is again between 1 and
  \<open>M - 1\<close>: neither the wrap-around of the unsigned difference nor its conversion to
  \<open>long\<close> shows.\<close>

theorem Random_equivalence:
  assumes "0 < Seed" "Seed < 2147483647"
  shows "schrage_Random Seed = direct_Random Seed \<and> uint (direct_Random Seed) = (48271 * uint Seed) mod 2147483647 \<and>
    0 < direct_Random Seed \<and> direct_Random Seed < 2147483647"
proof -
  have "0 < uint Seed" "uint Seed < 2147483647" using assms by (auto simp: word_less_def)
  then have "0 < (48271 * uint Seed) mod 2147483647" using schrage_int(4) [of "uint Seed"] by (simp add: order_less_le)
  then show ?thesis using schrage_word [OF assms] by (auto simp: word_less_def)
qed

theorem Random_equivalence_witness:
  "schrage_Random 1 = direct_Random 1 \<and> uint (direct_Random 1) = 48271"
  using Random_equivalence [of 1] by (simp add: word_less_def)

text \<open>The primality test never rejects a prime: for a prime \<open>N\<close> below \<open>2^31\<close>
  and whatever \<open>rand()\<close> returns, \<open>IsPrime\<close> returns 1 and no product overflows. So an
  answer 0 means that \<open>N\<close> is composite, as the comment says.\<close>

theorem IsPrime_accepts_primes:
  assumes "prm N" "5 \<le> N" "N < 2147483648" "0 \<le> r"
  shows "IsPrime r N = Some True"
  by (rule IsPrime_prime [OF assms])

theorem IsPrime_accepts_primes_witness: "IsPrime 1000 11 = Some True"
  using IsPrime_accepts_primes [of 11 1000] prm_11 by simp

end
