(* ===== verification/Loops.thy ===== *)
theory Loops
  imports CBase
begin

text \<open>
  Counting loops with checked bodies and two-dimensional arrays, shared by the matrix and dynamic
  programming routines. \<open>for_up a b f s\<close> is \<open>for( i = a; i < b; i++ ) s = f( i, s )\<close>;
  \<open>for_up_rule\<close> is its proof rule: an invariant indexed by the loop counter.
\<close>

function for_up :: "int \<Rightarrow> int \<Rightarrow> (int \<Rightarrow> 's \<Rightarrow> 's option) \<Rightarrow> 's \<Rightarrow> 's option" where
  "for_up a b f s = (if a < b then do { s' \<leftarrow> f a s; for_up (a + 1) b f s' } else Some s)"
  by pat_completeness auto
termination by (relation "measure (\<lambda>(a, b, f, s). nat (b - a))") auto

declare for_up.simps [simp del]

lemma for_up_rule:
  assumes "a \<le> b" "P a s" "\<And>i s. a \<le> i \<Longrightarrow> i < b \<Longrightarrow> P i s \<Longrightarrow> \<exists>s'. f i s = Some s' \<and> P (i + 1) s'"
  shows "\<exists>s'. for_up a b f s = Some s' \<and> P b s'"
  using assms
proof (induction "nat (b - a)" arbitrary: a s)
  case 0
  then have "a = b" by simp
  then show ?case using 0 by (subst for_up.simps) simp
next
  case (Suc n)
  then have ab: "a < b" by linarith
  then obtain s' where s': "f a s = Some s'" "P (a + 1) s'" using Suc.prems(3) [of a s] Suc.prems(2) by auto
  have "\<exists>s''. for_up (a + 1) b f s' = Some s'' \<and> P b s''"
    using Suc.hyps(1) [of "a + 1" s'] Suc.hyps(2) s'(2) ab Suc.prems(3) by simp
  then show ?case using s'(1) ab by (subst for_up.simps) simp
qed

lemma for_up_empty: "b \<le> a \<Longrightarrow> for_up a b f s = Some s"
  by (subst for_up.simps) simp

text \<open>Two-dimensional arrays.\<close>

type_synonym 'a mat = "'a list list"

definition mget :: "'a mat \<Rightarrow> int \<Rightarrow> int \<Rightarrow> 'a option" where
  "mget M i j = do { r \<leftarrow> aget M i; aget r j }"

definition mput :: "'a mat \<Rightarrow> int \<Rightarrow> int \<Rightarrow> 'a \<Rightarrow> 'a mat option" where
  "mput M i j v = do { r \<leftarrow> aget M i; r' \<leftarrow> aput r j v; aput M i r' }"

definition me :: "'a mat \<Rightarrow> int \<Rightarrow> int \<Rightarrow> 'a" where
  "me M i j = elt (elt M i) j"

definition mupd :: "'a mat \<Rightarrow> int \<Rightarrow> int \<Rightarrow> 'a \<Rightarrow> 'a mat" where
  "mupd M i j v = upd M i (upd (elt M i) j v)"

definition dims :: "'a mat \<Rightarrow> int \<Rightarrow> int \<Rightarrow> bool" where
  "dims M m n \<longleftrightarrow> len M = m \<and> (\<forall>i. 0 \<le> i \<and> i < m \<longrightarrow> len (elt M i) = n)"

lemma mget_ok [simp]: "dims M m n \<Longrightarrow> 0 \<le> i \<Longrightarrow> i < m \<Longrightarrow> 0 \<le> j \<Longrightarrow> j < n \<Longrightarrow> mget M i j = Some (me M i j)"
  by (simp add: mget_def me_def dims_def inb_def)

lemma mput_ok [simp]: "dims M m n \<Longrightarrow> 0 \<le> i \<Longrightarrow> i < m \<Longrightarrow> 0 \<le> j \<Longrightarrow> j < n \<Longrightarrow> mput M i j v = Some (mupd M i j v)"
  by (simp add: mput_def mupd_def dims_def inb_def)

lemma dims_mupd [simp]: "dims M m n \<Longrightarrow> 0 \<le> i \<Longrightarrow> i < m \<Longrightarrow> dims (mupd M i j v) m n"
  by (auto simp: dims_def mupd_def elt_upd inb_def)

lemma me_mupd:
  "dims M m n \<Longrightarrow> 0 \<le> i \<Longrightarrow> i < m \<Longrightarrow> 0 \<le> j \<Longrightarrow> j < n \<Longrightarrow> 0 \<le> i' \<Longrightarrow> 0 \<le> j' \<Longrightarrow>
     me (mupd M i j v) i' j' = (if i' = i \<and> j' = j then v else me M i' j')"
  by (auto simp: dims_def mupd_def me_def elt_upd inb_def)

definition before :: "int \<Rightarrow> int \<Rightarrow> int \<Rightarrow> int \<Rightarrow> bool" where
  \<comment> \<open>the nested loops have passed \<open>(i', j')\<close> when they are at \<open>(i, j)\<close>\<close>
  "before i j i' j' \<longleftrightarrow> i' < i \<or> (i' = i \<and> j' < j)"

lemma before_step: "before i (j + 1) x y \<longleftrightarrow> before i j x y \<or> (x = i \<and> y = j)"
  by (auto simp: before_def)

lemma before_row: "0 \<le> y \<Longrightarrow> y < N \<Longrightarrow> before (i + 1) 0 x y \<longleftrightarrow> before i N x y"
  by (auto simp: before_def)

lemma before_first: "0 \<le> x \<Longrightarrow> 0 \<le> y \<Longrightarrow> \<not> before 0 0 x y"
  by (auto simp: before_def)

lemma before_all: "x < N \<Longrightarrow> before N 0 x y"
  by (auto simp: before_def)

end
