(* ===== verification/DynProg.thy ===== *)
theory DynProg
  imports Loops IntroAlgos
begin

text \<open>
  The dynamic programming routines of chapter 10 under \<^verbatim>\<open>src/DSAAC\<close>: \<^verbatim>\<open>fig10_40.c\<close>
  (Fibonacci numbers), \<^verbatim>\<open>fig10_43.c\<close> and \<^verbatim>\<open>fig10_45.c\<close> (a recurrence, recursively and with
  a table), \<^verbatim>\<open>fig10_38.c\<close> (matrix multiplication). The routines on \<open>double\<close> take the floating point operations as
  a parameter, of which nothing is assumed: what is proved holds for every rounding.
\<close>

section \<open>fig10_40.c\<close>

function Fib :: "int \<Rightarrow> int option" where
  "Fib N = (if N \<le> 1 then Some 1 else do { a \<leftarrow> Fib (N - 1); b \<leftarrow> Fib (N - 2); ck (a + b) })"
  by pat_completeness auto
termination by (relation "measure nat") auto

function fibonacci_loop :: "int \<Rightarrow> int \<Rightarrow> int \<Rightarrow> int \<Rightarrow> int option \<Rightarrow> int option" where
  \<comment> \<open>the last argument is \<open>Answer\<close>, not yet assigned at first\<close>
  "fibonacci_loop N i Last NextToLast Answer =
    (if i \<le> N then do { s \<leftarrow> ck (Last + NextToLast); fibonacci_loop N (i + 1) s Last (Some s) }
     else Answer)"
  by pat_completeness auto
termination by (relation "measure (\<lambda>(N, i, l, n, a). nat (N + 1 - i))") auto

declare Fib.simps [simp del] fibonacci_loop.simps [simp del]

definition Fibonacci :: "int \<Rightarrow> int option" where
  "Fibonacci N = (if N \<le> 1 then Some 1 else fibonacci_loop N 2 1 1 None)"

fun fibs :: "nat \<Rightarrow> int" where
  "fibs 0 = 1"
| "fibs (Suc 0) = 1"
| "fibs (Suc (Suc n)) = fibs (Suc n) + fibs n"

lemma fibs_pos: "1 \<le> fibs n"
  by (induction n rule: fibs.induct) auto

lemma fibs_mono: "fibs n \<le> fibs (Suc n)"
  using fibs_pos by (cases n) (auto simp: order_trans [OF zero_le_one])

lemma Fib_fibs: "Fib (int n) = (if fibs n \<le> INT_MAX then Some (fibs n) else None)"
proof (induction n rule: fibs.induct)
  case (3 n)
  have "Fib (int (Suc (Suc n))) = do { a \<leftarrow> Fib (int (Suc n)); b \<leftarrow> Fib (int n); ck (a + b) }"
    by (subst Fib.simps) simp
  also have "\<dots> = (if fibs (Suc (Suc n)) \<le> INT_MAX then Some (fibs (Suc (Suc n))) else None)"
    using fibs_pos [of n] fibs_pos [of "Suc n"] unfolding 3 by (auto simp: ck_def)
  finally show ?case .
qed (subst Fib.simps; simp)+

lemma fibonacci_loop_fibs:
  "fibs (Suc k) \<le> INT_MAX \<Longrightarrow> fibonacci_loop (int (Suc k + m)) (int k + 2) (fibs (Suc k)) (fibs k) a =
     (if m = 0 then a else if fibs (Suc k + m) \<le> INT_MAX then Some (fibs (Suc k + m)) else None)"
proof (induction m arbitrary: k a)
  case 0
  show ?case by (subst fibonacci_loop.simps) simp
next
  case (Suc m)
  have mono: "fibs (Suc (Suc k)) \<le> fibs (Suc (Suc k) + m)"
    by (rule lift_Suc_mono_le [of fibs, OF fibs_mono]) simp
  show ?case
  proof (cases "fibs (Suc (Suc k)) \<le> INT_MAX")
    case True
    then have "ck (fibs (Suc k) + fibs k) = Some (fibs (Suc (Suc k)))"
      using fibs_pos [of "Suc k"] fibs_pos [of k] by (simp add: ck_def)
    then have "fibonacci_loop (int (Suc k + Suc m)) (int k + 2) (fibs (Suc k)) (fibs k) a =
        fibonacci_loop (int (Suc (Suc k) + m)) (int (Suc k) + 2) (fibs (Suc (Suc k))) (fibs (Suc k)) (Some (fibs (Suc (Suc k))))"
      by (subst fibonacci_loop.simps) (simp add: algebra_simps)
    then show ?thesis using Suc.IH [of "Suc k"] True by simp
  next
    case False
    then have "ck (fibs (Suc k) + fibs k) = None" by (simp add: ck_def)
    then have "fibonacci_loop (int (Suc k + Suc m)) (int k + 2) (fibs (Suc k)) (fibs k) a = None"
      by (subst fibonacci_loop.simps) simp
    then show ?thesis using False mono by simp
  qed
qed

lemma Fib_Fibonacci: "Fib N = Fibonacci N"
proof (cases "N \<le> 1")
  case True
  then show ?thesis by (subst Fib.simps) (simp add: Fibonacci_def)
next
  case False
  define m where "m = nat (N - 1)"
  have m: "N = int (Suc m)" "m \<noteq> 0" using False by (auto simp: m_def)
  have "Fibonacci N = fibonacci_loop (int (Suc 0 + m)) (int 0 + 2) (fibs (Suc 0)) (fibs 0) None"
    using False m by (simp add: Fibonacci_def)
  then show ?thesis using fibonacci_loop_fibs [of 0 m None] Fib_fibs [of "Suc m"] m by simp
qed

section \<open>fig10_43.c and fig10_45.c\<close>

record 'd fops =
  fadd :: "'d \<Rightarrow> 'd \<Rightarrow> 'd"
  fmul :: "'d \<Rightarrow> 'd \<Rightarrow> 'd"
  fdiv :: "'d \<Rightarrow> 'd \<Rightarrow> 'd"
  fint :: "int \<Rightarrow> 'd"   \<comment> \<open>conversion, also for the constants 0.0, 1.0 and 2.0\<close>

definition eval_step :: "'d fops \<Rightarrow> int \<Rightarrow> 'd \<Rightarrow> 'd" where
  \<comment> \<open>\<open>2.0 * Tot / N + N\<close>\<close>
  "eval_step fo N Tot = fadd fo (fdiv fo (fmul fo (fint fo 2) Tot) (fint fo N)) (fint fo N)"

function Eval :: "'d fops \<Rightarrow> int \<Rightarrow> 'd" where
  \<comment> \<open>\<^verbatim>\<open>fig10_43.c\<close>\<close>
  "Eval fo N =
    (if N = 0 then fint fo 1
     else eval_step fo N (foldl (\<lambda>Tot i. fadd fo Tot (Eval fo i)) (fint fo 0) [0..N - 1]))"
  by pat_completeness auto
termination by (relation "measure (\<lambda>(fo, N). nat N)") auto

declare Eval.simps [simp del]

definition eval_body :: "'d fops \<Rightarrow> int \<Rightarrow> 'd list \<Rightarrow> 'd list option" where
  "eval_body fo i C =
    do {
      Tot \<leftarrow> for_up 0 i (\<lambda>j s. do { c \<leftarrow> aget C j; Some (fadd fo s c) }) (fint fo 0);
      aput C i (eval_step fo i Tot)
    }"

definition Eval_table :: "bool \<Rightarrow> (int \<Rightarrow> 'd) \<Rightarrow> 'd fops \<Rightarrow> int \<Rightarrow> 'd res" where
  \<comment> \<open>\<^verbatim>\<open>fig10_45.c\<close>\<close>
  "Eval_table ok g fo N =
    (if \<not> ok then Inl (FatalError ''Out of space!!!'')
     else (case do {
         C \<leftarrow> aput (malloc_cells g (N + 1)) 0 (fint fo 1);
         C \<leftarrow> for_up 1 (N + 1) (eval_body fo) C;
         aget C N
       } of None \<Rightarrow> Inl BadAccess | Some v \<Rightarrow> Inr v))"

lemma upto_snoc: "0 \<le> j \<Longrightarrow> [0..j] = [0..j - 1] @ [j]"
  by (simp add: upto_rec2)

lemma eval_body_ok:
  assumes C: "len C = N + 1" "0 < i" "i \<le> N" "\<And>j. 0 \<le> j \<Longrightarrow> j < i \<Longrightarrow> elt C j = Eval fo j"
  shows "eval_body fo i C = Some (upd C i (Eval fo i))"
proof -
  have "\<exists>s. for_up 0 i (\<lambda>j s. do { c \<leftarrow> aget C j; Some (fadd fo s c) }) (fint fo 0) = Some s \<and>
      s = foldl (\<lambda>s j. fadd fo s (Eval fo j)) (fint fo 0) [0..i - 1]"
  proof (rule for_up_rule [where P = "\<lambda>j s. s = foldl (\<lambda>s j. fadd fo s (Eval fo j)) (fint fo 0) [0..j - 1]"])
    fix j s assume j: "0 \<le> j" "j < i" and s: "s = foldl (\<lambda>s j. fadd fo s (Eval fo j)) (fint fo 0) [0..j - 1]"
    have "inb C j" using j C by (auto simp: inb_def)
    then show "\<exists>s'. do { c \<leftarrow> aget C j; Some (fadd fo s c) } = Some s' \<and>
        s' = foldl (\<lambda>s j. fadd fo s (Eval fo j)) (fint fo 0) [0..j + 1 - 1]"
      using s C(4) [OF j] upto_snoc [OF j(1)] by simp
  qed (use C(2) in auto)
  moreover have "Eval fo i = eval_step fo i (foldl (\<lambda>s j. fadd fo s (Eval fo j)) (fint fo 0) [0..i - 1])"
    using C(2) by (subst Eval.simps) simp
  moreover have "inb C i" using C by (auto simp: inb_def)
  ultimately show ?thesis by (simp add: eval_body_def)
qed

lemma Eval_table_Eval:
  assumes "0 \<le> N"
  shows "Eval_table True g fo N = Inr (Eval fo N)"
proof -
  let ?C = "upd (malloc_cells g (N + 1)) 0 (fint fo 1)"
  have l: "inb (malloc_cells g (N + 1)) 0" "len ?C = N + 1" using assms by (auto simp: inb_def)
  have E0: "Eval fo 0 = fint fo 1" by (subst Eval.simps) simp
  have "\<exists>C. for_up 1 (N + 1) (eval_body fo) ?C = Some C \<and> (len C = N + 1 \<and> (\<forall>j. 0 \<le> j \<and> j < N + 1 \<longrightarrow> elt C j = Eval fo j))"
  proof (rule for_up_rule [where P = "\<lambda>i C. len C = N + 1 \<and> (\<forall>j. 0 \<le> j \<and> j < i \<longrightarrow> elt C j = Eval fo j)"])
    show "len ?C = N + 1 \<and> (\<forall>j. 0 \<le> j \<and> j < 1 \<longrightarrow> elt ?C j = Eval fo j)"
    proof (intro conjI allI impI)
      fix j :: int assume "0 \<le> j \<and> j < 1"
      then have "j = 0" by linarith
      then show "elt ?C j = Eval fo j" using l E0 by simp
    qed (rule l(2))
    fix i C assume i: "1 \<le> i" "i < N + 1" and C: "len C = N + 1 \<and> (\<forall>j. 0 \<le> j \<and> j < i \<longrightarrow> elt C j = Eval fo j)"
    then have "eval_body fo i C = Some (upd C i (Eval fo i))" by (intro eval_body_ok) auto
    moreover have "inb C i" using i C by (auto simp: inb_def)
    ultimately show "\<exists>C'. eval_body fo i C = Some C' \<and> (len C' = N + 1 \<and> (\<forall>j. 0 \<le> j \<and> j < i + 1 \<longrightarrow> elt C' j = Eval fo j))"
      using C by (auto simp: elt_upd)
  qed (use assms in auto)
  then obtain C where C: "for_up 1 (N + 1) (eval_body fo) ?C = Some C" "len C = N + 1" "elt C N = Eval fo N" using assms by auto
  then have "aget C N = Some (Eval fo N)" using assms by (simp add: inb_def)
  then show ?thesis using l C(1) by (simp add: Eval_table_def)
qed

section \<open>fig10_38.c\<close>

definition MatrixMultiply :: "'d fops \<Rightarrow> 'd mat \<Rightarrow> 'd mat \<Rightarrow> 'd mat \<Rightarrow> int \<Rightarrow> 'd mat option" where
  \<comment> \<open>for a result array \<open>C\<close> that is neither \<open>A\<close> nor \<open>B\<close>\<close>
  "MatrixMultiply fo A B C N =
    do {
      C \<leftarrow> for_up 0 N (\<lambda>i. for_up 0 N (\<lambda>j C. mput C i j (fint fo 0))) C;
      for_up 0 N (\<lambda>i. for_up 0 N (\<lambda>j. for_up 0 N (\<lambda>k C. do {
        c \<leftarrow> mget C i j; a \<leftarrow> mget A i k; b \<leftarrow> mget B k j;
        mput C i j (fadd fo c (fmul fo a b))
      }))) C
    }"

definition dot :: "'d fops \<Rightarrow> 'd mat \<Rightarrow> 'd mat \<Rightarrow> int \<Rightarrow> int \<Rightarrow> int \<Rightarrow> 'd" where
  "dot fo A B i j n = foldl (\<lambda>s k. fadd fo s (fmul fo (me A i k) (me B k j))) (fint fo 0) [0..n - 1]"

lemma mat_zero:
  assumes "dims C N N" "0 \<le> N"
  shows "\<exists>C'. for_up 0 N (\<lambda>i. for_up 0 N (\<lambda>j C. mput C i j z)) C = Some C' \<and>
    (dims C' N N \<and> (\<forall>i j. 0 \<le> i \<and> i < N \<and> 0 \<le> j \<and> j < N \<longrightarrow> me C' i j = z))"
proof (rule for_up_rule [where P = "\<lambda>i C. dims C N N \<and> (\<forall>i' j. 0 \<le> i' \<and> i' < i \<and> 0 \<le> j \<and> j < N \<longrightarrow> me C i' j = z)"])
  fix i C assume i: "0 \<le> i" "i < N" and C: "dims C N N \<and> (\<forall>i' j. 0 \<le> i' \<and> i' < i \<and> 0 \<le> j \<and> j < N \<longrightarrow> me C i' j = z)"
  have "\<exists>C'. for_up 0 N (\<lambda>j C. mput C i j z) C = Some C' \<and>
      (dims C' N N \<and> (\<forall>i' j'. 0 \<le> i' \<and> 0 \<le> j' \<and> j' < N \<and> before i N i' j' \<longrightarrow> me C' i' j' = z))"
  proof (rule for_up_rule [where P = "\<lambda>j C. dims C N N \<and> (\<forall>i' j'. 0 \<le> i' \<and> 0 \<le> j' \<and> j' < N \<and> before i j i' j' \<longrightarrow> me C i' j' = z)"])
    fix j C assume "0 \<le> j" "j < N" "dims C N N \<and> (\<forall>i' j'. 0 \<le> i' \<and> 0 \<le> j' \<and> j' < N \<and> before i j i' j' \<longrightarrow> me C i' j' = z)"
    then show "\<exists>C'. mput C i j z = Some C' \<and> (dims C' N N \<and> (\<forall>i' j'. 0 \<le> i' \<and> 0 \<le> j' \<and> j' < N \<and> before i (j + 1) i' j' \<longrightarrow> me C' i' j' = z))"
      using i by (auto simp: me_mupd before_def)
  qed (use C assms in \<open>auto simp: before_def\<close>)
  then show "\<exists>C'. for_up 0 N (\<lambda>j C. mput C i j z) C = Some C' \<and>
      (dims C' N N \<and> (\<forall>i' j. 0 \<le> i' \<and> i' < i + 1 \<and> 0 \<le> j \<and> j < N \<longrightarrow> me C' i' j = z))"
    by (simp add: before_def) (metis order_le_less)
qed (use assms in auto)

definition mm_inv :: "'d fops \<Rightarrow> 'd mat \<Rightarrow> 'd mat \<Rightarrow> int \<Rightarrow> int \<Rightarrow> int \<Rightarrow> int \<Rightarrow> 'd mat \<Rightarrow> bool" where
  \<comment> \<open>the products done when the loops are at \<open>(i, j, k)\<close>\<close>
  "mm_inv fo A B N i j k C \<longleftrightarrow> dims C N N \<and>
     (\<forall>i' j'. 0 \<le> i' \<and> i' < N \<and> 0 \<le> j' \<and> j' < N \<longrightarrow>
        me C i' j' = dot fo A B i' j' (if before i j i' j' then N else if i' = i \<and> j' = j then k else 0))"

lemma mm_inv_step:
  assumes "mm_inv fo A B N i j k C" "dims A N N" "dims B N N" "0 \<le> i" "i < N" "0 \<le> j" "j < N" "0 \<le> k" "k < N"
  shows "\<exists>C'. do { c \<leftarrow> mget C i j; a \<leftarrow> mget A i k; b \<leftarrow> mget B k j; mput C i j (fadd fo c (fmul fo a b)) } = Some C' \<and>
    mm_inv fo A B N i j (k + 1) C'"
proof -
  have d: "dims C N N" using assms(1) by (simp add: mm_inv_def)
  have c: "me C i j = dot fo A B i j k" using assms by (simp add: mm_inv_def before_def)
  have "dot fo A B i j (k + 1) = fadd fo (dot fo A B i j k) (fmul fo (me A i k) (me B k j))"
    using upto_snoc [OF assms(8)] by (simp add: dot_def)
  then have "mm_inv fo A B N i j (k + 1) (mupd C i j (fadd fo (me C i j) (fmul fo (me A i k) (me B k j))))"
    using assms d c unfolding mm_inv_def by (auto simp: me_mupd before_def)
  then show ?thesis using assms d by simp
qed

lemma mm_inv_next:
  "mm_inv fo A B N i j N C \<Longrightarrow> mm_inv fo A B N i (j + 1) 0 C"
  "mm_inv fo A B N i N 0 C \<Longrightarrow> mm_inv fo A B N (i + 1) 0 0 C"
proof -
  assume a: "mm_inv fo A B N i j N C"
  have "(if before i j i' j' then N else if i' = i \<and> j' = j then N else 0) =
      (if before i (j + 1) i' j' then N else if i' = i \<and> j' = j + 1 then 0 else 0)" for i' j' by (auto simp: before_def)
  then show "mm_inv fo A B N i (j + 1) 0 C" using a by (simp add: mm_inv_def)
next
  assume a: "mm_inv fo A B N i N 0 C"
  have "(if before i N i' j' then N else if i' = i \<and> j' = N then 0 else 0) =
      (if before (i + 1) 0 i' j' then N else if i' = i + 1 \<and> j' = 0 then 0 else 0)" if "0 \<le> j'" "j' < N" for i' j'
    using that by (auto simp: before_def)
  then show "mm_inv fo A B N (i + 1) 0 0 C" using a unfolding mm_inv_def by simp
qed

lemma MatrixMultiply_ok:
  assumes "dims A N N" "dims B N N" "dims C N N" "0 \<le> N"
  shows "\<exists>C'. MatrixMultiply fo A B C N = Some C' \<and> dims C' N N \<and>
    (\<forall>i j. 0 \<le> i \<and> i < N \<and> 0 \<le> j \<and> j < N \<longrightarrow> me C' i j = dot fo A B i j N)"
proof -
  obtain C0 where C0: "for_up 0 N (\<lambda>i. for_up 0 N (\<lambda>j C. mput C i j (fint fo 0))) C = Some C0" "dims C0 N N"
      "\<forall>i j. 0 \<le> i \<and> i < N \<and> 0 \<le> j \<and> j < N \<longrightarrow> me C0 i j = fint fo 0" using mat_zero [OF assms(3,4)] by blast
  let ?k = "\<lambda>i j k C. do { c \<leftarrow> mget C i j; a \<leftarrow> mget A i k; b \<leftarrow> mget B k j; mput C i j (fadd fo c (fmul fo a b)) }"
  have "\<exists>C'. for_up 0 N (\<lambda>i. for_up 0 N (\<lambda>j. for_up 0 N (?k i j))) C0 = Some C' \<and> mm_inv fo A B N N 0 0 C'"
  proof (rule for_up_rule [where P = "\<lambda>i. mm_inv fo A B N i 0 0"])
    show "mm_inv fo A B N 0 0 0 C0" using C0(2,3) by (auto simp: mm_inv_def before_def dot_def)
    fix i C assume i: "0 \<le> i" "i < N" "mm_inv fo A B N i 0 0 C"
    have "\<exists>C'. for_up 0 N (\<lambda>j. for_up 0 N (?k i j)) C = Some C' \<and> mm_inv fo A B N i N 0 C'"
    proof (rule for_up_rule [where P = "\<lambda>j. mm_inv fo A B N i j 0"])
      fix j C assume j: "0 \<le> j" "j < N" "mm_inv fo A B N i j 0 C"
      have "\<exists>C'. for_up 0 N (?k i j) C = Some C' \<and> mm_inv fo A B N i j N C'"
        by (rule for_up_rule [where P = "mm_inv fo A B N i j"], rule assms(4), rule j(3))
          (rule mm_inv_step [OF _ assms(1,2) i(1,2) j(1,2)])
      then show "\<exists>C'. for_up 0 N (?k i j) C = Some C' \<and> mm_inv fo A B N i (j + 1) 0 C'" using mm_inv_next(1) by blast
    qed (use i assms in auto)
    then show "\<exists>C'. for_up 0 N (\<lambda>j. for_up 0 N (?k i j)) C = Some C' \<and> mm_inv fo A B N (i + 1) 0 0 C'" using mm_inv_next(2) by blast
  qed (use assms in auto)
  then obtain C' where "for_up 0 N (\<lambda>i. for_up 0 N (\<lambda>j. for_up 0 N (?k i j))) C0 = Some C'" "mm_inv fo A B N N 0 0 C'" by blast
  then show ?thesis using C0(1) by (simp add: MatrixMultiply_def mm_inv_def before_def)
qed

section \<open>Theorems\<close>

text \<open>The table versions return what the recursive ones return: \<open>Fibonacci\<close> and
  \<open>Fib\<close> agree for every argument, overflow included, and the evaluation of the recurrence
  with a table gives the very same \<open>double\<close> as the recursion, whatever the floating point
  operations are.\<close>

theorem DynProg_tables:
  "Fib N = Fibonacci N \<and> (0 \<le> K \<longrightarrow> Eval_table True g fo K = Inr (Eval fo K))"
  using Fib_Fibonacci Eval_table_Eval by blast

theorem DynProg_tables_witness:
  "Fib 7 = Fibonacci 7 \<and>
   Eval_table True (\<lambda>_. 0) \<lparr>fadd = (+), fmul = (*), fdiv = (div), fint = (\<lambda>i. i)\<rparr> 10 =
     Inr (Eval \<lparr>fadd = (+), fmul = (*), fdiv = (div), fint = (\<lambda>i. i :: int)\<rparr> 10)"
  using DynProg_tables [of 7 10 "\<lambda>_. 0" "\<lparr>fadd = (+), fmul = (*), fdiv = (div), fint = (\<lambda>i. i :: int)\<rparr>"] by simp

text \<open>\<open>MatrixMultiply\<close> stores at \<open>(i, j)\<close> the sum of products of row
  \<open>i\<close> and column \<open>j\<close>, added up from left to right, whatever \<open>C\<close> held
  before; all accesses are in bounds.\<close>

theorem MatrixMultiply_product:
  assumes "dims A N N" "dims B N N" "dims C N N" "0 \<le> N"
  shows "\<exists>C'. MatrixMultiply fo A B C N = Some C' \<and> dims C' N N \<and>
    (\<forall>i j. 0 \<le> i \<and> i < N \<and> 0 \<le> j \<and> j < N \<longrightarrow> me C' i j = dot fo A B i j N)"
  by (rule MatrixMultiply_ok [OF assms])

theorem MatrixMultiply_product_witness:
  "\<exists>C'. MatrixMultiply \<lparr>fadd = (+), fmul = (*), fdiv = (div), fint = (\<lambda>i. i :: int)\<rparr> [[5]] [[6]] [[0]] 1 = Some C'"
proof -
  have "dims [[x]] 1 1" for x :: int by (auto simp: dims_def elt_def)
  then show ?thesis
    using MatrixMultiply_product [of "[[5]]" 1 "[[6]]" "[[0]]" "\<lparr>fadd = (+), fmul = (*), fdiv = (div), fint = (\<lambda>i. i :: int)\<rparr>"]
    by auto
qed

end
