(* ===== verification/OptMatrix.thy ===== *)
theory OptMatrix
  imports Loops IntroAlgos
begin

text \<open>
  \<^verbatim>\<open>src/DSAAC/fig10_46.c\<close>: the optimal order of a sequence of matrix multiplications, by
  dynamic programming over the intervals of matrices. The arithmetic is that of \<open>long\<close>,
  checked; the arrays are accessed with checks.
\<close>

section \<open>The routine\<close>

definition opt_Infinity :: int where "opt_Infinity = INT_MAX"

definition opt_try :: "int list \<Rightarrow> int \<Rightarrow> int \<Rightarrow> int \<Rightarrow> int mat \<times> int mat \<Rightarrow> (int mat \<times> int mat) option" where
  \<comment> \<open>the body of the innermost loop: the last multiplication after matrix \<open>i\<close>\<close>
  "opt_try C Lo Hi i s =
    (let (M, LastChange) = s in do {
      a \<leftarrow> mget M Lo i; b \<leftarrow> mget M (i + 1) Hi;
      c0 \<leftarrow> aget C (Lo - 1); ci \<leftarrow> aget C i; cr \<leftarrow> aget C Hi;
      ab \<leftarrow> ck64 (a + b); p \<leftarrow> ck64 (c0 * ci); q \<leftarrow> ck64 (p * cr);
      ThisM \<leftarrow> ck64 (ab + q);
      m \<leftarrow> mget M Lo Hi;
      if ThisM < m then do { M \<leftarrow> mput M Lo Hi ThisM; LC \<leftarrow> mput LastChange Lo Hi i; Some (M, LC) }
      else Some (M, LastChange)
    })"

definition opt_interval :: "int list \<Rightarrow> int \<Rightarrow> int \<Rightarrow> int mat \<times> int mat \<Rightarrow> (int mat \<times> int mat) option" where
  "opt_interval C k Lo s =
    (let (M, LastChange) = s; Hi = Lo + k in do {
      M \<leftarrow> mput M Lo Hi opt_Infinity;
      for_up Lo Hi (opt_try C Lo Hi) (M, LastChange)
    })"

definition OptMatrix :: "int list \<Rightarrow> int \<Rightarrow> int mat \<Rightarrow> int mat \<Rightarrow> (int mat \<times> int mat) option" where
  "OptMatrix C N M LastChange =
    do {
      M \<leftarrow> for_up 1 (N + 1) (\<lambda>Lo M. mput M Lo Lo 0) M;
      for_up 1 N (\<lambda>k. for_up 1 (N - k + 1) (opt_interval C k)) (M, LastChange)
    }"

section \<open>Specification\<close>

text \<open>\<open>cost c l r v\<close>: some order of multiplying the matrices \<open>l..r\<close> takes
  \<open>v\<close> scalar multiplications.\<close>

inductive cost :: "(int \<Rightarrow> int) \<Rightarrow> int \<Rightarrow> int \<Rightarrow> int \<Rightarrow> bool" for c where
  one: "cost c l l 0"
| mul: "l \<le> i \<Longrightarrow> i < r \<Longrightarrow> cost c l i a \<Longrightarrow> cost c (i + 1) r b \<Longrightarrow> cost c l r (a + b + c (l - 1) * c i * c r)"

inductive_cases costE: "cost c l r v"

definition optimal :: "(int \<Rightarrow> int) \<Rightarrow> int \<Rightarrow> int \<Rightarrow> int \<Rightarrow> bool" where
  "optimal c l r v \<longleftrightarrow> cost c l r v \<and> (\<forall>w. cost c l r w \<longrightarrow> v \<le> w)"

lemma cost_le: "cost c l r v \<Longrightarrow> l \<le> r"
  by (induction rule: cost.induct) auto

lemma cost_self: "cost c l l v \<Longrightarrow> v = 0"
  by (erule costE) auto

lemma optimal_self: "optimal c l l 0"
  by (auto simp: optimal_def intro: cost.one dest: cost_self)

definition split_cost :: "(int \<Rightarrow> int) \<Rightarrow> int mat \<Rightarrow> int \<Rightarrow> int \<Rightarrow> int \<Rightarrow> int" where
  "split_cost c M l r i = me M l i + me M (i + 1) r + c (l - 1) * c i * c r"

lemma optimal_split:
  assumes "l < r" "\<And>i. l \<le> i \<Longrightarrow> i < r \<Longrightarrow> optimal c l i (me M l i) \<and> optimal c (i + 1) r (me M (i + 1) r)"
    and "l \<le> q" "q < r" "v = split_cost c M l r q" "\<And>i. l \<le> i \<Longrightarrow> i < r \<Longrightarrow> v \<le> split_cost c M l r i"
  shows "optimal c l r v"
  unfolding optimal_def
proof (intro conjI allI impI)
  show "cost c l r v" using assms(2) [OF assms(3,4)] assms(3-5) by (auto simp: optimal_def split_cost_def intro: cost.mul)
  fix w assume "cost c l r w"
  then show "v \<le> w"
  proof (rule costE)
    assume "r = l" then show ?thesis using assms(1) by simp
  next
    fix i a b assume i: "w = a + b + c (l - 1) * c i * c r" "l \<le> i" "i < r" "cost c l i a" "cost c (i + 1) r b"
    then have "me M l i \<le> a" "me M (i + 1) r \<le> b" using assms(2) [of i] by (auto simp: optimal_def)
    then show ?thesis using assms(6) [OF i(2,3)] i(1) by (simp add: split_cost_def)
  qed
qed

definition solved :: "(int \<Rightarrow> int) \<Rightarrow> int mat \<Rightarrow> int mat \<Rightarrow> int \<Rightarrow> int \<Rightarrow> bool" where
  "solved c M LC l r \<longleftrightarrow> optimal c l r (me M l r) \<and>
     (l < r \<longrightarrow> l \<le> me LC l r \<and> me LC l r < r \<and> me M l r = split_cost c M l r (me LC l r))"

definition opt_inv :: "(int \<Rightarrow> int) \<Rightarrow> int \<Rightarrow> int \<Rightarrow> int \<Rightarrow> int \<Rightarrow> int mat \<times> int mat \<Rightarrow> bool" where
  \<comment> \<open>all intervals before length \<open>k\<close>, start \<open>L\<close> are solved\<close>
  "opt_inv c D N k L s \<longleftrightarrow> (case s of (M, LC) \<Rightarrow> dims M D D \<and> dims LC D D \<and>
     (\<forall>l. 1 \<le> l \<and> l \<le> N \<longrightarrow> me M l l = 0) \<and>
     (\<forall>l r. 1 \<le> l \<and> l \<le> r \<and> r \<le> N \<and> (r - l < k \<or> r - l = k \<and> l < L) \<longrightarrow> solved c M LC l r))"

lemma solved_cong:
  assumes "solved c M LC l r" "\<And>i j. l \<le> i \<Longrightarrow> i \<le> j \<Longrightarrow> j \<le> r \<Longrightarrow> me M' i j = me M i j" "me LC' l r = me LC l r" "l \<le> r"
  shows "solved c M' LC' l r"
proof (cases "l < r")
  case True
  then have "split_cost c M' l r (me LC l r) = split_cost c M l r (me LC l r)"
    using assms(1) by (auto simp: split_cost_def solved_def assms(2))
  then show ?thesis using assms by (auto simp: solved_def)
qed (use assms in \<open>auto simp: solved_def\<close>)

definition opt_input :: "int list \<Rightarrow> int \<Rightarrow> int \<Rightarrow> bool" where
  \<comment> \<open>positive dimensions, arrays of size \<open>D\<close>, and no order that takes \<open>Infinity\<close> multiplications\<close>
  "opt_input C N D \<longleftrightarrow> 1 \<le> N \<and> N < len C \<and> N < D \<and> (\<forall>i. 0 \<le> i \<and> i \<le> N \<longrightarrow> 1 \<le> elt C i) \<and>
     (\<forall>l r w. 1 \<le> l \<and> r \<le> N \<and> cost (elt C) l r w \<longrightarrow> w < opt_Infinity)"

section \<open>Correctness\<close>

lemma cost_nonneg:
  "cost c l r v \<Longrightarrow> 1 \<le> l \<Longrightarrow> r \<le> N \<Longrightarrow> (\<And>i. 0 \<le> i \<Longrightarrow> i \<le> N \<Longrightarrow> 1 \<le> c i) \<Longrightarrow> 0 \<le> v"
proof (induction rule: cost.induct)
  case (mul l i r a b)
  have "1 \<le> c (l - 1)" by (rule mul.prems(3)) (use mul.hyps(1,2) mul.prems(1,2) in linarith)+
  moreover have "1 \<le> c i" by (rule mul.prems(3)) (use mul.hyps(1,2) mul.prems(1,2) in linarith)+
  moreover have "1 \<le> c r" by (rule mul.prems(3)) (use mul.hyps(1,2) mul.prems(1,2) in linarith)+
  ultimately have "0 \<le> c (l - 1) * c i * c r" by simp
  then show ?case using mul by simp
qed simp

lemma ck64_small: "0 \<le> x \<Longrightarrow> x < INT_MAX \<Longrightarrow> ck64 x = Some x"
  by (simp add: ck64_def)

definition subsolved :: "(int \<Rightarrow> int) \<Rightarrow> int mat \<Rightarrow> int \<Rightarrow> int \<Rightarrow> bool" where
  "subsolved c M l r \<longleftrightarrow> (\<forall>i. l \<le> i \<and> i < r \<longrightarrow> optimal c l i (me M l i) \<and> optimal c (i + 1) r (me M (i + 1) r))"

lemma opt_try_ok:
  assumes inp: "opt_input C N D" and lr: "1 \<le> l" "l < r" "r \<le> N" and d: "dims M D D" "dims LC D D"
    and i: "l \<le> i" "i < r" and sub: "subsolved (elt C) M l r"
  defines "t \<equiv> split_cost (elt C) M l r i"
  shows "t < opt_Infinity"
    "opt_try C l r i (M, LC) = Some (if t < me M l r then (mupd M l r t, mupd LC l r i) else (M, LC))"
proof -
  let ?c = "elt C"
  have N: "N < len C" "N < D" and pos: "\<And>i. 0 \<le> i \<Longrightarrow> i \<le> N \<Longrightarrow> 1 \<le> ?c i"
    and small: "\<And>l r w. 1 \<le> l \<Longrightarrow> r \<le> N \<Longrightarrow> cost ?c l r w \<Longrightarrow> w < INT_MAX"
    using inp by (auto simp: opt_input_def opt_Infinity_def)
  have co: "cost ?c l i (me M l i)" "cost ?c (i + 1) r (me M (i + 1) r)"
    using sub i by (auto simp: subsolved_def optimal_def)
  then have "cost ?c l r t" unfolding t_def split_cost_def using i by (intro cost.mul) auto
  then have tI: "t < INT_MAX" using small lr by blast
  then show "t < opt_Infinity" by (simp add: opt_Infinity_def)
  have nn: "0 \<le> me M l i" "0 \<le> me M (i + 1) r"
    using cost_nonneg [OF co(1), of N] cost_nonneg [OF co(2), of N] pos lr i by auto
  have p: "1 \<le> ?c (l - 1)" "1 \<le> ?c i" "1 \<le> ?c r" using pos lr i by auto
  then have p0: "0 \<le> ?c (l - 1) * ?c i" by simp
  then have pq: "?c (l - 1) * ?c i \<le> ?c (l - 1) * ?c i * ?c r" using p(3) by (simp add: mult_le_cancel_left1)
  define q where "q = ?c (l - 1) * ?c i * ?c r"
  define p2 where "p2 = ?c (l - 1) * ?c i"
  have t: "t = me M l i + me M (i + 1) r + q" by (simp add: t_def split_cost_def q_def)
  have b: "0 \<le> p2" "p2 \<le> q" using p0 pq by (auto simp: q_def p2_def)
  have ck: "ck64 (me M l i + me M (i + 1) r) = Some (me M l i + me M (i + 1) r)" "ck64 p2 = Some p2" "ck64 q = Some q" "ck64 t = Some t"
    using b nn t tI by (auto intro!: ck64_small)
  have e: "p2 * ?c r = q" "me M l i + me M (i + 1) r + q = t" using t by (auto simp: q_def p2_def)
  have ar: "aget C (l - 1) = Some (?c (l - 1))" "aget C i = Some (?c i)" "aget C r = Some (?c r)"
    using N lr i by (auto simp: inb_def)
  have mg: "mget M l i = Some (me M l i)" "mget M (i + 1) r = Some (me M (i + 1) r)" "mget M l r = Some (me M l r)"
    "mput M l r t = Some (mupd M l r t)" "mput LC l r i = Some (mupd LC l r i)"
    using d N lr i by simp_all
  show "opt_try C l r i (M, LC) = Some (if t < me M l r then (mupd M l r t, mupd LC l r i) else (M, LC))"
    using ck e unfolding opt_try_def by (simp add: ar mg flip: p2_def)
qed

text \<open>The innermost loop finds the best split; the entries it reads stay as they are.\<close>

definition try_inv :: "int list \<Rightarrow> int \<Rightarrow> int \<Rightarrow> int \<Rightarrow> int mat \<Rightarrow> int mat \<Rightarrow> int \<Rightarrow> int mat \<times> int mat \<Rightarrow> bool" where
  "try_inv C D l r M0 LC0 i s \<longleftrightarrow> (case s of (M, LC) \<Rightarrow> dims M D D \<and> dims LC D D \<and>
     (\<forall>x y. 0 \<le> x \<and> 0 \<le> y \<and> (x, y) \<noteq> (l, r) \<longrightarrow> me M x y = me M0 x y \<and> me LC x y = me LC0 x y) \<and>
     (if i = l then me M l r = opt_Infinity
      else l \<le> me LC l r \<and> me LC l r < i \<and> me M l r = split_cost (elt C) M0 l r (me LC l r) \<and>
        (\<forall>j. l \<le> j \<and> j < i \<longrightarrow> me M l r \<le> split_cost (elt C) M0 l r j)))"

lemma try_inv_sub:
  assumes "try_inv C D l r M0 LC0 i (M, LC)" "1 \<le> l" "l \<le> j" "j < r"
  shows "me M l j = me M0 l j" "me M (j + 1) r = me M0 (j + 1) r"
proof -
  have "\<And>x y. 0 \<le> x \<Longrightarrow> 0 \<le> y \<Longrightarrow> (x, y) \<noteq> (l, r) \<Longrightarrow> me M x y = me M0 x y" using assms(1) by (simp add: try_inv_def)
  then show "me M l j = me M0 l j" "me M (j + 1) r = me M0 (j + 1) r" using assms(2-4) by simp_all
qed

lemma try_inv_step:
  assumes inp: "opt_input C N D" and lr: "1 \<le> l" "l < r" "r \<le> N" and i: "l \<le> i" "i < r"
    and sub: "subsolved (elt C) M0 l r" and inv: "try_inv C D l r M0 LC0 i s"
  shows "\<exists>s'. opt_try C l r i s = Some s' \<and> try_inv C D l r M0 LC0 (i + 1) s'"
proof -
  obtain M LC where s: "s = (M, LC)" by (cases s)
  note inv = inv [unfolded s]
  have same: "me M l j = me M0 l j" "me M (j + 1) r = me M0 (j + 1) r" if "l \<le> j" "j < r" for j
    using try_inv_sub [OF inv lr(1) that] .
  then have sc: "split_cost (elt C) M l r j = split_cost (elt C) M0 l r j" if "l \<le> j" "j < r" for j
    using that by (simp add: split_cost_def)
  have sub': "subsolved (elt C) M l r" using sub same by (simp add: subsolved_def)
  have d: "dims M D D" "dims LC D D" using inv by (auto simp: try_inv_def)
  define t where "t = split_cost (elt C) M0 l r i"
  have T: "t < opt_Infinity" "opt_try C l r i (M, LC) = Some (if t < me M l r then (mupd M l r t, mupd LC l r i) else (M, LC))"
    using opt_try_ok [OF inp lr d i sub'] sc [OF i] by (auto simp: t_def)
  have D: "r < D" "l < D" using inp lr by (auto simp: opt_input_def)
  have fr: "\<forall>x y. 0 \<le> x \<and> 0 \<le> y \<and> (x, y) \<noteq> (l, r) \<longrightarrow> me M x y = me M0 x y \<and> me LC x y = me LC0 x y"
    using inv by (simp add: try_inv_def)
  show ?thesis
  proof (cases "t < me M l r")
    case True
    have "try_inv C D l r M0 LC0 (i + 1) (mupd M l r t, mupd LC l r i)"
    proof -
      have "me M l r \<le> split_cost (elt C) M0 l r j" if "l \<le> j" "j < i" for j
        using inv that by (auto simp: try_inv_def split: if_splits)
      then have "t \<le> split_cost (elt C) M0 l r j" if "l \<le> j" "j < i + 1" for j
      proof (cases "j = i")
        case False
        then show ?thesis using \<open>\<And>j. l \<le> j \<Longrightarrow> j < i \<Longrightarrow> _\<close> [of j] that True by linarith
      qed (simp add: t_def)
      then show ?thesis using d lr D i fr unfolding try_inv_def by (auto simp: me_mupd t_def)
    qed
    then show ?thesis using T(2) True s by simp
  next
    case False
    then have "i \<noteq> l" using inv T(1) by (auto simp: try_inv_def)
    then have old: "l \<le> me LC l r" "me LC l r < i" "me M l r = split_cost (elt C) M0 l r (me LC l r)"
        "\<And>j. l \<le> j \<Longrightarrow> j < i \<Longrightarrow> me M l r \<le> split_cost (elt C) M0 l r j"
      using inv unfolding try_inv_def by auto
    have "me M l r \<le> split_cost (elt C) M0 l r j" if "l \<le> j" "j < i + 1" for j
      using old(4) [of j] that False by (cases "j = i") (auto simp: t_def)
    then have "try_inv C D l r M0 LC0 (i + 1) (M, LC)"
      using old(1-3) d fr i unfolding try_inv_def by simp
    then show ?thesis using T(2) False s by simp
  qed
qed

lemma opt_interval_ok:
  assumes inp: "opt_input C N D" and k: "1 \<le> k" and l: "1 \<le> l" "l + k \<le> N" and inv: "opt_inv (elt C) D N k l s"
  shows "\<exists>s'. opt_interval C k l s = Some s' \<and> opt_inv (elt C) D N k (l + 1) s'"
proof -
  obtain M LC where s: "s = (M, LC)" by (cases s)
  define r where "r = l + k"
  have d: "dims M D D" "dims LC D D" and sv: "\<And>a b. 1 \<le> a \<Longrightarrow> a \<le> b \<Longrightarrow> b \<le> N \<Longrightarrow> b - a < k \<or> b - a = k \<and> a < l \<Longrightarrow> solved (elt C) M LC a b"
    and dg: "\<And>a. 1 \<le> a \<Longrightarrow> a \<le> N \<Longrightarrow> me M a a = 0"
    using inv by (auto simp: opt_inv_def s)
  have lr: "1 \<le> l" "l < r" "r \<le> N" "r < D" "l < D" using k l inp by (auto simp: r_def opt_input_def)
  let ?M = "mupd M l r opt_Infinity"
  have mM: "me ?M x y = (if x = l \<and> y = r then opt_Infinity else me M x y)" if "0 \<le> x" "0 \<le> y" for x y
    using d(1) lr that by (simp add: me_mupd)
  have sub: "subsolved (elt C) ?M l r"
    using sv lr mM by (auto simp: subsolved_def solved_def r_def)
  have "\<exists>s'. for_up l r (opt_try C l r) (?M, LC) = Some s' \<and> try_inv C D l r ?M LC r s'"
    by (rule for_up_rule [where P = "try_inv C D l r ?M LC"], use lr in simp,
        use d lr mM in \<open>simp add: try_inv_def\<close>, rule try_inv_step [OF inp lr(1-3) _ _ sub])
  then obtain M' LC' where r: "for_up l r (opt_try C l r) (?M, LC) = Some (M', LC')" "try_inv C D l r ?M LC r (M', LC')" by auto
  have fr: "me M' x y = me M x y" "me LC' x y = me LC x y" if "0 \<le> x" "0 \<le> y" "(x, y) \<noteq> (l, r)" for x y
    using r(2) that mM [of x y] by (auto simp: try_inv_def)
  have fin: "l \<le> me LC' l r" "me LC' l r < r" "me M' l r = split_cost (elt C) ?M l r (me LC' l r)"
      "\<And>j. l \<le> j \<Longrightarrow> j < r \<Longrightarrow> me M' l r \<le> split_cost (elt C) ?M l r j"
    using r(2) lr by (auto simp: try_inv_def)
  have "optimal (elt C) l r (me M' l r)"
    by (rule optimal_split [OF lr(2) _ fin(1,2,3,4)]) (use sub in \<open>auto simp: subsolved_def\<close>)
  moreover have "split_cost (elt C) ?M l r (me LC' l r) = split_cost (elt C) M' l r (me LC' l r)"
    using try_inv_sub [OF r(2) lr(1) fin(1,2)] by (simp add: split_cost_def)
  ultimately have new: "solved (elt C) M' LC' l r" using fin lr by (simp add: solved_def)
  have old: "solved (elt C) M' LC' a b" if "1 \<le> a" "a \<le> b" "b \<le> N" "b - a < k \<or> b - a = k \<and> a < l" for a b
  proof (rule solved_cong [OF sv [OF that]])
    show "me M' i j = me M i j" if "a \<le> i" "i \<le> j" "j \<le> b" for i j
      using that \<open>1 \<le> a\<close> \<open>b - a < k \<or> b - a = k \<and> a < l\<close> by (intro fr) (auto simp: r_def)
    show "me LC' a b = me LC a b" using that by (intro fr) (auto simp: r_def)
  qed (use that in simp)
  have "opt_inv (elt C) D N k (l + 1) (M', LC')"
    unfolding opt_inv_def
  proof (clarsimp, intro conjI allI impI)
    show "dims M' D D" "dims LC' D D" using r(2) by (auto simp: try_inv_def)
    fix a assume "1 \<le> a \<and> a \<le> N"
    then show "me M' a a = 0" using dg fr lr by auto
  next
    fix a b assume ab: "1 \<le> a \<and> a \<le> b \<and> b \<le> N \<and> (b - a < k \<or> b - a = k \<and> a \<le> l)"
    show "solved (elt C) M' LC' a b"
    proof (cases "(a, b) = (l, r)")
      case True
      then show ?thesis using new by simp
    next
      case False
      then show ?thesis using ab by (intro old) (auto simp: r_def)
    qed
  qed
  moreover have "opt_interval C k l s = Some (M', LC')"
    using d lr r(1) by (simp add: opt_interval_def s r_def [symmetric])
  ultimately show ?thesis by blast
qed

section \<open>Theorem\<close>

text \<open>C30: \<open>OptMatrix\<close> leaves in \<open>M[ l ][ r ]\<close> the least number of scalar
  multiplications that any order of multiplying the matrices \<open>l..r\<close> takes, for all
  intervals, so in \<open>M[ 1 ][ N ]\<close> the one for the whole product, and in
  \<open>LastChange[ l ][ r ]\<close> a split that attains it; for positive dimensions if no order reaches
  \<open>Infinity\<close>.\<close>

theorem OptMatrix_optimal:
  assumes "opt_input C N D" "dims M D D" "dims LC D D"
  shows "\<exists>M' LC'. OptMatrix C N M LC = Some (M', LC') \<and>
    (\<forall>l r. 1 \<le> l \<and> l \<le> r \<and> r \<le> N \<longrightarrow> solved (elt C) M' LC' l r)"
proof -
  have N: "1 \<le> N" "N < D" using assms(1) by (auto simp: opt_input_def)
  have "\<exists>M'. for_up 1 (N + 1) (\<lambda>l M. mput M l l 0) M = Some M' \<and> (dims M' D D \<and> (\<forall>l. 1 \<le> l \<and> l < N + 1 \<longrightarrow> me M' l l = 0))"
    by (rule for_up_rule [where P = "\<lambda>i M. dims M D D \<and> (\<forall>l. 1 \<le> l \<and> l < i \<longrightarrow> me M l l = 0)"])
      (use N assms(2) in \<open>auto simp: me_mupd zless_add1_eq\<close>)
  then obtain M0 where M0: "for_up 1 (N + 1) (\<lambda>l M. mput M l l 0) M = Some M0" "dims M0 D D" "\<And>l. 1 \<le> l \<Longrightarrow> l \<le> N \<Longrightarrow> me M0 l l = 0"
    by auto
  have "\<exists>s. for_up 1 N (\<lambda>k. for_up 1 (N - k + 1) (opt_interval C k)) (M0, LC) = Some s \<and> opt_inv (elt C) D N N 1 s"
  proof (rule for_up_rule [where P = "\<lambda>k. opt_inv (elt C) D N k 1"])
    have "solved (elt C) M0 LC l r" if "1 \<le> l" "l \<le> r" "r \<le> N" "r - l < 1 \<or> r - l = 1 \<and> l < 1" for l r
    proof -
      have "r = l" using that by linarith
      then show ?thesis using M0(3) that optimal_self by (simp add: solved_def)
    qed
    then show "opt_inv (elt C) D N 1 1 (M0, LC)" using M0(2,3) assms(3) unfolding opt_inv_def by blast
    fix k s assume k: "1 \<le> k" "k < N" "opt_inv (elt C) D N k 1 s"
    have "\<exists>s'. for_up 1 (N - k + 1) (opt_interval C k) s = Some s' \<and> opt_inv (elt C) D N k (N - k + 1) s'"
      by (rule for_up_rule [where P = "opt_inv (elt C) D N k"])
        (use k in simp, rule k(3), rule opt_interval_ok [OF assms(1) k(1)], simp_all)
    then obtain s' where s': "for_up 1 (N - k + 1) (opt_interval C k) s = Some s'" "opt_inv (elt C) D N k (N - k + 1) s'" by blast
    have "opt_inv (elt C) D N (k + 1) 1 s'"
    proof -
      obtain M LC where e: "s' = (M, LC)" by (cases s')
      have "solved (elt C) M LC l r" if "1 \<le> l" "l \<le> r" "r \<le> N" "r - l < k + 1 \<or> r - l = k + 1 \<and> l < 1" for l r
      proof -
        have "r - l < k \<or> r - l = k \<and> l < N - k + 1" using that by linarith
        then show ?thesis using s'(2) that(1-3) unfolding opt_inv_def e by blast
      qed
      then show ?thesis using s'(2) unfolding opt_inv_def e by blast
    qed
    then show "\<exists>s'. for_up 1 (N - k + 1) (opt_interval C k) s = Some s' \<and> opt_inv (elt C) D N (k + 1) 1 s'" using s'(1) by blast
  qed (use N in simp)
  then obtain M' LC' where "for_up 1 N (\<lambda>k. for_up 1 (N - k + 1) (opt_interval C k)) (M0, LC) = Some (M', LC')"
      "opt_inv (elt C) D N N 1 (M', LC')" by auto
  then show ?thesis using M0(1) by (intro exI [of _ M'] exI [of _ LC']) (auto simp: OptMatrix_def opt_inv_def)
qed

theorem OptMatrix_optimal_witness:
  "\<exists>M' LC'. OptMatrix [10, 20, 30] 2 [[0, 0, 0], [0, 0, 0], [0, 0, 0]] [[0, 0, 0], [0, 0, 0], [0, 0, 0]] = Some (M', LC') \<and>
     cost (elt [10, 20, 30]) 1 2 (me M' 1 2)"
proof -
  let ?c = "elt [10, 20, 30] :: int \<Rightarrow> int" and ?Z = "[[0, 0, 0], [0, 0, 0], [0, 0, 0]] :: int mat"
  have w: "w < INT_MAX" if lr: "1 \<le> l" "r \<le> 2" and c: "cost ?c l r w" for l r w
  proof (rule costE [OF c])
    assume "w = 0" then show ?thesis by simp
  next
    fix i a b assume i: "w = a + b + ?c (l - 1) * ?c i * ?c r" "l \<le> i" "i < r" "cost ?c l i a" "cost ?c (i + 1) r b"
    then have e: "l = 1" "i = 1" "r = 2" using lr by auto
    then have "a = 0" "b = 0" using i(4,5) cost_self [of ?c 1 a] cost_self [of ?c 2 b] by auto
    then show ?thesis using i(1) e by (simp add: elt_def)
  qed
  have e: "i = 0 \<or> i = 1 \<or> i = 2" if "0 \<le> i \<and> i \<le> 2" for i :: int using that by linarith
  have "1 \<le> ?c i" if "0 \<le> i \<and> i \<le> 2" for i using e [OF that] by (auto simp: elt_def)
  then have "opt_input [10, 20, 30] 2 3" using w by (auto simp: opt_input_def opt_Infinity_def)
  moreover have "dims ?Z 3 3"
  proof -
    have "len (elt ?Z i) = 3" if "0 \<le> i \<and> i < 3" for i using e [of i] that by (auto simp: elt_def)
    then show ?thesis by (simp add: dims_def)
  qed
  ultimately show ?thesis
  proof -
    assume i: "opt_input [10, 20, 30] 2 3" and d: "dims ?Z 3 3"
    obtain M' LC' where r: "OptMatrix [10, 20, 30] 2 ?Z ?Z = Some (M', LC')"
        "\<forall>l r. 1 \<le> l \<and> l \<le> r \<and> r \<le> 2 \<longrightarrow> solved ?c M' LC' l r" using OptMatrix_optimal [OF i d d] by blast
    have "solved ?c M' LC' 1 2" using r(2) by simp
    then have "cost ?c 1 2 (me M' 1 2)" unfolding solved_def optimal_def by blast
    then show ?thesis using r(1) by blast
  qed
qed

end
