(* ===== verification/AllPairs.thy ===== *)
theory AllPairs
  imports Loops
begin

text \<open>
  \<^verbatim>\<open>src/DSAAC/fig10_53.c\<close>: all-pairs shortest paths, in place, with the matrix \<open>Path\<close> of
  intermediate vertices. The sums are checked for \<open>int\<close> overflow.
\<close>

section \<open>The routine\<close>

definition NotAVertex :: int where "NotAVertex = - 1"

definition ap_copy :: "int mat \<Rightarrow> int \<Rightarrow> int \<Rightarrow> int mat \<times> int mat \<Rightarrow> (int mat \<times> int mat) option" where
  "ap_copy A i j s =
    (let (D, Path) = s in do {
       a \<leftarrow> mget A i j; D \<leftarrow> mput D i j a; Path \<leftarrow> mput Path i j NotAVertex; Some (D, Path) })"

definition ap_relax :: "int \<Rightarrow> int \<Rightarrow> int \<Rightarrow> int mat \<times> int mat \<Rightarrow> (int mat \<times> int mat) option" where
  "ap_relax k i j s =
    (let (D, Path) = s in do {
       a \<leftarrow> mget D i k; b \<leftarrow> mget D k j; t \<leftarrow> ck (a + b); d \<leftarrow> mget D i j;
       if t < d then do { D \<leftarrow> mput D i j t; Path \<leftarrow> mput Path i j k; Some (D, Path) }
       else Some (D, Path) })"

definition AllPairs :: "int mat \<Rightarrow> int mat \<Rightarrow> int mat \<Rightarrow> int \<Rightarrow> (int mat \<times> int mat) option" where
  "AllPairs A D Path N =
    do {
      s \<leftarrow> for_up 0 N (\<lambda>i. for_up 0 N (ap_copy A i)) (D, Path);
      for_up 0 N (\<lambda>k. for_up 0 N (\<lambda>i. for_up 0 N (ap_relax k i))) s
    }"

section \<open>Specification\<close>

text \<open>The weight of the walk from \<open>i\<close> through the vertices \<open>ks\<close> to \<open>j\<close>.\<close>

fun wt :: "(int \<Rightarrow> int \<Rightarrow> int) \<Rightarrow> int \<Rightarrow> int list \<Rightarrow> int \<Rightarrow> int" where
  "wt a i [] j = a i j"
| "wt a i (k # ks) j = a i k + wt a k ks j"

lemma wt_append: "wt a i (ks @ k # ls) j = wt a i ks k + wt a k ls j"
  by (induction ks arbitrary: i) auto

definition shortest :: "(int \<Rightarrow> int \<Rightarrow> int) \<Rightarrow> int \<Rightarrow> int \<Rightarrow> int \<Rightarrow> int \<Rightarrow> bool" where
  "shortest a N i j d \<longleftrightarrow> (\<exists>ks. set ks \<subseteq> {0..<N} \<and> d = wt a i ks j) \<and> (\<forall>ks. set ks \<subseteq> {0..<N} \<longrightarrow> d \<le> wt a i ks j)"

definition ap_input :: "int mat \<Rightarrow> int \<Rightarrow> bool" where
  \<comment> \<open>no negative cycle, and weights for which no sum overflows\<close>
  "ap_input A N \<longleftrightarrow> 0 \<le> N \<and> dims A N N \<and>
     (\<forall>i ks. i \<in> {0..<N} \<and> set ks \<subseteq> {0..<N} \<longrightarrow> 0 \<le> wt (me A) i ks i) \<and>
     (\<forall>i j. i \<in> {0..<N} \<and> j \<in> {0..<N} \<longrightarrow> me A i j \<le> 1073741823) \<and>
     (\<forall>i j ks. i \<in> {0..<N} \<and> j \<in> {0..<N} \<and> set ks \<subseteq> {0..<N} \<longrightarrow> - 1073741824 \<le> wt (me A) i ks j)"

text \<open>Walks from \<open>k\<close> that return to \<open>k\<close> can be cut short there.\<close>

lemma below_k: "k \<notin> S \<Longrightarrow> S \<subseteq> {0..<k + 1} \<Longrightarrow> S \<subseteq> {0..<k}" for k :: int
  by (force simp: order_le_less)

lemma wt_from_k:
  fixes d a :: "int \<Rightarrow> int \<Rightarrow> int"
  assumes kk: "0 \<le> d k k" and b: "\<And>ks. set ks \<subseteq> {0..<k} \<Longrightarrow> d k k \<le> wt a k ks k" "\<And>ks. set ks \<subseteq> {0..<k} \<Longrightarrow> d k j \<le> wt a k ks j"
  shows "set ks \<subseteq> {0..<k + 1} \<Longrightarrow> d k j \<le> wt a k ks j"
proof (induction "length ks" arbitrary: ks rule: less_induct)
  case less
  show ?case
  proof (cases "k \<in> set ks")
    case True
    then obtain us vs where e: "ks = us @ k # vs" "k \<notin> set us" using split_list_first by metis
    then have s: "set us \<subseteq> {0..<k}" "set vs \<subseteq> {0..<k + 1}" using less.prems by (auto simp: order_le_less)
    have "d k j \<le> wt a k vs j" using less.hyps [of vs] s(2) e(1) by simp
    moreover have "0 \<le> wt a k us k" using b(1) [OF s(1)] kk by simp
    ultimately show ?thesis by (simp add: e(1) wt_append)
  next
    case False
    then have "set ks \<subseteq> {0..<k}" using less.prems by (rule below_k)
    then show ?thesis by (rule b(2))
  qed
qed

text \<open>One round: the new distances are below all walks through the first \<open>k + 1\<close> vertices.\<close>

lemma round_below:
  fixes d d' a :: "int \<Rightarrow> int \<Rightarrow> int"
  assumes kk: "0 \<le> d k k"
    and b: "\<And>x y ks. x \<in> {i, k} \<Longrightarrow> y \<in> {j, k} \<Longrightarrow> set ks \<subseteq> {0..<k} \<Longrightarrow> d x y \<le> wt a x ks y"
    and n: "d' i j \<le> d i j" "d' i j \<le> d i k + d k j" and ks: "set ks \<subseteq> {0..<k + 1}"
  shows "d' i j \<le> wt a i ks j"
proof (cases "k \<in> set ks")
  case True
  then obtain us vs where e: "ks = us @ k # vs" "k \<notin> set us" using split_list_first by metis
  then have s: "set us \<subseteq> {0..<k}" "set vs \<subseteq> {0..<k + 1}" using ks by (auto simp: order_le_less)
  have "d i k \<le> wt a i us k" using b s(1) by simp
  moreover have "d k j \<le> wt a k vs j" by (rule wt_from_k [of d k a j vs, OF kk _ _ s(2)]) (use b in auto)
  ultimately show ?thesis using n(2) by (simp add: e(1) wt_append)
next
  case False
  then have "set ks \<subseteq> {0..<k}" using ks by (rule below_k)
  then show ?thesis using b [of i j ks] n(1) by simp
qed

section \<open>Invariants\<close>

definition walks :: "int mat \<Rightarrow> int \<Rightarrow> int mat \<times> int mat \<Rightarrow> bool" where
  \<comment> \<open>entries of \<open>D\<close> are weights of walks not above the edge; \<open>Path\<close> explains them\<close>
  "walks A N s \<longleftrightarrow> (case s of (D, P) \<Rightarrow> dims D N N \<and> dims P N N \<and>
     (\<forall>i \<in> {0..<N}. \<forall>j \<in> {0..<N}. (\<exists>ks. set ks \<subseteq> {0..<N} \<and> me D i j = wt (me A) i ks j) \<and> me D i j \<le> me A i j \<and>
        (if me P i j = NotAVertex then me D i j = me A i j
         else me P i j \<in> {0..<N} \<and> me D i (me P i j) + me D (me P i j) j \<le> me D i j)))"

definition round_inv :: "int \<Rightarrow> (int \<Rightarrow> int \<Rightarrow> int) \<Rightarrow> int \<Rightarrow> int \<Rightarrow> int \<Rightarrow> int mat \<times> int mat \<Rightarrow> bool" where
  \<comment> \<open>in round \<open>k\<close> at \<open>(i, j)\<close>, with \<open>d\<close> the entries of \<open>D\<close> before the round\<close>
  "round_inv N d k i j s \<longleftrightarrow> (case s of (D, P) \<Rightarrow>
     (\<forall>x \<in> {0..<N}. me D x k = d x k \<and> me D k x = d k x) \<and>
     (\<forall>x \<in> {0..<N}. \<forall>y \<in> {0..<N}. me D x y \<le> d x y \<and> (before i j x y \<longrightarrow> me D x y \<le> d x k + d k y)))"

lemma walksD:
  "walks A N (D, P) \<Longrightarrow> i \<in> {0..<N} \<Longrightarrow> j \<in> {0..<N} \<Longrightarrow>
     (\<exists>ks. set ks \<subseteq> {0..<N} \<and> me D i j = wt (me A) i ks j) \<and> me D i j \<le> me A i j \<and>
     (if me P i j = NotAVertex then me D i j = me A i j
      else me P i j \<in> {0..<N} \<and> me D i (me P i j) + me D (me P i j) j \<le> me D i j)"
  unfolding walks_def by blast

lemma walksI:
  "dims D N N \<Longrightarrow> dims P N N \<Longrightarrow>
   (\<And>i j. i \<in> {0..<N} \<Longrightarrow> j \<in> {0..<N} \<Longrightarrow> \<exists>ks. set ks \<subseteq> {0..<N} \<and> me D i j = wt (me A) i ks j) \<Longrightarrow>
   (\<And>i j. i \<in> {0..<N} \<Longrightarrow> j \<in> {0..<N} \<Longrightarrow> me D i j \<le> me A i j) \<Longrightarrow>
   (\<And>i j. i \<in> {0..<N} \<Longrightarrow> j \<in> {0..<N} \<Longrightarrow> if me P i j = NotAVertex then me D i j = me A i j
      else me P i j \<in> {0..<N} \<and> me D i (me P i j) + me D (me P i j) j \<le> me D i j) \<Longrightarrow> walks A N (D, P)"
  unfolding walks_def by blast

lemma walks_bounds:
  assumes "ap_input A N" "walks A N (D, P)" "i \<in> {0..<N}" "j \<in> {0..<N}"
  shows "- 1073741824 \<le> me D i j" "me D i j \<le> 1073741823" "i = j \<Longrightarrow> 0 \<le> me D i j"
proof -
  obtain ks where ks: "set ks \<subseteq> {0..<N}" "me D i j = wt (me A) i ks j" "me D i j \<le> me A i j"
    using walksD [OF assms(2-4)] by blast
  have "me A i j \<le> 1073741823" using assms(1,3,4) unfolding ap_input_def by blast
  then show "me D i j \<le> 1073741823" using ks(3) by simp
  show "- 1073741824 \<le> me D i j" using assms(1,3,4) ks(1,2) unfolding ap_input_def by metis
  show "0 \<le> me D i j" if "i = j" using assms(1,3) ks(1,2) that unfolding ap_input_def by metis
qed

lemma relax_ok:
  assumes inp: "ap_input A N" and w: "walks A N s" and k: "k \<in> {0..<N}" and ij: "i \<in> {0..<N}" "j \<in> {0..<N}"
    and r: "round_inv N d k i j s"
  shows "\<exists>s'. ap_relax k i j s = Some s' \<and> (walks A N s' \<and> round_inv N d k i (j + 1) s')"
proof -
  obtain D P where s: "s = (D, P)" by (cases s)
  note w = w [unfolded s] and r = r [unfolded s]
  have dm: "dims D N N" "dims P N N" using w by (auto simp: walks_def)
  define t where "t = me D i k + me D k j"
  have "ck t = Some t" using walks_bounds(1,2) [OF inp w ij(1) k] walks_bounds(1,2) [OF inp w k ij(2)] by (simp add: t_def)
  then have ap: "ap_relax k i j s = Some (if t < me D i j then (mupd D i j t, mupd P i j k) else (D, P))"
    using dm k ij unfolding ap_relax_def s by (simp add: t_def)
  have kk: "0 \<le> me D k k" using walks_bounds(3) [OF inp w k k] by simp
  have td: "t = d i k + d k j" using r ij by (simp add: t_def round_inv_def)
  show ?thesis
  proof (cases "t < me D i j")
    case False
    then have "me D i j \<le> d i k + d k j" using td by simp
    then have "round_inv N d k i (j + 1) (D, P)" using r unfolding round_inv_def by (auto simp: before_step)
    then show ?thesis using ap False w by auto
  next
    case True
    let ?D = "mupd D i j t" and ?P = "mupd P i j k"
    have ne: "j \<noteq> k" "i \<noteq> k" using True kk by (auto simp: t_def)
    have mD: "me ?D x y = (if x = i \<and> y = j then t else me D x y)" "me ?P x y = (if x = i \<and> y = j then k else me P x y)"
      if "x \<in> {0..<N}" "y \<in> {0..<N}" for x y using dm ij that by (auto simp: me_mupd)
    have "round_inv N d k i (j + 1) (?D, ?P)"
      unfolding round_inv_def
    proof (clarsimp simp del: atLeastLessThan_iff, intro conjI ballI impI)
      fix x assume x: "x \<in> {0..<N}"
      show "me ?D x k = d x k" "me ?D k x = d k x" using mD x k ne r by (auto simp: round_inv_def)
      fix y assume y: "y \<in> {0..<N}"
      have o: "me D x y \<le> d x y" using r x y by (simp add: round_inv_def)
      show "me ?D x y \<le> d x y" using mD [OF x y] o True by auto
      show "me ?D x y \<le> d x k + d k y" if "before i (j + 1) x y"
        using mD [OF x y] td that r x y by (auto simp: round_inv_def before_step)
    qed
    moreover have "walks A N (?D, ?P)"
    proof (rule walksI)
      show "dims ?D N N" "dims ?P N N" using dm ij by auto
      fix x y assume xy: "x \<in> {0..<N}" "y \<in> {0..<N}"
      have le: "me ?D u v \<le> me D u v" if "u \<in> {0..<N}" "v \<in> {0..<N}" for u v using mD(1) [OF that] True by auto
      show "\<exists>ks. set ks \<subseteq> {0..<N} \<and> me ?D x y = wt (me A) x ks y"
      proof (cases "x = i \<and> y = j")
        case xyij: True
        obtain us vs where "set us \<subseteq> {0..<N}" "me D i k = wt (me A) i us k" "set vs \<subseteq> {0..<N}" "me D k j = wt (me A) k vs j"
          using walksD [OF w ij(1) k] walksD [OF w k ij(2)] by blast
        then have "set (us @ k # vs) \<subseteq> {0..<N}" "t = wt (me A) i (us @ k # vs) j" using k by (auto simp: t_def wt_append)
        then show ?thesis using xyij mD(1) [OF xy] by (intro exI [of _ "us @ k # vs"]) simp
      next
        case False
        then show ?thesis using walksD [OF w xy] mD(1) [OF xy] by auto
      qed
      show "me ?D x y \<le> me A x y" using le [OF xy] walksD [OF w xy] by simp
      show "if me ?P x y = NotAVertex then me ?D x y = me A x y
         else me ?P x y \<in> {0..<N} \<and> me ?D x (me ?P x y) + me ?D (me ?P x y) y \<le> me ?D x y"
      proof (cases "x = i \<and> y = j")
        case True
        then show ?thesis using mD [OF ij] mD [OF ij(1) k] mD [OF k ij(2)] k ne by (auto simp: NotAVertex_def t_def)
      next
        case False
        then have e: "me ?P x y = me P x y" "me ?D x y = me D x y" using mD [OF xy] by auto
        show ?thesis
        proof (cases "me P x y = NotAVertex")
          case True
          then show ?thesis using walksD [OF w xy] e by simp
        next
          case False
          then have p: "me P x y \<in> {0..<N}" "me D x (me P x y) + me D (me P x y) y \<le> me D x y" using walksD [OF w xy] by auto
          show ?thesis using p False e le [OF xy(1) p(1)] le [OF p(1) xy(2)] by simp
        qed
      qed
    qed
    ultimately show ?thesis using ap True by auto
  qed
qed

lemma round_ok:
  assumes inp: "ap_input A N" and w: "walks A N (D, P)" and k: "k \<in> {0..<N}"
    and b: "\<And>i j ks. i \<in> {0..<N} \<Longrightarrow> j \<in> {0..<N} \<Longrightarrow> set ks \<subseteq> {0..<k} \<Longrightarrow> me D i j \<le> wt (me A) i ks j"
  shows "\<exists>D' P'. for_up 0 N (\<lambda>i. for_up 0 N (ap_relax k i)) (D, P) = Some (D', P') \<and> walks A N (D', P') \<and>
    (\<forall>i \<in> {0..<N}. \<forall>j \<in> {0..<N}. \<forall>ks. set ks \<subseteq> {0..<k + 1} \<longrightarrow> me D' i j \<le> wt (me A) i ks j)"
proof -
  have N: "0 \<le> N" using inp by (simp add: ap_input_def)
  have "\<exists>s'. for_up 0 N (\<lambda>i. for_up 0 N (ap_relax k i)) (D, P) = Some s' \<and> (walks A N s' \<and> round_inv N (me D) k N 0 s')"
  proof (rule for_up_rule [where P = "\<lambda>i s. walks A N s \<and> round_inv N (me D) k i 0 s"])
    show "walks A N (D, P) \<and> round_inv N (me D) k 0 0 (D, P)" using w by (auto simp: round_inv_def before_first)
    fix i s assume i: "0 \<le> i" "i < N" and s: "walks A N s \<and> round_inv N (me D) k i 0 s"
    have "\<exists>s'. for_up 0 N (ap_relax k i) s = Some s' \<and> (walks A N s' \<and> round_inv N (me D) k i N s')"
      by (rule for_up_rule [where P = "\<lambda>j s. walks A N s \<and> round_inv N (me D) k i j s"], rule N, rule s)
        (rule relax_ok [OF inp _ k], use i in auto)
    moreover have "round_inv N (me D) k (i + 1) 0 s'" if "round_inv N (me D) k i N s'" for s'
      using that unfolding round_inv_def by (auto simp: before_row)
    ultimately show "\<exists>s'. for_up 0 N (ap_relax k i) s = Some s' \<and> (walks A N s' \<and> round_inv N (me D) k (i + 1) 0 s')" by blast
  qed (rule N)
  then obtain D' P' where r: "for_up 0 N (\<lambda>i. for_up 0 N (ap_relax k i)) (D, P) = Some (D', P')" "walks A N (D', P')"
      "round_inv N (me D) k N 0 (D', P')" by auto
  have kk: "0 \<le> me D k k" using walks_bounds(3) [OF inp w k k] by simp
  have "me D' i j \<le> wt (me A) i ks j" if "i \<in> {0..<N}" "j \<in> {0..<N}" "set ks \<subseteq> {0..<k + 1}" for i j ks
    by (rule round_below [where d = "me D", OF kk b _ _ that(3)]) (use that(1,2) k r(3) in \<open>auto simp: round_inv_def before_all\<close>)
  then show ?thesis using r(1,2) by blast
qed

lemma copy_ok:
  assumes "dims A N N" "dims D N N" "dims P N N" "0 \<le> N"
  shows "\<exists>D' P'. for_up 0 N (\<lambda>i. for_up 0 N (ap_copy A i)) (D, P) = Some (D', P') \<and> dims D' N N \<and> dims P' N N \<and>
    (\<forall>i \<in> {0..<N}. \<forall>j \<in> {0..<N}. me D' i j = me A i j \<and> me P' i j = NotAVertex)"
proof -
  let ?Q = "\<lambda>i j s. case s of (D, P) \<Rightarrow> dims D N N \<and> dims P N N \<and>
     (\<forall>x \<in> {0..<N}. \<forall>y \<in> {0..<N}. before i j x y \<longrightarrow> me D x y = me A x y \<and> me P x y = NotAVertex)"
  have "\<exists>s'. for_up 0 N (\<lambda>i. for_up 0 N (ap_copy A i)) (D, P) = Some s' \<and> ?Q N 0 s'"
  proof (rule for_up_rule [where P = "\<lambda>i. ?Q i 0"])
    fix i s assume i: "0 \<le> i" "i < N" and s: "?Q i 0 s"
    have "\<exists>s'. for_up 0 N (ap_copy A i) s = Some s' \<and> ?Q i N s'"
    proof (rule for_up_rule [where P = "?Q i"])
      fix j s assume "0 \<le> j" "j < N" "?Q i j s"
      then show "\<exists>s'. ap_copy A i j s = Some s' \<and> ?Q i (j + 1) s'"
        using i assms(1) by (cases s) (auto simp: ap_copy_def me_mupd before_step)
    qed (use s assms(4) in auto)
    moreover have "?Q (i + 1) 0 s'" if "?Q i N s'" for s' using that by (auto simp: before_row)
    ultimately show "\<exists>s'. for_up 0 N (ap_copy A i) s = Some s' \<and> ?Q (i + 1) 0 s'" by blast
  qed (use assms in \<open>auto simp: before_first\<close>)
  then show ?thesis by (auto simp: before_all)
qed

section \<open>Theorem\<close>

text \<open>C31: without negative cycles \<open>AllPairs\<close> computes, in place, the weight of a shortest
  path between every two vertices, and for every entry \<open>Path\<close> gives either that the edge
  itself is shortest or an intermediate vertex of a shortest path; for weights whose path sums stay
  within half of the \<open>int\<close> range nothing overflows.\<close>

theorem AllPairs_shortest:
  assumes "ap_input A N" "dims D N N" "dims P N N"
  shows "\<exists>D' P'. AllPairs A D P N = Some (D', P') \<and>
    (\<forall>i \<in> {0..<N}. \<forall>j \<in> {0..<N}. shortest (me A) N i j (me D' i j) \<and>
       (if me P' i j = NotAVertex then me D' i j = me A i j
        else me P' i j \<in> {0..<N} \<and> me D' i j = me D' i (me P' i j) + me D' (me P' i j) j))"
proof -
  have N: "0 \<le> N" "dims A N N" using assms(1) by (auto simp: ap_input_def)
  obtain D0 P0 where 0: "for_up 0 N (\<lambda>i. for_up 0 N (ap_copy A i)) (D, P) = Some (D0, P0)" "dims D0 N N" "dims P0 N N"
      "\<forall>i \<in> {0..<N}. \<forall>j \<in> {0..<N}. me D0 i j = me A i j \<and> me P0 i j = NotAVertex"
    using copy_ok [OF N(2) assms(2,3) N(1)] by blast
  let ?Q = "\<lambda>k s. case s of (D, P) \<Rightarrow> walks A N (D, P) \<and>
     (\<forall>i \<in> {0..<N}. \<forall>j \<in> {0..<N}. \<forall>ks. set ks \<subseteq> {0..<k} \<longrightarrow> me D i j \<le> wt (me A) i ks j)"
  have "\<exists>s. for_up 0 N (\<lambda>k. for_up 0 N (\<lambda>i. for_up 0 N (ap_relax k i))) (D0, P0) = Some s \<and> ?Q N s"
  proof (rule for_up_rule [where P = ?Q])
    have "\<exists>ks. set ks \<subseteq> {0..<N} \<and> me A i j = wt (me A) i ks j" for i j by (rule exI [of _ "[]"]) simp
    then show "?Q 0 (D0, P0)" using 0 by (auto simp: walks_def)
    fix k s assume k: "0 \<le> k" "k < N" and s: "?Q k s"
    obtain D P where e: "s = (D, P)" by (cases s)
    have "\<exists>D' P'. for_up 0 N (\<lambda>i. for_up 0 N (ap_relax k i)) (D, P) = Some (D', P') \<and> walks A N (D', P') \<and>
        (\<forall>i \<in> {0..<N}. \<forall>j \<in> {0..<N}. \<forall>ks. set ks \<subseteq> {0..<k + 1} \<longrightarrow> me D' i j \<le> wt (me A) i ks j)"
      by (rule round_ok [OF assms(1)]) (use s k in \<open>auto simp: e\<close>)
    then show "\<exists>s'. for_up 0 N (\<lambda>i. for_up 0 N (ap_relax k i)) s = Some s' \<and> ?Q (k + 1) s'" unfolding e by fastforce
  qed (rule N(1))
  then obtain D' P' where r: "for_up 0 N (\<lambda>k. for_up 0 N (\<lambda>i. for_up 0 N (ap_relax k i))) (D0, P0) = Some (D', P')"
      "walks A N (D', P')" "\<And>i j ks. i \<in> {0..<N} \<Longrightarrow> j \<in> {0..<N} \<Longrightarrow> set ks \<subseteq> {0..<N} \<Longrightarrow> me D' i j \<le> wt (me A) i ks j"
    by auto
  have W: "\<exists>ks. set ks \<subseteq> {0..<N} \<and> me D' i j = wt (me A) i ks j" if "i \<in> {0..<N}" "j \<in> {0..<N}" for i j
    using walksD [OF r(2) that] by blast
  have tri: "me D' i j \<le> me D' i p + me D' p j" if ij: "i \<in> {0..<N}" "j \<in> {0..<N}" "p \<in> {0..<N}" for i j p
  proof -
    obtain us vs where "set us \<subseteq> {0..<N}" "me D' i p = wt (me A) i us p" "set vs \<subseteq> {0..<N}" "me D' p j = wt (me A) p vs j"
      using W [OF ij(1,3)] W [OF ij(3,2)] by blast
    then show ?thesis using r(3) [OF ij(1,2), of "us @ p # vs"] ij(3) by (simp add: wt_append)
  qed
  have P: "if me P' i j = NotAVertex then me D' i j = me A i j
      else me P' i j \<in> {0..<N} \<and> me D' i j = me D' i (me P' i j) + me D' (me P' i j) j" if ij: "i \<in> {0..<N}" "j \<in> {0..<N}" for i j
  proof -
    show ?thesis using walksD [OF r(2) ij] tri [OF ij, of "me P' i j"] by (auto split: if_splits)
  qed
  have "AllPairs A D P N = Some (D', P')" using 0(1) r(1) by (simp add: AllPairs_def)
  moreover have "shortest (me A) N i j (me D' i j)" if "i \<in> {0..<N}" "j \<in> {0..<N}" for i j
    using W [OF that] r(3) [OF that] by (simp add: shortest_def)
  ultimately show ?thesis using P by blast
qed

theorem AllPairs_shortest_witness:
  "\<exists>D' P'. AllPairs [[0, 3], [4, 0]] [[7, 7], [7, 7]] [[7, 7], [7, 7]] 2 = Some (D', P') \<and>
     shortest (me [[0, 3], [4, 0]]) 2 0 1 (me D' 0 1)"
proof -
  let ?A = "[[0, 3], [4, 0]] :: int mat" and ?Z = "[[7, 7], [7, 7]] :: int mat"
  have two: "x = 0 \<or> x = 1" if "x \<in> {0..<2}" for x :: int using that by auto
  have d: "dims ?A 2 2" "dims ?Z 2 2"
  proof -
    have "len (elt ?A x) = 2" "len (elt ?Z x) = 2" if "x \<in> {0..<2}" for x using two [OF that] by (auto simp: elt_def)
    then show "dims ?A 2 2" "dims ?Z 2 2" by (simp_all add: dims_def)
  qed
  have a: "0 \<le> me ?A x y \<and> me ?A x y \<le> 4" if "x \<in> {0..<2}" "y \<in> {0..<2}" for x y
    using two [OF that(1)] two [OF that(2)] by (auto simp: me_def elt_def)
  have w: "0 \<le> wt (me ?A) i ks j" if "i \<in> {0..<2}" "j \<in> {0..<2}" "set ks \<subseteq> {0..<2}" for i j ks
    using that
  proof (induction ks arbitrary: i)
    case Nil
    then show ?case using a by simp
  next
    case (Cons k ks)
    then have "0 \<le> me ?A i k" "0 \<le> wt (me ?A) k ks j" using a [of i k] Cons.IH [of k] by auto
    then show ?case by simp
  qed
  have "ap_input ?A 2" unfolding ap_input_def
  proof (intro conjI allI impI)
    fix i j :: int and ks :: "int list" assume x: "i \<in> {0..<2} \<and> j \<in> {0..<2} \<and> set ks \<subseteq> {0..<2}"
    then show "- 1073741824 \<le> wt (me ?A) i ks j" using w [of i j ks] by simp
  next
    fix i j :: int assume "i \<in> {0..<2} \<and> j \<in> {0..<2}"
    then show "me ?A i j \<le> 1073741823" using a [of i j] by simp
  qed (use d w in auto)
  then show ?thesis using AllPairs_shortest [of ?A 2 ?Z ?Z] d by fastforce
qed

end
