(* ===== verification/KdTree.thy ===== *)
theory KdTree
  imports CBase
begin

text \<open>
  \<^verbatim>\<open>src/DSAAC/kdtree.c\<close>: two-dimensional k-d trees with insertion and range search,
  and the program's \<open>main\<close>. A node holds an \<open>ItemType\<close>, an array of two
  \<open>int\<close>s; the level, 0 or 1, is the coordinate a node discriminates on, negated at every
  step down.
\<close>

section \<open>Operations\<close>

type_synonym item = "int \<times> int"

fun at :: "item \<Rightarrow> int \<Rightarrow> int" where
  \<comment> \<open>\<open>Item[ Level ]\<close>\<close>
  "at (a, b) Level = (if Level = 0 then a else b)"

definition cnot :: "int \<Rightarrow> int" where
  \<comment> \<open>\<open>!Level\<close>\<close>
  "cnot n = (if n = 0 then 1 else 0)"

datatype kdtree = KNull | KNode kdtree item kdtree

fun RecursiveInsert :: "bool \<Rightarrow> item \<Rightarrow> kdtree \<Rightarrow> int \<Rightarrow> kdtree res" where
  \<comment> \<open>\<open>ok\<close>: whether \<open>malloc\<close> returns a node\<close>
  "RecursiveInsert ok Item KNull Level =
    (if ok then Inr (KNode KNull (at Item 0, at Item 1) KNull) else Inl (FatalError ''Out of space!!!''))"
| "RecursiveInsert ok Item (KNode l d r) Level =
    (if at Item Level < at d Level
     then bindr (RecursiveInsert ok Item l (cnot Level)) (\<lambda>l'. Inr (KNode l' d r))
     else bindr (RecursiveInsert ok Item r (cnot Level)) (\<lambda>r'. Inr (KNode l d r')))"

definition kd_Insert :: "bool \<Rightarrow> item \<Rightarrow> kdtree \<Rightarrow> kdtree res" where
  "kd_Insert ok Item T = RecursiveInsert ok Item T 0"

text \<open>The items printed, in order.\<close>

fun RecPrintRange :: "item \<Rightarrow> item \<Rightarrow> kdtree \<Rightarrow> int \<Rightarrow> item list" where
  "RecPrintRange Low High KNull Level = []"
| "RecPrintRange Low High (KNode l d r) Level =
    (if at Low 0 \<le> at d 0 \<and> at d 0 \<le> at High 0 \<and> at Low 1 \<le> at d 1 \<and> at d 1 \<le> at High 1
     then [(at d 0, at d 1)] else []) @
    (if at Low Level \<le> at d Level then RecPrintRange Low High l (cnot Level) else []) @
    (if at High Level \<ge> at d Level then RecPrintRange Low High r (cnot Level) else [])"

definition PrintRange :: "item \<Rightarrow> item \<Rightarrow> kdtree \<Rightarrow> item list" where
  "PrintRange Low High T = RecPrintRange Low High T 0"

text \<open>\<open>main\<close>, with what it prints.\<close>

datatype kd_output = Text string | Printed item

fun kd_fill :: "nat \<Rightarrow> int \<Rightarrow> kdtree \<Rightarrow> kdtree res" where
  \<comment> \<open>the loop with \<open>n\<close> rounds to go\<close>
  "kd_fill 0 i T = Inr T"
| "kd_fill (Suc n) i T = bindr (kd_Insert True (i, 2500 - i) T) (kd_fill n (i + 1))"

definition kd_main :: "kd_output list res" where
  "kd_main = bindr (kd_fill 70 300 KNull) (\<lambda>T.
     Inr ([Text ''Starting program'', Text ''Insertions complete''] @
          map Printed (PrintRange (70, 2186) (1200, 2200) T) @ [Text ''Done...'']))"

section \<open>The invariant\<close>

fun items :: "kdtree \<Rightarrow> item multiset" where
  "items KNull = {#}"
| "items (KNode l d r) = add_mset d (items l + items r)"

fun kd_inv :: "kdtree \<Rightarrow> int \<Rightarrow> bool" where
  "kd_inv KNull Level = True"
| "kd_inv (KNode l d r) Level \<longleftrightarrow> kd_inv l (cnot Level) \<and> kd_inv r (cnot Level) \<and>
     (\<forall>e \<in># items l. at e Level < at d Level) \<and> (\<forall>e \<in># items r. at d Level \<le> at e Level)"

definition in_range :: "item \<Rightarrow> item \<Rightarrow> item \<Rightarrow> bool" where
  "in_range Low High e \<longleftrightarrow> fst Low \<le> fst e \<and> fst e \<le> fst High \<and> snd Low \<le> snd e \<and> snd e \<le> snd High"

lemma at_pair: "at d Level = (if Level = 0 then fst d else snd d)"
  by (cases d) simp

lemma RecursiveInsert_ok:
  "kd_inv T Level \<Longrightarrow> \<exists>T'. RecursiveInsert True Item T Level = Inr T' \<and> kd_inv T' Level \<and>
     items T' = add_mset Item (items T)"
proof (induction T arbitrary: Level)
  case KNull
  then show ?case by (simp add: at_pair)
next
  case (KNode l d r)
  show ?case
  proof (cases "at Item Level < at d Level")
    case True
    with KNode.IH(1) [of "cnot Level"] KNode.prems show ?thesis by auto
  next
    case False
    with KNode.IH(2) [of "cnot Level"] KNode.prems show ?thesis by auto
  qed
qed

text \<open>The two cuts of the range search lose nothing.\<close>

lemma cut_low:
  assumes "\<forall>e \<in># M. at e Level < v" "\<not> at Low Level \<le> v"
  shows "filter_mset (in_range Low High) M = {#}"
  using assms by (auto simp: in_range_def at_pair split: if_splits)

lemma cut_high:
  assumes "\<forall>e \<in># M. v \<le> at e Level" "\<not> at High Level \<ge> v"
  shows "filter_mset (in_range Low High) M = {#}"
  using assms by (auto simp: in_range_def at_pair split: if_splits)

lemma RecPrintRange_ok:
  "kd_inv T Level \<Longrightarrow> mset (RecPrintRange Low High T Level) = filter_mset (in_range Low High) (items T)"
proof (induction T arbitrary: Level)
  case (KNode l d r)
  have h: "(at Low 0 \<le> at d 0 \<and> at d 0 \<le> at High 0 \<and> at Low 1 \<le> at d 1 \<and> at d 1 \<le> at High 1) =
      in_range Low High d"
    by (simp add: at_pair in_range_def)
  have d: "(at d 0, at d 1) = d" by (simp add: at_pair)
  have inv: "kd_inv l (cnot Level)" "kd_inv r (cnot Level)" "\<forall>e \<in># items l. at e Level < at d Level"
    "\<forall>e \<in># items r. at d Level \<le> at e Level"
    using KNode.prems by simp_all
  have "mset (if at Low Level \<le> at d Level then RecPrintRange Low High l (cnot Level) else []) =
      filter_mset (in_range Low High) (items l)"
    using KNode.IH(1) [OF inv(1)] cut_low [OF inv(3)] by simp
  moreover have "mset (if at High Level \<ge> at d Level then RecPrintRange Low High r (cnot Level) else []) =
      filter_mset (in_range Low High) (items r)"
    using KNode.IH(2) [OF inv(2)] cut_high [OF inv(4)] by simp
  ultimately show ?case unfolding RecPrintRange.simps h d by simp
qed simp

lemma kd_insert_all:
  "kd_inv T 0 \<Longrightarrow> \<exists>T'. insert_all (kd_Insert True) xs T = Inr T' \<and> kd_inv T' 0 \<and>
     items T' = mset xs + items T"
proof (induction xs arbitrary: T)
  case (Cons x xs)
  then obtain T1 where "kd_Insert True x T = Inr T1" "kd_inv T1 0" "items T1 = add_mset x (items T)"
    using RecursiveInsert_ok [of T 0 x] by (auto simp: kd_Insert_def)
  with Cons.IH [of T1] show ?case by auto
qed simp

lemma kd_fill_insert_all:
  "kd_fill n i T = insert_all (kd_Insert True) (map (\<lambda>j. (j, 2500 - j)) [i..i + int n - 1]) T"
proof (induction n arbitrary: i T)
  case (Suc n)
  have "[i..i + int (Suc n) - 1] = i # [i + 1..i + 1 + int n - 1]" by (simp add: upto_rec1)
  moreover have "kd_fill n (i + 1) =
      insert_all (kd_Insert True) (map (\<lambda>j. (j, 2500 - j)) [i + 1..i + 1 + int n - 1])"
    by (rule ext) (rule Suc)
  ultimately show ?case by simp
qed simp

section \<open>Properties\<close>

text \<open>C34: after inserting any list of points into the empty tree, duplicates included, a range
  query prints exactly the points of the list that lie in the rectangle, each as often as it was
  inserted; and without memory the insertion ends with the message.\<close>

theorem KdTree_range_search:
  "\<exists>T. insert_all (kd_Insert True) xs KNull = Inr T \<and> kd_inv T 0 \<and>
    mset (PrintRange Low High T) = mset (filter (in_range Low High) xs) \<and>
    kd_Insert False x T = Inl (FatalError ''Out of space!!!'')"
proof -
  obtain T where T: "insert_all (kd_Insert True) xs KNull = Inr T" "kd_inv T 0" "items T = mset xs"
    using kd_insert_all [of KNull xs] by auto
  have "RecursiveInsert False x T n = Inl (FatalError ''Out of space!!!'')" for n
    by (induction T arbitrary: n) auto
  then show ?thesis
    using T RecPrintRange_ok [OF T(2), of Low High] by (simp add: PrintRange_def kd_Insert_def)
qed

text \<open>\<open>main\<close> prints the 15 points with second coordinate at least 2186, in some order,
  between its messages.\<close>

lemma kd_main_prints:
  "\<exists>ps. kd_main = Inr ([Text ''Starting program'', Text ''Insertions complete''] @ map Printed ps @
      [Text ''Done...'']) \<and> mset ps = mset (map (\<lambda>i. (i, 2500 - i)) [300..314])"
proof -
  let ?f = "\<lambda>j :: int. (j, 2500 - j)"
  let ?xs = "map ?f [300..369]"
  obtain T where T: "kd_fill 70 300 KNull = Inr T" "kd_inv T 0" "items T = mset ?xs"
    using kd_insert_all [of KNull ?xs] kd_fill_insert_all [of 70 300 KNull] by auto
  have "[300..369] = [300..314] @ [315..369]" using upto_split2 [of 300 314 369] by simp
  then have "filter (in_range (70, 2186) (1200, 2200)) ?xs = map ?f [300..314]"
    by (simp add: filter_map in_range_def comp_def del: upto_rec_numeral)
  then have eq: "filter_mset (in_range (70, 2186) (1200, 2200)) (items T) = mset (map ?f [300..314])"
    unfolding T(3) mset_filter [symmetric] by (rule arg_cong)
  show ?thesis
    by (rule exI [of _ "PrintRange (70, 2186) (1200, 2200) T"])
      (simp only: kd_main_def T(1) bindr.simps PrintRange_def RecPrintRange_ok [OF T(2)] eq simp_thms)
qed

end
