(* ===== verification/AATree.thy ===== *)
theory AATree
  imports SearchTree
begin

text \<open>
  \<^verbatim>\<open>src/DSAAC/aatree.c\<close>: AA trees. A node carries its \<open>Level\<close> and its
  address, since \<open>Remove\<close> compares node pointers and keeps two of them in variables that
  live longer than a call. \<open>Null\<close> is the sentinel \<open>NullNode\<close>, whose
  \<open>Level\<close> is 0 and whose children are itself; a store that would change the sentinel is
  \<open>BadAccess\<close>. The searching operations are those of \<^verbatim>\<open>tree.c\<close>, with the
  sentinel in the place of \<open>NULL\<close>.
\<close>

section \<open>Operations\<close>

type_synonym aanode = "int \<times> nat"   \<comment> \<open>\<open>Level\<close>, and the address of the node\<close>

type_synonym aatree = "aanode bt"

fun Level :: "aatree \<Rightarrow> int" where
  "Level Null = 0"
| "Level (Node l x i r) = fst i"

fun RightOf :: "aatree \<Rightarrow> aatree" where
  "RightOf Null = Null"
| "RightOf (Node l x i r) = r"

text \<open>\<open>Initialize\<close>: the first call allocates the sentinel, every call returns it.
  The argument is \<open>NullNode\<close> before the call (whether it is set), and what
  \<open>malloc\<close> returns.\<close>

definition aa_Initialize :: "bool \<Rightarrow> bool \<Rightarrow> aatree res" where
  "aa_Initialize isset ok =
    (if \<not> isset then if ok then Inr Null else Inl (FatalError ''Out of space!!!'') else Inr Null)"

fun aa_MakeEmpty :: "aatree \<Rightarrow> aatree \<times> nat list" where
  \<comment> \<open>the second component is what is passed to \<open>free\<close>\<close>
  "aa_MakeEmpty Null = (Null, [])"
| "aa_MakeEmpty (Node l x i r) = (Null, snd (aa_MakeEmpty l) @ snd (aa_MakeEmpty r) @ [snd i])"

fun aa_Find :: "int \<Rightarrow> aatree \<Rightarrow> aatree" where
  "aa_Find X Null = Null"
| "aa_Find X (Node l y i r) =
    (if X < y then aa_Find X l else if X > y then aa_Find X r else Node l y i r)"

fun aa_FindMin :: "aatree \<Rightarrow> aatree" where
  "aa_FindMin Null = Null"
| "aa_FindMin (Node l y i r) = (if l = Null then Node l y i r else aa_FindMin l)"

fun aa_FindMax :: "aatree \<Rightarrow> aatree" where
  \<comment> \<open>the loop \<open>while( T->Right != NullNode ) T = T->Right\<close>\<close>
  "aa_FindMax Null = Null"
| "aa_FindMax (Node l y i r) = (if r \<noteq> Null then aa_FindMax r else Node l y i r)"

fun aa_Retrieve :: "aatree \<Rightarrow> int res" where
  \<comment> \<open>the element of the sentinel is never written\<close>
  "aa_Retrieve Null = Inl Uninitialised"
| "aa_Retrieve (Node l y i r) = Inr y"

fun aa_SingleRotateWithLeft :: "aatree \<Rightarrow> aatree res" where
  "aa_SingleRotateWithLeft (Node (Node a k j b) x i c) = Inr (Node a k j (Node b x i c))"
| "aa_SingleRotateWithLeft (Node Null x i c) = Inl BadAccess"
| "aa_SingleRotateWithLeft Null = Inr Null"

fun aa_SingleRotateWithRight :: "aatree \<Rightarrow> aatree res" where
  "aa_SingleRotateWithRight (Node a x i (Node b k j c)) = Inr (Node (Node a x i b) k j c)"
| "aa_SingleRotateWithRight (Node a x i Null) = Inl BadAccess"
| "aa_SingleRotateWithRight Null = Inr Null"

fun LeftOf :: "aatree \<Rightarrow> aatree" where
  "LeftOf Null = Null"
| "LeftOf (Node l x i r) = l"

definition Skew :: "aatree \<Rightarrow> aatree res" where
  "Skew T = (if Level (LeftOf T) = Level T then aa_SingleRotateWithLeft T else Inr T)"

text \<open>\<open>T->Level = n\<close>.\<close>

fun set_Level :: "int \<Rightarrow> aatree \<Rightarrow> aatree res" where
  "set_Level n Null = Inl BadAccess"
| "set_Level n (Node l x i r) = Inr (Node l x (n, snd i) r)"

definition Split :: "aatree \<Rightarrow> aatree res" where
  "Split T =
    (if Level (RightOf (RightOf T)) = Level T
     then bindr (aa_SingleRotateWithRight T) (\<lambda>T. set_Level (Level T + 1) T)
     else Inr T)"

text \<open>\<open>malloc\<close> is the parameter \<open>m\<close>: the address of the new node, if there is
  one.\<close>

fun aa_Insert :: "nat option \<Rightarrow> int \<Rightarrow> aatree \<Rightarrow> aatree res" where
  "aa_Insert m Item T =
    bindr (case T of
        Null \<Rightarrow> (case m of None \<Rightarrow> Inl (FatalError ''Out of space!!!'')
                 | Some a \<Rightarrow> Inr (Node Null Item (1, a) Null))
      | Node l y i r \<Rightarrow>
          if Item < y then bindr (aa_Insert m Item l) (\<lambda>l'. Inr (Node l' y i r))
          else if Item > y then bindr (aa_Insert m Item r) (\<lambda>r'. Inr (Node l y i r'))
          else Inr T)
     (\<lambda>T. bindr (Skew T) Split)"

declare aa_Insert.simps [simp del]

text \<open>The static variables of \<open>Remove\<close>, with what it does to memory: the store to
  \<open>DeletePtr->Element\<close> and the freed nodes. The statics start as \<open>NULL\<close>, which is
  not \<open>NullNode\<close>.\<close>

datatype aa_ptr = PNULL | PNullNode | PAt nat

record aa_state =
  DeletePtr :: aa_ptr
  LastPtr :: aa_ptr
  Store :: "(nat \<times> int) option"
  Freed :: "nat list"

text \<open>The \<open>Element\<close> of the node at address \<open>a\<close> after the store.\<close>

definition stored :: "aa_state \<Rightarrow> nat \<Rightarrow> int \<Rightarrow> int" where
  "stored s a y = (case Store s of Some (d, v) \<Rightarrow> if d = a then v else y | None \<Rightarrow> y)"

text \<open>\<open>T->Right = f( T->Right )\<close>.\<close>

fun on_Right :: "(aatree \<Rightarrow> aatree res) \<Rightarrow> aatree \<Rightarrow> aatree res" where
  "on_Right f Null = bindr (f Null) (\<lambda>t. if t = Null then Inr Null else Inl BadAccess)"
| "on_Right f (Node l x i r) = bindr (f r) (\<lambda>r'. Inr (Node l x i r'))"

text \<open>Step 3 of \<open>Remove\<close>.\<close>

definition aa_rebalance :: "aatree \<Rightarrow> aatree res" where
  "aa_rebalance T =
    (if Level (LeftOf T) < Level T - 1 \<or> Level (RightOf T) < Level T - 1 then
       bindr (set_Level (Level T - 1) T) (\<lambda>T.
       bindr (if Level (RightOf T) > Level T then on_Right (set_Level (Level T)) T else Inr T) (\<lambda>T.
       bindr (Skew T) (\<lambda>T.
       bindr (on_Right Skew T) (\<lambda>T.
       bindr (on_Right (on_Right Skew) T) (\<lambda>T.
       bindr (Split T) (\<lambda>T.
       on_Right Split T))))))
     else Inr T)"

text \<open>Step 2, at the node that \<open>LastPtr\<close> points to. \<open>mem\<close> gives the
  \<open>Element\<close> of every allocated node when \<open>Remove\<close> is called, for the read through
  \<open>DeletePtr\<close>.\<close>

definition aa_unlink :: "(nat \<rightharpoonup> int) \<Rightarrow> int \<Rightarrow> nat \<Rightarrow> aatree \<Rightarrow> aa_state \<Rightarrow> (aatree \<times> aa_state) res" where
  "aa_unlink mem Item a T s =
    (case DeletePtr s of
       PNullNode \<Rightarrow> Inr (T, s)
     | PNULL \<Rightarrow> Inl NullDeref
     | PAt d \<Rightarrow>
        (case mem d of
           None \<Rightarrow> Inl BadAccess
         | Some e \<Rightarrow>
             if Item = e then
               bindr (aa_Retrieve T) (\<lambda>v.
                 Inr (RightOf T,
                      s\<lparr>Store := Some (d, v), DeletePtr := PNullNode, Freed := Freed s @ [a]\<rparr>))
             else Inr (T, s)))"

text \<open>The recursive call returns the changed subtree and the state; the owner of a node sees a
  store to it when the call returns.\<close>

fun aa_Remove :: "(nat \<rightharpoonup> int) \<Rightarrow> int \<Rightarrow> aatree \<Rightarrow> aa_state \<Rightarrow> (aatree \<times> aa_state) res" where
  "aa_Remove mem Item Null s = Inr (Null, s)"
| "aa_Remove mem Item (Node l y i r) s =
    (let s = s\<lparr>LastPtr := PAt (snd i)\<rparr> in
     bindr
      (if Item < y
       then bindr (aa_Remove mem Item l s) (\<lambda>(l', s). Inr (Node l' (stored s (snd i) y) i r, s))
       else bindr (aa_Remove mem Item r (s\<lparr>DeletePtr := PAt (snd i)\<rparr>))
              (\<lambda>(r', s). Inr (Node l (stored s (snd i) y) i r', s)))
      (\<lambda>(T, s).
        if LastPtr s = PAt (snd i) then aa_unlink mem Item (snd i) T s
        else bindr (aa_rebalance T) (\<lambda>T. Inr (T, s))))"

section \<open>Searching\<close>

lemma aa_search_eq [simp]:
  "aa_Find x t = st_Find x t" "aa_FindMin t = st_FindMin t" "aa_FindMax t = st_FindMax t"
  by (induction t) auto

lemma aa_Retrieve_node: "st_Retrieve t = Inr x \<Longrightarrow> aa_Retrieve t = Inr x"
  by (cases t) auto

section \<open>The cells of a tree\<close>

text \<open>Elements with the addresses of their nodes, in order. Rotations keep this list.\<close>

fun cells :: "aatree \<Rightarrow> (int \<times> nat) list" where
  "cells Null = []"
| "cells (Node l x i r) = cells l @ (x, snd i) # cells r"

abbreviation addrs :: "aatree \<Rightarrow> nat list" where
  "addrs t \<equiv> map snd (cells t)"

lemma inorder_cells: "inorder t = map fst (cells t)"
  by (induction t) auto

lemma elems_cells: "elems t = fst ` set (cells t)"
  by (metis inorder_cells set_inorder set_map)

lemma set_Level_cells: "set_Level n t = Inr t' \<Longrightarrow> cells t' = cells t"
  by (cases t) auto

lemma Skew_cells: "Skew t = Inr t' \<Longrightarrow> cells t' = cells t"
  by (cases t rule: aa_SingleRotateWithLeft.cases) (auto simp: Skew_def split: if_splits)

lemma Split_cells: "Split t = Inr t' \<Longrightarrow> cells t' = cells t"
  by (cases t rule: aa_SingleRotateWithRight.cases) (auto simp: Split_def split: if_splits)

lemma on_Right_cells:
  assumes "on_Right f t = Inr t'" "\<And>r r'. f r = Inr r' \<Longrightarrow> cells r' = cells r"
  shows "cells t' = cells t"
  using assms by (cases t) (auto simp: bindr_eq_Inr split: if_splits)

lemma on_Right_ops_cells:
  "on_Right Skew t = Inr t' \<Longrightarrow> cells t' = cells t"
  "on_Right Split t = Inr t' \<Longrightarrow> cells t' = cells t"
  "on_Right (set_Level n) t = Inr t' \<Longrightarrow> cells t' = cells t"
  by (erule on_Right_cells, rule Skew_cells Split_cells set_Level_cells, assumption)+

lemma aa_rebalance_cells: "aa_rebalance t = Inr t' \<Longrightarrow> cells t' = cells t"
  by (auto simp: aa_rebalance_def bindr_eq_Inr split: if_splits
      dest!: set_Level_cells Skew_cells Split_cells on_Right_ops_cells
        on_Right_cells [where f = "on_Right Skew", OF _ on_Right_ops_cells(1)])

section \<open>The levels\<close>

fun aa_inv :: "aatree \<Rightarrow> bool" where
  "aa_inv Null = True"
| "aa_inv (Node l x i r) \<longleftrightarrow> aa_inv l \<and> aa_inv r \<and> fst i = Level l + 1 \<and>
     (fst i = Level r + 1 \<or> fst i = Level r \<and> fst i = Level (RightOf r) + 1)"

definition sngl :: "aatree \<Rightarrow> bool" where
  \<comment> \<open>the right child is on a lower level\<close>
  "sngl t \<longleftrightarrow> Level (RightOf t) < Level t"

lemma aa_inv_Level: "aa_inv t \<Longrightarrow> 0 \<le> Level t \<and> (Level t = 0 \<longleftrightarrow> t = Null)"
  by (induction t) auto

lemma aa_inv_Level_pos: "aa_inv t \<Longrightarrow> 0 < n \<Longrightarrow> Level t = n \<Longrightarrow>
    \<exists>l x a r. t = Node l x (n, a) r \<and> aa_inv l \<and> aa_inv r \<and> n = Level l + 1 \<and>
      (n = Level r + 1 \<or> n = Level r \<and> n = Level (RightOf r) + 1)"
  by (cases t) auto

lemma Skew_Node [simp]:
  "Level l \<noteq> n \<Longrightarrow> Skew (Node l x (n, a) r) = Inr (Node l x (n, a) r)"
  "Skew (Node (Node b k (n, c) d) x (n, a) r) = Inr (Node b k (n, c) (Node d x (n, a) r))"
  by (simp_all add: Skew_def)

lemma Split_Node [simp]:
  "Level (RightOf r) \<noteq> n \<Longrightarrow> Split (Node l x (n, a) r) = Inr (Node l x (n, a) r)"
  "Level d = n \<Longrightarrow>
     Split (Node l x (n, a) (Node b k (m, c) d)) = Inr (Node (Node l x (n, a) b) k (m + 1, c) d)"
  by (simp_all add: Split_def)

lemma Skew_id: "aa_inv t \<Longrightarrow> Skew t = Inr t"
  by (cases t) (auto simp: Skew_def)

lemma Level_RightOf: "aa_inv t \<Longrightarrow> Level (RightOf t) \<le> Level t"
  by (cases t) auto

lemma Level_RightOf_ge: "aa_inv t \<Longrightarrow> t \<noteq> Null \<Longrightarrow> Level t - 1 \<le> Level (RightOf t)"
  by (cases t) auto

lemma Split_id: "aa_inv t \<Longrightarrow> t \<noteq> Null \<Longrightarrow> Split t = Inr t"
proof (cases t)
  case (Node l x i r)
  assume "aa_inv t"
  then have "Level (RightOf r) \<noteq> fst i" using Node Level_RightOf [of r] by auto
  then show ?thesis using Node by (cases i) simp
qed simp

text \<open>What an insertion does to the level of a subtree: it may grow by one, and then the children
  are on the same level; a subtree whose root has no child on its level does not grow.\<close>

definition grown :: "aatree \<Rightarrow> aatree \<Rightarrow> bool" where
  "grown t t' \<longleftrightarrow> aa_inv t' \<and> t' \<noteq> Null \<and>
     (Level t' = Level t \<or> Level t' = Level t + 1 \<and> sngl t') \<and> (sngl t \<longrightarrow> Level t' = Level t)"

lemma grown_left:
  assumes inv: "aa_inv (Node l x i r)" and g: "grown l l'"
  shows "\<exists>t'. bindr (Skew (Node l' x i r)) Split = Inr t' \<and> grown (Node l x i r) t'"
proof (cases "Level l' = Level l")
  case True
  then have "aa_inv (Node l' x i r)" using assms by (auto simp: grown_def)
  then show ?thesis by (simp add: Skew_id Split_id grown_def sngl_def del: aa_inv.simps)
next
  case False
  obtain a where i: "i = (Level l + 1, a)" using inv by (cases i) auto
  have up: "aa_inv l'" "Level l' = Level l + 1" "sngl l'" using g False by (auto simp: grown_def)
  have pos: "0 \<le> Level l" "0 \<le> Level r" using inv aa_inv_Level by auto
  obtain b k c d where l': "l' = Node b k (Level l + 1, c) d" "aa_inv b" "aa_inv d"
    "Level b = Level l" "Level d = Level l"
    using aa_inv_Level_pos [OF up(1) _ up(2)] up(3) pos by (auto simp: sngl_def)
  show ?thesis
    using inv i l' pos by (auto simp: Skew_def Split_def grown_def sngl_def)
qed

lemma grown_right:
  assumes inv: "aa_inv (Node l x i r)" and g: "grown r r'"
  shows "\<exists>t'. bindr (Skew (Node l x i r')) Split = Inr t' \<and> grown (Node l x i r) t'"
proof -
  obtain n a where i: "i = (n, a)" by fastforce
  have pos: "0 \<le> Level l" "0 \<le> Level r" "n = Level l + 1" using inv i aa_inv_Level by auto
  have S: "Skew (Node l x i r') = Inr (Node l x i r')" using i pos by (simp add: Skew_def)
  obtain b k m c d where r': "r' = Node b k (m, c) d" using g by (cases r') (auto simp: grown_def)
  show ?thesis
    using inv g S i pos r' by (auto simp: Split_def grown_def sngl_def)
qed

text \<open>What a removal does: the level may drop by one; a root that keeps its level and had no child
  there still has none.\<close>

definition shrunk :: "aatree \<Rightarrow> aatree \<Rightarrow> bool" where
  "shrunk t t' \<longleftrightarrow> aa_inv t' \<and> (Level t' = Level t \<or> Level t' = Level t - 1) \<and>
     (Level t' = Level t \<longrightarrow> sngl t \<longrightarrow> sngl t')"

lemma aa_rebalance_low:
  "Level l < n - 1 \<or> Level r < n - 1 \<Longrightarrow> aa_rebalance (Node l x (n, a) r) =
     bindr (if Level r > n - 1 then bindr (set_Level (n - 1) r) (\<lambda>r. Inr (Node l x (n - 1, a) r))
            else Inr (Node l x (n - 1, a) r)) (\<lambda>T.
       bindr (Skew T) (\<lambda>T.
       bindr (on_Right Skew T) (\<lambda>T.
       bindr (on_Right (on_Right Skew) T) (\<lambda>T.
       bindr (Split T) (\<lambda>T.
       on_Right Split T)))))"
  by (simp add: aa_rebalance_def)

lemma aa_inv_Node_iff: "aa_inv (Node l x (n, a) r) \<longleftrightarrow> aa_inv l \<and> aa_inv r \<and> Level l = n - 1 \<and>
     (Level r = n - 1 \<or> Level r = n \<and> Level (RightOf r) = n - 1)"
  by auto

lemma aa_inv_NodeE:
  assumes "aa_inv t" "Level t = n" "0 < n"
  obtains l x a r where "t = Node l x (n, a) r" "aa_inv l" "aa_inv r" "Level l = n - 1"
    "Level r = n - 1 \<or> Level r = n \<and> Level (RightOf r) = n - 1"
  using aa_inv_Level_pos [of t n] assms by auto

lemmas rebalance_simps = aa_rebalance_low aa_inv_Node_iff sngl_def

lemma rebalance_left_single:
  assumes "aa_inv l'" "Level l' = n - 2" "2 \<le> n" "aa_inv r" "Level r = n - 1"
  shows "\<exists>t'. aa_rebalance (Node l' y (n, a) r) = Inr t' \<and> aa_inv t' \<and>
    (Level t' = n \<and> sngl t' \<or> Level t' = n - 1)"
proof -
  have "0 < n - 1" using assms(3) by simp
  then obtain b k c d where r: "r = Node b k (n - 1, c) d" "aa_inv b" "aa_inv d" "Level b = n - 1 - 1"
    "Level d = n - 1 - 1 \<or> Level d = n - 1 \<and> Level (RightOf d) = n - 1 - 1"
    by (rule aa_inv_NodeE [OF assms(4,5)])
  show ?thesis
  proof (cases "Level d = n - 1")
    case True
    then have "d \<noteq> Null" "Level (RightOf d) = n - 2" using assms r(5) by auto
    with True assms r show ?thesis
      by (auto simp: rebalance_simps Skew_id [OF r(3)] Split_id [OF r(3)] simp del: aa_inv.simps)
  next
    case False
    then have "Level d = n - 2" "Level (RightOf d) \<noteq> n - 1"
      using r(5) Level_RightOf [OF r(3)] by auto
    with assms r show ?thesis
      by (auto simp: rebalance_simps Skew_id [OF r(3)] simp del: aa_inv.simps)
  qed
qed

lemma rebalance_left_double:
  assumes "aa_inv l'" "Level l' = n - 2" "2 \<le> n" "aa_inv r" "Level r = n" "Level (RightOf r) = n - 1"
  shows "\<exists>t'. aa_rebalance (Node l' y (n, a) r) = Inr t' \<and> aa_inv t' \<and> Level t' = n"
proof -
  have pos: "0 < n" "0 < n - 1" using assms(3) by simp_all
  obtain b k c d where r: "r = Node b k (n, c) d" "aa_inv b" "aa_inv d" "Level b = n - 1"
    "Level d = n - 1 \<or> Level d = n \<and> Level (RightOf d) = n - 1"
    by (rule aa_inv_NodeE [OF assms(4,5) pos(1)])
  have dn: "Level d = n - 1" using assms(6) r(1) by simp
  obtain e p f g where b: "b = Node e p (n - 1, f) g" "aa_inv e" "aa_inv g" "Level e = n - 1 - 1"
    "Level g = n - 1 - 1 \<or> Level g = n - 1 \<and> Level (RightOf g) = n - 1 - 1"
    by (rule aa_inv_NodeE [OF r(2,4) pos(2)])
  obtain h q j s where d: "d = Node h q (n - 1, j) s" "aa_inv h" "aa_inv s" "Level h = n - 1 - 1"
    "Level s = n - 1 - 1 \<or> Level s = n - 1 \<and> Level (RightOf s) = n - 1 - 1"
    by (rule aa_inv_NodeE [OF r(3) dn pos(2)])
  show ?thesis
  proof (cases "Level g = n - 1")
    case True
    obtain u v w x where g: "g = Node u v (n - 1, w) x" "aa_inv u" "aa_inv x" "Level u = n - 1 - 1"
      "Level x = n - 1 - 1 \<or> Level x = n - 1 \<and> Level (RightOf x) = n - 1 - 1"
      by (rule aa_inv_NodeE [OF b(3) True pos(2)])
    have "Level x = n - 2" using g(1) b(5) True by auto
    then show ?thesis using assms r(1) b(1,2,4) g(1,2,4) g(3) d
      by (auto simp: rebalance_simps simp del: aa_inv.simps)
  next
    case False
    then have "Level g = n - 2" using b by auto
    then show ?thesis
    proof (cases "Level s = n - 1")
      case True
      then show ?thesis using \<open>Level g = n - 2\<close> assms r(1) b(1,2,3,4) d
        by (auto simp: rebalance_simps simp del: aa_inv.simps)
    next
      case False
      then show ?thesis using \<open>Level g = n - 2\<close> assms r(1) b(1,2,3,4) d
        by (auto simp: rebalance_simps simp del: aa_inv.simps)
    qed
  qed
qed

lemma rebalance_right:
  assumes "aa_inv l" "Level l = n - 1" "2 \<le> n" "aa_inv r'" "Level r' = n - 2"
  shows "\<exists>t'. aa_rebalance (Node l y (n, a) r') = Inr t' \<and> aa_inv t' \<and>
    (Level t' = n \<and> sngl t' \<or> Level t' = n - 1)"
proof -
  have "0 < n - 1" using assms(3) by simp
  then obtain b k c d where l: "l = Node b k (n - 1, c) d" "aa_inv b" "aa_inv d" "Level b = n - 1 - 1"
    "Level d = n - 1 - 1 \<or> Level d = n - 1 \<and> Level (RightOf d) = n - 1 - 1"
    by (rule aa_inv_NodeE [OF assms(1,2)])
  have R: "Level (RightOf r') \<noteq> n - 1" using Level_RightOf [OF assms(4)] assms(5) by simp
  show ?thesis
  proof (cases "Level d = n - 1")
    case True
    obtain u v w x where d: "d = Node u v (n - 1, w) x" "aa_inv u" "aa_inv x" "Level u = n - 1 - 1"
      "Level x = n - 1 - 1 \<or> Level x = n - 1 \<and> Level (RightOf x) = n - 1 - 1"
      by (rule aa_inv_NodeE [OF l(3) True \<open>0 < n - 1\<close>])
    have "Level x = n - 2" using d(1) l(5) True by auto
    then show ?thesis using assms R l(1,2,4) d(1,2,3,4)
      by (auto simp: rebalance_simps simp del: aa_inv.simps)
  next
    case False
    then have "Level d = n - 2" using l by auto
    then show ?thesis using assms R l(1,2,3,4)
      by (auto simp: rebalance_simps Skew_id [OF assms(4)] simp del: aa_inv.simps)
  qed
qed

lemma shrunk_left:
  assumes inv: "aa_inv (Node l x i r)" and g: "shrunk l l'"
  shows "\<exists>t'. aa_rebalance (Node l' y i r) = Inr t' \<and> shrunk (Node l x i r) t'"
proof (cases "Level l' = Level l")
  case True
  then show ?thesis using assms by (auto simp: shrunk_def aa_rebalance_def sngl_def)
next
  case False
  obtain n a where i: "i = (n, a)" by fastforce
  have low: "aa_inv l'" "Level l' = n - 2" "2 \<le> n"
    using g inv i False aa_inv_Level [of l'] by (auto simp: shrunk_def)
  show ?thesis
    using inv low i rebalance_left_single [OF low, of r y a] rebalance_left_double [OF low, of r y a]
    by (auto simp: shrunk_def sngl_def)
qed

lemma shrunk_right:
  assumes inv: "aa_inv (Node l x i r)" and g: "shrunk r r'"
  shows "\<exists>t'. aa_rebalance (Node l y i r') = Inr t' \<and> shrunk (Node l x i r) t'"
proof (cases "Level r' = Level r - 1 \<and> Level r = fst i - 1")
  case True
  obtain n a where i: "i = (n, a)" by fastforce
  have low: "aa_inv l" "Level l = n - 1" "2 \<le> n" "aa_inv r'" "Level r' = n - 2"
    using g inv i True aa_inv_Level [of r'] by (auto simp: shrunk_def)
  show ?thesis using i low inv rebalance_right [OF low, of y a] by (auto simp: shrunk_def sngl_def)
next
  case False
  have "aa_inv r'" "0 < fst i" using assms aa_inv_Level [of l] by (auto simp: shrunk_def)
  then have "Level r' = fst i \<Longrightarrow> fst i - 1 \<le> Level (RightOf r')"
    using Level_RightOf_ge [of r'] by (cases "r' = Null") auto
  then show ?thesis using False assms by (auto simp: shrunk_def aa_rebalance_def sngl_def)
qed

section \<open>Insertion\<close>

lemma aa_Insert_Null: "aa_Insert (Some a) x Null = Inr (Node Null x (1, a) Null)"
  by (simp add: aa_Insert.simps)

lemma aa_Insert_present: "aa_inv t \<Longrightarrow> bst t \<Longrightarrow> x \<in> elems t \<Longrightarrow> aa_Insert m x t = Inr t"
proof (induction t)
  case (Node l y i r)
  from Skew_id [OF Node.prems(1)] Split_id [OF Node.prems(1)]
  have "bindr (Skew (Node l y i r)) Split = Inr (Node l y i r)" by simp
  then show ?case using Node by (subst aa_Insert.simps) auto
qed simp

lemma aa_Insert_no_space:
  "x \<notin> elems t \<Longrightarrow> aa_Insert None x t = Inl (FatalError ''Out of space!!!'')"
  by (induction t) (subst aa_Insert.simps, auto)+

lemma rebuilt: "bindr (Skew t) Split = Inr t' \<Longrightarrow> cells t' = cells t"
  by (auto simp: bindr_eq_Inr dest!: Skew_cells Split_cells)

lemma cells_eqD: "cells t' = cells t \<Longrightarrow> bst t' = bst t \<and> elems t' = elems t"
  by (simp add: inorder_cells inorder_eqD)

lemma aa_Insert_absent:
  "aa_inv t \<Longrightarrow> bst t \<Longrightarrow> x \<notin> elems t \<Longrightarrow>
    \<exists>t'. aa_Insert (Some a) x t = Inr t' \<and> grown t t' \<and> bst t' \<and> elems t' = insert x (elems t) \<and>
      mset (addrs t') = add_mset a (mset (addrs t))"
proof (induction t)
  case Null
  then show ?case by (simp add: aa_Insert_Null grown_def sngl_def)
next
  case (Node l y i r)
  show ?case
  proof (cases "x < y")
    case True
    with Node obtain l' where l': "aa_Insert (Some a) x l = Inr l'" "grown l l'" "bst l'"
      "elems l' = insert x (elems l)" "mset (addrs l') = add_mset a (mset (addrs l))" by auto
    obtain t' where t': "bindr (Skew (Node l' y i r)) Split = Inr t'" "grown (Node l y i r) t'"
      using grown_left [OF Node.prems(1) l'(2)] by blast
    have "aa_Insert (Some a) x (Node l y i r) = Inr t'"
      using True l'(1) t'(1) by (subst aa_Insert.simps) simp
    then show ?thesis
      using t'(2) rebuilt [OF t'(1)] cells_eqD [OF rebuilt [OF t'(1)]] l' Node.prems True by auto
  next
    case False
    with Node have "y < x" by auto
    with Node obtain r' where r': "aa_Insert (Some a) x r = Inr r'" "grown r r'" "bst r'"
      "elems r' = insert x (elems r)" "mset (addrs r') = add_mset a (mset (addrs r))" by auto
    obtain t' where t': "bindr (Skew (Node l y i r')) Split = Inr t'" "grown (Node l y i r) t'"
      using grown_right [OF Node.prems(1) r'(2)] by blast
    have "aa_Insert (Some a) x (Node l y i r) = Inr t'"
      using \<open>y < x\<close> r'(1) t'(1) by (subst aa_Insert.simps) simp
    then show ?thesis
      using t'(2) rebuilt [OF t'(1)] cells_eqD [OF rebuilt [OF t'(1)]] r' Node.prems \<open>y < x\<close> by auto
  qed
qed

section \<open>Removal\<close>

definition knows :: "(nat \<rightharpoonup> int) \<Rightarrow> aatree \<Rightarrow> bool" where
  "knows mem t \<longleftrightarrow> (\<forall>(e, a) \<in> set (cells t). mem a = Some e)"

lemma knows_Node [simp]:
  "knows mem (Node l y i r) \<longleftrightarrow> knows mem l \<and> mem (snd i) = Some y \<and> knows mem r"
  by (auto simp: knows_def)

text \<open>A value of \<open>DeletePtr\<close> that makes step 2 of \<open>Remove\<close> do nothing.\<close>

definition nomatch :: "(nat \<rightharpoonup> int) \<Rightarrow> int \<Rightarrow> aa_ptr \<Rightarrow> bool" where
  "nomatch mem x p \<longleftrightarrow> (case p of PNULL \<Rightarrow> False | PNullNode \<Rightarrow> True
     | PAt d \<Rightarrow> (case mem d of None \<Rightarrow> False | Some e \<Rightarrow> e \<noteq> x))"

lemma unlink_nomatch: "nomatch mem x (DeletePtr s) \<Longrightarrow> aa_unlink mem x a T s = Inr (T, s)"
  by (auto simp: nomatch_def aa_unlink_def split: aa_ptr.splits option.splits)

lemma unlink_match:
  "DeletePtr s = PAt d \<Longrightarrow> mem d = Some x \<Longrightarrow> aa_unlink mem x a (Node l y i r) s =
     Inr (r, s\<lparr>Store := Some (d, y), DeletePtr := PNullNode, Freed := Freed s @ [a]\<rparr>)"
  by (simp add: aa_unlink_def)

lemma rebalance_id: "aa_inv t \<Longrightarrow> aa_rebalance t = Inr t"
  by (cases t) (auto simp: aa_rebalance_def)

lemma remove_absent:
  "x \<notin> elems t \<Longrightarrow> aa_inv t \<Longrightarrow> distinct (addrs t) \<Longrightarrow> knows mem t \<Longrightarrow> Store s = None \<Longrightarrow>
   nomatch mem x (DeletePtr s) \<Longrightarrow>
   \<exists>s'. aa_Remove mem x t s = Inr (t, s') \<and> Store s' = None \<and> Freed s' = Freed s \<and>
     nomatch mem x (DeletePtr s') \<and> (t = Null \<longrightarrow> s' = s) \<and>
     (t \<noteq> Null \<longrightarrow> LastPtr s' \<in> PAt ` set (addrs t)) \<and>
     (DeletePtr s' = DeletePtr s \<or> DeletePtr s' \<in> PAt ` set (addrs t))"
proof (induction t arbitrary: s)
  case (Node l y i r)
  define c where "c = (if x < y then l else r)"
  define s1 where "s1 = (if x < y then s\<lparr>LastPtr := PAt (snd i)\<rparr>
    else s\<lparr>LastPtr := PAt (snd i), DeletePtr := PAt (snd i)\<rparr>)"
  have s1: "Store s1 = None" "Freed s1 = Freed s" "LastPtr s1 = PAt (snd i)" "nomatch mem x (DeletePtr s1)"
    "DeletePtr s1 = DeletePtr s \<or> DeletePtr s1 = PAt (snd i)"
    using Node.prems by (auto simp: s1_def nomatch_def)
  have pre: "x \<notin> elems c" "aa_inv c" "distinct (addrs c)" "knows mem c"
    using Node.prems by (auto simp: c_def)
  have c: "c = l \<or> c = r" by (simp add: c_def)
  obtain s' where s': "aa_Remove mem x c s1 = Inr (c, s')" "Store s' = None" "Freed s' = Freed s1"
    "nomatch mem x (DeletePtr s')" "c = Null \<longrightarrow> s' = s1"
    "c \<noteq> Null \<longrightarrow> LastPtr s' \<in> PAt ` set (addrs c)"
    "DeletePtr s' = DeletePtr s1 \<or> DeletePtr s' \<in> PAt ` set (addrs c)"
    using c Node.IH(1) [of s1] Node.IH(2) [of s1] pre s1(1,4) by (elim disjE) blast+
  have sub: "PAt ` set (addrs c) \<subseteq> PAt ` set (addrs (Node l y i r))"
      "PAt (snd i) \<in> PAt ` set (addrs (Node l y i r))" by (auto simp: c_def)
  have "aa_Remove mem x (Node l y i r) s = Inr (Node l y i r, s')"
  proof (cases "LastPtr s' = PAt (snd i)")
    case True
    then show ?thesis using s'(1,2) unlink_nomatch [OF s'(4)]
      by (cases "x < y") (simp_all add: c_def s1_def stored_def)
  next
    case False
    then show ?thesis using s'(1,2) rebalance_id [OF Node.prems(2)]
      by (cases "x < y") (simp_all add: c_def s1_def stored_def)
  qed
  moreover have "LastPtr s' \<in> PAt ` set (addrs (Node l y i r))"
    using s'(5,6) s1(3) sub by (metis subsetD)
  moreover have "DeletePtr s' = DeletePtr s \<or> DeletePtr s' \<in> PAt ` set (addrs (Node l y i r))"
    using s'(7) s1(5) sub by (metis subsetD)
  ultimately show ?case using s' s1 by simp
qed simp

lemma remove_least:
  "t \<noteq> Null \<Longrightarrow> \<forall>y \<in> elems t. x < y \<Longrightarrow> aa_inv t \<Longrightarrow> distinct (addrs t) \<Longrightarrow> d \<notin> set (addrs t) \<Longrightarrow>
   mem d = Some x \<Longrightarrow> DeletePtr s = PAt d \<Longrightarrow> Store s = None \<Longrightarrow>
   \<exists>t' s' m f. aa_Remove mem x t s = Inr (t', s') \<and> cells t = (m, f) # cells t' \<and> shrunk t t' \<and>
     LastPtr s' = PAt f \<and> Store s' = Some (d, m) \<and> DeletePtr s' = PNullNode \<and> Freed s' = Freed s @ [f]"
proof (induction t arbitrary: s)
  case (Node l y i r)
  show ?case
  proof (cases "l = Null")
    case True
    have "shrunk (Node l y i r) r" using True Node.prems(3) by (auto simp: shrunk_def sngl_def)
    then show ?thesis using True Node.prems by (auto simp: stored_def unlink_match)
  next
    case False
    let ?s = "s\<lparr>LastPtr := PAt (snd i)\<rparr>"
    obtain l' s' m f where l': "aa_Remove mem x l ?s = Inr (l', s')" "cells l = (m, f) # cells l'"
      "shrunk l l'" "LastPtr s' = PAt f" "Store s' = Some (d, m)" "DeletePtr s' = PNullNode"
      "Freed s' = Freed s @ [f]"
      using Node.IH(1) [of ?s] False Node.prems by auto
    have d: "d \<noteq> snd i" "f \<noteq> snd i" using Node.prems l'(2) by auto
    obtain t' where t': "aa_rebalance (Node l' y i r) = Inr t'" "shrunk (Node l y i r) t'"
      using shrunk_left [OF Node.prems(3) l'(3)] by blast
    have "aa_Remove mem x (Node l y i r) s = Inr (t', s')"
      using l' d t'(1) Node.prems(2) by (simp add: stored_def)
    then show ?thesis using l' t'(2) aa_rebalance_cells [OF t'(1)] by auto
  qed
qed simp

lemma stored_other: "fst (the (Store s)) \<noteq> a \<Longrightarrow> stored s a y = y"
  by (auto simp: stored_def split: option.splits)

lemma remove_present:
  "x \<in> elems t \<Longrightarrow> bst t \<Longrightarrow> aa_inv t \<Longrightarrow> distinct (addrs t) \<Longrightarrow> knows mem t \<Longrightarrow> Store s = None \<Longrightarrow>
   \<exists>t' s' f. aa_Remove mem x t s = Inr (t', s') \<and> inorder t' = remove1 x (inorder t) \<and>
     f \<in> set (addrs t) \<and> addrs t' = remove1 f (addrs t) \<and> shrunk t t' \<and> LastPtr s' = PAt f \<and>
     fst (the (Store s')) \<in> set (addrs t) \<and> Store s' \<noteq> None \<and>
     DeletePtr s' = PNullNode \<and> Freed s' = Freed s @ [f]"
proof (induction t arbitrary: s)
  case (Node l y i r)
  note inv = Node.prems(3)
  have notin: "snd i \<notin> set (addrs l)" "snd i \<notin> set (addrs r)" "set (addrs l) \<inter> set (addrs r) = {}"
    using Node.prems(4) by auto
  have elx: "x \<in> set (inorder l) \<longleftrightarrow> x \<in> elems l" by (simp add: set_inorder)
  let ?s = "s\<lparr>LastPtr := PAt (snd i)\<rparr>"
  show ?case
  proof (cases x y rule: linorder_cases)
    case less
    then have x: "x \<in> elems l" "bst l" "aa_inv l" "distinct (addrs l)" "knows mem l" "Store ?s = None"
      using Node.prems by auto
    obtain l' s' f where l': "aa_Remove mem x l ?s = Inr (l', s')" "inorder l' = remove1 x (inorder l)"
      "f \<in> set (addrs l)" "addrs l' = remove1 f (addrs l)" "shrunk l l'" "LastPtr s' = PAt f"
      "fst (the (Store s')) \<in> set (addrs l)" "Store s' \<noteq> None"
      "DeletePtr s' = PNullNode" "Freed s' = Freed ?s @ [f]"
      using Node.IH(1) [OF x] by blast
    have st: "stored s' (snd i) y = y" "snd i \<noteq> f" using l'(3,7) notin by (metis stored_other)+
    obtain t' where t': "aa_rebalance (Node l' y i r) = Inr t'" "shrunk (Node l y i r) t'"
      using shrunk_left [OF inv l'(5)] by blast
    have "aa_Remove mem x (Node l y i r) s = Inr (t', s')"
      using l'(1,6) st t'(1) less by simp
    moreover have "cells t' = cells l' @ (y, snd i) # cells r" using aa_rebalance_cells [OF t'(1)] by simp
    moreover have "inorder l' = map fst (cells l')" "inorder t' = map fst (cells t')"
      by (simp_all add: inorder_cells)
    ultimately show ?thesis using l' t'(2) x(1) elx
      by (simp add: remove1_append inorder_cells [symmetric])
  next
    case greater
    let ?s = "s\<lparr>LastPtr := PAt (snd i), DeletePtr := PAt (snd i)\<rparr>"
    from greater have x: "x \<in> elems r" "bst r" "aa_inv r" "distinct (addrs r)" "knows mem r" "Store ?s = None"
      using Node.prems by auto
    have xl: "x \<notin> elems l" using bst_notin_left [OF Node.prems(2), of x] greater by simp
    obtain r' s' f where r': "aa_Remove mem x r ?s = Inr (r', s')" "inorder r' = remove1 x (inorder r)"
      "f \<in> set (addrs r)" "addrs r' = remove1 f (addrs r)" "shrunk r r'" "LastPtr s' = PAt f"
      "fst (the (Store s')) \<in> set (addrs r)" "Store s' \<noteq> None"
      "DeletePtr s' = PNullNode" "Freed s' = Freed ?s @ [f]"
      using Node.IH(2) [OF x] by blast
    have st: "stored s' (snd i) y = y" "snd i \<noteq> f" "f \<notin> set (addrs l)"
      using r'(3,7) notin by (metis stored_other disjoint_iff)+
    obtain t' where t': "aa_rebalance (Node l y i r') = Inr t'" "shrunk (Node l y i r) t'"
      using shrunk_right [OF inv r'(5)] by blast
    have "aa_Remove mem x (Node l y i r) s = Inr (t', s')"
      using r'(1,6) st t'(1) greater by simp
    moreover have "cells t' = cells l @ (y, snd i) # cells r'" using aa_rebalance_cells [OF t'(1)] by simp
    moreover have "inorder r' = map fst (cells r')" "inorder t' = map fst (cells t')"
      by (simp_all add: inorder_cells)
    ultimately show ?thesis using r' t'(2) xl st elx greater
      by (simp add: remove1_append inorder_cells [symmetric])
  next
    case equal
    let ?s = "s\<lparr>LastPtr := PAt (snd i), DeletePtr := PAt (snd i)\<rparr>"
    have xl: "x \<notin> elems l" using bst_notin_left [OF Node.prems(2), of x] equal by simp
    show ?thesis
    proof (cases "r = Null")
      case True
      then have "l = Null" using inv aa_inv_Level [of l] by auto
      then show ?thesis using True equal Node.prems
        by (auto simp: stored_def unlink_match shrunk_def sngl_def)
    next
      case False
      have x: "\<forall>z \<in> elems r. x < z" "aa_inv r" "distinct (addrs r)" "snd i \<notin> set (addrs r)"
        "mem (snd i) = Some x" "DeletePtr ?s = PAt (snd i)" "Store ?s = None"
        using Node.prems equal by auto
      obtain r' s' m f where r': "aa_Remove mem x r ?s = Inr (r', s')" "cells r = (m, f) # cells r'"
        "shrunk r r'" "LastPtr s' = PAt f" "Store s' = Some (snd i, m)" "DeletePtr s' = PNullNode"
        "Freed s' = Freed ?s @ [f]"
        using remove_least [where s = ?s and mem = mem, OF False x] by blast
      obtain t' where t': "aa_rebalance (Node l m i r') = Inr t'" "shrunk (Node l y i r) t'"
        using shrunk_right [OF inv r'(3)] by blast
      have f: "f \<noteq> snd i" "f \<notin> set (addrs l)" using notin r'(2) by auto
      have "aa_Remove mem x (Node l y i r) s = Inr (t', s')"
        using r'(1,4,5) t'(1) equal f by (simp add: stored_def)
      moreover have "cells t' = cells l @ (m, snd i) # cells r'" using aa_rebalance_cells [OF t'(1)] by simp
      moreover have "inorder r = m # inorder r'" "inorder t' = map fst (cells t')"
        by (simp_all add: inorder_cells r'(2))
      ultimately show ?thesis using r' t'(2) xl f elx equal
        by (simp add: remove1_append inorder_cells [symmetric])
    qed
  qed
qed simp

lemma bst_remove1:
  assumes "bst t" "x \<in> elems t" "inorder t' = remove1 x (inorder t)"
  shows "bst t' \<and> elems t' = elems t - {x}"
proof -
  have "sorted (inorder t)" "distinct (inorder t)"
    using sorted_inorder [OF assms(1)] by (simp_all add: strict_sorted_iff)
  then show ?thesis
    using assms(3) by (simp add: bst_iff_inorder strict_sorted_iff sorted_remove1 flip: set_inorder)
qed

section \<open>A client of the tree\<close>

text \<open>The state of a client is the tree with the static variables. \<open>malloc\<close> returns an
  address no node of the tree has; a \<open>Remove\<close> sees the elements of the tree.\<close>

definition fresh :: "aatree \<Rightarrow> nat" where
  "fresh t = Suc (foldr max (addrs t) 0)"

definition aa_mem :: "aatree \<Rightarrow> nat \<rightharpoonup> int" where
  "aa_mem t = map_of (map prod.swap (cells t))"

definition aa_start :: aa_state where
  "aa_start = \<lparr>DeletePtr = PNULL, LastPtr = PNULL, Store = None, Freed = []\<rparr>"

fun aa_ins :: "int \<Rightarrow> aatree \<times> aa_state \<Rightarrow> (aatree \<times> aa_state) res" where
  "aa_ins x (t, s) = bindr (aa_Insert (Some (fresh t)) x t) (\<lambda>t'. Inr (t', s))"

fun aa_del :: "int \<Rightarrow> aatree \<times> aa_state \<Rightarrow> (aatree \<times> aa_state) res" where
  "aa_del x (t, s) = aa_Remove (aa_mem t) x t (s\<lparr>Store := None\<rparr>)"

definition aa_ok :: "aatree \<Rightarrow> bool" where
  "aa_ok t \<longleftrightarrow> aa_inv t \<and> bst t \<and> distinct (addrs t)"

lemma foldr_max_ge: "x \<in> set xs \<Longrightarrow> x \<le> foldr max xs (0::nat)"
  by (induction xs) auto

lemma fresh_notin: "fresh t \<notin> set (addrs t)"
  using foldr_max_ge [of "fresh t" "addrs t"] unfolding fresh_def by fastforce

lemma knows_aa_mem: "distinct (addrs t) \<Longrightarrow> knows (aa_mem t) t"
  by (auto simp: knows_def aa_mem_def comp_def map_of_eq_Some_iff)

lemma aa_Insert_ok:
  assumes "aa_ok t" "a \<notin> set (addrs t)"
  shows "\<exists>t'. aa_Insert (Some a) x t = Inr t' \<and> aa_ok t' \<and> elems t' = insert x (elems t) \<and> set (addrs t) \<subseteq> set (addrs t')"
proof (cases "x \<in> elems t")
  case True
  then show ?thesis using assms aa_Insert_present by (auto simp: aa_ok_def)
next
  case False
  then obtain t' where t': "aa_Insert (Some a) x t = Inr t'" "grown t t'" "bst t'"
    "elems t' = insert x (elems t)" "mset (addrs t') = mset (a # addrs t)"
    using aa_Insert_absent [of t x a] assms(1) by (auto simp: aa_ok_def)
  have "set (addrs t') = set (a # addrs t)" using mset_eq_setD [OF t'(5)] by simp
  then have "set (addrs t) \<subseteq> set (addrs t')" by auto
  then show ?thesis using t' assms mset_eq_imp_distinct_iff [OF t'(5)] by (auto simp: aa_ok_def grown_def)
qed

lemma aa_del_ok:
  assumes "aa_ok t" "x \<in> elems t"
  shows "\<exists>t' s'. aa_del x (t, s) = Inr (t', s') \<and> aa_ok t' \<and> elems t' = elems t - {x}"
proof -
  have ok: "bst t" "aa_inv t" "distinct (addrs t)" using assms(1) by (simp_all add: aa_ok_def)
  have "Store (s\<lparr>Store := None\<rparr>) = None" by simp
  then obtain t' s' f where t': "aa_del x (t, s) = Inr (t', s')" "inorder t' = remove1 x (inorder t)"
    "addrs t' = remove1 f (addrs t)" "shrunk t t'"
    using remove_present [OF assms(2) ok knows_aa_mem [OF ok(3)], of "s\<lparr>Store := None\<rparr>"] by auto
  moreover have "distinct (addrs t')" using t'(3) ok(3) by simp
  ultimately show ?thesis using bst_remove1 [OF ok(1) assms(2) t'(2)] by (auto simp: aa_ok_def shrunk_def)
qed

interpretation aat: ordered_set_del "(Null, s)" aa_ins "\<lambda>x (t, s). aa_Find x t \<noteq> Null"
  "\<lambda>(t, s). elems t" "\<lambda>(t, s). aa_ok t" aa_del for s
proof (unfold_locales, goal_cases)
  case 1
  then show ?case by (simp add: aa_ok_def)
next
  case (3 t x)
  then show ?case using aa_Insert_ok [of "fst t" "fresh (fst t)" x] fresh_notin [of "fst t"]
    by (cases t) auto
next
  case (4 t x)
  then show ?case using st_Find_mem by (auto simp: aa_ok_def split: prod.splits)
next
  case (5 t x)
  then show ?case using aa_del_ok [of "fst t" x "snd t"] by (cases t) auto
qed simp

text \<open>The level is logarithmic in the number of nodes, and paths have at most two nodes of a
  level.\<close>

fun path_max :: "aatree \<Rightarrow> nat" where
  "path_max Null = 0"
| "path_max (Node l x i r) = Suc (max (path_max l) (path_max r))"

lemma aa_inv_size: "aa_inv t \<Longrightarrow> 2 ^ nat (Level t) \<le> nodes t + 1"
proof (induction t)
  case (Node l x i r)
  have p: "0 \<le> Level l" "nat (fst i) = Suc (nat (Level l))"
    using Node.prems aa_inv_Level [of l] by auto
  have "(2::nat) ^ nat (Level l) \<le> 2 ^ nat (Level r)"
    using Node.prems by (intro power_increasing) auto
  then show ?case using Node p by auto
qed simp

lemma aa_inv_path:
  "aa_inv t \<Longrightarrow> int (path_max t) \<le> 2 * Level t \<and> (sngl t \<longrightarrow> int (path_max t) \<le> 2 * Level t - 1)"
proof (induction t)
  case (Node l x i r)
  have "fst i = Level r \<Longrightarrow> sngl r" using Node.prems by (auto simp: sngl_def)
  then show ?case using Node aa_inv_Level [of l] by (auto simp: sngl_def)
qed (simp add: sngl_def)

text \<open>\<open>Remove\<close> of an absent element leaves the tree as it is and keeps \<open>DeletePtr\<close>
  harmless when \<open>DeletePtr\<close> is \<open>NullNode\<close> or points into the tree; but the very
  first \<open>Remove\<close> of the program dereferences \<open>NULL\<close> when the element is smaller than
  all elements of the tree, since the static variable starts as \<open>NULL\<close> and the code tests it
  against \<open>NullNode\<close>.\<close>

lemma absent_kept:
  assumes "aa_ok t" "x \<notin> elems t" "DeletePtr s = PNullNode \<or> DeletePtr s \<in> PAt ` set (addrs t)"
  shows "\<exists>s'. aa_del x (t, s) = Inr (t, s') \<and> Freed s' = Freed s \<and>
    (DeletePtr s' = PNullNode \<or> DeletePtr s' \<in> PAt ` set (addrs t))"
proof -
  have ok: "aa_inv t" "distinct (addrs t)" using assms(1) by (simp_all add: aa_ok_def)
  note kn = knows_aa_mem [OF ok(2)]
  let ?s = "s\<lparr>Store := None\<rparr>"
  have "Store ?s = None" "nomatch (aa_mem t) x (DeletePtr ?s)"
    using assms(3) kn assms(2) by (force simp: nomatch_def knows_def elems_cells)+
  then obtain s' where "aa_Remove (aa_mem t) x t ?s = Inr (t, s')" "Freed s' = Freed ?s"
    "DeletePtr s' = DeletePtr ?s \<or> DeletePtr s' \<in> PAt ` set (addrs t)"
    using remove_absent [OF assms(2) ok kn, of ?s] by blast
  then show ?thesis using assms(3) by (simp del: set_map) metis
qed

lemma smaller_than_all:
  "t \<noteq> Null \<Longrightarrow> \<forall>y \<in> elems t. x < y \<Longrightarrow> DeletePtr s = PNULL \<Longrightarrow> aa_Remove mem x t s = Inl NullDeref"
proof (induction t arbitrary: s)
  case (Node l y i r)
  then show ?case by (cases "l = Null") (auto simp: aa_unlink_def)
qed simp

theorem AATree_Remove_absent:
  assumes "aa_ok t" "x \<notin> elems t"
  shows "(DeletePtr s = PNullNode \<or> DeletePtr s \<in> PAt ` set (addrs t) \<longrightarrow>
      (\<exists>s'. aa_del x (t, s) = Inr (t, s') \<and> Freed s' = Freed s \<and>
         (DeletePtr s' = PNullNode \<or> DeletePtr s' \<in> PAt ` set (addrs t)))) \<and>
    (t \<noteq> Null \<and> (\<forall>y \<in> elems t. x < y) \<longrightarrow> aa_del x (t, aa_start) = Inl NullDeref)"
  using absent_kept [OF assms] smaller_than_all [of t x] by (simp add: aa_start_def)

lemma AATree_Remove_absent_witness:
  "aa_ok (Node Null 5 (1, 1) Null) \<and> 3 \<notin> elems (Node Null 5 (1, 1::nat) Null) \<and>
   aa_del 3 (Node Null 5 (1, 1) Null, aa_start) = Inl NullDeref"
  using AATree_Remove_absent [of "Node Null 5 (1, 1) Null" 3 aa_start] by (simp add: aa_ok_def)

section \<open>Sequences of calls\<close>

text \<open>
  What a sequence of \<open>Insert\<close> and \<open>Remove\<close> does to the set of elements, with absent elements
  removed as well. \<open>b\<close> says that a \<open>Remove\<close> on a tree that was not empty has returned: before the
  first one \<open>DeletePtr\<close> is \<open>NULL\<close>, and removing an element smaller than all others dereferences it.
\<close>

fun aa_spec :: "set_op list \<Rightarrow> int set \<Rightarrow> bool \<Rightarrow> int set res" where
  "aa_spec [] S b = Inr S"
| "aa_spec (OpInsert x # ops) S b = aa_spec ops (insert x S) b"
| "aa_spec (OpDelete x # ops) S b =
    (if S = {} then aa_spec ops S b
     else if \<not> b \<and> (\<forall>y \<in> S. x < y) then Inl NullDeref
     else aa_spec ops (S - {x}) True)"

definition pointer_ok :: "bool \<Rightarrow> aatree \<Rightarrow> aa_state \<Rightarrow> bool" where
  "pointer_ok b t s \<longleftrightarrow>
    (if b then DeletePtr s = PNullNode \<or> DeletePtr s \<in> PAt ` set (addrs t) else DeletePtr s = PNULL)"

text \<open>Where some element is not greater, the old value of \<open>DeletePtr\<close> does not matter.\<close>

lemma aa_Remove_DeletePtr:
  "bst t \<Longrightarrow> \<exists>y \<in> elems t. y \<le> x \<Longrightarrow> s2 = s\<lparr>DeletePtr := p\<rparr> \<Longrightarrow>
   aa_Remove mem x t s2 = aa_Remove mem x t s"
proof (induction t arbitrary: s s2)
  case (Node l y i r)
  show ?case
  proof (cases "x < y")
    case True
    then have "\<exists>z \<in> elems l. z \<le> x" using Node.prems by force
    moreover have "s2\<lparr>LastPtr := PAt (snd i)\<rparr> = s\<lparr>LastPtr := PAt (snd i)\<rparr>\<lparr>DeletePtr := p\<rparr>" using Node.prems(3) by simp
    ultimately have "aa_Remove mem x l (s2\<lparr>LastPtr := PAt (snd i)\<rparr>) = aa_Remove mem x l (s\<lparr>LastPtr := PAt (snd i)\<rparr>)"
      using Node.IH(1) Node.prems(1) by simp
    then show ?thesis using True by (simp add: Let_def)
  qed (simp add: Let_def Node.prems(3))
qed simp

lemma aa_del_pointer:
  assumes "aa_ok t" "t \<noteq> Null" "pointer_ok b t s" "b \<or> (\<exists>y \<in> elems t. y \<le> x)"
  shows "\<exists>t' s'. aa_del x (t, s) = Inr (t', s') \<and> aa_ok t' \<and> elems t' = elems t - {x} \<and> pointer_ok True t' s'"
proof -
  define s0 where "s0 = (if b then s else s\<lparr>DeletePtr := PNullNode\<rparr>)"
  have ok: "bst t" "aa_inv t" "distinct (addrs t)" using assms(1) by (simp_all add: aa_ok_def)
  have "s0\<lparr>Store := None\<rparr> = s\<lparr>Store := None\<rparr>\<lparr>DeletePtr := PNullNode\<rparr>" if "\<not> b" using that by (simp add: s0_def)
  then have same: "aa_del x (t, s) = aa_del x (t, s0)"
    using aa_Remove_DeletePtr [OF ok(1) _, where x = x and mem = "aa_mem t" and p = PNullNode
      and s = "s\<lparr>Store := None\<rparr>" and ?s2.0 = "s0\<lparr>Store := None\<rparr>"] assms(4)
    by (cases b) (simp_all add: s0_def)
  have p: "pointer_ok True t s0" using assms(3) by (auto simp: s0_def pointer_ok_def)
  show ?thesis
  proof (cases "x \<in> elems t")
    case True
    have "Store (s0\<lparr>Store := None\<rparr>) = None" by simp
    then obtain t' s' f where t': "aa_del x (t, s0) = Inr (t', s')" "inorder t' = remove1 x (inorder t)"
      "addrs t' = remove1 f (addrs t)" "shrunk t t'" "DeletePtr s' = PNullNode"
      using remove_present [OF True ok knows_aa_mem [OF ok(3)], of "s0\<lparr>Store := None\<rparr>"] by auto
    have "distinct (addrs t')" using t'(3) ok(3) by simp
    then show ?thesis using t'(1,4,5) bst_remove1 [OF ok(1) True t'(2)] same by (auto simp: aa_ok_def shrunk_def pointer_ok_def)
  next
    case False
    then obtain s' where "aa_del x (t, s0) = Inr (t, s')" "pointer_ok True t s'"
      using absent_kept [OF assms(1) False, of s0] p by (auto simp: pointer_ok_def)
    then show ?thesis using assms(1) False same by auto
  qed
qed

lemma aa_calls:
  assumes "aa_ok t" "elems t = S" "pointer_ok b t s"
  shows "case aa_spec ops S b of
      Inl e \<Rightarrow> set_exec aa_ins aa_del ops (t, s) = Inl e
    | Inr S' \<Rightarrow> \<exists>t' s'. set_exec aa_ins aa_del ops (t, s) = Inr (t', s') \<and> aa_ok t' \<and> elems t' = S'"
  using assms
proof (induction ops arbitrary: t s S b)
  case (Cons p ops)
  show ?case
  proof (cases p)
    case (OpInsert x)
    obtain t' where t': "aa_Insert (Some (fresh t)) x t = Inr t'" "aa_ok t'" "elems t' = insert x S" "set (addrs t) \<subseteq> set (addrs t')"
      using aa_Insert_ok [OF Cons.prems(1) fresh_notin, of x] unfolding Cons.prems(2) by blast
    have "pointer_ok b t' s" using Cons.prems(3) image_mono [OF t'(4), of PAt]
      unfolding pointer_ok_def by (simp del: set_map split: if_splits) blast
    from Cons.IH [OF t'(2,3) this] show ?thesis using t'(1) OpInsert by (simp cong: sum.case_cong)
  next
    case (OpDelete x)
    have e: "S = {} \<longleftrightarrow> t = Null" using Cons.prems(2) by (cases t) auto
    consider "t = Null" | "t \<noteq> Null" "\<not> b" "\<forall>y \<in> S. x < y" | "t \<noteq> Null" "b \<or> (\<exists>y \<in> elems t. y \<le> x)"
      using Cons.prems(2) by force
    then show ?thesis
    proof cases
      case 1
      have "pointer_ok b t (s\<lparr>Store := None\<rparr>)" using Cons.prems(3) by (simp add: pointer_ok_def del: set_map)
      from Cons.IH [OF Cons.prems(1,2) this] show ?thesis using 1 e OpDelete by (simp cong: sum.case_cong)
    next
      case 2
      have "aa_del x (t, s) = Inl NullDeref"
        using smaller_than_all [OF 2(1)] 2 Cons.prems(2,3) by (simp add: pointer_ok_def)
      then show ?thesis using 2 e OpDelete by simp
    next
      case 3
      obtain t' s' where t': "aa_del x (t, s) = Inr (t', s')" "aa_ok t'" "elems t' = S - {x}" "pointer_ok True t' s'"
        using aa_del_pointer [OF Cons.prems(1) 3(1) Cons.prems(3) 3(2)] Cons.prems(2) by blast
      have "\<not> (\<not> b \<and> (\<forall>y \<in> S. x < y))" using 3(2) Cons.prems(2) by force
      then have "aa_spec (p # ops) S b = aa_spec ops (S - {x}) True" using 3(1) e OpDelete by auto
      moreover have "set_exec aa_ins aa_del (p # ops) (t, s) = set_exec aa_ins aa_del ops (t', s')"
        using t'(1) OpDelete by (simp del: aa_del.simps)
      ultimately show ?thesis using Cons.IH [OF t'(2,3,4)] by (simp cong: sum.case_cong)
    qed
  qed
qed simp

section \<open>Properties\<close>

text \<open>C32: every sequence of insertions and removals on the AA tree of \<^verbatim>\<open>aatree.c\<close>, of present
  and of absent elements, starting with an empty tree and the static variables \<open>NULL\<close>, either ends in an AA tree
  whose in-order traversal is the sorted list of the elements that the operations leave in a set, with
  \<open>Find\<close>, \<open>FindMin\<close> and \<open>FindMax\<close> returning the nodes of these elements and no path
  longer than twice the logarithm of their number; or it dereferences \<open>NULL\<close>, and that exactly if its first
  \<open>Remove\<close> on a tree that is not empty asks for an element smaller than all that are in it.\<close>

theorem AATree_refines_set:
  "case aa_spec ops {} False of
     Inl e \<Rightarrow> set_exec aa_ins aa_del ops (Null, aa_start) = Inl e
   | Inr S \<Rightarrow> \<exists>t s. set_exec aa_ins aa_del ops (Null, aa_start) = Inr (t, s) \<and> aa_inv t \<and>
      inorder t = sorted_list_of_set S \<and> (\<forall>x. aa_Find x t \<noteq> Null \<longleftrightarrow> x \<in> S) \<and>
      (\<forall>x \<in> S. aa_Retrieve (aa_Find x t) = Inr x) \<and>
      (S \<noteq> {} \<longrightarrow> aa_Retrieve (aa_FindMin t) = Inr (Min S) \<and> aa_Retrieve (aa_FindMax t) = Inr (Max S)) \<and>
      int (path_max t) \<le> 2 * Level t \<and> 2 ^ nat (Level t) \<le> card S + 1"
proof (cases "aa_spec ops {} False")
  case (Inl e)
  then show ?thesis using aa_calls [of Null "{}" False aa_start ops] by (simp add: aa_ok_def pointer_ok_def aa_start_def)
next
  case (Inr S)
  then obtain t s where t: "set_exec aa_ins aa_del ops (Null, aa_start) = Inr (t, s)" "aa_ok t" "elems t = S"
    using aa_calls [of Null "{}" False aa_start ops] by (auto simp: aa_ok_def pointer_ok_def aa_start_def)
  have b: "bst t" "aa_inv t" using t(2) by (simp_all add: aa_ok_def)
  have e: "t \<noteq> Null" if "S \<noteq> {}" using that t(3) by auto
  have "inorder t = sorted_list_of_set S" using inorder_sorted_list [OF b(1)] t(3) by simp
  moreover have "\<forall>x. aa_Find x t \<noteq> Null \<longleftrightarrow> x \<in> S" using st_Find_mem [OF b(1)] t(3) by simp
  moreover have "\<forall>x \<in> S. aa_Retrieve (aa_Find x t) = Inr x"
    using Retrieve_Find [OF b(1)] t(3) by (simp add: aa_Retrieve_node)
  moreover have "aa_Retrieve (aa_FindMin t) = Inr (Min S)" "aa_Retrieve (aa_FindMax t) = Inr (Max S)"
    if "S \<noteq> {}"
    using Retrieve_FindMin [OF b(1) e [OF that]] Retrieve_FindMax [OF b(1) e [OF that]] t(3)
    by (simp_all add: aa_Retrieve_node)
  moreover have "int (path_max t) \<le> 2 * Level t" "2 ^ nat (Level t) \<le> card S + 1"
    using aa_inv_path [OF b(2)] aa_inv_size [OF b(2)] nodes_card [OF b(1)] t(3) by simp_all
  ultimately show ?thesis using t b(2) Inr by auto
qed

lemma AATree_refines_set_witness:
  "(\<exists>t s. set_exec aa_ins aa_del [OpInsert 1, OpInsert 2, OpInsert 3, OpDelete 2, OpDelete 0] (Null, aa_start)
      = Inr (t, s) \<and> inorder t = sorted_list_of_set {1, 3}) \<and>
   set_exec aa_ins aa_del [OpInsert 5, OpDelete 3] (Null, aa_start) = Inl NullDeref"
proof -
  have h: "aa_spec [OpInsert 1, OpInsert 2, OpInsert 3, OpDelete 2, OpDelete 0] {} False = Inr {1, 3}"
    by (simp add: insert_commute insert_Diff_if)
  have n: "aa_spec [OpInsert 5, OpDelete 3] {} False = Inl NullDeref" by simp
  show ?thesis
    using AATree_refines_set [of "[OpInsert 1, OpInsert 2, OpInsert 3, OpDelete 2, OpDelete 0]", unfolded h]
      AATree_refines_set [of "[OpInsert 5, OpDelete 3]", unfolded n] by auto
qed

text \<open>The static \<open>DeletePtr\<close> survives a call, also into a call for another tree: after an
  unsuccessful \<open>Remove( 7, T1 )\<close>, which leaves it at the node 4 of \<open>T1\<close>,
  \<open>Remove( 4, T2 )\<close> frees the node 9 of a tree \<open>T2\<close> that has no 4, and stores 9
  into the node of \<open>T1\<close>.\<close>

lemma aa_Remove_two_trees:
  fixes T1 T2 :: aatree and mem :: "nat \<rightharpoonup> int"
  defines "T1 \<equiv> Node Null 4 (1, 1) Null" and "T2 \<equiv> Node Null 9 (1, 2) Null"
    and "mem \<equiv> [1 \<mapsto> 4, 2 \<mapsto> 9]"
  shows "\<exists>s. aa_Remove mem 7 T1 aa_start = Inr (T1, s) \<and>
    (\<exists>s'. aa_Remove mem 4 T2 s = Inr (Null, s') \<and> Store s' = Some (1, 9) \<and> Freed s' = [2])"
  by (simp add: T1_def T2_def mem_def aa_start_def aa_unlink_def stored_def)

end
