(* ===== verification/SplayTree.thy ===== *)
theory SplayTree
  imports SearchTree
begin

text \<open>
  \<^verbatim>\<open>src/DSAAC/splay.c\<close>: splay trees, with the top-down splay. \<open>Null\<close> is the
  sentinel \<open>NullNode\<close>. \<open>Splay\<close> hangs the nodes it passes into two trees under
  a local \<open>Header\<close>: \<open>L\<close> is \<open>Header.Right\<close>, whose rightmost node is
  \<open>LeftTreeMax\<close>, and \<open>R\<close> is \<open>Header.Left\<close>, whose leftmost node is
  \<open>RightTreeMin\<close>. A node that has been linked has a stale child pointer that the next
  link or the final assembly overwrites; in the model the child is empty there.
\<close>

section \<open>Operations\<close>

type_synonym sptree = "unit bt"

text \<open>The static variables: the \<open>Element\<close> of the sentinel, which every splay writes, and
  whether \<open>Insert\<close> still holds an unused node.\<close>

record sp_state =
  NullElem :: "int option"
  NewNode :: bool

definition sp_start :: sp_state where
  "sp_start = \<lparr>NullElem = None, NewNode = False\<rparr>"

definition sp_Initialize :: "bool \<Rightarrow> bool \<Rightarrow> sptree res" where
  \<comment> \<open>whether \<open>NullNode\<close> is set, and whether \<open>malloc\<close> returns a node\<close>
  "sp_Initialize isset ok =
    (if \<not> isset then if ok then Inr Null else Inl (FatalError ''Out of space!!!'') else Inr Null)"

fun sp_MakeEmpty :: "sptree \<Rightarrow> sptree \<times> int list" where
  \<comment> \<open>the second component lists the elements of the nodes passed to \<open>free\<close>\<close>
  "sp_MakeEmpty Null = (Null, [])"
| "sp_MakeEmpty (Node l x i r) = (Null, snd (sp_MakeEmpty l) @ snd (sp_MakeEmpty r) @ [x])"

fun sp_PrintTree :: "sptree \<Rightarrow> int list" where
  \<comment> \<open>the numbers printed\<close>
  "sp_PrintTree Null = []"
| "sp_PrintTree (Node l x i r) = sp_PrintTree l @ [x] @ sp_PrintTree r"

fun sp_SingleRotateWithLeft :: "sptree \<Rightarrow> sptree res" where
  "sp_SingleRotateWithLeft (Node (Node a k j b) x i c) = Inr (Node a k j (Node b x i c))"
| "sp_SingleRotateWithLeft (Node Null x i c) = Inl BadAccess"
| "sp_SingleRotateWithLeft Null = Inr Null"

fun sp_SingleRotateWithRight :: "sptree \<Rightarrow> sptree res" where
  "sp_SingleRotateWithRight (Node a x i (Node b k j c)) = Inr (Node (Node a x i b) k j c)"
| "sp_SingleRotateWithRight (Node a x i Null) = Inl BadAccess"
| "sp_SingleRotateWithRight Null = Inr Null"

text \<open>\<open>P->Element\<close> during a splay for \<open>Item\<close>.\<close>

fun elem_of :: "int \<Rightarrow> sptree \<Rightarrow> int" where
  "elem_of Item Null = Item"
| "elem_of Item (Node l x i r) = x"

text \<open>\<open>LeftTreeMax->Right = t\<close> and \<open>RightTreeMin->Left = t\<close>.\<close>

fun link_left :: "sptree \<Rightarrow> sptree \<Rightarrow> sptree" where
  "link_left Null t = t"
| "link_left (Node l x i r) t = Node l x i (link_left r t)"

fun link_right :: "sptree \<Rightarrow> sptree \<Rightarrow> sptree" where
  "link_right Null t = t"
| "link_right (Node l x i r) t = Node (link_right l t) x i r"

function splay_loop :: "int \<Rightarrow> sptree \<Rightarrow> sptree \<Rightarrow> sptree \<Rightarrow> (sptree \<times> sptree \<times> sptree) res" where
  "splay_loop Item L X R =
    (case X of
       Null \<Rightarrow> Inr (L, Null, R)
     | Node l x i r \<Rightarrow>
        if Item = x then Inr (L, X, R)
        else if Item < x then
          bindr (if Item < elem_of Item l then sp_SingleRotateWithLeft X else Inr X) (\<lambda>X.
            case X of
              Null \<Rightarrow> Inr (L, X, R)
            | Node l x i r \<Rightarrow>
                if l = Null then Inr (L, X, R)
                else splay_loop Item L l (link_right R (Node Null x i r)))
        else
          bindr (if Item > elem_of Item r then sp_SingleRotateWithRight X else Inr X) (\<lambda>X.
            case X of
              Null \<Rightarrow> Inr (L, X, R)
            | Node l x i r \<Rightarrow>
                if r = Null then Inr (L, X, R)
                else splay_loop Item (link_left L (Node l x i Null)) r R))"
  by pat_completeness auto

lemma nodes_rotate:
  "sp_SingleRotateWithLeft X = Inr Y \<Longrightarrow> nodes Y = nodes X"
  "sp_SingleRotateWithRight X = Inr Y \<Longrightarrow> nodes Y = nodes X"
  by (cases X rule: sp_SingleRotateWithLeft.cases, auto)
    (cases X rule: sp_SingleRotateWithRight.cases, auto)

termination splay_loop
proof (relation "measure (\<lambda>(_, _, X, _). nodes X)", goal_cases)
  case (2 Item L X R l x i r Y l' x' i' r')
  then have "nodes Y = nodes X" by (auto dest: nodes_rotate split: if_splits)
  then show ?case using 2 by simp
next
  case (3 Item L X R l x i r Y l' x' i' r')
  then have "nodes Y = nodes X" by (auto dest: nodes_rotate split: if_splits)
  then show ?case using 3 by simp
qed simp

declare splay_loop.simps [simp del]

text \<open>The final assembly. The loop ends at the sentinel only when it starts there, with an empty
  \<open>Header\<close>.\<close>

definition sp_Splay :: "int \<Rightarrow> sptree \<Rightarrow> sptree res" where
  "sp_Splay Item X = bindr (splay_loop Item Null X Null) (\<lambda>(L, X, R).
     case X of
       Null \<Rightarrow> if L = Null \<and> R = Null then Inr Null else Inl BadAccess
     | Node l x i r \<Rightarrow> Inr (Node (link_left L l) x i (link_right R r)))"

definition sp_Find :: "int \<Rightarrow> sptree \<times> sp_state \<Rightarrow> (sptree \<times> sp_state) res" where
  "sp_Find X = (\<lambda>(T, s). bindr (sp_Splay X T) (\<lambda>T. Inr (T, s\<lparr>NullElem := Some X\<rparr>)))"

definition sp_Infinity :: int where "sp_Infinity = 30000"

definition sp_NegInfinity :: int where "sp_NegInfinity = -30000"

definition sp_FindMin :: "sptree \<times> sp_state \<Rightarrow> (sptree \<times> sp_state) res" where
  "sp_FindMin = sp_Find sp_NegInfinity"

definition sp_FindMax :: "sptree \<times> sp_state \<Rightarrow> (sptree \<times> sp_state) res" where
  "sp_FindMax = sp_Find sp_Infinity"

fun sp_Retrieve :: "sptree \<times> sp_state \<Rightarrow> int res" where
  "sp_Retrieve (Null, s) = (case NullElem s of None \<Rightarrow> Inl Uninitialised | Some x \<Rightarrow> Inr x)"
| "sp_Retrieve (Node l x i r, s) = Inr x"

definition sp_Insert :: "bool \<Rightarrow> int \<Rightarrow> sptree \<times> sp_state \<Rightarrow> (sptree \<times> sp_state) res" where
  "sp_Insert ok Item = (\<lambda>(T, s).
    if \<not> NewNode s \<and> \<not> ok then Inl (FatalError ''Out of space!!!'')
    else if T = Null then Inr (Node Null Item () Null, s\<lparr>NewNode := False\<rparr>)
    else bindr (sp_Splay Item T) (\<lambda>T. let s = s\<lparr>NullElem := Some Item\<rparr> in
      case T of
        Null \<Rightarrow> Inr (T, s\<lparr>NewNode := True\<rparr>)
      | Node l x i r \<Rightarrow>
          if Item < x then Inr (Node l Item () (Node Null x i r), s\<lparr>NewNode := False\<rparr>)
          else if x < Item then Inr (Node (Node l x i Null) Item () r, s\<lparr>NewNode := False\<rparr>)
          else Inr (T, s\<lparr>NewNode := True\<rparr>)))"

text \<open>\<open>NewTree->Right = r\<close>.\<close>

fun set_Right :: "sptree \<Rightarrow> sptree \<Rightarrow> sptree res" where
  "set_Right Null t = Inl BadAccess"
| "set_Right (Node l x i r) t = Inr (Node l x i t)"

definition sp_Remove :: "int \<Rightarrow> sptree \<times> sp_state \<Rightarrow> (sptree \<times> sp_state) res" where
  "sp_Remove Item = (\<lambda>(T, s).
    if T = Null then Inr (T, s)
    else bindr (sp_Splay Item T) (\<lambda>T. let s = s\<lparr>NullElem := Some Item\<rparr> in
      case T of
        Null \<Rightarrow> Inr (T, s)
      | Node l x i r \<Rightarrow>
          if Item = x then
            if l = Null then Inr (r, s)
            else bindr (bindr (sp_Splay Item l) (\<lambda>N. set_Right N r)) (\<lambda>N. Inr (N, s))
          else Inr (T, s)))"

section \<open>The splay\<close>

lemma inorder_link [simp]:
  "inorder (link_left L t) = inorder L @ inorder t" "inorder (link_right R t) = inorder t @ inorder R"
  by (induction L, auto) (induction R, auto)

lemma elems_link [simp]:
  "elems (link_left L t) = elems L \<union> elems t" "elems (link_right R t) = elems t \<union> elems R"
  by (simp_all flip: set_inorder add: Un_commute)

text \<open>The node at which the loop stops.\<close>

definition stops :: "int \<Rightarrow> sptree \<Rightarrow> bool" where
  "stops Item X \<longleftrightarrow> (\<exists>l x i r. X = Node l x i r \<and>
     (Item = x \<or> Item < x \<and> l = Null \<or> x < Item \<and> r = Null))"

lemma zig_left:
  assumes "Item < x" "bst (Node l x i r)"
  obtains l' x' i' r' where "(if Item < elem_of Item l then sp_SingleRotateWithLeft (Node l x i r)
      else Inr (Node l x i r)) = Inr (Node l' x' i' r')" "Item < x'" "bst (Node l' x' i' r')"
    "inorder (Node l' x' i' r') = inorder (Node l x i r)"
proof (cases "Item < elem_of Item l")
  case True
  then obtain a k j b where l: "l = Node a k j b" by (cases l) auto
  have "bst (Node a k j (Node b x i r))"
    using assms(2) inorder_eqD [of "Node a k j (Node b x i r)" "Node l x i r"] l by simp
  then show ?thesis using that [of a k j "Node b x i r"] True l by simp
next
  case False
  then show ?thesis using that [of l x i r] assms by simp
qed

lemma zig_right:
  assumes "x < Item" "bst (Node l x i r)"
  obtains l' x' i' r' where "(if Item > elem_of Item r then sp_SingleRotateWithRight (Node l x i r)
      else Inr (Node l x i r)) = Inr (Node l' x' i' r')" "x' < Item" "bst (Node l' x' i' r')"
    "inorder (Node l' x' i' r') = inorder (Node l x i r)"
proof (cases "Item > elem_of Item r")
  case True
  then obtain a k j b where r: "r = Node a k j b" by (cases r) auto
  have "bst (Node (Node l x i a) k j b)"
    using assms(2) inorder_eqD [of "Node (Node l x i a) k j b" "Node l x i r"] r by simp
  then show ?thesis using that [of "Node l x i a" k j b] True r by simp
next
  case False
  then show ?thesis using that [of l x i r] assms by simp
qed

lemma splay_loop_less:
  "Item < x \<Longrightarrow> splay_loop Item L (Node l x i r) R =
     bindr (if Item < elem_of Item l then sp_SingleRotateWithLeft (Node l x i r) else Inr (Node l x i r))
       (\<lambda>X. case X of Null \<Rightarrow> Inr (L, X, R)
          | Node l x i r \<Rightarrow> if l = Null then Inr (L, X, R)
              else splay_loop Item L l (link_right R (Node Null x i r)))"
  by (subst splay_loop.simps) simp

lemma splay_loop_greater:
  "x < Item \<Longrightarrow> splay_loop Item L (Node l x i r) R =
     bindr (if Item > elem_of Item r then sp_SingleRotateWithRight (Node l x i r) else Inr (Node l x i r))
       (\<lambda>X. case X of Null \<Rightarrow> Inr (L, X, R)
          | Node l x i r \<Rightarrow> if r = Null then Inr (L, X, R)
              else splay_loop Item (link_left L (Node l x i Null)) r R)"
  by (subst splay_loop.simps) simp

lemma splay_loop_ok:
  assumes "X \<noteq> Null" "bst X" "\<forall>y \<in> elems L. y < Item" "\<forall>y \<in> elems R. Item < y"
  shows "\<exists>L' X' R'. splay_loop Item L X R = Inr (L', X', R') \<and> stops Item X' \<and> bst X' \<and>
    inorder L' @ inorder X' @ inorder R' = inorder L @ inorder X @ inorder R \<and>
    (\<forall>y \<in> elems L'. y < Item) \<and> (\<forall>y \<in> elems R'. Item < y)"
  using assms
proof (induction "nodes X" arbitrary: X L R rule: less_induct)
  case less
  obtain l x i r where X: "X = Node l x i r" using less.prems(1) by (cases X) auto
  show ?case
  proof (cases Item x rule: linorder_cases)
    case equal
    then show ?thesis using X less.prems by (subst splay_loop.simps) (auto simp: stops_def)
  next
    case lt: less
    obtain l' x' i' r' where z: "(if Item < elem_of Item l then sp_SingleRotateWithLeft (Node l x i r)
        else Inr (Node l x i r)) = Inr (Node l' x' i' r')" "Item < x'" "bst (Node l' x' i' r')"
      "inorder (Node l' x' i' r') = inorder (Node l x i r)"
      by (rule zig_left [OF lt less.prems(2) [unfolded X]])
    show ?thesis
    proof (cases "l' = Null")
      case True
      have "splay_loop Item L X R = Inr (L, Node l' x' i' r', R)"
        by (simp only: X splay_loop_less [OF lt] z(1)) (simp add: True)
      then show ?thesis using True z X less.prems by (auto simp: stops_def)
    next
      case False
      let ?R = "link_right R (Node Null x' i' r')"
      have eq: "splay_loop Item L X R = splay_loop Item L l' ?R"
        by (simp only: X splay_loop_less [OF lt] z(1)) (simp add: False)
      have "nodes (Node l' x' i' r') = nodes X"
        using z(1) X by (auto dest: nodes_rotate split: if_splits)
      then have sm: "nodes l' < nodes X" by simp
      have "bst l'" "\<forall>y \<in> elems ?R. Item < y" using z(2,3) less.prems(4) by auto
      from less.hyps [OF sm False this(1) less.prems(3) this(2)] show ?thesis
        using eq z(4) X by auto
    qed
  next
    case gt: greater
    obtain l' x' i' r' where z: "(if Item > elem_of Item r then sp_SingleRotateWithRight (Node l x i r)
        else Inr (Node l x i r)) = Inr (Node l' x' i' r')" "x' < Item" "bst (Node l' x' i' r')"
      "inorder (Node l' x' i' r') = inorder (Node l x i r)"
      by (rule zig_right [OF gt less.prems(2) [unfolded X]])
    show ?thesis
    proof (cases "r' = Null")
      case True
      have "splay_loop Item L X R = Inr (L, Node l' x' i' r', R)"
        by (simp only: X splay_loop_greater [OF gt] z(1)) (simp add: True)
      then show ?thesis using True z X less.prems by (auto simp: stops_def)
    next
      case False
      let ?L = "link_left L (Node l' x' i' Null)"
      have eq: "splay_loop Item L X R = splay_loop Item ?L r' R"
        by (simp only: X splay_loop_greater [OF gt] z(1)) (simp add: False)
      have "nodes (Node l' x' i' r') = nodes X"
        using z(1) X by (auto dest: nodes_rotate split: if_splits)
      then have sm: "nodes r' < nodes X" by simp
      have "bst r'" "\<forall>y \<in> elems ?L. y < Item" using z(2,3) less.prems(3) by auto
      from less.hyps [OF sm False this(1) this(2) less.prems(4)] show ?thesis
        using eq z(4) X by auto
    qed
  qed
qed

text \<open>What a splay promises: the same traversal, and at the root the element or one of its
  neighbours in the order.\<close>

lemma sp_Splay_ok:
  assumes "T \<noteq> Null" "bst T"
  obtains l x i r where "sp_Splay Item T = Inr (Node l x i r)" "bst (Node l x i r)"
    "inorder (Node l x i r) = inorder T"
    "Item < x \<longrightarrow> (\<forall>y \<in> elems l. y < Item)" "x < Item \<longrightarrow> (\<forall>y \<in> elems r. Item < y)"
proof -
  obtain L X R where s: "splay_loop Item Null T Null = Inr (L, X, R)" "stops Item X" "bst X"
    "inorder L @ inorder X @ inorder R = inorder T" "\<forall>y \<in> elems L. y < Item" "\<forall>y \<in> elems R. Item < y"
    using splay_loop_ok [OF assms, of Null Item Null] by auto
  obtain l x i r where X: "X = Node l x i r" "Item = x \<or> Item < x \<and> l = Null \<or> x < Item \<and> r = Null"
    using s(2) by (auto simp: stops_def)
  let ?t = "Node (link_left L l) x i (link_right R r)"
  have "inorder ?t = inorder T" using s(4) X(1) by simp
  then have "bst ?t" using inorder_eqD [of ?t T] assms(2) by simp
  show ?thesis
    by (rule that [of "link_left L l" x i "link_right R r"])
      (use s X \<open>inorder ?t = inorder T\<close> \<open>bst ?t\<close> in \<open>auto simp: sp_Splay_def\<close>)
qed

lemma sp_Splay_Null [simp]: "sp_Splay Item Null = Inr Null"
  by (simp add: sp_Splay_def splay_loop.simps)

lemma sp_Splay_member:
  assumes "sp_Splay Item T = Inr (Node l x i r)" "bst T" "T \<noteq> Null"
  shows "x = Item \<longleftrightarrow> Item \<in> elems T"
proof -
  obtain l' x' i' r' where t: "sp_Splay Item T = Inr (Node l' x' i' r')" "bst (Node l' x' i' r')"
    "inorder (Node l' x' i' r') = inorder T" "Item < x' \<longrightarrow> (\<forall>y \<in> elems l'. y < Item)"
    "x' < Item \<longrightarrow> (\<forall>y \<in> elems r'. Item < y)"
    by (rule sp_Splay_ok [OF assms(3,2)])
  have e: "elems (Node l' x' i' r') = elems T" using inorder_eqD [OF t(3)] by simp
  have "x' = Item \<longleftrightarrow> Item \<in> elems (Node l' x' i' r')"
    using t(2,4,5) bst_notin_left [OF t(2), of Item] bst_notin_right [OF t(2), of Item]
    by (cases Item x' rule: linorder_cases) auto
  moreover have "x' = x" using t(1) assms(1) by simp
  ultimately show ?thesis unfolding e by simp
qed

section \<open>The ordered set\<close>

text \<open>Splitting a search tree at the root of a splay, as \<open>Insert\<close> does.\<close>

lemma split_low:
  "bst (Node l x i r) \<Longrightarrow> Item < x \<Longrightarrow> \<forall>y \<in> elems l. y < Item \<Longrightarrow> bst (Node l Item () (Node Null x i r))"
  by auto

lemma split_high:
  "bst (Node l x i r) \<Longrightarrow> x < Item \<Longrightarrow> \<forall>y \<in> elems r. Item < y \<Longrightarrow> bst (Node (Node l x i Null) Item () r)"
  by auto

lemma sp_Insert_ok:
  assumes "bst T"
  shows "\<exists>T' s'. sp_Insert True Item (T, s) = Inr (T', s') \<and> bst T' \<and> elems T' = insert Item (elems T)"
proof (cases "T = Null")
  case False
  obtain l x i r where t: "sp_Splay Item T = Inr (Node l x i r)" "bst (Node l x i r)"
    "inorder (Node l x i r) = inorder T" "Item < x \<longrightarrow> (\<forall>y \<in> elems l. y < Item)"
    "x < Item \<longrightarrow> (\<forall>y \<in> elems r. Item < y)"
    by (rule sp_Splay_ok [OF False assms])
  have e: "elems T = insert x (elems l \<union> elems r)" using inorder_eqD [OF t(3)] by simp
  show ?thesis
  proof (cases Item x rule: linorder_cases)
    case less
    then have "bst (Node l Item () (Node Null x i r))" using split_low [OF t(2)] t(4) by simp
    then show ?thesis using False less t(1) e by (auto simp: sp_Insert_def)
  next
    case greater
    then have "bst (Node (Node l x i Null) Item () r)" using split_high [OF t(2)] t(5) by simp
    then show ?thesis using False greater t(1) e by (auto simp: sp_Insert_def)
  next
    case equal
    then show ?thesis using False t(1,2) e by (auto simp: sp_Insert_def)
  qed
qed (simp add: sp_Insert_def)

lemma sp_Remove_absent:
  assumes "bst T" "Item \<notin> elems T"
  shows "\<exists>T' s'. sp_Remove Item (T, s) = Inr (T', s') \<and> bst T' \<and> elems T' = elems T"
proof (cases "T = Null")
  case False
  obtain l x i r where t: "sp_Splay Item T = Inr (Node l x i r)" "bst (Node l x i r)"
    "inorder (Node l x i r) = inorder T"
    by (rule sp_Splay_ok [OF False assms(1)])
  then show ?thesis
    using False inorder_eqD [OF t(3)] sp_Splay_member [OF t(1) assms(1) False] assms(2)
    by (auto simp: sp_Remove_def)
qed (simp add: sp_Remove_def)

lemma sp_Remove_present:
  assumes "bst T" "Item \<in> elems T"
  shows "\<exists>T' s'. sp_Remove Item (T, s) = Inr (T', s') \<and> bst T' \<and> elems T' = elems T - {Item}"
proof -
  have ne: "T \<noteq> Null" using assms(2) by auto
  obtain l x i r where t: "sp_Splay Item T = Inr (Node l x i r)" "bst (Node l x i r)"
    "inorder (Node l x i r) = inorder T"
    by (rule sp_Splay_ok [OF ne assms(1)])
  have x: "x = Item" using sp_Splay_member [OF t(1) assms(1) ne] assms(2) by simp
  have e: "elems T = insert Item (elems l \<union> elems r)" using inorder_eqD [OF t(3)] x by simp
  have out: "Item \<notin> elems l" "Item \<notin> elems r" using t(2) x by auto
  show ?thesis
  proof (cases "l = Null")
    case True
    then show ?thesis using t ne e x out by (auto simp: sp_Remove_def)
  next
    case False
    have "bst l" using t(2) by simp
    obtain a k j b where n: "sp_Splay Item l = Inr (Node a k j b)" "bst (Node a k j b)"
      "inorder (Node a k j b) = inorder l" "k < Item \<longrightarrow> (\<forall>y \<in> elems b. Item < y)"
      by (rule sp_Splay_ok [OF False \<open>bst l\<close>])
    have el: "insert k (elems a \<union> elems b) = elems l" using inorder_eqD [OF n(3)] by simp
    have lt: "\<forall>y \<in> elems l. y < Item" using t(2) x by simp
    then have "k < Item" using el by auto
    then have "\<forall>y \<in> elems b. Item < y \<and> y < Item" using n(4) lt el by blast
    then have "elems b = {}" by force
    then have "b = Null" by (simp add: elems_empty_iff)
    have "sp_Remove Item (T, s) = Inr (Node a k j r, s\<lparr>NullElem := Some Item\<rparr>)"
      using t(1) ne x False n(1) by (simp add: sp_Remove_def)
    moreover have "\<forall>y \<in> elems r. k < y" using t(2) x \<open>k < Item\<close> by auto
    then have "bst (Node a k j r)" using n(2) t(2) by simp
    moreover have "elems (Node a k j r) = elems T - {Item}"
      using e el \<open>b = Null\<close> out by auto
    ultimately show ?thesis by blast
  qed
qed

text \<open>A client of \<^verbatim>\<open>splay.h\<close> decides membership by \<open>Find\<close> and
  \<open>Retrieve\<close>.\<close>

definition sp_member :: "int \<Rightarrow> sptree \<times> sp_state \<Rightarrow> bool" where
  "sp_member x ts \<longleftrightarrow> fst ts \<noteq> Null \<and> bindr (sp_Find x ts) sp_Retrieve = Inr x"

lemma sp_member_iff: "bst T \<Longrightarrow> sp_member x (T, s) \<longleftrightarrow> x \<in> elems T"
proof (cases "T = Null")
  case False
  assume b: "bst T"
  obtain l y i r where t: "sp_Splay x T = Inr (Node l y i r)" by (rule sp_Splay_ok [OF False b])
  then show ?thesis using sp_Splay_member [OF t b False] False
    by (simp add: sp_member_def sp_Find_def)
qed (simp add: sp_member_def)

interpretation sp: ordered_set_del "(Null, s)" "sp_Insert True" sp_member "\<lambda>(T, s). elems T"
  "\<lambda>(T, s). bst T" sp_Remove for s
proof (unfold_locales, goal_cases)
  case (3 t x)
  then show ?case using sp_Insert_ok [of "fst t" x "snd t"] by (cases t) auto
next
  case (4 t x)
  then show ?case using sp_member_iff [of "fst t"] by (cases t) auto
next
  case (5 t x)
  then show ?case using sp_Remove_present [of "fst t" x "snd t"] by (cases t) auto
qed simp_all

lemma splay_least:
  assumes "bst T" "T \<noteq> Null" "\<forall>y \<in> elems T. m \<le> y"
  shows "\<exists>l i r. sp_Splay m T = Inr (Node l (Min (elems T)) i r)"
proof -
  obtain l x i r where t: "sp_Splay m T = Inr (Node l x i r)" "bst (Node l x i r)"
    "inorder (Node l x i r) = inorder T" "m < x \<longrightarrow> (\<forall>y \<in> elems l. y < m)"
    by (rule sp_Splay_ok [OF assms(2,1)])
  have e: "elems (Node l x i r) = elems T" using inorder_eqD [OF t(3)] by simp
  have "m \<le> x" using assms(3) e by auto
  then have "elems l = {}" using t(2,4) e assms(3) by (cases "m = x") (fastforce, fastforce)
  then have "l = Null" by (simp add: elems_empty_iff)
  then show ?thesis using t(1) e Min_elems_root [of x i r] t(2) by auto
qed

lemma splay_greatest:
  assumes "bst T" "T \<noteq> Null" "\<forall>y \<in> elems T. y \<le> m"
  shows "\<exists>l i r. sp_Splay m T = Inr (Node l (Max (elems T)) i r)"
proof -
  obtain l x i r where t: "sp_Splay m T = Inr (Node l x i r)" "bst (Node l x i r)"
    "inorder (Node l x i r) = inorder T" "x < m \<longrightarrow> (\<forall>y \<in> elems r. m < y)"
    by (rule sp_Splay_ok [OF assms(2,1)])
  have e: "elems (Node l x i r) = elems T" using inorder_eqD [OF t(3)] by simp
  have "x \<le> m" using assms(3) e by auto
  then have "elems r = {}" using t(2,4) e assms(3) by (cases "m = x") (fastforce, fastforce)
  then have "r = Null" by (simp add: elems_empty_iff)
  then show ?thesis using t(1) e Max_elems_root [of l x i] t(2) by auto
qed

section \<open>Properties\<close>

text \<open>\<open>Splay\<close> ends without an error, keeps the in-order traversal, and brings the item
  to the root if it is in the tree, and otherwise an element with no other between it and the
  item.\<close>

theorem Splay_moves_to_root:
  assumes "bst T" "T \<noteq> Null"
  shows "\<exists>l x i r. sp_Splay Item T = Inr (Node l x i r) \<and> inorder (Node l x i r) = inorder T \<and>
    (x = Item \<longleftrightarrow> Item \<in> elems T) \<and>
    (\<forall>y \<in> elems T. \<not> (Item < y \<and> y < x) \<and> \<not> (x < y \<and> y < Item))"
proof -
  obtain l x i r where t: "sp_Splay Item T = Inr (Node l x i r)" "bst (Node l x i r)"
    "inorder (Node l x i r) = inorder T" "Item < x \<longrightarrow> (\<forall>y \<in> elems l. y < Item)"
    "x < Item \<longrightarrow> (\<forall>y \<in> elems r. Item < y)"
    by (rule sp_Splay_ok [OF assms(2,1)])
  have e: "elems T = insert x (elems l \<union> elems r)" using inorder_eqD [OF t(3)] by simp
  have "\<forall>y \<in> elems T. \<not> (Item < y \<and> y < x) \<and> \<not> (x < y \<and> y < Item)"
    using e t(2,4,5) by fastforce
  then show ?thesis using t(1,3) sp_Splay_member [OF t(1) assms] by blast
qed

lemma Splay_moves_to_root_witness:
  "bst (Node (Node Null 1 () Null) 4 () (Node Null 6 () Null)) \<and>
   (\<exists>l x i r. sp_Splay 1 (Node (Node Null 1 () Null) 4 () (Node Null 6 () Null)) = Inr (Node l x i r) \<and>
      x = 1)"
  using Splay_moves_to_root [of "Node (Node Null 1 () Null) 4 () (Node Null 6 () Null)" 1] by auto

text \<open>C33: a sequence of insertions and removals on the splay tree that only removes elements
  that are present ends without an error in a search tree of the elements the operations leave in a
  set; on a nonempty tree \<open>Find\<close> followed by \<open>Retrieve\<close> decides membership, and
  \<open>FindMin\<close>, \<open>FindMax\<close> bring the extreme elements to the root if they are
  between \<open>NegInfinity\<close> and \<open>Infinity\<close>.\<close>

theorem SplayTree_refines_set:
  assumes "spec_exec ops {} = Some S"
  shows "\<exists>t s. set_exec (sp_Insert True) sp_Remove ops (Null, sp_start) = Inr (t, s) \<and>
    sp_PrintTree t = sorted_list_of_set S \<and> (\<forall>x. sp_member x (t, s) \<longleftrightarrow> x \<in> S) \<and>
    (S \<noteq> {} \<and> (\<forall>x \<in> S. sp_NegInfinity \<le> x) \<longrightarrow> bindr (sp_FindMin (t, s)) sp_Retrieve = Inr (Min S)) \<and>
    (S \<noteq> {} \<and> (\<forall>x \<in> S. x \<le> sp_Infinity) \<longrightarrow> bindr (sp_FindMax (t, s)) sp_Retrieve = Inr (Max S))"
proof -
  obtain t s where t: "set_exec (sp_Insert True) sp_Remove ops (Null, sp_start) = Inr (t, s)" "bst t"
    "elems t = S" "\<forall>x. sp_member x (t, s) \<longleftrightarrow> x \<in> S"
    using sp.exec_refines_emp [OF assms, of sp_start] by auto
  have ne: "t \<noteq> Null" if "S \<noteq> {}" using that t(3) by auto
  have "sp_PrintTree t = inorder t" by (induction t) auto
  then have "sp_PrintTree t = sorted_list_of_set S" using inorder_sorted_list [OF t(2)] t(3) by simp
  moreover have "bindr (sp_FindMin (t, s)) sp_Retrieve = Inr (Min S)"
    if "S \<noteq> {} \<and> (\<forall>x \<in> S. sp_NegInfinity \<le> x)"
    using splay_least [OF t(2) ne, of sp_NegInfinity] that t(3) by (auto simp: sp_FindMin_def sp_Find_def)
  moreover have "bindr (sp_FindMax (t, s)) sp_Retrieve = Inr (Max S)"
    if "S \<noteq> {} \<and> (\<forall>x \<in> S. x \<le> sp_Infinity)"
    using splay_greatest [OF t(2) ne, of sp_Infinity] that t(3) by (auto simp: sp_FindMax_def sp_Find_def)
  ultimately show ?thesis using t(1,4) by blast
qed

lemma SplayTree_refines_set_witness:
  "spec_exec [OpInsert 5, OpInsert 2, OpDelete 5] {} = Some {2} \<and>
   (\<exists>t s. set_exec (sp_Insert True) sp_Remove [OpInsert 5, OpInsert 2, OpDelete 5] (Null, sp_start)
      = Inr (t, s) \<and> sp_PrintTree t = sorted_list_of_set {2})"
proof -
  have h: "spec_exec [OpInsert 5, OpInsert 2, OpDelete 5] {} = Some {2}"
    by (simp add: insert_Diff_if)
  from SplayTree_refines_set [OF this] h show ?thesis by blast
qed

text \<open>In an empty tree \<open>Find( X, T )\<close> stores \<open>X\<close> in the sentinel and returns
  it: \<open>Retrieve\<close> then gives \<open>X\<close>, as if it had been found.\<close>

lemma sp_Find_empty: "bindr (sp_Find x (Null, s)) sp_Retrieve = Inr x"
  by (simp add: sp_Find_def)

text \<open>The node of a duplicate insertion is kept for the next one: an insertion with a kept node
  succeeds without memory.\<close>

lemma sp_Insert_kept_node:
  assumes "bst T" "x \<in> elems T" "sp_Insert True x (T, s) = Inr (T', s')"
  shows "NewNode s' \<and> (\<forall>y. sp_Insert False y (T', s') = sp_Insert True y (T', s'))"
proof -
  have ne: "T \<noteq> Null" using assms(2) by auto
  obtain l y i r where t: "sp_Splay x T = Inr (Node l y i r)" by (rule sp_Splay_ok [OF ne assms(1)])
  have "y = x" using sp_Splay_member [OF t assms(1) ne] assms(2) by simp
  then show ?thesis using assms(3) t ne by (auto simp: sp_Insert_def)
qed

end
