(* ===== verification/SetTests.thy ===== *)
theory SetTests
  imports SearchTree AvlTree TreapTree AATree SplayTree
begin

text \<open>
  The test programs of the search trees: \<^verbatim>\<open>testtree.c\<close>, \<^verbatim>\<open>testavl.c\<close>,
  \<^verbatim>\<open>testaa.c\<close>, \<^verbatim>\<open>testtrp.c\<close> and \<^verbatim>\<open>testsply.c\<close> of
  \<^verbatim>\<open>src/DSAAC\<close>. Each \<open>main\<close> inserts a permutation of \<open>0..N-1\<close>,
  looks every element up, removes the even ones, looks everything up again and prints the extreme
  elements; it prints an error line for each wrong answer. The first four differ only in the tree
  and in the number of elements and are instances of \<open>set_main\<close>. The theorems say that they
  print no error line.
\<close>

section \<open>Loops of the programs\<close>

datatype line = ErrorAt string int | MinMax int int | Message string | MessageInt string int

text \<open>\<open>for( i = 0, ...; i < N; i++, j = ( j + s ) % N )\<close>: the values of
  \<open>j\<close>.\<close>

fun walk :: "nat \<Rightarrow> int \<Rightarrow> int \<Rightarrow> int \<Rightarrow> int list" where
  "walk 0 N s j = []"
| "walk (Suc n) N s j = j # walk n N s ((j + s) mod N)"

text \<open>\<open>for( i = a; i < b; i += d )\<close>: the values of \<open>i\<close>.\<close>

definition range_by :: "int \<Rightarrow> int \<Rightarrow> int \<Rightarrow> int list" where
  "range_by a b d = map (\<lambda>k. a + d * int k) [0..<nat ((b - a + d - 1) div d)]"

text \<open>The loops that look elements up; \<open>fnd i T\<close> is \<open>Retrieve( Find( i, T ) )\<close>,
  or \<open>None\<close> if \<open>Find\<close> returns \<open>NULL\<close> (or \<open>NullNode\<close>).\<close>

definition present :: "string \<Rightarrow> (int \<Rightarrow> 't \<Rightarrow> int option) \<Rightarrow> int list \<Rightarrow> 't \<Rightarrow> line list" where
  "present msg fnd is T =
    concat (map (\<lambda>i. case fnd i T of None \<Rightarrow> [ErrorAt msg i]
       | Some v \<Rightarrow> if v \<noteq> i then [ErrorAt msg i] else []) is)"

definition absent :: "string \<Rightarrow> (int \<Rightarrow> 't \<Rightarrow> int option) \<Rightarrow> int list \<Rightarrow> 't \<Rightarrow> line list" where
  "absent msg fnd is T = concat (map (\<lambda>i. if fnd i T \<noteq> None then [ErrorAt msg i] else []) is)"

text \<open>A test program; \<open>e1\<close>, \<open>e2\<close>, \<open>e3\<close> are its messages.\<close>

definition set_main ::
  "(int \<Rightarrow> 't \<Rightarrow> 't res) \<Rightarrow> (int \<Rightarrow> 't \<Rightarrow> 't res) \<Rightarrow> (int \<Rightarrow> 't \<Rightarrow> int option) \<Rightarrow>
   ('t \<Rightarrow> int res) \<Rightarrow> ('t \<Rightarrow> int res) \<Rightarrow> string \<Rightarrow> string \<Rightarrow> string \<Rightarrow> int \<Rightarrow> 't \<Rightarrow> line list res" where
  "set_main ins del fnd lo hi e1 e2 e3 N T0 =
    bindr (insert_all ins (walk (nat N) N 7 0) T0) (\<lambda>T1.
    let out1 = present e1 fnd (range_by 0 N 1) T1 in
    bindr (insert_all del (range_by 0 N 2) T1) (\<lambda>T2.
    let out2 = present e2 fnd (range_by 1 N 2) T2;
        out3 = absent e3 fnd (range_by 0 N 2) T2 in
    bindr (lo T2) (\<lambda>m. bindr (hi T2) (\<lambda>M. Inr (out1 @ out2 @ out3 @ [MinMax m M])))))"

section \<open>The programs\<close>

fun value_of :: "'i bt \<Rightarrow> int option" where
  "value_of Null = None"
| "value_of (Node l x i r) = Some x"

definition testtree_main :: "line list res" where
  "testtree_main =
    set_main (st_Insert True) st_Delete (\<lambda>i T. value_of (st_Find i T))
      (\<lambda>T. st_Retrieve (st_FindMin T)) (\<lambda>T. st_Retrieve (st_FindMax T)) ''Error'' ''Error'' ''Error''
      50 (fst (st_MakeEmpty Null))"

text \<open>\<^verbatim>\<open>testavl.c\<close>: the deletions are commented out.\<close>

definition testavl_main :: "line list res" where
  "testavl_main =
    bindr (insert_all (avl_Insert True) (walk 50 50 7 0) (fst (avl_MakeEmpty Null))) (\<lambda>T.
    bindr (avl_Retrieve (avl_FindMin T)) (\<lambda>m. bindr (avl_Retrieve (avl_FindMax T)) (\<lambda>M.
    Inr (present ''Error'' (\<lambda>i T. value_of (avl_Find i T)) (range_by 0 50 1) T @ [MinMax m M]))))"

definition testaa_NumItems :: int where "testaa_NumItems = 20"

definition testaa_main :: "line list res" where
  "testaa_main =
    bindr (aa_Initialize False True) (\<lambda>T.
    set_main aa_ins aa_del (\<lambda>i (T, s). value_of (aa_Find i T))
      (\<lambda>(T, s). aa_Retrieve (aa_FindMin T)) (\<lambda>(T, s). aa_Retrieve (aa_FindMax T)) ''Error'' ''Error'' ''Error''
      testaa_NumItems (fst (aa_MakeEmpty Null), aa_start))"

definition testtrp_NumItems :: int where "testtrp_NumItems = 12000"

text \<open>\<open>rnd\<close> gives what the successive calls of \<open>rand()\<close> return.\<close>

definition testtrp_main :: "(nat \<Rightarrow> int) \<Rightarrow> line list res" where
  "testtrp_main rnd =
    bindr (tp_Initialize True) (\<lambda>T.
    set_main tp_ins tp_del (\<lambda>i (r, T). value_of (tp_Find i T))
      (\<lambda>(r, T). tp_Retrieve (tp_FindMin T)) (\<lambda>(r, T). tp_Retrieve (tp_FindMax T)) ''Error1'' ''Error2'' ''Error3''
      testtrp_NumItems (rnd, fst (tp_MakeEmpty Null)))"

text \<open>\<^verbatim>\<open>testsply.c\<close>: \<open>Find\<close> changes the tree, and a lookup compares the
  element at the root.\<close>

definition testsply_NumItems :: int where "testsply_NumItems = 500"

fun look_up :: "string \<Rightarrow> bool \<Rightarrow> int list \<Rightarrow> sptree \<times> sp_state \<Rightarrow> (line list \<times> sptree \<times> sp_state) res" where
  \<comment> \<open>an error line for every \<open>i\<close> for which \<open>Retrieve( T ) == i\<close> is not \<open>b\<close>\<close>
  "look_up msg b [] T = Inr ([], T)"
| "look_up msg b (i # is) T =
    bindr (sp_Find i T) (\<lambda>T. bindr (sp_Retrieve T) (\<lambda>v. bindr (look_up msg b is T) (\<lambda>(out, T).
      Inr ((if (v = i) \<noteq> b then [ErrorAt msg i] else []) @ out, T))))"

definition testsply_main :: "line list res" where
  "testsply_main =
    (let N = testsply_NumItems in
    bindr (sp_Initialize False True) (\<lambda>T.
    bindr (insert_all (sp_Insert True) (walk (nat N) N 7 0) (fst (sp_MakeEmpty T), sp_start)) (\<lambda>T.
    bindr (look_up ''Error1'' True (range_by 0 N 1) T) (\<lambda>(out1, T).
    bindr (look_up ''Error1'' True (range_by 0 N 1) T) (\<lambda>(out2, T).
    bindr (insert_all sp_Remove (range_by 0 N 2) T) (\<lambda>T.
    bindr (look_up ''Error2'' True (range_by 1 N 2) T) (\<lambda>(out3, T).
    bindr (look_up ''Error3'' False (range_by 0 N 2) T) (\<lambda>(out4, T).
    bindr (sp_FindMin T) (\<lambda>T. bindr (sp_Retrieve T) (\<lambda>m.
    bindr (sp_FindMax T) (\<lambda>T. bindr (sp_Retrieve T) (\<lambda>M.
    Inr (out1 @ out2 @ [Message ''Entering remove''] @ out3 @ out4 @
         [MessageInt ''Min is'' m, MessageInt ''Max is'' M])))))))))))))"

section \<open>The ranges\<close>

lemma walk_map: "0 \<le> j \<Longrightarrow> j < N \<Longrightarrow> walk n N s j = map (\<lambda>k. (j + s * int k) mod N) [0..<n]"
proof (induction n arbitrary: j)
  case (Suc n)
  have "0 \<le> (j + s) mod N" "(j + s) mod N < N" using Suc.prems by simp_all
  note IH = Suc.IH [OF this]
  have "((j + s) mod N + s * int k) mod N = (j + s * int (Suc k)) mod N" for k
    by (subst mod_add_left_eq) (simp add: algebra_simps)
  with IH have "walk n N s ((j + s) mod N) = map (\<lambda>k. (j + s * int (Suc k)) mod N) [0..<n]" by simp
  moreover have "map (\<lambda>k. (j + s * int k) mod N) [0..<Suc n] =
      j mod N # map (\<lambda>k. (j + s * int (Suc k)) mod N) [0..<n]"
    by (simp add: upt_conv_Cons map_Suc_upt [symmetric] comp_def del: upt_Suc)
  ultimately show ?case using Suc.prems by simp
qed simp

text \<open>A walk with a step prime to \<open>N\<close> visits every residue once.\<close>

lemma walk_perm:
  assumes "coprime s N" "0 \<le> j" "j < N"
  shows "distinct (walk (nat N) N s j)" "set (walk (nat N) N s j) = {0..<N}"
proof -
  let ?f = "\<lambda>k. (j + s * int k) mod N"
  have inj: "inj_on ?f {0..<nat N}"
  proof (rule inj_onI)
    fix a b assume ab: "a \<in> {0..<nat N}" "b \<in> {0..<nat N}" "?f a = ?f b"
    then have "N dvd (j + s * int a) - (j + s * int b)" by (simp add: mod_eq_dvd_iff)
    then have "N dvd s * (int a - int b)" by (simp add: algebra_simps)
    then have "N dvd int a - int b" using assms(1) by (simp add: coprime_commute coprime_dvd_mult_right_iff)
    moreover have "\<bar>int a - int b\<bar> < N" using ab(1,2) by auto
    ultimately show "a = b" using zdvd_not_zless [of "\<bar>int a - int b\<bar>" N] by auto
  qed
  have w: "walk (nat N) N s j = map ?f [0..<nat N]" by (rule walk_map) (use assms in auto)
  show "distinct (walk (nat N) N s j)" using inj by (simp add: w distinct_map)
  have "card (?f ` {0..<nat N}) = card {0..<N}" using card_image [OF inj] by simp
  moreover have "?f ` {0..<nat N} \<subseteq> {0..<N}" using assms by auto
  ultimately show "set (walk (nat N) N s j) = {0..<N}"
    unfolding w by (simp add: card_subset_eq)
qed

lemma le_div_iff_int: "0 < d \<Longrightarrow> m \<le> n div d \<longleftrightarrow> m * d \<le> n" for m n d :: int
proof
  assume d: "0 < d"
  assume "m \<le> n div d"
  then have "m * d \<le> n div d * d" using d by (simp add: mult_right_mono)
  also have "\<dots> \<le> n" using d pos_mod_sign [OF d, of n] div_mult_mod_eq [of n d] by linarith
  finally show "m * d \<le> n" .
next
  assume "0 < d" "m * d \<le> n"
  then show "m \<le> n div d" using zdiv_mono1 [of "m * d" n d] by simp
qed

lemma set_range_by:
  assumes "0 < d"
  shows "set (range_by a b d) = {i. a \<le> i \<and> i < b \<and> d dvd i - a}" "distinct (range_by a b d)"
proof -
  let ?n = "nat ((b - a + d - 1) div d)"
  have "a + d * int k < b \<longleftrightarrow> k < ?n" for k
  proof -
    have "a + d * int k < b \<longleftrightarrow> int k * d + d \<le> b - a + d - 1" by (simp add: algebra_simps) linarith
    also have "\<dots> \<longleftrightarrow> (int k + 1) * d \<le> b - a + d - 1" by (simp add: algebra_simps)
    also have "\<dots> \<longleftrightarrow> int k + 1 \<le> (b - a + d - 1) div d" using assms by (simp add: le_div_iff_int)
    also have "\<dots> \<longleftrightarrow> k < ?n" by linarith
    finally show ?thesis .
  qed
  moreover have "\<exists>k. i = a + d * int k" if "a \<le> i" "d dvd i - a" for i
  proof -
    from that(2) obtain c where c: "i - a = d * c" ..
    then have "0 \<le> c" using that(1) assms by (smt (verit) mult_pos_neg)
    then show ?thesis using c by (intro exI [of _ "nat c"]) simp
  qed
  ultimately show "set (range_by a b d) = {i. a \<le> i \<and> i < b \<and> d dvd i - a}"
    using assms by (force simp: range_by_def)
  show "distinct (range_by a b d)" using assms by (simp add: range_by_def distinct_map inj_on_def)
qed

lemma present_empty: "(\<And>i. i \<in> set is \<Longrightarrow> fnd i T = Some i) \<Longrightarrow> present msg fnd is T = []"
  by (simp add: present_def)

lemma absent_empty: "(\<And>i. i \<in> set is \<Longrightarrow> fnd i T = None) \<Longrightarrow> absent msg fnd is T = []"
  by (simp add: absent_def)

lemma odd_extremes:
  fixes N :: int
  assumes "2 \<le> N" "even N"
  shows "Min {i. 0 \<le> i \<and> i < N \<and> odd i} = 1" "Max {i. 0 \<le> i \<and> i < N \<and> odd i} = N - 1"
    "{i. 0 \<le> i \<and> i < N \<and> odd i} \<noteq> {}"
proof -
  let ?S = "{i. 0 \<le> i \<and> i < N \<and> odd i}"
  have fin: "finite ?S" by (rule finite_subset [of _ "{0..<N}"]) auto
  have one: "1 \<in> ?S" "N - 1 \<in> ?S" using assms by auto
  have "1 \<le> y" if "y \<in> ?S" for y using that by (cases "y = 0") auto
  then show "Min ?S = 1" using fin one by (intro Min_eqI)
  show "Max ?S = N - 1" by (rule Max_eqI [OF fin _ one(2)]) auto
  show "?S \<noteq> {}" using one(1) by blast
qed

section \<open>The tests pass for every ordered set\<close>

locale set_test = ordered_set_del +
  fixes fnd :: "int \<Rightarrow> 'a \<Rightarrow> int option" and lo hi :: "'a \<Rightarrow> int res"
  assumes fnd_ok: "inv t \<Longrightarrow> fnd x t = (if x \<in> elts t then Some x else None)"
    and lo_ok: "inv t \<Longrightarrow> elts t \<noteq> {} \<Longrightarrow> lo t = Inr (Min (elts t))"
    and hi_ok: "inv t \<Longrightarrow> elts t \<noteq> {} \<Longrightarrow> hi t = Inr (Max (elts t))"
begin

lemma delete_all_ok:
  "inv t \<Longrightarrow> distinct xs \<Longrightarrow> set xs \<subseteq> elts t \<Longrightarrow>
     \<exists>t'. insert_all del xs t = Inr t' \<and> inv t' \<and> elts t' = elts t - set xs"
proof (induction xs arbitrary: t)
  case (Cons x xs)
  then obtain t1 where t1: "del x t = Inr t1" "inv t1" "elts t1 = elts t - {x}"
    using del_ok [of t x] by auto
  then have "set xs \<subseteq> elts t1" using Cons.prems by auto
  with Cons.IH [OF t1(2)] Cons.prems t1 show ?case by auto
qed simp

lemma main_ok:
  assumes "inv t0" "elts t0 = {}" "2 \<le> N" "even N" "coprime 7 N"
  shows "set_main ins del fnd lo hi e1 e2 e3 N t0 = Inr [MinMax 1 (N - 1)]"
proof -
  have w: "set (walk (nat N) N 7 0) = {0..<N}" using walk_perm(2) [OF assms(5), of 0] assms(3) by simp
  obtain t1 where t1: "insert_all ins (walk (nat N) N 7 0) t0 = Inr t1" "inv t1" "elts t1 = {0..<N}"
    using insert_all_ok [OF assms(1), of "walk (nat N) N 7 0"] w assms(2) by auto
  have ev: "set (range_by 0 N 2) = {i. 0 \<le> i \<and> i < N \<and> even i}" "distinct (range_by 0 N 2)"
    using set_range_by [of 2 0 N] by auto
  obtain t2 where t2: "insert_all del (range_by 0 N 2) t1 = Inr t2" "inv t2"
    "elts t2 = {i. 0 \<le> i \<and> i < N \<and> odd i}"
  proof -
    have "set (range_by 0 N 2) \<subseteq> elts t1" unfolding ev(1) t1(3) by auto
    then obtain t2 where "insert_all del (range_by 0 N 2) t1 = Inr t2" "inv t2"
      "elts t2 = {0..<N} - {i. 0 \<le> i \<and> i < N \<and> even i}"
      using delete_all_ok [OF t1(2) ev(2)] unfolding ev(1) t1(3) by blast
    moreover have "{0..<N} - {i. 0 \<le> i \<and> i < N \<and> even i} = {i. 0 \<le> i \<and> i < N \<and> odd i}" by auto
    ultimately show ?thesis by (intro that [of t2]) simp_all
  qed
  have "present e1 fnd (range_by 0 N 1) t1 = []"
    by (rule present_empty) (use set_range_by(1) [of 1 0 N] t1(2,3) in \<open>auto simp: fnd_ok\<close>)
  moreover have "present e2 fnd (range_by 1 N 2) t2 = []"
    by (rule present_empty) (use set_range_by(1) [of 2 1 N] t2(2,3) in \<open>auto simp: fnd_ok\<close>)
  moreover have "absent e3 fnd (range_by 0 N 2) t2 = []"
    by (rule absent_empty) (use ev(1) t2(2,3) in \<open>auto simp: fnd_ok\<close>)
  moreover have "lo t2 = Inr 1" "hi t2 = Inr (N - 1)"
    using lo_ok [OF t2(2)] hi_ok [OF t2(2)] odd_extremes [OF assms(3,4)] unfolding t2(3) by simp_all
  ultimately show ?thesis using t1(1) t2(1) by (simp add: set_main_def)
qed

end

lemma value_of_Find: "bst t \<Longrightarrow> value_of (st_Find x t) = (if x \<in> elems t then Some x else None)"
  using st_Find_found [of t x] by (auto simp: found_def split: bt.splits dest: subtree_elems)

lemma tp_Retrieve_node: "st_Retrieve t = Inr x \<Longrightarrow> tp_Retrieve t = Inr x"
  by (cases t) auto

lemma extremes:
  "bst t \<Longrightarrow> elems t \<noteq> {} \<Longrightarrow> aa_Retrieve (st_FindMin t) = Inr (Min (elems t))"
  "bst t \<Longrightarrow> elems t \<noteq> {} \<Longrightarrow> aa_Retrieve (st_FindMax t) = Inr (Max (elems t))"
  "bst t' \<Longrightarrow> elems t' \<noteq> {} \<Longrightarrow> tp_Retrieve (st_FindMin t') = Inr (Min (elems t'))"
  "bst t' \<Longrightarrow> elems t' \<noteq> {} \<Longrightarrow> tp_Retrieve (st_FindMax t') = Inr (Max (elems t'))"
  by (auto simp: elems_empty_iff intro!: aa_Retrieve_node tp_Retrieve_node Retrieve_FindMin Retrieve_FindMax)

interpretation tree_test: set_test Null "st_Insert True" "\<lambda>x t. st_Find x t \<noteq> Null" elems bst st_Delete
    "\<lambda>i T. value_of (st_Find i T)" "\<lambda>T. st_Retrieve (st_FindMin T)" "\<lambda>T. st_Retrieve (st_FindMax T)"
  by unfold_locales (simp_all add: value_of_Find Retrieve_FindMin Retrieve_FindMax elems_empty_iff)

interpretation aat_test: set_test "(Null, s)" aa_ins "\<lambda>x (t, s). aa_Find x t \<noteq> Null"
    "\<lambda>(t, s). elems t" "\<lambda>(t, s). aa_ok t" aa_del "\<lambda>i (T, s). value_of (aa_Find i T)"
    "\<lambda>(T, s). aa_Retrieve (aa_FindMin T)" "\<lambda>(T, s). aa_Retrieve (aa_FindMax T)" for s
  by unfold_locales (simp_all add: value_of_Find aa_ok_def extremes(1,2) split: prod.splits)

interpretation treap_test: set_test "(\<lambda>_. 0, Null)" tp_ins "\<lambda>x s. tp_Find x (snd s) \<noteq> Null"
    "\<lambda>s. elems (snd s)" tp_inv tp_del "\<lambda>i (r, T). value_of (tp_Find i T)"
    "\<lambda>(r, T). tp_Retrieve (tp_FindMin T)" "\<lambda>(r, T). tp_Retrieve (tp_FindMax T)"
  by unfold_locales
    (simp_all add: value_of_Find tp_inv_def tp_search_eq extremes(3,4) split: prod.splits)

section \<open>The splay tree\<close>

lemma look_up_ok:
  assumes "bst T" "T \<noteq> Null" "\<And>i. i \<in> set is \<Longrightarrow> (i \<in> elems T) = b"
  shows "\<exists>T' s'. look_up msg b is (T, s) = Inr ([], T', s') \<and> bst T' \<and> elems T' = elems T"
  using assms
proof (induction "is" arbitrary: T s)
  case (Cons i "is")
  obtain l x j r where t: "sp_Splay i T = Inr (Node l x j r)" "bst (Node l x j r)"
    "inorder (Node l x j r) = inorder T"
    by (rule sp_Splay_ok [OF Cons.prems(2,1)])
  have e: "elems (Node l x j r) = elems T" using inorder_eqD [OF t(3)] by simp
  have x: "(x = i) = b" using sp_Splay_member [OF t(1) Cons.prems(1,2)] Cons.prems(3) [of i] by simp
  have "(k \<in> elems (Node l x j r)) = b" if "k \<in> set is" for k using Cons.prems(3) [of k] that e by simp
  from Cons.IH [OF t(2) _ this, of "s\<lparr>NullElem := Some i\<rparr>"] obtain T' s' where
    r: "look_up msg b is (Node l x j r, s\<lparr>NullElem := Some i\<rparr>) = Inr ([], T', s')" "bst T'"
    "elems T' = elems T" using e by auto
  have "look_up msg b (i # is) (T, s) = Inr ([], T', s')" using t(1) r(1) x by (simp add: sp_Find_def)
  then show ?case using r by blast
qed simp

lemma remove_all_ok:
  "bst T \<Longrightarrow> distinct xs \<Longrightarrow> set xs \<subseteq> elems T \<Longrightarrow>
     \<exists>T' s'. insert_all sp_Remove xs (T, s) = Inr (T', s') \<and> bst T' \<and> elems T' = elems T - set xs"
proof (induction xs arbitrary: T s)
  case (Cons x xs)
  then obtain T1 s1 where t1: "sp_Remove x (T, s) = Inr (T1, s1)" "bst T1" "elems T1 = elems T - {x}"
    using sp_Remove_present [of T x s] by auto
  then have "set xs \<subseteq> elems T1" using Cons.prems by auto
  with Cons.IH [OF t1(2), of s1] Cons.prems t1 show ?case by (auto simp: Diff_insert2 [symmetric])
qed simp

lemma sp_extremes:
  assumes "bst T" "elems T \<noteq> {}" "\<forall>x \<in> elems T. sp_NegInfinity \<le> x \<and> x \<le> sp_Infinity"
  shows "\<exists>T1 s1. sp_FindMin (T, s) = Inr (T1, s1) \<and> sp_Retrieve (T1, s1) = Inr (Min (elems T)) \<and>
    (\<exists>T2 s2. sp_FindMax (T1, s1) = Inr (T2, s2) \<and> sp_Retrieve (T2, s2) = Inr (Max (elems T)))"
proof -
  have ne: "T \<noteq> Null" using assms(2) by auto
  obtain l i r where m: "sp_Splay sp_NegInfinity T = Inr (Node l (Min (elems T)) i r)"
    using splay_least [OF assms(1) ne, of sp_NegInfinity] assms(3) by auto
  obtain l' x' i' r' where t: "sp_Splay sp_NegInfinity T = Inr (Node l' x' i' r')" "bst (Node l' x' i' r')"
    "inorder (Node l' x' i' r') = inorder T"
    by (rule sp_Splay_ok [OF ne assms(1)])
  define T1 where "T1 = Node l' x' i' r'"
  have e: "elems T1 = elems T" "bst T1" "T1 \<noteq> Null" "T1 = Node l (Min (elems T)) i r"
    using inorder_eqD [OF t(3)] t(2) m t(1) by (auto simp: T1_def)
  obtain l2 i2 r2 where M: "sp_Splay sp_Infinity T1 = Inr (Node l2 (Max (elems T)) i2 r2)"
    using splay_greatest [OF e(2,3), of sp_Infinity] assms(3) e(1) by auto
  show ?thesis
    using m M e(4) by (auto simp: sp_FindMin_def sp_FindMax_def sp_Find_def)
qed

section \<open>Properties\<close>

text \<open>The test programs of the binary search tree, the AVL tree, the AA tree and the treap
  run to the end without a failed operation and print no error line, only the line with the extreme
  elements; the one of the treap whatever \<open>rand()\<close> returns within \<open>Infinity\<close>.\<close>

theorem set_tests_pass:
  assumes "\<forall>n. rnd n \<le> Infinity"
  shows "testtree_main = Inr [MinMax 1 49] \<and> testavl_main = Inr [MinMax 0 49] \<and>
    testaa_main = Inr [MinMax 1 19] \<and> testtrp_main rnd = Inr [MinMax 1 11999]"
proof (intro conjI)
  have c: "coprime 7 (50::int)" "coprime 7 (20::int)" "coprime 7 (12000::int)" by code_simp+
  show "testtree_main = Inr [MinMax 1 49]"
    using tree_test.main_ok [of Null 50] c(1) by (simp add: testtree_main_def)
  show "testaa_main = Inr [MinMax 1 19]"
    using aat_test.main_ok [of "(Null, aa_start)" 20] c(2)
    by (simp add: testaa_main_def testaa_NumItems_def aa_Initialize_def aa_ok_def)
  show "testtrp_main rnd = Inr [MinMax 1 11999]"
    using treap_test.main_ok [of "(rnd, Null)" 12000] c(3) assms
    by (simp add: testtrp_main_def testtrp_NumItems_def tp_Initialize_def tp_inv_def)
  have w: "set (walk 50 50 7 0) = {0..<50}" using walk_perm(2) [OF c(1), of 0] by simp
  obtain t where t: "insert_all (avl_Insert True) (walk 50 50 7 0) Null = Inr t" "bst t" "elems t = {0..<50}"
    using avltree.insert_all_mem [of "walk 50 50 7 0"] unfolding w by auto
  then have ne: "t \<noteq> Null" by auto
  have "Min {0..<50::int} = 0" "Max {0..<50::int} = 49" by (intro Min_eqI Max_eqI; simp)+
  moreover have "present ''Error'' (\<lambda>i T. value_of (avl_Find i T)) (range_by 0 50 1) t = []"
    by (rule present_empty) (use t(2,3) set_range_by(1) [of 1 0 50] in \<open>simp add: avl_Find_eq value_of_Find\<close>)
  ultimately show "testavl_main = Inr [MinMax 0 49]"
    using t Retrieve_FindMin [OF t(2) ne] Retrieve_FindMax [OF t(2) ne]
    by (simp add: testavl_main_def avl_search_eq)
qed

lemma set_tests_pass_witness:
  "(\<forall>n::nat. (0::int) \<le> Infinity) \<and> testtrp_main (\<lambda>_. 0) = Inr [MinMax 1 11999]"
  using set_tests_pass [of "\<lambda>_. 0"] by (simp add: Infinity_def)

text \<open>The test program of the splay tree, whose lookups restructure the tree, prints its
  messages and the extreme elements and no error line.\<close>

theorem splay_test_passes:
  "testsply_main = Inr [Message ''Entering remove'', MessageInt ''Min is'' 1, MessageInt ''Max is'' 499]"
proof -
  have "coprime 7 (500::int)" by code_simp
  from walk_perm(2) [OF this, of 0] have w: "set (walk 500 500 7 0) = {0..<500}" by simp
  obtain T1 s1 where t1: "insert_all (sp_Insert True) (walk 500 500 7 0) (Null, sp_start) = Inr (T1, s1)"
    "bst T1" "elems T1 = {0..<500}"
    using sp.insert_all_mem [of "walk 500 500 7 0" sp_start] unfolding w by auto
  have "0 \<in> elems T1" unfolding t1(3) by simp
  then have n1: "T1 \<noteq> Null" by (cases T1) simp_all
  have all: "\<And>i. i \<in> set (range_by 0 500 1) \<Longrightarrow> (i \<in> {0..<500}) = True"
    using set_range_by(1) [of 1 0 500] by simp
  obtain T2 s2 where t2: "look_up ''Error1'' True (range_by 0 500 1) (T1, s1) = Inr ([], T2, s2)" "bst T2"
    "elems T2 = {0..<500}" using look_up_ok [OF t1(2) n1 all [folded t1(3)]] unfolding t1(3) by blast
  have "0 \<in> elems T2" unfolding t2(3) by simp
  then have n2: "T2 \<noteq> Null" by (cases T2) simp_all
  obtain T3 s3 where t3: "look_up ''Error1'' True (range_by 0 500 1) (T2, s2) = Inr ([], T3, s3)" "bst T3"
    "elems T3 = {0..<500}" using look_up_ok [OF t2(2) n2 all [folded t2(3)]] unfolding t2(3) by blast
  have ev: "set (range_by 0 500 2) = {i. 0 \<le> i \<and> i < 500 \<and> even i}" "distinct (range_by 0 500 2)"
    using set_range_by [of 2 0 500] by auto
  obtain T4 s4 where t4: "insert_all sp_Remove (range_by 0 500 2) (T3, s3) = Inr (T4, s4)" "bst T4"
    "elems T4 = {i. 0 \<le> i \<and> i < 500 \<and> odd i}"
  proof -
    have "set (range_by 0 500 2) \<subseteq> elems T3" unfolding ev(1) t3(3) by auto
    moreover have "{0..<500::int} - {i. 0 \<le> i \<and> i < 500 \<and> even i} = {i. 0 \<le> i \<and> i < 500 \<and> odd i}" by auto
    ultimately show ?thesis
      using remove_all_ok [OF t3(2) ev(2), of s3] that unfolding ev(1) t3(3) by metis
  qed
  have "1 \<in> elems T4" unfolding t4(3) by simp
  then have n4: "T4 \<noteq> Null" by auto
  obtain T5 s5 where t5: "look_up ''Error2'' True (range_by 1 500 2) (T4, s4) = Inr ([], T5, s5)" "bst T5"
    "elems T5 = elems T4"
  proof -
    have "(i \<in> elems T4) = True" if "i \<in> set (range_by 1 500 2)" for i
      using that set_range_by(1) [of 2 1 500] unfolding t4(3) by auto
    from look_up_ok [OF t4(2) n4 this] show ?thesis using that by blast
  qed
  then have n5: "T5 \<noteq> Null" using \<open>1 \<in> elems T4\<close> by auto
  obtain T6 s6 where t6: "look_up ''Error3'' False (range_by 0 500 2) (T5, s5) = Inr ([], T6, s6)" "bst T6"
    "elems T6 = elems T4"
  proof -
    have "(i \<in> elems T5) = False" if "i \<in> set (range_by 0 500 2)" for i
      using that unfolding t5(3) t4(3) ev(1) by auto
    from look_up_ok [OF t5(2) n5 this] show ?thesis using that unfolding t5(3) by blast
  qed
  have ex: "Min (elems T4) = 1" "Max (elems T4) = 499" "elems T4 \<noteq> {}"
    using odd_extremes [of 500] t4(3) by simp_all
  have bd: "\<forall>x \<in> elems T6. sp_NegInfinity \<le> x \<and> x \<le> sp_Infinity"
    unfolding t6(3) t4(3) by (auto simp: sp_NegInfinity_def sp_Infinity_def)
  obtain T7 s7 T8 s8 where t7: "sp_FindMin (T6, s6) = Inr (T7, s7)" "sp_Retrieve (T7, s7) = Inr 1"
    "sp_FindMax (T7, s7) = Inr (T8, s8)" "sp_Retrieve (T8, s8) = Inr 499"
    using sp_extremes [OF t6(2) _ bd, of s6] ex unfolding t6(3) by metis
  show ?thesis
    using t1(1) t2(1) t3(1) t4(1) t5(1) t6(1) t7
    by (simp add: testsply_main_def testsply_NumItems_def sp_Initialize_def Let_def)
qed

end
