(* ===== verification/NodeHeap.thy ===== *)
theory NodeHeap
  imports CBase
begin

text \<open>
  Memory with nodes of one type, for the files whose code cannot be read as updates of a tree:
  \<^verbatim>\<open>pairheap.c\<close>, \<^verbatim>\<open>redblack.c\<close> and \<^verbatim>\<open>dsl.c\<close> of
  \<^verbatim>\<open>src/DSAAC\<close>. \<open>NULL\<close> is the address 0. \<open>rd h p\<close> is \<open>*p\<close>,
  and \<open>wr h p f\<close> an assignment to a field of \<open>*p\<close>; both fail on \<open>NULL\<close>
  and on memory that is not allocated.
\<close>

definition rd :: "(int \<rightharpoonup> 'n) \<Rightarrow> int \<Rightarrow> 'n res" where
  "rd h p = (if p = 0 then Inl NullDeref else case h p of None \<Rightarrow> Inl BadAccess | Some n \<Rightarrow> Inr n)"

definition wr :: "(int \<rightharpoonup> 'n) \<Rightarrow> int \<Rightarrow> ('n \<Rightarrow> 'n) \<Rightarrow> (int \<rightharpoonup> 'n) res" where
  "wr h p f = bindr (rd h p) (\<lambda>n. Inr (h(p \<mapsto> f n)))"

definition pfree :: "(int \<rightharpoonup> 'n) \<Rightarrow> int \<Rightarrow> (int \<rightharpoonup> 'n) res" where
  "pfree h p = (if h p = None then Inl BadAccess else Inr (h(p := None)))"

lemma rd_ok: "p \<noteq> 0 \<Longrightarrow> h p = Some n \<Longrightarrow> rd h p = Inr n"
  by (simp add: rd_def)

lemma wr_ok: "p \<noteq> 0 \<Longrightarrow> h p = Some n \<Longrightarrow> wr h p f = Inr (h(p \<mapsto> f n))"
  by (simp add: wr_def rd_ok)

text \<open>An allocator that returns an unused block, and that there is one.\<close>

definition avail :: "((int \<rightharpoonup> 'n) \<Rightarrow> int) \<Rightarrow> bool" where
  "avail al \<longleftrightarrow> (\<forall>h. finite (dom h) \<longrightarrow> al h \<noteq> 0 \<and> h (al h) = None)"

definition new_adr :: "(int \<rightharpoonup> 'n) \<Rightarrow> int" where
  "new_adr h = Max (insert 0 (dom h)) + 1"

lemma avail_new_adr: "avail new_adr"
  unfolding avail_def
proof (intro allI impI)
  fix h :: "int \<rightharpoonup> 'n" assume f: "finite (dom h)"
  have "0 \<le> Max (insert 0 (dom h))" using f by simp
  moreover have "Max (insert 0 (dom h)) + 1 \<notin> dom h"
    using f Max_ge [of "insert 0 (dom h)" "Max (insert 0 (dom h)) + 1"] by auto
  ultimately show "new_adr h \<noteq> 0 \<and> h (new_adr h) = None" by (auto simp: new_adr_def)
qed

end
