(* ===== verification/PairHeap.thy ===== *)
theory PairHeap
  imports PriorityQueue NodeHeap
begin

text \<open>
  \<^verbatim>\<open>src/DSAAC/pairheap.c\<close>: pairing heaps with \<open>DecreaseKey\<close>. A node points
  to its leftmost child, its next sibling and its previous sibling or parent, and a client holds
  pointers to nodes, so the model is an explicit heap of nodes; \<open>NULL\<close> is the address 0.
  Every assignment through a pointer is one store, in the order of the code, and fails on
  \<open>NULL\<close> or on memory that is not allocated.

  The trees that the proofs relate the heap to are \<open>int bt\<close>: the left child is the
  leftmost child, the right child the next sibling, and the additional field the address.
\<close>

section \<open>The heap\<close>

record pnode =
  Element :: int
  LeftChild :: int
  NextSibling :: int
  Prev :: int

type_synonym pheap = "int \<rightharpoonup> pnode"

section \<open>Operations\<close>

definition MaxSiblings :: nat where "MaxSiblings = 1000"

definition ph_Initialize :: int where "ph_Initialize = 0"

partial_function (option) ph_MakeEmpty :: "pheap \<Rightarrow> int \<Rightarrow> pheap res option" where
  "ph_MakeEmpty h H =
    (if H = 0 then Some (Inr h)
     else case rd h H of Inl e \<Rightarrow> Some (Inl e) | Inr n \<Rightarrow>
       Option.bind (ph_MakeEmpty h (LeftChild n)) (\<lambda>R. case R of Inl e \<Rightarrow> Some (Inl e) | Inr h \<Rightarrow>
         case rd h H of Inl e \<Rightarrow> Some (Inl e) | Inr n \<Rightarrow>
           Option.bind (ph_MakeEmpty h (NextSibling n)) (\<lambda>R. case R of Inl e \<Rightarrow> Some (Inl e) | Inr h \<Rightarrow>
             Some (pfree h H))))"

text \<open>\<open>CompareAndLink\<close>, with the new heap and the returned pointer.\<close>

definition CompareAndLink :: "pheap \<Rightarrow> int \<Rightarrow> int \<Rightarrow> (pheap \<times> int) res" where
  "CompareAndLink h First Second =
    (if Second = 0 then Inr (h, First)
     else bindr (rd h First) (\<lambda>f. bindr (rd h Second) (\<lambda>s.
       if Element f \<le> Element s then
         bindr (wr h Second (\<lambda>n. n\<lparr>Prev := First\<rparr>)) (\<lambda>h.
         bindr (rd h Second) (\<lambda>s.
         bindr (wr h First (\<lambda>n. n\<lparr>NextSibling := NextSibling s\<rparr>)) (\<lambda>h.
         bindr (rd h First) (\<lambda>f.
         bindr (if NextSibling f \<noteq> 0 then wr h (NextSibling f) (\<lambda>n. n\<lparr>Prev := First\<rparr>) else Inr h) (\<lambda>h.
         bindr (rd h First) (\<lambda>f.
         bindr (wr h Second (\<lambda>n. n\<lparr>NextSibling := LeftChild f\<rparr>)) (\<lambda>h.
         bindr (rd h Second) (\<lambda>s.
         bindr (if NextSibling s \<noteq> 0 then wr h (NextSibling s) (\<lambda>n. n\<lparr>Prev := Second\<rparr>) else Inr h) (\<lambda>h.
         bindr (wr h First (\<lambda>n. n\<lparr>LeftChild := Second\<rparr>)) (\<lambda>h. Inr (h, First)))))))))))
       else
         bindr (wr h Second (\<lambda>n. n\<lparr>Prev := Prev f\<rparr>)) (\<lambda>h.
         bindr (wr h First (\<lambda>n. n\<lparr>Prev := Second\<rparr>)) (\<lambda>h.
         bindr (rd h Second) (\<lambda>s.
         bindr (wr h First (\<lambda>n. n\<lparr>NextSibling := LeftChild s\<rparr>)) (\<lambda>h.
         bindr (rd h First) (\<lambda>f.
         bindr (if NextSibling f \<noteq> 0 then wr h (NextSibling f) (\<lambda>n. n\<lparr>Prev := First\<rparr>) else Inr h) (\<lambda>h.
         bindr (wr h Second (\<lambda>n. n\<lparr>LeftChild := First\<rparr>)) (\<lambda>h. Inr (h, Second)))))))))))"

text \<open>\<open>Insert\<close>; \<open>t\<close> is what \<open>malloc\<close> returns. The last component is
  \<open>*Loc\<close>.\<close>

definition ph_Insert :: "int \<Rightarrow> int \<Rightarrow> pheap \<Rightarrow> int \<Rightarrow> (pheap \<times> int \<times> int) res" where
  "ph_Insert t Item h H =
    (if t = 0 then Inl (FatalError ''Out of space!!!'')
     else let h = h(t \<mapsto> \<lparr>Element = Item, LeftChild = 0, NextSibling = 0, Prev = 0\<rparr>) in
       if H = 0 then Inr (h, t, t)
       else bindr (CompareAndLink h H t) (\<lambda>(h, r). Inr (h, r, t)))"

definition DecreaseKey :: "int \<Rightarrow> int \<Rightarrow> pheap \<Rightarrow> int \<Rightarrow> (pheap \<times> int) res" where
  "DecreaseKey P Delta h H =
    (if Delta < 0 then Inl (FatalError ''DecreaseKey called with negative Delta'')
     else bindr (rd h P) (\<lambda>p.
       case ck (Element p - Delta) of None \<Rightarrow> Inl SignedOverflow | Some v \<Rightarrow>
       bindr (wr h P (\<lambda>n. n\<lparr>Element := v\<rparr>)) (\<lambda>h.
       if P = H then Inr (h, H)
       else
         bindr (rd h P) (\<lambda>p.
         bindr (if NextSibling p \<noteq> 0 then wr h (NextSibling p) (\<lambda>n. n\<lparr>Prev := Prev p\<rparr>) else Inr h) (\<lambda>h.
         bindr (rd h P) (\<lambda>p.
         bindr (rd h (Prev p)) (\<lambda>q.
         bindr (if LeftChild q = P then wr h (Prev p) (\<lambda>n. n\<lparr>LeftChild := NextSibling p\<rparr>)
                else wr h (Prev p) (\<lambda>n. n\<lparr>NextSibling := NextSibling p\<rparr>)) (\<lambda>h.
         bindr (wr h P (\<lambda>n. n\<lparr>NextSibling := 0\<rparr>)) (\<lambda>h.
         CompareAndLink h H P)))))))))"

text \<open>\<open>CombineSiblings\<close>. \<open>A\<close> is the static \<open>TreeArray\<close>.\<close>

definition aget' :: "int list \<Rightarrow> int \<Rightarrow> int res" where
  "aget' A i = (case aget A i of None \<Rightarrow> Inl BadAccess | Some x \<Rightarrow> Inr x)"

definition aput' :: "int list \<Rightarrow> int \<Rightarrow> int \<Rightarrow> int list res" where
  "aput' A i v = (case aput A i v of None \<Rightarrow> Inl BadAccess | Some A \<Rightarrow> Inr A)"

lemma aput'_Inr: "aput' A i v = Inr A' \<longleftrightarrow> inb A i \<and> A' = upd A i v"
  by (auto simp: aput'_def aput_def)

function break_loop :: "pheap \<Rightarrow> int list \<Rightarrow> int \<Rightarrow> int \<Rightarrow> (pheap \<times> int list \<times> int) res" where
  \<comment> \<open>the loop that puts the siblings in the array and cuts their links\<close>
  "break_loop h A NumSiblings FirstSibling =
    (if FirstSibling = 0 then Inr (h, A, NumSiblings)
     else bindr (aput' A NumSiblings FirstSibling) (\<lambda>A.
       bindr (rd h FirstSibling) (\<lambda>f.
       bindr (wr h (Prev f) (\<lambda>n. n\<lparr>NextSibling := 0\<rparr>)) (\<lambda>h.
       bindr (rd h FirstSibling) (\<lambda>f.
       break_loop h A (NumSiblings + 1) (NextSibling f))))))"
  by pat_completeness auto

termination break_loop
  by (relation "measure (\<lambda>(h, A, N, S). nat (len A - N))") (auto simp: aput'_Inr inb_def)

text \<open>\<open>TreeArray[ i ] = CompareAndLink( TreeArray[ i ], TreeArray[ j ] )\<close>.\<close>

definition link_slots :: "pheap \<Rightarrow> int list \<Rightarrow> int \<Rightarrow> int \<Rightarrow> (pheap \<times> int list) res" where
  "link_slots h A i j =
    bindr (aget' A i) (\<lambda>a. bindr (aget' A j) (\<lambda>b. bindr (CompareAndLink h a b) (\<lambda>(h, r).
      bindr (aput' A i r) (\<lambda>A. Inr (h, A)))))"

function pair_loop :: "pheap \<Rightarrow> int list \<Rightarrow> int \<Rightarrow> int \<Rightarrow> (pheap \<times> int list \<times> int) res" where
  \<comment> \<open>the pass from left to right; the last component is the final \<open>i\<close>\<close>
  "pair_loop h A NumSiblings i =
    (if i + 1 < NumSiblings
     then bindr (link_slots h A i (i + 1)) (\<lambda>(h, A). pair_loop h A NumSiblings (i + 2))
     else Inr (h, A, i))"
  by pat_completeness auto

termination pair_loop
  by (relation "measure (\<lambda>(h, A, N, i). nat (N - i))") auto

function back_loop :: "pheap \<Rightarrow> int list \<Rightarrow> int \<Rightarrow> (pheap \<times> int list) res" where
  \<comment> \<open>the pass from right to left\<close>
  "back_loop h A j =
    (if j \<ge> 2 then bindr (link_slots h A (j - 2) j) (\<lambda>(h, A). back_loop h A (j - 2)) else Inr (h, A))"
  by pat_completeness auto

termination back_loop
  by (relation "measure (\<lambda>(h, A, j). nat j)") auto

definition CombineSiblings :: "pheap \<Rightarrow> int list \<Rightarrow> int \<Rightarrow> (pheap \<times> int list \<times> int) res" where
  "CombineSiblings h A FirstSibling =
    bindr (rd h FirstSibling) (\<lambda>f.
      if NextSibling f = 0 then Inr (h, A, FirstSibling)
      else
        bindr (break_loop h A 0 FirstSibling) (\<lambda>(h, A, N).
        bindr (aput' A N 0) (\<lambda>A.
        bindr (pair_loop h A N 0) (\<lambda>(h, A, i).
        let j = i - 2 in
        bindr (if j = N - 3 then link_slots h A j (j + 2) else Inr (h, A)) (\<lambda>(h, A).
        bindr (back_loop h A j) (\<lambda>(h, A).
        bindr (aget' A 0) (\<lambda>r. Inr (h, A, r))))))))"

definition ph_IsEmpty :: "int \<Rightarrow> bool" where
  "ph_IsEmpty H \<longleftrightarrow> H = 0"

definition ph_IsFull :: "int \<Rightarrow> bool" where
  "ph_IsFull H = False"

definition ph_FindMin :: "pheap \<Rightarrow> int \<Rightarrow> int res" where
  "ph_FindMin h H =
    (if \<not> ph_IsEmpty H then bindr (rd h H) (\<lambda>n. Inr (Element n))
     else Inl (FatalError ''Priority Queue is Empty''))"

text \<open>The third component is the new root, the last \<open>*MinItem\<close>.\<close>

definition ph_DeleteMin :: "pheap \<Rightarrow> int list \<Rightarrow> int \<Rightarrow> (pheap \<times> int list \<times> int \<times> int) res" where
  "ph_DeleteMin h A H =
    (if ph_IsEmpty H then Inl (FatalError ''Pairing heap is empty!'')
     else bindr (rd h H) (\<lambda>n.
       bindr (if LeftChild n \<noteq> 0 then CombineSiblings h A (LeftChild n) else Inr (h, A, 0)) (\<lambda>(h, A, R).
       bindr (pfree h H) (\<lambda>h. Inr (h, A, R, Element n)))))"

definition ph_Destroy :: "pheap \<Rightarrow> int \<Rightarrow> pheap res option" where
  "ph_Destroy h H = ph_MakeEmpty h H"

declare break_loop.simps [simp del] pair_loop.simps [simp del] back_loop.simps [simp del]

section \<open>Trees in the heap\<close>

fun adr :: "int bt \<Rightarrow> int set" where
  "adr Null = {}"
| "adr (Node l x a r) = insert a (adr l \<union> adr r)"

fun root :: "int bt \<Rightarrow> int" where
  "root Null = 0"
| "root (Node l x a r) = a"

fun content :: "int bt \<Rightarrow> (int \<times> int) multiset" where
  \<comment> \<open>the elements with the addresses of their nodes\<close>
  "content Null = {#}"
| "content (Node l x a r) = add_mset (x, a) (content l + content r)"

fun pord :: "int bt \<Rightarrow> bool" where
  \<comment> \<open>heap order: an element is at most those below it; siblings are not ordered\<close>
  "pord Null = True"
| "pord (Node l x a r) \<longleftrightarrow> pord l \<and> pord r \<and> (\<forall>(y, b) \<in># content l. x \<le> y)"

text \<open>The siblings from \<open>p\<close> on, with what is below them; \<open>q\<close> is the
  \<open>Prev\<close> of the first one. No node is shared.\<close>

fun rep :: "pheap \<Rightarrow> int \<Rightarrow> int \<Rightarrow> int bt \<Rightarrow> bool" where
  "rep h q p Null \<longleftrightarrow> p = 0"
| "rep h q p (Node l x a r) \<longleftrightarrow> p = a \<and> a \<noteq> 0 \<and> a \<notin> adr l \<and> a \<notin> adr r \<and> adr l \<inter> adr r = {} \<and>
     (\<exists>n. h a = Some n \<and> Element n = x \<and> Prev n = q \<and>
        rep h a (LeftChild n) l \<and> rep h a (NextSibling n) r)"

lemma rep_frame: "rep h q p t \<Longrightarrow> (\<And>a. a \<in> adr t \<Longrightarrow> h' a = h a) \<Longrightarrow> rep h' q p t"
  by (induction t arbitrary: q p) auto

lemma rep_prev:
  "rep h q p t \<Longrightarrow> t \<noteq> Null \<Longrightarrow> (\<And>a. a \<in> adr t \<Longrightarrow> a \<noteq> p \<Longrightarrow> h' a = h a) \<Longrightarrow>
   h p = Some n \<Longrightarrow> h' p = Some (n\<lparr>Prev := q'\<rparr>) \<Longrightarrow> rep h' q' p t"
proof (cases t)
  case (Node l x a r)
  assume R: "rep h q p t" "\<And>a. a \<in> adr t \<Longrightarrow> a \<noteq> p \<Longrightarrow> h' a = h a" "h p = Some n"
    "h' p = Some (n\<lparr>Prev := q'\<rparr>)"
  have "rep h' a (LeftChild n) l" "rep h' a (NextSibling n) r"
    by (rule rep_frame [of h]; use R Node in auto)+
  then show ?thesis using R Node by auto
qed simp

lemma rep_root: "rep h q p t \<Longrightarrow> p = root t"
  by (cases t) auto

lemma rep_adr: "rep h q p t \<Longrightarrow> a \<in> adr t \<Longrightarrow> a \<noteq> 0 \<and> h a \<noteq> None"
  by (induction t arbitrary: q p) auto

lemma root_adr: "t \<noteq> Null \<Longrightarrow> root t \<in> adr t"
  by (cases t) auto

lemma rep_zero: "rep h q p t \<Longrightarrow> p = 0 \<longleftrightarrow> t = Null"
  by (cases t) auto

lemma adr_content: "adr t = snd ` set_mset (content t)"
  by (induction t) auto

text \<open>A heap of its own: a tree without siblings.\<close>

definition single :: "pheap \<Rightarrow> int bt \<Rightarrow> bool" where
  "single h t \<longleftrightarrow> pord t \<and> (\<exists>l x a q. t = Node l x a Null \<and> rep h q a t)"

lemma single_frame: "single h t \<Longrightarrow> (\<And>a. a \<in> adr t \<Longrightarrow> h' a = h a) \<Longrightarrow> single h' t"
  unfolding single_def by (metis rep_frame)

text \<open>Making the children \<open>l\<close> of a node the siblings of the new child \<open>b\<close>: the
  \<open>Prev\<close> of the first one changes.\<close>

lemma attach:
  assumes "rep h a c l" "b \<notin> adr l" "a \<notin> adr l"
  obtains h' where "(if c \<noteq> 0 then wr h c (\<lambda>n. n\<lparr>Prev := b\<rparr>) else Inr h) = Inr h'"
    "rep h' b c l" "\<forall>d. d \<notin> adr l \<longrightarrow> h' d = h d" "dom h' = dom h"
proof (cases "l = Null")
  case True
  then show ?thesis using that [of h] assms by simp
next
  case False
  then have c: "c \<noteq> 0" "c = root l" "c \<in> adr l" using assms(1) rep_zero rep_root root_adr by blast+
  then obtain n where n: "h c = Some n" using rep_adr [OF assms(1)] by auto
  let ?h = "h(c \<mapsto> n\<lparr>Prev := b\<rparr>)"
  have "rep ?h b c l" by (rule rep_prev [OF assms(1) False _ n]) simp_all
  then show ?thesis by (intro that [of ?h]) (use c n in \<open>auto simp: wr_ok\<close>)
qed

lemma link_less:
  assumes r1: "rep h q1 a1 (Node l1 x1 a1 Null)" and r2: "rep h q2 a2 (Node l2 x2 a2 Null)"
    and d: "adr (Node l1 x1 a1 Null) \<inter> adr (Node l2 x2 a2 Null) = {}" and le: "x1 \<le> x2"
  shows "\<exists>h'. CompareAndLink h a1 a2 = Inr (h', a1) \<and> rep h' q1 a1 (Node (Node l2 x2 a2 l1) x1 a1 Null) \<and>
    dom h' = dom h \<and> (\<forall>a. a \<notin> adr (Node l1 x1 a1 Null) \<union> adr (Node l2 x2 a2 Null) \<longrightarrow> h' a = h a)"
proof -
  obtain n1 where n1: "h a1 = Some n1" "Element n1 = x1" "Prev n1 = q1" "NextSibling n1 = 0"
    "rep h a1 (LeftChild n1) l1" "a1 \<noteq> 0" "a1 \<notin> adr l1" using r1 by auto
  obtain n2 where n2: "h a2 = Some n2" "Element n2 = x2" "NextSibling n2 = 0"
    "rep h a2 (LeftChild n2) l2" "a2 \<noteq> 0" "a2 \<notin> adr l2" using r2 by auto
  have ne: "a1 \<noteq> a2" "a2 \<notin> adr l1" "a1 \<notin> adr l2" "adr l1 \<inter> adr l2 = {}" using d by auto
  define h1 where "h1 = h(a1 \<mapsto> n1, a2 \<mapsto> n2\<lparr>Prev := a1, NextSibling := LeftChild n1\<rparr>)"
  have "rep h1 a1 (LeftChild n1) l1" by (rule rep_frame [OF n1(5)]) (use ne n1 in \<open>auto simp: h1_def\<close>)
  then obtain h2 where h2: "(if LeftChild n1 \<noteq> 0 then wr h1 (LeftChild n1) (\<lambda>n. n\<lparr>Prev := a2\<rparr>) else Inr h1) = Inr h2"
    "rep h2 a2 (LeftChild n1) l1" "\<forall>d. d \<notin> adr l1 \<longrightarrow> h2 d = h1 d" "dom h2 = dom h1"
    by (rule attach [OF _ ne(2) n1(7)])
  define h3 where "h3 = h2(a1 \<mapsto> n1\<lparr>LeftChild := a2\<rparr>)"
  have v: "h2 a1 = Some n1" "h2 a2 = Some (n2\<lparr>Prev := a1, NextSibling := LeftChild n1\<rparr>)"
    using h2(3) ne n1(7) by (auto simp: h1_def)
  have e: "n1\<lparr>NextSibling := 0\<rparr> = n1" using n1(4) by simp
  have "CompareAndLink h a1 a2 = Inr (h3, a1)"
    using n1(1,2,4,6) n2(1,2,3,5) ne(1) le h2(1) [unfolded h1_def] v
    by (cases "LeftChild n1 = 0") (auto simp: CompareAndLink_def rd_ok wr_ok h3_def e fun_upd_twist)
  moreover have "rep h3 a2 (LeftChild n2) l2"
    by (rule rep_frame [OF n2(4)]) (use h2(3) ne n2(6) in \<open>auto simp: h3_def h1_def\<close>)
  moreover have "rep h3 a2 (LeftChild n1) l1"
    by (rule rep_frame [OF h2(2)]) (use n1(7) in \<open>auto simp: h3_def\<close>)
  moreover have "h3 a2 = Some (n2\<lparr>Prev := a1, NextSibling := LeftChild n1\<rparr>)" "h3 a1 = Some (n1\<lparr>LeftChild := a2\<rparr>)"
    using v ne(1) by (simp_all add: h3_def)
  moreover have "dom h3 = dom h" using h2(4) n1(1) n2(1) by (auto simp: h3_def h1_def)
  moreover have "h3 a = h a" if "a \<notin> adr (Node l1 x1 a1 Null) \<union> adr (Node l2 x2 a2 Null)" for a
    using that h2(3) by (auto simp: h3_def h1_def)
  ultimately show ?thesis using n1 n2 ne by auto
qed

lemma link_greater:
  assumes r1: "rep h q1 a1 (Node l1 x1 a1 Null)" and r2: "rep h q2 a2 (Node l2 x2 a2 Null)"
    and d: "adr (Node l1 x1 a1 Null) \<inter> adr (Node l2 x2 a2 Null) = {}" and gt: "\<not> x1 \<le> x2"
  shows "\<exists>h'. CompareAndLink h a1 a2 = Inr (h', a2) \<and> rep h' q1 a2 (Node (Node l1 x1 a1 l2) x2 a2 Null) \<and>
    dom h' = dom h \<and> (\<forall>a. a \<notin> adr (Node l1 x1 a1 Null) \<union> adr (Node l2 x2 a2 Null) \<longrightarrow> h' a = h a)"
proof -
  obtain n1 where n1: "h a1 = Some n1" "Element n1 = x1" "Prev n1 = q1" "NextSibling n1 = 0"
    "rep h a1 (LeftChild n1) l1" "a1 \<noteq> 0" "a1 \<notin> adr l1" using r1 by auto
  obtain n2 where n2: "h a2 = Some n2" "Element n2 = x2" "NextSibling n2 = 0"
    "rep h a2 (LeftChild n2) l2" "a2 \<noteq> 0" "a2 \<notin> adr l2" using r2 by auto
  have ne: "a1 \<noteq> a2" "a2 \<notin> adr l1" "a1 \<notin> adr l2" "adr l1 \<inter> adr l2 = {}" using d by auto
  define m1 where "m1 = n1\<lparr>Prev := a2, NextSibling := LeftChild n2\<rparr>"
  define h1 where "h1 = h(a2 \<mapsto> n2\<lparr>Prev := q1\<rparr>, a1 \<mapsto> m1)"
  have "rep h1 a2 (LeftChild n2) l2" by (rule rep_frame [OF n2(4)]) (use ne n2 in \<open>auto simp: h1_def\<close>)
  then obtain h2 where h2: "(if LeftChild n2 \<noteq> 0 then wr h1 (LeftChild n2) (\<lambda>n. n\<lparr>Prev := a1\<rparr>) else Inr h1) = Inr h2"
    "rep h2 a1 (LeftChild n2) l2" "\<forall>d. d \<notin> adr l2 \<longrightarrow> h2 d = h1 d" "dom h2 = dom h1"
    by (rule attach [OF _ ne(3) n2(6)])
  define h3 where "h3 = h2(a2 \<mapsto> n2\<lparr>Prev := q1, LeftChild := a1\<rparr>)"
  have v: "h2 a1 = Some m1" "h2 a2 = Some (n2\<lparr>Prev := q1\<rparr>)"
    using h2(3) ne n2(6) by (auto simp: h1_def)
  have "CompareAndLink h a1 a2 = Inr (h3, a2)"
    using n1(1,2,3,4,6) n2(1,2,3,5) ne(1) gt h2(1) [unfolded h1_def m1_def] v
    by (cases "LeftChild n2 = 0") (auto simp: CompareAndLink_def rd_ok wr_ok h3_def)
  moreover have "rep h3 a1 (LeftChild n1) l1"
    by (rule rep_frame [OF n1(5)]) (use h2(3) ne n1(7) in \<open>auto simp: h3_def h1_def\<close>)
  moreover have "rep h3 a1 (LeftChild n2) l2"
    by (rule rep_frame [OF h2(2)]) (use n2(6) in \<open>auto simp: h3_def\<close>)
  moreover have "h3 a2 = Some (n2\<lparr>Prev := q1, LeftChild := a1\<rparr>)" "h3 a1 = Some m1"
    using v ne(1) by (simp_all add: h3_def)
  moreover have "dom h3 = dom h" using h2(4) n1(1) n2(1) by (auto simp: h3_def h1_def)
  moreover have "h3 a = h a" if "a \<notin> adr (Node l1 x1 a1 Null) \<union> adr (Node l2 x2 a2 Null)" for a
    using that h2(3) by (auto simp: h3_def h1_def)
  ultimately show ?thesis using n1 n2 ne by (auto simp: m1_def)
qed

text \<open>The contract of \<open>CompareAndLink\<close> on two separate heaps.\<close>

lemma CompareAndLink_ok:
  assumes "single h t1" "single h t2" "adr t1 \<inter> adr t2 = {}"
  obtains h' t' where "CompareAndLink h (root t1) (root t2) = Inr (h', root t')" "single h' t'"
    "content t' = content t1 + content t2" "dom h' = dom h"
    "\<forall>a. a \<notin> adr t1 \<union> adr t2 \<longrightarrow> h' a = h a"
proof -
  obtain l1 x1 a1 q1 where t1: "t1 = Node l1 x1 a1 Null" "rep h q1 a1 t1" "pord t1"
    using assms(1) by (auto simp: single_def)
  obtain l2 x2 a2 q2 where t2: "t2 = Node l2 x2 a2 Null" "rep h q2 a2 t2" "pord t2"
    using assms(2) by (auto simp: single_def)
  show ?thesis
  proof (cases "x1 \<le> x2")
    case True
    let ?t = "Node (Node l2 x2 a2 l1) x1 a1 Null"
    obtain h' where h': "CompareAndLink h a1 a2 = Inr (h', a1)" "rep h' q1 a1 ?t" "dom h' = dom h"
      "\<forall>a. a \<notin> adr t1 \<union> adr t2 \<longrightarrow> h' a = h a"
      using link_less [OF _ _ _ True] t1 t2 assms(3) by blast
    have "pord ?t" using t1 t2 True by fastforce
    then have "single h' ?t" using h'(2) by (auto simp: single_def)
    then show ?thesis using that [of h' ?t] h' t1 t2 by simp
  next
    case False
    let ?t = "Node (Node l1 x1 a1 l2) x2 a2 Null"
    obtain h' where h': "CompareAndLink h a1 a2 = Inr (h', a2)" "rep h' q1 a2 ?t" "dom h' = dom h"
      "\<forall>a. a \<notin> adr t1 \<union> adr t2 \<longrightarrow> h' a = h a"
      using link_greater [OF _ _ _ False] t1 t2 assms(3) by blast
    have "pord ?t" using t1 t2 False by fastforce
    then have "single h' ?t" using h'(2) by (auto simp: single_def)
    then show ?thesis using that [of h' ?t] h' t1 t2 by (simp add: union_ac)
  qed
qed

section \<open>Combining siblings\<close>

fun spine :: "int bt \<Rightarrow> int bt list" where
  \<comment> \<open>the siblings as separate heaps\<close>
  "spine Null = []"
| "spine (Node l x a r) = Node l x a Null # spine r"

lemma sum_list_spine: "(\<Sum>t\<leftarrow>spine t. content t) = content t"
  by (induction t) auto

lemma adr_spine: "adr t = (\<Union>s \<in> set (spine t). adr s)"
  by (induction t) auto

text \<open>Separate heaps.\<close>

definition forest :: "pheap \<Rightarrow> int bt list \<Rightarrow> bool" where
  "forest h ts \<longleftrightarrow> (\<forall>t \<in> set ts. single h t) \<and> sorted_wrt (\<lambda>s t. adr s \<inter> adr t = {}) ts"

abbreviation total :: "int bt list \<Rightarrow> (int \<times> int) multiset" where
  "total ts \<equiv> (\<Sum>t\<leftarrow>ts. content t)"

abbreviation adrs :: "int bt list \<Rightarrow> int set" where
  "adrs ts \<equiv> (\<Union>t \<in> set ts. adr t)"

lemma adrs_total: "adrs ts = snd ` set_mset (total ts)"
  by (induction ts) (auto simp: adr_content)

definition same_off :: "int set \<Rightarrow> pheap \<Rightarrow> pheap \<Rightarrow> bool" where
  "same_off S h h' \<longleftrightarrow> dom h' = dom h \<and> (\<forall>a. a \<notin> S \<longrightarrow> h' a = h a)"

lemma same_off_refl [simp]: "same_off S h h"
  by (simp add: same_off_def)

lemma same_off_trans: "same_off S h h1 \<Longrightarrow> same_off S h1 h2 \<Longrightarrow> same_off S h h2"
  by (simp add: same_off_def)

lemma forest_link:
  assumes "forest h (xs @ t1 # t2 # ys)"
  shows "\<exists>h' t'. CompareAndLink h (root t1) (root t2) = Inr (h', root t') \<and> forest h' (xs @ t' # ys) \<and>
    content t' = content t1 + content t2 \<and> same_off (adrs (xs @ t1 # t2 # ys)) h h'"
proof -
  have f: "single h t1" "single h t2" "adr t1 \<inter> adr t2 = {}"
    using assms by (auto simp: forest_def sorted_wrt_append)
  obtain h' t' where t': "CompareAndLink h (root t1) (root t2) = Inr (h', root t')" "single h' t'"
    "content t' = content t1 + content t2" "dom h' = dom h" "\<forall>a. a \<notin> adr t1 \<union> adr t2 \<longrightarrow> h' a = h a"
    by (rule CompareAndLink_ok [OF f])
  have a: "adr t' = adr t1 \<union> adr t2" using t'(3) by (auto simp: adr_content)
  have "single h' t" if "t \<in> set xs \<union> set ys" for t
  proof (rule single_frame)
    show "single h t" using assms that by (auto simp: forest_def)
    fix b assume "b \<in> adr t"
    then have "b \<notin> adr t1 \<union> adr t2" using assms that by (fastforce simp: forest_def sorted_wrt_append)
    then show "h' b = h b" using t'(5) by blast
  qed
  then have "forest h' (xs @ t' # ys)"
    using assms t'(2) a by (fastforce simp: forest_def sorted_wrt_append)
  then show ?thesis using t' by (auto simp: same_off_def)
qed

lemma break_loop_ok:
  assumes "rep h q S t" "pord t" "q \<noteq> 0" "h q = Some nq" "q \<notin> adr t" "0 \<le> N"
    "N + len (spine t) \<le> len A"
  shows "\<exists>h' A'. break_loop h A N S = Inr (h', A', N + len (spine t)) \<and> length A' = length A \<and>
    (\<forall>k. 0 \<le> k \<and> k < N \<longrightarrow> elt A' k = elt A k) \<and>
    (\<forall>k < length (spine t). elt A' (N + int k) = root (spine t ! k)) \<and>
    forest h' (spine t) \<and> same_off (insert q (adr t)) h h' \<and>
    h' q = Some (if t = Null then nq else nq\<lparr>NextSibling := 0\<rparr>)"
  using assms
proof (induction t arbitrary: h q S nq N A)
  case Null
  then show ?case by (simp add: break_loop.simps forest_def)
next
  case (Node l x a r)
  obtain n where n: "h a = Some n" "Element n = x" "Prev n = q" "rep h a (LeftChild n) l"
    "rep h a (NextSibling n) r" "S = a" "a \<noteq> 0" "a \<notin> adr l" "a \<notin> adr r" "adr l \<inter> adr r = {}"
    using Node.prems(1) by auto
  define h1 where "h1 = h(q \<mapsto> nq\<lparr>NextSibling := 0\<rparr>)"
  have qa: "q \<noteq> a" "q \<notin> adr l" "q \<notin> adr r" using Node.prems(5) by auto
  have inb: "inb A N" using Node.prems(6,7) by (auto simp: inb_def)
  have eq: "break_loop h A N S = break_loop h1 (upd A N a) (N + 1) (NextSibling n)"
    using n(1,3,6,7) Node.prems(3,4) qa(1) inb
    by (subst break_loop.simps) (simp add: aput'_def aput_def rd_ok wr_ok h1_def)
  have "rep h1 a (NextSibling n) r"
    by (rule rep_frame [OF n(5)]) (use qa in \<open>auto simp: h1_def\<close>)
  moreover have "h1 a = Some n" using n(1) qa by (simp add: h1_def)
  moreover have "pord r" "0 \<le> N + 1" "N + 1 + len (spine r) \<le> len (upd A N a)"
    using Node.prems by auto
  ultimately obtain h' A' where r: "break_loop h1 (upd A N a) (N + 1) (NextSibling n) = Inr (h', A', N + 1 + len (spine r))"
    "length A' = length A" "\<forall>k. 0 \<le> k \<and> k < N + 1 \<longrightarrow> elt A' k = elt (upd A N a) k"
    "\<forall>k < length (spine r). elt A' (N + 1 + int k) = root (spine r ! k)" "forest h' (spine r)"
    "same_off (insert a (adr r)) h1 h'" "h' a = Some (if r = Null then n else n\<lparr>NextSibling := 0\<rparr>)"
    using Node.IH(2) [of h1 a "NextSibling n" n "N + 1" "upd A N a"] n(7,9) by auto
  have a: "h' a = Some (n\<lparr>NextSibling := 0\<rparr>)" using r(7) n(5) by (cases "r = Null") auto
  have l: "rep h' a (LeftChild n) l"
    by (rule rep_frame [OF n(4)]) (use r(6) n(8,10) qa in \<open>auto simp: same_off_def h1_def\<close>)
  have "single h' (Node l x a Null)"
    using a l n(2,7,8) Node.prems(2) by (auto simp: single_def)
  then have "forest h' (spine (Node l x a r))"
    using r(5) n(9,10) adr_spine [of r] by (auto simp: forest_def)
  moreover have "same_off (insert q (adr (Node l x a r))) h h'"
    using r(6) Node.prems(4) by (auto simp: same_off_def h1_def)
  moreover have "h' q = Some (nq\<lparr>NextSibling := 0\<rparr>)"
    using r(6) qa by (auto simp: same_off_def h1_def)
  moreover have "elt A' k = elt A k" if "0 \<le> k" "k < N" for k
    using r(3) that Node.prems(6) inb by (auto simp: elt_upd)
  moreover have "elt A' (N + int k) = root (spine (Node l x a r) ! k)" if "k < length (spine (Node l x a r))" for k
    using that r(3,4) inb Node.prems(6) by (cases k) (auto simp: algebra_simps)
  ultimately show ?case using eq r(1,2) by (simp add: algebra_simps)
qed

text \<open>The trees that the array holds: \<open>us\<close> in the even slots from 0 on, \<open>ts\<close>
  in the slots that follow.\<close>

definition slots :: "pheap \<Rightarrow> int list \<Rightarrow> int bt list \<Rightarrow> int bt list \<Rightarrow> bool" where
  "slots h A us ts \<longleftrightarrow> forest h (us @ ts) \<and> 2 * len us + len ts \<le> len A \<and>
     (\<forall>k < length us. elt A (2 * int k) = root (us ! k)) \<and>
     (\<forall>k < length ts. elt A (2 * len us + int k) = root (ts ! k))"

lemma slots_get:
  "slots h A us ts \<Longrightarrow> k < length us \<Longrightarrow> 2 * int k < len A \<Longrightarrow> aget' A (2 * int k) = Inr (root (us ! k))"
  "slots h A us ts \<Longrightarrow> k < length ts \<Longrightarrow> aget' A (2 * len us + int k) = Inr (root (ts ! k))"
  by (auto simp: slots_def aget'_def aget_def inb_def)

lemma link_slots_ok:
  assumes "aget' A i = Inr (root t1)" "aget' A j = Inr (root t2)" "forest h (xs @ t1 # t2 # ys)"
  shows "\<exists>h' t'. link_slots h A i j = Inr (h', upd A i (root t')) \<and> forest h' (xs @ t' # ys) \<and>
    content t' = content t1 + content t2 \<and> same_off (adrs (xs @ t1 # t2 # ys)) h h'"
proof -
  have "inb A i" using assms(1) by (auto simp: aget'_def aget_def split: if_splits)
  then show ?thesis using forest_link [OF assms(3)] assms(1,2)
    by (auto simp: link_slots_def aput'_def aput_def)
qed

lemma pair_loop_ok:
  assumes "slots h A us ts"
  shows "\<exists>h' A' us' ts'. pair_loop h A (2 * len us + len ts) (2 * len us) = Inr (h', A', 2 * len us') \<and>
    slots h' A' us' ts' \<and> length ts' \<le> 1 \<and> 2 * len us' + len ts' = 2 * len us + len ts \<and>
    length A' = length A \<and> total (us' @ ts') = total (us @ ts) \<and> same_off (adrs (us @ ts)) h h'"
  using assms
proof (induction "length ts" arbitrary: h A us ts rule: less_induct)
  case less
  show ?case
  proof (cases "length ts \<le> 1")
    case True
    then show ?thesis using less.prems by (subst pair_loop.simps) auto
  next
    case False
    then obtain t1 t2 rest where ts: "ts = t1 # t2 # rest"
      by (cases ts; cases "tl ts") auto
    have g: "aget' A (2 * len us) = Inr (root t1)" "aget' A (2 * len us + 1) = Inr (root t2)"
      using slots_get(2) [OF less.prems, of 0] slots_get(2) [OF less.prems, of 1] ts by simp_all
    have f: "forest h (us @ t1 # t2 # rest)" using less.prems ts by (simp add: slots_def)
    obtain h1 t' where t': "link_slots h A (2 * len us) (2 * len us + 1) = Inr (h1, upd A (2 * len us) (root t'))"
      "forest h1 (us @ t' # rest)" "content t' = content t1 + content t2"
      "same_off (adrs (us @ t1 # t2 # rest)) h h1"
      using link_slots_ok [OF g f] by blast
    let ?A = "upd A (2 * len us) (root t')"
    have inb: "inb A (2 * len us)" using less.prems ts by (auto simp: slots_def inb_def)
    have "slots h1 ?A (us @ [t']) rest"
    proof -
      have "elt A (2 + (2 * len us + int k)) = root (rest ! k)" if "k < length rest" for k
        using less.prems ts that by (auto simp: slots_def algebra_simps dest!: spec [of _ "Suc (Suc k)"])
      then show ?thesis using less.prems t'(2) inb ts
        by (auto simp: slots_def nth_append elt_upd less_Suc_eq algebra_simps)
    qed
    then obtain h' A' us' ts' where r: "pair_loop h1 ?A (2 * len (us @ [t']) + len rest) (2 * len (us @ [t'])) = Inr (h', A', 2 * len us')"
      "slots h' A' us' ts'" "length ts' \<le> 1" "2 * len us' + len ts' = 2 * len (us @ [t']) + len rest"
      "length A' = length ?A" "total (us' @ ts') = total ((us @ [t']) @ rest)"
      "same_off (adrs ((us @ [t']) @ rest)) h1 h'"
      using less.hyps [of rest h1 ?A "us @ [t']"] ts by auto
    have tot: "total (us' @ ts') = total (us @ ts)" using r(6) t'(3) ts by (simp add: union_ac)
    moreover have "adrs ((us @ [t']) @ rest) = adrs (us @ ts)"
      unfolding adrs_total using t'(3) ts by (simp add: Un_assoc)
    then have "same_off (adrs (us @ ts)) h h'"
      using same_off_trans [OF t'(4)] r(7) ts by simp
    moreover have "pair_loop h A (2 * len us + len ts) (2 * len us) = Inr (h', A', 2 * len us')"
      using r(1) t'(1) ts by (subst pair_loop.simps) (simp add: algebra_simps)
    ultimately show ?thesis using r(2,3,4,5) ts
      by (intro exI [of _ h'] exI [of _ A'] exI [of _ us'] exI [of _ ts']) simp
  qed
qed

lemma back_loop_ok:
  assumes "slots h A us []" "us \<noteq> []" "2 * len us \<le> len A + 1"
  shows "\<exists>h' A' t. back_loop h A (2 * (len us - 1)) = Inr (h', A') \<and> length A' = length A \<and>
    elt A' 0 = root t \<and> single h' t \<and> content t = total us \<and> same_off (adrs us) h h'"
  using assms
proof (induction "length us" arbitrary: h A us rule: less_induct)
  case less
  show ?case
  proof (cases "length us = 1")
    case True
    then obtain t where "us = [t]" by (cases us) auto
    then show ?thesis using less.prems by (subst back_loop.simps) (auto simp: slots_def forest_def)
  next
    case False
    then have "us \<noteq> []" "butlast us \<noteq> []" using less.prems(2) by (cases us; cases "tl us"; auto)+
    then obtain vs u v where us: "us = vs @ [u, v]"
      by (metis append_butlast_last_id append_assoc append_Cons append_Nil)
    have g: "aget' A (2 * len vs) = Inr (root u)" "aget' A (2 * len vs + 2) = Inr (root v)"
      using slots_get(1) [OF less.prems(1), of "length vs"] slots_get(1) [OF less.prems(1), of "Suc (length vs)"]
        less.prems(3) us by (simp_all add: nth_append algebra_simps)
    have f: "forest h (vs @ u # v # [])" using less.prems(1) us by (simp add: slots_def)
    obtain h1 t' where t': "link_slots h A (2 * len vs) (2 * len vs + 2) = Inr (h1, upd A (2 * len vs) (root t'))"
      "forest h1 (vs @ t' # [])" "content t' = content u + content v"
      "same_off (adrs (vs @ u # v # [])) h h1"
      using link_slots_ok [OF g f] by blast
    let ?A = "upd A (2 * len vs) (root t')"
    have inb: "inb A (2 * len vs)" using less.prems(3) us by (auto simp: inb_def)
    have "slots h1 ?A (vs @ [t']) []"
      using less.prems(1) t'(2) inb us
      by (auto simp: slots_def nth_append elt_upd less_Suc_eq split: if_splits)
    then obtain h' A' t where r: "back_loop h1 ?A (2 * (len (vs @ [t']) - 1)) = Inr (h', A')"
      "length A' = length ?A" "elt A' 0 = root t" "single h' t" "content t = total (vs @ [t'])"
      "same_off (adrs (vs @ [t'])) h1 h'"
      using less.hyps [of "vs @ [t']" h1 ?A] us less.prems(3) by auto
    have "content t = total us" using r(5) t'(3) us by (simp add: union_ac)
    moreover have "adrs (vs @ [t']) = adrs us" unfolding adrs_total using t'(3) us by simp
    then have "same_off (adrs us) h h'" using same_off_trans [OF t'(4)] r(6) us by simp
    moreover have "back_loop h A (2 * (len us - 1)) = Inr (h', A')"
      using r(1) t'(1) us by (subst back_loop.simps) (simp add: algebra_simps)
    ultimately show ?thesis using r by auto
  qed
qed

lemma slots_single:
  "slots h A (us @ [u]) [t] \<Longrightarrow> \<exists>h' A' us'. link_slots h A (2 * len us) (2 * len us + 2) = Inr (h', A') \<and>
     slots h' A' us' [] \<and> length us' = Suc (length us) \<and> length A' = length A \<and>
     total us' = total (us @ [u, t]) \<and> same_off (adrs (us @ [u, t])) h h'"
proof -
  assume s: "slots h A (us @ [u]) [t]"
  have g: "aget' A (2 * len us) = Inr (root u)" "aget' A (2 * len us + 2) = Inr (root t)"
    using slots_get(1) [OF s, of "length us"] slots_get(2) [OF s, of 0] s
    by (simp_all add: slots_def nth_append algebra_simps)
  have f: "forest h (us @ u # t # [])" using s by (simp add: slots_def)
  obtain h1 t' where t': "link_slots h A (2 * len us) (2 * len us + 2) = Inr (h1, upd A (2 * len us) (root t'))"
    "forest h1 (us @ t' # [])" "content t' = content u + content t"
    "same_off (adrs (us @ u # t # [])) h h1"
    using link_slots_ok [OF g f] by blast
  have inb: "inb A (2 * len us)" using s by (auto simp: slots_def inb_def)
  have "slots h1 (upd A (2 * len us) (root t')) (us @ [t']) []"
    using s t'(2) inb by (auto simp: slots_def nth_append elt_upd less_Suc_eq split: if_splits)
  then show ?thesis using t' by (intro exI [of _ h1] exI [of _ "upd A (2 * len us) (root t')"]
      exI [of _ "us @ [t']"]) (simp add: union_ac)
qed

lemma CombineSiblings_ok:
  assumes "rep h q S t" "t \<noteq> Null" "pord t" "q \<noteq> 0" "h q = Some nq" "q \<notin> adr t"
    "length (spine t) < MaxSiblings" "length A = MaxSiblings"
  shows "\<exists>h' A' r. CombineSiblings h A S = Inr (h', A', root r) \<and> length A' = MaxSiblings \<and>
    single h' r \<and> content r = content t \<and> same_off (insert q (adr t)) h h'"
proof -
  obtain l x a r where t: "t = Node l x a r" using assms(2) by (cases t) auto
  obtain n where n: "h a = Some n" "rep h a (NextSibling n) r" "S = a" "a \<noteq> 0" using assms(1) t by auto
  show ?thesis
  proof (cases "NextSibling n = 0")
    case True
    then have "r = Null" using n(2) rep_zero by blast
    then have "single h t" using t assms(1,3) by (auto simp: single_def)
    then show ?thesis using True n t assms(8)
      by (intro exI [of _ h] exI [of _ A] exI [of _ t]) (simp add: CombineSiblings_def rd_ok)
  next
    case False
    then have "r \<noteq> Null" using n(2) by auto
    let ?N = "len (spine t)"
    have N2: "2 \<le> ?N" using t \<open>r \<noteq> Null\<close> by (cases r) auto
    obtain h1 A1 where b: "break_loop h A 0 S = Inr (h1, A1, ?N)" "length A1 = length A"
      "\<forall>k < length (spine t). elt A1 (int k) = root (spine t ! k)" "forest h1 (spine t)"
      "same_off (insert q (adr t)) h h1"
      using break_loop_ok [OF assms(1,3,4,5,6), of 0 A] assms(7,8) by auto
    have inb: "inb A1 ?N" using b(2) assms(7,8) by (auto simp: inb_def)
    have "slots h1 (upd A1 ?N 0) [] (spine t)"
      using b assms(7,8) inb by (auto simp: slots_def elt_upd)
    from pair_loop_ok [OF this] obtain h2 A2 us ts where p:
      "pair_loop h1 (upd A1 ?N 0) ?N 0 = Inr (h2, A2, 2 * len us)" "slots h2 A2 us ts" "length ts \<le> 1"
      "2 * len us + len ts = ?N" "length A2 = MaxSiblings" "total (us @ ts) = content t"
      "same_off (adrs (spine t)) h1 h2"
      using b(2) assms(8) by (auto simp: sum_list_spine)
    have us: "us \<noteq> []" using p(3,4) N2 by auto
    obtain h3 A3 us' where l: "(if 2 * len us - 2 = ?N - 3 then link_slots h2 A2 (2 * len us - 2) (2 * len us - 2 + 2)
        else Inr (h2, A2)) = Inr (h3, A3)" "slots h3 A3 us' []" "length us' = length us"
      "length A3 = MaxSiblings" "total us' = content t" "same_off (adrs (us @ ts)) h2 h3"
    proof (cases ts)
      case Nil
      then show ?thesis using that [of h2 A2 us] p by auto
    next
      case (Cons u rest)
      then have "ts = [u]" using p(3) by auto
      obtain vs v where vs: "us = vs @ [v]" using us by (metis append_butlast_last_id)
      have "2 * len us - 2 = ?N - 3" "2 * len us - 2 = 2 * len vs" using p(4) \<open>ts = [u]\<close> vs by auto
      then show ?thesis using slots_single [of h2 A2 vs v u] p that vs \<open>ts = [u]\<close> by auto
    qed
    have "us' \<noteq> []" "2 * len us' \<le> len A3 + 1" using l(3,4) us p(4) assms(7) by auto
    from back_loop_ok [OF l(2) this] obtain h4 A4 s where k: "back_loop h3 A3 (2 * len us - 2) = Inr (h4, A4)"
      "length A4 = MaxSiblings" "elt A4 0 = root s" "single h4 s" "content s = content t"
      "same_off (adrs us') h3 h4"
      using l(3,4,5) by (auto simp: algebra_simps)
    have "CombineSiblings h A S = Inr (h4, A4, root s)"
      using False n(1,3,4) b(1) inb p(1) l(1) k(1,2,3)
      by (auto simp: CombineSiblings_def rd_ok aput'_def aput_def aget'_def aget_def inb_def MaxSiblings_def Let_def)
    moreover have ad: "adrs (us @ ts) = adr t" "adrs us' = adr t" "adrs (spine t) = adr t"
      unfolding adrs_total by (simp_all add: p(6) l(5) sum_list_spine adr_content del: sum_list_append map_append)
    have "same_off (insert q (adr t)) h h4"
      using b(5) p(7) l(6) k(6) unfolding ad by (auto simp: same_off_def)
    ultimately show ?thesis using k by blast
  qed
qed

section \<open>The operations on a heap\<close>

text \<open>The memory \<open>h\<close> holds exactly the nodes of the pairing heap at \<open>H\<close>.\<close>

definition holds :: "pheap \<Rightarrow> int \<Rightarrow> int bt \<Rightarrow> bool" where
  "holds h H t \<longleftrightarrow> dom h = adr t \<and> H = root t \<and> (t = Null \<or> single h t)"

lemma holds_Insert:
  assumes "holds h H t" "m \<noteq> 0" "h m = None"
  shows "\<exists>h' t'. ph_Insert m x h H = Inr (h', root t', m) \<and> holds h' (root t') t' \<and>
    content t' = add_mset (x, m) (content t)"
proof -
  let ?n = "\<lparr>Element = x, LeftChild = 0, NextSibling = 0, Prev = 0\<rparr>"
  let ?h = "h(m \<mapsto> ?n)"
  let ?s = "Node Null x m Null"
  have s: "single ?h ?s" using assms(2) by (auto simp: single_def)
  have m: "m \<notin> adr t" using assms(1,3) by (auto simp: holds_def)
  show ?thesis
  proof (cases "t = Null")
    case True
    then show ?thesis using assms s
      by (intro exI [of _ ?h] exI [of _ ?s]) (auto simp: holds_def ph_Insert_def)
  next
    case False
    then have "single h t" and t: "H = root t" using assms(1) by (simp_all add: holds_def)
    then have nz: "H \<noteq> 0" by (auto simp: single_def)
    have "single ?h t" by (rule single_frame [OF \<open>single h t\<close>]) (use m in auto)
    moreover have "adr t \<inter> adr ?s = {}" using m by simp
    ultimately obtain h' t' where r: "CompareAndLink ?h (root t) (root ?s) = Inr (h', root t')" "single h' t'"
      "content t' = content t + content ?s" "dom h' = dom ?h"
      by (rule CompareAndLink_ok [OF _ s])
    have "adr t' = insert m (adr t)" using r(3) by (auto simp: adr_content)
    then have "holds h' (root t') t'" using r assms(1) by (auto simp: holds_def)
    moreover have "ph_Insert m x h H = Inr (h', root t', m)"
      using r(1) assms(2) t nz by (simp add: ph_Insert_def)
    ultimately show ?thesis using r(3) by auto
  qed
qed

lemma holds_DeleteMin:
  assumes "holds h H t" "t = Node l x a r" "length (spine l) < MaxSiblings" "length A = MaxSiblings"
  shows "\<exists>h' A' t'. ph_DeleteMin h A H = Inr (h', A', root t', x) \<and> length A' = MaxSiblings \<and>
    holds h' (root t') t' \<and> content t = add_mset (x, a) (content t')"
proof -
  have s: "single h t" "H = a" "dom h = adr t" using assms(1,2) by (auto simp: holds_def)
  then obtain n where n: "h a = Some n" "Element n = x" "rep h a (LeftChild n) l" "a \<noteq> 0" "a \<notin> adr l"
    "r = Null" "pord l" using assms(2) by (auto simp: single_def)
  show ?thesis
  proof (cases "l = Null")
    case True
    then have "ph_DeleteMin h A H = Inr (h(a := None), A, 0, x)"
      using n s(2) by (simp add: ph_DeleteMin_def ph_IsEmpty_def rd_ok pfree_def)
    moreover have "holds (h(a := None)) 0 Null" using s(3) assms(2) True n(6) by (auto simp: holds_def)
    ultimately show ?thesis using True n(6) assms(2,4)
      by (intro exI [of _ "h(a := None)"] exI [of _ A] exI [of _ Null]) simp
  next
    case False
    obtain h' A' s where c: "CombineSiblings h A (LeftChild n) = Inr (h', A', root s)" "length A' = MaxSiblings"
      "single h' s" "content s = content l" "same_off (insert a (adr l)) h h'"
      using CombineSiblings_ok [OF n(3) False n(7,4,1,5) assms(3,4)] by blast
    have ad: "adr s = adr l" using c(4) by (simp add: adr_content)
    have d: "dom h' = insert a (adr l)" using c(5) s(3) assms(2) n(6) by (auto simp: same_off_def)
    have "LeftChild n \<noteq> 0" using n(3) False rep_zero by blast
    then have "ph_DeleteMin h A H = Inr (h'(a := None), A', root s, x)"
      using n(1,2,4) s(2) c(1) d by (auto simp: ph_DeleteMin_def ph_IsEmpty_def rd_ok pfree_def)
    moreover have "single (h'(a := None)) s" by (rule single_frame [OF c(3)]) (use ad n(5) in auto)
    then have "holds (h'(a := None)) (root s) s" using ad d n(5) by (auto simp: holds_def)
    ultimately show ?thesis using c(2,4) n(6) assms(2) by auto
  qed
qed

text \<open>The root holds the minimum.\<close>

lemma pord_least: "pord (Node l x a Null) \<Longrightarrow> (y, b) \<in># content (Node l x a Null) \<Longrightarrow> x \<le> y"
  by auto

lemma ph_MakeEmpty_frees:
  "rep h q H t \<Longrightarrow> ph_MakeEmpty h H = Some (Inr (h |` (- adr t)))"
proof (induction t arbitrary: h q H)
  case Null
  then show ?case by (subst ph_MakeEmpty.simps) (simp add: restrict_map_def)
next
  case (Node l x a r)
  then obtain n where n: "h a = Some n" "rep h a (LeftChild n) l" "rep h a (NextSibling n) r" "H = a"
    "a \<noteq> 0" "a \<notin> adr l" "a \<notin> adr r" "adr l \<inter> adr r = {}" by auto
  have "rep (h |` (- adr l)) a (NextSibling n) r"
    by (rule rep_frame [OF n(3)]) (use n(8) in \<open>auto simp: restrict_map_def\<close>)
  note R = Node.IH(2) [OF this]
  have "(h |` (- adr l)) a = Some n" "((h |` (- adr l)) |` (- adr r)) a = Some n"
    using n(1,6,7) by (simp_all add: restrict_map_def)
  moreover have "((h |` (- adr l)) |` (- adr r))(a := None) = h |` (- adr (Node l x a r))"
    by (auto simp: restrict_map_def fun_eq_iff)
  ultimately show ?case
    using n(1,4,5) Node.IH(1) [OF n(2)] R
    by (subst ph_MakeEmpty.simps) (simp add: rd_ok pfree_def del: restrict_restrict)
qed

section \<open>Decreasing a key\<close>

fun cut :: "int \<Rightarrow> int bt \<Rightarrow> int bt" where
  \<comment> \<open>without the node at \<open>a\<close> and what is below it\<close>
  "cut a Null = Null"
| "cut a (Node l x b r) = (if b = a then r else Node (cut a l) x b (cut a r))"

lemma cut_id: "a \<notin> adr t \<Longrightarrow> cut a t = t"
  by (induction t) auto

lemma adr_cut: "adr (cut a t) \<subseteq> adr t"
  by (induction t) auto

lemma content_cut: "content (cut a t) \<subseteq># content t"
  by (induction t) (auto intro: subset_mset.add_mono subset_mset.add_increasing)

lemma pord_cut: "pord t \<Longrightarrow> pord (cut a t)"
  by (induction t) (auto dest: mset_subset_eqD [OF content_cut])

text \<open>The subtree that is cut out.\<close>

lemma cut_subtree:
  "rep h q p t \<Longrightarrow> a \<in> adr t \<Longrightarrow> pord t \<Longrightarrow>
   \<exists>n l. h a = Some n \<and> a \<noteq> 0 \<and> rep h a (LeftChild n) l \<and> pord (Node l (Element n) a Null) \<and>
     a \<notin> adr l \<and> a \<notin> adr (cut a t) \<and> adr l \<inter> adr (cut a t) = {} \<and>
     content t = content (cut a t) + content (Node l (Element n) a Null)"
proof (induction t arbitrary: q p)
  case (Node l x b r)
  consider "a = b" | "a \<noteq> b" "a \<in> adr l" "a \<notin> adr r" | "a \<noteq> b" "a \<in> adr r" "a \<notin> adr l"
    using Node.prems(1,2) by auto
  then show ?case
  proof cases
    case 1
    then show ?thesis using Node.prems by (auto simp: union_ac)
  next
    case 2
    obtain c where nb: "rep h b c l" "b \<notin> adr l" "adr l \<inter> adr r = {}"
      using Node.prems(1) by auto
    from Node.IH(1) [OF nb(1) 2(2)] Node.prems(3) obtain n l' where
      n: "h a = Some n" "a \<noteq> 0" "rep h a (LeftChild n) l'" "pord (Node l' (Element n) a Null)"
      "a \<notin> adr l'" "a \<notin> adr (cut a l)" "adr l' \<inter> adr (cut a l) = {}"
      "content l = content (cut a l) + content (Node l' (Element n) a Null)" by auto
    have "adr l' \<subseteq> adr l" using n(8) by (auto simp: adr_content)
    then have "adr l' \<inter> adr (cut a (Node l x b r)) = {}" using n(7) nb 2 by (auto simp: cut_id)
    then show ?thesis using n 2 by (auto simp: cut_id union_ac intro!: exI [of _ l'])
  next
    case 3
    obtain c where nb: "rep h b c r" "b \<notin> adr r" "adr l \<inter> adr r = {}"
      using Node.prems(1) by auto
    from Node.IH(2) [OF nb(1) 3(2)] Node.prems(3) obtain n l' where
      n: "h a = Some n" "a \<noteq> 0" "rep h a (LeftChild n) l'" "pord (Node l' (Element n) a Null)"
      "a \<notin> adr l'" "a \<notin> adr (cut a r)" "adr l' \<inter> adr (cut a r) = {}"
      "content r = content (cut a r) + content (Node l' (Element n) a Null)" by auto
    have "adr l' \<subseteq> adr r" using n(8) by (auto simp: adr_content)
    then have "adr l' \<inter> adr (cut a (Node l x b r)) = {}" using n(7) nb 3 by (auto simp: cut_id)
    then show ?thesis using n 3 by (auto simp: cut_id union_ac intro!: exI [of _ l'])
  qed
qed simp

text \<open>The stores of \<open>DecreaseKey\<close> that unlink the node at \<open>a\<close>.\<close>

definition unlinked :: "pheap \<Rightarrow> int \<Rightarrow> pheap" where
  "unlinked h a = (let n = the (h a); m = Prev n; s = NextSibling n;
     h1 = (if s \<noteq> 0 then h(s \<mapsto> (the (h s))\<lparr>Prev := m\<rparr>) else h); k = the (h1 m)
   in h1(m \<mapsto> (if LeftChild k = a then k\<lparr>LeftChild := s\<rparr> else k\<lparr>NextSibling := s\<rparr>)))"

text \<open>At the parent or previous sibling \<open>b\<close> of the node.\<close>

lemma unlinked_next:
  assumes "rep h b a (Node l x a r)" "h b = Some k" "b \<noteq> a" "b \<notin> adr r"
  shows "rep (unlinked h a) b (root r) r"
    "unlinked h a b = Some (if LeftChild k = a then k\<lparr>LeftChild := root r\<rparr> else k\<lparr>NextSibling := root r\<rparr>)"
    "\<forall>c. c \<notin> insert b (adr r) \<longrightarrow> unlinked h a c = h c"
proof -
  obtain n where n: "h a = Some n" "Prev n = b" "rep h a (NextSibling n) r" "a \<notin> adr r" using assms(1) by auto
  have rt: "NextSibling n = root r" "root r = 0 \<longleftrightarrow> r = Null"
    using rep_root [OF n(3)] rep_zero [OF n(3)] by simp_all
  let ?h1 = "if root r \<noteq> 0 then h(root r \<mapsto> (the (h (root r)))\<lparr>Prev := b\<rparr>) else h"
  have b: "b \<noteq> root r \<or> r = Null" using assms(4) root_adr by blast
  then have k: "?h1 b = Some k" using assms(2) rt(2) by auto
  have u: "unlinked h a = ?h1(b \<mapsto> (if LeftChild k = a then k\<lparr>LeftChild := root r\<rparr> else k\<lparr>NextSibling := root r\<rparr>))"
    by (simp only: unlinked_def Let_def n(1,2) rt(1) option.sel k)
  show "unlinked h a b = Some (if LeftChild k = a then k\<lparr>LeftChild := root r\<rparr> else k\<lparr>NextSibling := root r\<rparr>)"
    by (simp add: u)
  show "\<forall>c. c \<notin> insert b (adr r) \<longrightarrow> unlinked h a c = h c"
    using root_adr [of r] rt(2) by (auto simp: u)
  show "rep (unlinked h a) b (root r) r"
  proof (cases "r = Null")
    case False
    then have "root r \<in> adr r" by (rule root_adr)
    then obtain m where m: "h (root r) = Some m" using rep_adr [OF n(3)] by auto
    show ?thesis
      by (rule rep_prev [OF n(3) [unfolded rt(1)] False _ m])
        (use assms(4) b False m rt in \<open>auto simp: u\<close>)
  qed simp
qed

lemma unlinked_cut:
  "rep h q p t \<Longrightarrow> a \<in> adr t \<Longrightarrow> a \<noteq> root t \<Longrightarrow>
   rep (unlinked h a) q p (cut a t) \<and> (\<forall>c. c \<notin> adr (cut a t) \<longrightarrow> unlinked h a c = h c) \<and>
   Prev (the (h a)) \<in> adr (cut a t) \<and> (NextSibling (the (h a)) \<noteq> 0 \<longrightarrow> NextSibling (the (h a)) \<in> adr (cut a t))"
proof (induction t arbitrary: q p)
  case (Node l x b r)
  obtain k where k: "h b = Some k" "Element k = x" "Prev k = q" "rep h b (LeftChild k) l"
    "rep h b (NextSibling k) r" "p = b" "b \<noteq> 0" "b \<notin> adr l" "b \<notin> adr r" "adr l \<inter> adr r = {}"
    using Node.prems(1) by auto
  have ab: "a \<noteq> b" using Node.prems(3) by simp
  note prems = Node.prems
  consider (ll) m y s where "l = Node m y a s" | (rr) m y s where "r = Node m y a s"
    | (dl) "a \<in> adr l" "a \<noteq> root l" | (dr) "a \<in> adr r" "a \<noteq> root r"
    using prems(2) ab by (cases l; cases r) auto
  then show ?case
  proof cases
    case (ll m y s)
    have lc: "LeftChild k = a" using k(4) ll by simp
    have R: "rep h b a (Node m y a s)" using k(4) ll lc by simp
    have bs: "b \<notin> adr s" using k(8) ll by simp
    note u = unlinked_next [OF R k(1) ab [symmetric] bs]
    have out: "a \<notin> adr r" "a \<notin> adr s" "a \<notin> adr m" "adr s \<inter> adr r = {}" using k(4,10) ll by auto
    have c: "cut a (Node l x b r) = Node s x b r" using ll ab out by (simp add: cut_id)
    have "rep (unlinked h a) b (NextSibling k) r"
      by (rule rep_frame [OF k(5)]) (use u(3) k(9) out(4) in auto)
    then have "rep (unlinked h a) q p (Node s x b r)" using k u(1,2) lc bs out(4) by auto
    moreover obtain n where n: "h a = Some n" "Prev n = b" "rep h a (NextSibling n) s" using R by auto
    have "NextSibling n \<noteq> 0 \<longrightarrow> NextSibling n \<in> adr s" using n(3) by (cases s) auto
    ultimately show ?thesis unfolding c using u(3) n by auto
  next
    case (rr m y s)
    have out: "a \<notin> adr l" "a \<notin> adr s" "adr s \<inter> adr l = {}" using k(5,10) rr by auto
    have ns: "NextSibling k = a" using k(5) rr by simp
    have lc: "LeftChild k \<noteq> a" using k(4) out(1) k(5) rr by (cases l) auto
    have R: "rep h b a (Node m y a s)" using k(5) rr ns by simp
    have bs: "b \<notin> adr s" using k(9) rr by simp
    note u = unlinked_next [OF R k(1) ab [symmetric] bs]
    have c: "cut a (Node l x b r) = Node l x b s" using rr ab out by (simp add: cut_id)
    have "rep (unlinked h a) b (LeftChild k) l"
      by (rule rep_frame [OF k(4)]) (use u(3) k(8) out(3) in auto)
    then have "rep (unlinked h a) q p (Node l x b s)" using k u(1,2) lc bs out(3) by auto
    moreover obtain n where n: "h a = Some n" "Prev n = b" "rep h a (NextSibling n) s" using R by auto
    have "NextSibling n \<noteq> 0 \<longrightarrow> NextSibling n \<in> adr s" using n(3) by (cases s) auto
    ultimately show ?thesis unfolding c using u(3) n by auto
  next
    case dl
    note u = Node.IH(1) [OF k(4) dl]
    have out: "a \<notin> adr r" using k(10) dl(1) by auto
    have c: "cut a (Node l x b r) = Node (cut a l) x b r" using ab out by (simp add: cut_id)
    have sub: "adr (cut a l) \<inter> adr r = {}" "b \<notin> adr (cut a l)" using adr_cut [of a l] k(8,10) by auto
    have "rep (unlinked h a) b (NextSibling k) r"
      by (rule rep_frame [OF k(5)]) (use u sub in auto)
    then show ?thesis unfolding c using u k sub by auto
  next
    case dr
    note u = Node.IH(2) [OF k(5) dr]
    have out: "a \<notin> adr l" using k(10) dr(1) by auto
    have c: "cut a (Node l x b r) = Node l x b (cut a r)" using ab out by (simp add: cut_id)
    have sub: "adr (cut a r) \<inter> adr l = {}" "b \<notin> adr (cut a r)" using adr_cut [of a r] k(9,10) by auto
    have "rep (unlinked h a) b (LeftChild k) l"
      by (rule rep_frame [OF k(4)]) (use u sub in auto)
    then show ?thesis unfolding c using u k sub by auto
  qed
qed simp

lemma DecreaseKey_unlinks:
  assumes "0 \<le> Delta" "h P = Some n" "P \<noteq> 0" "P \<noteq> H" "ck (Element n - Delta) = Some v"
    "Prev n \<noteq> 0" "Prev n \<noteq> P" "h (Prev n) = Some m"
    "NextSibling n \<noteq> 0 \<longrightarrow> NextSibling n \<noteq> P \<and> h (NextSibling n) \<noteq> None"
  shows "DecreaseKey P Delta h H =
    CompareAndLink ((unlinked h P)(P \<mapsto> n\<lparr>Element := v, NextSibling := 0\<rparr>)) H P"
proof (cases "NextSibling n = 0")
  case True
  then show ?thesis using assms
    by (auto simp: DecreaseKey_def rd_ok wr_ok unlinked_def Let_def fun_upd_twist)
next
  case False
  then obtain s where s: "h (NextSibling n) = Some s" using assms(9) by auto
  then show ?thesis using assms False
    by (cases "NextSibling n = Prev n")
      (auto simp: DecreaseKey_def rd_ok wr_ok unlinked_def Let_def fun_upd_twist)
qed

lemma holds_DecreaseKey:
  assumes "holds h H t" "(x, P) \<in># content t" "0 \<le> Delta" "ck (x - Delta) = Some v"
  shows "\<exists>h' t'. DecreaseKey P Delta h H = Inr (h', root t') \<and> holds h' (root t') t' \<and>
    add_mset (x, P) (content t') = add_mset (v, P) (content t)"
proof -
  have P: "P \<in> adr t" using assms(2) by (force simp: adr_content)
  then have s: "single h t" "H = root t" "dom h = adr t" using assms(1) by (auto simp: holds_def)
  obtain l0 x0 a0 q where t: "t = Node l0 x0 a0 Null" "rep h q a0 t" "pord t"
    using s(1) by (auto simp: single_def)
  obtain n l where n: "h P = Some n" "P \<noteq> 0" "rep h P (LeftChild n) l" "pord (Node l (Element n) P Null)"
    "P \<notin> adr l" "P \<notin> adr (cut P t)" "adr l \<inter> adr (cut P t) = {}"
    "content t = content (cut P t) + content (Node l (Element n) P Null)"
    using cut_subtree [OF t(2) P t(3)] by auto
  have "(x, P) \<notin># content (cut P t) + content l" using n(5,6) by (force simp: adr_content)
  then have x: "x = Element n" using assms(2) n(8) by auto
  have v: "v \<le> x" using assms(3,4) by (auto simp: ck_Some_iff)
  show ?thesis
  proof (cases "P = H")
    case True
    then have r: "P = a0" "cut P t = Null" "content l0 = content l" using s(2) t(1,2) n(1,8) by auto
    let ?h = "h(P \<mapsto> n\<lparr>Element := v\<rparr>)" and ?t = "Node l v P Null"
    have ad: "adr l = adr l0" using r(3) by (simp add: adr_content)
    have "rep ?h P (LeftChild n) l" by (rule rep_frame [OF n(3)]) (use n(5) in auto)
    moreover have "NextSibling n = 0" using t(1,2) n(1) r(1) by auto
    ultimately have "rep ?h q P ?t" using n(1,2,5) t(2) r(1) t(1) by auto
    moreover have "pord ?t" using n(4) v x by fastforce
    ultimately have "holds ?h P ?t" using s(3) t(1) r(1) ad by (auto simp: holds_def single_def)
    moreover have "DecreaseKey P Delta h H = Inr (?h, P)"
      using assms(3,4) n(1,2) x True by (simp add: DecreaseKey_def rd_ok wr_ok)
    ultimately show ?thesis using n(8) r x by (intro exI [of _ ?h] exI [of _ ?t]) simp
  next
    case False
    then have "P \<noteq> root t" using s(2) by simp
    note u = unlinked_cut [OF t(2) P this]
    let ?u = "unlinked h P"
    define h' where "h' = ?u(P \<mapsto> n\<lparr>Element := v, NextSibling := 0\<rparr>)"
    have prev: "Prev n \<in> adr (cut P t)" "NextSibling n \<noteq> 0 \<longrightarrow> NextSibling n \<in> adr (cut P t)"
      using u n(1) by auto
    have al: "a \<noteq> 0 \<and> h a \<noteq> None \<and> a \<noteq> P" if "a \<in> adr (cut P t)" for a
      using rep_adr [OF t(2)] that n(6) adr_cut by blast
    obtain m where m: "h (Prev n) = Some m" using al [OF prev(1)] by auto
    have eq: "DecreaseKey P Delta h H = CompareAndLink h' H P"
      unfolding h'_def
      by (rule DecreaseKey_unlinks [OF assms(3) n(1,2) False _ _ _ m])
        (use assms(4) x al [OF prev(1)] al prev(2) in auto)
    have "rep h' q a0 (cut P t)"
      by (rule rep_frame [OF conjunct1 [OF u]]) (use n(6) in \<open>auto simp: h'_def\<close>)
    then have s1: "single h' (cut P t)" using t(1,3) False s(2) pord_cut [OF t(3), of P]
      by (auto simp: single_def)
    have "rep h' P (LeftChild n) l"
      by (rule rep_frame [OF n(3)]) (use u n(5,7) in \<open>auto simp: h'_def\<close>)
    moreover have "pord (Node l v P Null)" using n(4) v x by fastforce
    ultimately have s2: "single h' (Node l v P Null)" using n(2,5) by (auto simp: single_def h'_def)
    have "adr (cut P t) \<inter> adr (Node l v P Null) = {}" using n(6,7) by auto
    then obtain h2 t2 where
      r: "CompareAndLink h' (root (cut P t)) (root (Node l v P Null)) = Inr (h2, root t2)" "single h2 t2"
      "content t2 = content (cut P t) + content (Node l v P Null)" "dom h2 = dom h'"
      by (rule CompareAndLink_ok [OF s1 s2])
    have "?u a = None \<longleftrightarrow> h a = None" for a
      using u al [of a] rep_adr [OF conjunct1 [OF u], of a] by (cases "a \<in> adr (cut P t)") auto
    then have "dom ?u = dom h" unfolding dom_def by simp
    then have "dom h' = adr t" using s(3) P by (auto simp: h'_def)
    moreover have "adr t2 = adr t" using r(3) n(8) by (simp add: adr_content)
    ultimately have "holds h2 (root t2) t2" using r(2,4) by (simp add: holds_def)
    moreover have "root (cut P t) = H" using t(1) s(2) False by auto
    ultimately show ?thesis using eq r(1,3) n(8) x by auto
  qed
qed

section \<open>The priority queue\<close>

text \<open>A client's state: the memory, the static array and the heap. The allocator returns an address
  that is not in use.\<close>

type_synonym pq = "pheap \<times> int list \<times> int"

abbreviation ph_new :: "pheap \<Rightarrow> int" where "ph_new \<equiv> new_adr"

fun pq_ins :: "int \<Rightarrow> pq \<Rightarrow> pq res" where
  "pq_ins x (h, A, H) = bindr (ph_Insert (ph_new h) x h H) (\<lambda>(h, H, _). Inr (h, A, H))"

fun pq_fmin :: "pq \<Rightarrow> int res" where
  "pq_fmin (h, A, H) = ph_FindMin h H"

fun pq_dmin :: "pq \<Rightarrow> pq res" where
  "pq_dmin (h, A, H) = bindr (ph_DeleteMin h A H) (\<lambda>(h, A, H, _). Inr (h, A, H))"

fun pq_isemp :: "pq \<Rightarrow> bool" where
  "pq_isemp (h, A, H) = ph_IsEmpty H"

fun pq_bag :: "pq \<Rightarrow> int multiset" where
  "pq_bag (h, A, H) = image_mset (\<lambda>a. Element (the (h a))) (mset_set (dom h))"

fun pq_inv :: "pq \<Rightarrow> bool" where
  "pq_inv (h, A, H) \<longleftrightarrow> (\<exists>t. holds h H t) \<and> length A = MaxSiblings \<and> card (dom h) \<le> MaxSiblings"

lemma finite_adr [simp]: "finite (adr t)"
  by (induction t) auto

lemma ph_new_fresh: "finite (dom h) \<Longrightarrow> ph_new h \<noteq> 0 \<and> h (ph_new h) = None"
  using avail_new_adr by (auto simp: avail_def)

lemma rep_content:
  "rep h q p t \<Longrightarrow> content t = image_mset (\<lambda>a. (Element (the (h a)), a)) (mset_set (adr t))"
proof (induction t arbitrary: q p)
  case (Node l x a r)
  then obtain n where n: "h a = Some n" "Element n = x" "rep h a (LeftChild n) l" "rep h a (NextSibling n) r"
    "a \<notin> adr l" "a \<notin> adr r" "adr l \<inter> adr r = {}" by auto
  then show ?case using Node.IH(1) [OF n(3)] Node.IH(2) [OF n(4)] by (simp add: mset_set_Union)
qed simp

lemma holds_bag:
  assumes "holds h H t"
  shows "pq_bag (h, A, H) = image_mset fst (content t)" "card (dom h) = size (content t)"
proof -
  have "content t = image_mset (\<lambda>a. (Element (the (h a)), a)) (mset_set (dom h))"
    using assms rep_content by (auto simp: holds_def single_def)
  then show "pq_bag (h, A, H) = image_mset fst (content t)" "card (dom h) = size (content t)"
    by (simp_all add: image_mset.compositionality comp_def)
qed

lemma spine_size: "length (spine t) \<le> size (content t)"
  by (induction t) auto

lemma pq_isemp_iff: "holds h H t \<Longrightarrow> ph_IsEmpty H \<longleftrightarrow> t = Null"
  by (auto simp: holds_def ph_IsEmpty_def single_def)

lemma root_least:
  assumes "holds h H (Node l x a r)"
  shows "ph_FindMin h H = Inr x" "Min_mset (image_mset fst (content (Node l x a r))) = x"
proof -
  have s: "single h (Node l x a r)" "H = a" using assms by (simp_all add: holds_def)
  then show "ph_FindMin h H = Inr x" by (auto simp: single_def ph_FindMin_def ph_IsEmpty_def rd_ok)
  show "Min_mset (image_mset fst (content (Node l x a r))) = x"
    using s(1) pord_least [of l x a] by (intro Min_eqI) (auto simp: single_def)
qed

interpretation pq: pqueue pq_isemp pq_ins pq_fmin pq_dmin pq_bag pq_inv "\<lambda>_. Some MaxSiblings" "\<lambda>_. True"
proof (unfold_locales, goal_cases)
  case (1 q)
  then obtain h A H t where q: "q = (h, A, H)" "holds h H t" by (cases q) auto
  then show ?case using pq_isemp_iff [OF q(2)] holds_bag(1) [OF q(2), of A] by (cases t) auto
next
  case (2 q x)
  then obtain h A H t where q: "q = (h, A, H)" "holds h H t" "length A = MaxSiblings" by (cases q) auto
  have "finite (dom h)" using q(2) by (simp add: holds_def)
  then obtain h' t' where r: "ph_Insert (ph_new h) x h H = Inr (h', root t', ph_new h)"
    "holds h' (root t') t'" "content t' = add_mset (x, ph_new h) (content t)"
    using holds_Insert [OF q(2)] ph_new_fresh by blast
  then show ?case
    using 2(3) q holds_bag(1) [OF q(2), of A] holds_bag(2) [OF q(2)] holds_bag(1) [OF r(2), of A]
      holds_bag(2) [OF r(2)] by auto
next
  case (3 q)
  then obtain h A H t where q: "q = (h, A, H)" "holds h H t" by (cases q) auto
  have "t \<noteq> Null" using 3(2) q holds_bag(1) [OF q(2), of A] by auto
  then obtain l x a r where "t = Node l x a r" by (cases t) auto
  then show ?case using q root_least [of h H l x a r] holds_bag(1) [OF q(2), of A] by simp
next
  case (4 q)
  then obtain h A H t where q: "q = (h, A, H)" "holds h H t" "length A = MaxSiblings"
    "card (dom h) \<le> MaxSiblings" by (cases q) auto
  have "t \<noteq> Null" using 4(2) q holds_bag(1) [OF q(2), of A] by auto
  then obtain l x a r where t: "t = Node l x a r" by (cases t) auto
  have sz: "length (spine l) < MaxSiblings"
    using q(4) holds_bag(2) [OF q(2)] spine_size [of l] t by simp
  obtain h' A' t' where r: "ph_DeleteMin h A H = Inr (h', A', root t', x)" "length A' = MaxSiblings"
    "holds h' (root t') t'" "content t = add_mset (x, a) (content t')"
    using holds_DeleteMin [OF q(2) t sz q(3)] by blast
  have b: "pq_bag q = add_mset x (image_mset fst (content t'))" "Min_mset (pq_bag q) = x"
    unfolding q(1) holds_bag(1) [OF q(2)] using r(4) root_least(2) [of h H l x a r] q(2) t by simp_all
  have "pq_inv (h', A', root t')"
    using q(4) r(2,3,4) holds_bag(2) [OF q(2)] holds_bag(2) [OF r(3)] by auto
  moreover have "pq_bag (h', A', root t') = pq_bag q - {#Min_mset (pq_bag q)#}"
    using b(2) unfolding b(1) holds_bag(1) [OF r(3)] by simp
  moreover have "pq_dmin q = Inr (h', A', root t')" using q(1) r(1) by simp
  ultimately show ?case by blast
qed

section \<open>Properties\<close>



text \<open>C36: \<open>DecreaseKey\<close> of the node at \<open>P\<close>, whatever its place in the heap,
  lowers its element by \<open>Delta\<close>, changes no other element, moves no element to another
  node and keeps the heap order and all links; a negative \<open>Delta\<close> ends with the
  message.\<close>

theorem PairHeap_DecreaseKey:
  assumes "holds h H t" "(x, P) \<in># content t" "0 \<le> Delta" "INT_MIN \<le> x - Delta" "x \<le> INT_MAX"
  shows "\<exists>h' t'. DecreaseKey P Delta h H = Inr (h', root t') \<and> holds h' (root t') t' \<and>
    content t' = add_mset (x - Delta, P) (content t - {#(x, P)#}) \<and>
    DecreaseKey P (- Delta - 1) h H = Inl (FatalError ''DecreaseKey called with negative Delta'')"
proof -
  have "ck (x - Delta) = Some (x - Delta)" using assms(3,4,5) by simp
  from holds_DecreaseKey [OF assms(1,2,3) this] obtain h' t' where
    r: "DecreaseKey P Delta h H = Inr (h', root t')" "holds h' (root t') t'"
    "add_mset (x, P) (content t') = add_mset (x - Delta, P) (content t)" by blast
  obtain M where M: "content t = add_mset (x, P) M" using assms(2) by (metis insert_DiffM)
  have "content t' = add_mset (x - Delta, P) M"
    using r(3) unfolding M by (simp add: add_mset_commute [of "(x - Delta, P)"])
  then show ?thesis using r(1,2) assms(3) M by (auto simp: DecreaseKey_def)
qed

lemma PairHeap_DecreaseKey_witness:
  "\<exists>h' t'. DecreaseKey 1 2 [1 \<mapsto> \<lparr>Element = 5, LeftChild = 0, NextSibling = 0, Prev = 0\<rparr>] 1 = Inr (h', root t') \<and>
    content t' = {#(3, 1)#} \<and>
    holds [1 \<mapsto> \<lparr>Element = 5, LeftChild = 0, NextSibling = 0, Prev = 0\<rparr>] 1 (Node Null 5 1 Null)"
proof -
  let ?h = "[1 \<mapsto> \<lparr>Element = 5, LeftChild = 0, NextSibling = 0, Prev = 0\<rparr>] :: pheap"
  have h: "holds ?h 1 (Node Null 5 1 Null)" by (simp add: holds_def single_def)
  have "(5, 1) \<in># content (Node Null 5 1 Null)" by simp
  from PairHeap_DecreaseKey [OF h this, of 2] h show ?thesis by auto
qed

text \<open>A node with a thousand children or more overruns the array: \<open>TreeArray\<close> has
  \<open>MaxSiblings\<close> slots and nothing checks the number of siblings.\<close>

lemma break_loop_overrun:
  assumes "rep h q S t" "q \<noteq> 0" "h q \<noteq> None" "q \<notin> adr t" "0 \<le> N" "N \<le> len A" "len A < N + len (spine t)"
  shows "break_loop h A N S = Inl BadAccess"
  using assms
proof (induction t arbitrary: h q S N A)
  case (Node l x a r)
  obtain n where n: "h a = Some n" "Prev n = q" "rep h a (NextSibling n) r" "S = a" "a \<noteq> 0" "a \<notin> adr r"
    using Node.prems(1) by auto
  obtain nq where q: "h q = Some nq" "q \<noteq> a" "q \<notin> adr r" using Node.prems(3,4) by auto
  define h1 where "h1 = h(q \<mapsto> nq\<lparr>NextSibling := 0\<rparr>)"
  have r: "rep h1 a (NextSibling n) r" by (rule rep_frame [OF n(3)]) (use q in \<open>auto simp: h1_def\<close>)
  show ?case
  proof (cases "N = len A")
    case True
    then show ?thesis using n(4,5) by (subst break_loop.simps) (simp add: aput'_def aput_def inb_def)
  next
    case False
    then have "inb A N" using Node.prems(5,6) by (auto simp: inb_def)
    then have "break_loop h A N S = break_loop h1 (upd A N a) (N + 1) (NextSibling n)"
      using n q Node.prems(2) by (subst break_loop.simps) (simp add: aput'_def aput_def rd_ok wr_ok h1_def)
    moreover have "break_loop h1 (upd A N a) (N + 1) (NextSibling n) = Inl BadAccess"
      by (rule Node.IH(2) [OF r n(5) _ n(6)])
        (use n(1) q False Node.prems(5,6,7) in \<open>auto simp: h1_def\<close>)
    ultimately show ?thesis by simp
  qed
qed simp

lemma CombineSiblings_overrun:
  assumes "rep h q S t" "pord t" "q \<noteq> 0" "h q \<noteq> None" "q \<notin> adr t" "length A = MaxSiblings"
    "MaxSiblings \<le> length (spine t)"
  shows "CombineSiblings h A S = Inl BadAccess"
proof -
  obtain l x a r where t: "t = Node l x a r" using assms(7) by (cases t) (auto simp: MaxSiblings_def)
  obtain n where n: "h a = Some n" "rep h a (NextSibling n) r" "S = a" "a \<noteq> 0" using assms(1) t by auto
  have "r \<noteq> Null" using assms(7) t by (auto simp: MaxSiblings_def)
  then have ns: "NextSibling n \<noteq> 0" using n(2) rep_zero by blast
  show ?thesis
  proof (cases "length (spine t) = MaxSiblings")
    case True
    obtain nq where "h q = Some nq" using assms(4) by auto
    then obtain h1 A1 where "break_loop h A 0 S = Inr (h1, A1, len (spine t))" "length A1 = length A"
      using break_loop_ok [OF assms(1,2,3) _ assms(5), of nq 0 A] True assms(6) by auto
    then show ?thesis using n ns True assms(6)
      by (simp add: CombineSiblings_def rd_ok aput'_def aput_def inb_def)
  next
    case False
    then have "break_loop h A 0 S = Inl BadAccess"
      using break_loop_overrun [OF assms(1,3,4,5), of 0 A] assms(6,7) by simp
    then show ?thesis using n ns by (simp add: CombineSiblings_def rd_ok)
  qed
qed

end
