(* ===== verification/QueueTests.thy ===== *)
theory QueueTests
  imports SetTests LeftHeap BinHeap BinomialQueue PairHeap StackArray StackList QueueArray
begin

text \<open>
  The test programs of the priority queues, stacks and queues of \<^verbatim>\<open>src/DSAAC\<close>:
  \<^verbatim>\<open>testheap.c\<close>, \<^verbatim>\<open>testleft.c\<close>, \<^verbatim>\<open>testbin.c\<close>,
  \<^verbatim>\<open>testpair.c\<close>, \<^verbatim>\<open>teststka.c\<close>, \<^verbatim>\<open>teststkl.c\<close> and
  \<^verbatim>\<open>testque.c\<close>. Their \<open>while\<close> loops are partial functions; the theorems
  say that every program ends and what it prints.
\<close>

section \<open>Loops\<close>

text \<open>\<open>while( !IsEmpty( H ) ) if( DeleteMin( H ) != j++ ) printf( "Error in DeleteMin, %d\n", j );\<close>\<close>

partial_function (option) min_loop ::
  "('q \<Rightarrow> bool) \<Rightarrow> ('q \<Rightarrow> (int \<times> 'q) res) \<Rightarrow> int \<Rightarrow> 'q \<Rightarrow> (line list \<times> int \<times> 'q) res option" where
  "min_loop isemp nxt j q =
    (if isemp q then Some (Inr ([], j, q))
     else case nxt q of Inl e \<Rightarrow> Some (Inl e) | Inr (x, q') \<Rightarrow>
       Option.bind (min_loop isemp nxt (j + 1) q') (\<lambda>R. Some (bindr R (\<lambda>(out, r).
         Inr ((if x \<noteq> j then [ErrorAt ''Error in DeleteMin,'' (j + 1)] else []) @ out, r)))))"

text \<open>\<^verbatim>\<open>testleft.c\<close>: only a correct minimum is deleted.\<close>

partial_function (option) left_loop :: "int \<Rightarrow> int bt \<Rightarrow> (line list \<times> int \<times> int bt) res option" where
  "left_loop j H =
    (if lh_IsEmpty H then Some (Inr ([], j, H))
     else case lh_FindMin H of Inl e \<Rightarrow> Some (Inl e) | Inr x \<Rightarrow>
       if x \<noteq> j then
         Option.bind (left_loop (j + 1) H) (\<lambda>R. Some (bindr R (\<lambda>(out, r).
           Inr (ErrorAt ''Error in DeleteMin,'' (j + 1) # out, r))))
       else case DeleteMin1 H of Inl e \<Rightarrow> Some (Inl e) | Inr H' \<Rightarrow> left_loop (j + 1) H')"

text \<open>\<open>while( !IsEmpty( S ) ) { printf( "%d\n", Top( S ) ); Pop( S ); }\<close>: what is printed,
  and the structure left.\<close>

partial_function (option) print_loop ::
  "('s \<Rightarrow> bool res) \<Rightarrow> ('s \<Rightarrow> int res) \<Rightarrow> ('s \<Rightarrow> 's res) \<Rightarrow> 's \<Rightarrow> (int list \<times> 's) res option" where
  "print_loop isemp tp pp s =
    (case isemp s of Inl e \<Rightarrow> Some (Inl e) | Inr b \<Rightarrow>
      if b then Some (Inr ([], s))
      else case tp s of Inl e \<Rightarrow> Some (Inl e) | Inr x \<Rightarrow>
        case pp s of Inl e \<Rightarrow> Some (Inl e) | Inr s' \<Rightarrow>
          Option.bind (print_loop isemp tp pp s') (\<lambda>R. Some (bindr R (\<lambda>(xs, r). Inr (x # xs, r)))))"

section \<open>The programs\<close>

definition testheap_MaxSize :: int where "testheap_MaxSize = 1000"

definition testheap_main :: "(int \<Rightarrow> int) \<Rightarrow> line list res option" where
  \<comment> \<open>\<open>g\<close> is what the allocated array holds\<close>
  "testheap_main g =
    (let N = testheap_MaxSize in
     after (bh_Initialize True True g N) (\<lambda>H.
     after (insert_all bh_ins (walk (nat N) N 71 (N div 2)) H) (\<lambda>H.
     andthen (min_loop bh_IsEmpty bh_DeleteMin 0 H) (\<lambda>(out, j, H).
     Some (Inr (out @ [Message ''Done...'']))))))"

definition testleft_MaxSize :: int where "testleft_MaxSize = 5000"

definition testleft_main :: "line list res option" where
  "testleft_main =
    (let N = testleft_MaxSize in
     after (insert_all (Insert1 True) (walk (nat N) N 17 (N div 2)) lh_Initialize) (\<lambda>H.
     andthen (left_loop 0 H) (\<lambda>(out, j, H).
     Some (Inr (out @ [Message ''Done...''])))))"

definition testbin_MaxSize :: int where "testbin_MaxSize = 12000"

definition testbin_main :: "line list res option" where
  "testbin_main =
    (let N = testbin_MaxSize in
     after (bq_Initialize True) (\<lambda>H.
     after (insert_all (bq_Insert True True) (walk (nat N) N 71 (N div 2)) H) (\<lambda>H.
     andthen (min_loop bq_IsEmpty (bq_DeleteMin True) 0 H) (\<lambda>(out, j, H).
     Some (Inr (out @ (if j \<noteq> N then [Message ''Error in counting''] else []) @ [Message ''Done...'']))))))"

definition testpair_MaxSize :: int where "testpair_MaxSize = 500"

text \<open>\<^verbatim>\<open>testpair.c\<close>: the state is the memory, the heap, and the array \<open>P\<close>
  of positions.\<close>

fun pair_fill :: "int list \<Rightarrow> pheap \<times> int \<times> int list \<Rightarrow> (pheap \<times> int \<times> int list) res" where
  "pair_fill [] s = Inr s"
| "pair_fill (j # js) (h, H, P) =
    bindr (ph_Insert (ph_new h) (j + testpair_MaxSize) h H) (\<lambda>(h, H, loc).
    bindr (aput' P j loc) (\<lambda>P. pair_fill js (h, H, P)))"

fun pair_decrease :: "int list \<Rightarrow> int list \<Rightarrow> pheap \<times> int \<Rightarrow> (pheap \<times> int) res" where
  "pair_decrease P [] s = Inr s"
| "pair_decrease P (j # js) (h, H) =
    bindr (aget' P j) (\<lambda>p. bindr (DecreaseKey p testpair_MaxSize h H) (pair_decrease P js))"

definition pair_next :: "pq \<Rightarrow> (int \<times> pq) res" where
  "pair_next = (\<lambda>(h, A, H). bindr (ph_DeleteMin h A H) (\<lambda>(h, A, H, x). Inr (x, (h, A, H))))"

definition testpair_main :: "int list \<Rightarrow> int list \<Rightarrow> line list res option" where
  \<comment> \<open>the static array and the uninitialised array of positions\<close>
  "testpair_main A P =
    (let N = testpair_MaxSize in
     after (pair_fill (walk (nat N) N 71 (N div 2)) (Map.empty, ph_Initialize, P)) (\<lambda>(h, H, P).
     after (pair_decrease P (walk (nat N) N 51 (N div 2)) (h, H)) (\<lambda>(h, H).
     andthen (min_loop pq_isemp pair_next 0 (h, A, H)) (\<lambda>(out, j, q).
     Some (Inr ([Message ''Done inserting''] @ out @ [Message ''Done...'']))))))"

definition teststka_main :: "(int \<Rightarrow> int) \<Rightarrow> int \<Rightarrow> (int list \<times> stack option) res option" where
  "teststka_main g t =
    after (sa_CreateStack True True g t 12) (\<lambda>S.
    after (insert_all sa_Push (range_by 0 10 1) S) (\<lambda>S.
    andthen (print_loop (\<lambda>S. Inr (sa_IsEmpty S)) sa_Top sa_Pop S) (\<lambda>(out, S).
    Some (Inr (out, sa_DisposeStack (Some S))))))"

definition teststkl_main :: "(heap \<Rightarrow> int) \<Rightarrow> cell \<Rightarrow> heap \<Rightarrow> (int list \<times> heap) res option" where
  "teststkl_main al g h0 =
    andthen (sl_CreateStack (al h0) g h0) (\<lambda>(S, h).
    after (insert_all (slp_push g) (range_by 0 10 1) (al, h, S)) (\<lambda>s.
    andthen (print_loop slp_isemp slp_top slp_pop s) (\<lambda>(out, (al, h, S)).
    andthen (sl_DisposeStack S h) (\<lambda>h. Some (Inr (out, h))))))"

definition testque_main :: "queue \<Rightarrow> (int \<Rightarrow> int) \<Rightarrow> (int list \<times> queue option) res option" where
  "testque_main Q0 g =
    after (qa_CreateQueue True True Q0 g 12) (\<lambda>Q.
    after (insert_all qa_Enqueue (range_by 0 10 1) Q) (\<lambda>Q.
    andthen (print_loop (\<lambda>Q. Inr (qa_IsEmpty Q)) qa_Front qa_Dequeue Q) (\<lambda>(out1, Q).
    after (insert_all qa_Enqueue (range_by 0 10 1) Q) (\<lambda>Q.
    andthen (print_loop (\<lambda>Q. Inr (qa_IsEmpty Q)) qa_Front qa_Dequeue Q) (\<lambda>(out2, Q).
    Some (Inr (out1 @ out2, qa_DisposeQueue (Some Q))))))))"

section \<open>Priority queues\<close>

lemma walk_mset:
  assumes "coprime s N" "2 \<le> N"
  shows "mset (walk (nat N) N s (N div 2)) = mset_set {0..<N}" "length (walk (nat N) N s (N div 2)) = nat N"
proof -
  have j: "0 \<le> N div 2" "N div 2 < N" using assms(2) by auto
  show "mset (walk (nat N) N s (N div 2)) = mset_set {0..<N}"
    using walk_perm [OF assms(1) j] by (metis mset_set_set)
  show "length (walk (nat N) N s (N div 2)) = nat N" by (simp add: walk_map [OF j])
qed

locale pq_test = pqueue +
  fixes nxt :: "'a \<Rightarrow> (int \<times> 'a) res"
  assumes nxt_ok: "inv q \<Longrightarrow> bag q \<noteq> {#} \<Longrightarrow>
    \<exists>q'. nxt q = Inr (Min_mset (bag q), q') \<and> inv q' \<and> bag q' = bag q - {#Min_mset (bag q)#}"
begin

lemma min_loop_ok:
  "inv q \<Longrightarrow> bag q = mset_set {j..<j + int n} \<Longrightarrow>
     \<exists>q'. min_loop isemp nxt j q = Some (Inr ([], j + int n, q')) \<and> bag q' = {#}"
proof (induction n arbitrary: q j)
  case 0
  then show ?case using isemp_ok [of q] by (subst min_loop.simps) simp
next
  case (Suc n)
  have iv: "{j..<j + int (Suc n)} = insert j {j + 1..<(j + 1) + int n}" by auto
  then have b: "bag q = add_mset j (mset_set {j + 1..<(j + 1) + int n})" using Suc.prems(2) by simp
  have m: "Min_mset (bag q) = j" unfolding b by (intro Min_eqI) auto
  obtain q' where q': "nxt q = Inr (j, q')" "inv q'" "bag q' = mset_set {j + 1..<(j + 1) + int n}"
    using nxt_ok [OF Suc.prems(1)] m b by auto
  obtain q2 where "min_loop isemp nxt (j + 1) q' = Some (Inr ([], (j + 1) + int n, q2))" "bag q2 = {#}"
    using Suc.IH [OF q'(2,3)] by blast
  moreover have "\<not> isemp q" using isemp_ok [OF Suc.prems(1)] b by simp
  ultimately show ?case using q'(1) by (subst min_loop.simps) (simp add: algebra_simps)
qed

lemma fill_ok:
  assumes "inv q" "bag q = {#}" "coprime s N" "2 \<le> N" "fits (nat N) (cap q)" "\<And>x. 0 \<le> x \<Longrightarrow> x < N \<Longrightarrow> elem_ok x"
  shows "\<exists>q' q2. insert_all ins (walk (nat N) N s (N div 2)) q = Inr q' \<and> inv q' \<and> bag q' = mset_set {0..<N} \<and>
    min_loop isemp nxt 0 q' = Some (Inr ([], N, q2))"
proof -
  let ?w = "walk (nat N) N s (N div 2)"
  note w = walk_mset [OF assms(3,4)]
  have "set ?w = {0..<N}" using arg_cong [OF w(1), of set_mset] by simp
  then have "list_all elem_ok ?w" using assms(6) by (auto simp: list_all_iff)
  moreover have "fits (size (bag q) + length ?w) (cap q)" using assms(2,5) w(2) by simp
  ultimately obtain q' where q': "insert_all ins ?w q = Inr q'" "inv q'" "bag q' = mset_set {0..<N}"
    using insert_all_ok [OF assms(1), of ?w] unfolding w(1) assms(2) by auto
  have "{0..<N} = {0..<0 + int (nat N)}" using assms(4) by simp
  then show ?thesis using min_loop_ok [OF q'(2), of 0 "nat N"] q' assms(4) by auto
qed

end

interpretation binheap_test: pq_test bh_IsEmpty bh_ins bh_FindMin bh_del bh_bag bh_inv
    "\<lambda>H. Some (nat (bCapacity H))" "\<lambda>x. MinData \<le> x" bh_DeleteMin
  by unfold_locales (use bh_DeleteMin_ok bh_bag_empty_iff in blast)

lemma bq_DeleteMin_next:
  assumes "bq_ok q" "bq_bag q \<noteq> {#}"
  shows "\<exists>q'. bq_DeleteMin True q = Inr (Min_mset (bq_bag q), q') \<and> bq_ok q' \<and>
    bq_bag q' = bq_bag q - {#Min_mset (bq_bag q)#}"
proof -
  obtain q1 where q1: "bq_DeleteMin True q = Inr (Min_mset (bq_bag q), q1)"
    using bq_DeleteMin_ok [of q] assms by (auto simp: bq_ok_def)
  obtain q2 where "bq_del q = Inr q2" "bq_ok q2" "bq_bag q2 = bq_bag q - {#Min_mset (bq_bag q)#}"
    using binqueue.dmin_ok [OF assms] by blast
  then show ?thesis using q1 by (auto simp: bq_del_def)
qed

interpretation binqueue_test: pq_test bq_IsEmpty "bq_Insert True True" bq_FindMin bq_del bq_bag bq_ok
    "\<lambda>_. Some (nat Capacity)" "\<lambda>x. x < bq_Infinity" "bq_DeleteMin True"
  by unfold_locales (rule bq_DeleteMin_next)

lemma pair_next_ok:
  assumes "pq_inv q" "pq_bag q \<noteq> {#}"
  shows "\<exists>q'. pair_next q = Inr (Min_mset (pq_bag q), q') \<and> pq_inv q' \<and>
    pq_bag q' = pq_bag q - {#Min_mset (pq_bag q)#}"
proof -
  obtain h A H where q: "q = (h, A, H)" by (cases q)
  obtain q' where q': "pq_dmin q = Inr q'" "pq_inv q'" "pq_bag q' = pq_bag q - {#Min_mset (pq_bag q)#}"
    using pq.dmin_ok [OF assms] by blast
  have "ph_FindMin h H = Inr (Min_mset (pq_bag q))" using pq.fmin_ok [OF assms] q by simp
  moreover obtain h' A' H' x where d: "ph_DeleteMin h A H = Inr (h', A', H', x)" "q' = (h', A', H')"
    using q'(1) q by (auto simp: bindr_eq_Inr)
  ultimately have "x = Min_mset (pq_bag q)"
    by (auto simp: ph_FindMin_def ph_DeleteMin_def bindr_eq_Inr split: if_splits)
  then show ?thesis using q q'(2,3) d by (auto simp: pair_next_def)
qed

interpretation pair_test: pq_test pq_isemp pq_ins pq_fmin pq_dmin pq_bag pq_inv "\<lambda>_. Some MaxSiblings"
    "\<lambda>_. True" pair_next
  by unfold_locales (rule pair_next_ok)

text \<open>\<^verbatim>\<open>testleft.c\<close> does not use the result of a deletion, and deletes only what it
  expects.\<close>

lemma left_loop_ok:
  "leftist H \<and> heap_ordered H \<Longrightarrow> bag_of H = mset_set {j..<j + int n} \<Longrightarrow>
     \<exists>H'. left_loop j H = Some (Inr ([], j + int n, H'))"
proof (induction n arbitrary: H j)
  case 0
  then show ?case using leftheap.isemp_ok [OF 0(1)] by (subst left_loop.simps) simp
next
  case (Suc n)
  have iv: "{j..<j + int (Suc n)} = insert j {j + 1..<(j + 1) + int n}" by auto
  then have b: "bag_of H = add_mset j (mset_set {j + 1..<(j + 1) + int n})" using Suc.prems(2) by simp
  have m: "Min_mset (bag_of H) = j" unfolding b by (intro Min_eqI) auto
  have ne: "bag_of H \<noteq> {#}" using b by simp
  obtain H' where H': "DeleteMin1 H = Inr H'" "leftist H' \<and> heap_ordered H'"
    "bag_of H' = mset_set {j + 1..<(j + 1) + int n}"
    using leftheap.dmin_ok [OF Suc.prems(1) ne] m b by auto
  obtain H2 where "left_loop (j + 1) H' = Some (Inr ([], (j + 1) + int n, H2))"
    using Suc.IH [OF H'(2,3)] by blast
  moreover have "\<not> lh_IsEmpty H" "lh_FindMin H = Inr j"
    using leftheap.isemp_ok [OF Suc.prems(1)] leftheap.fmin_ok [OF Suc.prems(1) ne] ne m by auto
  ultimately show ?case using H'(1) by (subst left_loop.simps) (simp add: algebra_simps)
qed

section \<open>The pairing heap\<close>

lemma pair_fill_ok:
  assumes "holds h H t" "content t = mset (map (\<lambda>j. (j + testpair_MaxSize, elt P j)) is)"
    "distinct (is @ js)" "\<And>j. j \<in> set (is @ js) \<Longrightarrow> inb P j"
  shows "\<exists>h' H' P' t'. pair_fill js (h, H, P) = Inr (h', H', P') \<and> holds h' H' t' \<and> length P' = length P \<and>
    content t' = mset (map (\<lambda>j. (j + testpair_MaxSize, elt P' j)) (is @ js))"
  using assms
proof (induction js arbitrary: h H P t "is")
  case (Cons j js)
  have "finite (dom h)" using Cons.prems(1) by (simp add: holds_def)
  then obtain h1 t1 where t1: "ph_Insert (ph_new h) (j + testpair_MaxSize) h H = Inr (h1, root t1, ph_new h)"
    "holds h1 (root t1) t1" "content t1 = add_mset (j + testpair_MaxSize, ph_new h) (content t)"
    using holds_Insert [OF Cons.prems(1)] ph_new_fresh by blast
  let ?P = "upd P j (ph_new h)"
  have inb: "inb P j" "\<And>i. i \<in> set is \<Longrightarrow> inb P i" using Cons.prems(4) by auto
  have "elt ?P i = elt P i" if "i \<in> set is" for i
    using that Cons.prems(3) inb by (auto simp: elt_upd inb_def)
  then have "content t1 = mset (map (\<lambda>j. (j + testpair_MaxSize, elt ?P j)) (is @ [j]))"
    using t1(3) Cons.prems(2) inb(1) by (simp cong: map_cong)
  from Cons.IH [OF t1(2) this] Cons.prems(3,4) obtain h' H' P' t' where
    "pair_fill js (h1, root t1, ?P) = Inr (h', H', P')" "holds h' H' t'" "length P' = length P"
    "content t' = mset (map (\<lambda>j. (j + testpair_MaxSize, elt P' j)) ((is @ [j]) @ js))"
    by auto
  then show ?case using t1(1) inb(1)
    by (intro exI [of _ h'] exI [of _ H'] exI [of _ P'] exI [of _ t']) (simp add: aput'_def aput_def)
qed auto

lemma pair_decrease_ok:
  assumes "holds h H t" "\<And>j. j \<in> set js \<Longrightarrow> inb P j \<and> 0 \<le> j \<and> j < 500"
    "content t = mset (map (\<lambda>j. (j, elt P j)) ds) + mset (map (\<lambda>j. (j + testpair_MaxSize, elt P j)) js)"
  shows "\<exists>h' H' t'. pair_decrease P js (h, H) = Inr (h', H') \<and> holds h' H' t' \<and>
    content t' = mset (map (\<lambda>j. (j, elt P j)) (ds @ js))"
  using assms
proof (induction js arbitrary: h H t ds)
  case (Cons j js)
  have "(j + testpair_MaxSize, elt P j) \<in># content t" using Cons.prems(3) by simp
  moreover have "ck (j + testpair_MaxSize - testpair_MaxSize) = Some j" "0 \<le> testpair_MaxSize"
    using Cons.prems(2) [of j] by (simp_all add: testpair_MaxSize_def)
  ultimately obtain h1 t1 where t1: "DecreaseKey (elt P j) testpair_MaxSize h H = Inr (h1, root t1)"
    "holds h1 (root t1) t1"
    "add_mset (j + testpair_MaxSize, elt P j) (content t1) = add_mset (j, elt P j) (content t)"
    using holds_DecreaseKey [OF Cons.prems(1)] by blast
  have "content t1 = mset (map (\<lambda>j. (j, elt P j)) (ds @ [j])) +
      mset (map (\<lambda>j. (j + testpair_MaxSize, elt P j)) js)"
    using t1(3) unfolding Cons.prems(3) by (simp add: add_mset_commute [of "(j, elt P j)"])
  from Cons.IH [OF t1(2) _ this] Cons.prems(2) obtain h' H' t' where
    "pair_decrease P js (h1, root t1) = Inr (h', H')" "holds h' H' t'"
    "content t' = mset (map (\<lambda>j. (j, elt P j)) ((ds @ [j]) @ js))" by auto
  then show ?case using t1(1) Cons.prems(2) [of j]
    by (intro exI [of _ h'] exI [of _ H'] exI [of _ t']) (simp add: aget'_def aget_def)
qed auto

lemma walk_500:
  assumes "coprime s 500"
  shows "distinct (walk 500 500 s 250)" "set (walk 500 500 s 250) = {0..<500}"
    "mset (walk 500 500 s 250) = mset_set {0..<500}"
  using walk_perm [OF assms, of 250] walk_mset(1) [OF assms] by simp_all

lemma testpair_ok:
  assumes "length A = MaxSiblings" "length P = 500"
  shows "testpair_main A P = Some (Inr [Message ''Done inserting'', Message ''Done...''])"
proof -
  have c: "coprime 71 (500::int)" "coprime 51 (500::int)" by code_simp+
  let ?w = "walk 500 500 71 250" and ?v = "walk 500 500 51 250"
  have 0: "holds Map.empty ph_Initialize Null" by (simp add: holds_def ph_Initialize_def)
  have inb: "inb P j" if "j \<in> set ?w" for j
    using that walk_500(2) [OF c(1)] assms(2) by (auto simp: inb_def)
  obtain h1 H1 P1 t1 where 1: "pair_fill ?w (Map.empty, ph_Initialize, P) = Inr (h1, H1, P1)"
    "holds h1 H1 t1" "length P1 = length P" "content t1 = mset (map (\<lambda>j. (j + testpair_MaxSize, elt P1 j)) ([] @ ?w))"
    using pair_fill_ok [OF 0, of P "[]" ?w] walk_500(1) [OF c(1)] inb by auto
  have "mset ?w = mset ?v" using walk_500(3) [OF c(1)] walk_500(3) [OF c(2)] by simp
  then have "content t1 = mset (map (\<lambda>j. (j, elt P1 j)) []) + mset (map (\<lambda>j. (j + testpair_MaxSize, elt P1 j)) ?v)"
    using 1(4) by simp
  moreover have "inb P1 j \<and> 0 \<le> j \<and> j < 500" if "j \<in> set ?v" for j
    using that walk_500(2) [OF c(2)] 1(3) assms(2) by (auto simp: inb_def)
  ultimately obtain h2 H2 t2 where 2: "pair_decrease P1 ?v (h1, H1) = Inr (h2, H2)" "holds h2 H2 t2"
    "content t2 = mset (map (\<lambda>j. (j, elt P1 j)) ([] @ ?v))"
    using pair_decrease_ok [OF 1(2)] by blast
  have b: "pq_bag (h2, A, H2) = mset_set {0..<0 + int 500}"
    unfolding holds_bag(1) [OF 2(2)] 2(3) using walk_500(3) [OF c(2)]
    by (simp add: image_mset.compositionality comp_def flip: mset_map)
  have "size (content t2) = 500"
    using arg_cong [OF b, of size] unfolding holds_bag(1) [OF 2(2)] by simp
  then have "pq_inv (h2, A, H2)" using 2(2) assms(1) holds_bag(2) [OF 2(2)] by (auto simp: MaxSiblings_def)
  from pair_test.min_loop_ok [OF this b] obtain q where
    "min_loop pq_isemp pair_next 0 (h2, A, H2) = Some (Inr ([], 0 + int 500, q))" by blast
  then show ?thesis using 1(1) 2(1)
    by (simp add: testpair_main_def testpair_MaxSize_def after_def andthen_def Let_def)
qed

section \<open>Stacks and queues\<close>

lemma print_loop_pop_all:
  "pop_all isemp tp pp n s = Inr (xs, s') \<Longrightarrow> isemp s' = Inr True \<Longrightarrow>
     print_loop isemp tp pp s = Some (Inr (xs, s'))"
proof (induction n arbitrary: s xs)
  case 0
  then show ?case by (subst print_loop.simps) simp
next
  case (Suc n)
  obtain b where b: "isemp s = Inr b" using Suc.prems(1) by (cases "isemp s") auto
  show ?case
  proof (cases b)
    case True
    then show ?thesis using b Suc.prems by (subst print_loop.simps) simp
  next
    case False
    then obtain x s1 ys where "tp s = Inr x" "pp s = Inr s1" "pop_all isemp tp pp n s1 = Inr (ys, s')" "xs = x # ys"
      using Suc.prems(1) b by (auto simp: bindr_eq_Inr)
    with Suc.IH [OF this(3) Suc.prems(2)] show ?thesis using b False by (subst print_loop.simps) simp
  qed
qed

lemma queue_print:
  "qa_rep Q xs \<Longrightarrow> \<exists>Q'. print_loop (\<lambda>Q. Inr (qa_IsEmpty Q)) qa_Front qa_Dequeue Q = Some (Inr (xs, Q')) \<and>
     qa_rep Q' [] \<and> qCapacity Q' = qCapacity Q"
proof (induction xs arbitrary: Q)
  case Nil
  then have "qa_IsEmpty Q" by (auto simp: qa_rep_def qa_IsEmpty_def)
  then show ?case using Nil by (subst print_loop.simps) simp
next
  case (Cons x xs)
  obtain Q1 where "qa_Front Q = Inr x" "qa_Dequeue Q = Inr Q1" "qa_rep Q1 xs" "qCapacity Q1 = qCapacity Q"
    using qa_FrontAndDequeue_ok [OF Cons.prems] by blast
  moreover have "\<not> qa_IsEmpty Q" using Cons.prems by (auto simp: qa_rep_def qa_IsEmpty_def)
  ultimately show ?case using Cons.IH [of Q1] by (subst print_loop.simps) auto
qed

lemma queue_fill:
  "qa_rep Q ys \<Longrightarrow> len ys + len xs \<le> qCapacity Q \<Longrightarrow>
     \<exists>Q'. insert_all qa_Enqueue xs Q = Inr Q' \<and> qa_rep Q' (ys @ xs) \<and> qCapacity Q' = qCapacity Q"
proof (induction xs arbitrary: Q ys)
  case (Cons x xs)
  then obtain Q1 where "qa_Enqueue x Q = Inr Q1" "qa_rep Q1 (ys @ [x])" "qCapacity Q1 = qCapacity Q"
    using qa_Enqueue_ok [OF Cons.prems(1), of x] by auto
  then show ?case using Cons.IH [of Q1 "ys @ [x]"] Cons.prems(2) by auto
qed simp

lemma range_10: "range_by 0 10 1 = [0, 1, 2, 3, 4, 5, 6, 7, 8, 9]"
  by (simp add: range_by_def upt_rec)

lemma testque_ok:
  "testque_main Q0 g = Some (Inr (range_by 0 10 1 @ range_by 0 10 1, None))"
proof -
  let ?xs = "range_by 0 10 1"
  have l: "length ?xs = 10" by (simp add: range_10)
  obtain Q where Q: "qa_CreateQueue True True Q0 g 12 = Inr Q" "qa_rep Q []" "qCapacity Q = 12"
    using qa_CreateQueue_ok [of 12 Q0 g] by (auto simp: MinQueueSize_def)
  obtain Q1 where 1: "insert_all qa_Enqueue ?xs Q = Inr Q1" "qa_rep Q1 ?xs" "qCapacity Q1 = 12"
    using queue_fill [OF Q(2), of ?xs] Q(3) l by auto
  obtain Q2 where 2: "print_loop (\<lambda>Q. Inr (qa_IsEmpty Q)) qa_Front qa_Dequeue Q1 = Some (Inr (?xs, Q2))"
    "qa_rep Q2 []" "qCapacity Q2 = 12" using queue_print [OF 1(2)] 1(3) by auto
  obtain Q3 where 3: "insert_all qa_Enqueue ?xs Q2 = Inr Q3" "qa_rep Q3 ?xs"
    using queue_fill [OF 2(2), of ?xs] 2(3) l by auto
  obtain Q4 where "print_loop (\<lambda>Q. Inr (qa_IsEmpty Q)) qa_Front qa_Dequeue Q3 = Some (Inr (?xs, Q4))"
    using queue_print [OF 3(2)] by blast
  then show ?thesis using Q(1) 1(1) 2(1) 3(1)
    by (simp add: testque_main_def after_def andthen_def qa_DisposeQueue_def)
qed

lemma teststka_ok: "teststka_main g t = Some (Inr (rev (range_by 0 10 1), None))"
proof -
  let ?xs = "range_by 0 10 1"
  obtain S where S: "sa_CreateStack True True g t 12 = Inr S" "sa_rep S []" "sa_room S (nat 12)"
    using sa_CreateStack_ok [of 12 g t] by (auto simp: MinStackSize_def)
  have "sa_room S (length ?xs)" using S(3) by (auto simp: sa_room_def range_10)
  then obtain S1 S2 where "insert_all sa_Push ?xs S = Inr S1"
    "pop_all (\<lambda>S. Inr (sa_IsEmpty S)) sa_Top sa_Pop (length ?xs) S1 = Inr (rev ?xs, S2)" "sa_rep S2 []"
    using stackar.push_pop_all [OF S(2)] by blast
  then show ?thesis using S(1) print_loop_pop_all [of "\<lambda>S. Inr (sa_IsEmpty S)" sa_Top sa_Pop "length ?xs" S1]
      stackar.isemp_ok [of S2 "[]"]
    by (simp add: teststka_main_def after_def andthen_def sa_DisposeStack_def)
qed

lemma teststkl_ok:
  assumes "malloc_ok al" "finite (dom h0)"
  shows "\<exists>h. teststkl_main al g h0 = Some (Inr (rev (range_by 0 10 1), h))"
proof -
  let ?xs = "range_by 0 10 1" and ?t = "al h0"
  let ?h = "h0(?t \<mapsto> g\<lparr>Next := 0\<rparr>)"
  have t: "?t \<noteq> 0" using assms by (auto simp: fresh_def malloc_ok_def)
  have l: "list_at ?h ?t [] []" using t by (simp add: list_at_def)
  have "sl_MakeEmpty ?t ?h = Some (Inr ?h)"
    using t sl_IsEmpty_ok [OF l] by (subst sl_MakeEmpty_def, subst sl_pop_loop.simps) simp
  then have c: "sl_CreateStack ?t g h0 = Some (Inr (?t, ?h))" using t by (simp add: sl_CreateStack_def heap_ok)
  have "slp_rep (al, ?h, ?t) []" using assms l by (auto simp: slp_rep_def)
  from stackli.push_pop_all [OF this, of g ?xs] obtain s1 s2 where
    s: "insert_all (slp_push g) ?xs (al, ?h, ?t) = Inr s1"
    "pop_all slp_isemp slp_top slp_pop (length ?xs) s1 = Inr (rev ?xs, s2)" "slp_rep s2 []" by auto
  obtain al2 h2 S2 where s2: "s2 = (al2, h2, S2)" by (cases s2)
  then obtain ps where r: "list_at h2 S2 ps []" using s(3) by (auto simp: slp_rep_def)
  obtain h3 where h3: "sl_MakeEmpty S2 h2 = Some (Inr h3)" "list_at h3 S2 [] []"
    using sl_pop_loop_ok [OF r] r by (auto simp: sl_MakeEmpty_def list_at_def)
  then obtain k where "h3 S2 = Some k" by (auto simp: list_at_def split: option.splits)
  then have "sl_DisposeStack S2 h2 = Some (Inr (h3(S2 := None)))"
    using h3(1) by (simp add: sl_DisposeStack_def andthen_def free_cell_def)
  moreover have "print_loop slp_isemp slp_top slp_pop s1 = Some (Inr (rev ?xs, s2))"
    using print_loop_pop_all [OF s(2)] stackli.isemp_ok [OF s(3)] by simp
  ultimately show ?thesis using c s(1) s2 by (simp add: teststkl_main_def after_def andthen_def)
qed

section \<open>Properties\<close>

text \<open>The test programs of the binary heap, the leftist heap, the binomial queue and the pairing
  heap end; every deletion returns the next number, so they print no error line. The pairing heap's
  program also lowers every element through the positions \<open>Insert\<close> gave it.\<close>

theorem queue_tests_pass:
  assumes "length A = MaxSiblings" "length P = 500"
  shows "testheap_main g = Some (Inr [Message ''Done...'']) \<and> testleft_main = Some (Inr [Message ''Done...'']) \<and>
    testbin_main = Some (Inr [Message ''Done...'']) \<and>
    testpair_main A P = Some (Inr [Message ''Done inserting'', Message ''Done...''])"
proof (intro conjI)
  have c: "coprime 71 (1000::int)" "coprime 17 (5000::int)" "coprime 71 (12000::int)" by code_simp+
  show "testpair_main A P = Some (Inr [Message ''Done inserting'', Message ''Done...''])"
    by (rule testpair_ok [OF assms])
  obtain H where H: "bh_Initialize True True g 1000 = Inr H" "bh_inv H" "bh_bag H = {#}" "bCapacity H = 1000"
    using bh_Initialize_ok [of 1000 g] by (auto simp: MinPQSize_def)
  obtain H1 H2 where "insert_all bh_ins (walk 1000 1000 71 500) H = Inr H1"
    "min_loop bh_IsEmpty bh_DeleteMin 0 H1 = Some (Inr ([], 1000, H2))"
    using binheap_test.fill_ok [OF H(2,3) c(1)] H(4) by (auto simp: MinData_def)
  then show "testheap_main g = Some (Inr [Message ''Done...''])"
    using H(1) by (simp add: testheap_main_def testheap_MaxSize_def after_def andthen_def Let_def)
  have b: "bq_ok \<lparr>CurrentSize = 0, TheTrees = replicate MaxTrees BNil\<rparr>"
    "bq_bag \<lparr>CurrentSize = 0, TheTrees = replicate MaxTrees BNil\<rparr> = {#}"
    using bq_Initialize_ok(2) by (auto simp: bq_ok_def Capacity_def slots_empty)
  obtain B1 B2 where "insert_all (bq_Insert True True) (walk 12000 12000 71 6000)
      \<lparr>CurrentSize = 0, TheTrees = replicate MaxTrees BNil\<rparr> = Inr B1"
    "min_loop bq_IsEmpty (bq_DeleteMin True) 0 B1 = Some (Inr ([], 12000, B2))"
    using binqueue_test.fill_ok [OF b c(3)] by (auto simp: Capacity_def bq_Infinity_def)
  then show "testbin_main = Some (Inr [Message ''Done...''])"
    by (simp add: testbin_main_def testbin_MaxSize_def after_def andthen_def Let_def bq_Initialize_ok(1))
  have w: "mset (walk 5000 5000 17 2500) = mset_set {0..<0 + int 5000}" using walk_mset(1) [OF c(2)] by simp
  obtain L where L: "insert_all (Insert1 True) (walk 5000 5000 17 2500) Null = Inr L" "leftist L \<and> heap_ordered L"
    "bag_of L = mset_set {0..<0 + int 5000}"
    using leftheap.insert_all_ok [of Null "walk 5000 5000 17 2500"] unfolding w by (auto simp: list.pred_True)
  from left_loop_ok [OF L(2,3)] show "testleft_main = Some (Inr [Message ''Done...''])"
    using L(1) by (auto simp: testleft_main_def testleft_MaxSize_def after_def andthen_def Let_def lh_Initialize_def)
qed

lemma queue_tests_pass_witness:
  "length (replicate MaxSiblings (0::int)) = MaxSiblings \<and>
   testpair_main (replicate MaxSiblings 0) (replicate 500 0) =
     Some (Inr [Message ''Done inserting'', Message ''Done...''])"
  using queue_tests_pass [of "replicate MaxSiblings 0" "replicate 500 0"] by simp

text \<open>The test programs of the stacks print the numbers from 9 down to 0, the one of the queue
  those from 0 to 9 twice, and all dispose of their structure.\<close>

theorem stack_queue_tests:
  assumes "malloc_ok al" "finite (dom h0)"
  shows "teststka_main g t = Some (Inr ([9, 8, 7, 6, 5, 4, 3, 2, 1, 0], None)) \<and>
    (\<exists>h. teststkl_main al c h0 = Some (Inr ([9, 8, 7, 6, 5, 4, 3, 2, 1, 0], h))) \<and>
    testque_main Q0 g = Some (Inr ([0, 1, 2, 3, 4, 5, 6, 7, 8, 9, 0, 1, 2, 3, 4, 5, 6, 7, 8, 9], None))"
  using teststka_ok [of g t] teststkl_ok [OF assms, of c] testque_ok [of Q0 g] by (simp add: range_10)

lemma stack_queue_tests_witness:
  "malloc_ok (\<lambda>h. Max (insert 0 (dom h)) + 1) \<and>
   teststka_main (\<lambda>_. 0) 0 = Some (Inr ([9, 8, 7, 6, 5, 4, 3, 2, 1, 0], None))"
  using stack_queue_tests [OF malloc_ok_above, of Map.empty] malloc_ok_above by simp

end
