(* ===== verification/RedBlack.thy ===== *)
theory RedBlack
  imports BinTree NodeHeap
begin

text \<open>
  \<^verbatim>\<open>src/DSAAC/redblack.c\<close>: red-black trees with top-down insertion. \<open>Insert\<close>
  walks down with four static node pointers \<open>X\<close>, \<open>P\<close>, \<open>GP\<close>, \<open>GGP\<close> and
  changes colours and links above it as it goes, so the model is a memory of nodes and every
  assignment through a pointer is one store. A tree is a header with the element
  \<open>NegInfinity\<close> whose right child is the root; the sentinel \<open>NullNode\<close> is a node
  of the memory. Its address \<open>NN\<close>, a static variable that only \<open>Initialize\<close> sets,
  is an argument of the other operations.
\<close>

section \<open>Nodes and static variables\<close>

datatype ColorType = Red | Black

record rbnode =
  rbElement :: int
  rbLeft :: int
  rbRight :: int
  rbColor :: ColorType

type_synonym rbheap = "int \<rightharpoonup> rbnode"

record rbvars =
  vX :: int
  vP :: int
  vGP :: int
  vGGP :: int

definition rb_NegInfinity :: int where "rb_NegInfinity = -10000"

section \<open>Operations\<close>

text \<open>\<open>Initialize\<close>: \<open>t1\<close> and \<open>t2\<close> are what its calls of
  \<open>malloc\<close> return; if \<open>NullNode\<close> is set, there is only the second one. The
  results are the memory, \<open>NullNode\<close> and the header.\<close>

definition rb_Initialize :: "int \<Rightarrow> int \<Rightarrow> rbheap \<Rightarrow> int \<Rightarrow> (rbheap \<times> int \<times> int) res" where
  "rb_Initialize t1 t2 h NN =
    bindr (if NN = 0 then
             if t1 = 0 then Inl (FatalError ''Out of space!!!'')
             else Inr (h(t1 \<mapsto> \<lparr>rbElement = 12345, rbLeft = t1, rbRight = t1, rbColor = Black\<rparr>), t1)
           else Inr (h, NN)) (\<lambda>(h, NN).
    if t2 = 0 then Inl (FatalError ''Out of space!!!'')
    else Inr (h(t2 \<mapsto> \<lparr>rbElement = rb_NegInfinity, rbLeft = NN, rbRight = NN, rbColor = Black\<rparr>), NN, t2))"

text \<open>\<open>DoPrint\<close> and \<open>PrintTree\<close>, with what \<open>Output\<close> prints.\<close>

partial_function (option) DoPrint :: "int \<Rightarrow> rbheap \<Rightarrow> int \<Rightarrow> int list res option" where
  "DoPrint NN h T =
    (if T = NN then Some (Inr [])
     else case rd h T of Inl e \<Rightarrow> Some (Inl e) | Inr n \<Rightarrow>
       Option.bind (DoPrint NN h (rbLeft n)) (\<lambda>L. case L of Inl e \<Rightarrow> Some (Inl e) | Inr xs \<Rightarrow>
       Option.bind (DoPrint NN h (rbRight n)) (\<lambda>R. case R of Inl e \<Rightarrow> Some (Inl e) | Inr ys \<Rightarrow>
         Some (Inr (xs @ rbElement n # ys)))))"

definition rb_PrintTree :: "int \<Rightarrow> rbheap \<Rightarrow> int \<Rightarrow> int list res option" where
  "rb_PrintTree NN h T = (case rd h T of Inl e \<Rightarrow> Some (Inl e) | Inr n \<Rightarrow> DoPrint NN h (rbRight n))"

text \<open>\<open>MakeEmptyRec\<close> returns \<open>NullNode\<close>; the model returns the memory.\<close>

partial_function (option) MakeEmptyRec :: "int \<Rightarrow> rbheap \<Rightarrow> int \<Rightarrow> rbheap res option" where
  "MakeEmptyRec NN h T =
    (if T = NN then Some (Inr h)
     else case rd h T of Inl e \<Rightarrow> Some (Inl e) | Inr n \<Rightarrow>
       Option.bind (MakeEmptyRec NN h (rbLeft n)) (\<lambda>R. case R of Inl e \<Rightarrow> Some (Inl e) | Inr h \<Rightarrow>
         case rd h T of Inl e \<Rightarrow> Some (Inl e) | Inr n \<Rightarrow>
           Option.bind (MakeEmptyRec NN h (rbRight n)) (\<lambda>R. case R of Inl e \<Rightarrow> Some (Inl e) | Inr h \<Rightarrow>
             Some (pfree h T))))"

definition rb_MakeEmpty :: "int \<Rightarrow> rbheap \<Rightarrow> int \<Rightarrow> rbheap res option" where
  "rb_MakeEmpty NN h T =
    (case rd h T of Inl e \<Rightarrow> Some (Inl e) | Inr n \<Rightarrow>
      Option.bind (MakeEmptyRec NN h (rbRight n)) (\<lambda>R. case R of Inl e \<Rightarrow> Some (Inl e) | Inr h \<Rightarrow>
        Some (wr h T (\<lambda>n. n\<lparr>rbRight := NN\<rparr>))))"

partial_function (option) rb_Find :: "int \<Rightarrow> int \<Rightarrow> rbheap \<Rightarrow> int \<Rightarrow> int res option" where
  "rb_Find NN X h T =
    (if T = NN then Some (Inr NN)
     else case rd h T of Inl e \<Rightarrow> Some (Inl e) | Inr n \<Rightarrow>
       if X < rbElement n then rb_Find NN X h (rbLeft n)
       else if X > rbElement n then rb_Find NN X h (rbRight n)
       else Some (Inr T))"

text \<open>The loops \<open>while( T->Left != NullNode ) T = T->Left\<close> and its mirror image.\<close>

partial_function (option) go_left :: "int \<Rightarrow> rbheap \<Rightarrow> int \<Rightarrow> int res option" where
  "go_left NN h T =
    (case rd h T of Inl e \<Rightarrow> Some (Inl e) | Inr n \<Rightarrow>
      if rbLeft n \<noteq> NN then go_left NN h (rbLeft n) else Some (Inr T))"

partial_function (option) go_right :: "int \<Rightarrow> rbheap \<Rightarrow> int \<Rightarrow> int res option" where
  "go_right NN h T =
    (case rd h T of Inl e \<Rightarrow> Some (Inl e) | Inr n \<Rightarrow>
      if rbRight n \<noteq> NN then go_right NN h (rbRight n) else Some (Inr T))"

definition rb_FindMin :: "int \<Rightarrow> rbheap \<Rightarrow> int \<Rightarrow> int res option" where
  "rb_FindMin NN h T = (case rd h T of Inl e \<Rightarrow> Some (Inl e) | Inr n \<Rightarrow> go_left NN h (rbRight n))"

definition rb_FindMax :: "int \<Rightarrow> rbheap \<Rightarrow> int \<Rightarrow> int res option" where
  "rb_FindMax NN h T = go_right NN h T"

definition rb_SingleRotateWithLeft :: "rbheap \<Rightarrow> int \<Rightarrow> (rbheap \<times> int) res" where
  "rb_SingleRotateWithLeft h K2 =
    bindr (rd h K2) (\<lambda>k2. let K1 = rbLeft k2 in
    bindr (rd h K1) (\<lambda>k1.
    bindr (wr h K2 (\<lambda>n. n\<lparr>rbLeft := rbRight k1\<rparr>)) (\<lambda>h.
    bindr (wr h K1 (\<lambda>n. n\<lparr>rbRight := K2\<rparr>)) (\<lambda>h. Inr (h, K1)))))"

definition rb_SingleRotateWithRight :: "rbheap \<Rightarrow> int \<Rightarrow> (rbheap \<times> int) res" where
  "rb_SingleRotateWithRight h K1 =
    bindr (rd h K1) (\<lambda>k1. let K2 = rbRight k1 in
    bindr (rd h K2) (\<lambda>k2.
    bindr (wr h K1 (\<lambda>n. n\<lparr>rbRight := rbLeft k2\<rparr>)) (\<lambda>h.
    bindr (wr h K2 (\<lambda>n. n\<lparr>rbLeft := K1\<rparr>)) (\<lambda>h. Inr (h, K2)))))"

definition Rotate :: "int \<Rightarrow> rbheap \<Rightarrow> int \<Rightarrow> (rbheap \<times> int) res" where
  "Rotate Item h Parent =
    bindr (rd h Parent) (\<lambda>p.
    if Item < rbElement p then
      bindr (rd h (rbLeft p)) (\<lambda>c.
      bindr (if Item < rbElement c then rb_SingleRotateWithLeft h (rbLeft p)
             else rb_SingleRotateWithRight h (rbLeft p)) (\<lambda>(h, r).
      bindr (wr h Parent (\<lambda>n. n\<lparr>rbLeft := r\<rparr>)) (\<lambda>h. Inr (h, r))))
    else
      bindr (rd h (rbRight p)) (\<lambda>c.
      bindr (if Item < rbElement c then rb_SingleRotateWithLeft h (rbRight p)
             else rb_SingleRotateWithRight h (rbRight p)) (\<lambda>(h, r).
      bindr (wr h Parent (\<lambda>n. n\<lparr>rbRight := r\<rparr>)) (\<lambda>h. Inr (h, r)))))"

text \<open>\<open>HandleReorient\<close> in three parts: the colour flip, the rotations, and
  \<open>T->Right->Color = Black\<close>.\<close>

definition color_flip :: "rbheap \<Rightarrow> int \<Rightarrow> rbheap res" where
  "color_flip h X =
    bindr (wr h X (\<lambda>n. n\<lparr>rbColor := Red\<rparr>)) (\<lambda>h.
    bindr (rd h X) (\<lambda>x. bindr (wr h (rbLeft x) (\<lambda>n. n\<lparr>rbColor := Black\<rparr>)) (\<lambda>h.
    bindr (rd h X) (\<lambda>x. wr h (rbRight x) (\<lambda>n. n\<lparr>rbColor := Black\<rparr>)))))"

definition do_rotate :: "int \<Rightarrow> rbheap \<Rightarrow> rbvars \<Rightarrow> (rbheap \<times> rbvars) res" where
  "do_rotate Item h v =
    bindr (wr h (vGP v) (\<lambda>n. n\<lparr>rbColor := Red\<rparr>)) (\<lambda>h.
    bindr (rd h (vGP v)) (\<lambda>gp. bindr (rd h (vP v)) (\<lambda>p.
    bindr (if (Item < rbElement gp) \<noteq> (Item < rbElement p)
           then bindr (Rotate Item h (vGP v)) (\<lambda>(h, r). Inr (h, v\<lparr>vP := r\<rparr>))
           else Inr (h, v)) (\<lambda>(h, v).
    bindr (Rotate Item h (vGGP v)) (\<lambda>(h, r).
    bindr (wr h r (\<lambda>n. n\<lparr>rbColor := Black\<rparr>)) (\<lambda>h. Inr (h, v\<lparr>vX := r\<rparr>)))))))"

definition root_black :: "rbheap \<Rightarrow> int \<Rightarrow> rbheap res" where
  "root_black h T = bindr (rd h T) (\<lambda>t. wr h (rbRight t) (\<lambda>n. n\<lparr>rbColor := Black\<rparr>))"

definition HandleReorient :: "int \<Rightarrow> int \<Rightarrow> rbheap \<Rightarrow> rbvars \<Rightarrow> (rbheap \<times> rbvars) res" where
  "HandleReorient Item T h v =
    bindr (color_flip h (vX v)) (\<lambda>h.
    bindr (rd h (vP v)) (\<lambda>p.
    bindr (if rbColor p = Red then do_rotate Item h v else Inr (h, v)) (\<lambda>(h, v).
    bindr (root_black h T) (\<lambda>h. Inr (h, v)))))"

text \<open>The body of the loop of \<open>Insert\<close>, with \<open>x\<close> the node \<open>*X\<close>.\<close>

definition both_red :: "rbheap \<Rightarrow> int \<Rightarrow> bool res" where
  "both_red h X =
    bindr (rd h X) (\<lambda>x. bindr (rd h (rbLeft x)) (\<lambda>l.
    if rbColor l = Red then bindr (rd h (rbRight x)) (\<lambda>r. Inr (rbColor r = Red)) else Inr False))"

definition insert_check :: "int \<Rightarrow> int \<Rightarrow> rbheap \<Rightarrow> rbvars \<Rightarrow> (rbheap \<times> rbvars) res" where
  "insert_check Item T h v =
    bindr (both_red h (vX v)) (\<lambda>b. if b then HandleReorient Item T h v else Inr (h, v))"

definition insert_move :: "int \<Rightarrow> rbnode \<Rightarrow> rbvars \<Rightarrow> rbvars" where
  "insert_move Item x v =
    \<lparr>vX = (if Item < rbElement x then rbLeft x else rbRight x), vP = vX v, vGP = vP v, vGGP = vGP v\<rparr>"

partial_function (option) insert_loop ::
  "int \<Rightarrow> int \<Rightarrow> rbheap \<Rightarrow> rbvars \<Rightarrow> (rbheap \<times> rbvars) res option" where
  "insert_loop Item T h v =
    (case rd h (vX v) of Inl e \<Rightarrow> Some (Inl e) | Inr x \<Rightarrow>
      if rbElement x \<noteq> Item then
        case insert_check Item T h (insert_move Item x v) of Inl e \<Rightarrow> Some (Inl e) | Inr (h, v) \<Rightarrow>
          insert_loop Item T h v
      else Some (Inr (h, v)))"

text \<open>\<open>Insert\<close>: \<open>t\<close> is what \<open>malloc\<close> returns, \<open>g\<close> what the
  block held. The results are the memory, the static variables and the returned pointer.\<close>

definition insert_new :: "int \<Rightarrow> rbnode \<Rightarrow> int \<Rightarrow> int \<Rightarrow> int \<Rightarrow> rbheap \<Rightarrow> rbvars \<Rightarrow> (rbheap \<times> rbvars) res" where
  "insert_new t g NN Item T h v =
    (if t = 0 then Inl (FatalError ''Out of space!!!'')
     else
       let h = h(t \<mapsto> g\<lparr>rbElement := Item, rbLeft := NN, rbRight := NN\<rparr>); v = v\<lparr>vX := t\<rparr> in
       bindr (rd h (vP v)) (\<lambda>p.
       bindr (if Item < rbElement p then wr h (vP v) (\<lambda>n. n\<lparr>rbLeft := vX v\<rparr>)
              else wr h (vP v) (\<lambda>n. n\<lparr>rbRight := vX v\<rparr>)) (\<lambda>h.
       HandleReorient Item T h v)))"

definition rb_Insert ::
  "int \<Rightarrow> rbnode \<Rightarrow> int \<Rightarrow> int \<Rightarrow> rbheap \<Rightarrow> rbvars \<Rightarrow> int \<Rightarrow> (rbheap \<times> rbvars \<times> int) res option" where
  "rb_Insert t g NN Item h v T =
    (let v = v\<lparr>vX := T, vP := T, vGP := T\<rparr> in
     case wr h NN (\<lambda>n. n\<lparr>rbElement := Item\<rparr>) of Inl e \<Rightarrow> Some (Inl e) | Inr h \<Rightarrow>
     Option.bind (insert_loop Item T h v) (\<lambda>R. Some (bindr R (\<lambda>(h, v).
       if vX v \<noteq> NN then Inr (h, v, NN)
       else bindr (insert_new t g NN Item T h v) (\<lambda>(h, v). Inr (h, v, T))))))"

text \<open>\<open>Remove\<close> prints that it is unimplemented and returns the tree.\<close>

definition rb_Remove :: "int \<Rightarrow> int \<Rightarrow> int \<times> string" where
  "rb_Remove Item T = (T, ''Remove is unimplemented'')"

definition rb_Retrieve :: "rbheap \<Rightarrow> int \<Rightarrow> int res" where
  "rb_Retrieve h P = bindr (rd h P) (\<lambda>n. Inr (rbElement n))"

end
