(* ===== verification/RedBlackInv.thy ===== *)
theory RedBlackInv
  imports RedBlack
begin

text \<open>
  The top-down insertion of \<^verbatim>\<open>redblack.c\<close> (theory \<open>RedBlack\<close>) on trees. The
  position of \<open>X\<close> is a zipper: the subtree at \<open>X\<close> and the frames on the way up to the
  header. First the stores of the code are related to changes of the zipper, then the zipper is
  shown to stay a red-black search tree, and last the loop to end.
\<close>

section \<open>Zippers in memory\<close>

type_synonym rbt = "(int \<times> ColorType) bt"

datatype frame =
    Lft int int ColorType rbt  \<comment> \<open>element, address, colour and right child of a node whose left child is the hole\<close>
  | Rgt rbt int int ColorType  \<comment> \<open>left child, element, address and colour of a node whose right child is the hole\<close>

fun plug :: "frame \<Rightarrow> rbt \<Rightarrow> rbt" where
  "plug (Lft x a c r) t = Node t x (a, c) r"
| "plug (Rgt l x a c) t = Node l x (a, c) t"

fun whole :: "frame list \<Rightarrow> rbt \<Rightarrow> rbt" where
  "whole [] t = t"
| "whole (f # fs) t = whole fs (plug f t)"

fun adr :: "int \<Rightarrow> rbt \<Rightarrow> int" where
  "adr NN Null = NN"
| "adr NN (Node l x (a, c) r) = a"

fun adrs :: "rbt \<Rightarrow> int list" where
  "adrs Null = []"
| "adrs (Node l x (a, c) r) = a # adrs l @ adrs r"

fun fadr :: "frame \<Rightarrow> int" where
  "fadr (Lft x a c r) = a"
| "fadr (Rgt l x a c) = a"

fun fcol :: "frame \<Rightarrow> ColorType" where
  "fcol (Lft x a c r) = c"
| "fcol (Rgt l x a c) = c"

fun fsib :: "frame \<Rightarrow> rbt" where
  "fsib (Lft x a c r) = r"
| "fsib (Rgt l x a c) = l"

fun hrep :: "int \<Rightarrow> rbheap \<Rightarrow> rbt \<Rightarrow> bool" where
  "hrep NN h Null = True"
| "hrep NN h (Node l x (a, c) r) \<longleftrightarrow>
    a \<noteq> 0 \<and> h a = Some \<lparr>rbElement = x, rbLeft = adr NN l, rbRight = adr NN r, rbColor = c\<rparr> \<and>
    hrep NN h l \<and> hrep NN h r"

fun fnode :: "int \<Rightarrow> frame \<Rightarrow> int \<Rightarrow> rbnode" where
  "fnode NN (Lft x a c r) p = \<lparr>rbElement = x, rbLeft = p, rbRight = adr NN r, rbColor = c\<rparr>"
| "fnode NN (Rgt l x a c) p = \<lparr>rbElement = x, rbLeft = adr NN l, rbRight = p, rbColor = c\<rparr>"

fun hctx :: "int \<Rightarrow> rbheap \<Rightarrow> frame list \<Rightarrow> int \<Rightarrow> bool" where
  "hctx NN h [] p = True"
| "hctx NN h (f # fs) p \<longleftrightarrow>
    fadr f \<noteq> 0 \<and> h (fadr f) = Some (fnode NN f p) \<and> hrep NN h (fsib f) \<and> hctx NN h fs (fadr f)"

fun cadrs :: "frame list \<Rightarrow> int list" where
  "cadrs [] = []"
| "cadrs (f # fs) = fadr f # adrs (fsib f) @ cadrs fs"

text \<open>The memory holds the sentinel, with element \<open>e\<close>, the tree and nothing else.\<close>

definition zipper :: "int \<Rightarrow> int \<Rightarrow> rbheap \<Rightarrow> frame list \<Rightarrow> rbt \<Rightarrow> bool" where
  "zipper e NN h fs t \<longleftrightarrow> hrep NN h t \<and> hctx NN h fs (adr NN t) \<and> distinct (NN # adrs t @ cadrs fs) \<and>
    NN \<noteq> 0 \<and> h NN = Some \<lparr>rbElement = e, rbLeft = NN, rbRight = NN, rbColor = Black\<rparr> \<and>
    dom h = insert NN (set (adrs t @ cadrs fs))"

lemma hrep_upd [simp]: "a \<notin> set (adrs t) \<Longrightarrow> hrep NN (h(a := n)) t = hrep NN h t"
  by (induction t rule: adrs.induct) auto

lemma hctx_upd [simp]: "a \<notin> set (cadrs fs) \<Longrightarrow> hctx NN (h(a := n)) fs p = hctx NN h fs p"
  by (induction fs arbitrary: p) auto

lemma adr_cases: "adr NN t = NN \<or> adr NN t \<in> set (adrs t)"
  by (cases t rule: adrs.cases) auto

lemma adr_plug [simp]: "adr NN (plug f t) = fadr f"
  by (cases f) auto

lemma plug_not_Null [simp]: "plug f t \<noteq> Null"
  by (cases f) auto

lemma zipper_plug: "zipper e NN h (f # fs) t \<longleftrightarrow> zipper e NN h fs (plug f t)"
  by (cases f) (auto simp: zipper_def)

lemma zipper_left: "zipper e NN h fs (Node l x (a, c) r) \<longleftrightarrow> zipper e NN h (Lft x a c r # fs) l"
  by (simp add: zipper_plug)

lemma zipper_right: "zipper e NN h fs (Node l x (a, c) r) \<longleftrightarrow> zipper e NN h (Rgt l x a c # fs) r"
  by (simp add: zipper_plug)

lemma zipper_rd:
  "zipper e NN h fs (Node l x (a, c) r) \<Longrightarrow>
    rd h a = Inr \<lparr>rbElement = x, rbLeft = adr NN l, rbRight = adr NN r, rbColor = c\<rparr>"
  by (simp add: zipper_def rd_ok)

lemma zipper_rd_Null: "zipper e NN h fs Null \<Longrightarrow> rd h NN = Inr \<lparr>rbElement = e, rbLeft = NN, rbRight = NN, rbColor = Black\<rparr>"
  by (simp add: zipper_def rd_ok)

lemma zipper_rd_frame: "zipper e NN h (f # fs) t \<Longrightarrow> rd h (fadr f) = Inr (fnode NN f (adr NN t))"
  by (simp add: zipper_def rd_ok)

text \<open>Painting the node at the zipper.\<close>

fun paint :: "ColorType \<Rightarrow> rbt \<Rightarrow> rbt" where
  "paint c Null = Null"
| "paint c (Node l x (a, _) r) = Node l x (a, c) r"

lemma adr_paint [simp]: "adr NN (paint c t) = adr NN t"
  by (cases t rule: adrs.cases) auto

lemma adrs_paint [simp]: "adrs (paint c t) = adrs t"
  by (cases t rule: adrs.cases) auto

lemma zipper_paint:
  assumes "zipper e NN h fs t" "t = Null \<Longrightarrow> c = Black"
  obtains h' where "wr h (adr NN t) (\<lambda>n. n\<lparr>rbColor := c\<rparr>) = Inr h'" "zipper e NN h' fs (paint c t)"
proof (cases t rule: adrs.cases)
  case 1
  then show ?thesis using assms by (intro that [of h]) (auto simp: zipper_def wr_ok)
next
  case (2 l x a c0 r)
  then show ?thesis using assms
    by (intro that [of "h(a \<mapsto> \<lparr>rbElement = x, rbLeft = adr NN l, rbRight = adr NN r, rbColor = c\<rparr>)"])
      (auto simp: zipper_def wr_ok)
qed

lemma zipper_paint_frame:
  assumes "zipper e NN h (f # fs) t" "fcol f = c"
  shows "wr h (fadr f) (\<lambda>n. n\<lparr>rbColor := c\<rparr>) = Inr h"
  using assms by (cases f) (auto simp: zipper_def wr_ok)

section \<open>The operations on zippers\<close>

text \<open>\<open>Item\<close> belongs into the hole.\<close>

fun toward :: "int \<Rightarrow> frame \<Rightarrow> bool" where
  "toward Item (Lft x a c r) \<longleftrightarrow> Item < x"
| "toward Item (Rgt l x a c) \<longleftrightarrow> x < Item"

lemma rotate_left_child:
  assumes "zipper e NN h fs (Node (Node a x (p, c) b) y (q, d) r)"
  obtains h' where "rb_SingleRotateWithLeft h q = Inr (h', p)"
    "\<And>f gs. fs = f # gs \<Longrightarrow> zipper e NN (h'(fadr f \<mapsto> fnode NN f p)) fs (Node a x (p, c) (Node b y (q, d) r))"
    "\<And>f gs. fs = f # gs \<Longrightarrow> h' (fadr f) = Some (fnode NN f q)"
proof -
  let ?h = "h(q \<mapsto> \<lparr>rbElement = y, rbLeft = adr NN b, rbRight = adr NN r, rbColor = d\<rparr>,
    p \<mapsto> \<lparr>rbElement = x, rbLeft = adr NN a, rbRight = q, rbColor = c\<rparr>)"
  have "rb_SingleRotateWithLeft h q = Inr (?h, p)"
    using assms by (auto simp: zipper_def rb_SingleRotateWithLeft_def rd_ok wr_ok Let_def)
  then show ?thesis
    by (rule that) (use assms in \<open>auto simp: zipper_def\<close>)
qed

lemma rotate_right_child:
  assumes "zipper e NN h fs (Node a x (p, c) (Node b y (q, d) r))"
  obtains h' where "rb_SingleRotateWithRight h p = Inr (h', q)"
    "\<And>f gs. fs = f # gs \<Longrightarrow> zipper e NN (h'(fadr f \<mapsto> fnode NN f q)) fs (Node (Node a x (p, c) b) y (q, d) r)"
    "\<And>f gs. fs = f # gs \<Longrightarrow> h' (fadr f) = Some (fnode NN f p)"
proof -
  let ?h = "h(p \<mapsto> \<lparr>rbElement = x, rbLeft = adr NN a, rbRight = adr NN b, rbColor = c\<rparr>,
    q \<mapsto> \<lparr>rbElement = y, rbLeft = p, rbRight = adr NN r, rbColor = d\<rparr>)"
  have "rb_SingleRotateWithRight h p = Inr (?h, q)"
    using assms by (auto simp: zipper_def rb_SingleRotateWithRight_def rd_ok wr_ok Let_def)
  then show ?thesis
    by (rule that) (use assms in \<open>auto simp: zipper_def\<close>)
qed

lemma Rotate_left:
  assumes z: "zipper e NN h (f # fs) (Node (Node a x (p, c) b) y (q, d) r)" and i: "toward Item f" "Item < y"
  obtains h' where "Rotate Item h (fadr f) = Inr (h', p)" "zipper e NN h' (f # fs) (Node a x (p, c) (Node b y (q, d) r))"
proof -
  from rotate_left_child [OF z] obtain h' where h': "rb_SingleRotateWithLeft h q = Inr (h', p)"
    "zipper e NN (h'(fadr f \<mapsto> fnode NN f p)) (f # fs) (Node a x (p, c) (Node b y (q, d) r))"
    "h' (fadr f) = Some (fnode NN f q)" by metis
  have "Rotate Item h (fadr f) = Inr (h'(fadr f \<mapsto> fnode NN f p), p)"
    using zipper_rd_frame [OF z] zipper_rd [OF z] i h'(1,3) z
    by (cases f) (auto simp: Rotate_def wr_ok zipper_def)
  from this h'(2) show ?thesis by (rule that)
qed

lemma Rotate_right:
  assumes z: "zipper e NN h (f # fs) (Node a x (p, c) (Node b y (q, d) r))" and i: "toward Item f" "\<not> Item < x"
  obtains h' where "Rotate Item h (fadr f) = Inr (h', q)" "zipper e NN h' (f # fs) (Node (Node a x (p, c) b) y (q, d) r)"
proof -
  from rotate_right_child [OF z] obtain h' where h': "rb_SingleRotateWithRight h p = Inr (h', q)"
    "zipper e NN (h'(fadr f \<mapsto> fnode NN f q)) (f # fs) (Node (Node a x (p, c) b) y (q, d) r)"
    "h' (fadr f) = Some (fnode NN f p)" by metis
  have "Rotate Item h (fadr f) = Inr (h'(fadr f \<mapsto> fnode NN f q), q)"
    using zipper_rd_frame [OF z] zipper_rd [OF z] i h'(1,3) z
    by (cases f) (auto simp: Rotate_def wr_ok zipper_def)
  from this h'(2) show ?thesis by (rule that)
qed

lemma color_flip_ok:
  assumes z: "zipper e NN h fs (Node l x (a, c) r)"
  obtains h' where "color_flip h a = Inr h'" "zipper e NN h' fs (Node (paint Black l) x (a, Red) (paint Black r))"
proof -
  from zipper_paint [OF z, of Red] obtain h1 where
    1: "wr h a (\<lambda>n. n\<lparr>rbColor := Red\<rparr>) = Inr h1" "zipper e NN h1 fs (Node l x (a, Red) r)" by auto
  from zipper_paint [OF 1(2) [unfolded zipper_left], of Black] obtain h2 where
    2: "wr h1 (adr NN l) (\<lambda>n. n\<lparr>rbColor := Black\<rparr>) = Inr h2" "zipper e NN h2 fs (Node (paint Black l) x (a, Red) r)"
    by (auto simp: zipper_left)
  from zipper_paint [OF 2(2) [unfolded zipper_right], of Black] obtain h3 where
    3: "wr h2 (adr NN r) (\<lambda>n. n\<lparr>rbColor := Black\<rparr>) = Inr h3"
      "zipper e NN h3 fs (Node (paint Black l) x (a, Red) (paint Black r))"
    by (auto simp: zipper_right)
  have "color_flip h a = Inr h3"
    using 1(1) 2(1) 3(1) zipper_rd [OF 1(2)] zipper_rd [OF 2(2)] by (simp add: color_flip_def)
  from this 3(2) show ?thesis by (rule that)
qed

text \<open>What the rotations make of the grandparent \<open>g\<close>, the parent \<open>f\<close> and the subtree at
  \<open>X\<close>, colours included.\<close>

fun rotated :: "frame \<Rightarrow> frame \<Rightarrow> rbt \<Rightarrow> rbt" where
  "rotated (Lft y q d u) (Lft x p c b) s = Node s x (p, Black) (Node b y (q, Red) u)"
| "rotated (Lft y q d u) (Rgt b x p c) (Node l z (a, k) r) =
    Node (Node b x (p, c) l) z (a, Black) (Node r y (q, Red) u)"
| "rotated (Rgt u y q d) (Rgt b x p c) s = Node (Node u y (q, Red) b) x (p, Black) s"
| "rotated (Rgt u y q d) (Lft x p c b) (Node l z (a, k) r) =
    Node (Node u y (q, Red) l) z (a, Black) (Node r x (p, c) b)"
| "rotated g f Null = Null"

lemma do_rotate_Lft:
  assumes z: "zipper e NN h (f # Lft gy q d u # k # fs) (Node l y (a, c) r)"
    and i: "toward Item f" "Item < gy" "toward Item k" and v: "vP v = fadr f" "vGP v = q" "vGGP v = fadr k"
  obtains h' v' where "do_rotate Item h v = Inr (h', v')" "vX v' = adr NN (rotated (Lft gy q d u) f (Node l y (a, c) r))"
    "zipper e NN h' (k # fs) (rotated (Lft gy q d u) f (Node l y (a, c) r))"
proof -
  let ?s = "Node l y (a, c) r"
  have "zipper e NN h (k # fs) (plug (Lft gy q d u) (plug f ?s))" using z by (simp add: zipper_plug)
  from zipper_paint [OF this, of Red] obtain h1 where
    1: "wr h q (\<lambda>n. n\<lparr>rbColor := Red\<rparr>) = Inr h1" "zipper e NN h1 (k # fs) (paint Red (plug (Lft gy q d u) (plug f ?s)))"
    by auto
  have rg: "rd h1 q = Inr \<lparr>rbElement = gy, rbLeft = fadr f, rbRight = adr NN u, rbColor = Red\<rparr>"
    using zipper_rd [of e NN h1 "k # fs" "plug f ?s" gy q Red u] 1(2) by simp
  show ?thesis
  proof (cases f)
    case f: (Lft x p pc b)
    have z1: "zipper e NN h1 (k # fs) (Node (Node ?s x (p, pc) b) gy (q, Red) u)" using 1(2) f by simp
    from Rotate_left [OF z1 i(3)] i(2) obtain h2 where
      2: "Rotate Item h1 (fadr k) = Inr (h2, p)" "zipper e NN h2 (k # fs) (Node ?s x (p, pc) (Node b gy (q, Red) u))" by auto
    from zipper_paint [OF 2(2), of Black] obtain h3 where
      3: "wr h2 p (\<lambda>n. n\<lparr>rbColor := Black\<rparr>) = Inr h3" "zipper e NN h3 (k # fs) (Node ?s x (p, Black) (Node b gy (q, Red) u))"
      by auto
    have "do_rotate Item h v = Inr (h3, v\<lparr>vX := p\<rparr>)"
      using 1(1) 2(1) 3(1) rg v i f zipper_rd [OF zipper_left [THEN iffD1, OF z1]] by (simp add: do_rotate_def)
    then show ?thesis by (rule that) (use 3(2) f in auto)
  next
    case f: (Rgt b x p pc)
    have z1: "zipper e NN h1 (Lft gy q Red u # k # fs) (Node b x (p, pc) ?s)" using 1(2) f by (simp add: zipper_plug)
    from Rotate_right [OF z1, of Item] i f obtain h2 where
      2: "Rotate Item h1 q = Inr (h2, a)" "zipper e NN h2 (Lft gy q Red u # k # fs) (Node (Node b x (p, pc) l) y (a, c) r)" by auto
    have z2: "zipper e NN h2 (k # fs) (Node (Node (Node b x (p, pc) l) y (a, c) r) gy (q, Red) u)"
      using 2(2) by (simp add: zipper_plug)
    from Rotate_left [OF z2 i(3)] i(2) obtain h3 where
      3: "Rotate Item h2 (fadr k) = Inr (h3, a)"
         "zipper e NN h3 (k # fs) (Node (Node b x (p, pc) l) y (a, c) (Node r gy (q, Red) u))" by auto
    from zipper_paint [OF 3(2), of Black] obtain h4 where
      4: "wr h3 a (\<lambda>n. n\<lparr>rbColor := Black\<rparr>) = Inr h4"
         "zipper e NN h4 (k # fs) (Node (Node b x (p, pc) l) y (a, Black) (Node r gy (q, Red) u))" by auto
    have "do_rotate Item h v = Inr (h4, v\<lparr>vP := a, vX := a\<rparr>)"
      using 1(1) 2(1) 3(1) 4(1) rg v i f zipper_rd [OF z1] by (simp add: do_rotate_def)
    then show ?thesis by (rule that) (use 4(2) f in auto)
  qed
qed

lemma do_rotate_Rgt:
  assumes z: "zipper e NN h (f # Rgt u gy q d # k # fs) (Node l y (a, c) r)"
    and i: "toward Item f" "gy < Item" "toward Item k" and v: "vP v = fadr f" "vGP v = q" "vGGP v = fadr k"
  obtains h' v' where "do_rotate Item h v = Inr (h', v')" "vX v' = adr NN (rotated (Rgt u gy q d) f (Node l y (a, c) r))"
    "zipper e NN h' (k # fs) (rotated (Rgt u gy q d) f (Node l y (a, c) r))"
proof -
  let ?s = "Node l y (a, c) r"
  have "zipper e NN h (k # fs) (plug (Rgt u gy q d) (plug f ?s))" using z by (simp add: zipper_plug)
  from zipper_paint [OF this, of Red] obtain h1 where
    1: "wr h q (\<lambda>n. n\<lparr>rbColor := Red\<rparr>) = Inr h1" "zipper e NN h1 (k # fs) (paint Red (plug (Rgt u gy q d) (plug f ?s)))"
    by auto
  have rg: "rd h1 q = Inr \<lparr>rbElement = gy, rbLeft = adr NN u, rbRight = fadr f, rbColor = Red\<rparr>"
    using zipper_rd [of e NN h1 "k # fs" u gy q Red "plug f ?s"] 1(2) by simp
  show ?thesis
  proof (cases f)
    case f: (Rgt b x p pc)
    have z1: "zipper e NN h1 (k # fs) (Node u gy (q, Red) (Node b x (p, pc) ?s))" using 1(2) f by simp
    from Rotate_right [OF z1 i(3)] i(2) obtain h2 where
      2: "Rotate Item h1 (fadr k) = Inr (h2, p)" "zipper e NN h2 (k # fs) (Node (Node u gy (q, Red) b) x (p, pc) ?s)" by auto
    from zipper_paint [OF 2(2), of Black] obtain h3 where
      3: "wr h2 p (\<lambda>n. n\<lparr>rbColor := Black\<rparr>) = Inr h3" "zipper e NN h3 (k # fs) (Node (Node u gy (q, Red) b) x (p, Black) ?s)"
      by auto
    have "do_rotate Item h v = Inr (h3, v\<lparr>vX := p\<rparr>)"
      using 1(1) 2(1) 3(1) rg v i f zipper_rd [OF zipper_right [THEN iffD1, OF z1]] by (simp add: do_rotate_def)
    then show ?thesis by (rule that) (use 3(2) f in auto)
  next
    case f: (Lft x p pc b)
    have z1: "zipper e NN h1 (Rgt u gy q Red # k # fs) (Node ?s x (p, pc) b)" using 1(2) f by (simp add: zipper_plug)
    from Rotate_left [OF z1, of Item] i f obtain h2 where
      2: "Rotate Item h1 q = Inr (h2, a)" "zipper e NN h2 (Rgt u gy q Red # k # fs) (Node l y (a, c) (Node r x (p, pc) b))" by auto
    have z2: "zipper e NN h2 (k # fs) (Node u gy (q, Red) (Node l y (a, c) (Node r x (p, pc) b)))"
      using 2(2) by (simp add: zipper_plug)
    from Rotate_right [OF z2 i(3)] i(2) obtain h3 where
      3: "Rotate Item h2 (fadr k) = Inr (h3, a)"
         "zipper e NN h3 (k # fs) (Node (Node u gy (q, Red) l) y (a, c) (Node r x (p, pc) b))" by auto
    from zipper_paint [OF 3(2), of Black] obtain h4 where
      4: "wr h3 a (\<lambda>n. n\<lparr>rbColor := Black\<rparr>) = Inr h4"
         "zipper e NN h4 (k # fs) (Node (Node u gy (q, Red) l) y (a, Black) (Node r x (p, pc) b))" by auto
    have "do_rotate Item h v = Inr (h4, v\<lparr>vP := a, vX := a\<rparr>)"
      using 1(1) 2(1) 3(1) 4(1) rg v i f zipper_rd [OF z1] by (simp add: do_rotate_def)
    then show ?thesis by (rule that) (use 4(2) f in auto)
  qed
qed

lemma do_rotate_ok:
  assumes "zipper e NN h (f # g # k # fs) (Node l y (a, c) r)" "toward Item f" "toward Item g" "toward Item k"
    "vP v = fadr f" "vGP v = fadr g" "vGGP v = fadr k"
  obtains h' v' where "do_rotate Item h v = Inr (h', v')" "vX v' = adr NN (rotated g f (Node l y (a, c) r))"
    "zipper e NN h' (k # fs) (rotated g f (Node l y (a, c) r))"
proof (cases g)
  case (Lft gy q d u)
  then show ?thesis using do_rotate_Lft [of e NN h f gy q d u k fs l y a c r Item v] assms that by auto
next
  case (Rgt u gy q d)
  then show ?thesis using do_rotate_Rgt [of e NN h f u gy q d k fs l y a c r Item v] assms that by auto
qed

text \<open>\<open>HandleReorient\<close> on zippers; the last frame is the header.\<close>

lemma hctx_header:
  "hctx NN h (gs @ [Rgt l x T c]) p \<Longrightarrow>
    T \<noteq> 0 \<and> h T = Some \<lparr>rbElement = x, rbLeft = adr NN l, rbRight = (if gs = [] then p else fadr (last gs)), rbColor = c\<rparr>"
proof (induction gs arbitrary: p)
  case (Cons f gs)
  then have "hctx NN h (gs @ [Rgt l x T c]) (fadr f)" by simp
  from Cons.IH [OF this] show ?case by simp
qed simp

lemma hctx_root:
  "hctx NN h (gs @ fs) p \<Longrightarrow> gs \<noteq> [] \<Longrightarrow>
    fadr (last gs) \<noteq> 0 \<and> (\<exists>n. h (fadr (last gs)) = Some n \<and> rbColor n = fcol (last gs))"
proof (induction gs arbitrary: p)
  case (Cons f gs)
  then show ?case by (cases f) auto
qed simp

lemma root_black_frame:
  assumes "zipper e NN h (gs @ [Rgt l x T c]) t" "gs \<noteq> []" "fcol (last gs) = Black"
  shows "root_black h T = Inr h"
proof -
  have z: "hctx NN h (gs @ [Rgt l x T c]) (adr NN t)" using assms(1) by (simp add: zipper_def)
  obtain n where "h (fadr (last gs)) = Some n" "rbColor n = Black" "fadr (last gs) \<noteq> 0"
    using hctx_root [OF z assms(2)] assms(3) by auto
  moreover from this have "h(fadr (last gs) \<mapsto> n\<lparr>rbColor := Black\<rparr>) = h" by (auto simp: fun_upd_idem)
  ultimately show ?thesis using hctx_header [OF z] assms(2) by (simp add: root_black_def rd_ok wr_ok)
qed

lemma root_black_tree:
  assumes "zipper e NN h [Rgt l x T c] t"
  obtains h' where "root_black h T = Inr h'" "zipper e NN h' [Rgt l x T c] (paint Black t)"
proof -
  from zipper_paint [OF assms, of Black] obtain h' where
    "wr h (adr NN t) (\<lambda>n. n\<lparr>rbColor := Black\<rparr>) = Inr h'" "zipper e NN h' [Rgt l x T c] (paint Black t)" by auto
  then show ?thesis using zipper_rd_frame [OF assms] by (intro that [of h']) (simp_all add: root_black_def)
qed

fun reor :: "frame list \<Rightarrow> rbt \<Rightarrow> frame list \<times> rbt" where
  "reor (f # g # fs) s = (if fcol f = Red then (fs, rotated g f s) else (f # g # fs, s))"
| "reor fs s = (fs, paint Black s)"

definition flip :: "rbt \<Rightarrow> rbt" where
  "flip s = (case s of Null \<Rightarrow> Null | Node l x i r \<Rightarrow> Node (paint Black l) x (fst i, Red) (paint Black r))"

lemma paint_rotated [simp]: "paint Black (rotated g f s) = rotated g f s"
  by (cases "(g, f, s)" rule: rotated.cases) auto

lemma adr_flip [simp]: "adr NN (flip s) = adr NN s"
  by (cases s rule: adrs.cases) (auto simp: flip_def)

text \<open>The pointers \<open>GP\<close> and \<open>GGP\<close> have to be right only if \<open>P\<close> is red.\<close>

definition hdr :: "frame list \<Rightarrow> int \<Rightarrow> bool" where
  "hdr fs T \<longleftrightarrow> (\<exists>gs. fs = gs @ [Rgt Null rb_NegInfinity T Black] \<and> (gs \<noteq> [] \<longrightarrow> fcol (last gs) = Black))"

lemma hdr_Cons: "fs \<noteq> [] \<Longrightarrow> hdr (f # fs) T \<longleftrightarrow> hdr fs T \<and> (length fs = 1 \<longrightarrow> fcol f = Black)"
proof (cases fs rule: rev_cases)
  case (snoc gs g)
  then show ?thesis by (cases gs rule: rev_cases) (auto simp: hdr_def Cons_eq_append_conv)
qed simp

lemma HandleReorient_red:
  assumes z: "zipper e NN h (f # g # k # fs) (Node l x (a, c) r)" and t: "hdr (f # g # k # fs) T" "fcol f = Red"
    and i: "toward Item f" "toward Item g" "toward Item k"
    and v: "vX v = a" "vP v = fadr f" "vGP v = fadr g" "vGGP v = fadr k"
  obtains h' v' where "HandleReorient Item T h v = Inr (h', v')"
    "vX v' = adr NN (rotated g f (flip (Node l x (a, c) r)))"
    "zipper e NN h' (k # fs) (rotated g f (flip (Node l x (a, c) r)))"
proof -
  let ?s = "flip (Node l x (a, c) r)"
  from color_flip_ok [OF z] obtain h1 where 1: "color_flip h a = Inr h1" "zipper e NN h1 (f # g # k # fs) ?s"
    by (auto simp: flip_def)
  from do_rotate_ok [OF 1(2) [unfolded flip_def bt.case fst_conv] i v(2,3,4)] obtain h2 v2 where
    2: "do_rotate Item h1 v = Inr (h2, v2)" "vX v2 = adr NN (rotated g f ?s)" "zipper e NN h2 (k # fs) (rotated g f ?s)"
    by (auto simp: flip_def)
  have "hdr (k # fs) T" using t(1) by (simp add: hdr_Cons)
  then obtain gs where gs: "k # fs = gs @ [Rgt Null rb_NegInfinity T Black]" "gs \<noteq> [] \<longrightarrow> fcol (last gs) = Black"
    by (auto simp: hdr_def)
  obtain h3 where 3: "root_black h2 T = Inr h3" "zipper e NN h3 (k # fs) (rotated g f ?s)"
  proof (cases "gs = []")
    case True
    with 2(3) gs(1) show ?thesis
      using root_black_tree [of e NN h2 Null rb_NegInfinity T Black "rotated g f ?s"] that by auto
  next
    case False
    with 2(3) gs show ?thesis using root_black_frame [of e NN h2 gs] that by auto
  qed
  have "rd h1 (vP v) = Inr (fnode NN f (adr NN ?s))" using zipper_rd_frame [OF 1(2)] v(2) by simp
  then have "HandleReorient Item T h v = Inr (h3, v2)"
    using 1(1) 2(1) 3(1) v(1) t(2) by (cases f) (auto simp: HandleReorient_def)
  then show ?thesis by (rule that) (use 2(2) 3(2) in auto)
qed

lemma HandleReorient_black:
  assumes z: "zipper e NN h (f # fs) (Node l x (a, c) r)" and t: "hdr (f # fs) T" "fcol f = Black"
    and v: "vX v = a" "vP v = fadr f"
  obtains h' where "HandleReorient Item T h v = Inr (h', v)"
    "zipper e NN h' (fst (reor (f # fs) (flip (Node l x (a, c) r)))) (snd (reor (f # fs) (flip (Node l x (a, c) r))))"
proof -
  let ?s = "flip (Node l x (a, c) r)"
  from color_flip_ok [OF z] obtain h1 where 1: "color_flip h a = Inr h1" "zipper e NN h1 (f # fs) ?s"
    by (auto simp: flip_def)
  obtain gs where gs: "f # fs = gs @ [Rgt Null rb_NegInfinity T Black]" "gs \<noteq> [] \<longrightarrow> fcol (last gs) = Black"
    using t(1) by (auto simp: hdr_def)
  obtain h2 where 2: "root_black h1 T = Inr h2" "zipper e NN h2 (fst (reor (f # fs) ?s)) (snd (reor (f # fs) ?s))"
  proof (cases "gs = []")
    case True
    with 1(2) gs(1) show ?thesis
      using root_black_tree [of e NN h1 Null rb_NegInfinity T Black ?s] that by auto
  next
    case False
    then obtain g gs' where "fs = g # gs'" using gs(1) by (cases fs) (auto simp: Cons_eq_append_conv)
    then have "reor (f # fs) ?s = (f # fs, ?s)" using t(2) by simp
    moreover have "root_black h1 T = Inr h1" using root_black_frame [of e NN h1 gs] 1(2) gs False by simp
    ultimately show ?thesis using 1(2) by (intro that [of h1]) simp_all
  qed
  have "rd h1 (vP v) = Inr (fnode NN f (adr NN ?s))" using zipper_rd_frame [OF 1(2)] v(2) by simp
  then have "HandleReorient Item T h v = Inr (h2, v)"
    using 1(1) 2(1) v(1) t(2) by (cases f) (auto simp: HandleReorient_def)
  then show ?thesis by (rule that) (rule 2(2))
qed

section \<open>Red-black trees\<close>

fun red :: "rbt \<Rightarrow> bool" where
  "red Null \<longleftrightarrow> False"
| "red (Node l x (a, c) r) \<longleftrightarrow> c = Red"

text \<open>\<open>bal n t\<close>: no red node has a red child, and every path has \<open>n\<close> black nodes.\<close>

fun bal :: "nat \<Rightarrow> rbt \<Rightarrow> bool" where
  "bal n Null \<longleftrightarrow> n = 0"
| "bal n (Node l x (a, c) r) \<longleftrightarrow>
    (if c = Red then bal n l \<and> bal n r \<and> \<not> red l \<and> \<not> red r
     else case n of 0 \<Rightarrow> False | Suc m \<Rightarrow> bal m l \<and> bal m r)"

text \<open>The same for the frames around a subtree of black height \<open>n\<close>; below the header and below
  a red node the subtree has to be black.\<close>

definition mayred :: "frame list \<Rightarrow> bool" where
  "mayred fs \<longleftrightarrow> tl fs \<noteq> [] \<and> fcol (hd fs) = Black"

fun cok :: "nat \<Rightarrow> frame list \<Rightarrow> bool" where
  "cok n (f # g # fs) \<longleftrightarrow> bal n (fsib f) \<and>
    (if fcol f = Red then \<not> red (fsib f) \<and> mayred (g # fs) \<and> cok n (g # fs) else cok (Suc n) (g # fs))"
| "cok n fs \<longleftrightarrow> fs \<noteq> []"

definition rbz :: "int \<Rightarrow> frame list \<Rightarrow> rbt \<Rightarrow> bool" where
  "rbz T fs s \<longleftrightarrow> hdr fs T \<and> (\<exists>n. bal n s \<and> cok n fs) \<and> (red s \<longrightarrow> mayred fs)"

fun calm :: "rbt \<Rightarrow> bool" where
  "calm Null \<longleftrightarrow> False"
| "calm (Node l x (a, c) r) \<longleftrightarrow> c = Black \<and> \<not> red l \<and> \<not> red r"

fun child :: "int \<Rightarrow> rbt \<Rightarrow> rbt" where
  "child Item Null = Null"
| "child Item (Node l x i r) = (if Item < x then l else r)"

fun two_red :: "rbt \<Rightarrow> bool" where
  "two_red Null \<longleftrightarrow> False"
| "two_red (Node l x i r) \<longleftrightarrow> red l \<and> red r"

fun path_len :: "int \<Rightarrow> rbt \<Rightarrow> nat" where
  "path_len Item Null = 0"
| "path_len Item (Node l x i r) = (if Item = x then 0 else Suc (path_len Item (if Item < x then l else r)))"

lemma not_red_bal: "\<not> red t \<Longrightarrow> bal n t \<Longrightarrow> t \<noteq> Null \<Longrightarrow> \<exists>l x a r. t = Node l x (a, Black) r"
  by (cases t rule: adrs.cases) (auto intro: ColorType.exhaust)

lemma color_cases: "c \<noteq> Red \<longleftrightarrow> c = Black"
  by (cases c) auto

lemma redE: "red t \<Longrightarrow> (\<And>l x a r. t = Node l x (a, Red) r \<Longrightarrow> P) \<Longrightarrow> P"
  by (cases t rule: red.cases) auto

lemma path_len_paint [simp]: "path_len Item (paint c t) = path_len Item t"
  by (cases t rule: adrs.cases) auto

lemma inorder_paint [simp]: "inorder (paint c t) = inorder t"
  by (cases t rule: adrs.cases) auto

lemma red_paint_Black [simp]: "\<not> red (paint Black t)"
  by (cases t rule: adrs.cases) auto

lemma flip_facts:
  assumes "two_red s" "bal n s"
  shows "bal n (flip s)" "red (flip s)" "calm (child Item (flip s))" "inorder (flip s) = inorder s"
    "path_len Item (flip s) = path_len Item s" "\<not> two_red (flip s)" "flip s \<noteq> Null"
    "bal (Suc n) (paint Black (flip s))" "calm (child Item (paint Black (flip s)))" "\<not> two_red (paint Black (flip s))"
    "path_len Item (paint Black (flip s)) = path_len Item s"
proof -
  from assms(1) obtain l x i r where s: "s = Node l x i r" "red l" "red r" by (cases s) auto
  obtain a c where i: "i = (a, c)" by (cases i)
  from s obtain l1 y b l2 r1 z d r2 where lr: "l = Node l1 y (b, Red) l2" "r = Node r1 z (d, Red) r2"
    by (auto elim!: redE)
  have c: "c = Black" using assms(2) s(1,2) i by (cases c) simp_all
  obtain m where m: "n = Suc m" using assms(2) s i c by (cases n) auto
  have b: "bal m l1" "bal m l2" "\<not> red l1" "\<not> red l2" "bal m r1" "bal m r2" "\<not> red r1" "\<not> red r2"
    using assms(2) s i lr c m by simp_all
  have e: "s = Node (Node l1 y (b, Red) l2) x (a, Black) (Node r1 z (d, Red) r2)"
    "flip s = Node (Node l1 y (b, Black) l2) x (a, Red) (Node r1 z (d, Black) r2)"
    using s i lr c by (simp_all add: flip_def)
  show "bal n (flip s)" "red (flip s)" "calm (child Item (flip s))" "inorder (flip s) = inorder s"
    "path_len Item (flip s) = path_len Item s" "\<not> two_red (flip s)" "flip s \<noteq> Null"
    "bal (Suc n) (paint Black (flip s))" "calm (child Item (paint Black (flip s)))" "\<not> two_red (paint Black (flip s))"
    "path_len Item (paint Black (flip s)) = path_len Item s"
    unfolding e(2) using b m by (simp_all add: e(1))
qed

lemma cok_red:
  assumes "cok n (f # fs)" "fcol f = Red" "hdr (f # fs) T"
  obtains g k fs' where "fs = g # k # fs'" "fcol g = Black" "bal n (fsib f)" "\<not> red (fsib f)"
    "bal n (fsib g)" "cok (Suc n) (k # fs')"
proof -
  have "fs \<noteq> []" using assms(2,3) by (auto simp: hdr_def)
  then obtain g fs1 where 1: "fs = g # fs1" by (cases fs) auto
  then have g: "fcol g = Black" "fs1 \<noteq> []" using assms(1,2) by (auto simp: mayred_def)
  then obtain k fs2 where "fs1 = k # fs2" by (cases fs1) auto
  then show ?thesis using assms(1,2) 1 g by (intro that [of g k fs2]) auto
qed

lemma rotated_facts:
  assumes "bal n s" "red s" "fcol f = Red" "bal n (fsib f)" "\<not> red (fsib f)" "bal n (fsib g)" "\<not> red (fsib g)"
  shows "bal (Suc n) (rotated g f s)" "\<not> red (rotated g f s)" "inorder (rotated g f s) = inorder (plug g (plug f s))"
    "rotated g f s \<noteq> Null"
proof -
  from assms(2) obtain l x a r where s: "s = Node l x (a, Red) r" by (auto elim: redE)
  show "bal (Suc n) (rotated g f s)" "\<not> red (rotated g f s)" "inorder (rotated g f s) = inorder (plug g (plug f s))"
    "rotated g f s \<noteq> Null"
    using assms s by (cases f; cases g; auto)+
qed

lemma rotated_path:
  assumes "s = Node l x (a, Red) r" "calm l" "calm r" "toward Item f" "toward Item g" "fcol f = Red"
  shows "rotated g f s = Node l' x' i r' \<Longrightarrow> x' \<noteq> Item \<Longrightarrow>
    red (child Item (rotated g f s)) \<and> calm (child Item (child Item (rotated g f s))) \<and>
    path_len Item (child Item (rotated g f s)) \<le> path_len Item s"
  using assms by (cases f; cases g) auto

lemma whole_inorder: "inorder s = inorder t \<Longrightarrow> inorder (whole fs s) = inorder (whole fs t)"
proof (induction fs arbitrary: s t)
  case (Cons f fs)
  have "inorder (plug f s) = inorder (plug f t)" using Cons.prems by (cases f) auto
  from Cons.IH [OF this] show ?case by simp
qed simp

section \<open>The loop of \<open>Insert\<close>\<close>

definition zb :: "int \<Rightarrow> int \<Rightarrow> int \<Rightarrow> int list \<Rightarrow> rbheap \<Rightarrow> frame list \<Rightarrow> rbt \<Rightarrow> bool" where
  "zb Item NN T xs h fs s \<longleftrightarrow> zipper Item NN h fs s \<and> (\<forall>f \<in> set fs. toward Item f) \<and> rbz T fs s \<and>
    inorder (whole fs s) = xs"

text \<open>A variable points to the \<open>k\<close>-th node above the zipper.\<close>

definition acc :: "int \<Rightarrow> frame list \<Rightarrow> nat \<Rightarrow> bool" where
  "acc p fs k \<longleftrightarrow> (k < length fs \<longrightarrow> p = fadr (fs ! k))"

definition uncle_ok :: "frame list \<Rightarrow> bool" where
  "uncle_ok fs \<longleftrightarrow> (fcol (hd fs) = Red \<longrightarrow> \<not> red (fsib (fs ! 1)))"

text \<open>Just after the step down, before the test for two red children. If the subtree is calm, no
  rotation follows, and \<open>GGP\<close> may be wrong.\<close>

definition arrived :: "int \<Rightarrow> frame list \<Rightarrow> rbt \<Rightarrow> rbvars \<Rightarrow> bool" where
  "arrived NN fs s v \<longleftrightarrow> vX v = adr NN s \<and> acc (vP v) fs 0 \<and> acc (vGP v) fs 1 \<and>
    \<not> (red s \<and> red (fsib (hd fs))) \<and> (calm s \<or> acc (vGGP v) fs 2 \<and> uncle_ok fs)"

text \<open>At the head of the loop.\<close>

definition ready :: "int \<Rightarrow> int \<Rightarrow> frame list \<Rightarrow> rbt \<Rightarrow> rbvars \<Rightarrow> bool" where
  "ready Item NN fs s v \<longleftrightarrow> vX v = adr NN s \<and> acc (vP v) fs 0 \<and> \<not> two_red s \<and>
    (calm (child Item s) \<or> acc (vGP v) fs 1 \<and> \<not> (red s \<and> red (fsib (hd fs))) \<and>
       (s = Null \<longrightarrow> acc (vGGP v) fs 2 \<and> uncle_ok fs))"

text \<open>After a rotation, with \<open>X\<close> at the top of the rotated nodes.\<close>

definition turned :: "int \<Rightarrow> int \<Rightarrow> rbt \<Rightarrow> rbvars \<Rightarrow> bool" where
  "turned Item NN s v \<longleftrightarrow> vX v = adr NN s \<and> (\<exists>l x i r. s = Node l x i r \<and>
    (x \<noteq> Item \<longrightarrow> red (child Item s) \<and> calm (child Item (child Item s))))"

fun step_frame :: "int \<Rightarrow> rbt \<Rightarrow> frame" where
  "step_frame Item (Node l x (a, c) r) = (if Item < x then Lft x a c r else Rgt l x a c)"
| "step_frame Item Null = Lft 0 0 Black Null"

lemma step_frame_plug: "s \<noteq> Null \<Longrightarrow> plug (step_frame Item s) (child Item s) = s"
  by (cases s rule: adrs.cases) auto

lemma zb_step:
  assumes z: "zb Item NN T xs h fs (Node l x (a, c) r)" and x: "x \<noteq> Item" and ne: "fs \<noteq> []"
  shows "zb Item NN T xs h (step_frame Item (Node l x (a, c) r) # fs) (child Item (Node l x (a, c) r))"
proof -
  let ?s = "Node l x (a, c) r" let ?f = "step_frame Item ?s" let ?t = "child Item ?s"
  have zz: "zipper Item NN h (?f # fs) ?t" using z by (simp add: zb_def zipper_plug)
  have tw: "\<forall>f \<in> set (?f # fs). toward Item f" using z x by (auto simp: zb_def)
  obtain n where n: "bal n ?s" "cok n fs" "hdr fs T" "c = Red \<longrightarrow> mayred fs" using z by (auto simp: zb_def rbz_def)
  obtain g gs where g: "fs = g # gs" using ne by (cases fs) auto
  have c: "fcol ?f = c" by simp
  have "length fs = 1 \<longrightarrow> c = Black" using n(4) g by (cases c) (auto simp: mayred_def)
  then have h: "hdr (?f # fs) T" using n(3) ne c by (simp add: hdr_Cons)
  have "\<exists>m. bal m ?t \<and> cok m (?f # fs) \<and> (red ?t \<longrightarrow> c = Black)"
  proof (cases c)
    case Red
    then show ?thesis using n g by (intro exI [of _ n]) auto
  next
    case Black
    then obtain m where "n = Suc m" using n(1) by (cases n) auto
    then show ?thesis using n(1,2) g Black by (intro exI [of _ m]) auto
  qed
  then have "rbz T (?f # fs) ?t" using h ne c by (auto simp: rbz_def mayred_def)
  moreover have "inorder (whole (?f # fs) ?t) = xs" using z by (simp add: zb_def)
  ultimately show ?thesis using zz tw by (simp add: zb_def)
qed

lemma adr_child: "(if Item < x then adr NN l else adr NN r) = adr NN (child Item (Node l x i r))"
  by simp

lemma insert_move_ok:
  assumes z: "zb Item NN T xs h fs (Node l x (a, c) r)" and r: "ready Item NN fs (Node l x (a, c) r) v"
  shows "arrived NN (step_frame Item (Node l x (a, c) r) # fs) (child Item (Node l x (a, c) r))
    (insert_move Item \<lparr>rbElement = x, rbLeft = adr NN l, rbRight = adr NN r, rbColor = c\<rparr> v)"
proof -
  have "hdr fs T" using z by (simp add: zb_def rbz_def)
  then have "fs \<noteq> []" by (auto simp: hdr_def)
  then show ?thesis using r
    by (auto simp: ready_def arrived_def insert_move_def acc_def uncle_ok_def hd_conv_nth nth_Cons' less_Suc_eq)
qed

lemma zipper_color:
  assumes "zipper e NN h fs t"
  obtains n where "rd h (adr NN t) = Inr n" "rbColor n = Red \<longleftrightarrow> red t"
proof (cases t rule: red.cases)
  case 1
  then show ?thesis using zipper_rd_Null that assms by fastforce
next
  case (2 l x a c r)
  then show ?thesis using zipper_rd that assms by fastforce
qed

lemma both_red_ok:
  assumes z: "zipper e NN h fs s"
  shows "both_red h (adr NN s) = Inr (two_red s)"
proof (cases s rule: red.cases)
  case 1
  then show ?thesis using zipper_rd_Null z by (fastforce simp: both_red_def)
next
  case s: (2 l x a c r)
  have z': "zipper e NN h fs (Node l x (a, c) r)" using z s by simp
  obtain n where "rd h (adr NN l) = Inr n" "rbColor n = Red \<longleftrightarrow> red l"
    using zipper_color [OF zipper_left [THEN iffD1, OF z']] .
  moreover obtain m where "rd h (adr NN r) = Inr m" "rbColor m = Red \<longleftrightarrow> red r"
    using zipper_color [OF zipper_right [THEN iffD1, OF z']] .
  ultimately show ?thesis using zipper_rd [OF z'] s by (auto simp: both_red_def)
qed

lemma insert_check_plain:
  assumes "zb Item NN T xs h fs s" "vX v = adr NN s" "\<not> two_red s"
  shows "insert_check Item T h v = Inr (h, v)"
  using both_red_ok [of Item NN h fs s] assms by (simp add: zb_def insert_check_def)

lemma arrived_ready: "arrived NN fs s v \<Longrightarrow> \<not> two_red s \<Longrightarrow> ready Item NN fs s v"
  by (auto simp: arrived_def ready_def)

lemma two_red_not_calm: "two_red s \<Longrightarrow> \<not> calm s"
  by (cases s rule: red.cases) auto

lemma insert_check_black:
  assumes z: "zb Item NN T xs h (f # fs) s" and a: "arrived NN (f # fs) s v" and r: "two_red s" and b: "fcol f = Black"
  obtains h' s' where "insert_check Item T h v = Inr (h', v)" "zb Item NN T xs h' (f # fs) s'"
    "ready Item NN (f # fs) s' v" "path_len Item s' = path_len Item s"
proof -
  obtain l x p c t where s: "s = Node l x (p, c) t" using r by (cases s rule: red.cases) auto
  obtain n where n: "bal n s" "cok n (f # fs)" "hdr (f # fs) T" using z by (auto simp: zb_def rbz_def)
  have v: "vX v = p" "vP v = fadr f" using a s by (auto simp: arrived_def acc_def)
  from HandleReorient_black [of Item NN h f fs l x p c t T v Item] z n(3) b v s obtain h' where
    h': "HandleReorient Item T h v = Inr (h', v)" "zipper Item NN h' (fst (reor (f # fs) (flip s))) (snd (reor (f # fs) (flip s)))"
    by (auto simp: zb_def)
  define s' where "s' = snd (reor (f # fs) (flip s))"
  have re: "reor (f # fs) (flip s) = (f # fs, s')" using b by (cases fs) (auto simp: s'_def)
  have s': "s' = (if fs = [] then paint Black (flip s) else flip s)" using b by (cases fs) (auto simp: s'_def)
  note ff = flip_facts [OF r n(1)]
  have "\<exists>m. bal m s' \<and> cok m (f # fs)" using ff(1,8) n(2) s' by (cases fs) auto
  moreover have "red s' \<longrightarrow> mayred (f # fs)" using s' b by (auto simp: mayred_def)
  moreover have "inorder (whole (f # fs) s') = xs"
    using z whole_inorder [of s' s "f # fs"] ff(4) s' by (simp add: zb_def)
  ultimately have zb: "zb Item NN T xs h' (f # fs) s'" using z h'(2) n(3) by (simp add: zb_def rbz_def re)
  moreover have "insert_check Item T h v = Inr (h', v)"
    using both_red_ok [of Item NN h "f # fs" s] z a r h'(1) by (simp add: insert_check_def zb_def arrived_def)
  moreover have "ready Item NN (f # fs) s' v"
    using ff(3,6,9,10) s' v s by (auto simp: ready_def acc_def)
  moreover have "path_len Item s' = path_len Item s" using ff(5,11) s' by auto
  ultimately show ?thesis by (intro that)
qed

lemma insert_check_red:
  assumes z: "zb Item NN T xs h (f # fs) s" and a: "arrived NN (f # fs) s v" and r: "two_red s" and b: "fcol f = Red"
  obtains h' v' fs' s' where "insert_check Item T h v = Inr (h', v')" "zb Item NN T xs h' fs' s'"
    "turned Item NN s' v'" "\<forall>l x i r. s' = Node l x i r \<and> x \<noteq> Item \<longrightarrow> path_len Item (child Item s') \<le> path_len Item s"
proof -
  obtain l x p c t where s: "s = Node l x (p, c) t" using r by (cases s rule: red.cases) auto
  obtain n where n: "bal n s" "cok n (f # fs)" "hdr (f # fs) T" using z by (auto simp: zb_def rbz_def)
  from cok_red [OF n(2) b n(3)] obtain g k fs' where g: "fs = g # k # fs'" "fcol g = Black"
    "bal n (fsib f)" "\<not> red (fsib f)" "bal n (fsib g)" "cok (Suc n) (k # fs')" .
  have v: "vX v = p" "vP v = fadr f" "vGP v = fadr g" "vGGP v = fadr k" and u: "\<not> red (fsib g)"
    using a s g(1) b two_red_not_calm [OF r] by (auto simp: arrived_def acc_def uncle_ok_def nth_Cons')
  have tw: "toward Item f" "toward Item g" "toward Item k" "\<forall>f \<in> set (k # fs'). toward Item f"
    using z g(1) by (auto simp: zb_def)
  have zz: "zipper Item NN h (f # g # k # fs') (Node l x (p, c) t)" using z g(1) s by (simp add: zb_def)
  from HandleReorient_red [OF zz n(3) [unfolded g(1)] b tw(1,2,3) v] obtain h' v' where
    h': "HandleReorient Item T h v = Inr (h', v')" "vX v' = adr NN (rotated g f (flip s))"
      "zipper Item NN h' (k # fs') (rotated g f (flip s))" using s by auto
  note ff = flip_facts [OF r n(1)]
  note rf = rotated_facts [OF ff(1,2) b g(3,4,5) u]
  obtain l1 y q t1 where fl: "flip s = Node l1 y (q, Red) t1" using ff(2) by (auto elim: redE)
  have cl: "calm l1" "calm t1" using flip_facts(3) [OF r n(1), of "y - 1"] flip_facts(3) [OF r n(1), of y] fl by auto
  have "hdr (k # fs') T" using n(3) g(1) by (simp add: hdr_Cons)
  moreover have "inorder (whole (k # fs') (rotated g f (flip s))) = xs"
  proof -
    have "inorder (whole (k # fs') (rotated g f (flip s))) = inorder (whole (f # fs) (flip s))"
      using whole_inorder [OF rf(3), of "k # fs'"] g(1) by simp
    also have "\<dots> = inorder (whole (f # fs) s)" by (rule whole_inorder [OF ff(4)])
    finally show ?thesis using z by (simp add: zb_def)
  qed
  ultimately have zb: "zb Item NN T xs h' (k # fs') (rotated g f (flip s))"
    using h'(3) tw(4) rf(1,2) g(6) by (auto simp: zb_def rbz_def)
  have ic: "insert_check Item T h v = Inr (h', v')"
    using both_red_ok [of Item NN h "f # fs" s] z a r h'(1) by (simp add: insert_check_def zb_def arrived_def)
  note rp = rotated_path [OF fl cl tw(1,2) b, unfolded ff(5)]
  obtain l2 x2 i2 r2 where rt: "rotated g f (flip s) = Node l2 x2 i2 r2" using rf(4) by (cases "rotated g f (flip s)") auto
  show ?thesis
  proof (rule that [OF ic zb])
    show "turned Item NN (rotated g f (flip s)) v'" using h'(2) rp [OF rt] rt by (auto simp: turned_def)
    show "\<forall>l x i r. rotated g f (flip s) = Node l x i r \<and> x \<noteq> Item \<longrightarrow>
        path_len Item (child Item (rotated g f (flip s))) \<le> path_len Item s"
      using rp by blast
  qed
qed

text \<open>The loop ends: at a node with the element, or at the sentinel with pointers that allow the
  last \<open>HandleReorient\<close>.\<close>

definition done_at :: "int \<Rightarrow> int \<Rightarrow> frame list \<Rightarrow> rbt \<Rightarrow> rbvars \<Rightarrow> bool" where
  "done_at Item NN fs s v \<longleftrightarrow> vX v = adr NN s \<and>
    (case s of Null \<Rightarrow> acc (vP v) fs 0 \<and> acc (vGP v) fs 1 \<and> acc (vGGP v) fs 2 \<and> uncle_ok fs
     | Node l x i r \<Rightarrow> x = Item)"

lemma insert_loop_step:
  assumes "zb Item NN T xs h fs (Node l x (a, c) r)" "vX v = a" "x \<noteq> Item"
    "insert_check Item T h (insert_move Item \<lparr>rbElement = x, rbLeft = adr NN l, rbRight = adr NN r, rbColor = c\<rparr> v) = Inr (h', v')"
  shows "insert_loop Item T h v = insert_loop Item T h' v'"
  using zipper_rd [of Item NN h fs l x a c r] assms
  by (subst insert_loop.simps) (simp add: zb_def)

lemma insert_loop_end:
  assumes z: "zb Item NN T xs h fs s" and v: "vX v = adr NN s" and s: "s = Null \<or> (\<exists>l i r. s = Node l Item i r)"
  shows "insert_loop Item T h v = Some (Inr (h, v))"
proof -
  have "\<exists>n. rd h (vX v) = Inr n \<and> rbElement n = Item"
    using s
  proof
    assume "s = Null"
    then show ?thesis using zipper_rd_Null z v by (fastforce simp: zb_def)
  next
    assume "\<exists>l i r. s = Node l Item i r"
    then obtain l a c r where "s = Node l Item (a, c) r" by auto
    then show ?thesis using zipper_rd z v by (fastforce simp: zb_def)
  qed
  then show ?thesis by (subst insert_loop.simps) auto
qed

lemma turned_step:
  assumes z: "zb Item NN T xs h fs s" and t: "turned Item NN s v" and s: "s = Node l x (a, c) r" "x \<noteq> Item"
  obtains v' where "insert_loop Item T h v = insert_loop Item T h v'"
    "zb Item NN T xs h (step_frame Item s # fs) (child Item s)" "ready Item NN (step_frame Item s # fs) (child Item s) v'"
proof -
  let ?v = "insert_move Item \<lparr>rbElement = x, rbLeft = adr NN l, rbRight = adr NN r, rbColor = c\<rparr> v"
  have rd: "red (child Item s)" "calm (child Item (child Item s))" "vX v = a" using t s by (auto simp: turned_def)
  have "hdr fs T" using z by (simp add: zb_def rbz_def)
  then have "fs \<noteq> []" by (auto simp: hdr_def)
  from zb_step [OF z [unfolded s(1)] s(2) this] have zs: "zb Item NN T xs h (step_frame Item s # fs) (child Item s)"
    using s(1) by simp
  have nt: "\<not> two_red (child Item s)"
    using zs rd(1) by (auto simp: zb_def rbz_def elim!: redE)
  have vX: "vX ?v = adr NN (child Item s)" using s(1) by (simp add: insert_move_def)
  have "insert_check Item T h ?v = Inr (h, ?v)" by (rule insert_check_plain [OF zs vX nt])
  then have "insert_loop Item T h v = insert_loop Item T h ?v"
    using insert_loop_step [of Item NN T xs h fs l x a c r v] z s rd(3) by simp
  moreover have "ready Item NN (step_frame Item s # fs) (child Item s) ?v"
    using vX nt rd(2,3) s(1) by (auto simp: ready_def acc_def insert_move_def)
  ultimately show ?thesis using zs by (intro that)
qed

lemma turned_progress:
  assumes z: "zb Item NN T xs h fs s" and t: "turned Item NN s v"
  obtains "insert_loop Item T h v = Some (Inr (h, v))" "done_at Item NN fs s v"
    | v' l x i r where "s = Node l x i r" "x \<noteq> Item" "insert_loop Item T h v = insert_loop Item T h v'"
      "zb Item NN T xs h (step_frame Item s # fs) (child Item s)"
      "ready Item NN (step_frame Item s # fs) (child Item s) v'"
proof -
  obtain l x a c r where s: "s = Node l x (a, c) r" "vX v = adr NN s"
    using t by (cases s rule: red.cases) (auto simp: turned_def)
  show ?thesis
  proof (cases "x = Item")
    case True
    then show ?thesis using insert_loop_end [OF z s(2)] s by (intro that(1)) (auto simp: done_at_def)
  next
    case False
    from turned_step [OF z t s(1) False] that(2) [OF s(1) False] show ?thesis by blast
  qed
qed

lemma insert_loop_ok:
  assumes "zb Item NN T xs h fs s" "ready Item NN fs s v"
  shows "\<exists>h' v' fs' s'. insert_loop Item T h v = Some (Inr (h', v')) \<and> zb Item NN T xs h' fs' s' \<and> done_at Item NN fs' s' v'"
  using assms
proof (induction "path_len Item s" arbitrary: h fs s v rule: less_induct)
  case less
  show ?case
  proof (cases "s = Null \<or> (\<exists>l i r. s = Node l Item i r)")
    case True
    have v: "vX v = adr NN s" using less.prems(2) by (simp add: ready_def)
    have "done_at Item NN fs s v" using True less.prems(2) by (auto simp: ready_def done_at_def)
    then show ?thesis using insert_loop_end [OF less.prems(1) v True] less.prems(1) by blast
  next
    case False
    then obtain l x a c r where s: "s = Node l x (a, c) r" "x \<noteq> Item" by (cases s rule: red.cases) auto
    let ?v = "insert_move Item \<lparr>rbElement = x, rbLeft = adr NN l, rbRight = adr NN r, rbColor = c\<rparr> v"
    let ?f = "step_frame Item s" let ?t = "child Item s"
    have "hdr fs T" using less.prems(1) by (simp add: zb_def rbz_def)
    then have "fs \<noteq> []" by (auto simp: hdr_def)
    with zb_step [of Item NN T xs h fs l x a c r] less.prems(1) s have z: "zb Item NN T xs h (?f # fs) ?t" by simp
    have ar: "arrived NN (?f # fs) ?t ?v"
      using insert_move_ok [of Item NN T xs h fs l x a c r v] less.prems s by simp
    have vx: "vX v = a" using less.prems(2) s by (simp add: ready_def)
    have step: "insert_loop Item T h v = insert_loop Item T h' v'" if "insert_check Item T h ?v = Inr (h', v')" for h' v'
      using insert_loop_step [of Item NN T xs h fs l x a c r v h' v'] less.prems(1) s vx that by simp
    have pl: "path_len Item ?t < path_len Item s" using s by simp
    consider "\<not> two_red ?t" | "two_red ?t" "fcol ?f = Black" | "two_red ?t" "fcol ?f = Red" by (cases "fcol ?f") auto
    then show ?thesis
    proof cases
      case 1
      have "insert_check Item T h ?v = Inr (h, ?v)" using insert_check_plain [OF z _ 1] ar by (simp add: arrived_def)
      from step [OF this] show ?thesis using less.hyps [OF pl z arrived_ready [OF ar 1]] by simp
    next
      case 2
      from insert_check_black [OF z ar 2] obtain h' s' where h': "insert_check Item T h ?v = Inr (h', ?v)"
        "zb Item NN T xs h' (?f # fs) s'" "ready Item NN (?f # fs) s' ?v" "path_len Item s' = path_len Item ?t" .
      from step [OF h'(1)] show ?thesis using less.hyps [OF _ h'(2,3)] h'(4) pl by simp
    next
      case 3
      from insert_check_red [OF z ar 3] obtain h' v' fs' s' where h': "insert_check Item T h ?v = Inr (h', v')"
        "zb Item NN T xs h' fs' s'" "turned Item NN s' v'"
        "\<forall>l x i r. s' = Node l x i r \<and> x \<noteq> Item \<longrightarrow> path_len Item (child Item s') \<le> path_len Item ?t" .
      from h'(2,3) show ?thesis
      proof (cases rule: turned_progress)
        case 1
        then show ?thesis using step [OF h'(1)] h'(2) by auto
      next
        case (2 v2 l1 x1 i1 r1)
        have "path_len Item (child Item s') < path_len Item s" using h'(4) 2(1,2) pl by auto
        from less.hyps [OF this 2(4,5)] show ?thesis using step [OF h'(1)] 2(3) by simp
      qed
    qed
  qed
qed

section \<open>\<open>Insert\<close>\<close>

text \<open>The memory holds a red-black search tree under the header \<open>T\<close>.\<close>

abbreviation header :: "int \<Rightarrow> frame" where
  "header T \<equiv> Rgt Null rb_NegInfinity T Black"

definition rbtree :: "int \<Rightarrow> int \<Rightarrow> rbheap \<Rightarrow> rbt \<Rightarrow> bool" where
  "rbtree NN T h t \<longleftrightarrow> (\<exists>e. zipper e NN h [header T] t) \<and> (\<exists>n. bal n t) \<and> \<not> red t \<and>
    bst (plug (header T) t)"

lemma rbz_plug: "fs \<noteq> [] \<Longrightarrow> rbz T (f # fs) s \<Longrightarrow> rbz T fs (plug f s)"
proof -
  assume fs: "fs \<noteq> []" and r: "rbz T (f # fs) s"
  from fs obtain g gs where g: "fs = g # gs" by (cases fs) auto
  obtain n where n: "bal n s" "cok n (f # fs)" "red s \<longrightarrow> fcol f = Black" "hdr fs T"
    using r fs by (auto simp: rbz_def mayred_def hdr_Cons)
  show "rbz T fs (plug f s)"
  proof (cases "fcol f")
    case Red
    then show ?thesis using n g by (cases f) (auto simp: rbz_def)
  next
    case Black
    then have "bal (Suc n) (plug f s)" "\<not> red (plug f s)" using n g by (cases f; auto)+
    then show ?thesis using n g Black by (auto simp: rbz_def)
  qed
qed

lemma zb_root:
  "zipper e NN h fs s \<Longrightarrow> rbz T fs s \<Longrightarrow> bst (whole fs s) \<Longrightarrow> \<exists>t. rbtree NN T h t \<and> inorder (whole fs s) = rb_NegInfinity # inorder t"
proof (induction fs arbitrary: s)
  case Nil
  then show ?case by (simp add: rbz_def hdr_def)
next
  case (Cons f fs)
  show ?case
  proof (cases "fs = []")
    case True
    then have "f = header T" using Cons.prems(2) by (auto simp: rbz_def hdr_def)
    then show ?thesis using Cons.prems True by (intro exI [of _ s]) (auto simp: rbtree_def rbz_def mayred_def)
  next
    case False
    have "zipper e NN h fs (plug f s)" using Cons.prems(1) by (simp add: zipper_plug)
    from Cons.IH [OF this rbz_plug [OF False Cons.prems(2)]] Cons.prems(3) show ?thesis by simp
  qed
qed

lemma whole_bst:
  "bst (whole fs s) \<Longrightarrow> \<forall>f \<in> set fs. toward Item f \<Longrightarrow> elems s' \<subseteq> insert Item (elems s) \<Longrightarrow> (bst s \<Longrightarrow> bst s') \<Longrightarrow> bst (whole fs s')"
proof (induction fs arbitrary: s s')
  case (Cons f fs)
  have "elems (plug f s') \<subseteq> insert Item (elems (plug f s))" using Cons.prems(3) by (cases f) auto
  moreover have "bst (plug f s) \<Longrightarrow> bst (plug f s')" using Cons.prems(2,3,4) by (cases f) auto
  ultimately show ?case using Cons.IH [of "plug f s" "plug f s'"] Cons.prems(1,2) by simp
qed simp

lemma whole_mem:
  "bst (whole fs s) \<Longrightarrow> \<forall>f \<in> set fs. toward Item f \<Longrightarrow> Item \<in> elems (whole fs s) \<longleftrightarrow> Item \<in> elems s"
proof (induction fs arbitrary: s)
  case (Cons f fs)
  have "bst (plug f s)" using Cons.prems(1)
  proof (induction fs arbitrary: f s)
    case (Cons g fs)
    from Cons.IH [of g "plug f s"] Cons.prems show ?case by (cases g) auto
  qed simp
  then have "Item \<in> elems (plug f s) \<longleftrightarrow> Item \<in> elems s" using Cons.prems(2) by (cases f) auto
  then show ?case using Cons.IH [of "plug f s"] Cons.prems by simp
qed simp

lemma elems_whole: "elems (whole fs s) = elems s \<union> elems (whole fs Null)"
proof (induction fs arbitrary: s)
  case (Cons f fs)
  have "elems (plug f s) = elems s \<union> elems (plug f Null)" by (cases f) auto
  with Cons.IH [of "plug f s"] Cons.IH [of "plug f Null"] show ?case by auto
qed simp

lemma attach_new:
  assumes z: "zipper Item NN h (f # fs) Null" and i: "toward Item f" and t: "t \<noteq> 0" "h t = None" and v: "vP v = fadr f"
  obtains h2 where "insert_new t g NN Item T h v = HandleReorient Item T h2 (v\<lparr>vX := t\<rparr>)"
    "zipper Item NN h2 (f # fs) (Node Null Item (t, rbColor g) Null)"
proof -
  define h1 where "h1 = h(t \<mapsto> g\<lparr>rbElement := Item, rbLeft := NN, rbRight := NN\<rparr>)"
  let ?h = "h1(fadr f \<mapsto> fnode NN f t)"
  have "t \<notin> dom h" using t(2) by auto
  then have nt: "t \<noteq> fadr f" "t \<noteq> NN" "t \<notin> set (cadrs fs)" "t \<notin> set (adrs (fsib f))" using z by (auto simp: zipper_def)
  have f: "h1 (fadr f) = Some (fnode NN f NN)" "fadr f \<noteq> 0" using z nt(1) by (auto simp: h1_def zipper_def)
  have "zipper Item NN ?h (f # fs) (Node Null Item (t, rbColor g) Null)"
    using z nt t(1) by (auto simp: zipper_def h1_def)
  moreover have "(if Item < rbElement (fnode NN f NN) then wr h1 (fadr f) (\<lambda>n. n\<lparr>rbLeft := t\<rparr>)
      else wr h1 (fadr f) (\<lambda>n. n\<lparr>rbRight := t\<rparr>)) = Inr ?h"
    using f i by (cases f) (auto simp: wr_ok)
  then have "insert_new t g NN Item T h v = HandleReorient Item T ?h (v\<lparr>vX := t\<rparr>)"
    using t(1) f v by (simp add: insert_new_def Let_def rd_ok h1_def [symmetric] split: if_splits)
  ultimately show ?thesis by (intro that)
qed

lemma insert_new_ok:
  assumes z: "zb Item NN T xs h fs Null" and v: "done_at Item NN fs Null v" and t: "t \<noteq> 0" "h t = None"
  obtains h' v' fs' s' where "insert_new t g NN Item T h v = Inr (h', v')" "zipper Item NN h' fs' s'" "rbz T fs' s'"
    "inorder (whole fs' s') = inorder (whole fs (Node Null Item (t, Red) Null))"
proof -
  have n: "cok 0 fs" "hdr fs T" using z by (auto simp: zb_def rbz_def)
  then obtain f fs1 where f: "fs = f # fs1" by (cases fs) auto
  have tw: "\<forall>f \<in> set fs. toward Item f" "toward Item f" using z f by (auto simp: zb_def)
  have z0: "zipper Item NN h (f # fs1) Null" using z f by (simp add: zb_def)
  have vP: "vP v = fadr f" using v f by (simp add: done_at_def acc_def)
  let ?v = "v\<lparr>vX := t\<rparr>" and ?s = "Node Null Item (t, Red) Null :: rbt"
  obtain h2 where new: "insert_new t g NN Item T h v = HandleReorient Item T h2 ?v"
    and h2: "zipper Item NN h2 (f # fs1) (Node Null Item (t, rbColor g) Null)" using attach_new [OF z0 tw(2) t vP] .
  have fl: "flip (Node Null Item (t, rbColor g) Null) = ?s" by (simp add: flip_def)
  show ?thesis
  proof (cases "fcol f")
    case Black
    from HandleReorient_black [OF h2 n(2) [unfolded f] Black, of ?v Item] vP obtain h3 where h3:
      "HandleReorient Item T h2 ?v = Inr (h3, ?v)" "zipper Item NN h3 (fst (reor fs ?s)) (snd (reor fs ?s))"
      by (auto simp: fl f)
    have re: "reor fs ?s = (fs, if fs1 = [] then paint Black ?s else ?s)" using Black f by (cases fs1) auto
    have "rbz T fs (if fs1 = [] then paint Black ?s else ?s)"
    proof (cases fs1)
      case Nil
      then show ?thesis using n f by (auto simp: rbz_def intro!: exI [of _ "Suc 0"])
    next
      case Cons
      then show ?thesis using n f Black by (auto simp: rbz_def mayred_def intro!: exI [of _ 0])
    qed
    moreover have "inorder (whole fs (if fs1 = [] then paint Black ?s else ?s)) = inorder (whole fs ?s)"
      by (rule whole_inorder) simp
    ultimately show ?thesis using h3 re new by (intro that [of h3 ?v fs "if fs1 = [] then paint Black ?s else ?s"]) auto
  next
    case Red
    from cok_red [OF n(1) [unfolded f] Red n(2) [unfolded f]] obtain u k fs2 where u: "fs1 = u # k # fs2" "fcol u = Black"
      "bal 0 (fsib f)" "\<not> red (fsib f)" "bal 0 (fsib u)" "cok (Suc 0) (k # fs2)" by auto
    have vv: "vX ?v = t" "vP ?v = fadr f" "vGP ?v = fadr u" "vGGP ?v = fadr k" and uo: "\<not> red (fsib u)"
      using v f u(1) Red by (auto simp: done_at_def acc_def uncle_ok_def nth_Cons')
    have tk: "toward Item u" "toward Item k" using tw(1) f u(1) by auto
    obtain h3 v3 where h3: "HandleReorient Item T h2 ?v = Inr (h3, v3)" "vX v3 = adr NN (rotated u f ?s)"
      "zipper Item NN h3 (k # fs2) (rotated u f ?s)"
      using HandleReorient_red [OF h2 [unfolded u(1)] n(2) [unfolded f u(1)] Red tw(2) tk vv] unfolding fl .
    have bs: "bal 0 ?s" "red ?s" by simp_all
    note rf = rotated_facts [OF bs Red u(3,4,5) uo]
    have "hdr (k # fs2) T" using n(2) f u(1) by (simp add: hdr_Cons)
    then have "rbz T (k # fs2) (rotated u f ?s)" using rf(1,2) u(6) by (auto simp: rbz_def)
    moreover have "inorder (whole (k # fs2) (rotated u f ?s)) = inorder (whole fs ?s)"
      using whole_inorder [OF rf(3), of "k # fs2"] f u(1) by simp
    ultimately show ?thesis using h3 new by (intro that [of h3 v3 "k # fs2" "rotated u f ?s"]) auto
  qed
qed

lemma zipper_sentinel:
  assumes "zipper e NN h fs t"
  obtains h' where "wr h NN (\<lambda>n. n\<lparr>rbElement := x\<rparr>) = Inr h'" "zipper x NN h' fs t" "dom h' = dom h"
  using assms
  by (intro that [of "h(NN \<mapsto> \<lparr>rbElement = x, rbLeft = NN, rbRight = NN, rbColor = Black\<rparr>)"])
    (auto simp: zipper_def wr_ok)

text \<open>The first round goes from the header to the root.\<close>

lemma insert_loop_start:
  assumes z: "zb Item NN T xs h [header T] t" and i: "rb_NegInfinity < Item" and v: "vX v = T" "vP v = T" "vGP v = T"
  shows "\<exists>h' v' fs' s'. insert_loop Item T h v = Some (Inr (h', v')) \<and> zb Item NN T xs h' fs' s' \<and> done_at Item NN fs' s' v'"
proof -
  let ?x = "\<lparr>rbElement = rb_NegInfinity, rbLeft = NN, rbRight = adr NN t, rbColor = Black\<rparr>"
  let ?v = "insert_move Item ?x v"
  have "rd h T = Inr ?x" using zipper_rd_frame [of Item NN h "header T" "[]" t] z by (simp add: zb_def)
  then have step: "insert_loop Item T h v = insert_loop Item T h' v'" if "insert_check Item T h ?v = Inr (h', v')" for h' v'
    using i v(1) that by (subst insert_loop.simps) simp
  have ar: "arrived NN [header T] t ?v"
    using i v by (auto simp: arrived_def insert_move_def acc_def uncle_ok_def)
  show ?thesis
  proof (cases "two_red t")
    case True
    have "fcol (header T) = Black" by simp
    from insert_check_black [OF z ar True this] obtain h' s' where h': "insert_check Item T h ?v = Inr (h', ?v)"
      "zb Item NN T xs h' [header T] s'" "ready Item NN [header T] s' ?v" "path_len Item s' = path_len Item t" .
    from step [OF h'(1)] insert_loop_ok [OF h'(2,3)] show ?thesis by simp
  next
    case False
    have "insert_check Item T h ?v = Inr (h, ?v)" using insert_check_plain [OF z _ False] ar by (simp add: arrived_def)
    from step [OF this] insert_loop_ok [OF z arrived_ready [OF ar False]] show ?thesis by simp
  qed
qed

lemma rbtree_zb:
  assumes "rbtree NN T h t" "rb_NegInfinity < Item"
  obtains h' where "wr h NN (\<lambda>n. n\<lparr>rbElement := Item\<rparr>) = Inr h'" "dom h' = dom h"
    "zb Item NN T (rb_NegInfinity # inorder t) h' [header T] t"
proof -
  obtain e where "zipper e NN h [header T] t" using assms(1) by (auto simp: rbtree_def)
  from zipper_sentinel [OF this, of Item] obtain h' where
    h': "wr h NN (\<lambda>n. n\<lparr>rbElement := Item\<rparr>) = Inr h'" "zipper Item NN h' [header T] t" "dom h' = dom h" .
  have "hdr [header T] T" by (simp add: hdr_def)
  then have "zb Item NN T (rb_NegInfinity # inorder t) h' [header T] t"
    using assms h'(2) by (auto simp: rbtree_def zb_def rbz_def)
  then show ?thesis using h' by (intro that)
qed

text \<open>The loop allocates nothing.\<close>

lemma wr_dom: "wr h p f = Inr h' \<Longrightarrow> dom h' = dom h"
  by (auto simp: wr_def rd_def bindr_eq_Inr split: if_splits option.splits)

lemma HandleReorient_dom: "HandleReorient Item T h v = Inr (h', v') \<Longrightarrow> dom h' = dom h"
proof -
  have r: "Rotate Item h p = Inr (h', r) \<Longrightarrow> dom h' = dom h" for h p h' r
    by (auto simp: Rotate_def rb_SingleRotateWithLeft_def rb_SingleRotateWithRight_def Let_def bindr_eq_Inr
        split: if_splits dest!: wr_dom del: equalityI)
  have "do_rotate Item h v = Inr (h', v') \<Longrightarrow> dom h' = dom h" for h h'
    by (auto simp: do_rotate_def bindr_eq_Inr split: if_splits dest!: wr_dom r del: equalityI)
  then show "HandleReorient Item T h v = Inr (h', v') \<Longrightarrow> dom h' = dom h"
    by (auto simp: HandleReorient_def color_flip_def root_black_def bindr_eq_Inr split: if_splits dest!: wr_dom del: equalityI)
qed

lemma insert_loop_dom: "insert_loop Item T h v = Some (Inr (h', v')) \<Longrightarrow> dom h' = dom h"
proof -
  have "\<forall>h' v'. R = Inr (h', v') \<longrightarrow> dom h' = dom h" if "insert_loop Item T h v = Some R" for R
  proof (rule insert_loop.raw_induct [where P = "\<lambda>Item T h v R. \<forall>h' v'. R = Inr (h', v') \<longrightarrow> dom h' = dom h", OF _ that])
    fix loop :: "int \<Rightarrow> int \<Rightarrow> rbheap \<Rightarrow> rbvars \<Rightarrow> (rbheap \<times> rbvars) res option" and Item T h v y
    assume 1: "\<And>Item T h v R. loop Item T h v = Some R \<Longrightarrow> \<forall>h' v'. R = Inr (h', v') \<longrightarrow> dom h' = dom h"
      "(case rd h (vX v) of Inl e \<Rightarrow> Some (Inl e) | Inr x \<Rightarrow>
        if rbElement x \<noteq> Item then
          case insert_check Item T h (insert_move Item x v) of Inl e \<Rightarrow> Some (Inl e) | Inr (h, v) \<Rightarrow> loop Item T h v
        else Some (Inr (h, v))) = Some y"
    have c: "dom h' = dom h" if "insert_check Item T h w = Inr (h', w')" for w h' w'
      using that by (auto simp: insert_check_def bindr_eq_Inr split: if_splits dest: HandleReorient_dom del: equalityI)
    show "\<forall>h' v'. y = Inr (h', v') \<longrightarrow> dom h' = dom h"
    proof (intro allI impI)
      fix h' v' assume y: "y = Inr (h', v')"
      obtain x where x: "rd h (vX v) = Inr x" using 1(2) y by (auto split: sum.splits)
      show "dom h' = dom h"
      proof (cases "rbElement x = Item")
        case False
        then obtain h1 v1 where h1: "insert_check Item T h (insert_move Item x v) = Inr (h1, v1)" "loop Item T h1 v1 = Some y"
          using 1(2) x y by (auto split: sum.splits prod.splits)
        from 1(1) [OF h1(2)] c [OF h1(1)] y show ?thesis by simp
      qed (use 1(2) x y in simp)
    qed
  qed
  then show "insert_loop Item T h v = Some (Inr (h', v')) \<Longrightarrow> dom h' = dom h" by blast
qed

lemma rb_Insert_ok:
  assumes r: "rbtree NN T h t" and i: "rb_NegInfinity < Item" and a: "p \<noteq> 0" "h p = None"
  shows "\<exists>h' v' t'. rb_Insert p g NN Item h v T = Some (Inr (h', v', if Item \<in> elems t then NN else T)) \<and>
    rbtree NN T h' t' \<and> elems t' = insert Item (elems t)"
proof -
  let ?v = "v\<lparr>vX := T, vP := T, vGP := T\<rparr>" and ?xs = "rb_NegInfinity # inorder t"
  obtain h1 where h1: "wr h NN (\<lambda>n. n\<lparr>rbElement := Item\<rparr>) = Inr h1" "dom h1 = dom h" "zb Item NN T ?xs h1 [header T] t"
    using rbtree_zb [OF r i] .
  from insert_loop_start [OF h1(3) i, of ?v] obtain h2 v2 fs s where
    2: "insert_loop Item T h1 ?v = Some (Inr (h2, v2))" "zb Item NN T ?xs h2 fs s" "done_at Item NN fs s v2" by auto
  have "sorted_wrt (<) ?xs" using r by (auto simp: rbtree_def bst_iff_inorder)
  then have b: "bst (whole fs s)" using 2(2) by (simp add: zb_def bst_iff_inorder)
  have z: "zipper Item NN h2 fs s" "rbz T fs s" "inorder (whole fs s) = ?xs" "\<forall>f \<in> set fs. toward Item f"
    using 2(2) by (auto simp: zb_def)
  have "Item \<in> elems (whole fs s) \<longleftrightarrow> Item \<in> elems t"
    using i unfolding set_inorder [symmetric] z(3) by auto
  with whole_mem [OF b z(4)] have m: "Item \<in> elems s \<longleftrightarrow> Item \<in> elems t" by simp
  show ?thesis
  proof (cases s)
    case s: (Node l x j k)
    have it: "x = Item" "vX v2 \<noteq> NN" using 2(3) z(1) s by (cases j; auto simp: done_at_def zipper_def)+
    obtain t' where t': "rbtree NN T h2 t'" "inorder (whole fs s) = rb_NegInfinity # inorder t'"
      using zb_root [OF z(1,2) b] by blast
    have "elems t' = elems t" using t'(2) z(3) by (simp add: set_inorder [symmetric])
    moreover have "Item \<in> elems t" using m s it by simp
    ultimately show ?thesis using h1(1) 2(1) it t'(1) by (auto simp: rb_Insert_def Let_def)
  next
    case s: Null
    have "dom h2 = dom h" using insert_loop_dom [OF 2(1)] h1(2) by simp
    then have d2: "h2 p = None" using a(2) by (metis domIff)
    from insert_new_ok [OF 2(2) [unfolded s] 2(3) [unfolded s] a(1) d2, of g] obtain h3 v3 fs' s' where
      3: "insert_new p g NN Item T h2 v2 = Inr (h3, v3)" "zipper Item NN h3 fs' s'" "rbz T fs' s'"
        "inorder (whole fs' s') = inorder (whole fs (Node Null Item (p, Red) Null))" .
    have "bst (whole fs (Node Null Item (p, Red) Null))" using whole_bst [OF b z(4)] s by simp
    then have "bst (whole fs' s')" using 3(4) by (simp add: bst_iff_inorder)
    then obtain t' where t': "rbtree NN T h3 t'" "inorder (whole fs' s') = rb_NegInfinity # inorder t'"
      using zb_root [OF 3(2,3)] by blast
    have "elems (whole fs' s') = elems (whole fs (Node Null Item (p, Red) Null))" using 3(4) by (metis set_inorder)
    moreover have "elems (whole fs' s') = insert rb_NegInfinity (elems t')" using t'(2) by (metis list.simps(15) set_inorder)
    moreover have "elems (whole fs Null) = insert rb_NegInfinity (elems t)" using z(3) s by (metis list.simps(15) set_inorder)
    ultimately have "insert rb_NegInfinity (elems t') = insert Item (insert rb_NegInfinity (elems t))"
      using elems_whole [of fs "Node Null Item (p, Red) Null"] by (simp add: insert_commute)
    moreover have "rb_NegInfinity \<notin> elems t'" "rb_NegInfinity \<notin> elems t" using t'(1) r by (auto simp: rbtree_def)
    ultimately have "elems t' = insert Item (elems t)" using i by (metis insert_commute insert_eq_iff insert_iff less_irrefl)
    moreover have "vX v2 = NN" "Item \<notin> elems t" using 2(3) m s by (auto simp: done_at_def)
    ultimately show ?thesis using h1(1) 2(1) 3(1) t'(1) by (auto simp: rb_Insert_def Let_def)
  qed
qed

end
