(* ===== verification/BoundedSet.thy ===== *)
theory BoundedSet
  imports CBase
begin

text \<open>
  The interface of the sets whose elements are bounded by a sentinel and whose operations follow
  pointers: the red-black tree and the deterministic skip list of \<^verbatim>\<open>src/DSAAC\<close>. They
  have no removal, \<open>Insert\<close> need not return the structure for an element that is already
  there, and \<open>Find\<close> may write the sentinel.
\<close>

fun fill :: "('a \<Rightarrow> 't \<Rightarrow> 't res option) \<Rightarrow> 'a list \<Rightarrow> 't \<Rightarrow> 't res option" where
  \<comment> \<open>the loop \<open>for( ... ) T = Insert( j, T );\<close>\<close>
  "fill ins [] t = Some (Inr t)"
| "fill ins (x # xs) t = andthen (ins x t) (fill ins xs)"

text \<open>\<open>look x t\<close> is a call \<open>P = Find( x, T )\<close>: whether \<open>P\<close> is not the
  sentinel, what \<open>Retrieve( P )\<close> returns, and the new state. \<open>lo\<close> and \<open>hi\<close>
  are \<open>Retrieve\<close> of \<open>FindMin\<close> and \<open>FindMax\<close>.\<close>

locale bounded_set =
  fixes ok :: "int \<Rightarrow> bool" and ins :: "int \<Rightarrow> 't \<Rightarrow> 't res option"
    and look :: "int \<Rightarrow> 't \<Rightarrow> (bool \<times> int \<times> 't) res option" and lo hi :: "'t \<Rightarrow> int res option"
    and elts :: "'t \<Rightarrow> int set" and inv :: "'t \<Rightarrow> bool"
  assumes ins_ok: "inv t \<Longrightarrow> ok x \<Longrightarrow> x \<notin> elts t \<Longrightarrow>
      \<exists>t'. ins x t = Some (Inr t') \<and> inv t' \<and> elts t' = insert x (elts t)"
    and look_ok: "inv t \<Longrightarrow> ok x \<Longrightarrow>
      \<exists>v t'. look x t = Some (Inr (x \<in> elts t, v, t')) \<and> inv t' \<and> elts t' = elts t \<and> (x \<in> elts t \<longrightarrow> v = x)"
    and lo_ok: "inv t \<Longrightarrow> elts t \<noteq> {} \<Longrightarrow> lo t = Some (Inr (Min (elts t)))"
    and hi_ok: "inv t \<Longrightarrow> elts t \<noteq> {} \<Longrightarrow> hi t = Some (Inr (Max (elts t)))"
begin

lemma fill_ok:
  "inv t \<Longrightarrow> distinct xs \<Longrightarrow> list_all ok xs \<Longrightarrow> set xs \<inter> elts t = {} \<Longrightarrow>
    \<exists>t'. fill ins xs t = Some (Inr t') \<and> inv t' \<and> elts t' = set xs \<union> elts t"
proof (induction xs arbitrary: t)
  case (Cons x xs)
  then obtain t1 where t1: "ins x t = Some (Inr t1)" "inv t1" "elts t1 = insert x (elts t)" using ins_ok [of t x] by auto
  have "set xs \<inter> elts t1 = {}" using Cons.prems t1(3) by auto
  with Cons.IH [OF t1(2)] Cons.prems t1 show ?case by auto
qed simp

end

end
