(* ===== verification/RedBlackSet.thy ===== *)
theory RedBlackSet
  imports RedBlackInv BoundedSet
begin

text \<open>
  The other operations of \<^verbatim>\<open>redblack.c\<close> on a tree in memory, the bound on its depth, and
  the properties of the component.
\<close>

section \<open>Searching and printing\<close>

definition stored :: "int \<Rightarrow> rbheap \<Rightarrow> rbt \<Rightarrow> bool" where
  "stored NN h t \<longleftrightarrow> hrep NN h t \<and> NN \<notin> set (adrs t)"

lemma stored_Node:
  "stored NN h (Node l x (a, c) r) \<longleftrightarrow> a \<noteq> NN \<and> a \<noteq> 0 \<and> stored NN h l \<and> stored NN h r \<and>
    h a = Some \<lparr>rbElement = x, rbLeft = adr NN l, rbRight = adr NN r, rbColor = c\<rparr>"
  by (auto simp: stored_def)

lemma stored_Null [simp]: "stored NN h Null"
  by (simp add: stored_def)

lemma stored_adr: "stored NN h t \<Longrightarrow> adr NN t = NN \<longleftrightarrow> t = Null"
  by (cases t rule: adrs.cases) (auto simp: stored_Node)

lemma rbtree_stored: "rbtree NN T h t \<Longrightarrow> stored NN h (plug (header T) t)"
  by (auto simp: rbtree_def stored_def zipper_def)

lemma rb_Find_stored:
  "stored NN h t \<Longrightarrow> bst t \<Longrightarrow>
    \<exists>p. rb_Find NN X h (adr NN t) = Some (Inr p) \<and> (p = NN \<longleftrightarrow> X \<notin> elems t) \<and> (p \<noteq> NN \<longrightarrow> rb_Retrieve h p = Inr X)"
proof (induction t rule: adrs.induct)
  case 1
  then show ?case by (subst rb_Find.simps) simp
next
  case (2 l x a c r)
  have s: "a \<noteq> NN" "rd h a = Inr \<lparr>rbElement = x, rbLeft = adr NN l, rbRight = adr NN r, rbColor = c\<rparr>"
    "stored NN h l" "stored NN h r" using 2(3) by (auto simp: stored_Node rd_ok)
  consider "X < x" | "x < X" | "X = x" by linarith
  then show ?case
  proof cases
    case 1
    then have "X \<in> elems (Node l x (a, c) r) \<longleftrightarrow> X \<in> elems l" using 2(4) by auto
    then show ?thesis using 2(1) [OF s(3)] 2(4) s(1,2) 1 by (subst rb_Find.simps) auto
  next
    case b: 2
    then have "X \<in> elems (Node l x (a, c) r) \<longleftrightarrow> X \<in> elems r" using 2(4) by auto
    then show ?thesis using 2(2) [OF s(4)] 2(4) s(1,2) b by (subst rb_Find.simps) auto
  next
    case 3
    then show ?thesis using s(1,2) by (subst rb_Find.simps) (simp add: rb_Retrieve_def)
  qed
qed

lemma go_left_stored:
  "stored NN h t \<Longrightarrow> t \<noteq> Null \<Longrightarrow> bst t \<Longrightarrow>
    \<exists>p. go_left NN h (adr NN t) = Some (Inr p) \<and> rb_Retrieve h p = Inr (Min (elems t))"
proof (induction t rule: adrs.induct)
  case (2 l x a c r)
  have s: "rd h a = Inr \<lparr>rbElement = x, rbLeft = adr NN l, rbRight = adr NN r, rbColor = c\<rparr>" "stored NN h l"
    using 2(3) by (auto simp: stored_Node rd_ok)
  show ?case
  proof (cases "l = Null")
    case True
    have "Min (elems (Node l x (a, c) r)) = x" using Min_elems_root [of x "(a, c)" r] 2(5) True by simp
    then show ?thesis using s True by (subst go_left.simps) (simp add: rb_Retrieve_def)
  next
    case False
    then have "Min (elems (Node l x (a, c) r)) = Min (elems l)" by (rule Min_elems_left [OF 2(5)])
    then show ?thesis using 2(1) [OF s(2) False] 2(5) s stored_adr [OF s(2)] False
      by (subst go_left.simps) simp
  qed
qed simp

lemma go_right_stored:
  "stored NN h t \<Longrightarrow> t \<noteq> Null \<Longrightarrow> bst t \<Longrightarrow>
    \<exists>p. go_right NN h (adr NN t) = Some (Inr p) \<and> rb_Retrieve h p = Inr (Max (elems t))"
proof (induction t rule: adrs.induct)
  case (2 l x a c r)
  have s: "rd h a = Inr \<lparr>rbElement = x, rbLeft = adr NN l, rbRight = adr NN r, rbColor = c\<rparr>" "stored NN h r"
    using 2(3) by (auto simp: stored_Node rd_ok)
  show ?case
  proof (cases "r = Null")
    case True
    have "Max (elems (Node l x (a, c) r)) = x" using Max_elems_root [of l x "(a, c)"] 2(5) True by simp
    then show ?thesis using s True by (subst go_right.simps) (simp add: rb_Retrieve_def)
  next
    case False
    then have "Max (elems (Node l x (a, c) r)) = Max (elems r)" by (rule Max_elems_right [OF 2(5)])
    then show ?thesis using 2(2) [OF s(2) False] 2(5) s stored_adr [OF s(2)] False
      by (subst go_right.simps) simp
  qed
qed simp

lemma DoPrint_stored: "stored NN h t \<Longrightarrow> DoPrint NN h (adr NN t) = Some (Inr (inorder t))"
proof (induction t rule: adrs.induct)
  case (2 l x a c r)
  then show ?case by (subst DoPrint.simps) (auto simp: stored_Node rd_ok)
qed (subst DoPrint.simps, simp)

lemma MakeEmptyRec_frees:
  "stored NN h t \<Longrightarrow> distinct (adrs t) \<Longrightarrow>
    MakeEmptyRec NN h (adr NN t) = Some (Inr (h |` (- set (adrs t))))"
proof (induction t arbitrary: h rule: adrs.induct)
  case (1 h)
  then show ?case by (subst MakeEmptyRec.simps) (simp add: restrict_map_def)
next
  case (2 l x a c r)
  let ?h1 = "h |` (- set (adrs l))"
  have s: "a \<noteq> NN" "rd h a = Inr \<lparr>rbElement = x, rbLeft = adr NN l, rbRight = adr NN r, rbColor = c\<rparr>"
    "rd ?h1 a = Inr \<lparr>rbElement = x, rbLeft = adr NN l, rbRight = adr NN r, rbColor = c\<rparr>"
    "stored NN h l" using 2(3,4) by (auto simp: stored_Node rd_ok)
  have fr: "set (adrs s) \<inter> A = {} \<Longrightarrow> hrep NN h s \<Longrightarrow> hrep NN (h |` (- A)) s" for s A
    by (induction s rule: adrs.induct) (auto simp: Int_Un_distrib2)
  have r: "stored NN ?h1 r" using 2(3,4) fr [of r "set (adrs l)"] by (auto simp: stored_def)
  have "pfree (?h1 |` (- set (adrs r))) a = Inr ((?h1 |` (- set (adrs r)))(a := None))"
    using 2(3,4) by (auto simp: pfree_def stored_Node)
  moreover have "(?h1 |` (- set (adrs r)))(a := None) = h |` (- set (adrs (Node l x (a, c) r)))"
    by (auto simp: restrict_map_def fun_eq_iff)
  ultimately show ?case using 2(1) [OF s(4)] 2(2) [OF r] 2(4) s by (subst MakeEmptyRec.simps) simp
qed

section \<open>Depth\<close>

lemma bal_size: "bal n t \<Longrightarrow> 2 ^ n \<le> nodes t + 1"
proof (induction n t rule: bal.induct)
  case (2 n l x a c r)
  show ?case
  proof (cases c)
    case Red
    then show ?thesis using 2 by simp
  next
    case Black
    then show ?thesis using 2 by (cases n) auto
  qed
qed simp

lemma bal_path: "bal n t \<Longrightarrow> path_len Item t \<le> 2 * n + (if red t then 1 else 0)"
proof (induction n t rule: bal.induct)
  case (2 n l x a c r)
  show ?case
  proof (cases c)
    case Red
    then show ?thesis using 2 by simp
  next
    case Black
    then show ?thesis using 2 by (cases n) (auto split: if_splits)
  qed
qed simp

section \<open>The tree as a set\<close>

text \<open>A client keeps the pointer that \<open>Insert\<close> returns. The state is the allocator,
  \<open>NullNode\<close>, the memory, the static variables and that pointer.\<close>

type_synonym rbset = "(rbheap \<Rightarrow> int) \<times> int \<times> rbheap \<times> rbvars \<times> int"

fun rb_ins :: "rbnode \<Rightarrow> int \<Rightarrow> rbset \<Rightarrow> rbset res option" where
  "rb_ins g x (al, NN, h, v, T) =
    andthen (rb_Insert (al h) g NN x h v T) (\<lambda>(h, v, T). Some (Inr (al, NN, h, v, T)))"

fun rb_look :: "int \<Rightarrow> rbset \<Rightarrow> (bool \<times> int \<times> rbset) res option" where
  "rb_look x (al, NN, h, v, T) =
    andthen (rb_Find NN x h T) (\<lambda>P. after (rb_Retrieve h P) (\<lambda>e. Some (Inr (P \<noteq> NN, e, (al, NN, h, v, T)))))"

fun rb_lo :: "rbset \<Rightarrow> int res option" where
  "rb_lo (al, NN, h, v, T) = andthen (rb_FindMin NN h T) (\<lambda>P. Some (rb_Retrieve h P))"

fun rb_hi :: "rbset \<Rightarrow> int res option" where
  "rb_hi (al, NN, h, v, T) = andthen (rb_FindMax NN h T) (\<lambda>P. Some (rb_Retrieve h P))"

fun rb_elts :: "rbset \<Rightarrow> int set" where
  \<comment> \<open>what \<open>PrintTree\<close> prints\<close>
  "rb_elts (al, NN, h, v, T) = (case rb_PrintTree NN h T of Some (Inr xs) \<Rightarrow> set xs | _ \<Rightarrow> {})"

fun rb_inv :: "(rbheap \<Rightarrow> int) \<Rightarrow> int \<Rightarrow> int \<Rightarrow> rbset \<Rightarrow> bool" where
  "rb_inv al NN T (al', NN', h, v, T') \<longleftrightarrow>
    al' = al \<and> NN' = NN \<and> T' = T \<and> avail al \<and> (\<exists>t. rbtree NN T h t)"

lemma rbtree_root: "rbtree NN T h t \<Longrightarrow>
    T \<noteq> NN \<and> rd h T = Inr \<lparr>rbElement = rb_NegInfinity, rbLeft = NN, rbRight = adr NN t, rbColor = Black\<rparr> \<and> stored NN h t"
  using rbtree_stored [of NN T h t] by (auto simp: stored_Node rd_ok)

lemma rb_PrintTree_ok: "rbtree NN T h t \<Longrightarrow> rb_PrintTree NN h T = Some (Inr (inorder t))"
  using rbtree_root [of NN T h t] by (auto simp: rb_PrintTree_def DoPrint_stored)

lemma rb_elts_ok: "rbtree NN T h t \<Longrightarrow> rb_elts (al, NN, h, v, T) = elems t"
  by (simp add: rb_PrintTree_ok set_inorder)

lemma rbtree_finite: "rbtree NN T h t \<Longrightarrow> finite (dom h)"
  by (auto simp: rbtree_def zipper_def)

lemma rb_look_ok:
  assumes r: "rbtree NN T h t" and x: "rb_NegInfinity < x"
  shows "\<exists>P e. rb_Find NN x h T = Some (Inr P) \<and> rb_Retrieve h P = Inr e \<and> (P \<noteq> NN \<longleftrightarrow> x \<in> elems t) \<and> (x \<in> elems t \<longrightarrow> e = x)"
proof -
  have b: "bst (plug (header T) t)" using r by (simp add: rbtree_def)
  obtain P where P: "rb_Find NN x h T = Some (Inr P)" "P = NN \<longleftrightarrow> x \<notin> elems (plug (header T) t)"
    "P \<noteq> NN \<longrightarrow> rb_Retrieve h P = Inr x"
    using rb_Find_stored [OF rbtree_stored [OF r] b, of x] by auto
  have "x \<in> elems (plug (header T) t) \<longleftrightarrow> x \<in> elems t" using x by auto
  moreover have "\<exists>e. rb_Retrieve h NN = Inr e" using r by (auto simp: rbtree_def zipper_def rb_Retrieve_def rd_ok)
  ultimately show ?thesis using P by (cases "P = NN") auto
qed

lemma rb_extremes:
  assumes r: "rbtree NN T h t" and n: "elems t \<noteq> {}"
  shows "rb_lo (al, NN, h, v, T) = Some (Inr (Min (elems t)))" "rb_hi (al, NN, h, v, T) = Some (Inr (Max (elems t)))"
proof -
  have t: "t \<noteq> Null" using n by auto
  have b: "bst t" "bst (plug (header T) t)" using r by (auto simp: rbtree_def)
  from go_left_stored [OF _ t b(1), of NN h] rbtree_root [OF r] show "rb_lo (al, NN, h, v, T) = Some (Inr (Min (elems t)))"
    by (auto simp: rb_FindMin_def)
  have "Max (elems (plug (header T) t)) = Max (elems t)" using Max_elems_right [of Null rb_NegInfinity "(T, Black)" t] b(2) t by simp
  with go_right_stored [OF rbtree_stored [OF r] _ b(2)] show "rb_hi (al, NN, h, v, T) = Some (Inr (Max (elems t)))"
    by (auto simp: rb_FindMax_def)
qed

interpretation rbset: bounded_set "\<lambda>x. rb_NegInfinity < x" "rb_ins g" rb_look rb_lo rb_hi rb_elts "rb_inv al NN T" for g al NN T
proof
  fix s x assume i: "rb_inv al NN T s" and x: "rb_NegInfinity < x"
  obtain h v t where s: "s = (al, NN, h, v, T)" and t: "rbtree NN T h t" "avail al" using i by (cases s) auto
  show "\<exists>s'. rb_ins g x s = Some (Inr s') \<and> rb_inv al NN T s' \<and> rb_elts s' = insert x (rb_elts s)" if "x \<notin> rb_elts s"
  proof -
    have "x \<notin> elems t" using that s rb_elts_ok [OF t(1)] by simp
    moreover have "al h \<noteq> 0" "h (al h) = None" using t(2) rbtree_finite [OF t(1)] by (auto simp: avail_def)
    ultimately obtain h' v' t' where "rb_Insert (al h) g NN x h v T = Some (Inr (h', v', T))" "rbtree NN T h' t'"
      "elems t' = insert x (elems t)" using rb_Insert_ok [OF t(1) x, of "al h" g v] by auto
    then show ?thesis using s t rb_elts_ok by (auto simp del: rb_elts.simps)
  qed
  show "\<exists>e s'. rb_look x s = Some (Inr (x \<in> rb_elts s, e, s')) \<and> rb_inv al NN T s' \<and> rb_elts s' = rb_elts s \<and> (x \<in> rb_elts s \<longrightarrow> e = x)"
    using rb_look_ok [OF t(1) x] t s rb_elts_ok [OF t(1)] by (auto simp del: rb_elts.simps)
next
  fix s assume i: "rb_inv al NN T s" and n: "rb_elts s \<noteq> {}"
  obtain h v t where s: "s = (al, NN, h, v, T)" and t: "rbtree NN T h t" using i by (cases s) auto
  show "rb_lo s = Some (Inr (Min (rb_elts s)))" "rb_hi s = Some (Inr (Max (rb_elts s)))"
    using rb_extremes [OF t] n unfolding s rb_elts_ok [OF t] by auto
qed

section \<open>Properties\<close>

lemma rb_Initialize_ok:
  assumes "t1 \<noteq> 0" "t2 \<noteq> 0" "t1 \<noteq> t2"
  shows "\<exists>h. rb_Initialize t1 t2 Map.empty 0 = Inr (h, t1, t2) \<and> rbtree t1 t2 h Null"
proof -
  let ?h = "[t1 \<mapsto> \<lparr>rbElement = 12345, rbLeft = t1, rbRight = t1, rbColor = Black\<rparr>,
    t2 \<mapsto> \<lparr>rbElement = rb_NegInfinity, rbLeft = t1, rbRight = t1, rbColor = Black\<rparr>]"
  have "zipper 12345 t1 ?h [header t2] Null" using assms by (auto simp: zipper_def)
  then have "rbtree t1 t2 ?h Null" by (auto simp: rbtree_def)
  then show ?thesis using assms by (simp add: rb_Initialize_def)
qed

lemma nodes_elems: "bst t \<Longrightarrow> nodes t = card (elems t)"
proof (induction t)
  case (Node l x i r)
  have "elems l \<inter> elems r = {}" "x \<notin> elems l \<union> elems r" using Node.prems by fastforce+
  then show ?case using Node by (simp add: card_Un_disjoint)
qed simp

text \<open>C37: on a red-black tree, \<open>Insert\<close> of an element above \<open>NegInfinity\<close> with memory
  available ends without a bad access and leaves a red-black search tree: no red node with a red
  child, the same number of black nodes on every path, a black root. A new element is added and the
  header is returned; for an element that is already there the set is unchanged, and the returned
  pointer is \<open>NullNode\<close>. The depth at which any element is searched is at most
  \<open>2 log (n + 1)\<close>.\<close>

theorem RedBlack_Insert:
  assumes "rbtree NN T h t" "rb_NegInfinity < Item" "p \<noteq> 0" "h p = None"
  shows "\<exists>h' v' t'. rb_Insert p g NN Item h v T = Some (Inr (h', v', if Item \<in> elems t then NN else T)) \<and>
    rbtree NN T h' t' \<and> elems t' = insert Item (elems t) \<and> (\<forall>x. 2 ^ ((path_len x t' + 1) div 2) \<le> card (elems t') + 1)"
proof -
  from rb_Insert_ok [OF assms, of g v] obtain h' v' t' where
    r: "rb_Insert p g NN Item h v T = Some (Inr (h', v', if Item \<in> elems t then NN else T))"
    "rbtree NN T h' t'" "elems t' = insert Item (elems t)" by blast
  obtain n where n: "bal n t'" "\<not> red t'" "bst t'" using r(2) by (auto simp: rbtree_def)
  have "2 ^ ((path_len x t' + 1) div 2) \<le> card (elems t') + 1" for x
  proof -
    have "(path_len x t' + 1) div 2 \<le> n" using bal_path [OF n(1), of x] n(2) by simp
    then have "(2::nat) ^ ((path_len x t' + 1) div 2) \<le> 2 ^ n" by (rule power_increasing) simp
    also have "\<dots> \<le> card (elems t') + 1" using bal_size [OF n(1)] nodes_elems [OF n(3)] by simp
    finally show ?thesis .
  qed
  then show ?thesis using r by blast
qed

lemma RedBlack_Insert_witness:
  "\<exists>h h' v' t'. rb_Initialize 1 2 Map.empty 0 = Inr (h, 1, 2) \<and>
    rb_Insert 3 \<lparr>rbElement = 0, rbLeft = 0, rbRight = 0, rbColor = Black\<rparr> 1 7 h \<lparr>vX = 0, vP = 0, vGP = 0, vGGP = 0\<rparr> 2 =
      Some (Inr (h', v', 2)) \<and> rbtree 1 2 h' t' \<and> elems t' = {7}"
proof -
  obtain h where h: "rb_Initialize 1 2 Map.empty 0 = Inr (h, 1, 2)" "rbtree 1 2 h Null" using rb_Initialize_ok [of 1 2] by auto
  have "h 3 = None" using h(1) by (auto simp: rb_Initialize_def)
  then show ?thesis
    using RedBlack_Insert [OF h(2), of 7 3 "\<lparr>rbElement = 0, rbLeft = 0, rbRight = 0, rbColor = Black\<rparr>"
      "\<lparr>vX = 0, vP = 0, vGP = 0, vGGP = 0\<rparr>"] h(1) by (auto simp: rb_NegInfinity_def)
qed

lemma rb_MakeEmpty_ok:
  assumes r: "rbtree NN T h t"
  shows "\<exists>h'. rb_MakeEmpty NN h T = Some (Inr h') \<and> rbtree NN T h' Null \<and> dom h' = {NN, T}"
proof -
  obtain e where z: "zipper e NN h [header T] t" using r by (auto simp: rbtree_def)
  let ?h = "h |` (- set (adrs t))"
  let ?h' = "?h(T \<mapsto> \<lparr>rbElement = rb_NegInfinity, rbLeft = NN, rbRight = NN, rbColor = Black\<rparr>)"
  note s = rbtree_root [OF r]
  have m: "MakeEmptyRec NN h (adr NN t) = Some (Inr ?h)" using MakeEmptyRec_frees [of NN h t] s z by (simp add: zipper_def)
  have "wr ?h T (\<lambda>n. n\<lparr>rbRight := NN\<rparr>) = Inr ?h'" using z by (auto simp: wr_ok zipper_def)
  then have "rb_MakeEmpty NN h T = Some (Inr ?h')" using m s by (simp add: rb_MakeEmpty_def)
  moreover have "zipper e NN ?h' [header T] Null" using z by (auto simp: zipper_def)
  then have "rbtree NN T ?h' Null" by (auto simp: rbtree_def)
  moreover have "dom ?h' = {NN, T}" using z by (auto simp: zipper_def)
  ultimately show ?thesis by blast
qed

text \<open>C38: from a new tree, inserting different elements above \<open>NegInfinity\<close> gives a tree for
  which \<open>PrintTree\<close> prints them in order, \<open>Find\<close> returns a node exactly for them,
  \<open>FindMin\<close> and \<open>FindMax\<close> find the extreme ones, and which \<open>MakeEmpty\<close> returns to
  the sentinel and the header, every other node freed.\<close>

theorem RedBlack_refines_set:
  assumes "avail al" "t1 \<noteq> 0" "t2 \<noteq> 0" "t1 \<noteq> t2" "distinct xs" "list_all (\<lambda>x. rb_NegInfinity < x) xs"
  shows "\<exists>h0 h v. rb_Initialize t1 t2 Map.empty 0 = Inr (h0, t1, t2) \<and>
    fill (rb_ins g) xs (al, t1, h0, v0, t2) = Some (Inr (al, t1, h, v, t2)) \<and>
    rb_PrintTree t1 h t2 = Some (Inr (sort xs)) \<and>
    (\<forall>y. rb_NegInfinity < y \<longrightarrow> (\<exists>P. rb_Find t1 y h t2 = Some (Inr P) \<and> (P \<noteq> t1 \<longleftrightarrow> y \<in> set xs))) \<and>
    (xs \<noteq> [] \<longrightarrow> rb_lo (al, t1, h, v, t2) = Some (Inr (Min (set xs))) \<and> rb_hi (al, t1, h, v, t2) = Some (Inr (Max (set xs)))) \<and>
    (\<exists>h'. rb_MakeEmpty t1 h t2 = Some (Inr h') \<and> rbtree t1 t2 h' Null \<and> dom h' = {t1, t2})"
proof -
  obtain h0 where h0: "rb_Initialize t1 t2 Map.empty 0 = Inr (h0, t1, t2)" "rbtree t1 t2 h0 Null"
    using rb_Initialize_ok [OF assms(2,3,4)] by blast
  have "rb_inv al t1 t2 (al, t1, h0, v0, t2)" "set xs \<inter> rb_elts (al, t1, h0, v0, t2) = {}"
    using h0(2) assms(1) rb_elts_ok [OF h0(2)] by (auto simp del: rb_elts.simps)
  from rbset.fill_ok [OF this(1) assms(5,6) this(2), of g] obtain s where
    s: "fill (rb_ins g) xs (al, t1, h0, v0, t2) = Some (Inr s)" "rb_inv al t1 t2 s" "rb_elts s = set xs"
    using rb_elts_ok [OF h0(2)] by (auto simp del: rb_elts.simps rb_inv.simps)
  obtain h v t where t: "s = (al, t1, h, v, t2)" "rbtree t1 t2 h t" using s(2) by (cases s) auto
  have e: "elems t = set xs" using s(3) t rb_elts_ok [OF t(2)] by (simp del: rb_elts.simps)
  have "bst t" using t(2) by (auto simp: rbtree_def)
  then have "inorder t = sort xs"
    using e assms(5) by (intro sorted_distinct_set_unique) (auto simp: bst_iff_inorder strict_sorted_iff set_inorder)
  then have p: "rb_PrintTree t1 h t2 = Some (Inr (sort xs))" using rb_PrintTree_ok [OF t(2)] by simp
  have f: "\<forall>y. rb_NegInfinity < y \<longrightarrow> (\<exists>P. rb_Find t1 y h t2 = Some (Inr P) \<and> (P \<noteq> t1 \<longleftrightarrow> y \<in> set xs))"
    using rb_look_ok [OF t(2)] e by metis
  show ?thesis using h0(1) s(1) t(1) p f rb_extremes [OF t(2)] e rb_MakeEmpty_ok [OF t(2)] by (auto simp del: rb_lo.simps rb_hi.simps)
qed

lemma RedBlack_refines_set_witness:
  "\<exists>h0 h v. rb_Initialize 1 2 Map.empty 0 = Inr (h0, 1, 2) \<and>
    fill (rb_ins \<lparr>rbElement = 0, rbLeft = 0, rbRight = 0, rbColor = Black\<rparr>) [3, 1, 2]
      (new_adr, 1, h0, \<lparr>vX = 0, vP = 0, vGP = 0, vGGP = 0\<rparr>, 2) = Some (Inr (new_adr, 1, h, v, 2)) \<and>
    rb_PrintTree 1 h 2 = Some (Inr [1, 2, 3])"
proof -
  have "list_all (\<lambda>x. rb_NegInfinity < x) [3, 1, 2]" "distinct [3, 1, 2 :: int]" "sort [3, 1, 2 :: int] = [1, 2, 3]"
    by (simp_all add: rb_NegInfinity_def)
  then show ?thesis
    using RedBlack_refines_set [OF avail_new_adr, of 1 2 "[3, 1, 2]" "\<lparr>rbElement = 0, rbLeft = 0, rbRight = 0, rbColor = Black\<rparr>"
      "\<lparr>vX = 0, vP = 0, vGP = 0, vGGP = 0\<rparr>"] by fastforce
qed

end
