(* ===== verification/SkipList.thy ===== *)
theory SkipList
  imports NodeHeap BoundedSet
begin

text \<open>
  \<^verbatim>\<open>src/DSAAC/dsl.c\<close>: the deterministic 1-2-3 skip list. The nodes of every level are
  linked by \<open>Right\<close> and end with a node of element \<open>Infinity\<close> and the sentinel
  \<open>Tail\<close>; \<open>Down\<close> leads to the level below, and from the lowest level to the sentinel
  \<open>Bottom\<close>. A list is a pointer to the first node of its highest level. The addresses of the
  sentinels are static variables that only \<open>Initialize\<close> sets; they are the argument
  \<open>b\<close> of the other operations.
\<close>

section \<open>Nodes\<close>

record sknode =
  skElement :: int
  skRight :: int
  skDown :: int

type_synonym skheap = "int \<rightharpoonup> sknode"

record sentinels =
  Bottom :: int
  Tail :: int

definition sk_Infinity :: int where "sk_Infinity = 10000"

section \<open>Operations\<close>

text \<open>\<open>Initialize\<close>: \<open>t1\<close>, \<open>t2\<close>, \<open>t3\<close> are what its calls of
  \<open>malloc\<close> return, \<open>g1\<close> and \<open>g2\<close> what the blocks of the sentinels held (the
  element of \<open>Bottom\<close> and the \<open>Down\<close> of \<open>Tail\<close> are not set).\<close>

definition sk_Initialize ::
  "int \<Rightarrow> int \<Rightarrow> int \<Rightarrow> sknode \<Rightarrow> sknode \<Rightarrow> skheap \<Rightarrow> sentinels \<Rightarrow> (skheap \<times> sentinels \<times> int) res" where
  "sk_Initialize t1 t2 t3 g1 g2 h b =
    bindr (if Bottom b = 0 then
             if t1 = 0 then Inl (FatalError ''Out of space!!!'')
             else let h = h(t1 \<mapsto> g1\<lparr>skRight := t1, skDown := t1\<rparr>) in
               if t2 = 0 then Inl (FatalError ''Out of space!!!'')
               else Inr (h(t2 \<mapsto> g2\<lparr>skElement := sk_Infinity, skRight := t2\<rparr>), \<lparr>Bottom = t1, Tail = t2\<rparr>)
           else Inr (h, b)) (\<lambda>(h, b).
    if t3 = 0 then Inl (FatalError ''Out of space!!!'')
    else Inr (h(t3 \<mapsto> \<lparr>skElement = sk_Infinity, skRight = Tail b, skDown = Bottom b\<rparr>), b, t3))"

definition sk_Output :: "int \<Rightarrow> int list" where
  \<comment> \<open>what is printed\<close>
  "sk_Output Element = [Element]"

definition sk_MakeEmpty :: "sentinels \<Rightarrow> skheap \<Rightarrow> int \<Rightarrow> (skheap \<times> int) res" where
  "sk_MakeEmpty b h L =
    bindr (wr h L (\<lambda>n. n\<lparr>skRight := Tail b\<rparr>)) (\<lambda>h.
    bindr (wr h L (\<lambda>n. n\<lparr>skDown := Bottom b\<rparr>)) (\<lambda>h. Inr (h, L)))"

partial_function (option) sk_find_loop :: "int \<Rightarrow> skheap \<Rightarrow> int \<Rightarrow> int res option" where
  "sk_find_loop Item h Current =
    (case rd h Current of Inl e \<Rightarrow> Some (Inl e) | Inr n \<Rightarrow>
      if Item \<noteq> skElement n then
        sk_find_loop Item h (if Item < skElement n then skDown n else skRight n)
      else Some (Inr Current))"

text \<open>\<open>Find\<close> writes \<open>Item\<close> into \<open>Bottom\<close>, so it returns the memory too.\<close>

definition sk_Find :: "sentinels \<Rightarrow> int \<Rightarrow> skheap \<Rightarrow> int \<Rightarrow> (skheap \<times> int) res option" where
  "sk_Find b Item h L =
    after (wr h (Bottom b) (\<lambda>n. n\<lparr>skElement := Item\<rparr>)) (\<lambda>h.
    andthen (sk_find_loop Item h L) (\<lambda>P. Some (Inr (h, P))))"

partial_function (option) sk_FindMin :: "sentinels \<Rightarrow> skheap \<Rightarrow> int \<Rightarrow> int res option" where
  "sk_FindMin b h Current =
    (case rd h Current of Inl e \<Rightarrow> Some (Inl e) | Inr n \<Rightarrow>
      if skDown n \<noteq> Bottom b then sk_FindMin b h (skDown n) else Some (Inr Current))"

definition right_right :: "skheap \<Rightarrow> int \<Rightarrow> int res" where
  \<comment> \<open>\<open>P->Right->Right\<close>\<close>
  "right_right h P = bindr (rd h P) (\<lambda>n. bindr (rd h (skRight n)) (\<lambda>m. Inr (skRight m)))"

partial_function (option) sk_FindMax :: "sentinels \<Rightarrow> skheap \<Rightarrow> int \<Rightarrow> int res option" where
  "sk_FindMax b h Current =
    (case bindr (right_right h Current) (\<lambda>rr. bindr (rd h Current) (\<lambda>n. Inr (rr, n))) of
      Inl e \<Rightarrow> Some (Inl e)
    | Inr (rr, n) \<Rightarrow>
      if rr \<noteq> Tail b \<or> skDown n \<noteq> Bottom b then
        sk_FindMax b h (if rr \<noteq> Tail b then skRight n else skDown n)
      else Some (Inr Current))"

text \<open>\<open>Insert\<close>. The allocator \<open>al\<close> gives the block for a state of the memory. The inner
  loop, one round of the outer one, and the outer one.\<close>

partial_function (option) sk_skip :: "int \<Rightarrow> skheap \<Rightarrow> int \<Rightarrow> int res option" where
  "sk_skip Item h Current =
    (case rd h Current of Inl e \<Rightarrow> Some (Inl e) | Inr n \<Rightarrow>
      if Item > skElement n then sk_skip Item h (skRight n) else Some (Inr Current))"

definition sk_promote :: "(skheap \<Rightarrow> int) \<Rightarrow> skheap \<Rightarrow> int \<Rightarrow> (skheap \<times> int) res" where
  "sk_promote al h Current =
    bindr (rd h Current) (\<lambda>c.
    bindr (right_right h (skDown c)) (\<lambda>rr.
    bindr (rd h rr) (\<lambda>r.
    if skElement c > skElement r then
      let NewNode = al h in
      if NewNode = 0 then Inl (FatalError ''Out of space!!!'')
      else
        let h = h(NewNode \<mapsto> \<lparr>skElement = skElement c, skRight = skRight c, skDown = rr\<rparr>) in
        bindr (wr h Current (\<lambda>n. n\<lparr>skRight := NewNode\<rparr>)) (\<lambda>h.
        bindr (rd h (skDown c)) (\<lambda>d. bindr (rd h (skRight d)) (\<lambda>m.
        bindr (wr h Current (\<lambda>n. n\<lparr>skElement := skElement m\<rparr>)) (\<lambda>h. Inr (h, Current)))))
    else Inr (h, skDown c))))"

partial_function (option) sk_insert_loop ::
  "(skheap \<Rightarrow> int) \<Rightarrow> sentinels \<Rightarrow> int \<Rightarrow> skheap \<Rightarrow> int \<Rightarrow> skheap res option" where
  "sk_insert_loop al b Item h Current =
    (if Current \<noteq> Bottom b then
       case sk_skip Item h Current of None \<Rightarrow> None | Some (Inl e) \<Rightarrow> Some (Inl e) | Some (Inr Current) \<Rightarrow>
         (case sk_promote al h Current of Inl e \<Rightarrow> Some (Inl e) | Inr (h, Current) \<Rightarrow>
           sk_insert_loop al b Item h Current)
     else Some (Inr h))"

definition sk_raise :: "(skheap \<Rightarrow> int) \<Rightarrow> sentinels \<Rightarrow> skheap \<Rightarrow> int \<Rightarrow> (skheap \<times> int) res" where
  "sk_raise al b h L =
    bindr (rd h L) (\<lambda>l.
    if skRight l \<noteq> Tail b then
      let NewNode = al h in
      if NewNode = 0 then Inl (FatalError ''Out of space!!!'')
      else Inr (h(NewNode \<mapsto> \<lparr>skElement = sk_Infinity, skRight = Tail b, skDown = L\<rparr>), NewNode)
    else Inr (h, L))"

definition sk_Insert :: "(skheap \<Rightarrow> int) \<Rightarrow> sentinels \<Rightarrow> int \<Rightarrow> skheap \<Rightarrow> int \<Rightarrow> (skheap \<times> int) res option" where
  "sk_Insert al b Item h L =
    after (wr h (Bottom b) (\<lambda>n. n\<lparr>skElement := Item\<rparr>)) (\<lambda>h.
    andthen (sk_insert_loop al b Item h L) (\<lambda>h. Some (sk_raise al b h L)))"

text \<open>\<open>Remove\<close> prints that it is unimplemented and returns the list.\<close>

definition sk_Remove :: "int \<Rightarrow> int \<Rightarrow> int \<times> string" where
  "sk_Remove Item L = (L, ''Remove is unimplemented'')"

definition sk_Retrieve :: "skheap \<Rightarrow> int \<Rightarrow> int res" where
  "sk_Retrieve h P = bindr (rd h P) (\<lambda>n. Inr (skElement n))"

end
