(* ===== verification/SkipListInv.thy ===== *)
theory SkipListInv
  imports SkipList
begin

text \<open>
  The levels of a skip list (theory \<open>SkipList\<close>) in memory. A level is the list of its nodes, each
  with address and element; \<open>Down\<close> of a node points to the first node of the level below that is
  greater than the node's predecessor.
\<close>

section \<open>Levels in memory\<close>

type_synonym level = "(int \<times> int) list"

abbreviation el :: "level \<Rightarrow> int list" where "el xs \<equiv> map snd xs"

fun gt :: "int option \<Rightarrow> int \<Rightarrow> bool" where
  "gt None y \<longleftrightarrow> True"
| "gt (Some x) y \<longleftrightarrow> x < y"

text \<open>The element before the nodes that follow \<open>xs\<close>.\<close>

definition lst :: "int option \<Rightarrow> level \<Rightarrow> int option" where
  "lst lo xs = (if xs = [] then lo else Some (snd (last xs)))"

definition adr1 :: "level \<Rightarrow> int \<Rightarrow> int" where
  "adr1 xs z = (case xs of [] \<Rightarrow> z | (a, e) # _ \<Rightarrow> a)"

definition dn :: "sentinels \<Rightarrow> level \<Rightarrow> int option \<Rightarrow> int" where
  "dn b below lo = adr1 (dropWhile (\<lambda>(a, e). \<not> gt lo e) below) (Bottom b)"

text \<open>The nodes \<open>xs\<close> of a level, after the element \<open>lo\<close> and before the address
  \<open>z\<close>.\<close>

fun lrep :: "sentinels \<Rightarrow> skheap \<Rightarrow> level \<Rightarrow> int option \<Rightarrow> level \<Rightarrow> int \<Rightarrow> bool" where
  "lrep b h below lo [] z \<longleftrightarrow> True"
| "lrep b h below lo ((a, e) # xs) z \<longleftrightarrow>
    a \<noteq> 0 \<and> h a = Some \<lparr>skElement = e, skRight = adr1 xs z, skDown = dn b below lo\<rparr> \<and> lrep b h below (Some e) xs z"

definition hdl :: "level list \<Rightarrow> level" where
  "hdl ls = (case ls of [] \<Rightarrow> [] | xs # _ \<Rightarrow> xs)"

fun lvr :: "sentinels \<Rightarrow> skheap \<Rightarrow> level list \<Rightarrow> level \<Rightarrow> bool" where
  "lvr b h [] below \<longleftrightarrow> True"
| "lvr b h (xs # ls) below \<longleftrightarrow> lrep b h (hdl (ls @ [below])) None xs (Tail b) \<and> lvr b h ls below"

definition adrs :: "level list \<Rightarrow> int list" where
  "adrs ls = concat (map (map fst) ls)"

fun nested :: "level list \<Rightarrow> bool" where
  "nested (xs # ys # ls) \<longleftrightarrow> set (el xs) \<subseteq> set (el ys) \<and> nested (ys # ls)"
| "nested ls \<longleftrightarrow> True"

definition level_ok :: "level \<Rightarrow> bool" where
  "level_ok xs \<longleftrightarrow> xs \<noteq> [] \<and> sorted_wrt (<) (el xs) \<and> snd (last xs) = sk_Infinity"

text \<open>The list with the levels \<open>ls\<close>, the highest first; \<open>Bottom\<close> holds
  \<open>Item\<close>.\<close>

definition sk :: "sentinels \<Rightarrow> skheap \<Rightarrow> int \<Rightarrow> level list \<Rightarrow> bool" where
  "sk b h Item ls \<longleftrightarrow> finite (dom h) \<and> Bottom b \<noteq> 0 \<and> Tail b \<noteq> 0 \<and> Bottom b \<noteq> Tail b \<and>
    h (Bottom b) = Some \<lparr>skElement = Item, skRight = Bottom b, skDown = Bottom b\<rparr> \<and>
    (\<exists>d. h (Tail b) = Some \<lparr>skElement = sk_Infinity, skRight = Tail b, skDown = d\<rparr>) \<and>
    lvr b h ls [] \<and> list_all level_ok ls \<and> nested ls \<and> distinct (Bottom b # Tail b # adrs ls)"

lemma lst_simps [simp]: "lst lo [] = lo" "lst lo (xs @ [(a, e)]) = Some e" "lst lo ((a, e) # xs) = lst (Some e) xs"
  by (auto simp: lst_def)

lemma adr1_simps [simp]: "adr1 [] z = z" "adr1 ((a, e) # xs) z = a"
  by (auto simp: adr1_def)

lemma adr1_append: "adr1 (xs @ ys) z = adr1 xs (adr1 ys z)"
  by (cases xs) auto

lemma hdl_simps [simp]: "hdl [] = []" "hdl (xs # ls) = xs"
  by (auto simp: hdl_def)

lemma lst_append: "lst lo (xs @ ys) = lst (lst lo xs) ys"
  by (auto simp: lst_def)

lemma lrep_append: "lrep b h below lo (xs @ ys) z \<longleftrightarrow> lrep b h below lo xs (adr1 ys z) \<and> lrep b h below (lst lo xs) ys z"
  by (induction xs arbitrary: lo) (auto simp: adr1_append)

lemma lrep_upd [simp]: "a \<notin> fst ` set xs \<Longrightarrow> lrep b (h(a := n)) below lo xs z = lrep b h below lo xs z"
  by (induction xs arbitrary: lo) auto

lemma lvr_append: "lvr b h (us @ vs) below \<longleftrightarrow> lvr b h us (hdl (vs @ [below])) \<and> lvr b h vs below"
proof (induction us)
  case (Cons u us)
  then show ?case by (cases us; cases vs) auto
qed simp

lemma lvr_upd [simp]: "a \<notin> set (adrs ls) \<Longrightarrow> lvr b (h(a := n)) ls below = lvr b h ls below"
  by (induction ls) (auto simp: adrs_def)

lemma adrs_simps [simp]: "adrs [] = []" "adrs (xs # ls) = map fst xs @ adrs ls" "adrs (us @ ls) = adrs us @ adrs ls"
  by (auto simp: adrs_def)

text \<open>Only the elements of a level matter for where its \<open>Down\<close> pointers lead.\<close>

lemma lrep_below_cong:
  assumes "dn b below' lo = dn b below lo" "\<And>x. x \<in> set (el xs) \<Longrightarrow> dn b below' (Some x) = dn b below (Some x)"
  shows "lrep b h below' lo xs z = lrep b h below lo xs z"
  using assms by (induction b h below lo xs z rule: lrep.induct) auto

section \<open>Splitting a node\<close>

lemma gt_lst: "gt (lst lo xs) y \<longleftrightarrow> (if xs = [] then gt lo y else snd (last xs) < y)"
  by (simp add: lst_def)

lemma dn_None: "dn b xs None = adr1 xs (Bottom b)"
  by (cases xs) (auto simp: dn_def)

lemma dn_split:
  assumes s: "sorted_wrt (<) (el (pre @ (a, e) # post))" and y: "\<And>x. x \<in> set (el pre) \<Longrightarrow> x < y" "y < e"
    and l: "lo = None \<or> lo \<in> Some ` set (el (pre @ (a, e) # post))"
  shows "dn b (pre @ (a, y) # (n, e) # post) lo = dn b (pre @ (a, e) # post) lo"
proof (cases lo)
  case None
  then show ?thesis by (cases pre) (auto simp: dn_None)
next
  case (Some l)
  then have l': "l \<in> set (el (pre @ (a, e) # post))" using l by auto
  show ?thesis
  proof (cases "l \<in> set (el pre)")
    case True
    then have "l < y" "l < e" using y by force+
    then show ?thesis using Some
      by (cases "\<exists>x \<in> set pre. l < snd x") (auto simp: dn_def dropWhile_append adr1_append split: prod.splits)
  next
    case False
    then have "e \<le> l" using l' s by (auto simp: sorted_wrt_append)
    moreover have "\<forall>x \<in> set pre. snd x \<le> l" using s \<open>e \<le> l\<close> by (auto simp: sorted_wrt_append)
    ultimately show ?thesis using Some y(2)
      by (auto simp: dn_def dropWhile_append dropWhile_eq_Nil_conv split: prod.splits) 
  qed
qed

lemma lvr_below_cong:
  assumes "dn b X' None = dn b X None" "\<And>x. us \<noteq> [] \<Longrightarrow> x \<in> set (el (last us)) \<Longrightarrow> dn b X' (Some x) = dn b X (Some x)"
  shows "lvr b h us X' = lvr b h us X"
  using assms
proof (induction us)
  case (Cons u us)
  show ?case
  proof (cases "us = []")
    case True
    then have "lrep b h X' None u (Tail b) = lrep b h X None u (Tail b)" using Cons.prems by (intro lrep_below_cong) auto
    then show ?thesis using True by simp
  next
    case False
    then have "hdl (us @ [X']) = hdl (us @ [X])" by (cases us) auto
    then show ?thesis using Cons.IH Cons.prems False by simp
  qed
qed simp

lemma nested_append:
  "nested (us @ xs # ls) \<longleftrightarrow> nested us \<and> (us \<noteq> [] \<longrightarrow> set (el (last us)) \<subseteq> set (el xs)) \<and> nested (xs # ls)"
proof (induction us)
  case (Cons u us)
  then show ?case by (cases us) auto
qed simp

lemma nested_Cons: "nested (xs # ls) \<longleftrightarrow> (ls \<noteq> [] \<longrightarrow> set (el xs) \<subseteq> set (el (hd ls))) \<and> nested ls"
  by (cases ls) auto

lemma lrep_dom: "lrep b h below lo xs z \<Longrightarrow> fst ` set xs \<subseteq> dom h"
  by (induction b h below lo xs z rule: lrep.induct) auto

lemma lvr_dom: "lvr b h ls below \<Longrightarrow> set (adrs ls) \<subseteq> dom h"
proof (induction ls)
  case (Cons xs ls)
  then show ?case using lrep_dom [of b h "hdl (ls @ [below])" None xs "Tail b"] by auto
qed simp

lemma sk_split:
  assumes s: "sk b h Item (us @ (pre @ (a, e) # post) # ls)" and n: "n \<noteq> 0" "h n = None"
    and y: "\<And>x. x \<in> set (el pre) \<Longrightarrow> x < y" "y < e" "ls \<noteq> [] \<Longrightarrow> y \<in> set (el (hd ls))"
  defines "h' \<equiv> h(n \<mapsto> \<lparr>skElement = e, skRight = adr1 post (Tail b), skDown = dn b (hdl ls) (Some y)\<rparr>,
      a \<mapsto> \<lparr>skElement = y, skRight = n, skDown = dn b (hdl ls) (lst None pre)\<rparr>)"
  shows "sk b h' Item (us @ (pre @ (a, y) # (n, e) # post) # ls)"
proof -
  let ?X = "pre @ (a, e) # post" let ?X' = "pre @ (a, y) # (n, e) # post"
  have lv: "lvr b h us ?X" "lvr b h ls []" "lrep b h (hdl ls) None ?X (Tail b)"
    using s by (cases ls; auto simp: sk_def lvr_append)+
  have ok: "list_all level_ok us" "level_ok ?X" "list_all level_ok ls" and ne: "nested (us @ ?X # ls)"
    and di: "distinct (Bottom b # Tail b # adrs (us @ ?X # ls))" using s by (auto simp: sk_def)
  have un: "set (adrs us) \<subseteq> dom h" "set (adrs ls) \<subseteq> dom h" "fst ` set ?X \<subseteq> dom h"
    using lvr_dom lrep_dom lv by blast+
  have nf: "n \<notin> set (adrs (us @ ?X # ls))" "n \<noteq> Bottom b" "n \<noteq> Tail b"
    using un n(2) s by (auto simp: sk_def)
  have so: "sorted_wrt (<) (el ?X)" using ok(2) by (simp add: level_ok_def)
  have "lvr b h' us ?X' = lvr b h us ?X'" using nf di by (simp add: h'_def)
  also have "\<dots> = lvr b h us ?X"
    using ne by (intro lvr_below_cong dn_split [OF so y(1,2)]) (auto simp: nested_append)
  finally have 1: "lvr b h' us ?X'" using lv(1) by simp
  have 2: "lvr b h' ls []" using lv(2) nf di by (simp add: h'_def)
  have 3: "lrep b h' (hdl ls) None ?X' (Tail b)"
    using lv(3) nf di n(1) by (auto simp: h'_def lrep_append)
  have so': "level_ok ?X'" using ok(2) y(1,2) by (auto simp: level_ok_def sorted_wrt_append)
  have ne': "nested (us @ ?X' # ls)" using ne y(3) by (auto simp: nested_append nested_Cons)
  have sent: "h' (Bottom b) = h (Bottom b)" "h' (Tail b) = h (Tail b)" "finite (dom h')"
    using nf di s by (auto simp: h'_def sk_def)
  have "lvr b h' (us @ ?X' # ls) []" using 1 2 3 by (cases ls) (auto simp: lvr_append)
  moreover have "distinct (Bottom b # Tail b # adrs (us @ ?X' # ls))" using di nf by auto
  ultimately show ?thesis using s sent ok so' ne' by (auto simp: sk_def)
qed

section \<open>Gaps\<close>

text \<open>Each node of a level has two to four nodes of the level below, which has the elements
  \<open>S\<close>.\<close>

definition between :: "int set \<Rightarrow> int option \<Rightarrow> int \<Rightarrow> int set" where
  "between S lo e = {y \<in> S. gt lo y \<and> y \<le> e}"

fun gapok :: "int set \<Rightarrow> int option \<Rightarrow> int list \<Rightarrow> bool" where
  "gapok S lo [] \<longleftrightarrow> True"
| "gapok S lo (e # es) \<longleftrightarrow> 2 \<le> card (between S lo e) \<and> card (between S lo e) \<le> 4 \<and> gapok S (Some e) es"

fun gaps :: "level list \<Rightarrow> bool" where
  "gaps (xs # ys # ls) \<longleftrightarrow> gapok (set (el ys)) None (el xs) \<and> gaps (ys # ls)"
| "gaps ls \<longleftrightarrow> True"

definition lste :: "int option \<Rightarrow> int list \<Rightarrow> int option" where
  "lste lo xs = (if xs = [] then lo else Some (last xs))"

lemma lste_simps [simp]: "lste lo [] = lo" "lste lo (x # xs) = lste (Some x) xs"
  by (auto simp: lste_def)

lemma lst_lste: "lst lo xs = lste lo (el xs)"
  by (auto simp: lst_def lste_def last_map)

lemma gapok_append: "gapok S lo (xs @ ys) \<longleftrightarrow> gapok S lo xs \<and> gapok S (lste lo xs) ys"
  by (induction xs arbitrary: lo) auto

lemma between_insert_out: "\<not> (gt lo y \<and> y \<le> e) \<Longrightarrow> between (insert y S) lo e = between S lo e"
  by (auto simp: between_def)

lemma finite_between [simp]: "finite S \<Longrightarrow> finite (between S lo e)"
  by (simp add: between_def)

lemma gapok_insert_out:
  "(\<forall>e \<in> set es. e < y) \<or> (\<exists>x. lo = Some x \<and> y \<le> x) \<Longrightarrow> sorted_wrt (<) es \<Longrightarrow>
    (\<forall>e \<in> set es. gt lo e) \<Longrightarrow> gapok (insert y S) lo es = gapok S lo es"
proof (induction es arbitrary: lo)
  case (Cons e es)
  have o: "\<not> (gt lo y \<and> y \<le> e)" using Cons.prems by auto
  have "gapok (insert y S) (Some e) es = gapok S (Some e) es" using Cons.prems by (intro Cons.IH) auto
  then show ?case using between_insert_out [OF o] by simp
qed simp

lemma gapok_insert:
  assumes g: "gapok S lo (p @ e # q)" and s: "sorted_wrt (<) (p @ e # q)" "\<And>x. x \<in> set (p @ e # q) \<Longrightarrow> gt lo x"
    and y: "\<And>x. x \<in> set p \<Longrightarrow> x < y" "y \<le> e" "finite S" and c: "card (between S (lste lo p) e) \<le> 3"
  shows "gapok (insert y S) lo (p @ e # q)"
proof -
  have 1: "gapok (insert y S) lo p = gapok S lo p" using s y(1) by (intro gapok_insert_out) (auto simp: sorted_wrt_append)
  have 2: "gapok (insert y S) (Some e) q = gapok S (Some e) q"
    using s y(2) by (intro gapok_insert_out) (auto simp: sorted_wrt_append)
  have i: "between (insert y S) (lste lo p) e \<subseteq> insert y (between S (lste lo p) e)" by (auto simp: between_def)
  have "card (between (insert y S) (lste lo p) e) \<le> Suc (card (between S (lste lo p) e))"
    using card_mono [OF _ i] y(3) by (metis card_insert_if finite.insertI finite_between le_Suc_eq)
  moreover have "card (between S (lste lo p) e) \<le> card (between (insert y S) (lste lo p) e)"
    using y(3) by (intro card_mono) (auto simp: between_def)
  ultimately show ?thesis using g c 1 2 by (simp add: gapok_append)
qed

lemma gapok_split:
  assumes "gapok S lo (p @ e # q)" "card (between S (lste lo p) y) = 2" "card (between S (Some y) e) = 2"
  shows "gapok S lo (p @ y # e # q)"
  using assms by (simp add: gapok_append)

text \<open>The nodes of the level below that belong to a node with predecessor \<open>lo\<close> and element
  \<open>e\<close>.\<close>

definition window :: "level \<Rightarrow> int option \<Rightarrow> level" where
  "window below lo = dropWhile (\<lambda>(a, e). \<not> gt lo e) below"

lemma dn_window: "dn b below lo = adr1 (window below lo) (Bottom b)"
  by (simp add: dn_def window_def)

lemma window_split:
  obtains P where "below = P @ window below lo" "\<And>x. x \<in> set (el P) \<Longrightarrow> \<not> gt lo x"
proof
  show "below = takeWhile (\<lambda>(a, e). \<not> gt lo e) below @ window below lo" by (simp add: window_def)
  show "\<not> gt lo x" if "x \<in> set (el (takeWhile (\<lambda>(a, e). \<not> gt lo e) below))" for x
    using that by (auto dest: set_takeWhileD)
qed

lemma window_gt:
  assumes "sorted_wrt (<) (el below)" "x \<in> set (el (window below lo))"
  shows "gt lo x"
proof -
  obtain c y Q where Q: "window below lo = (c, y) # Q" using assms(2) by (cases "window below lo") auto
  then have "gt lo y" unfolding window_def by (auto simp: dropWhile_eq_Cons_conv)
  moreover obtain P where "below = P @ window below lo" by (rule window_split)
  then have "sorted_wrt (<) (el (window below lo))" using assms(1) by (metis map_append sorted_wrt_append)
  then have "y \<le> x" using assms(2) Q by auto
  ultimately show ?thesis by (cases lo) auto
qed

lemma between_window:
  assumes "sorted_wrt (<) (el below)"
  shows "between (set (el below)) lo e = {y \<in> set (el (window below lo)). y \<le> e}"
proof -
  obtain P where P: "below = P @ window below lo" "\<And>x. x \<in> set (el P) \<Longrightarrow> \<not> gt lo x" by (rule window_split [of below lo]) blast
  have "set (el below) = set (el P) \<union> set (el (window below lo))" by (subst P(1)) simp
  then show ?thesis using P(2) window_gt [OF assms] by (auto simp: between_def simp del: set_map)
qed

lemma sorted_window: "sorted_wrt (<) (el below) \<Longrightarrow> sorted_wrt (<) (el (window below lo))"
  by (metis map_append sorted_wrt_append window_split)

lemma window_three:
  assumes s: "sorted_wrt (<) (el below)" and w: "window below lo = (c1, y1) # (c2, y2) # (c3, y3) # R" "y3 < e"
    and e: "e \<in> set (el below)" and c: "card (between (set (el below)) lo e) \<le> 4"
  shows "card (between (set (el below)) lo y2) = 2" "card (between (set (el below)) (Some y2) e) = 2"
    "card (between (set (el below)) lo e) = 4"
proof -
  let ?S = "set (el below)"
  have so: "y1 < y2" "y2 < y3" "\<And>x. x \<in> set (el R) \<Longrightarrow> y3 < x" using sorted_window [OF s, of lo] w(1) by auto
  have g: "gt lo y1" using window_gt [OF s, of y1 lo] w(1) by simp
  then have ge: "gt lo e" "gt lo y2" using so w(2) by (cases lo; auto)+
  have b: "between ?S lo z = {y \<in> {y1, y2, y3} \<union> set (el R). y \<le> z}" for z using between_window [OF s, of lo z] w(1) by auto
  have "e \<in> between ?S lo e" using e ge by (simp add: between_def)
  then have eR: "e \<in> set (el R)" using b [of e] so w(2) by auto
  have "y1 \<le> e" "y2 \<le> e" "y3 \<le> e" using so(1,2) w(2) by auto
  then have sub: "{y1, y2, y3, e} \<subseteq> between ?S lo e" using b [of e] eR by auto
  have c4: "card {y1, y2, y3, e} = 4" using so w(2) by (simp add: card_insert_if)
  have eq: "between ?S lo e = {y1, y2, y3, e}"
    using card_subset_eq [OF _ sub] c c4 card_mono [OF _ sub] by (simp add: le_antisym)
  then show "card (between ?S lo e) = 4" using c4 by simp
  have "y2 < x" if "x \<in> set (el R)" for x using so(2) so(3) [OF that] by simp
  then have "between ?S lo y2 = {y1, y2}" using b [of y2] so(1,2) by (auto simp del: set_map) (meson not_le)
  then show "card (between ?S lo y2) = 2" using so by simp
  have "between ?S (Some y2) e = {y3, e}"
  proof -
    have "between ?S (Some y2) e = {y \<in> between ?S lo e. y2 < y}" using ge(2) by (cases lo) (auto simp: between_def)
    then show ?thesis using eq so w(2) by auto
  qed
  then show "card (between ?S (Some y2) e) = 2" using w(2) by simp
qed

lemma window_few:
  assumes s: "sorted_wrt (<) (el below)" and w: "\<And>c1 y1 c2 y2 c3 y3 R. window below lo = (c1, y1) # (c2, y2) # (c3, y3) # R \<Longrightarrow> e \<le> y3"
  shows "card (between (set (el below)) lo e) \<le> 3"
proof -
  have "between (set (el below)) lo e \<subseteq> set (take 3 (el (window below lo)))"
  proof
    fix y assume "y \<in> between (set (el below)) lo e"
    then have y: "y \<in> set (el (window below lo))" "y \<le> e" using between_window [OF s] by auto
    show "y \<in> set (take 3 (el (window below lo)))"
    proof (cases "length (window below lo) \<le> 3")
      case False
      then obtain c1 y1 c2 y2 c3 y3 R where W: "window below lo = (c1, y1) # (c2, y2) # (c3, y3) # R"
        by (auto simp: not_le Suc_less_eq2 numeral_eq_Suc length_Suc_conv dest!: Suc_leI)
      have "y3 < x" if "x \<in> set (el R)" for x using sorted_window [OF s, of lo] W that by auto
      then have "y \<notin> set (el R)" using y(2) w [OF W] by fastforce
      then show ?thesis using y(1) W by (auto simp: numeral_eq_Suc)
    qed (use y in simp)
  qed
  then have "card (between (set (el below)) lo e) \<le> card (set (take 3 (el (window below lo))))" by (intro card_mono) auto
  also have "\<dots> \<le> 3" using card_length [of "take 3 (el (window below lo))"] by simp
  finally show ?thesis .
qed

section \<open>The steps of \<open>Insert\<close>\<close>

lemma sk_level:
  assumes "sk b h Item (us @ xs # ls)"
  shows "lrep b h (hdl ls) None xs (Tail b)" "level_ok xs" "ls \<noteq> [] \<Longrightarrow> set (el xs) \<subseteq> set (el (hd ls))"
  using assms by (cases ls; auto simp: sk_def lvr_append nested_append nested_Cons)+

lemma sk_rd:
  assumes "sk b h Item (us @ (pre @ (a, e) # post) # ls)"
  shows "rd h a = Inr \<lparr>skElement = e, skRight = adr1 post (Tail b), skDown = dn b (hdl ls) (lst None pre)\<rparr>"
    "a \<noteq> Bottom b" "a \<noteq> Tail b"
proof -
  show "rd h a = Inr \<lparr>skElement = e, skRight = adr1 post (Tail b), skDown = dn b (hdl ls) (lst None pre)\<rparr>"
    using sk_level(1) [OF assms] by (simp add: lrep_append rd_ok)
  show "a \<noteq> Bottom b" "a \<noteq> Tail b" using assms by (auto simp: sk_def)
qed

text \<open>Reading along a suffix of a level, into \<open>Tail\<close>.\<close>

definition elt1 :: "level \<Rightarrow> int" where
  "elt1 xs = (case xs of [] \<Rightarrow> sk_Infinity | (a, e) # _ \<Rightarrow> e)"

lemma elt1_simps [simp]: "elt1 [] = sk_Infinity" "elt1 ((a, e) # xs) = e"
  by (simp_all add: elt1_def)

lemma rd_suffix:
  assumes s: "sk b h Item (us @ (P @ Q) # ls)"
  shows "\<exists>d. rd h (adr1 Q (Tail b)) = Inr \<lparr>skElement = elt1 Q, skRight = adr1 (tl Q) (Tail b), skDown = d\<rparr>"
proof (cases Q)
  case Nil
  then show ?thesis using s by (auto simp: sk_def rd_ok)
next
  case (Cons q Q')
  obtain c y where q: "q = (c, y)" by (cases q)
  show ?thesis using sk_rd(1) [of b h Item us P c y Q' ls] s Cons q by simp
qed

lemma right_right_suffix:
  assumes s: "sk b h Item (us @ (P @ Q) # ls)"
  shows "right_right h (adr1 Q (Tail b)) = Inr (adr1 (tl (tl Q)) (Tail b))"
proof -
  obtain R where R: "Q = R @ tl Q" by (cases Q) auto
  have "sk b h Item (us @ ((P @ R) @ tl Q) # ls)" using s R by (metis append.assoc)
  from rd_suffix [OF this] rd_suffix [OF s] show ?thesis by (auto simp: right_right_def)
qed

lemma sk_skip_ok:
  "sk b h Item (us @ (pre @ (a, e) # post) # ls) \<Longrightarrow> (\<And>x. x \<in> set (el pre) \<Longrightarrow> x < Item) \<Longrightarrow> Item < sk_Infinity \<Longrightarrow>
    \<exists>pre' a' e' post'. pre @ (a, e) # post = pre' @ (a', e') # post' \<and> sk_skip Item h a = Some (Inr a') \<and>
      (\<forall>x \<in> set (el pre'). x < Item) \<and> Item \<le> e'"
proof (induction post arbitrary: pre a e)
  case Nil
  have "e = sk_Infinity" using sk_level(2) [OF Nil(1)] by (simp add: level_ok_def)
  moreover have "sk_skip Item h a = Some (Inr a)" if "Item \<le> e"
    using sk_rd(1) [OF Nil(1)] that by (subst sk_skip.simps) simp
  ultimately show ?case using Nil by (intro exI [of _ pre] exI [of _ a] exI [of _ e] exI [of _ "[]"]) auto
next
  case (Cons q post)
  obtain c y where q: "q = (c, y)" by (cases q)
  show ?case
  proof (cases "Item \<le> e")
    case True
    then have "sk_skip Item h a = Some (Inr a)" using sk_rd(1) [OF Cons(2)] by (subst sk_skip.simps) simp
    then show ?thesis using Cons(3) True by blast
  next
    case False
    then have "sk_skip Item h a = sk_skip Item h c" using sk_rd(1) [OF Cons(2)] q by (subst sk_skip.simps) simp
    moreover have "x < Item" if "x \<in> set (el (pre @ [(a, e)]))" for x using that Cons(3) False by auto
    moreover have "sk b h Item (us @ ((pre @ [(a, e)]) @ (c, y) # post) # ls)" using Cons(2) q by simp
    ultimately show ?thesis using Cons.IH [of "pre @ [(a, e)]" c y] Cons(4) q by simp
  qed
qed

lemma promote_writes:
  assumes "rd h a = Inr c" "right_right h (skDown c) = Inr rr" "rd h rr = Inr r" "skElement r < skElement c"
    "al h \<noteq> 0" "h (al h) = None" "rd h (skDown c) = Inr d" "rd h (skRight d) = Inr m" "a \<noteq> skDown c" "a \<noteq> skRight d"
  shows "sk_promote al h a = Inr (h(al h \<mapsto> \<lparr>skElement = skElement c, skRight = skRight c, skDown = rr\<rparr>,
    a \<mapsto> \<lparr>skElement = skElement m, skRight = al h, skDown = skDown c\<rparr>), a)"
proof -
  let ?n = "al h"
  let ?h1 = "h(?n \<mapsto> \<lparr>skElement = skElement c, skRight = skRight c, skDown = rr\<rparr>)"
  have ne: "a \<noteq> 0" "a \<noteq> ?n" "h a = Some c" "skDown c \<noteq> ?n" "skRight d \<noteq> ?n" "skDown c \<noteq> 0" "skRight d \<noteq> 0"
    "h (skDown c) = Some d" "h (skRight d) = Some m"
    using assms by (auto simp: rd_def split: if_splits option.splits)
  have w: "wr ?h1 a (\<lambda>n. n\<lparr>skRight := ?n\<rparr>) = Inr (?h1(a \<mapsto> c\<lparr>skRight := ?n\<rparr>))" using ne by (simp add: wr_ok)
  have "rd (?h1(a \<mapsto> c\<lparr>skRight := ?n\<rparr>)) (skDown c) = Inr d" "rd (?h1(a \<mapsto> c\<lparr>skRight := ?n\<rparr>)) (skRight d) = Inr m"
    using ne assms(9,10) by (simp_all add: rd_ok)
  moreover obtain x r' d' where "c = \<lparr>skElement = x, skRight = r', skDown = d'\<rparr>" by (cases c)
  ultimately show ?thesis using assms(1-5) ne w by (simp add: sk_promote_def Let_def wr_ok)
qed

lemma window_after:
  assumes "sorted_wrt (<) (el (A @ (c, y) # (d, z) # R))"
  shows "window (A @ (c, y) # (d, z) # R) (Some y) = (d, z) # R"
proof -
  have "\<forall>x \<in> set (A @ [(c, y)]). \<not> y < snd x" using assms by (auto simp: sorted_wrt_append)
  then have "dropWhile (\<lambda>(a, e). \<not> y < e) ((A @ [(c, y)]) @ (d, z) # R) = dropWhile (\<lambda>(a, e). \<not> y < e) ((d, z) # R)"
    by (intro dropWhile_append2) auto
  then show ?thesis using assms by (auto simp: window_def sorted_wrt_append)
qed

lemma level_le_Infinity: "level_ok xs \<Longrightarrow> x \<in> set (el xs) \<Longrightarrow> x \<le> sk_Infinity"
proof -
  assume l: "level_ok xs" and x: "x \<in> set (el xs)"
  then obtain ys y where "xs = ys @ [y]" by (cases xs rule: rev_cases) auto
  then show "x \<le> sk_Infinity" using l x by (auto simp: level_ok_def sorted_wrt_append)
qed

lemma window_nonempty: "sorted_wrt (<) (el below) \<Longrightarrow> 2 \<le> card (between (set (el below)) lo e) \<Longrightarrow> window below lo \<noteq> []"
  using between_window [of below lo e] by auto

text \<open>With three nodes below its element, the node is split.\<close>

lemma promote_three:
  assumes s: "sk b h Item (us @ (pre @ (a, e) # post) # below # ls)" and al: "avail al"
    and w: "window below (lst None pre) = (c1, y1) # (c2, y2) # (c3, y3) # R" "y3 < e"
  shows "\<exists>h'. sk_promote al h a = Inr (h', a) \<and> sk b h' Item (us @ (pre @ (a, y2) # (al h, e) # post) # below # ls)"
    "y2 \<in> set (el below)" "\<And>x. x \<in> set (el pre) \<Longrightarrow> x < y2" "y2 < e"
proof -
  let ?lo = "lst None pre"
  have lev: "level_ok (pre @ (a, e) # post)" "level_ok below"
    using sk_level(2) [OF s] sk_level(2) [of b h Item "us @ [pre @ (a, e) # post]" below ls] s by auto
  then have so: "sorted_wrt (<) (el below)" by (simp add: level_ok_def)
  obtain P where P: "below = P @ window below ?lo" "\<And>x. x \<in> set (el P) \<Longrightarrow> \<not> gt ?lo x" by (rule window_split [of below ?lo]) blast
  have below: "below = (P @ [(c1, y1)]) @ (c2, y2) # (c3, y3) # R" using P(1) w by simp
  have yy: "y1 < y2" "y2 < y3" "gt ?lo y1" using sorted_window [OF so, of ?lo] w window_gt [OF so, of y1 ?lo] by auto
  show pre: "x < y2" if x: "x \<in> set (el pre)" for x
  proof (cases pre rule: rev_cases)
    case (snoc pr p)
    then show ?thesis using lev(1) x yy by (auto simp: level_ok_def sorted_wrt_append lst_def)
  qed (use x in simp)
  show "y2 \<in> set (el below)" "y2 < e" using below yy w(2) by auto
  have n: "al h \<noteq> 0" "h (al h) = None" using al s by (auto simp: avail_def sk_def)
  have d: "dn b below ?lo = c1" "dn b below (Some y2) = c3"
    using window_after [of "P @ [(c1, y1)]" c2 y2 c3 y3 R] so below w(1) by (simp_all add: dn_window)
  let ?us = "us @ [pre @ (a, e) # post]"
  have ra: "rd h a = Inr \<lparr>skElement = e, skRight = adr1 post (Tail b), skDown = c1\<rparr>" using sk_rd(1) [OF s] d by simp
  have r1: "rd h c1 = Inr \<lparr>skElement = y1, skRight = c2, skDown = dn b (hdl ls) (lst None P)\<rparr>"
    using sk_rd(1) [of b h Item ?us P c1 y1 "(c2, y2) # (c3, y3) # R" ls] s below by simp
  have r2: "rd h c2 = Inr \<lparr>skElement = y2, skRight = c3, skDown = dn b (hdl ls) (lst None (P @ [(c1, y1)]))\<rparr>"
    using sk_rd(1) [of b h Item ?us "P @ [(c1, y1)]" c2 y2 "(c3, y3) # R" ls] s below by simp
  have r3: "rd h c3 = Inr \<lparr>skElement = y3, skRight = adr1 R (Tail b), skDown = dn b (hdl ls) (lst None (P @ [(c1, y1), (c2, y2)]))\<rparr>"
    using sk_rd(1) [of b h Item ?us "P @ [(c1, y1), (c2, y2)]" c3 y3 R ls] s below by simp
  have ne: "a \<noteq> c1" "a \<noteq> c2" using s below by (auto simp: sk_def)
  have "sk_promote al h a = Inr (h(al h \<mapsto> \<lparr>skElement = e, skRight = adr1 post (Tail b), skDown = c3\<rparr>,
      a \<mapsto> \<lparr>skElement = y2, skRight = al h, skDown = c1\<rparr>), a)"
    using promote_writes [OF ra, of c3] r1 r2 r3 ne n w(2) by (simp add: right_right_def)
  moreover have "sk b (h(al h \<mapsto> \<lparr>skElement = e, skRight = adr1 post (Tail b), skDown = c3\<rparr>,
      a \<mapsto> \<lparr>skElement = y2, skRight = al h, skDown = c1\<rparr>)) Item (us @ (pre @ (a, y2) # (al h, e) # post) # below # ls)"
    using sk_split [OF s n pre] \<open>y2 \<in> set (el below)\<close> \<open>y2 < e\<close> d by simp
  ultimately show "\<exists>h'. sk_promote al h a = Inr (h', a) \<and> sk b h' Item (us @ (pre @ (a, y2) # (al h, e) # post) # below # ls)"
    by blast
qed

lemma three_cases:
  assumes "Q \<noteq> []" "\<not> (\<exists>c1 y1 c2 y2 c3 y3 R. Q = (c1, y1) # (c2, y2) # (c3, y3) # R \<and> y3 < e)" "e \<le> sk_Infinity"
  shows "e \<le> elt1 (tl (tl Q))"
proof (cases "tl (tl Q)")
  case (Cons q R)
  then obtain c1 y1 c2 y2 where "Q = (c1, y1) # (c2, y2) # q # R" using assms(1)
    by (metis list.exhaust_sel surj_pair list.sel(2) list.distinct(1))
  then show ?thesis using assms(2) Cons by (cases q) auto
qed (use assms(3) in simp)

lemma promote_inner:
  assumes s: "sk b h Item (us @ (pre @ (a, e) # post) # below # ls)" and al: "avail al"
    and g: "gapok (set (el below)) None (el (pre @ (a, e) # post))"
  obtains (split) h' n y where "sk_promote al h a = Inr (h', a)"
      "sk b h' Item (us @ (pre @ (a, y) # (n, e) # post) # below # ls)" "y \<in> set (el below)"
      "card (between (set (el below)) (lst None pre) y) = 2" "card (between (set (el below)) (Some y) e) = 2"
      "card (between (set (el below)) (lst None pre) e) = 4" "\<And>x. x \<in> set (el pre) \<Longrightarrow> x < y" "y < e"
    | (down) "sk_promote al h a = Inr (h, adr1 (window below (lst None pre)) (Tail b))"
      "card (between (set (el below)) (lst None pre) e) \<le> 3" "window below (lst None pre) \<noteq> []"
proof -
  let ?lo = "lst None pre" let ?Q = "window below ?lo" let ?S = "set (el below)"
  have lev: "level_ok (pre @ (a, e) # post)" "level_ok below" "e \<in> ?S"
    using sk_level [OF s] sk_level(2) [of b h Item "us @ [pre @ (a, e) # post]" below ls] s by auto
  have so: "sorted_wrt (<) (el below)" using lev(2) by (simp add: level_ok_def)
  have c: "2 \<le> card (between ?S ?lo e)" "card (between ?S ?lo e) \<le> 4" using g by (auto simp: gapok_append lst_lste)
  have Q: "?Q \<noteq> []" by (rule window_nonempty [OF so c(1)])
  show ?thesis
  proof (cases "\<exists>c1 y1 c2 y2 c3 y3 R. ?Q = (c1, y1) # (c2, y2) # (c3, y3) # R \<and> y3 < e")
    case True
    then obtain c1 y1 c2 y2 c3 y3 R where w: "?Q = (c1, y1) # (c2, y2) # (c3, y3) # R" "y3 < e" by blast
    note p = promote_three [OF s al w]
    obtain h' where h': "sk_promote al h a = Inr (h', a)" "sk b h' Item (us @ (pre @ (a, y2) # (al h, e) # post) # below # ls)"
      using p(1) by blast
    show ?thesis by (rule split [OF h' p(2) window_three [OF so w lev(3) c(2)] p(3,4)])
  next
    case False
    have le: "e \<le> elt1 (tl (tl ?Q))" using three_cases [OF Q False] level_le_Infinity [OF lev(1)] by simp
    obtain P where P: "below = P @ ?Q" by (rule window_split [of below ?lo]) blast
    have sb: "sk b h Item ((us @ [pre @ (a, e) # post]) @ (P @ ?Q) # ls)" using s P by simp
    obtain R where R: "?Q = R @ tl (tl ?Q)" by (cases ?Q; cases "tl ?Q") auto
    have "sk b h Item ((us @ [pre @ (a, e) # post]) @ ((P @ R) @ tl (tl ?Q)) # ls)" using sb R by (metis append.assoc)
    from rd_suffix [OF this] obtain d3 where r3: "rd h (adr1 (tl (tl ?Q)) (Tail b)) =
        Inr \<lparr>skElement = elt1 (tl (tl ?Q)), skRight = adr1 (tl (tl (tl ?Q))) (Tail b), skDown = d3\<rparr>" by blast
    have "dn b below ?lo = adr1 ?Q (Tail b)" using Q by (cases ?Q) (auto simp: dn_window)
    then have "sk_promote al h a = Inr (h, adr1 ?Q (Tail b))"
      using sk_rd(1) [OF s] right_right_suffix [OF sb] r3 le by (simp add: sk_promote_def)
    moreover have "card (between ?S ?lo e) \<le> 3" using window_few [OF so, of ?lo e] False by fastforce
    ultimately show ?thesis using Q by (rule down)
  qed
qed

lemma promote_bottom:
  assumes s: "sk b h Item (us @ [pre @ (a, e) # post])" and al: "avail al" and i: "\<And>x. x \<in> set (el pre) \<Longrightarrow> x < Item" "Item \<le> e"
  shows "Item < e \<Longrightarrow> \<exists>h' n. sk_promote al h a = Inr (h', a) \<and> sk b h' Item (us @ [pre @ (a, Item) # (n, e) # post])"
    "Item = e \<Longrightarrow> sk_promote al h a = Inr (h, Bottom b)"
proof -
  have d: "dn b [] lo = Bottom b" for lo by (simp add: dn_def)
  have ra: "rd h a = Inr \<lparr>skElement = e, skRight = adr1 post (Tail b), skDown = Bottom b\<rparr>" using sk_rd(1) [OF s] d by simp
  have rb: "rd h (Bottom b) = Inr \<lparr>skElement = Item, skRight = Bottom b, skDown = Bottom b\<rparr>" using s by (auto simp: sk_def rd_ok)
  have rr: "right_right h (Bottom b) = Inr (Bottom b)" using rb by (simp add: right_right_def)
  show "sk_promote al h a = Inr (h, Bottom b)" if "Item = e" using ra rb rr that by (simp add: sk_promote_def)
  show "\<exists>h' n. sk_promote al h a = Inr (h', a) \<and> sk b h' Item (us @ [pre @ (a, Item) # (n, e) # post])" if lt: "Item < e"
  proof -
    have n: "al h \<noteq> 0" "h (al h) = None" using al s by (auto simp: avail_def sk_def)
    have "sk_promote al h a = Inr (h(al h \<mapsto> \<lparr>skElement = e, skRight = adr1 post (Tail b), skDown = Bottom b\<rparr>,
        a \<mapsto> \<lparr>skElement = Item, skRight = al h, skDown = Bottom b\<rparr>), a)"
      using promote_writes [OF ra, of "Bottom b"] rb rr lt n sk_rd(2) [OF s] by simp
    moreover have "sk b (h(al h \<mapsto> \<lparr>skElement = e, skRight = adr1 post (Tail b), skDown = Bottom b\<rparr>,
        a \<mapsto> \<lparr>skElement = Item, skRight = al h, skDown = Bottom b\<rparr>)) Item (us @ [pre @ (a, Item) # (al h, e) # post])"
      using sk_split [OF s n i(1)] lt d by simp
    ultimately show ?thesis by blast
  qed
qed

section \<open>The loop of \<open>Insert\<close>\<close>

definition ins_result ::
  "sentinels \<Rightarrow> int \<Rightarrow> level list \<Rightarrow> level \<Rightarrow> level list \<Rightarrow> skheap \<Rightarrow> level \<Rightarrow> level list \<Rightarrow> bool" where
  "ins_result b Item us xs ls h' xs' ls' \<longleftrightarrow> sk b h' Item (us @ xs' # ls') \<and> gaps (xs' # ls') \<and> length ls' = length ls \<and>
    set (el (last (xs' # ls'))) = insert Item (set (el (last (xs # ls)))) \<and> adr1 xs' 0 = adr1 xs 0 \<and> length xs' \<le> length xs + 1 \<and>
    (set (el xs') = set (el xs) \<or> (\<exists>y. set (el xs') = insert y (set (el xs)) \<and>
       (\<forall>x \<in> set (el xs). (x < Item \<longrightarrow> x < y) \<and> (Item \<le> x \<longrightarrow> y < x))))"

lemma ins_result_split:
  assumes "sk b h' Item (us @ (q @ (c, z) # (n, y) # r) # ls')" "gaps ((q @ (c, z) # (n, y) # r) # ls')" "length ls' = length ls"
    "set (el (last ((q @ (c, z) # (n, y) # r) # ls'))) = insert Item (set (el (last ((q @ (c, y) # r) # ls))))"
    "\<forall>x \<in> set (el (q @ (c, y) # r)). (x < Item \<longrightarrow> x < z) \<and> (Item \<le> x \<longrightarrow> z < x)"
  shows "ins_result b Item us (q @ (c, y) # r) ls h' (q @ (c, z) # (n, y) # r) ls'"
proof -
  have "set (el (q @ (c, z) # (n, y) # r)) = insert z (set (el (q @ (c, y) # r)))" by auto
  with assms show ?thesis unfolding ins_result_def by (auto simp: adr1_append simp del: set_map)
qed

lemma split_place:
  assumes "sorted_wrt (<) (el (q @ (c, y) # r))" "\<And>x. x \<in> set (el q) \<Longrightarrow> x < Item \<and> x < z" "Item \<le> y" "z < y"
  shows "\<forall>x \<in> set (el (q @ (c, y) # r)). (x < Item \<longrightarrow> x < z) \<and> (Item \<le> x \<longrightarrow> z < x)"
proof
  fix x assume "x \<in> set (el (q @ (c, y) # r))"
  then consider "x \<in> set (el q)" | "y \<le> x" using assms(1) by (fastforce simp: sorted_wrt_append)
  then show "(x < Item \<longrightarrow> x < z) \<and> (Item \<le> x \<longrightarrow> z < x)" using assms(2,3,4) by cases fastforce+
qed

lemma loop_round:
  assumes "Current \<noteq> Bottom b" "sk_skip Item h Current = Some (Inr c)" "sk_promote al h c = Inr (h', c')"
  shows "sk_insert_loop al b Item h Current = sk_insert_loop al b Item h' c'"
  using assms by (subst sk_insert_loop.simps) simp

lemma loop_bottom: "sk_insert_loop al b Item h (Bottom b) = Some (Inr h)"
  by (subst sk_insert_loop.simps) simp

lemma skip_stay: "sk b h Item (us @ (pre @ (a, e) # post) # ls) \<Longrightarrow> Item \<le> e \<Longrightarrow> sk_skip Item h a = Some (Inr a)"
  using sk_rd(1) by (subst sk_skip.simps) fastforce

lemma skip_next:
  assumes "sk b h Item (us @ (pre @ (a, y) # (n, e) # post) # ls)" "y < Item" "Item \<le> e"
  shows "sk_skip Item h a = Some (Inr n)"
proof -
  have "sk_skip Item h n = Some (Inr n)" using skip_stay [of b h Item us "pre @ [(a, y)]" n e post ls] assms by simp
  then show ?thesis using sk_rd(1) [OF assms(1)] assms(2) by (subst sk_skip.simps) simp
qed

lemma insert_loop_bottom:
  assumes s: "sk b h Item (us @ [pre @ (a, e) # post])" and al: "avail al" and p: "\<And>x. x \<in> set (el pre) \<Longrightarrow> x < Item"
    and i: "Item < sk_Infinity"
  shows "\<exists>h' xs'. sk_insert_loop al b Item h a = Some (Inr h') \<and> ins_result b Item us (pre @ (a, e) # post) [] h' xs' []"
proof -
  obtain q c y r where q: "pre @ (a, e) # post = q @ (c, y) # r" "sk_skip Item h a = Some (Inr c)"
    "\<And>x. x \<in> set (el q) \<Longrightarrow> x < Item" "Item \<le> y" using sk_skip_ok [OF s p i] by blast
  have a: "a \<noteq> Bottom b" using sk_rd(2) [OF s] .
  have s': "sk b h Item (us @ [q @ (c, y) # r])" using s q(1) by simp
  show ?thesis
  proof (cases "Item = y")
    case True
    have "sk_insert_loop al b Item h a = Some (Inr h)"
      using loop_round [OF a q(2)] promote_bottom(2) [OF s' al q(3,4) True] loop_bottom by simp
    moreover have "ins_result b Item us (pre @ (a, e) # post) [] h (pre @ (a, e) # post) []"
      using s q(1) True by (auto simp: ins_result_def)
    ultimately show ?thesis by blast
  next
    case False
    then have lt: "Item < y" using q(4) by simp
    obtain h' n where h': "sk_promote al h c = Inr (h', c)" "sk b h' Item (us @ [q @ (c, Item) # (n, y) # r])"
      using promote_bottom(1) [OF s' al q(3,4) lt] by blast
    have "sk_promote al h' c = Inr (h', Bottom b)" using promote_bottom(2) [OF h'(2) al q(3)] by simp
    then have "sk_insert_loop al b Item h a = Some (Inr h')"
      using loop_round [OF a q(2) h'(1)] loop_round [of c b Item h' c] sk_rd(2) [OF h'(2)] skip_stay [OF h'(2)] loop_bottom by simp
    moreover have "ins_result b Item us (q @ (c, y) # r) [] h' (q @ (c, Item) # (n, y) # r) []"
    proof -
      have "sorted_wrt (<) (el (q @ (c, y) # r))" using sk_level(2) [OF s'] by (simp add: level_ok_def)
      from split_place [OF this, of Item Item] show ?thesis
        using h'(2) q(3) lt by (intro ins_result_split) auto
    qed
    ultimately show ?thesis unfolding q(1) by blast
  qed
qed

lemma gapok_result:
  assumes g: "gapok (set (el below)) None (el (q @ (c, y) # r))" and so: "sorted_wrt (<) (el (q @ (c, y) # r))"
    and sub: "set (el (q @ (c, y) # r)) \<subseteq> set (el below)" and q: "\<And>x. x \<in> set (el q) \<Longrightarrow> x < Item" "Item \<le> y"
    and few: "card (between (set (el below)) (lst None q) y) \<le> 3" and r: "ins_result b Item us below ls h' below' ls'"
  shows "gapok (set (el below')) None (el (q @ (c, y) # r))"
proof -
  consider "set (el below') = set (el below)"
    | z where "set (el below') = insert z (set (el below))" "\<forall>x \<in> set (el below). (x < Item \<longrightarrow> x < z) \<and> (Item \<le> x \<longrightarrow> z < x)"
    using r unfolding ins_result_def by blast
  then show ?thesis
  proof cases
    case 1
    then show ?thesis using g by simp
  next
    case 2
    have "gapok (insert z (set (el below))) None (el q @ y # el r)"
    proof (rule gapok_insert)
      show "x < z" if x: "x \<in> set (el q)" for x
      proof -
        have "x \<in> set (el below)" using sub x by auto
        then show ?thesis using 2(2) q(1) [OF x] by blast
      qed
      have "y \<in> set (el below)" using sub by auto
      then have "z < y" using 2(2) q(2) by blast
      then show "z \<le> y" by simp
      show "card (between (set (el below)) (lste None (el q)) y) \<le> 3" using few by (simp add: lst_lste)
    qed (use g so in auto)
    then show ?thesis using 2(1) by simp
  qed
qed

definition inserts :: "(skheap \<Rightarrow> int) \<Rightarrow> sentinels \<Rightarrow> int \<Rightarrow> level \<Rightarrow> level list \<Rightarrow> bool" where
  "inserts al b Item xs ls \<longleftrightarrow> (\<forall>us h pre a e post. xs = pre @ (a, e) # post \<and> sk b h Item (us @ xs # ls) \<and>
      (\<forall>x \<in> set (el pre). x < Item) \<longrightarrow>
      (\<exists>h' xs' ls'. sk_insert_loop al b Item h a = Some (Inr h') \<and> ins_result b Item us xs ls h' xs' ls'))"

lemma descend:
  assumes IH: "inserts al b Item below ls"
    and s: "sk b h Item (us @ (q @ (c, y) # r) # below # ls)" and q: "\<And>x. x \<in> set (el q) \<Longrightarrow> x < Item" "Item \<le> y"
    and g: "gapok (set (el below)) None (el (q @ (c, y) # r))" and few: "card (between (set (el below)) (lst None q) y) \<le> 3"
    and w: "window below (lst None q) \<noteq> []"
  shows "\<exists>h' below' ls'. sk_insert_loop al b Item h (adr1 (window below (lst None q)) (Tail b)) = Some (Inr h') \<and>
    ins_result b Item us (q @ (c, y) # r) (below # ls) h' (q @ (c, y) # r) (below' # ls')"
proof -
  let ?X = "q @ (c, y) # r" let ?lo = "lst None q"
  obtain d z Q where Q: "window below ?lo = (d, z) # Q" using w by (cases "window below ?lo") auto
  obtain P where P: "below = P @ (d, z) # Q" "\<And>x. x \<in> set (el P) \<Longrightarrow> \<not> gt ?lo x"
    by (rule window_split [of below ?lo]) (auto simp: Q)
  have "x < Item" if "x \<in> set (el P)" for x
  proof (cases q rule: rev_cases)
    case Nil
    then show ?thesis using P(2) [OF that] by simp
  next
    case (snoc q1 q2)
    then show ?thesis using P(2) [OF that] q(1) [of "snd q2"] by (auto simp: lst_def)
  qed
  then obtain h' below' ls' where h': "sk_insert_loop al b Item h d = Some (Inr h')"
    "ins_result b Item (us @ [?X]) below ls h' below' ls'"
    using IH s P(1) unfolding inserts_def by (metis append.assoc append_Cons append_Nil)
  have so: "sorted_wrt (<) (el ?X)" "set (el ?X) \<subseteq> set (el below)" using sk_level [OF s] by (auto simp: level_ok_def)
  have "gapok (set (el below')) None (el ?X)" by (rule gapok_result [OF g so q few h'(2)])
  then have "ins_result b Item us ?X (below # ls) h' ?X (below' # ls')" using h'(2) by (auto simp: ins_result_def)
  then show ?thesis using h'(1) Q by auto
qed

text \<open>After a split the node is not split again: the walk goes on to the left or to the right half.\<close>

lemma promote_round:
  assumes al: "avail al" and IH: "inserts al b Item below ls" and s: "sk b h Item (us @ (q @ (c, z) # (n, y) # r) # below # ls)"
    and q: "\<And>x. x \<in> set (el q) \<Longrightarrow> x < Item" "Item \<le> y" and g: "gapok (set (el below)) None (el (q @ (c, z) # (n, y) # r))"
    and two: "card (between (set (el below)) (lst None q) z) = 2" "card (between (set (el below)) (Some z) y) = 2"
  shows "\<exists>h' below' ls'. sk_insert_loop al b Item h c = Some (Inr h') \<and>
    ins_result b Item us (q @ (c, z) # (n, y) # r) (below # ls) h' (q @ (c, z) # (n, y) # r) (below' # ls')"
proof (cases "Item \<le> z")
  case True
  have sk: "sk_skip Item h c = Some (Inr c)" using skip_stay [OF s True] .
  from s al g show ?thesis
  proof (cases rule: promote_inner)
    case down
    from loop_round [OF sk_rd(2) [OF s] sk down(1)] show ?thesis
      using descend [OF IH s q(1) True g down(2,3)] by auto
  qed (use two(1) in simp)
next
  case False
  then have lt: "z < Item" by simp
  have sk: "sk_skip Item h c = Some (Inr n)" using skip_next [OF s lt q(2)] .
  have s1: "sk b h Item (us @ ((q @ [(c, z)]) @ (n, y) # r) # below # ls)" using s by simp
  have g2: "gapok (set (el below)) None (el ((q @ [(c, z)]) @ (n, y) # r))" using g by simp
  have q2: "x < Item" if "x \<in> set (el (q @ [(c, z)]))" for x using that q(1) lt by auto
  from s1 al g2 show ?thesis
  proof (cases rule: promote_inner)
    case down
    from loop_round [OF sk_rd(2) [OF s] sk down(1)] show ?thesis
      using descend [OF IH s1 q2 q(2) g2 down(2,3)] by auto
  qed (use two(2) in simp)
qed

lemma insert_level:
  assumes al: "avail al" and i: "Item < sk_Infinity" and IH: "inserts al b Item below ls"
    and g: "gapok (set (el below)) None (el xs)" and xs: "xs = pre @ (a, e) # post"
    and s0: "sk b h Item (us @ xs # below # ls)" and pre: "\<And>x. x \<in> set (el pre) \<Longrightarrow> x < Item"
  shows "\<exists>h' xs' ls'. sk_insert_loop al b Item h a = Some (Inr h') \<and> ins_result b Item us xs (below # ls) h' xs' ls'"
proof -
  obtain q c y r where q: "xs = q @ (c, y) # r" "sk_skip Item h a = Some (Inr c)"
    "\<And>x. x \<in> set (el q) \<Longrightarrow> x < Item" "Item \<le> y" using sk_skip_ok [of b h Item us pre a e post "below # ls"] xs s0 pre i by blast
  have a: "a \<noteq> Bottom b" using sk_rd(2) [of b h Item us pre a e post] s0 xs by simp
  have s: "sk b h Item (us @ (q @ (c, y) # r) # below # ls)" using s0 q(1) by simp
  from s al g [unfolded q(1)] show ?thesis
  proof (cases rule: promote_inner)
    case down
    from loop_round [OF a q(2) down(1)] show ?thesis
      using descend [OF IH s q(3,4) g [unfolded q(1)] down(2,3)] q(1) by auto
  next
    case (split h1 n z)
    have g1: "gapok (set (el below)) None (el (q @ (c, z) # (n, y) # r))"
      using gapok_split [of "set (el below)" None "el q" y "el r" z] g q(1) split(4,5) by (simp add: lst_lste)
    define X where "X = q @ (c, z) # (n, y) # r"
    obtain h' below' ls' where X: "sk_insert_loop al b Item h1 c = Some (Inr h')"
      "ins_result b Item us X (below # ls) h' X (below' # ls')"
      using promote_round [OF al IH split(2) q(3,4) g1 split(4,5)] unfolding X_def by blast
    have so: "sorted_wrt (<) (el (q @ (c, y) # r))" using sk_level(2) [OF s] by (simp add: level_ok_def)
    from split_place [OF so, of Item z] have "ins_result b Item us xs (below # ls) h' X (below' # ls')"
      using X(2) q split(7,8) unfolding X_def q(1) by (intro ins_result_split) (auto simp: ins_result_def)
    then show ?thesis using loop_round [OF a q(2) split(1)] X(1) by auto
  qed
qed

lemma sk_insert_loop_ok:
  assumes al: "avail al" and i: "Item < sk_Infinity"
  shows "gaps (xs # ls) \<Longrightarrow> inserts al b Item xs ls"
proof (induction ls arbitrary: xs)
  case Nil
  show ?case unfolding inserts_def using insert_loop_bottom [OF _ al _ i] by blast
next
  case (Cons below ls)
  have IH: "inserts al b Item below ls" and g: "gapok (set (el below)) None (el xs)" "gaps (below # ls)"
    using Cons by auto
  have "\<exists>h' xs' ls'. sk_insert_loop al b Item h a = Some (Inr h') \<and> ins_result b Item us xs (below # ls) h' xs' ls'"
    if xs: "xs = pre @ (a, e) # post" and s0: "sk b h Item (us @ xs # below # ls)" and pre: "\<And>x. x \<in> set (el pre) \<Longrightarrow> x < Item"
    for us h pre a e post
    using insert_level [OF al i IH g(1) xs s0 pre] .
  then show ?case unfolding inserts_def by blast
qed

end
