(* ===== verification/SkipListSet.thy ===== *)
theory SkipListSet
  imports SkipListInv
begin

text \<open>
  The operations of \<^verbatim>\<open>dsl.c\<close> on a skip list in memory: \<open>Insert\<close> as a whole,
  \<open>Find\<close>, \<open>FindMin\<close>, \<open>FindMax\<close>, the bound on the number of levels, and the
  properties of the component.
\<close>

section \<open>\<open>Insert\<close>\<close>

definition sklist :: "sentinels \<Rightarrow> skheap \<Rightarrow> int \<Rightarrow> level list \<Rightarrow> bool" where
  "sklist b h L ls \<longleftrightarrow> (\<exists>e. sk b h e ls) \<and> gaps ls \<and> ls \<noteq> [] \<and> hd ls = [(L, sk_Infinity)]"

definition elts_of :: "level list \<Rightarrow> int set" where
  "elts_of ls = set (el (last ls)) - {sk_Infinity}"

lemma sk_sentinel:
  assumes "sk b h e ls"
  obtains h' where "wr h (Bottom b) (\<lambda>n. n\<lparr>skElement := Item\<rparr>) = Inr h'" "sk b h' Item ls"
proof -
  let ?h = "h(Bottom b \<mapsto> \<lparr>skElement = Item, skRight = Bottom b, skDown = Bottom b\<rparr>)"
  have "wr h (Bottom b) (\<lambda>n. n\<lparr>skElement := Item\<rparr>) = Inr ?h" using assms by (auto simp: sk_def wr_ok)
  moreover have "sk b ?h Item ls" using assms by (auto simp: sk_def)
  ultimately show ?thesis by (rule that)
qed

lemma raise_level:
  assumes s: "sk b h Item ((p # q # xs) # ls)" and g: "gaps ((p # q # xs) # ls)" and xs: "xs = []" and n: "n \<noteq> 0" "h n = None"
    and L: "fst p = L"
  shows "sklist b (h(n \<mapsto> \<lparr>skElement = sk_Infinity, skRight = Tail b, skDown = L\<rparr>)) n ([(n, sk_Infinity)] # (p # q # xs) # ls)"
proof -
  let ?h = "h(n \<mapsto> \<lparr>skElement = sk_Infinity, skRight = Tail b, skDown = L\<rparr>)"
  let ?X = "p # q # xs"
  have lv: "level_ok ?X" using s by (simp add: sk_def)
  have "set (adrs (?X # ls)) \<subseteq> dom h" using s lvr_dom unfolding sk_def by blast
  then have nf: "n \<notin> set (adrs (?X # ls))" "n \<noteq> Bottom b" "n \<noteq> Tail b" using n(2) s by (auto simp: sk_def)
  have "lvr b ?h (?X # ls) []" using s nf(1) by (simp add: sk_def del: adrs_simps lvr.simps)
  moreover have "lrep b ?h ?X None [(n, sk_Infinity)] (Tail b)" using n(1) L by (cases p) (simp add: dn_None)
  moreover have inf: "sk_Infinity \<in> set (el ?X)" using lv last_in_set [of ?X] by (force simp: level_ok_def)
  ultimately have "sk b ?h Item ([(n, sk_Infinity)] # ?X # ls)"
    using s nf by (auto simp: sk_def level_ok_def)
  moreover have "gapok (set (el ?X)) None [sk_Infinity]"
  proof -
    have "between (set (el ?X)) None sk_Infinity = set (el ?X)" using level_le_Infinity [OF lv] by (auto simp: between_def)
    moreover have "card (set (el ?X)) = 2" using lv xs by (auto simp: level_ok_def)
    ultimately show ?thesis by simp
  qed
  ultimately show ?thesis using g by (auto simp: sklist_def simp del: gapok.simps)
qed

lemma sk_Insert_ok:
  assumes s: "sklist b h L ls" and i: "Item < sk_Infinity" and al: "avail al"
  shows "\<exists>h' L' ls'. sk_Insert al b Item h L = Some (Inr (h', L')) \<and> sklist b h' L' ls' \<and> elts_of ls' = insert Item (elts_of ls)"
proof -
  obtain e ls0 where ls: "sk b h e ls" "gaps ls" "ls = [(L, sk_Infinity)] # ls0" using s by (cases ls) (auto simp: sklist_def)
  obtain h1 where h1: "wr h (Bottom b) (\<lambda>n. n\<lparr>skElement := Item\<rparr>) = Inr h1" "sk b h1 Item ls" using sk_sentinel [OF ls(1)] .
  have "inserts al b Item [(L, sk_Infinity)] ls0" using sk_insert_loop_ok [OF al i] ls(2,3) by simp
  then obtain h2 xs ls1 where r: "sk_insert_loop al b Item h1 L = Some (Inr h2)" "ins_result b Item [] [(L, sk_Infinity)] ls0 h2 xs ls1"
    using h1(2) ls(3) unfolding inserts_def by (metis append_Nil empty_iff empty_set list.map(1))
  have sk: "sk b h2 Item (xs # ls1)" "gaps (xs # ls1)" "length xs \<le> 2" "adr1 xs 0 = L" "length ls1 = length ls0"
    "set (el (last (xs # ls1))) = insert Item (set (el (last ls)))" using r(2) ls(3) by (auto simp: ins_result_def)
  have lv: "level_ok xs" using sk(1) by (simp add: sk_def)
  obtain e1 ys where xs: "xs = (L, e1) # ys" using sk(4) lv by (cases xs) (auto simp: level_ok_def)
  have rd: "rd h2 L = Inr \<lparr>skElement = e1, skRight = adr1 ys (Tail b), skDown = dn b (hdl ls1) None\<rparr>"
    using sk_rd(1) [of b h2 Item "[]" "[]" L e1 ys ls1] sk(1) xs by simp
  have el: "elts_of (xs # ls1) = insert Item (elts_of ls)" using sk(6) i by (auto simp: elts_of_def)
  show ?thesis
  proof (cases ys)
    case Nil
    then have "xs = [(L, sk_Infinity)]" using lv xs by (simp add: level_ok_def)
    then have "sklist b h2 L (xs # ls1)" using sk(1,2) by (auto simp: sklist_def)
    moreover have "sk_Insert al b Item h L = Some (Inr (h2, L))" using h1(1) r(1) rd Nil by (simp add: sk_Insert_def sk_raise_def)
    ultimately show ?thesis using el by blast
  next
    case (Cons q zs)
    then have zs: "zs = []" using sk(3) xs by simp
    have n: "al h2 \<noteq> 0" "h2 (al h2) = None" using al sk(1) by (auto simp: avail_def sk_def)
    have "fst q \<noteq> Tail b" using sk(1) xs Cons by (auto simp: sk_def)
    then have "sk_Insert al b Item h L = Some (Inr (h2(al h2 \<mapsto> \<lparr>skElement = sk_Infinity, skRight = Tail b, skDown = L\<rparr>), al h2))"
      using h1(1) r(1) rd Cons n(1) by (cases q) (simp add: sk_Insert_def sk_raise_def Let_def)
    moreover have "sklist b (h2(al h2 \<mapsto> \<lparr>skElement = sk_Infinity, skRight = Tail b, skDown = L\<rparr>)) (al h2)
        ([(al h2, sk_Infinity)] # xs # ls1)"
      using raise_level [of b h2 Item "(L, e1)" q zs ls1 "al h2" L] sk(1,2) n zs xs Cons by simp
    moreover have "elts_of ([(al h2, sk_Infinity)] # xs # ls1) = insert Item (elts_of ls)" using el by (simp add: elts_of_def)
    ultimately show ?thesis by blast
  qed
qed

section \<open>\<open>Find\<close>, \<open>FindMin\<close>, \<open>FindMax\<close>\<close>

lemma nested_last: "nested (xs # ls) \<Longrightarrow> set (el xs) \<subseteq> set (el (last (xs # ls)))"
proof (induction ls arbitrary: xs)
  case (Cons ys ls)
  then have "set (el xs) \<subseteq> set (el ys)" "set (el ys) \<subseteq> set (el (last (ys # ls)))" by auto
  then show ?case by (simp del: set_map)
qed simp

lemma sk_nested_last:
  assumes "sk b h Item (us @ xs # ls)" "x \<in> set (el xs)"
  shows "x \<in> set (el (last (xs # ls)))"
proof -
  have "nested (xs # ls)" using assms(1) unfolding sk_def nested_append by blast
  then show ?thesis using nested_last assms(2) by blast
qed

text \<open>Going down from a node leads to the first of the nodes below it.\<close>

lemma window_down:
  assumes s: "sk b h Item (us @ xs # ys # ls)" and w: "window ys lo \<noteq> []"
  obtains P c y Q where "ys = P @ (c, y) # Q" "window ys lo = (c, y) # Q" "dn b ys lo = c" "c \<noteq> Bottom b"
    "\<And>x. x \<in> set (el P) \<Longrightarrow> \<not> gt lo x" "sk b h Item ((us @ [xs]) @ (P @ (c, y) # Q) # ls)"
proof -
  obtain c y Q where W: "window ys lo = (c, y) # Q" using w by (cases "window ys lo") auto
  obtain P where P: "ys = P @ window ys lo" "\<And>x. x \<in> set (el P) \<Longrightarrow> \<not> gt lo x" by (rule window_split [of ys lo]) blast
  have "ys = P @ (c, y) # Q" using P(1) W by simp
  moreover have k: "sk b h Item ((us @ [xs]) @ (P @ (c, y) # Q) # ls)" using s calculation by simp
  ultimately show ?thesis using that [of P c y Q] W P(2) sk_rd(2) [OF k] by (simp add: dn_window)
qed

lemma window_Infinity:
  assumes "level_ok ys" "gt lo sk_Infinity"
  shows "window ys lo \<noteq> []"
proof
  assume "window ys lo = []"
  then have "\<forall>x \<in> set ys. \<not> gt lo (snd x)" by (auto simp: window_def)
  moreover have "last ys \<in> set ys" "snd (last ys) = sk_Infinity" using assms(1) by (auto simp: level_ok_def)
  ultimately show False using assms(2) by metis
qed

lemma find_round:
  assumes "sk b h Item (us @ (pre @ (a, e) # post) # ls)"
  shows "sk_find_loop Item h a =
    (if Item = e then Some (Inr a) else sk_find_loop Item h (if Item < e then dn b (hdl ls) (lst None pre) else adr1 post (Tail b)))"
  using sk_rd(1) [OF assms] by (subst sk_find_loop.simps) simp

text \<open>\<open>Find\<close> for \<open>Item\<close> from the address \<open>a\<close> ends at a node of it, or at
  \<open>Bottom\<close>, which holds it too.\<close>

definition finds :: "sentinels \<Rightarrow> skheap \<Rightarrow> int \<Rightarrow> int set \<Rightarrow> int \<Rightarrow> bool" where
  "finds b h Item S a \<longleftrightarrow> (\<exists>P. sk_find_loop Item h a = Some (Inr P) \<and> sk_Retrieve h P = Inr Item \<and> (P \<noteq> Bottom b \<longleftrightarrow> Item \<in> S))"

lemma finds_Bottom:
  assumes "sk b h Item ls" "Item \<notin> S"
  shows "finds b h Item S (Bottom b)"
proof -
  have r: "rd h (Bottom b) = Inr \<lparr>skElement = Item, skRight = Bottom b, skDown = Bottom b\<rparr>" using assms by (auto simp: sk_def rd_ok)
  then have "sk_find_loop Item h (Bottom b) = Some (Inr (Bottom b))" by (subst sk_find_loop.simps) simp
  then show ?thesis using r assms(2) by (simp add: finds_def sk_Retrieve_def)
qed

lemma finds_level:
  assumes down: "\<And>pre a e post. xs = pre @ (a, e) # post \<Longrightarrow> (\<And>x. x \<in> set (el pre) \<Longrightarrow> x < Item) \<Longrightarrow> Item < e \<Longrightarrow>
      finds b h Item (set (el (last (xs # ls)))) (dn b (hdl ls) (lst None pre))"
    and s: "sk b h Item (us @ xs # ls)" and x: "xs = pre @ (a, e) # post" "\<And>x. x \<in> set (el pre) \<Longrightarrow> x < Item" "Item < sk_Infinity"
  shows "finds b h Item (set (el (last (xs # ls)))) a"
  using x
proof (induction post arbitrary: pre a e)
  case Nil
  then have "e = sk_Infinity" using sk_level(2) [OF s] by (simp add: level_ok_def)
  then show ?case using find_round [of b h Item us pre a e "[]" ls] s Nil down [OF Nil(1,2)] by (simp add: finds_def)
next
  case (Cons p post)
  obtain a' e' where p: "p = (a', e')" by (cases p)
  have k: "sk b h Item (us @ (pre @ (a, e) # p # post) # ls)" using s Cons.prems(1) by simp
  consider "Item = e" | "Item < e" | "e < Item" by linarith
  then show ?case
  proof cases
    case 1
    then have "Item \<in> set (el (last (xs # ls)))" using sk_nested_last [OF s, of e] Cons.prems(1) by simp
    then show ?thesis using 1 find_round [OF k] sk_rd [OF k] by (simp add: finds_def sk_Retrieve_def)
  next
    case 2
    then show ?thesis using find_round [OF k] down [OF Cons.prems(1,2)] by (simp add: finds_def)
  next
    case 3
    have "finds b h Item (set (el (last (xs # ls)))) a'"
      using Cons.prems 3 p by (intro Cons.IH [of "pre @ [(a, e)]" a' e']) auto
    then show ?thesis using 3 find_round [OF k] p by (simp add: finds_def)
  qed
qed

lemma sk_find_loop_ok:
  "sk b h Item (us @ xs # ls) \<Longrightarrow> xs = pre @ (a, e) # post \<Longrightarrow> (\<And>x. x \<in> set (el pre) \<Longrightarrow> x < Item) \<Longrightarrow>
    Item < sk_Infinity \<Longrightarrow> finds b h Item (set (el (last (xs # ls)))) a"
proof (induction ls arbitrary: us xs pre a e post)
  case Nil
  show ?case
  proof (rule finds_level [OF _ Nil(1-4)])
    fix pre a e post assume x: "xs = pre @ (a, e) # post" "\<And>x. x \<in> set (el pre) \<Longrightarrow> x < Item" "Item < e"
    then have "Item \<notin> set (el xs)" using sk_level(2) [OF Nil(1)] by (fastforce simp: level_ok_def sorted_wrt_append)
    then show "finds b h Item (set (el (last [xs]))) (dn b (hdl []) (lst None pre))"
      using finds_Bottom [OF Nil(1)] by (simp add: dn_def)
  qed
next
  case (Cons ys ls)
  have ok: "level_ok ys" using sk_level(2) [of b h Item "us @ [xs]" ys ls] Cons.prems(1) by simp
  show ?case
  proof (rule finds_level [OF _ Cons.prems(1-4)])
    fix pre a e post assume x: "xs = pre @ (a, e) # post" and pre: "\<And>x. x \<in> set (el pre) \<Longrightarrow> x < Item" and "Item < e"
    have lo: "\<not> gt (lst None pre) x \<Longrightarrow> x < Item" for x
      using pre by (cases pre rule: rev_cases) force+
    have "gt (lst None pre) sk_Infinity" using lo [of sk_Infinity] Cons.prems(4) by linarith
    from window_down [OF Cons.prems(1) window_Infinity [OF ok this]] obtain P c y Q where
      w: "ys = P @ (c, y) # Q" "dn b ys (lst None pre) = c" "\<And>x. x \<in> set (el P) \<Longrightarrow> \<not> gt (lst None pre) x" by metis
    have "finds b h Item (set (el (last (ys # ls)))) c"
      by (rule Cons.IH [of "us @ [xs]" ys P c y Q]) (use Cons.prems w lo in auto)
    then show "finds b h Item (set (el (last (xs # ys # ls)))) (dn b (hdl (ys # ls)) (lst None pre))" using w(2) by simp
  qed
qed

lemma sk_FindMin_ok:
  "sk b h Item (us @ xs # ls) \<Longrightarrow> \<exists>P. sk_FindMin b h (adr1 xs 0) = Some (Inr P) \<and> sk_Retrieve h P = Inr (hd (el (last (xs # ls))))"
proof (induction ls arbitrary: us xs)
  case Nil
  then obtain a e post where xs: "xs = [] @ (a, e) # post" using sk_level(2) [OF Nil] by (cases xs) (auto simp: level_ok_def)
  then show ?case using sk_rd [of b h Item us "[]" a e post "[]"] Nil
    by (subst sk_FindMin.simps) (auto simp: dn_def sk_Retrieve_def)
next
  case (Cons ys ls)
  obtain a e post where xs: "xs = [] @ (a, e) # post" using sk_level(2) [OF Cons.prems] by (cases xs) (auto simp: level_ok_def)
  have k: "sk b h Item ((us @ [xs]) @ ys # ls)" using Cons.prems by simp
  obtain c y Q where ys: "ys = [] @ (c, y) # Q" using sk_level(2) [OF k] by (cases ys) (auto simp: level_ok_def)
  have "c \<noteq> Bottom b" using sk_rd(2) [of b h Item "us @ [xs]" "[]" c y Q ls] k ys by simp
  then show ?case using sk_rd(1) [of b h Item us "[]" a e post "ys # ls"] Cons.IH [OF k] Cons.prems xs ys
    by (subst sk_FindMin.simps) (simp add: dn_None)
qed

lemma FindMax_round:
  assumes "sk b h Item (us @ (pre @ (a, e) # post) # ls)"
  shows "sk_FindMax b h a =
    (if tl post \<noteq> [] then sk_FindMax b h (adr1 post (Tail b))
     else if dn b (hdl ls) (lst None pre) \<noteq> Bottom b then sk_FindMax b h (dn b (hdl ls) (lst None pre))
     else Some (Inr a))"
proof -
  have rr: "right_right h a = Inr (adr1 (tl post) (Tail b))" using right_right_suffix [OF assms] by simp
  have "adr1 (tl post) (Tail b) \<noteq> Tail b \<longleftrightarrow> tl post \<noteq> []"
  proof (cases "tl post")
    case (Cons p q)
    then have "p \<in> set post" by (metis list.sel(2) list.set_intros(1) list.set_sel(2) neq_Nil_conv)
    moreover have "Tail b \<notin> fst ` set post" using assms by (simp add: sk_def)
    ultimately have "fst p \<noteq> Tail b" by force
    then show ?thesis using Cons by (cases p) simp
  qed simp
  then show ?thesis using rr sk_rd(1) [OF assms] by (subst sk_FindMax.simps) simp
qed

text \<open>\<open>FindMax\<close> from a node that is not the last of its level, or the only one, ends at the
  second node from the right of the lowest level: gaps of two nodes or more leave room for it.\<close>

definition maxes :: "sentinels \<Rightarrow> skheap \<Rightarrow> level \<Rightarrow> int \<Rightarrow> bool" where
  "maxes b h ys a \<longleftrightarrow> (\<exists>P. sk_FindMax b h a = Some (Inr P) \<and> sk_Retrieve h P = Inr (last (butlast (el ys))))"

lemma maxes_level:
  assumes down: "\<And>pre a e post. xs = pre @ (a, e) # post \<Longrightarrow> tl post = [] \<Longrightarrow> post \<noteq> [] \<or> pre = [] \<Longrightarrow> ls \<noteq> [] \<Longrightarrow>
      dn b (hdl ls) (lst None pre) \<noteq> Bottom b \<and> maxes b h (last (xs # ls)) (dn b (hdl ls) (lst None pre))"
    and s: "sk b h Item (us @ xs # ls)" and x: "xs = pre @ (a, e) # post" "post \<noteq> [] \<or> pre = []" "2 \<le> length (last (xs # ls))"
  shows "maxes b h (last (xs # ls)) a"
  using x
proof (induction post arbitrary: pre a e)
  case Nil
  then have "ls \<noteq> []" by auto
  then show ?case using down [OF Nil(1)] Nil(2) FindMax_round [of b h Item us pre a e "[]" ls] s Nil(1) by (simp add: maxes_def)
next
  case (Cons p post)
  obtain a' e' where p: "p = (a', e')" by (cases p)
  have k: "sk b h Item (us @ (pre @ (a, e) # p # post) # ls)" using s Cons.prems(1) by simp
  show ?case
  proof (cases "post = []")
    case False
    have "maxes b h (last (xs # ls)) a'" using Cons.prems False p by (intro Cons.IH [of "pre @ [(a, e)]" a' e']) auto
    then show ?thesis using FindMax_round [OF k] False p by (simp add: maxes_def)
  next
    case post: True
    show ?thesis
    proof (cases "ls = []")
      case True
      then show ?thesis using FindMax_round [OF k] post sk_rd(1) [OF k] Cons.prems(1)
        by (simp add: maxes_def dn_def sk_Retrieve_def butlast_append)
    next
      case False
      then show ?thesis using FindMax_round [OF k] post down [OF Cons.prems(1)] by (simp add: maxes_def)
    qed
  qed
qed

lemma window_two:
  assumes "sorted_wrt (<) (el below)" "2 \<le> card (between (set (el below)) lo e)"
  shows "2 \<le> length (window below lo)"
proof -
  have "card (between (set (el below)) lo e) \<le> card (set (el (window below lo)))"
    unfolding between_window [OF assms(1)] by (intro card_mono) auto
  also have "\<dots> \<le> length (window below lo)" using card_length [of "el (window below lo)"] by simp
  finally show ?thesis using assms(2) by simp
qed

lemma sk_FindMax_ok:
  "sk b h Item (us @ xs # ls) \<Longrightarrow> gaps (xs # ls) \<Longrightarrow> xs = pre @ (a, e) # post \<Longrightarrow> post \<noteq> [] \<or> pre = [] \<Longrightarrow>
    2 \<le> length (last (xs # ls)) \<Longrightarrow> maxes b h (last (xs # ls)) a"
proof (induction ls arbitrary: us xs pre a e post)
  case Nil
  show ?case by (rule maxes_level [OF _ Nil(1,3,4,5)]) simp
next
  case (Cons ys ls)
  have ok: "level_ok ys" using sk_level(2) [of b h Item "us @ [xs]" ys ls] Cons.prems(1) by simp
  show ?case
  proof (rule maxes_level [OF _ Cons.prems(1,3,4,5)])
    fix pre a e post assume x: "xs = pre @ (a, e) # post"
    let ?lo = "lst None pre"
    have "2 \<le> card (between (set (el ys)) ?lo e)" using Cons.prems(2) x by (simp add: gapok_append lst_lste)
    then have w2: "2 \<le> length (window ys ?lo)" using ok by (intro window_two) (auto simp: level_ok_def)
    from window_down [OF Cons.prems(1), of ?lo] w2 obtain P c y Q where
      w: "ys = P @ (c, y) # Q" "window ys ?lo = (c, y) # Q" "dn b ys ?lo = c" "c \<noteq> Bottom b"
      by (metis list.size(3) not_numeral_le_zero)
    have "maxes b h (last (ys # ls)) c"
      by (rule Cons.IH [of "us @ [xs]" ys P c y Q]) (use Cons.prems w w2 in auto)
    then show "dn b (hdl (ys # ls)) ?lo \<noteq> Bottom b \<and> maxes b h (last (xs # ys # ls)) (dn b (hdl (ys # ls)) ?lo)"
      using w(3,4) by simp
  qed
qed

section \<open>The number of levels\<close>

lemma gapok_length:
  "gapok S lo es \<Longrightarrow> finite S \<Longrightarrow> sorted_wrt (<) es \<Longrightarrow> (\<And>e. e \<in> set es \<Longrightarrow> gt lo e) \<Longrightarrow> 2 * length es \<le> card {y \<in> S. gt lo y}"
proof (induction es arbitrary: lo)
  case (Cons e es)
  have e: "gt lo e" using Cons.prems(4) by simp
  have "{y \<in> S. gt lo y} = between S lo e \<union> {y \<in> S. gt (Some e) y}" using e by (cases lo) (auto simp: between_def)
  moreover have "between S lo e \<inter> {y \<in> S. gt (Some e) y} = {}" by (auto simp: between_def)
  ultimately have "card {y \<in> S. gt lo y} = card (between S lo e) + card {y \<in> S. gt (Some e) y}"
    using Cons.prems(2) by (simp add: card_Un_disjoint)
  moreover have "2 * length es \<le> card {y \<in> S. gt (Some e) y}" using Cons.prems by (intro Cons.IH) auto
  ultimately show ?case using Cons.prems(1) by simp
qed simp

lemma levels_length: "gaps (xs # ls) \<Longrightarrow> list_all level_ok (xs # ls) \<Longrightarrow> 2 ^ length ls * length xs \<le> length (last (xs # ls))"
proof (induction ls arbitrary: xs)
  case (Cons ys ls)
  have "2 * length xs \<le> card {y \<in> set (el ys). gt None y}"
    using gapok_length [of "set (el ys)" None "el xs"] Cons.prems by (auto simp: level_ok_def)
  also have "\<dots> \<le> length ys" using card_length [of "el ys"] by simp
  finally have "2 ^ length ls * (2 * length xs) \<le> 2 ^ length ls * length ys" by simp
  also have "\<dots> \<le> length (last (ys # ls))" using Cons by simp
  finally show ?case by (simp add: algebra_simps)
qed simp

lemma sklist_last:
  assumes "sklist b h L ls"
  obtains xs where "last ls = xs @ [(fst (last (last ls)), sk_Infinity)]" "level_ok (last ls)" "elts_of ls = set (el xs)"
    "sorted_wrt (<) (el xs)"
proof -
  have "level_ok (last ls)" using assms by (auto simp: sklist_def sk_def list_all_iff)
  then obtain xs a where x: "last ls = xs @ [(a, sk_Infinity)]" "level_ok (last ls)"
    by (cases "last ls" rule: rev_cases) (auto simp: level_ok_def)
  then have "elts_of ls = set (el xs)" "sorted_wrt (<) (el xs)" by (auto simp: elts_of_def level_ok_def sorted_wrt_append)
  then show ?thesis using that x by simp
qed

lemma sklist_levels:
  assumes "sklist b h L ls"
  shows "2 ^ (length ls - 1) \<le> card (elts_of ls) + 1"
proof -
  obtain xs where x: "last ls = xs @ [(fst (last (last ls)), sk_Infinity)]" "elts_of ls = set (el xs)" "sorted_wrt (<) (el xs)"
    using sklist_last [OF assms] by blast
  have "length (last ls) = length xs + 1" by (subst x(1)) simp
  also have "length xs = card (elts_of ls)" 
    using x(2,3) distinct_card [of "el xs"] by (simp add: strict_sorted_iff del: set_map)
  finally show ?thesis using levels_length [of "hd ls" "tl ls"] assms by (cases ls) (auto simp: sklist_def sk_def)
qed

section \<open>The list as a set\<close>

text \<open>A client keeps the pointer that \<open>Insert\<close> returns. The state is the allocator, the
  sentinels, the memory and that pointer.\<close>

type_synonym skset = "(skheap \<Rightarrow> int) \<times> sentinels \<times> skheap \<times> int"

fun sk_ins :: "int \<Rightarrow> skset \<Rightarrow> skset res option" where
  "sk_ins x (al, b, h, L) = andthen (sk_Insert al b x h L) (\<lambda>(h, L). Some (Inr (al, b, h, L)))"

fun sk_look :: "int \<Rightarrow> skset \<Rightarrow> (bool \<times> int \<times> skset) res option" where
  "sk_look x (al, b, h, L) =
    andthen (sk_Find b x h L) (\<lambda>(h, P). after (sk_Retrieve h P) (\<lambda>e. Some (Inr (P \<noteq> Bottom b, e, (al, b, h, L)))))"

fun sk_lo :: "skset \<Rightarrow> int res option" where
  "sk_lo (al, b, h, L) = andthen (sk_FindMin b h L) (\<lambda>P. Some (sk_Retrieve h P))"

fun sk_hi :: "skset \<Rightarrow> int res option" where
  "sk_hi (al, b, h, L) = andthen (sk_FindMax b h L) (\<lambda>P. Some (sk_Retrieve h P))"

text \<open>The elements are those below \<open>Infinity\<close> that \<open>Find\<close> finds.\<close>

definition sk_elts :: "skset \<Rightarrow> int set" where
  "sk_elts s = {x. x < sk_Infinity \<and> (\<exists>e s'. sk_look x s = Some (Inr (True, e, s')))}"

fun sk_inv :: "(skheap \<Rightarrow> int) \<Rightarrow> sentinels \<Rightarrow> skset \<Rightarrow> bool" where
  "sk_inv al b (al', b', h, L) \<longleftrightarrow> al' = al \<and> b' = b \<and> avail al \<and> (\<exists>ls. sklist b h L ls)"

lemma elts_below: "sklist b h L ls \<Longrightarrow> x \<in> elts_of ls \<Longrightarrow> x < sk_Infinity"
  using level_le_Infinity by (metis DiffD1 DiffD2 elts_of_def insertCI order_le_imp_less_or_eq sklist_last)

lemma sk_Find_ok:
  assumes s: "sklist b h L ls" and x: "x < sk_Infinity"
  shows "\<exists>h' P. sk_Find b x h L = Some (Inr (h', P)) \<and> sk_Retrieve h' P = Inr x \<and> (P \<noteq> Bottom b \<longleftrightarrow> x \<in> elts_of ls) \<and> sklist b h' L ls"
proof -
  obtain e ls0 where ls: "sk b h e ls" "ls = [(L, sk_Infinity)] # ls0" using s by (cases ls) (auto simp: sklist_def)
  obtain h1 where h1: "wr h (Bottom b) (\<lambda>n. n\<lparr>skElement := x\<rparr>) = Inr h1" "sk b h1 x ls" using sk_sentinel [OF ls(1)] .
  have "finds b h1 x (set (el (last ls))) L"
    using sk_find_loop_ok [of b h1 x "[]" "[(L, sk_Infinity)]" ls0 "[]"] h1(2) ls(2) x by simp
  then obtain P where "sk_find_loop x h1 L = Some (Inr P)" "sk_Retrieve h1 P = Inr x" "P \<noteq> Bottom b \<longleftrightarrow> x \<in> set (el (last ls))"
    unfolding finds_def by blast
  moreover have "sklist b h1 L ls" using s h1(2) by (auto simp: sklist_def)
  ultimately show ?thesis using h1(1) x by (auto simp: sk_Find_def elts_of_def)
qed

lemma sk_look_ok:
  assumes "sklist b h L ls" "x < sk_Infinity"
  shows "\<exists>h'. sk_look x (al, b, h, L) = Some (Inr (x \<in> elts_of ls, x, (al, b, h', L))) \<and> sklist b h' L ls"
  using sk_Find_ok [OF assms] by auto

lemma sk_elts_ok: "sklist b h L ls \<Longrightarrow> sk_elts (al, b, h, L) = elts_of ls"
  unfolding sk_elts_def using sk_look_ok [of b h L ls _ al] elts_below [of b h L ls]
  by (fastforce simp del: sk_look.simps)

lemma sorted_hd_Min: "sorted xs \<Longrightarrow> xs \<noteq> [] \<Longrightarrow> hd xs = Min (set xs)" for xs :: "int list"
  by (cases xs) (auto intro!: Min_eqI [symmetric])

lemma sorted_last_Max: "sorted xs \<Longrightarrow> xs \<noteq> [] \<Longrightarrow> last xs = Max (set xs)" for xs :: "int list"
  by (cases xs rule: rev_cases) (auto simp: sorted_append intro!: Max_eqI [symmetric])

lemma sk_extremes:
  assumes s: "sklist b h L ls" and n: "elts_of ls \<noteq> {}"
  shows "sk_lo (al, b, h, L) = Some (Inr (Min (elts_of ls)))" "sk_hi (al, b, h, L) = Some (Inr (Max (elts_of ls)))"
proof -
  obtain e ls0 where ls: "sk b h e ls" "gaps ls" "ls = [(L, sk_Infinity)] # ls0" using s by (cases ls) (auto simp: sklist_def)
  obtain xs where x: "last ls = xs @ [(fst (last (last ls)), sk_Infinity)]" "elts_of ls = set (el xs)" "sorted_wrt (<) (el xs)"
    using sklist_last [OF s] by blast
  have ne: "xs \<noteq> []" using n x(2) by auto
  have so: "sorted (el xs)" using x(3) by (simp add: strict_sorted_iff)
  have "hd (el (last ls)) = hd (el xs)" by (subst x(1)) (use ne in \<open>simp add: hd_append\<close>)
  also have "\<dots> = Min (elts_of ls)" using sorted_hd_Min [OF so] ne x(2) by simp
  finally have mn: "hd (el (last ls)) = Min (elts_of ls)" .
  then show "sk_lo (al, b, h, L) = Some (Inr (Min (elts_of ls)))"
    using sk_FindMin_ok [of b h e "[]" "[(L, sk_Infinity)]" ls0] ls by auto
  have "last (butlast (el (last ls))) = last (el xs)" by (subst x(1)) simp
  also have "\<dots> = Max (elts_of ls)" using sorted_last_Max [OF so] ne x(2) by simp
  finally have mx: "last (butlast (el (last ls))) = Max (elts_of ls)" .
  have "2 \<le> length (last ls)" by (subst x(1)) (use ne in \<open>cases xs; simp\<close>)
  then have "maxes b h (last ls) L"
    using sk_FindMax_ok [of b h e "[]" "[(L, sk_Infinity)]" ls0 "[]" L] ls by simp
  then show "sk_hi (al, b, h, L) = Some (Inr (Max (elts_of ls)))" using mx by (auto simp: maxes_def)
qed

interpretation skset: bounded_set "\<lambda>x. x < sk_Infinity" sk_ins sk_look sk_lo sk_hi sk_elts "sk_inv al b" for al b
proof
  fix s x assume i: "sk_inv al b s" and x: "x < sk_Infinity"
  obtain h L ls where s: "s = (al, b, h, L)" and l: "sklist b h L ls" "avail al" using i by (cases s) auto
  show "\<exists>s'. sk_ins x s = Some (Inr s') \<and> sk_inv al b s' \<and> sk_elts s' = insert x (sk_elts s)"
    using sk_Insert_ok [OF l(1) x l(2)] s l sk_elts_ok by fastforce
  show "\<exists>e s'. sk_look x s = Some (Inr (x \<in> sk_elts s, e, s')) \<and> sk_inv al b s' \<and> sk_elts s' = sk_elts s \<and> (x \<in> sk_elts s \<longrightarrow> e = x)"
    using sk_look_ok [OF l(1) x, of al] s l sk_elts_ok by (fastforce simp del: sk_look.simps)
next
  fix s assume i: "sk_inv al b s" and n: "sk_elts s \<noteq> {}"
  obtain h L ls where s: "s = (al, b, h, L)" and l: "sklist b h L ls" using i by (cases s) auto
  show "sk_lo s = Some (Inr (Min (sk_elts s)))" "sk_hi s = Some (Inr (Max (sk_elts s)))"
    using sk_extremes [OF l] n unfolding s sk_elts_ok [OF l] by auto
qed

section \<open>Properties\<close>

lemma sk_Initialize_ok:
  assumes "t1 \<noteq> 0" "t2 \<noteq> 0" "t3 \<noteq> 0" "distinct [t1, t2, t3]"
  shows "\<exists>h. sk_Initialize t1 t2 t3 g1 g2 Map.empty \<lparr>Bottom = 0, Tail = 0\<rparr> = Inr (h, \<lparr>Bottom = t1, Tail = t2\<rparr>, t3) \<and>
    sklist \<lparr>Bottom = t1, Tail = t2\<rparr> h t3 [[(t3, sk_Infinity)]] \<and> dom h = {t1, t2, t3}"
proof -
  obtain e1 r1 d1 e2 r2 d2 where "g1 = \<lparr>skElement = e1, skRight = r1, skDown = d1\<rparr>" "g2 = \<lparr>skElement = e2, skRight = r2, skDown = d2\<rparr>"
    by (cases g1; cases g2)
  then show ?thesis using assms by (auto simp: sk_Initialize_def sklist_def sk_def level_ok_def dn_def)
qed

lemma sk_MakeEmpty_ok:
  assumes s: "sklist b h L ls"
  shows "\<exists>h'. sk_MakeEmpty b h L = Inr (h', L) \<and> sklist b h' L [[(L, sk_Infinity)]] \<and> dom h' = dom h"
proof -
  obtain e ls0 where ls: "sk b h e ls" "ls = [(L, sk_Infinity)] # ls0" using s by (cases ls) (auto simp: sklist_def)
  let ?h = "h(L \<mapsto> \<lparr>skElement = sk_Infinity, skRight = Tail b, skDown = Bottom b\<rparr>)"
  have L: "L \<noteq> 0" "L \<noteq> Bottom b" "L \<noteq> Tail b" "L \<in> dom h"
    "h L = Some \<lparr>skElement = sk_Infinity, skRight = Tail b, skDown = dn b (hdl (ls0 @ [[]])) None\<rparr>"
    using ls by (auto simp: sk_def)
  have "sk_MakeEmpty b h L = Inr (?h, L)" using L by (simp add: sk_MakeEmpty_def wr_ok)
  moreover have "sk b ?h e [[(L, sk_Infinity)]]" using ls L by (auto simp: sk_def level_ok_def dn_def)
  then have "sklist b ?h L [[(L, sk_Infinity)]]" by (auto simp: sklist_def)
  ultimately show ?thesis using L(4) by (auto simp: insert_absorb)
qed

text \<open>C39: on a 1-2-3 skip list, \<open>Insert\<close> of an element below \<open>Infinity\<close> with memory
  available ends without a bad access and returns a 1-2-3 skip list with the element added (and the
  same elements when it was there): every level increasing and ended by \<open>Infinity\<close>, each level
  a part of the one below, every node with two to four nodes of the level below it, the top level one
  node. A list of \<open>n\<close> elements has at most \<open>log (n + 1) + 1\<close> levels.\<close>

theorem SkipList_Insert:
  assumes "sklist b h L ls" "Item < sk_Infinity" "avail al"
  shows "\<exists>h' L' ls'. sk_Insert al b Item h L = Some (Inr (h', L')) \<and> sklist b h' L' ls' \<and>
    elts_of ls' = insert Item (elts_of ls) \<and> 2 ^ (length ls' - 1) \<le> card (elts_of ls') + 1"
  using sk_Insert_ok [OF assms] sklist_levels by blast

lemma SkipList_Insert_witness:
  "\<exists>h h' L' ls'. sk_Initialize 1 2 3 \<lparr>skElement = 0, skRight = 0, skDown = 0\<rparr> \<lparr>skElement = 0, skRight = 0, skDown = 0\<rparr>
      Map.empty \<lparr>Bottom = 0, Tail = 0\<rparr> = Inr (h, \<lparr>Bottom = 1, Tail = 2\<rparr>, 3) \<and>
    sk_Insert new_adr \<lparr>Bottom = 1, Tail = 2\<rparr> 7 h 3 = Some (Inr (h', L')) \<and> sklist \<lparr>Bottom = 1, Tail = 2\<rparr> h' L' ls' \<and> elts_of ls' = {7}"
proof -
  obtain h where h: "sk_Initialize 1 2 3 \<lparr>skElement = 0, skRight = 0, skDown = 0\<rparr> \<lparr>skElement = 0, skRight = 0, skDown = 0\<rparr>
      Map.empty \<lparr>Bottom = 0, Tail = 0\<rparr> = Inr (h, \<lparr>Bottom = 1, Tail = 2\<rparr>, 3)"
    "sklist \<lparr>Bottom = 1, Tail = 2\<rparr> h 3 [[(3, sk_Infinity)]]"
    using sk_Initialize_ok [of 1 2 3 "\<lparr>skElement = 0, skRight = 0, skDown = 0\<rparr>" "\<lparr>skElement = 0, skRight = 0, skDown = 0\<rparr>"] by auto
  have "7 < sk_Infinity" by (simp add: sk_Infinity_def)
  from SkipList_Insert [OF h(2) this avail_new_adr] h(1) show ?thesis by (auto simp: elts_of_def)
qed

text \<open>C40: from a new list, inserting different elements below \<open>Infinity\<close> gives a list in which
  \<open>Find\<close> returns a node other than \<open>Bottom\<close> exactly for them, and \<open>Retrieve\<close> of
  what it returns gives the element searched in either case, \<open>FindMin\<close> and \<open>FindMax\<close>
  find the extreme ones, and \<open>MakeEmpty\<close> makes it the list with no element without freeing a
  node.\<close>

theorem SkipList_refines_set:
  assumes "avail al" "t1 \<noteq> 0" "t2 \<noteq> 0" "t3 \<noteq> 0" "distinct [t1, t2, t3]" "distinct xs" "list_all (\<lambda>x. x < sk_Infinity) xs"
  defines "b \<equiv> \<lparr>Bottom = t1, Tail = t2\<rparr>"
  shows "\<exists>h0 h L. sk_Initialize t1 t2 t3 g1 g2 Map.empty \<lparr>Bottom = 0, Tail = 0\<rparr> = Inr (h0, b, t3) \<and>
    fill sk_ins xs (al, b, h0, t3) = Some (Inr (al, b, h, L)) \<and>
    (\<forall>y. y < sk_Infinity \<longrightarrow> (\<exists>h' P. sk_Find b y h L = Some (Inr (h', P)) \<and> (P \<noteq> t1 \<longleftrightarrow> y \<in> set xs) \<and> sk_Retrieve h' P = Inr y)) \<and>
    (xs \<noteq> [] \<longrightarrow> sk_lo (al, b, h, L) = Some (Inr (Min (set xs))) \<and> sk_hi (al, b, h, L) = Some (Inr (Max (set xs)))) \<and>
    (\<exists>h'. sk_MakeEmpty b h L = Inr (h', L) \<and> sklist b h' L [[(L, sk_Infinity)]] \<and> dom h' = dom h)"
proof -
  obtain h0 where h0: "sk_Initialize t1 t2 t3 g1 g2 Map.empty \<lparr>Bottom = 0, Tail = 0\<rparr> = Inr (h0, b, t3)"
    "sklist b h0 t3 [[(t3, sk_Infinity)]]" using sk_Initialize_ok [OF assms(2-5), of g1 g2] unfolding b_def by blast
  have e0: "sk_elts (al, b, h0, t3) = {}" using sk_elts_ok [OF h0(2)] by (simp add: elts_of_def)
  have "sk_inv al b (al, b, h0, t3)" using h0(2) assms(1) by auto
  from skset.fill_ok [OF this assms(6,7)] e0 obtain s where
    s: "fill sk_ins xs (al, b, h0, t3) = Some (Inr s)" "sk_inv al b s" "sk_elts s = set xs" by (auto simp del: sk_inv.simps)
  obtain h L ls where t: "s = (al, b, h, L)" "sklist b h L ls" using s(2) by (cases s) auto
  have e: "elts_of ls = set xs" using s(3) t sk_elts_ok [OF t(2)] by simp
  have f: "\<forall>y. y < sk_Infinity \<longrightarrow> (\<exists>h' P. sk_Find b y h L = Some (Inr (h', P)) \<and> (P \<noteq> t1 \<longleftrightarrow> y \<in> set xs) \<and> sk_Retrieve h' P = Inr y)"
    using sk_Find_ok [OF t(2)] e by (fastforce simp: b_def)
  show ?thesis using h0(1) s(1) t(1) f sk_extremes [OF t(2)] e sk_MakeEmpty_ok [OF t(2)] by (auto simp del: sk_lo.simps sk_hi.simps)
qed

lemma SkipList_refines_set_witness:
  "\<exists>h0 h L. sk_Initialize 1 2 3 \<lparr>skElement = 0, skRight = 0, skDown = 0\<rparr> \<lparr>skElement = 0, skRight = 0, skDown = 0\<rparr>
      Map.empty \<lparr>Bottom = 0, Tail = 0\<rparr> = Inr (h0, \<lparr>Bottom = 1, Tail = 2\<rparr>, 3) \<and>
    fill sk_ins [5, 4, 6] (new_adr, \<lparr>Bottom = 1, Tail = 2\<rparr>, h0, 3) = Some (Inr (new_adr, \<lparr>Bottom = 1, Tail = 2\<rparr>, h, L)) \<and>
    sk_lo (new_adr, \<lparr>Bottom = 1, Tail = 2\<rparr>, h, L) = Some (Inr 4)"
proof -
  have "list_all (\<lambda>x. x < sk_Infinity) [5, 4, 6]" "distinct [5, 4, 6 :: int]" "distinct [1, 2, 3 :: int]" "Min (set [5, 4, 6 :: int]) = 4"
    by (simp_all add: sk_Infinity_def)
  then show ?thesis
    using SkipList_refines_set [OF avail_new_adr, of 1 2 3 "[5, 4, 6]" "\<lparr>skElement = 0, skRight = 0, skDown = 0\<rparr>"
      "\<lparr>skElement = 0, skRight = 0, skDown = 0\<rparr>"] by (fastforce simp del: sk_lo.simps fill.simps)
qed

end
