(* ===== verification/BoundedTests.thy ===== *)
theory BoundedTests
  imports SetTests RedBlackSet SkipListSet
begin

text \<open>
  The test programs of the red-black tree and the deterministic skip list, \<^verbatim>\<open>testrb.c\<close>
  and \<^verbatim>\<open>testdsl.c\<close> of \<^verbatim>\<open>src/DSAAC\<close>: they insert a permutation of
  \<open>0..N-1\<close>, look every element up and print the extreme ones. Both are instances of
  \<open>bounded_main\<close>, a client of the interface \<open>bounded_set\<close>.
\<close>

section \<open>The programs\<close>

text \<open>The loop that looks elements up; \<open>wrong i T\<close> is the condition
  \<open>( P = Find( i, T ) ) == NULL || Retrieve( P ) != i\<close>.\<close>

fun check_loop :: "(int \<Rightarrow> 't \<Rightarrow> (bool \<times> 't) res option) \<Rightarrow> int list \<Rightarrow> 't \<Rightarrow> (line list \<times> 't) res option" where
  "check_loop wrong [] T = Some (Inr ([], T))"
| "check_loop wrong (i # is) T =
    andthen (wrong i T) (\<lambda>(w, T). andthen (check_loop wrong is T) (\<lambda>(out, T).
      Some (Inr ((if w then [ErrorAt ''Error'' i] else []) @ out, T))))"

definition bounded_main ::
  "(int \<Rightarrow> 't \<Rightarrow> 't res option) \<Rightarrow> (int \<Rightarrow> 't \<Rightarrow> (bool \<times> 't) res option) \<Rightarrow>
   ('t \<Rightarrow> int res option) \<Rightarrow> ('t \<Rightarrow> int res option) \<Rightarrow> int \<Rightarrow> 't \<Rightarrow> line list res option" where
  "bounded_main ins wrong lo hi N T =
    andthen (fill ins (walk (nat N) N 7 0) T) (\<lambda>T.
    andthen (check_loop wrong (range_by 0 N 1) T) (\<lambda>(out, T).
    andthen (lo T) (\<lambda>m. andthen (hi T) (\<lambda>M.
    Some (Inr (Message ''Inserts are complete'' # out @ [MinMax m M]))))))"

fun rb_wrong :: "int \<Rightarrow> rbset \<Rightarrow> (bool \<times> rbset) res option" where
  "rb_wrong i (al, NN, h, v, T) =
    andthen (rb_Find NN i h T) (\<lambda>P.
      if P = 0 then Some (Inr (True, (al, NN, h, v, T)))
      else after (rb_Retrieve h P) (\<lambda>e. Some (Inr (e \<noteq> i, (al, NN, h, v, T)))))"

fun sk_wrong :: "int \<Rightarrow> skset \<Rightarrow> (bool \<times> skset) res option" where
  "sk_wrong i (al, b, h, L) =
    andthen (sk_Find b i h L) (\<lambda>(h, P).
      if P = 0 then Some (Inr (True, (al, b, h, L)))
      else after (sk_Retrieve h P) (\<lambda>e. Some (Inr (e \<noteq> i, (al, b, h, L)))))"

definition testrb_N :: int where "testrb_N = 800"

definition testdsl_N :: int where "testdsl_N = 800"

text \<open>\<open>t1\<close>, \<open>t2\<close> (and \<open>t3\<close>) are the blocks that \<open>Initialize\<close> gets,
  \<open>al\<close> the allocator for the calls of \<open>Insert\<close>; \<open>g\<close>, \<open>g1\<close>, \<open>g2\<close>
  what the blocks held.\<close>

definition testrb_main :: "(rbheap \<Rightarrow> int) \<Rightarrow> rbnode \<Rightarrow> rbvars \<Rightarrow> int \<Rightarrow> int \<Rightarrow> line list res option" where
  "testrb_main al g v t1 t2 =
    after (rb_Initialize t1 t2 Map.empty 0) (\<lambda>(h, NN, T).
    andthen (rb_MakeEmpty NN h T) (\<lambda>h.
    bounded_main (rb_ins g) rb_wrong rb_lo rb_hi testrb_N (al, NN, h, v, T)))"

definition testdsl_main :: "(skheap \<Rightarrow> int) \<Rightarrow> sknode \<Rightarrow> sknode \<Rightarrow> int \<Rightarrow> int \<Rightarrow> int \<Rightarrow> line list res option" where
  "testdsl_main al g1 g2 t1 t2 t3 =
    after (sk_Initialize t1 t2 t3 g1 g2 Map.empty \<lparr>Bottom = 0, Tail = 0\<rparr>) (\<lambda>(h, b, T).
    after (sk_MakeEmpty b h T) (\<lambda>(h, T).
    bounded_main sk_ins sk_wrong sk_lo sk_hi testdsl_N (al, b, h, T)))"

section \<open>The common program\<close>

locale bounded_test = bounded_set ok ins look lo hi elts inv
  for ok :: "int \<Rightarrow> bool" and ins :: "int \<Rightarrow> 't \<Rightarrow> 't res option"
    and look :: "int \<Rightarrow> 't \<Rightarrow> (bool \<times> int \<times> 't) res option" and lo hi :: "'t \<Rightarrow> int res option"
    and elts :: "'t \<Rightarrow> int set" and inv :: "'t \<Rightarrow> bool" +
  fixes wrong :: "int \<Rightarrow> 't \<Rightarrow> (bool \<times> 't) res option"
  assumes wrong_ok: "inv t \<Longrightarrow> ok x \<Longrightarrow> x \<in> elts t \<Longrightarrow>
      \<exists>t'. wrong x t = Some (Inr (False, t')) \<and> inv t' \<and> elts t' = elts t"
begin

lemma check_loop_ok:
  "inv t \<Longrightarrow> list_all ok is \<Longrightarrow> set is \<subseteq> elts t \<Longrightarrow>
    \<exists>t'. check_loop wrong is t = Some (Inr ([], t')) \<and> inv t' \<and> elts t' = elts t"
proof (induction "is" arbitrary: t)
  case (Cons i "is")
  then obtain t1 where t1: "wrong i t = Some (Inr (False, t1))" "inv t1" "elts t1 = elts t" using wrong_ok [of t i] by auto
  with Cons.IH [OF t1(2)] Cons.prems show ?case by auto
qed simp

lemma main_ok:
  assumes t: "inv t" "elts t = {}" and N: "0 < N" "coprime 7 N" and ok: "\<And>x. 0 \<le> x \<Longrightarrow> x < N \<Longrightarrow> ok x"
  shows "bounded_main ins wrong lo hi N t = Some (Inr [Message ''Inserts are complete'', MinMax 0 (N - 1)])"
proof -
  let ?w = "walk (nat N) N 7 0"
  have w: "distinct ?w" "set ?w = {0..<N}" using walk_perm [OF N(2) order_refl N(1)] by blast+
  have "list_all ok ?w" using w(2) ok by (simp add: list_all_iff)
  moreover have "set ?w \<inter> elts t = {}" using t(2) by simp
  ultimately obtain t1 where t1: "fill ins ?w t = Some (Inr t1)" "inv t1" "elts t1 = {0..<N}"
    using fill_ok [OF t(1) w(1)] w(2) t(2) by (metis Un_empty_right)
  have r: "set (range_by 0 N 1) = {0..<N}" by (simp add: set_range_by(1) set_eq_iff)
  then have "list_all ok (range_by 0 N 1)" using ok by (auto simp: list_all_iff)
  from check_loop_ok [OF t1(2) this] r t1(3) obtain t2 where
    t2: "check_loop wrong (range_by 0 N 1) t1 = Some (Inr ([], t2))" "inv t2" "elts t2 = {0..<N}" by auto
  have "Min {0..<N} = 0" "Max {0..<N} = N - 1" using N(1) by (auto intro!: Min_eqI Max_eqI)
  then show ?thesis using t1 t2 lo_ok [OF t2(2)] hi_ok [OF t2(2)] N(1) by (simp add: bounded_main_def)
qed

end

lemma rb_Retrieve_0: "rb_Retrieve h P = Inr e \<Longrightarrow> P \<noteq> 0"
  by (auto simp: rb_Retrieve_def rd_def)

lemma sk_Retrieve_0: "sk_Retrieve h P = Inr e \<Longrightarrow> P \<noteq> 0"
  by (auto simp: sk_Retrieve_def rd_def)

interpretation rb_test: bounded_test "\<lambda>x. rb_NegInfinity < x" "rb_ins g" rb_look rb_lo rb_hi rb_elts "rb_inv al NN T" rb_wrong for g al NN T
proof
  fix s x assume i: "rb_inv al NN T s" and x: "rb_NegInfinity < x" "x \<in> rb_elts s"
  obtain h v t where s: "s = (al, NN, h, v, T)" and t: "rbtree NN T h t" using i by (cases s) auto
  have "x \<in> elems t" using x(2) s rb_elts_ok [OF t] by simp
  then obtain P where "rb_Find NN x h T = Some (Inr P)" "rb_Retrieve h P = Inr x" using rb_look_ok [OF t x(1)] by auto
  then have "rb_wrong x s = Some (Inr (False, s))" using s rb_Retrieve_0 by auto
  then show "\<exists>s'. rb_wrong x s = Some (Inr (False, s')) \<and> rb_inv al NN T s' \<and> rb_elts s' = rb_elts s" using i by blast
qed

text \<open>The condition of \<^verbatim>\<open>testdsl.c\<close> never holds, whether the element is there or not:
  \<open>Find\<close> returns \<open>Bottom\<close>, into which it wrote the element, when it is not.\<close>

lemma sk_wrong_never:
  assumes "sklist b h L ls" "x < sk_Infinity"
  shows "\<exists>h'. sk_wrong x (al, b, h, L) = Some (Inr (False, (al, b, h', L))) \<and> sklist b h' L ls"
  using sk_Find_ok [OF assms] sk_Retrieve_0 by fastforce

interpretation sk_test: bounded_test "\<lambda>x. x < sk_Infinity" sk_ins sk_look sk_lo sk_hi sk_elts "sk_inv al b" sk_wrong for al b
proof
  fix s x assume i: "sk_inv al b s" and x: "x < sk_Infinity"
  obtain h L ls where s: "s = (al, b, h, L)" and l: "sklist b h L ls" "avail al" using i by (cases s) auto
  from sk_wrong_never [OF l(1) x, of al] show "\<exists>s'. sk_wrong x s = Some (Inr (False, s')) \<and> sk_inv al b s' \<and> sk_elts s' = sk_elts s"
    using s l sk_elts_ok by (fastforce simp del: sk_wrong.simps)
qed

section \<open>Properties\<close>

text \<open>With memory available, \<open>main\<close> of \<^verbatim>\<open>testrb.c\<close> and of
  \<^verbatim>\<open>testdsl.c\<close> end, print no error line and print the extreme elements 0 and 799.\<close>

theorem bounded_tests_pass:
  assumes "avail al" "t1 \<noteq> 0" "t2 \<noteq> 0" "t1 \<noteq> t2" "avail al'" "t3 \<noteq> 0" "t3 \<noteq> t1" "t3 \<noteq> t2"
  shows "testrb_main al g v t1 t2 = Some (Inr [Message ''Inserts are complete'', MinMax 0 799]) \<and>
    testdsl_main al' g1 g2 t1 t2 t3 = Some (Inr [Message ''Inserts are complete'', MinMax 0 799])"
proof
  have N: "coprime 7 (800 :: int)" by code_simp
  obtain h0 where h0: "rb_Initialize t1 t2 Map.empty 0 = Inr (h0, t1, t2)" "rbtree t1 t2 h0 Null"
    using rb_Initialize_ok [OF assms(2,3,4)] by blast
  obtain h1 where h1: "rb_MakeEmpty t1 h0 t2 = Some (Inr h1)" "rbtree t1 t2 h1 Null" using rb_MakeEmpty_ok [OF h0(2)] by blast
  have i: "rb_inv al t1 t2 (al, t1, h1, v, t2)" "rb_elts (al, t1, h1, v, t2) = {}" using h1(2) assms(1) rb_elts_ok [OF h1(2)] by auto
  have "bounded_main (rb_ins g) rb_wrong rb_lo rb_hi 800 (al, t1, h1, v, t2) =
      Some (Inr [Message ''Inserts are complete'', MinMax 0 (800 - 1)])"
    using N by (intro rb_test.main_ok [OF i]) (auto simp: rb_NegInfinity_def)
  then show "testrb_main al g v t1 t2 = Some (Inr [Message ''Inserts are complete'', MinMax 0 799])"
    using h0(1) h1(1) by (simp add: testrb_main_def testrb_N_def)
  let ?b = "\<lparr>Bottom = t1, Tail = t2\<rparr>"
  obtain k0 where k0: "sk_Initialize t1 t2 t3 g1 g2 Map.empty \<lparr>Bottom = 0, Tail = 0\<rparr> = Inr (k0, ?b, t3)"
    "sklist ?b k0 t3 [[(t3, sk_Infinity)]]" using sk_Initialize_ok [of t1 t2 t3 g1 g2] assms by auto
  obtain k1 where k1: "sk_MakeEmpty ?b k0 t3 = Inr (k1, t3)" "sklist ?b k1 t3 [[(t3, sk_Infinity)]]"
    using sk_MakeEmpty_ok [OF k0(2)] by blast
  have j: "sk_inv al' ?b (al', ?b, k1, t3)" "sk_elts (al', ?b, k1, t3) = {}"
    using k1(2) assms(5) sk_elts_ok [OF k1(2)] by (auto simp: elts_of_def)
  have "bounded_main sk_ins sk_wrong sk_lo sk_hi 800 (al', ?b, k1, t3) =
      Some (Inr [Message ''Inserts are complete'', MinMax 0 (800 - 1)])"
    using N by (intro sk_test.main_ok [OF j]) (auto simp: sk_Infinity_def)
  then show "testdsl_main al' g1 g2 t1 t2 t3 = Some (Inr [Message ''Inserts are complete'', MinMax 0 799])"
    using k0(1) k1(1) by (simp add: testdsl_main_def testdsl_N_def)
qed

lemma bounded_tests_pass_witness:
  "testrb_main new_adr \<lparr>rbElement = 0, rbLeft = 0, rbRight = 0, rbColor = Black\<rparr> \<lparr>vX = 0, vP = 0, vGP = 0, vGGP = 0\<rparr> 1 2 =
    Some (Inr [Message ''Inserts are complete'', MinMax 0 799]) \<and>
   testdsl_main new_adr \<lparr>skElement = 0, skRight = 0, skDown = 0\<rparr> \<lparr>skElement = 0, skRight = 0, skDown = 0\<rparr> 1 2 3 =
    Some (Inr [Message ''Inserts are complete'', MinMax 0 799])"
  using bounded_tests_pass [OF avail_new_adr, of 1 2 new_adr 3] avail_new_adr by simp

end
