(* ===== verification/ListTests.thy ===== *)
theory ListTests
  imports SetTests ListAdt Cursor
begin

text \<open>
  The test programs of the lists of \<^verbatim>\<open>src/DSAAC\<close>: \<^verbatim>\<open>testlist.c\<close>
  and \<^verbatim>\<open>testcurs.c\<close>, which have the same text but for the initialization. Both are instances of \<open>list_main\<close>, a client of the
  interface \<open>pos_list\<close> that the linked list and the cursor list both implement.
\<close>

section \<open>The operations a list program calls\<close>

text \<open>The list \<open>L\<close> is the same in every call of the programs; \<open>'s\<close> is the memory or
  the cursor space.\<close>

record 's list_ops =
  opIns :: "int \<Rightarrow> int \<Rightarrow> 's \<Rightarrow> 's res option"
  opDel :: "int \<Rightarrow> 's \<Rightarrow> 's res option"
  opFind :: "int \<Rightarrow> 's \<Rightarrow> int res option"
  opIsEmpty :: "'s \<Rightarrow> bool res option"
  opIsLast :: "int \<Rightarrow> 's \<Rightarrow> bool res option"
  opAdvance :: "int \<Rightarrow> 's \<Rightarrow> int res option"
  opRetrieve :: "int \<Rightarrow> 's \<Rightarrow> int res option"

definition ll_ops :: "(heap \<Rightarrow> int) \<Rightarrow> cell \<Rightarrow> int \<Rightarrow> heap list_ops" where
  "ll_ops al g L =
    \<lparr>opIns = \<lambda>x P h. Some (ll_Insert (al h) g x L P h), opDel = \<lambda>x h. ll_Delete x L h,
     opFind = \<lambda>x h. ll_Find x L h, opIsEmpty = \<lambda>h. Some (ll_IsEmpty L h),
     opIsLast = \<lambda>P h. Some (ll_IsLast P L h), opAdvance = \<lambda>P h. Some (ll_Advance P h),
     opRetrieve = \<lambda>P h. Some (ll_Retrieve P h)\<rparr>"

definition cur_ops :: "int \<Rightarrow> space list_ops" where
  "cur_ops L =
    \<lparr>opIns = \<lambda>x P sp. cur_Insert x L P sp, opDel = \<lambda>x sp. map_option Inr (cur_Delete x L sp),
     opFind = \<lambda>x sp. map_option Inr (cur_Find x L sp), opIsEmpty = \<lambda>sp. map_option Inr (cur_IsEmpty L sp),
     opIsLast = \<lambda>P sp. map_option Inr (cur_IsLast P L sp), opAdvance = \<lambda>P sp. map_option Inr (cur_Advance P sp),
     opRetrieve = \<lambda>P sp. map_option Inr (cur_Retrieve P sp)\<rparr>"

section \<open>The programs\<close>

datatype list_line = EmptyList | Numbers "int list" | Text string

text \<open>The \<open>do ... while\<close> loop of \<open>PrintList\<close>: the elements after \<open>P\<close>.\<close>

partial_function (option) list_print_loop :: "'s list_ops \<Rightarrow> int \<Rightarrow> 's \<Rightarrow> int list res option" where
  "list_print_loop ops P s =
    (case opAdvance ops P s of None \<Rightarrow> None | Some (Inl e) \<Rightarrow> Some (Inl e) | Some (Inr P) \<Rightarrow>
      case opRetrieve ops P s of None \<Rightarrow> None | Some (Inl e) \<Rightarrow> Some (Inl e) | Some (Inr x) \<Rightarrow>
        case opIsLast ops P s of None \<Rightarrow> None | Some (Inl e) \<Rightarrow> Some (Inl e) | Some (Inr b) \<Rightarrow>
          if \<not> b then Option.bind (list_print_loop ops P s) (\<lambda>R. Some (bindr R (\<lambda>xs. Inr (x # xs))))
          else Some (Inr [x]))"

definition PrintList :: "'s list_ops \<Rightarrow> int \<Rightarrow> 's \<Rightarrow> list_line list res option" where
  "PrintList ops L s =
    andthen (opIsEmpty ops s) (\<lambda>b.
      if b then Some (Inr [EmptyList])
      else andthen (list_print_loop ops L s) (\<lambda>xs. Some (Inr [Numbers xs])))"

fun append_loop :: "'s list_ops \<Rightarrow> int \<Rightarrow> int list \<Rightarrow> int \<Rightarrow> 's \<Rightarrow> (list_line list \<times> 's) res option" where
  "append_loop ops L [] P s = Some (Inr ([], s))"
| "append_loop ops L (i # is) P s =
    andthen (opIns ops i P s) (\<lambda>s. andthen (PrintList ops L s) (\<lambda>o1. andthen (opAdvance ops P s) (\<lambda>P.
    andthen (append_loop ops L is P s) (\<lambda>(out, s). Some (Inr (o1 @ out, s))))))"

fun delete_loop :: "'s list_ops \<Rightarrow> int list \<Rightarrow> 's \<Rightarrow> 's res option" where
  "delete_loop ops [] s = Some (Inr s)"
| "delete_loop ops (i # is) s = andthen (opDel ops i s) (delete_loop ops is)"

fun find_check :: "'s list_ops \<Rightarrow> int list \<Rightarrow> 's \<Rightarrow> list_line list res option" where
  "find_check ops [] s = Some (Inr [])"
| "find_check ops (i # is) s =
    andthen (opFind ops i s) (\<lambda>P. andthen (find_check ops is s) (\<lambda>out.
      Some (Inr ((if (i mod 2 = 0) = (P \<noteq> 0) then [Text ''Find fails''] else []) @ out))))"

definition list_main :: "'s list_ops \<Rightarrow> int \<Rightarrow> 's \<Rightarrow> (list_line list \<times> 's) res option" where
  \<comment> \<open>from \<open>P = Header( L )\<close> to the last \<open>PrintList\<close>\<close>
  "list_main ops L s =
    andthen (PrintList ops L s) (\<lambda>o1.
    andthen (append_loop ops L (range_by 0 10 1) L s) (\<lambda>(o2, s).
    andthen (delete_loop ops (range_by 0 10 2) s) (\<lambda>s.
    andthen (find_check ops (range_by 0 10 1) s) (\<lambda>o3.
    andthen (PrintList ops L s) (\<lambda>o4.
    Some (Inr (o1 @ o2 @ o3 @ [Text ''Finished deletions''] @ o4, s)))))))"

definition testlist_main :: "(heap \<Rightarrow> int) \<Rightarrow> cell \<Rightarrow> heap \<Rightarrow> (list_line list \<times> heap) res option" where
  "testlist_main al g h =
    andthen (ll_MakeEmpty (al h) g 0 h) (\<lambda>(L, h).
    andthen (list_main (ll_ops al g L) (ll_Header L) h) (\<lambda>(out, h).
    andthen (ll_DeleteList L h) (\<lambda>h. Some (Inr (out, h)))))"

definition testcurs_main :: "space \<Rightarrow> (list_line list \<times> space) res option" where
  "testcurs_main sp =
    andthen (map_option Inr (InitializeCursorSpace sp)) (\<lambda>sp.
    andthen (cur_MakeEmpty 0 sp) (\<lambda>(L, sp).
    andthen (list_main (cur_ops L) (cur_Header L) sp) (\<lambda>(out, sp).
    andthen (map_option Inr (cur_DeleteList L sp)) (\<lambda>sp. Some (Inr (out, sp))))))"

section \<open>The interface\<close>

text \<open>\<open>rep n s ps xs\<close>: the list in \<open>s\<close> has the cells \<open>ps\<close> with the elements
  \<open>xs\<close>, and \<open>n\<close> more elements can be inserted. A position is the header or a cell.\<close>

locale pos_list =
  fixes ops :: "'s list_ops" and L :: int and rep :: "nat \<Rightarrow> 's \<Rightarrow> int list \<Rightarrow> int list \<Rightarrow> bool"
  assumes rep_length: "rep n s ps xs \<Longrightarrow> length xs = length ps"
    and ins_ok: "rep (Suc n) s ps xs \<Longrightarrow> k \<le> length ps \<Longrightarrow>
      \<exists>s' t. opIns ops x ((L # ps) ! k) s = Some (Inr s') \<and> rep n s' (take k ps @ t # drop k ps) (take k xs @ x # drop k xs)"
    and del_ok: "rep n s ps xs \<Longrightarrow> \<exists>s' ps'. opDel ops x s = Some (Inr s') \<and> rep n s' ps' (remove1 x xs)"
    and find_ok: "rep n s ps xs \<Longrightarrow> \<exists>P. opFind ops x s = Some (Inr P) \<and> (P \<noteq> 0 \<longleftrightarrow> x \<in> set xs)"
    and isempty_ok: "rep n s ps xs \<Longrightarrow> opIsEmpty ops s = Some (Inr (xs = []))"
    and islast_ok: "rep n s ps xs \<Longrightarrow> k \<le> length ps \<Longrightarrow> opIsLast ops ((L # ps) ! k) s = Some (Inr (k = length ps))"
    and advance_ok: "rep n s ps xs \<Longrightarrow> k < length ps \<Longrightarrow> opAdvance ops ((L # ps) ! k) s = Some (Inr (ps ! k))"
    and retrieve_ok: "rep n s ps xs \<Longrightarrow> k < length ps \<Longrightarrow> opRetrieve ops (ps ! k) s = Some (Inr (xs ! k))"
begin

lemma print_loop_ok:
  assumes "rep n s ps xs" "k < length ps"
  shows "list_print_loop ops ((L # ps) ! k) s = Some (Inr (drop k xs))"
  using assms(2)
proof (induction "length ps - k" arbitrary: k)
  case (Suc m)
  have x: "drop k xs = xs ! k # drop (Suc k) xs" using Suc.prems rep_length [OF assms(1)] by (simp add: Cons_nth_drop_Suc)
  have l: "opIsLast ops (ps ! k) s = Some (Inr (Suc k = length ps))" using islast_ok [OF assms(1), of "Suc k"] Suc.prems by simp
  show ?case
  proof (cases "Suc k = length ps")
    case True
    then show ?thesis using advance_ok [OF assms(1) Suc.prems] retrieve_ok [OF assms(1) Suc.prems] l x rep_length [OF assms(1)]
      by (subst list_print_loop.simps) simp
  next
    case False
    then have "list_print_loop ops (ps ! k) s = Some (Inr (drop (Suc k) xs))" using Suc.hyps(1) [of "Suc k"] Suc by simp
    then show ?thesis using advance_ok [OF assms(1) Suc.prems] retrieve_ok [OF assms(1) Suc.prems] l x False
      by (subst list_print_loop.simps) simp
  qed
qed simp

lemma PrintList_ok:
  assumes "rep n s ps xs"
  shows "PrintList ops L s = Some (Inr [if xs = [] then EmptyList else Numbers xs])"
proof (cases "xs = []")
  case False
  then have "0 < length ps" using rep_length [OF assms] by auto
  from print_loop_ok [OF assms this] False show ?thesis using isempty_ok [OF assms] by (simp add: PrintList_def)
qed (use isempty_ok [OF assms] in \<open>simp add: PrintList_def\<close>)

lemma append_loop_ok:
  "rep (n + length is) s ps xs \<Longrightarrow>
    \<exists>s' ps'. append_loop ops L is ((L # ps) ! length ps) s =
        Some (Inr (map (\<lambda>k. Numbers (xs @ take (Suc k) is)) [0..<length is], s')) \<and> rep n s' ps' (xs @ is)"
proof (induction "is" arbitrary: s ps xs)
  case (Cons i "is")
  have l: "length xs = length ps" using rep_length [OF Cons.prems] .
  obtain s1 t where s1: "opIns ops i ((L # ps) ! length ps) s = Some (Inr s1)" "rep (n + length is) s1 (ps @ [t]) (xs @ [i])"
    using ins_ok [of "n + length is" s ps xs "length ps" i] Cons.prems l by auto
  have a: "opAdvance ops ((L # ps) ! length ps) s1 = Some (Inr t)" using advance_ok [OF s1(2), of "length ps"]
    by (cases ps rule: rev_cases) (auto simp: nth_append)
  have o: "map (\<lambda>k. Numbers (xs @ take (Suc k) (i # is))) [0..<length (i # is)] =
      Numbers (xs @ [i]) # map (\<lambda>k. Numbers ((xs @ [i]) @ take (Suc k) is)) [0..<length is]"
    by (simp add: upt_conv_Cons map_Suc_upt [symmetric] comp_def del: upt_Suc)
  obtain s' ps' where "append_loop ops L is t s1 =
      Some (Inr (map (\<lambda>k. Numbers ((xs @ [i]) @ take (Suc k) is)) [0..<length is], s'))" "rep n s' ps' (xs @ i # is)"
    using Cons.IH [OF s1(2)] by (auto simp: nth_append)
  then show ?case using s1(1) a PrintList_ok [OF s1(2)] unfolding o by auto
qed auto

lemma delete_loop_ok:
  "rep n s ps xs \<Longrightarrow> \<exists>s' ps'. delete_loop ops is s = Some (Inr s') \<and> rep n s' ps' (fold remove1 is xs)"
proof (induction "is" arbitrary: s ps xs)
  case (Cons i "is")
  obtain s1 ps1 where "opDel ops i s = Some (Inr s1)" "rep n s1 ps1 (remove1 i xs)" using del_ok [OF Cons.prems] by blast
  then show ?case using Cons.IH by auto
qed auto

lemma find_check_ok:
  "rep n s ps xs \<Longrightarrow> (\<And>i. i \<in> set is \<Longrightarrow> i \<in> set xs \<longleftrightarrow> i mod 2 \<noteq> 0) \<Longrightarrow> find_check ops is s = Some (Inr [])"
proof (induction "is")
  case (Cons i "is")
  obtain P where "opFind ops i s = Some (Inr P)" "P \<noteq> 0 \<longleftrightarrow> i \<in> set xs" using find_ok [OF Cons.prems(1)] by blast
  then show ?case using Cons by auto
qed simp

lemma main_ok:
  assumes "rep 10 s [] []"
  shows "\<exists>s' ps'. list_main ops L s = Some (Inr (EmptyList # map (\<lambda>k. Numbers [0..int k]) [0..<10] @
      [Text ''Finished deletions'', Numbers [1, 3, 5, 7, 9]], s')) \<and> rep 0 s' ps' [1, 3, 5, 7, 9]"
proof -
  have r: "range_by 0 10 1 = [0, 1, 2, 3, 4, 5, 6, 7, 8, 9]" "range_by 0 10 2 = [0, 2, 4, 6, 8]" by code_simp+
  have n: "length (range_by 0 10 1) = 10" by code_simp
  obtain s1 ps1 where s1: "append_loop ops L (range_by 0 10 1) L s =
      Some (Inr (map (\<lambda>k. Numbers (take (Suc k) (range_by 0 10 1))) [0..<10], s1))" "rep 0 s1 ps1 (range_by 0 10 1)"
    using append_loop_ok [of 0 "range_by 0 10 1" s "[]" "[]"] assms n by auto
  have o: "map (\<lambda>k. Numbers (take (Suc k) (range_by 0 10 1))) [0..<10] = map (\<lambda>k. Numbers [0..int k]) [0..<10]" by code_simp
  have f: "fold remove1 (range_by 0 10 2) (range_by 0 10 1) = [1, 3, 5, 7, 9]" by code_simp
  obtain s2 ps2 where s2: "delete_loop ops (range_by 0 10 2) s1 = Some (Inr s2)" "rep 0 s2 ps2 [1, 3, 5, 7, 9]"
    using delete_loop_ok [OF s1(2), of "range_by 0 10 2"] f by auto
  have "find_check ops (range_by 0 10 1) s2 = Some (Inr [])"
    by (rule find_check_ok [OF s2(2)]) (auto simp: r)
  then show ?thesis using PrintList_ok [OF assms] s1(1) s2 PrintList_ok [OF s2(2)] unfolding list_main_def o by auto
qed

end

section \<open>The linked list and the cursor list\<close>

lemma list_at_position:
  assumes l: "list_at h L ps xs" and k: "k \<le> length ps"
  obtains c where "(L # ps) ! k \<noteq> 0" "h ((L # ps) ! k) = Some c" "Next c = (if k < length ps then ps ! k else 0)"
    "0 < k \<Longrightarrow> Element c = xs ! (k - 1)"
proof -
  let ?a = "(L # ps) ! k"
  have "L # ps = take k (L # ps) @ ?a # drop k ps" using k id_take_nth_drop [of k "L # ps"] by simp
  then have "seg h L (take k (L # ps) @ ?a # drop k ps) 0" using l unfolding list_at_def by metis
  then obtain c where c: "?a \<noteq> 0" "h ?a = Some c" "seg h (Next c) (drop k ps) 0" unfolding seg_split by blast
  have "Next c = (if k < length ps then ps ! k else 0)"
    using seg_first_or [OF c(3)] k by (cases "drop k ps") (auto simp: drop_eq_Nil2 nth_via_drop)
  moreover have "Element c = xs ! (k - 1)" if "0 < k" using l c(2) k that by (cases k) (auto simp: list_at_def elem_def)
  ultimately show ?thesis using c that by blast
qed

lemma list_at_found:
  assumes "list_at h L ps xs"
  shows "first_or (dropWhile (\<lambda>a. elem h a \<noteq> X) ps) 0 \<noteq> 0 \<longleftrightarrow> X \<in> set xs"
proof (cases "dropWhile (\<lambda>a. elem h a \<noteq> X) ps")
  case Nil
  then have "X \<notin> set xs" using assms by (auto simp: list_at_def)
  then show ?thesis unfolding Nil by simp
next
  case (Cons q qs)
  then have "q \<in> set ps" by (metis list.set_intros(1) set_dropWhileD)
  moreover have "elem h q = X" using hd_dropWhile [of "\<lambda>a. elem h a \<noteq> X" ps] Cons by simp
  moreover have "xs = map (elem h) ps" using assms by (simp add: list_at_def)
  ultimately have "X \<in> set xs" by auto
  moreover have "q \<noteq> 0" using list_at_cells [OF assms, of q] \<open>q \<in> set ps\<close> by simp
  ultimately show ?thesis unfolding Cons by simp
qed

definition ll_rep :: "(heap \<Rightarrow> int) \<Rightarrow> int \<Rightarrow> nat \<Rightarrow> heap \<Rightarrow> int list \<Rightarrow> int list \<Rightarrow> bool" where
  "ll_rep al L n h ps xs \<longleftrightarrow> malloc_ok al \<and> finite (dom h) \<and> list_at h L ps xs"

lemma list_at_length: "list_at h L ps xs \<Longrightarrow> length xs = length ps"
  by (simp add: list_at_def)

lemma finite_dom_frame: "finite (dom h) \<Longrightarrow> (\<And>a. a \<noteq> p \<Longrightarrow> a \<noteq> q \<Longrightarrow> h' a = h a) \<Longrightarrow> finite (dom h')"
  by (rule finite_subset [of _ "insert p (insert q (dom h))"]) auto

lemma ll_Delete_finite:
  assumes l: "list_at h L ps xs" and f: "finite (dom h)"
  shows "\<exists>h' ps'. ll_Delete X L h = Some (Inr h') \<and> list_at h' L ps' (remove1 X xs) \<and> finite (dom h')"
proof (cases "dropWhile (\<lambda>a. elem h a \<noteq> X) ps")
  case Nil
  then have "remove1 X xs = xs" using l by (intro remove1_idem) (auto simp: list_at_def)
  then show ?thesis using ll_Delete_ok [OF l, of X] l f unfolding Nil by auto
next
  case (Cons t bs)
  let ?T = "takeWhile (\<lambda>a. elem h a \<noteq> X) ps"
  obtain h' where h': "ll_Delete X L h = Some (Inr h')" "list_at h' L (?T @ bs) (remove1 X xs)"
    "\<forall>a. a \<noteq> t \<and> a \<noteq> last (L # ?T) \<longrightarrow> h' a = h a" using ll_Delete_ok [OF l, of X] unfolding Cons by auto
  then show ?thesis using finite_dom_frame [OF f, of t "last (L # ?T)" h'] by blast
qed

interpretation ll: pos_list "ll_ops al g L" L "ll_rep al L" for al g L
proof
  fix n h ps xs assume "ll_rep al L n h ps xs"
  then have r: "list_at h L ps xs" "finite (dom h)" "malloc_ok al" by (auto simp: ll_rep_def)
  show "length xs = length ps" by (rule list_at_length [OF r(1)])
  show "\<exists>h' ps'. opDel (ll_ops al g L) x h = Some (Inr h') \<and> ll_rep al L n h' ps' (remove1 x xs)" for x
    using ll_Delete_finite [OF r(1,2), of x] r(3) by (auto simp: ll_ops_def ll_rep_def)
  show "\<exists>P. opFind (ll_ops al g L) x h = Some (Inr P) \<and> (P \<noteq> 0 \<longleftrightarrow> x \<in> set xs)" for x
    using ll_Find_ok [OF r(1)] list_at_found [OF r(1)] by (simp add: ll_ops_def)
  show "opIsEmpty (ll_ops al g L) h = Some (Inr (xs = []))"
    by (rule list_at_position [OF r(1), of 0]) (use list_at_length [OF r(1)] list_at_cells [OF r(1)] in \<open>auto simp: ll_ops_def ll_IsEmpty_def deref_ok\<close>)
  show "opIsLast (ll_ops al g L) ((L # ps) ! k) h = Some (Inr (k = length ps))" if "k \<le> length ps" for k
    by (rule list_at_position [OF r(1) that]) (use that list_at_cells [OF r(1)] in \<open>auto simp: ll_ops_def ll_IsLast_def deref_ok\<close>)
  show "opAdvance (ll_ops al g L) ((L # ps) ! k) h = Some (Inr (ps ! k))" if "k < length ps" for k
    by (rule list_at_position [OF r(1), of k]) (use that in \<open>auto simp: ll_ops_def ll_Advance_def deref_ok\<close>)
  show "opRetrieve (ll_ops al g L) (ps ! k) h = Some (Inr (xs ! k))" if "k < length ps" for k
    by (rule list_at_position [OF r(1), of "Suc k"]) (use that in \<open>auto simp: ll_ops_def ll_Retrieve_def deref_ok\<close>)
next
  fix n h ps xs k x assume "ll_rep al L (Suc n) h ps xs" and k: "k \<le> length ps"
  then have r: "list_at h L ps xs" "finite (dom h)" "malloc_ok al" by (auto simp: ll_rep_def)
  have "fresh h (al h)" using r by (simp add: malloc_ok_def)
  from ll_Insert_ok [OF r(1) k this, of g x] finite_dom_frame [OF r(2), of "(L # ps) ! k" "al h"] r(3)
  show "\<exists>h' t. opIns (ll_ops al g L) x ((L # ps) ! k) h = Some (Inr h') \<and>
      ll_rep al L n h' (take k ps @ t # drop k ps) (take k xs @ x # drop k xs)"
    by (fastforce simp: ll_ops_def ll_rep_def)
qed

definition cur_rep :: "int \<Rightarrow> nat \<Rightarrow> space \<Rightarrow> int list \<Rightarrow> int list \<Rightarrow> bool" where
  "cur_rep L n sp ps xs \<longleftrightarrow> (\<exists>fs. cursor_list sp fs L ps xs \<and> n \<le> length fs)"

lemma cur_Delete_room:
  assumes c: "cursor_list sp fs L ps xs" and n: "n \<le> length fs"
  shows "\<exists>sp' ps'. cur_Delete X L sp = Some sp' \<and> cur_rep L n sp' ps' (remove1 X xs)"
proof -
  obtain sp' ps' fs' where d: "cur_Delete X L sp = Some sp'" "cursor_list sp' fs' L ps' (remove1 X xs)"
    "mset ps' + mset fs' = mset ps + mset fs" using cur_Delete_ok [OF c, of X] by blast
  have "length ps' = length (remove1 X xs)" "length ps = length xs" using d(2) c by (auto simp: cursor_list_def list_at_def)
  moreover have "length (remove1 X xs) \<le> length xs" by (simp add: length_remove1)
  moreover have "length ps' + length fs' = length ps + length fs" using arg_cong [OF d(3), of size] by simp
  ultimately have "n \<le> length fs'" using n by linarith
  then show ?thesis using d unfolding cur_rep_def by blast
qed

interpretation cur: pos_list "cur_ops L" L "cur_rep L" for L
proof
  fix n sp ps xs assume "cur_rep L n sp ps xs"
  then obtain fs where c: "cursor_list sp fs L ps xs" "n \<le> length fs" by (auto simp: cur_rep_def)
  then have l: "list_at (vw sp) L ps xs" by (simp add: cursor_list_def)
  show "length xs = length ps" by (rule list_at_length [OF l])
  show "\<exists>sp' ps'. opDel (cur_ops L) x sp = Some (Inr sp') \<and> cur_rep L n sp' ps' (remove1 x xs)" for x
    using cur_Delete_room [OF c, of x] by (auto simp: cur_ops_def)
  show "\<exists>P. opFind (cur_ops L) x sp = Some (Inr P) \<and> (P \<noteq> 0 \<longleftrightarrow> x \<in> set xs)" for x
    using cur_Find_ok [OF c(1)] list_at_found [OF l] by (simp add: cur_ops_def)
  show "opIsEmpty (cur_ops L) sp = Some (Inr (xs = []))"
    by (rule list_at_position [OF l, of 0]) (use list_at_length [OF l] list_at_cells [OF l] in \<open>auto simp: cur_ops_def cur_IsEmpty_def vw_Some\<close>)
  show "opIsLast (cur_ops L) ((L # ps) ! k) sp = Some (Inr (k = length ps))" if "k \<le> length ps" for k
    by (rule list_at_position [OF l that]) (use that list_at_cells [OF l] in \<open>auto simp: cur_ops_def cur_IsLast_def vw_Some\<close>)
  show "opAdvance (cur_ops L) ((L # ps) ! k) sp = Some (Inr (ps ! k))" if "k < length ps" for k
    by (rule list_at_position [OF l, of k]) (use that in \<open>auto simp: cur_ops_def cur_Advance_def vw_Some\<close>)
  show "opRetrieve (cur_ops L) (ps ! k) sp = Some (Inr (xs ! k))" if "k < length ps" for k
    by (rule list_at_position [OF l, of "Suc k"]) (use that in \<open>auto simp: cur_ops_def cur_Retrieve_def vw_Some\<close>)
next
  fix n sp ps xs k x assume "cur_rep L (Suc n) sp ps xs" and k: "k \<le> length ps"
  then obtain t fs where c: "cursor_list sp (t # fs) L ps xs" "n \<le> length fs" by (auto simp: cur_rep_def Suc_le_length_iff)
  from cur_Insert_ok [OF c(1) k, of x] c(2) show "\<exists>sp' t. opIns (cur_ops L) x ((L # ps) ! k) sp = Some (Inr sp') \<and>
      cur_rep L n sp' (take k ps @ t # drop k ps) (take k xs @ x # drop k xs)"
    by (auto simp: cur_ops_def cur_rep_def)
qed

section \<open>Properties\<close>

text \<open>With memory available, \<open>main\<close> of \<^verbatim>\<open>testlist.c\<close> and
  \<open>main\<close> of \<^verbatim>\<open>testcurs.c\<close> end and print the same: that the list is empty, the
  list after each of the ten insertions, no failed search, and the odd numbers; what is left is the
  empty list with its header.\<close>

theorem list_tests_pass:
  assumes "malloc_ok al" "finite (dom h)" "len sp = SpaceSize"
  defines "out \<equiv> EmptyList # map (\<lambda>k. Numbers [0..int k]) [0..<10] @ [Text ''Finished deletions'', Numbers [1, 3, 5, 7, 9]]"
  shows "(\<exists>h'. testlist_main al g h = Some (Inr (out, h')) \<and> list_at h' (al h) [] []) \<and>
    (\<exists>sp' fs. testcurs_main sp = Some (Inr (out, sp')) \<and> cursor_list sp' fs 1 [] [])"
proof
  let ?h = "h(al h \<mapsto> g\<lparr>Next := 0\<rparr>)"
  have f: "al h \<noteq> 0" using assms(1,2) by (simp add: malloc_ok_def fresh_def)
  then have m: "ll_MakeEmpty (al h) g 0 h = Some (Inr (al h, ?h))" "ll_rep al (al h) 10 ?h [] []"
    using assms(1,2) by (auto simp: ll_MakeEmpty_def heap_ok ll_rep_def list_at_def)
  obtain h1 ps where h1: "list_main (ll_ops al g (al h)) (al h) ?h = Some (Inr (out, h1))" "list_at h1 (al h) ps [1, 3, 5, 7, 9]"
    using ll.main_ok [OF m(2), of g] unfolding out_def by (auto simp: ll_rep_def)
  then show "\<exists>h'. testlist_main al g h = Some (Inr (out, h')) \<and> list_at h' (al h) [] []"
    using m(1) ll_DeleteList_ok [OF h1(2)] by (auto simp: testlist_main_def ll_Header_def)
  obtain s1 where s1: "InitializeCursorSpace sp = Some s1" "free_list s1 [1..SpaceSize - 1]"
    using InitializeCursorSpace_ok [OF assms(3)] by blast
  have "[1..SpaceSize - 1] = 1 # [2..SpaceSize - 1]" by (simp add: SpaceSize_def upto_rec1)
  then obtain s2 where s2: "cur_MakeEmpty 0 s1 = Some (Inr (1, s2))" "cursor_list s2 [2..SpaceSize - 1] 1 [] []"
    using cur_MakeEmpty_new [of s1 1] s1(2) by auto
  then have "cur_rep 1 10 s2 [] []" by (auto simp: cur_rep_def SpaceSize_def)
  from cur.main_ok [OF this] obtain s3 fs ps where
    s3: "list_main (cur_ops 1) 1 s2 = Some (Inr (out, s3))" "cursor_list s3 fs 1 ps [1, 3, 5, 7, 9]"
    unfolding out_def by (auto simp: cur_rep_def)
  then show "\<exists>sp' fs. testcurs_main sp = Some (Inr (out, sp')) \<and> cursor_list sp' fs 1 [] []"
    using s1(1) s2(1) cur_DeleteList_ok [OF s3(2)] by (auto simp: testcurs_main_def cur_Header_def)
qed

lemma list_tests_pass_witness:
  "\<exists>sp'. testcurs_main (replicate 100 \<lparr>Element = 4, Next = 9\<rparr>) = Some (Inr (EmptyList #
      map (\<lambda>k. Numbers [0..int k]) [0..<10] @ [Text ''Finished deletions'', Numbers [1, 3, 5, 7, 9]], sp'))"
  using list_tests_pass [OF malloc_ok_above, of Map.empty "replicate 100 \<lparr>Element = 4, Next = 9\<rparr>"]
  by (auto simp: SpaceSize_def)

end
