(* ===== verification/HashTests.thy ===== *)
theory HashTests
  imports SetTests HashSep HashQuad
begin

text \<open>
  The test program of the hash tables, \<^verbatim>\<open>src/DSAAC/testhash.c\<close>, in its two
  configurations: \<open>SepChain\<close>, which the file selects, and \<open>QuadProb\<close>, in which the
  program itself doubles the table whenever it is half full. It inserts 400 multiples of 71 and looks
  all of them up.
\<close>

section \<open>The program\<close>

definition NumItems :: nat where "NumItems = 400"

text \<open>The values of \<open>( i, j )\<close> in the loops.\<close>

definition hash_items :: "(int \<times> int) list" where
  "hash_items = map (\<lambda>k. (int k, 71 * int k)) [0..<NumItems]"

fun sep_fill :: "(heap \<Rightarrow> int) \<Rightarrow> cell \<Rightarrow> (int \<times> int) list \<Rightarrow> hashsep \<Rightarrow> heap \<Rightarrow> heap res option" where
  "sep_fill al g [] H h = Some (Inr h)"
| "sep_fill al g ((i, j) # is) H h = andthen (hs_Insert (al h) g j H h) (sep_fill al g is H)"

fun sep_check :: "(int \<times> int) list \<Rightarrow> hashsep \<Rightarrow> heap \<Rightarrow> line list res option" where
  "sep_check [] H h = Some (Inr [])"
| "sep_check ((i, j) # is) H h =
    andthen (hs_Find j H h) (\<lambda>P.
    after (if P = 0 then Inr True else bindr (hs_Retrieve P h) (\<lambda>e. Inr (e \<noteq> j))) (\<lambda>b.
    andthen (sep_check is H h) (\<lambda>out. Some (Inr ((if b then [ErrorAt ''Error'' j] else []) @ out)))))"

definition testhash_sep :: "(int \<Rightarrow> int) \<Rightarrow> (heap \<Rightarrow> int) \<Rightarrow> cell \<Rightarrow> heap \<Rightarrow> line list res option" where
  "testhash_sep gl al g h =
    andthen (hs_InitializeTable True True gl al g 13 h) (\<lambda>(H, h).
    andthen (sep_fill al g hash_items H h) (\<lambda>h.
    andthen (sep_check hash_items H h) (\<lambda>out. Some (Inr (out @ [Message ''End of program.''])))))"

fun quad_fill :: "(int \<Rightarrow> hentry) \<Rightarrow> (int \<times> int) list \<Rightarrow> int \<Rightarrow> hashquad \<Rightarrow> (line list \<times> hashquad) res option" where
  "quad_fill g [] CurrentSize H = Some (Inr ([], H))"
| "quad_fill g ((i, j) # is) CurrentSize H =
    andthen (if i > CurrentSize div 2
             then andthen (hq_Rehash True True g H) (\<lambda>H. Some (Inr ([Message ''Rehashing...''], CurrentSize * 2, H)))
             else Some (Inr ([], CurrentSize, H))) (\<lambda>(out1, CurrentSize, H).
    andthen (hq_Insert j H) (\<lambda>H.
    andthen (quad_fill g is CurrentSize H) (\<lambda>(out2, H). Some (Inr (out1 @ out2, H)))))"

fun quad_check :: "(int \<times> int) list \<Rightarrow> hashquad \<Rightarrow> line list res option" where
  "quad_check [] H = Some (Inr [])"
| "quad_check ((i, j) # is) H =
    andthen (hq_Find j H) (\<lambda>P.
    after (hq_Retrieve P H) (\<lambda>e.
    andthen (quad_check is H) (\<lambda>out. Some (Inr ((if e \<noteq> j then [ErrorAt ''Error'' j] else []) @ out)))))"

definition testhash_quad :: "(int \<Rightarrow> hentry) \<Rightarrow> line list res option" where
  "testhash_quad g =
    andthen (hq_InitializeTable True True g 13) (\<lambda>H.
    andthen (quad_fill g hash_items 13 H) (\<lambda>(out1, H).
    andthen (quad_check hash_items H) (\<lambda>out2. Some (Inr (out1 @ out2 @ [Message ''End of program.''])))))"

section \<open>Separate chaining\<close>

lemma sep_fill_ok:
  assumes al: "malloc_ok al"
  shows "hs_rep H h pss xss \<Longrightarrow> finite (dom h) \<Longrightarrow> (\<And>i j. (i, j) \<in> set is \<Longrightarrow> 0 \<le> j) \<Longrightarrow>
    \<exists>h' pss' xss'. sep_fill al g is H h = Some (Inr h') \<and> hs_rep H h' pss' xss' \<and> hs_keys H xss' = hs_keys H xss \<union> snd ` set is"
proof (induction "is" arbitrary: h pss xss)
  case (Cons p "is")
  obtain i j where p: "p = (i, j)" by (cases p)
  have "fresh h (al h)" using al Cons.prems(2) by (simp add: malloc_ok_def)
  then obtain h1 pss1 xss1 where h1: "hs_Insert (al h) g j H h = Some (Inr h1)" "hs_rep H h1 pss1 xss1"
    "hs_keys H xss1 = insert j (hs_keys H xss)" using hs_Insert_ok [OF Cons.prems(1), of j "al h" g] Cons.prems(3) [of i j] p by auto
  have "finite (dom h1)" using hs_Insert_finite [OF h1(1) Cons.prems(2)] .
  from Cons.IH [OF h1(2) this] Cons.prems(3) obtain h' pss' xss' where
    "sep_fill al g is H h1 = Some (Inr h')" "hs_rep H h' pss' xss'" "hs_keys H xss' = hs_keys H xss1 \<union> snd ` set is" by force
  then show ?case using h1 p by auto
qed auto

lemma sep_check_ok:
  "hs_rep H h pss xss \<Longrightarrow> (\<And>i j. (i, j) \<in> set is \<Longrightarrow> 0 \<le> j \<and> j \<in> hs_keys H xss) \<Longrightarrow> sep_check is H h = Some (Inr [])"
proof (induction "is")
  case (Cons p "is")
  obtain i j where p: "p = (i, j)" by (cases p)
  then obtain P where "hs_Find j H h = Some (Inr P)" "P \<noteq> 0" "hs_Retrieve P h = Inr j"
    using hs_Find_finds [OF Cons.prems(1), of j] Cons.prems(2) [of i j] by auto
  moreover have "sep_check is H h = Some (Inr [])" using Cons.prems by (intro Cons.IH) auto
  ultimately show ?case using p by simp
qed simp

lemma hash_items_set: "(i, j) \<in> set hash_items \<Longrightarrow> 0 \<le> j \<and> j \<in> snd ` set hash_items"
  by (force simp: hash_items_def)

lemma testhash_sep_ok:
  assumes "malloc_ok al" "finite (dom h)"
  shows "testhash_sep gl al g h = Some (Inr [Message ''End of program.''])"
proof -
  obtain H h1 where h1: "hs_InitializeTable True True gl al g 13 h = Some (Inr (H, h1))" "hs_rep H h1 (\<lambda>_. []) (\<lambda>_. [])" "finite (dom h1)"
    using hs_InitializeTable_ok [OF assms(1) _ prm_23 _ _ assms(2), of 13 gl g] by (auto simp: hs_MinTableSize_def)
  have "hs_keys H (\<lambda>_. []) = {}" by (simp add: hs_keys_def)
  with sep_fill_ok [OF assms(1) h1(2,3), of hash_items g] obtain h2 pss xss where
    h2: "sep_fill al g hash_items H h1 = Some (Inr h2)" "hs_rep H h2 pss xss" "hs_keys H xss = snd ` set hash_items"
    using hash_items_set by auto
  have "sep_check hash_items H h2 = Some (Inr [])" using hash_items_set h2(3) by (intro sep_check_ok [OF h2(2)]) auto
  then show ?thesis using h1(1) h2(1) by (simp add: testhash_sep_def)
qed

section \<open>Quadratic probing\<close>

lemma hq_Find_finds:
  assumes "hq_inv H" "int (card (used H)) \<le> hqTableSize H div 2" "0 \<le> k" "k \<in> hq_keys H"
  shows "\<exists>q. hq_Find k H = Some (Inr q) \<and> hq_Retrieve q H = Inr k"
proof -
  let ?T = "hqTableSize H" and ?C = "TheCells H"
  obtain i where i: "hq_Find k H = Some (Inr (probe ?T k i))" "0 \<le> i" "stops H k i" "\<And>j. 0 \<le> j \<Longrightarrow> j < i \<Longrightarrow> \<not> stops H k j"
    using hq_Find_ok [OF assms(1,2,3)] by blast
  obtain q where q: "q \<in> used H" "hElement (elt ?C q) = k" using assms(4) by (auto simp: hq_keys_def)
  then have "probe ?T k i = q" using found_used [OF assms(1) q i(2,3,4)] by simp
  then show ?thesis using i(1) q by (auto simp: hq_Retrieve_def used_def)
qed

text \<open>The value of \<open>CurrentSize\<close> and, beside it, the largest size the table can have.\<close>

definition sizes :: "(int \<times> int) list" where
  "sizes = [(13, 13), (26, 29), (52, 59), (104, 127), (208, 257), (416, 521), (832, 1049)]"

lemma prm_sizes: "list_all (\<lambda>(s, p). prm p) sizes"
proof -
  have "prm 13" "prm 29" "prm 59" "prm 127" "prm 257" "prm 521" "prm 1049"
    by (rule prm_upto, simp, code_simp)+
  then show ?thesis by (simp add: sizes_def)
qed

text \<open>How often the program rehashes.\<close>

fun rehashes :: "(int \<times> int) list \<Rightarrow> int \<Rightarrow> nat" where
  "rehashes [] s = 0"
| "rehashes ((i, j) # is) s = (if i > s div 2 then Suc (rehashes is (s * 2)) else rehashes is s)"

definition quad_state :: "int \<Rightarrow> int \<Rightarrow> hashquad \<Rightarrow> bool" where
  "quad_state i s H \<longleftrightarrow> hq_inv H \<and> int (card (used H)) \<le> i \<and> s \<le> hqTableSize H \<and> (\<exists>p. (s, p) \<in> set sizes \<and> hqTableSize H \<le> p)"

lemma quad_rehash:
  assumes q: "quad_state i s H" and i: "s div 2 < i" "i < 400"
  shows "\<exists>H'. hq_Rehash True True g H = Some (Inr H') \<and> hq_keys H' = hq_keys H \<and> quad_state i (s * 2) H'"
proof -
  obtain p where p: "(s, p) \<in> set sizes" "hqTableSize H \<le> p" "s \<le> hqTableSize H" "hq_inv H" "int (card (used H)) \<le> i"
    using q by (auto simp: quad_state_def)
  then obtain p' where p': "(s * 2, p') \<in> set sizes" "2 * p \<le> p'" using i by (auto simp: sizes_def)
  have "prm p'" using prm_sizes p'(1) by (auto simp: list_all_iff)
  moreover have "5 \<le> hqTableSize H" "p' \<le> prime_bound" using p p' by (auto simp: sizes_def)
  ultimately obtain H' where "hq_Rehash True True g H = Some (Inr H')" "hq_inv H'" "hq_keys H' = hq_keys H"
    "2 * hqTableSize H \<le> hqTableSize H'" "hqTableSize H' \<le> p'" "card (used H') \<le> card (used H)"
    using hq_Rehash_ok [of H p' g] p p' by auto
  then show ?thesis using p p' unfolding quad_state_def by fastforce
qed

lemma quad_insert:
  assumes q: "quad_state i s H" and i: "i \<le> s div 2" "0 \<le> j"
  shows "\<exists>H'. hq_Insert j H = Some (Inr H') \<and> hq_keys H' = insert j (hq_keys H) \<and> quad_state (i + 1) s H'"
proof -
  have "int (card (used H)) \<le> hqTableSize H div 2" using q i(1) unfolding quad_state_def by linarith
  then obtain H' where "hq_Insert j H = Some (Inr H')" "hq_inv H'" "hq_keys H' = insert j (hq_keys H)"
    "hqTableSize H' = hqTableSize H" "card (used H') \<le> card (used H) + 1"
    using hq_Insert_ok [of H j] q i(2) by (auto simp: quad_state_def)
  then show ?thesis using q unfolding quad_state_def by auto
qed

fun counted :: "int \<Rightarrow> (int \<times> int) list \<Rightarrow> bool" where
  "counted i [] \<longleftrightarrow> i \<le> 400"
| "counted i ((k, j) # is) \<longleftrightarrow> k = i \<and> i < 400 \<and> 0 \<le> j \<and> counted (i + 1) is"

text \<open>One round leaves room for the next element.\<close>

lemma quad_fill_ok:
  "quad_state i s H \<Longrightarrow> i \<le> s div 2 + 1 \<Longrightarrow> 0 \<le> i \<Longrightarrow> counted i is \<Longrightarrow>
    \<exists>H' s'. quad_fill g is s H = Some (Inr (replicate (rehashes is s) (Message ''Rehashing...''), H')) \<and>
      hq_keys H' = hq_keys H \<union> snd ` set is \<and> quad_state (i + int (length is)) s' H' \<and> i + int (length is) \<le> s' div 2 + 1"
proof (induction "is" arbitrary: i s H)
  case (Cons p "is")
  obtain j where p: "p = (i, j)" "0 \<le> j" "i < 400" "counted (i + 1) is" using Cons.prems(4) by (cases p) auto
  define s1 where "s1 = (if i > s div 2 then s * 2 else s)"
  obtain H1 where H1: "(if i > s div 2 then hq_Rehash True True g H else Some (Inr H)) = Some (Inr H1)"
    "hq_keys H1 = hq_keys H" "quad_state i s1 H1"
    using quad_rehash [OF Cons.prems(1), of g] p(3) Cons.prems(1) unfolding s1_def by (cases "i > s div 2") auto
  have s: "13 \<le> s" using Cons.prems(1) by (auto simp: quad_state_def sizes_def)
  then have s1: "i \<le> s1 div 2" using Cons.prems(2) unfolding s1_def by auto
  obtain H2 where H2: "hq_Insert j H1 = Some (Inr H2)" "hq_keys H2 = insert j (hq_keys H1)" "quad_state (i + 1) s1 H2"
    using quad_insert [OF H1(3) s1 p(2)] by blast
  obtain H' s' where H': "quad_fill g is s1 H2 = Some (Inr (replicate (rehashes is s1) (Message ''Rehashing...''), H'))"
    "hq_keys H' = hq_keys H2 \<union> snd ` set is" "quad_state (i + 1 + int (length is)) s' H'" "i + 1 + int (length is) \<le> s' div 2 + 1"
    using Cons.IH [OF H2(3) _ _ p(4)] s1 Cons.prems(3) by auto
  have "quad_fill g (p # is) s H = Some (Inr (replicate (rehashes (p # is) s) (Message ''Rehashing...''), H'))"
    using H1(1) H2(1) H'(1) p(1) unfolding s1_def by (auto split: if_splits)
  moreover have "hq_keys H' = hq_keys H \<union> snd ` set (p # is)" using H'(2) H2(2) H1(2) p(1) by auto
  moreover have "i + int (length (p # is)) = i + 1 + int (length is)" by simp
  ultimately show ?case using H'(3,4) by metis
qed auto

lemma quad_check_ok:
  "hq_inv H \<Longrightarrow> int (card (used H)) \<le> hqTableSize H div 2 \<Longrightarrow> (\<And>i j. (i, j) \<in> set is \<Longrightarrow> 0 \<le> j \<and> j \<in> hq_keys H) \<Longrightarrow>
    quad_check is H = Some (Inr [])"
proof (induction "is")
  case (Cons p "is")
  obtain i j where p: "p = (i, j)" by (cases p)
  then obtain q where "hq_Find j H = Some (Inr q)" "hq_Retrieve q H = Inr j"
    using hq_Find_finds [OF Cons.prems(1,2), of j] Cons.prems(3) [of i j] by auto
  moreover have "quad_check is H = Some (Inr [])" using Cons.prems by (intro Cons.IH) auto
  ultimately show ?case using p by simp
qed simp

lemma counted_items: "counted (int a) (map (\<lambda>k. (int k, 71 * int k)) [a..<400])" if "a \<le> 400"
  using that
proof (induction "400 - a" arbitrary: a)
  case (Suc n)
  then have "[a..<400] = a # [Suc a..<400]" by (simp add: upt_conv_Cons)
  then show ?case using Suc.hyps(1) [of "Suc a"] Suc.hyps(2) Suc.prems by (simp add: add.commute)
qed simp

lemma testhash_quad_ok:
  "testhash_quad g = Some (Inr (replicate 6 (Message ''Rehashing...'') @ [Message ''End of program.'']))"
proof -
  have p: "prm 13" using prm_sizes by (simp add: sizes_def)
  obtain H where H: "hq_InitializeTable True True g 13 = Some (Inr H)" "hq_inv H" "used H = {}" "13 \<le> hqTableSize H" "hqTableSize H \<le> 13"
    using hq_InitializeTable_ok [OF _ p, of 13 g] by (auto simp: MinTableSize_def)
  then have q: "quad_state 0 13 H" "hq_keys H = {}" by (auto simp: quad_state_def sizes_def hq_keys_def)
  have c: "counted 0 hash_items" using counted_items [of 0] by (simp add: hash_items_def NumItems_def)
  have r: "rehashes hash_items 13 = 6" "length hash_items = 400" by code_simp+
  obtain H' s' where H': "quad_fill g hash_items 13 H = Some (Inr (replicate 6 (Message ''Rehashing...''), H'))"
    "hq_keys H' = snd ` set hash_items" "quad_state 400 s' H'" "400 \<le> s' div 2 + 1"
    using quad_fill_ok [OF q(1) _ _ c, of g] q(2) r by auto
  have "400 \<le> s' div 2"
    using H'(3,4) by (auto simp: quad_state_def sizes_def)
  then have "int (card (used H')) \<le> hqTableSize H' div 2" using H'(3) unfolding quad_state_def by linarith
  then have "quad_check hash_items H' = Some (Inr [])"
    using H'(2,3) hash_items_set by (intro quad_check_ok) (auto simp: quad_state_def)
  then show ?thesis using H(1) H'(1) by (simp add: testhash_quad_def)
qed

section \<open>Properties\<close>

text \<open>With memory available, \<open>main\<close> of \<^verbatim>\<open>testhash.c\<close> ends in both
  configurations and prints no error line; with quadratic probing it rehashes exactly six times, each
  time before the table is more than half full.\<close>

theorem hash_tests_pass:
  assumes "malloc_ok al" "finite (dom h)"
  shows "testhash_sep gl al g h = Some (Inr [Message ''End of program.'']) \<and>
    testhash_quad g' = Some (Inr (replicate 6 (Message ''Rehashing...'') @ [Message ''End of program.'']))"
  using testhash_sep_ok [OF assms] testhash_quad_ok by blast

lemma hash_tests_pass_witness:
  "testhash_sep (\<lambda>_. 0) (\<lambda>h. Max (insert 0 (dom h)) + 1) \<lparr>Element = 0, Next = 0\<rparr> Map.empty = Some (Inr [Message ''End of program.'']) \<and>
   testhash_quad (\<lambda>_. \<lparr>hElement = 0, hInfo = Empty\<rparr>) =
     Some (Inr (replicate 6 (Message ''Rehashing...'') @ [Message ''End of program.'']))"
  by (rule hash_tests_pass [OF malloc_ok_above]) simp

end
