(* ===== verification/FigureMains.thy ===== *)
theory FigureMains
  imports Sorting DisjSets MaxSum Poly NumberAlgos DynProg OptMatrix AllPairs
begin

text \<open>
  The \<open>main\<close> functions of the files of \<^verbatim>\<open>src/DSAAC\<close> that hold an algorithm and its
  demonstration: \<^verbatim>\<open>sort.c\<close>, \<^verbatim>\<open>disjsets.c\<close>, \<^verbatim>\<open>max_sum.c\<close>,
  \<^verbatim>\<open>poly.c\<close> and the \<^verbatim>\<open>fig*.c\<close> files. Each is modelled by the values it
  prints; what uninitialised variables hold and what \<open>rand()\<close> returns are parameters.
\<close>

section \<open>The programs\<close>

definition fig1_2_main :: "int option" where "fig1_2_main = F 5"

definition fig1_4_main :: string where "fig1_4_main = PrintOut 1369 @ [char_of (10 :: nat)]"

definition fig2_9_main :: "(int \<times> int) list option" where
  "fig2_9_main =
    for_up 0 20 (\<lambda>i out. do { r \<leftarrow> BinarySearch [1, 3, 5, 7, 9, 13, 15] i 7; Some (out @ [(i, r)]) }) []"

definition fig2_10_main :: "32 word list" where "fig2_10_main = [Gcd_c 45 35, Gcd_c 1989 1590]"

definition fig2_11_main :: "int option" where "fig2_11_main = Pow_c 2 21"

definition max_sum_main :: "int option option" where
  "max_sum_main = nlogn_MaxSubsequenceSum [4, -3, 5, -2, -1, 2, 6, -2] 8"

definition fig10_40_main :: "int option \<times> int option" where "fig10_40_main = (Fib 7, Fibonacci 7)"

text \<open>\<open>fo\<close>: the floating-point operations.\<close>

definition fig10_38_main :: "'d fops \<Rightarrow> 'd mat \<Rightarrow> 'd list option" where
  "fig10_38_main fo C =
    (let A = [[fint fo 1, fint fo 2], [fint fo 3, fint fo 4]] in do {
       C \<leftarrow> MatrixMultiply fo A A C 2;
       a \<leftarrow> mget C 0 0; b \<leftarrow> mget C 0 1; c \<leftarrow> mget C 1 0; d \<leftarrow> mget C 1 1;
       Some [a, b, c, d] })"

definition fig10_43_main :: "'d fops \<Rightarrow> 'd" where "fig10_43_main fo = Eval fo 10"

definition fig10_45_main :: "(int \<Rightarrow> 'd) \<Rightarrow> 'd fops \<Rightarrow> 'd res" where "fig10_45_main g fo = Eval_table True g fo 10"

text \<open>The loops that print a matrix.\<close>

definition print_matrix :: "int mat \<Rightarrow> int \<Rightarrow> int \<Rightarrow> int list list option" where
  "print_matrix M a b =
    for_up a b (\<lambda>i out. do {
      row \<leftarrow> for_up a b (\<lambda>j row. do { x \<leftarrow> mget M i j; Some (row @ [x]) }) [];
      Some (out @ [row]) }) []"

text \<open>\<open>m\<close>, \<open>l\<close>: what the entries of the uninitialised local arrays hold.\<close>

definition table :: "(int \<Rightarrow> int \<Rightarrow> int) \<Rightarrow> int \<Rightarrow> int mat" where
  "table m n = map (\<lambda>i. map (m i) [0..n - 1]) [0..n - 1]"

definition fig10_46_main :: "(int \<Rightarrow> int \<Rightarrow> int) \<Rightarrow> (int \<Rightarrow> int \<Rightarrow> int) \<Rightarrow> (int list list \<times> int list list) option" where
  "fig10_46_main m l = do {
     (M, LastChange) \<leftarrow> OptMatrix [50, 10, 40, 30, 5] 4 (table m 5) (table l 5);
     out1 \<leftarrow> print_matrix M 1 5;
     out2 \<leftarrow> print_matrix LastChange 1 5;
     Some (out1, out2) }"

definition fig10_53_main :: "(int \<Rightarrow> int \<Rightarrow> int) \<Rightarrow> (int \<Rightarrow> int \<Rightarrow> int) \<Rightarrow> (int list list \<times> int list list) option" where
  "fig10_53_main m l = do {
     (D, Path) \<leftarrow> AllPairs [[0, 2, -2, 2], [1000, 0, -3, 1000], [4, 1000, 0, 1000], [1000, -2, 3, 0]] (table m 4) (table l 4) 4;
     out1 \<leftarrow> print_matrix D 0 4;
     out2 \<leftarrow> print_matrix Path 0 4;
     Some (out1, out2) }"

text \<open>The seeds after each of the twenty calls of \<open>Random\<close>.\<close>

fun seeds :: "(64 word \<Rightarrow> 64 word) \<Rightarrow> nat \<Rightarrow> 64 word \<Rightarrow> 64 word list" where
  "seeds R 0 Seed = []"
| "seeds R (Suc n) Seed = R Seed # seeds R n (R Seed)"

definition fig10_54_main :: "64 word list" where "fig10_54_main = seeds direct_Random 20 1"

definition fig10_55_main :: "64 word list" where "fig10_55_main = seeds schrage_Random 20 1"

text \<open>\<open>rnd i\<close>: what \<open>rand()\<close> returns in the test of \<open>i\<close>.\<close>

definition fig10_62_main :: "(int \<Rightarrow> int) \<Rightarrow> int list option" where
  "fig10_62_main rnd =
    for_up 0 50 (\<lambda>k out. let i = 101 + 2 * k in do {
      b \<leftarrow> IsPrime (rnd i) i; Some (if b then out @ [i] else out) }) []"

definition poly_main :: "int \<Rightarrow> int \<Rightarrow> store \<Rightarrow> (int \<times> int) list res" where
  \<comment> \<open>\<open>p\<close>, \<open>q\<close>: what the calls of \<open>malloc\<close> return\<close>
  "poly_main p q st =
    bindr (set_high st p 1) (\<lambda>st. bindr (set_coeff st p 0 1) (\<lambda>st. bindr (set_coeff st p 1 1) (\<lambda>st.
    bindr (MultPolynomial p p q st) (\<lambda>st. bindr (MultPolynomial q q p st) (\<lambda>st.
    bindr (AddPolynomial p p q st) (PrintPoly q))))))"

partial_function (option) ds_inner :: "int \<Rightarrow> int \<Rightarrow> int list \<Rightarrow> int list res option" where
  "ds_inner k j S =
    (if j < NumSets then
       case join fast_Find fast_SetUnion j (j + k) S of None \<Rightarrow> None | Some (Inl e) \<Rightarrow> Some (Inl e)
       | Some (Inr S) \<Rightarrow> ds_inner k (j + 2 * k) S
     else Some (Inr S))"

partial_function (option) ds_outer :: "int \<Rightarrow> int list \<Rightarrow> int list res option" where
  "ds_outer k S =
    (if k \<le> 8 then
       case ds_inner k 1 S of None \<Rightarrow> None | Some (Inl e) \<Rightarrow> Some (Inl e) | Some (Inr S) \<Rightarrow> ds_outer (k * 2) S
     else Some (Inr S))"

fun ds_print :: "int list \<Rightarrow> int list \<Rightarrow> int list res option" where
  "ds_print [] S = Some (Inr [])"
| "ds_print (i # is) S = andthen (fast_Find i S) (\<lambda>(Set1, S). andthen (ds_print is S) (\<lambda>out. Some (Inr (Set1 # out))))"

definition ds_main :: "int list \<Rightarrow> int list res option" where
  "ds_main S = andthen (Some (ds_Initialize S)) (\<lambda>S. andthen (ds_outer 1 S) (ds_print [1..NumSets]))"

text \<open>\<^verbatim>\<open>sort.c\<close>: \<open>Arr1\<close> and \<open>Arr2\<close> are global, the reports of
  \<open>Checksort\<close> and of the selection test are collected in \<open>out\<close>; \<open>rnd i\<close> are the results
  of \<open>rand()\<close> in round \<open>i\<close>, \<open>g\<close> is what \<open>malloc\<close> leaves in the temporary array.\<close>

definition sort_MaxSize :: int where "sort_MaxSize = 7000"

definition sort_step :: "(int list \<Rightarrow> int list option) \<Rightarrow> int list \<times> int list \<times> (int \<times> int) list list \<Rightarrow>
    (int list \<times> int list \<times> (int \<times> int) list list) option" where
  "sort_step srt = (\<lambda>(Arr1, Arr2, out). do {
     Arr1 \<leftarrow> Copy Arr1 Arr2 sort_MaxSize;
     Arr1 \<leftarrow> srt Arr1;
     report \<leftarrow> Checksort Arr1 sort_MaxSize;
     Some (Arr1, Arr2, out @ [report]) })"

definition select_step :: "int \<Rightarrow> int list \<times> int list \<times> (int \<times> int) list list \<Rightarrow>
    (int list \<times> int list \<times> (int \<times> int) list list) option" where
  "select_step i = (\<lambda>(Arr1, Arr2, out). do {
     Arr1 \<leftarrow> Copy Arr1 Arr2 sort_MaxSize;
     Arr1 \<leftarrow> Qselect Arr1 (sort_MaxSize div 2 + 1 + i) 0 (sort_MaxSize - 1);
     x \<leftarrow> aget Arr1 (sort_MaxSize div 2 + i);
     Some (Arr1, Arr2, out @ [if x \<noteq> sort_MaxSize div 2 + i then [(sort_MaxSize div 2 + i, x)] else []]) })"

definition sort_main :: "(int \<Rightarrow> int \<Rightarrow> nat) \<Rightarrow> int \<Rightarrow> int list \<Rightarrow> int list \<Rightarrow> (int \<times> int) list list option" where
  "sort_main rnd g Arr1 Arr2 = do {
     (Arr1, Arr2, out) \<leftarrow> for_up 0 10 (\<lambda>i (Arr1, Arr2, out). do {
       Arr2 \<leftarrow> Permute (rnd i) Arr2 sort_MaxSize;
       s \<leftarrow> sort_step (\<lambda>A. InsertionSort A 0 sort_MaxSize) (Arr1, Arr2, out);
       s \<leftarrow> sort_step (\<lambda>A. Shellsort A sort_MaxSize) s;
       s \<leftarrow> sort_step (\<lambda>A. Heapsort A sort_MaxSize) s;
       s \<leftarrow> sort_step (Mergesort_o g) s;
       s \<leftarrow> sort_step (\<lambda>A. Quicksort A sort_MaxSize) s;
       select_step i s }) (Arr1, Arr2, []);
     Some out }"

declare fast_Find.simps [code] ds_inner.simps [code] ds_outer.simps [code]

section \<open>What the small ones print\<close>

lemma numeric_mains:
  "fig1_2_main = Some 141" "fig1_4_main = ''1369'' @ [char_of (10 :: nat)]" "fig2_10_main = [5, 3]" "fig2_11_main = Some 2097152"
  "fig10_40_main = (Some 21, Some 21)"
  by code_simp+

lemma table_mains:
  "fig2_9_main = Some [(0, -1), (1, 0), (2, -1), (3, 1), (4, -1), (5, 2), (6, -1), (7, 3), (8, -1), (9, 4), (10, -1),
    (11, -1), (12, -1), (13, 5), (14, -1), (15, 6), (16, -1), (17, -1), (18, -1), (19, -1)]"
  by code_simp

declare MaxSubSum.simps [code]

lemma max_sum_main_prints: "max_sum_main = Some (Some 11)"
  by code_simp

lemma ds_print_blocks:
  "andthen (ds_outer 1 (x # replicate 128 0)) (ds_print [1..NumSets]) = Some (Inr (concat (map (\<lambda>b. replicate 16 (16 * b + 1)) [0..7])))"
  by code_simp

text \<open>\<^verbatim>\<open>fig10_46.c\<close> prints the entries below the diagonal too, which
  \<open>OptMatrix\<close> does not set.\<close>

lemma fig10_46_prints:
  "fig10_46_main m l =
    Some ([[0, 20000, 27000, 10500], [m 2 1, 0, 12000, 8000], [m 3 1, m 3 2, 0, 6000], [m 4 1, m 4 2, m 4 3, 0]],
      [[l 1 1, 1, 1, 1], [l 2 1, l 2 2, 2, 2], [l 3 1, l 3 2, l 3 3, 3], [l 4 1, l 4 2, l 4 3, l 4 4]])"
  by code_simp

lemma fig10_53_prints: "fig10_53_main m l = Some ([[0, 0, - 3, 2], [1, 0, - 3, 3], [4, 4, 0, 6], [- 1, - 2, - 5, 0]],
    [[- 1, 3, 3, - 1], [2, - 1, - 1, 2], [- 1, 3, - 1, 0], [2, - 1, 1, - 1]])"
  by code_simp

lemma seeds_equal:
  assumes "0 < Seed" "Seed < 2147483647"
  shows "seeds schrage_Random n Seed = seeds direct_Random n Seed \<and>
    (\<forall>s \<in> set (seeds direct_Random n Seed). 0 < s \<and> s < 2147483647)"
  using assms
proof (induction n arbitrary: Seed)
  case (Suc n)
  show ?case using Suc.IH [of "direct_Random Seed"] Random_equivalence [OF Suc.prems] by simp
qed simp

lemma fig10_62_prints:
  assumes "\<And>i. 0 \<le> rnd i"
  shows "\<exists>out. fig10_62_main rnd = Some out \<and> (\<forall>i \<in> set out. 101 \<le> i \<and> i < 200 \<and> odd i) \<and>
    (\<forall>i. prm i \<and> 101 \<le> i \<and> i < 200 \<longrightarrow> i \<in> set out)"
proof -
  let ?P = "\<lambda>k out. (\<forall>i \<in> set out. 101 \<le> i \<and> i < 101 + 2 * k \<and> odd i) \<and>
    (\<forall>i. prm i \<and> 101 \<le> i \<and> i < 101 + 2 * k \<longrightarrow> i \<in> set out)"
  have "\<exists>out. fig10_62_main rnd = Some out \<and> ?P 50 out"
    unfolding fig10_62_main_def
  proof (rule for_up_rule [where P = ?P])
    fix k out assume k: "0 \<le> k" "k < (50 :: int)" and P: "?P k out"
    let ?i = "101 + 2 * k"
    obtain b where b: "IsPrime (rnd ?i) ?i = Some b" using IsPrime_total [of ?i "rnd ?i"] assms [of ?i] k by auto
    have pr: "prm ?i \<Longrightarrow> b" using IsPrime_prime [of ?i "rnd ?i"] assms [of ?i] k b by auto
    have old: "i = ?i \<or> i < ?i" if "prm i" "101 \<le> i" "i < 101 + 2 * (k + 1)" for i
      using prm_odd [OF that(1)] that by presburger
    let ?out = "if b then out @ [?i] else out"
    have "101 \<le> i \<and> i < 101 + 2 * (k + 1) \<and> odd i" if "i \<in> set ?out" for i
    proof (cases "i = ?i")
      case False
      then have "i \<in> set out" using that by (simp split: if_splits)
      then have "101 \<le> i \<and> i < 101 + 2 * k \<and> odd i" using P by blast
      then show ?thesis by simp
    qed (use k in simp)
    moreover have "i \<in> set ?out" if i: "prm i" "101 \<le> i" "i < 101 + 2 * (k + 1)" for i
    proof (cases "i = ?i")
      case False
      then have "i \<in> set out" using old [OF i] P i by blast
      then show ?thesis by simp
    qed (use pr i in simp)
    ultimately have P': "?P (k + 1) ?out" by simp
    have E: "(let i = ?i in do { b \<leftarrow> IsPrime (rnd i) i; Some (if b then out @ [i] else out) }) = Some ?out"
      using b by (simp add: Let_def)
    show "\<exists>out'. (let i = ?i in do { b \<leftarrow> IsPrime (rnd i) i; Some (if b then out @ [i] else out) }) = Some out' \<and> ?P (k + 1) out'"
    proof (rule exI, rule conjI)
      show "(let i = ?i in do { b \<leftarrow> IsPrime (rnd i) i; Some (if b then out @ [i] else out) }) = Some ?out"
        by (rule E)
      show "?P (k + 1) ?out" by (rule P')
    qed
  qed auto
  then obtain out where out: "fig10_62_main rnd = Some out" and
    in1: "\<And>i. i \<in> set out \<Longrightarrow> 101 \<le> i \<and> i < 101 + 2 * 50 \<and> odd i" and
    in2: "\<And>i. prm i \<Longrightarrow> 101 \<le> i \<Longrightarrow> i < 101 + 2 * 50 \<Longrightarrow> i \<in> set out" by blast
  have 1: "i < 200" if "i < 101 + 2 * 50" "odd i" for i :: int using that by presburger
  have "\<forall>i \<in> set out. 101 \<le> i \<and> i < 200 \<and> odd i"
  proof
    fix i assume "i \<in> set out"
    with in1 [OF this] 1 [of i] show "101 \<le> i \<and> i < 200 \<and> odd i" by simp
  qed
  moreover have "\<forall>i. prm i \<and> 101 \<le> i \<and> i < 200 \<longrightarrow> i \<in> set out"
  proof (intro allI impI)
    fix i assume "prm i \<and> 101 \<le> i \<and> i < 200"
    then show "i \<in> set out" by (intro in2) simp_all
  qed
  ultimately have "fig10_62_main rnd = Some out \<and> (\<forall>i \<in> set out. 101 \<le> i \<and> i < 200 \<and> odd i) \<and>
    (\<forall>i. prm i \<and> 101 \<le> i \<and> i < 200 \<longrightarrow> i \<in> set out)" by (intro conjI out)
  then show ?thesis by (rule exI)
qed

lemma float_mains:
  assumes "dims C 2 2"
  shows "fig10_38_main fo C = Some (let A = [[fint fo 1, fint fo 2], [fint fo 3, fint fo 4]] in
      [dot fo A A 0 0 2, dot fo A A 0 1 2, dot fo A A 1 0 2, dot fo A A 1 1 2])"
    "fig10_45_main g fo = Inr (fig10_43_main fo)"
proof -
  let ?A = "[[fint fo 1, fint fo 2], [fint fo 3, fint fo 4]]"
  have "dims ?A 2 2"
  proof -
    have "i = 0 \<or> i = 1" if "0 \<le> i" "i < 2" for i :: int using that by linarith
    then show ?thesis by (force simp: dims_def elt_def)
  qed
  from MatrixMultiply_ok [OF this this assms, of fo] obtain C' where
    C': "MatrixMultiply fo ?A ?A C 2 = Some C'" "dims C' 2 2" "\<forall>i j. 0 \<le> i \<and> i < 2 \<and> 0 \<le> j \<and> j < 2 \<longrightarrow> me C' i j = dot fo ?A ?A i j 2" by auto
  show "fig10_38_main fo C = Some (let A = ?A in [dot fo A A 0 0 2, dot fo A A 0 1 2, dot fo A A 1 0 2, dot fo A A 1 1 2])"
    using C' mget_ok [OF C'(2)] by (simp add: fig10_38_main_def Let_def)
  show "fig10_45_main g fo = Inr (fig10_43_main fo)" by (simp add: fig10_45_main_def fig10_43_main_def Eval_table_Eval)
qed

text \<open>\<^verbatim>\<open>poly.c\<close>: the coefficients of \<open>(1 + x) ^ 2\<close> and
  \<open>(1 + x) ^ 4\<close>.\<close>

lemma conv_box:
  "conv a b ({0..h1} \<times> {0..h2}) k = (\<Sum>i \<in> {0..h1}. if 0 \<le> k - i \<and> k - i \<le> h2 then a i * b (k - i) else 0)"
proof -
  have "{(i, j) \<in> {0..h1} \<times> {0..h2}. i + j = k} = (\<lambda>i. (i, k - i)) ` {i \<in> {0..h1}. 0 \<le> k - i \<and> k - i \<le> h2}" by auto
  moreover have "inj_on (\<lambda>i. (i, k - i)) A" for A :: "int set" by (auto simp: inj_on_def)
  ultimately have "conv a b ({0..h1} \<times> {0..h2}) k = (\<Sum>i \<in> {i \<in> {0..h1}. 0 \<le> k - i \<and> k - i \<le> h2}. a i * b (k - i))"
    unfolding conv_def by (simp only: sum.reindex comp_def split_def fst_conv snd_conv)
  also have "\<dots> = (\<Sum>i \<in> {0..h1}. if 0 \<le> k - i \<and> k - i \<le> h2 then a i * b (k - i) else 0)"
    by (rule sum.inter_filter) simp
  finally show ?thesis .
qed

lemma int_ranges: "{0..1} = {0, 1 :: int}" "{0..2} = {0, 1, 2 :: int}" "{0..4} = {0, 1, 2, 3, 4 :: int}"
  by auto

definition binom2 :: "int \<Rightarrow> int" where
  "binom2 k = (if k = 0 then 1 else if k = 1 then 2 else if k = 2 then 1 else 0)"

definition binom4 :: "int \<Rightarrow> int" where
  "binom4 k = (if k = 0 then 1 else if k = 1 then 4 else if k = 2 then 6 else if k = 3 then 4 else if k = 4 then 1 else 0)"

lemma conv_binom:
  "a 0 = 1 \<Longrightarrow> a 1 = 1 \<Longrightarrow> conv a a ({0..1} \<times> {0..1}) = binom2" "conv binom2 binom2 ({0..2} \<times> {0..2}) = binom4"
  unfolding conv_box fun_eq_iff by (simp_all add: int_ranges binom2_def binom4_def)

lemma PrintPoly_binom4:
  assumes "poly_at st q (\<lambda>k. binom4 k + binom4 k) 4"
  shows "PrintPoly q st = Inr [(2, 4), (8, 3), (12, 2), (8, 1), (2, 0)]"
proof -
  have c: "coeff st q i = Inr (binom4 i + binom4 i)" if "0 \<le> i" "i \<le> 4" for i
    using coeff_ok [OF assms, of i] that by (simp add: MaxDegree_def)
  have "print_loop q 4 st = Inr [(2, 4), (8, 3), (12, 2), (8, 1)]" by (simp add: print_loop.simps c binom4_def)
  moreover obtain x where "pderef st q = Inr x" "HighPower x = 4" using poly_atD [OF assms] by metis
  ultimately show ?thesis using c [of 0] by (simp add: PrintPoly_def binom4_def)
qed

lemma poly_main_prints:
  assumes "poly_at st p a h" "poly_at st q b h'" "p \<noteq> q"
  shows "poly_main p q st = Inr [(2, 4), (8, 3), (12, 2), (8, 1), (2, 0)]"
proof -
  have M: "0 \<le> (1 :: int)" "1 \<le> MaxDegree" "0 \<le> MaxDegree" by (simp_all add: MaxDegree_def)
  obtain x1 where 1: "set_high st p 1 = Inr (st(p \<mapsto> x1))" "poly_at (st(p \<mapsto> x1)) p a 1" using set_high_ok [OF assms(1) M(1,2)] .
  obtain x2 where 2: "set_coeff (st(p \<mapsto> x1)) p 0 1 = Inr (st(p \<mapsto> x2))" "poly_at (st(p \<mapsto> x2)) p (a(0 := 1)) 1"
    using set_coeff_ok [OF 1(2) order_refl M(3)] by auto
  obtain x3 where 3: "set_coeff (st(p \<mapsto> x2)) p 1 1 = Inr (st(p \<mapsto> x3))" "poly_at (st(p \<mapsto> x3)) p (a(0 := 1, 1 := 1)) 1"
    using set_coeff_ok [OF 2(2) M(1,2)] by auto
  let ?s = "st(p \<mapsto> x3)"
  have q: "poly_at ?s q b h'" using assms(2,3) by (auto intro: poly_at_other)
  obtain y where y: "MultPolynomial p p q ?s = Inr (?s(q \<mapsto> y))" "poly_at (?s(q \<mapsto> y)) q binom2 2"
    using MultPolynomial_ok [OF 3(2) 3(2) q] assms(3) conv_binom(1) [of "a(0 := 1, 1 := 1)"] by (auto simp: MaxDegree_def int_ranges)
  have p: "poly_at (?s(q \<mapsto> y)) p (a(0 := 1, 1 := 1)) 1" using 3(2) assms(3) by (auto intro: poly_at_other)
  obtain z where z: "MultPolynomial q q p (?s(q \<mapsto> y)) = Inr (?s(q \<mapsto> y, p \<mapsto> z))" "poly_at (?s(q \<mapsto> y, p \<mapsto> z)) p binom4 4"
    using MultPolynomial_ok [OF y(2) y(2) p] assms(3) conv_binom(2) by (auto simp: MaxDegree_def int_ranges binom2_def)
  have q': "poly_at (?s(q \<mapsto> y, p \<mapsto> z)) q binom2 2" by (rule poly_at_other [OF y(2)]) (use assms(3) in simp)
  have b: "\<And>k. \<bar>binom4 k + binom4 k\<bar> \<le> INT_MAX" "\<And>k. 4 < k \<Longrightarrow> binom4 k = 0" by (auto simp: binom4_def)
  obtain w where w: "AddPolynomial p p q (?s(q \<mapsto> y, p \<mapsto> z)) = Inr (?s(q \<mapsto> y, p \<mapsto> z, q \<mapsto> w))"
    "poly_at (?s(q \<mapsto> y, p \<mapsto> z, q \<mapsto> w)) q (\<lambda>k. binom4 k + binom4 k) 4"
    using AddPolynomial_ok [OF z(2) z(2) q' _ _ b(1) b(2) b(2)] assms(3) by auto
  show ?thesis using 1(1) 2(1) 3(1) y(1) z(1) w(1) PrintPoly_binom4 [OF w(2)] by (simp add: poly_main_def)
qed

text \<open>\<^verbatim>\<open>disjsets.c\<close>\<close>

lemma ds_main_prints:
  assumes "len S = NumSets + 1"
  shows "ds_main S = Some (Inr (concat (map (\<lambda>b. replicate 16 (16 * b + 1)) [0..7])))"
proof -
  obtain S' where S': "ds_init_loop NumSets S = Inr S'" "len S' = NumSets + 1" "\<forall>j \<in> ids. elt S' j = 0"
    using ds_init_loop_ok [of NumSets S] assms by auto
  have "S' = elt S' 0 # replicate 128 0"
  proof (rule nth_equalityI)
    show l: "length S' = length (elt S' 0 # replicate 128 0)" using S'(2) by (simp add: NumSets_def)
    fix i assume i: "i < length S'"
    have "S' ! i = 0" if "0 < i" using bspec [OF S'(3), of "int i"] that i l by (simp add: NumSets_def elt_def)
    then show "S' ! i = (elt S' 0 # replicate 128 0) ! i" using i l by (cases i) (auto simp: elt_def)
  qed
  then have "\<exists>x. ds_Initialize S = Inr (x # replicate 128 0)" using S'(1) by (metis ds_Initialize_def)
  then show ?thesis using ds_print_blocks by (auto simp: ds_main_def)
qed

text \<open>\<^verbatim>\<open>sort.c\<close>\<close>

lemma sort_step_ok:
  assumes "len Arr1 = sort_MaxSize" "len P = sort_MaxSize" "srt P = Some [0..sort_MaxSize - 1]"
  shows "sort_step srt (Arr1, P, out) = Some ([0..sort_MaxSize - 1], P, out @ [[]])"
proof -
  let ?N = sort_MaxSize
  have "Copy Arr1 P ?N = Some P" using assms Copy_loop_ok [of 0 ?N Arr1 P] by (simp add: Copy_def)
  moreover have "len [0..?N - 1] = ?N" by (simp add: sort_MaxSize_def)
  then have "Checksort [0..?N - 1] ?N = Some []"
    using Checksort_loop_ok [of 0 ?N "[0..?N - 1]"] by (auto simp: Checksort_def elt_def concat_eq_Nil_conv)
  ultimately show ?thesis using assms(3) by (simp add: sort_step_def)
qed

lemma select_step_ok:
  assumes "len Arr1 = sort_MaxSize" "mset P = mset [0..sort_MaxSize - 1]" "0 \<le> i" "i < 10"
  shows "\<exists>B. select_step i (Arr1, P, out) = Some (B, P, out @ [[]]) \<and> len B = sort_MaxSize"
proof -
  let ?N = sort_MaxSize
  have "length P = nat ?N" using arg_cong [OF assms(2), of size] by simp
  then have l: "len P = ?N" by (simp add: sort_MaxSize_def)
  have c: "Copy Arr1 P ?N = Some P" using assms(1) l Copy_loop_ok [of 0 ?N Arr1 P] by (simp add: Copy_def)
  have k: "1 \<le> ?N div 2 + 1 + i" "?N div 2 + 1 + i \<le> len P" "len P \<le> 2 ^ 30" using assms(3,4) l by (simp_all add: sort_MaxSize_def)
  obtain B where B: "Qselect P (?N div 2 + 1 + i) 0 (len P - 1) = Some B" "mset B = mset P"
    "elt B (?N div 2 + 1 + i - 1) = sort P ! nat (?N div 2 + 1 + i - 1)" using Qselect_selects [OF k(3,1,2)] by blast
  have "sort P = [0..?N - 1]" using assms(2) by (metis properties_for_sort sorted_upto)
  then have e: "elt B (?N div 2 + i) = ?N div 2 + i" using B(3) k l
    by (simp add: sort_MaxSize_def nth_upto)
  have lB: "len B = ?N" using arg_cong [OF B(2), of size] l by simp
  then have "aget B (?N div 2 + i) = Some (?N div 2 + i)" using e k l aget_ok [of B "?N div 2 + i"] by (simp add: inb_def)
  then show ?thesis using c B(1) l lB by (simp add: select_step_def)
qed

text \<open>C13: The whole test program of \<open>sort.c\<close>: in each of its ten rounds the five sorts and the
  selection are run on a fresh permutation of the 7000 numbers, whatever \<open>rand()\<close> returns and whatever the
  arrays held before, and none of the sixty checks has anything to report.\<close>

theorem sort_program_clean:
  assumes "len Arr1 = 7000" "len Arr2 = 7000"
  shows "sort_main rnd g Arr1 Arr2 = Some (replicate 60 [])"
proof -
  let ?N = sort_MaxSize
  let ?P = "\<lambda>k (Arr1, Arr2, out). len Arr1 = ?N \<and> len Arr2 = ?N \<and> out = replicate (6 * nat k) []"
  let ?body = "\<lambda>i (Arr1, Arr2, out). do {
       Arr2 \<leftarrow> Permute (rnd i) Arr2 sort_MaxSize;
       s \<leftarrow> sort_step (\<lambda>A. InsertionSort A 0 sort_MaxSize) (Arr1, Arr2, out);
       s \<leftarrow> sort_step (\<lambda>A. Shellsort A sort_MaxSize) s;
       s \<leftarrow> sort_step (\<lambda>A. Heapsort A sort_MaxSize) s;
       s \<leftarrow> sort_step (Mergesort_o g) s;
       s \<leftarrow> sort_step (\<lambda>A. Quicksort A sort_MaxSize) s;
       select_step i s }"
  have "\<exists>s. for_up 0 10 ?body (Arr1, Arr2, []) = Some s \<and> ?P 10 s"
  proof (rule for_up_rule [where P = ?P])
    fix k :: int and s :: "int list \<times> int list \<times> (int \<times> int) list list"
    assume k: "0 \<le> k" "k < 10" and "?P k s"
    then obtain A1 A2 where s: "s = (A1, A2, replicate (6 * nat k) [])" "len A1 = ?N" "len A2 = ?N" by auto
    obtain P where P: "Permute (rnd k) A2 ?N = Some P" "mset P = mset [0..?N - 1]" using Permute_perm [of "rnd k" A2] s by auto
    have "length P = nat ?N" using arg_cong [OF P(2), of size] by simp
    then have l: "len P = ?N" "P \<noteq> []" "len P \<le> 2 ^ 30" "len [0..?N - 1] = ?N" by (auto simp: sort_MaxSize_def)
    note st = sort_step_ok [OF s(2) l(1)] sort_step_ok [OF l(4) l(1)]
    have srt: "InsertionSort P 0 ?N = Some [0..?N - 1]" "Shellsort P ?N = Some [0..?N - 1]" "Heapsort P ?N = Some [0..?N - 1]"
      "Mergesort_o g P = Some [0..?N - 1]" "Quicksort P ?N = Some [0..?N - 1]"
      using insertion.srt_permutation [OF _ P(2)] shell.srt_permutation [OF _ P(2)] heap.srt_permutation [OF _ P(2)]
        mergesort.srt_permutation [OF _ P(2), of g] quick.srt_permutation [OF _ P(2)] l by simp_all
    let ?o = "(((((replicate (6 * nat k) [] @ [[]]) @ [[]]) @ [[]]) @ [[]]) @ [[]])"
    obtain B where B: "select_step k ([0..?N - 1], P, ?o) = Some (B, P, ?o @ [[]])" "len B = ?N"
      using select_step_ok [OF l(4) P(2) k] by blast
    have "6 * nat (k + 1) = Suc (Suc (Suc (Suc (Suc (Suc (6 * nat k))))))" using k by simp
    then have o: "?o @ [[]] = replicate (6 * nat (k + 1)) []" by (simp add: replicate_append_same)
    have "?body k s = Some (B, P, ?o @ [[]])" using s(1) P(1) st srt B(1) by simp
    then show "\<exists>s'. ?body k s = Some s' \<and> ?P (k + 1) s'" using B(2) l(1) o by auto
  qed (use assms in \<open>auto simp: sort_MaxSize_def\<close>)
  then show ?thesis by (auto simp: sort_main_def)
qed

theorem sort_program_clean_witness:
  "sort_main (\<lambda>i k. nat (i * k)) 0 (replicate 7000 3) (replicate 7000 5) = Some (replicate 60 [])"
  by (rule sort_program_clean) simp_all

end
