(* ===== verification/DbFiles.thy ===== *)
theory DbFiles
  imports CBase "HOL-Library.Word"
begin

text \<open>
  What \<^verbatim>\<open>src/apue/db/db.c\<close> stands on: the \<open>DB\<close> structure with its two open
  files, \<open>lseek\<close>, \<open>read\<close> and \<open>write\<close>, record locks, and the decimal
  numbers that \<open>sprintf\<close> writes into the files and \<open>atol\<close> reads back.

  A file is the list of its bytes and the offset of the descriptor. An operation is a function on the
  \<open>DB\<close> structure. It returns \<open>None\<close> if it does not end; \<open>Inl\<close> with the exit
  through \<open>err_dump\<close>, \<open>err_quit\<close> or \<open>err_sys\<close>, next to the state in which the process left the
  files; and \<open>Inr\<close> with the result and the new state. Strings in memory are lists without their
  terminating null byte, and the two buffers are represented by the string at their start.
\<close>

section \<open>Files\<close>

datatype whence = SEEK_SET | SEEK_CUR | SEEK_END

record open_file =
  contents :: string
  fpos :: int

definition lseek :: "open_file \<Rightarrow> int \<Rightarrow> whence \<Rightarrow> open_file option" where
  \<comment> \<open>\<open>None\<close> is the result -1\<close>
  "lseek f offset wh =
    (let p = (case wh of SEEK_SET \<Rightarrow> offset | SEEK_CUR \<Rightarrow> fpos f + offset | SEEK_END \<Rightarrow> int (length (contents f)) + offset)
     in if p < 0 then None else Some (f\<lparr>fpos := p\<rparr>))"

definition read_bytes :: "open_file \<Rightarrow> int \<Rightarrow> string \<times> open_file" where
  \<comment> \<open>a short result at the end of the file\<close>
  "read_bytes f n =
    (let bs = take (nat n) (drop (nat (fpos f)) (contents f)) in (bs, f\<lparr>fpos := fpos f + int (length bs)\<rparr>))"

definition overwrite :: "string \<Rightarrow> nat \<Rightarrow> string \<Rightarrow> string" where
  \<comment> \<open>a write behind the end of the file leaves null bytes between\<close>
  "overwrite xs p bs = take p xs @ replicate (p - length xs) (char_of (0 :: nat)) @ bs @ drop (p + length bs) xs"

definition write_bytes :: "open_file \<Rightarrow> string \<Rightarrow> open_file" where
  "write_bytes f bs = f\<lparr>contents := overwrite (contents f) (nat (fpos f)) bs, fpos := fpos f + int (length bs)\<rparr>"

section \<open>The structure of an open database\<close>

datatype lock_kind = Read_lock | Write_lock

text \<open>A record lock: on the data file or on the index file, the first byte and the number of bytes.\<close>

type_synonym lock = "bool \<times> int \<times> int"

datatype errno = Clear | EINVAL | ENOENT

record db =
  idxfd :: open_file
  datfd :: open_file
  idxbuf :: string
  datbuf :: string
  idxoff :: int
  idxlen :: int
  datoff :: int
  datlen :: int
  ptrval :: int
  ptroff :: int
  chainoff :: int
  hashoff :: int
  nhash :: "64 word"
  cnt_delok :: "64 word"
  cnt_delerr :: "64 word"
  cnt_fetchok :: "64 word"
  cnt_fetcherr :: "64 word"
  cnt_nextrec :: "64 word"
  cnt_stor1 :: "64 word"
  cnt_stor2 :: "64 word"
  cnt_stor3 :: "64 word"
  cnt_stor4 :: "64 word"
  cnt_storerr :: "64 word"
  locks :: "(lock \<times> lock_kind) list"
  errno :: errno

section \<open>Operations and how they end\<close>

datatype db_exit = err_dump string | err_quit string | err_sys string | Undefined c_error

type_synonym 'a dbm = "db \<Rightarrow> ((db_exit + 'a) \<times> db) option"

definition ret :: "'a \<Rightarrow> 'a dbm" where "ret x = (\<lambda>db. Some (Inr x, db))"

definition exit_with :: "db_exit \<Rightarrow> 'a dbm" where "exit_with e = (\<lambda>db. Some (Inl e, db))"

definition dbind :: "'a dbm \<Rightarrow> ('a \<Rightarrow> 'b dbm) \<Rightarrow> 'b dbm" where
  "dbind m f = (\<lambda>db. case m db of None \<Rightarrow> None | Some (Inl e, db') \<Rightarrow> Some (Inl e, db') | Some (Inr x, db') \<Rightarrow> f x db')"

definition get :: "(db \<Rightarrow> 'a) \<Rightarrow> 'a dbm" where "get f = (\<lambda>db. Some (Inr (f db), db))"

definition modify :: "(db \<Rightarrow> db) \<Rightarrow> unit dbm" where "modify f = (\<lambda>db. Some (Inr (), f db))"

definition check :: "bool \<Rightarrow> db_exit \<Rightarrow> unit dbm" where
  \<comment> \<open>\<open>if( !b ) err_dump( ... );\<close>\<close>
  "check b e = (if b then ret () else exit_with e)"

lemma dbind_simps [simp]:
  "dbind (ret x) f = f x" "dbind (exit_with e) f = exit_with e" "dbind (get g) f db = f (g db) db"
  "dbind (modify h) k db = k () (h db)"
  by (simp_all add: dbind_def ret_def exit_with_def get_def modify_def fun_eq_iff)

lemma dbind_assoc: "dbind (dbind m f) g = dbind m (\<lambda>x. dbind (f x) g)"
  by (auto simp: dbind_def fun_eq_iff split: option.splits sum.splits)

lemma dbind_Some: "m db = Some (Inr x, db') \<Longrightarrow> dbind m f db = f x db'"
  by (simp add: dbind_def)

lemma dbind_exit: "m db = Some (Inl e, db') \<Longrightarrow> dbind m f db = Some (Inl e, db')"
  by (simp add: dbind_def)

lemma run_simps [simp]:
  "ret x db = Some (Inr x, db)" "exit_with e db = Some (Inl e, db)" "get g db = Some (Inr (g db), db)"
  "modify h db = Some (Inr (), h db)" "check True e = ret ()" "check False e = exit_with e"
  by (simp_all add: ret_def exit_with_def get_def modify_def check_def)

lemma dbind_mono [partial_function_mono]:
  fixes m :: "('r \<Rightarrow> 's option) \<Rightarrow> 'a dbm" and f :: "'a \<Rightarrow> ('r \<Rightarrow> 's option) \<Rightarrow> 'b dbm"
  assumes m: "mono_option (\<lambda>rec. m rec db)" and f: "\<And>x db'. mono_option (\<lambda>rec. f x rec db')"
  shows "mono_option (\<lambda>rec. dbind (m rec) (\<lambda>x. f x rec) db)"
proof (rule monotoneI)
  fix r r' :: "'r \<Rightarrow> 's option" assume le: "fun_ord option_ord r r'"
  from m have "option_ord (m r db) (m r' db)" by (rule monotoneD) (rule le)
  moreover from f have "option_ord (f x r db') (f x r' db')" for x db' by (rule monotoneD) (rule le)
  ultimately show "option_ord (dbind (m r) (\<lambda>x. f x r) db) (dbind (m r') (\<lambda>x. f x r') db)"
    unfolding dbind_def flat_ord_def
    by (cases "m r' db") (auto split: sum.splits, metis+)
qed

text \<open>The system calls on the two files. Reads and writes of regular files succeed.\<close>

definition idx_lseek :: "int \<Rightarrow> whence \<Rightarrow> string \<Rightarrow> int dbm" where
  "idx_lseek offset wh msg = (\<lambda>db. case lseek (idxfd db) offset wh of
     None \<Rightarrow> Some (Inl (err_dump msg), db) | Some f \<Rightarrow> Some (Inr (fpos f), db\<lparr>idxfd := f\<rparr>))"

definition idx_read :: "int \<Rightarrow> string dbm" where
  "idx_read n = (\<lambda>db. let (bs, f) = read_bytes (idxfd db) n in Some (Inr bs, db\<lparr>idxfd := f\<rparr>))"

definition idx_write :: "string \<Rightarrow> unit dbm" where
  "idx_write bs = modify (\<lambda>db. db\<lparr>idxfd := write_bytes (idxfd db) bs\<rparr>)"

definition dat_lseek :: "int \<Rightarrow> whence \<Rightarrow> string \<Rightarrow> int dbm" where
  "dat_lseek offset wh msg = (\<lambda>db. case lseek (datfd db) offset wh of
     None \<Rightarrow> Some (Inl (err_dump msg), db) | Some f \<Rightarrow> Some (Inr (fpos f), db\<lparr>datfd := f\<rparr>))"

definition dat_read :: "int \<Rightarrow> string dbm" where
  "dat_read n = (\<lambda>db. let (bs, f) = read_bytes (datfd db) n in Some (Inr bs, db\<lparr>datfd := f\<rparr>))"

definition dat_write :: "string \<Rightarrow> unit dbm" where
  "dat_write bs = modify (\<lambda>db. db\<lparr>datfd := write_bytes (datfd db) bs\<rparr>)"

text \<open>Locks are granted at once, since there is one process. The regions the code locks are equal or
  disjoint.\<close>

definition set_lock :: "lock_kind \<Rightarrow> lock \<Rightarrow> unit dbm" where
  "set_lock k l = modify (\<lambda>db. db\<lparr>locks := (l, k) # filter (\<lambda>p. fst p \<noteq> l) (locks db)\<rparr>)"

abbreviation "writew_lock \<equiv> set_lock Write_lock"
abbreviation "readw_lock \<equiv> set_lock Read_lock"

definition un_lock :: "lock \<Rightarrow> unit dbm" where
  "un_lock l = modify (\<lambda>db. db\<lparr>locks := filter (\<lambda>p. fst p \<noteq> l) (locks db)\<rparr>)"

section \<open>Numbers in files\<close>

definition digit :: "nat \<Rightarrow> char" where "digit d = char_of (48 + d)"

fun dec :: "nat \<Rightarrow> string" where
  "dec n = (if n < 10 then [digit n] else dec (n div 10) @ [digit (n mod 10)])"

declare dec.simps [simp del]

text \<open>The conversions \<open>%d\<close> and \<open>%*d\<close>.\<close>

definition print_int :: "int \<Rightarrow> string" where
  "print_int i = (if i < 0 then CHR ''-'' # dec (nat (- i)) else dec (nat i))"

definition pad :: "int \<Rightarrow> int \<Rightarrow> string" where
  "pad w i = (let s = print_int i in replicate (nat w - length s) (CHR '' '') @ s)"

text \<open>\<open>atol\<close>: blanks, an optional sign, digits up to the first other character. \<open>long\<close>
  overflow does not occur for the offsets the code reads.\<close>

definition is_space :: "char \<Rightarrow> bool" where
  "is_space c \<longleftrightarrow> c = CHR '' '' \<or> (9 \<le> (of_char c :: nat) \<and> (of_char c :: nat) \<le> 13)"

definition is_digit :: "char \<Rightarrow> bool" where
  "is_digit c \<longleftrightarrow> 48 \<le> (of_char c :: nat) \<and> (of_char c :: nat) \<le> 57"

definition digits_value :: "string \<Rightarrow> int" where
  "digits_value s = fold (\<lambda>c v. 10 * v + (of_char c - 48)) (takeWhile is_digit s) 0"

definition atol :: "string \<Rightarrow> int" where
  "atol s = (let t = dropWhile is_space s in
    case t of [] \<Rightarrow> 0
    | c # u \<Rightarrow> if c = CHR ''-'' then - digits_value u else if c = CHR ''+'' then digits_value u else digits_value t)"

text \<open>\<open>strchr\<close> as the code uses it: the string up to the character and the string behind it.\<close>

definition cut_at :: "char \<Rightarrow> string \<Rightarrow> (string \<times> string) option" where
  "cut_at c s = (if c \<in> set s then Some (takeWhile (\<lambda>x. x \<noteq> c) s, tl (dropWhile (\<lambda>x. x \<noteq> c) s)) else None)"

text \<open>The C string at the start of a buffer.\<close>

definition c_str :: "string \<Rightarrow> string" where
  "c_str bs = takeWhile (\<lambda>c. c \<noteq> char_of (0 :: nat)) bs"

section \<open>Facts about numbers and files\<close>

lemma of_char_digit [simp]: "d < 10 \<Longrightarrow> (of_char (digit d) :: nat) = 48 + d"
  by (simp add: digit_def)

lemma of_char_digit_int [simp]: "d < 10 \<Longrightarrow> (of_char (digit d) :: int) = 48 + int d"
  by (metis of_char_digit of_nat_add of_nat_numeral of_nat_of_char)

lemma digit_cases: "d < 10 \<Longrightarrow> is_digit (digit d) \<and> \<not> is_space (digit d)"
  by (auto simp: is_digit_def is_space_def dest: arg_cong [where f = "of_char :: char \<Rightarrow> nat"])

lemma dec_digits: "c \<in> set (dec n) \<Longrightarrow> is_digit c \<and> \<not> is_space c"
proof (induction n rule: dec.induct)
  case (1 n)
  then show ?case using digit_cases [of n] digit_cases [of "n mod 10"] by (subst (asm) (2) dec.simps) (auto split: if_splits)
qed

lemma dec_nonempty [simp]: "dec n \<noteq> []"
  by (subst dec.simps) simp

lemma dec_value: "fold (\<lambda>c v. 10 * v + (of_char c - 48)) (dec n) 0 = int n"
proof (induction n rule: dec.induct)
  case (1 n)
  show ?case
  proof (cases "n < 10")
    case False
    have "10 * int (n div 10) + int (n mod 10) = int n" by (simp add: zmod_int zdiv_int)
    then show ?thesis using "1.IH" [OF False] False by (subst dec.simps) simp
  qed (subst dec.simps, simp)
qed

lemma length_dec: "n < 10 ^ k \<Longrightarrow> 0 < k \<Longrightarrow> length (dec n) \<le> k"
proof (induction k arbitrary: n)
  case (Suc k)
  show ?case
  proof (cases "n < 10")
    case False
    then have "0 < k" using Suc.prems by (cases k) auto
    then have "length (dec (n div 10)) \<le> k" using Suc by (intro Suc.IH) auto
    then show ?thesis using False by (subst dec.simps) simp
  qed (subst dec.simps, simp)
qed simp

lemma atol_pad:
  assumes "0 \<le> i"
  shows "atol (pad w i) = i"
proof -
  have d: "dropWhile is_space (replicate k (CHR '' '') @ dec (nat i)) = dec (nat i)" for k
  proof (induction k)
    case 0
    obtain c u where "dec (nat i) = c # u" using dec_nonempty [of "nat i"] by (cases "dec (nat i)") auto
    then show ?case using dec_digits [of c "nat i"] by simp
  qed (simp add: is_space_def)
  obtain c u where cu: "dec (nat i) = c # u" using dec_nonempty [of "nat i"] by (cases "dec (nat i)") auto
  have "is_digit c" using dec_digits [of c "nat i"] cu by simp
  then have "c \<noteq> CHR ''-''" "c \<noteq> CHR ''+''" by (auto simp: is_digit_def)
  moreover have "takeWhile is_digit (dec (nat i)) = dec (nat i)" using dec_digits by (simp add: takeWhile_eq_all_conv)
  ultimately have "atol (replicate k (CHR '' '') @ dec (nat i)) = i" for k
    using dec_value [of "nat i"] assms cu unfolding atol_def d by (simp add: digits_value_def)
  then show ?thesis using assms by (simp add: pad_def print_int_def Let_def)
qed

lemma print_int_pad: "print_int i = pad 0 i"
  by (simp add: pad_def Let_def)

lemma atol_print_int [simp]: "0 \<le> i \<Longrightarrow> atol (print_int i) = i"
  by (simp add: print_int_pad atol_pad)

lemma length_pad: "0 \<le> i \<Longrightarrow> i < 10 ^ nat w \<Longrightarrow> 0 < w \<Longrightarrow> length (pad w i) = nat w"
  using length_dec [of "nat i" "nat w"] by (auto simp: pad_def print_int_def Let_def nat_less_iff)

lemma print_int_digits: "0 \<le> i \<Longrightarrow> c \<in> set (print_int i) \<Longrightarrow> is_digit c"
  using dec_digits by (simp add: print_int_def)

lemma cut_at_append [simp]: "c \<notin> set s \<Longrightarrow> cut_at c (s @ c # t) = Some (s, t)"
  by (auto simp: cut_at_def takeWhile_append dropWhile_append)

lemma overwrite_inside: "length b = length bs \<Longrightarrow> overwrite (a @ b @ c) (length a) bs = a @ bs @ c"
  by (simp add: overwrite_def)

lemma overwrite_end: "overwrite a (length a) bs = a @ bs"
  by (simp add: overwrite_def)

lemma read_bytes_at:
  assumes "contents f = a @ b @ c" "fpos f = int (length a)" "n = int (length b)"
  shows "read_bytes f n = (b, f\<lparr>fpos := int (length a) + n\<rparr>)"
  using assms by (simp add: read_bytes_def)

lemma write_bytes_at:
  assumes "contents f = a @ b @ c" "fpos f = int (length a)" "length b = length bs"
  shows "write_bytes f bs = f\<lparr>contents := a @ bs @ c, fpos := int (length a) + int (length bs)\<rparr>"
  using assms by (simp add: write_bytes_def overwrite_inside)

lemma write_bytes_end:
  assumes "fpos f = int (length (contents f))"
  shows "write_bytes f bs = f\<lparr>contents := contents f @ bs, fpos := int (length (contents f)) + int (length bs)\<rparr>"
  using assms by (simp add: write_bytes_def overwrite_end)

end
