(* ===== verification/DbOps.thy ===== *)
theory DbOps
  imports DbFiles
begin

text \<open>
  The functions of \<^verbatim>\<open>src/apue/db/db.c\<close>, a database in two files. The index file holds the
  head of the list of deleted records, the heads of the hash chains, a newline, and the index records, each
  with a chain pointer, its length and the line \<open>key:datoff:datlen\<close>. The data file holds the data,
  each closed by a newline. Names without the leading underscore of the code.
\<close>

section \<open>Constants\<close>

definition IDXLEN_SZ :: int where "IDXLEN_SZ = 4"
definition SEP :: char where "SEP = CHR '':''"
definition SPACE :: char where "SPACE = CHR '' ''"
definition NEWLINE :: char where "NEWLINE = char_of (10 :: nat)"
definition PTR_SZ :: int where "PTR_SZ = 7"
definition PTR_MAX :: int where "PTR_MAX = 9999999"
definition NHASH_DEF :: "64 word" where "NHASH_DEF = 137"
definition FREE_OFF :: int where "FREE_OFF = 0"
definition HASH_OFF :: int where "HASH_OFF = PTR_SZ"
definition IDXLEN_MIN :: int where "IDXLEN_MIN = 6"
definition IDXLEN_MAX :: int where "IDXLEN_MAX = 1024"
definition DATLEN_MIN :: int where "DATLEN_MIN = 2"
definition DATLEN_MAX :: int where "DATLEN_MAX = 1024"

datatype store_flag = DB_INSERT | DB_REPLACE | DB_STORE | Other_flag

lemmas db_consts = IDXLEN_SZ_def SEP_def SPACE_def NEWLINE_def PTR_SZ_def PTR_MAX_def NHASH_DEF_def FREE_OFF_def
  HASH_OFF_def IDXLEN_MIN_def IDXLEN_MAX_def DATLEN_MIN_def DATLEN_MAX_def

text \<open>A conversion to \<^verbatim>\<open>size_t\<close>.\<close>

definition size_t :: "int \<Rightarrow> int" where "size_t i = i mod 2 ^ 64"

section \<open>Hash values and pointer fields\<close>

definition schar :: "char \<Rightarrow> int" where
  "schar c = (let n = of_char c in if n < 128 then n else n - 256)"

fun db_hash_loop :: "string \<Rightarrow> int \<Rightarrow> 64 word \<Rightarrow> 64 word" where
  "db_hash_loop [] i hval = hval"
| "db_hash_loop (c # cs) i hval = db_hash_loop cs (i + 1) (hval + word_of_int (schar c * i))"

definition db_hash :: "64 word \<Rightarrow> string \<Rightarrow> 64 word" where
  "db_hash n key = db_hash_loop key 1 0 mod n"

definition db_readptr :: "int \<Rightarrow> int dbm" where
  "db_readptr offset =
    dbind (idx_lseek offset SEEK_SET ''_db_readptr: lseek error to ptr field'') (\<lambda>_.
    dbind (idx_read PTR_SZ) (\<lambda>asciiptr.
    dbind (check (int (length asciiptr) = PTR_SZ) (err_dump ''_db_readptr: read error of ptr field'')) (\<lambda>_.
    ret (atol asciiptr))))"

definition db_writeptr :: "int \<Rightarrow> int \<Rightarrow> unit dbm" where
  "db_writeptr offset ptr =
    dbind (check (0 \<le> ptr \<and> ptr \<le> PTR_MAX) (err_quit ''_db_writeptr: invalid ptr: %d'')) (\<lambda>_.
    dbind (idx_lseek offset SEEK_SET ''_db_writeptr: lseek error to ptr field'') (\<lambda>_.
    idx_write (pad PTR_SZ ptr)))"

section \<open>Index and data records\<close>

text \<open>\<open>Some p\<close> returns the chain pointer, \<open>None\<close> is the result -1 at the end of the file.\<close>

definition parse_idx :: "string \<Rightarrow> int dbm" where
  \<comment> \<open>from the sanity check of the newline on\<close>
  "parse_idx buf =
    dbind (check (last buf = NEWLINE) (err_dump ''_db_readidx: missing newline'')) (\<lambda>_.
    case cut_at SEP (c_str (butlast buf)) of
      None \<Rightarrow> exit_with (err_dump ''_db_readidx: missing first separator'')
    | Some (key, ptr1) \<Rightarrow>
      (case cut_at SEP ptr1 of
        None \<Rightarrow> exit_with (err_dump ''_db_readidx: missing second separator'')
      | Some (off, ptr2) \<Rightarrow>
        dbind (modify (\<lambda>db. db\<lparr>idxbuf := key\<rparr>)) (\<lambda>_.
        dbind (check (SEP \<notin> set ptr2) (err_dump ''_db_readidx: too many separators'')) (\<lambda>_.
        dbind (modify (\<lambda>db. db\<lparr>datoff := atol off\<rparr>)) (\<lambda>_.
        dbind (check (0 \<le> atol off) (err_dump ''_db_readidx: starting offset < 0'')) (\<lambda>_.
        dbind (modify (\<lambda>db. db\<lparr>datlen := size_t (atol ptr2)\<rparr>)) (\<lambda>_.
        dbind (check (0 < size_t (atol ptr2) \<and> size_t (atol ptr2) \<le> DATLEN_MAX) (err_dump ''_db_readidx: invalid length'')) (\<lambda>_.
        get ptrval))))))))"

definition db_readidx :: "int \<Rightarrow> int dbm" where
  "db_readidx offset =
    dbind (idx_lseek offset (if offset = 0 then SEEK_CUR else SEEK_SET) ''_db_readidx: lseek error'') (\<lambda>off.
    dbind (modify (\<lambda>db. db\<lparr>idxoff := off\<rparr>)) (\<lambda>_.
    dbind (idx_read (PTR_SZ + IDXLEN_SZ)) (\<lambda>bs.
    if int (length bs) \<noteq> PTR_SZ + IDXLEN_SZ then
      (if bs = [] \<and> offset = 0 then ret (-1) else exit_with (err_dump ''_db_readidx: readv error of index record''))
    else
      let asciiptr = take (nat PTR_SZ) bs; len = size_t (atol (drop (nat PTR_SZ) bs)) in
      dbind (modify (\<lambda>db. db\<lparr>ptrval := atol asciiptr, idxlen := len\<rparr>)) (\<lambda>_.
      dbind (check (IDXLEN_MIN \<le> len \<and> len \<le> IDXLEN_MAX) (err_dump ''_db_readidx: invalid length'')) (\<lambda>_.
      dbind (idx_read len) (\<lambda>buf.
      dbind (check (int (length buf) = len) (err_dump ''_db_readidx: read error of index record'')) (\<lambda>_.
      parse_idx buf)))))))"

definition db_readdat :: "string dbm" where
  "db_readdat =
    dbind (get datoff) (\<lambda>off.
    dbind (dat_lseek off SEEK_SET ''_db_readdat: lseek error'') (\<lambda>_.
    dbind (get datlen) (\<lambda>len.
    dbind (dat_read len) (\<lambda>bs.
    dbind (check (int (length bs) = len) (err_dump ''_db_readdat: read error'')) (\<lambda>_.
    dbind (check (last bs = NEWLINE) (err_dump ''_db_readdat: missing newline'')) (\<lambda>_.
    dbind (modify (\<lambda>db. db\<lparr>datbuf := c_str (butlast bs)\<rparr>)) (\<lambda>_.
    get datbuf)))))))"

text \<open>\<open>if_do b m\<close> is \<^verbatim>\<open>if( b ) m\<close>.\<close>

definition if_do :: "bool \<Rightarrow> unit dbm \<Rightarrow> unit dbm" where "if_do b m = (if b then m else ret ())"

lemma if_do_simps [simp]: "if_do True m = m" "if_do False m = ret ()"
  by (simp_all add: if_do_def)

definition db_writedat :: "string \<Rightarrow> int \<Rightarrow> whence \<Rightarrow> unit dbm" where
  "db_writedat data offset wh =
    dbind (if_do (wh = SEEK_END) (writew_lock (True, 0, 0))) (\<lambda>_.
    dbind (dat_lseek offset wh ''_db_writedat: lseek error'') (\<lambda>off.
    dbind (modify (\<lambda>db. db\<lparr>datoff := off, datlen := int (length data) + 1\<rparr>)) (\<lambda>_.
    dbind (dat_write (data @ [NEWLINE])) (\<lambda>_.
    if_do (wh = SEEK_END) (un_lock (True, 0, 0))))))"

text \<open>\<open>sprintf\<close> writes the line and its null byte into the buffer of \<open>IDXLEN_MAX + 2\<close>
  bytes before the length is checked. (\<open>db_dodelete\<close> passes that buffer as the key, so the source and
  the target of \<open>sprintf\<close> overlap, which C leaves undefined; the model takes the string the buffer
  held.)\<close>

definition db_writeidx :: "string \<Rightarrow> int \<Rightarrow> whence \<Rightarrow> int \<Rightarrow> unit dbm" where
  "db_writeidx key offset wh ptr =
    dbind (modify (\<lambda>db. db\<lparr>ptrval := ptr\<rparr>)) (\<lambda>_.
    dbind (check (0 \<le> ptr \<and> ptr \<le> PTR_MAX) (err_quit ''_db_writeidx: invalid ptr: %d'')) (\<lambda>_.
    dbind (get (\<lambda>db. key @ SEP # print_int (datoff db) @ SEP # print_int (datlen db) @ [NEWLINE])) (\<lambda>line.
    dbind (check (int (length line) + 1 \<le> IDXLEN_MAX + 2) (Undefined BadAccess)) (\<lambda>_.
    dbind (modify (\<lambda>db. db\<lparr>idxbuf := line\<rparr>)) (\<lambda>_.
    let len = int (length line) in
    dbind (check (IDXLEN_MIN \<le> len \<and> len \<le> IDXLEN_MAX) (err_dump ''_db_writeidx: invalid length'')) (\<lambda>_.
    dbind (get (\<lambda>db. (False, (uint (nhash db) + 1) * PTR_SZ + 1, 0))) (\<lambda>records.
    dbind (if_do (wh = SEEK_END) (writew_lock records)) (\<lambda>_.
    dbind (idx_lseek offset wh ''_db_writeidx: lseek error'') (\<lambda>off.
    dbind (modify (\<lambda>db. db\<lparr>idxoff := off\<rparr>)) (\<lambda>_.
    dbind (idx_write (pad PTR_SZ ptr @ pad IDXLEN_SZ len @ line)) (\<lambda>_.
    if_do (wh = SEEK_END) (un_lock records))))))))))))"

section \<open>Searching a chain\<close>

text \<open>The loop of \<open>_db_find_and_lock\<close>, the value of \<open>offset\<close> behind it.\<close>

partial_function (option) db_find_loop :: "string \<Rightarrow> int \<Rightarrow> int dbm" where
  "db_find_loop key offset db =
    (if offset = 0 then Some (Inr 0, db) else
      dbind (db_readidx offset) (\<lambda>nextoffset db.
        if idxbuf db = key then Some (Inr offset, db)
        else db_find_loop key nextoffset (db\<lparr>ptroff := offset\<rparr>)) db)"

definition db_find_and_lock :: "string \<Rightarrow> bool \<Rightarrow> int dbm" where
  "db_find_and_lock key writelock =
    dbind (modify (\<lambda>db. db\<lparr>chainoff := uint (db_hash (nhash db) key) * PTR_SZ + hashoff db\<rparr>)) (\<lambda>_.
    dbind (modify (\<lambda>db. db\<lparr>ptroff := chainoff db\<rparr>)) (\<lambda>_.
    dbind (get chainoff) (\<lambda>off.
    dbind (if writelock then writew_lock (False, off, 1) else readw_lock (False, off, 1)) (\<lambda>_.
    dbind (get ptroff) (\<lambda>off.
    dbind (db_readptr off) (\<lambda>offset.
    dbind (db_find_loop key offset) (\<lambda>offset.
    ret (if offset = 0 then -1 else 0))))))))"

text \<open>The loop of \<open>_db_findfree\<close>, with \<open>saveoffset\<close> and \<open>offset\<close> behind it.\<close>

partial_function (option) findfree_loop :: "int \<Rightarrow> int \<Rightarrow> int \<Rightarrow> int \<Rightarrow> (int \<times> int) dbm" where
  "findfree_loop keylen dlen saveoffset offset db =
    (if offset = 0 then Some (Inr (saveoffset, 0), db) else
      dbind (db_readidx offset) (\<lambda>nextoffset db.
        if int (length (idxbuf db)) = keylen \<and> datlen db = dlen then Some (Inr (saveoffset, offset), db)
        else findfree_loop keylen dlen offset nextoffset db) db)"

definition db_findfree :: "int \<Rightarrow> int \<Rightarrow> int dbm" where
  "db_findfree keylen dlen =
    dbind (writew_lock (False, FREE_OFF, 1)) (\<lambda>_.
    dbind (db_readptr FREE_OFF) (\<lambda>offset.
    dbind (findfree_loop keylen dlen FREE_OFF offset) (\<lambda>(saveoffset, offset).
    dbind (if offset = 0 then ret (-1)
           else dbind (get ptrval) (\<lambda>ptr. dbind (db_writeptr saveoffset ptr) (\<lambda>_. ret 0))) (\<lambda>rc.
    dbind (un_lock (False, FREE_OFF, 1)) (\<lambda>_.
    ret rc)))))"

section \<open>The operations of the library\<close>

definition unlock_chain :: "unit dbm" where
  "unlock_chain = dbind (get chainoff) (\<lambda>off. un_lock (False, off, 1))"

definition db_fetch :: "string \<Rightarrow> string option dbm" where
  "db_fetch key =
    dbind (db_find_and_lock key False) (\<lambda>rc.
    dbind (if rc < 0 then dbind (modify (\<lambda>db. db\<lparr>cnt_fetcherr := cnt_fetcherr db + 1\<rparr>)) (\<lambda>_. ret None)
           else dbind db_readdat (\<lambda>ptr. dbind (modify (\<lambda>db. db\<lparr>cnt_fetchok := cnt_fetchok db + 1\<rparr>)) (\<lambda>_. ret (Some ptr)))) (\<lambda>ptr.
    dbind unlock_chain (\<lambda>_. ret ptr)))"

definition db_dodelete :: "unit dbm" where
  "db_dodelete =
    dbind (modify (\<lambda>db. db\<lparr>datbuf := replicate (nat (datlen db - 1)) SPACE, idxbuf := map (\<lambda>_. SPACE) (idxbuf db)\<rparr>)) (\<lambda>_.
    dbind (writew_lock (False, FREE_OFF, 1)) (\<lambda>_.
    dbind (get (\<lambda>db. (datbuf db, datoff db))) (\<lambda>(data, off).
    dbind (db_writedat data off SEEK_SET) (\<lambda>_.
    dbind (db_readptr FREE_OFF) (\<lambda>freeptr.
    dbind (get ptrval) (\<lambda>saveptr.
    dbind (get (\<lambda>db. (idxbuf db, idxoff db))) (\<lambda>(key, off).
    dbind (db_writeidx key off SEEK_SET freeptr) (\<lambda>_.
    dbind (get idxoff) (\<lambda>off.
    dbind (db_writeptr FREE_OFF off) (\<lambda>_.
    dbind (get ptroff) (\<lambda>off.
    dbind (db_writeptr off saveptr) (\<lambda>_.
    un_lock (False, FREE_OFF, 1)))))))))))))"

definition db_delete :: "string \<Rightarrow> int dbm" where
  "db_delete key =
    dbind (db_find_and_lock key True) (\<lambda>rc.
    dbind (if rc = 0 then dbind db_dodelete (\<lambda>_. dbind (modify (\<lambda>db. db\<lparr>cnt_delok := cnt_delok db + 1\<rparr>)) (\<lambda>_. ret 0))
           else dbind (modify (\<lambda>db. db\<lparr>cnt_delerr := cnt_delerr db + 1\<rparr>)) (\<lambda>_. ret (-1))) (\<lambda>rc.
    dbind unlock_chain (\<lambda>_. ret rc)))"

text \<open>The parts of \<open>db_store\<close>: a new record at the end of both files, one in the place of a deleted
  one, the record that was found overwritten, and the two branches.\<close>

definition store_append :: "string \<Rightarrow> string \<Rightarrow> int \<Rightarrow> unit dbm" where
  "store_append key data ptr =
    dbind (db_writedat data 0 SEEK_END) (\<lambda>_.
    dbind (db_writeidx key 0 SEEK_END ptr) (\<lambda>_.
    dbind (get (\<lambda>db. (chainoff db, idxoff db))) (\<lambda>(c, i). db_writeptr c i)))"

definition store_reuse :: "string \<Rightarrow> string \<Rightarrow> int \<Rightarrow> unit dbm" where
  "store_reuse key data ptr =
    dbind (get datoff) (\<lambda>off.
    dbind (db_writedat data off SEEK_SET) (\<lambda>_.
    dbind (get idxoff) (\<lambda>off.
    dbind (db_writeidx key off SEEK_SET ptr) (\<lambda>_.
    dbind (get (\<lambda>db. (chainoff db, idxoff db))) (\<lambda>(c, i). db_writeptr c i)))))"

text \<open>\<open>keylen\<close> and \<open>datlen\<close> are of type \<open>int\<close>, \<open>strlen\<close> returns a \<open>size_t\<close>: the
  assignment keeps the low 32 bits.\<close>

definition c_int :: "int \<Rightarrow> int" where
  "c_int n = sint (word_of_int n :: 32 word)"

lemma c_int_id: "- (2 ^ 31) \<le> n \<Longrightarrow> n < 2 ^ 31 \<Longrightarrow> c_int n = n"
  by (simp add: c_int_def signed_take_bit_int_eq_self signed_of_int)

definition store_new :: "string \<Rightarrow> string \<Rightarrow> store_flag \<Rightarrow> int dbm" where
  "store_new key data flag =
    (if flag = DB_REPLACE then
       dbind (modify (\<lambda>db. db\<lparr>cnt_storerr := cnt_storerr db + 1, errno := ENOENT\<rparr>)) (\<lambda>_. ret (-1))
     else
       dbind (get chainoff) (\<lambda>off.
       dbind (db_readptr off) (\<lambda>ptr.
       dbind (db_findfree (c_int (int (length key))) (c_int (int (length data) + 1))) (\<lambda>rc.
       if rc < 0 then
         dbind (store_append key data ptr) (\<lambda>_.
         dbind (modify (\<lambda>db. db\<lparr>cnt_stor1 := cnt_stor1 db + 1\<rparr>)) (\<lambda>_. ret 0))
       else
         dbind (store_reuse key data ptr) (\<lambda>_.
         dbind (modify (\<lambda>db. db\<lparr>cnt_stor2 := cnt_stor2 db + 1\<rparr>)) (\<lambda>_. ret 0))))))"

definition store_found :: "string \<Rightarrow> string \<Rightarrow> store_flag \<Rightarrow> int dbm" where
  "store_found key data flag =
    (if flag = DB_INSERT then
       dbind (modify (\<lambda>db. db\<lparr>cnt_storerr := cnt_storerr db + 1\<rparr>)) (\<lambda>_. ret 1)
     else
       dbind (get datlen) (\<lambda>old.
       if c_int (int (length data) + 1) \<noteq> old then
         dbind db_dodelete (\<lambda>_.
         dbind (get chainoff) (\<lambda>off.
         dbind (db_readptr off) (\<lambda>ptr.
         dbind (store_append key data ptr) (\<lambda>_.
         dbind (modify (\<lambda>db. db\<lparr>cnt_stor3 := cnt_stor3 db + 1\<rparr>)) (\<lambda>_. ret 0)))))
       else
         dbind (get datoff) (\<lambda>off.
         dbind (db_writedat data off SEEK_SET) (\<lambda>_.
         dbind (modify (\<lambda>db. db\<lparr>cnt_stor4 := cnt_stor4 db + 1\<rparr>)) (\<lambda>_. ret 0)))))"

definition db_store :: "string \<Rightarrow> string \<Rightarrow> store_flag \<Rightarrow> int dbm" where
  "db_store key data flag =
    (if flag = Other_flag then dbind (modify (\<lambda>db. db\<lparr>errno := EINVAL\<rparr>)) (\<lambda>_. ret (-1))
     else
       dbind (check (DATLEN_MIN \<le> c_int (int (length data) + 1) \<and> c_int (int (length data) + 1) \<le> DATLEN_MAX)
         (err_dump ''db_store: invalid data length'')) (\<lambda>_.
       dbind (db_find_and_lock key True) (\<lambda>rc.
       dbind (if rc < 0 then store_new key data flag else store_found key data flag) (\<lambda>rc.
       dbind unlock_chain (\<lambda>_. ret rc)))))"

definition db_rewind :: "unit dbm" where
  "db_rewind =
    dbind (get (\<lambda>db. (uint (nhash db) + 1) * PTR_SZ)) (\<lambda>offset.
    dbind (idx_lseek (offset + 1) SEEK_SET ''db_rewind: lseek error'') (\<lambda>off.
    modify (\<lambda>db. db\<lparr>idxoff := off\<rparr>)))"

text \<open>The loop of \<open>db_nextrec\<close> that skips the deleted records, false at the end of the file.\<close>

partial_function (option) nextrec_loop :: "bool dbm" where
  "nextrec_loop db =
    dbind (db_readidx 0) (\<lambda>ptr db.
      if ptr < 0 then Some (Inr False, db)
      else if list_all (\<lambda>c. c = SPACE) (idxbuf db) then nextrec_loop db
      else Some (Inr True, db)) db"

definition db_nextrec :: "(string \<times> string) option dbm" where
  \<comment> \<open>the key, which the code copies to its argument, and the data\<close>
  "db_nextrec =
    dbind (readw_lock (False, FREE_OFF, 1)) (\<lambda>_.
    dbind nextrec_loop (\<lambda>found.
    dbind (if \<not> found then ret None
           else dbind (get idxbuf) (\<lambda>key. dbind db_readdat (\<lambda>data.
             dbind (modify (\<lambda>db. db\<lparr>cnt_nextrec := cnt_nextrec db + 1\<rparr>)) (\<lambda>_. ret (Some (key, data)))))) (\<lambda>r.
    dbind (un_lock (False, FREE_OFF, 1)) (\<lambda>_. ret r))))"

section \<open>Opening and closing\<close>

definition db_alloc :: "open_file \<Rightarrow> open_file \<Rightarrow> db" where
  "db_alloc i d = \<lparr>idxfd = i, datfd = d, idxbuf = [], datbuf = [], idxoff = 0, idxlen = 0, datoff = 0, datlen = 0,
     ptrval = 0, ptroff = 0, chainoff = 0, hashoff = 0, nhash = 0, cnt_delok = 0, cnt_delerr = 0, cnt_fetchok = 0,
     cnt_fetcherr = 0, cnt_nextrec = 0, cnt_stor1 = 0, cnt_stor2 = 0, cnt_stor3 = 0, cnt_stor4 = 0, cnt_storerr = 0,
     locks = [], errno = Clear\<rparr>"

text \<open>\<open>open\<close> on the contents of a file, \<open>None\<close> for a file that does not exist.\<close>

definition open_contents :: "bool \<Rightarrow> bool \<Rightarrow> string option \<Rightarrow> open_file option" where
  "open_contents creat trunc f = (case f of
     None \<Rightarrow> if creat then Some \<lparr>contents = [], fpos = 0\<rparr> else None
   | Some s \<Rightarrow> Some \<lparr>contents = if trunc then [] else s, fpos = 0\<rparr>)"

fun strcat_times :: "nat \<Rightarrow> string \<Rightarrow> string \<Rightarrow> string" where
  "strcat_times 0 s t = t"
| "strcat_times (Suc n) s t = strcat_times n s (t @ s)"

definition hash_table :: string where
  "hash_table = strcat_times (unat (NHASH_DEF + 1)) (pad PTR_SZ 0) [] @ [NEWLINE]"

definition db_init :: "bool \<Rightarrow> bool \<Rightarrow> unit dbm" where
  "db_init creat trunc =
    dbind (if_do (creat \<and> trunc)
      (dbind (writew_lock (False, 0, 0)) (\<lambda>_.
       dbind (get (\<lambda>db. length (contents (idxfd db)))) (\<lambda>st_size.
       dbind (if_do (st_size = 0) (idx_write hash_table)) (\<lambda>_.
       un_lock (False, 0, 0)))))) (\<lambda>_.
    db_rewind)"

text \<open>The result is the exit, or the handle with \<open>None\<close> for \<open>NULL\<close>.\<close>

definition db_open :: "bool \<Rightarrow> bool \<Rightarrow> string option \<Rightarrow> string option \<Rightarrow> db_exit + db option" where
  "db_open creat trunc idx dat =
    (case (open_contents creat trunc idx, open_contents creat trunc dat) of
       (Some i, Some d) \<Rightarrow>
         (case db_init creat trunc (db_alloc i d\<lparr>nhash := NHASH_DEF, hashoff := HASH_OFF\<rparr>) of
            Some (Inl e, _) \<Rightarrow> Inl e | Some (Inr _, db) \<Rightarrow> Inr (Some db) | None \<Rightarrow> Inr None)
     | _ \<Rightarrow> Inr None)"

text \<open>What remains after \<open>db_close\<close>: the contents of the two files.\<close>

definition db_close :: "db \<Rightarrow> string \<times> string" where
  "db_close db = (contents (idxfd db), contents (datfd db))"

declare db_find_loop.simps [code] findfree_loop.simps [code] nextrec_loop.simps [code]

end
