(* ===== verification/DbLayout.thy ===== *)
theory DbLayout
  imports DbOps
begin

text \<open>
  The two files of a database in good order, and what the functions that read and write single fields
  and records do on them. A layout is the list \<open>R\<close> of the records in the order of both files and a
  function \<open>P\<close> from the places of pointer fields in the index file to the pointers there. The bytes
  of both files are determined by \<open>P\<close> and \<open>R\<close>.
\<close>

section \<open>Layouts\<close>

record entry =
  epos :: int   \<comment> \<open>where the index record begins, with its chain pointer\<close>
  edat :: int   \<comment> \<open>where the data begin\<close>
  ekey :: string
  edata :: string

definition idx_line :: "entry \<Rightarrow> string" where
  "idx_line e = ekey e @ SEP # print_int (edat e) @ SEP # print_int (int (length (edata e)) + 1) @ [NEWLINE]"

definition esize :: "entry \<Rightarrow> int" where
  "esize e = PTR_SZ + IDXLEN_SZ + int (length (idx_line e))"

definition idx_record :: "(int \<Rightarrow> int) \<Rightarrow> entry \<Rightarrow> string" where
  "idx_record P e = pad PTR_SZ (P (epos e)) @ pad IDXLEN_SZ (int (length (idx_line e))) @ idx_line e"

definition heads :: "int list" where "heads = map (\<lambda>c. PTR_SZ * c) [0..137]"

definition first_record :: int where "first_record = 967"

definition header :: "(int \<Rightarrow> int) \<Rightarrow> string" where
  "header P = concat (map (\<lambda>a. pad PTR_SZ (P a)) heads) @ [NEWLINE]"

definition idx_file :: "(int \<Rightarrow> int) \<Rightarrow> entry list \<Rightarrow> string" where
  "idx_file P R = header P @ concat (map (idx_record P) R)"

definition dat_file :: "entry list \<Rightarrow> string" where
  "dat_file R = concat (map (\<lambda>e. edata e @ [NEWLINE]) R)"

fun placed :: "int \<Rightarrow> int \<Rightarrow> entry list \<Rightarrow> bool" where
  "placed i d [] \<longleftrightarrow> True"
| "placed i d (e # R) \<longleftrightarrow> epos e = i \<and> edat e = d \<and> placed (i + esize e) (d + int (length (edata e)) + 1) R"

definition no_null :: "string \<Rightarrow> bool" where "no_null s \<longleftrightarrow> char_of (0 :: nat) \<notin> set s"

definition entry_ok :: "entry \<Rightarrow> bool" where
  "entry_ok e \<longleftrightarrow> 0 \<le> edat e \<and> no_null (ekey e) \<and> SEP \<notin> set (ekey e) \<and> no_null (edata e) \<and>
    0 < length (edata e) \<and> int (length (edata e)) < DATLEN_MAX \<and>
    IDXLEN_MIN \<le> int (length (idx_line e)) \<and> int (length (idx_line e)) \<le> IDXLEN_MAX"

definition slots :: "entry list \<Rightarrow> int set" where "slots R = set heads \<union> epos ` set R"

definition layout :: "(int \<Rightarrow> int) \<Rightarrow> entry list \<Rightarrow> bool" where
  "layout P R \<longleftrightarrow> placed first_record 0 R \<and> (\<forall>e \<in> set R. entry_ok e) \<and> (\<forall>a \<in> slots R. 0 \<le> P a \<and> P a \<le> PTR_MAX)"

definition holds :: "db \<Rightarrow> (int \<Rightarrow> int) \<Rightarrow> entry list \<Rightarrow> bool" where
  "holds db P R \<longleftrightarrow> layout P R \<and> contents (idxfd db) = idx_file P R \<and> contents (datfd db) = dat_file R"

section \<open>Places\<close>

lemma length_pad_ptr [simp]: "0 \<le> i \<Longrightarrow> i \<le> PTR_MAX \<Longrightarrow> length (pad PTR_SZ i) = 7"
  using length_pad [of i PTR_SZ] by (simp add: db_consts)

lemma length_pad_len [simp]: "0 \<le> i \<Longrightarrow> i \<le> IDXLEN_MAX \<Longrightarrow> length (pad IDXLEN_SZ i) = 4"
  using length_pad [of i IDXLEN_SZ] by (simp add: db_consts)

lemma placed_append:
  "placed i d (us @ vs) \<longleftrightarrow> placed i d us \<and> placed (i + (\<Sum>e\<leftarrow>us. esize e)) (d + (\<Sum>e\<leftarrow>us. int (length (edata e)) + 1)) vs"
  by (induction us arbitrary: i d) (auto simp: algebra_simps)

lemma esize_pos: "0 < esize e"
  by (simp add: esize_def db_consts)

lemma placed_less: "placed i d R \<Longrightarrow> e \<in> set R \<Longrightarrow> i \<le> epos e \<and> epos e < i + (\<Sum>e\<leftarrow>R. esize e)"
proof (induction R arbitrary: i d)
  case (Cons x R)
  have "0 \<le> (\<Sum>e\<leftarrow>R. esize e)" by (rule sum_list_nonneg) (use esize_pos in \<open>auto simp: less_imp_le\<close>)
  then show ?case using Cons.IH [of "i + esize x"] Cons.prems esize_pos [of x] by fastforce
qed simp

lemma placed_distinct: "placed i d R \<Longrightarrow> distinct (map epos R)"
proof (induction R arbitrary: i d)
  case (Cons x R)
  show ?case using Cons.IH Cons.prems placed_less [of "i + esize x" _ R] esize_pos [of x] by fastforce
qed simp

lemma epos_eq: "placed i d R \<Longrightarrow> e \<in> set R \<Longrightarrow> e' \<in> set R \<Longrightarrow> epos e = epos e' \<Longrightarrow> e = e'"
  using placed_distinct [of i d R] by (simp add: distinct_map inj_on_def)

lemma heads_eq: "a \<in> set heads \<longleftrightarrow> (\<exists>c. 0 \<le> c \<and> c \<le> 137 \<and> a = 7 * c)"
  by (auto simp: heads_def PTR_SZ_def)

lemma heads_below: "a \<in> set heads \<Longrightarrow> 0 \<le> a \<and> a < first_record"
  by (auto simp: heads_eq first_record_def)

lemma length_records:
  assumes "\<forall>e \<in> set R. entry_ok e \<and> 0 \<le> P (epos e) \<and> P (epos e) \<le> PTR_MAX"
  shows "int (length (concat (map (idx_record P) R))) = (\<Sum>e\<leftarrow>R. esize e)"
  using assms
proof (induction R)
  case (Cons e R)
  have "int (length (idx_record P e)) = esize e"
    using Cons.prems by (simp add: idx_record_def esize_def entry_ok_def) (simp add: db_consts)
  then show ?case using Cons by simp
qed simp

lemma length_concat_pads:
  "\<forall>a \<in> set as. 0 \<le> P a \<and> P a \<le> PTR_MAX \<Longrightarrow> length (concat (map (\<lambda>a. pad PTR_SZ (P a)) as)) = 7 * length as"
  by (induction as) auto

lemma length_header: "\<forall>a \<in> set heads. 0 \<le> P a \<and> P a \<le> PTR_MAX \<Longrightarrow> int (length (header P)) = first_record"
  using length_concat_pads [of heads P] by (simp add: header_def heads_def first_record_def)

lemma length_dat: "int (length (dat_file R)) = (\<Sum>e\<leftarrow>R. int (length (edata e)) + 1)"
  by (induction R) (auto simp: dat_file_def)

lemma length_idx: "layout P R \<Longrightarrow> int (length (idx_file P R)) = first_record + (\<Sum>e\<leftarrow>R. esize e)"
  using length_records [of R P] length_header [of P] by (auto simp: idx_file_def layout_def slots_def)

lemma layoutD:
  assumes "layout P R" "e \<in> set R"
  shows "entry_ok e" "0 \<le> P (epos e)" "P (epos e) \<le> PTR_MAX" "first_record \<le> epos e" "epos e < int (length (idx_file P R))"
    "epos e \<in> slots R"
  using assms placed_less [of first_record 0 R e] length_idx [OF assms(1)] by (auto simp: layout_def slots_def)

lemma layout_head: "layout P R \<Longrightarrow> a \<in> set heads \<Longrightarrow> 0 \<le> P a \<and> P a \<le> PTR_MAX"
  by (auto simp: layout_def slots_def)

text \<open>The place of a record in both files.\<close>

lemma record_split:
  assumes "layout P R" "e \<in> set R"
  obtains us vs A C where "R = us @ e # vs" "idx_file P R = A @ idx_record P e @ C" "int (length A) = epos e"
    "\<And>v e'. epos e' = epos e \<Longrightarrow> idx_file (P(epos e := v)) (us @ e' # vs) = A @ idx_record (P(epos e := v)) e' @ C"
    "int (length (dat_file us)) = edat e" "\<And>x. x \<in> set us \<union> set vs \<Longrightarrow> epos x \<noteq> epos e"
proof -
  obtain us vs where R: "R = us @ e # vs" using assms(2) by (auto simp: in_set_conv_decomp)
  have pl: "placed first_record 0 (us @ e # vs)" using assms(1) R by (simp add: layout_def)
  have ne: "epos x \<noteq> epos e" if "x \<in> set us \<union> set vs" for x using placed_distinct [OF pl] that by (fastforce simp: image_iff)
  let ?A = "header P @ concat (map (idx_record P) us)" and ?C = "concat (map (idx_record P) vs)"
  have e: "epos e = first_record + (\<Sum>x\<leftarrow>us. esize x)" "edat e = (\<Sum>x\<leftarrow>us. int (length (edata x)) + 1)"
    using pl by (simp_all add: placed_append)
  have lA: "int (length ?A) = epos e" using e assms(1) R length_records [of us P] length_header [of P]
    by (auto simp: layout_def slots_def)
  have hd: "epos e \<notin> set heads" using heads_below layoutD(4) [OF assms] by force
  have "idx_file (P(epos e := v)) (us @ e' # vs) = ?A @ idx_record (P(epos e := v)) e' @ ?C" if "epos e' = epos e" for v e'
  proof -
    have "header (P(epos e := v)) = header P" using hd by (auto simp: header_def intro!: arg_cong [of _ _ concat])
    moreover have "map (idx_record (P(epos e := v))) us = map (idx_record P) us" "map (idx_record (P(epos e := v))) vs = map (idx_record P) vs"
      using ne by (auto simp: idx_record_def)
    ultimately show ?thesis by (simp only: idx_file_def map_append list.map concat_append concat.simps append_assoc)
  qed
  then show ?thesis using that [of us vs ?A ?C] R lA e(2) ne by (simp add: idx_file_def length_dat)
qed

lemma head_split:
  assumes "layout P R" "a \<in> set heads"
  obtains A C where "int (length A) = a" "\<And>v. idx_file (P(a := v)) R = A @ pad PTR_SZ v @ C"
proof -
  obtain c where c: "0 \<le> c" "c \<le> 137" "a = 7 * c" using assms(2) by (auto simp: heads_eq)
  have split: "heads = map (\<lambda>c. 7 * c) [0..c - 1] @ a # map (\<lambda>c. 7 * c) [c + 1..137]"
    using c upto_split2 [of 0 "c" 137] upto_rec1 [of c 137] by (simp add: heads_def PTR_SZ_def upto_split1 [of 0 c 137])
  let ?f = "\<lambda>P as. concat (map (\<lambda>a. pad PTR_SZ (P a)) as)"
  let ?us = "map (\<lambda>c. 7 * c) [0..c - 1]" and ?vs = "map (\<lambda>c. 7 * c) [c + 1..137]"
  have "\<forall>x \<in> set ?us. 0 \<le> P x \<and> P x \<le> PTR_MAX" using layout_head [OF assms(1)] c by (auto simp: heads_eq)
  from length_concat_pads [OF this] have l: "int (length (?f P ?us)) = a" using c by simp
  have r: "map (idx_record (P(a := v))) R = map (idx_record P) R" for v
    using layoutD(4) [OF assms(1)] heads_below [OF assms(2)] by (fastforce simp: idx_record_def)
  have f: "?f (P(a := v)) ?us = ?f P ?us" "?f (P(a := v)) ?vs = ?f P ?vs" for v
    using c by (auto intro!: arg_cong [of _ _ concat])
  have "idx_file (P(a := v)) R = ?f P ?us @ pad PTR_SZ v @ (?f P ?vs @ [NEWLINE] @ concat (map (idx_record P) R))" for v
    unfolding idx_file_def header_def r split map_append concat_append list.map concat.simps f by simp
  then show ?thesis using that [OF l] by blast
qed

lemma slot_split:
  assumes "layout P R" "a \<in> slots R"
  obtains A C where "int (length A) = a" "\<And>v. idx_file (P(a := v)) R = A @ pad PTR_SZ v @ C"
proof (cases "a \<in> set heads")
  case True
  then show ?thesis using head_split [OF assms(1)] that by blast
next
  case False
  then obtain e where e: "e \<in> set R" "a = epos e" using assms(2) by (auto simp: slots_def)
  obtain us vs A C where "R = us @ e # vs" "int (length A) = epos e"
    "\<And>v e'. epos e' = epos e \<Longrightarrow> idx_file (P(epos e := v)) (us @ e' # vs) = A @ idx_record (P(epos e := v)) e' @ C"
    using record_split [OF assms(1) e(1)] by metis
  then show ?thesis using that [of A "pad IDXLEN_SZ (int (length (idx_line e))) @ idx_line e @ C"] e by (simp add: idx_record_def)
qed

section \<open>Reading and writing pointers\<close>

lemma open_file_update [simp]: "f\<lparr>contents := c, fpos := p\<rparr> = \<lparr>contents = c, fpos = p\<rparr>"
  by (cases f) simp

lemma seek_set: "0 \<le> a \<Longrightarrow> dbind (idx_lseek a SEEK_SET msg) f db = f a (db\<lparr>idxfd := (idxfd db)\<lparr>fpos := a\<rparr>\<rparr>)"
  "0 \<le> a \<Longrightarrow> dbind (dat_lseek a SEEK_SET msg) g db = g a (db\<lparr>datfd := (datfd db)\<lparr>fpos := a\<rparr>\<rparr>)"
  by (simp_all add: dbind_def idx_lseek_def dat_lseek_def lseek_def)

lemma read_at:
  assumes "contents (idxfd db) = a @ b @ c" "fpos (idxfd db) = int (length a)" "n = int (length b)"
  shows "dbind (idx_read n) f db = f b (db\<lparr>idxfd := (idxfd db)\<lparr>fpos := int (length a) + n\<rparr>\<rparr>)"
  using read_bytes_at [OF assms] by (simp add: dbind_def idx_read_def)

lemma slots_nonneg: "layout P R \<Longrightarrow> a \<in> slots R \<Longrightarrow> 0 \<le> a"
  using layoutD(4) heads_below by (fastforce simp: slots_def first_record_def)

lemma db_readptr_at:
  assumes "layout P R" "contents (idxfd db) = idx_file P R" "a \<in> slots R"
  shows "db_readptr a db = Some (Inr (P a), db\<lparr>idxfd := (idxfd db)\<lparr>fpos := a + 7\<rparr>\<rparr>)"
proof -
  obtain A C where A: "int (length A) = a" "\<And>v. idx_file (P(a := v)) R = A @ pad PTR_SZ v @ C" using slot_split [OF assms(1,3)] by metis
  have P: "0 \<le> P a" "P a \<le> PTR_MAX" using assms(1,3) by (auto simp: layout_def)
  have c: "contents (idxfd db) = A @ pad PTR_SZ (P a) @ C" using A(2) [of "P a"] assms(2) by simp
  let ?db = "db\<lparr>idxfd := (idxfd db)\<lparr>fpos := a\<rparr>\<rparr>"
  have "dbind (idx_read PTR_SZ) f ?db = f (pad PTR_SZ (P a)) (db\<lparr>idxfd := (idxfd db)\<lparr>fpos := a + 7\<rparr>\<rparr>)" for f :: "string \<Rightarrow> int dbm"
    using read_at [of ?db A "pad PTR_SZ (P a)" C PTR_SZ f] c A(1) P length_pad_ptr [OF P]
    by (simp add: PTR_SZ_def)
  then show ?thesis using P slots_nonneg [OF assms(1,3)] by (simp add: db_readptr_def seek_set atol_pad) (simp add: PTR_SZ_def)
qed

lemma db_writeptr_at:
  assumes "layout P R" "contents (idxfd db) = idx_file P R" "a \<in> slots R" "0 \<le> v" "v \<le> PTR_MAX"
  shows "db_writeptr a v db = Some (Inr (), db\<lparr>idxfd := \<lparr>contents = idx_file (P(a := v)) R, fpos = a + 7\<rparr>\<rparr>)"
proof -
  obtain A C where A: "int (length A) = a" "\<And>v. idx_file (P(a := v)) R = A @ pad PTR_SZ v @ C" using slot_split [OF assms(1,3)] by metis
  have P: "0 \<le> P a" "P a \<le> PTR_MAX" using assms(1,3) by (auto simp: layout_def)
  have c: "contents (idxfd db) = A @ pad PTR_SZ (P a) @ C" using A(2) [of "P a"] assms(2) by simp
  have "write_bytes ((idxfd db)\<lparr>fpos := a\<rparr>) (pad PTR_SZ v) = \<lparr>contents = idx_file (P(a := v)) R, fpos = a + 7\<rparr>"
    using write_bytes_at [of "(idxfd db)\<lparr>fpos := a\<rparr>" A "pad PTR_SZ (P a)" C "pad PTR_SZ v"] A c P assms(4,5) by simp
  then show ?thesis using assms(4,5) slots_nonneg [OF assms(1,3)] by (simp add: db_writeptr_def seek_set idx_write_def)
qed

lemma layout_fun_upd: "layout P R \<Longrightarrow> 0 \<le> v \<Longrightarrow> v \<le> PTR_MAX \<Longrightarrow> layout (P(a := v)) R"
  by (simp add: layout_def)

section \<open>Reading records\<close>

text \<open>The state after \<open>_db_readidx\<close> has read the record \<open>e\<close>.\<close>

definition loaded :: "(int \<Rightarrow> int) \<Rightarrow> entry \<Rightarrow> db \<Rightarrow> db" where
  "loaded P e db = db\<lparr>idxfd := (idxfd db)\<lparr>fpos := epos e + esize e\<rparr>, idxbuf := ekey e, idxoff := epos e,
     idxlen := int (length (idx_line e)), datoff := edat e, datlen := int (length (edata e)) + 1, ptrval := P (epos e)\<rparr>"

lemma size_t_id: "0 \<le> i \<Longrightarrow> i < 2 ^ 64 \<Longrightarrow> size_t i = i"
  by (simp add: size_t_def)

lemma not_digit: "\<not> is_digit SEP" "\<not> is_digit (char_of (0 :: nat))" "SEP \<noteq> char_of (0 :: nat)" "SEP \<noteq> SPACE" "SPACE \<noteq> char_of (0 :: nat)"
  by (auto simp: is_digit_def db_consts char_of_def)

lemma parse_idx_line:
  assumes "entry_ok e"
  shows "parse_idx (idx_line e) db = Some (Inr (ptrval db),
    db\<lparr>idxbuf := ekey e, datoff := edat e, datlen := int (length (edata e)) + 1\<rparr>)"
proof -
  let ?n = "int (length (edata e)) + 1"
  let ?l = "ekey e @ SEP # print_int (edat e) @ SEP # print_int ?n"
  have e: "no_null (ekey e)" "SEP \<notin> set (ekey e)" "0 \<le> edat e" "1 \<le> ?n" "?n \<le> DATLEN_MAX"
    using assms by (simp_all add: entry_ok_def)
  have d: "SEP \<notin> set (print_int i)" "char_of (0 :: nat) \<notin> set (print_int i)" if "0 \<le> i" for i
    using print_int_digits [OF that] not_digit(1,2) by blast+
  have "char_of (0 :: nat) \<notin> set ?l" using e d [of "edat e"] d [of ?n] not_digit(3) by (auto simp: no_null_def)
  then have "c_str ?l = ?l" by (auto simp: c_str_def takeWhile_eq_all_conv)
  moreover have "last (idx_line e) = NEWLINE" "butlast (idx_line e) = ?l" by (simp_all add: idx_line_def butlast_append)
  moreover have "size_t ?n = ?n" using e(5) by (intro size_t_id) (simp_all add: DATLEN_MAX_def)
  ultimately show ?thesis using e d [of "edat e"] d [of ?n] by (simp add: parse_idx_def)
qed

lemma readidx_record:
  assumes "layout P R" "contents (idxfd db) = idx_file P R" "e \<in> set R" "fpos (idxfd db) = epos e"
  shows "dbind (idx_read (PTR_SZ + IDXLEN_SZ)) (\<lambda>bs. if int (length bs) \<noteq> PTR_SZ + IDXLEN_SZ then m bs
    else let asciiptr = take (nat PTR_SZ) bs; len = size_t (atol (drop (nat PTR_SZ) bs)) in
      dbind (modify (\<lambda>db. db\<lparr>ptrval := atol asciiptr, idxlen := len\<rparr>)) (\<lambda>_.
      dbind (check (IDXLEN_MIN \<le> len \<and> len \<le> IDXLEN_MAX) x) (\<lambda>_.
      dbind (idx_read len) (\<lambda>buf.
      dbind (check (int (length buf) = len) y) (\<lambda>_. parse_idx buf))))) (db\<lparr>idxoff := epos e\<rparr>) =
    Some (Inr (P (epos e)), loaded P e db)"
proof -
  obtain A C where A: "idx_file P R = A @ idx_record P e @ C" "int (length A) = epos e" using record_split [OF assms(1,3)] by metis
  note e = layoutD [OF assms(1,3)]
  let ?n = "int (length (idx_line e))"
  have n: "IDXLEN_MIN \<le> ?n" "?n \<le> IDXLEN_MAX" "0 \<le> ?n" using e(1) by (simp_all add: entry_ok_def)
  let ?p = "pad PTR_SZ (P (epos e))" and ?l = "pad IDXLEN_SZ ?n"
  have c: "contents (idxfd db) = A @ (?p @ ?l) @ (idx_line e @ C)" "contents (idxfd db) = (A @ ?p @ ?l) @ idx_line e @ C"
    using assms(2) A(1) by (simp_all add: idx_record_def)
  have l: "length ?p = 7" "length ?l = 4" using e n by simp_all
  have s: "size_t ?n = ?n" using n by (intro size_t_id) (simp_all add: IDXLEN_MAX_def)
  let ?db = "db\<lparr>idxoff := epos e\<rparr>"
  let ?d1 = "?db\<lparr>idxfd := (idxfd db)\<lparr>fpos := epos e + 11\<rparr>\<rparr>"
  let ?d2 = "?d1\<lparr>ptrval := P (epos e), idxlen := ?n\<rparr>"
  have r1: "dbind (idx_read (PTR_SZ + IDXLEN_SZ)) f ?db = f (?p @ ?l) ?d1" for f :: "string \<Rightarrow> int dbm"
    using read_at [of ?db A "?p @ ?l" _ "PTR_SZ + IDXLEN_SZ" f] c(1) A(2) assms(4) l by (simp add: PTR_SZ_def IDXLEN_SZ_def)
  have r2: "dbind (idx_read ?n) f ?d2 = f (idx_line e) (?d2\<lparr>idxfd := (idxfd db)\<lparr>fpos := epos e + 11 + ?n\<rparr>\<rparr>)" for f :: "string \<Rightarrow> int dbm"
    using read_at [of ?d2 "A @ ?p @ ?l" "idx_line e" C ?n f] c(2) A(2) l by (simp add: algebra_simps)
  have sp: "take 7 (?p @ ?l) = ?p" "drop 7 (?p @ ?l) = ?l" using l by simp_all
  have a: "atol ?p = P (epos e)" "atol ?l = ?n" using e(2) by (simp_all add: atol_pad)
  show ?thesis
    unfolding r1 using l sp a s n r2 parse_idx_line [OF e(1)]
    by (simp add: Let_def PTR_SZ_def IDXLEN_SZ_def loaded_def esize_def)
qed

lemma db_readidx_at:
  assumes "layout P R" "contents (idxfd db) = idx_file P R" "e \<in> set R"
  shows "db_readidx (epos e) db = Some (Inr (P (epos e)), loaded P e db)"
proof -
  have p: "0 < epos e" using layoutD(4) [OF assms(1,3)] by (simp add: first_record_def)
  let ?db = "db\<lparr>idxfd := (idxfd db)\<lparr>fpos := epos e\<rparr>\<rparr>"
  have "loaded P e ?db = loaded P e db" by (simp add: loaded_def)
  then show ?thesis
    using readidx_record [OF assms(1) _ assms(3), of ?db] assms(2) p by (simp add: db_readidx_def seek_set)
qed

lemma seek_cur:
  "0 \<le> fpos (idxfd db) \<Longrightarrow> dbind (idx_lseek 0 SEEK_CUR msg) f db = f (fpos (idxfd db)) db"
  by (simp add: dbind_def idx_lseek_def lseek_def)

lemma db_readidx_next:
  assumes "layout P R" "contents (idxfd db) = idx_file P R" "e \<in> set R" "fpos (idxfd db) = epos e"
  shows "db_readidx 0 db = Some (Inr (P (epos e)), loaded P e db)"
proof -
  have p: "0 < epos e" using layoutD(4) [OF assms(1,3)] by (simp add: first_record_def)
  then show ?thesis
    using readidx_record [OF assms] assms(4) by (simp add: db_readidx_def seek_cur)
qed

lemma db_readidx_eof:
  assumes "fpos (idxfd db) = int (length (contents (idxfd db)))"
  shows "db_readidx 0 db = Some (Inr (-1), db\<lparr>idxoff := fpos (idxfd db)\<rparr>)"
  using read_at [of "db\<lparr>idxoff := fpos (idxfd db)\<rparr>" "contents (idxfd db)" "[]" "[]" "PTR_SZ + IDXLEN_SZ"] assms
  by (simp add: db_readidx_def seek_cur) (simp add: dbind_def idx_read_def read_bytes_def db_consts)

lemma dat_split:
  assumes "layout P R" "e \<in> set R"
  obtains us vs where "R = us @ e # vs" "int (length (dat_file us)) = edat e"
    "\<And>e'. dat_file (us @ e' # vs) = dat_file us @ (edata e' @ [NEWLINE]) @ dat_file vs"
    "\<And>x. x \<in> set us \<union> set vs \<Longrightarrow> epos x \<noteq> epos e"
proof -
  obtain us vs where "R = us @ e # vs" "int (length (dat_file us)) = edat e" "\<And>x. x \<in> set us \<union> set vs \<Longrightarrow> epos x \<noteq> epos e"
    using record_split [OF assms] by metis
  then show ?thesis using that [of us vs] by (simp add: dat_file_def)
qed

lemma db_readdat_at:
  assumes "holds db P R" "e \<in> set R" "datoff db = edat e" "datlen db = int (length (edata e)) + 1"
  shows "db_readdat db = Some (Inr (edata e), db\<lparr>datfd := (datfd db)\<lparr>fpos := edat e + int (length (edata e)) + 1\<rparr>, datbuf := edata e\<rparr>)"
proof -
  have lay: "layout P R" using assms(1) by (simp add: holds_def)
  obtain us vs where R: "R = us @ e # vs" "int (length (dat_file us)) = edat e"
    "\<And>e'. dat_file (us @ e' # vs) = dat_file us @ (edata e' @ [NEWLINE]) @ dat_file vs" using dat_split [OF lay assms(2)] by metis
  have e: "entry_ok e" by (rule layoutD(1) [OF lay assms(2)])
  let ?bs = "edata e @ [NEWLINE]"
  have "read_bytes ((datfd db)\<lparr>fpos := edat e\<rparr>) (int (length (edata e)) + 1) = (?bs, (datfd db)\<lparr>fpos := edat e + int (length (edata e)) + 1\<rparr>)"
    using read_bytes_at [of "(datfd db)\<lparr>fpos := edat e\<rparr>" "dat_file us" ?bs "dat_file vs"] assms(1) R by (simp add: holds_def algebra_simps)
  moreover have "c_str (edata e) = edata e" using e by (auto simp: c_str_def entry_ok_def no_null_def takeWhile_eq_all_conv)
  moreover have "0 \<le> edat e" using e by (simp add: entry_ok_def)
  ultimately show ?thesis using assms(3,4)
    by (simp add: db_readdat_def seek_set) (simp add: dbind_def dat_read_def)
qed

section \<open>Writing records\<close>

text \<open>What the functions on fields and records leave alone.\<close>

definition stats :: "db \<Rightarrow> 64 word list \<times> errno" where
  "stats db = ([cnt_delok db, cnt_delerr db, cnt_fetchok db, cnt_fetcherr db, cnt_nextrec db, cnt_stor1 db, cnt_stor2 db,
     cnt_stor3 db, cnt_stor4 db, cnt_storerr db], errno db)"

definition fixed :: "db \<Rightarrow> 64 word \<times> int \<times> int \<times> (lock \<times> lock_kind) list \<times> (64 word list \<times> errno)" where
  "fixed db = (nhash db, hashoff db, chainoff db, locks db, stats db)"

lemma fixed_loaded [simp]: "fixed (loaded P e db) = fixed db"
  by (simp add: fixed_def stats_def loaded_def)

lemma contents_loaded [simp]: "contents (idxfd (loaded P e db)) = contents (idxfd db)" "datfd (loaded P e db) = datfd db"
  by (simp_all add: loaded_def)

lemma holds_loaded [simp]: "holds (loaded P e db) P' R = holds db P' R"
  by (simp add: holds_def)

definition set_data :: "int \<Rightarrow> string \<Rightarrow> entry list \<Rightarrow> entry list" where
  "set_data a d R = map (\<lambda>e. if epos e = a then e\<lparr>edata := d\<rparr> else e) R"

definition set_key :: "int \<Rightarrow> string \<Rightarrow> entry list \<Rightarrow> entry list" where
  "set_key a k R = map (\<lambda>e. if epos e = a then e\<lparr>ekey := k\<rparr> else e) R"

lemma placed_map:
  assumes "\<And>e. e \<in> set R \<Longrightarrow> epos (f e) = epos e \<and> edat (f e) = edat e \<and> esize (f e) = esize e \<and> length (edata (f e)) = length (edata e)"
  shows "placed i d (map f R) = placed i d R"
  using assms by (induction R arbitrary: i d) auto

lemma idx_line_same:
  "length d = length (edata e) \<Longrightarrow> idx_line (e\<lparr>edata := d\<rparr>) = idx_line e"
  "length k = length (ekey e) \<Longrightarrow> length (idx_line (e\<lparr>ekey := k\<rparr>)) = length (idx_line e)"
  by (simp_all add: idx_line_def)

lemma map_epos_set [simp]: "map epos (set_data a d R) = map epos R" "map epos (set_key a k R) = map epos R"
  by (auto simp: set_data_def set_key_def)

lemma epos_set [simp]: "epos ` set (set_data a d R) = epos ` set R" "epos ` set (set_key a k R) = epos ` set R"
  by (metis map_epos_set(1) list.set_map, metis map_epos_set(2) list.set_map)

lemma slots_set [simp]: "slots (set_data a d R) = slots R" "slots (set_key a k R) = slots R"
  by (simp_all add: slots_def)

lemma layout_set_data:
  assumes "layout P R" "e \<in> set R" "length d = length (edata e)" "no_null d"
  shows "layout P (set_data (epos e) d R)" "idx_file P (set_data (epos e) d R) = idx_file P R"
proof -
  have pl: "placed first_record 0 R" using assms(1) by (simp add: layout_def)
  have u: "x = e" if "x \<in> set R" "epos x = epos e" for x using epos_eq [OF pl that(1) assms(2) that(2)] .
  let ?f = "\<lambda>x. if epos x = epos e then x\<lparr>edata := d\<rparr> else x"
  have l: "idx_line (?f x) = idx_line x" if "x \<in> set R" for x using u [OF that] idx_line_same(1) [OF assms(3)] by auto
  have "placed first_record 0 (map ?f R) = placed first_record 0 R"
    by (rule placed_map) (use u l assms(3) in \<open>auto simp: esize_def split: if_splits\<close>)
  moreover have "entry_ok (?f x)" if "x \<in> set R" for x
    using l [OF that] u [OF that] that assms by (auto simp: layout_def entry_ok_def split: if_splits)
  then have "\<forall>y \<in> set (set_data (epos e) d R). entry_ok y" unfolding set_data_def set_map by blast
  ultimately show "layout P (set_data (epos e) d R)"
    using assms(1) pl slots_set(1) [of "epos e" d R] unfolding layout_def by (simp add: set_data_def)
  have "idx_record P (?f x) = idx_record P x" if "x \<in> set R" for x using l [OF that] by (simp add: idx_record_def)
  then show "idx_file P (set_data (epos e) d R) = idx_file P R" by (auto simp: idx_file_def set_data_def intro!: arg_cong [of _ _ concat])
qed

lemma layout_set_key:
  assumes "layout P R" "e \<in> set R" "length k = length (ekey e)" "no_null k" "SEP \<notin> set k"
  shows "layout P (set_key (epos e) k R)" "dat_file (set_key (epos e) k R) = dat_file R"
proof -
  have pl: "placed first_record 0 R" using assms(1) by (simp add: layout_def)
  have u: "x = e" if "x \<in> set R" "epos x = epos e" for x using epos_eq [OF pl that(1) assms(2) that(2)] .
  let ?f = "\<lambda>x. if epos x = epos e then x\<lparr>ekey := k\<rparr> else x"
  have l: "length (idx_line (?f x)) = length (idx_line x)" if "x \<in> set R" for x using u [OF that] idx_line_same(2) [OF assms(3)] by auto
  have "placed first_record 0 (map ?f R) = placed first_record 0 R"
    by (rule placed_map) (use u l in \<open>auto simp: esize_def split: if_splits\<close>)
  moreover have "entry_ok (?f x)" if "x \<in> set R" for x
    using l [OF that] u [OF that] that assms by (auto simp: layout_def entry_ok_def split: if_splits)
  then have "\<forall>y \<in> set (set_key (epos e) k R). entry_ok y" unfolding set_key_def set_map by blast
  ultimately show "layout P (set_key (epos e) k R)"
    using assms(1) pl slots_set(2) [of "epos e" k R] unfolding layout_def by (simp add: set_key_def)
  show "dat_file (set_key (epos e) k R) = dat_file R" by (auto simp: dat_file_def set_key_def intro!: arg_cong [of _ _ concat])
qed

lemma map_update_split:
  assumes "R = us @ e # vs" "\<And>x. x \<in> set us \<union> set vs \<Longrightarrow> epos x \<noteq> epos e"
  shows "set_data (epos e) d R = us @ e\<lparr>edata := d\<rparr> # vs" "set_key (epos e) k R = us @ e\<lparr>ekey := k\<rparr> # vs"
  using assms by (auto simp: set_data_def set_key_def map_idI)

lemma db_writedat_at:
  assumes "holds db P R" "e \<in> set R" "length data = length (edata e)"
  shows "db_writedat data (edat e) SEEK_SET db = Some (Inr (),
    db\<lparr>datfd := \<lparr>contents = dat_file (set_data (epos e) data R), fpos = edat e + int (length data) + 1\<rparr>,
      datoff := edat e, datlen := int (length data) + 1\<rparr>)"
proof -
  have lay: "layout P R" using assms(1) by (simp add: holds_def)
  obtain us vs where R: "R = us @ e # vs" "int (length (dat_file us)) = edat e"
    "\<And>e'. dat_file (us @ e' # vs) = dat_file us @ (edata e' @ [NEWLINE]) @ dat_file vs"
    "\<And>x. x \<in> set us \<union> set vs \<Longrightarrow> epos x \<noteq> epos e" using dat_split [OF lay assms(2)] by metis
  have "write_bytes ((datfd db)\<lparr>fpos := edat e\<rparr>) (data @ [NEWLINE]) =
      \<lparr>contents = dat_file (set_data (epos e) data R), fpos = edat e + int (length data) + 1\<rparr>"
    using write_bytes_at [of "(datfd db)\<lparr>fpos := edat e\<rparr>" "dat_file us" "edata e @ [NEWLINE]" "dat_file vs" "data @ [NEWLINE]"]
      assms(1,3) R(1-3) map_update_split(1) [OF R(1,4), of data] by (simp add: holds_def)
  moreover have "0 \<le> edat e" using layoutD(1) [OF lay assms(2)] by (simp add: entry_ok_def)
  ultimately show ?thesis by (simp add: db_writedat_def seek_set dat_write_def)
qed

lemma db_writeidx_at:
  assumes "holds db P R" "e \<in> set R" "length key = length (ekey e)"
    "datoff db = edat e" "datlen db = int (length (edata e)) + 1" "0 \<le> v" "v \<le> PTR_MAX"
  shows "\<exists>p b. db_writeidx key (epos e) SEEK_SET v db = Some (Inr (),
    db\<lparr>idxfd := \<lparr>contents = idx_file (P(epos e := v)) (set_key (epos e) key R), fpos = p\<rparr>,
      ptrval := v, idxbuf := b, idxoff := epos e\<rparr>)"
proof -
  have lay: "layout P R" using assms(1) by (simp add: holds_def)
  obtain us vs A C where R: "R = us @ e # vs" "idx_file P R = A @ idx_record P e @ C" "int (length A) = epos e"
    "\<And>v e'. epos e' = epos e \<Longrightarrow> idx_file (P(epos e := v)) (us @ e' # vs) = A @ idx_record (P(epos e := v)) e' @ C"
    "\<And>x. x \<in> set us \<union> set vs \<Longrightarrow> epos x \<noteq> epos e" using record_split [OF lay assms(2)] by metis
  note e = layoutD [OF lay assms(2)]
  let ?line = "key @ SEP # print_int (datoff db) @ SEP # print_int (datlen db) @ [NEWLINE]"
  let ?n = "int (length ?line)"
  have line: "?line = idx_line (e\<lparr>ekey := key\<rparr>)" using assms(4,5) by (simp add: idx_line_def)
  have n: "IDXLEN_MIN \<le> ?n" "?n \<le> IDXLEN_MAX" "0 \<le> ?n" using e(1) idx_line_same(2) [OF assms(3)] unfolding line by (simp_all add: entry_ok_def)
  let ?bs = "pad PTR_SZ v @ pad IDXLEN_SZ ?n @ ?line"
  have bs: "?bs = idx_record (P(epos e := v)) (e\<lparr>ekey := key\<rparr>)" unfolding line by (simp add: idx_record_def)
  have ll: "length ?line = length (idx_line e)" unfolding line by (rule idx_line_same(2) [OF assms(3)])
  have "length (idx_record P e) = length ?bs" using assms(6,7) e n ll by (simp add: idx_record_def)
  then have l: "length (idx_record P e) = length (idx_record (P(epos e := v)) (e\<lparr>ekey := key\<rparr>))" unfolding bs .
  have w: "write_bytes ((idxfd db)\<lparr>fpos := epos e\<rparr>) ?bs =
      \<lparr>contents = idx_file (P(epos e := v)) (set_key (epos e) key R), fpos = epos e + int (length ?bs)\<rparr>"
    unfolding bs
    using write_bytes_at [OF _ _ l, of "(idxfd db)\<lparr>fpos := epos e\<rparr>" A C] assms(1) R(2,3) R(4) [of "e\<lparr>ekey := key\<rparr>" v]
      map_update_split(2) [OF R(1,5), of key] by (simp add: holds_def)
  have "0 \<le> epos e" using e(4) by (simp add: first_record_def)
  then show ?thesis using assms(6,7) n w
    by (intro exI [of _ "epos e + int (length ?bs)"] exI [of _ ?line])
      (simp add: db_writeidx_def seek_set idx_write_def Let_def)
qed

section \<open>Appending records\<close>

definition quiet :: "lock \<Rightarrow> db \<Rightarrow> bool" where "quiet l db \<longleftrightarrow> l \<notin> fst ` set (locks db)"

lemma unlocked: "quiet l db \<Longrightarrow> filter (\<lambda>p. fst p \<noteq> l) (locks db) = locks db"
  by (auto simp: quiet_def filter_id_conv)

definition records_lock :: "db \<Rightarrow> lock" where "records_lock db = (False, (uint (nhash db) + 1) * PTR_SZ + 1, 0)"

definition new_entry :: "db \<Rightarrow> string \<Rightarrow> string \<Rightarrow> entry" where
  "new_entry db key data = \<lparr>epos = int (length (contents (idxfd db))), edat = int (length (contents (datfd db))), ekey = key, edata = data\<rparr>"

lemma seek_end:
  "dbind (idx_lseek 0 SEEK_END msg) f db = f (int (length (contents (idxfd db)))) (db\<lparr>idxfd := (idxfd db)\<lparr>fpos := int (length (contents (idxfd db)))\<rparr>\<rparr>)"
  "dbind (dat_lseek 0 SEEK_END msg) g db = g (int (length (contents (datfd db)))) (db\<lparr>datfd := (datfd db)\<lparr>fpos := int (length (contents (datfd db)))\<rparr>\<rparr>)"
  by (simp_all add: dbind_def idx_lseek_def dat_lseek_def lseek_def)

lemma db_writedat_end:
  assumes "quiet (True, 0, 0) db"
  shows "\<exists>p. db_writedat data 0 SEEK_END db = Some (Inr (), db\<lparr>datfd := \<lparr>contents = contents (datfd db) @ data @ [NEWLINE], fpos = p\<rparr>,
    datoff := int (length (contents (datfd db))), datlen := int (length data) + 1\<rparr>)"
  using unlocked [OF assms]
  by (intro exI [of _ "int (length (contents (datfd db))) + (1 + int (length data))"])
    (simp add: db_writedat_def set_lock_def un_lock_def dat_write_def seek_end write_bytes_end)

lemma db_writeidx_end:
  assumes "quiet (records_lock db) db" "0 \<le> v" "v \<le> PTR_MAX" "e = \<lparr>epos = i, edat = datoff db, ekey = key, edata = data\<rparr>"
    "datlen db = int (length data) + 1" "entry_ok e" "i = int (length (contents (idxfd db)))"
  shows "\<exists>p b. db_writeidx key 0 SEEK_END v db = Some (Inr (),
    db\<lparr>idxfd := \<lparr>contents = contents (idxfd db) @ idx_record ((\<lambda>_. 0)(epos e := v)) e, fpos = p\<rparr>, ptrval := v, idxbuf := b, idxoff := i\<rparr>)"
proof -
  let ?line = "key @ SEP # print_int (datoff db) @ SEP # print_int (datlen db) @ [NEWLINE]"
  have line: "?line = idx_line e" using assms(4,5) by (simp add: idx_line_def)
  have n: "IDXLEN_MIN \<le> int (length ?line)" "int (length ?line) \<le> IDXLEN_MAX" using assms(6) unfolding line by (simp_all add: entry_ok_def)
  let ?bs = "pad PTR_SZ v @ pad IDXLEN_SZ (int (length ?line)) @ ?line"
  have b: "?bs = idx_record ((\<lambda>_. 0)(epos e := v)) e" unfolding line by (simp add: idx_record_def)
  have w: "write_bytes ((idxfd db)\<lparr>fpos := i\<rparr>) ?bs =
      \<lparr>contents = contents (idxfd db) @ idx_record ((\<lambda>_. 0)(epos e := v)) e, fpos = i + int (length ?bs)\<rparr>"
    unfolding b using write_bytes_end [of "(idxfd db)\<lparr>fpos := i\<rparr>"] assms(7) by simp
  have u: "filter (\<lambda>p. fst p \<noteq> (False, (uint (nhash db) + 1) * PTR_SZ + 1, 0)) (locks db) = locks db"
    using unlocked [OF assms(1)] by (simp add: records_lock_def)
  show ?thesis
    using n assms(2,3) u w
    by (intro exI [of _ "i + int (length ?bs)"] exI [of _ ?line])
      (simp add: db_writeidx_def set_lock_def un_lock_def idx_write_def seek_end Let_def flip: assms(7))
qed

lemma layout_append:
  assumes "layout P R" "epos e = int (length (idx_file P R))" "edat e = int (length (dat_file R))" "entry_ok e" "0 \<le> v" "v \<le> PTR_MAX"
  shows "layout (P(epos e := v)) (R @ [e])" "epos e \<notin> slots R"
    "idx_file (P(epos e := v)) (R @ [e]) = idx_file P R @ idx_record ((\<lambda>_. 0)(epos e := v)) e"
    "dat_file (R @ [e]) = dat_file R @ edata e @ [NEWLINE]"
proof -
  have ne: "epos x \<noteq> epos e" if "x \<in> set R" for x using layoutD(5) [OF assms(1) that] assms(2) by simp
  have h: "epos e \<notin> set heads" using heads_below length_idx [OF assms(1)] assms(2) esize_pos
    sum_list_nonneg [of "map esize R"] by (fastforce simp: less_imp_le)
  show s: "epos e \<notin> slots R" using ne h unfolding slots_def by (metis UnE imageE)
  have "placed first_record 0 (R @ [e])"
    using assms(1-3) length_idx [OF assms(1)] length_dat [of R] by (simp add: placed_append layout_def)
  then show "layout (P(epos e := v)) (R @ [e])" using assms s by (auto simp: layout_def slots_def)
  have "header (P(epos e := v)) = header P" using h by (auto simp: header_def intro!: arg_cong [of _ _ concat])
  moreover have "map (idx_record (P(epos e := v))) R = map (idx_record P) R" using ne by (auto simp: idx_record_def)
  moreover have "idx_record (P(epos e := v)) e = idx_record ((\<lambda>_. 0)(epos e := v)) e" by (simp add: idx_record_def)
  ultimately show "idx_file (P(epos e := v)) (R @ [e]) = idx_file P R @ idx_record ((\<lambda>_. 0)(epos e := v)) e"
    by (simp only: idx_file_def map_append list.map concat_append concat.simps append_assoc append_Nil2)
  show "dat_file (R @ [e]) = dat_file R @ edata e @ [NEWLINE]" by (simp add: dat_file_def)
qed

lemma store_append_at:
  assumes "holds db P R" "e = new_entry db key data" "entry_ok e" "chainoff db \<in> slots R" "0 \<le> v" "v \<le> PTR_MAX"
    "epos e \<le> PTR_MAX" "quiet (True, 0, 0) db" "quiet (records_lock db) db"
  shows "\<exists>db'. store_append key data v db = Some (Inr (), db') \<and> holds db' (P(epos e := v, chainoff db := epos e)) (R @ [e]) \<and>
    epos e \<notin> slots R \<and> fixed db' = fixed db"
proof -
  have lay: "layout P R" and f: "contents (idxfd db) = idx_file P R" "contents (datfd db) = dat_file R" using assms(1) by (simp_all add: holds_def)
  have e: "epos e = int (length (idx_file P R))" "edat e = int (length (dat_file R))" "edata e = data" "ekey e = key"
    using assms(2) f by (simp_all add: new_entry_def)
  note l = layout_append [OF lay e(1,2) assms(3,5,6)]
  obtain p where w: "db_writedat data 0 SEEK_END db = Some (Inr (), db\<lparr>datfd := \<lparr>contents = contents (datfd db) @ data @ [NEWLINE], fpos = p\<rparr>,
    datoff := int (length (contents (datfd db))), datlen := int (length data) + 1\<rparr>)" (is "_ = Some (Inr (), ?d1)")
    using db_writedat_end [OF assms(8), of data] by auto
  have q: "quiet (records_lock ?d1) ?d1" using assms(9) by (simp add: quiet_def records_lock_def)
  have e1: "e = \<lparr>epos = epos e, edat = datoff ?d1, ekey = key, edata = data\<rparr>" using e f by simp
  obtain p' b where x: "db_writeidx key 0 SEEK_END v ?d1 = Some (Inr (),
      ?d1\<lparr>idxfd := \<lparr>contents = contents (idxfd ?d1) @ idx_record ((\<lambda>_. 0)(epos e := v)) e, fpos = p'\<rparr>, ptrval := v, idxbuf := b, idxoff := epos e\<rparr>)"
    (is "_ = Some (Inr (), ?d2)")
    using db_writeidx_end [OF q assms(5,6) e1 _ assms(3)] e f by auto
  have c2: "contents (idxfd ?d2) = idx_file (P(epos e := v)) (R @ [e])" using f l(3) by simp
  have s: "chainoff db \<in> slots (R @ [e])" using assms(4) by (auto simp: slots_def)
  have p0: "0 \<le> epos e" using e(1) by simp
  note y = db_writeptr_at [OF l(1) c2 s p0 assms(7)]
  let ?d3 = "?d2\<lparr>idxfd := \<lparr>contents = idx_file (P(epos e := v, chainoff db := epos e)) (R @ [e]), fpos = chainoff db + 7\<rparr>\<rparr>"
  have "store_append key data v db = Some (Inr (), ?d3)"
    using y by (simp add: store_append_def dbind_Some [of "db_writedat data 0 SEEK_END", OF w] dbind_Some [of "db_writeidx key 0 SEEK_END v", OF x])
  moreover have "holds ?d3 (P(epos e := v, chainoff db := epos e)) (R @ [e])"
    using layout_fun_upd [OF l(1) p0 assms(7)] l(4) e f by (simp add: holds_def)
  moreover have "fixed ?d3 = fixed db" by (simp add: fixed_def stats_def)
  ultimately show ?thesis using l(2) by blast
qed

end
