(* ===== verification/DbChains.thy ===== *)
theory DbChains
  imports DbLayout
begin

text \<open>
  The lists in the index file: the list of deleted records from offset 0 and the hash chains from the slots
  of the hash table. \<open>C s\<close> are the places of the records on the list that begins at slot \<open>s\<close>.
  Every record is on exactly one list. Then the searches along the lists of \<^verbatim>\<open>db.c\<close>.
\<close>

section \<open>Linked lists of pointer fields\<close>

fun path :: "(int \<Rightarrow> int) \<Rightarrow> int \<Rightarrow> int list \<Rightarrow> bool" where
  "path P p [] \<longleftrightarrow> P p = 0"
| "path P p (x # xs) \<longleftrightarrow> P p = x \<and> path P x xs"

lemma path_cong: "P' p' = P p \<Longrightarrow> (\<And>x. x \<in> set xs \<Longrightarrow> P' x = P x) \<Longrightarrow> path P p xs \<Longrightarrow> path P' p' xs"
proof (induction xs arbitrary: p p')
  case (Cons x xs)
  then show ?case using Cons.IH [of x x] by simp
qed simp

lemma path_out: "q \<noteq> p \<Longrightarrow> q \<notin> set xs \<Longrightarrow> path P p xs \<Longrightarrow> path (P(q := v)) p xs"
  by (rule path_cong [of _ p P p]) auto

lemma path_unlink:
  "path P p (ys @ a # zs) \<Longrightarrow> distinct (p # ys @ a # zs) \<Longrightarrow> path (P(last (p # ys) := P a)) p (ys @ zs)"
proof (induction ys arbitrary: p)
  case Nil
  then show ?case by (auto intro: path_cong [of _ p P a zs])
next
  case (Cons y ys)
  have "last (y # ys) \<noteq> p" using Cons.prems(2) by (metis last_in_set list.distinct(1) distinct.simps(2) append_Cons set_append UnCI)
  then show ?case using Cons by simp
qed

lemma path_next: "path P p (ys @ a # zs) \<Longrightarrow> P (last (p # ys)) = a"
  by (induction ys arbitrary: p) auto

definition chains :: "(int \<Rightarrow> int) \<Rightarrow> (int \<Rightarrow> int list) \<Rightarrow> int set \<Rightarrow> bool" where
  "chains P C A \<longleftrightarrow> (\<forall>s \<in> set heads. path P s (C s) \<and> distinct (C s)) \<and>
    (\<forall>s \<in> set heads. \<forall>t \<in> set heads. s \<noteq> t \<longrightarrow> set (C s) \<inter> set (C t) = {}) \<and> (\<Union>s \<in> set heads. set (C s)) = A"

lemma chainsD:
  assumes "chains P C A" "s \<in> set heads"
  shows "path P s (C s)" "distinct (C s)" "set (C s) \<subseteq> A" "t \<in> set heads \<Longrightarrow> s \<noteq> t \<Longrightarrow> x \<in> set (C s) \<Longrightarrow> x \<notin> set (C t)"
  using assms unfolding chains_def by blast+

lemma chains_unlink:
  assumes "chains P C A" "s \<in> set heads" "C s = ys @ a # zs" "A \<inter> set heads = {}"
  shows "chains (P(last (s # ys) := P a)) (C(s := ys @ zs)) (A - {a})"
proof -
  let ?q = "last (s # ys)" and ?C = "C(s := ys @ zs)"
  note c = chainsD [OF assms(1)]
  have d: "distinct (s # ys @ a # zs)" using c(2,3) [OF assms(2)] assms(2-4) by auto
  have q: "?q = s \<or> ?q \<in> set (C s)" using assms(3) by auto
  have "path (P(?q := P a)) t (?C t) \<and> distinct (?C t)" if t: "t \<in> set heads" for t
  proof (cases "t = s")
    case True
    then show ?thesis using path_unlink [of P s ys a zs] d c(1) [OF assms(2)] assms(3) by auto
  next
    case False
    have "?q \<noteq> t \<and> ?q \<notin> set (C t)"
    proof (cases "?q = s")
      case True
      then show ?thesis using \<open>t \<noteq> s\<close> c(3) [OF t] assms(2,4) by auto
    next
      case False
      then have i: "?q \<in> set (C s)" using q by simp
      then have "?q \<in> A" using c(3) [OF assms(2)] by blast
      then show ?thesis using c(4) [OF assms(2) t _ i] \<open>t \<noteq> s\<close> t assms(4) by blast
    qed
    then have "path (P(?q := P a)) t (C t)" using c(1) [OF t] path_out by blast
    then show ?thesis using False c(2) [OF t] by simp
  qed
  moreover have "set (?C t) \<inter> set (?C u) = {}" if "t \<in> set heads" "u \<in> set heads" "t \<noteq> u" for t u
    using assms(1) that assms(2,3) unfolding chains_def by (cases "t = s"; cases "u = s") fastforce+
  moreover have "(\<Union>t \<in> set heads. set (?C t)) = A - {a}"
  proof -
    have "a \<notin> set (C t)" if "t \<in> set heads" "t \<noteq> s" for t using c(4) [OF assms(2) that(1)] that(2) assms(3) by auto
    moreover have "A = (\<Union>t \<in> set heads. set (C t))" using assms(1) by (simp add: chains_def)
    moreover have "set (ys @ zs) = set (C s) - {a}" using d assms(3) by auto
    ultimately show ?thesis using assms(2) by (auto split: if_splits) 
  qed
  ultimately show ?thesis unfolding chains_def by blast
qed

lemma chains_link:
  assumes "chains P C A" "s \<in> set heads" "a \<notin> A" "a \<notin> set heads" "A \<inter> set heads = {}"
  shows "chains (P(a := P s, s := a)) (C(s := a # C s)) (insert a A)"
proof -
  let ?P = "P(a := P s, s := a)" and ?C = "C(s := a # C s)"
  note c = chainsD [OF assms(1)]
  have as: "a \<noteq> s" using assms by blast
  have out: "x \<noteq> a \<and> x \<noteq> s" if "t \<in> set heads" "x \<in> set (C t)" for x t using c(3) [OF that(1)] that assms by blast
  have "path ?P t (?C t) \<and> distinct (?C t)" if t: "t \<in> set heads" for t
  proof (cases "t = s")
    case True
    have "path ?P a (C s)" using c(1) [OF assms(2)] out [OF assms(2)] as by (intro path_cong [of ?P a P s "C s"]) auto
    then show ?thesis using True c(2) [OF assms(2)] out [OF assms(2)] by auto
  next
    case False
    have "t \<noteq> a" using t assms(4) by blast
    then show ?thesis using False c(1,2) [OF t] out [OF t] by (auto intro!: path_cong [of ?P t P t "C t"])
  qed
  moreover have "set (?C t) \<inter> set (?C u) = {}" if "t \<in> set heads" "u \<in> set heads" "t \<noteq> u" for t u
    using c(4) [OF that] out [OF that(1), of a] out [OF that(2), of a] that(3) by auto
  moreover have "(\<Union>t \<in> set heads. set (?C t)) = insert a A"
    using assms(1,2) by (auto simp: chains_def split: if_splits)
  ultimately show ?thesis unfolding chains_def by blast
qed

section \<open>Searching along a list\<close>

text \<open>Reading leaves both files and the statistics.\<close>

definition same :: "db \<Rightarrow> db \<Rightarrow> bool" where
  "same db db' \<longleftrightarrow> contents (idxfd db') = contents (idxfd db) \<and> contents (datfd db') = contents (datfd db) \<and> fixed db' = fixed db"

definition current :: "(int \<Rightarrow> int) \<Rightarrow> entry \<Rightarrow> db \<Rightarrow> bool" where
  "current P e db \<longleftrightarrow> idxbuf db = ekey e \<and> idxoff db = epos e \<and> datoff db = edat e \<and>
    datlen db = int (length (edata e)) + 1 \<and> ptrval db = P (epos e)"

lemma same_db_refl [simp]: "same db db"
  by (simp add: same_def)

lemma same_trans: "same db db' \<Longrightarrow> same db' db'' \<Longrightarrow> same db db''"
  by (simp add: same_def)

lemma same_holds: "same db db' \<Longrightarrow> holds db' P R = holds db P R"
  by (simp add: same_def holds_def)

lemma same_loaded [simp]: "same db (loaded P e db)" "same db (loaded P e db\<lparr>ptroff := q\<rparr>)"
  by (simp_all add: same_def fixed_def stats_def loaded_def)

lemma current_loaded [simp]: "current P e (loaded P e db)"
  by (simp add: current_def loaded_def)

lemma find_loop_end: "db_find_loop key 0 db = Some (Inr 0, db)"
  by (subst db_find_loop.simps) simp

lemma find_loop_step:
  assumes "holds db P R" "e \<in> set R"
  shows "db_find_loop key (epos e) db = (if ekey e = key then Some (Inr (epos e), loaded P e db)
    else db_find_loop key (P (epos e)) (loaded P e db\<lparr>ptroff := epos e\<rparr>))"
proof -
  have "layout P R" "contents (idxfd db) = idx_file P R" using assms(1) by (simp_all add: holds_def)
  note r = db_readidx_at [OF this assms(2)]
  have "epos e \<noteq> 0" using layoutD(4) [OF \<open>layout P R\<close> assms(2)] by (simp add: first_record_def)
  moreover have "idxbuf (loaded P e db) = ekey e" by (simp add: loaded_def)
  ultimately show ?thesis by (subst db_find_loop.simps) (simp add: dbind_Some [of "db_readidx (epos e)", OF r])
qed

lemma find_loop_absent:
  assumes "holds db P R" "path P p (map epos es)" "set es \<subseteq> set R" "key \<notin> ekey ` set es"
  shows "\<exists>db'. db_find_loop key (P p) db = Some (Inr 0, db') \<and> same db db'"
  using assms
proof (induction es arbitrary: p db)
  case Nil
  then show ?case by (auto simp: find_loop_end intro: same_db_refl)
next
  case (Cons e es)
  let ?db = "loaded P e db\<lparr>ptroff := epos e\<rparr>"
  have p: "P p = epos e" using Cons.prems(2) by simp
  have h: "holds ?db P R" using Cons.prems(1) same_holds [OF same_loaded(2)] by blast
  obtain db' where "db_find_loop key (P (epos e)) ?db = Some (Inr 0, db')" "same ?db db'"
    using Cons.IH [OF h, of "epos e"] Cons.prems by auto
  then show ?case using find_loop_step [OF Cons.prems(1), of e key] Cons.prems(3,4) same_trans [OF same_loaded(2)] unfolding p by auto
qed

lemma find_loop_found:
  assumes "holds db P R" "path P p (map epos (us @ e # vs))" "set (us @ e # vs) \<subseteq> set R" "ekey e \<notin> ekey ` set us" "ptroff db = p"
  shows "\<exists>db'. db_find_loop (ekey e) (P p) db = Some (Inr (epos e), db') \<and> same db db' \<and> current P e db' \<and> ptroff db' = last (p # map epos us)"
  using assms
proof (induction us arbitrary: p db)
  case Nil
  have "ptroff (loaded P e db) = p" using Nil.prems(5) by (simp add: loaded_def)
  then show ?case using find_loop_step [OF Nil.prems(1), of e "ekey e"] Nil.prems by (auto intro: same_loaded(1))
next
  case (Cons x us)
  let ?db = "loaded P x db\<lparr>ptroff := epos x\<rparr>"
  have p: "P p = epos x" using Cons.prems(2) by simp
  have h: "holds ?db P R" using Cons.prems(1) same_holds [OF same_loaded(2)] by blast
  obtain db' where db': "db_find_loop (ekey e) (P (epos x)) ?db = Some (Inr (epos e), db')" "same ?db db'" "current P e db'"
      "ptroff db' = last (epos x # map epos us)"
    using Cons.IH [OF h, of "epos x"] Cons.prems by auto
  have "x \<in> set R" "ekey x \<noteq> ekey e" using Cons.prems(3,4) by auto
  then show ?case using find_loop_step [OF Cons.prems(1), of x "ekey e"] db' same_trans [OF same_loaded(2) db'(2)] unfolding p by auto
qed

lemma findfree_end: "findfree_loop k d q 0 db = Some (Inr (q, 0), db)"
  by (subst findfree_loop.simps) simp

lemma findfree_step:
  assumes "holds db P R" "e \<in> set R"
  shows "findfree_loop k d q (epos e) db =
    (if int (length (ekey e)) = k \<and> int (length (edata e)) + 1 = d then Some (Inr (q, epos e), loaded P e db)
     else findfree_loop k d (epos e) (P (epos e)) (loaded P e db))"
proof -
  have "layout P R" "contents (idxfd db) = idx_file P R" using assms(1) by (simp_all add: holds_def)
  note r = db_readidx_at [OF this assms(2)]
  have "epos e \<noteq> 0" using layoutD(4) [OF \<open>layout P R\<close> assms(2)] by (simp add: first_record_def)
  moreover have "idxbuf (loaded P e db) = ekey e" "datlen (loaded P e db) = int (length (edata e)) + 1" by (simp_all add: loaded_def)
  ultimately show ?thesis by (subst findfree_loop.simps) (simp add: dbind_Some [of "db_readidx (epos e)", OF r])
qed

text \<open>The search for a deleted record of the right sizes: none, or the first one.\<close>

lemma findfree_result:
  assumes "holds db P R" "path P p (map epos es)" "set es \<subseteq> set R"
  shows "(\<exists>q db'. findfree_loop k d p (P p) db = Some (Inr (q, 0), db') \<and> same db db') \<or>
    (\<exists>us e vs db'. es = us @ e # vs \<and> findfree_loop k d p (P p) db = Some (Inr (last (p # map epos us), epos e), db') \<and>
      same db db' \<and> current P e db' \<and> int (length (ekey e)) = k \<and> int (length (edata e)) + 1 = d)"
  using assms
proof (induction es arbitrary: p db)
  case Nil
  then show ?case by (auto simp: findfree_end intro: same_db_refl)
next
  case (Cons e es)
  let ?db = "loaded P e db"
  have p: "P p = epos e" using Cons.prems(2) by simp
  have e: "e \<in> set R" using Cons.prems(3) by simp
  note st = findfree_step [OF Cons.prems(1) e, of k d p]
  show ?case
  proof (cases "int (length (ekey e)) = k \<and> int (length (edata e)) + 1 = d")
    case True
    then have "findfree_loop k d p (P p) db = Some (Inr (last (p # map epos []), epos e), ?db)" using st p by simp
    then show ?thesis using True same_loaded(1) current_loaded append_Nil by blast
  next
    case False
    have s: "findfree_loop k d p (P p) db = findfree_loop k d (epos e) (P (epos e)) ?db"
      using st unfolding p if_not_P [OF False] .
    have "holds ?db P R" "path P (epos e) (map epos es)" "set es \<subseteq> set R" using Cons.prems by auto
    from Cons.IH [OF this] consider (no) q db' where "findfree_loop k d (epos e) (P (epos e)) ?db = Some (Inr (q, 0), db')" "same ?db db'"
      | (yes) us x vs db' where "es = us @ x # vs" "findfree_loop k d (epos e) (P (epos e)) ?db = Some (Inr (last (epos e # map epos us), epos x), db')"
        "same ?db db'" "current P x db'" "int (length (ekey x)) = k" "int (length (edata x)) + 1 = d" by blast
    then show ?thesis
    proof cases
      case no
      then show ?thesis unfolding s using same_trans [OF same_loaded(1)] by blast
    next
      case yes
      have "e # es = (e # us) @ x # vs" "last (epos e # map epos us) = last (p # map epos (e # us))" using yes(1) by simp_all
      then show ?thesis unfolding s using yes same_trans [OF same_loaded(1)] by metis
    qed
  qed
qed

end
