(* ===== verification/DbMap.thy ===== *)
theory DbMap
  imports DbChains
begin

text \<open>
  What the database of \<^verbatim>\<open>db.c\<close> promises: an open database stands for a finite map from keys
  to data, and \<open>db_fetch\<close>, \<open>db_store\<close> and \<open>db_delete\<close> act on that map.
\<close>

section \<open>Tidy files\<close>

definition slot_of :: "string \<Rightarrow> int" where
  "slot_of key = uint (db_hash NHASH_DEF key) * PTR_SZ + HASH_OFF"

definition blank :: "string \<Rightarrow> bool" where "blank s \<longleftrightarrow> list_all (\<lambda>c. c = SPACE) s"

definition valid_key :: "string \<Rightarrow> bool" where
  "valid_key k \<longleftrightarrow> no_null k \<and> SEP \<notin> set k \<and> \<not> blank k \<and> length k \<le> 1000"

definition valid_data :: "string \<Rightarrow> bool" where
  "valid_data d \<longleftrightarrow> no_null d \<and> 0 < length d \<and> int (length d) < DATLEN_MAX"

text \<open>The records that are not on the list of deleted records.\<close>

definition live :: "(int \<Rightarrow> int list) \<Rightarrow> entry \<Rightarrow> bool" where "live C e \<longleftrightarrow> epos e \<notin> set (C FREE_OFF)"

definition tidy :: "entry set \<Rightarrow> (int \<Rightarrow> int list) \<Rightarrow> bool" where
  "tidy E C \<longleftrightarrow> (\<forall>e \<in> E. if live C e then valid_key (ekey e) \<and> epos e \<in> set (C (slot_of (ekey e))) else blank (ekey e)) \<and>
    (\<forall>e \<in> E. \<forall>e' \<in> E. live C e \<and> live C e' \<and> ekey e = ekey e' \<longrightarrow> e = e')"

definition stands :: "entry set \<Rightarrow> (int \<Rightarrow> int list) \<Rightarrow> (string \<rightharpoonup> string) \<Rightarrow> bool" where
  "stands E C m \<longleftrightarrow> (\<forall>k d. m k = Some d \<longleftrightarrow> (\<exists>e \<in> E. live C e \<and> ekey e = k \<and> edata e = d))"

definition db_inv :: "db \<Rightarrow> (int \<Rightarrow> int) \<Rightarrow> entry list \<Rightarrow> (int \<Rightarrow> int list) \<Rightarrow> bool" where
  "db_inv db P R C \<longleftrightarrow> holds db P R \<and> chains P C (epos ` set R) \<and> tidy (set R) C \<and> nhash db = NHASH_DEF \<and> hashoff db = HASH_OFF"

text \<open>The abstraction: the database stands for the map \<open>m\<close>, and no lock is held.\<close>

definition represents :: "db \<Rightarrow> (string \<rightharpoonup> string) \<Rightarrow> bool" where
  "represents db m \<longleftrightarrow> (\<exists>P R C. db_inv db P R C \<and> stands (set R) C m) \<and> locks db = []"

lemma slot_of_bounds: "\<exists>c. 1 \<le> c \<and> c \<le> 137 \<and> slot_of key = 7 * c"
proof -
  have "uint (db_hash 137 key) < 137" unfolding db_hash_def uint_mod by simp
  then show ?thesis by (intro exI [of _ "uint (db_hash NHASH_DEF key) + 1"]) (simp add: slot_of_def db_consts algebra_simps)
qed

lemma slot_of_head [simp]: "slot_of key \<in> set heads" "slot_of key \<noteq> 0" "0 \<in> set heads"
  using slot_of_bounds [of key] by (auto simp: heads_eq)

lemma slot_in_slots [simp]: "slot_of key \<in> slots R" "0 \<in> slots R"
  by (simp_all add: slots_def)

lemma tidyD:
  assumes "tidy E C" "e \<in> E"
  shows "live C e \<Longrightarrow> valid_key (ekey e)" "live C e \<Longrightarrow> epos e \<in> set (C (slot_of (ekey e)))" "\<not> live C e \<Longrightarrow> blank (ekey e)"
    "e' \<in> E \<Longrightarrow> live C e \<Longrightarrow> live C e' \<Longrightarrow> ekey e = ekey e' \<Longrightarrow> e = e'"
  using assms unfolding tidy_def by metis+

text \<open>The four changes of the records: deletion, an update of the data, and a new record in the place of a
  deleted one or at the end.\<close>

lemma tidy_delete:
  assumes "tidy E C" "stands E C m" "inj_on epos E" "e \<in> E" "live C e" "C (slot_of (ekey e)) = us @ epos e # vs"
    "epos e' = epos e" "blank (ekey e')" "C' = C(slot_of (ekey e) := us @ vs, 0 := epos e # C 0)"
  shows "tidy (insert e' (E - {e})) C'" "stands (insert e' (E - {e})) C' (m(ekey e := None))"
proof -
  have ne: "epos x \<noteq> epos e" if "x \<in> E - {e}" for x using inj_onD [OF assms(3), of x e] that assms(4) by blast
  have l: "live C' x \<longleftrightarrow> live C x" if "x \<in> E - {e}" for x using ne [OF that] by (simp add: live_def assms(9) FREE_OFF_def)
  have l': "\<not> live C' e'" by (simp add: live_def assms(7,9) FREE_OFF_def)
  have s: "epos x \<in> set (C' (slot_of k))" if "x \<in> E - {e}" "epos x \<in> set (C (slot_of k))" for x k
    using ne [OF that(1)] that(2) assms(6) by (auto simp: assms(9))
  show "tidy (insert e' (E - {e})) C'"
    unfolding tidy_def
  proof (intro conjI ballI impI)
    fix x assume x: "x \<in> insert e' (E - {e})"
    show "if live C' x then valid_key (ekey x) \<and> epos x \<in> set (C' (slot_of (ekey x))) else blank (ekey x)"
      using x l l' s tidyD(1-3) [OF assms(1), of x] assms(8) by auto
  next
    fix x y assume "x \<in> insert e' (E - {e})" "y \<in> insert e' (E - {e})" "live C' x \<and> live C' y \<and> ekey x = ekey y"
    then show "x = y" using l l' tidyD(4) [OF assms(1), of x y] by auto
  qed
  have "ekey x \<noteq> ekey e" if "x \<in> E - {e}" "live C x" for x using tidyD(4) [OF assms(1), of x e] that assms(4,5) by blast
  then show "stands (insert e' (E - {e})) C' (m(ekey e := None))"
    using assms(2) l l' unfolding stands_def by (auto; blast)
qed

lemma tidy_update:
  assumes "tidy E C" "stands E C m" "e \<in> E" "live C e" "epos e' = epos e" "ekey e' = ekey e"
  shows "tidy (insert e' (E - {e})) C" "stands (insert e' (E - {e})) C (m(ekey e := Some (edata e')))"
proof -
  have l: "live C e'" using assms(4,5) by (simp add: live_def)
  have k: "ekey x \<noteq> ekey e" if "x \<in> E - {e}" "live C x" for x using tidyD(4) [OF assms(1), of x e] that assms(3,4) by blast
  show "tidy (insert e' (E - {e})) C"
    unfolding tidy_def
  proof (intro conjI ballI impI)
    fix x assume x: "x \<in> insert e' (E - {e})"
    show "if live C x then valid_key (ekey x) \<and> epos x \<in> set (C (slot_of (ekey x))) else blank (ekey x)"
      using x tidyD(1-3) [OF assms(1), of x] tidyD(1,2) [OF assms(1,3,4)] l assms(5,6) by auto
  next
    fix x y assume "x \<in> insert e' (E - {e})" "y \<in> insert e' (E - {e})" "live C x \<and> live C y \<and> ekey x = ekey y"
    then show "x = y" using k tidyD(4) [OF assms(1), of x y] assms(6) by auto
  qed
  show "stands (insert e' (E - {e})) C (m(ekey e := Some (edata e')))"
    using assms(2,6) k l unfolding stands_def by (auto; blast)
qed

lemma tidy_new:
  assumes "tidy E C" "stands E C m" "m (ekey e) = None" "valid_key (ekey e)" "\<And>x. x \<in> E \<Longrightarrow> epos x \<noteq> epos e"
    "C' = C(0 := F, slot_of (ekey e) := epos e # C (slot_of (ekey e)))" "epos e \<notin> set F" "set F = set (C 0) - {epos e}"
  shows "tidy (insert e E) C'" "stands (insert e E) C' (m(ekey e := Some (edata e)))"
proof -
  have l: "live C' x \<longleftrightarrow> live C x" if "x \<in> E" for x using assms(5) [OF that] assms(8) by (simp add: live_def assms(6) FREE_OFF_def)
  have le: "live C' e" using assms(7) by (simp add: live_def assms(6) FREE_OFF_def)
  have k: "ekey x \<noteq> ekey e" if "x \<in> E" "live C x" for x using assms(2,3) that unfolding stands_def by (metis option.distinct(1))
  have s: "set (C (slot_of i)) \<subseteq> set (C' (slot_of i))" for i by (auto simp: assms(6))
  show "tidy (insert e E) C'"
    unfolding tidy_def
  proof (intro conjI ballI impI)
    fix x assume x: "x \<in> insert e E"
    have "epos e \<in> set (C' (slot_of (ekey e)))" by (simp add: assms(6))
    then show "if live C' x then valid_key (ekey x) \<and> epos x \<in> set (C' (slot_of (ekey x))) else blank (ekey x)"
      using x l le tidyD(1-3) [OF assms(1), of x] assms(4) s by (cases "x = e") auto
  next
    fix x y assume "x \<in> insert e E" "y \<in> insert e E" "live C' x \<and> live C' y \<and> ekey x = ekey y"
    then show "x = y" using k l tidyD(4) [OF assms(1), of x y] by (metis insertE)
  qed
  show "stands (insert e E) C' (m(ekey e := Some (edata e)))"
    using assms(2) k l le unfolding stands_def by (auto; metis)
qed

lemma tidy_drop:
  assumes "tidy E C" "stands E C m" "e \<in> E" "\<not> live C e"
  shows "tidy (E - {e}) C" "stands (E - {e}) C m"
  using assms unfolding tidy_def stands_def by (blast, metis Diff_iff singletonD)

lemma layout_inj: "layout P R \<Longrightarrow> inj_on epos (set R)"
  using placed_distinct [of first_record 0 R] by (simp add: layout_def distinct_map)

lemma set_updates:
  assumes "layout P R" "e \<in> set R"
  shows "set (set_data (epos e) d R) = insert (e\<lparr>edata := d\<rparr>) (set R - {e})"
    "set (set_key (epos e) k R) = insert (e\<lparr>ekey := k\<rparr>) (set R - {e})"
proof -
  have u: "x = e" if "x \<in> set R" "epos x = epos e" for x using inj_onD [OF layout_inj [OF assms(1)] that(2,1) assms(2)] .
  have "(\<lambda>x. if epos x = epos e then f x else x) ` set R = insert (f e) (set R - {e})" for f :: "entry \<Rightarrow> entry"
  proof -
    have "(\<lambda>x. if epos x = epos e then f x else x) ` set R = (\<lambda>x. if x = e then f e else x) ` set R"
      using u by (intro image_cong) auto
    then show ?thesis using assms(2) by auto
  qed
  then show "set (set_data (epos e) d R) = insert (e\<lparr>edata := d\<rparr>) (set R - {e})"
    "set (set_key (epos e) k R) = insert (e\<lparr>ekey := k\<rparr>) (set R - {e})" by (simp_all add: set_data_def set_key_def)
qed

section \<open>Finding a key\<close>

definition started :: "string \<Rightarrow> lock_kind \<Rightarrow> db \<Rightarrow> db" where
  "started key kind db = db\<lparr>chainoff := slot_of key, ptroff := slot_of key, locks := [((False, slot_of key, 1), kind)]\<rparr>"

lemma started_holds [simp]: "holds (started key kind db) P R = holds db P R"
  by (simp add: holds_def started_def)

lemma entries_of:
  assumes "set xs \<subseteq> epos ` set R"
  obtains es where "xs = map epos es" "set es \<subseteq> set R"
  using assms
proof (induction xs arbitrary: thesis)
  case (Cons x xs)
  obtain es where "xs = map epos es" "set es \<subseteq> set R" using Cons.IH Cons.prems(2) by auto
  moreover obtain e where "e \<in> set R" "x = epos e" using Cons.prems(2) by auto
  ultimately show ?case using Cons.prems(1) [of "e # es"] by simp
qed simp

lemma find_and_lock_start:
  assumes "db_inv db P R C" "locks db = []"
  shows "\<exists>f. db_find_and_lock key w db = dbind (db_find_loop key (P (slot_of key))) (\<lambda>offset. ret (if offset = 0 then -1 else 0))
      (started key (if w then Write_lock else Read_lock) db\<lparr>idxfd := f\<rparr>) \<and> contents f = contents (idxfd db)"
proof -
  let ?s = "started key (if w then Write_lock else Read_lock) db"
  have h: "layout P R" "contents (idxfd ?s) = idx_file P R" using assms(1) by (simp_all add: db_inv_def holds_def started_def)
  have m: "(if w then writew_lock l else readw_lock l) = set_lock (if w then Write_lock else Read_lock) l" for l by simp
  note r = dbind_Some [of "db_readptr (slot_of key)", OF db_readptr_at [OF h slot_in_slots(1)]]
  have sl: "uint (db_hash (nhash db) key) * PTR_SZ + hashoff db = slot_of key" using assms(1) by (simp add: db_inv_def slot_of_def)
  have "db_find_and_lock key w db = dbind (db_readptr (slot_of key)) (\<lambda>offset. dbind (db_find_loop key offset) (\<lambda>offset. ret (if offset = 0 then -1 else 0))) ?s"
    by (simp add: db_find_and_lock_def m set_lock_def sl started_def assms(2))
  then show ?thesis unfolding r by (intro exI conjI, assumption) (simp add: started_def)
qed

lemma find_and_lock_absent:
  assumes "db_inv db P R C" "locks db = []" "stands (set R) C m" "m key = None"
  shows "\<exists>db'. db_find_and_lock key w db = Some (Inr (-1), db') \<and> same (started key (if w then Write_lock else Read_lock) db) db'"
proof -
  let ?s = "started key (if w then Write_lock else Read_lock) db"
  have i: "holds db P R" "chains P C (epos ` set R)" "tidy (set R) C" using assms(1) by (simp_all add: db_inv_def)
  note c = chainsD [OF i(2) slot_of_head(1) [of key]]
  obtain es where es: "C (slot_of key) = map epos es" "set es \<subseteq> set R" using entries_of [OF c(3)] .
  have "key \<notin> ekey ` set es"
  proof
    assume "key \<in> ekey ` set es"
    then obtain e where e: "e \<in> set es" "ekey e = key" by auto
    then have "epos e \<in> set (C (slot_of key))" using es(1) by simp
    then have "live C e" using c(4) [of 0] by (auto simp: live_def FREE_OFF_def)
    then show False using assms(3,4) e es(2) unfolding stands_def by (metis option.distinct(1) subsetD)
  qed
  obtain f where f: "db_find_and_lock key w db = dbind (db_find_loop key (P (slot_of key))) (\<lambda>offset. ret (if offset = 0 then -1 else 0)) (?s\<lparr>idxfd := f\<rparr>)"
    "contents f = contents (idxfd db)" using find_and_lock_start [OF assms(1,2)] by blast
  have sm: "same ?s (?s\<lparr>idxfd := f\<rparr>)" using f(2) by (simp add: same_def fixed_def stats_def started_def)
  have h: "holds (?s\<lparr>idxfd := f\<rparr>) P R" using same_holds [OF sm] i(1) by simp
  obtain db' where "db_find_loop key (P (slot_of key)) (?s\<lparr>idxfd := f\<rparr>) = Some (Inr 0, db')" "same (?s\<lparr>idxfd := f\<rparr>) db'"
    using find_loop_absent [OF h c(1) [unfolded es(1)] es(2) \<open>key \<notin> ekey ` set es\<close>] by blast
  then show ?thesis using f(1) same_trans [OF sm] by (simp add: dbind_Some [of "db_find_loop key (P (slot_of key))"])
qed

lemma find_and_lock_found:
  assumes "db_inv db P R C" "locks db = []" "e \<in> set R" "live C e"
  shows "\<exists>db' us vs. db_find_and_lock (ekey e) w db = Some (Inr 0, db') \<and> same (started (ekey e) (if w then Write_lock else Read_lock) db) db' \<and>
    current P e db' \<and> C (slot_of (ekey e)) = us @ epos e # vs \<and> ptroff db' = last (slot_of (ekey e) # us)"
proof -
  let ?k = "ekey e"
  let ?s = "started ?k (if w then Write_lock else Read_lock) db"
  have i: "holds db P R" "chains P C (epos ` set R)" "tidy (set R) C" using assms(1) by (simp_all add: db_inv_def)
  note c = chainsD [OF i(2) slot_of_head(1) [of ?k]]
  obtain es where es: "C (slot_of ?k) = map epos es" "set es \<subseteq> set R" using entries_of [OF c(3)] .
  have "epos e \<in> epos ` set es" using tidyD(2) [OF i(3) assms(3,4)] es(1) by simp
  moreover have inj: "inj_on epos (set R)" using i(1) by (auto simp: holds_def intro: layout_inj)
  ultimately have "e \<in> set es"
  proof -
    obtain x where x: "x \<in> set es" "epos e = epos x" using \<open>epos e \<in> epos ` set es\<close> by blast
    then show ?thesis using inj_onD [OF inj x(2) assms(3)] es(2) by auto
  qed
  then obtain us vs where ev: "es = us @ e # vs" "e \<notin> set us" by (metis split_list_first)
  have nk: "?k \<notin> ekey ` set us"
  proof
    assume "?k \<in> ekey ` set us"
    then obtain x where x: "x \<in> set us" "ekey x = ?k" by auto
    then have "epos x \<in> set (C (slot_of ?k))" using es(1) ev by simp
    then have "live C x" using c(4) [of 0] by (auto simp: live_def FREE_OFF_def)
    then have "x = e" using tidyD(4) [OF i(3), of x e] x assms(3,4) es(2) ev by auto
    then show False using x ev by simp
  qed
  obtain f where f: "db_find_and_lock ?k w db = dbind (db_find_loop ?k (P (slot_of ?k))) (\<lambda>offset. ret (if offset = 0 then -1 else 0)) (?s\<lparr>idxfd := f\<rparr>)"
    "contents f = contents (idxfd db)" using find_and_lock_start [OF assms(1,2)] by blast
  have sm: "same ?s (?s\<lparr>idxfd := f\<rparr>)" using f(2) by (simp add: same_def fixed_def stats_def started_def)
  have h: "holds (?s\<lparr>idxfd := f\<rparr>) P R" using same_holds [OF sm] i(1) by simp
  have p: "ptroff (?s\<lparr>idxfd := f\<rparr>) = slot_of ?k" by (simp add: started_def)
  obtain db' where db': "db_find_loop ?k (P (slot_of ?k)) (?s\<lparr>idxfd := f\<rparr>) = Some (Inr (epos e), db')" "same (?s\<lparr>idxfd := f\<rparr>) db'"
      "current P e db'" "ptroff db' = last (slot_of ?k # map epos us)"
    using find_loop_found [OF h c(1) [unfolded es(1) ev(1)] _ nk p] es(2) ev(1) by blast
  have "epos e \<noteq> 0" using layoutD(4) [OF _ assms(3)] i(1) by (auto simp: holds_def first_record_def)
  then have "db_find_and_lock ?k w db = Some (Inr 0, db')" using f(1) db'(1) by (simp add: dbind_Some [of "db_find_loop ?k (P (slot_of ?k))"])
  then show ?thesis using db' same_trans [OF sm db'(2)] es(1) ev(1) by (intro exI [of _ db'] exI [of _ "map epos us"] exI [of _ "map epos vs"]) simp
qed

section \<open>Deletion\<close>

definition wiped :: "entry \<Rightarrow> entry list \<Rightarrow> entry list" where
  "wiped e R = set_key (epos e) (map (\<lambda>_. SPACE) (ekey e)) (set_data (epos e) (replicate (length (edata e)) SPACE) R)"

lemma blanks: "no_null (map (\<lambda>_. SPACE) k)" "SEP \<notin> set (map (\<lambda>_. SPACE) k)" "no_null (replicate n SPACE)" "blank (map (\<lambda>_. SPACE) k)"
  using not_digit by (auto simp: no_null_def blank_def list_all_iff)

lemma layout_slot: "layout P R \<Longrightarrow> a \<in> slots R \<Longrightarrow> 0 \<le> P a \<and> P a \<le> PTR_MAX"
  by (simp add: layout_def)

lemma dodelete_at:
  assumes "holds s P R" "e \<in> set R" "current P e s" "ptroff s \<in> slots R" "quiet (False, FREE_OFF, 1) s" "epos e \<le> PTR_MAX"
  shows "\<exists>s'. db_dodelete s = Some (Inr (), s') \<and> fixed s' = fixed s \<and>
    holds s' (P(epos e := P 0, 0 := epos e, ptroff s := P (epos e))) (wiped e R)"
proof -
  let ?K = "map (\<lambda>_. SPACE) (ekey e)" and ?D = "replicate (length (edata e)) SPACE" and ?a = "epos e"
  let ?R1 = "set_data ?a ?D R" and ?e1 = "e\<lparr>edata := ?D\<rparr>"
  let ?P1 = "P(?a := P 0)" and ?P2 = "P(?a := P 0, 0 := ?a)" and ?P3 = "P(?a := P 0, 0 := ?a, ptroff s := P ?a)"
  have lay: "layout P R" using assms(1) by (simp add: holds_def)
  note e = layoutD [OF lay assms(2)]
  have p0: "0 \<le> P 0" "P 0 \<le> PTR_MAX" using layout_slot [OF lay slot_in_slots(2)] by simp_all
  have a0: "0 \<le> ?a" using e(4) by (simp add: first_record_def)
  have len: "length ?D = length (edata e)" by simp
  note l1 = layout_set_data [OF lay assms(2) len blanks(3)]
  have e1: "?e1 \<in> set ?R1" "epos ?e1 = ?a" "ekey ?e1 = ekey e" using set_updates(1) [OF lay assms(2)] by auto
  have cur: "datoff s = edat e" "nat (datlen s - 1) = length (edata e)" "idxbuf s = ekey e" "ptrval s = P ?a" "idxoff s = ?a"
    using assms(3) by (simp_all add: current_def)
  define s1 where "s1 = s\<lparr>datbuf := ?D, idxbuf := ?K, locks := ((False, FREE_OFF, 1), Write_lock) # locks s\<rparr>"
  have h1: "holds s1 P R" using assms(1) by (simp add: holds_def s1_def)
  define s2 where "s2 = s1\<lparr>datfd := \<lparr>contents = dat_file ?R1, fpos = edat e + int (length ?D) + 1\<rparr>, datoff := edat e, datlen := int (length ?D) + 1\<rparr>"
  note w1 = dbind_Some [of "db_writedat ?D (edat e) SEEK_SET", OF db_writedat_at [OF h1 assms(2) len, folded s2_def]]
  have i2: "contents (idxfd s2) = idx_file P ?R1" using assms(1) l1(2) by (simp add: holds_def s1_def s2_def)
  define s3 where "s3 = s2\<lparr>idxfd := (idxfd s2)\<lparr>fpos := 0 + 7\<rparr>\<rparr>"
  note r = dbind_Some [of "db_readptr 0", OF db_readptr_at [OF l1(1) i2 slot_in_slots(2), folded s3_def]]
  have h3: "holds s3 P ?R1" using l1 assms(1) by (simp add: holds_def s1_def s2_def s3_def)
  have k3: "length ?K = length (ekey ?e1)" "datoff s3 = edat ?e1" "datlen s3 = int (length (edata ?e1)) + 1"
    by (simp_all add: s2_def s3_def)
  obtain p b where w2: "db_writeidx ?K ?a SEEK_SET (P 0) s3 = Some (Inr (),
      s3\<lparr>idxfd := \<lparr>contents = idx_file ?P1 (wiped e R), fpos = p\<rparr>, ptrval := P 0, idxbuf := b, idxoff := ?a\<rparr>)" (is "_ = Some (Inr (), ?s4)")
    using db_writeidx_at [OF h3 e1(1) k3 p0] unfolding e1(2) wiped_def by auto
  define s4 where "s4 = ?s4"
  note w2 = dbind_Some [of "db_writeidx ?K ?a SEEK_SET (P 0)", OF w2 [folded s4_def]]
  note l2 = layout_set_key [OF l1(1) e1(1), unfolded e1(2,3), OF _ blanks(1,2) [of "ekey e"]]
  have lw: "layout P (wiped e R)" "dat_file (wiped e R) = dat_file ?R1" using l2 unfolding wiped_def by simp_all
  have sl: "slots (wiped e R) = slots R" by (simp add: wiped_def)
  have l4: "layout ?P1 (wiped e R)" by (rule layout_fun_upd [OF lw(1) p0])
  have l5: "layout ?P2 (wiped e R)" by (rule layout_fun_upd [OF l4 a0 assms(6)])
  have c4: "contents (idxfd s4) = idx_file ?P1 (wiped e R)" by (simp add: s4_def)
  define s5 where "s5 = s4\<lparr>idxfd := \<lparr>contents = idx_file ?P2 (wiped e R), fpos = 0 + 7\<rparr>\<rparr>"
  note w3 = dbind_Some [of "db_writeptr 0 ?a", OF db_writeptr_at [OF l4 c4 slot_in_slots(2) a0 assms(6), folded s5_def]]
  have c5: "contents (idxfd s5) = idx_file ?P2 (wiped e R)" by (simp add: s5_def)
  define s6 where "s6 = s5\<lparr>idxfd := \<lparr>contents = idx_file ?P3 (wiped e R), fpos = ptroff s + 7\<rparr>\<rparr>"
  note w4 = dbind_Some [of "db_writeptr (ptroff s) (P ?a)", OF db_writeptr_at [OF l5 c5 assms(4) [folded sl] e(2,3), folded s6_def]]
  have f: "datbuf s1 = ?D" "datoff s1 = edat e" "ptrval s3 = P ?a" "idxbuf s3 = ?K" "idxoff s3 = ?a" "idxoff s4 = ?a" "ptroff s5 = ptroff s"
    "locks s6 = ((False, FREE_OFF, 1), Write_lock) # locks s"
    by (simp_all add: s1_def s2_def s3_def s4_def s5_def s6_def cur)
  have q: "filter (\<lambda>p. fst p \<noteq> (False, FREE_OFF, 1)) (locks s) = locks s" by (rule unlocked [OF assms(5)])
  let ?s7 = "s6\<lparr>locks := locks s\<rparr>"
  have "db_dodelete s = dbind (get (\<lambda>db. (datbuf db, datoff db))) (\<lambda>(data, off).
    dbind (db_writedat data off SEEK_SET) (\<lambda>_.
    dbind (db_readptr FREE_OFF) (\<lambda>freeptr.
    dbind (get ptrval) (\<lambda>saveptr.
    dbind (get (\<lambda>db. (idxbuf db, idxoff db))) (\<lambda>(key, off).
    dbind (db_writeidx key off SEEK_SET freeptr) (\<lambda>_.
    dbind (get idxoff) (\<lambda>off.
    dbind (db_writeptr FREE_OFF off) (\<lambda>_.
    dbind (get ptroff) (\<lambda>off.
    dbind (db_writeptr off saveptr) (\<lambda>_.
    un_lock (False, FREE_OFF, 1))))))))))) s1"
    by (simp add: db_dodelete_def set_lock_def s1_def cur q)
  also have "\<dots> = un_lock (False, FREE_OFF, 1) s6" by (simp add: f w1 r w2 w3 w4 FREE_OFF_def)
  also have "\<dots> = Some (Inr (), ?s7)" by (simp add: un_lock_def f q)
  finally have "db_dodelete s = Some (Inr (), ?s7)" .
  moreover have "holds ?s7 ?P3 (wiped e R)" using layout_fun_upd [OF l5 e(2,3)] lw(2)
    by (simp add: holds_def s1_def s2_def s3_def s4_def s5_def s6_def)
  moreover have "fixed ?s7 = fixed s" by (simp add: fixed_def stats_def s1_def s2_def s3_def s4_def s5_def s6_def)
  ultimately show ?thesis by blast
qed

text \<open>The size of the index file, which limits what can be stored.\<close>

definition idx_size :: "db \<Rightarrow> int" where "idx_size db = int (length (contents (idxfd db)))"

lemma esize_same:
  assumes "layout P R" "e \<in> set R"
  shows "length d = length (edata e) \<Longrightarrow> map esize (set_data (epos e) d R) = map esize R"
    "length k = length (ekey e) \<Longrightarrow> map esize (set_key (epos e) k R) = map esize R"
proof -
  have u: "x = e" if "x \<in> set R" "epos x = epos e" for x using inj_onD [OF layout_inj [OF assms(1)] that(2,1) assms(2)] .
  show "length d = length (edata e) \<Longrightarrow> map esize (set_data (epos e) d R) = map esize R"
    "length k = length (ekey e) \<Longrightarrow> map esize (set_key (epos e) k R) = map esize R"
    by (auto simp: set_data_def set_key_def esize_def idx_line_same dest: u)
qed

lemma idx_size_holds: "holds db P R \<Longrightarrow> idx_size db = first_record + (\<Sum>e\<leftarrow>R. esize e)"
  using length_idx by (simp add: idx_size_def holds_def)

lemma wiped_facts:
  assumes "layout P R" "e \<in> set R"
  defines "e' \<equiv> e\<lparr>edata := replicate (length (edata e)) SPACE, ekey := map (\<lambda>_. SPACE) (ekey e)\<rparr>"
  shows "set (wiped e R) = insert e' (set R - {e})" "epos e' = epos e" "blank (ekey e')" "map esize (wiped e R) = map esize R"
proof -
  let ?d = "replicate (length (edata e)) SPACE" and ?R1 = "set_data (epos e) (replicate (length (edata e)) SPACE) R"
  have len: "length ?d = length (edata e)" by simp
  note l1 = layout_set_data(1) [OF assms(1,2) len blanks(3)]
  have s1: "set ?R1 = insert (e\<lparr>edata := ?d\<rparr>) (set R - {e})" by (rule set_updates(1) [OF assms(1,2)])
  then have i: "e\<lparr>edata := ?d\<rparr> \<in> set ?R1" by simp
  have ne: "e\<lparr>edata := ?d\<rparr> \<notin> set R - {e}" using inj_onD [OF layout_inj [OF assms(1)], of "e\<lparr>edata := ?d\<rparr>" e] assms(2) by auto
  show "set (wiped e R) = insert e' (set R - {e})"
    using set_updates(2) [OF l1 i, of "map (\<lambda>_. SPACE) (ekey e)"] s1 ne by (simp add: wiped_def e'_def)
  show "epos e' = epos e" "blank (ekey e')" by (simp_all add: e'_def blanks)
  show "map esize (wiped e R) = map esize R"
    using esize_same(2) [OF l1 i, of "map (\<lambda>_. SPACE) (ekey e)"] esize_same(1) [OF assms(1,2) len] by (simp add: wiped_def)
qed

lemma chains_delete:
  assumes "chains P C A" "s \<in> set heads" "s \<noteq> 0" "C s = us @ a # vs" "A \<inter> set heads = {}"
  shows "chains (P(a := P 0, 0 := a, last (s # us) := P a)) (C(s := us @ vs, 0 := a # C 0)) A"
proof -
  let ?q = "last (s # us)"
  note c = chainsD [OF assms(1,2)]
  have aA: "a \<in> A" using c(3) assms(4) by auto
  then have a: "a \<notin> set heads" using assms(5) by blast
  have q: "?q = s \<or> ?q \<in> set us" by auto
  then have "?q \<noteq> 0" using assms(3) c(3) assms(4,5) slot_of_head(3) by auto
  moreover have "?q \<noteq> a" using q a assms(2,4) c(2) by auto
  moreover have "a \<noteq> 0" using a slot_of_head(3) by auto
  ultimately have P: "P(a := P 0, 0 := a, ?q := P a) = (P(?q := P a))(a := (P(?q := P a)) 0, 0 := a)" by (auto simp: fun_eq_iff)
  have C: "C(s := us @ vs, 0 := a # C 0) = (C(s := us @ vs))(0 := a # (C(s := us @ vs)) 0)" using assms(3) by simp
  have "insert a (A - {a}) = A" using aA by blast
  moreover have "(A - {a}) \<inter> set heads = {}" "a \<notin> A - {a}" using assms(5) by blast+
  ultimately show ?thesis
    using chains_link [OF chains_unlink [OF assms(1,2,4,5)] slot_of_head(3), of a] a unfolding P C by simp
qed

lemma records_not_heads: "layout P R \<Longrightarrow> epos ` set R \<inter> set heads = {}"
  using layoutD(4) heads_below by fastforce

lemma last_slot:
  assumes "s \<in> set heads" "set (us @ vs) \<subseteq> epos ` set R"
  shows "last (s # us) \<in> slots R"
proof (cases "us = []")
  case False
  then have "last us \<in> epos ` set R" using assms(2) last_in_set [OF False] by auto
  then show ?thesis using False by (simp add: slots_def)
qed (simp add: assms(1) slots_def)

text \<open>\<open>_db_dodelete\<close> takes the current record out of the map.\<close>

lemma dodelete_inv:
  assumes "db_inv s P R C" "stands (set R) C m" "e \<in> set R" "live C e" "current P e s"
    "C (slot_of (ekey e)) = us @ epos e # vs" "ptroff s = last (slot_of (ekey e) # us)" "quiet (False, FREE_OFF, 1) s"
  shows "\<exists>s' P' R' C'. db_dodelete s = Some (Inr (), s') \<and> fixed s' = fixed s \<and> db_inv s' P' R' C' \<and>
    stands (set R') C' (m(ekey e := None)) \<and> idx_size s' = idx_size s"
proof -
  have i: "holds s P R" "chains P C (epos ` set R)" "tidy (set R) C" and lay: "layout P R"
    using assms(1) by (simp_all add: db_inv_def holds_def)
  let ?s = "slot_of (ekey e)"
  note c = chainsD [OF i(2) slot_of_head(1) [of "ekey e"]]
  have "epos e \<in> set (C ?s)" using assms(6) by simp
  have "P (last (?s # us)) = epos e" using path_next c(1) assms(6) by metis
  have q: "ptroff s \<in> slots R" using last_slot [OF slot_of_head(1) c(3) [unfolded assms(6)]] assms(7) by simp
  then have "epos e \<le> PTR_MAX" using layout_slot [OF lay q] \<open>P (last (?s # us)) = epos e\<close> assms(7) by simp
  from dodelete_at [OF i(1) assms(3,5) q assms(8) this] obtain s' where s': "db_dodelete s = Some (Inr (), s')" "fixed s' = fixed s"
    "holds s' (P(epos e := P 0, 0 := epos e, ptroff s := P (epos e))) (wiped e R)" by blast
  let ?C = "C(?s := us @ vs, 0 := epos e # C 0)"
  note w = wiped_facts [OF lay assms(3)]
  have "epos ` set (wiped e R) = epos ` set R" by (simp add: wiped_def)
  then have ch: "chains (P(epos e := P 0, 0 := epos e, ptroff s := P (epos e))) ?C (epos ` set (wiped e R))"
    using chains_delete [OF i(2) slot_of_head(1,2) assms(6) records_not_heads [OF lay]] assms(7) by simp
  note t = tidy_delete [OF i(3) assms(2) layout_inj [OF lay] assms(3,4,6) w(2,3) refl, folded w(1)]
  have "nhash s' = NHASH_DEF \<and> hashoff s' = HASH_OFF" using s'(2) assms(1) by (simp add: fixed_def db_inv_def)
  moreover have "idx_size s' = idx_size s" using idx_size_holds [OF s'(3)] idx_size_holds [OF i(1)] w(4) by simp
  ultimately show ?thesis using s' ch t unfolding db_inv_def by blast
qed

section \<open>Fetching and deleting\<close>

lemma representsI: "db_inv db P R C \<Longrightarrow> stands (set R) C m \<Longrightarrow> locks db = [] \<Longrightarrow> represents db m"
  unfolding represents_def by blast

lemma representsE:
  assumes "represents db m"
  obtains P R C where "db_inv db P R C" "stands (set R) C m" "locks db = []" "holds db P R"
  using assms unfolding represents_def db_inv_def by blast

text \<open>Statistics and \<open>errno\<close> do not matter for what a database stands for.\<close>

definition counted :: "db \<Rightarrow> db \<Rightarrow> bool" where
  "counted db db' \<longleftrightarrow> contents (idxfd db') = contents (idxfd db) \<and> contents (datfd db') = contents (datfd db) \<and>
    nhash db' = nhash db \<and> hashoff db' = hashoff db"

lemma counted_inv: "counted db db' \<Longrightarrow> db_inv db P R C \<Longrightarrow> db_inv db' P R C"
  by (simp add: counted_def db_inv_def holds_def)

lemma counted_represents: "counted db db' \<Longrightarrow> locks db' = [] \<Longrightarrow> represents db m \<Longrightarrow> represents db' m"
  using counted_inv unfolding represents_def by blast

lemma same_started:
  assumes "same (started key kind db) db'" "locks db = []"
  shows "counted db db'" "locks db' = [((False, slot_of key, 1), kind)]" "chainoff db' = slot_of key" "stats db' = stats db"
    "quiet (False, FREE_OFF, 1) db'" "quiet (True, 0, 0) db'" "quiet (records_lock db') db'"
  using assms slot_of_head(2) [of key]
  by (auto simp: same_def started_def counted_def fixed_def stats_def quiet_def FREE_OFF_def records_lock_def)

lemma unlock_chain_at:
  "locks db = [((False, chainoff db, 1), kind)] \<Longrightarrow> unlock_chain db = Some (Inr (), db\<lparr>locks := []\<rparr>)"
  by (simp add: unlock_chain_def un_lock_def)

lemma db_fetch_counted:
  assumes "represents db m"
  shows "\<exists>db'. db_fetch key db = Some (Inr (m key), db') \<and> counted db db' \<and> locks db' = []"
proof -
  obtain P R C where i: "db_inv db P R C" "stands (set R) C m" "locks db = []" "holds db P R" using representsE [OF assms] .
  show ?thesis
  proof (cases "m key")
    case None
    obtain d1 where d1: "db_find_and_lock key False db = Some (Inr (-1), d1)" "same (started key Read_lock db) d1"
      using find_and_lock_absent [OF i(1,3,2) None, of False] by auto
    note s = same_started [OF d1(2) i(3)]
    let ?d = "d1\<lparr>cnt_fetcherr := cnt_fetcherr d1 + 1, locks := []\<rparr>"
    have "db_fetch key db = Some (Inr None, ?d)"
      using s(2,3) by (simp add: db_fetch_def dbind_Some [of "db_find_and_lock key False", OF d1(1)] dbind_assoc unlock_chain_def un_lock_def)
    moreover have "counted db ?d" using s(1) by (simp add: counted_def)
    ultimately show ?thesis using None by (intro exI [of _ ?d]) simp
  next
    case (Some d)
    then obtain e where e: "e \<in> set R" "live C e" "ekey e = key" "edata e = d" using i(2) unfolding stands_def by blast
    obtain d1 where d1: "db_find_and_lock key False db = Some (Inr 0, d1)" "same (started key Read_lock db) d1" "current P e d1"
      using find_and_lock_found [OF i(1,3) e(1,2), of False] e(3) by auto
    note s = same_started [OF d1(2) i(3)]
    have h1: "holds d1 P R" using same_holds [OF d1(2)] i(4) by simp
    have c: "datoff d1 = edat e" "datlen d1 = int (length (edata e)) + 1" using d1(3) by (simp_all add: current_def)
    define d2 where "d2 = d1\<lparr>datfd := (datfd d1)\<lparr>fpos := edat e + int (length (edata e)) + 1\<rparr>, datbuf := edata e\<rparr>"
    note r = dbind_Some [of db_readdat, OF db_readdat_at [OF h1 e(1) c, folded d2_def]]
    let ?d = "d2\<lparr>cnt_fetchok := cnt_fetchok d2 + 1, locks := []\<rparr>"
    have l2: "locks d2 = [((False, chainoff d2, 1), Read_lock)]" using s(2,3) by (simp add: d2_def)
    have "db_fetch key db = Some (Inr (Some d), ?d)"
      using l2 e(4) by (simp add: db_fetch_def dbind_Some [of "db_find_and_lock key False", OF d1(1)] r dbind_assoc unlock_chain_def un_lock_def)
    moreover have "counted db ?d" using s(1) by (simp add: counted_def d2_def)
    ultimately show ?thesis using Some by (intro exI [of _ ?d]) simp
  qed
qed

lemma db_fetch_map:
  assumes "represents db m"
  shows "\<exists>db'. db_fetch key db = Some (Inr (m key), db') \<and> represents db' m \<and> idx_size db' = idx_size db"
  using db_fetch_counted [OF assms, of key] counted_represents [OF _ _ assms] by (auto simp: counted_def idx_size_def)

lemma db_delete_map:
  assumes "represents db m"
  shows "\<exists>db'. db_delete key db = Some (Inr (if m key = None then -1 else 0), db') \<and> represents db' (m(key := None)) \<and>
    idx_size db' = idx_size db"
proof -
  obtain P R C where i: "db_inv db P R C" "stands (set R) C m" "locks db = []" "holds db P R" using representsE [OF assms] .
  show ?thesis
  proof (cases "m key")
    case None
    obtain d1 where d1: "db_find_and_lock key True db = Some (Inr (-1), d1)" "same (started key Write_lock db) d1"
      using find_and_lock_absent [OF i(1,3,2) None, of True] by auto
    note s = same_started [OF d1(2) i(3)]
    let ?d = "d1\<lparr>cnt_delerr := cnt_delerr d1 + 1, locks := []\<rparr>"
    have "db_delete key db = Some (Inr (-1), ?d)"
      using s(2,3) by (simp add: db_delete_def dbind_Some [of "db_find_and_lock key True", OF d1(1)] dbind_assoc unlock_chain_def un_lock_def)
    moreover have "counted db ?d" using s(1) by (simp add: counted_def)
    moreover have "m(key := None) = m" using None by auto
    ultimately show ?thesis using counted_represents [OF _ _ assms, of ?d] None by (auto simp: counted_def idx_size_def)
  next
    case (Some d)
    then obtain e where e: "e \<in> set R" "live C e" "ekey e = key" "edata e = d" using i(2) unfolding stands_def by blast
    obtain d1 us vs where d1: "db_find_and_lock key True db = Some (Inr 0, d1)" "same (started key Write_lock db) d1" "current P e d1"
      "C (slot_of (ekey e)) = us @ epos e # vs" "ptroff d1 = last (slot_of (ekey e) # us)"
      using find_and_lock_found [OF i(1,3) e(1,2), of True] e(3) by auto
    note s = same_started [OF d1(2) i(3)]
    obtain d2 P' R' C' where d2: "db_dodelete d1 = Some (Inr (), d2)" "fixed d2 = fixed d1" "db_inv d2 P' R' C'"
      "stands (set R') C' (m(key := None))" "idx_size d2 = idx_size d1"
      using dodelete_inv [OF counted_inv [OF s(1) i(1)] i(2) e(1,2) d1(3,4,5) s(5)] e(3) by blast
    let ?d = "d2\<lparr>cnt_delok := cnt_delok d2 + 1, locks := []\<rparr>"
    have l2: "locks d2 = [((False, chainoff d2, 1), Write_lock)]" using s(2,3) d2(2) by (simp add: fixed_def)
    have "db_delete key db = Some (Inr 0, ?d)"
      using l2 by (simp add: db_delete_def dbind_Some [of "db_find_and_lock key True", OF d1(1)] dbind_Some [of db_dodelete, OF d2(1)]
        dbind_assoc unlock_chain_def un_lock_def)
    moreover have "represents ?d (m(key := None))"
      using counted_inv [OF _ d2(3), of ?d] d2(4) unfolding represents_def by (auto simp: counted_def)
    ultimately show ?thesis using Some d2(5) s(1) by (auto simp: counted_def idx_size_def)
  qed
qed

end
