(* ===== verification/DbStore.thy ===== *)
theory DbStore
  imports DbMap
begin

text \<open>
  \<open>db_store\<close> on the map a database stands for: new records at the end of the files or in the
  place of deleted ones, and records overwritten or moved.
\<close>

section \<open>Storing\<close>

lemma new_entry_ok:
  assumes "holds s P R" "valid_key key" "valid_data data" "idx_size s \<le> PTR_MAX"
  shows "entry_ok (new_entry s key data)" "esize (new_entry s key data) \<le> 1035"
proof -
  let ?e = "new_entry s key data"
  have lay: "layout P R" using assms(1) by (simp add: holds_def)
  have "int (length (edata x)) + 1 \<le> 1024 * esize x" if "x \<in> set R" for x
    using layoutD(1) [OF lay that] by (simp add: entry_ok_def DATLEN_MAX_def esize_def PTR_SZ_def IDXLEN_SZ_def)
  then have "(\<Sum>x\<leftarrow>R. int (length (edata x)) + 1) \<le> (\<Sum>x\<leftarrow>R. 1024 * esize x)" by (rule sum_list_mono)
  also have "\<dots> = 1024 * (\<Sum>x\<leftarrow>R. esize x)" by (simp add: sum_list_const_mult)
  also have "\<dots> \<le> 1024 * PTR_MAX" using idx_size_holds [OF assms(1)] assms(4) by (simp add: first_record_def)
  finally have d: "int (length (dat_file R)) < 10 ^ 11" using length_dat [of R] by (simp add: PTR_MAX_def)
  have dat: "edat ?e = int (length (dat_file R))" "ekey ?e = key" "edata ?e = data" using assms(1) by (simp_all add: new_entry_def holds_def)
  have key: "0 < length key" "length key \<le> 1000" using assms(2) by (auto simp: valid_key_def blank_def)
  have n: "int (length data) + 1 < 10 ^ 4" "0 < length data" using assms(3) by (simp_all add: valid_data_def DATLEN_MAX_def)
  have p: "length (print_int i) \<le> k" "0 < length (print_int i)" if "0 \<le> i" "i < 10 ^ k" "0 < k" for i k
    using length_dec [of "nat i" k] that by (auto simp: print_int_def nat_less_iff)
  have l1: "length (print_int (edat ?e)) \<le> 11" "0 < length (print_int (edat ?e))" using p [of "edat ?e" 11] d dat(1) by auto
  have l2: "length (print_int (int (length data) + 1)) \<le> 4" "0 < length (print_int (int (length data) + 1))" using p [OF _ n(1)] by auto
  have "length (idx_line ?e) = length key + length (print_int (edat ?e)) + length (print_int (int (length data) + 1)) + 3"
    using dat(2,3) by (simp add: idx_line_def)
  with l1 l2 key have l: "6 \<le> length (idx_line ?e)" "length (idx_line ?e) \<le> 1018" by linarith+
  have "0 \<le> edat ?e" using dat(1) by simp
  moreover have "no_null key" "SEP \<notin> set key" "no_null data" "int (length data) < DATLEN_MAX" "0 < length data"
    using assms(2,3) by (simp_all add: valid_key_def valid_data_def)
  ultimately show "entry_ok ?e" using l dat(2,3) by (auto simp: entry_ok_def IDXLEN_MIN_def IDXLEN_MAX_def)
  show "esize ?e \<le> 1035" using l(2) by (simp add: esize_def PTR_SZ_def IDXLEN_SZ_def)
qed

lemma append_inv:
  assumes "db_inv s P R C" "stands (set R) C m" "m key = None" "valid_key key" "valid_data data" "chainoff s = slot_of key"
    "idx_size s \<le> PTR_MAX" "quiet (True, 0, 0) s" "quiet (records_lock s) s"
  shows "\<exists>s' P' R' C'. store_append key data (P (slot_of key)) s = Some (Inr (), s') \<and> fixed s' = fixed s \<and> db_inv s' P' R' C' \<and>
    stands (set R') C' (m(key := Some data)) \<and> idx_size s' \<le> idx_size s + 1035"
proof -
  let ?e = "new_entry s key data" and ?s = "slot_of key"
  have i: "holds s P R" "chains P C (epos ` set R)" "tidy (set R) C" and lay: "layout P R"
    using assms(1) by (simp_all add: db_inv_def holds_def)
  note ok = new_entry_ok [OF i(1) assms(4,5,7)]
  have p: "0 \<le> P ?s" "P ?s \<le> PTR_MAX" using layout_slot [OF lay slot_in_slots(1)] by simp_all
  have e: "epos ?e = idx_size s" "ekey ?e = key" "edata ?e = data" by (simp_all add: new_entry_def idx_size_def)
  from store_append_at [OF i(1) refl ok(1) _ p _ assms(8,9)] assms(6,7) e(1) obtain s' where
    s': "store_append key data (P ?s) s = Some (Inr (), s')" "holds s' (P(epos ?e := P ?s, ?s := epos ?e)) (R @ [?e])"
      "epos ?e \<notin> slots R" "fixed s' = fixed s" by auto
  let ?C = "C(?s := epos ?e # C ?s)"
  have new: "epos ?e \<notin> epos ` set R" "epos ?e \<notin> set heads" using s'(3) by (auto simp: slots_def)
  have ch: "chains (P(epos ?e := P ?s, ?s := epos ?e)) ?C (epos ` set (R @ [?e]))"
    using chains_link [OF i(2) slot_of_head(1) new records_not_heads [OF lay]] by simp
  have free: "epos ?e \<notin> set (C 0)" using chainsD(3) [OF i(2) slot_of_head(3)] new(1) by blast
  have "?C = C(0 := C 0, slot_of (ekey ?e) := epos ?e # C (slot_of (ekey ?e)))" using e(2) by simp
  have ne: "epos x \<noteq> epos ?e" if "x \<in> set R" for x using new(1) that by (metis imageI)
  from tidy_new [OF i(3) assms(2) _ _ ne \<open>?C = _\<close> free] free assms(3,4) e(2,3)
  have t: "tidy (set (R @ [?e])) ?C" "stands (set (R @ [?e])) ?C (m(key := Some data))" by auto
  have "nhash s' = NHASH_DEF \<and> hashoff s' = HASH_OFF" using s'(4) assms(1) by (simp add: fixed_def db_inv_def)
  moreover have "idx_size s' \<le> idx_size s + 1035" using idx_size_holds [OF s'(2)] idx_size_holds [OF i(1)] ok(2) by simp
  ultimately show ?thesis using s' ch t unfolding db_inv_def by blast
qed

lemma findfree_inv:
  assumes "db_inv s P R C" "quiet (False, FREE_OFF, 1) s"
  shows "(\<exists>s'. db_findfree k d s = Some (Inr (-1), s') \<and> same s s') \<or>
    (\<exists>s' e us vs. db_findfree k d s = Some (Inr 0, s') \<and> fixed s' = fixed s \<and> e \<in> set R \<and> C 0 = us @ epos e # vs \<and>
      holds s' (P(last (0 # us) := P (epos e))) R \<and> idxoff s' = epos e \<and> datoff s' = edat e \<and>
      int (length (ekey e)) = k \<and> int (length (edata e)) + 1 = d)"
proof -
  have i: "holds s P R" "chains P C (epos ` set R)" and lay: "layout P R" using assms(1) by (simp_all add: db_inv_def holds_def)
  note c = chainsD [OF i(2) slot_of_head(3)]
  obtain es where es: "C 0 = map epos es" "set es \<subseteq> set R" using entries_of [OF c(3)] .
  define s1 where "s1 = s\<lparr>locks := ((False, FREE_OFF, 1), Write_lock) # locks s, idxfd := (idxfd s)\<lparr>fpos := 0 + 7\<rparr>\<rparr>"
  have unl0: "filter (\<lambda>p. fst p \<noteq> (False, FREE_OFF, 1)) (locks s) = locks s" by (rule unlocked [OF assms(2)])
  have h: "contents (idxfd (s\<lparr>locks := l\<rparr>)) = idx_file P R" for l using i(1) by (simp add: holds_def)
  have start: "db_findfree k d s = dbind (findfree_loop k d 0 (P 0)) (\<lambda>(saveoffset, offset).
      dbind (if offset = 0 then ret (-1)
           else dbind (get ptrval) (\<lambda>ptr. dbind (db_writeptr saveoffset ptr) (\<lambda>_. ret 0))) (\<lambda>rc.
      dbind (un_lock (False, FREE_OFF, 1)) (\<lambda>_. ret rc))) s1"
    using dbind_Some [of "db_readptr 0", OF db_readptr_at [OF lay h slot_in_slots(2)]] unl0
    by (simp add: db_findfree_def set_lock_def s1_def FREE_OFF_def)
  have h1: "holds s1 P R" using i(1) by (simp add: holds_def s1_def)
  have unl: "same s (s'\<lparr>locks := filter (\<lambda>p. fst p \<noteq> (False, FREE_OFF, 1)) (locks s')\<rparr>)" if "same s1 s'" for s'
    using that unl0 by (simp add: same_def fixed_def stats_def s1_def)
  consider (no) q' s' where "findfree_loop k d 0 (P 0) s1 = Some (Inr (q', 0), s')" "same s1 s'"
    | (yes) us e vs s' where "es = us @ e # vs" "findfree_loop k d 0 (P 0) s1 = Some (Inr (last (0 # map epos us), epos e), s')"
        "same s1 s'" "current P e s'" "int (length (ekey e)) = k" "int (length (edata e)) + 1 = d"
    using findfree_result [OF h1 c(1) [unfolded es(1)] es(2), of k d] by blast
  then show ?thesis
  proof cases
    case no
    then show ?thesis using unl [OF no(2)]
      by (simp add: start dbind_Some [of "findfree_loop k d 0 (P 0)", OF no(1)] un_lock_def)
  next
    case yes
    define q where "q = last (0 # map epos us)"
    have e: "e \<in> set R" using es(2) yes(1) by auto
    have "holds s' P R" using same_holds [OF yes(3)] h1 by blast
    then have h': "layout P R" "contents (idxfd s') = idx_file P R" by (simp_all add: holds_def)
    have qs: "q \<in> slots R"
    proof (cases "us = []")
      case False
      then have "last us \<in> set R" using es(2) yes(1) last_in_set [OF False] by auto
      then show ?thesis using False by (simp add: slots_def last_map q_def)
    qed (simp add: q_def)
    note le = layoutD [OF lay e]
    define s2 where "s2 = s'\<lparr>idxfd := \<lparr>contents = idx_file (P(q := P (epos e))) R, fpos = q + 7\<rparr>\<rparr>"
    note w = dbind_Some [of "db_writeptr q (P (epos e))", OF db_writeptr_at [OF h' qs le(2,3), folded s2_def]]
    let ?s3 = "s2\<lparr>locks := locks s\<rparr>"
    have cur: "ptrval s' = P (epos e)" "idxoff s' = epos e" "datoff s' = edat e" using yes(4) by (simp_all add: current_def)
    have l: "locks s' = ((False, FREE_OFF, 1), Write_lock) # locks s" using yes(3) by (simp add: same_def fixed_def s1_def)
    have n0: "epos e \<noteq> 0" using le(4) by (simp add: first_record_def)
    have "db_findfree k d s = Some (Inr 0, ?s3)"
      using n0 cur(1) by (simp add: start dbind_Some [of "findfree_loop k d 0 (P 0)", OF yes(2) [folded q_def]] dbind_assoc w un_lock_def)
        (simp add: s2_def l unl0)
    moreover have "fixed ?s3 = fixed s" using yes(3) by (simp add: s2_def same_def fixed_def stats_def s1_def)
    moreover have "holds ?s3 (P(q := P (epos e))) R"
      using layout_fun_upd [OF lay le(2,3)] \<open>holds s' P R\<close> by (simp add: s2_def holds_def)
    moreover have "idxoff ?s3 = epos e" "datoff ?s3 = edat e" using cur by (simp_all add: s2_def)
    ultimately show ?thesis using e es(1) yes(1,5,6) unfolding q_def by (intro disjI2 exI [of _ ?s3] exI [of _ e] exI [of _ "map epos us"] exI [of _ "map epos vs"]) simp
  qed
qed

text \<open>A deleted record that is taken off its list and written anew.\<close>

definition rewritten :: "entry \<Rightarrow> string \<Rightarrow> string \<Rightarrow> entry list \<Rightarrow> entry list" where
  "rewritten e key data R = set_key (epos e) key (set_data (epos e) data R)"

lemma rewritten_facts:
  assumes "layout P R" "e \<in> set R" "length key = length (ekey e)" "length data = length (edata e)" "no_null data" "no_null key" "SEP \<notin> set key"
  defines "e' \<equiv> e\<lparr>edata := data, ekey := key\<rparr>" and "R1 \<equiv> set_data (epos e) data R"
  shows "set (rewritten e key data R) = insert e' (set R - {e})" "map esize (rewritten e key data R) = map esize R"
    "layout P (rewritten e key data R)" "dat_file (rewritten e key data R) = dat_file R1" "slots (rewritten e key data R) = slots R"
    "layout P R1" "idx_file P R1 = idx_file P R" "e\<lparr>edata := data\<rparr> \<in> set R1" "epos ` set (rewritten e key data R) = epos ` set R"
proof -
  note l1 = layout_set_data [OF assms(1,2,4,5), folded R1_def]
  have s1: "set R1 = insert (e\<lparr>edata := data\<rparr>) (set R - {e})" unfolding R1_def by (rule set_updates(1) [OF assms(1,2)])
  then have i: "e\<lparr>edata := data\<rparr> \<in> set R1" by simp
  have ne: "e\<lparr>edata := data\<rparr> \<notin> set R - {e}" using inj_onD [OF layout_inj [OF assms(1)], of "e\<lparr>edata := data\<rparr>" e] assms(2) by auto
  show "set (rewritten e key data R) = insert e' (set R - {e})"
    using set_updates(2) [OF l1(1) i, of key] s1 ne by (simp add: rewritten_def e'_def R1_def)
  show "map esize (rewritten e key data R) = map esize R"
    using esize_same(2) [OF l1(1) i, of key] esize_same(1) [OF assms(1,2,4)] assms(3) by (simp add: rewritten_def R1_def)
  show "layout P (rewritten e key data R)" "dat_file (rewritten e key data R) = dat_file R1"
    using layout_set_key [OF l1(1) i, of key] assms(3,6,7) by (simp_all add: rewritten_def R1_def)
  show "slots (rewritten e key data R) = slots R" "epos ` set (rewritten e key data R) = epos ` set R" by (simp_all add: rewritten_def)
  show "layout P R1" "idx_file P R1 = idx_file P R" "e\<lparr>edata := data\<rparr> \<in> set R1" using l1 i by simp_all
qed

lemma store_reuse_at:
  assumes "holds s P R" "e \<in> set R" "length key = length (ekey e)" "length data = length (edata e)" "no_null data" "no_null key" "SEP \<notin> set key"
    "datoff s = edat e" "idxoff s = epos e" "chainoff s \<in> slots R" "0 \<le> v" "v \<le> PTR_MAX" "epos e \<le> PTR_MAX"
  shows "\<exists>s'. store_reuse key data v s = Some (Inr (), s') \<and> fixed s' = fixed s \<and>
    holds s' (P(epos e := v, chainoff s := epos e)) (rewritten e key data R)"
proof -
  let ?a = "epos e" and ?R1 = "set_data (epos e) data R" and ?e1 = "e\<lparr>edata := data\<rparr>" and ?R2 = "rewritten e key data R"
  have lay: "layout P R" using assms(1) by (simp add: holds_def)
  note f = rewritten_facts [OF lay assms(2-7)]
  define s1 where "s1 = s\<lparr>datfd := \<lparr>contents = dat_file ?R1, fpos = edat e + int (length data) + 1\<rparr>, datoff := edat e, datlen := int (length data) + 1\<rparr>"
  note w1 = dbind_Some [of "db_writedat data (edat e) SEEK_SET", OF db_writedat_at [OF assms(1,2,4), folded s1_def]]
  have h1: "holds s1 P ?R1" using assms(1) f(6,7) by (simp add: holds_def s1_def)
  have k1: "length key = length (ekey ?e1)" "datoff s1 = edat ?e1" "datlen s1 = int (length (edata ?e1)) + 1" using assms(3) by (simp_all add: s1_def)
  obtain p b where w2: "db_writeidx key ?a SEEK_SET v s1 = Some (Inr (),
      s1\<lparr>idxfd := \<lparr>contents = idx_file (P(?a := v)) ?R2, fpos = p\<rparr>, ptrval := v, idxbuf := b, idxoff := ?a\<rparr>)" (is "_ = Some (Inr (), ?s2)")
    using db_writeidx_at [OF h1 f(8) k1 assms(11,12)] unfolding rewritten_def by auto
  define s2 where "s2 = ?s2"
  note w2 = dbind_Some [of "db_writeidx key ?a SEEK_SET v", OF w2 [folded s2_def]]
  have l2: "layout (P(?a := v)) ?R2" by (rule layout_fun_upd [OF f(3) assms(11,12)])
  have a0: "0 \<le> ?a" using layoutD(4) [OF lay assms(2)] by (simp add: first_record_def)
  have c2: "contents (idxfd s2) = idx_file (P(?a := v)) ?R2" by (simp add: s2_def)
  define s3 where "s3 = s2\<lparr>idxfd := \<lparr>contents = idx_file (P(?a := v, chainoff s := ?a)) ?R2, fpos = chainoff s + 7\<rparr>\<rparr>"
  have w3: "db_writeptr (chainoff s) ?a s2 = Some (Inr (), s3)"
    using db_writeptr_at [OF l2 c2 assms(10) [folded f(5)] a0 assms(13)] by (simp add: s3_def)
  have g: "idxoff s1 = ?a" "chainoff s2 = chainoff s" "idxoff s2 = ?a" using assms(9) by (simp_all add: s1_def s2_def)
  have "store_reuse key data v s = Some (Inr (), s3)" using assms(8) g by (simp add: store_reuse_def w1 w2 w3)
  moreover have "holds s3 (P(?a := v, chainoff s := ?a)) ?R2"
    using layout_fun_upd [OF l2 a0 assms(13)] f(4) by (simp add: holds_def s1_def s2_def s3_def)
  moreover have "fixed s3 = fixed s" by (simp add: fixed_def stats_def s1_def s2_def s3_def)
  ultimately show ?thesis by blast
qed

lemma reuse_inv:
  assumes "db_inv d P R C" "stands (set R) C m" "m key = None" "valid_key key" "valid_data data" "chainoff s = slot_of key"
    "nhash s = NHASH_DEF" "hashoff s = HASH_OFF" "e \<in> set R" "C 0 = us @ epos e # vs" "holds s (P(last (0 # us) := P (epos e))) R"
    "idxoff s = epos e" "datoff s = edat e" "length key = length (ekey e)" "length data = length (edata e)"
  shows "\<exists>s' P' R' C'. store_reuse key data (P (slot_of key)) s = Some (Inr (), s') \<and> fixed s' = fixed s \<and> db_inv s' P' R' C' \<and>
    stands (set R') C' (m(key := Some data)) \<and> idx_size s' = idx_size d"
proof -
  let ?q = "last (0 # us)" and ?s = "slot_of key" and ?e = "e\<lparr>edata := data, ekey := key\<rparr>" and ?a = "epos e"
  let ?P1 = "P(?q := P ?a)" and ?C1 = "C(0 := us @ vs)"
  have i: "holds d P R" "chains P C (epos ` set R)" "tidy (set R) C" and lay: "layout P R"
    using assms(1) by (simp_all add: db_inv_def holds_def)
  note c = chainsD [OF i(2) slot_of_head(3)]
  note nh = records_not_heads [OF lay]
  have aR: "?a \<in> epos ` set R" using assms(9) by simp
  have "P ?q = ?a" using path_next c(1) assms(10) by metis
  have "?q \<in> slots R" by (rule last_slot [OF slot_of_head(3) c(3) [unfolded assms(10)]])
  then have amax: "?a \<le> PTR_MAX" using layout_slot [OF lay] \<open>P ?q = ?a\<close> by metis
  have "?q \<noteq> ?s"
  proof (cases "us = []")
    case False
    then have "last us \<in> set (C 0)" using assms(10) by simp
    then have "last us \<in> epos ` set R" using c(3) by blast
    then show ?thesis using nh slot_of_head(1) [of key] False by (metis disjoint_iff last_ConsR)
  qed (use slot_of_head(2) [of key] in auto)
  then have v: "?P1 ?s = P ?s" by simp
  have vb: "0 \<le> P ?s" "P ?s \<le> PTR_MAX" using layout_slot [OF lay slot_in_slots(1)] by simp_all
  have val: "no_null data" "no_null key" "SEP \<notin> set key" using assms(4,5) by (simp_all add: valid_key_def valid_data_def)
  have cs: "chainoff s \<in> slots R" using assms(6) by simp
  obtain s' where s': "store_reuse key data (P ?s) s = Some (Inr (), s')" "fixed s' = fixed s"
    "holds s' (?P1(?a := P ?s, ?s := ?a)) (rewritten e key data R)"
    using store_reuse_at [OF assms(11,9,14,15) val assms(13,12) cs vb amax] assms(6) by auto
  note f = rewritten_facts [OF lay assms(9,14,15) val]
  have ch1: "chains ?P1 ?C1 (epos ` set R - {?a})" by (rule chains_unlink [OF i(2) slot_of_head(3) assms(10) nh])
  let ?C2 = "?C1(?s := ?a # ?C1 ?s)"
  have na: "?a \<notin> epos ` set R - {?a}" "?a \<notin> set heads" "(epos ` set R - {?a}) \<inter> set heads = {}" using nh aR by blast+
  have "chains (?P1(?a := ?P1 ?s, ?s := ?a)) ?C2 (insert ?a (epos ` set R - {?a}))"
    by (rule chains_link [OF ch1 slot_of_head(1) na])
  then have "chains (?P1(?a := P ?s, ?s := ?a)) ?C2 (insert ?a (epos ` set R - {?a}))" unfolding v .
  moreover have "insert ?a (epos ` set R - {?a}) = epos ` set R" using aR by blast
  ultimately have ch: "chains (?P1(?a := P ?s, ?s := ?a)) ?C2 (epos ` set (rewritten e key data R))" using f(9) by simp
  have dead: "\<not> live C e" using assms(10) by (simp add: live_def FREE_OFF_def)
  note dr = tidy_drop [OF i(3) assms(2,9) dead]
  have ne: "epos x \<noteq> epos ?e" if "x \<in> set R - {e}" for x
    using inj_onD [OF layout_inj [OF lay], of x e] that assms(9) by auto
  have dist: "distinct (us @ ?a # vs)" using c(2) assms(10) by simp
  have C2: "?C2 = C(0 := us @ vs, slot_of (ekey ?e) := epos ?e # C (slot_of (ekey ?e)))" using slot_of_head(2) [of key] by simp
  have "epos ?e \<notin> set (us @ vs)" "set (us @ vs) = set (C 0) - {epos ?e}" using dist assms(10) by auto
  from tidy_new [OF dr _ _ ne C2 this] assms(3,4)
  have t: "tidy (insert ?e (set R - {e})) ?C2" "stands (insert ?e (set R - {e})) ?C2 (m(key := Some data))" by simp_all
  have "nhash s' = NHASH_DEF \<and> hashoff s' = HASH_OFF" using s'(2) assms(7,8) by (simp add: fixed_def)
  moreover have "idx_size s' = idx_size d" using idx_size_holds [OF s'(3)] idx_size_holds [OF i(1)] f(2) by simp
  ultimately show ?thesis using s' ch t f(1) unfolding db_inv_def by metis
qed

section \<open>The result of db\_store\<close>

text \<open>The return value, and what becomes of the map.\<close>

definition store_rc :: "string option \<Rightarrow> store_flag \<Rightarrow> int" where
  "store_rc old flag = (case flag of Other_flag \<Rightarrow> -1
    | DB_INSERT \<Rightarrow> if old = None then 0 else 1
    | DB_REPLACE \<Rightarrow> if old = None then -1 else 0
    | DB_STORE \<Rightarrow> 0)"

definition stored :: "string \<Rightarrow> string \<Rightarrow> store_flag \<Rightarrow> (string \<rightharpoonup> string) \<Rightarrow> (string \<rightharpoonup> string)" where
  "stored key data flag m = (if store_rc (m key) flag = 0 then m(key := Some data) else m)"

text \<open>The state in the middle of \<open>db_store\<close>, with the chain of the key locked.\<close>

definition storing :: "db \<Rightarrow> string \<Rightarrow> (string \<rightharpoonup> string) \<Rightarrow> bool" where
  "storing db key m \<longleftrightarrow> (\<exists>P R C. db_inv db P R C \<and> stands (set R) C m) \<and>
    locks db = [((False, slot_of key, 1), Write_lock)] \<and> chainoff db = slot_of key"

lemma valid_lengths:
  "valid_data data \<Longrightarrow> c_int (int (length data) + 1) = int (length data) + 1"
  "valid_key key \<Longrightarrow> c_int (int (length key)) = int (length key)"
  by (auto simp: valid_data_def valid_key_def DATLEN_MAX_def intro!: c_int_id)

lemma storing_quiet:
  "locks db = [((False, slot_of key, 1), Write_lock)] \<Longrightarrow>
    quiet (False, FREE_OFF, 1) db \<and> quiet (True, 0, 0) db \<and> quiet (records_lock db) db"
  using slot_of_head(2) [of key] by (simp add: quiet_def FREE_OFF_def records_lock_def)

lemma storing_fixed: "storing db key m \<Longrightarrow> fixed db' = fixed db \<Longrightarrow> db_inv db' P R C \<Longrightarrow> stands (set R) C m' \<Longrightarrow> storing db' key m'"
  by (auto simp: storing_def fixed_def)

lemma storing_counted: "storing db key m \<Longrightarrow> counted db db' \<Longrightarrow> locks db' = locks db \<Longrightarrow> chainoff db' = chainoff db \<Longrightarrow> storing db' key m"
  using counted_inv unfolding storing_def by metis

lemma same_counted: "same db d \<Longrightarrow> counted db d"
  by (simp add: counted_def same_def fixed_def)

lemma storing_same: "storing db key m \<Longrightarrow> same db db' \<Longrightarrow> storing db' key m"
  by (rule storing_counted) (auto simp: counted_def same_def fixed_def)

lemma storing_unlock:
  assumes "storing db key m"
  shows "unlock_chain db = Some (Inr (), db\<lparr>locks := []\<rparr>)" "represents (db\<lparr>locks := []\<rparr>) m"
proof -
  obtain P R C where i: "db_inv db P R C" "stands (set R) C m" "locks db = [((False, slot_of key, 1), Write_lock)]" "chainoff db = slot_of key"
    using assms by (auto simp: storing_def)
  show "unlock_chain db = Some (Inr (), db\<lparr>locks := []\<rparr>)" using unlock_chain_at [of db] i by simp
  have "db_inv (db\<lparr>locks := []\<rparr>) P R C" using counted_inv [OF _ i(1), of "db\<lparr>locks := []\<rparr>"] by (simp add: counted_def)
  then show "represents (db\<lparr>locks := []\<rparr>) m" using i(2) by (auto simp: represents_def)
qed

lemma storing_readptr:
  assumes "db_inv db P R C"
  shows "\<exists>d. db_readptr (slot_of key) db = Some (Inr (P (slot_of key)), d) \<and> same db d"
proof -
  have h: "layout P R" "contents (idxfd db) = idx_file P R" using assms by (simp_all add: db_inv_def holds_def)
  show ?thesis using db_readptr_at [OF h slot_in_slots(1)] by (auto simp: same_def fixed_def stats_def)
qed

lemma store_append_storing:
  assumes "storing db key m" "m key = None" "valid_key key" "valid_data data" "idx_size db \<le> PTR_MAX"
  shows "\<exists>ptr d db'. db_readptr (slot_of key) db = Some (Inr ptr, d) \<and> store_append key data ptr d = Some (Inr (), db') \<and>
    storing db' key (m(key := Some data)) \<and> stats db' = stats db \<and> idx_size db' \<le> idx_size db + 1035"
proof -
  obtain P R C where i: "db_inv db P R C" "stands (set R) C m" "locks db = [((False, slot_of key, 1), Write_lock)]" "chainoff db = slot_of key"
    using assms(1) by (auto simp: storing_def)
  obtain d where d: "db_readptr (slot_of key) db = Some (Inr (P (slot_of key)), d)" "same db d" using storing_readptr [OF i(1)] by blast
  have id: "db_inv d P R C" by (rule counted_inv [OF same_counted [OF d(2)] i(1)])
  have l: "locks d = [((False, slot_of key, 1), Write_lock)]" "chainoff d = slot_of key" "idx_size d = idx_size db"
    using d(2) i(3,4) by (auto simp: same_def fixed_def idx_size_def)
  note q = storing_quiet [OF l(1)]
  have sd: "storing d key m" by (rule storing_same [OF assms(1) d(2)])
  obtain db' P' R' C' where "store_append key data (P (slot_of key)) d = Some (Inr (), db')" "fixed db' = fixed d" "db_inv db' P' R' C'"
    "stands (set R') C' (m(key := Some data))" "idx_size db' \<le> idx_size d + 1035"
    using append_inv [OF id i(2) assms(2-4) l(2)] q l(3) assms(5) by auto
  moreover from this have "storing db' key (m(key := Some data))" using storing_fixed [OF sd] by blast
  moreover have "stats db' = stats db" using \<open>fixed db' = fixed d\<close> d(2) by (simp add: same_def fixed_def)
  ultimately show ?thesis using d(1) l(3) by (intro exI [of _ "P (slot_of key)"] exI [of _ d] exI [of _ db']) simp
qed

lemma store_new_map:
  assumes "storing db key m" "m key = None" "valid_key key" "valid_data data" "idx_size db \<le> PTR_MAX" "flag \<noteq> Other_flag"
  shows "\<exists>db'. store_new key data flag db = Some (Inr (store_rc None flag), db') \<and> storing db' key (stored key data flag m) \<and>
    errno db' = (if flag = DB_REPLACE then ENOENT else errno db) \<and> idx_size db' \<le> idx_size db + 1035"
proof (cases "flag = DB_REPLACE")
  case True
  let ?d = "db\<lparr>cnt_storerr := cnt_storerr db + 1, errno := ENOENT\<rparr>"
  have "storing ?d key m" using assms(1) by (rule storing_counted) (simp_all add: counted_def)
  then show ?thesis using True assms(2) by (simp add: store_new_def store_rc_def stored_def idx_size_def)
next
  case False
  then have rc: "store_rc None flag = 0" using assms(6) by (cases flag) (simp_all add: store_rc_def)
  obtain P R C where i: "db_inv db P R C" "stands (set R) C m" "locks db = [((False, slot_of key, 1), Write_lock)]" "chainoff db = slot_of key"
    using assms(1) by (auto simp: storing_def)
  obtain d where d: "db_readptr (slot_of key) db = Some (Inr (P (slot_of key)), d)" "same db d" using storing_readptr [OF i(1)] by blast
  have id: "db_inv d P R C" by (rule counted_inv [OF same_counted [OF d(2)] i(1)])
  have l: "locks d = [((False, slot_of key, 1), Write_lock)]" "chainoff d = slot_of key" "idx_size d = idx_size db"
    using d(2) i(3,4) by (auto simp: same_def fixed_def idx_size_def)
  have sd: "storing d key m" by (rule storing_same [OF assms(1) d(2)])
  note q = storing_quiet [OF l(1)]
  note r = dbind_Some [of "db_readptr (slot_of key)", OF d(1)]
  have st: "stored key data flag m = m(key := Some data)" using assms(2) rc by (simp add: stored_def)
  let ?k = "int (length key)" and ?n = "int (length data) + 1"
  note len = valid_lengths(1) [OF assms(4)] valid_lengths(2) [OF assms(3)]
  consider (no) s where "db_findfree ?k ?n d = Some (Inr (-1), s)" "same d s"
    | (yes) s e us vs where "db_findfree ?k ?n d = Some (Inr 0, s)" "fixed s = fixed d" "e \<in> set R" "C 0 = us @ epos e # vs"
      "holds s (P(last (0 # us) := P (epos e))) R" "idxoff s = epos e" "datoff s = edat e" "length (ekey e) = length key" "length (edata e) = length data"
  proof -
    assume no: "\<And>s. db_findfree ?k ?n d = Some (Inr (-1), s) \<Longrightarrow> same d s \<Longrightarrow> thesis"
    assume yes: "\<And>s e us vs. db_findfree ?k ?n d = Some (Inr 0, s) \<Longrightarrow> fixed s = fixed d \<Longrightarrow> e \<in> set R \<Longrightarrow> C 0 = us @ epos e # vs \<Longrightarrow>
      holds s (P(last (0 # us) := P (epos e))) R \<Longrightarrow> idxoff s = epos e \<Longrightarrow> datoff s = edat e \<Longrightarrow> length (ekey e) = length key \<Longrightarrow>
      length (edata e) = length data \<Longrightarrow> thesis"
    show thesis
    proof (rule disjE [OF findfree_inv [OF id conjunct1 [OF q], of ?k ?n]])
      assume "\<exists>s'. db_findfree ?k ?n d = Some (Inr (-1), s') \<and> same d s'"
      then show thesis using no by blast
    next
      assume "\<exists>s' e us vs. db_findfree ?k ?n d = Some (Inr 0, s') \<and> fixed s' = fixed d \<and> e \<in> set R \<and> C 0 = us @ epos e # vs \<and>
        holds s' (P(last (0 # us) := P (epos e))) R \<and> idxoff s' = epos e \<and> datoff s' = edat e \<and>
        int (length (ekey e)) = ?k \<and> int (length (edata e)) + 1 = ?n"
      then show thesis by (elim exE conjE) (rule yes, simp_all)
    qed
  qed
  then show ?thesis
  proof cases
    case no
    have iv: "db_inv s P R C" by (rule counted_inv [OF same_counted [OF no(2)] id])
    have ls: "locks s = [((False, slot_of key, 1), Write_lock)]" "chainoff s = slot_of key" "idx_size s = idx_size db"
      using no(2) l by (auto simp: same_def fixed_def idx_size_def)
    have ss: "storing s key m" by (rule storing_same [OF sd no(2)])
    obtain s' P' R' C' where s': "store_append key data (P (slot_of key)) s = Some (Inr (), s')" "fixed s' = fixed s" "db_inv s' P' R' C'"
      "stands (set R') C' (m(key := Some data))" "idx_size s' \<le> idx_size s + 1035"
      using append_inv [OF iv i(2) assms(2-4) ls(2)] storing_quiet [OF ls(1)] ls(3) assms(5) by auto
    let ?d = "s'\<lparr>cnt_stor1 := cnt_stor1 s' + 1\<rparr>"
    have "store_new key data flag db = Some (Inr 0, ?d)"
      using False i(4) by (simp add: store_new_def r len dbind_Some [of "db_findfree ?k ?n", OF no(1)] dbind_Some [of "store_append key data (P (slot_of key))", OF s'(1)])
    moreover have "storing ?d key (m(key := Some data))"
      using storing_fixed [OF ss s'(2-4)] by (rule storing_counted) (simp_all add: counted_def)
    moreover have "errno ?d = errno db" using s'(2) no(2) d(2) by (simp add: same_def fixed_def stats_def)
    ultimately show ?thesis using rc st False s'(5) ls(3) by (auto simp: idx_size_def)
  next
    case yes
    have hs: "nhash s = NHASH_DEF" "hashoff s = HASH_OFF" "chainoff s = slot_of key" using yes(2) id l(2) by (simp_all add: fixed_def db_inv_def)
    obtain s' P' R' C' where s': "store_reuse key data (P (slot_of key)) s = Some (Inr (), s')" "fixed s' = fixed s" "db_inv s' P' R' C'"
      "stands (set R') C' (m(key := Some data))" "idx_size s' = idx_size d"
      using reuse_inv [OF id i(2) assms(2-4) hs(3,1,2) yes(3-7) yes(8,9) [symmetric]] by blast
    let ?d = "s'\<lparr>cnt_stor2 := cnt_stor2 s' + 1\<rparr>"
    have "store_new key data flag db = Some (Inr 0, ?d)"
      using False i(4) by (simp add: store_new_def r len dbind_Some [of "db_findfree ?k ?n", OF yes(1)] dbind_Some [of "store_reuse key data (P (slot_of key))", OF s'(1)])
    moreover have "fixed s' = fixed d" using s'(2) yes(2) by simp
    then have "storing s' key (m(key := Some data))" using storing_fixed [OF sd _ s'(3,4)] by blast
    then have "storing ?d key (m(key := Some data))" by (rule storing_counted) (simp_all add: counted_def)
    moreover have "errno ?d = errno db" using s'(2) yes(2) d(2) by (simp add: same_def fixed_def stats_def)
    ultimately show ?thesis using rc st False s'(5) l(3) by (auto simp: idx_size_def)
  qed
qed

text \<open>The record is overwritten if the data have the same length, else deleted and appended.\<close>

lemma overwrite_inv:
  assumes "db_inv s P R C" "stands (set R) C m" "e \<in> set R" "live C e" "datoff s = edat e" "length data = length (edata e)" "no_null data"
  shows "\<exists>s'. db_writedat data (edat e) SEEK_SET s = Some (Inr (), s') \<and> fixed s' = fixed s \<and> idx_size s' = idx_size s \<and>
    db_inv s' P (set_data (epos e) data R) C \<and> stands (set (set_data (epos e) data R)) C (m(ekey e := Some data))"
proof -
  have i: "holds s P R" "chains P C (epos ` set R)" "tidy (set R) C" and lay: "layout P R"
    using assms(1) by (simp_all add: db_inv_def holds_def)
  let ?s = "s\<lparr>datfd := \<lparr>contents = dat_file (set_data (epos e) data R), fpos = edat e + int (length data) + 1\<rparr>,
      datoff := edat e, datlen := int (length data) + 1\<rparr>"
  note l = layout_set_data [OF lay assms(3,6,7)]
  note st = set_updates(1) [OF lay assms(3), of data]
  have t: "tidy (set (set_data (epos e) data R)) C" "stands (set (set_data (epos e) data R)) C (m(ekey e := Some data))"
    using tidy_update [OF i(3) assms(2-4), of "e\<lparr>edata := data\<rparr>"] unfolding st by simp_all
  have "holds ?s P (set_data (epos e) data R)" using i(1) l by (simp add: holds_def)
  then have "db_inv ?s P (set_data (epos e) data R) C" using assms(1) i(2) t(1) by (simp add: db_inv_def)
  moreover have "fixed ?s = fixed s" "idx_size ?s = idx_size s" by (simp_all add: fixed_def stats_def idx_size_def)
  ultimately show ?thesis using db_writedat_at [OF i(1) assms(3,6)] t(2) by blast
qed

lemma store_found_map:
  assumes "db_inv db P R C" "stands (set R) C m" "e \<in> set R" "live C e" "current P e db"
    "C (slot_of (ekey e)) = us @ epos e # vs" "ptroff db = last (slot_of (ekey e) # us)"
    "locks db = [((False, slot_of (ekey e), 1), Write_lock)]" "chainoff db = slot_of (ekey e)"
    "valid_key (ekey e)" "valid_data data" "idx_size db \<le> PTR_MAX" "flag \<noteq> Other_flag"
  shows "\<exists>db'. store_found (ekey e) data flag db = Some (Inr (store_rc (Some (edata e)) flag), db') \<and>
    storing db' (ekey e) (stored (ekey e) data flag m) \<and> errno db' = errno db \<and> idx_size db' \<le> idx_size db + 1035"
proof -
  let ?k = "ekey e"
  have mk: "m ?k = Some (edata e)" using assms(2-4) unfolding stands_def by blast
  have st: "storing db ?k m" using assms(1,2,8,9) unfolding storing_def by blast
  have cur: "datlen db = int (length (edata e)) + 1" "datoff db = edat e" using assms(5) by (simp_all add: current_def)
  note len = valid_lengths(1) [OF assms(11)]
  consider "flag = DB_INSERT" | "flag \<noteq> DB_INSERT" "length data \<noteq> length (edata e)" | "flag \<noteq> DB_INSERT" "length data = length (edata e)" by blast
  then show ?thesis
  proof cases
    case 1
    let ?d = "db\<lparr>cnt_storerr := cnt_storerr db + 1\<rparr>"
    have "storing ?d ?k m" using st by (rule storing_counted) (simp_all add: counted_def)
    then show ?thesis using 1 mk by (simp add: store_found_def store_rc_def stored_def idx_size_def)
  next
    case 2
    have rc: "store_rc (Some (edata e)) flag = 0" using 2 assms(13) by (cases flag) (simp_all add: store_rc_def)
    obtain d1 P' R' C' where d1: "db_dodelete db = Some (Inr (), d1)" "fixed d1 = fixed db" "db_inv d1 P' R' C'"
      "stands (set R') C' (m(?k := None))" "idx_size d1 = idx_size db"
      using dodelete_inv [OF assms(1-7)] storing_quiet [OF assms(8)] by blast
    have s1: "storing d1 ?k (m(?k := None))" by (rule storing_fixed [OF st d1(2-4)])
    have c1: "chainoff d1 = slot_of ?k" using d1(2) assms(9) by (simp add: fixed_def)
    obtain ptr d2 d3 where d3: "db_readptr (slot_of ?k) d1 = Some (Inr ptr, d2)" "store_append ?k data ptr d2 = Some (Inr (), d3)"
      "storing d3 ?k (m(?k := None, ?k := Some data))" "stats d3 = stats d1" "idx_size d3 \<le> idx_size d1 + 1035"
      using store_append_storing [OF s1 _ assms(10,11)] d1(5) assms(12) by auto
    let ?d = "d3\<lparr>cnt_stor3 := cnt_stor3 d3 + 1\<rparr>"
    have "store_found ?k data flag db = Some (Inr 0, ?d)"
      using 2 cur c1 by (simp add: store_found_def len dbind_Some [of db_dodelete, OF d1(1)] dbind_Some [of "db_readptr (slot_of ?k)", OF d3(1)]
        dbind_Some [of "store_append ?k data ptr", OF d3(2)])
    moreover have "storing d3 ?k (m(?k := Some data))" using d3(3) by simp
    then have "storing ?d ?k (m(?k := Some data))" by (rule storing_counted) (simp_all add: counted_def)
    moreover have "errno ?d = errno db" using d3(4) d1(2) by (simp add: fixed_def stats_def)
    ultimately show ?thesis using rc mk d1(5) d3(5) by (auto simp: stored_def idx_size_def)
  next
    case 3
    have rc: "store_rc (Some (edata e)) flag = 0" using 3 assms(13) by (cases flag) (simp_all add: store_rc_def)
    have nn: "no_null data" using assms(11) by (simp add: valid_data_def)
    obtain d1 where d1: "db_writedat data (edat e) SEEK_SET db = Some (Inr (), d1)" "fixed d1 = fixed db" "idx_size d1 = idx_size db"
      "db_inv d1 P (set_data (epos e) data R) C" "stands (set (set_data (epos e) data R)) C (m(?k := Some data))"
      using overwrite_inv [OF assms(1-4) cur(2) 3(2) nn] by blast
    let ?d = "d1\<lparr>cnt_stor4 := cnt_stor4 d1 + 1\<rparr>"
    have "store_found ?k data flag db = Some (Inr 0, ?d)"
      using 3 cur by (simp add: store_found_def len [unfolded 3(2)] dbind_Some [of "db_writedat data (edat e) SEEK_SET", OF d1(1)])
    moreover have "storing ?d ?k (m(?k := Some data))"
      using storing_fixed [OF st d1(2,4,5)] by (rule storing_counted) (simp_all add: counted_def)
    moreover have "errno ?d = errno db" using d1(2) by (simp add: fixed_def stats_def)
    ultimately show ?thesis using rc mk d1(3) by (auto simp: stored_def idx_size_def)
  qed
qed

lemma db_store_map:
  assumes "represents db m" "valid_key key" "valid_data data" "idx_size db \<le> PTR_MAX" "flag \<noteq> Other_flag"
  shows "\<exists>db'. db_store key data flag db = Some (Inr (store_rc (m key) flag), db') \<and> represents db' (stored key data flag m) \<and>
    errno db' = (if flag = DB_REPLACE \<and> m key = None then ENOENT else errno db) \<and> idx_size db' \<le> idx_size db + 1035"
proof -
  obtain P R C where i: "db_inv db P R C" "stands (set R) C m" "locks db = []" "holds db P R" using representsE [OF assms(1)] .
  have len: "DATLEN_MIN \<le> int (length data) + 1" "int (length data) + 1 \<le> DATLEN_MAX"
    using assms(3) by (simp_all add: valid_data_def DATLEN_MIN_def Suc_le_eq)
  let ?rest = "\<lambda>rc. dbind (if rc < 0 then store_new key data flag else store_found key data flag) (\<lambda>rc. dbind unlock_chain (\<lambda>_. ret rc))"
  have start: "db_store key data flag db = dbind (db_find_and_lock key True) ?rest db"
    using assms(5) len valid_lengths(1) [OF assms(3)] by (simp add: db_store_def)
  have finish: "dbind m (\<lambda>rc. dbind unlock_chain (\<lambda>_. ret rc)) d = Some (Inr rc, d'\<lparr>locks := []\<rparr>) \<and> represents (d'\<lparr>locks := []\<rparr>) m'"
    if "m d = Some (Inr rc, d')" "storing d' key m'" for m :: "int dbm" and d d' rc m'
    using storing_unlock [OF that(2)] by (simp add: dbind_Some [of m, OF that(1)] dbind_Some [of unlock_chain])
  show ?thesis
  proof (cases "m key")
    case None
    obtain d1 where d1: "db_find_and_lock key True db = Some (Inr (-1), d1)" "same (started key Write_lock db) d1"
      using find_and_lock_absent [OF i(1,3,2) None, of True] by auto
    note s = same_started [OF d1(2) i(3)]
    have st: "storing d1 key m" using counted_inv [OF s(1) i(1)] i(2) s(2,3) unfolding storing_def by blast
    have sz: "idx_size d1 = idx_size db" "errno d1 = errno db" using s(1,4) by (simp_all add: counted_def idx_size_def stats_def)
    obtain d2 where d2: "store_new key data flag d1 = Some (Inr (store_rc None flag), d2)" "storing d2 key (stored key data flag m)"
      "errno d2 = (if flag = DB_REPLACE then ENOENT else errno d1)" "idx_size d2 \<le> idx_size d1 + 1035"
      using store_new_map [OF st None assms(2,3) _ assms(5)] sz(1) assms(4) by auto
    show ?thesis using finish [of "store_new key data flag", OF d2(1,2)] d2(3,4) sz None
      by (intro exI [of _ "d2\<lparr>locks := []\<rparr>"]) (simp add: start dbind_Some [of "db_find_and_lock key True", OF d1(1)] idx_size_def)
  next
    case (Some old)
    then obtain e where e: "e \<in> set R" "live C e" "ekey e = key" "edata e = old" using i(2) unfolding stands_def by blast
    obtain d1 us vs where d1: "db_find_and_lock key True db = Some (Inr 0, d1)" "same (started key Write_lock db) d1" "current P e d1"
      "C (slot_of (ekey e)) = us @ epos e # vs" "ptroff d1 = last (slot_of (ekey e) # us)"
      using find_and_lock_found [OF i(1,3) e(1,2), of True] e(3) by auto
    note s = same_started [OF d1(2) i(3)]
    have sz: "idx_size d1 = idx_size db" "errno d1 = errno db" using s(1,4) by (simp_all add: counted_def idx_size_def stats_def)
    obtain d2 where d2: "store_found key data flag d1 = Some (Inr (store_rc (Some old) flag), d2)" "storing d2 key (stored key data flag m)"
      "errno d2 = errno d1" "idx_size d2 \<le> idx_size d1 + 1035"
      using store_found_map [OF counted_inv [OF s(1) i(1)] i(2) e(1,2) d1(3-5), of data flag] s(2,3) assms(2-5) sz(1) e(3,4) by auto
    show ?thesis using finish [of "store_found key data flag", OF d2(1,2)] d2(3,4) sz Some
      by (intro exI [of _ "d2\<lparr>locks := []\<rparr>"]) (simp add: start dbind_Some [of "db_find_and_lock key True", OF d1(1)] idx_size_def)
  qed
qed

end
