(* ===== verification/DbScan.thy ===== *)
theory DbScan
  imports DbStore
begin

text \<open>
  Opening a database, and stepping through its records with \<open>db_rewind\<close> and \<open>db_nextrec\<close>.
\<close>

section \<open>Opening\<close>

lemma strcat_times_eq: "strcat_times n s t = t @ concat (replicate n s)"
  by (induction n arbitrary: t) auto

lemma hash_table_header: "hash_table = header (\<lambda>_. 0)"
proof -
  have "unat (NHASH_DEF + 1) = 138" by (simp add: NHASH_DEF_def)
  moreover have "map (\<lambda>a. pad PTR_SZ 0) heads = replicate 138 (pad PTR_SZ 0)" by (simp add: map_replicate_const heads_def)
  ultimately show ?thesis unfolding hash_table_def header_def by (simp only: strcat_times_eq append_Nil)
qed

lemma empty_layout: "layout (\<lambda>_. 0) []" "idx_file (\<lambda>_. 0) [] = hash_table" "dat_file [] = []"
  by (simp_all add: layout_def slots_def idx_file_def dat_file_def hash_table_header PTR_MAX_def)

lemma length_hash_table: "int (length hash_table) = first_record"
  unfolding hash_table_header by (rule length_header) (simp add: PTR_MAX_def)

text \<open>The line \<open>char hash[(NHASH_DEF + 1) * PTR_SZ + 2]\<close> holds the table and its null byte.\<close>

lemma hash_table_fits: "int (length hash_table) + 1 \<le> (uint NHASH_DEF + 1) * PTR_SZ + 2"
  by (simp add: length_hash_table first_record_def NHASH_DEF_def PTR_SZ_def)

lemma db_rewind_at:
  assumes "nhash db = NHASH_DEF"
  shows "db_rewind db = Some (Inr (), db\<lparr>idxfd := (idxfd db)\<lparr>fpos := first_record\<rparr>, idxoff := first_record\<rparr>)"
proof -
  have "(uint (nhash db) + 1) * PTR_SZ + 1 = first_record" by (simp add: assms NHASH_DEF_def PTR_SZ_def first_record_def)
  then show ?thesis by (simp add: db_rewind_def seek_set first_record_def)
qed

lemma db_open_create:
  "\<exists>db. db_open True True idx dat = Inr (Some db) \<and> represents db Map.empty \<and> idx_size db = first_record \<and> fpos (idxfd db) = first_record"
proof -
  let ?f = "\<lparr>contents = [], fpos = 0\<rparr>"
  have o: "open_contents True True f = Some ?f" for f by (cases f) (simp_all add: open_contents_def)
  let ?db = "db_alloc ?f ?f\<lparr>nhash := NHASH_DEF, hashoff := HASH_OFF\<rparr>"
  let ?d1 = "?db\<lparr>idxfd := \<lparr>contents = hash_table, fpos = first_record\<rparr>\<rparr>"
  let ?d2 = "?d1\<lparr>idxoff := first_record\<rparr>"
  have w: "write_bytes ?f hash_table = \<lparr>contents = hash_table, fpos = first_record\<rparr>"
    using write_bytes_end [of ?f hash_table] length_hash_table by simp
  have "db_init True True ?db = db_rewind ?d1"
    using w by (simp add: db_init_def dbind_assoc set_lock_def un_lock_def idx_write_def db_alloc_def)
  also have "\<dots> = Some (Inr (), ?d2)" by (simp add: db_rewind_at)
  finally have "db_open True True idx dat = Inr (Some ?d2)" by (simp add: db_open_def o)
  moreover have "holds ?d2 (\<lambda>_. 0) []" by (simp add: holds_def empty_layout db_alloc_def)
  then have "db_inv ?d2 (\<lambda>_. 0) [] (\<lambda>_. [])" by (simp add: db_inv_def chains_def tidy_def)
  then have "represents ?d2 Map.empty" by (rule representsI) (simp_all add: stands_def db_alloc_def)
  ultimately show ?thesis by (auto simp: idx_size_def length_hash_table)
qed

text \<open>Opening existing files without \<open>O_TRUNC\<close>, and so what \<open>db_close\<close> has left.\<close>

lemma db_open_existing:
  assumes "represents db m" "db_close db = (i, d)"
  shows "\<exists>db'. db_open creat False (Some i) (Some d) = Inr (Some db') \<and> represents db' m \<and> idx_size db' = idx_size db \<and>
    fpos (idxfd db') = first_record"
proof -
  obtain P R C where iv: "db_inv db P R C" "stands (set R) C m" using representsE [OF assms(1)] .
  let ?db = "db_alloc \<lparr>contents = i, fpos = 0\<rparr> \<lparr>contents = d, fpos = 0\<rparr>\<lparr>nhash := NHASH_DEF, hashoff := HASH_OFF\<rparr>"
  let ?d = "?db\<lparr>idxfd := (idxfd ?db)\<lparr>fpos := first_record\<rparr>, idxoff := first_record\<rparr>"
  have "db_init creat False ?db = Some (Inr (), ?d)" by (simp add: db_init_def db_rewind_at)
  then have "db_open creat False (Some i) (Some d) = Inr (Some ?d)" by (simp add: db_open_def open_contents_def)
  moreover have "db_inv ?d P R C"
    by (rule counted_inv [OF _ iv(1)]) (use assms(2) iv(1) in \<open>auto simp: counted_def db_close_def db_alloc_def db_inv_def\<close>)
  then have "represents ?d m" by (rule representsI [OF _ iv(2)]) (simp add: db_alloc_def)
  ultimately show ?thesis using assms(2) by (auto simp: idx_size_def db_close_def db_alloc_def)
qed

section \<open>Stepping through the records\<close>

text \<open>The next record to be read is the first of \<open>vs\<close>.\<close>

definition next_at :: "db \<Rightarrow> entry list \<Rightarrow> entry list \<Rightarrow> bool" where
  "next_at db us vs \<longleftrightarrow> fpos (idxfd db) = first_record + (\<Sum>e\<leftarrow>us. esize e)"

lemma next_at_epos:
  assumes "layout P (us @ e # vs)" "next_at db us (e # vs)"
  shows "fpos (idxfd db) = epos e" "next_at (loaded P e db) (us @ [e]) vs"
  using assms by (simp_all add: layout_def placed_append next_at_def loaded_def)

lemma nextrec_loop_at:
  assumes "holds db P R" "tidy (set R) C" "R = us @ vs" "next_at db us vs"
  shows "(\<not> (\<exists>e \<in> set vs. live C e) \<and> (\<exists>db'. nextrec_loop db = Some (Inr False, db') \<and> same db db')) \<or>
    (\<exists>ds e ws db'. vs = ds @ e # ws \<and> \<not> (\<exists>x \<in> set ds. live C x) \<and> live C e \<and> nextrec_loop db = Some (Inr True, db') \<and>
      same db db' \<and> current P e db' \<and> next_at db' (us @ ds @ [e]) ws)"
  using assms
proof (induction vs arbitrary: us db)
  case Nil
  have l: "layout P R" "contents (idxfd db) = idx_file P R" using Nil.prems(1) by (simp_all add: holds_def)
  have "fpos (idxfd db) = int (length (contents (idxfd db)))" using Nil.prems(3,4) length_idx [OF l(1)] l(2) by (simp add: next_at_def)
  note r = db_readidx_eof [OF this]
  have "nextrec_loop db = Some (Inr False, db\<lparr>idxoff := fpos (idxfd db)\<rparr>)"
    by (subst nextrec_loop.simps) (simp add: dbind_Some [of "db_readidx 0", OF r])
  then show ?case by (auto simp: same_def fixed_def stats_def)
next
  case (Cons e vs)
  have l: "layout P R" "contents (idxfd db) = idx_file P R" using Cons.prems(1) by (simp_all add: holds_def)
  have e: "e \<in> set R" using Cons.prems(3) by simp
  note n = next_at_epos [OF l(1) [unfolded Cons.prems(3)] Cons.prems(4)]
  note r = db_readidx_next [OF l e n(1)]
  have p: "0 \<le> P (epos e)" by (rule layoutD(2) [OF l(1) e])
  have b: "blank (ekey e) \<longleftrightarrow> \<not> live C e" using tidyD [OF Cons.prems(2) e] by (auto simp: valid_key_def)
  have step: "nextrec_loop db = (if \<not> live C e then nextrec_loop (loaded P e db) else Some (Inr True, loaded P e db))"
    using b p by (subst nextrec_loop.simps) (simp add: dbind_Some [of "db_readidx 0", OF r] loaded_def blank_def)
  show ?case
  proof (cases "live C e")
    case True
    then have "nextrec_loop db = Some (Inr True, loaded P e db)" using step by simp
    moreover have "next_at (loaded P e db) (us @ [] @ [e]) vs" using n(2) by simp
    ultimately have "e # vs = [] @ e # vs \<and> \<not> (\<exists>x \<in> set []. live C x) \<and> live C e \<and> nextrec_loop db = Some (Inr True, loaded P e db) \<and>
      same db (loaded P e db) \<and> current P e (loaded P e db) \<and> next_at (loaded P e db) (us @ [] @ [e]) vs" using True by simp
    then show ?thesis by blast
  next
    case False
    then have st: "nextrec_loop db = nextrec_loop (loaded P e db)" using step by simp
    have "holds (loaded P e db) P R" "R = (us @ [e]) @ vs" using Cons.prems(1,3) by simp_all
    from Cons.IH [OF this(1) Cons.prems(2) this(2) n(2)] show ?thesis
    proof (elim disjE conjE exE)
      fix db' assume "\<not> (\<exists>e \<in> set vs. live C e)" "nextrec_loop (loaded P e db) = Some (Inr False, db')" "same (loaded P e db) db'"
      then show ?thesis unfolding st using False same_trans [OF same_loaded(1)] by (metis set_ConsD)
    next
      fix ds x ws db' assume a: "vs = ds @ x # ws" "\<not> (\<exists>x \<in> set ds. live C x)" "live C x" "nextrec_loop (loaded P e db) = Some (Inr True, db')"
        "same (loaded P e db) db'" "current P x db'" "next_at db' ((us @ [e]) @ ds @ [x]) ws"
      have "e # vs = (e # ds) @ x # ws \<and> \<not> (\<exists>y \<in> set (e # ds). live C y) \<and> live C x \<and> nextrec_loop db = Some (Inr True, db') \<and>
        same db db' \<and> current P x db' \<and> next_at db' (us @ (e # ds) @ [x]) ws"
        using a False same_trans [OF same_loaded(1) a(5)] by (simp add: st)
      then show ?thesis by blast
    qed
  qed
qed

text \<open>One call of \<open>db_nextrec\<close>, without change to what the database stands for.\<close>

definition scanning :: "db \<Rightarrow> (string \<rightharpoonup> string) \<Rightarrow> (string \<times> string) list \<Rightarrow> bool" where
  \<comment> \<open>the pairs are still to come\<close>
  "scanning db m kvs \<longleftrightarrow> (\<exists>P R C us vs. db_inv db P R C \<and> stands (set R) C m \<and> R = us @ vs \<and> next_at db us vs \<and>
    kvs = map (\<lambda>e. (ekey e, edata e)) (filter (live C) vs)) \<and> locks db = []"

lemma scanningI:
  "db_inv db P R C \<Longrightarrow> stands (set R) C m \<Longrightarrow> next_at db us vs \<Longrightarrow> R = us @ vs \<Longrightarrow> locks db = [] \<Longrightarrow>
    kvs = map (\<lambda>e. (ekey e, edata e)) (filter (live C) vs) \<Longrightarrow> scanning db m kvs"
  unfolding scanning_def by blast

lemma db_nextrec_at:
  assumes "scanning db m kvs"
  shows "\<exists>db'. db_nextrec db = Some (Inr (case kvs of [] \<Rightarrow> None | kv # _ \<Rightarrow> Some kv), db') \<and>
    represents db' m \<and> (kvs \<noteq> [] \<longrightarrow> scanning db' m (tl kvs)) \<and> idx_size db' = idx_size db"
proof -
  obtain P R C us vs where iv: "db_inv db P R C" "stands (set R) C m" "R = us @ vs" "next_at db us vs"
    "kvs = map (\<lambda>e. (ekey e, edata e)) (filter (live C) vs)" "locks db = []"
    using assms unfolding scanning_def by blast
  let ?s = "db\<lparr>locks := [((False, FREE_OFF, 1), Read_lock)]\<rparr>"
  have start: "db_nextrec db = dbind nextrec_loop (\<lambda>found.
    dbind (if \<not> found then ret None
           else dbind (get idxbuf) (\<lambda>key. dbind db_readdat (\<lambda>data.
             dbind (modify (\<lambda>db. db\<lparr>cnt_nextrec := cnt_nextrec db + 1\<rparr>)) (\<lambda>_. ret (Some (key, data)))))) (\<lambda>r.
    dbind (un_lock (False, FREE_OFF, 1)) (\<lambda>_. ret r))) ?s"
    by (simp add: db_nextrec_def set_lock_def iv(6))
  have h: "holds ?s P R" "tidy (set R) C" using iv(1) by (simp_all add: db_inv_def holds_def)
  have n: "next_at ?s us vs" using iv(4) by (simp add: next_at_def)
  have cs: "counted db d" if "same ?s d" for d using same_counted [OF that] by (simp add: counted_def)
  from nextrec_loop_at [OF h iv(3) n] show ?thesis
  proof (elim disjE conjE exE)
    fix d assume a: "\<not> (\<exists>e \<in> set vs. live C e)" "nextrec_loop ?s = Some (Inr False, d)" "same ?s d"
    have "locks d = [((False, FREE_OFF, 1), Read_lock)]" using a(3) by (simp add: same_def fixed_def)
    then have "db_nextrec db = Some (Inr None, d\<lparr>locks := []\<rparr>)" by (simp add: start dbind_Some [of nextrec_loop, OF a(2)] un_lock_def)
    moreover have "kvs = []" using a(1) iv(5) by simp
    moreover have c: "counted db (d\<lparr>locks := []\<rparr>)" using cs [OF a(3)] by (simp add: counted_def)
    then have "represents (d\<lparr>locks := []\<rparr>) m" by (intro representsI [OF counted_inv [OF c iv(1)] iv(2)]) simp
    ultimately show ?thesis using c by (auto simp: counted_def idx_size_def)
  next
    fix ds e ws d
    assume a: "vs = ds @ e # ws" "\<not> (\<exists>x \<in> set ds. live C x)" "live C e" "nextrec_loop ?s = Some (Inr True, d)"
      "same ?s d" "current P e d" "next_at d (us @ ds @ [e]) ws"
    have hd: "holds d P R" using same_holds [OF a(5)] h(1) by blast
    have cur: "datoff d = edat e" "datlen d = int (length (edata e)) + 1" "idxbuf d = ekey e" using a(6) by (simp_all add: current_def)
    have e: "e \<in> set R" using iv(3) a(1) by simp
    define d1 where "d1 = d\<lparr>datfd := (datfd d)\<lparr>fpos := edat e + int (length (edata e)) + 1\<rparr>, datbuf := edata e\<rparr>"
    note r = dbind_Some [of db_readdat, OF db_readdat_at [OF hd e cur(1,2), folded d1_def]]
    let ?d2 = "d1\<lparr>cnt_nextrec := cnt_nextrec d1 + 1, locks := []\<rparr>"
    have "locks d1 = [((False, FREE_OFF, 1), Read_lock)]" using a(5) by (simp add: same_def fixed_def d1_def)
    then have x: "db_nextrec db = Some (Inr (Some (ekey e, edata e)), ?d2)"
      using cur(3) by (simp add: start dbind_Some [of nextrec_loop, OF a(4)] r dbind_assoc un_lock_def)
    have k: "kvs = (ekey e, edata e) # map (\<lambda>e. (ekey e, edata e)) (filter (live C) ws)" using iv(5) a(1-3) by (simp add: filter_False)
    have c: "counted db ?d2" using cs [OF a(5)] by (simp add: counted_def d1_def)
    then have i2: "db_inv ?d2 P R C" by (rule counted_inv [OF _ iv(1)])
    have rep: "represents ?d2 m" by (rule representsI [OF i2 iv(2)]) simp
    have "next_at ?d2 (us @ ds @ [e]) ws" using a(7) by (simp add: next_at_def d1_def)
    moreover have "R = (us @ ds @ [e]) @ ws" using iv(3) a(1) by simp
    moreover have "locks ?d2 = []" by simp
    moreover have "tl kvs = map (\<lambda>e. (ekey e, edata e)) (filter (live C) ws)" using k by simp
    ultimately have "scanning ?d2 m (tl kvs)" by (intro scanningI [OF i2 iv(2)])
    then show ?thesis using x k rep c by (auto simp: counted_def idx_size_def)
  qed
qed

text \<open>A client that calls \<open>db_nextrec\<close> until it returns \<open>NULL\<close>.\<close>

partial_function (option) rest_records :: "(string \<times> string) list dbm" where
  "rest_records db = dbind db_nextrec (\<lambda>r db. case r of
     None \<Rightarrow> Some (Inr [], db)
   | Some kv \<Rightarrow> dbind rest_records (\<lambda>kvs. ret (kv # kvs)) db) db"

definition all_records :: "(string \<times> string) list dbm" where
  "all_records = dbind db_rewind (\<lambda>_. rest_records)"

lemma rest_records_at:
  "scanning db m kvs \<Longrightarrow> \<exists>db'. rest_records db = Some (Inr kvs, db') \<and> represents db' m \<and> idx_size db' = idx_size db"
proof (induction kvs arbitrary: db)
  case Nil
  obtain db' where "db_nextrec db = Some (Inr None, db')" "represents db' m" "idx_size db' = idx_size db" using db_nextrec_at [OF Nil] by auto
  then show ?case by (subst rest_records.simps) (simp add: dbind_Some [of db_nextrec])
next
  case (Cons kv kvs)
  obtain d where d: "db_nextrec db = Some (Inr (Some kv), d)" "scanning d m kvs" "idx_size d = idx_size db" using db_nextrec_at [OF Cons.prems] by auto
  obtain db' where "rest_records d = Some (Inr kvs, db')" "represents db' m" "idx_size db' = idx_size d" using Cons.IH [OF d(2)] by blast
  then show ?case using d by (subst rest_records.simps) (simp add: dbind_Some [of db_nextrec] dbind_Some [of rest_records])
qed

lemma all_records_map:
  assumes "represents db m"
  shows "\<exists>kvs db'. all_records db = Some (Inr kvs, db') \<and> distinct (map fst kvs) \<and> map_of kvs = m \<and>
    represents db' m \<and> idx_size db' = idx_size db"
proof -
  obtain P R C where iv: "db_inv db P R C" "stands (set R) C m" "locks db = []" "holds db P R" using representsE [OF assms] .
  let ?d = "db\<lparr>idxfd := (idxfd db)\<lparr>fpos := first_record\<rparr>, idxoff := first_record\<rparr>"
  let ?kvs = "map (\<lambda>e. (ekey e, edata e)) (filter (live C) R)"
  have n: "nhash db = NHASH_DEF" and td: "tidy (set R) C" and lay: "layout P R" using iv(1) by (simp_all add: db_inv_def holds_def)
  have "db_inv ?d P R C" by (rule counted_inv [OF _ iv(1)]) (simp add: counted_def)
  moreover have "next_at ?d [] R" by (simp add: next_at_def)
  ultimately have "scanning ?d m ?kvs" by (rule scanningI [OF _ iv(2)]) (simp_all add: iv(3))
  then obtain db' where "rest_records ?d = Some (Inr ?kvs, db')" "represents db' m" "idx_size db' = idx_size ?d" using rest_records_at by blast
  moreover have "all_records db = rest_records ?d" by (simp add: all_records_def dbind_Some [of db_rewind, OF db_rewind_at [OF n]])
  moreover have "inj_on ekey (set (filter (live C) R))" using tidyD(4) [OF td] by (auto simp: inj_on_def)
  moreover have "distinct R" using placed_distinct [of first_record 0 R] lay by (simp add: layout_def distinct_map)
  ultimately have *: "all_records db = Some (Inr ?kvs, db')" "distinct (map fst ?kvs)" "represents db' m" "idx_size db' = idx_size db"
    by (simp_all add: distinct_map comp_def idx_size_def)
  have "map_of ?kvs k = m k" for k
  proof (cases "m k")
    case None
    then have "k \<notin> fst ` set ?kvs" using iv(2) unfolding stands_def by force
    then show ?thesis using None by (simp add: map_of_eq_None_iff)
  next
    case (Some d)
    then have "(k, d) \<in> set ?kvs" using iv(2) unfolding stands_def by force
    then show ?thesis using Some *(2) by (simp add: map_of_is_SomeI)
  qed
  then show ?thesis using * by blast
qed

end
