(* ===== verification/DbMain.thy ===== *)
theory DbMain
  imports DbScan
begin

text \<open>
  The database of \<^verbatim>\<open>src/apue/db\<close> as a whole: its interface to clients, sequences of
  requests, the program \<^verbatim>\<open>t4.c\<close>, and what happens outside the bounds.
\<close>

section \<open>The interface of a key-value store\<close>

datatype request = Fetch string | Store string string store_flag | Delete string
datatype reply = Fetched "string option" | Status int

fun valid_request :: "request \<Rightarrow> bool" where
  "valid_request (Fetch k) \<longleftrightarrow> True"
| "valid_request (Store k d flag) \<longleftrightarrow> valid_key k \<and> valid_data d \<and> flag \<noteq> Other_flag"
| "valid_request (Delete k) \<longleftrightarrow> True"

text \<open>The requests on a map.\<close>

fun request_spec :: "request \<Rightarrow> (string \<rightharpoonup> string) \<Rightarrow> reply \<times> (string \<rightharpoonup> string)" where
  "request_spec (Fetch k) m = (Fetched (m k), m)"
| "request_spec (Store k d flag) m = (Status (store_rc (m k) flag), stored k d flag m)"
| "request_spec (Delete k) m = (Status (if m k = None then -1 else 0), m(k := None))"

fun requests_spec :: "request list \<Rightarrow> (string \<rightharpoonup> string) \<Rightarrow> reply list \<times> (string \<rightharpoonup> string)" where
  "requests_spec [] m = ([], m)"
| "requests_spec (r # rs) m = (let (x, m) = request_spec r m; (xs, m) = requests_spec rs m in (x # xs, m))"

text \<open>The requests on an implementation.\<close>

type_synonym ('s, 'a) action = "'s \<Rightarrow> ((db_exit + 'a) \<times> 's) option"

fun replied :: "('a \<Rightarrow> reply) \<Rightarrow> ((db_exit + 'a) \<times> 's) option \<Rightarrow> ((db_exit + reply) \<times> 's) option" where
  "replied f None = None"
| "replied f (Some (Inl e, s)) = Some (Inl e, s)"
| "replied f (Some (Inr x, s)) = Some (Inr (f x), s)"

fun respond :: "(string \<Rightarrow> ('s, string option) action) \<Rightarrow> (string \<Rightarrow> string \<Rightarrow> store_flag \<Rightarrow> ('s, int) action) \<Rightarrow>
    (string \<Rightarrow> ('s, int) action) \<Rightarrow> request \<Rightarrow> ('s, reply) action" where
  "respond fetch store delete (Fetch k) s = replied Fetched (fetch k s)"
| "respond fetch store delete (Store k d flag) s = replied Status (store k d flag s)"
| "respond fetch store delete (Delete k) s = replied Status (delete k s)"

fun respond_all :: "(string \<Rightarrow> ('s, string option) action) \<Rightarrow> (string \<Rightarrow> string \<Rightarrow> store_flag \<Rightarrow> ('s, int) action) \<Rightarrow>
    (string \<Rightarrow> ('s, int) action) \<Rightarrow> request list \<Rightarrow> ('s, reply list) action" where
  "respond_all fetch store delete [] s = Some (Inr [], s)"
| "respond_all fetch store delete (r # rs) s = (case respond fetch store delete r s of
     None \<Rightarrow> None | Some (Inl e, s) \<Rightarrow> Some (Inl e, s)
   | Some (Inr x, s) \<Rightarrow> (case respond_all fetch store delete rs s of
       None \<Rightarrow> None | Some (Inl e, s) \<Rightarrow> Some (Inl e, s) | Some (Inr xs, s) \<Rightarrow> Some (Inr (x # xs), s)))"

text \<open>\<open>rep n s m\<close>: the state stands for the map and has room for \<open>n\<close> more stores.\<close>

locale key_value_store =
  fixes fetch :: "string \<Rightarrow> ('s, string option) action"
    and store :: "string \<Rightarrow> string \<Rightarrow> store_flag \<Rightarrow> ('s, int) action"
    and delete :: "string \<Rightarrow> ('s, int) action"
    and rep :: "nat \<Rightarrow> 's \<Rightarrow> (string \<rightharpoonup> string) \<Rightarrow> bool"
  assumes fetch_law: "rep n s m \<Longrightarrow> \<exists>s'. fetch k s = Some (Inr (m k), s') \<and> rep n s' m"
    and store_law: "rep (Suc n) s m \<Longrightarrow> valid_key k \<Longrightarrow> valid_data d \<Longrightarrow> flag \<noteq> Other_flag \<Longrightarrow>
      \<exists>s'. store k d flag s = Some (Inr (store_rc (m k) flag), s') \<and> rep n s' (stored k d flag m)"
    and delete_law: "rep n s m \<Longrightarrow> \<exists>s'. delete k s = Some (Inr (if m k = None then -1 else 0), s') \<and> rep n s' (m(k := None))"
    and rep_Suc: "rep (Suc n) s m \<Longrightarrow> rep n s m"
begin

lemma respond_refines:
  assumes "rep (Suc n) s m" "valid_request r"
  shows "\<exists>s'. respond fetch store delete r s = Some (Inr (fst (request_spec r m)), s') \<and> rep n s' (snd (request_spec r m))"
proof (cases r)
  case (Fetch k)
  then show ?thesis using fetch_law [OF assms(1), of k] rep_Suc by auto
next
  case (Store k d flag)
  then show ?thesis using store_law [OF assms(1), of k d flag] assms(2) by auto
next
  case (Delete k)
  then show ?thesis using delete_law [OF assms(1), of k] rep_Suc by auto
qed

lemma respond_all_refines:
  "rep (length rs + n) s m \<Longrightarrow> list_all valid_request rs \<Longrightarrow>
    \<exists>s'. respond_all fetch store delete rs s = Some (Inr (fst (requests_spec rs m)), s') \<and> rep n s' (snd (requests_spec rs m))"
proof (induction rs arbitrary: s m)
  case (Cons r rs)
  obtain s1 where s1: "respond fetch store delete r s = Some (Inr (fst (request_spec r m)), s1)" "rep (length rs + n) s1 (snd (request_spec r m))"
    using respond_refines [of "length rs + n" s m r] Cons.prems by auto
  obtain s2 where "respond_all fetch store delete rs s1 = Some (Inr (fst (requests_spec rs (snd (request_spec r m)))), s2)"
    "rep n s2 (snd (requests_spec rs (snd (request_spec r m))))" using Cons.IH [OF s1(2)] Cons.prems(2) by auto
  then show ?case using s1(1) by (simp add: split_def Let_def)
qed simp

end

definition db_rep :: "nat \<Rightarrow> db \<Rightarrow> (string \<rightharpoonup> string) \<Rightarrow> bool" where
  "db_rep n db m \<longleftrightarrow> represents db m \<and> idx_size db + 1035 * int n \<le> PTR_MAX + 1035"

interpretation kv: key_value_store db_fetch db_store db_delete db_rep
proof
  fix n db m k
  show "db_rep n db m \<Longrightarrow> \<exists>db'. db_fetch k db = Some (Inr (m k), db') \<and> db_rep n db' m"
    using db_fetch_map [of db m k] unfolding db_rep_def by metis
  show "db_rep n db m \<Longrightarrow> \<exists>db'. db_delete k db = Some (Inr (if m k = None then -1 else 0), db') \<and> db_rep n db' (m(k := None))"
    using db_delete_map [of db m k] unfolding db_rep_def by metis
  show "db_rep (Suc n) db m \<Longrightarrow> db_rep n db m" by (simp add: db_rep_def)
  fix d flag
  assume "db_rep (Suc n) db m" "valid_key k" "valid_data d" "flag \<noteq> Other_flag"
  then show "\<exists>db'. db_store k d flag db = Some (Inr (store_rc (m k) flag), db') \<and> db_rep n db' (stored k d flag m)"
    using db_store_map [of db m k d flag] unfolding db_rep_def by fastforce
qed

section \<open>The program t4\<close>

definition t4_main :: "string option \<Rightarrow> string option \<Rightarrow> (db_exit + string \<times> string) option" where
  \<comment> \<open>what is left in the two files; the arguments are what was there before\<close>
  "t4_main idx dat = (case db_open True True idx dat of
     Inl e \<Rightarrow> Some (Inl e)
   | Inr None \<Rightarrow> Some (Inl (err_sys ''db_open error''))
   | Inr (Some db) \<Rightarrow>
      (case dbind (db_store ''Alpha'' ''data1'' DB_INSERT) (\<lambda>rc.
            dbind (check (rc = 0) (err_quit ''db_store error for alpha'')) (\<lambda>_.
            dbind (db_store ''beta'' ''Data for beta'' DB_INSERT) (\<lambda>rc.
            dbind (check (rc = 0) (err_quit ''db_store error for beta'')) (\<lambda>_.
            dbind (db_store ''gamma'' ''record3'' DB_INSERT) (\<lambda>rc.
            check (rc = 0) (err_quit ''db_store error for gamma'')))))) db of
         None \<Rightarrow> None
       | Some (Inl e, _) \<Rightarrow> Some (Inl e)
       | Some (Inr _, db) \<Rightarrow> Some (Inr (db_close db))))"

lemma t4_main_ok:
  "\<exists>db. t4_main idx dat = Some (Inr (db_close db)) \<and> represents db [''Alpha'' \<mapsto> ''data1'', ''beta'' \<mapsto> ''Data for beta'', ''gamma'' \<mapsto> ''record3'']"
proof -
  obtain d0 where d0: "db_open True True idx dat = Inr (Some d0)" "represents d0 Map.empty" "idx_size d0 = first_record"
    using db_open_create [of idx dat] by blast
  have r0: "db_rep 3 d0 Map.empty" using d0 by (simp add: db_rep_def first_record_def PTR_MAX_def)
  have v: "valid_key ''Alpha''" "valid_key ''beta''" "valid_key ''gamma''" "valid_data ''data1''" "valid_data ''Data for beta''" "valid_data ''record3''"
    by code_simp+
  have st: "stored k d DB_INSERT m = m(k \<mapsto> d)" "store_rc (m k) DB_INSERT = 0" if "m k = None" for k d m
    using that by (simp_all add: stored_def store_rc_def)
  obtain d1 where d1: "db_store ''Alpha'' ''data1'' DB_INSERT d0 = Some (Inr 0, d1)" "db_rep 2 d1 [''Alpha'' \<mapsto> ''data1'']"
    using kv.store_law [of 2 d0 Map.empty "''Alpha''" "''data1''" DB_INSERT] r0 v st by (auto simp: numeral_3_eq_3 numeral_2_eq_2)
  obtain d2 where d2: "db_store ''beta'' ''Data for beta'' DB_INSERT d1 = Some (Inr 0, d2)" "db_rep 1 d2 [''Alpha'' \<mapsto> ''data1'', ''beta'' \<mapsto> ''Data for beta'']"
    using kv.store_law [of 1 d1 "[''Alpha'' \<mapsto> ''data1'']" "''beta''" "''Data for beta''" DB_INSERT] d1(2) v st by (auto simp: numeral_2_eq_2)
  obtain d3 where d3: "db_store ''gamma'' ''record3'' DB_INSERT d2 = Some (Inr 0, d3)"
    "db_rep 0 d3 [''Alpha'' \<mapsto> ''data1'', ''beta'' \<mapsto> ''Data for beta'', ''gamma'' \<mapsto> ''record3'']"
    using kv.store_law [of 0 d2 "[''Alpha'' \<mapsto> ''data1'', ''beta'' \<mapsto> ''Data for beta'']" "''gamma''" "''record3''" DB_INSERT] d2(2) v st by auto
  have "t4_main idx dat = Some (Inr (db_close d3))"
    by (simp add: t4_main_def d0(1) dbind_Some [of "db_store ''Alpha'' ''data1'' DB_INSERT", OF d1(1)]
      dbind_Some [of "db_store ''beta'' ''Data for beta'' DB_INSERT", OF d2(1)] dbind_Some [of "db_store ''gamma'' ''record3'' DB_INSERT", OF d3(1)])
  then show ?thesis using d3(2) unfolding db_rep_def by blast
qed

section \<open>Outside the bounds\<close>

text \<open>A key with a separator: the line that \<open>_db_writeidx\<close> writes is one that \<open>_db_readidx\<close>
  rejects.\<close>

lemma parse_idx_separator:
  assumes "SEP \<in> set (ekey e)" "no_null (ekey e)" "0 \<le> edat e"
  shows "\<exists>db'. parse_idx (idx_line e) db = Some (Inl (err_dump ''_db_readidx: too many separators''), db')"
proof -
  let ?n = "int (length (edata e)) + 1"
  obtain k1 k2 where k: "ekey e = k1 @ SEP # k2" "SEP \<notin> set k1" using assms(1) by (metis split_list_first)
  let ?l = "ekey e @ SEP # print_int (edat e) @ SEP # print_int ?n"
  have d: "char_of (0 :: nat) \<notin> set (print_int i)" if "0 \<le> i" for i using print_int_digits [OF that] not_digit(2) by blast
  have "char_of (0 :: nat) \<notin> set ?l" using assms d [of "edat e"] d [of ?n] not_digit(3) by (auto simp: no_null_def)
  then have c: "c_str ?l = ?l" by (auto simp: c_str_def takeWhile_eq_all_conv)
  obtain r1 r2 where r: "k2 @ SEP # print_int (edat e) = r1 @ SEP # r2" "SEP \<notin> set r1"
    using split_list_first [of SEP "k2 @ SEP # print_int (edat e)"] by auto
  have l: "?l = k1 @ SEP # r1 @ SEP # r2 @ SEP # print_int ?n" using k(1) r(1) by (metis append.assoc append_Cons)
  have "cut_at SEP (c_str ?l) = Some (k1, r1 @ SEP # r2 @ SEP # print_int ?n)"
    unfolding c unfolding l using k(2) by simp
  moreover have "cut_at SEP (r1 @ SEP # r2 @ SEP # print_int ?n) = Some (r1, r2 @ SEP # print_int ?n)" using r(2) by simp
  moreover have "last (idx_line e) = NEWLINE" "butlast (idx_line e) = ?l" by (simp_all add: idx_line_def butlast_append)
  ultimately show ?thesis by (simp add: parse_idx_def)
qed

text \<open>A key longer than the buffer overruns it before the length is checked.\<close>

lemma db_writeidx_overrun:
  assumes "IDXLEN_MAX + 2 \<le> int (length key)" "0 \<le> ptr" "ptr \<le> PTR_MAX"
  shows "db_writeidx key off wh ptr db = Some (Inl (Undefined BadAccess), db\<lparr>ptrval := ptr\<rparr>)"
proof -
  have "\<not> int (length (key @ SEP # print_int a @ SEP # print_int b @ [NEWLINE])) + 1 \<le> IDXLEN_MAX + 2" for a b
    using assms(1) by simp
  then show ?thesis using assms(2,3) by (simp add: db_writeidx_def)
qed

text \<open>An index file larger than \<open>PTR_MAX\<close>: the record is already written when \<open>_db_writeptr\<close>
  refuses the pointer to it.\<close>

lemma store_append_too_far:
  assumes "e = new_entry db key data" "entry_ok e" "0 \<le> v" "v \<le> PTR_MAX" "PTR_MAX < epos e" "quiet (True, 0, 0) db" "quiet (records_lock db) db"
  shows "\<exists>db'. store_append key data v db = Some (Inl (err_quit ''_db_writeptr: invalid ptr: %d''), db') \<and>
    contents (idxfd db') = contents (idxfd db) @ idx_record ((\<lambda>_. 0)(epos e := v)) e"
proof -
  obtain p where w: "db_writedat data 0 SEEK_END db = Some (Inr (), db\<lparr>datfd := \<lparr>contents = contents (datfd db) @ data @ [NEWLINE], fpos = p\<rparr>,
    datoff := int (length (contents (datfd db))), datlen := int (length data) + 1\<rparr>)" (is "_ = Some (Inr (), ?d1)")
    using db_writedat_end [OF assms(6), of data] by auto
  have q: "quiet (records_lock ?d1) ?d1" using assms(7) by (simp add: quiet_def records_lock_def)
  have e1: "e = \<lparr>epos = epos e, edat = datoff ?d1, ekey = key, edata = data\<rparr>" using assms(1) by (simp add: new_entry_def)
  obtain p' b where x: "db_writeidx key 0 SEEK_END v ?d1 = Some (Inr (),
      ?d1\<lparr>idxfd := \<lparr>contents = contents (idxfd ?d1) @ idx_record ((\<lambda>_. 0)(epos e := v)) e, fpos = p'\<rparr>, ptrval := v, idxbuf := b, idxoff := epos e\<rparr>)"
    (is "_ = Some (Inr (), ?d2)")
    using db_writeidx_end [OF q assms(3,4) e1 _ assms(2)] assms(1) by (auto simp: new_entry_def)
  have "\<not> epos e \<le> PTR_MAX" using assms(5) by simp
  then have "store_append key data v db = Some (Inl (err_quit ''_db_writeptr: invalid ptr: %d''), ?d2)"
    by (simp add: store_append_def db_writeptr_def dbind_Some [of "db_writedat data 0 SEEK_END", OF w] dbind_Some [of "db_writeidx key 0 SEEK_END v", OF x])
  then show ?thesis by auto
qed

text \<open>Data of more than \<open>2 ^ 32\<close> characters: the length is cut to 32 bits before it is checked, and such
  data can pass.\<close>

lemma db_store_length_wraps:
  assumes "length data = 2 ^ 32 + 9"
  shows "DATLEN_MIN \<le> c_int (int (length data) + 1)" "c_int (int (length data) + 1) \<le> DATLEN_MAX"
  unfolding assms by (simp_all add: c_int_def DATLEN_MIN_def DATLEN_MAX_def)

text \<open>Files that do not exist are not opened without \<open>O_CREAT\<close>.\<close>

lemma db_open_missing: "db_open False trunc None dat = Inr None"
  by (simp add: db_open_def open_contents_def)

text \<open>\<open>O_CREAT\<close> without \<open>O_TRUNC\<close> creates an empty index file, without the hash table that every
  operation needs.\<close>

lemma db_open_no_table:
  "\<exists>db. db_open True False None None = Inr (Some db) \<and>
    (\<forall>key. \<exists>db'. db_fetch key db = Some (Inl (err_dump ''_db_readptr: read error of ptr field''), db'))"
proof -
  let ?db = "db_alloc \<lparr>contents = [], fpos = 0\<rparr> \<lparr>contents = [], fpos = 0\<rparr>\<lparr>nhash := NHASH_DEF, hashoff := HASH_OFF\<rparr>"
  let ?d = "?db\<lparr>idxfd := (idxfd ?db)\<lparr>fpos := first_record\<rparr>, idxoff := first_record\<rparr>"
  have "db_init True False ?db = Some (Inr (), ?d)" by (simp add: db_init_def db_rewind_at)
  then have "db_open True False None None = Inr (Some ?d)" by (simp add: db_open_def open_contents_def)
  moreover have "\<exists>db'. db_fetch key ?d = Some (Inl (err_dump ''_db_readptr: read error of ptr field''), db')" for key
  proof -
    have "0 \<le> slot_of key" using slot_of_bounds [of key] by auto
    then have "\<exists>db'. db_readptr (slot_of key) d = Some (Inl (err_dump ''_db_readptr: read error of ptr field''), db')" if "contents (idxfd d) = []" for d
      using that by (simp add: db_readptr_def seek_set) (simp add: dbind_def idx_read_def read_bytes_def PTR_SZ_def check_def exit_with_def)
    then obtain db' where "db_readptr (slot_of key) (started key Read_lock ?d) = Some (Inl (err_dump ''_db_readptr: read error of ptr field''), db')"
      by (force simp: started_def db_alloc_def)
    note x = dbind_exit [of "db_readptr (slot_of key)", OF this]
    have "db_find_and_lock key False ?d = dbind (db_readptr (slot_of key)) (\<lambda>offset. dbind (db_find_loop key offset) (\<lambda>offset. ret (if offset = 0 then -1 else 0)))
        (started key Read_lock ?d)"
      by (simp add: db_find_and_lock_def set_lock_def slot_of_def started_def db_alloc_def)
    then show ?thesis unfolding db_fetch_def x by (simp add: dbind_exit [of "db_find_and_lock key False"])
  qed
  ultimately show ?thesis by blast
qed

section \<open>Operations that change nothing on the disk\<close>

definition untouched :: "db \<Rightarrow> db \<Rightarrow> bool" where
  \<comment> \<open>the same bytes in both files, and no lock\<close>
  "untouched db db' \<longleftrightarrow> contents (idxfd db') = contents (idxfd db) \<and> contents (datfd db') = contents (datfd db) \<and> locks db' = []"

lemma found_start:
  assumes "represents db m"
  shows "m key = None \<Longrightarrow> \<exists>d. db_find_and_lock key w db = Some (Inr (-1), d) \<and>
      counted db d \<and> locks d = [((False, chainoff d, 1), if w then Write_lock else Read_lock)] \<and> errno d = errno db"
    and "m key \<noteq> None \<Longrightarrow> \<exists>d. db_find_and_lock key w db = Some (Inr 0, d) \<and>
      counted db d \<and> locks d = [((False, chainoff d, 1), if w then Write_lock else Read_lock)] \<and> errno d = errno db"
proof -
  obtain P R C where i: "db_inv db P R C" "stands (set R) C m" "locks db = []" using representsE [OF assms] by metis
  note st = same_started [OF _ i(3)]
  show "\<exists>d. db_find_and_lock key w db = Some (Inr (-1), d) \<and> counted db d \<and>
      locks d = [((False, chainoff d, 1), if w then Write_lock else Read_lock)] \<and> errno d = errno db" if n: "m key = None"
  proof -
    obtain d where d: "db_find_and_lock key w db = Some (Inr (-1), d)" "same (started key (if w then Write_lock else Read_lock) db) d"
      using find_and_lock_absent [OF i(1,3,2) n, of w] by blast
    from st(1-4) [OF d(2)] d(1) show ?thesis by (simp add: stats_def)
  qed
  show "\<exists>d. db_find_and_lock key w db = Some (Inr 0, d) \<and> counted db d \<and>
      locks d = [((False, chainoff d, 1), if w then Write_lock else Read_lock)] \<and> errno d = errno db" if n: "m key \<noteq> None"
  proof -
    obtain e where e: "e \<in> set R" "live C e" "ekey e = key" using i(2) n unfolding stands_def by blast
    obtain d where d: "db_find_and_lock key w db = Some (Inr 0, d)" "same (started key (if w then Write_lock else Read_lock) db) d"
      using find_and_lock_found [OF i(1,3) e(1,2), of w] e(3) by blast
    from st(1-4) [OF d(2)] d(1) show ?thesis by (simp add: stats_def)
  qed
qed

lemma db_fetch_untouched:
  "represents db m \<Longrightarrow> \<exists>db'. db_fetch key db = Some (Inr (m key), db') \<and> untouched db db'"
  using db_fetch_counted [of db m key] by (auto simp: counted_def untouched_def)

lemma db_delete_absent:
  assumes "represents db m" "m key = None"
  shows "\<exists>db'. db_delete key db = Some (Inr (-1), db') \<and> untouched db db'"
proof -
  obtain d where d: "db_find_and_lock key True db = Some (Inr (-1), d)" "counted db d" "locks d = [((False, chainoff d, 1), Write_lock)]"
    using found_start(1) [OF assms, of True] by auto
  then show ?thesis
    by (simp add: db_delete_def dbind_Some [of "db_find_and_lock key True", OF d(1)] dbind_assoc unlock_chain_def un_lock_def untouched_def counted_def)
qed

lemma store_starts:
  assumes "0 < length data" "length data < 1024" "flag \<noteq> Other_flag"
  shows "db_store key data flag = dbind (db_find_and_lock key True) (\<lambda>rc.
    dbind (if rc < 0 then store_new key data flag else store_found key data flag) (\<lambda>rc. dbind unlock_chain (\<lambda>_. ret rc)))"
proof -
  have "c_int (int (length data) + 1) = int (length data) + 1" using assms(2) by (intro c_int_id) auto
  then show ?thesis
    using assms by (simp add: db_store_def DATLEN_MIN_def DATLEN_MAX_def Suc_le_eq)
qed

lemma db_replace_absent:
  assumes "represents db m" "m key = None" "0 < length data" "length data < 1024"
  shows "\<exists>db'. db_store key data DB_REPLACE db = Some (Inr (-1), db') \<and> untouched db db' \<and> errno db' = ENOENT"
proof -
  obtain d where d: "db_find_and_lock key True db = Some (Inr (-1), d)" "counted db d" "locks d = [((False, chainoff d, 1), Write_lock)]"
    using found_start(1) [OF assms(1,2), of True] by auto
  then show ?thesis
    by (simp add: store_starts [OF assms(3,4)] dbind_Some [of "db_find_and_lock key True", OF d(1)] store_new_def dbind_assoc unlock_chain_def un_lock_def untouched_def counted_def)
qed

lemma db_insert_present:
  assumes "represents db m" "m key \<noteq> None" "0 < length data" "length data < 1024"
  shows "\<exists>db'. db_store key data DB_INSERT db = Some (Inr 1, db') \<and> untouched db db' \<and> errno db' = errno db"
proof -
  obtain d where d: "db_find_and_lock key True db = Some (Inr 0, d)" "counted db d" "locks d = [((False, chainoff d, 1), Write_lock)]" "errno d = errno db"
    using found_start(2) [OF assms(1,2), of True] by auto
  then show ?thesis
    by (simp add: store_starts [OF assms(3,4)] dbind_Some [of "db_find_and_lock key True", OF d(1)] store_found_def dbind_assoc unlock_chain_def un_lock_def untouched_def counted_def)
qed

section \<open>Properties\<close>

text \<open>C1: Refinement. A new database answers every sequence of at most 9000 requests (\<open>db_fetch\<close>,
  \<open>db_store\<close> with any flag, \<open>db_delete\<close>, with valid keys and data to store) the way a finite map
  does, ends, keeps its files in order, and stands for the map the sequence computes.\<close>

theorem db_requests_refine:
  assumes "list_all valid_request rs" "length rs \<le> 9000"
  shows "\<exists>db db'. db_open True True idx dat = Inr (Some db) \<and>
    respond_all db_fetch db_store db_delete rs db = Some (Inr (fst (requests_spec rs Map.empty)), db') \<and>
    represents db' (snd (requests_spec rs Map.empty))"
proof -
  obtain db where db: "db_open True True idx dat = Inr (Some db)" "represents db Map.empty" "idx_size db = first_record"
    using db_open_create [of idx dat] by blast
  have "db_rep (length rs + 0) db Map.empty" using db assms(2) by (simp add: db_rep_def first_record_def PTR_MAX_def)
  then show ?thesis using kv.respond_all_refines [of rs 0 db Map.empty] assms(1) db(1) by (auto simp: db_rep_def)
qed

theorem db_requests_refine_witness:
  "\<exists>db db'. db_open True True None None = Inr (Some db) \<and>
    respond_all db_fetch db_store db_delete
      [Store ''k'' ''one'' DB_INSERT, Store ''k'' ''two'' DB_INSERT, Store ''k'' ''three'' DB_STORE, Fetch ''k'', Delete ''k'', Fetch ''k'',
       Store ''k'' ''four'' DB_REPLACE] db =
    Some (Inr [Status 0, Status 1, Status 0, Fetched (Some ''three''), Status 0, Fetched None, Status (-1)], db')"
proof -
  let ?rs = "[Store ''k'' ''one'' DB_INSERT, Store ''k'' ''two'' DB_INSERT, Store ''k'' ''three'' DB_STORE, Fetch ''k'', Delete ''k'', Fetch ''k'',
       Store ''k'' ''four'' DB_REPLACE]"
  have "list_all valid_request ?rs" by code_simp
  moreover have "fst (requests_spec ?rs Map.empty) = [Status 0, Status 1, Status 0, Fetched (Some ''three''), Status 0, Fetched None, Status (-1)]"
    by (simp add: store_rc_def stored_def)
  ultimately show ?thesis using db_requests_refine [of ?rs None None] by auto
qed

text \<open>C2: \<open>db_store\<close>: inserting an absent key, inserting a present one (1, nothing changes), replacing
  an absent one (-1 and \<open>ENOENT\<close>), replacing a present one with data of the same or of another length,
  reusing deleted records or appending. All locks are released, and the index file grows by at most 1035 bytes.\<close>

theorem db_store_map_spec:
  assumes "represents db m" "valid_key key" "valid_data data" "idx_size db \<le> PTR_MAX"
  shows "(\<exists>db'. db_store key data DB_INSERT db = Some (Inr (if m key = None then 0 else 1), db') \<and>
      represents db' (if m key = None then m(key := Some data) else m) \<and> idx_size db' \<le> idx_size db + 1035) \<and>
    (\<exists>db'. db_store key data DB_REPLACE db = Some (Inr (if m key = None then -1 else 0), db') \<and>
      represents db' (if m key = None then m else m(key := Some data)) \<and> idx_size db' \<le> idx_size db + 1035 \<and>
      (m key = None \<longrightarrow> errno db' = ENOENT)) \<and>
    (\<exists>db'. db_store key data DB_STORE db = Some (Inr 0, db') \<and> represents db' (m(key := Some data)) \<and> idx_size db' \<le> idx_size db + 1035)"
  using db_store_map [OF assms, of DB_INSERT] db_store_map [OF assms, of DB_REPLACE] db_store_map [OF assms, of DB_STORE]
  by (cases "m key"; intro conjI; fastforce simp: store_rc_def stored_def)

lemma example_db:
  obtains db where "represents db [''k'' \<mapsto> ''one'']" "idx_size db \<le> PTR_MAX"
proof -
  obtain d0 where d0: "represents d0 Map.empty" "idx_size d0 = first_record" using db_open_create [of None None] by blast
  have "valid_key ''k''" "valid_data ''one''" by code_simp+
  moreover have "idx_size d0 \<le> PTR_MAX" using d0(2) by (simp add: first_record_def PTR_MAX_def)
  ultimately obtain db where "represents db [''k'' \<mapsto> ''one'']" "idx_size db \<le> idx_size d0 + 1035"
    using db_store_map [OF d0(1), of "''k''" "''one''" DB_STORE] by (auto simp: store_rc_def stored_def)
  then show ?thesis using that d0(2) by (simp add: first_record_def PTR_MAX_def)
qed

theorem db_store_map_spec_witness:
  "\<exists>db db'. represents db [''k'' \<mapsto> ''one''] \<and> db_store ''k'' ''three'' DB_STORE db = Some (Inr 0, db') \<and>
    represents db' [''k'' \<mapsto> ''three'']"
proof -
  obtain db where db: "represents db [''k'' \<mapsto> ''one'']" "idx_size db \<le> PTR_MAX" using example_db .
  have v: "valid_key ''k''" "valid_data ''three''" by code_simp+
  show ?thesis using db_store_map_spec [OF db(1) v db(2)] db(1) by auto
qed

text \<open>C3: Round trip through the disk. The files that \<open>db_close\<close> leaves are opened again as a
  database for the same map, and \<open>db_rewind\<close> followed by \<open>db_nextrec\<close> up to \<open>NULL\<close> returns
  exactly its pairs, each key once.\<close>

theorem db_reopen_scan:
  assumes "represents db m"
  shows "\<exists>db' kvs db''. db_open creat False (Some (fst (db_close db))) (Some (snd (db_close db))) = Inr (Some db') \<and> represents db' m \<and>
    all_records db' = Some (Inr kvs, db'') \<and> distinct (map fst kvs) \<and> map_of kvs = m \<and> represents db'' m"
proof -
  obtain db' where "db_open creat False (Some (fst (db_close db))) (Some (snd (db_close db))) = Inr (Some db')" "represents db' m"
    using db_open_existing [OF assms surjective_pairing, of creat] by blast
  then show ?thesis using all_records_map [of db' m] by blast
qed

theorem db_reopen_scan_witness:
  "\<exists>db db' db''. represents db [''k'' \<mapsto> ''one''] \<and>
    db_open False False (Some (fst (db_close db))) (Some (snd (db_close db))) = Inr (Some db') \<and>
    all_records db' = Some (Inr [(''k'', ''one'')], db'')"
proof -
  obtain db where db: "represents db [''k'' \<mapsto> ''one'']" using example_db .
  obtain db' kvs db'' where *: "db_open False False (Some (fst (db_close db))) (Some (snd (db_close db))) = Inr (Some db')"
    "all_records db' = Some (Inr kvs, db'')" "distinct (map fst kvs)" "map_of kvs = [''k'' \<mapsto> ''one'']"
    using db_reopen_scan [OF db, of False] by blast
  have i: "x \<in> set kvs \<longleftrightarrow> x = (''k'', ''one'')" for x
    by (cases x) (auto simp flip: map_of_eq_Some_iff [OF *(3)] simp: *(4))
  obtain l where l: "kvs = (''k'', ''one'') # l" using i [of "hd kvs"] i [of "(''k'', ''one'')"] by (cases kvs) auto
  have "l = []"
  proof (rule ccontr)
    assume "l \<noteq> []"
    then have m: "hd l \<in> set l" by simp
    then have "hd l = (''k'', ''one'')" using i [of "hd l"] l by auto
    then show False using *(3) l m by force
  qed
  then have "kvs = [(''k'', ''one'')]" using l by simp
  then show ?thesis using db * by auto
qed



text \<open>C5: The program \<open>t4.c\<close> ends without an error, whatever the files held before, and whoever
  opens the files afterwards finds exactly its three records.\<close>

theorem t4_stores_three:
  "\<exists>i d. t4_main idx dat = Some (Inr (i, d)) \<and> (\<exists>db kvs db'. db_open False False (Some i) (Some d) = Inr (Some db) \<and>
    all_records db = Some (Inr kvs, db') \<and> distinct (map fst kvs) \<and>
    map_of kvs = [''Alpha'' \<mapsto> ''data1'', ''beta'' \<mapsto> ''Data for beta'', ''gamma'' \<mapsto> ''record3''])"
proof -
  obtain db where db: "t4_main idx dat = Some (Inr (db_close db))"
    "represents db [''Alpha'' \<mapsto> ''data1'', ''beta'' \<mapsto> ''Data for beta'', ''gamma'' \<mapsto> ''record3'']" using t4_main_ok by blast
  obtain i d where c: "db_close db = (i, d)" by force
  obtain db' where "db_open False False (Some i) (Some d) = Inr (Some db')"
    "represents db' [''Alpha'' \<mapsto> ''data1'', ''beta'' \<mapsto> ''Data for beta'', ''gamma'' \<mapsto> ''record3'']"
    using db_open_existing [OF db(2) c, of False] by blast
  then show ?thesis using db(1) c all_records_map [of db'] by fastforce
qed

end
