(* ===== verification/PxBase.thy ===== *)
theory PxBase
  imports Main "HOL-Library.Word"
begin

text \<open>
  What the semaphores and message queues of \<^verbatim>\<open>src/unpv22e/my_pxsem_mmap\<close> and
  \<^verbatim>\<open>src/unpv22e/my_pxmsg_mmap\<close> share. Both live in a mapped file and guard their data with one
  mutex and one condition variable.

  \<^item> A call ends with a value (\<open>Returns\<close>), with -1 and \<open>errno\<close> (\<open>Fails\<close>), in
    \<open>err_sys\<close>, \<open>err_quit\<close> or \<open>err_dump\<close> (\<open>Exits\<close>), or releases the mutex inside
    \<open>pthread_cond_wait\<close> (\<open>Blocks\<close>).
  \<^item> What runs between taking the mutex and releasing it is one step of a thread, so an operation is a
    function on the shared data. Which thread moves next is not determined.
  \<^item> \<open>signalled W W'\<close> is \<open>pthread_cond_signal\<close> when the threads \<open>W\<close> are waiting: POSIX promises
    that at least one of them is released. \<open>pthread_cond_wait\<close> may also return without a signal.
\<close>

datatype errnum = EINVAL | EBADF | EAGAIN | EMSGSIZE | EBUSY | EEXIST | ENOENT | ETIMEDOUT

datatype 'a outcome = Returns 'a | Fails errnum | Exits string | Blocks

text \<open>The wrapper functions whose names begin with a capital letter end the process on -1.\<close>

fun err_sys :: "string \<Rightarrow> 'a outcome \<Rightarrow> 'a outcome" where
  "err_sys msg (Fails e) = Exits msg"
| "err_sys msg r = r"

lemma err_sys_eq [simp]:
  "err_sys msg r = Returns x \<longleftrightarrow> r = Returns x"
  "err_sys msg r = Blocks \<longleftrightarrow> r = Blocks"
  "err_sys msg r \<noteq> Fails e"
  by (cases r; simp)+

definition signalled :: "'t set \<Rightarrow> 't set \<Rightarrow> bool" where
  "signalled W W' \<longleftrightarrow> W' \<subseteq> W \<and> (W = {} \<or> W' \<noteq> W)"

lemma signalled_empty [simp]: "signalled {} W' \<longleftrightarrow> W' = {}"
  by (auto simp: signalled_def)

lemma signalled_single [simp]: "signalled {t} W' \<longleftrightarrow> W' = {}"
  by (auto simp: signalled_def)

lemma signalled_none [simp]: "signalled W {}"
  by (auto simp: signalled_def)

lemma signalled_subset: "signalled W W' \<Longrightarrow> W' \<subseteq> W"
  by (simp add: signalled_def)

lemma signalled_one: "t \<in> W \<Longrightarrow> signalled W (W - {t})"
  by (auto simp: signalled_def)

lemma signalled_exists: "\<exists>W'. signalled W W'"
  by (cases "W = {}") (auto simp: signalled_def)

section \<open>Runs\<close>

text \<open>
  A system of threads is a function that gives the state after an action, or \<open>None\<close> where the action cannot
  be taken. \<open>acts\<close> takes a list of actions, so a schedule can be evaluated; \<open>reaches\<close> is its relation,
  with the number of steps, for the proofs by induction on a run.
\<close>

fun acts :: "('a \<Rightarrow> 's \<Rightarrow> 's option) \<Rightarrow> 'a list \<Rightarrow> 's \<Rightarrow> 's option" where
  "acts act [] s = Some s"
| "acts act (a # as) s = (case act a s of None \<Rightarrow> None | Some s' \<Rightarrow> acts act as s')"

inductive reaches :: "('a \<Rightarrow> 's \<Rightarrow> 's option) \<Rightarrow> 's \<Rightarrow> nat \<Rightarrow> 's \<Rightarrow> bool" for act s where
  reaches_start: "reaches act s 0 s"
| reaches_step: "reaches act s n t \<Longrightarrow> act a t = Some u \<Longrightarrow> reaches act s (Suc n) u"

inductive_simps reaches_0: "reaches act s 0 t"

lemma reaches_acts: "reaches act s n t \<Longrightarrow> acts act as t = Some u \<Longrightarrow> reaches act s (n + length as) u"
proof (induction as arbitrary: n t)
  case Nil
  then show ?case by simp
next
  case (Cons a as)
  obtain t' where t': "act a t = Some t'" "acts act as t' = Some u"
    using Cons.prems(2) by (auto split: option.splits)
  from Cons.IH [OF reaches_step [where act = act, OF Cons.prems(1) t'(1)] t'(2)] show ?case
    by simp
qed

lemma acts_reaches: "acts act as s = Some u \<Longrightarrow> reaches act s (length as) u"
  using reaches_acts [where act = act, OF reaches_start] by fastforce

lemma reaches_ex_acts: "reaches act s n t \<Longrightarrow> \<exists>as. length as = n \<and> acts act as s = Some t"
proof (induction rule: reaches.induct)
  case reaches_start
  show ?case by (rule exI [of _ "[]"]) simp
next
  case (reaches_step n t a u)
  then obtain as where "length as = n" "acts act as s = Some t" by blast
  moreover have "acts act (as @ [a]) s = Some u" if "acts act as s = Some t" for s
    using that reaches_step.hyps(2) by (induction as arbitrary: s) (auto split: option.splits)
  ultimately show ?case
    by (intro exI [of _ "as @ [a]"]) simp
qed

lemma acts_mono:
  assumes "acts act as s = Some u" "\<And>a x y. act a x = Some y \<Longrightarrow> act' a x = Some y"
  shows "acts act' as s = Some u"
  using assms(1) by (induction "as" arbitrary: s) (auto split: option.split_asm simp: assms(2))

lemma reaches_invariant:
  assumes "reaches act s n t" "I s" "\<And>a x y. I x \<Longrightarrow> act a x = Some y \<Longrightarrow> I y"
  shows "I t"
  using assms(1) by (induction rule: reaches.induct) (auto intro: assms(2,3))

lemma reaches_measure:
  assumes "reaches act s n t" "I s"
    and "\<And>a x y. I x \<Longrightarrow> act a x = Some y \<Longrightarrow> I y \<and> f y < (f x :: nat)"
  shows "n + f t \<le> f s"
proof -
  have "I t \<and> n + f t \<le> f s"
    using assms(1)
  proof (induction rule: reaches.induct)
    case reaches_start
    show ?case using assms(2) by simp
  next
    case (reaches_step n t a u)
    then show ?case
      using assms(3) [of t a u] by auto
  qed
  then show ?thesis ..
qed

section \<open>Unsigned counters\<close>

lemma unat_pred: "c \<noteq> 0 \<Longrightarrow> unat (c - 1 :: 32 word) = unat c - 1"
  by (simp add: unat_minus_one)

lemma unat_succ: "unat c < 4294967295 \<Longrightarrow> unat (c + 1 :: 32 word) = unat c + 1"
  by (simp add: unat_word_ariths)

lemma uint_pred: "c \<noteq> 0 \<Longrightarrow> uint (c - 1 :: 32 word) = uint c - 1"
  using unat_pred [of c] unat_gt_0 [of c] by (metis One_nat_def Suc_pred of_nat_1 of_nat_diff Suc_leI uint_nat)

lemma uint_succ: "uint c < 4294967295 \<Longrightarrow> uint (c + 1 :: 32 word) = uint c + 1"
  by (simp add: uint_plus_if')

lemma sint_unat:
  assumes "unat c < 2 ^ 31"
  shows "sint (c :: 32 word) = int (unat c)"
proof -
  have "int (unat c) < int (2 ^ 31)"
    using assms by (simp only: of_nat_less_iff)
  then have u: "uint c < 2 ^ 31"
    by simp
  moreover have "- (2 ^ 31) \<le> uint c"
    by (rule order_trans [OF _ uint_ge_0]) simp
  ultimately have "signed_take_bit 31 (uint c) = uint c"
    by (intro signed_take_bit_int_eq_self)
  then have "sint c = uint c"
    by (simp add: sint_uint)
  then show ?thesis
    by simp
qed

end
