(* ===== verification/Semaphore.thy ===== *)
theory Semaphore
  imports PxBase
begin

text \<open>
  The semaphores of \<^verbatim>\<open>src/unpv22e/my_pxsem_mmap\<close>: \<^verbatim>\<open>semaphore.h\<close>,
  \<^verbatim>\<open>sem_wait.c\<close>, \<^verbatim>\<open>sem_post.c\<close>, \<^verbatim>\<open>sem_trywait.c\<close> and
  \<^verbatim>\<open>sem_getvalue.c\<close>, and any number of threads that call them.

  \<open>sem_step\<close> has one rule per way a thread can move. A thread that returns from
  \<open>pthread_cond_wait\<close> is again in front of the test of the loop in \<open>mysem_wait\<close>, where a thread is that
  has just taken the mutex, so a released thread is one that is in the call and not in \<open>asleep\<close>.
\<close>

section \<open>The operations\<close>

abbreviation SEM_MAGIC :: int where "SEM_MAGIC \<equiv> 1737656611"   \<comment> \<open>0x67458923\<close>

record mysem =
  sem_count :: "32 word"
  sem_magic :: int

definition mysem_wait :: "mysem \<Rightarrow> int outcome \<times> mysem" where
  "mysem_wait sem =
    (if sem_magic sem \<noteq> SEM_MAGIC then (Fails EINVAL, sem)
     else if sem_count sem = 0 then (Blocks, sem)
     else (Returns 0, sem\<lparr>sem_count := sem_count sem - 1\<rparr>))"

text \<open>The last component says that \<open>pthread_cond_signal\<close> has been called.\<close>

definition mysem_post :: "mysem \<Rightarrow> int outcome \<times> mysem \<times> bool" where
  "mysem_post sem =
    (if sem_magic sem \<noteq> SEM_MAGIC then (Fails EINVAL, sem, False)
     else (Returns 0, sem\<lparr>sem_count := sem_count sem + 1\<rparr>, sem_count sem = 0))"

definition mysem_trywait :: "mysem \<Rightarrow> int outcome \<times> mysem" where
  "mysem_trywait sem =
    (if sem_magic sem \<noteq> SEM_MAGIC then (Fails EINVAL, sem)
     else if sem_count sem > 0 then (Returns 0, sem\<lparr>sem_count := sem_count sem - 1\<rparr>)
     else (Fails EAGAIN, sem))"

definition mysem_getvalue :: "mysem \<Rightarrow> int outcome" where
  \<comment> \<open>\<open>*pvalue = sem->sem_count\<close> stores an unsigned number in an \<open>int\<close>\<close>
  "mysem_getvalue sem = (if sem_magic sem \<noteq> SEM_MAGIC then Fails EINVAL else Returns (sint (sem_count sem)))"

definition Mysem_wait :: "mysem \<Rightarrow> int outcome \<times> mysem" where
  "Mysem_wait sem = (case mysem_wait sem of (r, sem') \<Rightarrow> (err_sys ''mysem_wait error'' r, sem'))"

definition Mysem_post :: "mysem \<Rightarrow> int outcome \<times> mysem \<times> bool" where
  "Mysem_post sem = (case mysem_post sem of (r, sem', sig) \<Rightarrow> (err_sys ''mysem_post error'' r, sem', sig))"

definition Mysem_trywait :: "mysem \<Rightarrow> int outcome \<times> mysem" where
  "Mysem_trywait sem =
    (case mysem_trywait sem of (r, sem') \<Rightarrow> (if r = Fails EAGAIN then r else err_sys ''mysem_trywait error'' r, sem'))"

definition Mysem_getvalue :: "mysem \<Rightarrow> int outcome" where
  "Mysem_getvalue sem = err_sys ''mysem_getvalue error'' (mysem_getvalue sem)"

lemma mysem_wait_eq:
  "mysem_wait sem = (Blocks, sem') \<longleftrightarrow> sem_magic sem = SEM_MAGIC \<and> sem_count sem = 0 \<and> sem' = sem"
  "mysem_wait sem = (Returns r, sem') \<longleftrightarrow>
     sem_magic sem = SEM_MAGIC \<and> sem_count sem \<noteq> 0 \<and> r = 0 \<and> sem' = sem\<lparr>sem_count := sem_count sem - 1\<rparr>"
  by (auto simp: mysem_wait_def)

lemma mysem_trywait_eq:
  "mysem_trywait sem = (Returns r, sem') \<longleftrightarrow>
     sem_magic sem = SEM_MAGIC \<and> sem_count sem \<noteq> 0 \<and> r = 0 \<and> sem' = sem\<lparr>sem_count := sem_count sem - 1\<rparr>"
  by (auto simp: mysem_trywait_def word_gt_0)

lemma mysem_trywait_fails: "mysem_trywait sem = (Fails e, sem') \<Longrightarrow> sem' = sem"
  by (auto simp: mysem_trywait_def split: if_splits)

lemma mysem_post_eq:
  "mysem_post sem = (Returns r, sem', sig) \<longleftrightarrow>
     sem_magic sem = SEM_MAGIC \<and> r = 0 \<and> sem' = sem\<lparr>sem_count := sem_count sem + 1\<rparr> \<and> sig = (sem_count sem = 0)"
  by (auto simp: mysem_post_def)

text \<open>A post at the largest value makes it 0; no test is made.\<close>

lemma mysem_post_wraps:
  "mysem_post \<lparr>sem_count = - 1, sem_magic = SEM_MAGIC\<rparr> = (Returns 0, \<lparr>sem_count = 0, sem_magic = SEM_MAGIC\<rparr>, False)"
  by (simp add: mysem_post_def)

section \<open>Threads that share a semaphore\<close>

datatype sem_op = Wait | Post | Trywait | Getvalue

record sem_sys =
  sem :: mysem
  calls :: "nat \<Rightarrow> sem_op option"   \<comment> \<open>the call a thread is in\<close>
  asleep :: "nat set"              \<comment> \<open>the threads inside \<open>pthread_cond_wait\<close>\<close>
  posted :: nat                    \<comment> \<open>calls of \<open>mysem_post\<close> that have returned\<close>
  seen :: "nat \<Rightarrow> int"             \<comment> \<open>what \<open>mysem_getvalue\<close> has stored for a thread\<close>
  taken :: nat                     \<comment> \<open>calls of \<open>mysem_wait\<close> and \<open>mysem_trywait\<close> that have returned 0\<close>

datatype sem_action =
    Call nat sem_op       \<comment> \<open>a thread calls an operation\<close>
  | Move nat "nat set"    \<comment> \<open>it takes the mutex and runs until it releases it; the threads asleep then\<close>
  | Spurious nat          \<comment> \<open>\<open>pthread_cond_wait\<close> returns without a signal\<close>

definition leave :: "nat \<Rightarrow> sem_sys \<Rightarrow> sem_sys" where
  "leave t s = s\<lparr>calls := (calls s)(t := None)\<rparr>"

definition take_one :: "sem_sys \<Rightarrow> sem_sys" where
  "take_one s = s\<lparr>taken := Suc (taken s)\<rparr>"

fun sem_move :: "sem_op \<Rightarrow> nat \<Rightarrow> nat set \<Rightarrow> sem_sys \<Rightarrow> sem_sys option" where
  "sem_move Wait t W s =
    (case mysem_wait (sem s) of
       (Blocks, m) \<Rightarrow> if W = insert t (asleep s) then Some (s\<lparr>sem := m, asleep := W\<rparr>) else None
     | (Returns r, m) \<Rightarrow> if W = asleep s then Some (take_one (leave t (s\<lparr>sem := m\<rparr>))) else None
     | (_, m) \<Rightarrow> if W = asleep s then Some (leave t (s\<lparr>sem := m\<rparr>)) else None)"
| "sem_move Post t W s =
    (case mysem_post (sem s) of
       (Returns r, m, sig) \<Rightarrow>
         if (if sig then signalled (asleep s) W else W = asleep s)
         then Some (leave t (s\<lparr>sem := m, asleep := W, posted := Suc (posted s)\<rparr>)) else None
     | (_, m, sig) \<Rightarrow> if W = asleep s then Some (leave t (s\<lparr>sem := m\<rparr>)) else None)"
| "sem_move Trywait t W s =
    (if W \<noteq> asleep s then None
     else case mysem_trywait (sem s) of
       (Returns r, m) \<Rightarrow> Some (take_one (leave t (s\<lparr>sem := m\<rparr>)))
     | (_, m) \<Rightarrow> Some (leave t (s\<lparr>sem := m\<rparr>)))"
| "sem_move Getvalue t W s =
    (if W \<noteq> asleep s then None
     else case mysem_getvalue (sem s) of
       Returns n \<Rightarrow> Some (leave t (s\<lparr>seen := (seen s)(t := n)\<rparr>))
     | _ \<Rightarrow> Some (leave t s))"

fun sem_act :: "sem_action \<Rightarrow> sem_sys \<Rightarrow> sem_sys option" where
  "sem_act (Call t p) s = (if calls s t = None then Some (s\<lparr>calls := (calls s)(t \<mapsto> p)\<rparr>) else None)"
| "sem_act (Move t W) s =
    (case calls s t of None \<Rightarrow> None | Some p \<Rightarrow> if t \<in> asleep s then None else sem_move p t W s)"
| "sem_act (Spurious t) s = (if t \<in> asleep s then Some (s\<lparr>asleep := asleep s - {t}\<rparr>) else None)"

definition opened :: "nat \<Rightarrow> sem_sys" where
  \<comment> \<open>a semaphore made by \<open>mysem_open\<close> with this value, before any call\<close>
  "opened v =
    \<lparr>sem = \<lparr>sem_count = of_nat v, sem_magic = SEM_MAGIC\<rparr>, calls = (\<lambda>_. None), asleep = {}, posted = 0, seen = (\<lambda>_. 0), taken = 0\<rparr>"

section \<open>The value counts\<close>

definition counts :: "nat \<Rightarrow> sem_sys \<Rightarrow> bool" where
  "counts v s \<longleftrightarrow> sem_magic (sem s) = SEM_MAGIC \<and>
     (v + posted s < 2 ^ 32 \<longrightarrow> taken s \<le> v + posted s \<and> unat (sem_count (sem s)) = v + posted s - taken s)"

lemma counts_opened: "counts v (opened v)"
  by (simp add: counts_def opened_def unat_of_nat)

lemmas sem_outcomes = mysem_wait_def mysem_post_def mysem_trywait_def mysem_getvalue_def

lemma sem_move_counts:
  assumes "counts v s" "sem_move p t W s = Some s'"
  shows "counts v s'"
proof (cases "sem_count (sem s) = 0")
  case True
  then show ?thesis
    using assms by (cases p) (auto simp: sem_outcomes counts_def leave_def take_one_def split: if_split_asm)
next
  case False
  then have "0 < unat (sem_count (sem s))"
    by (simp add: unat_gt_0)
  then show ?thesis
    using assms False
    by (cases p) (auto simp: sem_outcomes counts_def leave_def take_one_def word_gt_0 unat_pred unat_succ split: if_split_asm)
qed

lemma sem_act_counts: "counts v s \<Longrightarrow> sem_act a s = Some s' \<Longrightarrow> counts v s'"
  by (cases a) (auto simp: counts_def split: if_split_asm option.split_asm dest: sem_move_counts [unfolded counts_def, rotated])

text \<open>C8: In every interleaving of any number of threads, with wakeups without a signal, the value of the
  semaphore is its initial value plus the posts minus the waits that have returned, so never more waits
  return than there were units to take; and this is the number that \<open>mysem_getvalue\<close> reports, while it fits
  into an \<open>int\<close>.
\<close>

theorem sem_value_counts:
  assumes "reaches sem_act (opened v) n s" "v + posted s < 2 ^ 32"
  shows "taken s \<le> v + posted s \<and> unat (sem_count (sem s)) = v + posted s - taken s \<and>
    (v + posted s < 2 ^ 31 \<longrightarrow> mysem_getvalue (sem s) = Returns (int (v + posted s - taken s)))"
proof -
  have c: "counts v s"
    by (rule reaches_invariant [where act = sem_act and I = "counts v", OF assms(1) counts_opened]) (rule sem_act_counts)
  have u: "taken s \<le> v + posted s" "unat (sem_count (sem s)) = v + posted s - taken s" "sem_magic (sem s) = SEM_MAGIC"
    using c assms(2) by (simp_all add: counts_def)
  have "mysem_getvalue (sem s) = Returns (int (v + posted s - taken s))" if "v + posted s < 2 ^ 31"
    unfolding mysem_getvalue_def u(2) [symmetric]
    using sint_unat [of "sem_count (sem s)"] u that by simp
  then show ?thesis
    using u by blast
qed

theorem sem_value_counts_witness:
  "\<exists>s. acts sem_act [Call 7 Post, Move 7 {}, Call 8 Wait, Move 8 {}, Call 9 Wait] (opened 2) = Some s \<and>
     taken s \<le> 2 + posted s \<and> unat (sem_count (sem s)) = 2 + posted s - taken s \<and> posted s = 1 \<and> taken s = 1 \<and>
     mysem_getvalue (sem s) = Returns 2"
proof -
  obtain s where s: "acts sem_act [Call 7 Post, Move 7 {}, Call 8 Wait, Move 8 {}, Call 9 Wait] (opened 2) = Some s"
      "posted s = 1 \<and> taken s = 1"
    by (simp add: opened_def sem_outcomes leave_def take_one_def)
  then show ?thesis
    using sem_value_counts [OF acts_reaches [where act = sem_act, OF s(1)]] by simp
qed

section \<open>Who is woken\<close>

text \<open>
  A post signals only when the value was 0. With one thread that waits this is enough.
\<close>

fun waits_only :: "nat \<Rightarrow> sem_action \<Rightarrow> sem_sys \<Rightarrow> sem_sys option" where
  "waits_only w (Call t p) s = (if p = Wait \<and> t \<noteq> w then None else sem_act (Call t p) s)"
| "waits_only w a s = sem_act a s"

definition awake :: "nat \<Rightarrow> sem_sys \<Rightarrow> bool" where
  "awake w s \<longleftrightarrow> asleep s \<subseteq> {w} \<and> (\<forall>t. calls s t = Some Wait \<longrightarrow> t = w) \<and> (asleep s \<noteq> {} \<longrightarrow> sem_count (sem s) = 0)"

lemma awake_posted: "awake w s \<Longrightarrow> sem_count (sem s) \<noteq> 0 \<Longrightarrow> asleep s = {}"
  "awake w s \<Longrightarrow> signalled (asleep s) W \<Longrightarrow> W = {}"
  by (auto simp: awake_def signalled_def subset_singleton_iff)

lemma sem_move_awake:
  assumes "awake w s" "calls s t = Some p" "t \<notin> asleep s" "sem_move p t W s = Some s'"
  shows "awake w s'"
proof (cases p)
  case Post
  have "asleep s' = {} \<and> (\<forall>t. calls s' t = Some Wait \<longrightarrow> calls s t = Some Wait) \<or> s' = leave t s"
    using assms(4) Post awake_posted(1) [OF assms(1)]
    by (auto simp: sem_outcomes leave_def split: if_split_asm dest!: awake_posted(2) [OF assms(1)])
  then show ?thesis
    using assms(1) by (auto simp: awake_def leave_def split: if_splits)
next
  case Wait
  have t: "t = w"
    using assms(1,2) Wait by (simp add: awake_def)
  have none: "asleep s = {}" and only: "\<And>u. calls s u = Some Wait \<Longrightarrow> u = w"
    using assms(1,3) t by (auto simp: awake_def)
  have "asleep s' = {} \<or> asleep s' = {w} \<and> sem_count (sem s') = 0"
    using assms(4) Wait none t by (auto simp: sem_outcomes leave_def take_one_def split: if_split_asm)
  moreover have "calls s u = Some Wait" if "calls s' u = Some Wait" for u
    using assms(4) Wait that by (auto simp: sem_outcomes leave_def take_one_def split: if_split_asm)
  ultimately show ?thesis
    using only by (auto simp: awake_def)
qed (use assms in \<open>auto simp: sem_outcomes leave_def take_one_def awake_def split: if_split_asm\<close>)

lemma waits_only_awake: "awake w s \<Longrightarrow> waits_only w a s = Some s' \<Longrightarrow> awake w s'"
proof (cases a)
  case (Move t W)
  then show "awake w s \<Longrightarrow> waits_only w a s = Some s' \<Longrightarrow> awake w s'"
    by (auto intro: sem_move_awake split: option.splits if_splits)
qed (auto simp: awake_def split: if_splits)

text \<open>C9: If only one thread waits, then, whatever the others do, that thread sleeps only while the value is 0:
  no wakeup is lost.
\<close>

theorem sole_waiter_woken:
  assumes "reaches (waits_only w) (opened v) n s" "t \<in> asleep s"
  shows "sem_count (sem s) = 0"
proof -
  have "awake w s"
    by (rule reaches_invariant [where act = "waits_only w" and I = "awake w", OF assms(1)])
      (simp add: awake_def opened_def, rule waits_only_awake)
  then show ?thesis
    using assms(2) by (auto simp: awake_def)
qed

text \<open>
  With two threads that wait a wakeup can be lost: both sleep, the first of two posts releases one of them and
  the second, which finds the value 1, signals nobody. The released thread takes one unit; the other sleeps
  beside the second. Every call in progress is then asleep, although the value is 1.
\<close>

definition lost_wakeup :: "sem_action list" where
  "lost_wakeup =
    [Call 1 Wait, Call 2 Wait, Move 1 {1}, Move 2 {2, 1}, Call 3 Post, Move 3 {2}, Call 3 Post, Move 3 {2}, Move 1 {2}]"

lemma sem_lost_wakeup:
  "\<exists>s. acts sem_act lost_wakeup (opened 0) = Some s \<and> sem_count (sem s) = 1 \<and> calls s 2 = Some Wait \<and>
     (\<forall>t. calls s t \<noteq> None \<longrightarrow> t \<in> asleep s)"
proof -
  have "signalled {2, 1} {2 :: nat}"
    by (auto simp: signalled_def)
  then show ?thesis
    by (simp add: lost_wakeup_def opened_def sem_outcomes leave_def take_one_def)
qed

theorem sole_waiter_woken_witness:
  "\<exists>s. acts (waits_only 1) [Call 1 Wait, Move 1 {1}, Call 2 Post] (opened 0) = Some s \<and> asleep s = {1} \<and> sem_count (sem s) = 0"
proof -
  obtain s where s: "acts (waits_only 1) [Call 1 Wait, Move 1 {1}, Call 2 Post] (opened 0) = Some s" "asleep s = {1}"
    by (simp add: opened_def sem_outcomes)
  then show ?thesis
    using sole_waiter_woken [OF acts_reaches [where act = "waits_only 1", OF s(1)], of 1] by simp
qed

end
