(* ===== verification/ProdCons.thy ===== *)
theory ProdCons
  imports Semaphore
begin

text \<open>
  The program \<^verbatim>\<open>src/unpv22e/my_pxsem_mmap/prodcons1.c\<close>: a producer and a consumer that share a buffer
  of ten numbers, guarded by three semaphores of \<^verbatim>\<open>Semaphore\<close>.

  The bodies of the two loops are lists of instructions. \<open>at s t\<close> is the place of a thread: the value of
  its variable \<open>i\<close> and the number of the next instruction of the body. \<open>prod_act\<close> is what a thread does
  next; a thread asleep can do nothing, unless \<open>pthread_cond_wait\<close> returns without a signal
  (\<open>Wakes\<close>).

  Every run without such wakeups ends, at most \<open>30 * nitems + 2\<close> actions long, and where no thread can move
  both have finished; in every run, with them, the consumer finds in the buffer what it expects, and the two
  threads are never both between \<open>Mysem_wait(shared.mutex)\<close> and \<open>Mysem_post(shared.mutex)\<close>.
\<close>

section \<open>The program\<close>

abbreviation NBUFF :: int where "NBUFF \<equiv> 10"

datatype name = Mutex | Nempty | Nstored
datatype thread = Producer | Consumer
datatype instr = MWait name | MPost name | Store_i | Check_i

definition produce :: "instr list" where
  "produce = [MWait Nempty, MWait Mutex, Store_i, MPost Mutex, MPost Nstored]"

definition consume :: "instr list" where
  "consume = [MWait Nstored, MWait Mutex, Check_i, MPost Mutex, MPost Nempty]"

fun body :: "thread \<Rightarrow> instr list" where
  "body Producer = produce" | "body Consumer = consume"

record shared =
  buff :: "int list"
  sems :: "name \<Rightarrow> mysem"
  at :: "thread \<Rightarrow> int \<times> nat"
  sleeping :: "thread set"
  printed :: "(int \<times> int) list"      \<comment> \<open>\<open>printf("buff[%d] = %d\n", ... )\<close>\<close>
  exited :: "string option"            \<comment> \<open>the message of \<open>err_sys\<close>\<close>

definition created :: shared where
  \<comment> \<open>after the three calls of \<open>Mysem_open\<close> and the creation of the threads; \<open>shared\<close> is a global variable\<close>
  "created =
    \<lparr>buff = replicate (nat NBUFF) 0,
     sems = (\<lambda>n. \<lparr>sem_count = (case n of Mutex \<Rightarrow> 1 | Nempty \<Rightarrow> 10 | Nstored \<Rightarrow> 0), sem_magic = SEM_MAGIC\<rparr>),
     at = (\<lambda>_. (0, 0)), sleeping = {}, printed = [], exited = None\<rparr>"

definition finished :: "int \<Rightarrow> shared \<Rightarrow> thread \<Rightarrow> bool" where
  "finished nitems s t \<longleftrightarrow> snd (at s t) = 0 \<and> \<not> fst (at s t) < nitems"

definition next_instr :: "shared \<Rightarrow> thread \<Rightarrow> instr" where
  "next_instr s t = body t ! snd (at s t)"

definition advance :: "thread \<Rightarrow> shared \<Rightarrow> shared" where
  \<comment> \<open>to the next instruction; behind the last one \<open>i++\<close>\<close>
  "advance t s =
    (let (i, k) = at s t
     in s\<lparr>at := (at s)(t := (if Suc k < length (body t) then (i, Suc k) else (i + 1, 0)))\<rparr>)"

definition waiters :: "name \<Rightarrow> shared \<Rightarrow> thread set" where
  "waiters n s = {t \<in> sleeping s. next_instr s t = MWait n}"

fun exec_instr :: "instr \<Rightarrow> thread \<Rightarrow> thread set \<Rightarrow> shared \<Rightarrow> shared option" where
  "exec_instr (MWait n) t W s =
    (case Mysem_wait (sems s n) of
       (Returns r, m) \<Rightarrow> Some (advance t (s\<lparr>sems := (sems s)(n := m)\<rparr>))
     | (Blocks, m) \<Rightarrow> Some (s\<lparr>sems := (sems s)(n := m), sleeping := insert t (sleeping s)\<rparr>)
     | (Exits msg, m) \<Rightarrow> Some (s\<lparr>exited := Some msg\<rparr>)
     | (Fails e, m) \<Rightarrow> None)"
| "exec_instr (MPost n) t W s =
    (case Mysem_post (sems s n) of
       (Returns r, m, sig) \<Rightarrow>
         if (if sig then signalled (waiters n s) W else W = waiters n s)
         then Some (advance t (s\<lparr>sems := (sems s)(n := m), sleeping := sleeping s - waiters n s \<union> W\<rparr>))
         else None
     | (Exits msg, m, sig) \<Rightarrow> Some (s\<lparr>exited := Some msg\<rparr>)
     | _ \<Rightarrow> None)"
| "exec_instr Store_i t W s =
    (let i = fst (at s t) in Some (advance t (s\<lparr>buff := (buff s)[nat (i mod NBUFF) := i]\<rparr>)))"
| "exec_instr Check_i t W s =
    (let i = fst (at s t); b = buff s ! nat (i mod NBUFF)
     in Some (advance t (if b \<noteq> i then s\<lparr>printed := printed s @ [(i, b)]\<rparr> else s)))"

datatype prod_action =
    Goes thread "thread set"   \<comment> \<open>the thread moves; if it posts, the threads that wait for the semaphore afterwards\<close>
  | Wakes thread               \<comment> \<open>\<open>pthread_cond_wait\<close> returns without a signal\<close>

fun prod_act :: "int \<Rightarrow> prod_action \<Rightarrow> shared \<Rightarrow> shared option" where
  "prod_act nitems (Goes t W) s =
    (if exited s \<noteq> None \<or> finished nitems s t \<or> t \<in> sleeping s then None else exec_instr (next_instr s t) t W s)"
| "prod_act nitems (Wakes t) s = (if exited s = None \<and> t \<in> sleeping s then Some (s\<lparr>sleeping := sleeping s - {t}\<rparr>) else None)"

definition prod_move :: "int \<Rightarrow> prod_action \<Rightarrow> shared \<Rightarrow> shared option" where
  \<comment> \<open>without the wakeups that are not signalled\<close>
  "prod_move nitems a s = (case a of Goes t W \<Rightarrow> prod_act nitems a s | Wakes t \<Rightarrow> None)"

section \<open>The invariant\<close>

abbreviation p_i :: "shared \<Rightarrow> int" where "p_i s \<equiv> fst (at s Producer)"
abbreviation p_k :: "shared \<Rightarrow> nat" where "p_k s \<equiv> snd (at s Producer)"
abbreviation c_i :: "shared \<Rightarrow> int" where "c_i s \<equiv> fst (at s Consumer)"
abbreviation c_k :: "shared \<Rightarrow> nat" where "c_k s \<equiv> snd (at s Consumer)"
abbreviation val :: "shared \<Rightarrow> name \<Rightarrow> int" where "val s n \<equiv> uint (sem_count (sems s n))"

definition inside :: "shared \<Rightarrow> thread \<Rightarrow> bool" where
  \<comment> \<open>between \<open>Mysem_wait(shared.mutex)\<close> and \<open>Mysem_post(shared.mutex)\<close>\<close>
  "inside s t \<longleftrightarrow> snd (at s t) \<in> {2, 3}"

definition sane :: "shared \<Rightarrow> bool" where
  "sane s \<longleftrightarrow> exited s = None \<and> (\<forall>x. sem_magic (sems s x) = SEM_MAGIC) \<and> printed s = [] \<and> length (buff s) = 10"

definition counting :: "int \<Rightarrow> int \<times> nat \<Rightarrow> int \<times> nat \<Rightarrow> int \<Rightarrow> int \<Rightarrow> int \<Rightarrow> bool" where
  \<comment> \<open>the bound of the loops, the places of producer and consumer, and the values of the three semaphores\<close>
  "counting n = (\<lambda>(i, k) (j, l) e f m.
     0 \<le> j \<and> k < 5 \<and> l < 5 \<and> (0 \<le> n \<longrightarrow> i \<le> n \<and> j \<le> n) \<and> (n < 0 \<longrightarrow> i \<le> 0 \<and> j \<le> 0) \<and>
     (k \<noteq> 0 \<longrightarrow> i < n) \<and> (l \<noteq> 0 \<longrightarrow> j < n) \<and>
     e = NBUFF + j - i - of_bool (k \<noteq> 0) \<and> f = i - j - of_bool (l \<noteq> 0) \<and>
     m = 1 - of_bool (k = 2 \<or> k = 3) - of_bool (l = 2 \<or> l = 3) \<and> 0 \<le> e \<and> 0 \<le> f \<and> 0 \<le> m)"

definition stored_items :: "shared \<Rightarrow> bool" where
  "stored_items s \<longleftrightarrow> (\<forall>j. c_i s \<le> j \<and> j < p_i s + of_bool (3 \<le> p_k s) \<longrightarrow> buff s ! nat (j mod NBUFF) = j)"

definition sleepers :: "shared \<Rightarrow> bool" where
  "sleepers s \<longleftrightarrow> (\<forall>t \<in> sleeping s. \<exists>x. next_instr s t = MWait x \<and> val s x = 0)"

definition prod_inv :: "int \<Rightarrow> shared \<Rightarrow> bool" where
  "prod_inv n s \<longleftrightarrow> sane s \<and> stored_items s \<and> sleepers s \<and>
     counting n (at s Producer) (at s Consumer) (val s Nempty) (val s Nstored) (val s Mutex)"

lemma prod_inv_created: "prod_inv n created"
  by (simp add: prod_inv_def sane_def counting_def stored_items_def sleepers_def created_def)

lemma advance_simps [simp]:
  "buff (advance t s) = buff s" "sems (advance t s) = sems s" "sleeping (advance t s) = sleeping s"
  "printed (advance t s) = printed s" "exited (advance t s) = exited s"
  by (simp_all add: advance_def split: prod.splits)

lemma at_advance:
  "at (advance t s) u =
    (if u \<noteq> t then at s u
     else if Suc (snd (at s t)) < 5 then (fst (at s t), Suc (snd (at s t))) else (fst (at s t) + 1, 0))"
  by (cases t) (simp_all add: advance_def produce_def consume_def split: prod.splits)

text \<open>Moves of the instructions, given the value of the semaphore.\<close>

lemma exec_MWait:
  assumes "sem_magic (sems s n) = SEM_MAGIC"
  shows "exec_instr (MWait n) t W s =
    (if val s n = 0 then Some (s\<lparr>sleeping := insert t (sleeping s)\<rparr>)
     else Some (advance t (s\<lparr>sems := (sems s)(n := sems s n\<lparr>sem_count := sem_count (sems s n) - 1\<rparr>)\<rparr>)))"
  using assms by (simp add: Mysem_wait_def mysem_wait_def uint_0_iff)

lemma exec_MPost:
  assumes "sem_magic (sems s n) = SEM_MAGIC"
  shows "exec_instr (MPost n) t W s =
    (if (if val s n = 0 then signalled (waiters n s) W else W = waiters n s)
     then Some (advance t (s\<lparr>sems := (sems s)(n := sems s n\<lparr>sem_count := sem_count (sems s n) + 1\<rparr>),
                             sleeping := sleeping s - waiters n s \<union> W\<rparr>))
     else None)"
  using assms by (simp add: Mysem_post_def mysem_post_def uint_0_iff)

lemma exec_MPostD:
  assumes "sem_magic (sems s n) = SEM_MAGIC" "exec_instr (MPost n) t W s = Some s'"
  shows "if val s n = 0 then signalled (waiters n s) W else W = waiters n s"
    and "s' = advance t (s\<lparr>sems := (sems s)(n := sems s n\<lparr>sem_count := sem_count (sems s n) + 1\<rparr>),
                           sleeping := sleeping s - waiters n s \<union> W\<rparr>)"
  using assms(2) by (auto simp: exec_MPost [OF assms(1)] simp del: exec_instr.simps split: if_split_asm)

lemma next_instr_other: "u \<noteq> t \<Longrightarrow> next_instr (advance t s) u = next_instr s u"
  by (simp add: next_instr_def at_advance)

lemma next_instr_upd [simp]:
  "next_instr (s\<lparr>buff := b\<rparr>) u = next_instr s u" "next_instr (s\<lparr>sems := m\<rparr>) u = next_instr s u"
  "next_instr (s\<lparr>sleeping := S\<rparr>) u = next_instr s u" "next_instr (s\<lparr>printed := p\<rparr>) u = next_instr s u"
  by (simp_all add: next_instr_def)

subsection \<open>Who sleeps\<close>

lemma sleepers_block: "sleepers s \<Longrightarrow> next_instr s t = MWait x \<Longrightarrow> val s x = 0 \<Longrightarrow> sleepers (s\<lparr>sleeping := insert t (sleeping s)\<rparr>)"
  by (auto simp: sleepers_def)

lemma sleepers_take:
  assumes "sleepers s" "t \<notin> sleeping s" "val s x \<noteq> 0"
  shows "sleepers (advance t (s\<lparr>sems := (sems s)(x := m)\<rparr>))"
  unfolding sleepers_def
proof
  fix u
  assume u: "u \<in> sleeping (advance t (s\<lparr>sems := (sems s)(x := m)\<rparr>))"
  then have ut: "u \<noteq> t"
    using assms(2) by auto
  obtain y where "next_instr s u = MWait y" "val s y = 0"
    using u assms(1) by (auto simp: sleepers_def)
  then show "\<exists>y. next_instr (advance t (s\<lparr>sems := (sems s)(x := m)\<rparr>)) u = MWait y \<and>
      val (advance t (s\<lparr>sems := (sems s)(x := m)\<rparr>)) y = 0"
    using assms(3) next_instr_other [OF ut] by (intro exI [of _ y]) auto
qed

lemma other_thread: "u \<noteq> t \<Longrightarrow> v \<noteq> t \<Longrightarrow> u = (v :: thread)"
  by (cases t; cases u; cases v) auto

lemma sleepers_post:
  assumes "sleepers s" "t \<notin> sleeping s" "next_instr s t = MPost x"
    and "if val s x = 0 then signalled (waiters x s) W else W = waiters x s"
  shows "sleepers (advance t (s\<lparr>sems := (sems s)(x := m), sleeping := sleeping s - waiters x s \<union> W\<rparr>))"
proof -
  have "W = {}"
  proof (cases "waiters x s = {}")
    case True
    then show ?thesis
      using assms(4) by (auto split: if_splits)
  next
    case False
    then obtain u where u: "u \<in> waiters x s" by blast
    then have "val s x = 0"
      using assms(1) by (auto simp: sleepers_def waiters_def)
    moreover have "v = u" if "v \<in> waiters x s" for v
      by (rule other_thread [of _ t]) (use that u assms(2) in \<open>auto simp: waiters_def\<close>)
    then have "waiters x s = {u}"
      using u by blast
    ultimately show ?thesis
      using assms(4) by (metis signalled_single)
  qed
  show ?thesis
    unfolding sleepers_def
  proof
    fix u
    assume "u \<in> sleeping (advance t (s\<lparr>sems := (sems s)(x := m), sleeping := sleeping s - waiters x s \<union> W\<rparr>))"
    then have u: "u \<in> sleeping s" "next_instr s u \<noteq> MWait x"
      using \<open>W = {}\<close> by (auto simp: waiters_def)
    then have ut: "u \<noteq> t"
      using assms(2) by auto
    obtain y where "next_instr s u = MWait y" "val s y = 0"
      using u assms(1) by (auto simp: sleepers_def)
    then show "\<exists>y. next_instr (advance t (s\<lparr>sems := (sems s)(x := m), sleeping := sleeping s - waiters x s \<union> W\<rparr>)) u = MWait y \<and>
        val (advance t (s\<lparr>sems := (sems s)(x := m), sleeping := sleeping s - waiters x s \<union> W\<rparr>)) y = 0"
      using u next_instr_other [OF ut] by (intro exI [of _ y]) auto
  qed
qed

lemma sleepers_advance:
  assumes "sleepers s" "t \<notin> sleeping s" "sems s' = sems s" "sleeping s' = sleeping s" "at s' = at s"
  shows "sleepers (advance t s')"
  unfolding sleepers_def
proof
  fix u
  assume u: "u \<in> sleeping (advance t s')"
  then obtain y where "next_instr s u = MWait y" "val s y = 0"
    using assms(1,4) by (auto simp: sleepers_def)
  moreover have "next_instr (advance t s') u = next_instr s u"
    using u assms(2,4,5) by (subst next_instr_other) (auto simp: next_instr_def)
  ultimately show "\<exists>y. next_instr (advance t s') u = MWait y \<and> val (advance t s') y = 0"
    using assms(3) by (intro exI [of _ y]) auto
qed

lemma sleepers_moved:
  assumes "sleepers s" "\<forall>x. sem_magic (sems s x) = SEM_MAGIC" "t \<notin> sleeping s" "exec_instr (next_instr s t) t W s = Some s'"
  shows "sleepers s'"
proof (cases "next_instr s t")
  case (MWait x)
  then show ?thesis
    using assms by (auto simp: exec_MWait sleepers_block sleepers_take simp del: exec_instr.simps split: if_split_asm)
next
  case (MPost x)
  have c: "exec_instr (MPost x) t W s = Some s'"
    using assms(4) MPost by simp
  show ?thesis
    unfolding exec_MPostD(2) [OF assms(2) [rule_format] c]
    by (rule sleepers_post [OF assms(1,3) MPost exec_MPostD(1) [OF assms(2) [rule_format] c]])
next
  case Store_i
  then show ?thesis
    using assms by (auto simp: Let_def intro!: sleepers_advance [of s])
next
  case Check_i
  then show ?thesis
    using assms by (auto simp: Let_def intro!: sleepers_advance [of s] split: if_split_asm)
qed

subsection \<open>The places and the values\<close>

lemma exec_MWaitD:
  assumes "sem_magic (sems s n) = SEM_MAGIC" "exec_instr (MWait n) t W s = Some s'"
  obtains "val s n = 0" "s' = s\<lparr>sleeping := insert t (sleeping s)\<rparr>"
  | "0 < val s n" "s' = advance t (s\<lparr>sems := (sems s)(n := sems s n\<lparr>sem_count := sem_count (sems s n) - 1\<rparr>)\<rparr>)"
  using assms(2) exec_MWait [OF assms(1), of t W] uint_ge_0 [of "sem_count (sems s n)"]
  by (cases "val s n = 0") (auto simp del: exec_instr.simps)

lemma val_pred: "0 < uint c \<Longrightarrow> uint (c - 1 :: 32 word) = uint c - 1"
  by (rule uint_pred) auto

lemma counting_moves:
  assumes "counting n (i, k) (j, l) e f m"
  shows "i < n \<Longrightarrow> k = 0 \<Longrightarrow> 0 < e \<Longrightarrow> counting n (i, 1) (j, l) (e - 1) f m"
    and "k = 1 \<Longrightarrow> 0 < m \<Longrightarrow> counting n (i, 2) (j, l) e f (m - 1)"
    and "k = 2 \<Longrightarrow> counting n (i, 3) (j, l) e f m"
    and "k = 3 \<Longrightarrow> counting n (i, 4) (j, l) e f (m + 1)"
    and "k = 4 \<Longrightarrow> counting n (i + 1, 0) (j, l) e (f + 1) m"
    and "j < n \<Longrightarrow> l = 0 \<Longrightarrow> 0 < f \<Longrightarrow> counting n (i, k) (j, 1) e (f - 1) m"
    and "l = 1 \<Longrightarrow> 0 < m \<Longrightarrow> counting n (i, k) (j, 2) e f (m - 1)"
    and "l = 2 \<Longrightarrow> counting n (i, k) (j, 3) e f m"
    and "l = 3 \<Longrightarrow> counting n (i, k) (j, 4) e f (m + 1)"
    and "l = 4 \<Longrightarrow> counting n (i, k) (j + 1, 0) (e + 1) f m"
  using assms by (auto simp: counting_def)

definition counted_at :: "int \<Rightarrow> shared \<Rightarrow> bool" where
  "counted_at n s \<longleftrightarrow> counting n (at s Producer) (at s Consumer) (val s Nempty) (val s Nstored) (val s Mutex)"

lemma counting_places: "counting n p q e f m \<Longrightarrow> snd p \<in> {0, 1, 2, 3, 4} \<and> snd q \<in> {0, 1, 2, 3, 4}"
  by (cases p; cases q) (auto simp: counting_def)

lemma counting_bounds:
  assumes "counting n (i, k) (j, l) e f m"
  shows "j \<le> i" "i \<le> j + 10" "\<not> ((k = 2 \<or> k = 3) \<and> (l = 2 \<or> l = 3))"
  using assms by (simp_all add: counting_def of_bool_def split: if_split_asm, auto)

lemma counted_bounds:
  assumes "counted_at n s"
  shows "c_i s \<le> p_i s" "p_i s \<le> c_i s + 10" "\<not> (inside s Producer \<and> inside s Consumer)"
  using assms counting_bounds [of n "p_i s" "p_k s" "c_i s" "c_k s"] by (auto simp: counted_at_def inside_def)

lemma counting_small: "counting n p q e f m \<Longrightarrow> e \<le> 10 \<and> f \<le> 10 \<and> m \<le> 1"
  by (cases p; cases q) (auto simp: counting_def split: if_splits)

lemma place_instr:
  assumes "counted_at n s"
  shows "next_instr s t = MWait x \<longleftrightarrow> snd (at s t) = 0 \<and> x = (if t = Producer then Nempty else Nstored) \<or> snd (at s t) = 1 \<and> x = Mutex"
    and "next_instr s t = MPost x \<longleftrightarrow> snd (at s t) = 3 \<and> x = Mutex \<or> snd (at s t) = 4 \<and> x = (if t = Producer then Nstored else Nempty)"
    and "next_instr s t = Store_i \<longleftrightarrow> snd (at s t) = 2 \<and> t = Producer"
    and "next_instr s t = Check_i \<longleftrightarrow> snd (at s t) = 2 \<and> t = Consumer"
  using counting_places [OF assms [unfolded counted_at_def]]
  by (cases t; auto simp: next_instr_def produce_def consume_def)+

lemmas counting_next = counting_moves counting_moves [simplified One_nat_def] counting_moves(2,7) [unfolded numeral_2_eq_2 One_nat_def]

lemma counted_wait:
  assumes "counted_at n s" "\<not> finished n s t" "next_instr s t = MWait x" "0 < val s x"
  shows "counted_at n (advance t (s\<lparr>sems := (sems s)(x := sems s x\<lparr>sem_count := sem_count (sems s x) - 1\<rparr>)\<rparr>))"
  using assms unfolding place_instr [OF assms(1)] counted_at_def
  by (cases t; cases "at s Producer"; cases "at s Consumer")
    (auto simp: at_advance val_pred finished_def counting_next)

lemma counted_post:
  assumes "counted_at n s" "next_instr s t = MPost x"
  shows "counted_at n (advance t (s\<lparr>sems := (sems s)(x := sems s x\<lparr>sem_count := sem_count (sems s x) + 1\<rparr>), sleeping := S\<rparr>))"
proof -
  have v: "uint (sem_count (sems s x) + 1) = val s x + 1" for x
    using counting_small [OF assms(1) [unfolded counted_at_def]] by (cases x) (simp_all add: uint_succ)
  show ?thesis
    using assms unfolding place_instr [OF assms(1)] counted_at_def
    by (cases t; cases "at s Producer"; cases "at s Consumer") (auto simp: at_advance v counting_next)
qed

lemma counted_other:
  assumes "counted_at n s" "next_instr s t \<in> {Store_i, Check_i}" "at s' = at s" "sems s' = sems s"
  shows "counted_at n (advance t s')"
  using assms unfolding insert_iff empty_iff simp_thms place_instr [OF assms(1)] counted_at_def
  by (cases t; cases "at s Producer"; cases "at s Consumer") (auto simp: at_advance counting_next)

lemma counted_moved:
  assumes "counted_at n s" "sane s" "\<not> finished n s t" "exec_instr (next_instr s t) t W s = Some s'"
  shows "counted_at n s'"
proof (cases "next_instr s t")
  case (MWait x)
  have "sem_magic (sems s x) = SEM_MAGIC"
    using assms(2) by (simp add: sane_def)
  then show ?thesis
    using assms(4) unfolding MWait
    by (rule exec_MWaitD) (use counted_wait [OF assms(1,3) MWait] assms(1) in \<open>simp_all add: counted_at_def\<close>)
next
  case (MPost x)
  have "sem_magic (sems s x) = SEM_MAGIC"
    using assms(2) by (simp add: sane_def)
  from exec_MPostD(2) [OF this assms(4) [unfolded MPost]] show ?thesis
    using counted_post [OF assms(1) MPost] by simp
next
  case Store_i
  then show ?thesis
    using assms counted_other [OF assms(1), of t] by (auto simp: Let_def)
next
  case Check_i
  then show ?thesis
    using assms counted_other [OF assms(1), of t] by (auto simp: Let_def)
qed

subsection \<open>The buffer\<close>

lemma mod_differs: "0 \<le> (i :: int) - j \<Longrightarrow> i - j < 10 \<Longrightarrow> i \<noteq> j \<Longrightarrow> nat (i mod 10) \<noteq> nat (j mod 10)"
  by (simp add: nat_eq_iff) presburger

lemma stored_upd:
  assumes "stored_items s" "counted_at n s" "sane s" "next_instr s Producer = Store_i"
  shows "stored_items (advance Producer (s\<lparr>buff := (buff s)[nat (p_i s mod NBUFF) := p_i s]\<rparr>))"
  unfolding stored_items_def
proof (intro allI impI)
  let ?s' = "advance Producer (s\<lparr>buff := (buff s)[nat (p_i s mod NBUFF) := p_i s]\<rparr>)"
  fix j
  assume j: "c_i ?s' \<le> j \<and> j < p_i ?s' + of_bool (3 \<le> p_k ?s')"
  have k: "p_k s = 2"
    using assms(4) place_instr(3) [OF assms(2)] by simp
  have room: "p_i s - c_i s < 10"
    using assms(2) k uint_ge_0 [of "sem_count (sems s Nempty)"]
    by (cases "at s Producer"; cases "at s Consumer") (auto simp: counted_at_def counting_def)
  have len: "nat (p_i s mod NBUFF) < length (buff s)"
    using assms(3) by (simp add: sane_def nat_less_iff)
  have range: "c_i s \<le> j" "j \<le> p_i s"
    using j k by (auto simp: at_advance split: if_splits)
  show "buff ?s' ! nat (j mod NBUFF) = j"
  proof (cases "j = p_i s")
    case True
    then show ?thesis using len by simp
  next
    case False
    then have "nat (p_i s mod 10) \<noteq> nat (j mod 10)"
      using range room by (intro mod_differs) auto
    moreover have "buff s ! nat (j mod NBUFF) = j"
      using assms(1) range False by (simp add: stored_items_def)
    ultimately show ?thesis by simp
  qed
qed

lemma stored_same:
  assumes "stored_items s" "at s' = at s" "buff s' = buff s" "next_instr s t \<noteq> Store_i" "counted_at n s"
  shows "stored_items (advance t s')"
proof -
  have "c_i s \<le> c_i (advance t s')"
    using assms(2) by (cases t) (auto simp: at_advance)
  moreover have "p_i (advance t s') + of_bool (3 \<le> p_k (advance t s')) \<le> p_i s + of_bool (3 \<le> p_k s)"
    using assms(2,4) place_instr(3) [OF assms(5), of t] counting_places [OF assms(5) [unfolded counted_at_def]]
    by (cases t) (auto simp: at_advance)
  ultimately show ?thesis
    using assms(1,3) unfolding stored_items_def by auto
qed

lemma stored_moved:
  assumes "stored_items s" "counted_at n s" "sane s" "exec_instr (next_instr s t) t W s = Some s'"
  shows "stored_items s'"
proof (cases "next_instr s t")
  case (MWait x)
  have "sem_magic (sems s x) = SEM_MAGIC"
    using assms(3) by (simp add: sane_def)
  then show ?thesis
    using assms(4) unfolding MWait
    by (rule exec_MWaitD)
      (use stored_same [OF assms(1) _ _ _ assms(2)] MWait assms(1) in \<open>simp_all add: stored_items_def [of "s\<lparr>sleeping := _\<rparr>"], simp add: stored_items_def\<close>)
next
  case (MPost x)
  have "sem_magic (sems s x) = SEM_MAGIC"
    using assms(3) by (simp add: sane_def)
  from exec_MPostD(2) [OF this assms(4) [unfolded MPost]] show ?thesis
    using stored_same [OF assms(1) _ _ _ assms(2)] MPost by simp
next
  case Store_i
  moreover have "t = Producer"
    using Store_i place_instr(3) [OF assms(2)] by simp
  ultimately show ?thesis
    using assms(4) stored_upd [OF assms(1,2,3)] by (simp add: Let_def)
next
  case Check_i
  then show ?thesis
    using assms(4) stored_same [OF assms(1) _ _ _ assms(2)] by (auto simp: Let_def)
qed

text \<open>Where the consumer looks it finds the number it expects: nothing is printed.\<close>

lemma sane_moved:
  assumes "stored_items s" "counted_at n s" "sane s" "exec_instr (next_instr s t) t W s = Some s'"
  shows "sane s'"
proof (cases "next_instr s t")
  case (MWait x)
  have "sem_magic (sems s x) = SEM_MAGIC"
    using assms(3) by (simp add: sane_def)
  then show ?thesis
    using assms(4) unfolding MWait by (rule exec_MWaitD) (use assms(3) in \<open>simp_all add: sane_def\<close>)
next
  case (MPost x)
  have "sem_magic (sems s x) = SEM_MAGIC"
    using assms(3) by (simp add: sane_def)
  from exec_MPostD(2) [OF this assms(4) [unfolded MPost]] show ?thesis
    using assms(3) by (simp add: sane_def)
next
  case Store_i
  then show ?thesis
    using assms(3,4) by (auto simp: Let_def sane_def)
next
  case Check_i
  then have t: "t = Consumer" "c_k s = 2"
    using place_instr(4) [OF assms(2)] by auto
  have "c_i s < p_i s"
    using assms(2) t uint_ge_0 [of "sem_count (sems s Nstored)"]
    by (cases "at s Producer"; cases "at s Consumer") (auto simp: counted_at_def counting_def)
  then have "buff s ! nat (c_i s mod NBUFF) = c_i s"
    using assms(1) by (simp add: stored_items_def)
  then show ?thesis
    using assms(3,4) Check_i t by (auto simp: Let_def sane_def)
qed

section \<open>Every run\<close>

lemma prod_inv_alt: "prod_inv n s \<longleftrightarrow> sane s \<and> stored_items s \<and> sleepers s \<and> counted_at n s"
  by (simp add: prod_inv_def counted_at_def)

lemma prod_act_inv: "prod_inv n s \<Longrightarrow> prod_act n a s = Some s' \<Longrightarrow> prod_inv n s'"
proof (cases a)
  case (Goes t W)
  assume "prod_inv n s" "prod_act n a s = Some s'"
  with Goes show "prod_inv n s'"
    unfolding prod_inv_alt
    by (auto simp del: exec_instr.simps split: if_split_asm
        intro: sane_moved stored_moved sleepers_moved counted_moved simp: sane_def [of s])
next
  case (Wakes t)
  assume "prod_inv n s" "prod_act n a s = Some s'"
  with Wakes show "prod_inv n s'"
    by (auto simp: prod_inv_def sane_def stored_items_def sleepers_def split: if_split_asm)
qed

lemma prod_move_act: "prod_move n a s = Some s' \<Longrightarrow> prod_act n a s = Some s'"
  by (cases a) (simp_all add: prod_move_def)

lemma prod_reaches_inv:
  assumes "reaches (prod_act n) created k s"
  shows "prod_inv n s"
  by (rule reaches_invariant [where act = "prod_act n" and I = "prod_inv n", OF assms prod_inv_created]) (rule prod_act_inv)

text \<open>C6: In every interleaving of producer and consumer, also with wakeups that are not signalled, the two are
  never both between the wait and the post of \<open>mutex\<close>, no operation on a semaphore fails, the consumer
  never finds another number than the one it expects, and the producer is never more than ten ahead.
\<close>

theorem prodcons_safe:
  assumes "reaches (prod_act nitems) created k s"
  shows "\<not> (inside s Producer \<and> inside s Consumer) \<and> exited s = None \<and> printed s = [] \<and>
    c_i s \<le> p_i s \<and> p_i s \<le> c_i s + NBUFF"
proof -
  have s: "counted_at nitems s" "sane s"
    using prod_reaches_inv [OF assms] by (auto simp: prod_inv_alt)
  show ?thesis
    using s(2) counted_bounds [OF s(1)] by (auto simp: sane_def)
qed

section \<open>The program ends\<close>

text \<open>
  Every action that is no wakeup without a signal either brings a thread further or puts it to sleep; a thread
  is woken only by one that gets further.
\<close>

definition ahead :: "int \<Rightarrow> int \<times> nat \<Rightarrow> nat" where
  "ahead n p = nat (5 * (max 0 n - fst p) - int (snd p))"

definition up :: "shared \<Rightarrow> thread \<Rightarrow> nat" where
  "up s t = of_bool (t \<notin> sleeping s)"

definition work :: "int \<Rightarrow> shared \<Rightarrow> nat" where
  "work n s = 3 * (ahead n (at s Producer) + ahead n (at s Consumer)) + up s Producer + up s Consumer"

lemma ahead_advance:
  assumes "counted_at n s" "\<not> finished n s t" "at s' = at s"
  shows "ahead n (at (advance t s') t) + 1 = ahead n (at s t)"
proof -
  have "snd (at s t) < 5" "fst (at s t) < n"
    using assms counting_places [OF assms(1) [unfolded counted_at_def]]
    by (cases t; cases "at s Producer"; cases "at s Consumer"; force simp: finished_def counted_at_def counting_def)+
  then show ?thesis
    using assms(3) by (auto simp: at_advance ahead_def)
qed

lemma work_advance:
  assumes "counted_at n s" "\<not> finished n s t" "at s' = at s"
  shows "work n (advance t s') < work n s"
proof -
  have "work n (advance t s') \<le> 3 * (ahead n (at (advance t s') Producer) + ahead n (at (advance t s') Consumer)) + 2"
    by (simp add: work_def up_def)
  moreover have "ahead n (at (advance t s') Producer) + ahead n (at (advance t s') Consumer) + 1
      = ahead n (at s Producer) + ahead n (at s Consumer)"
    using ahead_advance [OF assms] assms(3) by (cases t) (auto simp: at_advance)
  ultimately show ?thesis
    by (simp add: work_def)
qed

lemma prod_move_work:
  assumes "prod_inv n s" "prod_move n a s = Some s'"
  shows "work n s' < work n s"
proof -
  obtain t W where a: "\<not> finished n s t" "t \<notin> sleeping s" "exec_instr (next_instr s t) t W s = Some s'"
    using assms(2) by (cases a) (auto simp: prod_move_def split: if_split_asm)
  have c: "counted_at n s" and m: "sem_magic (sems s x) = SEM_MAGIC" for x
    using assms(1) by (auto simp: prod_inv_alt sane_def)
  show ?thesis
  proof (cases "next_instr s t")
    case (MWait x)
    from m a(3) [unfolded MWait] show ?thesis
    proof (rule exec_MWaitD)
      assume "s' = s\<lparr>sleeping := insert t (sleeping s)\<rparr>"
      then show ?thesis
        using a(2) by (cases t) (auto simp: work_def up_def)
    qed (simp add: work_advance [OF c a(1)])
  next
    case (MPost x)
    from exec_MPostD(2) [OF m a(3) [unfolded MPost]] show ?thesis
      by (simp add: work_advance [OF c a(1)])
  qed (use a(3) in \<open>auto simp: Let_def work_advance [OF c a(1)]\<close>)
qed

text \<open>Some thread can move until both have finished.\<close>

lemma can_move:
  assumes "prod_inv n s" "\<not> finished n s t" "t \<notin> sleeping s"
  shows "\<exists>W s'. prod_move n (Goes t W) s = Some s'"
proof -
  have m: "sem_magic (sems s x) = SEM_MAGIC" "exited s = None" for x
    using assms(1) by (auto simp: prod_inv_alt sane_def)
  obtain W s' where "exec_instr (next_instr s t) t W s = Some s'"
  proof (cases "next_instr s t")
    case (MPost x)
    obtain W where "signalled (waiters x s) W"
      using signalled_exists by blast
    then show ?thesis
      using that [of W] that [of "waiters x s"] by (cases "val s x = 0") (simp_all add: MPost exec_MPost [OF m(1)] del: exec_instr.simps)
  next
    case (MWait x)
    show ?thesis
      using that exec_MWait [OF m(1), of x t] by (cases "val s x = 0") (auto simp: MWait simp del: exec_instr.simps)
  qed (use that in \<open>auto simp: Let_def\<close>)
  then show ?thesis
    using assms(2,3) m(2) by (auto simp: prod_move_def simp del: exec_instr.simps)
qed

lemma not_both_asleep:
  assumes "prod_inv n s" "finished n s Producer \<or> Producer \<in> sleeping s" "finished n s Consumer \<or> Consumer \<in> sleeping s"
  shows "finished n s Producer \<and> finished n s Consumer"
proof -
  have c: "counted_at n s" and sl: "sleepers s"
    using assms(1) by (auto simp: prod_inv_alt)
  have place: "snd (at s t) = 0 \<and> val s (if t = Producer then Nempty else Nstored) = 0 \<or> snd (at s t) = 1 \<and> val s Mutex = 0"
    if "t \<in> sleeping s" for t
    using sl that place_instr(1) [OF c] by (auto simp: sleepers_def)
  obtain i k j l where p: "at s Producer = (i, k)" "at s Consumer = (j, l)"
    by (cases "at s Producer"; cases "at s Consumer")
  show ?thesis
    using assms(2,3) place [of Producer] place [of Consumer] c p
    by (auto simp: counted_at_def counting_def finished_def split: if_split_asm)
qed

text \<open>C7: Without unsignalled wakeups the program ends: a run takes at most \<open>30 * nitems + 2\<close> moves, and a state
  in which no thread can move is one where both threads have returned after all items, with nothing
  printed. So no wakeup is lost and there is no deadlock.
\<close>

theorem prodcons_ends:
  assumes "reaches (prod_move nitems) created k s"
  shows "k \<le> 30 * nat nitems + 2 \<and>
    ((\<forall>a. prod_move nitems a s = None) \<longrightarrow>
       at s Producer = (max 0 nitems, 0) \<and> at s Consumer = (max 0 nitems, 0) \<and> printed s = [] \<and> exited s = None)"
proof -
  have inv: "prod_inv nitems s"
    by (rule reaches_invariant [where act = "prod_move nitems" and I = "prod_inv nitems", OF assms prod_inv_created])
      (rule prod_act_inv, assumption, rule prod_move_act)
  have "k + work nitems s \<le> work nitems created"
    by (rule reaches_measure [where act = "prod_move nitems" and I = "prod_inv nitems", OF assms prod_inv_created])
      (use prod_act_inv prod_move_act prod_move_work in blast)
  then have "k \<le> 30 * nat nitems + 2"
    by (simp add: work_def ahead_def up_def created_def nat_mult_distrib)
  moreover have "at s Producer = (max 0 nitems, 0) \<and> at s Consumer = (max 0 nitems, 0) \<and> printed s = [] \<and> exited s = None"
    if "\<forall>a. prod_move nitems a s = None"
  proof -
    have "finished nitems s t \<or> t \<in> sleeping s" for t
      using that can_move [OF inv, of t] by fastforce
    then have "finished nitems s Producer \<and> finished nitems s Consumer"
      using not_both_asleep [OF inv] by blast
    then show ?thesis
      using inv by (cases "at s Producer"; cases "at s Consumer") (auto simp: prod_inv_alt finished_def counted_at_def counting_def sane_def)
  qed
  ultimately show ?thesis by blast
qed

text \<open>A run with one item in which the consumer first sleeps and the producer wakes it.\<close>

definition one_item :: "prod_action list" where
  "one_item =
    [Goes Consumer {}, Goes Producer {}, Goes Producer {}, Goes Producer {}, Goes Producer {}, Goes Producer {},
     Goes Consumer {}, Goes Consumer {}, Goes Consumer {}, Goes Consumer {}, Goes Consumer {}]"

lemma waiters_threads:
  "waiters n s = (if Producer \<in> sleeping s \<and> next_instr s Producer = MWait n then {Producer} else {}) \<union>
     (if Consumer \<in> sleeping s \<and> next_instr s Consumer = MWait n then {Consumer} else {})"
proof (rule set_eqI)
  fix t
  show "t \<in> waiters n s \<longleftrightarrow> t \<in> (if Producer \<in> sleeping s \<and> next_instr s Producer = MWait n then {Producer} else {}) \<union>
     (if Consumer \<in> sleeping s \<and> next_instr s Consumer = MWait n then {Consumer} else {})"
    by (cases t) (auto simp: waiters_def)
qed

lemma one_item_run:
  "\<exists>s. acts (prod_move 1) one_item created = Some s \<and> at s Producer = (1, 0) \<and> at s Consumer = (1, 0) \<and> sleeping s = {}"
  by (simp add: one_item_def created_def prod_move_def finished_def next_instr_def produce_def consume_def
      advance_def waiters_threads Mysem_wait_def Mysem_post_def sem_outcomes Let_def)

theorem prodcons_ends_witness:
  "\<exists>s. reaches (prod_move 1) created (length one_item) s \<and> length one_item \<le> 30 * nat 1 + 2 \<and> at s Consumer = (1, 0)"
proof -
  obtain s where s: "acts (prod_move 1) one_item created = Some s" "at s Consumer = (1, 0)"
    using one_item_run by blast
  note r = acts_reaches [where act = "prod_move 1", OF s(1)]
  show ?thesis
    using r prodcons_ends [OF r] s(2) by blast
qed

theorem prodcons_safe_witness:
  "\<exists>s. reaches (prod_act 1) created (length one_item) s \<and> printed s = [] \<and> at s Consumer = (1, 0)"
proof -
  obtain s where s: "acts (prod_move 1) one_item created = Some s" "at s Consumer = (1, 0)"
    using one_item_run by blast
  have "acts (prod_act 1) one_item created = Some s"
    using s(1) by (rule acts_mono) (rule prod_move_act)
  note r = acts_reaches [where act = "prod_act 1", OF this]
  show ?thesis
    using r prodcons_safe [OF r] s(2) by blast
qed

end
