(* ===== verification/SemOpen.thy ===== *)
theory SemOpen
  imports Semaphore
begin

text \<open>
  \<^verbatim>\<open>sem_open.c\<close>, \<^verbatim>\<open>sem_close.c\<close> and \<^verbatim>\<open>sem_unlink.c\<close> of
  \<^verbatim>\<open>src/unpv22e/my_pxsem_mmap\<close>: any number of processes that open the same pathname at the same time.

  A step is one system call of one process, so the calls of different processes interleave in every way.
  \<open>place\<close> is where a process is in \<open>mysem_open\<close>, with the number of the file it has open. The
  user-execute bit of the file (\<open>xusr\<close>) says that its creator has not finished. Every call that can fail
  may fail (\<open>Fault\<close>, with any \<open>errno\<close>), and the pathname may be removed at any time (\<open>Unlink\<close>, the operation of
  \<^verbatim>\<open>sem_unlink.c\<close>). One pathname is considered.
\<close>

section \<open>The world\<close>

record inode =
  xusr :: bool
  sized :: bool            \<comment> \<open>\<open>seminit\<close> has been written: the file is large enough to be used\<close>
  mutex_ready :: bool
  cond_ready :: bool
  data :: mysem            \<comment> \<open>\<open>sem_count\<close> and \<open>sem_magic\<close>\<close>
  maker :: nat             \<comment> \<open>the process that created it\<close>

record open_args =
  creat :: bool            \<comment> \<open>\<open>O_CREAT\<close> and \<open>O_EXCL\<close> in \<open>oflag\<close>\<close>
  excl :: bool
  init_value :: "32 word"

datatype place =
    Again                  \<comment> \<open>at the label \<open>again\<close>\<close>
  | New nat                \<comment> \<open>the file has been created, next is \<open>write\<close>\<close>
  | Sized nat              \<comment> \<open>next is \<open>mmap\<close>\<close>
  | Mapped nat             \<comment> \<open>next is the mutex\<close>
  | MutexInit nat          \<comment> \<open>next is the condition variable\<close>
  | CondInit nat           \<comment> \<open>next is the value\<close>
  | Counted nat            \<comment> \<open>next is \<open>fchmod\<close>\<close>
  | Ready nat              \<comment> \<open>next are \<open>close\<close> and the magic number\<close>
  | Exists                 \<comment> \<open>at the label \<open>exists\<close>\<close>
  | Old nat                \<comment> \<open>an existing file is open, next is \<open>mmap\<close>\<close>
  | Poll nat nat           \<comment> \<open>in the loop, with the value of \<open>i\<close>; next is \<open>stat\<close>\<close>
  | Err errnum bool        \<comment> \<open>at the label \<open>err\<close>, with \<open>errno\<close> and \<open>created\<close>\<close>
  | Opened nat             \<comment> \<open>returned a pointer to the mapped file\<close>
  | Failed errnum          \<comment> \<open>returned \<open>SEM_FAILED\<close>\<close>

record world =
  path :: "nat option"     \<comment> \<open>the file the pathname names\<close>
  files :: "nat \<Rightarrow> inode"
  nfiles :: nat
  procs :: "nat \<Rightarrow> place"

abbreviation MAX_TRIES :: nat where "MAX_TRIES \<equiv> 10"
abbreviation SEM_VALUE_MAX :: int where "SEM_VALUE_MAX \<equiv> 2147483647"   \<comment> \<open>\<open>sysconf(_SC_SEM_VALUE_MAX)\<close>\<close>

definition new_file :: "nat \<Rightarrow> inode" where
  "new_file p = \<lparr>xusr = True, sized = False, mutex_ready = False, cond_ready = False,
     data = \<lparr>sem_count = 0, sem_magic = 0\<rparr>, maker = p\<rparr>"

definition set_magic :: "inode \<Rightarrow> inode" where
  "set_magic f = f\<lparr>data := (data f)\<lparr>sem_magic := SEM_MAGIC\<rparr>\<rparr>"

definition set_file :: "nat \<Rightarrow> (inode \<Rightarrow> inode) \<Rightarrow> world \<Rightarrow> world" where
  "set_file i f d = d\<lparr>files := (files d)(i := f (files d i))\<rparr>"

text \<open>The next call of process \<open>p\<close>, when it succeeds.\<close>

fun sem_open_call :: "open_args \<Rightarrow> nat \<Rightarrow> place \<Rightarrow> world \<Rightarrow> (place \<times> world) option" where
  "sem_open_call a p Again d =
    (if \<not> creat a then Some (Exists, d)
     else case path d of
       Some i \<Rightarrow> Some (if excl a then Failed EEXIST else Exists, d)
     | None \<Rightarrow> Some (New (nfiles d),
         d\<lparr>path := Some (nfiles d), files := (files d)(nfiles d := new_file p), nfiles := Suc (nfiles d)\<rparr>))"
| "sem_open_call a p (New i) d = Some (Sized i, set_file i (\<lambda>f. f\<lparr>sized := True, data := \<lparr>sem_count = 0, sem_magic = 0\<rparr>\<rparr>) d)"
| "sem_open_call a p (Sized i) d = Some (Mapped i, d)"
| "sem_open_call a p (Mapped i) d = Some (MutexInit i, set_file i (\<lambda>f. f\<lparr>mutex_ready := True\<rparr>) d)"
| "sem_open_call a p (MutexInit i) d = Some (CondInit i, set_file i (\<lambda>f. f\<lparr>cond_ready := True\<rparr>) d)"
| "sem_open_call a p (CondInit i) d =
    Some (if uint (init_value a) > SEM_VALUE_MAX then Err EINVAL True else Counted i,
          set_file i (\<lambda>f. f\<lparr>data := (data f)\<lparr>sem_count := init_value a\<rparr>\<rparr>) d)"
| "sem_open_call a p (Counted i) d = Some (Ready i, set_file i (\<lambda>f. f\<lparr>xusr := False\<rparr>) d)"
| "sem_open_call a p (Ready i) d = Some (Opened i, set_file i set_magic d)"
| "sem_open_call a p Exists d =
    (case path d of Some i \<Rightarrow> Some (Old i, d) | None \<Rightarrow> Some (if creat a then Again else Err ENOENT False, d))"
| "sem_open_call a p (Old i) d = Some (Poll i 0, d)"
| "sem_open_call a p (Poll i k) d =
    (if \<not> k < MAX_TRIES then Some (Err ETIMEDOUT False, d)
     else case path d of   \<comment> \<open>\<open>stat(pathname)\<close>, not \<open>fstat(fd)\<close>\<close>
       None \<Rightarrow> Some (if creat a then Again else Err ENOENT False, d)
     | Some j \<Rightarrow>
         Some (if xusr (files d j) then (Poll i (Suc k), d) else (Opened i, set_file i set_magic d)))"
| "sem_open_call a p (Err e created) d = Some (Failed e, if created then d\<lparr>path := None\<rparr> else d)"
| "sem_open_call a p (Opened i) d = None"
| "sem_open_call a p (Failed e) d = None"

text \<open>
  Its next call, when it fails with \<open>errno = e\<close>. A failed \<open>open\<close> at \<open>again\<close> returns at once, or
  goes on at \<open>exists\<close>; all others end at \<open>err\<close>, but for the two tests for \<open>ENOENT\<close>.
\<close>

fun sem_open_fault :: "open_args \<Rightarrow> errnum \<Rightarrow> place \<Rightarrow> place option" where
  "sem_open_fault a e Again =
    (if \<not> creat a then None else Some (if e = EEXIST \<and> \<not> excl a then Exists else Failed e))"
| "sem_open_fault a e (New i) = Some (Err e True)"
| "sem_open_fault a e (Sized i) = Some (Err e True)"
| "sem_open_fault a e (Mapped i) = Some (Err e True)"
| "sem_open_fault a e (MutexInit i) = Some (Err e True)"
| "sem_open_fault a e (Counted i) = Some (Err e True)"
| "sem_open_fault a e Exists = Some (if e = ENOENT \<and> creat a then Again else Err e False)"
| "sem_open_fault a e (Old i) = Some (Err e False)"
| "sem_open_fault a e (Poll i k) =
    (if \<not> k < MAX_TRIES then None else Some (if e = ENOENT \<and> creat a then Again else Err e False))"
| "sem_open_fault a e pl = None"

definition mysem_unlink :: "world \<Rightarrow> unit outcome \<times> world" where
  "mysem_unlink d = (case path d of None \<Rightarrow> (Fails ENOENT, d) | Some i \<Rightarrow> (Returns (), d\<lparr>path := None\<rparr>))"

definition mysem_close :: "mysem \<Rightarrow> unit outcome" where
  \<comment> \<open>\<open>munmap\<close> of the mapping; the magic number stays\<close>
  "mysem_close m = (if sem_magic m \<noteq> SEM_MAGIC then Fails EINVAL else Returns ())"

datatype open_action = Calls nat | Fault nat errnum | Unlink

fun open_act :: "(nat \<Rightarrow> open_args) \<Rightarrow> open_action \<Rightarrow> world \<Rightarrow> world option" where
  "open_act args (Calls p) d =
    (case sem_open_call (args p) p (procs d p) d of
       None \<Rightarrow> None | Some (pl, d') \<Rightarrow> Some (d'\<lparr>procs := (procs d')(p := pl)\<rparr>))"
| "open_act args (Fault p e) d =
    (case sem_open_fault (args p) e (procs d p) of None \<Rightarrow> None | Some pl \<Rightarrow> Some (d\<lparr>procs := (procs d)(p := pl)\<rparr>))"
| "open_act args Unlink d = Some (snd (mysem_unlink d))"

definition nobody :: world where
  \<comment> \<open>no file, every process about to open\<close>
  "nobody = \<lparr>path = None, files = (\<lambda>_. new_file 0), nfiles = 0, procs = (\<lambda>_. Again)\<rparr>"

section \<open>Opening at the same time\<close>

text \<open>The calls of the process that has created the file and not yet returned.\<close>

fun creating :: "place \<Rightarrow> bool" where
  "creating (New i) = True" | "creating (Sized i) = True" | "creating (Mapped i) = True" | "creating (MutexInit i) = True"
| "creating (CondInit i) = True" | "creating (Counted i) = True" | "creating (Ready i) = True" | "creating pl = False"

definition calm :: "(nat \<Rightarrow> open_args) \<Rightarrow> open_action \<Rightarrow> world \<Rightarrow> world option" where
  \<comment> \<open>the creator's calls succeed and nobody removes the pathname; the calls of the others may fail\<close>
  "calm args a d = (case a of
     Calls p \<Rightarrow> open_act args a d
   | Fault p e \<Rightarrow> if creating (procs d p) then None else open_act args a d
   | Unlink \<Rightarrow> None)"

definition made :: "(nat \<Rightarrow> open_args) \<Rightarrow> inode \<Rightarrow> bool" where
  \<comment> \<open>all that the creator does before it clears the bit\<close>
  "made args f \<longleftrightarrow> sized f \<and> mutex_ready f \<and> cond_ready f \<and> creat (args (maker f)) \<and>
     sem_count (data f) = init_value (args (maker f))"

definition complete :: "(nat \<Rightarrow> open_args) \<Rightarrow> inode \<Rightarrow> bool" where
  \<comment> \<open>the semaphore on which the threads of \<open>Semaphore\<close> start\<close>
  "complete args f \<longleftrightarrow> sized f \<and> mutex_ready f \<and> cond_ready f \<and> creat (args (maker f)) \<and>
     data f = sem (opened (unat (init_value (args (maker f)))))"

lemma complete_made: "complete args f \<longleftrightarrow> made args f \<and> sem_magic (data f) = SEM_MAGIC"
  by (cases "data f") (auto simp: complete_def made_def opened_def)

text \<open>What the file is like for a process at a place: \<open>f\<close> is the only file.\<close>

fun fits :: "(nat \<Rightarrow> open_args) \<Rightarrow> inode \<Rightarrow> nat \<Rightarrow> place \<Rightarrow> bool" where
  "fits args f p (New i) = (i = 0 \<and> maker f = p \<and> xusr f)"
| "fits args f p (Sized i) = (i = 0 \<and> maker f = p \<and> xusr f \<and> sized f)"
| "fits args f p (Mapped i) = (i = 0 \<and> maker f = p \<and> xusr f \<and> sized f)"
| "fits args f p (MutexInit i) = (i = 0 \<and> maker f = p \<and> xusr f \<and> sized f \<and> mutex_ready f)"
| "fits args f p (CondInit i) = (i = 0 \<and> maker f = p \<and> xusr f \<and> sized f \<and> mutex_ready f \<and> cond_ready f)"
| "fits args f p (Counted i) = (i = 0 \<and> maker f = p \<and> xusr f \<and> made args f)"
| "fits args f p (Ready i) = (i = 0 \<and> \<not> xusr f)"
| "fits args f p (Opened i) = (i = 0 \<and> \<not> xusr f \<and> sem_magic (data f) = SEM_MAGIC)"
| "fits args f p (Old i) = (i = 0)"
| "fits args f p (Poll i k) = (i = 0)"
| "fits args f p (Err e created) = (\<not> created)"
| "fits args f p pl = True"

fun without_file :: "place \<Rightarrow> bool" where
  "without_file Again = True" | "without_file Exists = True" | "without_file (Err e c) = (\<not> c)" | "without_file (Failed e) = True"
| "without_file pl = False"

definition open_inv :: "(nat \<Rightarrow> open_args) \<Rightarrow> world \<Rightarrow> bool" where
  "open_inv args d \<longleftrightarrow>
    (if path d = None then nfiles d = 0 \<and> (\<forall>p. without_file (procs d p))
     else path d = Some 0 \<and> creat (args (maker (files d 0))) \<and> (\<forall>p. fits args (files d 0) p (procs d p)) \<and>
       (\<not> xusr (files d 0) \<longrightarrow> made args (files d 0)))"

lemma without_fits: "without_file pl \<Longrightarrow> fits args f p pl"
  by (cases pl) auto

lemma open_inv_nobody: "open_inv args nobody"
  by (simp add: open_inv_def nobody_def)

lemma fits_upd:
  assumes "fits args f q pl" "q \<noteq> maker f" "xusr f" "maker f' = maker f"
  shows "fits args f' q pl"
  using assms by (cases pl) auto

lemma call_without_file:
  assumes "sem_open_call a p pl d = Some (pl', d')" "path d = None" "without_file pl"
  shows "without_file pl' \<and> d' = d \<or>
    pl' = New (nfiles d) \<and> creat a \<and>
      d' = d\<lparr>path := Some (nfiles d), files := (files d)(nfiles d := new_file p), nfiles := Suc (nfiles d)\<rparr>"
  using assms by (cases pl) (auto split: if_split_asm)

text \<open>What one process does to the file keeps the view of every other: the creator works while no other has
  the file ready, and later only the magic number is written.\<close>

lemma fits_other:
  assumes "fits args f q pl" "maker f' = maker f"
    and "f' = f \<or> f' = set_magic f \<or> xusr f \<and> q \<noteq> maker f"
  shows "fits args f' q pl"
  using assms(3)
proof (elim disjE conjE)
  assume "f' = set_magic f"
  then show ?thesis
    using assms(1) by (cases pl) (auto simp: set_magic_def made_def)
qed (use assms fits_upd in auto)

lemma call_with_file:
  assumes "sem_open_call (args p) p pl d = Some (pl', d')" "path d = Some 0" "fits args (files d 0) p pl"
    and "creat (args (maker (files d 0)))" "\<not> xusr (files d 0) \<Longrightarrow> made args (files d 0)"
    and "uint (init_value (args p)) \<le> SEM_VALUE_MAX"
  shows "path d' = Some 0 \<and> procs d' = procs d \<and> maker (files d' 0) = maker (files d 0) \<and>
    fits args (files d' 0) p pl' \<and> (\<not> xusr (files d' 0) \<longrightarrow> made args (files d' 0)) \<and>
    (files d' 0 = files d 0 \<or> files d' 0 = set_magic (files d 0) \<or> xusr (files d 0) \<and> maker (files d 0) = p)"
  using assms by (cases pl) (auto simp: set_file_def made_def set_magic_def split: if_split_asm)

lemma fault_fits:
  assumes "sem_open_fault a e pl = Some pl'" "\<not> creating pl"
  shows "without_file pl'"
  using assms by (cases pl) (auto split: if_split_asm)

lemma fault_inv:
  assumes "open_inv args d" "sem_open_fault (args p) e (procs d p) = Some pl" "\<not> creating (procs d p)"
  shows "open_inv args (d\<lparr>procs := (procs d)(p := pl)\<rparr>)"
  using assms(1) fault_fits [OF assms(2,3)] by (auto simp: open_inv_def without_fits)

lemma calls_inv:
  assumes "\<forall>p. uint (init_value (args p)) \<le> SEM_VALUE_MAX" "open_inv args d"
    and a: "sem_open_call (args p) p (procs d p) d = Some (pl, d1)" "d' = d1\<lparr>procs := (procs d1)(p := pl)\<rparr>"
  shows "open_inv args d'"
proof (cases "path d")
  case None
  then have w: "\<And>q. without_file (procs d q)" "nfiles d = 0"
    using assms(2) by (auto simp: open_inv_def)
  from call_without_file [OF a(1) None w(1)] show ?thesis
  proof (elim disjE conjE)
    assume "without_file pl" "d1 = d"
    then show ?thesis
      using a(2) w None by (simp add: open_inv_def)
  next
    assume new: "pl = New (nfiles d)" "creat (args p)"
      "d1 = d\<lparr>path := Some (nfiles d), files := (files d)(nfiles d := new_file p), nfiles := Suc (nfiles d)\<rparr>"
    then show ?thesis
      using a(2) w by (simp add: open_inv_def new_file_def without_fits)
  qed
next
  case (Some i)
  then have f: "path d = Some 0" "creat (args (maker (files d 0)))" "\<And>q. fits args (files d 0) q (procs d q)"
      "\<not> xusr (files d 0) \<Longrightarrow> made args (files d 0)"
    using assms(2) by (auto simp: open_inv_def split: if_split_asm)
  note c = call_with_file [OF a(1) f(1) f(3) f(2,4) assms(1) [rule_format]]
  have "fits args (files d1 0) q (procs d q)" if "q \<noteq> p" for q
    using c that by (intro fits_other [OF f(3) [of q]]) auto
  then show ?thesis
    using c a(2) f(2) by (auto simp: open_inv_def)
qed

lemma calm_inv:
  assumes "\<forall>p. uint (init_value (args p)) \<le> SEM_VALUE_MAX" "open_inv args d" "calm args a d = Some d'"
  shows "open_inv args d'"
proof (cases a)
  case (Calls p)
  then obtain pl d1 where "sem_open_call (args p) p (procs d p) d = Some (pl, d1)" "d' = d1\<lparr>procs := (procs d1)(p := pl)\<rparr>"
    using assms(3) by (auto simp: calm_def split: option.splits)
  then show ?thesis
    by (rule calls_inv [OF assms(1,2)])
next
  case (Fault p e)
  then show ?thesis
    using assms(2,3) by (auto simp: calm_def fault_inv split: option.splits if_split_asm)
next
  case Unlink
  then show ?thesis
    using assms(3) by (simp add: calm_def)
qed

text \<open>C10: While the calls of the creator succeed and nobody removes the pathname, all processes that have
  returned from \<open>mysem_open\<close> have mapped the same file, its mutex and condition variable have been
  initialised, and its value and magic number are those of a new semaphore with the value that its creator asked for,
  in every interleaving, whichever calls of the other processes fail.
\<close>

theorem sem_open_ready:
  assumes "\<forall>p. uint (init_value (args p)) \<le> SEM_VALUE_MAX" "reaches (calm args) nobody n d"
    and "procs d p = Opened i" "procs d q = Opened j"
  shows "i = j \<and> path d = Some i \<and> complete args (files d i)"
proof -
  have "open_inv args d"
    by (rule reaches_invariant [where act = "calm args" and I = "open_inv args", OF assms(2) open_inv_nobody])
      (rule calm_inv [OF assms(1)])
  moreover have "\<not> without_file (procs d p)"
    using assms(3) by simp
  ultimately have f: "path d = Some 0" "\<And>q. fits args (files d 0) q (procs d q)" "\<not> xusr (files d 0) \<longrightarrow> made args (files d 0)"
    unfolding open_inv_def by (auto split: if_split_asm)
  show ?thesis
    using f(1,3) f(2) [of p] f(2) [of q] assms(3,4) by (simp add: complete_made)
qed

definition two_processes :: "nat \<Rightarrow> open_args" where
  "two_processes p = \<lparr>creat = (p \<le> 2), excl = False, init_value = 5\<rparr>"

text \<open>Process 1 finds the file of process 0, polls once too early, and then again; a call of process 2 fails.\<close>

theorem sem_open_ready_witness:
  "\<exists>d :: world. procs d 0 = Opened 0 \<and> procs d 1 = Opened 0 \<and> path d = Some 0 \<and> complete two_processes (files d 0)"
proof -
  let ?sched = "[Calls 0, Calls 1, Calls 1, Calls 1, Calls 0, Calls 0, Calls 1, Calls 0, Calls 0, Calls 0, Calls 0, Calls 0, Fault 2 EINVAL, Calls 1]"
  obtain d where d: "acts (calm two_processes) ?sched nobody = Some d" "procs d 0 = Opened 0" "procs d 1 = Opened 0"
    by (simp add: calm_def nobody_def two_processes_def new_file_def set_file_def set_magic_def)
  have "\<forall>p. uint (init_value (two_processes p)) \<le> SEM_VALUE_MAX"
    by (simp add: two_processes_def)
  from sem_open_ready [OF this acts_reaches [where act = "calm two_processes", OF d(1)] d(2,3)] d(2,3) show ?thesis
    by (intro exI [of _ d]) simp
qed

section \<open>What the caller is told\<close>

lemma sem_open_errors:
  "path d = Some i \<Longrightarrow> creat a \<Longrightarrow> excl a \<Longrightarrow> sem_open_call a p Again d = Some (Failed EEXIST, d)"
  "path d = None \<Longrightarrow> \<not> creat a \<Longrightarrow> sem_open_call a p Exists d = Some (Err ENOENT False, d)"
  "sem_open_call a p (Poll i 10) d = Some (Err ETIMEDOUT False, d)"
  "SEM_VALUE_MAX < uint (init_value a) \<Longrightarrow> \<exists>d'. sem_open_call a p (CondInit i) d = Some (Err EINVAL True, d')"
  by simp_all

section \<open>With \<open>unlink\<close>\<close>

text \<open>
  \<open>stat\<close> is given the pathname, while the file that has been opened and mapped is known by its descriptor.
  If the pathname is removed and created anew in between, the process looks at the bit of the new file and
  returns the old one. Here process 1 returns a file of which process 0 has not even initialised the mutex.
\<close>

definition replaced :: "open_action list" where
  "replaced =
    [Calls 0, Calls 1, Calls 1, Calls 1, Unlink,
     Calls 2, Calls 2, Calls 2, Calls 2, Calls 2, Calls 2, Calls 2, Calls 2, Calls 1]"

lemma sem_open_wrong_file:
  "\<exists>d. acts (open_act (\<lambda>_. \<lparr>creat = True, excl = False, init_value = 5\<rparr>)) replaced nobody = Some d \<and>
     procs d 1 = Opened 0 \<and> procs d 2 = Opened 1 \<and> path d = Some 1 \<and> \<not> mutex_ready (files d 0) \<and> \<not> sized (files d 0)"
  by (simp add: replaced_def nobody_def new_file_def set_file_def set_magic_def mysem_unlink_def)

end
