(* ===== verification/Spec2Isabelle.thy ===== *)
theory Spec2Isabelle
  imports Sorting SearchTree AvlTree TreapTree LeftHeap BinHeap BinomialQueue StackArray QueueArray
    ListAdt StackList Cursor HashQuad HashSep DisjSets MaxSum Poly NumberAlgos DynProg OptMatrix AllPairs
    KdTree QueueTests RedBlackSet SkipListSet BoundedTests ListTests HashTests FigureMains DbMain ProdCons SemOpen
begin

text \<open>
  \<^bold>\<open>Verification of the data structures and algorithms of\<close> \<^verbatim>\<open>src/DSAAC\<close>
  \<^bold>\<open>, of the database library of\<close> \<^verbatim>\<open>src/apue/db\<close>
  \<^bold>\<open>and of the semaphores of\<close> \<^verbatim>\<open>src/unpv22e/my_pxsem_mmap\<close>.

  The repository collects the program code of several books on C and Unix. This development verifies
  three parts of it that are libraries of their own: the code of Weiss's book on data structures and
  algorithm analysis under \<^verbatim>\<open>src/DSAAC\<close> (search trees, heaps, lists, stacks, queues, hash
  tables, disjoint sets, sorting, and the algorithms of the figures, with the test programs that use
  them), the database library of Stevens' book on Unix programming under \<^verbatim>\<open>src/apue/db\<close>, and the
  implementation of Posix semaphores of his book on interprocess communication under
  \<^verbatim>\<open>src/unpv22e/my_pxsem_mmap\<close>. Each source file below is modelled with all its functions unless the section on what is not
  modelled says otherwise.

  \<^bold>\<open>How C is modelled\<close> (theory \<open>CBase\<close>). An operation that can fail returns
  \<open>'a res\<close>: \<open>Inl\<close> carries the exits of \<^verbatim>\<open>fatal.h\<close> (\<open>Error\<close>, \<open>FatalError\<close>)
  with their message, and the undefined behaviours (dereferencing \<open>NULL\<close>, accessing memory
  outside an array or after \<open>free\<close>). A theorem that an operation returns \<open>Inr\<close> (or
  \<open>Some\<close> for the array routines) therefore also says that it is free of these. Arrays are
  lists read and written through an \<open>int\<close> index with a bounds check; \<open>int\<close> arithmetic that
  could overflow goes through \<open>ck\<close>, unsigned arithmetic is reduced modulo \<open>2 ^ 32\<close>
  or done on words. A loop that need not end is a \<open>partial_function\<close> in the option monad, and
  the theorems say that it ends. \<open>malloc\<close> and \<open>rand\<close> are parameters: whether a call
  returns a block and which, what an uninitialised block holds, and the numbers drawn. What the
  theorems assume of them (a fresh address, a non-negative number) are hypotheses.

  Where the code only links nodes into trees, the model is the datatype \<open>bt\<close> of
  \<open>BinTree\<close>, with one additional field for the height, level, priority or null path length.
  Where it depends on addresses (lists, chained hash tables, pairing heaps,
  red-black trees and skip lists), the model is an explicit heap from addresses to nodes and every assignment through a
  pointer is one store.

  \<^bold>\<open>Interfaces.\<close> The contracts that several components implement are locales, and each
  is interpreted on the model of the code, so that the clients' theorems are proved once:
  \<^item> \<open>sorting_routine\<close> (\<open>Sorting\<close>): the five sorts; its client is the test of
    \<^verbatim>\<open>sort.c\<close>.
  \<^item> \<open>ordered_set\<close>, \<open>ordered_set_del\<close> (\<open>BinTree\<close>): binary search tree, AVL tree,
    treap, AA tree, splay tree; its clients are sequences of operations, compared with the same
    sequence on mathematical sets, and (\<open>set_test\<close>, in \<open>SetTests\<close>) the test programs.
  \<^item> \<open>pqueue\<close>, \<open>pqueue_merge\<close> (\<open>PriorityQueue\<close>): binary heap, leftist heap, binomial
    queue, pairing heap; its clients sort with a queue, and (\<open>pq_test\<close>, in
    \<open>QueueTests\<close>) are the test programs.
  \<^item> \<open>bounded_set\<close> (\<open>BoundedSet\<close>): red-black tree and skip list; its clients fill
    a structure and (\<open>bounded_test\<close>, in \<open>BoundedTests\<close>) are the test programs.
  \<^item> \<open>pos_list\<close> (\<open>ListTests\<close>): the linked list and the cursor list, with the test
    program both share.
  \<^item> \<open>stack_adt\<close> (\<open>StackArray\<close>), \<open>queue_adt\<close> (\<open>QueueArray\<close>),
    \<open>disjoint_sets\<close> (\<open>DisjSets\<close>): both stacks, the queue, and both versions of
    the disjoint sets.
  \<^item> \<open>key_value_store\<close> (\<open>DbMain\<close>): the database; its client are sequences of
    requests, compared with the same requests on a finite map.

  \<^bold>\<open>Theories and sources\<close> (the sources are under \<^verbatim>\<open>src/DSAAC\<close>).
  \<^item> \<open>SortInsertion\<close>, \<open>SortHeap\<close>, \<open>SortMerge\<close>, \<open>SortQuick\<close>, \<open>Sorting\<close>:
    \<^verbatim>\<open>sort.c\<close>. Every sort returns the sorted array with all accesses in bounds;
    \<open>Qselect\<close> selects; the test never complains.
  \<^item> \<open>SearchTree\<close>, \<open>AvlTree\<close>, \<open>TreapTree\<close>, \<open>AATree\<close>, \<open>SplayTree\<close>:
    \<^verbatim>\<open>tree.c\<close>, \<^verbatim>\<open>avltree.c\<close>, \<^verbatim>\<open>treap.c\<close>, \<^verbatim>\<open>aatree.c\<close>, \<^verbatim>\<open>splay.c\<close>. Each refines
    the mathematical set and keeps its balance (heights, priorities, levels), with the errors of
    absent elements and of missing memory. For the AA tree, whose static \<open>DeletePtr\<close> outlives
    a call, the sequences include removals of absent elements, and the theorem says which of them
    dereference \<open>NULL\<close>; for the other trees the sequences only remove elements that are present.
  \<^item> \<open>NodeHeap\<close> (memory with nodes of one type), \<open>RedBlack\<close>, \<open>RedBlackInv\<close>,
    \<open>RedBlackSet\<close>: \<^verbatim>\<open>redblack.c\<close>. The top-down insertion through the four
    static pointers is proved on a zipper, the tree around the current node: it keeps the colors, the
    black heights and the order, and the depth is logarithmic. The tree refines the set.
  \<^item> \<open>SkipList\<close>, \<open>SkipListInv\<close>, \<open>SkipListSet\<close>: \<^verbatim>\<open>dsl.c\<close>. The
    levels in memory, the gaps of one to three elements between them, and that \<open>Insert\<close> keeps
    both; the number of levels is logarithmic. The list refines the set.
  \<^item> \<open>LeftHeap\<close>, \<open>BinHeap\<close>, \<open>BinomialQueue\<close>, \<open>PairHeap\<close>:
    \<^verbatim>\<open>leftheap.c\<close>, \<^verbatim>\<open>binheap.c\<close>, \<^verbatim>\<open>binomial.c\<close>, \<^verbatim>\<open>pairheap.c\<close>. Each
    refines the multiset of its elements, so filling and draining it sorts.
  \<^item> \<open>LinkedCells\<close>, \<open>ListAdt\<close>, \<open>StackList\<close>, \<open>Cursor\<close>, \<open>StackArray\<close>,
    \<open>QueueArray\<close>: \<^verbatim>\<open>list.c\<close>, \<^verbatim>\<open>stackli.c\<close>, \<^verbatim>\<open>cursor.c\<close>, \<^verbatim>\<open>stackar.c\<close>,
    \<^verbatim>\<open>queue.c\<close>. The operations act on the represented lists, free what they unlink and
    touch nothing else.
  \<^item> \<open>NextPrime\<close>, \<open>HashQuad\<close>, \<open>HashSep\<close>: \<^verbatim>\<open>hashquad.c\<close>,
    \<^verbatim>\<open>hashsep.c\<close>. The table sizes are prime, quadratic probing in a table at most half full
    ends, and both tables implement sets.
  \<^item> \<open>DisjSets\<close>: \<^verbatim>\<open>disjsets.c\<close>. Two \<open>Find\<close>s agree exactly if the elements
    have been connected.
  \<^item> \<open>MaxSum\<close>, \<open>Poly\<close>, \<open>IntroAlgos\<close>, \<open>NumberAlgos\<close>, \<open>DynProg\<close>,
    \<open>OptMatrix\<close>, \<open>AllPairs\<close>, \<open>KdTree\<close> (with \<open>Loops\<close> for counting
    loops and matrices): \<^verbatim>\<open>max_sum.c\<close>, \<^verbatim>\<open>poly.c\<close>, \<^verbatim>\<open>hashfunc.c\<close>,
    \<^verbatim>\<open>kdtree.c\<close> and the \<^verbatim>\<open>fig*.c\<close> files. The algorithms return what
    their specifications say: maximum subsequence sums, polynomial sums and products, binary search,
    gcd, powers, random numbers, primality, optimal matrix orders, shortest paths, range queries.
  \<^item> \<open>SetTests\<close>, \<open>QueueTests\<close>, \<open>BoundedTests\<close>, \<open>ListTests\<close>,
    \<open>HashTests\<close>: the test programs \<^verbatim>\<open>test*.c\<close>. They run to the end and print
    no error.
  \<^item> \<open>DbFiles\<close> to \<open>DbMain\<close>: \<^verbatim>\<open>src/apue/db/db.c\<close> and
    \<^verbatim>\<open>t4.c\<close>. \<open>DbFiles\<close> holds files as lists of bytes with an offset, locks, the
    \<open>DB\<close> structure, operations that can exit or not end, and the decimal numbers in the files;
    \<open>DbOps\<close> the functions of \<^verbatim>\<open>db.c\<close>. \<open>DbLayout\<close> shows that files in good
    order are determined by a list of records and the pointers, and what reading and writing fields and
    records does to these; \<open>DbChains\<close> adds the hash chains and the list of deleted records;
    \<open>DbMap\<close>, \<open>DbStore\<close> and \<open>DbScan\<close> show that fetching, deleting, storing,
    opening and stepping through the records act on the finite map that the database \<open>represents\<close>.
    \<open>DbMain\<close> also shows that requests that fail leave both files as they were. The lengths of keys and
    data are converted to \<open>int\<close> as in the code (\<open>c_int\<close>).
  \<^item> \<open>PxBase\<close>, \<open>Semaphore\<close>, \<open>SemOpen\<close>, \<open>ProdCons\<close>:
    \<^verbatim>\<open>src/unpv22e/my_pxsem_mmap\<close>, semaphores made of a mutex and a condition variable in a mapped
    file. A locked section is one step of a thread, and the theorems hold for every interleaving:
    the value counts the units, processes that open the same pathname get one initialised file with its magic number
    (whichever calls fail, but those of its creator), and
    the producer and the consumer of \<^verbatim>\<open>prodcons1.c\<close> exclude each other and always end. Lemmas
    beside them give the runs in which a wakeup is lost or a file is returned before it is ready.
  \<^item> \<open>FigureMains\<close>: the \<open>main\<close> functions of \<^verbatim>\<open>sort.c\<close>, \<^verbatim>\<open>disjsets.c\<close>,
    \<^verbatim>\<open>max_sum.c\<close>, \<^verbatim>\<open>poly.c\<close> and the figures, with what they print.

  \<^bold>\<open>Bounds.\<close> Array lengths up to \<open>2 ^ 30\<close> keep \<open>(Left + Right) / 2\<close> and
  \<open>LeftChild( i )\<close> within \<open>int\<close>; larger ones overflow in the code. The sentinels of
  \<^verbatim>\<open>binheap.c\<close>, \<^verbatim>\<open>binomial.c\<close>, \<^verbatim>\<open>treap.c\<close>, \<^verbatim>\<open>splay.c\<close>,
  \<^verbatim>\<open>redblack.c\<close> and \<^verbatim>\<open>dsl.c\<close> (\<open>MinData\<close>,
  \<open>Infinity\<close>, \<open>NegInfinity\<close>) bound the elements of those structures, and a pairing heap takes
  at most \<open>MaxSiblings\<close> siblings: the theorems state these bounds, and lemmas beside them show
  what happens beyond. The
  database takes keys of up to 1000 characters without null bytes and separators that are not blank, data of
  1 to 1023 characters, and an index file of up to \<open>PTR_MAX\<close> bytes, enough for 9000 requests
  (each adds at most 1035 bytes); \<open>DbMain\<close> shows what happens to other keys and larger files.
  Fuel occurs only in clients that drain a structure (\<open>drain\<close>,
  \<open>pop_all\<close>), where it is the number of elements.

  \<^bold>\<open>Not modelled.\<close> Of \<^verbatim>\<open>src/DSAAC\<close>: the machine code of \<open>testheap\<close> and the text of the
  lines that are printed, of which the values are kept. Of the
  database: other processes between two locked sections, and system calls that fail. Of the rest of the
  repository: the Unix and network programs of the other books, whose behaviour is that of
  the system calls they make, and the C++ solutions.
\<close>

end
